(* ===== verification/Prelude.thy ===== *)
theory Prelude
  imports Main "HOL-Library.AList" "HOL-Library.Multiset" "HOL-Library.Char_ord"
    "HOL-Library.List_Lexorder" "HOL-Library.Sublist"
begin

text \<open>
  Shared vocabulary of the development.

  \<^item> \<open>gomap\<close>: a Go \<^verbatim>\<open>map[string]V\<close>. It is an association list with one entry per
    key; the order of the list is the order in which a \<^verbatim>\<open>range\<close> over the map visits the
    entries, which Go leaves unspecified, so an order-independence statement is a statement
    about all permutations of that list. A nil map is the empty list.
  \<^item> \<open>result\<close>: a Go pair \<^verbatim>\<open>(value, error)\<close>: \<open>Inl\<close> is a non-nil error, \<open>Inr\<close> a value.
  \<^item> \<open>gotime\<close>, \<open>duration\<close>: \<^verbatim>\<open>time.Time\<close> as nanoseconds since Go's zero time (so
    \<^verbatim>\<open>IsZero\<close> is \<open>t = 0\<close>) and \<^verbatim>\<open>time.Duration\<close> in nanoseconds. Go's \<^verbatim>\<open>int\<close>,
    \<^verbatim>\<open>int64\<close> and \<^verbatim>\<open>Duration\<close> have 64 bits: they are \<open>int\<close>, and \<open>wrap64\<close> is applied
    wherever an input of the program can make an operation leave that range.
  \<^item> \<open>stepper\<close>: a state with operations that keep an invariant; its interpretations lift the
    invariant of each component to every finite sequence of its operations.
\<close>

named_theorems gomap_simps \<open>lookup and update equations of maps\<close>

type_synonym 'v gomap = "(string \<times> 'v) list"
type_synonym 'a result = "string + 'a"
type_synonym gotime = int
type_synonym duration = int

section \<open>Results\<close>

fun is_ok :: "'e + 'a \<Rightarrow> bool" where
  "is_ok (Inl e) = False"
| "is_ok (Inr a) = True"

lemma is_ok_iff: "is_ok r \<longleftrightarrow> (\<exists>a. r = Inr a)"
  by (cases r) auto

text \<open>Running a fallible operation over a list: the first error stops the loop.\<close>

fun try_fold :: "('s \<Rightarrow> 'a \<Rightarrow> 'e + 's) \<Rightarrow> 's \<Rightarrow> 'a list \<Rightarrow> 'e + 's" where
  "try_fold f s [] = Inr s"
| "try_fold f s (x # xs) = (case f s x of Inl e \<Rightarrow> Inl e | Inr s' \<Rightarrow> try_fold f s' xs)"

lemma try_fold_append:
  "try_fold f s (xs @ ys) = (case try_fold f s xs of Inl e \<Rightarrow> Inl e | Inr s' \<Rightarrow> try_fold f s' ys)"
  by (induction xs arbitrary: s) (auto split: sum.splits)

lemma try_fold_invariant:
  assumes "try_fold f s xs = Inr t" and "P s"
    and "\<And>s x s'. x \<in> set xs \<Longrightarrow> P s \<Longrightarrow> f s x = Inr s' \<Longrightarrow> P s'"
  shows "P t"
  using assms
proof (induction xs arbitrary: s)
  case Nil
  then show ?case by simp
next
  case (Cons x xs)
  from Cons.prems(1) obtain s' where s': "f s x = Inr s'" "try_fold f s' xs = Inr t"
    by (auto split: sum.splits)
  have "P s'" using Cons.prems(2,3) s'(1) by auto
  with s'(2) show ?case using Cons.IH Cons.prems(3) by (meson list.set_intros(2))
qed

section \<open>Maps\<close>

abbreviation mget :: "'v gomap \<Rightarrow> string \<Rightarrow> 'v option" where
  "mget m k \<equiv> map_of m k"

abbreviation mput :: "string \<Rightarrow> 'v \<Rightarrow> 'v gomap \<Rightarrow> 'v gomap" where
  "mput \<equiv> AList.update"

abbreviation mdel :: "string \<Rightarrow> 'v gomap \<Rightarrow> 'v gomap" where
  "mdel \<equiv> AList.delete"

text \<open>A lookup of an absent key yields the zero value of the element type.\<close>

definition mget_or :: "'v \<Rightarrow> 'v gomap \<Rightarrow> string \<Rightarrow> 'v" where
  "mget_or d m k = (case mget m k of None \<Rightarrow> d | Some v \<Rightarrow> v)"

abbreviation mkeys :: "'v gomap \<Rightarrow> string list" where
  "mkeys m \<equiv> map fst m"

definition wf_map :: "'v gomap \<Rightarrow> bool" where
  "wf_map m \<longleftrightarrow> distinct (mkeys m)"

lemmas map_of_mput [gomap_simps, simp] = update_conv'
lemmas map_of_mdel [gomap_simps, simp] = delete_conv'

lemma wf_map_Nil [simp]: "wf_map []"
  by (simp add: wf_map_def)

lemma wf_map_mput [simp]: "wf_map m \<Longrightarrow> wf_map (mput k v m)"
  by (simp add: wf_map_def distinct_update)

lemma wf_map_mdel [simp]: "wf_map m \<Longrightarrow> wf_map (mdel k m)"
  by (simp add: wf_map_def distinct_delete)

lemma mget_or_mput [gomap_simps, simp]:
  "mget_or d (mput k v m) k' = (if k' = k then v else mget_or d m k')"
  by (simp add: mget_or_def)

lemma mget_or_Nil [simp]: "mget_or d [] k = d"
  by (simp add: mget_or_def)

lemma mget_map_values: "mget (map (\<lambda>(k, v). (k, f k v)) m) k = map_option (f k) (mget m k)"
  by (induction m) auto

lemma set_mkeys: "set (mkeys m) = dom (map_of m)"
  by (simp add: dom_map_of_conv_image_fst)

lemma set_mkeys_mput: "set (mkeys (mput k v m)) = insert k (set (mkeys m))"
  by (simp add: dom_update)

lemma wf_map_mem: "wf_map m \<Longrightarrow> (k, v) \<in> set m \<longleftrightarrow> mget m k = Some v"
  by (simp add: wf_map_def)

text \<open>The map laws the stores of the control plane rely on, as an interface.\<close>

locale string_map =
  fixes empty :: 'm
    and lookup :: "'m \<Rightarrow> string \<Rightarrow> 'v option"
    and put :: "string \<Rightarrow> 'v \<Rightarrow> 'm \<Rightarrow> 'm"
    and del :: "string \<Rightarrow> 'm \<Rightarrow> 'm"
    and invar :: "'m \<Rightarrow> bool"
  assumes empty_lookup: "lookup empty k = None"
    and put_lookup: "invar m \<Longrightarrow> lookup (put k v m) k' = (if k' = k then Some v else lookup m k')"
    and del_lookup: "invar m \<Longrightarrow> lookup (del k m) k' = (if k' = k then None else lookup m k')"
    and empty_invar: "invar empty"
    and put_invar: "invar m \<Longrightarrow> invar (put k v m)"
    and del_invar: "invar m \<Longrightarrow> invar (del k m)"
begin

lemma put_twice:
  "invar m \<Longrightarrow> lookup (put k v (put k w m)) k' = lookup (put k v m) k'"
  by (simp add: put_lookup put_invar)

lemma put_fresh_del:
  "invar m \<Longrightarrow> lookup m k = None \<Longrightarrow> lookup (del k (put k v m)) k' = lookup m k'"
  by (simp add: put_lookup del_lookup put_invar)

lemma fold_put_invar:
  "invar m \<Longrightarrow> invar (fold (\<lambda>(k, v). put k v) kvs m)"
  by (induction kvs arbitrary: m) (auto simp: put_invar)

lemma fold_put_lookup_other:
  "invar m \<Longrightarrow> k \<notin> fst ` set kvs \<Longrightarrow> lookup (fold (\<lambda>(k, v). put k v) kvs m) k = lookup m k"
proof (induction kvs arbitrary: m)
  case Nil
  then show ?case by simp
next
  case (Cons kv kvs)
  then show ?case by (cases kv) (simp add: put_lookup put_invar)
qed

end

interpretation gomap: string_map "[]" "map_of :: (string \<times> 'v) list \<Rightarrow> string \<Rightarrow> 'v option"
  "AList.update" "AList.delete" wf_map
  by unfold_locales (auto simp: update_conv' delete_conv')

section \<open>Runs of a stateful component\<close>

locale stepper =
  fixes step :: "'s \<Rightarrow> 'op \<Rightarrow> 's"
    and inv :: "'s \<Rightarrow> bool"
  assumes step_inv: "inv s \<Longrightarrow> inv (step s op)"
begin

lemma run_inv: "inv s \<Longrightarrow> inv (foldl step s ops)"
  by (induction ops arbitrary: s) (auto simp: step_inv)

lemma run_prefix_inv: "inv s \<Longrightarrow> inv (foldl step s (take n ops))"
  by (rule run_inv)

end

section \<open>Machine integers\<close>

definition wrap64 :: "int \<Rightarrow> int" where
  "wrap64 x = (x + 2 ^ 63) mod 2 ^ 64 - 2 ^ 63"

lemma wrap64_id: "- (2 ^ 63) \<le> x \<Longrightarrow> x < 2 ^ 63 \<Longrightarrow> wrap64 x = x"
  by (simp add: wrap64_def)

lemma wrap64_range: "- (2 ^ 63) \<le> wrap64 x \<and> wrap64 x < 2 ^ 63"
proof -
  have "0 \<le> (x + 2 ^ 63) mod 2 ^ 64" "(x + 2 ^ 63) mod 2 ^ 64 < (2::int) ^ 64" by simp_all
  then show ?thesis by (simp add: wrap64_def)
qed

text \<open>Go's integer division truncates toward zero.\<close>

definition go_div :: "int \<Rightarrow> int \<Rightarrow> int" where
  "go_div a b = sgn a * sgn b * (\<bar>a\<bar> div \<bar>b\<bar>)"

lemma go_div_nonneg: "0 \<le> a \<Longrightarrow> 0 < b \<Longrightarrow> go_div a b = a div b"
  by (cases "a = 0") (simp_all add: go_div_def)

text \<open>\<^verbatim>\<open>time.Duration(n) * time.Second\<close> for an \<^verbatim>\<open>int\<close> that the caller supplies.\<close>

definition seconds :: "int \<Rightarrow> duration" where
  "seconds n = wrap64 (n * 1000000000)"

lemma seconds_small: "0 \<le> n \<Longrightarrow> n \<le> 9223372036 \<Longrightarrow> seconds n = n * 1000000000"
  by (simp add: seconds_def wrap64_id)

section \<open>Sorted lists of strings\<close>

lemma sort_perm_eq: "mset xs = mset ys \<Longrightarrow> sort xs = sort (ys :: 'a::linorder list)"
  by (metis mset_sort properties_for_sort sorted_sort)

lemma sort_singleton_conv [simp]: "sort xs = [] \<longleftrightarrow> xs = []"
  by (metis length_0_conv length_sort)

end
