(* ===== verification/GoStrings.thy ===== *)
theory GoStrings
  imports Prelude
begin

text \<open>
  The part of Go's \<^verbatim>\<open>strings\<close> and \<^verbatim>\<open>strconv\<close> packages that the program calls, and the
  program's own \<^verbatim>\<open>itoa\<close> (internal/control/queue.go). A Go string is a sequence of
  bytes, here a \<open>string\<close>; \<open><\<close> on strings is the bytewise lexicographic order.

  \<open>TrimSpace\<close> removes exactly the UTF-8 encodings of the code points for which
  \<^verbatim>\<open>unicode.IsSpace\<close> holds. \<open>ToLower\<close> maps the ASCII letters and keeps every byte from
  128 upward, so case mapping outside ASCII is not modelled.
\<close>

section \<open>TrimSpace\<close>

definition ascii_space :: "char \<Rightarrow> bool" where
  "ascii_space c \<longleftrightarrow> c = CHR 0x20 \<or> c = CHR 0x09 \<or> c = CHR 0x0A \<or> c = CHR 0x0B \<or>
     c = CHR 0x0C \<or> c = CHR 0x0D"

text \<open>U+0085, U+00A0, U+1680, U+2000 to U+200A, U+2028, U+2029, U+202F, U+205F, U+3000.\<close>

definition wide_spaces :: "string list" where
  "wide_spaces =
     [[CHR 0xC2, CHR 0x85], [CHR 0xC2, CHR 0xA0], [CHR 0xE1, CHR 0x9A, CHR 0x80],
      [CHR 0xE2, CHR 0x80, CHR 0x80], [CHR 0xE2, CHR 0x80, CHR 0x81],
      [CHR 0xE2, CHR 0x80, CHR 0x82], [CHR 0xE2, CHR 0x80, CHR 0x83],
      [CHR 0xE2, CHR 0x80, CHR 0x84], [CHR 0xE2, CHR 0x80, CHR 0x85],
      [CHR 0xE2, CHR 0x80, CHR 0x86], [CHR 0xE2, CHR 0x80, CHR 0x87],
      [CHR 0xE2, CHR 0x80, CHR 0x88], [CHR 0xE2, CHR 0x80, CHR 0x89],
      [CHR 0xE2, CHR 0x80, CHR 0x8A], [CHR 0xE2, CHR 0x80, CHR 0xA8],
      [CHR 0xE2, CHR 0x80, CHR 0xA9], [CHR 0xE2, CHR 0x80, CHR 0xAF],
      [CHR 0xE2, CHR 0x81, CHR 0x9F], [CHR 0xE3, CHR 0x80, CHR 0x80]]"

text \<open>How many leading bytes belong to a white-space character; \<open>ws\<close> holds the multi-byte ones.\<close>

fun space_width :: "string list \<Rightarrow> string \<Rightarrow> nat" where
  "space_width ws [] = 0"
| "space_width ws (c # cs) =
     (if ascii_space c then 1
      else if of_char c < (128::nat) then 0
      else case find (\<lambda>w. prefix w (c # cs)) ws of None \<Rightarrow> 0 | Some w \<Rightarrow> length w)"

function strip :: "string list \<Rightarrow> string \<Rightarrow> string" where
  "strip ws s = (if space_width ws s = 0 then s else strip ws (drop (space_width ws s) s))"
  by pat_completeness auto
termination
proof (relation "measure (\<lambda>(ws, s). length s)")
  fix ws s assume "space_width ws s \<noteq> 0"
  moreover from this have "s \<noteq> []" by (metis space_width.simps(1))
  ultimately show "((ws, drop (space_width ws s) s), ws, s) \<in> measure (\<lambda>(ws, s). length s)"
    by simp
qed simp

declare strip.simps [simp del]

definition trim_left :: "string \<Rightarrow> string" where
  "trim_left s = strip wide_spaces s"

definition trim_right :: "string \<Rightarrow> string" where
  "trim_right s = rev (strip (map rev wide_spaces) (rev s))"

definition TrimSpace :: "string \<Rightarrow> string" where
  "TrimSpace s = trim_right (trim_left s)"

text \<open>A character that no white-space encoding contains: trimming keeps it.\<close>

definition solid :: "char \<Rightarrow> bool" where
  "solid c \<longleftrightarrow> \<not> ascii_space c \<and> of_char c < (128::nat)"

lemma strip_Nil [simp]: "strip ws [] = []"
  by (simp add: strip.simps)

lemma strip_stops: "space_width ws (strip ws s) = 0"
  by (induction ws s rule: strip.induct) (metis strip.simps)

lemma strip_fixed: "space_width ws s = 0 \<Longrightarrow> strip ws s = s"
  by (simp add: strip.simps)

lemma strip_suffix: "suffix (strip ws s) s"
proof (induction ws s rule: strip.induct)
  case (1 ws s)
  show ?case
  proof (cases "space_width ws s = 0")
    case False
    with "1.IH" have "suffix (strip ws (drop (space_width ws s) s)) (drop (space_width ws s) s)"
      by simp
    with False show ?thesis
      by (metis strip.simps suffix_drop suffix_order.trans)
  qed (simp add: strip_fixed)
qed

lemma space_width_prefix: "prefix t s \<Longrightarrow> space_width ws s = 0 \<Longrightarrow> [] \<notin> set ws \<Longrightarrow> space_width ws t = 0"
proof (cases t)
  case (Cons c cs)
  assume pre: "prefix t s" and zero: "space_width ws s = 0" and ne: "[] \<notin> set ws"
  from pre Cons obtain zs where s: "s = c # cs @ zs" by (auto simp: prefix_def)
  show ?thesis
  proof (cases "ascii_space c \<or> of_char c < (128::nat)")
    case True
    with zero Cons s show ?thesis by (auto split: if_splits)
  next
    case False
    with zero s have "find (\<lambda>w. prefix w (c # cs @ zs)) ws = None"
      using ne by (auto simp: find_Some_iff in_set_conv_nth split: option.splits if_splits)
    then have "find (\<lambda>w. prefix w (c # cs)) ws = None"
      by (auto simp: find_None_iff dest: prefix_order.trans[of _ "c # cs" "c # cs @ zs"])
    with False Cons show ?thesis by simp
  qed
qed simp

lemma trim_right_prefix: "prefix (trim_right s) s"
  by (metis trim_right_def strip_suffix suffix_to_prefix rev_rev_ident)

lemma TrimSpace_Nil [simp]: "TrimSpace [] = []"
  by (simp add: TrimSpace_def trim_left_def trim_right_def)

lemma wide_spaces_nonempty: "[] \<notin> set wide_spaces" "[] \<notin> set (map rev wide_spaces)"
  by (simp_all add: wide_spaces_def)

lemma TrimSpace_idem [simp]: "TrimSpace (TrimSpace s) = TrimSpace s"
proof -
  let ?l = "trim_left s"
  have l0: "space_width wide_spaces ?l = 0"
    by (simp add: trim_left_def strip_stops)
  have "space_width wide_spaces (trim_right ?l) = 0"
    by (rule space_width_prefix [OF trim_right_prefix l0 wide_spaces_nonempty(1)])
  then have "trim_left (TrimSpace s) = trim_right ?l"
    by (simp add: trim_left_def TrimSpace_def strip_fixed)
  moreover have "trim_right (trim_right ?l) = trim_right ?l"
    by (simp add: trim_right_def strip_fixed strip_stops)
  ultimately show ?thesis by (simp add: TrimSpace_def)
qed

lemma TrimSpace_solid_ends:
  "s = [] \<or> solid (hd s) \<and> solid (last s) \<Longrightarrow> TrimSpace s = s"
proof (cases "s = []")
  case False
  assume "s = [] \<or> solid (hd s) \<and> solid (last s)"
  with False obtain c cs where s: "s = c # cs" and c: "solid c" and l: "solid (last s)"
    by (cases s) auto
  have left: "trim_left s = s"
    using c s by (simp add: trim_left_def strip_fixed solid_def)
  obtain d ds where r: "rev s = d # ds" using False by (cases "rev s") auto
  then have "last s = d" by (metis hd_rev list.sel(1))
  with l r have "space_width (map rev wide_spaces) (rev s) = 0"
    by (simp add: solid_def del: rev_is_Nil_conv)
  then have "trim_right s = s" by (simp add: trim_right_def strip_fixed)
  with left show ?thesis by (simp add: TrimSpace_def)
qed simp

section \<open>ToLower, prefixes, substrings, joining\<close>

fun lower_char :: "char \<Rightarrow> char" where
  "lower_char (Char b0 b1 b2 b3 b4 b5 b6 b7) =
     (let c = Char b0 b1 b2 b3 b4 b5 b6 b7
      in if (65::nat) \<le> of_char c \<and> of_char c \<le> (90::nat)
         then Char b0 b1 b2 b3 b4 True b6 b7 else c)"

definition ToLower :: "string \<Rightarrow> string" where
  "ToLower s = map lower_char s"

lemma lower_char_idem [simp]: "lower_char (lower_char c) = lower_char c"
  by (cases c) (auto simp: Let_def)

lemma ToLower_idem [simp]: "ToLower (ToLower s) = ToLower s"
  by (simp add: ToLower_def)

lemma ToLower_Nil [simp]: "ToLower [] = []"
  by (simp add: ToLower_def)

lemma ToLower_eq_Nil [simp]: "ToLower s = [] \<longleftrightarrow> s = []"
  by (simp add: ToLower_def)

lemma length_ToLower [simp]: "length (ToLower s) = length s"
  by (simp add: ToLower_def)

text \<open>Lower-casing neither makes nor removes white space, so it commutes with trimming.\<close>

definition high_bytes :: "string list \<Rightarrow> bool" where
  "high_bytes ws \<longleftrightarrow> (\<forall>w \<in> set ws. \<forall>c \<in> set w. (128::nat) \<le> of_char c)"

lemma lower_char_high: "128 \<le> (of_char c :: nat) \<Longrightarrow> lower_char c = c"
  by (cases c) (simp add: Let_def)

lemma of_char_lower_le: "(of_char (lower_char c) :: nat) < 128 \<longleftrightarrow> (of_char c :: nat) < 128"
  by (cases c) (auto simp: Let_def of_char_def)

lemma ascii_space_lower: "ascii_space (lower_char c) \<longleftrightarrow> ascii_space c"
  by (cases c) (auto simp: Let_def ascii_space_def)

lemma high_bytes_wide: "high_bytes wide_spaces" "high_bytes (map rev wide_spaces)"
  by (simp_all add: high_bytes_def wide_spaces_def)

lemma prefix_ToLower_high:
  "\<forall>c \<in> set w. (128::nat) \<le> of_char c \<Longrightarrow> prefix w (ToLower s) \<longleftrightarrow> prefix w s"
proof (induction w arbitrary: s)
  case Nil
  then show ?case by simp
next
  case (Cons a w)
  show ?case
  proof (cases s)
    case Nil
    then show ?thesis by simp
  next
    case (Cons b t)
    have "a = lower_char b \<longleftrightarrow> a = b"
      using \<open>\<forall>c \<in> set (a # w). _ c\<close> lower_char_high[of b] of_char_lower_le[of b] by fastforce
    then show ?thesis using Cons Cons.IH Cons.prems by (simp add: ToLower_def)
  qed
qed

lemma space_width_ToLower: "high_bytes ws \<Longrightarrow> space_width ws (ToLower s) = space_width ws s"
proof (cases s)
  case (Cons c cs)
  assume hb: "high_bytes ws"
  have "find (\<lambda>w. prefix w (lower_char c # ToLower cs)) ws = find (\<lambda>w. prefix w (c # cs)) ws"
    using hb prefix_ToLower_high[of _ "c # cs"]
    by (intro find_cong) (auto simp: high_bytes_def ToLower_def)
  then show ?thesis
    using Cons by (simp add: ToLower_def ascii_space_lower of_char_lower_le)
qed simp

lemma strip_ToLower: "high_bytes ws \<Longrightarrow> strip ws (ToLower s) = ToLower (strip ws s)"
proof (induction ws s rule: strip.induct)
  case (1 ws s)
  show ?case
  proof (cases "space_width ws s = 0")
    case True
    then show ?thesis using 1 by (simp add: strip_fixed space_width_ToLower)
  next
    case False
    have "strip ws (ToLower s) = strip ws (drop (space_width ws s) (ToLower s))"
      using False 1 by (subst strip.simps) (simp add: space_width_ToLower)
    also have "\<dots> = strip ws (ToLower (drop (space_width ws s) s))"
      by (simp add: ToLower_def drop_map)
    also have "\<dots> = ToLower (strip ws (drop (space_width ws s) s))"
      using 1 False by simp
    also have "\<dots> = ToLower (strip ws s)"
      using False by (simp add: strip.simps[of ws s])
    finally show ?thesis .
  qed
qed

lemma TrimSpace_ToLower: "TrimSpace (ToLower s) = ToLower (TrimSpace s)"
proof -
  have r: "rev (ToLower s) = ToLower (rev s)" for s by (simp add: ToLower_def rev_map)
  show ?thesis
    by (simp add: TrimSpace_def trim_left_def trim_right_def strip_ToLower high_bytes_wide r)
qed

text \<open>\<^verbatim>\<open>strings.ToLower(strings.TrimSpace(s))\<close>, the normal form of names and modes.\<close>

definition lower_trim :: "string \<Rightarrow> string" where
  "lower_trim s = ToLower (TrimSpace s)"

lemma lower_trim_idem [simp]: "lower_trim (lower_trim s) = lower_trim s"
  by (simp add: lower_trim_def TrimSpace_ToLower)

lemma lower_trim_trim [simp]: "TrimSpace (lower_trim s) = lower_trim s"
  by (simp add: lower_trim_def TrimSpace_ToLower)

lemma lower_trim_Nil [simp]: "lower_trim [] = []"
  by (simp add: lower_trim_def)

definition HasPrefix :: "string \<Rightarrow> string \<Rightarrow> bool" where
  "HasPrefix s p \<longleftrightarrow> take (length p) s = p"

definition HasSuffix :: "string \<Rightarrow> string \<Rightarrow> bool" where
  "HasSuffix s p \<longleftrightarrow> HasPrefix (rev s) (rev p)"

definition TrimPrefix :: "string \<Rightarrow> string \<Rightarrow> string" where
  "TrimPrefix s p = (if HasPrefix s p then drop (length p) s else s)"

fun Contains :: "string \<Rightarrow> string \<Rightarrow> bool" where
  "Contains [] p = (p = [])"
| "Contains (c # cs) p = (HasPrefix (c # cs) p \<or> Contains cs p)"

lemma HasPrefix_prefix: "HasPrefix s p \<longleftrightarrow> prefix p s"
  by (auto simp: HasPrefix_def prefix_def) (metis append_take_drop_id)

lemma Contains_sublist: "Contains s p \<longleftrightarrow> sublist p s"
  by (induction s) (auto simp: HasPrefix_prefix sublist_Cons_right)

text \<open>\<^verbatim>\<open>strings.Join\<close>.\<close>

fun Join :: "string list \<Rightarrow> string \<Rightarrow> string" where
  "Join [] sep = []"
| "Join [x] sep = x"
| "Join (x # y # ys) sep = x @ sep @ Join (y # ys) sep"

text \<open>\<^verbatim>\<open>strings.ReplaceAll\<close> for a one-byte pattern.\<close>

definition ReplaceAll1 :: "string \<Rightarrow> char \<Rightarrow> string \<Rightarrow> string" where
  "ReplaceAll1 s c r = concat (map (\<lambda>x. if x = c then r else [x]) s)"

section \<open>Decimal numbers\<close>

definition digit_char :: "int \<Rightarrow> char" where
  "digit_char d = ''0123456789'' ! nat d"

text \<open>
  The loop of \<^verbatim>\<open>itoa\<close> fills a 20-byte buffer from its end; an \<^verbatim>\<open>int64\<close> has at most 19
  digits. For a negative argument the loop does not run and the result is empty.
\<close>

function itoa_loop :: "int \<Rightarrow> string \<Rightarrow> string" where
  "itoa_loop n acc = (if n > 0 then itoa_loop (n div 10) (digit_char (n mod 10) # acc) else acc)"
  by pat_completeness auto
termination
  by (relation "measure (\<lambda>(n, acc). nat n)") auto

declare itoa_loop.simps [simp del]

definition itoa :: "int \<Rightarrow> string" where
  "itoa n = (if n = 0 then ''0'' else itoa_loop n [])"

text \<open>\<^verbatim>\<open>strconv.Itoa\<close>.\<close>

definition strconv_Itoa :: "int \<Rightarrow> string" where
  "strconv_Itoa n = (if n < 0 then CHR ''-'' # itoa (- n) else itoa n)"

definition is_digit :: "char \<Rightarrow> bool" where
  "is_digit c \<longleftrightarrow> c \<in> set ''0123456789''"

fun digit_val :: "char \<Rightarrow> int" where
  "digit_val c = of_char c - 48"

fun parse_digits :: "int \<Rightarrow> string \<Rightarrow> int" where
  "parse_digits acc [] = acc"
| "parse_digits acc (c # cs) = parse_digits (10 * acc + digit_val c) cs"

lemma digit_cases:
  "0 \<le> d \<Longrightarrow> d < 10 \<Longrightarrow> d \<in> {0, 1, 2, 3, 4, 5, 6, 7, 8, 9::int}"
  by (simp only: insert_iff empty_iff) presburger

lemma digit_char_props:
  assumes "0 \<le> d" "d < 10"
  shows "is_digit (digit_char d)" and "digit_val (digit_char d) = d"
  using digit_cases [OF assms] by (auto simp: digit_char_def is_digit_def nth_Cons')

lemma parse_digits_itoa_loop:
  "0 \<le> n \<Longrightarrow> parse_digits 0 (itoa_loop n acc) = parse_digits n acc"
proof (induction n acc rule: itoa_loop.induct)
  case (1 n acc)
  show ?case
  proof (cases "n > 0")
    case True
    have "parse_digits 0 (itoa_loop n acc)
        = parse_digits (n div 10) (digit_char (n mod 10) # acc)"
      using "1.IH" True by (simp add: itoa_loop.simps [of n acc])
    also have "\<dots> = parse_digits (10 * (n div 10) + n mod 10) acc"
      using digit_char_props(2) [of "n mod 10"] by simp
    finally show ?thesis by simp
  next
    case False
    with "1.prems" show ?thesis by (simp add: itoa_loop.simps)
  qed
qed

lemma parse_digits_itoa: "0 \<le> n \<Longrightarrow> parse_digits 0 (itoa n) = n"
  by (simp add: itoa_def parse_digits_itoa_loop)

lemma itoa_inj: "0 \<le> m \<Longrightarrow> 0 \<le> n \<Longrightarrow> itoa m = itoa n \<longleftrightarrow> m = n"
  by (metis parse_digits_itoa)

lemma itoa_loop_digits:
  "\<forall>c \<in> set acc. is_digit c \<Longrightarrow> \<forall>c \<in> set (itoa_loop n acc). is_digit c"
proof (induction n acc rule: itoa_loop.induct)
  case (1 n acc)
  then show ?case
    using digit_char_props(1) [of "n mod 10"] by (subst itoa_loop.simps) (auto split: if_splits)
qed

lemma itoa_digits: "c \<in> set (itoa n) \<Longrightarrow> is_digit c"
  using itoa_loop_digits [of "[]" n] by (auto simp: itoa_def is_digit_def split: if_splits)

lemma itoa_nonempty: "0 \<le> n \<Longrightarrow> itoa n \<noteq> []"
proof -
  assume "0 \<le> n"
  have "n > 0 \<Longrightarrow> itoa_loop n [] \<noteq> []"
  proof -
    have "acc \<noteq> [] \<or> n > 0 \<Longrightarrow> itoa_loop n acc \<noteq> []" for acc n
      by (induction n acc rule: itoa_loop.induct) (subst itoa_loop.simps, auto)
    then show "n > 0 \<Longrightarrow> itoa_loop n [] \<noteq> []" by simp
  qed
  with \<open>0 \<le> n\<close> show ?thesis by (simp add: itoa_def)
qed

text \<open>
  Identifiers made from a fixed prefix and a counter, the scheme of every store of the
  control plane: a counter that only grows gives an identifier not used before.
\<close>

definition seq_id :: "string \<Rightarrow> int \<Rightarrow> string" where
  "seq_id p n = p @ itoa n"

lemma seq_id_inj: "0 \<le> m \<Longrightarrow> 0 \<le> n \<Longrightarrow> seq_id p m = seq_id p n \<longleftrightarrow> m = n"
  by (simp add: seq_id_def itoa_inj)

definition ids_below :: "string \<Rightarrow> int \<Rightarrow> string set \<Rightarrow> bool" where
  "ids_below p n ids \<longleftrightarrow> 0 \<le> n \<and> (\<forall>i \<in> ids. \<exists>k. 1 \<le> k \<and> k \<le> n \<and> i = seq_id p k)"

lemma ids_below_fresh: "ids_below p n ids \<Longrightarrow> seq_id p (n + 1) \<notin> ids"
  by (auto simp: ids_below_def seq_id_inj)

lemma ids_below_insert: "ids_below p n ids \<Longrightarrow> ids_below p (n + 1) (insert (seq_id p (n + 1)) ids)"
  unfolding ids_below_def by (auto intro: exI [of _ "n + 1"]) (metis add.commute add_increasing le_cases zero_le_one order_trans)

lemma ids_below_mono: "ids_below p n ids \<Longrightarrow> ids' \<subseteq> ids \<Longrightarrow> ids_below p n ids'"
  by (auto simp: ids_below_def)

lemma ids_below_empty [simp]: "ids_below p 0 {}"
  by (simp add: ids_below_def)

end
