(* ===== verification/ConfigModel.thy ===== *)
theory ConfigModel
  imports GoStrings
begin

text \<open>
  The desired-state data model of internal/config/model.go: one record per struct, one field
  per source field, in the source's order. A nil slice and an empty slice are both \<open>[]\<close>; a nil
  map and an empty map are both \<open>[]\<close>. The one-field struct \<^verbatim>\<open>Inventory\<close> is
  replaced by its list of hosts. A Go \<^verbatim>\<open>int\<close> field is an \<open>int\<close>.
\<close>

record execution =
  ex_strategy :: string
  ex_serial :: int
  ex_failure_domain :: string
  ex_max_fail_percentage :: int
  ex_any_errors_fatal :: bool

record host =
  h_name :: string
  h_transport :: string
  h_address :: string
  h_user :: string
  h_port :: int
  h_jump_address :: string
  h_jump_user :: string
  h_jump_port :: int
  h_proxy_command :: string
  h_capabilities :: "string list"
  h_labels :: "string gomap"
  h_roles :: "string list"
  h_topology :: "string gomap"

record resource =
  r_id :: string
  r_type :: string
  r_host :: string
  r_delegate_to :: string
  r_depends_on :: "string list"
  r_require :: "string list"
  r_before :: "string list"
  r_notify :: "string list"
  r_subscribe :: "string list"
  r_notify_handlers :: "string list"
  r_when :: string
  r_matrix :: "string list gomap"
  r_loop :: "string list"
  r_loop_var :: string
  r_tags :: "string list"
  r_path :: string
  r_content :: string
  r_mode :: string
  r_content_checksum :: string
  r_content_signature :: string
  r_content_signing_pubkey :: string
  r_command :: string
  r_creates :: string
  r_only_if :: string
  r_unless :: string
  r_refresh_only :: bool
  r_refresh_command :: string
  r_become :: bool
  r_become_user :: string
  r_rescue_command :: string
  r_always_command :: string
  r_retries :: int
  r_retry_delay_seconds :: int
  r_retry_backoff :: string
  r_retry_jitter_secs :: int
  r_until_contains :: string
  r_registry_key :: string
  r_registry_value :: string
  r_registry_value_type :: string
  r_task_name :: string
  r_task_schedule :: string
  r_task_command :: string

record config =
  cfg_version :: string
  cfg_includes :: "string list"
  cfg_imports :: "string list"
  cfg_overlays :: "string list"
  cfg_hosts :: "host list"
  cfg_execution :: execution
  cfg_resources :: "resource list"
  cfg_handlers :: "resource list"

text \<open>The zero values of the structs.\<close>

definition zero_execution :: execution where
  "zero_execution = \<lparr>ex_strategy = [], ex_serial = 0, ex_failure_domain = [],
     ex_max_fail_percentage = 0, ex_any_errors_fatal = False\<rparr>"

definition zero_host :: host where
  "zero_host = \<lparr>h_name = [], h_transport = [], h_address = [], h_user = [], h_port = 0,
     h_jump_address = [], h_jump_user = [], h_jump_port = 0, h_proxy_command = [],
     h_capabilities = [], h_labels = [], h_roles = [], h_topology = []\<rparr>"

definition zero_resource :: resource where
  "zero_resource = \<lparr>r_id = [], r_type = [], r_host = [], r_delegate_to = [], r_depends_on = [],
     r_require = [], r_before = [], r_notify = [], r_subscribe = [], r_notify_handlers = [],
     r_when = [], r_matrix = [], r_loop = [], r_loop_var = [], r_tags = [], r_path = [],
     r_content = [], r_mode = [], r_content_checksum = [], r_content_signature = [],
     r_content_signing_pubkey = [], r_command = [], r_creates = [], r_only_if = [], r_unless = [],
     r_refresh_only = False, r_refresh_command = [], r_become = False, r_become_user = [],
     r_rescue_command = [], r_always_command = [], r_retries = 0, r_retry_delay_seconds = 0,
     r_retry_backoff = [], r_retry_jitter_secs = 0, r_until_contains = [], r_registry_key = [],
     r_registry_value = [], r_registry_value_type = [], r_task_name = [], r_task_schedule = [],
     r_task_command = []\<rparr>"

definition zero_config :: config where
  "zero_config = \<lparr>cfg_version = [], cfg_includes = [], cfg_imports = [], cfg_overlays = [],
     cfg_hosts = [], cfg_execution = zero_execution, cfg_resources = [], cfg_handlers = []\<rparr>"

text \<open>The identifiers a resource names in its relations, by the direction of the edge.\<close>

definition upstream_refs :: "resource \<Rightarrow> string list" where
  "upstream_refs r = r_depends_on r @ r_require r @ r_subscribe r"

definition downstream_refs :: "resource \<Rightarrow> string list" where
  "downstream_refs r = r_before r @ r_notify r"

abbreviation res_ids :: "config \<Rightarrow> string list" where
  "res_ids c \<equiv> map r_id (cfg_resources c)"

text \<open>A small configuration that the examples of the development share.\<close>

definition web_host :: host where
  "web_host = zero_host\<lparr>h_name := ''web'', h_transport := ''local''\<rparr>"

definition db_host :: host where
  "db_host = zero_host\<lparr>h_name := ''db'', h_transport := ''ssh'', h_address := ''10.0.0.7''\<rparr>"

definition pkg_res :: resource where
  "pkg_res = zero_resource\<lparr>r_id := ''pkg'', r_type := ''command'', r_host := ''web'',
     r_command := ''install''\<rparr>"

definition conf_res :: resource where
  "conf_res = zero_resource\<lparr>r_id := ''conf'', r_type := ''file'', r_host := ''web'',
     r_path := ''/etc/app'', r_content := ''on'', r_depends_on := [''pkg''], r_notify := [''svc'']\<rparr>"

definition svc_res :: resource where
  "svc_res = zero_resource\<lparr>r_id := ''svc'', r_type := ''command'', r_host := ''db'',
     r_command := ''restart'', r_refresh_only := True\<rparr>"

definition demo_config :: config where
  "demo_config = zero_config\<lparr>cfg_version := ''v0'', cfg_hosts := [web_host, db_host],
     cfg_resources := [svc_res, conf_res, pkg_res]\<rparr>"

lemmas demo_defs = web_host_def db_host_def pkg_res_def conf_res_def svc_res_def demo_config_def
  zero_config_def zero_resource_def zero_host_def zero_execution_def

end
