(* ===== verification/ConfigValidate.thy ===== *)
theory ConfigValidate
  imports ConfigModel
begin

text \<open>
  \<^verbatim>\<open>Validate\<close> of internal/config/validate.go. The code checks and normalises the
  configuration in place and returns the first error; the model returns that error
  (\<open>Inl\<close>, one constructor per message, with the message's arguments) or the normalised
  configuration (\<open>Inr\<close>). What the code leaves behind in the argument when it returns an error
  is not modelled: its callers drop the configuration then.

  A \<^verbatim>\<open>map[string]struct{}\<close> used as a set is a list of its members.
\<close>

datatype owner = OwnerResource | OwnerHandler

datatype host_problem =
  DuplicateHost | BadTransport string | BadPort int | BadJumpPort int | BadCapability string

datatype field_problem =
    EscalationUnsupported | GuardsUnsupported | RefreshCommandUnsupported | HooksUnsupported
  | RetryUnsupported | BadChecksum | SignatureIncomplete | PathRequired | IntegrityUnsupported
  | CommandRequired | BadRetries | BadRetryDelay | BadRetryBackoff | BadRetryJitter
  | RegistryKeyRequired | BadRegistryType | TaskNameRequired | TaskCommandRequired

datatype ref_kind =
  RefDependsOn | RefRequire | RefSubscribe | RefBefore | RefNotify | RefNotifyHandlers

datatype item_problem =
    DuplicateId | UnknownHost string | UnknownDelegate string | MatrixEmptyKey
  | MatrixNoValues string | LoopVarNotToken string | LoopVarConflict string
  | FieldProblem field_problem | UnsupportedType string | HandlerRelations
  | UnknownRef ref_kind string | RefreshOnlyUntriggered

datatype cfg_error =
    ConfigNil | VersionRequired | BadStrategy | BadSerial | BadMaxFailPercentage
  | BadFailureDomain | HostNameRequired nat | HostError string host_problem
  | IdRequired owner nat | ItemError owner string item_problem

section \<open>Token lists\<close>

text \<open>
  The loop that the code repeats for roles, tags, matrix values and loop items: normalise each
  token, drop the empty ones and the ones already seen.
\<close>

fun clean_loop :: "(string \<Rightarrow> string) \<Rightarrow> string list \<Rightarrow> string list \<Rightarrow> string list \<Rightarrow> string list" where
  "clean_loop f seen out [] = out"
| "clean_loop f seen out (x # xs) =
     (let t = f x in
      if t = [] then clean_loop f seen out xs
      else if t \<in> set seen then clean_loop f seen out xs
      else clean_loop f (t # seen) (out @ [t]) xs)"

definition clean_roles :: "string list \<Rightarrow> string list" where
  "clean_roles roles = (if roles = [] then roles else sort (clean_loop lower_trim [] [] roles))"

definition clean_tags :: "string list \<Rightarrow> string list" where
  "clean_tags tags = (if tags = [] then tags else sort (clean_loop lower_trim [] [] tags))"

fun caps_loop :: "string \<Rightarrow> string list \<Rightarrow> string list \<Rightarrow> string list \<Rightarrow> cfg_error + string list" where
  "caps_loop hn seen caps [] = Inr caps"
| "caps_loop hn seen caps (c # cs) =
     (let cap = lower_trim c in
      if cap = [] then caps_loop hn seen caps cs
      else if cap \<notin> {''local'', ''ssh'', ''winrm''} then Inl (HostError hn (BadCapability cap))
      else if cap \<in> set seen then caps_loop hn seen caps cs
      else caps_loop hn (cap # seen) (caps @ [cap]) cs)"

definition clean_caps :: "string \<Rightarrow> string list \<Rightarrow> cfg_error + string list" where
  "clean_caps hn caps =
     (if caps = [] then Inr caps
      else case caps_loop hn [] [] caps of Inl e \<Rightarrow> Inl e | Inr cs \<Rightarrow> Inr (sort cs))"

text \<open>Labels and topology: normalised keys, trimmed values; a later entry overwrites an earlier one.\<close>

fun clean_pairs :: "string gomap \<Rightarrow> string gomap \<Rightarrow> string gomap" where
  "clean_pairs out [] = out"
| "clean_pairs out ((k, v) # kvs) =
     (let key = lower_trim k in
      if key = [] then clean_pairs out kvs
      else clean_pairs (mput key (TrimSpace v) out) kvs)"

section \<open>Hosts\<close>

definition host_transport :: "string \<Rightarrow> string" where
  "host_transport t = lower_trim (if t = [] then ''local'' else t)"

definition transport_ok :: "string \<Rightarrow> bool" where
  "transport_ok t \<longleftrightarrow> t \<in> {''local'', ''ssh'', ''winrm'', ''auto''} \<or> HasPrefix (lower_trim t) ''plugin/''"

definition validate_host :: "nat \<Rightarrow> string list \<Rightarrow> host \<Rightarrow> cfg_error + host" where
  "validate_host i hostSet h =
     (if TrimSpace (h_name h) = [] then Inl (HostNameRequired i)
      else if h_name h \<in> set hostSet then Inl (HostError (h_name h) DuplicateHost)
      else let t = host_transport (h_transport h) in
      if \<not> transport_ok t then Inl (HostError (h_name h) (BadTransport (h_transport h)))
      else if h_port h < 0 \<or> h_port h > 65535 then Inl (HostError (h_name h) (BadPort (h_port h)))
      else if h_jump_port h < 0 \<or> h_jump_port h > 65535
        then Inl (HostError (h_name h) (BadJumpPort (h_jump_port h)))
      else case clean_caps (h_name h) (h_capabilities h) of
        Inl e \<Rightarrow> Inl e
      | Inr caps \<Rightarrow> Inr (h\<lparr>h_transport := t,
          h_address := TrimSpace (h_address h),
          h_user := TrimSpace (h_user h),
          h_jump_address := TrimSpace (h_jump_address h),
          h_jump_user := TrimSpace (h_jump_user h),
          h_proxy_command := TrimSpace (h_proxy_command h),
          h_capabilities := caps,
          h_roles := clean_roles (h_roles h),
          h_labels := clean_pairs [] (h_labels h),
          h_topology := clean_pairs [] (h_topology h)\<rparr>))"

fun validate_hosts :: "nat \<Rightarrow> string list \<Rightarrow> host list \<Rightarrow> cfg_error + host list" where
  "validate_hosts i hostSet [] = Inr []"
| "validate_hosts i hostSet (h # hs) =
     (case validate_host i hostSet h of
        Inl e \<Rightarrow> Inl e
      | Inr h' \<Rightarrow>
          (case validate_hosts (Suc i) (h_name h # hostSet) hs of
             Inl e \<Rightarrow> Inl e
           | Inr hs' \<Rightarrow> Inr (h' # hs')))"

section \<open>Matrix, loop, digest\<close>

definition matrix_entry :: "owner \<Rightarrow> string \<Rightarrow> string list gomap \<Rightarrow> string \<times> string list
    \<Rightarrow> cfg_error + string list gomap" where
  "matrix_entry ow rid out kv =
     (let name = TrimSpace (fst kv) in
      if name = [] then Inl (ItemError ow rid MatrixEmptyKey)
      else let clean = clean_loop TrimSpace [] [] (snd kv) in
      if clean = [] then Inl (ItemError ow rid (MatrixNoValues name))
      else Inr (mput name (sort clean) out))"

definition normalizeMatrix :: "owner \<Rightarrow> string \<Rightarrow> string list gomap \<Rightarrow> cfg_error + string list gomap" where
  "normalizeMatrix ow rid m = (if m = [] then Inr m else try_fold (matrix_entry ow rid) [] m)"

definition normalizeLoop :: "owner \<Rightarrow> resource \<Rightarrow> cfg_error + resource" where
  "normalizeLoop ow r =
     (let items = clean_loop TrimSpace [] [] (r_loop r);
          v = TrimSpace (r_loop_var r) in
      if items = [] then Inr (r\<lparr>r_loop := [], r_loop_var := []\<rparr>)
      else let v' = (if v = [] then ''item'' else v) in
      if Contains v' ''.'' \<or> Contains v' '' '' then Inl (ItemError ow (r_id r) (LoopVarNotToken v'))
      else if mget (r_matrix r) v' \<noteq> None then Inl (ItemError ow (r_id r) (LoopVarConflict v'))
      else Inr (r\<lparr>r_loop := items, r_loop_var := v'\<rparr>))"

definition is_hex :: "char \<Rightarrow> bool" where
  "is_hex c \<longleftrightarrow> c \<in> set ''0123456789abcdefABCDEF''"

definition isSHA256Digest :: "string \<Rightarrow> bool" where
  "isSHA256Digest s =
     (let v = TrimSpace (ToLower s) in
      if \<not> HasPrefix v ''sha256:'' then False
      else let hexPart = TrimPrefix v ''sha256:'' in
      if length hexPart \<noteq> 64 then False
      else list_all is_hex hexPart)"

section \<open>Type-specific fields\<close>

definition nonblank :: "string \<Rightarrow> bool" where
  "nonblank s \<longleftrightarrow> TrimSpace s \<noteq> []"

definition has_integrity_fields :: "resource \<Rightarrow> bool" where
  "has_integrity_fields r \<longleftrightarrow> nonblank (r_content_checksum r) \<or> nonblank (r_content_signature r) \<or>
     nonblank (r_content_signing_pubkey r)"

definition file_fields :: "resource \<Rightarrow> field_problem + resource" where
  "file_fields r =
     (if r_become r then Inl EscalationUnsupported
      else if nonblank (r_only_if r) \<or> nonblank (r_unless r) then Inl GuardsUnsupported
      else if nonblank (r_refresh_command r) then Inl RefreshCommandUnsupported
      else if nonblank (r_rescue_command r) \<or> nonblank (r_always_command r)
        then Inl HooksUnsupported
      else if nonblank (r_retry_backoff r) \<or> r_retry_jitter_secs r \<noteq> 0
        then Inl RetryUnsupported
      else let checksum = TrimSpace (r_content_checksum r);
               signature = TrimSpace (r_content_signature r);
               pubkey = TrimSpace (r_content_signing_pubkey r) in
      if checksum \<noteq> [] \<and> \<not> isSHA256Digest checksum then Inl BadChecksum
      else if (signature \<noteq> [] \<or> pubkey \<noteq> []) \<and> (signature = [] \<or> pubkey = [])
        then Inl SignatureIncomplete
      else if \<not> nonblank (r_path r) then Inl PathRequired
      else Inr (r\<lparr>r_content_checksum := checksum, r_content_signature := signature,
             r_content_signing_pubkey := pubkey\<rparr>))"

definition command_fields :: "resource \<Rightarrow> field_problem + resource" where
  "command_fields r =
     (if has_integrity_fields r then Inl IntegrityUnsupported
      else if \<not> nonblank (r_command r) then Inl CommandRequired
      else if r_retries r < 0 then Inl BadRetries
      else if r_retry_delay_seconds r < 0 then Inl BadRetryDelay
      else let backoff = lower_trim (r_retry_backoff r) in
      if backoff \<notin> {[], ''constant'', ''linear'', ''exponential''} then Inl BadRetryBackoff
      else if r_retry_jitter_secs r < 0 then Inl BadRetryJitter
      else Inr (r\<lparr>r_only_if := TrimSpace (r_only_if r), r_unless := TrimSpace (r_unless r),
             r_refresh_command := TrimSpace (r_refresh_command r),
             r_rescue_command := TrimSpace (r_rescue_command r),
             r_always_command := TrimSpace (r_always_command r),
             r_retry_backoff := backoff\<rparr>))"

definition registry_fields :: "resource \<Rightarrow> field_problem + resource" where
  "registry_fields r =
     (if r_become r then Inl EscalationUnsupported
      else if has_integrity_fields r then Inl IntegrityUnsupported
      else if \<not> nonblank (r_registry_key r) then Inl RegistryKeyRequired
      else let t = lower_trim (r_registry_value_type r);
               t' = (if t = [] then ''string'' else t) in
      if t' \<notin> {''string'', ''dword'', ''qword''} then Inl BadRegistryType
      else Inr (r\<lparr>r_registry_key := TrimSpace (r_registry_key r), r_registry_value_type := t'\<rparr>))"

definition task_fields :: "resource \<Rightarrow> field_problem + resource" where
  "task_fields r =
     (if r_become r then Inl EscalationUnsupported
      else if has_integrity_fields r then Inl IntegrityUnsupported
      else let name = TrimSpace (r_task_name r); command = TrimSpace (r_task_command r);
               sched = TrimSpace (r_task_schedule r) in
      if name = [] then Inl TaskNameRequired
      else if command = [] then Inl TaskCommandRequired
      else Inr (r\<lparr>r_task_name := name, r_task_command := command,
             r_task_schedule := (if sched = [] then ''@daily'' else sched)\<rparr>))"

definition type_fields :: "owner \<Rightarrow> resource \<Rightarrow> cfg_error + resource" where
  "type_fields ow r =
     map_sum (\<lambda>p. ItemError ow (r_id r) p) (\<lambda>x. x)
       (if r_type r = ''file'' then map_sum FieldProblem (\<lambda>x. x) (file_fields r)
        else if r_type r = ''command'' then map_sum FieldProblem (\<lambda>x. x) (command_fields r)
        else if r_type r = ''registry'' then map_sum FieldProblem (\<lambda>x. x) (registry_fields r)
        else if r_type r = ''scheduled_task'' then map_sum FieldProblem (\<lambda>x. x) (task_fields r)
        else Inl (UnsupportedType (r_type r)))"

section \<open>Resources and handlers\<close>

text \<open>The checks and normalisations that come before the type switch, the same for both owners.\<close>

definition common_fields :: "owner \<Rightarrow> nat \<Rightarrow> string list \<Rightarrow> string list \<Rightarrow> resource \<Rightarrow> cfg_error + resource" where
  "common_fields ow i hostSet seen r =
     (if TrimSpace (r_id r) = [] then Inl (IdRequired ow i)
      else if r_id r \<in> set seen then Inl (ItemError ow (r_id r) DuplicateId)
      else if r_host r \<notin> set hostSet then Inl (ItemError ow (r_id r) (UnknownHost (r_host r)))
      else if nonblank (r_delegate_to r) \<and> r_delegate_to r \<notin> set hostSet
        then Inl (ItemError ow (r_id r) (UnknownDelegate (r_delegate_to r)))
      else case normalizeMatrix ow (r_id r) (r_matrix r) of
        Inl e \<Rightarrow> Inl e
      | Inr m \<Rightarrow>
          (case normalizeLoop ow (r\<lparr>r_when := TrimSpace (r_when r), r_matrix := m\<rparr>) of
             Inl e \<Rightarrow> Inl e
           | Inr r1 \<Rightarrow>
               (let bu = TrimSpace (r_become_user r1) in
                Inr (r1\<lparr>r_become_user := bu, r_become := (r_become r1 \<or> bu \<noteq> [])\<rparr>))))"

definition validate_resource :: "nat \<Rightarrow> string list \<Rightarrow> string list \<Rightarrow> resource \<Rightarrow> cfg_error + resource" where
  "validate_resource i hostSet resSet r =
     (case common_fields OwnerResource i hostSet resSet r of
        Inl e \<Rightarrow> Inl e
      | Inr r1 \<Rightarrow>
          (case type_fields OwnerResource r1 of
             Inl e \<Rightarrow> Inl e
           | Inr r2 \<Rightarrow> Inr (r2\<lparr>r_tags := clean_tags (r_tags r2)\<rparr>)))"

definition handler_relations :: "resource \<Rightarrow> bool" where
  "handler_relations h \<longleftrightarrow> r_depends_on h \<noteq> [] \<or> r_require h \<noteq> [] \<or> r_before h \<noteq> [] \<or>
     r_notify h \<noteq> [] \<or> r_subscribe h \<noteq> [] \<or> r_notify_handlers h \<noteq> []"

definition validate_handler :: "nat \<Rightarrow> string list \<Rightarrow> string list \<Rightarrow> resource \<Rightarrow> cfg_error + resource" where
  "validate_handler i hostSet handlerSet h =
     (case common_fields OwnerHandler i hostSet handlerSet h of
        Inl e \<Rightarrow> Inl e
      | Inr h1 \<Rightarrow>
          if handler_relations h1 then Inl (ItemError OwnerHandler (r_id h1) HandlerRelations)
          else type_fields OwnerHandler h1)"

text \<open>The two loops: the set of identifiers seen so far grows as the loop advances.\<close>

fun validate_items :: "(nat \<Rightarrow> string list \<Rightarrow> resource \<Rightarrow> cfg_error + resource) \<Rightarrow> nat \<Rightarrow> string list
    \<Rightarrow> resource list \<Rightarrow> cfg_error + resource list" where
  "validate_items f i seen [] = Inr []"
| "validate_items f i seen (r # rs) =
     (case f i seen r of
        Inl e \<Rightarrow> Inl e
      | Inr r' \<Rightarrow>
          (case validate_items f (Suc i) (r_id r # seen) rs of
             Inl e \<Rightarrow> Inl e
           | Inr rs' \<Rightarrow> Inr (r' # rs')))"

section \<open>References\<close>

definition first_unknown :: "string list \<Rightarrow> string list \<Rightarrow> string option" where
  "first_unknown known xs = find (\<lambda>x. x \<notin> set known) xs"

definition check_refs :: "string list \<Rightarrow> string list \<Rightarrow> resource \<Rightarrow> cfg_error option" where
  "check_refs resSet handlerSet r =
     (case first_unknown resSet (r_depends_on r) of
        Some d \<Rightarrow> Some (ItemError OwnerResource (r_id r) (UnknownRef RefDependsOn d))
      | None \<Rightarrow> (case first_unknown resSet (r_require r) of
        Some d \<Rightarrow> Some (ItemError OwnerResource (r_id r) (UnknownRef RefRequire d))
      | None \<Rightarrow> (case first_unknown resSet (r_subscribe r) of
        Some d \<Rightarrow> Some (ItemError OwnerResource (r_id r) (UnknownRef RefSubscribe d))
      | None \<Rightarrow> (case first_unknown resSet (r_before r) of
        Some d \<Rightarrow> Some (ItemError OwnerResource (r_id r) (UnknownRef RefBefore d))
      | None \<Rightarrow> (case first_unknown resSet (r_notify r) of
        Some d \<Rightarrow> Some (ItemError OwnerResource (r_id r) (UnknownRef RefNotify d))
      | None \<Rightarrow> (case first_unknown handlerSet (r_notify_handlers r) of
        Some d \<Rightarrow> Some (ItemError OwnerResource (r_id r) (UnknownRef RefNotifyHandlers d))
      | None \<Rightarrow> None))))))"

fun first_error :: "('a \<Rightarrow> cfg_error option) \<Rightarrow> 'a list \<Rightarrow> cfg_error option" where
  "first_error f [] = None"
| "first_error f (x # xs) = (case f x of Some e \<Rightarrow> Some e | None \<Rightarrow> first_error f xs)"

definition check_refresh_only :: "string list \<Rightarrow> resource \<Rightarrow> cfg_error option" where
  "check_refresh_only notifiedBy r =
     (if \<not> r_refresh_only r then None
      else if r_subscribe r \<noteq> [] then None
      else if r_id r \<in> set notifiedBy then None
      else Some (ItemError OwnerResource (r_id r) RefreshOnlyUntriggered))"

section \<open>Validate\<close>

definition check_execution :: "execution \<Rightarrow> cfg_error + execution" where
  "check_execution ex =
     (if lower_trim (ex_strategy ex) \<notin> {[], ''linear'', ''free'', ''serial''} then Inl BadStrategy
      else if ex_serial ex < 0 then Inl BadSerial
      else if ex_max_fail_percentage ex < 0 \<or> ex_max_fail_percentage ex > 100
        then Inl BadMaxFailPercentage
      else let fd = lower_trim (ex_failure_domain ex) in
      if fd \<notin> {[], ''rack'', ''zone'', ''region''} then Inl BadFailureDomain
      else Inr (ex\<lparr>ex_failure_domain := fd\<rparr>))"

definition Validate :: "config option \<Rightarrow> cfg_error + config" where
  "Validate cfg =
     (case cfg of None \<Rightarrow> Inl ConfigNil | Some c \<Rightarrow>
      if TrimSpace (cfg_version c) = [] then Inl VersionRequired
      else case check_execution (cfg_execution c) of Inl e \<Rightarrow> Inl e | Inr ex \<Rightarrow>
      (case validate_hosts 0 [] (cfg_hosts c) of Inl e \<Rightarrow> Inl e | Inr hosts \<Rightarrow>
      (let hostSet = map h_name (cfg_hosts c) in
       case validate_items (\<lambda>i. validate_resource i hostSet) 0 [] (cfg_resources c) of
         Inl e \<Rightarrow> Inl e
       | Inr rs \<Rightarrow>
      (case validate_items (\<lambda>i. validate_handler i hostSet) 0 [] (cfg_handlers c) of
         Inl e \<Rightarrow> Inl e
       | Inr hs \<Rightarrow>
      (let resSet = map r_id (cfg_resources c); handlerSet = map r_id (cfg_handlers c) in
       case first_error (check_refs resSet handlerSet) rs of
         Some e \<Rightarrow> Inl e
       | None \<Rightarrow>
      (case first_error (check_refresh_only (concat (map r_notify rs))) rs of
         Some e \<Rightarrow> Inl e
       | None \<Rightarrow> Inr (c\<lparr>cfg_execution := ex, cfg_hosts := hosts, cfg_resources := rs,
           cfg_handlers := hs\<rparr>)))))))"

section \<open>Normal forms\<close>

text \<open>A list of tokens that the cleaning loop would not change.\<close>

definition tokens_ok :: "(string \<Rightarrow> string) \<Rightarrow> string list \<Rightarrow> bool" where
  "tokens_ok f xs \<longleftrightarrow> distinct xs \<and> (\<forall>x \<in> set xs. x \<noteq> [] \<and> f x = x)"

lemma tokens_ok_sort [simp]: "tokens_ok f (sort xs) \<longleftrightarrow> tokens_ok f xs"
  by (simp add: tokens_ok_def)

lemma clean_loop_ok_gen:
  assumes "\<And>x. f (f x) = f x" and "tokens_ok f out" and "set seen = set out"
  shows "tokens_ok f (clean_loop f seen out xs)"
  using assms(2,3)
proof (induction xs arbitrary: seen out)
  case Nil
  then show ?case by simp
next
  case (Cons x xs)
  show ?case
  proof (cases "f x = [] \<or> f x \<in> set seen")
    case True
    with Cons show ?thesis by (auto simp: Let_def)
  next
    case False
    then have "tokens_ok f (out @ [f x])"
      using Cons.prems assms(1) by (simp add: tokens_ok_def)
    moreover have "set (f x # seen) = set (out @ [f x])" using Cons.prems by simp
    ultimately have "tokens_ok f (clean_loop f (f x # seen) (out @ [f x]) xs)"
      by (rule Cons.IH)
    with False show ?thesis by (simp add: Let_def)
  qed
qed

lemma clean_loop_ok: "(\<And>x. f (f x) = f x) \<Longrightarrow> tokens_ok f (clean_loop f [] [] xs)"
  by (rule clean_loop_ok_gen) (auto simp: tokens_ok_def)

lemma clean_loop_fixed_gen:
  "tokens_ok f xs \<Longrightarrow> set seen \<inter> set xs = {} \<Longrightarrow> clean_loop f seen out xs = out @ xs"
  by (induction xs arbitrary: seen out) (auto simp: Let_def tokens_ok_def)

lemma clean_loop_fixed: "tokens_ok f xs \<Longrightarrow> clean_loop f [] [] xs = xs"
  by (simp add: clean_loop_fixed_gen)

lemma clean_loop_set_gen:
  "set seen = set out \<Longrightarrow> set (clean_loop f seen out xs) = set out \<union> (f ` set xs - {[]})"
proof (induction xs arbitrary: seen out)
  case Nil
  then show ?case by simp
next
  case (Cons x xs)
  then show ?case by (auto simp: Let_def)
qed

lemma clean_loop_set: "set (clean_loop f [] [] xs) = f ` set xs - {[]}"
  by (simp add: clean_loop_set_gen)

definition sorted_tokens :: "string list \<Rightarrow> bool" where
  "sorted_tokens xs \<longleftrightarrow> sorted xs \<and> tokens_ok lower_trim xs"

lemma clean_roles_ok: "sorted_tokens (clean_roles xs)"
  by (simp add: clean_roles_def sorted_tokens_def clean_loop_ok) (simp add: tokens_ok_def)

lemma clean_roles_fixed: "sorted_tokens xs \<Longrightarrow> clean_roles xs = xs"
  by (simp add: clean_roles_def sorted_tokens_def clean_loop_fixed sorted_sort_id)

lemma clean_tags_roles: "clean_tags = clean_roles"
  by (simp add: fun_eq_iff clean_tags_def clean_roles_def)

abbreviation known_caps :: "string set" where
  "known_caps \<equiv> {''local'', ''ssh'', ''winrm''}"

lemma caps_loop_Inr:
  "caps_loop hn seen out xs = Inr cs \<longleftrightarrow>
     cs = clean_loop lower_trim seen out xs \<and> lower_trim ` set xs \<subseteq> insert [] known_caps"
  by (induction xs arbitrary: seen out) (auto simp: Let_def)

lemma clean_caps_Inr:
  "clean_caps hn caps = Inr cs \<longleftrightarrow>
     cs = clean_roles caps \<and> lower_trim ` set caps \<subseteq> insert [] known_caps"
  (is "_ \<longleftrightarrow> _ \<and> ?K")
proof (cases "caps = []")
  case ne: False
  show ?thesis
  proof (cases ?K)
    case True
    then have "caps_loop hn [] [] caps = Inr (clean_loop lower_trim [] [] caps)"
      by (simp only: caps_loop_Inr simp_thms)
    with ne True show ?thesis by (simp only: clean_caps_def clean_roles_def if_False) auto
  next
    case False
    have "caps_loop hn [] [] caps \<noteq> Inr ds" for ds
      using False by (simp only: caps_loop_Inr simp_thms)
    then obtain e where "caps_loop hn [] [] caps = Inl e"
      by (cases "caps_loop hn [] [] caps") blast+
    with ne False show ?thesis by (simp only: clean_caps_def if_False sum.case) simp
  qed
qed (auto simp: clean_caps_def clean_roles_def)

definition pairs_ok :: "string gomap \<Rightarrow> bool" where
  "pairs_ok m \<longleftrightarrow> wf_map m \<and> (\<forall>(k, v) \<in> set m. k \<noteq> [] \<and> lower_trim k = k \<and> TrimSpace v = v)"

lemma mput_set: "set (mput k v m) \<subseteq> insert (k, v) (set m)"
  by (induction m) auto

lemma pairs_ok_mput:
  "pairs_ok m \<Longrightarrow> k \<noteq> [] \<Longrightarrow> lower_trim k = k \<Longrightarrow> TrimSpace v = v \<Longrightarrow> pairs_ok (mput k v m)"
  using mput_set[of k v m] by (fastforce simp: pairs_ok_def)

lemma clean_pairs_ok_gen: "pairs_ok out \<Longrightarrow> pairs_ok (clean_pairs out kvs)"
  by (induction out kvs rule: clean_pairs.induct) (auto simp: Let_def pairs_ok_mput)

lemma clean_pairs_ok: "pairs_ok (clean_pairs [] kvs)"
  by (rule clean_pairs_ok_gen) (simp add: pairs_ok_def)

lemma mput_fresh: "k \<notin> set (mkeys m) \<Longrightarrow> mput k v m = m @ [(k, v)]"
  by (induction m) auto

lemma clean_pairs_fixed_gen:
  "pairs_ok kvs \<Longrightarrow> set (mkeys out) \<inter> set (mkeys kvs) = {} \<Longrightarrow> clean_pairs out kvs = out @ kvs"
proof (induction out kvs rule: clean_pairs.induct)
  case (2 out k v kvs)
  then show ?case by (auto simp: pairs_ok_def wf_map_def mput_fresh Let_def)
qed simp

lemma clean_pairs_fixed: "pairs_ok kvs \<Longrightarrow> clean_pairs [] kvs = kvs"
  by (simp add: clean_pairs_fixed_gen)

section \<open>Normalised hosts\<close>

definition host_ok :: "host \<Rightarrow> bool" where
  "host_ok h \<longleftrightarrow> nonblank (h_name h) \<and> transport_ok (h_transport h) \<and>
     lower_trim (h_transport h) = h_transport h \<and>
     0 \<le> h_port h \<and> h_port h \<le> 65535 \<and> 0 \<le> h_jump_port h \<and> h_jump_port h \<le> 65535 \<and>
     TrimSpace (h_address h) = h_address h \<and> TrimSpace (h_user h) = h_user h \<and>
     TrimSpace (h_jump_address h) = h_jump_address h \<and> TrimSpace (h_jump_user h) = h_jump_user h \<and>
     TrimSpace (h_proxy_command h) = h_proxy_command h \<and>
     sorted_tokens (h_capabilities h) \<and> set (h_capabilities h) \<subseteq> known_caps \<and>
     sorted_tokens (h_roles h) \<and> pairs_ok (h_labels h) \<and> pairs_ok (h_topology h)"

lemma clean_caps_ok:
  assumes "clean_caps hn caps = Inr cs"
  shows "sorted_tokens cs \<and> set cs \<subseteq> known_caps"
proof -
  from assms have cs: "cs = clean_roles caps" and sub: "lower_trim ` set caps \<subseteq> insert [] known_caps"
    unfolding clean_caps_Inr by blast+
  have "set cs = lower_trim ` set caps - {[]}"
    by (cases "caps = []") (simp_all add: cs clean_roles_def clean_loop_set)
  with sub have "set cs \<subseteq> known_caps" by blast
  then show ?thesis by (simp only: cs clean_roles_ok simp_thms)
qed

lemma clean_caps_fixed:
  assumes "sorted_tokens cs" and "set cs \<subseteq> known_caps"
  shows "clean_caps hn cs = Inr cs"
proof -
  have "lower_trim ` set cs = set cs"
    using assms(1) by (auto simp: sorted_tokens_def tokens_ok_def image_iff)
  with assms(2) have "lower_trim ` set cs \<subseteq> insert [] known_caps" by blast
  then show ?thesis
    unfolding clean_caps_Inr using clean_roles_fixed [OF assms(1)] by simp
qed

lemma transport_ok_nonempty: "transport_ok t \<Longrightarrow> t \<noteq> []"
  by (auto simp: transport_ok_def HasPrefix_def)

lemma validate_host_sound:
  assumes "validate_host i seen h = Inr h'"
  shows "host_ok h' \<and> h_name h' = h_name h \<and> h_name h \<notin> set seen"
proof -
  from assms obtain cs where
    g: "nonblank (h_name h)" "h_name h \<notin> set seen" "transport_ok (host_transport (h_transport h))"
       "0 \<le> h_port h" "h_port h \<le> 65535" "0 \<le> h_jump_port h" "h_jump_port h \<le> 65535"
    and cs: "clean_caps (h_name h) (h_capabilities h) = Inr cs"
    and h': "h' = h\<lparr>h_transport := host_transport (h_transport h),
          h_address := TrimSpace (h_address h), h_user := TrimSpace (h_user h),
          h_jump_address := TrimSpace (h_jump_address h), h_jump_user := TrimSpace (h_jump_user h),
          h_proxy_command := TrimSpace (h_proxy_command h), h_capabilities := cs,
          h_roles := clean_roles (h_roles h), h_labels := clean_pairs [] (h_labels h),
          h_topology := clean_pairs [] (h_topology h)\<rparr>"
    by (auto simp: validate_host_def nonblank_def Let_def not_less split: if_splits sum.splits)
  have "lower_trim (host_transport t) = host_transport t" for t
    by (simp add: host_transport_def)
  with g clean_caps_ok [OF cs] show ?thesis
    by (simp add: h' host_ok_def clean_roles_ok clean_pairs_ok)
qed

lemma validate_host_fixed:
  assumes "host_ok h" and "h_name h \<notin> set seen"
  shows "validate_host i seen h = Inr h"
proof -
  from assms(1) have t: "host_transport (h_transport h) = h_transport h"
    using transport_ok_nonempty by (auto simp: host_ok_def host_transport_def)
  have c: "clean_caps (h_name h) (h_capabilities h) = Inr (h_capabilities h)"
    using assms(1) by (intro clean_caps_fixed) (simp_all add: host_ok_def)
  from assms show ?thesis
    by (simp add: validate_host_def t c nonblank_def host_ok_def clean_roles_fixed
        clean_pairs_fixed not_less)
qed

lemma validate_hosts_sound:
  "validate_hosts i seen hs = Inr hs' \<Longrightarrow>
     map h_name hs' = map h_name hs \<and> distinct (map h_name hs) \<and>
     set (map h_name hs) \<inter> set seen = {} \<and> list_all host_ok hs'"
proof (induction hs arbitrary: i seen hs')
  case Nil
  then show ?case by simp
next
  case (Cons h hs)
  then obtain h1 hs1 where v: "validate_host i seen h = Inr h1"
    "validate_hosts (Suc i) (h_name h # seen) hs = Inr hs1" and "hs' = h1 # hs1"
    by (auto split: sum.splits)
  with Cons.IH [OF v(2)] validate_host_sound [OF v(1)] show ?case by auto
qed

lemma validate_hosts_fixed:
  "distinct (map h_name hs) \<Longrightarrow> set (map h_name hs) \<inter> set seen = {} \<Longrightarrow> list_all host_ok hs \<Longrightarrow>
     validate_hosts i seen hs = Inr hs"
  by (induction hs arbitrary: i seen) (auto simp: validate_host_fixed)

section \<open>Normalised resources and handlers\<close>

definition axis_ok :: "string \<times> string list \<Rightarrow> bool" where
  "axis_ok kv \<longleftrightarrow> fst kv \<noteq> [] \<and> TrimSpace (fst kv) = fst kv \<and> snd kv \<noteq> [] \<and> sorted (snd kv) \<and>
     tokens_ok TrimSpace (snd kv)"

definition matrix_ok :: "string list gomap \<Rightarrow> bool" where
  "matrix_ok m \<longleftrightarrow> wf_map m \<and> (\<forall>kv \<in> set m. axis_ok kv)"

definition loop_ok :: "resource \<Rightarrow> bool" where
  "loop_ok r \<longleftrightarrow> tokens_ok TrimSpace (r_loop r) \<and>
     (if r_loop r = [] then r_loop_var r = []
      else r_loop_var r \<noteq> [] \<and> TrimSpace (r_loop_var r) = r_loop_var r \<and>
        \<not> Contains (r_loop_var r) ''.'' \<and> \<not> Contains (r_loop_var r) '' '' \<and>
        mget (r_matrix r) (r_loop_var r) = None)"

definition common_ok :: "string list \<Rightarrow> resource \<Rightarrow> bool" where
  "common_ok hostSet r \<longleftrightarrow> nonblank (r_id r) \<and> r_host r \<in> set hostSet \<and>
     (nonblank (r_delegate_to r) \<longrightarrow> r_delegate_to r \<in> set hostSet) \<and>
     TrimSpace (r_when r) = r_when r \<and> matrix_ok (r_matrix r) \<and> loop_ok r \<and>
     TrimSpace (r_become_user r) = r_become_user r \<and> (r_become_user r \<noteq> [] \<longrightarrow> r_become r)"

definition file_ok :: "resource \<Rightarrow> bool" where
  "file_ok r \<longleftrightarrow> \<not> r_become r \<and> \<not> nonblank (r_only_if r) \<and> \<not> nonblank (r_unless r) \<and>
     \<not> nonblank (r_refresh_command r) \<and> \<not> nonblank (r_rescue_command r) \<and>
     \<not> nonblank (r_always_command r) \<and> \<not> nonblank (r_retry_backoff r) \<and> r_retry_jitter_secs r = 0 \<and>
     TrimSpace (r_content_checksum r) = r_content_checksum r \<and>
     TrimSpace (r_content_signature r) = r_content_signature r \<and>
     TrimSpace (r_content_signing_pubkey r) = r_content_signing_pubkey r \<and>
     (r_content_checksum r = [] \<or> isSHA256Digest (r_content_checksum r)) \<and>
     (r_content_signature r = [] \<longleftrightarrow> r_content_signing_pubkey r = []) \<and> nonblank (r_path r)"

definition command_ok :: "resource \<Rightarrow> bool" where
  "command_ok r \<longleftrightarrow> \<not> has_integrity_fields r \<and> nonblank (r_command r) \<and>
     TrimSpace (r_only_if r) = r_only_if r \<and> TrimSpace (r_unless r) = r_unless r \<and>
     TrimSpace (r_refresh_command r) = r_refresh_command r \<and>
     TrimSpace (r_rescue_command r) = r_rescue_command r \<and>
     TrimSpace (r_always_command r) = r_always_command r \<and>
     0 \<le> r_retries r \<and> 0 \<le> r_retry_delay_seconds r \<and> 0 \<le> r_retry_jitter_secs r \<and>
     r_retry_backoff r \<in> {[], ''constant'', ''linear'', ''exponential''}"

definition registry_ok :: "resource \<Rightarrow> bool" where
  "registry_ok r \<longleftrightarrow> \<not> r_become r \<and> \<not> has_integrity_fields r \<and> r_registry_key r \<noteq> [] \<and>
     TrimSpace (r_registry_key r) = r_registry_key r \<and>
     r_registry_value_type r \<in> {''string'', ''dword'', ''qword''}"

definition task_ok :: "resource \<Rightarrow> bool" where
  "task_ok r \<longleftrightarrow> \<not> r_become r \<and> \<not> has_integrity_fields r \<and>
     r_task_name r \<noteq> [] \<and> TrimSpace (r_task_name r) = r_task_name r \<and>
     r_task_command r \<noteq> [] \<and> TrimSpace (r_task_command r) = r_task_command r \<and>
     r_task_schedule r \<noteq> [] \<and> TrimSpace (r_task_schedule r) = r_task_schedule r"

definition fields_ok :: "resource \<Rightarrow> bool" where
  "fields_ok r \<longleftrightarrow> r_type r = ''file'' \<and> file_ok r \<or> r_type r = ''command'' \<and> command_ok r \<or>
     r_type r = ''registry'' \<and> registry_ok r \<or> r_type r = ''scheduled_task'' \<and> task_ok r"

lemma matrix_entry_ok:
  "matrix_ok out \<Longrightarrow> matrix_entry ow rid out kv = Inr out' \<Longrightarrow> matrix_ok out'"
proof -
  assume ok: "matrix_ok out" and e: "matrix_entry ow rid out kv = Inr out'"
  let ?k = "TrimSpace (fst kv)" and ?vs = "sort (clean_loop TrimSpace [] [] (snd kv))"
  from e have out': "out' = mput ?k ?vs out" "?k \<noteq> []" "?vs \<noteq> []"
    by (auto simp: matrix_entry_def Let_def split: if_splits)
  have "axis_ok (?k, ?vs)" using out'(2,3) by (simp add: axis_ok_def clean_loop_ok)
  with ok mput_set [of ?k ?vs out] show ?thesis
    unfolding matrix_ok_def out'(1) by auto
qed

lemma normalizeMatrix_sound:
  assumes "normalizeMatrix ow rid m = Inr m'"
  shows "matrix_ok m'"
proof (cases "m = []")
  case True
  with assms show ?thesis by (simp add: normalizeMatrix_def matrix_ok_def)
next
  case False
  with assms have "try_fold (matrix_entry ow rid) [] m = Inr m'" by (simp add: normalizeMatrix_def)
  then show ?thesis
    by (rule try_fold_invariant) (simp_all add: matrix_ok_def [of "[]"] matrix_entry_ok)
qed

lemma normalizeMatrix_fixed_gen:
  "matrix_ok m \<Longrightarrow> set (mkeys out) \<inter> set (mkeys m) = {} \<Longrightarrow>
     try_fold (matrix_entry ow rid) out m = Inr (out @ m)"
proof (induction m arbitrary: out)
  case (Cons kv m)
  obtain k vs where kv: "kv = (k, vs)" by (cases kv)
  from Cons.prems have k: "k \<noteq> []" "TrimSpace k = k" "vs \<noteq> []" "sorted vs" "tokens_ok TrimSpace vs"
    and m: "matrix_ok m" "k \<notin> set (mkeys m)" and "k \<notin> set (mkeys out)"
    by (auto simp: matrix_ok_def axis_ok_def kv wf_map_def)
  then have "matrix_entry ow rid out kv = Inr (out @ [kv])"
    by (simp add: matrix_entry_def kv Let_def clean_loop_fixed sorted_sort_id mput_fresh)
  moreover have "try_fold (matrix_entry ow rid) (out @ [kv]) m = Inr ((out @ [kv]) @ m)"
    using Cons.prems m by (intro Cons.IH) (auto simp: kv)
  ultimately show ?case by simp
qed simp

lemma normalizeMatrix_fixed: "matrix_ok m \<Longrightarrow> normalizeMatrix ow rid m = Inr m"
  by (simp add: normalizeMatrix_def normalizeMatrix_fixed_gen)

lemma Trim_item [simp]: "TrimSpace ''item'' = ''item''"
  by code_simp

lemma normalizeLoop_sound:
  assumes "normalizeLoop ow r = Inr r'"
  shows "loop_ok r' \<and> (\<exists>l v. r' = r\<lparr>r_loop := l, r_loop_var := v\<rparr>)"
proof -
  have t: "tokens_ok TrimSpace (clean_loop TrimSpace [] [] (r_loop r))" by (simp add: clean_loop_ok)
  from assms t show ?thesis
    by (auto simp: normalizeLoop_def Let_def loop_ok_def tokens_ok_def [of _ "[]"]
        simp del: Contains.simps split: if_splits)
qed

lemma normalizeLoop_fixed: "loop_ok r \<Longrightarrow> normalizeLoop ow r = Inr r"
  by (auto simp: normalizeLoop_def Let_def loop_ok_def clean_loop_fixed simp del: Contains.simps
      split: if_splits)

lemma common_fields_sound:
  assumes "common_fields ow i hostSet seen r = Inr r'"
  shows "common_ok hostSet r' \<and> r_id r \<notin> set seen \<and>
    (\<exists>w m l v b u. r' = r\<lparr>r_when := w, r_matrix := m, r_loop := l, r_loop_var := v,
        r_become_user := u, r_become := b\<rparr>)"
proof -
  let ?r1 = "\<lambda>m. r\<lparr>r_when := TrimSpace (r_when r), r_matrix := m\<rparr>"
  from assms obtain m r1 where
    g: "nonblank (r_id r)" "r_id r \<notin> set seen" "r_host r \<in> set hostSet"
       "nonblank (r_delegate_to r) \<longrightarrow> r_delegate_to r \<in> set hostSet"
    and m: "normalizeMatrix ow (r_id r) (r_matrix r) = Inr m"
    and l: "normalizeLoop ow (?r1 m) = Inr r1"
    and r': "r' = r1\<lparr>r_become_user := TrimSpace (r_become_user r1),
        r_become := r_become r1 \<or> TrimSpace (r_become_user r1) \<noteq> []\<rparr>"
    by (auto simp: common_fields_def nonblank_def Let_def split: if_splits sum.splits)
  from normalizeLoop_sound [OF l] obtain ll v where lo: "loop_ok r1"
    and r1: "r1 = (?r1 m)\<lparr>r_loop := ll, r_loop_var := v\<rparr>" by blast
  have "loop_ok r'" using lo by (simp add: loop_ok_def r')
  with g normalizeMatrix_sound [OF m] have "common_ok hostSet r'"
    by (simp add: common_ok_def r' r1)
  moreover have "\<exists>w m l v b u. r' = r\<lparr>r_when := w, r_matrix := m, r_loop := l, r_loop_var := v,
        r_become_user := u, r_become := b\<rparr>"
    unfolding r' r1 by (intro exI) (rule refl)
  ultimately show ?thesis using g by blast
qed

lemma common_fields_fixed:
  assumes "common_ok hostSet r" and "r_id r \<notin> set seen"
  shows "common_fields ow i hostSet seen r = Inr r"
proof -
  have m: "normalizeMatrix ow (r_id r) (r_matrix r) = Inr (r_matrix r)"
    using assms(1) by (intro normalizeMatrix_fixed) (simp add: common_ok_def)
  have l: "normalizeLoop ow r = Inr r"
    using assms(1) by (intro normalizeLoop_fixed) (simp add: common_ok_def)
  have w: "r\<lparr>r_when := TrimSpace (r_when r), r_matrix := r_matrix r\<rparr> = r"
    using assms(1) by (simp add: common_ok_def)
  have b: "r\<lparr>r_become_user := TrimSpace (r_become_user r),
      r_become := (r_become r \<or> TrimSpace (r_become_user r) \<noteq> [])\<rparr> = r"
    using assms(1) by (cases "r_become_user r = []") (simp_all add: common_ok_def)
  from assms show ?thesis
    unfolding common_fields_def
    by (simp only: m sum.case w l b Let_def) (auto simp: common_ok_def nonblank_def)
qed

text \<open>What normalisation never touches: the identity, host, delegation and relations;
  and what the type switch never touches.\<close>

definition same_shape :: "resource \<Rightarrow> resource \<Rightarrow> bool" where
  "same_shape r r' \<longleftrightarrow> r_id r' = r_id r \<and> r_type r' = r_type r \<and> r_host r' = r_host r \<and>
     r_delegate_to r' = r_delegate_to r \<and> r_depends_on r' = r_depends_on r \<and>
     r_require r' = r_require r \<and> r_before r' = r_before r \<and> r_notify r' = r_notify r \<and>
     r_subscribe r' = r_subscribe r \<and> r_notify_handlers r' = r_notify_handlers r \<and>
     r_refresh_only r' = r_refresh_only r"

definition same_common :: "resource \<Rightarrow> resource \<Rightarrow> bool" where
  "same_common r r' \<longleftrightarrow> r_when r' = r_when r \<and> r_matrix r' = r_matrix r \<and> r_loop r' = r_loop r \<and>
     r_loop_var r' = r_loop_var r \<and> r_become r' = r_become r \<and> r_become_user r' = r_become_user r \<and>
     r_tags r' = r_tags r"

lemmas shape_defs = same_shape_def same_common_def

lemma shape_proj: "same_shape r r' \<Longrightarrow> r_type r' = r_type r" "same_common r r' \<Longrightarrow> r_tags r' = r_tags r"
  by (simp_all add: shape_defs)

lemma common_ok_cong:
  "same_shape r r' \<Longrightarrow> same_common r r' \<Longrightarrow> common_ok hs r' \<longleftrightarrow> common_ok hs r"
  by (simp add: shape_defs common_ok_def loop_ok_def)

lemma file_fields_sound:
  "file_fields r = Inr r' \<Longrightarrow> file_ok r' \<and> same_shape r r' \<and> same_common r r'"
  by (auto simp: file_fields_def shape_defs file_ok_def Let_def split: if_splits)

lemma file_fields_fixed: "file_ok r \<Longrightarrow> file_fields r = Inr r"
  by (auto simp: file_fields_def file_ok_def Let_def)

lemma lower_trim_backoff:
  "b \<in> {[], ''constant'', ''linear'', ''exponential''} \<Longrightarrow> lower_trim b = b"
proof -
  have "lower_trim ''constant'' = ''constant''" "lower_trim ''linear'' = ''linear''"
    "lower_trim ''exponential'' = ''exponential''" by code_simp+
  then show "b \<in> {[], ''constant'', ''linear'', ''exponential''} \<Longrightarrow> lower_trim b = b" by auto
qed

lemma lower_trim_registry_type:
  "b \<in> {''string'', ''dword'', ''qword''} \<Longrightarrow> lower_trim b = b"
proof -
  have "lower_trim ''string'' = ''string''" "lower_trim ''dword'' = ''dword''"
    "lower_trim ''qword'' = ''qword''" by code_simp+
  then show "b \<in> {''string'', ''dword'', ''qword''} \<Longrightarrow> lower_trim b = b" by auto
qed

lemma command_fields_sound:
  "command_fields r = Inr r' \<Longrightarrow> command_ok r' \<and> same_shape r r' \<and> same_common r r'"
  by (auto simp: command_fields_def shape_defs command_ok_def has_integrity_fields_def Let_def split: if_splits)

lemma command_fields_fixed: "command_ok r \<Longrightarrow> command_fields r = Inr r"
  using lower_trim_backoff [of "r_retry_backoff r"]
  by (auto simp: command_fields_def command_ok_def Let_def not_less)

lemma registry_fields_sound:
  "registry_fields r = Inr r' \<Longrightarrow> registry_ok r' \<and> same_shape r r' \<and> same_common r r'"
  by (auto simp: registry_fields_def shape_defs registry_ok_def has_integrity_fields_def nonblank_def Let_def
      split: if_splits)

lemma registry_fields_fixed:
  assumes "registry_ok r"
  shows "registry_fields r = Inr r"
proof -
  from assms have m: "r_registry_value_type r \<in> {''string'', ''dword'', ''qword''}"
    by (simp add: registry_ok_def)
  then have ne: "r_registry_value_type r \<noteq> []" by auto
  note t = lower_trim_registry_type [OF m]
  have m': "(r_registry_value_type r \<notin> {''string'', ''dword'', ''qword''}) = False"
    using m by blast
  from assms show ?thesis
    by (simp only: registry_fields_def Let_def t ne if_False m') (simp add: registry_ok_def nonblank_def)
qed

lemma Trim_daily [simp]: "TrimSpace ''@daily'' = ''@daily''"
  by code_simp

lemma task_fields_sound:
  "task_fields r = Inr r' \<Longrightarrow> task_ok r' \<and> same_shape r r' \<and> same_common r r'"
  by (clarsimp simp: task_fields_def shape_defs task_ok_def has_integrity_fields_def Let_def split: if_splits)

lemma task_fields_fixed: "task_ok r \<Longrightarrow> task_fields r = Inr r"
  by (auto simp: task_fields_def task_ok_def Let_def)

lemma type_fields_sound:
  assumes "type_fields ow r = Inr r'" and "common_ok hostSet r"
  shows "fields_ok r' \<and> common_ok hostSet r' \<and> same_shape r r' \<and> r_tags r' = r_tags r"
proof -
  have step: "type_fields ow r = Inr r' \<Longrightarrow>
      r_type r = ''file'' \<and> file_fields r = Inr r' \<or> r_type r = ''command'' \<and> command_fields r = Inr r' \<or>
      r_type r = ''registry'' \<and> registry_fields r = Inr r' \<or>
      r_type r = ''scheduled_task'' \<and> task_fields r = Inr r'"
    unfolding type_fields_def
    by (cases "file_fields r"; cases "command_fields r"; cases "registry_fields r"; cases "task_fields r")
       (simp_all split: if_splits)
  consider "r_type r = ''file''" "file_fields r = Inr r'" | "r_type r = ''command''" "command_fields r = Inr r'"
    | "r_type r = ''registry''" "registry_fields r = Inr r'" | "r_type r = ''scheduled_task''" "task_fields r = Inr r'"
    using step [OF assms(1)] by blast
  then have "fields_ok r' \<and> same_shape r r' \<and> same_common r r'"
    by cases (use file_fields_sound command_fields_sound registry_fields_sound task_fields_sound
      shape_proj(1) in \<open>metis fields_ok_def\<close>)+
  with assms(2) show ?thesis
    using common_ok_cong [of r r' hostSet] shape_proj(2) by blast
qed

lemma type_fields_fixed: "fields_ok r \<Longrightarrow> type_fields ow r = Inr r"
  unfolding fields_ok_def
  by (elim disjE conjE)
     (simp_all add: type_fields_def file_fields_fixed command_fields_fixed registry_fields_fixed task_fields_fixed)

section \<open>Normalised configurations\<close>

definition resource_ok :: "string list \<Rightarrow> resource \<Rightarrow> bool" where
  "resource_ok hostSet r \<longleftrightarrow> common_ok hostSet r \<and> fields_ok r \<and> sorted_tokens (r_tags r)"

definition handler_ok :: "string list \<Rightarrow> resource \<Rightarrow> bool" where
  "handler_ok hostSet h \<longleftrightarrow> common_ok hostSet h \<and> fields_ok h \<and> \<not> handler_relations h"

definition refs_closed :: "string list \<Rightarrow> string list \<Rightarrow> resource \<Rightarrow> bool" where
  "refs_closed ids handlerIds r \<longleftrightarrow> set (upstream_refs r) \<subseteq> set ids \<and>
     set (downstream_refs r) \<subseteq> set ids \<and> set (r_notify_handlers r) \<subseteq> set handlerIds"

definition refresh_triggered :: "resource list \<Rightarrow> resource \<Rightarrow> bool" where
  "refresh_triggered rs r \<longleftrightarrow>
     (r_refresh_only r \<longrightarrow> r_subscribe r \<noteq> [] \<or> (\<exists>s \<in> set rs. r_id r \<in> set (r_notify s)))"

definition execution_ok :: "execution \<Rightarrow> bool" where
  "execution_ok ex \<longleftrightarrow> lower_trim (ex_strategy ex) \<in> {[], ''linear'', ''free'', ''serial''} \<and>
     0 \<le> ex_serial ex \<and> 0 \<le> ex_max_fail_percentage ex \<and> ex_max_fail_percentage ex \<le> 100 \<and>
     ex_failure_domain ex \<in> {[], ''rack'', ''zone'', ''region''}"

definition valid_config :: "config \<Rightarrow> bool" where
  "valid_config c \<longleftrightarrow> nonblank (cfg_version c) \<and> execution_ok (cfg_execution c) \<and>
     distinct (map h_name (cfg_hosts c)) \<and> list_all host_ok (cfg_hosts c) \<and>
     distinct (map r_id (cfg_resources c)) \<and>
     list_all (resource_ok (map h_name (cfg_hosts c))) (cfg_resources c) \<and>
     distinct (map r_id (cfg_handlers c)) \<and>
     list_all (handler_ok (map h_name (cfg_hosts c))) (cfg_handlers c) \<and>
     list_all (refs_closed (map r_id (cfg_resources c)) (map r_id (cfg_handlers c))) (cfg_resources c) \<and>
     list_all (refresh_triggered (cfg_resources c)) (cfg_resources c)"

lemma common_fields_shape:
  assumes "common_fields ow i hostSet seen r = Inr r'"
  shows "common_ok hostSet r' \<and> r_id r \<notin> set seen \<and> same_shape r r' \<and> r_tags r' = r_tags r"
  using common_fields_sound [OF assms] by (auto simp: same_shape_def)

lemma tags_irrelevant:
  "common_ok hs (r\<lparr>r_tags := t\<rparr>) = common_ok hs r" "fields_ok (r\<lparr>r_tags := t\<rparr>) = fields_ok r"
  "same_shape q (r\<lparr>r_tags := t\<rparr>) = same_shape q r"
  by (simp_all add: common_ok_def loop_ok_def fields_ok_def file_ok_def command_ok_def
      registry_ok_def task_ok_def has_integrity_fields_def same_shape_def)

lemma same_shape_trans: "same_shape r s \<Longrightarrow> same_shape s t \<Longrightarrow> same_shape r t"
  by (simp add: same_shape_def)

lemma validate_resource_sound:
  assumes "validate_resource i hostSet seen r = Inr r'"
  shows "resource_ok hostSet r' \<and> r_id r \<notin> set seen \<and> same_shape r r'"
proof -
  from assms obtain r1 r2 where
    1: "common_fields OwnerResource i hostSet seen r = Inr r1" and 2: "type_fields OwnerResource r1 = Inr r2"
    and r': "r' = r2\<lparr>r_tags := clean_tags (r_tags r2)\<rparr>"
    by (auto simp: validate_resource_def split: sum.splits)
  note c = common_fields_shape [OF 1]
  note t = type_fields_sound [OF 2 c [THEN conjunct1]]
  from c t same_shape_trans [of r r1 r2] show ?thesis
    by (simp add: r' resource_ok_def tags_irrelevant clean_tags_roles clean_roles_ok)
qed

lemma validate_resource_fixed:
  "resource_ok hostSet r \<Longrightarrow> r_id r \<notin> set seen \<Longrightarrow> validate_resource i hostSet seen r = Inr r"
  by (simp add: validate_resource_def resource_ok_def common_fields_fixed type_fields_fixed
      clean_tags_roles clean_roles_fixed)

lemma validate_handler_sound:
  assumes "validate_handler i hostSet seen r = Inr r'"
  shows "handler_ok hostSet r' \<and> r_id r \<notin> set seen \<and> same_shape r r'"
proof -
  from assms obtain r1 where
    1: "common_fields OwnerHandler i hostSet seen r = Inr r1" and 2: "type_fields OwnerHandler r1 = Inr r'"
    and nr: "\<not> handler_relations r1"
    by (auto simp: validate_handler_def split: sum.splits if_splits)
  note c = common_fields_shape [OF 1]
  note t = type_fields_sound [OF 2 c [THEN conjunct1]]
  from c t nr show ?thesis
    by (simp add: handler_ok_def handler_relations_def same_shape_def)
qed

lemma validate_handler_fixed:
  "handler_ok hostSet r \<Longrightarrow> r_id r \<notin> set seen \<Longrightarrow> validate_handler i hostSet seen r = Inr r"
  by (simp add: validate_handler_def handler_ok_def common_fields_fixed type_fields_fixed)

lemma validate_items_sound:
  assumes f: "\<And>i seen r r'. f i seen r = Inr r' \<Longrightarrow> P r' \<and> r_id r \<notin> set seen \<and> same_shape r r'"
  shows "validate_items f i seen rs = Inr rs' \<Longrightarrow>
    list_all2 same_shape rs rs' \<and> list_all P rs' \<and> distinct (map r_id rs) \<and>
    set (map r_id rs) \<inter> set seen = {}"
proof (induction rs arbitrary: i seen rs')
  case Nil
  then show ?case by simp
next
  case (Cons r rs)
  then obtain r1 rs1 where v: "f i seen r = Inr r1"
    "validate_items f (Suc i) (r_id r # seen) rs = Inr rs1" and "rs' = r1 # rs1"
    by (auto split: sum.splits)
  with Cons.IH [OF v(2)] f [OF v(1)] show ?case by auto
qed

lemma validate_items_fixed:
  assumes f: "\<And>i seen r. P r \<Longrightarrow> r_id r \<notin> set seen \<Longrightarrow> f i seen r = Inr r"
  shows "distinct (map r_id rs) \<Longrightarrow> set (map r_id rs) \<inter> set seen = {} \<Longrightarrow> list_all P rs \<Longrightarrow>
    validate_items f i seen rs = Inr rs"
  by (induction rs arbitrary: i seen) (auto simp: f)

lemma same_shape_ids: "list_all2 same_shape rs rs' \<Longrightarrow> map r_id rs' = map r_id rs"
  by (induction rule: list_all2_induct) (auto simp: same_shape_def)

lemma first_error_None: "first_error f xs = None \<longleftrightarrow> list_all (\<lambda>x. f x = None) xs"
  by (induction xs) (auto split: option.splits)

lemma first_unknown_None: "first_unknown known xs = None \<longleftrightarrow> set xs \<subseteq> set known"
  by (auto simp: first_unknown_def find_None_iff)

lemma unknown_case_None:
  "(case first_unknown known xs of Some d \<Rightarrow> Some (g d) | None \<Rightarrow> rest) = None \<longleftrightarrow>
     set xs \<subseteq> set known \<and> rest = None"
  using first_unknown_None [of known xs] by (cases "first_unknown known xs") simp_all

lemma check_refs_None: "check_refs ids hids r = None \<longleftrightarrow> refs_closed ids hids r"
  unfolding check_refs_def unknown_case_None
  by (simp add: refs_closed_def upstream_refs_def downstream_refs_def conj_ac)

lemma check_refresh_only_None:
  "check_refresh_only (concat (map r_notify rs)) r = None \<longleftrightarrow> refresh_triggered rs r"
  by (auto simp: check_refresh_only_def refresh_triggered_def)

lemma check_execution_sound: "check_execution ex = Inr ex' \<Longrightarrow> execution_ok ex'"
  unfolding check_execution_def execution_ok_def Let_def
  by (clarsimp split: if_splits simp del: insert_iff)

lemma check_execution_fixed:
  assumes "execution_ok ex"
  shows "check_execution ex = Inr ex"
proof -
  from assms have fd: "ex_failure_domain ex \<in> {[], ''rack'', ''zone'', ''region''}"
    by (simp add: execution_ok_def)
  have "lower_trim ''rack'' = ''rack''" "lower_trim ''zone'' = ''zone''" "lower_trim ''region'' = ''region''"
    by code_simp+
  with fd have t: "lower_trim (ex_failure_domain ex) = ex_failure_domain ex" by auto
  from fd have m: "(ex_failure_domain ex \<notin> {[], ''rack'', ''zone'', ''region''}) = False" by blast
  from assms have s: "(lower_trim (ex_strategy ex) \<notin> {[], ''linear'', ''free'', ''serial''}) = False"
    by (simp add: execution_ok_def)
  from assms show ?thesis
    by (simp only: check_execution_def Let_def t m s if_False) (simp add: execution_ok_def)
qed

lemma Validate_Inr_cases:
  assumes "Validate (Some c) = Inr c'"
  obtains ex hosts rs hs where
    "nonblank (cfg_version c)" "check_execution (cfg_execution c) = Inr ex"
    "validate_hosts 0 [] (cfg_hosts c) = Inr hosts"
    "validate_items (\<lambda>i. validate_resource i (map h_name (cfg_hosts c))) 0 [] (cfg_resources c) = Inr rs"
    "validate_items (\<lambda>i. validate_handler i (map h_name (cfg_hosts c))) 0 [] (cfg_handlers c) = Inr hs"
    "list_all (refs_closed (map r_id (cfg_resources c)) (map r_id (cfg_handlers c))) rs"
    "list_all (refresh_triggered rs) rs"
    "c' = c\<lparr>cfg_execution := ex, cfg_hosts := hosts, cfg_resources := rs, cfg_handlers := hs\<rparr>"
  using assms
  by (auto simp: Validate_def nonblank_def first_error_None check_refs_None check_refresh_only_None
      Let_def split: if_splits sum.splits option.splits)

lemma Validate_Inr_valid:
  assumes "Validate (Some c) = Inr c'"
  shows "valid_config c' \<and> map r_id (cfg_resources c') = map r_id (cfg_resources c) \<and>
    list_all2 same_shape (cfg_resources c) (cfg_resources c') \<and>
    map h_name (cfg_hosts c') = map h_name (cfg_hosts c)"
  using assms
proof (rule Validate_Inr_cases)
  fix ex hosts rs hs
  assume 1: "nonblank (cfg_version c)" "check_execution (cfg_execution c) = Inr ex"
    "validate_hosts 0 [] (cfg_hosts c) = Inr hosts"
    "validate_items (\<lambda>i. validate_resource i (map h_name (cfg_hosts c))) 0 [] (cfg_resources c) = Inr rs"
    "validate_items (\<lambda>i. validate_handler i (map h_name (cfg_hosts c))) 0 [] (cfg_handlers c) = Inr hs"
    "list_all (refs_closed (map r_id (cfg_resources c)) (map r_id (cfg_handlers c))) rs"
    "list_all (refresh_triggered rs) rs"
    and c': "c' = c\<lparr>cfg_execution := ex, cfg_hosts := hosts, cfg_resources := rs, cfg_handlers := hs\<rparr>"
  let ?hn = "map h_name (cfg_hosts c)"
  have hosts: "map h_name hosts = ?hn" "distinct ?hn" "list_all host_ok hosts"
    using validate_hosts_sound [OF 1(3)] by blast+
  have rs: "list_all2 same_shape (cfg_resources c) rs" "list_all (resource_ok ?hn) rs"
      "distinct (res_ids c)"
    using validate_items_sound [OF _ 1(4), of "resource_ok ?hn"] validate_resource_sound by blast+
  have hs: "list_all2 same_shape (cfg_handlers c) hs" "list_all (handler_ok ?hn) hs"
      "distinct (map r_id (cfg_handlers c))"
    using validate_items_sound [OF _ 1(5), of "handler_ok ?hn"] validate_handler_sound by blast+
  note ids = same_shape_ids [OF rs(1)] same_shape_ids [OF hs(1)]
  show ?thesis
    unfolding valid_config_def c'
    using 1(1,6,7) hosts rs hs check_execution_sound [OF 1(2)]
    by (simp add: ids)
qed

text \<open>C11: whatever \<^verbatim>\<open>Validate\<close> accepts, it returns as a normalised configuration: names and
  identifiers are non-blank and pairwise distinct, every host, delegate, relation and handler
  reference resolves, ports, percentages and retry counts are in range, every resource carries
  the fields of its type, and every refresh-only resource has something to trigger it.\<close>

theorem Validate_sound: "Validate (Some c) = Inr c' \<Longrightarrow> valid_config c'"
  using Validate_Inr_valid by blast

text \<open>The configurations that \<^verbatim>\<open>Validate\<close> returns unchanged are exactly the normalised ones:
  the specification \<open>valid_config\<close> is neither too strong nor too weak for the code.\<close>

theorem Validate_fixpoint_iff: "Validate (Some c) = Inr c \<longleftrightarrow> valid_config c"
proof
  assume "Validate (Some c) = Inr c"
  then show "valid_config c" using Validate_Inr_valid by blast
next
  assume v: "valid_config c"
  have "validate_hosts 0 [] (cfg_hosts c) = Inr (cfg_hosts c)"
    using v by (intro validate_hosts_fixed) (simp_all add: valid_config_def)
  moreover have "validate_items (\<lambda>i. validate_resource i (map h_name (cfg_hosts c))) 0 [] (cfg_resources c)
      = Inr (cfg_resources c)"
    using v by (intro validate_items_fixed [where P = "resource_ok (map h_name (cfg_hosts c))"]
        validate_resource_fixed) (simp_all add: valid_config_def)
  moreover have "validate_items (\<lambda>i. validate_handler i (map h_name (cfg_hosts c))) 0 [] (cfg_handlers c)
      = Inr (cfg_handlers c)"
    using v by (intro validate_items_fixed [where P = "handler_ok (map h_name (cfg_hosts c))"]
        validate_handler_fixed) (simp_all add: valid_config_def)
  moreover have "check_execution (cfg_execution c) = Inr (cfg_execution c)"
    using v by (intro check_execution_fixed) (simp add: valid_config_def)
  moreover have "first_error (check_refs (res_ids c) (map r_id (cfg_handlers c))) (cfg_resources c) = None"
    "first_error (check_refresh_only (concat (map r_notify (cfg_resources c)))) (cfg_resources c) = None"
    using v by (simp_all add: valid_config_def first_error_None check_refs_None check_refresh_only_None)
  moreover have "TrimSpace (cfg_version c) \<noteq> []"
    using v by (simp add: valid_config_def nonblank_def)
  ultimately show "Validate (Some c) = Inr c"
    by (simp add: Validate_def Let_def)
qed

text \<open>The demonstration configuration with a transport that needs normalising.\<close>

definition raw_config :: config where
  "raw_config = demo_config\<lparr>cfg_hosts := [web_host\<lparr>h_transport := '' Local''\<rparr>, db_host]\<rparr>"

lemma Validate_raw: "Validate (Some raw_config) = Inr demo_config"
  by code_simp

theorem Validate_sound_witness: "valid_config demo_config"
  using Validate_sound [OF Validate_raw] .

end
