(* ===== verification/DepGraph.thy ===== *)
theory DepGraph
  imports Prelude
begin

text \<open>
  The specification behind the planner: which execution orders a finite dependency graph
  admits. \<open>dep_graph\<close> fixes the nodes and the edges (an edge \<open>(u, v)\<close> says that \<open>u\<close> comes before
  \<open>v\<close>); \<open>greedy\<close> repeatedly takes the least node whose predecessors are all done. Inside the
  locale the greedy order is shown to respect the edges, to repeat no node, and to reach every
  node exactly when the graph has no cycle. \<open>Planner\<close> interprets it on the graph of a
  configuration and shows that the loop of \<^verbatim>\<open>Build\<close> computes this order.
\<close>

definition ready :: "'a set \<Rightarrow> ('a \<times> 'a) set \<Rightarrow> 'a set \<Rightarrow> 'a set" where
  "ready V E D = {v \<in> V. v \<notin> D \<and> (\<forall>u. (u, v) \<in> E \<longrightarrow> u \<in> D)}"

primrec greedy :: "nat \<Rightarrow> ('a::linorder) set \<Rightarrow> ('a \<times> 'a) set \<Rightarrow> 'a set \<Rightarrow> 'a list" where
  "greedy 0 V E D = []"
| "greedy (Suc n) V E D =
     (if ready V E D = {} then []
      else Min (ready V E D) # greedy n V E (insert (Min (ready V E D)) D))"

definition topo_order :: "('a::linorder) set \<Rightarrow> ('a \<times> 'a) set \<Rightarrow> 'a list" where
  "topo_order V E = greedy (card V) V E {}"

definition topo_ordered :: "('a \<times> 'a) set \<Rightarrow> 'a list \<Rightarrow> bool" where
  "topo_ordered E xs \<longleftrightarrow> (\<forall>i < length xs. \<forall>u. (u, xs ! i) \<in> E \<longrightarrow> u \<in> set (take i xs))"

lemma topo_ordered_index:
  assumes "topo_ordered E xs" and "distinct xs" and "(xs ! i, xs ! j) \<in> E"
    and "i < length xs" and "j < length xs"
  shows "i < j"
proof -
  from assms(1,3,5) have "xs ! i \<in> set (take j xs)" by (auto simp: topo_ordered_def)
  then obtain k where k: "k < j" "k < length xs" "xs ! k = xs ! i"
    by (auto simp: in_set_conv_nth)
  with assms(2,4) have "k = i" by (simp add: nth_eq_iff_index_eq)
  with k show ?thesis by simp
qed

locale dep_graph =
  fixes V :: "('a::linorder) set" and E :: "('a \<times> 'a) set"
  assumes finite_nodes: "finite V"
begin

lemma finite_ready: "finite (ready V E D)"
  using finite_nodes by (simp add: ready_def)

lemma Min_ready: "ready V E D \<noteq> {} \<Longrightarrow> Min (ready V E D) \<in> ready V E D"
  by (rule Min_in [OF finite_ready])

text \<open>One step of the greedy choice, with the chosen node named.\<close>

lemma greedy_step:
  assumes "ready V E D \<noteq> {}"
  obtains x where "x \<in> V - D" "\<forall>u. (u, x) \<in> E \<longrightarrow> u \<in> D"
    "greedy (Suc n) V E D = x # greedy n V E (insert x D)"
proof -
  have m: "Min (ready V E D) \<in> ready V E D" by (rule Min_ready [OF assms])
  have g: "greedy (Suc n) V E D = Min (ready V E D) # greedy n V E (insert (Min (ready V E D)) D)"
    using assms by (simp only: greedy.simps if_False)
  have "Min (ready V E D) \<in> V - D" "\<forall>u. (u, Min (ready V E D)) \<in> E \<longrightarrow> u \<in> D"
    using m unfolding ready_def by blast+
  then show ?thesis using g by (rule that)
qed

lemma greedy_stop: "ready V E D = {} \<Longrightarrow> greedy n V E D = []"
  by (cases n) simp_all

lemma greedy_subset: "set (greedy n V E D) \<subseteq> V - D"
proof (induction n arbitrary: D)
  case 0
  then show ?case by simp
next
  case (Suc n)
  show ?case
  proof (cases "ready V E D = {}")
    case True
    then show ?thesis by (simp add: greedy_stop del: greedy.simps)
  next
    case False
    then obtain x where "x \<in> V - D" "greedy (Suc n) V E D = x # greedy n V E (insert x D)"
      by (rule greedy_step) blast
    then show ?thesis using Suc.IH [of "insert x D"] by (auto simp del: greedy.simps)
  qed
qed

lemma greedy_distinct: "distinct (greedy n V E D)"
proof (induction n arbitrary: D)
  case 0
  then show ?case by simp
next
  case (Suc n)
  show ?case
  proof (cases "ready V E D = {}")
    case True
    then show ?thesis by (simp add: greedy_stop del: greedy.simps)
  next
    case False
    then obtain x where "greedy (Suc n) V E D = x # greedy n V E (insert x D)"
      by (rule greedy_step) blast
    then show ?thesis
      using Suc.IH greedy_subset [of n "insert x D"] by (auto simp del: greedy.simps)
  qed
qed

lemma greedy_topo:
  "i < length (greedy n V E D) \<Longrightarrow> (u, greedy n V E D ! i) \<in> E \<Longrightarrow>
     u \<in> D \<union> set (take i (greedy n V E D))"
proof (induction n arbitrary: D i)
  case 0
  then show ?case by simp
next
  case (Suc n)
  then have "ready V E D \<noteq> {}" using greedy_stop by fastforce
  then obtain x where x: "\<forall>u. (u, x) \<in> E \<longrightarrow> u \<in> D"
      "greedy (Suc n) V E D = x # greedy n V E (insert x D)"
    by (rule greedy_step) blast
  show ?case
  proof (cases i)
    case 0
    with Suc.prems x show ?thesis by (simp del: greedy.simps)
  next
    case (Suc j)
    with Suc.prems x(2) have "u \<in> insert x D \<union> set (take j (greedy n V E (insert x D)))"
      by (intro Suc.IH) (simp_all del: greedy.simps)
    with Suc x(2) show ?thesis by (auto simp del: greedy.simps)
  qed
qed

lemma greedy_stuck:
  "card (V - D) \<le> n \<Longrightarrow> ready V E (D \<union> set (greedy n V E D)) = {}"
proof (induction n arbitrary: D)
  case 0
  then have "V - D = {}" using finite_nodes by simp
  then show ?case by (auto simp: ready_def)
next
  case (Suc n)
  show ?case
  proof (cases "ready V E D = {}")
    case True
    then show ?thesis by (simp add: greedy_stop del: greedy.simps)
  next
    case False
    then obtain x where x: "x \<in> V - D" "greedy (Suc n) V E D = x # greedy n V E (insert x D)"
      by (rule greedy_step) blast
    have "V - insert x D = (V - D) - {x}" by auto
    then have "card (V - insert x D) \<le> n"
      using x(1) Suc.prems finite_nodes by (simp add: card_Diff_singleton)
    from Suc.IH [OF this] x(2) show ?thesis by (simp del: greedy.simps)
  qed
qed

lemma order_distinct: "distinct (topo_order V E)" and order_subset: "set (topo_order V E) \<subseteq> V"
  using greedy_distinct greedy_subset [of "card V" "{}"] by (simp_all add: topo_order_def)

lemma order_topo: "topo_ordered E (topo_order V E)"
  using greedy_topo [of _ "card V" "{}"] by (auto simp: topo_ordered_def topo_order_def)

lemma order_stuck: "ready V E (set (topo_order V E)) = {}"
  using greedy_stuck [of "{}" "card V"] by (simp add: topo_order_def)

text \<open>A node that is never reached has a predecessor that is never reached.\<close>

lemma missing_pred:
  "v \<in> V \<Longrightarrow> v \<notin> set (topo_order V E) \<Longrightarrow> \<exists>u. (u, v) \<in> E \<and> u \<notin> set (topo_order V E)"
  using order_stuck by (auto simp: ready_def)

lemma complete_if_acyclic:
  assumes "acyclic E" and closed: "fst ` E \<subseteq> V"
  shows "set (topo_order V E) = V"
proof (rule ccontr)
  assume "set (topo_order V E) \<noteq> V"
  then have ne: "V - set (topo_order V E) \<noteq> {}" using order_subset by blast
  let ?M = "V - set (topo_order V E)"
  let ?R = "{(u, v). (u, v) \<in> E \<and> u \<in> ?M \<and> v \<in> ?M}"
  have "finite ?R" by (rule finite_subset [of _ "V \<times> V"]) (use finite_nodes in auto)
  moreover have "acyclic ?R" by (rule acyclic_subset [OF assms(1)]) auto
  ultimately have "wf ?R" by (rule finite_acyclic_wf)
  then obtain v where v: "v \<in> ?M" and least: "\<And>u. (u, v) \<in> ?R \<Longrightarrow> u \<notin> ?M"
    using ne by (metis (no_types, lifting) wfE_min ex_in_conv)
  from v missing_pred obtain u where u: "(u, v) \<in> E" "u \<notin> set (topo_order V E)" by blast
  with closed have "u \<in> ?M" by force
  with u v least show False by blast
qed

lemma acyclic_if_complete:
  assumes "set (topo_order V E) = V" and closed: "snd ` E \<subseteq> V"
  shows "acyclic E"
proof -
  let ?idx = "\<lambda>v. THE i. i < length (topo_order V E) \<and> (topo_order V E) ! i = v"
  have idx: "?idx ((topo_order V E) ! i) = i" if "i < length (topo_order V E)" for i
    using that order_distinct by (auto simp: nth_eq_iff_index_eq)
  have "E \<subseteq> measure ?idx"
  proof
    fix e assume "e \<in> E"
    obtain u v where e: "e = (u, v)" by (cases e)
    with \<open>e \<in> E\<close> closed assms(1) obtain j where j: "j < length (topo_order V E)" "(topo_order V E) ! j = v"
      by (metis image_subset_iff in_set_conv_nth snd_conv)
    with order_topo \<open>e \<in> E\<close> e have "u \<in> set (take j (topo_order V E))" by (auto simp: topo_ordered_def)
    then obtain i where "i < j" "i < length (topo_order V E)" "(topo_order V E) ! i = u" by (auto simp: in_set_conv_nth)
    with j idx e show "e \<in> measure ?idx" by auto
  qed
  then show ?thesis using wf_acyclic [OF wf_measure] acyclic_subset by blast
qed

lemma complete_iff_acyclic:
  "fst ` E \<subseteq> V \<Longrightarrow> snd ` E \<subseteq> V \<Longrightarrow> set (topo_order V E) = V \<longleftrightarrow> acyclic E"
  using complete_if_acyclic acyclic_if_complete by blast

lemma length_order_iff: "length (topo_order V E) = card V \<longleftrightarrow> set (topo_order V E) = V"
  by (metis card_subset_eq distinct_card finite_nodes order_distinct order_subset)

end

end
