(* ===== verification/Planner.thy ===== *)
theory Planner
  imports ConfigValidate DepGraph
begin

text \<open>
  \<^verbatim>\<open>Build\<close> of internal/planner/plan.go: from a configuration to an ordered plan. The
  dependency graph, its in-degrees and the set of edges already seen are the maps of the
  source; \<open>kahn\<close> is its work-list loop. \<open>cfg_edges\<close> is the specification: the edges that the
  relations of the resources ask for.
\<close>

record step =
  st_order :: int
  st_host :: host
  st_resource :: resource

record plan =
  pl_execution :: execution
  pl_steps :: "step list"
  pl_handlers :: "step gomap"

section \<open>Host transports\<close>

definition is_local_name :: "string \<Rightarrow> bool" where
  "is_local_name t \<longleftrightarrow> t = ''localhost'' \<or> t = ''127.0.0.1'' \<or> t = ''::1''"

definition isLocalEndpoint :: "host \<Rightarrow> bool" where
  "isLocalEndpoint h =
     (let target = lower_trim (h_address h);
          target = (if target = [] then lower_trim (h_name h) else target)
      in is_local_name target)"

definition capability_set :: "host \<Rightarrow> string set" where
  "capability_set h = lower_trim ` set (h_capabilities h) - {[]}"

definition discoverHostTransport :: "host \<Rightarrow> string" where
  "discoverHostTransport h =
     (if ''local'' \<in> capability_set h \<and> isLocalEndpoint h then ''local''
      else if ''winrm'' \<in> capability_set h then ''winrm''
      else if ''ssh'' \<in> capability_set h then ''ssh''
      else if isLocalEndpoint h then ''local''
      else if h_port h = 5985 \<or> h_port h = 5986 then ''winrm''
      else if Contains (lower_trim (mget_or [] (h_labels h) ''os'')) ''windows'' then ''winrm''
      else if nonblank (h_user h) \<or> nonblank (h_jump_address h) \<or> nonblank (h_proxy_command h)
        then ''ssh''
      else ''ssh'')"

definition resolveHostTransport :: "host \<Rightarrow> host" where
  "resolveHostTransport h =
     (let transport = lower_trim (h_transport h);
          transport = (if transport = [] then ''local'' else transport)
      in if transport \<noteq> ''auto'' then h\<lparr>h_transport := transport\<rparr>
         else h\<lparr>h_transport := discoverHostTransport h\<rparr>)"

section \<open>The dependency graph\<close>

record build_state =
  bs_in_degree :: "int gomap"
  bs_edge_set :: "string list"
  bs_graph :: "string list gomap"

definition edge_key :: "string \<Rightarrow> string \<Rightarrow> string" where
  "edge_key from to = from @ ''->'' @ to"

definition addEdge :: "string \<Rightarrow> string \<Rightarrow> build_state \<Rightarrow> build_state" where
  "addEdge from to s =
     (if TrimSpace from = [] \<or> TrimSpace to = [] then s
      else if edge_key from to \<in> set (bs_edge_set s) then s
      else s\<lparr>bs_edge_set := edge_key from to # bs_edge_set s,
             bs_graph := mput from (mget_or [] (bs_graph s) from @ [to]) (bs_graph s),
             bs_in_degree := mput to (mget_or 0 (bs_in_degree s) to + 1) (bs_in_degree s)\<rparr>)"

definition resource_edges :: "resource \<Rightarrow> (string \<times> string) list" where
  "resource_edges r = map (\<lambda>dep. (dep, r_id r)) (upstream_refs r)
     @ map (\<lambda>target. (r_id r, target)) (downstream_refs r)"

definition build_graph :: "config \<Rightarrow> build_state" where
  "build_graph cfg =
     fold (\<lambda>r s. fold (\<lambda>(a, b). addEdge a b) (resource_edges r) s) (cfg_resources cfg)
       \<lparr>bs_in_degree = fold (\<lambda>r. mput (r_id r) 0) (cfg_resources cfg) [],
        bs_edge_set = [], bs_graph = []\<rparr>"

section \<open>The work list\<close>

text \<open>The inner loop over the children of the node just taken.\<close>

fun relax :: "string list \<Rightarrow> int gomap \<Rightarrow> string list \<Rightarrow> int gomap \<times> string list" where
  "relax [] d q = (d, q)"
| "relax (c # cs) d q =
     (let n = mget_or 0 d c - 1
      in relax cs (mput c n d) (if n = 0 then q @ [c] else q))"

definition credit :: "int gomap \<Rightarrow> nat" where
  "credit d = (\<Sum>p \<leftarrow> d. nat (snd p))"

lemma credit_mput_dec:
  "credit (mput c (mget_or 0 d c - 1) d) = credit d - (if 0 < mget_or 0 d c then 1 else 0)
   \<and> (0 < mget_or 0 d c \<longrightarrow> 0 < credit d)"
proof (induction d)
  case (Cons p d)
  obtain k v where p: "p = (k, v)" by (cases p)
  show ?case
  proof (cases "k = c")
    case True
    then show ?thesis by (auto simp: credit_def p mget_or_def nat_diff_distrib)
  next
    case False
    then have "mget_or 0 (p # d) c = mget_or 0 d c" by (simp add: p mget_or_def)
    with False Cons.IH show ?thesis by (auto simp: credit_def p)
  qed
qed (simp add: credit_def)

text \<open>
  Each node enters the queue at the moment its in-degree drops to zero, which uses up one unit
  of positive in-degree: the queue length plus the remaining in-degrees shrinks in every round.
\<close>

lemma relax_credit:
  "relax cs d q = (d', q') \<Longrightarrow> length q' + credit d' \<le> length q + credit d"
proof (induction cs arbitrary: d q)
  case (Cons c cs)
  let ?n = "mget_or 0 d c - 1"
  let ?q = "if ?n = 0 then q @ [c] else q"
  from Cons.prems have "relax cs (mput c ?n d) ?q = (d', q')" by (simp add: Let_def)
  from Cons.IH [OF this] have "length q' + credit d' \<le> length ?q + credit (mput c ?n d)" .
  also have "\<dots> \<le> length q + credit d"
    using credit_mput_dec [of c d] by auto
  finally show ?case .
qed simp

function kahn :: "string list gomap \<Rightarrow> int gomap \<Rightarrow> string list \<Rightarrow> string list \<Rightarrow> string list" where
  "kahn g d q ordered =
     (case q of
        [] \<Rightarrow> ordered
      | cur # rest \<Rightarrow>
          (let r = relax (sort (mget_or [] g cur)) d rest
           in kahn g (fst r) (sort (snd r)) (ordered @ [cur])))"
  by pat_completeness auto
termination
proof (relation "measure (\<lambda>(g, d, q, ordered). length q + credit d)")
  fix g d q ordered cur rest r
  assume q: "q = cur # rest" and r: "r = relax (sort (mget_or [] g cur)) d rest"
  have "length (snd r) + credit (fst r) \<le> length rest + credit d"
    by (rule relax_credit [of "sort (mget_or [] g cur)"]) (simp add: r)
  then show "((g, fst r, sort (snd r), ordered @ [cur]), g, d, q, ordered)
      \<in> measure (\<lambda>(g, d, q, ordered). length q + credit d)"
    by (simp add: q)
qed simp

declare kahn.simps [simp del]

section \<open>Build\<close>

definition zero_ids :: "int gomap \<Rightarrow> string list" where
  "zero_ids d = sort (map fst (filter (\<lambda>p. snd p = 0) d))"

definition exec_host :: "resource \<Rightarrow> string" where
  "exec_host r = (if nonblank (r_delegate_to r) then r_delegate_to r else r_host r)"

definition id_to_res :: "config \<Rightarrow> resource gomap" where
  "id_to_res cfg = fold (\<lambda>r. mput (r_id r) r) (cfg_resources cfg) []"

definition host_by_name :: "config \<Rightarrow> host gomap" where
  "host_by_name cfg = fold (\<lambda>h. mput (h_name (resolveHostTransport h)) (resolveHostTransport h)) (cfg_hosts cfg) []"

definition mk_step :: "config \<Rightarrow> int \<Rightarrow> resource \<Rightarrow> step" where
  "mk_step cfg n r = \<lparr>st_order = n, st_host = mget_or zero_host (host_by_name cfg) (exec_host r),
     st_resource = r\<rparr>"

definition mk_steps :: "config \<Rightarrow> string list \<Rightarrow> step list" where
  "mk_steps cfg ordered =
     map (\<lambda>(i, rid). mk_step cfg (int i + 1) (mget_or zero_resource (id_to_res cfg) rid)) (enumerate 0 ordered)"

definition mk_handlers :: "config \<Rightarrow> nat \<Rightarrow> step gomap" where
  "mk_handlers cfg n =
     fold (\<lambda>(i, h). mput (r_id h) (mk_step cfg (int n + int i + 1) h)) (enumerate 0 (cfg_handlers cfg)) []"

definition topo_ids :: "config \<Rightarrow> string list" where
  "topo_ids cfg = (let s = build_graph cfg in kahn (bs_graph s) (bs_in_degree s) (zero_ids (bs_in_degree s)) [])"

definition Build :: "config \<Rightarrow> plan result" where
  "Build cfg =
     (let ordered = topo_ids cfg
      in if length ordered \<noteq> length (cfg_resources cfg)
         then Inl ''cycle detected in resource dependency graph''
         else Inr \<lparr>pl_execution = cfg_execution cfg, pl_steps = mk_steps cfg ordered,
                pl_handlers = mk_handlers cfg (length ordered)\<rparr>)"

section \<open>The loop computes the greedy order\<close>

definition children :: "string list gomap \<Rightarrow> string \<Rightarrow> string list" where
  "children g a = mget_or [] g a"

definition graph_edges :: "string list gomap \<Rightarrow> (string \<times> string) set" where
  "graph_edges g = {(a, b). b \<in> set (children g a)}"

definition open_preds :: "(string \<times> string) set \<Rightarrow> string set \<Rightarrow> string \<Rightarrow> string set" where
  "open_preds E D v = {u. (u, v) \<in> E \<and> u \<notin> D}"

lemma finite_graph_edges: "finite (graph_edges g)"
proof (rule finite_subset)
  show "graph_edges g \<subseteq> (\<Union>(a, bs) \<in> set g. {a} \<times> set bs)"
  proof
    fix e assume "e \<in> graph_edges g"
    then obtain a b where e: "e = (a, b)" "b \<in> set (children g a)"
      by (cases e) (auto simp: graph_edges_def)
    then obtain bs where "mget g a = Some bs" "b \<in> set bs"
      by (cases "mget g a") (auto simp: children_def mget_or_def)
    with e(1) show "e \<in> (\<Union>(a, bs) \<in> set g. {a} \<times> set bs)" by (force dest: map_of_SomeD)
  qed
qed auto

lemma relax_queue:
  "distinct cs \<Longrightarrow> snd (relax cs d q) = q @ filter (\<lambda>c. mget_or 0 d c = 1) cs"
proof (induction cs arbitrary: d q)
  case (Cons c cs)
  have "filter (\<lambda>x. mget_or 0 (mput c (mget_or 0 d c - 1) d) x = 1) cs = filter (\<lambda>x. mget_or 0 d x = 1) cs"
    using Cons.prems by (intro filter_cong) auto
  with Cons show ?case by (simp add: Let_def)
qed simp

lemma relax_degree:
  "distinct cs \<Longrightarrow> mget_or 0 (fst (relax cs d q)) v = mget_or 0 d v - (if v \<in> set cs then 1 else 0)"
  by (induction cs arbitrary: d q) (auto simp: Let_def)

text \<open>
  The invariant of the work list: every in-degree counts the predecessors not yet emitted, the
  queue is the sorted list of the ready nodes, and what was emitted is closed under predecessors.
\<close>

definition kahn_inv :: "string set \<Rightarrow> string list gomap \<Rightarrow> int gomap \<Rightarrow> string list \<Rightarrow> string list \<Rightarrow> bool" where
  "kahn_inv V g d q ord \<longleftrightarrow>
     (\<forall>a. distinct (children g a)) \<and> snd ` graph_edges g \<subseteq> V \<and>
     (\<forall>v. mget_or 0 d v = int (card (open_preds (graph_edges g) (set ord) v))) \<and>
     distinct q \<and> sorted q \<and> set q = ready V (graph_edges g) (set ord) \<and>
     (\<forall>v \<in> set ord. open_preds (graph_edges g) (set ord) v = {})"

lemma finite_open_preds: "finite (open_preds (graph_edges g) D v)"
proof (rule finite_subset)
  show "open_preds (graph_edges g) D v \<subseteq> fst ` graph_edges g" by (force simp: open_preds_def)
qed (simp add: finite_graph_edges)

lemma open_preds_insert:
  "open_preds E (insert c D) v = open_preds E D v - {c}"
  by (auto simp: open_preds_def)

lemma ready_open_preds: "v \<in> ready V E D \<longleftrightarrow> v \<in> V \<and> v \<notin> D \<and> open_preds E D v = {}"
  by (auto simp: ready_def open_preds_def)

lemma ready_insert:
  assumes cur: "cur \<in> ready V E D" and targets: "snd ` E \<subseteq> V"
    and closed: "\<And>v. v \<in> D \<Longrightarrow> open_preds E D v = {}"
  shows "ready V E (insert cur D) = (ready V E D - {cur}) \<union> {c. open_preds E D c = {cur}}"
proof (rule set_eqI)
  fix c
  have V: "c \<in> V" and D: "c \<notin> D" and self: "c \<noteq> cur" if "open_preds E D c = {cur}"
  proof -
    from that have "(cur, c) \<in> E" by (auto simp: open_preds_def)
    with targets show "c \<in> V" by force
    from that closed [of c] show "c \<notin> D" by auto
    from that cur show "c \<noteq> cur" by (auto simp: ready_open_preds)
  qed
  have "open_preds E D c - {cur} = {} \<longleftrightarrow> open_preds E D c = {} \<or> open_preds E D c = {cur}" by blast
  then show "c \<in> ready V E (insert cur D) \<longleftrightarrow> c \<in> (ready V E D - {cur}) \<union> {c. open_preds E D c = {cur}}"
    using V D self cur by (auto simp: ready_open_preds open_preds_insert)
qed

lemma card_one_iff: "card A = 1 \<and> x \<in> A \<longleftrightarrow> A = {x}"
  by (auto simp: card_1_singleton_iff)

lemma card_minus_one:
  "finite A \<Longrightarrow> int (card (A - {x})) = int (card A) - (if x \<in> A then 1 else 0)"
proof (cases "x \<in> A")
  case True
  assume "finite A"
  with True have "card A = Suc (card (A - {x}))" by (intro card.remove)
  with True show ?thesis by simp
qed simp

lemma kahn_inv_step:
  assumes inv: "kahn_inv V g d (cur # rest) ord"
  defines "r \<equiv> relax (sort (children g cur)) d rest"
  shows "kahn_inv V g (fst r) (sort (snd r)) (ord @ [cur])"
proof -
  let ?E = "graph_edges g" and ?D = "set ord" and ?cs = "sort (children g cur)"
  have dist: "distinct ?cs" using inv by (simp add: kahn_inv_def)
  have deg: "mget_or 0 d v = int (card (open_preds ?E ?D v))" for v using inv by (simp add: kahn_inv_def)
  have q: "ready V ?E ?D = set (cur # rest)" "distinct (cur # rest)"
    using inv by (simp_all only: kahn_inv_def)
  have cur: "cur \<in> ready V ?E ?D" by (simp only: q(1) list.set_intros)
  have rest: "set rest = ready V ?E ?D - {cur}" "distinct rest"
    using q(2) by (simp_all add: q(1))
  have closed: "v \<in> ?D \<Longrightarrow> open_preds ?E ?D v = {}" for v using inv by (simp add: kahn_inv_def)
  have targets: "snd ` ?E \<subseteq> V" using inv by (simp add: kahn_inv_def)
  have cur_D: "cur \<notin> ?D" using cur by (simp add: ready_def)
  have child: "c \<in> set ?cs \<longleftrightarrow> cur \<in> open_preds ?E ?D c" for c
    using cur_D by (simp add: open_preds_def graph_edges_def)
  have one: "mget_or 0 d c = 1 \<and> c \<in> set ?cs \<longleftrightarrow> open_preds ?E ?D c = {cur}" for c
  proof -
    have "card (open_preds ?E ?D c) = 1 \<and> cur \<in> open_preds ?E ?D c \<longleftrightarrow> open_preds ?E ?D c = {cur}"
      by (rule card_one_iff)
    then show ?thesis by (metis deg child of_nat_1 of_nat_eq_iff)
  qed
  have ready': "ready V ?E (insert cur ?D) = set rest \<union> {c. open_preds ?E ?D c = {cur}}"
    unfolding rest(1) using cur targets closed by (rule ready_insert)
  have q': "snd r = rest @ filter (\<lambda>c. mget_or 0 d c = 1) ?cs"
    unfolding r_def by (rule relax_queue [OF dist])
  have fset: "set (filter (\<lambda>c. mget_or 0 d c = 1) ?cs) = {c. open_preds ?E ?D c = {cur}}"
    using one by (simp only: set_filter) blast
  have "c \<notin> ready V ?E ?D" if "open_preds ?E ?D c = {cur}" for c
    using that by (simp only: ready_open_preds) blast
  then have "set rest \<inter> {c. open_preds ?E ?D c = {cur}} = {}"
    unfolding rest(1) by blast
  then have dq: "distinct (snd r)"
    unfolding q' distinct_append fset using rest(2) distinct_filter [OF dist] by blast
  have deg': "mget_or 0 (fst r) v = int (card (open_preds ?E (insert cur ?D) v))" for v
  proof -
    have fin: "finite (open_preds ?E ?D v)" by (rule finite_open_preds)
    have "mget_or 0 (fst r) v = mget_or 0 d v - (if v \<in> set ?cs then 1 else 0)"
      unfolding r_def by (rule relax_degree [OF dist])
    moreover have "int (card (open_preds ?E ?D v - {cur}))
        = int (card (open_preds ?E ?D v)) - (if cur \<in> open_preds ?E ?D v then 1 else 0)"
      using fin by (rule card_minus_one)
    ultimately show ?thesis by (simp only: open_preds_insert deg child)
  qed
  have sq: "set (snd r) = ready V ?E (insert cur ?D)"
    unfolding q' set_append fset ready' ..
  have cl: "open_preds ?E (insert cur ?D) v = {}" if "v \<in> insert cur ?D" for v
  proof -
    have "open_preds ?E ?D v = {}" using that closed cur by (auto simp: ready_open_preds)
    then show ?thesis by (simp add: open_preds_insert)
  qed
  have D': "set (ord @ [cur]) = insert cur ?D" by simp
  have dc: "\<forall>a. distinct (children g a)" using inv by (simp add: kahn_inv_def)
  show ?thesis
    unfolding kahn_inv_def D' set_sort distinct_sort
    by (intro conjI allI ballI sorted_sort) (use dc targets deg' dq sq cl in blast)+
qed

lemma kahn_greedy:
  assumes "finite V"
  shows "kahn_inv V g d q ord \<Longrightarrow> card (V - set ord) \<le> n \<Longrightarrow>
    kahn g d q ord = ord @ greedy n V (graph_edges g) (set ord)"
proof (induction g d q ord arbitrary: n rule: kahn.induct)
  case (1 g d q ord)
  have dg: "dep_graph V" using assms by (rule dep_graph.intro)
  let ?E = "graph_edges g"
  show ?case
  proof (cases q)
    case Nil
    then have "ready V ?E (set ord) = {}" using "1.prems"(1) by (simp add: kahn_inv_def)
    with Nil show ?thesis
      by (simp add: kahn.simps [of g d "[]"] dep_graph.greedy_stop [OF dg] del: greedy.simps)
  next
    case (Cons cur rest)
    let ?r = "relax (sort (children g cur)) d rest"
    have inv: "kahn_inv V g d (cur # rest) ord" using "1.prems"(1) Cons by simp
    have cur: "cur \<in> ready V ?E (set ord)" and min: "Min (ready V ?E (set ord)) = cur"
      using inv Min_insert2 [of "set rest" cur] by (auto simp: kahn_inv_def)
    have "cur \<in> V - set ord" using cur by (simp add: ready_def)
    moreover have "V - set (ord @ [cur]) = (V - set ord) - {cur}" by auto
    ultimately have c1: "card (V - set (ord @ [cur])) = card (V - set ord) - 1" and c2: "0 < card (V - set ord)"
      using assms by (auto simp: card_Diff_singleton card_gt_0_iff)
    then obtain m where n: "n = Suc m" using "1.prems"(2) by (cases n) auto
    have "kahn g d q ord = kahn g (fst ?r) (sort (snd ?r)) (ord @ [cur])"
      by (simp add: kahn.simps [of g d "cur # rest"] Cons children_def Let_def)
    also have "\<dots> = (ord @ [cur]) @ greedy m V ?E (set (ord @ [cur]))"
      using "1.IH" [OF Cons refl] kahn_inv_step [OF inv] c1 c2 "1.prems"(2) n
      by (simp add: children_def)
    also have "\<dots> = ord @ greedy n V ?E (set ord)"
      using cur min by (auto simp: n)
    finally show ?thesis .
  qed
qed


section \<open>The graph that the code builds\<close>

definition graph_ok :: "build_state \<Rightarrow> bool" where
  "graph_ok s \<longleftrightarrow> (\<forall>a. distinct (children (bs_graph s) a)) \<and>
     (\<forall>v. mget_or 0 (bs_in_degree s) v = int (card (open_preds (graph_edges (bs_graph s)) {} v))) \<and>
     snd ` graph_edges (bs_graph s) \<subseteq> set (mkeys (bs_in_degree s)) \<and> wf_map (bs_in_degree s) \<and>
     set (bs_edge_set s) = (\<lambda>(a, b). edge_key a b) ` graph_edges (bs_graph s)"

definition skips :: "string \<Rightarrow> string \<Rightarrow> build_state \<Rightarrow> bool" where
  "skips a b s \<longleftrightarrow> TrimSpace a = [] \<or> TrimSpace b = [] \<or> edge_key a b \<in> set (bs_edge_set s)"

lemma addEdge_skip: "skips a b s \<Longrightarrow> addEdge a b s = s"
  by (auto simp: addEdge_def skips_def)

lemma addEdge_new:
  "\<not> skips a b s \<Longrightarrow> addEdge a b s =
     s\<lparr>bs_edge_set := edge_key a b # bs_edge_set s,
       bs_graph := mput a (children (bs_graph s) a @ [b]) (bs_graph s),
       bs_in_degree := mput b (mget_or 0 (bs_in_degree s) b + 1) (bs_in_degree s)\<rparr>"
  by (simp add: addEdge_def skips_def children_def)

lemma children_mput: "children (mput a bs g) x = (if x = a then bs else children g x)"
  by (simp add: children_def)

lemma graph_edges_mput:
  "graph_edges (mput a (children g a @ [b]) g) = insert (a, b) (graph_edges g)"
  by (auto simp: graph_edges_def children_mput split: if_splits)

lemma open_preds_insert_edge:
  "open_preds (insert (a, b) E) {} v = (if v = b then insert a (open_preds E {} v) else open_preds E {} v)"
  by (auto simp: open_preds_def)

lemma addEdge_ok:
  assumes ok: "graph_ok s"
  shows "graph_ok (addEdge a b s)"
proof (cases "skips a b s")
  case True
  then show ?thesis using ok by (simp add: addEdge_skip)
next
  case False
  let ?E = "graph_edges (bs_graph s)" and ?g = "mput a (children (bs_graph s) a @ [b]) (bs_graph s)"
  have keys: "set (bs_edge_set s) = (\<lambda>(a, b). edge_key a b) ` ?E" using ok by (simp add: graph_ok_def)
  have new: "(a, b) \<notin> ?E" using False keys by (force simp: skips_def)
  then have nb: "b \<notin> set (children (bs_graph s) a)" and na: "a \<notin> open_preds ?E {} b"
    by (auto simp: graph_edges_def open_preds_def)
  have d: "\<forall>x. distinct (children ?g x)" using ok nb by (simp add: graph_ok_def children_mput)
  have deg: "mget_or 0 (mput b (mget_or 0 (bs_in_degree s) b + 1) (bs_in_degree s)) v
      = int (card (open_preds (insert (a, b) ?E) {} v))" for v
  proof -
    have "mget_or 0 (bs_in_degree s) w = int (card (open_preds ?E {} w))" for w
      using ok by (simp add: graph_ok_def)
    moreover have "card (insert a (open_preds ?E {} b)) = Suc (card (open_preds ?E {} b))"
      using na finite_open_preds by simp
    ultimately show ?thesis by (simp add: open_preds_insert_edge)
  qed
  from ok have "snd ` ?E \<subseteq> set (mkeys (bs_in_degree s))" "wf_map (bs_in_degree s)"
    by (simp_all add: graph_ok_def)
  with d deg keys show ?thesis
    by (simp only: addEdge_new [OF False] graph_ok_def) (simp add: graph_edges_mput set_mkeys_mput subset_insertI2 wf_map_mput del: set_map)
qed

lemma addEdge_edges:
  "graph_edges (bs_graph (addEdge a b s)) =
     (if skips a b s then graph_edges (bs_graph s) else insert (a, b) (graph_edges (bs_graph s)))"
  by (simp add: addEdge_skip addEdge_new graph_edges_mput)

lemma addEdge_dom:
  "set (mkeys (bs_in_degree (addEdge a b s))) =
     (if skips a b s then set (mkeys (bs_in_degree s)) else insert b (set (mkeys (bs_in_degree s))))"
  by (simp add: addEdge_skip addEdge_new set_mkeys_mput del: set_map)

text \<open>Identifiers for which the textual edge key identifies the edge.\<close>

definition plain_id :: "string \<Rightarrow> bool" where
  "plain_id s \<longleftrightarrow> nonblank s \<and> \<not> Contains s ''->''"

lemma edge_key_inj_aux:
  assumes "a @ ''->'' @ b = a' @ ''->'' @ b'" and "\<not> sublist ''->'' a'" and "length a \<le> length a'"
  shows "a = a' \<and> b = b'"
proof -
  from assms(1,3) obtain us where a': "a' = a @ us" and eq: "''->'' @ b = us @ ''->'' @ b'"
    by (metis (no_types, lifting) append_eq_append_conv_if append_take_drop_id le_eq_less_or_eq append_eq_conv_conj)
  show ?thesis
  proof (cases us)
    case Nil
    with a' eq show ?thesis by simp
  next
    case (Cons c us')
    show ?thesis
    proof (cases us')
      case Nil
      with Cons eq show ?thesis by simp
    next
      case (Cons d us'')
      with \<open>us = c # us'\<close> eq have "us = ''->'' @ us''" by simp
      then have "sublist ''->'' a'" using a' by (auto simp: sublist_def)
      with assms(2) show ?thesis by contradiction
    qed
  qed
qed

lemma edge_key_inj:
  assumes "edge_key a b = edge_key a' b'" and "plain_id a" and "plain_id a'"
  shows "a = a' \<and> b = b'"
proof (cases "length a \<le> length a'")
  case True
  then show ?thesis
    using edge_key_inj_aux [of a b a' b'] assms by (simp add: edge_key_def plain_id_def Contains_sublist)
next
  case False
  then show ?thesis
    using edge_key_inj_aux [of a' b' a b] assms
    by (simp add: edge_key_def plain_id_def Contains_sublist eq_commute)
qed

definition plain_edges :: "(string \<times> string) set \<Rightarrow> bool" where
  "plain_edges E \<longleftrightarrow> (\<forall>(a, b) \<in> E. plain_id a \<and> plain_id b)"

lemma addEdge_plain:
  assumes "graph_ok s" and "plain_edges (insert (a, b) (graph_edges (bs_graph s)))"
  shows "graph_edges (bs_graph (addEdge a b s)) = insert (a, b) (graph_edges (bs_graph s))"
proof (cases "skips a b s")
  case True
  have "plain_id a" "plain_id b" using assms(2) by (auto simp: plain_edges_def)
  with True have "edge_key a b \<in> (\<lambda>(a, b). edge_key a b) ` graph_edges (bs_graph s)"
    using assms(1) by (simp add: skips_def graph_ok_def plain_id_def nonblank_def)
  then obtain a' b' where e: "(a', b') \<in> graph_edges (bs_graph s)" "edge_key a b = edge_key a' b'"
    by auto
  with assms(2) have "plain_id a'" by (auto simp: plain_edges_def)
  with e edge_key_inj \<open>plain_id a\<close> have "(a, b) \<in> graph_edges (bs_graph s)" by blast
  then show ?thesis by (simp add: addEdge_edges insert_absorb)
qed (simp add: addEdge_edges)

text \<open>The edges a configuration asks for, and the configurations whose graph is faithful to them.\<close>

definition cfg_edge_list :: "config \<Rightarrow> (string \<times> string) list" where
  "cfg_edge_list c = concat (map resource_edges (cfg_resources c))"

abbreviation cfg_edges :: "config \<Rightarrow> (string \<times> string) set" where
  "cfg_edges c \<equiv> set (cfg_edge_list c)"

definition plan_ready :: "config \<Rightarrow> bool" where
  "plan_ready c \<longleftrightarrow> distinct (res_ids c) \<and> list_all plain_id (res_ids c) \<and>
     list_all (\<lambda>r. set (upstream_refs r @ downstream_refs r) \<subseteq> set (res_ids c)) (cfg_resources c)"

interpretation cg: dep_graph "set (res_ids c)" "cfg_edges c" for c
  by unfold_locales simp

definition init_graph :: "config \<Rightarrow> build_state" where
  "init_graph c = \<lparr>bs_in_degree = fold (\<lambda>r. mput (r_id r) 0) (cfg_resources c) [],
     bs_edge_set = [], bs_graph = []\<rparr>"

lemma fold_fold_concat: "fold (\<lambda>r. fold f (g r)) rs s = fold f (concat (map g rs)) s"
  by (induction rs arbitrary: s) simp_all

lemma build_graph_eq: "build_graph c = fold (\<lambda>(a, b). addEdge a b) (cfg_edge_list c) (init_graph c)"
  by (simp add: build_graph_def init_graph_def cfg_edge_list_def fold_fold_concat)

lemma graph_edges_Nil [simp]: "graph_edges [] = {}"
  by (simp add: graph_edges_def children_def)

lemma init_degrees:
  assumes "\<forall>v. mget_or 0 m v = (0::int)" and "wf_map m"
  shows "(\<forall>v. mget_or 0 (fold (\<lambda>r. mput (r_id r) 0) rs m) v = 0) \<and> wf_map (fold (\<lambda>r. mput (r_id r) 0) rs m) \<and>
     set (mkeys (fold (\<lambda>r. mput (r_id r) 0) rs m)) = set (mkeys m) \<union> set (map r_id rs)"
  using assms
proof (induction rs arbitrary: m)
  case (Cons r rs)
  have "\<forall>v. mget_or 0 (mput (r_id r) 0 m) v = (0::int)" "wf_map (mput (r_id r) 0 m)"
    using Cons.prems by simp_all
  from Cons.IH [OF this] show ?case by (simp add: set_mkeys_mput del: set_map)
qed simp

lemma init_graph_ok: "graph_ok (init_graph c)"
  and init_graph_keys: "set (mkeys (bs_in_degree (init_graph c))) = set (res_ids c)"
  using init_degrees [of "[]" "cfg_resources c"]
  by (auto simp: graph_ok_def init_graph_def open_preds_def children_def)

lemma fold_addEdge_ok: "graph_ok s \<Longrightarrow> graph_ok (fold (\<lambda>(a, b). addEdge a b) es s)"
  by (induction es arbitrary: s) (auto simp: addEdge_ok)

lemma fold_addEdge_plain:
  "graph_ok s \<Longrightarrow> plain_edges (set es \<union> graph_edges (bs_graph s)) \<Longrightarrow>
     graph_edges (bs_graph (fold (\<lambda>(a, b). addEdge a b) es s)) = set es \<union> graph_edges (bs_graph s)"
proof (induction es arbitrary: s)
  case (Cons e es)
  obtain a b where e: "e = (a, b)" by (cases e)
  have "plain_edges (insert (a, b) (graph_edges (bs_graph s)))"
    using Cons.prems(2) by (auto simp: plain_edges_def e)
  from addEdge_plain [OF Cons.prems(1) this] Cons show ?case
    by (simp add: e addEdge_ok)
qed simp

lemma fold_addEdge_keys:
  "snd ` set es \<subseteq> set (mkeys (bs_in_degree s)) \<Longrightarrow>
     set (mkeys (bs_in_degree (fold (\<lambda>(a, b). addEdge a b) es s))) = set (mkeys (bs_in_degree s))"
proof (induction es arbitrary: s)
  case (Cons e es)
  obtain a b where e: "e = (a, b)" by (cases e)
  have "set (mkeys (bs_in_degree (addEdge a b s))) = set (mkeys (bs_in_degree s))"
    using Cons.prems by (simp add: addEdge_dom e insert_absorb del: set_map)
  with Cons show ?case by (simp add: e del: set_map)
qed simp

lemma zero_ids_ready:
  assumes "graph_ok s"
  shows "set (zero_ids (bs_in_degree s)) = ready (set (mkeys (bs_in_degree s))) (graph_edges (bs_graph s)) {}"
    and "distinct (zero_ids (bs_in_degree s))"
proof -
  let ?d = "bs_in_degree s"
  have wf: "wf_map ?d" and deg: "\<And>v. mget_or 0 ?d v = int (card (open_preds (graph_edges (bs_graph s)) {} v))"
    using assms by (simp_all add: graph_ok_def)
  have "v \<in> fst ` set (filter (\<lambda>p. snd p = 0) ?d) \<longleftrightarrow> v \<in> set (mkeys ?d) \<and> mget_or 0 ?d v = 0" for v
  proof -
    have "v \<in> fst ` set (filter (\<lambda>p. snd p = 0) ?d) \<longleftrightarrow> (v, 0) \<in> set ?d" by force
    also have "\<dots> \<longleftrightarrow> mget ?d v = Some 0" using wf by (rule wf_map_mem)
    also have "\<dots> \<longleftrightarrow> v \<in> set (mkeys ?d) \<and> mget_or 0 ?d v = 0"
      unfolding set_mkeys by (auto simp: mget_or_def split: option.splits)
    finally show ?thesis .
  qed
  then show "set (zero_ids ?d) = ready (set (mkeys ?d)) (graph_edges (bs_graph s)) {}"
    using deg finite_open_preds
    by (intro set_eqI) (simp add: zero_ids_def ready_open_preds del: set_filter set_map, simp)
  show "distinct (zero_ids ?d)"
    using wf by (simp add: zero_ids_def wf_map_def distinct_map_filter)
qed

lemma topo_ids_general:
  "topo_ids c = topo_order (set (mkeys (bs_in_degree (build_graph c)))) (graph_edges (bs_graph (build_graph c)))"
proof -
  let ?s = "build_graph c"
  have ok: "graph_ok ?s" by (simp add: build_graph_eq fold_addEdge_ok init_graph_ok)
  have "kahn_inv (set (mkeys (bs_in_degree ?s))) (bs_graph ?s) (bs_in_degree ?s) (zero_ids (bs_in_degree ?s)) []"
    using ok zero_ids_ready [OF ok] by (simp add: kahn_inv_def graph_ok_def) (simp add: zero_ids_def)
  from kahn_greedy [OF _ this, of "card (set (mkeys (bs_in_degree ?s)))"] show ?thesis
    by (simp add: topo_ids_def topo_order_def Let_def)
qed

lemma cfg_edges_endpoints:
  "plan_ready c \<Longrightarrow> (a, b) \<in> cfg_edges c \<Longrightarrow> a \<in> set (res_ids c) \<and> b \<in> set (res_ids c)"
  by (fastforce simp: plan_ready_def cfg_edge_list_def resource_edges_def list_all_iff)

lemma build_graph_edges:
  assumes "plan_ready c"
  shows "graph_edges (bs_graph (build_graph c)) = cfg_edges c"
    and "set (mkeys (bs_in_degree (build_graph c))) = set (res_ids c)"
proof -
  have "plain_edges (cfg_edges c \<union> graph_edges (bs_graph (init_graph c)))"
    using cfg_edges_endpoints [OF assms] assms
    by (fastforce simp: plain_edges_def plan_ready_def list_all_iff init_graph_def)
  from fold_addEdge_plain [OF init_graph_ok this]
  show "graph_edges (bs_graph (build_graph c)) = cfg_edges c"
    by (simp add: build_graph_eq) (simp add: init_graph_def)
  have "snd ` cfg_edges c \<subseteq> set (mkeys (bs_in_degree (init_graph c)))"
    unfolding init_graph_keys using cfg_edges_endpoints [OF assms] by fastforce
  from fold_addEdge_keys [OF this] show "set (mkeys (bs_in_degree (build_graph c))) = set (res_ids c)"
    unfolding build_graph_eq init_graph_keys .
qed

lemma topo_ids_spec: "plan_ready c \<Longrightarrow> topo_ids c = topo_order (set (res_ids c)) (cfg_edges c)"
  using topo_ids_general [of c] by (simp only: build_graph_edges)

lemma Build_Inr_iff:
  "Build c = Inr p \<longleftrightarrow> length (topo_ids c) = length (cfg_resources c) \<and>
     p = \<lparr>pl_execution = cfg_execution c, pl_steps = mk_steps c (topo_ids c),
          pl_handlers = mk_handlers c (length (topo_ids c))\<rparr>"
  by (auto simp: Build_def Let_def)

lemma is_ok_Build: "is_ok (Build c) \<longleftrightarrow> length (topo_ids c) = length (cfg_resources c)"
  by (simp add: Build_def Let_def)

lemma id_to_res_mem:
  assumes "distinct (map r_id (rs :: resource list))" and "r \<in> set rs"
  shows "mget (fold (\<lambda>r. mput (r_id r) r) rs m) (r_id r) = Some r"
  using assms
proof (induction rs arbitrary: m rule: rev_induct)
  case (snoc x rs)
  then show ?case by (cases "r = x") (auto simp: rev_image_eqI)
qed simp

lemma topo_ids_perm:
  assumes "plan_ready c" and "length (topo_ids c) = length (cfg_resources c)"
  shows "mset (topo_ids c) = mset (res_ids c)"
proof -
  have d: "distinct (res_ids c)" using assms(1) by (simp add: plan_ready_def)
  then have "card (set (res_ids c)) = length (cfg_resources c)" using distinct_card [of "res_ids c"] by simp
  then have "set (topo_ids c) = set (res_ids c)"
    using assms cg.length_order_iff [of c] by (simp only: topo_ids_spec simp_thms)
  then show ?thesis
    using d cg.order_distinct [of c] assms(1) by (simp only: topo_ids_spec set_eq_iff_mset_eq_distinct)
qed

lemma map_lookup_ids:
  assumes "distinct (res_ids c)" and "mset ids = mset (res_ids c)"
  shows "map r_id (map (mget_or zero_resource (id_to_res c)) ids) = ids"
    and "mset (map (mget_or zero_resource (id_to_res c)) ids) = mset (cfg_resources c)"
proof -
  have res: "mget_or zero_resource (id_to_res c) (r_id r) = r" if "r \<in> set (cfg_resources c)" for r
    using id_to_res_mem [OF assms(1) that, of "[]"] by (simp add: mget_or_def id_to_res_def)
  have "set ids = set (res_ids c)" using assms(2) by (rule mset_eq_setD)
  then show "map r_id (map (mget_or zero_resource (id_to_res c)) ids) = ids"
    by (auto simp: res intro!: map_idI)
  have "mset (map (mget_or zero_resource (id_to_res c)) ids)
      = image_mset (mget_or zero_resource (id_to_res c)) (mset (res_ids c))"
    using assms(2) by simp
  also have "\<dots> = mset (map (mget_or zero_resource (id_to_res c) \<circ> r_id) (cfg_resources c))"
    by (simp add: image_mset.compositionality comp_def)
  also have "map (mget_or zero_resource (id_to_res c) \<circ> r_id) (cfg_resources c) = cfg_resources c"
    using res by (simp add: map_idI)
  finally show "mset (map (mget_or zero_resource (id_to_res c)) ids) = mset (cfg_resources c)" .
qed

lemma mk_steps_proj:
  "map st_resource (mk_steps c ids) = map (mget_or zero_resource (id_to_res c)) ids"
  "map st_order (mk_steps c ids) = map int [1..<Suc (length ids)]"
  "length (mk_steps c ids) = length ids"
proof -
  show "map st_resource (mk_steps c ids) = map (mget_or zero_resource (id_to_res c)) ids"
    by (rule nth_equalityI) (simp_all add: mk_steps_def mk_step_def nth_enumerate_eq)
  show "map st_order (mk_steps c ids) = map int [1..<Suc (length ids)]"
    by (rule nth_equalityI) (simp_all add: mk_steps_def mk_step_def nth_enumerate_eq del: upt_Suc)
qed (simp add: mk_steps_def)

lemma mk_steps_nth:
  "i < length ids \<Longrightarrow> mk_steps c ids ! i = mk_step c (int i + 1) (mget_or zero_resource (id_to_res c) (ids ! i))"
  by (simp add: mk_steps_def nth_enumerate_eq)

text \<open>C1: the plan of a well-formed configuration runs every resource exactly once, numbers the
  steps 1, 2, 3, ... in plan order, and places every resource after all the resources that its
  relations (depends_on, require, subscribe, and the before and notify of others) put before it.\<close>

theorem Build_respects_dependencies:
  assumes ready: "plan_ready c" and p: "Build c = Inr p"
  shows "mset (map st_resource (pl_steps p)) = mset (cfg_resources c) \<and>
    map st_order (pl_steps p) = map int [1..<Suc (length (cfg_resources c))] \<and>
    (\<forall>s \<in> set (pl_steps p). \<forall>t \<in> set (pl_steps p).
           (r_id (st_resource s), r_id (st_resource t)) \<in> cfg_edges c \<longrightarrow> st_order s < st_order t)"
proof -
  have len: "length (topo_ids c) = length (cfg_resources c)" and steps: "pl_steps p = mk_steps c (topo_ids c)"
    using p by (simp_all add: Build_Inr_iff)
  have d: "distinct (res_ids c)" using ready by (simp add: plan_ready_def)
  note look = map_lookup_ids [OF d topo_ids_perm [OF ready len]]
  have 1: "mset (map st_resource (pl_steps p)) = mset (cfg_resources c)"
    by (simp only: steps mk_steps_proj look)
  have 2: "map st_order (pl_steps p) = map int [1..<Suc (length (cfg_resources c))]"
    by (simp only: steps mk_steps_proj len)
  have id: "r_id (mget_or zero_resource (id_to_res c) (topo_ids c ! i)) = topo_ids c ! i"
    if "i < length (topo_ids c)" for i
    using arg_cong [OF look(1), of "\<lambda>xs. xs ! i"] that by simp
  have 3: "\<forall>s \<in> set (pl_steps p). \<forall>t \<in> set (pl_steps p).
           (r_id (st_resource s), r_id (st_resource t)) \<in> cfg_edges c \<longrightarrow> st_order s < st_order t"
    unfolding steps all_set_conv_all_nth mk_steps_proj
    using topo_ordered_index [OF cg.order_topo [of c] cg.order_distinct, folded topo_ids_spec [OF ready]]
    by (simp add: mk_steps_nth mk_step_def id) force
  show ?thesis using 1 2 3 by blast
qed

lemma plan_length_iff_acyclic:
  assumes ready: "plan_ready c"
  shows "length (topo_ids c) = length (cfg_resources c) \<longleftrightarrow> acyclic (cfg_edges c)"
proof -
  have "fst ` cfg_edges c \<subseteq> set (res_ids c)" "snd ` cfg_edges c \<subseteq> set (res_ids c)"
    using cfg_edges_endpoints [OF ready] by fastforce+
  note cg.complete_iff_acyclic [OF this]
  moreover have "card (set (res_ids c)) = length (cfg_resources c)"
    using ready distinct_card [of "res_ids c"] by (simp add: plan_ready_def)
  ultimately show ?thesis
    using cg.length_order_iff [of c] by (simp only: topo_ids_spec [OF ready])
qed



lemma demo_ready: "plan_ready demo_config"
  by code_simp

lemma demo_edges: "cfg_edges demo_config = {(''pkg'', ''conf''), (''conf'', ''svc'')}"
  by code_simp

lemma demo_plan_ids: "topo_ids demo_config = [''pkg'', ''conf'', ''svc'']"
  by code_simp

theorem Build_respects_dependencies_witness:
  "\<exists>p. Build demo_config = Inr p \<and> plan_ready demo_config \<and>
     map st_order (pl_steps p) = [1, 2, 3]"
proof -
  obtain p where p: "Build demo_config = Inr p"
    unfolding Build_Inr_iff demo_plan_ids by (simp add: demo_config_def)
  from Build_respects_dependencies [OF demo_ready this]
  have "map st_order (pl_steps p) = map int [1..<Suc (length (cfg_resources demo_config))]" by blast
  also have "\<dots> = [1, 2, 3]" by (simp add: demo_config_def)
  finally have "map st_order (pl_steps p) = [1, 2, 3]" .
  with p demo_ready show ?thesis by (intro exI conjI)
qed



text \<open>
  Without the restriction on the arrow the statement is false: two different edges can have the
  same textual key, and the second one is then dropped from the graph.
\<close>

definition arrow_resource :: "string \<Rightarrow> string list \<Rightarrow> resource" where
  "arrow_resource i deps = pkg_res\<lparr>r_id := i, r_depends_on := deps\<rparr>"

definition arrow_config :: config where
  "arrow_config = demo_config\<lparr>cfg_resources :=
     [arrow_resource ''x->y'' [], arrow_resource ''z'' [''x->y''],
      arrow_resource ''x'' [''y->z''], arrow_resource ''y->z'' [''x'']]\<rparr>"

text \<open>identifiers that contain the separator of the edge keys make \<^verbatim>\<open>Build\<close> lose an edge:
  a valid configuration whose relations are cyclic gets a plan.\<close>

theorem Build_arrow_collision:
  "valid_config arrow_config \<and> \<not> acyclic (cfg_edges arrow_config) \<and> is_ok (Build arrow_config)"
proof (intro conjI)
  have "Validate (Some arrow_config) = Inr arrow_config" by code_simp
  then show "valid_config arrow_config" using Validate_Inr_valid by blast
  have "(''x'', ''y->z'') \<in> cfg_edges arrow_config" "(''y->z'', ''x'') \<in> cfg_edges arrow_config" by code_simp+
  then show "\<not> acyclic (cfg_edges arrow_config)"
    unfolding acyclic_def by (meson r_into_trancl trancl_trans)
  show "is_ok (Build arrow_config)" by code_simp
qed

section \<open>Validated configurations\<close>

definition arrow_free :: "config \<Rightarrow> bool" where
  "arrow_free c \<longleftrightarrow> list_all (\<lambda>i. \<not> Contains i ''->'') (res_ids c)"

lemma valid_plan_ready: "valid_config c \<Longrightarrow> arrow_free c \<Longrightarrow> plan_ready c"
  by (auto simp: valid_config_def arrow_free_def plan_ready_def plain_id_def refs_closed_def
      resource_ok_def common_ok_def list_all_iff)

lemma resolve_name [simp]: "h_name (resolveHostTransport h) = h_name h"
  by (simp add: resolveHostTransport_def Let_def)

lemma host_by_name_mem:
  assumes "distinct (map h_name hs)" and "h \<in> set hs"
  shows "mget (fold (\<lambda>h. mput (h_name (resolveHostTransport h)) (resolveHostTransport h)) hs m) (h_name h)
    = Some (resolveHostTransport h)"
  using assms
proof (induction hs arbitrary: m rule: rev_induct)
  case (snoc x hs)
  then show ?case by (cases "h = x") (auto simp: rev_image_eqI)
qed simp

text \<open>The host a step runs on, for a resource whose host references resolve.\<close>

lemma valid_exec_host:
  assumes v: "valid_config c" and r: "r \<in> set (cfg_resources c)"
  shows "\<exists>h \<in> set (cfg_hosts c). h_name h = exec_host r \<and>
    mget_or zero_host (host_by_name c) (exec_host r) = resolveHostTransport h"
proof -
  have "exec_host r \<in> set (map h_name (cfg_hosts c))"
    using v r by (auto simp: valid_config_def list_all_iff resource_ok_def common_ok_def exec_host_def)
  then obtain h where h: "h \<in> set (cfg_hosts c)" "h_name h = exec_host r" by auto
  have "distinct (map h_name (cfg_hosts c))" using v by (simp add: valid_config_def)
  from host_by_name_mem [OF this h(1), of "[]"] h show ?thesis
    by (auto simp: mget_or_def host_by_name_def)
qed

definition concrete_transport :: "string \<Rightarrow> bool" where
  "concrete_transport t \<longleftrightarrow> t = ''local'' \<or> t = ''ssh'' \<or> t = ''winrm'' \<or> HasPrefix t ''plugin/''"

lemma discover_concrete: "concrete_transport (discoverHostTransport h)"
  by (simp add: discoverHostTransport_def concrete_transport_def)

lemma resolve_concrete:
  assumes "host_ok h"
  shows "concrete_transport (h_transport (resolveHostTransport h))"
proof -
  have ok: "transport_ok (h_transport h)" "lower_trim (h_transport h) = h_transport h" "h_transport h \<noteq> []"
    using assms transport_ok_nonempty by (simp_all add: host_ok_def)
  then have "h_transport h = ''auto'' \<or> concrete_transport (h_transport h)"
    unfolding transport_ok_def concrete_transport_def by auto
  with ok discover_concrete show ?thesis
    by (auto simp: resolveHostTransport_def Let_def)
qed

lemma plan_step_host:
  assumes v: "valid_config c" and a: "arrow_free c" and p: "Build c = Inr p" and s: "s \<in> set (pl_steps p)"
  shows "st_resource s \<in> set (cfg_resources c) \<and>
    (\<exists>h \<in> set (cfg_hosts c). h_name h = exec_host (st_resource s) \<and> st_host s = resolveHostTransport h)"
proof -
  have steps: "pl_steps p = mk_steps c (topo_ids c)" and len: "length (topo_ids c) = length (cfg_resources c)"
    using p by (simp_all add: Build_Inr_iff)
  have ready: "plan_ready c" using v a by (rule valid_plan_ready)
  then have d: "distinct (res_ids c)" by (simp add: plan_ready_def)
  have "mset (map st_resource (pl_steps p)) = mset (cfg_resources c)"
    by (simp only: steps mk_steps_proj map_lookup_ids [OF d topo_ids_perm [OF ready len]])
  then have r: "st_resource s \<in> set (cfg_resources c)"
    using s by (metis image_eqI list.set_map mset_eq_setD)
  from s steps have "st_host s = mget_or zero_host (host_by_name c) (exec_host (st_resource s))"
    by (auto simp: mk_steps_def mk_step_def)
  with valid_exec_host [OF v r] r show ?thesis by auto
qed

end
