(* ===== verification/GoOS.thy ===== *)
theory GoOS
  imports GoStrings
begin

text \<open>
  What the program uses of the packages os and path/filepath, on a machine whose regular files
  are a map from paths to contents. Directories are implicit: a directory exists when a file lies
  below it. \<open>m_refuse\<close> lists the paths on which the system refuses to create or write (missing
  permissions, a directory in the way, a full disk), so that every error branch of the callers can be
  taken; \<open>m_slept\<close> records the arguments of \<^verbatim>\<open>time.Sleep\<close>.
\<close>

record machine =
  m_files :: "string gomap"
  m_refuse :: "string list"
  m_slept :: "duration list"

definition os_ReadFile :: "machine \<Rightarrow> string \<Rightarrow> string result" where
  "os_ReadFile m p = (case mget (m_files m) p of
     Some c \<Rightarrow> Inr c | None \<Rightarrow> Inl (''open '' @ p @ '': no such file or directory''))"

definition os_WriteFile :: "machine \<Rightarrow> string \<Rightarrow> string \<Rightarrow> machine result" where
  "os_WriteFile m p c =
     (if p \<in> set (m_refuse m) then Inl (''open '' @ p @ '': permission denied'')
      else Inr (m\<lparr>m_files := mput p c (m_files m)\<rparr>))"

definition os_MkdirAll :: "machine \<Rightarrow> string \<Rightarrow> unit result" where
  "os_MkdirAll m d =
     (if d \<in> set (m_refuse m) then Inl (''mkdir '' @ d @ '': permission denied'') else Inr ())"

definition os_exists :: "machine \<Rightarrow> string \<Rightarrow> bool" where
  "os_exists m p \<longleftrightarrow> list_ex (\<lambda>f. f = p \<or> HasPrefix f (p @ ''/'')) (mkeys (m_files m))"

definition time_Sleep :: "duration \<Rightarrow> machine \<Rightarrow> machine" where
  "time_Sleep d m = m\<lparr>m_slept := m_slept m @ [d]\<rparr>"

lemma read_after_write: "os_WriteFile m p c = Inr m' \<Longrightarrow> os_ReadFile m' p = Inr c"
  by (auto simp: os_WriteFile_def os_ReadFile_def split: if_splits)

lemma read_other_after_write: "os_WriteFile m p c = Inr m' \<Longrightarrow> p' \<noteq> p \<Longrightarrow> os_ReadFile m' p' = os_ReadFile m p'"
  by (auto simp: os_WriteFile_def os_ReadFile_def split: if_splits)

lemma write_refuse [simp]: "os_WriteFile m p c = Inr m' \<Longrightarrow> m_refuse m' = m_refuse m"
  by (auto simp: os_WriteFile_def split: if_splits)

section \<open>Paths\<close>

fun split_slash :: "string \<Rightarrow> string list" where
  "split_slash [] = [[]]"
| "split_slash (c # cs) =
     (if c = CHR ''/'' then [] # split_slash cs
      else case split_slash cs of [] \<Rightarrow> [[c]] | x # xs \<Rightarrow> (c # x) # xs)"

text \<open>The stack of path elements that \<^verbatim>\<open>filepath.Clean\<close> keeps, innermost first.\<close>

definition clean_elem :: "bool \<Rightarrow> string list \<Rightarrow> string \<Rightarrow> string list" where
  "clean_elem rooted out e =
     (if e = [] \<or> e = ''.'' then out
      else if e = ''..''
        then (case out of
                [] \<Rightarrow> (if rooted then [] else [''..''])
              | x # xs \<Rightarrow> (if x = ''..'' then ''..'' # out else xs))
      else e # out)"

definition filepath_Clean :: "string \<Rightarrow> string" where
  "filepath_Clean p =
     (let rooted = HasPrefix p ''/'';
          body = Join (rev (foldl (clean_elem rooted) [] (split_slash p))) ''/''
      in if rooted then ''/'' @ body else if body = [] then ''.'' else body)"

definition filepath_Dir :: "string \<Rightarrow> string" where
  "filepath_Dir p = filepath_Clean (rev (dropWhile (\<lambda>c. c \<noteq> CHR ''/'') (rev p)))"

definition filepath_Join :: "string list \<Rightarrow> string" where
  "filepath_Join es = (let xs = filter (\<lambda>e. e \<noteq> []) es in if xs = [] then [] else filepath_Clean (Join xs ''/''))"

lemma clean_examples:
  "filepath_Clean ''/etc//app/./conf/../x'' = ''/etc/app/x''" "filepath_Clean ''../../a/..'' = ''../..''"
  "filepath_Clean [] = ''.''" "filepath_Clean ''/..'' = ''/''" "filepath_Dir ''/etc/app'' = ''/etc''"
  "filepath_Dir ''app'' = ''.''" "filepath_Join [''base'', ''.masterchef'', ''runs''] = ''base/.masterchef/runs''"
  by code_simp+

text \<open>Cleaning yields a normal form: cleaning it again changes nothing.\<close>

definition plain_elem :: "string \<Rightarrow> bool" where
  "plain_elem e \<longleftrightarrow> e \<noteq> [] \<and> e \<noteq> ''.'' \<and> CHR ''/'' \<notin> set e"

text \<open>A stack, innermost first: ordinary elements on top of the leading \<^verbatim>\<open>..\<close> elements.\<close>

fun stack_ok :: "bool \<Rightarrow> string list \<Rightarrow> bool" where
  "stack_ok rooted [] = True"
| "stack_ok rooted (x # xs) \<longleftrightarrow> plain_elem x \<and> stack_ok rooted xs \<and>
     (x = ''..'' \<longrightarrow> \<not> rooted \<and> list_all (\<lambda>y. y = ''..'') xs)"

lemma split_slash_elems: "e \<in> set (split_slash p) \<Longrightarrow> CHR ''/'' \<notin> set e"
  by (induction p arbitrary: e) (auto split: if_splits list.splits)

lemma split_slash_nonempty [simp]: "split_slash p \<noteq> []"
  by (induction p) (auto split: list.splits)

lemma clean_elem_ok:
  "stack_ok rooted out \<Longrightarrow> CHR ''/'' \<notin> set e \<Longrightarrow> stack_ok rooted (clean_elem rooted out e)"
  by (cases out) (auto simp: clean_elem_def plain_elem_def)

lemma clean_stack_ok: "stack_ok rooted (foldl (clean_elem rooted) [] (split_slash p))"
proof -
  have "stack_ok rooted out \<Longrightarrow> \<forall>e \<in> set es. CHR ''/'' \<notin> set e \<Longrightarrow> stack_ok rooted (foldl (clean_elem rooted) out es)"
    for out es by (induction es arbitrary: out) (simp_all add: clean_elem_ok)
  then show ?thesis using split_slash_elems by (metis stack_ok.simps(1))
qed

lemma clean_elem_push:
  "stack_ok rooted (x # out) \<Longrightarrow> clean_elem rooted out x = x # out"
  by (cases out) (auto simp: clean_elem_def plain_elem_def)

lemma clean_stack_fixed: "stack_ok rooted out \<Longrightarrow> foldl (clean_elem rooted) [] (rev out) = out"
proof (induction out)
  case (Cons x out)
  then have "foldl (clean_elem rooted) [] (rev out) = out" by simp
  then show ?case using clean_elem_push [OF Cons.prems] by simp
qed simp

lemma split_slash_plain: "CHR ''/'' \<notin> set x \<Longrightarrow> split_slash x = [x]"
  by (induction x) auto

lemma split_slash_append: "CHR ''/'' \<notin> set x \<Longrightarrow> split_slash (x @ CHR ''/'' # ys) = x # split_slash ys"
  by (induction x) auto

lemma split_slash_Join: "\<forall>x \<in> set xs. CHR ''/'' \<notin> set x \<Longrightarrow> split_slash (Join xs ''/'') = (if xs = [] then [[]] else xs)"
proof (induction xs "''/''" rule: Join.induct)
  case (2 x)
  then show ?case by (simp add: split_slash_plain)
next
  case (3 x y ys)
  then show ?case by (simp add: split_slash_append)
qed simp

lemma stack_ok_elems: "stack_ok rooted out \<Longrightarrow> \<forall>x \<in> set out. plain_elem x"
  by (induction out) auto

lemma Join_first: "xs \<noteq> [] \<Longrightarrow> \<forall>x \<in> set xs. plain_elem x \<Longrightarrow> \<exists>c cs. Join xs sep = c # cs \<and> c \<noteq> CHR ''/''"
proof (induction xs sep rule: Join.induct)
  case (3 x y ys sep)
  then show ?case by (cases x) (auto simp: plain_elem_def)
next
  case (2 x sep)
  then show ?case by (cases x) (auto simp: plain_elem_def)
qed simp

lemma filepath_Clean_idem: "filepath_Clean (filepath_Clean p) = filepath_Clean p"
proof -
  define rooted where "rooted = HasPrefix p ''/''"
  define out where "out = foldl (clean_elem rooted) [] (split_slash p)"
  have ok: "stack_ok rooted out" unfolding out_def by (rule clean_stack_ok)
  have el: "\<forall>x \<in> set (rev out). plain_elem x" using stack_ok_elems [OF ok] by simp
  then have noslash: "\<forall>x \<in> set (rev out). CHR ''/'' \<notin> set x" by (simp add: plain_elem_def)
  let ?body = "Join (rev out) ''/''"
  have C: "filepath_Clean p = (if rooted then ''/'' @ ?body else if ?body = [] then ''.'' else ?body)"
    by (simp add: filepath_Clean_def Let_def rooted_def out_def)
  have fold: "foldl (clean_elem rooted) [] (split_slash ?body) = out"
    using split_slash_Join [OF noslash] clean_stack_fixed [OF ok] by (auto simp: clean_elem_def)
  show ?thesis
  proof (cases rooted)
    case True
    have "foldl (clean_elem True) [] (split_slash (''/'' @ ?body)) = out"
      using fold True by (simp add: clean_elem_def)
    then show ?thesis unfolding C using True by (simp add: filepath_Clean_def Let_def HasPrefix_def)
  next
    case False
    show ?thesis
    proof (cases "out = []")
      case True
      then show ?thesis unfolding C using False by (simp, code_simp)
    next
      case False
      then obtain c cs where b: "?body = c # cs" "c \<noteq> CHR ''/''" using Join_first [OF _ el, of "''/''"] by auto
      then have "\<not> HasPrefix ?body ''/''" by (simp add: HasPrefix_def)
      then show ?thesis unfolding C using \<open>\<not> rooted\<close> fold b(1) by (simp add: filepath_Clean_def Let_def)
    qed
  qed
qed

end
