(* ===== verification/Provider.thy ===== *)
theory Provider
  imports ConfigModel GoOS
begin

text \<open>
  The provider registry and the built-in providers (internal/provider). A provider is its type
  name and its \<^verbatim>\<open>Apply\<close>, a function on the machine; external commands are the parameter \<open>sh\<close>
  of \<open>CommandHandler_Apply\<close>: what \<^verbatim>\<open>sh -c\<close> does with a command line on a machine (combined
  output, the error when it did not exit with 0, the machine afterwards).
\<close>

type_synonym shell = "machine \<Rightarrow> string \<Rightarrow> (string \<times> string option) \<times> machine"

record provider_result =
  pr_changed :: bool
  pr_skipped :: bool
  pr_message :: string

definition no_result :: provider_result where
  "no_result = \<lparr>pr_changed = False, pr_skipped = False, pr_message = []\<rparr>"

type_synonym apply_fun = "machine \<Rightarrow> resource \<Rightarrow> (provider_result \<times> string option) \<times> machine"

record provider_handler =
  ph_type :: string
  ph_apply :: apply_fun

type_synonym registry = "provider_handler gomap"

text \<open>\<^verbatim>\<open>%q\<close> on a string of printable characters.\<close>

definition go_quote :: "string \<Rightarrow> string" where
  "go_quote s = [CHR 0x22] @ concat (map (\<lambda>c. if c = CHR 0x22 \<or> c = CHR 0x5C then [CHR 0x5C, c] else [c]) s) @ [CHR 0x22]"

definition Register :: "provider_handler option \<Rightarrow> registry \<Rightarrow> registry result" where
  "Register h r =
     (case h of
        None \<Rightarrow> Inl ''handler is nil''
      | Some h \<Rightarrow>
          if ph_type h = [] then Inl ''handler type is empty''
          else if mget r (ph_type h) \<noteq> None then Inl (''handler already registered for type '' @ go_quote (ph_type h))
          else Inr (mput (ph_type h) h r))"

definition Lookup :: "string \<Rightarrow> registry \<Rightarrow> provider_handler option" where
  "Lookup t r = mget r t"

section \<open>Built-in providers\<close>

definition FileHandler_Apply :: apply_fun where
  "FileHandler_Apply m r =
     (let full = filepath_Clean (r_path r)
      in case os_MkdirAll m (filepath_Dir full) of
           Inl e \<Rightarrow> ((no_result, Some (''mkdir for file resource: '' @ e)), m)
         | Inr _ \<Rightarrow>
             (if os_ReadFile m full = Inr (r_content r)
              then ((no_result\<lparr>pr_message := ''file already in desired state''\<rparr>, None), m)
              else case os_WriteFile m full (r_content r) of
                     Inl e \<Rightarrow> ((no_result, Some (''write file: '' @ e)), m)
                   | Inr m' \<Rightarrow> ((no_result\<lparr>pr_changed := True, pr_message := ''file updated''\<rparr>, None), m')))"

definition command_body :: "shell \<Rightarrow> apply_fun" where
  "command_body sh m r =
     (case sh m (r_command r) of
        ((out, Some e), m') \<Rightarrow> ((no_result, Some (''command failed: '' @ e @ '': '' @ out)), m')
      | ((out, None), m') \<Rightarrow> ((no_result\<lparr>pr_changed := True, pr_message := out\<rparr>, None), m'))"

definition unless_guard :: "shell \<Rightarrow> apply_fun" where
  "unless_guard sh m r =
     (if r_unless r = [] then command_body sh m r
      else case sh m (r_unless r) of
             ((_, None), m') \<Rightarrow> ((no_result\<lparr>pr_skipped := True, pr_message := ''command skipped: unless condition succeeded''\<rparr>, None), m')
           | ((_, Some _), m') \<Rightarrow> command_body sh m' r)"

definition only_if_guard :: "shell \<Rightarrow> apply_fun" where
  "only_if_guard sh m r =
     (if r_only_if r = [] then unless_guard sh m r
      else case sh m (r_only_if r) of
             ((_, Some _), m') \<Rightarrow> ((no_result\<lparr>pr_skipped := True, pr_message := ''command skipped: only_if condition failed''\<rparr>, None), m')
           | ((_, None), m') \<Rightarrow> unless_guard sh m' r)"

definition CommandHandler_Apply :: "shell \<Rightarrow> apply_fun" where
  "CommandHandler_Apply sh m r =
     (if r_creates r \<noteq> [] \<and> os_exists m (r_creates r)
      then ((no_result\<lparr>pr_skipped := True, pr_message := ''command skipped: creates path already exists''\<rparr>, None), m)
      else only_if_guard sh m r)"

definition FileHandler :: provider_handler where
  "FileHandler = \<lparr>ph_type = ''file'', ph_apply = FileHandler_Apply\<rparr>"

definition CommandHandler :: "shell \<Rightarrow> provider_handler" where
  "CommandHandler sh = \<lparr>ph_type = ''command'', ph_apply = CommandHandler_Apply sh\<rparr>"

text \<open>\<^verbatim>\<open>MustRegister\<close> panics on an error; \<open>None\<close> is the panic.\<close>

definition MustRegister :: "provider_handler \<Rightarrow> registry option \<Rightarrow> registry option" where
  "MustRegister h r = (case r of None \<Rightarrow> None | Some r \<Rightarrow> (case Register (Some h) r of Inl _ \<Rightarrow> None | Inr r' \<Rightarrow> Some r'))"

definition NewBuiltinRegistry :: "shell \<Rightarrow> registry option" where
  "NewBuiltinRegistry sh = MustRegister (CommandHandler sh) (MustRegister FileHandler (Some []))"

definition builtin_registry :: "shell \<Rightarrow> registry" where
  "builtin_registry sh = [(''file'', FileHandler), (''command'', CommandHandler sh)]"

lemma NewBuiltinRegistry_ok: "NewBuiltinRegistry sh = Some (builtin_registry sh)"
  by (simp add: NewBuiltinRegistry_def MustRegister_def Register_def FileHandler_def CommandHandler_def
      builtin_registry_def)

section \<open>Conformance\<close>

record conformance_report =
  cr_type :: string
  cr_idempotent :: bool
  cr_error :: string

definition CheckIdempotency :: "provider_handler \<Rightarrow> machine \<Rightarrow> resource \<Rightarrow> conformance_report \<times> machine" where
  "CheckIdempotency h m sample =
     (let rep = \<lparr>cr_type = ph_type h, cr_idempotent = False, cr_error = []\<rparr>
      in case ph_apply h m sample of
           ((_, Some e), m1) \<Rightarrow> (rep\<lparr>cr_error := ''first apply failed: '' @ e\<rparr>, m1)
         | ((_, None), m1) \<Rightarrow>
             (case ph_apply h m1 sample of
                ((_, Some e), m2) \<Rightarrow> (rep\<lparr>cr_error := ''second apply failed: '' @ e\<rparr>, m2)
              | ((second, None), m2) \<Rightarrow>
                  (if pr_changed second then (rep\<lparr>cr_error := ''second apply unexpectedly changed resource''\<rparr>, m2)
                   else (rep\<lparr>cr_idempotent := True\<rparr>, m2))))"

section \<open>Properties\<close>

lemma FileHandler_converges:
  assumes "FileHandler_Apply m r = ((res, None), m')"
  shows "os_ReadFile m' (filepath_Clean (r_path r)) = Inr (r_content r) \<and> m_refuse m' = m_refuse m \<and>
    (pr_changed res \<longleftrightarrow> os_ReadFile m (filepath_Clean (r_path r)) \<noteq> Inr (r_content r)) \<and>
    (\<forall>p. p \<noteq> filepath_Clean (r_path r) \<longrightarrow> os_ReadFile m' p = os_ReadFile m p)"
  using assms
  by (auto simp: FileHandler_Apply_def Let_def no_result_def read_after_write read_other_after_write
      split: sum.splits if_splits)

lemma FileHandler_stable:
  assumes "os_ReadFile m (filepath_Clean (r_path r)) = Inr (r_content r)"
    and "filepath_Dir (filepath_Clean (r_path r)) \<notin> set (m_refuse m)"
  shows "FileHandler_Apply m r = ((no_result\<lparr>pr_message := ''file already in desired state''\<rparr>, None), m)"
  using assms by (simp add: FileHandler_Apply_def os_MkdirAll_def)

text \<open>a successful apply of a file resource leaves exactly that content at its cleaned path,
  touches no other file, reports a change exactly when the content was different before, and a
  second apply changes nothing; so the built-in file provider passes its own conformance check on
  every machine on which its first apply succeeds.\<close>

theorem FileHandler_idempotent:
  assumes "FileHandler_Apply m r = ((res, None), m')"
  shows "os_ReadFile m' (filepath_Clean (r_path r)) = Inr (r_content r) \<and>
    (\<forall>p. p \<noteq> filepath_Clean (r_path r) \<longrightarrow> os_ReadFile m' p = os_ReadFile m p) \<and>
    (pr_changed res \<longleftrightarrow> os_ReadFile m (filepath_Clean (r_path r)) \<noteq> Inr (r_content r)) \<and>
    CheckIdempotency FileHandler m r = (\<lparr>cr_type = ''file'', cr_idempotent = True, cr_error = []\<rparr>, m')"
proof -
  note C = FileHandler_converges [OF assms]
  have "filepath_Dir (filepath_Clean (r_path r)) \<notin> set (m_refuse m)"
    using assms by (auto simp: FileHandler_Apply_def Let_def os_MkdirAll_def split: if_splits)
  then have "FileHandler_Apply m' r = ((no_result\<lparr>pr_message := ''file already in desired state''\<rparr>, None), m')"
    using C by (intro FileHandler_stable) simp_all
  then show ?thesis
    using C assms by (simp add: CheckIdempotency_def FileHandler_def Let_def no_result_def)
qed

definition empty_machine :: machine where
  "empty_machine = \<lparr>m_files = [], m_refuse = [], m_slept = []\<rparr>"

theorem FileHandler_idempotent_witness:
  "\<exists>m'. snd (FileHandler_Apply empty_machine conf_res) = m' \<and> os_ReadFile m' ''/etc/app'' = Inr ''on''"
proof -
  have "snd (fst (FileHandler_Apply empty_machine conf_res)) = None" by code_simp
  then obtain res m' where a: "FileHandler_Apply empty_machine conf_res = ((res, None), m')"
    by (cases "FileHandler_Apply empty_machine conf_res") (auto simp: prod_eq_iff)
  have "filepath_Clean (r_path conf_res) = ''/etc/app''" "r_content conf_res = ''on''" by code_simp+
  with FileHandler_idempotent [OF a] a show ?thesis by simp
qed

text \<open>a command whose \<^verbatim>\<open>creates\<close> path exists is skipped without touching the machine, and a
  command never runs unless its \<^verbatim>\<open>only_if\<close> succeeds and its \<^verbatim>\<open>unless\<close> fails: when the provider
  reports a change, the command itself was run, on the machine that the guards left behind, and it
  exited with 0.\<close>

theorem CommandHandler_guards:
  "(r_creates r \<noteq> [] \<and> os_exists m (r_creates r) \<longrightarrow>
      CommandHandler_Apply sh m r = ((no_result\<lparr>pr_skipped := True, pr_message := ''command skipped: creates path already exists''\<rparr>, None), m)) \<and>
   (\<forall>res m'. CommandHandler_Apply sh m r = ((res, None), m') \<and> pr_changed res \<longrightarrow>
      (\<exists>m1 m2 out. (if r_only_if r = [] then m1 = m else \<exists>o1. sh m (r_only_if r) = ((o1, None), m1)) \<and>
         (if r_unless r = [] then m2 = m1 else \<exists>o2 e. sh m1 (r_unless r) = ((o2, Some e), m2)) \<and>
         sh m2 (r_command r) = ((out, None), m') \<and> pr_message res = out))"
  by (auto simp: CommandHandler_Apply_def only_if_guard_def unless_guard_def command_body_def no_result_def
      split: if_splits prod.splits option.splits)

text \<open>A shell that prints its command line and succeeds.\<close>

definition echo_shell :: shell where
  "echo_shell m c = ((c, None), m)"

theorem CommandHandler_guards_witness:
  "CommandHandler_Apply echo_shell (empty_machine\<lparr>m_files := [(''/flag'', [])]\<rparr>) (pkg_res\<lparr>r_creates := ''/flag''\<rparr>) =
     ((no_result\<lparr>pr_skipped := True, pr_message := ''command skipped: creates path already exists''\<rparr>, None),
      empty_machine\<lparr>m_files := [(''/flag'', [])]\<rparr>) \<and>
   (\<exists>out. echo_shell empty_machine (r_command pkg_res) = ((out, None), empty_machine))"
proof -
  have "os_exists (empty_machine\<lparr>m_files := [(''/flag'', [])]\<rparr>) ''/flag''" by code_simp
  moreover have "CommandHandler_Apply echo_shell empty_machine pkg_res =
      ((no_result\<lparr>pr_changed := True, pr_message := ''install''\<rparr>, None), empty_machine)" by code_simp
  moreover have "r_only_if pkg_res = []" "r_unless pkg_res = []" by code_simp+
  ultimately show ?thesis
    using CommandHandler_guards [of "pkg_res\<lparr>r_creates := ''/flag''\<rparr>" "empty_machine\<lparr>m_files := [(''/flag'', [])]\<rparr>" echo_shell]
      CommandHandler_guards [of pkg_res empty_machine echo_shell] by auto
qed

end
