(* ===== verification/Checker.thy ===== *)
theory Checker
  imports Planner Provider
begin

text \<open>
  Check mode (internal/checker/checker.go): which steps of a plan would change the machine. The
  guards of a command are really executed, so the machine is threaded through the steps; \<open>sh\<close> is
  the shell of \<open>Provider\<close>. The confidence is the pair of the two counters whose quotient the code
  stores as a float.
\<close>

record check_item =
  ci_id :: string
  ci_type :: string
  ci_host :: string
  ci_simulatable :: bool
  ci_would_change :: bool
  ci_reason :: string
  ci_diff :: string

record coverage =
  cv_simulatable :: int
  cv_total :: int

record report =
  rp_total :: int
  rp_simulatable :: int
  rp_non_simulatable :: int
  rp_changes :: int
  rp_confidence :: "int \<times> int"
  rp_coverage :: "coverage gomap"
  rp_unsupported :: "check_item list"
  rp_items :: "check_item list"

section \<open>Differences\<close>

fun split_newline :: "string \<Rightarrow> string list" where
  "split_newline [] = [[]]"
| "split_newline (c # cs) =
     (if c = CHR 0x0A then [] # split_newline cs
      else case split_newline cs of [] \<Rightarrow> [[c]] | x # xs \<Rightarrow> (c # x) # xs)"

text \<open>\<^verbatim>\<open>strings.ReplaceAll(s, CRLF, LF)\<close>.\<close>

fun crlf_to_lf :: "string \<Rightarrow> string" where
  "crlf_to_lf (a # b # cs) =
     (if a = CHR 0x0D \<and> b = CHR 0x0A then b # crlf_to_lf cs else a # crlf_to_lf (b # cs))"
| "crlf_to_lf cs = cs"

definition splitLines :: "string \<Rightarrow> string list" where
  "splitLines s =
     (if s = [] then []
      else let raw = split_newline (crlf_to_lf s)
           in if raw \<noteq> [] \<and> last raw = [] then butlast raw else raw)"

definition line_at :: "string list \<Rightarrow> nat \<Rightarrow> string" where
  "line_at ls i = (if i < length ls then ls ! i else [])"

definition diff_line :: "string list \<Rightarrow> string list \<Rightarrow> nat \<Rightarrow> string" where
  "diff_line old new i =
     (let ol = line_at old i; nl = line_at new i
      in if ol = nl then (if ol \<noteq> [] then '' '' @ ol @ [CHR 0x0A] else [])
         else (if ol \<noteq> [] then ''-'' @ ol @ [CHR 0x0A] else []) @ (if nl \<noteq> [] then ''+'' @ nl @ [CHR 0x0A] else []))"

definition unifiedDiff :: "string \<Rightarrow> string \<Rightarrow> string \<Rightarrow> string" where
  "unifiedDiff path old new =
     (let os = splitLines old; ns = splitLines new
      in ''--- '' @ path @ [CHR 0x0A] @ ''+++ '' @ path @ [CHR 0x0A]
         @ concat (map (diff_line os ns) [0..<max (length os) (length ns)]))"

section \<open>Items\<close>

definition blank_item :: "resource \<Rightarrow> check_item" where
  "blank_item r = \<lparr>ci_id = r_id r, ci_type = r_type r, ci_host = r_host r, ci_simulatable = False,
     ci_would_change = False, ci_reason = [], ci_diff = []\<rparr>"

definition check_file :: "machine \<Rightarrow> resource \<Rightarrow> check_item" where
  "check_file m r =
     (let it = (blank_item r)\<lparr>ci_simulatable := True\<rparr>; current = os_ReadFile m (r_path r)
      in if current = Inr (r_content r)
         then it\<lparr>ci_would_change := False, ci_reason := ''file already in desired state''\<rparr>
         else it\<lparr>ci_would_change := True, ci_reason := ''file content differs or does not exist'',
                ci_diff := unifiedDiff (r_path r) (case current of Inl _ \<Rightarrow> [] | Inr c \<Rightarrow> c) (r_content r)\<rparr>)"

definition check_unless :: "shell \<Rightarrow> machine \<Rightarrow> resource \<Rightarrow> check_item \<times> machine" where
  "check_unless sh m r =
     (let it = (blank_item r)\<lparr>ci_simulatable := True\<rparr>;
          run = it\<lparr>ci_would_change := True, ci_reason := ''command would execute''\<rparr>
      in if r_unless r = [] then (run, m)
         else case sh m (r_unless r) of
                ((_, None), m') \<Rightarrow> (it\<lparr>ci_reason := ''unless condition succeeded''\<rparr>, m')
              | ((_, Some _), m') \<Rightarrow> (run, m'))"

definition check_only_if :: "shell \<Rightarrow> machine \<Rightarrow> resource \<Rightarrow> check_item \<times> machine" where
  "check_only_if sh m r =
     (let it = (blank_item r)\<lparr>ci_simulatable := True\<rparr>
      in if r_only_if r = [] then check_unless sh m r
         else case sh m (r_only_if r) of
                ((_, Some _), m') \<Rightarrow> (it\<lparr>ci_reason := ''only_if condition failed''\<rparr>, m')
              | ((_, None), m') \<Rightarrow> check_unless sh m' r)"

definition check_command :: "shell \<Rightarrow> machine \<Rightarrow> resource \<Rightarrow> check_item \<times> machine" where
  "check_command sh m r =
     (let it = (blank_item r)\<lparr>ci_simulatable := True\<rparr>
      in if r_creates r \<noteq> [] \<and> os_exists m (r_creates r)
         then (it\<lparr>ci_reason := ''creates path already exists''\<rparr>, m)
         else check_only_if sh m r)"

definition check_step :: "shell \<Rightarrow> machine \<Rightarrow> step \<Rightarrow> check_item \<times> machine" where
  "check_step sh m s =
     (let r = st_resource s; t = h_transport (st_host s)
      in if t = ''local'' \<or> t = ''winrm''
         then (if r_type r = ''file'' then (check_file m r, m)
               else if r_type r = ''command'' then check_command sh m r
               else ((blank_item r)\<lparr>ci_reason := ''unsupported resource type for simulation''\<rparr>, m))
         else ((blank_item r)\<lparr>ci_reason := ''unsupported transport for simulation''\<rparr>, m))"

section \<open>The report\<close>

definition zero_report :: report where
  "zero_report = \<lparr>rp_total = 0, rp_simulatable = 0, rp_non_simulatable = 0, rp_changes = 0,
     rp_confidence = (0, 1), rp_coverage = [], rp_unsupported = [], rp_items = []\<rparr>"

definition add_item :: "check_item \<Rightarrow> report \<Rightarrow> report" where
  "add_item it rep =
     (let cov = mget_or \<lparr>cv_simulatable = 0, cv_total = 0\<rparr> (rp_coverage rep) (ci_type it);
          cov = cov\<lparr>cv_total := cv_total cov + 1,
            cv_simulatable := cv_simulatable cov + (if ci_simulatable it then 1 else 0)\<rparr>;
          rep = rep\<lparr>rp_total := rp_total rep + 1, rp_coverage := mput (ci_type it) cov (rp_coverage rep)\<rparr>;
          rep = (if ci_simulatable it then rep\<lparr>rp_simulatable := rp_simulatable rep + 1\<rparr>
                 else rep\<lparr>rp_non_simulatable := rp_non_simulatable rep + 1,
                          rp_unsupported := rp_unsupported rep @ [it]\<rparr>);
          rep = (if ci_would_change it then rep\<lparr>rp_changes := rp_changes rep + 1\<rparr> else rep)
      in rep\<lparr>rp_items := rp_items rep @ [it]\<rparr>)"

fun check_steps :: "shell \<Rightarrow> machine \<Rightarrow> step list \<Rightarrow> report \<Rightarrow> report \<times> machine" where
  "check_steps sh m [] rep = (rep, m)"
| "check_steps sh m (s # ss) rep =
     (let (it, m') = check_step sh m s in check_steps sh m' ss (add_item it rep))"

definition Run :: "shell \<Rightarrow> machine \<Rightarrow> plan \<Rightarrow> report \<times> machine" where
  "Run sh m p =
     (let (rep, m') = check_steps sh m (pl_steps p) zero_report;
          rep = (if rp_total rep > 0 then rep\<lparr>rp_confidence := (rp_simulatable rep, rp_total rep)\<rparr> else rep)
      in (rep\<lparr>rp_items := sort_key ci_id (rp_items rep)\<rparr>, m'))"

section \<open>Properties\<close>

text \<open>What the counters of a report say about its items.\<close>

definition counts_ok :: "report \<Rightarrow> bool" where
  "counts_ok rep \<longleftrightarrow> rp_total rep = int (length (rp_items rep)) \<and>
     rp_simulatable rep = int (length (filter ci_simulatable (rp_items rep))) \<and>
     rp_non_simulatable rep = int (length (filter (\<lambda>i. \<not> ci_simulatable i) (rp_items rep))) \<and>
     rp_changes rep = int (length (filter ci_would_change (rp_items rep))) \<and>
     (\<forall>t. cv_total (mget_or \<lparr>cv_simulatable = 0, cv_total = 0\<rparr> (rp_coverage rep) t)
            = int (length (filter (\<lambda>i. ci_type i = t) (rp_items rep))) \<and>
          cv_simulatable (mget_or \<lparr>cv_simulatable = 0, cv_total = 0\<rparr> (rp_coverage rep) t)
            = int (length (filter (\<lambda>i. ci_type i = t \<and> ci_simulatable i) (rp_items rep))))"

lemma add_item_counts: "counts_ok rep \<Longrightarrow> counts_ok (add_item it rep)"
  by (auto simp: counts_ok_def add_item_def Let_def)

lemma check_step_id: "ci_id (fst (check_step sh m s)) = r_id (st_resource s)"
  by (simp add: check_step_def check_file_def check_command_def check_only_if_def check_unless_def
      blank_item_def Let_def split: prod.splits option.splits)

lemma check_steps_items:
  "counts_ok rep \<Longrightarrow> counts_ok (fst (check_steps sh m ss rep)) \<and>
     map ci_id (rp_items (fst (check_steps sh m ss rep))) = map ci_id (rp_items rep) @ map (\<lambda>s. r_id (st_resource s)) ss"
proof (induction ss arbitrary: m rep)
  case (Cons s ss)
  obtain it m' where c: "check_step sh m s = (it, m')" by (cases "check_step sh m s")
  have "rp_items (add_item it rep) = rp_items rep @ [it]" by (simp add: add_item_def Let_def)
  with Cons.IH [OF add_item_counts [OF Cons.prems], of m' it] check_step_id [of sh m s] c show ?case by simp
qed simp

lemma counts_perm:
  assumes "counts_ok rep" and "mset xs = mset (rp_items rep)"
  shows "counts_ok (rep\<lparr>rp_items := xs\<rparr>)"
proof -
  have "length (filter P xs) = length (filter P (rp_items rep))" for P
    using arg_cong [OF assms(2), of "\<lambda>M. size (filter_mset P M)"] by (simp flip: mset_filter)
  moreover have "length xs = length (rp_items rep)" using assms(2) by (rule mset_eq_length)
  ultimately show ?thesis using assms(1) by (simp add: counts_ok_def)
qed

text \<open>The report of check mode has one item per step, sorted by resource identifier; its counters
  (total, simulatable, not simulatable, changes needed, and the coverage per resource type) count
  exactly these items.\<close>

theorem Run_report_counts:
  "counts_ok (fst (Run sh m p)) \<and> sorted (map ci_id (rp_items (fst (Run sh m p)))) \<and>
     mset (map ci_id (rp_items (fst (Run sh m p)))) = mset (map (\<lambda>s. r_id (st_resource s)) (pl_steps p))"
proof -
  obtain rep m' where c: "check_steps sh m (pl_steps p) zero_report = (rep, m')"
    by (cases "check_steps sh m (pl_steps p) zero_report")
  have "counts_ok zero_report" by (simp add: counts_ok_def zero_report_def)
  from check_steps_items [OF this, of sh m "pl_steps p"] c
  have ok: "counts_ok rep" and ids: "map ci_id (rp_items rep) = map (\<lambda>s. r_id (st_resource s)) (pl_steps p)"
    by (simp_all add: zero_report_def)
  define rep' where "rep' = (if rp_total rep > 0 then rep\<lparr>rp_confidence := (rp_simulatable rep, rp_total rep)\<rparr> else rep)"
  have R: "fst (Run sh m p) = rep'\<lparr>rp_items := sort_key ci_id (rp_items rep')\<rparr>"
    by (simp add: Run_def c Let_def rep'_def)
  have it: "rp_items rep' = rp_items rep" by (simp add: rep'_def)
  have ok': "counts_ok rep'" using ok by (simp add: rep'_def counts_ok_def)
  then have "counts_ok (rep'\<lparr>rp_items := sort_key ci_id (rp_items rep')\<rparr>)" by (rule counts_perm) simp
  moreover have "mset (map ci_id (rp_items rep')) = mset (map (\<lambda>s. r_id (st_resource s)) (pl_steps p))"
    by (simp only: it ids)
  ultimately show ?thesis unfolding R by simp
qed

text \<open>The providers that apply a local step of the two simulated types.\<close>

definition apply_simulated :: "shell \<Rightarrow> machine \<Rightarrow> resource \<Rightarrow> (provider_result \<times> string option) \<times> machine" where
  "apply_simulated sh m r = (if r_type r = ''file'' then FileHandler_Apply m r else CommandHandler_Apply sh m r)"

text \<open>C17: check mode predicts apply mode. For a simulatable step on a local machine, with a path in
  normal form, whenever applying the resource on the same machine succeeds, it reports a change
  exactly when check mode said that it would change.\<close>

theorem check_predicts_apply:
  assumes "h_transport (st_host s) = ''local''" and "r_type (st_resource s) \<in> {''file'', ''command''}"
    and "filepath_Clean (r_path (st_resource s)) = r_path (st_resource s)"
    and "apply_simulated sh m (st_resource s) = ((res, None), m')"
  shows "ci_simulatable (fst (check_step sh m s)) \<and>
    ci_would_change (fst (check_step sh m s)) = pr_changed res"
proof -
  consider "r_type (st_resource s) = ''file''" | "r_type (st_resource s) = ''command''" using assms(2) by blast
  then show ?thesis
  proof cases
    case 1
    then have "FileHandler_Apply m (st_resource s) = ((res, None), m')" using assms(4) by (simp add: apply_simulated_def)
    from FileHandler_converges [OF this] 1 assms(1,3) show ?thesis
      by (simp add: check_step_def check_file_def blank_item_def Let_def)
  next
    case 2
    then have "CommandHandler_Apply sh m (st_resource s) = ((res, None), m')" using assms(4) by (simp add: apply_simulated_def)
    with 2 assms(1) show ?thesis
      by (auto simp: check_step_def check_command_def check_only_if_def check_unless_def blank_item_def Let_def
          CommandHandler_Apply_def only_if_guard_def unless_guard_def command_body_def no_result_def
          split: if_splits prod.splits option.splits)
  qed
qed

theorem check_predicts_apply_witness:
  "ci_would_change (fst (check_step echo_shell empty_machine \<lparr>st_order = 1, st_host = web_host, st_resource = conf_res\<rparr>))"
proof -
  let ?s = "\<lparr>st_order = 1, st_host = web_host, st_resource = conf_res\<rparr>"
  have "h_transport (st_host ?s) = ''local''" "r_type (st_resource ?s) \<in> {''file'', ''command''}"
    "filepath_Clean (r_path (st_resource ?s)) = r_path (st_resource ?s)" by code_simp+
  moreover obtain m' where "apply_simulated echo_shell empty_machine (st_resource ?s)
      = ((no_result\<lparr>pr_changed := True, pr_message := ''file updated''\<rparr>, None), m')"
  proof
    show "apply_simulated echo_shell empty_machine (st_resource ?s)
      = ((no_result\<lparr>pr_changed := True, pr_message := ''file updated''\<rparr>, None), empty_machine\<lparr>m_files := [(''/etc/app'', ''on'')]\<rparr>)"
      by code_simp
  qed
  ultimately have "ci_would_change (fst (check_step echo_shell empty_machine ?s)) =
      pr_changed (no_result\<lparr>pr_changed := True, pr_message := ''file updated''\<rparr>)"
    using check_predicts_apply [of ?s echo_shell empty_machine] by blast
  then show ?thesis by simp
qed

end
