(* ===== verification/ExecShell.thy ===== *)
theory ExecShell
  imports ConfigValidate "HOL-Library.Word"
begin

unbundle bit_operations_syntax

text \<open>
  The pure helpers of internal/executor/executor.go: quoting for the shell and for PowerShell,
  privilege escalation, the arguments of ssh, audit messages, and the delays between attempts.

  \<open>sh_words\<close> is the specification against which the quoting is judged: how a POSIX shell splits a
  line into words, for lines without expansions (an unquoted character other than a letter, a
  digit or one of a few harmless signs, or an expansion inside double quotes, makes it \<open>None\<close>).
\<close>

section \<open>Quoting\<close>

definition sq :: char where
  "sq = CHR 0x27"

definition dq :: char where
  "dq = CHR 0x22"

definition shellQuote :: "string \<Rightarrow> string" where
  "shellQuote s = (if s = [] then [sq, sq] else [sq] @ ReplaceAll1 s sq [sq, dq, sq, dq, sq] @ [sq])"

definition quotePowerShell :: "string \<Rightarrow> string" where
  "quotePowerShell s = [sq] @ ReplaceAll1 s sq [sq, sq] @ [sq]"

definition wrapWithSudo :: "string \<Rightarrow> string \<Rightarrow> string" where
  "wrapWithSudo command user =
     (if TrimSpace user = [] then ''sudo sh -lc '' @ shellQuote command
      else ''sudo -u '' @ shellQuote user @ '' sh -lc '' @ shellQuote command)"

definition appendAuditMessage :: "string \<Rightarrow> string \<Rightarrow> string" where
  "appendAuditMessage message audit =
     (let message = TrimSpace message; audit = TrimSpace audit
      in if audit = [] then message else if message = [] then audit else message @ ''; '' @ audit)"

text \<open>The lexer of the shell: what is outside quotes, inside single and inside double quotes.\<close>

datatype quote_mode = Bare | Single | Double

definition bare_safe :: "char \<Rightarrow> bool" where
  "bare_safe c \<longleftrightarrow> (CHR ''a'' \<le> c \<and> c \<le> CHR ''z'') \<or> (CHR ''A'' \<le> c \<and> c \<le> CHR ''Z'') \<or> is_digit c \<or>
     c = CHR ''-'' \<or> c = CHR ''_'' \<or> c = CHR ''/'' \<or> c = CHR ''.''"

fun sh_word :: "quote_mode \<Rightarrow> string \<Rightarrow> (string \<times> string) option" where
  "sh_word Bare [] = Some ([], [])"
| "sh_word Bare (c # cs) =
     (if c = CHR '' '' then Some ([], cs)
      else if c = sq then sh_word Single cs
      else if c = dq then sh_word Double cs
      else if bare_safe c then map_option (\<lambda>(w, r). (c # w, r)) (sh_word Bare cs)
      else None)"
| "sh_word Single [] = None"
| "sh_word Single (c # cs) =
     (if c = sq then sh_word Bare cs else map_option (\<lambda>(w, r). (c # w, r)) (sh_word Single cs))"
| "sh_word Double [] = None"
| "sh_word Double (c # cs) =
     (if c = dq then sh_word Bare cs
      else if c = CHR ''$'' \<or> c = CHR 0x60 \<or> c = CHR 0x5C then None
      else map_option (\<lambda>(w, r). (c # w, r)) (sh_word Double cs))"

lemma sh_word_shorter: "sh_word m s = Some (w, r) \<Longrightarrow> s \<noteq> [] \<Longrightarrow> length r < length s"
  by (induction m s arbitrary: w r rule: sh_word.induct) (fastforce split: if_splits)+

function sh_words :: "string \<Rightarrow> string list option" where
  "sh_words s =
     (if s = [] then Some []
      else case sh_word Bare s of
             None \<Rightarrow> None
           | Some (w, r) \<Rightarrow> map_option (\<lambda>ws. w # ws) (sh_words r))"
  by pat_completeness auto
termination by (relation "measure length") (auto dest: sh_word_shorter)

declare sh_words.simps [simp del]

text \<open>The inside of a single-quoted PowerShell string: a doubled quote is a quote.\<close>

fun ps_inside :: "string \<Rightarrow> (string \<times> string) option" where
  "ps_inside [] = None"
| "ps_inside [c] = (if c = sq then Some ([], []) else None)"
| "ps_inside (c # d # cs) =
     (if c = sq then (if d = sq then map_option (\<lambda>(w, r). (c # w, r)) (ps_inside cs) else Some ([], d # cs))
      else map_option (\<lambda>(w, r). (c # w, r)) (ps_inside (d # cs)))"

definition ps_string :: "string \<Rightarrow> (string \<times> string) option" where
  "ps_string s = (case s of [] \<Rightarrow> None | c # cs \<Rightarrow> if c = sq then ps_inside cs else None)"

lemma quote_chars [simp]: "sq \<noteq> dq" "dq \<noteq> sq" "sq \<noteq> CHR '' ''" "dq \<noteq> CHR '' ''"
    "sq \<noteq> CHR ''$''" "sq \<noteq> CHR 0x60" "sq \<noteq> CHR 0x5C" "\<not> bare_safe sq" "\<not> bare_safe dq"
  by code_simp+

lemma ReplaceAll1_simps [simp]: "ReplaceAll1 [] c r = []"
    "ReplaceAll1 (x # xs) c r = (if x = c then r else [x]) @ ReplaceAll1 xs c r"
  by (simp_all add: ReplaceAll1_def)

lemma sh_word_quoted_inside:
  "sh_word Bare rest = Some (w, r) \<Longrightarrow>
     sh_word Single (ReplaceAll1 s sq [sq, dq, sq, dq, sq] @ sq # rest) = Some (s @ w, r)"
  by (induction s) auto

text \<open>A quoted word, followed by whatever the lexer accepts, is read back as the original text.\<close>

lemma sh_word_shellQuote:
  "sh_word Bare rest = Some (w, r) \<Longrightarrow> sh_word Bare (shellQuote s @ rest) = Some (s @ w, r)"
  using sh_word_quoted_inside [of rest w r s] by (auto simp: shellQuote_def)

lemma sh_word_space: "sh_word Bare (CHR '' '' # cs) = Some ([], cs)"
  by simp

lemma shellQuote_nonempty: "shellQuote s \<noteq> []"
  by (simp add: shellQuote_def)

lemma sh_words_quoted_last: "sh_words (shellQuote s) = Some [s]"
  using sh_word_shellQuote [of "[]" "[]" "[]" s] by (simp add: sh_words.simps shellQuote_nonempty)

lemma sh_words_quoted_then: "sh_words (shellQuote s @ CHR '' '' # cs) = map_option (\<lambda>ws. s # ws) (sh_words cs)"
  using sh_word_shellQuote [OF sh_word_space, of s cs] by (subst sh_words.simps) (simp add: shellQuote_nonempty)

lemma sh_words_bare:
  "list_all bare_safe w \<Longrightarrow> w \<noteq> [] \<Longrightarrow> sh_words (w @ CHR '' '' # cs) = map_option (\<lambda>ws. w # ws) (sh_words cs)"
proof -
  have "list_all bare_safe w \<Longrightarrow> sh_word Bare (w @ CHR '' '' # cs) = Some (w, cs)"
  proof (induction w)
    case (Cons c w)
    then have "c \<noteq> CHR '' ''" "c \<noteq> sq" "c \<noteq> dq" by (auto simp: bare_safe_def is_digit_def sq_def dq_def)
    with Cons show ?case by simp
  qed simp
  then show "list_all bare_safe w \<Longrightarrow> w \<noteq> [] \<Longrightarrow> ?thesis" by (subst sh_words.simps) simp
qed

text \<open>The privilege-escalation wrapper hands the command to the shell unchanged, whatever it
  contains (quotes, spaces, dollar signs, newlines): a shell splits the wrapped line into exactly the
  words sudo, the user option if there is one, sh, -lc and the original command.\<close>

theorem wrapWithSudo_words:
  "sh_words (wrapWithSudo command user) =
     Some (if TrimSpace user = [] then [''sudo'', ''sh'', ''-lc'', command]
           else [''sudo'', ''-u'', user, ''sh'', ''-lc'', command])"
proof -
  have bare: "list_all bare_safe ''sudo''" "list_all bare_safe ''sh''" "list_all bare_safe ''-lc''" "list_all bare_safe ''-u''"
    by code_simp+
  note w = sh_words_bare [OF bare(1)] sh_words_bare [OF bare(2)] sh_words_bare [OF bare(3)] sh_words_bare [OF bare(4)]
  have 1: "''sudo sh -lc '' @ x = ''sudo'' @ CHR '' '' # ''sh'' @ CHR '' '' # ''-lc'' @ CHR '' '' # x" for x by simp
  have 2: "''sudo -u '' @ shellQuote user @ '' sh -lc '' @ x =
      ''sudo'' @ CHR '' '' # ''-u'' @ CHR '' '' # shellQuote user @ CHR '' '' # ''sh'' @ CHR '' '' # ''-lc'' @ CHR '' '' # x" for x
    by simp
  show ?thesis
    unfolding wrapWithSudo_def 1 2 by (simp only: w sh_words_quoted_then sh_words_quoted_last list.distinct
        if_distrib [of sh_words] option.map simp_thms if_distrib [of Some] cong: if_cong)
qed

text \<open>quoting round trips: the shell reads a quoted text back as one word, the text itself, and a
  PowerShell string literal denotes the text it was made from.\<close>

theorem quoting_round_trip:
  "sh_words (shellQuote s) = Some [s] \<and> ps_string (quotePowerShell s) = Some (s, [])"
proof -
  have "ps_inside (ReplaceAll1 s sq [sq, sq] @ [sq]) = Some (s, [])"
  proof (induction s)
    case (Cons c s)
    obtain d ds where "ReplaceAll1 s sq [sq, sq] @ [sq] = d # ds" by (cases "ReplaceAll1 s sq [sq, sq] @ [sq]") auto
    with Cons show ?case by (cases "c = sq") simp_all
  qed simp
  then show ?thesis by (simp add: sh_words_quoted_last ps_string_def quotePowerShell_def)
qed

section \<open>The arguments of ssh\<close>

definition buildSSHJumpTarget :: "host \<Rightarrow> string" where
  "buildSSHJumpTarget h =
     (let jump = TrimSpace (h_jump_address h)
      in if jump = [] then []
         else let jump = (if TrimSpace (h_jump_user h) \<noteq> [] then TrimSpace (h_jump_user h) @ ''@'' @ jump else jump)
              in if h_jump_port h > 0 then jump @ '':'' @ strconv_Itoa (h_jump_port h) else jump)"

definition buildSSHArgs :: "host \<Rightarrow> string \<Rightarrow> string list" where
  "buildSSHArgs h script =
     (let target = TrimSpace (h_address h);
          target = (if target = [] then TrimSpace (h_name h) else target);
          target = (if TrimSpace (h_user h) \<noteq> [] then TrimSpace (h_user h) @ ''@'' @ target else target)
      in (if h_port h > 0 then [''-p'', strconv_Itoa (h_port h)] else [])
         @ (if buildSSHJumpTarget h \<noteq> [] then [''-J'', buildSSHJumpTarget h] else [])
         @ (if TrimSpace (h_proxy_command h) \<noteq> [] then [''-o'', ''ProxyCommand='' @ TrimSpace (h_proxy_command h)] else [])
         @ [target, ''sh'', ''-lc'', script])"

section \<open>Delays between attempts\<close>

definition normalizeRetryBackoff :: "string \<Rightarrow> string" where
  "normalizeRetryBackoff mode =
     (let mode = lower_trim mode
      in if mode = [] \<or> mode = ''constant'' \<or> mode = ''linear'' \<or> mode = ''exponential'' then mode else [])"

definition retryDelayForAttempt :: "duration \<Rightarrow> int \<Rightarrow> string \<Rightarrow> duration" where
  "retryDelayForAttempt base attempt mode =
     (if base \<le> 0 \<or> attempt \<le> 0 then 0
      else if mode = ''linear'' then wrap64 (base * attempt)
      else if mode = ''exponential''
        then (let attempt = (if attempt > 30 then 30 else attempt) in wrap64 (base * 2 ^ nat (attempt - 1)))
      else base)"

definition fnv32a_byte :: "char \<Rightarrow> 32 word \<Rightarrow> 32 word" where
  "fnv32a_byte c h = (h XOR of_int (of_char c)) * 16777619"

definition fnv32a :: "string \<Rightarrow> 32 word" where
  "fnv32a s = fold fnv32a_byte s 2166136261"

definition go_rem :: "int \<Rightarrow> int \<Rightarrow> int" where
  "go_rem a b = a - b * go_div a b"

definition retryJitterForAttempt :: "string \<Rightarrow> int \<Rightarrow> duration \<Rightarrow> duration" where
  "retryJitterForAttempt resourceID attempt maxj =
     (if maxj \<le> 0 \<or> attempt \<le> 0 then 0
      else go_rem (uint (fnv32a (TrimSpace resourceID @ '':'' @ strconv_Itoa attempt))) (wrap64 (maxj + 1)))"

lemma fnv32a_example: "fnv32a ''a'' = 3826002220"
  by code_simp

text \<open>Jitter stays in its range: for every positive maximum that a duration can hold (the largest
  one excepted) the jitter of an attempt lies between zero and the maximum; without a maximum it is
  zero.\<close>

theorem retryJitter_bounds:
  assumes "maxj < 2 ^ 63 - 1"
  shows "0 \<le> retryJitterForAttempt rid attempt maxj \<and> retryJitterForAttempt rid attempt maxj \<le> max 0 maxj"
proof (cases "maxj \<le> 0 \<or> attempt \<le> 0")
  case False
  define n where "n = uint (fnv32a (TrimSpace rid @ '':'' @ strconv_Itoa attempt))"
  have n: "0 \<le> n" by (simp add: n_def)
  have w: "wrap64 (maxj + 1) = maxj + 1" using assms False by (intro wrap64_id) simp_all
  have "go_rem n (maxj + 1) = n mod (maxj + 1)"
    using n False by (simp add: go_rem_def go_div_nonneg minus_mult_div_eq_mod)
  moreover have "0 \<le> n mod (maxj + 1)" "n mod (maxj + 1) < maxj + 1"
    using False pos_mod_bound [of "maxj + 1" n] by auto
  ultimately show ?thesis using False w by (simp add: retryJitterForAttempt_def n_def)
qed (simp add: retryJitterForAttempt_def)

theorem retryJitter_bounds_witness: "retryJitterForAttempt ''pkg'' 1 (seconds 5) \<le> 5000000000"
proof -
  have s: "seconds 5 = 5000000000" by (simp add: seconds_small)
  show ?thesis using retryJitter_bounds [of "seconds 5" "''pkg''" 1] by (simp add: s)
qed

text \<open>As long as the base delay is below 2 to the power 34 nanoseconds (about 17 seconds), the
  exponential delay is the base doubled with every attempt up to the thirtieth, never shrinks from
  one attempt to the next and never overflows.\<close>

theorem retryDelay_exponential:
  assumes "0 < base" and "base < 2 ^ 34" and "0 < attempt"
  shows "retryDelayForAttempt base attempt ''exponential'' = base * 2 ^ nat (min attempt 30 - 1) \<and>
    retryDelayForAttempt base attempt ''exponential'' \<le> retryDelayForAttempt base (attempt + 1) ''exponential''"
proof -
  have val: "retryDelayForAttempt base a ''exponential'' = base * 2 ^ nat (min a 30 - 1)" if "0 < a" for a
  proof -
    let ?k = "nat (min a 30 - 1)"
    have "(2::int) ^ ?k \<le> 2 ^ 29" by (rule power_increasing) auto
    then have "base * 2 ^ ?k \<le> base * 2 ^ 29" using assms(1) by (intro mult_left_mono) auto
    also have "\<dots> < 2 ^ 34 * 2 ^ 29" using assms(2) by (intro mult_strict_right_mono) auto
    finally have "base * 2 ^ ?k < 2 ^ 63" by simp
    moreover have "0 \<le> base * 2 ^ ?k" using assms(1) by simp
    ultimately have "wrap64 (base * 2 ^ ?k) = base * 2 ^ ?k" by (intro wrap64_id) simp_all
    moreover have "(if a > 30 then 30 else a) = min a 30" by simp
    ultimately show ?thesis using assms(1) that by (simp add: retryDelayForAttempt_def Let_def)
  qed
  have "(2::int) ^ nat (min attempt 30 - 1) \<le> 2 ^ nat (min (attempt + 1) 30 - 1)" by (rule power_increasing) auto
  then have "base * 2 ^ nat (min attempt 30 - 1) \<le> base * 2 ^ nat (min (attempt + 1) 30 - 1)"
    using assms(1) by (intro mult_left_mono) auto
  with val assms(3) show ?thesis by simp
qed

theorem retryDelay_exponential_witness: "retryDelayForAttempt 1000000000 3 ''exponential'' = 4000000000"
  using retryDelay_exponential [of 1000000000 3] by simp

text \<open>Beyond that bound the delay overflows: a retry delay of 18 seconds gives a negative delay
  at the thirtieth attempt, so the executor does not wait at all.\<close>

theorem retryDelay_overflow: "retryDelayForAttempt (seconds 18) 30 ''exponential'' < 0"
  by code_simp

end
