(* ===== verification/GoTime.thy ===== *)
theory GoTime
  imports GoStrings
begin

text \<open>
  The two layouts in which the program prints a \<^verbatim>\<open>time.Time\<close> in UTC: the compact stamp inside a
  job identifier and RFC 3339. A time is nanoseconds since 1 January of year 1; the civil date
  is computed on Go's proleptic Gregorian calendar. Identifiers with a stamp and a counter are
  shown to be determined by the counter, whatever the stamp.
\<close>

definition pad :: "nat \<Rightarrow> int \<Rightarrow> string" where
  "pad w n = replicate (w - length (itoa n)) CHR ''0'' @ itoa n"

text \<open>Year and day of the year (from 0) of a day number (from 0 at 1 January of year 1).\<close>

definition year_day :: "int \<Rightarrow> int \<times> int" where
  "year_day d =
     (let n400 = d div 146097; r = d mod 146097;
          n100 = min 3 (r div 36524); r = r - n100 * 36524;
          n4 = r div 1461; r = r mod 1461;
          n1 = min 3 (r div 365)
      in (400 * n400 + 100 * n100 + 4 * n4 + n1 + 1, r - n1 * 365))"

definition leap :: "int \<Rightarrow> bool" where
  "leap y \<longleftrightarrow> y mod 4 = 0 \<and> (y mod 100 \<noteq> 0 \<or> y mod 400 = 0)"

fun month_day :: "int list \<Rightarrow> int \<Rightarrow> int \<Rightarrow> int \<times> int" where
  "month_day [] m d = (m, d + 1)"
| "month_day (l # ls) m d = (if d < l then (m, d + 1) else month_day ls (m + 1) (d - l))"

definition civil :: "int \<Rightarrow> int \<times> int \<times> int" where
  "civil day =
     (let (y, yd) = year_day day;
          (m, d) = month_day [31, if leap y then 29 else 28, 31, 30, 31, 30, 31, 31, 30, 31, 30, 31] 1 yd
      in (y, m, d))"

definition clock :: "gotime \<Rightarrow> int \<times> int \<times> int" where
  "clock t = (let s = t div 1000000000 in (s div 3600 mod 24, s div 60 mod 60, s mod 60))"

definition format_compact :: "gotime \<Rightarrow> string" where
  "format_compact t =
     (let (y, m, d) = civil (t div 86400000000000); (hh, mm, ss) = clock t
      in pad 4 y @ pad 2 m @ pad 2 d @ ''T'' @ pad 2 hh @ pad 2 mm @ pad 2 ss)"

definition format_rfc3339 :: "gotime \<Rightarrow> string" where
  "format_rfc3339 t =
     (let (y, m, d) = civil (t div 86400000000000); (hh, mm, ss) = clock t
      in pad 4 y @ ''-'' @ pad 2 m @ ''-'' @ pad 2 d @ ''T'' @ pad 2 hh @ '':'' @ pad 2 mm @ '':'' @ pad 2 ss @ ''Z'')"

lemma civil_examples:
  "civil 0 = (1, 1, 1)" "civil 738944 = (2024, 2, 29)" "civil 738945 = (2024, 3, 1)" "civil 730119 = (2000, 1, 1)"
  by code_simp+

section \<open>Identifiers with a stamp\<close>

definition stamped :: "string \<Rightarrow> int \<Rightarrow> string" where
  "stamped p n = p @ ''-'' @ itoa n"

lemma itoa_no_dash: "CHR ''-'' \<notin> set (itoa n)"
  using itoa_digits [of "CHR ''-''" n] by (auto simp: is_digit_def)

text \<open>The text after the last dash of an identifier.\<close>

definition last_part :: "string \<Rightarrow> string" where
  "last_part s = rev (takeWhile (\<lambda>c. c \<noteq> CHR ''-'') (rev s))"

lemma last_part_stamped: "last_part (stamped p n) = itoa n"
proof -
  have "takeWhile (\<lambda>c. c \<noteq> CHR ''-'') (rev (itoa n) @ CHR ''-'' # rev p) = rev (itoa n)"
    using itoa_no_dash [of n] by (subst takeWhile_append2) auto
  then show ?thesis by (simp add: last_part_def stamped_def)
qed

lemma stamped_inj: "0 \<le> m \<Longrightarrow> 0 \<le> n \<Longrightarrow> stamped p m = stamped q n \<Longrightarrow> m = n"
  by (metis last_part_stamped itoa_inj)

lemma stamped_nonempty: "stamped p n \<noteq> []"
  by (simp add: stamped_def)

definition stamps_below :: "int \<Rightarrow> string set \<Rightarrow> bool" where
  "stamps_below n ids \<longleftrightarrow> 0 \<le> n \<and> (\<forall>i \<in> ids. \<exists>p k. 1 \<le> k \<and> k \<le> n \<and> i = stamped p k)"

lemma stamps_below_fresh:
  assumes "stamps_below n ids"
  shows "stamped p (n + 1) \<notin> ids"
proof
  assume "stamped p (n + 1) \<in> ids"
  with assms obtain q k where k: "1 \<le> k" "k \<le> n" "stamped p (n + 1) = stamped q k" and "0 \<le> n"
    unfolding stamps_below_def by blast
  then have "n + 1 = k" by (intro stamped_inj [of "n + 1" k p q]) simp_all
  with k(2) show False by simp
qed

lemma stamps_below_up: "stamps_below n ids \<Longrightarrow> stamps_below (n + 1) ids"
  unfolding stamps_below_def by (force intro: order_trans)

lemma stamps_below_insert:
  assumes "stamps_below n ids"
  shows "stamps_below (n + 1) (insert (stamped p (n + 1)) ids)"
proof -
  have "1 \<le> n + 1" using assms by (simp add: stamps_below_def)
  then show ?thesis using stamps_below_up [OF assms] unfolding stamps_below_def by blast
qed

end
