(* ===== verification/ExecStep.thy ===== *)
theory ExecStep
  imports Planner Provider ExecShell GoTime
begin

text \<open>
  Running one step (internal/executor/executor.go): integrity of managed files, the transports,
  privilege escalation, rescue and always hooks, session records, the Windows shim, backups, and
  the retry loop.

  The machine is threaded through every call. What the code takes from outside the repository is a
  field of \<open>exec_env\<close>: what the processes \<^verbatim>\<open>ssh\<close> and \<^verbatim>\<open>pwsh\<close> do (combined output, error,
  machine afterwards), the digest and signature functions, base64, and the JSON encodings of the
  records that are written to disk. \<open>ev_now\<close> reads the clock of the machine. A JSON file of the Windows shim holds
  the encoding of a map of maps; marshalling one cannot fail, so that error branch is absent.
\<close>

type_synonym outcome4 = "bool \<times> bool \<times> string \<times> string option"
type_synonym transport = "machine \<Rightarrow> step \<Rightarrow> resource \<Rightarrow> outcome4 \<times> machine"
type_synonym shim_state = "string gomap gomap"

record session_record =
  se_timestamp :: gotime
  se_host :: string
  se_transport :: string
  se_resource :: string
  se_command :: string
  se_become :: bool
  se_become_user :: string
  se_output :: string
  se_error :: string

record bucket_entry =
  be_time :: gotime
  be_resource :: string
  be_host :: string
  be_path :: string
  be_checksum :: string
  be_size :: int

record exec_env =
  ev_base_dir :: string
  ev_registry :: registry
  ev_handlers :: "transport gomap"
  ev_now :: "machine \<Rightarrow> gotime"
  ev_ssh :: "machine \<Rightarrow> string list \<Rightarrow> (string \<times> string option) \<times> machine"
  ev_pwsh :: "machine \<Rightarrow> string list \<Rightarrow> (string \<times> string option) \<times> machine"
  ev_sha256_hex :: "string \<Rightarrow> string"
  ev_base64 :: "string \<Rightarrow> string result"
  ev_verify :: "string \<Rightarrow> string \<Rightarrow> string \<Rightarrow> bool"
  ev_session_json :: "session_record \<Rightarrow> string"
  ev_bucket_json :: "bucket_entry \<Rightarrow> string"
  ev_shim_decode :: "string \<Rightarrow> shim_state"
  ev_shim_encode :: "shim_state \<Rightarrow> string"

record resource_run =
  rr_id :: string
  rr_type :: string
  rr_host :: string
  rr_changed :: bool
  rr_skipped :: bool
  rr_message :: string

definition zero_run :: resource_run where
  "zero_run = \<lparr>rr_id = [], rr_type = [], rr_host = [], rr_changed = False, rr_skipped = False, rr_message = []\<rparr>"

definition run_for :: "resource \<Rightarrow> resource_run" where
  "run_for r = zero_run\<lparr>rr_id := r_id r, rr_type := r_type r, rr_host := r_host r\<rparr>"

section \<open>Hosts and escalation\<close>

definition isLocalWinRMHost :: "host \<Rightarrow> bool" where
  "isLocalWinRMHost h =
     (let target = lower_trim (h_address h);
          target = (if target = [] then lower_trim (h_name h) else target)
      in is_local_name target)"

text \<open>The transport as the file backup and the Windows shim see it.\<close>

definition shim_transport :: "host \<Rightarrow> string" where
  "shim_transport h =
     (let t = lower_trim (h_transport h) in if t = ''winrm'' \<and> isLocalWinRMHost h then ''local'' else t)"

definition prepareResourceForExecution :: "host \<Rightarrow> resource \<Rightarrow> (resource \<times> string) result" where
  "prepareResourceForExecution h r =
     (if r_type r \<noteq> ''command'' \<or> \<not> r_become r then Inr (r, [])
      else
        let transport = lower_trim (h_transport h);
            user = TrimSpace (r_become_user r);
            r1 = r\<lparr>r_become_user := user\<rparr>;
            audit = ''privilege escalation via sudo'' @ (if user \<noteq> [] then '' as '' @ user else [])
        in if transport = ''local'' \<or> transport = ''ssh''
           then Inr (r1\<lparr>r_command := wrapWithSudo (r_command r1) user,
                        r_only_if := (if TrimSpace (r_only_if r1) \<noteq> [] then wrapWithSudo (r_only_if r1) user else r_only_if r1),
                        r_unless := (if TrimSpace (r_unless r1) \<noteq> [] then wrapWithSudo (r_unless r1) user else r_unless r1)\<rparr>,
                     audit)
           else if transport = ''winrm''
             then Inl (''resource '' @ go_quote (r_id r) @ '' uses become, but winrm escalation is not supported'')
           else Inr (r1, audit))"

section \<open>Session records\<close>

definition shouldRecordSession :: "host \<Rightarrow> resource \<Rightarrow> bool" where
  "shouldRecordSession h r \<longleftrightarrow> r_type r = ''command'' \<and> r_become r \<and>
     (lower_trim (h_transport h) = ''ssh'' \<or> lower_trim (h_transport h) = ''winrm'')"

definition token_char :: "char \<Rightarrow> bool" where
  "token_char c \<longleftrightarrow> (CHR ''a'' \<le> c \<and> c \<le> CHR ''z'') \<or> (CHR ''A'' \<le> c \<and> c \<le> CHR ''Z'') \<or> is_digit c \<or>
     c = CHR ''-'' \<or> c = CHR ''_''"

text \<open>One underscore per rune: the continuation bytes of a multi-byte rune produce nothing.\<close>

definition sanitizeSessionToken :: "string \<Rightarrow> string" where
  "sanitizeSessionToken i =
     (let i = TrimSpace i
      in if i = [] then ''resource''
         else concat (map (\<lambda>c. if token_char c then [c]
                else if (128::int) \<le> of_char c \<and> (of_char c :: int) < 192 then [] else ''_'') i))"

definition nano_stamp :: "gotime \<Rightarrow> string" where
  "nano_stamp t = format_compact t @ ''.'' @ pad 9 (t mod 1000000000)"

definition maybeRecordSession ::
  "exec_env \<Rightarrow> machine \<Rightarrow> step \<Rightarrow> resource \<Rightarrow> string \<Rightarrow> string option \<Rightarrow> string result \<times> machine" where
  "maybeRecordSession env m s r output err =
     (if \<not> shouldRecordSession (st_host s) r then (Inr [], m)
      else if TrimSpace (ev_base_dir env) = [] then (Inr [], m)
      else
        let dir = filepath_Join [ev_base_dir env, ''.masterchef'', ''sessions'']
        in case os_MkdirAll m dir of
             Inl e \<Rightarrow> (Inl (''create session dir: '' @ e), m)
           | Inr _ \<Rightarrow>
               let name = sanitizeSessionToken (r_id (st_resource s)) @ ''-'' @ nano_stamp (ev_now env m) @ ''.json'';
                   path = filepath_Join [dir, name];
                   rec = \<lparr>se_timestamp = ev_now env m, se_host = h_name (st_host s),
                          se_transport = lower_trim (h_transport (st_host s)), se_resource = r_id (st_resource s),
                          se_command = r_command r, se_become = r_become r, se_become_user = r_become_user r,
                          se_output = TrimSpace output, se_error = (case err of None \<Rightarrow> [] | Some e \<Rightarrow> e)\<rparr>
               in case os_WriteFile m path (ev_session_json env rec) of
                    Inl e \<Rightarrow> (Inl (''write session record: '' @ e), m)
                  | Inr m' \<Rightarrow> (Inr path, m'))"

definition add_record :: "string result \<Rightarrow> string \<Rightarrow> string" where
  "add_record rec msg =
     (case rec of
        Inl e \<Rightarrow> appendAuditMessage msg (''session record error: '' @ e)
      | Inr p \<Rightarrow> if p \<noteq> [] then appendAuditMessage msg (''session record: '' @ p) else msg)"

section \<open>Integrity of managed files\<close>

definition validateManagedFileIntegrity :: "exec_env \<Rightarrow> resource \<Rightarrow> string option" where
  "validateManagedFileIntegrity env r =
     (let checksum = TrimSpace (r_content_checksum r);
          computed = ''sha256:'' @ ev_sha256_hex env (r_content r)
      in if checksum \<noteq> [] \<and> ToLower checksum \<noteq> ToLower computed
         then Some (''content_checksum mismatch: expected '' @ checksum @ '' computed '' @ computed)
         else
           let checksum = (if checksum = [] then computed else checksum);
               signature = TrimSpace (r_content_signature r);
               key = TrimSpace (r_content_signing_pubkey r)
           in if signature = [] \<and> key = [] then None
              else if signature = [] \<or> key = []
                then Some ''content_signature and content_signing_pubkey must be provided together''
              else case ev_base64 env key of
                Inl e \<Rightarrow> Some (''decode content_signing_pubkey: '' @ e)
              | Inr pub \<Rightarrow>
                  if length pub \<noteq> 32 then Some ''content_signing_pubkey must be a base64 ed25519 public key''
                  else case ev_base64 env signature of
                    Inl e \<Rightarrow> Some (''decode content_signature: '' @ e)
                  | Inr sg \<Rightarrow>
                      if \<not> ev_verify env pub (ToLower checksum) sg then Some ''content_signature verification failed''
                      else None)"

section \<open>Transports\<close>

definition applyLocalResource :: "exec_env \<Rightarrow> machine \<Rightarrow> resource \<Rightarrow> (provider_result \<times> string option) \<times> machine" where
  "applyLocalResource env m r =
     (case Lookup (r_type r) (ev_registry env) of
        None \<Rightarrow> ((no_result, Some (''no provider registered for type '' @ go_quote (r_type r))), m)
      | Some h \<Rightarrow> ph_apply h m r)"

definition local_transport :: "exec_env \<Rightarrow> transport" where
  "local_transport env m s r =
     (case applyLocalResource env m r of
        ((p, err), m') \<Rightarrow> ((pr_changed p, pr_skipped p, pr_message p, err), m'))"

definition runSSH :: "exec_env \<Rightarrow> machine \<Rightarrow> host \<Rightarrow> string \<Rightarrow> (string \<times> string option) \<times> machine" where
  "runSSH env m h script =
     (case ev_ssh env m (buildSSHArgs h script) of
        ((out, Some e), m') \<Rightarrow> ((out, Some (''ssh apply failed: '' @ e @ '': '' @ out)), m')
      | ((out, None), m') \<Rightarrow> ((out, None), m'))"

definition UnixNano :: "gotime \<Rightarrow> int" where
  "UnixNano t = wrap64 (t - 62135596800000000000)"

definition nl :: string where
  "nl = [CHR 0x0A]"

definition ssh_file_script :: "string \<Rightarrow> resource \<Rightarrow> string" where
  "ssh_file_script marker r =
     ''mkdir -p '' @ shellQuote (filepath_Dir (r_path r)) @ nl @ ''cat > '' @ shellQuote (r_path r)
     @ '' <<'' @ [sq] @ marker @ [sq] @ nl @ r_content r @ (if HasSuffix (r_content r) nl then [] else nl)
     @ marker @ nl
     @ (if r_mode r \<noteq> [] then ''chmod '' @ shellQuote (r_mode r) @ '' '' @ shellQuote (r_path r) @ nl else [])"

definition ssh_command_script :: "resource \<Rightarrow> string" where
  "ssh_command_script r =
     (if r_creates r \<noteq> []
      then ''if [ -e '' @ shellQuote (r_creates r) @ '' ]; then echo __MASTERCHEF_SKIP_CREATES__; exit 0; fi'' @ nl else [])
     @ (if r_unless r \<noteq> []
        then ''if sh -lc '' @ shellQuote (r_unless r) @ '' >/dev/null 2>&1; then echo __MASTERCHEF_SKIP_UNLESS__; exit 0; fi'' @ nl
        else [])
     @ ''sh -lc '' @ shellQuote (r_command r) @ nl"

definition skip_marker :: "string \<Rightarrow> bool" where
  "skip_marker out \<longleftrightarrow> out = ''__MASTERCHEF_SKIP_CREATES__'' \<or> out = ''__MASTERCHEF_SKIP_UNLESS__''"

text \<open>How the remote transports read the output of a command.\<close>

definition command_outcome :: "(string \<times> string option) \<times> machine \<Rightarrow> outcome4 \<times> machine" where
  "command_outcome res =
     (case res of ((out, err), m') \<Rightarrow>
        let outText = TrimSpace out
        in if skip_marker outText then ((False, True, outText, None), m')
           else case err of
                  Some e \<Rightarrow> ((False, False, outText, Some e), m')
                | None \<Rightarrow> ((True, False, outText, None), m'))"

definition applyOverSSH :: "exec_env \<Rightarrow> transport" where
  "applyOverSSH env m s r =
     (if r_type r = ''file''
      then (case runSSH env m (st_host s)
                   (ssh_file_script (''MASTERCHEF_EOF_'' @ strconv_Itoa (UnixNano (ev_now env m))) r) of
              ((out, Some e), m') \<Rightarrow> ((False, False, out, Some e), m')
            | ((out, None), m') \<Rightarrow> ((True, False, TrimSpace out, None), m'))
      else if r_type r = ''command''
      then command_outcome (runSSH env m (st_host s) (ssh_command_script r))
      else ((False, False, [], Some (''unsupported resource type '' @ go_quote (r_type r) @ '' for ssh transport'')), m))"

definition runWinRMPowerShell :: "exec_env \<Rightarrow> machine \<Rightarrow> string \<Rightarrow> string \<Rightarrow> (string \<times> string option) \<times> machine" where
  "runWinRMPowerShell env m target script =
     (case ev_pwsh env m [''-NoProfile'', ''-Command'',
             ''Invoke-Command -ComputerName '' @ quotePowerShell target @ '' -ScriptBlock { '' @ script @ '' }''] of
        ((out, Some e), m') \<Rightarrow> ((out, Some (''winrm apply failed: '' @ e @ '': '' @ out)), m')
      | ((out, None), m') \<Rightarrow> ((out, None), m'))"

definition winrm_command_script :: "resource \<Rightarrow> string" where
  "winrm_command_script r =
     (let ps = r_command r;
          ps = (if r_creates r \<noteq> []
                then ''if (Test-Path '' @ quotePowerShell (r_creates r) @ '') { Write-Output '' @ [sq]
                     @ ''__MASTERCHEF_SKIP_CREATES__'' @ [sq] @ ''; exit 0 }; '' @ ps
                else ps)
      in if r_unless r \<noteq> []
         then ''if ('' @ r_unless r @ '') { Write-Output '' @ [sq] @ ''__MASTERCHEF_SKIP_UNLESS__'' @ [sq]
              @ ''; exit 0 }; '' @ ps
         else ps)"

definition applyOverWinRM :: "exec_env \<Rightarrow> transport" where
  "applyOverWinRM env m s r =
     (if isLocalWinRMHost (st_host s) then local_transport env m s r
      else
        let target = (if h_address (st_host s) = [] then h_name (st_host s) else h_address (st_host s))
        in if TrimSpace target = [] then ((False, False, [], Some ''winrm host target is required''), m)
           else if r_type r = ''file''
           then (case runWinRMPowerShell env m target
                        (''Set-Content -Path '' @ quotePowerShell (r_path r) @ '' -Value '' @ quotePowerShell (r_content r)
                         @ (if r_mode r \<noteq> [] then ''; # mode mapping for winrm is provider-specific and currently advisory'' else [])) of
                   ((out, Some e), m') \<Rightarrow> ((False, False, TrimSpace out, Some e), m')
                 | ((out, None), m') \<Rightarrow> ((True, False, TrimSpace out, None), m'))
           else if r_type r = ''command''
           then command_outcome (runWinRMPowerShell env m target (winrm_command_script r))
           else ((False, False, [], Some (''unsupported resource type '' @ go_quote (r_type r) @ '' for winrm transport'')), m))"

definition registerBuiltinTransports :: "exec_env \<Rightarrow> exec_env" where
  "registerBuiltinTransports env = env\<lparr>ev_handlers :=
     [(''local'', local_transport env), (''ssh'', applyOverSSH env), (''winrm'', applyOverWinRM env)]\<rparr>"

definition RegisterTransport :: "string \<Rightarrow> transport option \<Rightarrow> exec_env \<Rightarrow> exec_env result" where
  "RegisterTransport name handler env =
     (let name = lower_trim name
      in if name = [] then Inl ''transport name is required''
         else case handler of
                None \<Rightarrow> Inl ''transport handler is required''
              | Some h \<Rightarrow> Inr (env\<lparr>ev_handlers := mput name h (ev_handlers env)\<rparr>))"

section \<open>The Windows shim\<close>

definition shim_root :: "exec_env \<Rightarrow> string" where
  "shim_root env =
     (let dir = TrimSpace (ev_base_dir env)
      in filepath_Join [if dir = [] then ''.'' else dir, ''.masterchef'', ''windows''])"

definition shim_load :: "exec_env \<Rightarrow> machine \<Rightarrow> string \<Rightarrow> shim_state" where
  "shim_load env m path =
     (case os_ReadFile m path of Inl _ \<Rightarrow> [] | Inr raw \<Rightarrow> if raw = [] then [] else ev_shim_decode env raw)"

definition shim_registry :: "exec_env \<Rightarrow> machine \<Rightarrow> resource \<Rightarrow> (resource_run \<times> bool) \<times> machine" where
  "shim_registry env m r =
     (let res = run_for r; path = filepath_Join [shim_root env, ''registry.json''];
          st = shim_load env m path; key = lower_trim (r_registry_key r)
      in if key = [] then ((res\<lparr>rr_message := ''registry_key is required''\<rparr>, True), m)
         else
           let entry = mget_or [] st key;
               vt = lower_trim (r_registry_value_type r);
               vt = (if vt = [] then ''string'' else vt)
           in if mget_or [] entry ''type'' = vt \<and> mget_or [] entry ''value'' = r_registry_value r
              then ((res\<lparr>rr_message := ''registry already in desired state''\<rparr>, False), m)
              else
                let entry = mput ''value'' (r_registry_value r) (mput ''type'' vt entry)
                in case os_WriteFile m path (ev_shim_encode env (mput key entry st)) of
                     Inl e \<Rightarrow> ((res\<lparr>rr_message := ''write registry state: '' @ e\<rparr>, True), m)
                   | Inr m' \<Rightarrow> ((res\<lparr>rr_changed := True, rr_message := ''registry value updated''\<rparr>, False), m'))"

definition shim_task :: "exec_env \<Rightarrow> machine \<Rightarrow> resource \<Rightarrow> (resource_run \<times> bool) \<times> machine" where
  "shim_task env m r =
     (let res = run_for r; path = filepath_Join [shim_root env, ''scheduled_tasks.json''];
          st = shim_load env m path;
          name = TrimSpace (r_task_name r); command = TrimSpace (r_task_command r);
          schedule = TrimSpace (r_task_schedule r);
          schedule = (if schedule = [] then ''@daily'' else schedule)
      in if name = [] then ((res\<lparr>rr_message := ''task_name is required''\<rparr>, True), m)
         else if command = [] then ((res\<lparr>rr_message := ''task_command is required''\<rparr>, True), m)
         else
           let key = ToLower name
           in if (case mget st key of None \<Rightarrow> False | Some cur \<Rightarrow>
                    mget_or [] cur ''command'' = command \<and> mget_or [] cur ''schedule'' = schedule)
              then ((res\<lparr>rr_message := ''scheduled task already in desired state''\<rparr>, False), m)
              else case os_WriteFile m path (ev_shim_encode env
                     (mput key [(''name'', name), (''schedule'', schedule), (''command'', command)] st)) of
                     Inl e \<Rightarrow> ((res\<lparr>rr_message := ''write scheduled task state: '' @ e\<rparr>, True), m)
                   | Inr m' \<Rightarrow> ((res\<lparr>rr_changed := True, rr_message := ''scheduled task updated''\<rparr>, False), m'))"

definition executeWindowsShimResource :: "exec_env \<Rightarrow> machine \<Rightarrow> step \<Rightarrow> resource \<Rightarrow> (resource_run \<times> bool) \<times> machine" where
  "executeWindowsShimResource env m s r =
     (let res = run_for r
      in if shim_transport (st_host s) \<noteq> ''local''
         then ((res\<lparr>rr_message := ''windows resource type '' @ r_type r @ '' is only supported in local/winrm-localhost shim mode''\<rparr>, True), m)
         else case os_MkdirAll m (shim_root env) of
           Inl e \<Rightarrow> ((res\<lparr>rr_message := ''create windows shim state dir: '' @ e\<rparr>, True), m)
         | Inr _ \<Rightarrow>
             if r_type r = ''registry'' then shim_registry env m r
             else if r_type r = ''scheduled_task'' then shim_task env m r
             else ((res\<lparr>rr_message := ''unsupported windows shim resource type: '' @ r_type r\<rparr>, True), m))"

end
