(* ===== verification/ExecSerial.thy ===== *)
theory ExecSerial
  imports Planner
begin

text \<open>
  The rolling order of internal/executor/executor.go: \<^verbatim>\<open>serialOrderedSteps\<close> regroups the steps of a
  plan into batches of hosts, and \<^verbatim>\<open>orderedHostsByFailureDomain\<close> decides the order of the hosts,
  round-robin over racks, zones or regions.
\<close>

definition step_host :: "step \<Rightarrow> string" where
  "step_host s =
     (let h = TrimSpace (h_name (st_host s));
          h = (if h = [] then TrimSpace (r_host (st_resource s)) else h)
      in if h = [] then ''unknown-host'' else h)"

text \<open>The scan of the steps: the hosts in order of first appearance, and the host record of each.\<close>

fun scan_hosts :: "step list \<Rightarrow> string list \<Rightarrow> host gomap \<Rightarrow> string list \<times> host gomap" where
  "scan_hosts [] order byName = (order, byName)"
| "scan_hosts (s # ss) order byName =
     (let h = step_host s;
          byName' = (if mget byName h = None then mput h (st_host s) byName else byName)
      in scan_hosts ss (if h \<in> set order then order else order @ [h]) byName')"

section \<open>Round robin over the failure domains\<close>

definition host_domain :: "host gomap \<Rightarrow> string \<Rightarrow> string \<Rightarrow> string" where
  "host_domain byName fd h =
     (let d = lower_trim (mget_or [] (h_topology (mget_or zero_host byName h)) fd)
      in if d = [] then ''unknown-'' @ fd else d)"

definition group_host :: "(string \<Rightarrow> string) \<Rightarrow> string \<Rightarrow> string list gomap \<times> string list \<Rightarrow> string list gomap \<times> string list" where
  "group_host domf h = (\<lambda>(grouped, domainOrder).
     (mput (domf h) (mget_or [] grouped (domf h) @ [h]) grouped,
      if mget grouped (domf h) = None then domainOrder @ [domf h] else domainOrder))"

definition pass_one :: "string \<Rightarrow> string list gomap \<times> string list \<times> bool \<Rightarrow> string list gomap \<times> string list \<times> bool" where
  "pass_one d = (\<lambda>(g, ordered, progressed).
     (case mget_or [] g d of
        [] \<Rightarrow> (g, ordered, progressed)
      | x # xs \<Rightarrow> (mput d xs g, ordered @ [x], True)))"

definition backlog :: "string list gomap \<Rightarrow> nat" where
  "backlog g = (\<Sum>p \<leftarrow> g. length (snd p))"

lemma backlog_mput: "mget_or [] g d = x # xs \<Longrightarrow> Suc (backlog (mput d xs g)) = backlog g"
proof (induction g)
  case (Cons p g)
  obtain k v where p: "p = (k, v)" by (cases p)
  show ?case
  proof (cases "k = d")
    case True
    then show ?thesis using Cons.prems by (simp add: p mget_or_def backlog_def)
  next
    case False
    then have "mget_or [] g d = x # xs" using Cons.prems by (simp add: p mget_or_def)
    with Cons.IH False show ?thesis by (simp add: p backlog_def)
  qed
qed simp

lemma pass_one_simps:
  "mget_or [] g d = [] \<Longrightarrow> pass_one d (g, ord, b) = (g, ord, b)"
  "mget_or [] g d = x # xs \<Longrightarrow> pass_one d (g, ord, b) = (mput d xs g, ord @ [x], True)"
  by (simp_all add: pass_one_def)

lemma pass_backlog:
  "fold pass_one ds (g, ord, b) = (g', ord', b') \<Longrightarrow> backlog g' \<le> backlog g \<and> (b' \<longrightarrow> b \<or> backlog g' < backlog g)"
proof (induction ds arbitrary: g ord b)
  case (Cons d ds)
  show ?case
  proof (cases "mget_or [] g d")
    case Nil
    then have "fold pass_one ds (g, ord, b) = (g', ord', b')" using Cons.prems by (simp add: pass_one_simps)
    then show ?thesis by (rule Cons.IH)
  next
    case (Cons x xs)
    then have "fold pass_one ds (mput d xs g, ord @ [x], True) = (g', ord', b')"
      using Cons.prems by (simp add: pass_one_simps)
    from Cons.IH [OF this] backlog_mput [OF Cons] show ?thesis by auto
  qed
qed simp

function rr_loop :: "string list \<Rightarrow> string list gomap \<Rightarrow> string list \<Rightarrow> string list" where
  "rr_loop ds g ordered =
     (case fold pass_one ds (g, ordered, False) of
        (g', ordered', progressed) \<Rightarrow> if progressed then rr_loop ds g' ordered' else ordered')"
  by pat_completeness auto
termination
  by (relation "measure (\<lambda>(ds, g, ordered). backlog g)") (auto dest!: pass_backlog [OF sym])

declare rr_loop.simps [simp del]

definition orderedHostsByFailureDomain :: "string list \<Rightarrow> host gomap \<Rightarrow> string \<Rightarrow> string list" where
  "orderedHostsByFailureDomain hostOrder byName failureDomain =
     (let hosts = sort hostOrder; fd = lower_trim failureDomain
      in if fd = [] then hosts
         else let (grouped, domainOrder) = fold (group_host (host_domain byName fd)) hosts ([], []);
                  grouped = map (\<lambda>(d, hs). (d, sort hs)) grouped
              in rr_loop (sort domainOrder) grouped [])"

section \<open>Batches\<close>

function batches :: "nat \<Rightarrow> 'a list \<Rightarrow> 'a list list" where
  "batches n xs = (if n = 0 \<or> xs = [] then [] else take n xs # batches n (drop n xs))"
  by pat_completeness auto
termination by (relation "measure (\<lambda>(n, xs). length xs)") auto

declare batches.simps [simp del]

definition serialOrderedSteps :: "step list \<Rightarrow> int \<Rightarrow> string \<Rightarrow> step list" where
  "serialOrderedSteps inp serial failureDomain =
     (let serial = (if serial \<le> 0 then 1 else serial);
          (order, byName) = scan_hosts inp [] [];
          hostOrder = orderedHostsByFailureDomain order byName failureDomain
      in concat (map (\<lambda>batch. filter (\<lambda>s. step_host s \<in> set batch) inp) (batches (nat serial) hostOrder)))"

section \<open>The order of the hosts\<close>

text \<open>The reference: round \<open>k\<close> takes the \<open>k\<close>-th host of every domain that has so many.\<close>

definition round_at :: "string list \<Rightarrow> (string \<Rightarrow> string list) \<Rightarrow> nat \<Rightarrow> string list" where
  "round_at ds grp k = concat (map (\<lambda>d. take 1 (drop k (grp d))) ds)"

definition rounds :: "string list \<Rightarrow> (string \<Rightarrow> string list) \<Rightarrow> nat \<Rightarrow> string list" where
  "rounds ds grp n = concat (map (round_at ds grp) [0..<n])"

lemma rounds_Suc: "rounds ds grp (Suc n) = round_at ds grp 0 @ rounds ds (\<lambda>d. drop 1 (grp d)) n"
proof -
  have "map (round_at ds grp) [0..<Suc n] = round_at ds grp 0 # map (\<lambda>k. round_at ds grp (Suc k)) [0..<n]"
    by (simp add: upt_conv_Cons map_Suc_upt [symmetric] del: upt_Suc)
  moreover have "round_at ds grp (Suc k) = round_at ds (\<lambda>d. drop 1 (grp d)) k" for k
    by (simp add: round_at_def)
  ultimately show ?thesis by (simp add: rounds_def del: upt_Suc)
qed

lemma pass_round:
  assumes "distinct ds"
  shows "\<exists>g'. fold pass_one ds (g, ord, b) =
      (g', ord @ concat (map (\<lambda>d. take 1 (mget_or [] g d)) ds), b \<or> (\<exists>d \<in> set ds. mget_or [] g d \<noteq> [])) \<and>
    (\<forall>d. mget_or [] g' d = (if d \<in> set ds then drop 1 (mget_or [] g d) else mget_or [] g d))"
  using assms
proof (induction ds arbitrary: g ord b)
  case (Cons d ds)
  have d: "d \<notin> set ds" "distinct ds" using Cons.prems by simp_all
  show ?case
  proof (cases "mget_or [] g d")
    case Nil
    from Cons.IH [OF d(2), of g ord b] Nil d(1) show ?thesis by (auto simp: pass_one_simps)
  next
    case (Cons x xs)
    from Cons.IH [OF d(2), of "mput d xs g" "ord @ [x]" True] obtain g' where
      g': "fold pass_one ds (mput d xs g, ord @ [x], True) =
          (g', (ord @ [x]) @ concat (map (\<lambda>d'. take 1 (mget_or [] (mput d xs g) d')) ds), True)"
        "\<And>d'. mget_or [] g' d' = (if d' \<in> set ds then drop 1 (mget_or [] (mput d xs g) d') else mget_or [] (mput d xs g) d')"
      by auto
    have "map (\<lambda>d'. take 1 (mget_or [] (mput d xs g) d')) ds = map (\<lambda>d'. take 1 (mget_or [] g d')) ds"
      using d(1) by (intro map_cong) auto
    note eq = this
    have "fold pass_one (d # ds) (g, ord, b) =
        (g', ord @ concat (map (\<lambda>d'. take 1 (mget_or [] g d')) (d # ds)), True)"
      using g'(1) unfolding eq by (simp add: pass_one_simps Cons)
    moreover have "mget_or [] g' d' = (if d' \<in> set (d # ds) then drop 1 (mget_or [] g d') else mget_or [] g d')" for d'
      using g'(2) [of d'] Cons d(1) by auto
    ultimately show ?thesis using Cons by auto
  qed
qed simp

lemma rounds_all_empty: "\<forall>d \<in> set ds. grp d = [] \<Longrightarrow> rounds ds grp n = []"
  by (auto simp: rounds_def round_at_def)

lemma rr_loop_rounds:
  "distinct ds \<Longrightarrow> \<forall>d \<in> set ds. length (mget_or [] g d) \<le> n \<Longrightarrow> rr_loop ds g ord = ord @ rounds ds (mget_or [] g) n"
proof (induction ds g ord arbitrary: n rule: rr_loop.induct)
  case (1 ds g ord)
  obtain g' where pass: "fold pass_one ds (g, ord, False) =
      (g', ord @ round_at ds (mget_or [] g) 0, \<exists>d \<in> set ds. mget_or [] g d \<noteq> [])"
    and g': "\<And>d. mget_or [] g' d = (if d \<in> set ds then drop 1 (mget_or [] g d) else mget_or [] g d)"
    using pass_round [OF "1.prems"(1), of g ord False] by (auto simp: round_at_def)
  show ?case
  proof (cases "\<exists>d \<in> set ds. mget_or [] g d \<noteq> []")
    case False
    then have "round_at ds (mget_or [] g) 0 = []" "rounds ds (mget_or [] g) n = []"
      by (simp_all add: round_at_def rounds_all_empty)
    with False show ?thesis by (simp add: rr_loop.simps [of ds g ord] pass)
  next
    case True
    then obtain m where n: "n = Suc m" using "1.prems"(2) by (cases n) auto
    have "\<forall>d \<in> set ds. length (mget_or [] g' d) \<le> m" using "1.prems"(2) n by (auto simp: g')
    from "1.IH" [OF pass [symmetric] refl True "1.prems"(1) this]
    have "rr_loop ds g ord = ord @ round_at ds (mget_or [] g) 0 @ rounds ds (mget_or [] g') m"
      using True by (simp add: rr_loop.simps [of ds g ord] pass)
    moreover have "rounds ds (mget_or [] g') m = rounds ds (\<lambda>d. drop 1 (mget_or [] g d)) m"
      by (auto simp: rounds_def round_at_def g' intro!: arg_cong [where f = concat])
    ultimately show ?thesis by (simp add: n rounds_Suc)
  qed
qed

lemma group_fold:
  assumes "fold (group_host domf) hs ([], []) = (grouped, order)"
  shows "mget_or [] grouped d = filter (\<lambda>h. domf h = d) hs \<and> distinct order \<and> set order = domf ` set hs \<and>
    (mget grouped d = None \<longleftrightarrow> d \<notin> set order)"
  using assms
proof (induction hs arbitrary: grouped order d rule: rev_induct)
  case (snoc h hs)
  obtain g0 o0 where 0: "fold (group_host domf) hs ([], []) = (g0, o0)"
    by (cases "fold (group_host domf) hs ([], [])")
  from snoc.prems 0 have "group_host domf h (g0, o0) = (grouped, order)" by simp
  then have *: "grouped = mput (domf h) (mget_or [] g0 (domf h) @ [h]) g0"
      "order = (if mget g0 (domf h) = None then o0 @ [domf h] else o0)"
    by (simp_all add: group_host_def)
  note IH = snoc.IH [OF 0]
  have "mget_or [] grouped d = filter (\<lambda>h. domf h = d) (hs @ [h])" using IH [of d] IH [of "domf h"] by (auto simp: *(1))
  moreover have "distinct order \<and> set order = domf ` set (hs @ [h])"
    using IH [of "domf h"] by (auto simp: *(2))
  moreover have "mget grouped d = None \<longleftrightarrow> d \<notin> set order" using IH [of d] IH [of "domf h"] by (auto simp: *)
  ultimately show ?case by blast
qed simp

lemma mset_rounds:
  "\<forall>d \<in> set ds. length (grp d) \<le> n \<Longrightarrow> mset (rounds ds grp n) = mset (concat (map grp ds))"
proof (induction n arbitrary: grp)
  case 0
  then show ?case by (simp add: rounds_def)
next
  case (Suc n)
  have "mset (round_at ds grp 0) + mset (concat (map (\<lambda>d. drop 1 (grp d)) ds)) = mset (concat (map grp ds))"
  proof (induction ds)
    case (Cons d ds)
    have "mset (take 1 (grp d)) + mset (drop 1 (grp d)) = mset (grp d)" by (metis append_take_drop_id mset_append)
    with Cons show ?case by (simp add: round_at_def ac_simps)
  qed (simp add: round_at_def)
  moreover have "mset (rounds ds (\<lambda>d. drop 1 (grp d)) n) = mset (concat (map (\<lambda>d. drop 1 (grp d)) ds))"
    using Suc.prems by (intro Suc.IH) auto
  ultimately show ?case by (simp add: rounds_Suc)
qed

lemma mset_group_concat:
  "distinct ds \<Longrightarrow> mset (concat (map (\<lambda>d. filter (\<lambda>h. f h = d) hs) ds)) = mset (filter (\<lambda>h. f h \<in> set ds) hs)"
proof (induction ds)
  case (Cons d ds)
  have "mset (filter (\<lambda>h. f h = d) hs) + mset (filter (\<lambda>h. f h \<in> set ds) hs) = mset (filter (\<lambda>h. f h \<in> set (d # ds)) hs)"
    using Cons.prems by (induction hs) auto
  with Cons show ?case by simp
qed simp

definition domain_hosts :: "string list \<Rightarrow> host gomap \<Rightarrow> string \<Rightarrow> string \<Rightarrow> string list" where
  "domain_hosts hs byName fd d = filter (\<lambda>h. host_domain byName fd h = d) (sort hs)"

lemma domain_hosts_length: "length (domain_hosts hs byName fd d) \<le> length hs"
  by (metis domain_hosts_def length_filter_le length_sort)

lemma orderedHosts_rounds:
  fixes byName :: "host gomap" and hs :: "string list"
  assumes "lower_trim fd \<noteq> []"
  defines "ds \<equiv> sort (remdups (map (host_domain byName (lower_trim fd)) hs))"
  shows "orderedHostsByFailureDomain hs byName fd = rounds ds (domain_hosts hs byName (lower_trim fd)) (length hs)"
proof -
  let ?f = "host_domain byName (lower_trim fd)"
  obtain g order where g: "fold (group_host ?f) (sort hs) ([], []) = (g, order)"
    by (cases "fold (group_host ?f) (sort hs) ([], [])")
  let ?g = "map (\<lambda>(d, hs). (d, sort hs)) g"
  note G = group_fold [OF g]
  have order: "sort order = ds"
    unfolding ds_def using G by (intro properties_for_sort) (simp_all add: sorted_list_of_set_sort_remdups
        set_eq_iff_mset_eq_distinct [symmetric] mset_set_set [symmetric])
  have look: "mget_or [] ?g d = domain_hosts hs byName (lower_trim fd) d" for d
  proof -
    have "mget_or [] ?g d = sort (mget_or [] g d)"
      by (simp add: mget_or_def mget_map_values split: option.splits)
    also have "\<dots> = domain_hosts hs byName (lower_trim fd) d"
      using G [of d] by (simp add: domain_hosts_def filter_sort sort_key_id_if_sorted)
    finally show ?thesis .
  qed
  have "rr_loop (sort order) ?g [] = [] @ rounds (sort order) (mget_or [] ?g) (length hs)"
  proof (rule rr_loop_rounds)
    show "distinct (sort order)" using G by simp
    show "\<forall>d \<in> set (sort order). length (mget_or [] ?g d) \<le> length hs"
      unfolding look by (simp add: domain_hosts_length)
  qed
  then show ?thesis
    using assms(1) g ext [of "mget_or [] ?g", OF look] by (simp add: orderedHostsByFailureDomain_def Let_def order)
qed

lemma orderedHosts_perm: "mset (orderedHostsByFailureDomain hs byName fd) = mset hs"
proof (cases "lower_trim fd = []")
  case True
  then show ?thesis by (simp add: orderedHostsByFailureDomain_def Let_def)
next
  case False
  let ?f = "host_domain byName (lower_trim fd)"
  let ?ds = "sort (remdups (map ?f hs))"
  have "mset (orderedHostsByFailureDomain hs byName fd) = mset (concat (map (domain_hosts hs byName (lower_trim fd)) ?ds))"
    unfolding orderedHosts_rounds [OF False]
    by (rule mset_rounds) (simp add: domain_hosts_length)
  also have "\<dots> = mset (filter (\<lambda>h. ?f h \<in> set ?ds) (sort hs))"
    unfolding domain_hosts_def by (rule mset_group_concat) simp
  also have "\<dots> = mset hs" by (simp add: filter_True)
  finally show ?thesis .
qed

text \<open>With a failure domain configured, the hosts come out round by round: round \<open>k\<close> takes the
  \<open>k\<close>-th host, in name order, of every domain that has so many hosts, the domains in name order.
  Without one they come out in name order. Either way every host appears exactly as often as before.\<close>

theorem orderedHosts_round_robin:
  "mset (orderedHostsByFailureDomain hs byName fd) = mset hs \<and>
   orderedHostsByFailureDomain hs byName fd =
     (if lower_trim fd = [] then sort hs
      else rounds (sort (remdups (map (host_domain byName (lower_trim fd)) hs)))
             (domain_hosts hs byName (lower_trim fd)) (length hs))"
  using orderedHosts_perm orderedHosts_rounds by (simp add: orderedHostsByFailureDomain_def Let_def)


section \<open>The batches\<close>

lemma scan_hosts_order:
  "distinct order \<Longrightarrow> distinct (fst (scan_hosts ss order byName)) \<and>
     set (fst (scan_hosts ss order byName)) = set order \<union> step_host ` set ss"
proof (induction ss arbitrary: order byName)
  case (Cons s ss)
  let ?o = "if step_host s \<in> set order then order else order @ [step_host s]"
  have "distinct ?o" "set ?o = insert (step_host s) (set order)" using Cons.prems by auto
  with Cons.IH [of ?o] show ?case by (simp add: Let_def)
qed simp

lemma batches_concat: "0 < n \<Longrightarrow> concat (batches n xs) = xs"
proof (induction n xs rule: batches.induct)
  case (1 n xs)
  then show ?case by (cases "xs = []") (simp_all add: batches.simps [of n xs] batches.simps [of n "[]"])
qed

lemma batches_sizes: "b \<in> set (batches n xs) \<Longrightarrow> length b \<le> n \<and> b \<noteq> []"
proof (induction n xs rule: batches.induct)
  case (1 n xs)
  show ?case
  proof (cases "n = 0 \<or> xs = []")
    case True
    with "1.prems" show ?thesis by (simp add: batches.simps)
  next
    case False
    with "1.prems" have "b = take n xs \<or> b \<in> set (batches n (drop n xs))" by (simp add: batches.simps [of n xs])
    with False "1.IH" [OF False] show ?thesis by auto
  qed
qed

text \<open>A run over disjoint batches that cover all keys is a permutation and keeps the order per key.\<close>

lemma batched_perm:
  "distinct (concat bs) \<Longrightarrow>
     mset (concat (map (\<lambda>b. filter (\<lambda>s. f s \<in> set b) xs) bs)) = mset (filter (\<lambda>s. f s \<in> set (concat bs)) xs)"
proof (induction bs)
  case (Cons b bs)
  have "mset (filter (\<lambda>s. f s \<in> set b) xs) + mset (filter (\<lambda>s. f s \<in> set (concat bs)) xs)
      = mset (filter (\<lambda>s. f s \<in> set (concat (b # bs))) xs)"
    using Cons.prems by (induction xs) auto
  with Cons show ?case by simp
qed simp

lemma batched_filter_one:
  assumes "distinct (concat bs)" and "h \<in> set (concat bs)"
  shows "filter (\<lambda>s. f s = h) (concat (map (\<lambda>b. filter (\<lambda>s. f s \<in> set b) xs) bs)) = filter (\<lambda>s. f s = h) xs"
  using assms
proof (induction bs)
  case (Cons b bs)
  have one: "filter (\<lambda>s. f s = h) (filter (\<lambda>s. f s \<in> set b) xs) = (if h \<in> set b then filter (\<lambda>s. f s = h) xs else [])"
    by (induction xs) auto
  show ?case
  proof (cases "h \<in> set b")
    case True
    then have "h \<notin> set (concat bs)" using Cons.prems(1) by auto
    then have "filter (\<lambda>s. f s = h) (concat (map (\<lambda>b. filter (\<lambda>s. f s \<in> set b) xs) bs)) = []"
      by (auto simp: filter_empty_conv)
    with True one show ?thesis by simp
  next
    case False
    with Cons one show ?thesis by simp
  qed
qed simp

lemma serialOrderedSteps_batches:
  "\<exists>bs. serialOrderedSteps inp serial fd = concat (map (\<lambda>b. filter (\<lambda>s. step_host s \<in> set b) inp) bs) \<and>
     distinct (concat bs) \<and> set (concat bs) = step_host ` set inp \<and>
     list_all (\<lambda>b. b \<noteq> [] \<and> int (length b) \<le> max 1 serial) bs"
proof -
  obtain order byName where sc: "scan_hosts inp [] [] = (order, byName)" by (cases "scan_hosts inp [] []")
  define ho where "ho = orderedHostsByFailureDomain order byName fd"
  define n where "n = nat (if serial \<le> 0 then 1 else serial)"
  have o: "distinct order" "set order = step_host ` set inp"
    using scan_hosts_order [of "[]" inp "[]"] sc by simp_all
  have m: "mset ho = mset order" unfolding ho_def by (rule orderedHosts_perm)
  have "0 < n" by (simp add: n_def)
  then have c: "concat (batches n ho) = ho" by (rule batches_concat)
  have "serialOrderedSteps inp serial fd = concat (map (\<lambda>b. filter (\<lambda>s. step_host s \<in> set b) inp) (batches n ho))"
    by (simp add: serialOrderedSteps_def sc Let_def ho_def n_def)
  moreover have "distinct ho" "set ho = set order"
    using m o(1) mset_eq_imp_distinct_iff mset_eq_setD by blast+
  moreover have "list_all (\<lambda>b. b \<noteq> [] \<and> int (length b) \<le> max 1 serial) (batches n ho)"
  proof -
    have "int (length b) \<le> max 1 serial" if "length b \<le> n" for b :: "string list" using that by (simp add: n_def split: if_splits)
    then show ?thesis unfolding list_all_iff using batches_sizes [of _ n ho] by blast
  qed
  ultimately show ?thesis using c o(2) by (intro exI [of _ "batches n ho"]) simp
qed

text \<open>the serial strategy runs the same steps: they are a permutation of the plan's steps in which
  the steps of each host keep their order, cut into batches such that no batch touches more hosts
  than the configured number and no host appears in two batches.\<close>

theorem serialOrderedSteps_rolling:
  "mset (serialOrderedSteps inp serial fd) = mset inp \<and>
   (\<forall>h. filter (\<lambda>s. step_host s = h) (serialOrderedSteps inp serial fd) = filter (\<lambda>s. step_host s = h) inp) \<and>
   (\<exists>bs. serialOrderedSteps inp serial fd = concat (map (\<lambda>b. filter (\<lambda>s. step_host s \<in> set b) inp) bs) \<and>
      distinct (concat bs) \<and> list_all (\<lambda>b. b \<noteq> [] \<and> int (length b) \<le> max 1 serial) bs)"
proof -
  obtain bs where bs: "serialOrderedSteps inp serial fd = concat (map (\<lambda>b. filter (\<lambda>s. step_host s \<in> set b) inp) bs)"
      "distinct (concat bs)" "set (concat bs) = step_host ` set inp"
      "list_all (\<lambda>b. b \<noteq> [] \<and> int (length b) \<le> max 1 serial) bs"
    using serialOrderedSteps_batches [of inp serial fd] by blast
  have "filter (\<lambda>s. step_host s \<in> set (concat bs)) inp = inp" using bs(3) by (simp add: filter_id_conv)
  then have "mset (serialOrderedSteps inp serial fd) = mset inp" using batched_perm [OF bs(2), of step_host inp] bs(1) by simp
  moreover have "filter (\<lambda>s. step_host s = h) (serialOrderedSteps inp serial fd) = filter (\<lambda>s. step_host s = h) inp" for h
  proof (cases "h \<in> set (concat bs)")
    case True
    then show ?thesis unfolding bs(1) by (rule batched_filter_one [OF bs(2)])
  next
    case False
    then have "filter (\<lambda>s. step_host s = h) inp = []" using bs(3) by (auto simp: filter_empty_conv)
    moreover have "set (serialOrderedSteps inp serial fd) \<subseteq> set inp" using bs(1) by auto
    ultimately show ?thesis by (auto simp: filter_empty_conv)
  qed
  ultimately show ?thesis using bs by blast
qed

definition cross_host_config :: config where
  "cross_host_config = demo_config\<lparr>cfg_resources :=
     [pkg_res\<lparr>r_id := ''schema'', r_host := ''web''\<rparr>, pkg_res\<lparr>r_id := ''app'', r_host := ''db'', r_depends_on := [''schema'']\<rparr>]\<rparr>"

text \<open>the serial strategy does not respect dependencies between hosts: there is a valid
  configuration whose plan puts a resource after the one it depends on, and whose serial order runs
  it before.\<close>

theorem serial_breaks_dependencies:
  "valid_config cross_host_config \<and> (''schema'', ''app'') \<in> cfg_edges cross_host_config \<and>
   (\<exists>p. Build cross_host_config = Inr p \<and>
      map (\<lambda>s. r_id (st_resource s)) (pl_steps p) = [''schema'', ''app''] \<and>
      map (\<lambda>s. r_id (st_resource s)) (serialOrderedSteps (pl_steps p) 1 []) = [''app'', ''schema''])"
proof (intro conjI)
  have "Validate (Some cross_host_config) = Inr cross_host_config" by code_simp
  then show "valid_config cross_host_config" using Validate_Inr_valid by blast
  show "(''schema'', ''app'') \<in> cfg_edges cross_host_config" by code_simp
  have "is_ok (Build cross_host_config)" by code_simp
  then obtain p where p: "Build cross_host_config = Inr p" by (auto simp: is_ok_iff)
  have "(case Build cross_host_config of Inl _ \<Rightarrow> False | Inr p \<Rightarrow>
      map (\<lambda>s. r_id (st_resource s)) (pl_steps p) = [''schema'', ''app''] \<and>
      map (\<lambda>s. r_id (st_resource s)) (serialOrderedSteps (pl_steps p) 1 []) = [''app'', ''schema''])"
    by code_simp
  then have "map (\<lambda>s. r_id (st_resource s)) (pl_steps p) = [''schema'', ''app''] \<and>
      map (\<lambda>s. r_id (st_resource s)) (serialOrderedSteps (pl_steps p) 1 []) = [''app'', ''schema'']"
    by (simp only: p sum.case)
  then show "\<exists>p. Build cross_host_config = Inr p \<and>
      map (\<lambda>s. r_id (st_resource s)) (pl_steps p) = [''schema'', ''app''] \<and>
      map (\<lambda>s. r_id (st_resource s)) (serialOrderedSteps (pl_steps p) 1 []) = [''app'', ''schema'']"
    using p by (intro exI [of _ p] conjI) (elim conjE, assumption)+
qed

end
