(* ===== verification/Executor.thy ===== *)
theory Executor
  imports ExecStep ExecSerial
begin

text \<open>
  Carrying out a plan (internal/executor/executor.go): one attempt at a step with its rescue and
  always hooks, the retry loop with its file backups, and \<open>Apply\<close>, which walks the plan, triggers
  refreshes, stops on failures as the strategy says and runs the notified handlers at the end.
\<close>

section \<open>Construction\<close>

definition new_env :: "exec_env \<Rightarrow> string \<Rightarrow> registry \<Rightarrow> exec_env" where
  "new_env env base_dir reg =
     registerBuiltinTransports (env\<lparr>ev_base_dir := base_dir, ev_registry := reg, ev_handlers := []\<rparr>)"

definition New :: "shell \<Rightarrow> exec_env \<Rightarrow> string \<Rightarrow> exec_env option" where
  "New sh env base_dir = map_option (new_env env base_dir) (NewBuiltinRegistry sh)"

definition NewWithRegistry :: "shell \<Rightarrow> exec_env \<Rightarrow> registry option \<Rightarrow> exec_env option" where
  "NewWithRegistry sh env reg =
     (case reg of
        None \<Rightarrow> map_option (new_env env []) (NewBuiltinRegistry sh)
      | Some r \<Rightarrow> Some (new_env env [] r))"

section \<open>One attempt\<close>

definition hook_resource :: "resource \<Rightarrow> string \<Rightarrow> resource" where
  "hook_resource base command = base\<lparr>r_command := command, r_creates := [], r_only_if := [], r_unless := [],
     r_retries := 0, r_retry_delay_seconds := 0, r_retry_backoff := [], r_retry_jitter_secs := 0,
     r_until_contains := [], r_rescue_command := [], r_always_command := []\<rparr>"

text \<open>The message, whether the hook changed anything, its error, and the machine afterwards.\<close>

definition runCommandHook :: "exec_env \<Rightarrow> machine \<Rightarrow> step \<Rightarrow> transport \<Rightarrow> resource \<Rightarrow> string \<Rightarrow> string
    \<Rightarrow> (string \<times> bool \<times> string option) \<times> machine" where
  "runCommandHook env m s handler base hookName command =
     (let command = TrimSpace command
      in if command = [] then (([], False, None), m)
         else case prepareResourceForExecution (st_host s) (hook_resource base command) of
           Inl e \<Rightarrow> ((hookName @ '': '' @ e, False, Some e), m)
         | Inr (prepared, audit) \<Rightarrow>
             (case handler m s prepared of
                ((changed, _, msg, execErr), m1) \<Rightarrow>
                  let msg = appendAuditMessage (appendAuditMessage msg (hookName @ '' hook'')) audit
                  in case maybeRecordSession env m1 s prepared msg execErr of
                       (rec, m2) \<Rightarrow>
                         let msg = add_record rec msg
                         in case execErr of
                              None \<Rightarrow> ((msg, changed, None), m2)
                            | Some e \<Rightarrow> ((if TrimSpace msg = [] then e else msg, changed, Some e), m2)))"

definition rescue_phase :: "exec_env \<Rightarrow> step \<Rightarrow> transport \<Rightarrow> (resource_run \<times> string option) \<times> machine
    \<Rightarrow> (resource_run \<times> string option) \<times> machine" where
  "rescue_phase env s handler st =
     (case st of ((res, err), m) \<Rightarrow>
        let r = st_resource s
        in case err of
             None \<Rightarrow> ((res, None), m)
           | Some e \<Rightarrow>
               if TrimSpace (r_rescue_command r) = [] then ((res, Some e), m)
               else case runCommandHook env m s handler r ''rescue'' (r_rescue_command r) of
                 ((hookMsg, hookChanged, hookErr), m') \<Rightarrow>
                   let res = res\<lparr>rr_message := appendAuditMessage (rr_message res) hookMsg,
                                 rr_changed := rr_changed res \<or> hookChanged\<rparr>
                   in case hookErr of
                        None \<Rightarrow> ((res\<lparr>rr_skipped := False\<rparr>, None), m')
                      | Some he \<Rightarrow> ((res, Some (e @ ''; rescue hook failed: '' @ he)), m'))"

definition always_phase :: "exec_env \<Rightarrow> step \<Rightarrow> transport \<Rightarrow> (resource_run \<times> string option) \<times> machine
    \<Rightarrow> (resource_run \<times> string option) \<times> machine" where
  "always_phase env s handler st =
     (case st of ((res, err), m) \<Rightarrow>
        let r = st_resource s
        in if TrimSpace (r_always_command r) = [] then ((res, err), m)
           else case runCommandHook env m s handler r ''always'' (r_always_command r) of
             ((hookMsg, hookChanged, hookErr), m') \<Rightarrow>
               let res = res\<lparr>rr_message := appendAuditMessage (rr_message res) hookMsg,
                             rr_changed := rr_changed res \<or> hookChanged\<rparr>
               in case hookErr of
                    None \<Rightarrow> ((res, err), m')
                  | Some he \<Rightarrow>
                      ((res, Some (case err of
                          Some e \<Rightarrow> e @ ''; always hook failed: '' @ he
                        | None \<Rightarrow> ''always hook failed: '' @ he)), m'))"

definition main_phase :: "exec_env \<Rightarrow> machine \<Rightarrow> step \<Rightarrow> transport \<Rightarrow> resource \<Rightarrow> string
    \<Rightarrow> (resource_run \<times> string option) \<times> machine" where
  "main_phase env m s handler prepared audit =
     (case handler m s prepared of
        ((changed, skipped, msg, err), m1) \<Rightarrow>
          (case maybeRecordSession env m1 s prepared msg err of
             (rec, m2) \<Rightarrow>
               (((run_for (st_resource s))\<lparr>rr_changed := changed, rr_skipped := skipped,
                   rr_message := add_record rec (appendAuditMessage msg audit)\<rparr>, err), m2)))"

definition close_attempt :: "(resource_run \<times> string option) \<times> machine \<Rightarrow> (resource_run \<times> bool) \<times> machine" where
  "close_attempt st =
     (case st of
        ((res, None), m) \<Rightarrow> ((res, False), m)
      | ((res, Some e), m) \<Rightarrow>
          ((if TrimSpace (rr_message res) = [] then res\<lparr>rr_message := e\<rparr> else res, True), m))"

definition executeSingleStep :: "exec_env \<Rightarrow> machine \<Rightarrow> step \<Rightarrow> (resource_run \<times> bool) \<times> machine" where
  "executeSingleStep env m s =
     (let r = st_resource s
      in if r_type r = ''registry'' \<or> r_type r = ''scheduled_task'' then executeWindowsShimResource env m s r
         else case (if r_type r = ''file'' then validateManagedFileIntegrity env r else None) of
           Some e \<Rightarrow> (((run_for r)\<lparr>rr_message := ''file integrity validation failed: '' @ e\<rparr>, True), m)
         | None \<Rightarrow>
             (case mget (ev_handlers env) (lower_trim (h_transport (st_host s))) of
                None \<Rightarrow> (((run_for r)\<lparr>rr_message := ''unsupported transport: '' @ h_transport (st_host s)\<rparr>, True), m)
              | Some handler \<Rightarrow>
                  (case prepareResourceForExecution (st_host s) r of
                     Inl e \<Rightarrow> (((run_for r)\<lparr>rr_message := e\<rparr>, True), m)
                   | Inr (prepared, audit) \<Rightarrow>
                       close_attempt (always_phase env s handler (rescue_phase env s handler
                         (main_phase env m s handler prepared audit))))))"

section \<open>Backups of overwritten files\<close>

record filebucket =
  fb_path :: string
  fb_content :: string
  fb_checksum :: string

text \<open>\<open>None\<close> is the snapshot that is not eligible.\<close>

definition captureFilebucketSnapshot :: "exec_env \<Rightarrow> machine \<Rightarrow> step \<Rightarrow> filebucket option" where
  "captureFilebucketSnapshot env m s =
     (let r = st_resource s
      in if r_type r \<noteq> ''file'' \<or> TrimSpace (r_path r) = [] \<or> TrimSpace (ev_base_dir env) = [] then None
         else if shim_transport (st_host s) \<noteq> ''local'' then None
         else
           let full = filepath_Clean (r_path r)
           in case os_ReadFile m full of
                Inl _ \<Rightarrow> None
              | Inr current \<Rightarrow>
                  if current = r_content r then None
                  else Some \<lparr>fb_path = full, fb_content = current, fb_checksum = ''sha256:'' @ ev_sha256_hex env current\<rparr>)"

definition bucket_dir :: "exec_env \<Rightarrow> string" where
  "bucket_dir env = filepath_Join [ev_base_dir env, ''.masterchef'', ''filebucket'']"

definition object_path :: "exec_env \<Rightarrow> string \<Rightarrow> string" where
  "object_path env checksum =
     filepath_Join [filepath_Join [bucket_dir env, ''objects''], ReplaceAll1 checksum (CHR '':'') ''-'']"

definition store_object :: "exec_env \<Rightarrow> machine \<Rightarrow> filebucket \<Rightarrow> machine result" where
  "store_object env m fb =
     (let p = object_path env (fb_checksum fb)
      in if os_exists m p then Inr m else os_WriteFile m p (fb_content fb))"

text \<open>Opening a file for appending and writing to it, as one operation.\<close>

definition os_AppendFile :: "machine \<Rightarrow> string \<Rightarrow> string \<Rightarrow> machine result" where
  "os_AppendFile m p c = os_WriteFile m p (mget_or [] (m_files m) p @ c)"

definition persistFilebucketBackup :: "exec_env \<Rightarrow> machine \<Rightarrow> step \<Rightarrow> filebucket \<Rightarrow> string result \<times> machine" where
  "persistFilebucketBackup env m s fb =
     (case os_MkdirAll m (filepath_Join [bucket_dir env, ''objects'']) of
        Inl e \<Rightarrow> (Inl (''create objects dir: '' @ e), m)
      | Inr _ \<Rightarrow>
          (case store_object env m fb of
             Inl e \<Rightarrow> (Inl (''write object: '' @ e), m)
           | Inr m1 \<Rightarrow>
               let line = ev_bucket_json env \<lparr>be_time = ev_now env m1, be_resource = r_id (st_resource s),
                     be_host = r_host (st_resource s), be_path = fb_path fb, be_checksum = fb_checksum fb,
                     be_size = int (length (fb_content fb))\<rparr>
               in case os_AppendFile m1 (filepath_Join [bucket_dir env, ''history.ndjson'']) (line @ nl) of
                    Inl e \<Rightarrow> (Inl (''open history: '' @ e), m1)
                  | Inr m2 \<Rightarrow> (Inr (''filebucket backup: '' @ fb_checksum fb), m2)))"

section \<open>Attempts\<close>

definition until_check :: "string \<Rightarrow> resource_run \<times> bool \<Rightarrow> resource_run \<times> bool" where
  "until_check untilContains rf =
     (case rf of (lst, failed) \<Rightarrow>
        if \<not> failed \<and> untilContains \<noteq> [] \<and> \<not> Contains (rr_message lst) untilContains
        then (lst\<lparr>rr_message :=
                (if TrimSpace (rr_message lst) = [] then ''until_contains condition not met: '' @ untilContains
                 else TrimSpace (rr_message lst) @ ''; until_contains condition not met: '' @ untilContains)\<rparr>, True)
        else (lst, failed))"

definition backup_phase :: "exec_env \<Rightarrow> machine \<Rightarrow> step \<Rightarrow> filebucket option \<Rightarrow> resource_run \<Rightarrow> resource_run \<times> machine" where
  "backup_phase env m s fb lst =
     (case fb of
        None \<Rightarrow> (lst, m)
      | Some b \<Rightarrow>
          if rr_skipped lst \<or> \<not> rr_changed lst then (lst, m)
          else case persistFilebucketBackup env m s b of
            (Inl e, m') \<Rightarrow> (lst\<lparr>rr_message := appendAuditMessage (rr_message lst) (''filebucket backup failed: '' @ e)\<rparr>, m')
          | (Inr msg, m') \<Rightarrow> (lst\<lparr>rr_message := appendAuditMessage (rr_message lst) msg\<rparr>, m'))"

definition attempts_of :: "resource \<Rightarrow> int" where
  "attempts_of r = (if r_retries r > 0 then wrap64 (r_retries r + 1) else 1)"

definition delay_after :: "resource \<Rightarrow> int \<Rightarrow> duration" where
  "delay_after r attempt =
     wrap64 (retryDelayForAttempt (seconds (r_retry_delay_seconds r)) attempt (normalizeRetryBackoff (r_retry_backoff r))
       + retryJitterForAttempt (r_id r) attempt (seconds (r_retry_jitter_secs r)))"

definition pause_after :: "resource \<Rightarrow> int \<Rightarrow> int \<Rightarrow> machine \<Rightarrow> machine" where
  "pause_after r attempt attempts m =
     (if attempt < attempts \<and> delay_after r attempt > 0 then time_Sleep (delay_after r attempt) m else m)"

function attempt_loop :: "exec_env \<Rightarrow> step \<Rightarrow> filebucket option \<Rightarrow> int \<Rightarrow> int \<Rightarrow> resource_run \<Rightarrow> machine
    \<Rightarrow> (resource_run \<times> bool) \<times> machine" where
  "attempt_loop env s fb attempts attempt lst m =
     (if attempt > attempts
      then ((if attempts > 1
             then lst\<lparr>rr_message := TrimSpace (rr_message lst @ '' (failed after '' @ strconv_Itoa attempts @ '' attempts)'')\<rparr>
             else lst, True), m)
      else case executeSingleStep env m s of
        (rf, m1) \<Rightarrow>
          (case until_check (TrimSpace (r_until_contains (st_resource s))) rf of
             (lst, False) \<Rightarrow>
               (case backup_phase env m1 s fb lst of
                  (lst, m2) \<Rightarrow>
                    ((if attempt > 1
                      then lst\<lparr>rr_message := TrimSpace (rr_message lst @ '' (succeeded after '' @ strconv_Itoa attempt @ '' attempts)'')\<rparr>
                      else lst, False), m2))
           | (lst, True) \<Rightarrow>
               attempt_loop env s fb attempts (attempt + 1) lst (pause_after (st_resource s) attempt attempts m1)))"
  by pat_completeness auto
termination
  by (relation "measure (\<lambda>(_, _, _, attempts, attempt, _, _). nat (attempts + 1 - attempt))") auto

declare attempt_loop.simps [simp del]

definition executeStep :: "exec_env \<Rightarrow> machine \<Rightarrow> step \<Rightarrow> (resource_run \<times> bool) \<times> machine" where
  "executeStep env m s =
     attempt_loop env s (captureFilebucketSnapshot env m s) (attempts_of (st_resource s)) 1 zero_run m"

section \<open>Refreshes\<close>

definition addSource :: "string \<Rightarrow> string \<Rightarrow> string list gomap \<Rightarrow> string list gomap" where
  "addSource target source index =
     (let target = TrimSpace target; source = TrimSpace source
      in if target = [] \<or> source = [] \<or> source \<in> set (mget_or [] index target) then index
         else mput target (mget_or [] index target @ [source]) index)"

definition step_sources :: "step \<Rightarrow> string list gomap \<Rightarrow> string list gomap" where
  "step_sources s index =
     (let r = st_resource s
      in fold (\<lambda>source. addSource (r_id r) source) (r_subscribe r)
           (fold (\<lambda>target. addSource target (r_id r)) (r_notify r) index))"

definition buildRefreshSourceIndex :: "step list \<Rightarrow> string list gomap" where
  "buildRefreshSourceIndex steps = map (\<lambda>(t, ss). (t, sort ss)) (fold step_sources steps [])"

definition refreshTriggeredSources :: "resource \<Rightarrow> string list gomap \<Rightarrow> bool gomap \<Rightarrow> string list" where
  "refreshTriggeredSources r index changed = filter (mget_or False changed) (mget_or [] index (r_id r))"

section \<open>Applying a plan\<close>

datatype run_status = RunSucceeded | RunFailed

record run_record =
  run_id :: string
  run_started :: gotime
  run_ended :: gotime
  run_status_of :: run_status
  run_results :: "resource_run list"

record apply_state =
  as_machine :: machine
  as_results :: "resource_run list"
  as_changed :: "bool gomap"
  as_notified :: "string list"
  as_failed :: int
  as_executed :: int
  as_status :: run_status

definition shouldStop :: "execution \<Rightarrow> string \<Rightarrow> apply_state \<Rightarrow> bool" where
  "shouldStop policy strategy a \<longleftrightarrow>
     as_failed a \<noteq> 0 \<and>
     (ex_any_errors_fatal policy \<or> strategy = ''linear'' \<or> strategy = ''serial'' \<or>
      (ex_max_fail_percentage policy > 0 \<and> as_executed a > 0 \<and>
       go_div (as_failed a * 100) (as_executed a) > ex_max_fail_percentage policy))"

text \<open>The set of notified handlers, as a list without repetitions.\<close>

definition notify_handler :: "string \<Rightarrow> string list \<Rightarrow> string list" where
  "notify_handler h hs = (let h = TrimSpace h in if h = [] \<or> h \<in> set hs then hs else hs @ [h])"

definition refreshed :: "string list \<Rightarrow> step \<Rightarrow> step" where
  "refreshed triggered s =
     (let r = st_resource s
      in if triggered \<noteq> [] \<and> r_type r = ''command'' \<and> TrimSpace (r_refresh_command r) \<noteq> []
         then s\<lparr>st_resource := r\<lparr>r_command := TrimSpace (r_refresh_command r), r_creates := [], r_only_if := [], r_unless := []\<rparr>\<rparr>
         else s)"

definition skip_refresh :: "resource \<Rightarrow> apply_state \<Rightarrow> apply_state" where
  "skip_refresh r a = a\<lparr>as_results := as_results a @ [(run_for r)\<lparr>rr_skipped := True, rr_message := ''refresh-only resource not triggered''\<rparr>],
     as_changed := mput (r_id r) False (as_changed a), as_executed := as_executed a + 1\<rparr>"

definition run_step :: "exec_env \<Rightarrow> string list \<Rightarrow> step \<Rightarrow> apply_state \<Rightarrow> bool \<times> apply_state" where
  "run_step env triggered s a =
     (case executeStep env (as_machine a) (refreshed triggered s) of
        ((res, failed), m) \<Rightarrow>
          let res = (if triggered \<noteq> []
                     then res\<lparr>rr_message := appendAuditMessage (rr_message res) (''refresh triggered by: '' @ Join triggered '', '')\<rparr>
                     else res);
              r = st_resource s;
              a = a\<lparr>as_machine := m, as_results := as_results a @ [res],
                    as_changed := mput (r_id r) (rr_changed res) (as_changed a),
                    as_notified := (if rr_changed res \<and> \<not> rr_skipped res
                                    then fold notify_handler (r_notify_handlers r) (as_notified a) else as_notified a),
                    as_executed := as_executed a + 1\<rparr>
          in if failed then (True, a\<lparr>as_failed := as_failed a + 1, as_status := RunFailed\<rparr>) else (False, a))"

fun apply_loop :: "exec_env \<Rightarrow> execution \<Rightarrow> string \<Rightarrow> string list gomap \<Rightarrow> step list \<Rightarrow> apply_state \<Rightarrow> apply_state" where
  "apply_loop env policy strategy sources [] a = a"
| "apply_loop env policy strategy sources (s # ss) a =
     (let triggered = refreshTriggeredSources (st_resource s) sources (as_changed a)
      in if r_refresh_only (st_resource s) \<and> triggered = []
         then apply_loop env policy strategy sources ss (skip_refresh (st_resource s) a)
         else case run_step env triggered s a of
           (failed, a') \<Rightarrow>
             if failed \<and> shouldStop policy strategy a' then a' else apply_loop env policy strategy sources ss a')"

fun handler_loop :: "exec_env \<Rightarrow> step gomap \<Rightarrow> string list \<Rightarrow> apply_state \<Rightarrow> apply_state" where
  "handler_loop env handlers [] a = a"
| "handler_loop env handlers (i # rest) a =
     (case mget handlers i of
        None \<Rightarrow> a\<lparr>as_status := RunFailed,
          as_results := as_results a @ [zero_run\<lparr>rr_id := i, rr_type := ''handler'', rr_message := ''notified handler not found in plan''\<rparr>]\<rparr>
      | Some s \<Rightarrow>
          (case executeStep env (as_machine a) s of
             ((res, failed), m) \<Rightarrow>
               let a = a\<lparr>as_machine := m, as_results := as_results a @ [res\<lparr>rr_message := appendAuditMessage (rr_message res) ''handler executed''\<rparr>]\<rparr>
               in if failed then a\<lparr>as_status := RunFailed\<rparr> else handler_loop env handlers rest a))"

definition strategy_of :: "execution \<Rightarrow> string" where
  "strategy_of policy = (let s = lower_trim (ex_strategy policy) in if s = [] then ''linear'' else s)"

definition apply_steps :: "plan \<Rightarrow> step list" where
  "apply_steps p =
     (if strategy_of (pl_execution p) = ''serial''
      then serialOrderedSteps (pl_steps p) (ex_serial (pl_execution p)) (ex_failure_domain (pl_execution p))
      else pl_steps p)"

definition start_state :: "machine \<Rightarrow> apply_state" where
  "start_state m = \<lparr>as_machine = m, as_results = [], as_changed = [], as_notified = [], as_failed = 0, as_executed = 0,
     as_status = RunSucceeded\<rparr>"

definition main_run :: "exec_env \<Rightarrow> plan \<Rightarrow> machine \<Rightarrow> apply_state" where
  "main_run env p m =
     apply_loop env (pl_execution p) (strategy_of (pl_execution p)) (buildRefreshSourceIndex (apply_steps p)) (apply_steps p) (start_state m)"

definition Apply :: "exec_env \<Rightarrow> plan \<Rightarrow> machine \<Rightarrow> run_record \<times> machine" where
  "Apply env p m =
     (let a = main_run env p m;
          a = (if as_status a = RunSucceeded \<and> as_notified a \<noteq> []
               then handler_loop env (pl_handlers p) (sort (as_notified a)) a else a)
      in (\<lparr>run_id = nano_stamp (ev_now env m), run_started = ev_now env m, run_ended = ev_now env (as_machine a),
           run_status_of = as_status a, run_results = as_results a\<rparr>, as_machine a))"

section \<open>The retry loop\<close>

definition attempt_result :: "exec_env \<Rightarrow> step \<Rightarrow> machine \<Rightarrow> resource_run \<times> bool" where
  "attempt_result env s m = until_check (TrimSpace (r_until_contains (st_resource s))) (fst (executeSingleStep env m s))"

definition attempt_fails :: "exec_env \<Rightarrow> step \<Rightarrow> machine \<Rightarrow> bool" where
  "attempt_fails env s m \<longleftrightarrow> snd (attempt_result env s m)"

text \<open>The machine before attempt number \<open>k + 1\<close>, when the attempts before it all failed.\<close>

primrec before_attempt :: "exec_env \<Rightarrow> step \<Rightarrow> machine \<Rightarrow> nat \<Rightarrow> machine" where
  "before_attempt env s m 0 = m"
| "before_attempt env s m (Suc k) =
     pause_after (st_resource s) (int k + 1) (attempts_of (st_resource s))
       (snd (executeSingleStep env (before_attempt env s m k) s))"

text \<open>What the step reports when attempt number \<open>k + 1\<close> on machine \<open>mk\<close> is the first success.\<close>

definition success_at :: "exec_env \<Rightarrow> step \<Rightarrow> filebucket option \<Rightarrow> nat \<Rightarrow> machine \<Rightarrow> (resource_run \<times> bool) \<times> machine" where
  "success_at env s fb k mk =
     (let (lst, m2) = backup_phase env (snd (executeSingleStep env mk s)) s fb (fst (attempt_result env s mk))
      in ((if k > 0 then lst\<lparr>rr_message := TrimSpace (rr_message lst @ '' (succeeded after '' @ strconv_Itoa (int k + 1) @ '' attempts)'')\<rparr>
           else lst, False), m2))"

lemma attempt_loop_step:
  assumes "int k < n" and "n = attempts_of (st_resource s)"
  shows "attempt_loop env s fb n (int k + 1) l (before_attempt env s m k) =
    (if attempt_fails env s (before_attempt env s m k)
     then attempt_loop env s fb n (int (Suc k) + 1) (fst (attempt_result env s (before_attempt env s m k))) (before_attempt env s m (Suc k))
     else success_at env s fb k (before_attempt env s m k))"
  using assms
  by (subst attempt_loop.simps)
    (auto simp: attempt_fails_def attempt_result_def success_at_def add.commute split: prod.splits bool.splits)

lemma attempt_loop_failing:
  assumes "int k \<le> n" and "n = attempts_of (st_resource s)"
    and "\<forall>j < k. attempt_fails env s (before_attempt env s m j)"
  shows "\<exists>l'. attempt_loop env s fb n 1 l m = attempt_loop env s fb n (int k + 1) l' (before_attempt env s m k)"
  using assms
proof (induction k)
  case 0
  then show ?case by auto
next
  case (Suc k)
  from Suc obtain l' where l': "attempt_loop env s fb n 1 l m = attempt_loop env s fb n (int k + 1) l' (before_attempt env s m k)"
    by auto
  have "int k < n" using Suc.prems(1) by simp
  moreover have "attempt_fails env s (before_attempt env s m k)" using Suc.prems(3) by blast
  ultimately show ?case using l' attempt_loop_step [OF _ Suc.prems(2)] by metis
qed

lemma attempt_loop_exhausted: "snd (fst (attempt_loop env s fb n (n + 1) l m))"
  by (subst attempt_loop.simps) simp

lemma success_at_ok [simp]: "\<not> snd (fst (success_at env s fb k mk))"
  by (simp add: success_at_def split: prod.splits)

lemma executeStep_succeeds:
  assumes "int k < attempts_of (st_resource s)" and "\<not> attempt_fails env s (before_attempt env s m k)"
    and "\<forall>j < k. attempt_fails env s (before_attempt env s m j)"
  shows "executeStep env m s = success_at env s (captureFilebucketSnapshot env m s) k (before_attempt env s m k)"
  using attempt_loop_failing [of k "attempts_of (st_resource s)" s env m] assms
    attempt_loop_step [OF assms(1) refl] unfolding executeStep_def by (metis less_imp_le)

lemma executeStep_exhausts:
  assumes "0 \<le> attempts_of (st_resource s)"
    and "\<forall>j < nat (attempts_of (st_resource s)). attempt_fails env s (before_attempt env s m j)"
  shows "snd (fst (executeStep env m s))"
  using attempt_loop_failing [of "nat (attempts_of (st_resource s))" "attempts_of (st_resource s)" s env m] assms
    attempt_loop_exhausted unfolding executeStep_def by (metis int_nat_eq order_refl)

lemma attempts_of_bounded: "r_retries r < 2 ^ 63 - 1 \<Longrightarrow> attempts_of r = max 0 (r_retries r) + 1"
  by (simp add: attempts_of_def wrap64_id)

text \<open>C9: the retry loop makes at most \<^verbatim>\<open>retries + 1\<close> attempts and returns on every input. The
  step fails exactly when each of these attempts fails (the transport or a hook reports an error, or
  the output lacks \<^verbatim>\<open>until_contains\<close>), each on the machine that the attempt before it and its pause
  left; otherwise the outcome is that of the first attempt that succeeds, followed by the backup of the
  file that it replaced, and no later attempt touches the machine.\<close>

theorem executeStep_first_success:
  assumes "r_retries (st_resource s) < 2 ^ 63 - 1"
  defines "n \<equiv> nat (max 0 (r_retries (st_resource s))) + 1"
  shows "(snd (fst (executeStep env m s)) \<longleftrightarrow> (\<forall>k < n. attempt_fails env s (before_attempt env s m k))) \<and>
    (\<forall>k < n. \<not> attempt_fails env s (before_attempt env s m k) \<and> (\<forall>j < k. attempt_fails env s (before_attempt env s m j)) \<longrightarrow>
       executeStep env m s = success_at env s (captureFilebucketSnapshot env m s) k (before_attempt env s m k))"
proof -
  have n: "attempts_of (st_resource s) = int n" using attempts_of_bounded [OF assms(1)] by (simp add: n_def)
  have first: "executeStep env m s = success_at env s (captureFilebucketSnapshot env m s) k (before_attempt env s m k)"
    if "k < n" "\<not> attempt_fails env s (before_attempt env s m k)" "\<forall>j < k. attempt_fails env s (before_attempt env s m j)" for k
    using that n by (intro executeStep_succeeds) simp_all
  have "snd (fst (executeStep env m s)) \<longleftrightarrow> (\<forall>k < n. attempt_fails env s (before_attempt env s m k))"
  proof (cases "\<forall>k < n. attempt_fails env s (before_attempt env s m k)")
    case False
    then obtain k where k: "k < n" "\<not> attempt_fails env s (before_attempt env s m k)"
      "\<forall>j < k. \<not> (j < n \<and> \<not> attempt_fails env s (before_attempt env s m j))"
      using exists_least_iff [of "\<lambda>k. k < n \<and> \<not> attempt_fails env s (before_attempt env s m k)"] by blast
    then have "\<forall>j < k. attempt_fails env s (before_attempt env s m j)" by (meson less_trans)
    then have "executeStep env m s = success_at env s (captureFilebucketSnapshot env m s) k (before_attempt env s m k)"
      by (rule first [OF k(1,2)])
    then show ?thesis using False by simp
  next
    case True
    then show ?thesis using executeStep_exhausts [of s env m] unfolding n nat_int by simp
  qed
  with first show ?thesis by blast
qed

text \<open>A shell that echoes, remote ends that cannot be reached, and identity encodings.\<close>

definition demo_env :: exec_env where
  "demo_env = new_env \<lparr>ev_base_dir = [], ev_registry = [], ev_handlers = [], ev_now = (\<lambda>m. 0),
     ev_ssh = (\<lambda>m a. (([], Some ''unreachable''), m)), ev_pwsh = (\<lambda>m a. (([], Some ''unreachable''), m)),
     ev_sha256_hex = (\<lambda>s. s), ev_base64 = Inr, ev_verify = (\<lambda>k msg sg. True), ev_session_json = se_resource,
     ev_bucket_json = be_path, ev_shim_decode = (\<lambda>s. []), ev_shim_encode = (\<lambda>s. [])\<rparr> [] (builtin_registry echo_shell)"

definition waiting_step :: step where
  "waiting_step = \<lparr>st_order = 1, st_host = zero_host\<lparr>h_name := ''web'', h_transport := ''local''\<rparr>,
     st_resource = pkg_res\<lparr>r_retries := 1, r_until_contains := ''ready''\<rparr>\<rparr>"

theorem executeStep_first_success_witness:
  "snd (fst (executeStep demo_env empty_machine waiting_step)) \<and>
   executeStep demo_env empty_machine (waiting_step\<lparr>st_resource := pkg_res\<rparr>) =
     success_at demo_env (waiting_step\<lparr>st_resource := pkg_res\<rparr>) None 0 empty_machine"
proof -
  have "r_retries (st_resource waiting_step) = 1" "r_retries (st_resource (waiting_step\<lparr>st_resource := pkg_res\<rparr>)) = 0" by code_simp+
  moreover have "attempt_fails demo_env waiting_step (before_attempt demo_env waiting_step empty_machine 0)"
    "attempt_fails demo_env waiting_step (before_attempt demo_env waiting_step empty_machine 1)"
    "\<not> attempt_fails demo_env (waiting_step\<lparr>st_resource := pkg_res\<rparr>) empty_machine" by code_simp+
  moreover have "captureFilebucketSnapshot demo_env empty_machine (waiting_step\<lparr>st_resource := pkg_res\<rparr>) = None" by code_simp
  ultimately show ?thesis
    using executeStep_first_success [of waiting_step demo_env empty_machine]
      executeStep_first_success [of "waiting_step\<lparr>st_resource := pkg_res\<rparr>" demo_env empty_machine]
    by (simp add: less_Suc_eq)
qed

section \<open>The main loop\<close>

text \<open>One iteration, and the loop with its early exit removed, which is the reference for it.\<close>

definition triggers :: "string list gomap \<Rightarrow> step \<Rightarrow> apply_state \<Rightarrow> string list" where
  "triggers sources s a = refreshTriggeredSources (st_resource s) sources (as_changed a)"

definition one_step :: "exec_env \<Rightarrow> string list gomap \<Rightarrow> step \<Rightarrow> apply_state \<Rightarrow> bool \<times> apply_state" where
  "one_step env sources s a =
     (if r_refresh_only (st_resource s) \<and> triggers sources s a = []
      then (False, skip_refresh (st_resource s) a) else run_step env (triggers sources s a) s a)"

definition walk :: "exec_env \<Rightarrow> string list gomap \<Rightarrow> step list \<Rightarrow> apply_state \<Rightarrow> apply_state" where
  "walk env sources = fold (\<lambda>s a. snd (one_step env sources s a))"

lemma apply_loop_Cons:
  "apply_loop env policy strategy sources (s # ss) a =
     (case one_step env sources s a of (failed, a') \<Rightarrow>
        if failed \<and> shouldStop policy strategy a' then a' else apply_loop env policy strategy sources ss a')"
  by (simp add: one_step_def triggers_def Let_def)

lemma walk_simps [simp]:
  "walk env sources [] a = a"
  "walk env sources (s # ss) a = walk env sources ss (snd (one_step env sources s a))"
  "walk env sources (ss @ [s]) a = snd (one_step env sources s (walk env sources ss a))"
  by (simp_all add: walk_def)

definition stops :: "exec_env \<Rightarrow> execution \<Rightarrow> string \<Rightarrow> string list gomap \<Rightarrow> step \<Rightarrow> apply_state \<Rightarrow> bool" where
  "stops env policy strategy sources s a \<longleftrightarrow>
     (case one_step env sources s a of (failed, a') \<Rightarrow> failed \<and> shouldStop policy strategy a')"

lemma apply_loop_walk:
  "\<exists>k \<le> length ss. apply_loop env policy strategy sources ss a = walk env sources (take k ss) a \<and>
     (\<forall>j < k - 1. \<not> stops env policy strategy sources (ss ! j) (walk env sources (take j ss) a)) \<and>
     (if 0 < k \<and> stops env policy strategy sources (ss ! (k - 1)) (walk env sources (take (k - 1) ss) a) then True else k = length ss)"
proof (induction ss arbitrary: a)
  case (Cons s ss)
  obtain f a' where o: "one_step env sources s a = (f, a')" by fastforce
  show ?case
  proof (cases "f \<and> shouldStop policy strategy a'")
    case True
    then show ?thesis using o by (intro exI [of _ 1]) (simp add: apply_loop_Cons stops_def del: apply_loop.simps)
  next
    case False
    from Cons obtain k where k: "k \<le> length ss" "apply_loop env policy strategy sources ss a' = walk env sources (take k ss) a'"
      "\<forall>j < k - 1. \<not> stops env policy strategy sources (ss ! j) (walk env sources (take j ss) a')"
      "if 0 < k \<and> stops env policy strategy sources (ss ! (k - 1)) (walk env sources (take (k - 1) ss) a') then True else k = length ss"
      by blast
    have st: "\<not> stops env policy strategy sources s a" using False o by (simp add: stops_def)
    have "\<not> stops env policy strategy sources ((s # ss) ! j) (walk env sources (take j (s # ss)) a)" if "j < k" for j
      using that k(3) st o by (cases j) auto
    moreover have "apply_loop env policy strategy sources (s # ss) a = walk env sources (take (Suc k) (s # ss)) a"
      using False o k(2) by (auto simp: apply_loop_Cons simp del: apply_loop.simps)
    moreover have "if stops env policy strategy sources ((s # ss) ! k) (walk env sources (take k (s # ss)) a) then True else Suc k = length (s # ss)"
      using k(1,4) st o by (cases k) auto
    ultimately show ?thesis using k(1) by (intro exI [of _ "Suc k"]) simp
  qed
qed simp

text \<open>What one iteration appends to the results and how it moves the counters.\<close>

definition advances :: "step \<Rightarrow> apply_state \<Rightarrow> bool \<Rightarrow> apply_state \<Rightarrow> resource_run \<Rightarrow> bool" where
  "advances s a failed a' res \<longleftrightarrow>
     as_results a' = as_results a @ [res] \<and>
     as_changed a' = mput (r_id (st_resource s)) (rr_changed res) (as_changed a) \<and>
     as_notified a' = (if rr_changed res \<and> \<not> rr_skipped res
                       then fold notify_handler (r_notify_handlers (st_resource s)) (as_notified a) else as_notified a) \<and>
     as_executed a' = as_executed a + 1 \<and> as_failed a' = as_failed a + (if failed then 1 else 0) \<and>
     as_status a' = (if failed then RunFailed else as_status a)"

lemma run_step_advances: "\<exists>res. advances s a (fst (run_step env t s a)) (snd (run_step env t s a)) res"
proof -
  obtain res failed m where e: "executeStep env (as_machine a) (refreshed t s) = ((res, failed), m)"
    by (metis surj_pair)
  let ?res = "if t \<noteq> [] then res\<lparr>rr_message := appendAuditMessage (rr_message res) (''refresh triggered by: '' @ Join t '', '')\<rparr> else res"
  have "advances s a (fst (run_step env t s a)) (snd (run_step env t s a)) ?res"
    by (simp add: run_step_def e Let_def advances_def)
  then show ?thesis by (rule exI)
qed

lemma skip_refresh_advances: "\<exists>res. advances s a False (skip_refresh (st_resource s) a) res"
  by (rule exI [of _ "(run_for (st_resource s))\<lparr>rr_skipped := True, rr_message := ''refresh-only resource not triggered''\<rparr>"])
    (simp add: skip_refresh_def advances_def run_for_def zero_run_def)

lemma one_step_advances:
  assumes "one_step env sources s a = (failed, a')"
  obtains res where "advances s a failed a' res"
  using assms run_step_advances [of s a env "triggers sources s a"] skip_refresh_advances [of s a]
  unfolding one_step_def by (metis fst_conv snd_conv)

lemma start_state_simps [simp]:
  "as_results (start_state m) = []" "as_changed (start_state m) = []" "as_notified (start_state m) = []"
  "as_failed (start_state m) = 0" "as_executed (start_state m) = 0" "as_status (start_state m) = RunSucceeded"
  "as_machine (start_state m) = m"
  by (simp_all add: start_state_def)

abbreviation walk0 :: "exec_env \<Rightarrow> string list gomap \<Rightarrow> machine \<Rightarrow> step list \<Rightarrow> apply_state" where
  "walk0 env sources m ss \<equiv> walk env sources ss (start_state m)"

lemma walk_counts:
  "length (as_results (walk0 env sources m ss)) = length ss \<and>
   as_executed (walk0 env sources m ss) = int (length ss) \<and>
   0 \<le> as_failed (walk0 env sources m ss) \<and> as_failed (walk0 env sources m ss) \<le> int (length ss) \<and>
   (as_status (walk0 env sources m ss) = RunSucceeded \<longleftrightarrow> as_failed (walk0 env sources m ss) = 0)"
proof (induction ss rule: rev_induct)
  case (snoc s ss)
  obtain f a' where o: "one_step env sources s (walk0 env sources m ss) = (f, a')" by fastforce
  from one_step_advances [OF o] obtain res where "advances s (walk0 env sources m ss) f a' res" .
  then show ?case using snoc o by (auto simp: advances_def)
qed simp

lemma walk_results_prefix:
  "j \<le> length ss \<Longrightarrow> as_results (walk0 env sources m (take j ss)) = take j (as_results (walk0 env sources m ss))"
proof (induction ss rule: rev_induct)
  case (snoc s ss)
  obtain f a' where o: "one_step env sources s (walk0 env sources m ss) = (f, a')" by fastforce
  from one_step_advances [OF o] obtain res where "as_results a' = as_results (walk0 env sources m ss) @ [res]"
    by (auto simp: advances_def)
  moreover have "length (as_results (walk0 env sources m ss)) = length ss" using walk_counts by blast
  ultimately show ?case using snoc o by (cases "j = Suc (length ss)") (simp_all add: le_Suc_eq)
qed simp

definition plan_sources :: "plan \<Rightarrow> string list gomap" where
  "plan_sources p = buildRefreshSourceIndex (apply_steps p)"

text \<open>The state after the first \<open>j\<close> steps of a plan, whatever failed among them.\<close>

definition state_after :: "exec_env \<Rightarrow> plan \<Rightarrow> machine \<Rightarrow> nat \<Rightarrow> apply_state" where
  "state_after env p m j = walk0 env (plan_sources p) m (take j (apply_steps p))"

definition halts_at :: "exec_env \<Rightarrow> plan \<Rightarrow> machine \<Rightarrow> nat \<Rightarrow> bool" where
  "halts_at env p m j \<longleftrightarrow>
     stops env (pl_execution p) (strategy_of (pl_execution p)) (plan_sources p) (apply_steps p ! j) (state_after env p m j)"

lemma main_run_walk:
  "\<exists>k \<le> length (apply_steps p). main_run env p m = state_after env p m k \<and> (\<forall>j < k - 1. \<not> halts_at env p m j) \<and>
    (if 0 < k \<and> halts_at env p m (k - 1) then True else k = length (apply_steps p))"
  unfolding main_run_def halts_at_def state_after_def plan_sources_def by (rule apply_loop_walk)

lemma state_after_0 [simp]: "state_after env p m 0 = start_state m"
  by (simp add: state_after_def)

lemma state_after_Suc:
  assumes "j < length (apply_steps p)"
  obtains failed res where
    "one_step env (plan_sources p) (apply_steps p ! j) (state_after env p m j) = (failed, state_after env p m (Suc j))"
    "advances (apply_steps p ! j) (state_after env p m j) failed (state_after env p m (Suc j)) res"
proof -
  obtain f a' where o: "one_step env (plan_sources p) (apply_steps p ! j) (state_after env p m j) = (f, a')" by (metis surj_pair)
  moreover have "a' = state_after env p m (Suc j)"
    using o assms by (simp add: state_after_def take_Suc_conv_app_nth)
  ultimately show thesis using one_step_advances [OF o] that by blast
qed

lemma state_after_counts:
  assumes "j \<le> length (apply_steps p)"
  shows "length (as_results (state_after env p m j)) = j" "as_executed (state_after env p m j) = int j"
    "0 \<le> as_failed (state_after env p m j)" "as_failed (state_after env p m j) \<le> int j"
    "as_status (state_after env p m j) = RunSucceeded \<longleftrightarrow> as_failed (state_after env p m j) = 0"
  using walk_counts [where env = env and sources = "plan_sources p" and m = m and ss = "take j (apply_steps p)"] assms by (simp_all add: state_after_def)

lemma state_after_results:
  assumes "i \<le> j" "j \<le> length (apply_steps p)"
  shows "as_results (state_after env p m i) = take i (as_results (state_after env p m j))"
  using walk_results_prefix [where j = i and ss = "take j (apply_steps p)" and env = env and sources = "plan_sources p" and m = m] assms
  by (simp add: state_after_def min_absorb1)

lemma state_after_failed_step:
  assumes "j < length (apply_steps p)"
  shows "as_failed (state_after env p m (Suc j)) = as_failed (state_after env p m j) +
    (if fst (one_step env (plan_sources p) (apply_steps p ! j) (state_after env p m j)) then 1 else 0)"
  by (rule state_after_Suc [OF assms, of env m]) (simp add: advances_def)

lemma halts_at_iff:
  assumes "j < length (apply_steps p)"
  shows "halts_at env p m j \<longleftrightarrow> as_failed (state_after env p m (Suc j)) \<noteq> as_failed (state_after env p m j) \<and>
    shouldStop (pl_execution p) (strategy_of (pl_execution p)) (state_after env p m (Suc j))"
  by (rule state_after_Suc [OF assms, of env m]) (simp add: halts_at_def stops_def advances_def)

lemma state_after_failed_mono:
  assumes "i \<le> j" "j \<le> length (apply_steps p)"
  shows "as_failed (state_after env p m i) \<le> as_failed (state_after env p m j)"
  using assms
proof (induction j)
  case (Suc j)
  have "as_failed (state_after env p m j) \<le> as_failed (state_after env p m (Suc j))"
    using state_after_failed_step [of j p env m] Suc.prems(2) by simp
  moreover have "as_failed (state_after env p m i) \<le> as_failed (state_after env p m j)" if "i \<le> j" using Suc that by simp
  ultimately show ?case using Suc.prems(1) by (cases "i = Suc j") auto
qed simp

text \<open>C6: with the linear and the serial strategy, and with \<^verbatim>\<open>any_errors_fatal\<close>, a run is a prefix of the
  steps in order, each step of which is handled once and recorded once. No step fails before the last
  one of the prefix: at most one step fails, and nothing runs after it. The run counts as succeeded
  exactly when no step failed, and then every step of the plan was handled.\<close>

theorem Apply_fail_fast:
  assumes "strategy_of (pl_execution p) = ''linear'' \<or> strategy_of (pl_execution p) = ''serial'' \<or> ex_any_errors_fatal (pl_execution p)"
  shows "\<exists>k \<le> length (apply_steps p). main_run env p m = state_after env p m k \<and>
    length (as_results (main_run env p m)) = k \<and>
    (\<forall>j < k. as_failed (state_after env p m j) = 0) \<and>
    as_failed (main_run env p m) = (if as_status (main_run env p m) = RunSucceeded then 0 else 1) \<and>
    (as_status (main_run env p m) = RunSucceeded \<longrightarrow> k = length (apply_steps p))"
proof -
  obtain k where k: "k \<le> length (apply_steps p)" "main_run env p m = state_after env p m k" "\<forall>j < k - 1. \<not> halts_at env p m j"
    "if 0 < k \<and> halts_at env p m (k - 1) then True else k = length (apply_steps p)"
    using main_run_walk by blast
  have halt: "halts_at env p m j \<longleftrightarrow> as_failed (state_after env p m (Suc j)) = as_failed (state_after env p m j) + 1"
    if j: "j < length (apply_steps p)" for j
    using halts_at_iff [OF j, of env m] state_after_failed_step [OF j, of env m] state_after_counts(3) [of j p env m] j assms
    by (simp add: shouldStop_def) blast
  have step: "as_failed (state_after env p m (Suc j)) = as_failed (state_after env p m j) \<or>
      as_failed (state_after env p m (Suc j)) = as_failed (state_after env p m j) + 1" if "j < length (apply_steps p)" for j
    using state_after_failed_step [OF that] by simp
  have zero: "as_failed (state_after env p m j) = 0" if "j < k" for j
    using that
  proof (induction j)
    case (Suc j)
    then have "j < k - 1" "j < length (apply_steps p)" using k(1) by simp_all
    then show ?case using Suc halt k(3) step by (metis Suc_lessD)
  qed simp
  have "as_failed (state_after env p m k) = 0 \<or> as_failed (state_after env p m k) = 1"
    using zero [of "k - 1"] step [of "k - 1"] k(1) by (cases k) auto
  moreover have "k = length (apply_steps p)" if "as_failed (state_after env p m k) = 0"
    using that k(1,4) zero [of "k - 1"] halt [of "k - 1"] by (cases k) (auto split: if_splits)
  ultimately show ?thesis using k(1,2) zero state_after_counts [OF k(1)] by (intro exI [of _ k]) auto
qed

text \<open>with the free strategy a run goes on after failures. Without \<^verbatim>\<open>max_fail_percentage\<close>
  every step of the plan is handled; with it, the share of failed steps never exceeds the percentage
  before the last handled step, and when the run ends early it exceeds it at that step.\<close>

theorem Apply_free_budget:
  assumes "strategy_of (pl_execution p) \<noteq> ''linear''" "strategy_of (pl_execution p) \<noteq> ''serial''"
    and "\<not> ex_any_errors_fatal (pl_execution p)"
  shows "\<exists>k \<le> length (apply_steps p). main_run env p m = state_after env p m k \<and>
    length (as_results (main_run env p m)) = k \<and>
    (ex_max_fail_percentage (pl_execution p) \<le> 0 \<longrightarrow> k = length (apply_steps p)) \<and>
    (0 < ex_max_fail_percentage (pl_execution p) \<longrightarrow>
       (\<forall>j < k. 0 < j \<longrightarrow> as_failed (state_after env p m j) * 100 div int j \<le> ex_max_fail_percentage (pl_execution p)) \<and>
       (k < length (apply_steps p) \<longrightarrow>
          0 < k \<and> ex_max_fail_percentage (pl_execution p) < as_failed (main_run env p m) * 100 div int k))"
proof -
  obtain k where k: "k \<le> length (apply_steps p)" "main_run env p m = state_after env p m k" "\<forall>j < k - 1. \<not> halts_at env p m j"
    "if 0 < k \<and> halts_at env p m (k - 1) then True else k = length (apply_steps p)"
    using main_run_walk by blast
  let ?f = "\<lambda>j. as_failed (state_after env p m j)" and ?x = "ex_max_fail_percentage (pl_execution p)"
  have halt: "halts_at env p m j \<longleftrightarrow> ?f (Suc j) \<noteq> ?f j \<and> 0 < ?x \<and> ?x < ?f (Suc j) * 100 div int (Suc j)"
    if j: "j < length (apply_steps p)" for j
  proof -
    have c: "0 \<le> ?f j" "0 \<le> ?f (Suc j)" "as_executed (state_after env p m (Suc j)) = int (Suc j)"
      using j by (intro state_after_counts; simp)+
    have "?f (Suc j) \<noteq> ?f j \<Longrightarrow> ?f (Suc j) \<noteq> 0" using state_after_failed_step [OF j, of env m] c(1) by (simp split: if_splits)
    moreover have "go_div (?f (Suc j) * 100) (int (Suc j)) = ?f (Suc j) * 100 div int (Suc j)"
      using c(2) by (intro go_div_nonneg) simp_all
    ultimately show ?thesis using assms unfolding halts_at_iff [OF j] shouldStop_def c(3) by simp blast
  qed
  have budget: "?f j * 100 div int j \<le> ?x" if "0 < ?x" "j < k" "0 < j" for j
    using that
  proof (induction j)
    case (Suc j)
    have j: "j < length (apply_steps p)" "\<not> halts_at env p m j" using Suc.prems(2) k(1,3) by simp_all
    show ?case
    proof (cases "?f (Suc j) = ?f j")
      case False
      then show ?thesis using j halt Suc.prems(1) by auto
    next
      case eq: True
      show ?thesis
      proof (cases "j = 0")
        case False
        have "?f j * 100 div int (Suc j) \<le> ?f j * 100 div int j"
          using False state_after_counts(3) [of j p env m] j(1) by (intro zdiv_mono2) simp_all
        also have "\<dots> \<le> ?x" using Suc False by simp
        finally show ?thesis unfolding eq .
      qed (use eq Suc.prems(1) in simp)
    qed
  qed simp
  have "k = length (apply_steps p) \<or> (0 < k \<and> halts_at env p m (k - 1))" using k(4) by (auto split: if_splits)
  then have "k = length (apply_steps p) \<or> (0 < k \<and> 0 < ?x \<and> ?x < ?f k * 100 div int k)"
    using halt [of "k - 1"] k(1) by (cases k) auto
  then have "?x \<le> 0 \<longrightarrow> k = length (apply_steps p)" "k < length (apply_steps p) \<longrightarrow> 0 < k \<and> ?x < ?f k * 100 div int k"
    by linarith+
  then show ?thesis unfolding k(2) using k(1) budget state_after_counts(1) [OF k(1), of env m]
    by (intro exI [of _ k] conjI) simp_all
qed

section \<open>Refreshes\<close>

text \<open>The notification relation of a plan: \<open>src\<close> notifies \<open>tgt\<close>, or \<open>tgt\<close> subscribes to \<open>src\<close>.\<close>

definition names_source :: "resource \<Rightarrow> string \<Rightarrow> string \<Rightarrow> bool" where
  "names_source r src tgt \<longleftrightarrow> src \<noteq> [] \<and> tgt \<noteq> [] \<and>
     ((src = TrimSpace (r_id r) \<and> tgt \<in> TrimSpace ` set (r_notify r)) \<or>
      (tgt = TrimSpace (r_id r) \<and> src \<in> TrimSpace ` set (r_subscribe r)))"

definition refresh_edge :: "step list \<Rightarrow> string \<Rightarrow> string \<Rightarrow> bool" where
  "refresh_edge steps src tgt \<longleftrightarrow> (\<exists>s \<in> set steps. names_source (st_resource s) src tgt)"

lemma addSource_mem:
  "src \<in> set (mget_or [] (addSource t s index) tgt) \<longleftrightarrow>
     src \<in> set (mget_or [] index tgt) \<or> (tgt = TrimSpace t \<and> src = TrimSpace s \<and> tgt \<noteq> [] \<and> src \<noteq> [])"
  by (auto simp: addSource_def Let_def)

lemma fold_notify_mem:
  "src \<in> set (mget_or [] (fold (\<lambda>t. addSource t s) ts index) tgt) \<longleftrightarrow>
     src \<in> set (mget_or [] index tgt) \<or> (tgt \<in> TrimSpace ` set ts \<and> src = TrimSpace s \<and> tgt \<noteq> [] \<and> src \<noteq> [])"
  by (induction ts arbitrary: index) (auto simp: addSource_mem)

lemma fold_subscribe_mem:
  "src \<in> set (mget_or [] (fold (\<lambda>s. addSource t s) ss index) tgt) \<longleftrightarrow>
     src \<in> set (mget_or [] index tgt) \<or> (tgt = TrimSpace t \<and> src \<in> TrimSpace ` set ss \<and> tgt \<noteq> [] \<and> src \<noteq> [])"
  by (induction ss arbitrary: index) (auto simp: addSource_mem)

lemma step_sources_mem:
  "src \<in> set (mget_or [] (step_sources s index) tgt) \<longleftrightarrow>
     src \<in> set (mget_or [] index tgt) \<or> names_source (st_resource s) src tgt"
  by (auto simp: step_sources_def Let_def fold_notify_mem fold_subscribe_mem names_source_def)

lemma fold_sources_mem:
  "src \<in> set (mget_or [] (fold step_sources steps index) tgt) \<longleftrightarrow>
     src \<in> set (mget_or [] index tgt) \<or> refresh_edge steps src tgt"
  by (induction steps arbitrary: index) (auto simp: step_sources_mem refresh_edge_def)

lemma refresh_index_mem:
  "src \<in> set (mget_or [] (buildRefreshSourceIndex steps) tgt) \<longleftrightarrow> refresh_edge steps src tgt"
proof -
  have "mget_or [] (buildRefreshSourceIndex steps) tgt = sort (mget_or [] (fold step_sources steps []) tgt)"
    by (simp add: buildRefreshSourceIndex_def mget_or_def map_of_map split: option.split)
  then show ?thesis using fold_sources_mem [of src steps "[]" tgt] by simp
qed

definition id_at :: "plan \<Rightarrow> nat \<Rightarrow> string" where
  "id_at p j = r_id (st_resource (apply_steps p ! j))"

definition result_at :: "exec_env \<Rightarrow> plan \<Rightarrow> machine \<Rightarrow> nat \<Rightarrow> resource_run" where
  "result_at env p m j = as_results (state_after env p m (Suc j)) ! j"

lemma state_after_advances:
  assumes "j < length (apply_steps p)"
  shows "advances (apply_steps p ! j) (state_after env p m j)
    (fst (one_step env (plan_sources p) (apply_steps p ! j) (state_after env p m j))) (state_after env p m (Suc j)) (result_at env p m j)"
proof (rule state_after_Suc [OF assms, of env m])
  fix f res
  assume o: "one_step env (plan_sources p) (apply_steps p ! j) (state_after env p m j) = (f, state_after env p m (Suc j))"
    and a: "advances (apply_steps p ! j) (state_after env p m j) f (state_after env p m (Suc j)) res"
  have "length (as_results (state_after env p m j)) = j" using assms by (simp add: state_after_counts)
  then have "result_at env p m j = res" using a by (simp add: result_at_def advances_def nth_append)
  then show ?thesis using a o by simp
qed

lemma results_nth:
  "j < k \<Longrightarrow> k \<le> length (apply_steps p) \<Longrightarrow> as_results (state_after env p m k) ! j = result_at env p m j"
  using state_after_results [of "Suc j" k p env m] by (simp add: result_at_def)

lemma changed_so_far:
  assumes "distinct (map (\<lambda>s. r_id (st_resource s)) (apply_steps p))" "j \<le> length (apply_steps p)"
  shows "mget_or False (as_changed (state_after env p m j)) x \<longleftrightarrow> (\<exists>i < j. id_at p i = x \<and> rr_changed (result_at env p m i))"
  using assms(2)
proof (induction j)
  case (Suc j)
  then have j: "j < length (apply_steps p)" by simp
  have c: "as_changed (state_after env p m (Suc j)) = mput (id_at p j) (rr_changed (result_at env p m j)) (as_changed (state_after env p m j))"
    using state_after_advances [OF j, of env m] by (simp add: advances_def id_at_def)
  have ne: "id_at p i \<noteq> id_at p j" if "i < j" for i
    using assms(1) that j by (auto simp: distinct_conv_nth id_at_def)
  have IH: "mget_or False (as_changed (state_after env p m j)) x \<longleftrightarrow> (\<exists>i < j. id_at p i = x \<and> rr_changed (result_at env p m i))"
    using Suc j by simp
  show ?case unfolding c mget_or_mput IH using ne by (auto simp: less_Suc_eq)
qed simp

definition triggered_at :: "exec_env \<Rightarrow> plan \<Rightarrow> machine \<Rightarrow> nat \<Rightarrow> bool" where
  "triggered_at env p m i \<longleftrightarrow>
     (\<exists>j < i. refresh_edge (apply_steps p) (id_at p j) (id_at p i) \<and> rr_changed (result_at env p m j))"

lemma triggers_nonempty:
  assumes "distinct (map (\<lambda>s. r_id (st_resource s)) (apply_steps p))" "i < length (apply_steps p)"
  shows "triggers (plan_sources p) (apply_steps p ! i) (state_after env p m i) \<noteq> [] \<longleftrightarrow> triggered_at env p m i"
proof -
  have "triggers (plan_sources p) (apply_steps p ! i) (state_after env p m i) \<noteq> [] \<longleftrightarrow>
      (\<exists>x. refresh_edge (apply_steps p) x (id_at p i) \<and> mget_or False (as_changed (state_after env p m i)) x)"
    by (simp add: triggers_def refreshTriggeredSources_def filter_empty_conv plan_sources_def id_at_def Bex_def refresh_index_mem)
  then show ?thesis using changed_so_far [OF assms(1), of i env m] assms(2) by (auto simp: triggered_at_def)
qed


section \<open>Handlers\<close>

lemma notify_handler_set:
  "set (fold notify_handler hs ns) = set ns \<union> (TrimSpace ` set hs - {[]})"
  by (induction hs arbitrary: ns) (auto simp: notify_handler_def Let_def)

lemma notify_handler_distinct: "distinct ns \<Longrightarrow> distinct (fold notify_handler hs ns)"
  by (induction hs arbitrary: ns) (auto simp: notify_handler_def Let_def)

definition notified_upto :: "exec_env \<Rightarrow> plan \<Rightarrow> machine \<Rightarrow> nat \<Rightarrow> string set" where
  "notified_upto env p m k = (\<Union>i \<in> {i. i < k \<and> rr_changed (result_at env p m i) \<and> \<not> rr_skipped (result_at env p m i)}.
     TrimSpace ` set (r_notify_handlers (st_resource (apply_steps p ! i)))) - {[]}"

lemma notified_so_far:
  "j \<le> length (apply_steps p) \<Longrightarrow>
   set (as_notified (state_after env p m j)) = notified_upto env p m j \<and> distinct (as_notified (state_after env p m j))"
proof (induction j)
  case (Suc j)
  then have j: "j < length (apply_steps p)" by simp
  let ?r = "result_at env p m j"
  have n: "as_notified (state_after env p m (Suc j)) = (if rr_changed ?r \<and> \<not> rr_skipped ?r
      then fold notify_handler (r_notify_handlers (st_resource (apply_steps p ! j))) (as_notified (state_after env p m j))
      else as_notified (state_after env p m j))"
    using state_after_advances [OF j, of env m] by (simp add: advances_def)
  have u: "notified_upto env p m (Suc j) = (if rr_changed ?r \<and> \<not> rr_skipped ?r
      then notified_upto env p m j \<union> (TrimSpace ` set (r_notify_handlers (st_resource (apply_steps p ! j))) - {[]})
      else notified_upto env p m j)"
    by (auto simp: notified_upto_def less_Suc_eq)
  show ?case using Suc j unfolding n u by (simp add: notify_handler_set notify_handler_distinct)
qed (simp add: notified_upto_def)

lemma handler_loop_succeeds:
  assumes "as_status (handler_loop env handlers hs a) = RunSucceeded"
  shows "(\<exists>rs. as_results (handler_loop env handlers hs a) = as_results a @ rs \<and> length rs = length hs) \<and>
    set hs \<subseteq> set (mkeys handlers) \<and>
    as_machine (handler_loop env handlers hs a) = fold (\<lambda>h m. snd (executeStep env m (the (mget handlers h)))) hs (as_machine a)"
  using assms
proof (induction hs arbitrary: a)
  case (Cons h hs)
  from Cons.prems obtain s where s: "mget handlers h = Some s" by (cases "mget handlers h") auto
  obtain res failed m where e: "executeStep env (as_machine a) s = ((res, failed), m)" by (metis surj_pair)
  let ?a = "a\<lparr>as_machine := m, as_results := as_results a @ [res\<lparr>rr_message := appendAuditMessage (rr_message res) ''handler executed''\<rparr>]\<rparr>"
  have nf: "\<not> failed" using Cons.prems s e by (cases failed) simp_all
  have l: "handler_loop env handlers (h # hs) a = handler_loop env handlers hs ?a" using s e nf by simp
  have "h \<in> set (mkeys handlers)" using s by (simp add: set_mkeys dom_def del: set_map)
  then show ?case using Cons.IH [of ?a] Cons.prems s e unfolding l by fastforce
qed simp

lemma main_run_succeeds:
  assumes "as_status (main_run env p m) = RunSucceeded"
  shows "main_run env p m = state_after env p m (length (apply_steps p))"
proof -
  obtain k where k: "k \<le> length (apply_steps p)" "main_run env p m = state_after env p m k"
    "if 0 < k \<and> halts_at env p m (k - 1) then True else k = length (apply_steps p)"
    using main_run_walk by blast
  have z: "as_failed (state_after env p m k) = 0" using assms k(2) state_after_counts(5) [OF k(1), of env m] by simp
  have "\<not> halts_at env p m (k - 1)" if "0 < k"
  proof -
    have "k - 1 < length (apply_steps p)" "Suc (k - 1) = k" using that k(1) by simp_all
    then show ?thesis using halts_at_iff [of "k - 1" p env m] z by (simp add: shouldStop_def)
  qed
  then show ?thesis using k by (auto split: if_splits)
qed

text \<open>C7: handlers run only after a run in which nothing failed, in ascending order of their
  identifiers, each exactly once: exactly those that some changed and not skipped step notifies. A run
  that succeeds has one record per step of the plan, in order, followed by one per notified handler, and
  every notified handler is in the plan. After a failure no handler runs at all.\<close>

theorem Apply_handlers:
  "(as_status (main_run env p m) = RunFailed \<longrightarrow>
      run_results (fst (Apply env p m)) = as_results (main_run env p m) \<and> snd (Apply env p m) = as_machine (main_run env p m) \<and>
      run_status_of (fst (Apply env p m)) = RunFailed) \<and>
   (run_status_of (fst (Apply env p m)) = RunSucceeded \<longrightarrow>
      (let n = length (apply_steps p); hs = sorted_list_of_set (notified_upto env p m n)
       in as_failed (main_run env p m) = 0 \<and> take n (run_results (fst (Apply env p m))) = map (result_at env p m) [0..<n] \<and>
          length (run_results (fst (Apply env p m))) = n + length hs \<and> set hs \<subseteq> set (mkeys (pl_handlers p)) \<and>
          snd (Apply env p m) =
            fold (\<lambda>h m. snd (executeStep env m (the (mget (pl_handlers p) h)))) hs (as_machine (main_run env p m))))"
proof (cases "as_status (main_run env p m)")
  case RunFailed
  then show ?thesis by (simp add: Apply_def Let_def)
next
  case RunSucceeded
  define n where "n = length (apply_steps p)"
  define a where "a = main_run env p m"
  define hs where "hs = sorted_list_of_set (notified_upto env p m n)"
  have a: "a = state_after env p m n" unfolding a_def n_def by (rule main_run_succeeds [OF RunSucceeded])
  note c = state_after_counts [of n p env m, folded a]
  have len: "length (as_results a) = n" and z: "as_failed a = 0" using c RunSucceeded by (simp_all add: n_def a_def)
  have res: "as_results a = map (result_at env p m) [0..<n]"
    using len results_nth [of _ n p env m] unfolding a n_def by (intro nth_equalityI) simp_all
  have "set (as_notified a) = notified_upto env p m n \<and> distinct (as_notified a)"
    unfolding a by (rule notified_so_far) (simp add: n_def)
  then have hs: "sort (as_notified a) = hs" by (metis hs_def sorted_list_of_set_sort_remdups distinct_remdups_id)
  then have e: "as_notified a = [] \<longleftrightarrow> hs = []" by (metis sort_singleton_conv)
  let ?b = "if as_notified a \<noteq> [] then handler_loop env (pl_handlers p) hs a else a"
  have A: "fst (Apply env p m) = \<lparr>run_id = nano_stamp (ev_now env m), run_started = ev_now env m, run_ended = ev_now env (as_machine ?b),
           run_status_of = as_status ?b, run_results = as_results ?b\<rparr>" "snd (Apply env p m) = as_machine ?b"
    unfolding Apply_def Let_def a_def [symmetric] hs using RunSucceeded by (simp_all add: a_def)
  have "\<exists>rs. as_results ?b = as_results a @ rs \<and> length rs = length hs" "set hs \<subseteq> set (mkeys (pl_handlers p))"
    "as_machine ?b = fold (\<lambda>h m. snd (executeStep env m (the (mget (pl_handlers p) h)))) hs (as_machine a)"
    if "as_status ?b = RunSucceeded"
    using that handler_loop_succeeds [of env "pl_handlers p" hs a] e by (auto split: if_splits)
  then show ?thesis using RunSucceeded len z res
    unfolding Let_def A n_def [symmetric] hs_def [symmetric] a_def [symmetric] by auto
qed

text \<open>The small configuration of the model as a plan: the last step is on a host that cannot be reached.\<close>

definition demo_step :: "int \<Rightarrow> host \<Rightarrow> resource \<Rightarrow> step" where
  "demo_step n h r = \<lparr>st_order = n, st_host = h, st_resource = r\<rparr>"

definition demo_plan :: plan where
  "demo_plan = \<lparr>pl_execution = zero_execution, pl_steps = [demo_step 1 web_host pkg_res, demo_step 2 web_host conf_res,
     demo_step 3 db_host svc_res], pl_handlers = []\<rparr>"

definition free_plan :: plan where
  "free_plan = demo_plan\<lparr>pl_execution := zero_execution\<lparr>ex_strategy := ''free''\<rparr>\<rparr>"

definition handler_plan :: plan where
  "handler_plan = demo_plan\<lparr>pl_steps := [demo_step 1 web_host (conf_res\<lparr>r_notify_handlers := ['' reload '']\<rparr>)],
     pl_handlers := [(''reload'', demo_step 0 web_host (pkg_res\<lparr>r_id := ''reload''\<rparr>))]\<rparr>"

theorem Apply_fail_fast_witness:
  "\<exists>k \<le> 3. main_run demo_env demo_plan empty_machine = state_after demo_env demo_plan empty_machine k \<and>
     as_failed (main_run demo_env demo_plan empty_machine) = 1"
proof -
  have "strategy_of (pl_execution demo_plan) = ''linear''" "length (apply_steps demo_plan) = 3"
    "as_status (main_run demo_env demo_plan empty_machine) \<noteq> RunSucceeded" by code_simp+
  then show ?thesis using Apply_fail_fast [of demo_plan demo_env empty_machine] by auto
qed

theorem Apply_free_budget_witness:
  "main_run demo_env free_plan empty_machine = state_after demo_env free_plan empty_machine 3"
proof -
  have "strategy_of (pl_execution free_plan) = ''free''" "\<not> ex_any_errors_fatal (pl_execution free_plan)"
    "length (apply_steps free_plan) = 3" "ex_max_fail_percentage (pl_execution free_plan) = 0" by code_simp+
  then show ?thesis using Apply_free_budget [of free_plan demo_env empty_machine] by auto
qed


theorem Apply_handlers_witness:
  "run_status_of (fst (Apply demo_env handler_plan empty_machine)) = RunSucceeded \<and>
   length (run_results (fst (Apply demo_env handler_plan empty_machine))) = 2 \<and>
   take 1 (run_results (fst (Apply demo_env handler_plan empty_machine))) = [result_at demo_env handler_plan empty_machine 0]"
proof -
  have "run_status_of (fst (Apply demo_env handler_plan empty_machine)) = RunSucceeded"
    "length (run_results (fst (Apply demo_env handler_plan empty_machine))) = 2"
    "length (apply_steps handler_plan) = 1" by code_simp+
  then show ?thesis using Apply_handlers [of demo_env handler_plan empty_machine] by (simp add: Let_def)
qed

end
