(* ===== verification/ConfigExpand.thy ===== *)
theory ConfigExpand
  imports ConfigValidate
begin

text \<open>
  Expansion of matrix and loop resources (internal/config/expand.go). The variables of one copy are a
  map from names to values; \<open>matrixCombinations\<close> takes the entries of the matrix in the order of a
  \<^verbatim>\<open>range\<close> over the map. The regular expression \<^verbatim>\<open>\{\{\s*([A-Za-z0-9_.-]+)\s*\}\}\<close> is the
  matcher \<open>matrix_token\<close>: its parts are disjoint sets of characters, so the greedy reading is the only one.
\<close>

section \<open>Variables\<close>

definition expansionMatrix :: "resource \<Rightarrow> string list gomap \<times> bool" where
  "expansionMatrix r =
     (let matrix = r_matrix r; expanded = list_ex (\<lambda>(k, vs). vs \<noteq> []) matrix;
          key = (if TrimSpace (r_loop_var r) = [] then ''item'' else TrimSpace (r_loop_var r));
          (matrix, expanded) = (if r_loop r \<noteq> [] \<and> mget matrix key = None then (mput key (r_loop r) matrix, True) else (matrix, expanded))
      in if matrix = [] then ([], False) else (matrix, expanded))"

definition clean_values :: "string list \<Rightarrow> string list" where
  "clean_values vs = sort (clean_loop TrimSpace [] [] vs)"

text \<open>The first loop: the values by trimmed key and the list of keys; \<open>None\<close> is the early return.\<close>

fun normalize_entries :: "string list gomap \<Rightarrow> string list gomap \<Rightarrow> string list \<Rightarrow> (string list gomap \<times> string list) option" where
  "normalize_entries [] norm keys = Some (norm, keys)"
| "normalize_entries ((k, vs) # m) norm keys =
     (let name = TrimSpace k in
      if name = [] then normalize_entries m norm keys
      else if clean_values vs = [] then None
      else normalize_entries m (mput name (clean_values vs) norm) (keys @ [name]))"

fun walk_keys :: "string list gomap \<Rightarrow> string list \<Rightarrow> string gomap \<Rightarrow> string gomap list" where
  "walk_keys norm [] cur = [cur]"
| "walk_keys norm (k # ks) cur = concat (map (\<lambda>v. walk_keys norm ks (mput k v cur)) (mget_or [] norm k))"

definition matrixCombinations :: "string list gomap \<Rightarrow> string gomap list" where
  "matrixCombinations m =
     (case normalize_entries m [] [] of
        None \<Rightarrow> []
      | Some (norm, keys) \<Rightarrow> if keys = [] then [] else walk_keys norm (sort keys) [])"

section \<open>Conditions\<close>

text \<open>The text before and after the first occurrence of a separator (\<^verbatim>\<open>strings.SplitN(s, sep, 2)\<close>).\<close>

fun cut_at :: "string \<Rightarrow> string \<Rightarrow> (string \<times> string) option" where
  "cut_at sep [] = None"
| "cut_at sep (c # cs) =
     (if HasPrefix (c # cs) sep then Some ([], drop (length sep) (c # cs))
      else map_option (\<lambda>(a, b). (c # a, b)) (cut_at sep cs))"

definition quoted_by :: "char \<Rightarrow> string \<Rightarrow> bool" where
  "quoted_by q t \<longleftrightarrow> 2 \<le> length t \<and> hd t = q \<and> last t = q"

definition resolveWhenOperand :: "string \<Rightarrow> string gomap \<Rightarrow> string" where
  "resolveWhenOperand token vars =
     (let t = TrimSpace token in
      if t = [] then []
      else if quoted_by (CHR 0x27) t \<or> quoted_by (CHR 0x22) t then butlast (tl t)
      else case mget vars t of Some v \<Rightarrow> v | None \<Rightarrow> t)"

definition evaluateResourceWhen :: "string \<Rightarrow> string gomap \<Rightarrow> bool" where
  "evaluateResourceWhen when vars =
     (let expr = TrimSpace when; lower = ToLower expr in
      if expr = [] then True
      else if lower \<in> set [''true'', ''1'', ''yes'', ''on''] then True
      else if lower \<in> set [''false'', ''0'', ''no'', ''off''] then False
      else case cut_at ''=='' expr of
        Some (a, b) \<Rightarrow> resolveWhenOperand a vars = resolveWhenOperand b vars
      | None \<Rightarrow>
          (case cut_at ''!='' expr of
             Some (a, b) \<Rightarrow> resolveWhenOperand a vars \<noteq> resolveWhenOperand b vars
           | None \<Rightarrow> ToLower (TrimSpace (resolveWhenOperand expr vars)) \<notin> set [[], ''0'', ''false'', ''no'', ''off'']))"

section \<open>Substitution\<close>

definition token_name_char :: "char \<Rightarrow> bool" where
  "token_name_char c \<longleftrightarrow> (CHR ''a'' \<le> c \<and> c \<le> CHR ''z'') \<or> (CHR ''A'' \<le> c \<and> c \<le> CHR ''Z'') \<or> is_digit c \<or> c \<in> set ''_.-''"

definition regexp_space :: "char \<Rightarrow> bool" where
  "regexp_space c \<longleftrightarrow> c \<in> {CHR '' '', CHR 0x09, CHR 0x0A, CHR 0x0C, CHR 0x0D}"

text \<open>The name in a token at the head of the text, and the text after the token.\<close>

definition matrix_token :: "string \<Rightarrow> (string \<times> string) option" where
  "matrix_token s =
     (if \<not> HasPrefix s ''{{'' then None
      else let body = dropWhile regexp_space (drop 2 s);
               name = takeWhile token_name_char body;
               rest = dropWhile regexp_space (dropWhile token_name_char body)
           in if name \<noteq> [] \<and> HasPrefix rest ''}}'' then Some (name, drop 2 rest) else None)"

lemma matrix_token_shorter: "matrix_token s = Some (name, rest) \<Longrightarrow> length rest < length s"
proof -
  have le: "length (dropWhile regexp_space (dropWhile token_name_char (dropWhile regexp_space t))) \<le> length t" for t
    using length_dropWhile_le by (meson le_trans)
  show "matrix_token s = Some (name, rest) \<Longrightarrow> length rest < length s"
    using le [of "drop 2 s"] by (cases s) (auto simp: matrix_token_def Let_def split: if_splits)
qed

function replaceString :: "string gomap \<Rightarrow> string \<Rightarrow> string" where
  "replaceString vars s =
     (case matrix_token s of
        Some (name, rest) \<Rightarrow> mget_or [] vars name @ replaceString vars rest
      | None \<Rightarrow> (case s of [] \<Rightarrow> [] | c # cs \<Rightarrow> c # replaceString vars cs))"
  by pat_completeness auto
termination
  by (relation "measure (\<lambda>(_, s). length s)") (auto simp: matrix_token_shorter)

declare replaceString.simps [simp del]

definition applyResourceTemplateVars :: "string gomap \<Rightarrow> resource \<Rightarrow> resource" where
  "applyResourceTemplateVars vars r =
     (if vars = [] then r
      else let f = replaceString vars in
        r\<lparr>r_id := f (r_id r), r_type := f (r_type r), r_host := f (r_host r), r_delegate_to := f (r_delegate_to r),
          r_path := f (r_path r), r_content := f (r_content r), r_mode := f (r_mode r),
          r_content_checksum := f (r_content_checksum r), r_content_signature := f (r_content_signature r),
          r_content_signing_pubkey := f (r_content_signing_pubkey r), r_command := f (r_command r),
          r_creates := f (r_creates r), r_only_if := f (r_only_if r), r_unless := f (r_unless r),
          r_refresh_command := f (r_refresh_command r), r_become_user := f (r_become_user r),
          r_rescue_command := f (r_rescue_command r), r_always_command := f (r_always_command r),
          r_retry_backoff := f (r_retry_backoff r), r_until_contains := f (r_until_contains r),
          r_registry_key := f (r_registry_key r), r_registry_value := f (r_registry_value r),
          r_registry_value_type := f (r_registry_value_type r), r_task_name := f (r_task_name r),
          r_task_schedule := f (r_task_schedule r), r_task_command := f (r_task_command r),
          r_depends_on := map f (r_depends_on r), r_require := map f (r_require r), r_before := map f (r_before r),
          r_notify := map f (r_notify r), r_subscribe := map f (r_subscribe r),
          r_notify_handlers := map f (r_notify_handlers r), r_tags := map f (r_tags r)\<rparr>)"

text \<open>Letters and digits are kept; every run of other characters becomes one dash.\<close>

fun dash_loop :: "bool \<Rightarrow> string \<Rightarrow> string" where
  "dash_loop lst [] = []"
| "dash_loop lst (c # cs) =
     (if (CHR ''a'' \<le> c \<and> c \<le> CHR ''z'') \<or> is_digit c then c # dash_loop False cs
      else if lst then dash_loop lst cs
      else CHR ''-'' # dash_loop True cs)"

definition trim_dashes :: "string \<Rightarrow> string" where
  "trim_dashes s = rev (dropWhile (\<lambda>c. c = CHR ''-'') (rev (dropWhile (\<lambda>c. c = CHR ''-'') s)))"

definition sanitizeMatrixToken :: "string \<Rightarrow> string" where
  "sanitizeMatrixToken s =
     (let s = TrimSpace (ToLower s) in
      if s = [] then ''item''
      else let out = trim_dashes (dash_loop False s) in if out = [] then ''item'' else out)"

definition appendMatrixSuffix :: "string \<Rightarrow> string gomap \<Rightarrow> string" where
  "appendMatrixSuffix i vars =
     Join (sanitizeMatrixToken i # concat (map (\<lambda>k. [sanitizeMatrixToken k, sanitizeMatrixToken (mget_or [] vars k)]) (sort (mkeys vars)))) ''-''"

section \<open>Expansion\<close>

definition expand_copy :: "resource \<Rightarrow> bool \<Rightarrow> string gomap \<Rightarrow> resource" where
  "expand_copy r expanded vars =
     (let res = applyResourceTemplateVars vars (r\<lparr>r_when := [], r_matrix := [], r_loop := [], r_loop_var := []\<rparr>)
      in if expanded \<and> TrimSpace (r_id res) = TrimSpace (r_id r) then res\<lparr>r_id := appendMatrixSuffix (r_id res) vars\<rparr> else res)"

definition expand_one :: "resource \<Rightarrow> resource list" where
  "expand_one r =
     (let (matrix, expanded) = expansionMatrix r;
          combos = (if matrixCombinations matrix = [] then [[]] else matrixCombinations matrix)
      in map (expand_copy r expanded) (filter (evaluateResourceWhen (r_when r)) combos))"

definition expandResourceCollection :: "resource list \<Rightarrow> resource list" where
  "expandResourceCollection rs = concat (map expand_one rs)"

definition expandConfigResources :: "config \<Rightarrow> config" where
  "expandConfigResources c = c\<lparr>cfg_resources := expandResourceCollection (cfg_resources c),
     cfg_handlers := expandResourceCollection (cfg_handlers c)\<rparr>"

section \<open>The combinations of a matrix\<close>

text \<open>A matrix with proper names: no two keys trim to the same name, none to nothing, and every key has a value
  that is not blank.\<close>

definition proper_matrix :: "string list gomap \<Rightarrow> bool" where
  "proper_matrix m \<longleftrightarrow> m \<noteq> [] \<and> distinct (map (TrimSpace \<circ> fst) m) \<and>
     list_all (\<lambda>(k, vs). TrimSpace k \<noteq> [] \<and> clean_values vs \<noteq> []) m"

lemma clean_values_distinct [simp]: "distinct (clean_values vs)"
  using clean_loop_ok [of TrimSpace vs, OF TrimSpace_idem] by (simp add: clean_values_def tokens_ok_def)

lemma set_clean_values: "set (clean_values vs) = TrimSpace ` set vs - {[]}"
  by (simp add: clean_values_def clean_loop_set)

lemma normalize_entries_proper:
  assumes "distinct (map (TrimSpace \<circ> fst) m)" "list_all (\<lambda>(k, vs). TrimSpace k \<noteq> [] \<and> clean_values vs \<noteq> []) m"
    and "TrimSpace ` set (mkeys m) \<inter> set (mkeys norm) = {}"
  shows "normalize_entries m norm keys =
    Some (norm @ map (\<lambda>(k, vs). (TrimSpace k, clean_values vs)) m, keys @ map (TrimSpace \<circ> fst) m)"
  using assms
proof (induction m arbitrary: norm keys)
  case (Cons e m)
  obtain k vs where e: "e = (k, vs)" by (cases e)
  have put: "mput (TrimSpace k) (clean_values vs) norm = norm @ [(TrimSpace k, clean_values vs)]"
    using Cons.prems(3) e by (intro mput_fresh) auto
  show ?case using Cons.prems Cons.IH [of "norm @ [(TrimSpace k, clean_values vs)]" "keys @ [TrimSpace k]"]
    by (auto simp: e put Let_def)
qed simp

lemma walk_keys_maps:
  assumes "distinct ks"
  shows "f \<in> mget ` set (walk_keys norm ks cur) \<longleftrightarrow>
     (\<forall>k. k \<notin> set ks \<longrightarrow> f k = mget cur k) \<and> (\<forall>k \<in> set ks. \<exists>v \<in> set (mget_or [] norm k). f k = Some v)"
  using assms
proof (induction ks arbitrary: cur)
  case (Cons k ks)
  have "f \<in> mget ` set (walk_keys norm (k # ks) cur) \<longleftrightarrow>
      (\<exists>v \<in> set (mget_or [] norm k). f \<in> mget ` set (walk_keys norm ks (mput k v cur)))" by auto
  also have "\<dots> \<longleftrightarrow> (\<exists>v \<in> set (mget_or [] norm k). (\<forall>i. i \<notin> set ks \<longrightarrow> f i = (if i = k then Some v else mget cur i)) \<and>
      (\<forall>i \<in> set ks. \<exists>v \<in> set (mget_or [] norm i). f i = Some v))"
    using Cons.IH Cons.prems by simp
  also have "\<dots> \<longleftrightarrow> (\<forall>i. i \<notin> set (k # ks) \<longrightarrow> f i = mget cur i) \<and> (\<forall>i \<in> set (k # ks). \<exists>v \<in> set (mget_or [] norm i). f i = Some v)"
    using Cons.prems by force
  finally show ?case .
qed (auto simp: fun_eq_iff)

lemma distinct_concat_map:
  assumes "distinct vs" "\<And>v. v \<in> set vs \<Longrightarrow> distinct (g v)" "\<And>v f. v \<in> set vs \<Longrightarrow> f \<in> set (g v) \<Longrightarrow> tag f = v"
  shows "distinct (concat (map g vs))"
  using assms
proof (induction vs)
  case (Cons v vs)
  moreover have "set (g v) \<inter> (\<Union>u \<in> set vs. set (g u)) = {}"
  proof (rule ccontr)
    assume "\<not> ?thesis"
    then obtain f u where "f \<in> set (g v)" "u \<in> set vs" "f \<in> set (g u)" by blast
    then have "tag f = v" "tag f = u" using Cons.prems(3) by simp_all
    then show False using Cons.prems(1) \<open>u \<in> set vs\<close> by simp
  qed
  ultimately show ?case by simp
qed simp

lemma walk_keys_distinct:
  assumes "distinct ks" "\<And>k. distinct (mget_or [] norm k)"
  shows "distinct (map mget (walk_keys norm ks cur))"
  using assms
proof (induction ks arbitrary: cur)
  case (Cons k ks)
  have "distinct (concat (map (\<lambda>v. map mget (walk_keys norm ks (mput k v cur))) (mget_or [] norm k)))"
  proof (rule distinct_concat_map [where tag = "\<lambda>f. the (f k)"])
    fix v f assume "f \<in> set (map mget (walk_keys norm ks (mput k v cur)))"
    then show "the (f k) = v" using walk_keys_maps [of ks f norm "mput k v cur"] Cons.prems(1) by simp
  qed (use Cons in simp_all)
  then show ?case by (simp add: map_concat comp_def)
qed simp

lemma walk_keys_length: "length (walk_keys norm ks cur) = prod_list (map (\<lambda>k. length (mget_or [] norm k)) ks)"
proof (induction ks arbitrary: cur)
  case (Cons k ks)
  then show ?case by (simp add: length_concat comp_def sum_list_triv)
qed simp

definition entries :: "string list gomap \<Rightarrow> string list gomap" where
  "entries m = map (\<lambda>(k, vs). (TrimSpace k, clean_values vs)) m"

lemma matrixCombinations_proper:
  assumes "proper_matrix m"
  shows "matrixCombinations m = walk_keys (entries m) (sort (map (TrimSpace \<circ> fst) m)) []"
  using assms normalize_entries_proper [of m "[]" "[]"]
  by (simp add: matrixCombinations_def proper_matrix_def entries_def)

lemma entries_get:
  assumes "proper_matrix m" "(k, vs) \<in> set m"
  shows "mget_or [] (entries m) (TrimSpace k) = clean_values vs"
proof -
  have "distinct (mkeys (entries m))" using assms(1) by (simp add: proper_matrix_def entries_def split_beta comp_def)
  moreover have "(TrimSpace k, clean_values vs) \<in> set (entries m)" using assms(2) by (force simp: entries_def)
  ultimately have "mget (entries m) (TrimSpace k) = Some (clean_values vs)" by simp
  then show ?thesis by (simp add: mget_or_def)
qed

lemma entries_distinct: "distinct (mget_or [] (entries m) k)"
proof (cases "mget (entries m) k")
  case (Some vs)
  then have "(k, vs) \<in> set (entries m)" by (rule map_of_SomeD)
  then show ?thesis using Some by (auto simp: mget_or_def entries_def)
qed (simp add: mget_or_def)

lemma walk_keys_cong: "(\<And>k. mget_or [] n k = mget_or [] n' k) \<Longrightarrow> walk_keys n ks cur = walk_keys n' ks cur"
  by (induction ks arbitrary: cur) simp_all

lemma combinations_perm:
  assumes m: "proper_matrix m" and p: "mset m' = mset m"
  shows "matrixCombinations m' = matrixCombinations m"
proof -
  have keys: "mset (map (TrimSpace \<circ> fst) m') = mset (map (TrimSpace \<circ> fst) m)" using p by (metis mset_map)
  have m': "proper_matrix m'"
    using m p mset_eq_setD [OF p] mset_eq_imp_distinct_iff [OF keys] by (auto simp: proper_matrix_def list_all_iff)
  have "distinct (mkeys (entries m))" "mset (entries m') = mset (entries m)"
    using m p by (simp_all add: proper_matrix_def entries_def split_beta comp_def)
  then have "mget (entries m') = mget (entries m)"
    by (metis map_of_eqI mset_eq_imp_distinct_iff mset_map map_of_inject_set mset_eq_setD)
  then have "walk_keys (entries m') ks [] = walk_keys (entries m) ks []" for ks by (intro walk_keys_cong) (simp add: mget_or_def)
  then show ?thesis using matrixCombinations_proper [OF m] matrixCombinations_proper [OF m'] sort_perm_eq [OF keys] by simp
qed

text \<open>the copies of a matrix resource are exactly the combinations of its values. For a matrix whose
  keys have different names and at least one value each: the combinations are different maps, there are as
  many as the product of the numbers of (trimmed, different, not blank) values, a map is among them exactly when
  it gives every name of the matrix one of its values and no other name any, and the list does not depend on
  the order in which the matrix, a Go map, is visited.\<close>

theorem matrixCombinations_exact:
  assumes m: "proper_matrix m"
  shows "distinct (map mget (matrixCombinations m)) \<and>
    length (matrixCombinations m) = prod_list (map (length \<circ> clean_values \<circ> snd) m) \<and>
    (\<forall>f. f \<in> mget ` set (matrixCombinations m) \<longleftrightarrow> dom f = TrimSpace ` set (mkeys m) \<and>
       (\<forall>(k, vs) \<in> set m. \<exists>v \<in> set vs. TrimSpace v \<noteq> [] \<and> f (TrimSpace k) = Some (TrimSpace v))) \<and>
    (\<forall>m'. mset m' = mset m \<longrightarrow> matrixCombinations m' = matrixCombinations m)"
proof (intro conjI allI impI)
  let ?ks = "map (TrimSpace \<circ> fst) m"
  have d: "distinct (sort ?ks)" using m by (simp add: proper_matrix_def)
  show "distinct (map mget (matrixCombinations m))"
    unfolding matrixCombinations_proper [OF m] by (rule walk_keys_distinct [OF d entries_distinct])
  have "prod_list (map g (sort ?ks)) = prod_list (map g ?ks)" for g :: "string \<Rightarrow> nat"
    by (metis mset_map mset_sort prod_mset_prod_list)
  moreover have "map ((\<lambda>k. length (mget_or [] (entries m) k)) \<circ> (TrimSpace \<circ> fst)) m = map (length \<circ> clean_values \<circ> snd) m"
    using entries_get [OF m] by auto
  ultimately show "length (matrixCombinations m) = prod_list (map (length \<circ> clean_values \<circ> snd) m)"
    unfolding matrixCombinations_proper [OF m] walk_keys_length by (metis map_map)
  show "matrixCombinations m' = matrixCombinations m" if "mset m' = mset m" for m' by (rule combinations_perm [OF m that])
  fix f
  have "f \<in> mget ` set (matrixCombinations m) \<longleftrightarrow> (\<forall>k. k \<notin> set ?ks \<longrightarrow> f k = None) \<and>
      (\<forall>k \<in> set ?ks. \<exists>v \<in> set (mget_or [] (entries m) k). f k = Some v)"
    unfolding matrixCombinations_proper [OF m] walk_keys_maps [OF d] by simp
  also have "(\<forall>k \<in> set ?ks. \<exists>v \<in> set (mget_or [] (entries m) k). f k = Some v) \<longleftrightarrow>
      (\<forall>(k, vs) \<in> set m. \<exists>v \<in> set (clean_values vs). f (TrimSpace k) = Some v)"
    using entries_get [OF m] by fastforce
  also have "\<dots> \<longleftrightarrow> (\<forall>(k, vs) \<in> set m. \<exists>v \<in> set vs. TrimSpace v \<noteq> [] \<and> f (TrimSpace k) = Some (TrimSpace v))"
    unfolding set_clean_values by blast
  finally show "f \<in> mget ` set (matrixCombinations m) \<longleftrightarrow> dom f = TrimSpace ` set (mkeys m) \<and>
       (\<forall>(k, vs) \<in> set m. \<exists>v \<in> set vs. TrimSpace v \<noteq> [] \<and> f (TrimSpace k) = Some (TrimSpace v))"
    by (auto simp: dom_def image_comp split_beta)
qed

theorem matrixCombinations_exact_witness:
  "length (matrixCombinations [(''os'', ['' deb'', ''rpm'', ''deb'']), (''arch'', [''arm''])]) = 2 \<and>
   matrixCombinations [(''arch'', [''arm'']), (''os'', ['' deb'', ''rpm'', ''deb''])] =
     [[(''arch'', ''arm''), (''os'', ''deb'')], [(''arch'', ''arm''), (''os'', ''rpm'')]]"
proof -
  let ?m = "[(''os'', ['' deb'', ''rpm'', ''deb'']), (''arch'', [''arm''])]"
  have m: "proper_matrix ?m" by code_simp
  have "prod_list (map (length \<circ> clean_values \<circ> snd) ?m) = 2" by code_simp
  moreover have "matrixCombinations ?m = [[(''arch'', ''arm''), (''os'', ''deb'')], [(''arch'', ''arm''), (''os'', ''rpm'')]]" by code_simp
  moreover have "mset [(''arch'', [''arm'']), (''os'', ['' deb'', ''rpm'', ''deb''])] = mset ?m" by simp
  ultimately show ?thesis using matrixCombinations_exact [OF m] by metis
qed

section \<open>Expanded resources\<close>

definition plain_resource :: "resource \<Rightarrow> bool" where
  "plain_resource r \<longleftrightarrow> r_when r = [] \<and> r_matrix r = [] \<and> r_loop r = [] \<and> r_loop_var r = []"

lemma expand_copy_plain: "plain_resource (expand_copy r expanded vars)"
  by (simp add: plain_resource_def expand_copy_def applyResourceTemplateVars_def Let_def)

lemma expand_one_plain:
  assumes "plain_resource r"
  shows "expand_one r = [r]"
proof -
  have m: "expansionMatrix r = ([], False)" "matrixCombinations [] = []"
    using assms by (simp_all add: plain_resource_def expansionMatrix_def matrixCombinations_def Let_def)
  have w: "evaluateResourceWhen (r_when r) [] = True" using assms by (simp add: plain_resource_def evaluateResourceWhen_def)
  have "expand_copy r False [] = r" using assms
    by (simp add: expand_copy_def applyResourceTemplateVars_def plain_resource_def Let_def)
  then show ?thesis by (simp add: expand_one_def m w)
qed

lemma expansion_plain: "list_all plain_resource (expandResourceCollection rs)"
  by (auto simp: expandResourceCollection_def expand_one_def list_all_iff expand_copy_plain split: prod.splits)

lemma expansion_keeps: "list_all plain_resource rs \<Longrightarrow> expandResourceCollection rs = rs"
  by (induction rs) (simp_all add: expandResourceCollection_def expand_one_plain)

lemma expansion_idem: "expandResourceCollection (expandResourceCollection rs) = expandResourceCollection rs"
  by (rule expansion_keeps [OF expansion_plain])

end
