(* ===== verification/ConfigLoad.thy ===== *)
theory ConfigLoad
  imports ConfigExpand GoOS
begin

text \<open>
  Loading of a configuration (internal/config/load.go): a file and, recursively, the files that it includes,
  imports and overlays are parsed, merged, expanded and validated. The decoders of encoding/json and
  gopkg.in/yaml.v3 and the working directory are parameters (\<open>loader\<close>); a working directory that cannot be
  determined is \<open>None\<close>. The \<^verbatim>\<open>stack\<close> of files that are being loaded is passed down, so that leaving
  a call restores it as the deferred \<^verbatim>\<open>delete\<close> does.
\<close>

record loader =
  ld_yaml :: "string \<Rightarrow> config result"
  ld_json :: "string \<Rightarrow> config result"
  ld_cwd :: "string option"

section \<open>Paths\<close>

definition filepath_IsAbs :: "string \<Rightarrow> bool" where
  "filepath_IsAbs p \<longleftrightarrow> HasPrefix p ''/''"

text \<open>\<^verbatim>\<open>filepath.Abs\<close>, with the path itself where it fails.\<close>

definition abs_path :: "loader \<Rightarrow> string \<Rightarrow> string" where
  "abs_path ld p =
     (if filepath_IsAbs p then filepath_Clean p
      else case ld_cwd ld of None \<Rightarrow> p | Some d \<Rightarrow> filepath_Join [d, p])"

definition filepath_Ext :: "string \<Rightarrow> string" where
  "filepath_Ext p =
     (let base = takeWhile (\<lambda>c. c \<noteq> CHR ''/'') (rev p)
      in if CHR ''.'' \<in> set base then CHR ''.'' # rev (takeWhile (\<lambda>c. c \<noteq> CHR ''.'') base) else [])"

lemma ext_examples: "filepath_Ext ''/etc/site.v2.YAML'' = ''.YAML''" "filepath_Ext ''a.d/site'' = []" "filepath_Ext ''x.'' = ''.''"
  by code_simp+

definition resolveConfigRef :: "string \<Rightarrow> string \<Rightarrow> string" where
  "resolveConfigRef baseDir ref =
     (let ref = TrimSpace ref in
      if ref = [] then ref else if filepath_IsAbs ref then ref else filepath_Join [baseDir, ref])"

section \<open>Merging\<close>

text \<open>Hosts are merged by name and resources by identifier with the same code: an element whose key is
  in the index replaces the one at that position, any other is appended.\<close>

definition merge_index :: "('a \<Rightarrow> string) \<Rightarrow> 'a list \<Rightarrow> nat gomap" where
  "merge_index key dst = fold (\<lambda>(i, x). mput (key x) i) (zip [0..<length dst] dst) []"

definition merge_one :: "('a \<Rightarrow> string) \<Rightarrow> nat gomap \<times> 'a list \<Rightarrow> 'a \<Rightarrow> nat gomap \<times> 'a list" where
  "merge_one key st x =
     (case mget (fst st) (key x) of
        Some i \<Rightarrow> (fst st, (snd st)[i := x])
      | None \<Rightarrow> (mput (key x) (length (snd st)) (fst st), snd st @ [x]))"

definition merge_by :: "('a \<Rightarrow> string) \<Rightarrow> 'a list \<Rightarrow> 'a list \<Rightarrow> 'a list" where
  "merge_by key dst src = snd (foldl (merge_one key) (merge_index key dst, dst) src)"

definition mergeInventory :: "host list \<Rightarrow> host list \<Rightarrow> host list" where
  "mergeInventory = merge_by h_name"

definition mergeResources :: "resource list \<Rightarrow> resource list \<Rightarrow> resource list" where
  "mergeResources = merge_by r_id"

definition mergeExecution :: "execution \<Rightarrow> execution \<Rightarrow> execution" where
  "mergeExecution dst src =
     \<lparr>ex_strategy = (if TrimSpace (ex_strategy src) \<noteq> [] then ex_strategy src else ex_strategy dst),
      ex_serial = (if ex_serial src \<noteq> 0 then ex_serial src else ex_serial dst),
      ex_failure_domain = (if TrimSpace (ex_failure_domain src) \<noteq> [] then ex_failure_domain src else ex_failure_domain dst),
      ex_max_fail_percentage = (if ex_max_fail_percentage src \<noteq> 0 then ex_max_fail_percentage src else ex_max_fail_percentage dst),
      ex_any_errors_fatal = (ex_any_errors_fatal src \<or> ex_any_errors_fatal dst)\<rparr>"

definition mergeConfig :: "config \<Rightarrow> config \<Rightarrow> config" where
  "mergeConfig dst src = dst\<lparr>
     cfg_version := (if TrimSpace (cfg_version src) \<noteq> [] then cfg_version src else cfg_version dst),
     cfg_hosts := mergeInventory (cfg_hosts dst) (cfg_hosts src),
     cfg_execution := mergeExecution (cfg_execution dst) (cfg_execution src),
     cfg_resources := mergeResources (cfg_resources dst) (cfg_resources src),
     cfg_handlers := mergeResources (cfg_handlers dst) (cfg_handlers src)\<rparr>"

section \<open>Composition\<close>

definition parseConfigFile :: "loader \<Rightarrow> machine \<Rightarrow> string \<Rightarrow> config result" where
  "parseConfigFile ld m path =
     (case os_ReadFile m path of
        Inl e \<Rightarrow> Inl (''read config: '' @ e)
      | Inr b \<Rightarrow>
          if ToLower (filepath_Ext path) = ''.json''
          then (case ld_json ld b of Inl e \<Rightarrow> Inl (''parse json config: '' @ e) | Inr c \<Rightarrow> Inr c)
          else (case ld_yaml ld b of Inl e \<Rightarrow> Inl (''parse yaml config: '' @ e) | Inr c \<Rightarrow> Inr c))"

lemma parse_reads: "parseConfigFile ld m p = Inr c \<Longrightarrow> p \<in> set (mkeys (m_files m))"
  unfolding set_mkeys by (auto simp: parseConfigFile_def os_ReadFile_def split: option.splits)

definition cycle_error :: "string \<Rightarrow> string" where
  "cycle_error p = ''config composition cycle detected at '' @ p"

definition own_part :: "config \<Rightarrow> config" where
  "own_part raw = raw\<lparr>cfg_includes := [], cfg_imports := [], cfg_overlays := []\<rparr>"

text \<open>Every file on the stack has been read, and no file is on it twice: the number of files that are not
  on it is a bound on the depth of the recursion.\<close>

definition off_stack :: "machine \<Rightarrow> string list \<Rightarrow> nat" where
  "off_stack m stack = card (set (mkeys (m_files m)) - set stack)"

lemma off_stack_less: "p \<in> set (mkeys (m_files m)) \<Longrightarrow> p \<notin> set stack \<Longrightarrow> off_stack m (p # stack) < off_stack m stack"
  unfolding off_stack_def by (intro psubset_card_mono) auto

function loadComposedConfig :: "loader \<Rightarrow> machine \<Rightarrow> string \<Rightarrow> string list \<Rightarrow> config result"
  and load_refs :: "loader \<Rightarrow> machine \<Rightarrow> string \<Rightarrow> string list \<Rightarrow> string list \<Rightarrow> config \<Rightarrow> config result" where
  "loadComposedConfig ld m path stack =
     (let p = abs_path ld path in
      if p \<in> set stack then Inl (cycle_error p)
      else case parseConfigFile ld m p of
        Inl e \<Rightarrow> Inl e
      | Inr raw \<Rightarrow>
          (case load_refs ld m (filepath_Dir p) (cfg_includes raw) (p # stack) zero_config of
             Inl e \<Rightarrow> Inl e
           | Inr c1 \<Rightarrow>
               (case load_refs ld m (filepath_Dir p) (cfg_imports raw) (p # stack) c1 of
                  Inl e \<Rightarrow> Inl e
                | Inr c2 \<Rightarrow> load_refs ld m (filepath_Dir p) (cfg_overlays raw) (p # stack) (mergeConfig c2 (own_part raw)))))"
| "load_refs ld m base [] stack merged = Inr merged"
| "load_refs ld m base (r # rs) stack merged =
     (case loadComposedConfig ld m (resolveConfigRef base r) stack of
        Inl e \<Rightarrow> Inl e
      | Inr child \<Rightarrow> load_refs ld m base rs stack (mergeConfig merged child))"
  by pat_completeness auto
termination
  by (relation "inv_image (less_than <*lex*> less_than)
      (\<lambda>x. case x of Inl (ld, m, path, stack) \<Rightarrow> (off_stack m stack, 0)
                   | Inr (ld, m, base, rs, stack, merged) \<Rightarrow> (off_stack m stack, Suc (length rs)))")
    (auto simp: off_stack_less parse_reads simp del: set_map)

declare loadComposedConfig.simps [simp del]

datatype load_error = LoadFailed string | ConfigInvalid cfg_error

definition Load :: "loader \<Rightarrow> machine \<Rightarrow> string \<Rightarrow> load_error + config" where
  "Load ld m path =
     (case loadComposedConfig ld m (abs_path ld path) [] of
        Inl e \<Rightarrow> Inl (LoadFailed e)
      | Inr c \<Rightarrow>
          (case Validate (Some (expandConfigResources c)) of
             Inl e \<Rightarrow> Inl (ConfigInvalid e)
           | Inr c' \<Rightarrow> Inr c'))"

section \<open>Merging by key\<close>

definition by_key :: "('a \<Rightarrow> string) \<Rightarrow> 'a list \<Rightarrow> 'a gomap" where
  "by_key key xs = map (\<lambda>x. (key x, x)) xs"

definition indexed :: "('a \<Rightarrow> string) \<Rightarrow> nat gomap \<times> 'a list \<Rightarrow> bool" where
  "indexed key st \<longleftrightarrow> distinct (map key (snd st)) \<and>
     (\<forall>k i. mget (fst st) k = Some i \<longleftrightarrow> i < length (snd st) \<and> key (snd st ! i) = k)"

lemma merge_index_snoc: "merge_index key (xs @ [x]) = mput (key x) (length xs) (merge_index key xs)"
  by (simp add: merge_index_def)

lemma indexed_index: "distinct (map key dst) \<Longrightarrow> indexed key (merge_index key dst, dst)"
proof (induction dst rule: rev_induct)
  case (snoc x xs)
  then show ?case by (auto simp: indexed_def merge_index_snoc nth_append less_Suc_eq image_iff Bex_def in_set_conv_nth)
qed (simp add: indexed_def merge_index_def)

lemma merge_one_cases:
  assumes "indexed key st"
  obtains (replace) i where "mget (fst st) (key x) = Some i" "i < length (snd st)" "key (snd st ! i) = key x"
      "merge_one key st x = (fst st, (snd st)[i := x])"
    | (append) "key x \<notin> set (map key (snd st))" "merge_one key st x = (mput (key x) (length (snd st)) (fst st), snd st @ [x])"
proof (cases "mget (fst st) (key x)")
  case (Some i)
  then show thesis using replace assms by (auto simp: indexed_def merge_one_def)
next
  case None
  have "key x \<noteq> key y" if "y \<in> set (snd st)" for y
    using that None assms unfolding indexed_def by (metis in_set_conv_nth option.distinct(1))
  then show thesis using append None by (force simp: merge_one_def)
qed

lemma merge_one_keys:
  assumes "indexed key st"
  shows "map key (snd (merge_one key st x)) = (if key x \<in> set (map key (snd st)) then map key (snd st) else map key (snd st) @ [key x])"
  using assms
proof (cases rule: merge_one_cases [where x = x])
  case (replace i)
  then have "map key ((snd st)[i := x]) = map key (snd st)" by (metis list_update_id map_update nth_map)
  moreover have "key x \<in> set (map key (snd st))" using replace by (metis length_map nth_map nth_mem)
  ultimately show ?thesis using replace by simp
qed simp

lemma merge_one_indexed:
  assumes "indexed key st"
  shows "indexed key (merge_one key st x)"
  using assms
proof (cases rule: merge_one_cases [where x = x])
  case (replace i)
  then have "map key ((snd st)[i := x]) = map key (snd st)" by (metis list_update_id map_update nth_map)
  moreover have "key ((snd st)[i := x] ! j) = key (snd st ! j)" if "j < length (snd st)" for j
    using that replace by (cases "i = j") simp_all
  ultimately show ?thesis using replace assms by (auto simp: indexed_def)
next
  case append
  have "key (snd st ! i) \<noteq> key x" if "i < length (snd st)" for i using append(1) that by (metis length_map nth_map nth_mem)
  then show ?thesis using append assms by (auto simp: indexed_def nth_append less_Suc_eq)
qed

lemma by_key_get: "distinct (map key xs) \<Longrightarrow> mget (by_key key xs) k = Some x \<longleftrightarrow> x \<in> set xs \<and> key x = k"
  by (subst map_of_eq_Some_iff) (auto simp: by_key_def comp_def)

lemma merge_one_get:
  assumes "indexed key st"
  shows "mget (by_key key (snd (merge_one key st x))) = (mget (by_key key (snd st)))(key x \<mapsto> x)"
proof
  fix k
  have d: "distinct (map key (snd st))" "distinct (map key (snd (merge_one key st x)))"
    using assms merge_one_indexed [OF assms] by (simp_all add: indexed_def)
  have "mget (by_key key (snd (merge_one key st x))) k = Some y \<longleftrightarrow> ((mget (by_key key (snd st)))(key x \<mapsto> x)) k = Some y" for y
    using assms
  proof (cases rule: merge_one_cases [where x = x])
    case (replace i)
    have "y \<in> set ((snd st)[i := x]) \<longleftrightarrow> y = x \<or> y \<in> set (snd st) \<and> key y \<noteq> key x" 
    proof -
      have "key (snd st ! j) = key x \<longleftrightarrow> j = i" if "j < length (snd st)" for j
        using that replace(2,3) d(1) by (metis length_map nth_eq_iff_index_eq nth_map)
      then show ?thesis using replace(2) by (auto simp: in_set_conv_nth nth_list_update split: if_splits) metis
    qed
    then show ?thesis using replace(4) by_key_get [OF d(1)] by_key_get [OF d(2)] by auto
  next
    case append
    then have "y \<in> set (snd st) \<Longrightarrow> key y \<noteq> key x" for y by (metis image_eqI set_map)
    then show ?thesis using append(2) by_key_get [OF d(1)] by_key_get [OF d(2)] by auto
  qed
  then show "mget (by_key key (snd (merge_one key st x))) k = ((mget (by_key key (snd st)))(key x \<mapsto> x)) k"
    by (metis not_Some_eq)
qed

lemma merge_fold:
  assumes "indexed key st"
  shows "indexed key (foldl (merge_one key) st src) \<and>
    mget (by_key key (snd (foldl (merge_one key) st src))) = mget (by_key key (snd st)) ++ mget (by_key key (rev src)) \<and>
    prefix (map key (snd st)) (map key (snd (foldl (merge_one key) st src)))"
  using assms
proof (induction src arbitrary: st)
  case (Cons x src)
  have "prefix (map key (snd st)) (map key (snd (merge_one key st x)))" by (simp add: merge_one_keys [OF Cons.prems])
  moreover note Cons.IH [OF merge_one_indexed [OF Cons.prems, of x]]
  moreover have "mget (by_key key (rev (x # src))) = (\<lambda>k. if k = key x then Some x else None) ++ mget (by_key key (rev src))"
    by (auto simp: by_key_def map_add_def fun_eq_iff split: option.split)
  ultimately show ?case using merge_one_get [OF Cons.prems, of x]
    by (auto simp: map_add_def fun_eq_iff split: option.split elim: prefix_order.trans)
qed (simp add: by_key_def)

text \<open>Merging is an override of maps. For a destination without duplicate keys the merged list has no duplicate
  keys, keeps the elements of the destination in their places and maps every key to the last element of the source
  that has it, or else to what the destination had.\<close>

theorem merge_by_overrides:
  assumes "distinct (map key dst)"
  shows "distinct (map key (merge_by key dst src)) \<and> prefix (map key dst) (map key (merge_by key dst src)) \<and>
    mget (by_key key (merge_by key dst src)) = mget (by_key key dst) ++ mget (by_key key (rev src))"
  using merge_fold [OF indexed_index [OF assms], of src] by (simp add: merge_by_def indexed_def)

theorem merge_by_overrides_witness:
  "prefix [''pkg''] (map r_id (mergeResources [pkg_res] [svc_res, pkg_res\<lparr>r_command := ''upgrade''\<rparr>])) \<and>
   mget (by_key r_id (mergeResources [pkg_res] [svc_res, pkg_res\<lparr>r_command := ''upgrade''\<rparr>])) ''pkg'' = Some (pkg_res\<lparr>r_command := ''upgrade''\<rparr>)"
proof -
  have "distinct (map r_id [pkg_res])" "map r_id [pkg_res] = [''pkg'']" by code_simp+
  moreover have "r_id svc_res = ''svc''" "r_id pkg_res = ''pkg''" by code_simp+
  ultimately show ?thesis
    using merge_by_overrides [of r_id "[pkg_res]" "[svc_res, pkg_res\<lparr>r_command := ''upgrade''\<rparr>]"]
    by (simp add: mergeResources_def by_key_def map_add_def)
qed

section \<open>Which compositions load\<close>

definition refs_of :: "config \<Rightarrow> string list" where
  "refs_of raw = cfg_includes raw @ cfg_imports raw @ cfg_overlays raw"

text \<open>\<open>(p, q)\<close>: the file \<open>p\<close> parses and names the file \<open>q\<close>.\<close>

definition composes :: "loader \<Rightarrow> machine \<Rightarrow> (string \<times> string) set" where
  "composes ld m = {(p, q). \<exists>raw r. parseConfigFile ld m p = Inr raw \<and> r \<in> set (refs_of raw) \<and>
     q = abs_path ld (resolveConfigRef (filepath_Dir p) r)}"

definition good :: "loader \<Rightarrow> machine \<Rightarrow> string set \<Rightarrow> string \<Rightarrow> bool" where
  "good ld m avoid p \<longleftrightarrow> (\<forall>q. (p, q) \<in> (composes ld m)\<^sup>* \<longrightarrow>
     q \<notin> avoid \<and> is_ok (parseConfigFile ld m q) \<and> (q, q) \<notin> (composes ld m)\<^sup>+)"

lemma good_step:
  "good ld m avoid p \<longleftrightarrow> p \<notin> avoid \<and> is_ok (parseConfigFile ld m p) \<and> (\<forall>q. (p, q) \<in> composes ld m \<longrightarrow> good ld m (insert p avoid) q)"
    (is "_ \<longleftrightarrow> ?rhs")
proof
  assume g: "good ld m avoid p"
  have "good ld m (insert p avoid) q" if q: "(p, q) \<in> composes ld m" for q
    unfolding good_def
  proof (intro allI impI)
    fix r assume r: "(q, r) \<in> (composes ld m)\<^sup>*"
    then have pr: "(p, r) \<in> (composes ld m)\<^sup>+" using q by (rule rtrancl_into_trancl2 [rotated])
    then have "(p, r) \<in> (composes ld m)\<^sup>*" by simp
    then show "r \<notin> insert p avoid \<and> is_ok (parseConfigFile ld m r) \<and> (r, r) \<notin> (composes ld m)\<^sup>+"
      using g pr unfolding good_def by blast
  qed
  then show ?rhs using g unfolding good_def by blast
next
  assume r: ?rhs
  have "(p, p) \<notin> (composes ld m)\<^sup>+"
  proof
    assume "(p, p) \<in> (composes ld m)\<^sup>+"
    then obtain q where "(p, q) \<in> composes ld m" "(q, p) \<in> (composes ld m)\<^sup>*" by (meson tranclD)
    then show False using r unfolding good_def by blast
  qed
  note pp = this
  have "q \<notin> avoid \<and> is_ok (parseConfigFile ld m q) \<and> (q, q) \<notin> (composes ld m)\<^sup>+" if q: "(p, q) \<in> (composes ld m)\<^sup>*" for q
    using q
  proof (cases rule: converse_rtranclE)
    case (step c)
    then show ?thesis using r unfolding good_def by blast
  qed (use r pp in blast)
  then show "good ld m avoid p" unfolding good_def by blast
qed

lemma composes_iff:
  "parseConfigFile ld m p = Inr raw \<Longrightarrow>
     (\<forall>q. (p, q) \<in> composes ld m \<longrightarrow> P q) \<longleftrightarrow> (\<forall>r \<in> set (refs_of raw). P (abs_path ld (resolveConfigRef (filepath_Dir p) r)))"
  by (auto simp: composes_def)

lemma is_ok_case: "is_ok (case x of Inl e \<Rightarrow> Inl e | Inr y \<Rightarrow> f y) \<longleftrightarrow> (\<exists>y. x = Inr y \<and> is_ok (f y))"
  by (cases x) simp_all

lemma is_ok_chain:
  assumes "is_ok a \<longleftrightarrow> P" "\<And>c. a = Inr c \<Longrightarrow> is_ok (b c) \<longleftrightarrow> Q" "\<And>c d. a = Inr c \<Longrightarrow> b c = Inr d \<Longrightarrow> is_ok (f d) \<longleftrightarrow> R"
  shows "(\<exists>c d. a = Inr c \<and> b c = Inr d \<and> is_ok (f d)) \<longleftrightarrow> P \<and> Q \<and> R"
proof (cases a)
  case (Inr c)
  then show ?thesis using assms by (cases "b c") auto
qed (use assms(1) in simp)

lemma load_ok_iff:
  "is_ok (loadComposedConfig ld m path stack) \<longleftrightarrow> good ld m (set stack) (abs_path ld path)"
  "is_ok (load_refs ld m base rs stack merged) \<longleftrightarrow> (\<forall>r \<in> set rs. good ld m (set stack) (abs_path ld (resolveConfigRef base r)))"
proof (induction ld m path stack and ld m base rs stack merged rule: loadComposedConfig_load_refs.induct)
  case (1 ld m path stack)
  define p where "p = abs_path ld path"
  show ?case
  proof (cases "p \<notin> set stack \<and> is_ok (parseConfigFile ld m p)")
    case False
    then show ?thesis using good_step [of ld m "set stack" p]
      by (auto simp: loadComposedConfig.simps [of ld m path stack] p_def [symmetric] Let_def split: sum.split)
  next
    case True
    then obtain raw where raw: "parseConfigFile ld m p = Inr raw" "p \<notin> set stack" by (auto simp: is_ok_iff)
    note IH = 1(1) [OF p_def raw(2) raw(1)] 1(2) [OF p_def raw(2) raw(1)] 1(3) [OF p_def raw(2) raw(1)]
    have "is_ok (loadComposedConfig ld m path stack) \<longleftrightarrow>
        (\<exists>c1 c2. load_refs ld m (filepath_Dir p) (cfg_includes raw) (p # stack) zero_config = Inr c1 \<and>
           load_refs ld m (filepath_Dir p) (cfg_imports raw) (p # stack) c1 = Inr c2 \<and>
           is_ok (load_refs ld m (filepath_Dir p) (cfg_overlays raw) (p # stack) (mergeConfig c2 (own_part raw))))"
      using raw by (simp add: loadComposedConfig.simps [of ld m path stack] p_def [symmetric] is_ok_case)
    also have "\<dots> \<longleftrightarrow> (\<forall>r \<in> set (refs_of raw). good ld m (set (p # stack)) (abs_path ld (resolveConfigRef (filepath_Dir p) r)))"
      unfolding refs_of_def set_append ball_Un by (rule is_ok_chain) (rule IH; assumption)+
    finally have "is_ok (loadComposedConfig ld m path stack) \<longleftrightarrow>
        (\<forall>r \<in> set (refs_of raw). good ld m (set (p # stack)) (abs_path ld (resolveConfigRef (filepath_Dir p) r)))" .
    then show ?thesis using good_step [of ld m "set stack" p] raw composes_iff [OF raw(1)] by (simp add: p_def [symmetric])
  qed
next
  case (3 ld m base r rs stack merged)
  then show ?case by (cases "loadComposedConfig ld m (resolveConfigRef base r) stack") auto
qed simp

text \<open>What an error reports: a file that cannot be read or parsed, or one that is met again.\<close>

definition explained :: "loader \<Rightarrow> machine \<Rightarrow> string set \<Rightarrow> string \<Rightarrow> string \<Rightarrow> bool" where
  "explained ld m avoid p e \<longleftrightarrow> (\<exists>q. (p, q) \<in> (composes ld m)\<^sup>* \<and>
     (parseConfigFile ld m q = Inl e \<or> (q \<in> avoid \<or> (q, q) \<in> (composes ld m)\<^sup>+) \<and> e = cycle_error q))"

lemma explained_step:
  assumes "(p, c) \<in> composes ld m" "explained ld m (insert p avoid) c e"
  shows "explained ld m avoid p e"
proof -
  obtain q where q: "(c, q) \<in> (composes ld m)\<^sup>*"
    "parseConfigFile ld m q = Inl e \<or> (q \<in> insert p avoid \<or> (q, q) \<in> (composes ld m)\<^sup>+) \<and> e = cycle_error q"
    using assms(2) unfolding explained_def by blast
  have pq: "(p, q) \<in> (composes ld m)\<^sup>+" using assms(1) q(1) by (rule rtrancl_into_trancl2)
  then have "(p, q) \<in> (composes ld m)\<^sup>*" by simp
  moreover have "q = p \<Longrightarrow> (q, q) \<in> (composes ld m)\<^sup>+" using pq by simp
  ultimately show ?thesis using q(2) unfolding explained_def by blast
qed

lemma explained_now:
  "parseConfigFile ld m p = Inl e \<Longrightarrow> explained ld m avoid p e" "p \<in> avoid \<Longrightarrow> explained ld m avoid p (cycle_error p)"
  unfolding explained_def by blast+

lemma load_error:
  "loadComposedConfig ld m path stack = Inl e \<Longrightarrow> explained ld m (set stack) (abs_path ld path) e"
  "load_refs ld m base rs stack merged = Inl e \<Longrightarrow> \<exists>r \<in> set rs. explained ld m (set stack) (abs_path ld (resolveConfigRef base r)) e"
proof (induction ld m path stack and ld m base rs stack merged rule: loadComposedConfig_load_refs.induct)
  case (1 ld m path stack)
  define p where "p = abs_path ld path"
  note eq = 1(4) [unfolded loadComposedConfig.simps [of ld m path stack] Let_def p_def [symmetric]]
  show ?case
  proof (cases "p \<in> set stack")
    case True
    then show ?thesis using eq explained_now(2) [of p "set stack"] by (simp add: p_def [symmetric])
  next
    case out: False
    show ?thesis
    proof (cases "parseConfigFile ld m p")
      case (Inl e')
      then show ?thesis using eq out explained_now(1) by (simp add: p_def [symmetric])
    next
      case (Inr raw)
      note IH = 1(1) [OF p_def out Inr] 1(2) [OF p_def out Inr] 1(3) [OF p_def out Inr]
      have "\<exists>r \<in> set (refs_of raw). explained ld m (set (p # stack)) (abs_path ld (resolveConfigRef (filepath_Dir p) r)) e"
        using eq out Inr IH unfolding refs_of_def by (auto split: sum.splits)
      then obtain c where "(p, c) \<in> composes ld m" "explained ld m (insert p (set stack)) c e"
        using Inr by (auto simp: composes_def)
      then show ?thesis unfolding p_def [symmetric] by (rule explained_step)
    qed
  qed
next
  case (3 ld m base r rs stack merged)
  then show ?case by (cases "loadComposedConfig ld m (resolveConfigRef base r) stack") auto
qed simp

text \<open>A composition has no duplicates, also where a file has.\<close>

definition unique_names :: "config \<Rightarrow> bool" where
  "unique_names c \<longleftrightarrow> distinct (map h_name (cfg_hosts c)) \<and> distinct (res_ids c) \<and> distinct (map r_id (cfg_handlers c))"

lemma merge_distinct: "distinct (map key dst) \<Longrightarrow> distinct (map key (merge_by key dst src))"
  using merge_fold [OF indexed_index, of key dst src] by (simp add: merge_by_def indexed_def)

lemma mergeConfig_unique: "unique_names c \<Longrightarrow> unique_names (mergeConfig c d)"
  by (simp add: unique_names_def mergeConfig_def mergeInventory_def mergeResources_def merge_distinct)

lemma load_unique:
  "loadComposedConfig ld m path stack = Inr c \<Longrightarrow> unique_names c"
  "unique_names merged \<Longrightarrow> load_refs ld m base rs stack merged = Inr c \<Longrightarrow> unique_names c"
proof (induction ld m path stack and ld m base rs stack merged arbitrary: c and c rule: loadComposedConfig_load_refs.induct)
  case (1 ld m path stack)
  define p where "p = abs_path ld path"
  obtain raw c1 c2 where out: "p \<notin> set stack" and raw: "parseConfigFile ld m p = Inr raw"
    and l1: "load_refs ld m (filepath_Dir p) (cfg_includes raw) (p # stack) zero_config = Inr c1"
    and l2: "load_refs ld m (filepath_Dir p) (cfg_imports raw) (p # stack) c1 = Inr c2"
    and l3: "load_refs ld m (filepath_Dir p) (cfg_overlays raw) (p # stack) (mergeConfig c2 (own_part raw)) = Inr c"
    using 1(4) [unfolded loadComposedConfig.simps [of ld m path stack] Let_def p_def [symmetric]]
    by (simp split: if_splits sum.splits)
  have "unique_names zero_config" by (simp add: unique_names_def zero_config_def)
  then have "unique_names c1" using 1(1) [OF p_def out raw _ l1] by blast
  then have "unique_names c2" using 1(2) [OF p_def out raw l1 _ l2] by blast
  then have "unique_names (mergeConfig c2 (own_part raw))" by (rule mergeConfig_unique)
  then show ?case using 1(3) [OF p_def out raw l1 l2 _ l3] by blast
next
  case (3 ld m base r rs stack merged)
  then show ?case by (cases "loadComposedConfig ld m (resolveConfigRef base r) stack") (simp_all add: mergeConfig_unique)
qed simp

text \<open>C10: composition is complete and its errors are truthful. A file loads exactly when every file that it reaches
  through includes, imports and overlays can be read and parsed and none of them reaches itself; an error
  names the failure of a file that is reached, or a file that is reached and lies on a cycle; and the composition
  has no duplicate hosts, resources or handlers. (The load always returns: the recursion is bounded by the number of
  files, \<open>off_stack\<close>.)\<close>

theorem load_composition:
  assumes "R = composes ld m" and "p = abs_path ld path"
  shows "(is_ok (loadComposedConfig ld m path []) \<longleftrightarrow>
      (\<forall>q. (p, q) \<in> R\<^sup>* \<longrightarrow> is_ok (parseConfigFile ld m q) \<and> (q, q) \<notin> R\<^sup>+)) \<and>
    (\<forall>e. loadComposedConfig ld m path [] = Inl e \<longrightarrow>
      (\<exists>q. (p, q) \<in> R\<^sup>* \<and> (parseConfigFile ld m q = Inl e \<or> (q, q) \<in> R\<^sup>+ \<and> e = cycle_error q))) \<and>
    (\<forall>c. loadComposedConfig ld m path [] = Inr c \<longrightarrow> unique_names c)"
  using load_ok_iff(1) [of ld m path "[]"] load_error(1) [of ld m path "[]"] load_unique(1) [of ld m path "[]"]
  unfolding assms good_def explained_def by simp

text \<open>Two files, the first of which includes the second; and a file that overlays itself.\<close>

definition twice_config :: config where
  "twice_config = demo_config\<lparr>cfg_resources := [pkg_res, pkg_res\<lparr>r_command := ''upgrade''\<rparr>]\<rparr>"

definition blank_config :: config where
  "blank_config = demo_config\<lparr>cfg_resources := [pkg_res\<lparr>r_matrix := [(''os'', ['' ''])]\<rparr>]\<rparr>"

definition demo_loader :: loader where
  "demo_loader = \<lparr>ld_yaml = (\<lambda>b.
      if b = ''main'' then Inr (demo_config\<lparr>cfg_includes := ['' base.yaml ''], cfg_resources := [conf_res, svc_res]\<rparr>)
      else if b = ''base'' then Inr (zero_config\<lparr>cfg_resources := [pkg_res]\<rparr>)
      else if b = ''loop'' then Inr (zero_config\<lparr>cfg_overlays := [''../etc/loop.yaml'']\<rparr>)
      else if b = ''twice'' then Inr twice_config
      else if b = ''blank'' then Inr blank_config
      else Inl ''bad document''), ld_json = (\<lambda>b. Inl ''bad document''), ld_cwd = Some ''/etc''\<rparr>"

definition demo_files :: machine where
  "demo_files = \<lparr>m_files = [(''/etc/main.yaml'', ''main''), (''/etc/base.yaml'', ''base''), (''/etc/loop.yaml'', ''loop''),
     (''/etc/twice.yaml'', ''twice''), (''/etc/blank.yaml'', ''blank'')], m_refuse = [], m_slept = []\<rparr>"

lemma demo_loads:
  "is_ok (loadComposedConfig demo_loader demo_files ''main.yaml'' [])"
  "loadComposedConfig demo_loader demo_files ''loop.yaml'' [] = Inl (cycle_error ''/etc/loop.yaml'')"
  "abs_path demo_loader ''loop.yaml'' = ''/etc/loop.yaml''" "abs_path demo_loader ''main.yaml'' = ''/etc/main.yaml''"
  by code_simp+

theorem load_composition_witness:
  "is_ok (parseConfigFile demo_loader demo_files ''/etc/main.yaml'') \<and>
   (\<exists>q. (''/etc/loop.yaml'', q) \<in> (composes demo_loader demo_files)\<^sup>* \<and>
      (parseConfigFile demo_loader demo_files q = Inl (cycle_error ''/etc/loop.yaml'') \<or>
       (q, q) \<in> (composes demo_loader demo_files)\<^sup>+ \<and> cycle_error ''/etc/loop.yaml'' = cycle_error q))"
  using load_composition [OF refl refl, of demo_loader demo_files "''main.yaml''"]
    load_composition [OF refl refl, of demo_loader demo_files "''loop.yaml''"] demo_loads by auto

text \<open>loading bypasses checks of \<^verbatim>\<open>Validate\<close>. Files are merged and expanded before the validation sees
  them, so a file that repeats a resource identifier (the first definition is dropped), or whose matrix has no
  usable value, is rejected by \<^verbatim>\<open>Validate\<close> and accepted by \<^verbatim>\<open>Load\<close>.\<close>

theorem Load_bypasses_checks:
  "(\<exists>raw c. parseConfigFile demo_loader demo_files ''/etc/twice.yaml'' = Inr raw \<and> refs_of raw = [] \<and>
      length (cfg_resources raw) = 2 \<and> \<not> is_ok (Validate (Some raw)) \<and>
      Load demo_loader demo_files ''twice.yaml'' = Inr c \<and> map r_command (cfg_resources c) = [''upgrade'']) \<and>
   (\<exists>raw c. parseConfigFile demo_loader demo_files ''/etc/blank.yaml'' = Inr raw \<and> refs_of raw = [] \<and>
      \<not> is_ok (Validate (Some raw)) \<and> Load demo_loader demo_files ''blank.yaml'' = Inr c)"
proof -
  have parse: "parseConfigFile demo_loader demo_files ''/etc/twice.yaml'' = Inr twice_config"
    "parseConfigFile demo_loader demo_files ''/etc/blank.yaml'' = Inr blank_config"
    by (simp_all add: parseConfigFile_def os_ReadFile_def demo_files_def demo_loader_def filepath_Ext_def ToLower_def)
  have ok: "refs_of twice_config = []" "length (cfg_resources twice_config) = 2" "\<not> is_ok (Validate (Some twice_config))" "refs_of blank_config = []"
      "\<not> is_ok (Validate (Some blank_config))"
    by code_simp+
  have "map_option (\<lambda>c. map r_command (cfg_resources c)) (case Load demo_loader demo_files ''twice.yaml'' of Inl _ \<Rightarrow> None | Inr c \<Rightarrow> Some c) = Some [''upgrade'']"
    "is_ok (Load demo_loader demo_files ''blank.yaml'')" by code_simp+
  then have load: "\<exists>c. Load demo_loader demo_files ''twice.yaml'' = Inr c \<and> map r_command (cfg_resources c) = [''upgrade'']"
    "\<exists>c. Load demo_loader demo_files ''blank.yaml'' = Inr c" by (auto simp: is_ok_iff split: sum.splits)
  show ?thesis unfolding parse using ok load by simp
qed

end
