(* ===== verification/RunStore.thy ===== *)
theory RunStore
  imports Executor ConfigLoad
begin

text \<open>
  The run records on disk (internal/state/store.go) and the runner that takes a configuration file from loading to
  a saved record (internal/control/runner.go). The JSON codec of a record is a parameter. \<^verbatim>\<open>sort.Slice\<close>
  leaves open how records with the same start are ordered; the model keeps the order of the files.
\<close>

section \<open>Directories\<close>

text \<open>The path of a file below a directory, relative to it.\<close>

definition below :: "string \<Rightarrow> string \<Rightarrow> string option" where
  "below d f = (if HasPrefix f (d @ ''/'') then Some (drop (length d + 1) f) else None)"

text \<open>The entries of a directory, by name, each with whether it is a directory; \<open>None\<close>: there is no such directory.\<close>

definition os_ReadDir :: "machine \<Rightarrow> string \<Rightarrow> ((string \<times> bool) list option) result" where
  "os_ReadDir m d =
     (if d \<in> set (m_refuse m) then Inl (''open '' @ d @ '': permission denied'')
      else let rests = List.map_filter (below d) (mkeys (m_files m))
           in Inr (if rests = [] then None
                   else Some (sort_key fst (remdups (map (\<lambda>r. (takeWhile (\<lambda>c. c \<noteq> CHR ''/'') r, CHR ''/'' \<in> set r)) rests)))))"

definition os_RemoveAll :: "machine \<Rightarrow> string \<Rightarrow> machine result" where
  "os_RemoveAll m d =
     (if d \<in> set (m_refuse m) then Inl (''unlinkat '' @ d @ '': permission denied'')
      else Inr (m\<lparr>m_files := filter (\<lambda>(f, c). f \<noteq> d \<and> below d f = None) (m_files m)\<rparr>))"

section \<open>The store\<close>

record run_codec =
  rc_encode :: "run_record \<Rightarrow> string result"
  rc_decode :: "string \<Rightarrow> run_record result"

text \<open>A store is its base directory.\<close>

definition New_store :: "string \<Rightarrow> string" where
  "New_store base = filepath_Join [base, ''.masterchef'']"

definition runs_dir :: "string \<Rightarrow> string" where
  "runs_dir st = filepath_Join [st, ''runs'']"

definition run_path :: "string \<Rightarrow> string \<Rightarrow> string" where
  "run_path st i = filepath_Join [st, ''runs'', i @ ''.json'']"

definition SaveRun :: "run_codec \<Rightarrow> string \<Rightarrow> run_record \<Rightarrow> machine \<Rightarrow> machine result" where
  "SaveRun co st r m =
     (case os_MkdirAll m (runs_dir st) of
        Inl e \<Rightarrow> Inl (''create state dir: '' @ e)
      | Inr _ \<Rightarrow>
          (case rc_encode co r of
             Inl e \<Rightarrow> Inl (''marshal run record: '' @ e)
           | Inr b \<Rightarrow>
               (case os_WriteFile m (run_path st (run_id r)) b of
                  Inl e \<Rightarrow> Inl (''write run record: '' @ e)
                | Inr m' \<Rightarrow> Inr m')))"

definition GetRun_file :: "run_codec \<Rightarrow> string \<Rightarrow> string \<Rightarrow> machine \<Rightarrow> run_record result" where
  "GetRun_file co st i m =
     (if i = [] then Inl ''run id is required''
      else case os_ReadFile m (run_path st i) of
        Inl e \<Rightarrow> Inl e
      | Inr b \<Rightarrow> (case rc_decode co b of Inl e \<Rightarrow> Inl (''parse run file '' @ i @ '': '' @ e) | Inr r \<Rightarrow> Inr r))"

definition read_entry :: "run_codec \<Rightarrow> string \<Rightarrow> machine \<Rightarrow> run_record list \<Rightarrow> string \<times> bool \<Rightarrow> run_record list result" where
  "read_entry co dir m records e =
     (case e of (name, is_dir) \<Rightarrow>
        if is_dir \<or> filepath_Ext name \<noteq> ''.json'' then Inr records
        else case os_ReadFile m (filepath_Join [dir, name]) of
          Inl err \<Rightarrow> Inl (''read run file '' @ name @ '': '' @ err)
        | Inr b \<Rightarrow>
            (case rc_decode co b of
               Inl err \<Rightarrow> Inl (''parse run file '' @ name @ '': '' @ err)
             | Inr r \<Rightarrow> Inr (records @ [r])))"

definition ListRuns :: "run_codec \<Rightarrow> string \<Rightarrow> int \<Rightarrow> machine \<Rightarrow> run_record list result" where
  "ListRuns co st limit m =
     (case os_ReadDir m (runs_dir st) of
        Inl e \<Rightarrow> Inl (''read runs dir: '' @ e)
      | Inr None \<Rightarrow> Inr []
      | Inr (Some es) \<Rightarrow>
          (case try_fold (read_entry co (runs_dir st) m) [] es of
             Inl e \<Rightarrow> Inl e
           | Inr records \<Rightarrow>
               let records = sort_key (\<lambda>r. - run_started r) records
               in Inr (if 0 < limit \<and> limit < int (length records) then take (nat limit) records else records)))"

definition ReplaceRuns :: "run_codec \<Rightarrow> string \<Rightarrow> run_record list \<Rightarrow> machine \<Rightarrow> machine result" where
  "ReplaceRuns co st runs m =
     (case os_RemoveAll m (runs_dir st) of
        Inl e \<Rightarrow> Inl (''remove existing runs dir: '' @ e)
      | Inr m \<Rightarrow>
          (case os_MkdirAll m (runs_dir st) of
             Inl e \<Rightarrow> Inl (''create runs dir: '' @ e)
           | Inr _ \<Rightarrow> try_fold (\<lambda>m r. SaveRun co st r m) m runs))"

section \<open>The runner\<close>

datatype apply_error = ApplyLoad load_error | ApplyPlan string | ApplySave string | ApplyFailed

definition ApplyPath :: "loader \<Rightarrow> run_codec \<Rightarrow> shell \<Rightarrow> exec_env \<Rightarrow> string \<Rightarrow> string \<Rightarrow> machine \<Rightarrow> machine \<times> apply_error option" where
  "ApplyPath ld co sh env base path m =
     (case Load ld m path of
        Inl e \<Rightarrow> (m, Some (ApplyLoad e))
      | Inr cfg \<Rightarrow>
          (case Build cfg of
             Inl e \<Rightarrow> (m, Some (ApplyPlan e))
           | Inr p \<Rightarrow>
               (case Apply (new_env env base (builtin_registry sh)) p m of
                  (r, m1) \<Rightarrow>
                    (case SaveRun co (New_store base) r m1 of
                       Inl e \<Rightarrow> (m1, Some (ApplySave e))
                     | Inr m2 \<Rightarrow> (m2, if run_status_of r \<noteq> RunSucceeded then Some ApplyFailed else None)))))"

section \<open>Paths of run files\<close>

lemma split_slash_snoc: "split_slash (p @ CHR ''/'' # q) = split_slash p @ split_slash q"
proof (induction p)
  case (Cons c p)
  then show ?case using split_slash_nonempty [of p] by (cases "split_slash p") auto
qed simp

lemma Join_snoc: "xs \<noteq> [] \<Longrightarrow> Join (xs @ [y]) sep = Join xs sep @ sep @ y"
proof (induction xs sep rule: Join.induct)
  case (3 x y' ys sep)
  then show ?case by simp
qed simp_all

definition clean_stack :: "string \<Rightarrow> string list" where
  "clean_stack p = foldl (clean_elem (HasPrefix p ''/'')) [] (split_slash p)"

lemma Clean_snoc:
  assumes "clean_stack p \<noteq> []" "p \<noteq> []" "plain_elem x" "x \<noteq> ''..''"
  shows "filepath_Clean (p @ ''/'' @ x) = filepath_Clean p @ ''/'' @ x"
proof -
  have x: "split_slash x = [x]" "clean_elem b out x = x # out" for b out
    using assms(3,4) by (simp_all add: plain_elem_def split_slash_plain clean_elem_def)
  have root: "HasPrefix (p @ ''/'' @ x) ''/'' = HasPrefix p ''/''" using assms(2) by (cases p) (simp_all add: HasPrefix_def)
  have "foldl (clean_elem (HasPrefix p ''/'')) [] (split_slash (p @ ''/'' @ x)) = x # clean_stack p"
    by (simp add: split_slash_snoc x clean_stack_def)
  moreover have "Join (rev (clean_stack p)) ''/'' \<noteq> []"
    using Join_first [of "rev (clean_stack p)" "''/''"] stack_ok_elems [OF clean_stack_ok] assms(1) by (auto simp: clean_stack_def)
  moreover have "Join (rev (clean_stack p) @ [x]) ''/'' = Join (rev (clean_stack p)) ''/'' @ ''/'' @ x" using assms(1) by (simp add: Join_snoc)
  ultimately show ?thesis unfolding filepath_Clean_def Let_def root clean_stack_def [symmetric]
    by (cases "HasPrefix p ''/''") (simp_all add: clean_stack_def)
qed

definition plain_run_id :: "string \<Rightarrow> bool" where
  "plain_run_id i \<longleftrightarrow> CHR ''/'' \<notin> set i"

definition run_file :: "string \<Rightarrow> string" where
  "run_file i = i @ ''.json''"

lemma run_file_plain: "plain_run_id i \<Longrightarrow> plain_elem (run_file i) \<and> run_file i \<noteq> ''..''"
  by (cases i) (auto simp: plain_run_id_def run_file_def plain_elem_def)

lemma run_file_inj [simp]: "run_file i = run_file j \<longleftrightarrow> i = j"
  by (simp add: run_file_def)

definition runs_raw :: "string \<Rightarrow> string" where
  "runs_raw st = (if st = [] then ''runs'' else st @ ''/'' @ ''runs'')"

lemma runs_raw_stack: "clean_stack (runs_raw st) \<noteq> []" "runs_raw st \<noteq> []"
proof -
  have r: "split_slash ''runs'' = [''runs'']" "clean_elem b out ''runs'' = ''runs'' # out" for b out
    by (simp_all add: clean_elem_def)
  show "clean_stack (runs_raw st) \<noteq> []" by (simp add: clean_stack_def runs_raw_def split_slash_snoc r del: split_slash.simps)
  show "runs_raw st \<noteq> []" by (simp add: runs_raw_def)
qed

lemma runs_dir_clean: "runs_dir st = filepath_Clean (runs_raw st)"
  by (simp add: runs_dir_def filepath_Join_def runs_raw_def)

lemma run_path_below: "plain_run_id i \<Longrightarrow> run_path st i = runs_dir st @ ''/'' @ run_file i"
proof -
  assume "plain_run_id i"
  moreover have "run_path st i = filepath_Clean (runs_raw st @ ''/'' @ run_file i)"
    by (simp add: run_path_def filepath_Join_def runs_raw_def run_file_def)
  ultimately show ?thesis using Clean_snoc [OF runs_raw_stack] run_file_plain [of i] by (simp add: runs_dir_clean)
qed

lemma runs_dir_nonempty: "runs_dir st \<noteq> []"
  by (simp add: runs_dir_clean filepath_Clean_def Let_def)

lemma entry_path:
  assumes "plain_run_id i"
  shows "filepath_Join [runs_dir st, run_file i] = run_path st i"
proof -
  have p: "filepath_Clean (runs_raw st @ ''/'' @ run_file i) = runs_dir st @ ''/'' @ run_file i"
    using Clean_snoc [OF runs_raw_stack] run_file_plain [OF assms] by (simp add: runs_dir_clean)
  have "filepath_Join [runs_dir st, run_file i] = filepath_Clean (runs_dir st @ ''/'' @ run_file i)"
    using runs_dir_nonempty by (simp add: filepath_Join_def run_file_def)
  also have "\<dots> = runs_dir st @ ''/'' @ run_file i" unfolding p [symmetric] by (rule filepath_Clean_idem)
  finally show ?thesis using run_path_below [OF assms] by simp
qed

lemma below_run_path: "plain_run_id i \<Longrightarrow> below (runs_dir st) (run_path st i) = Some (run_file i)"
  by (simp add: below_def run_path_below HasPrefix_def)

lemma run_file_ext [simp]: "filepath_Ext (run_file i) = ''.json''"
  by (simp add: filepath_Ext_def run_file_def Let_def)

section \<open>Saved runs are read back\<close>

lemma SaveRun_writes:
  assumes "SaveRun co st r m = Inr m'"
  shows "\<exists>b. rc_encode co r = Inr b \<and> os_WriteFile m (run_path st (run_id r)) b = Inr m'"
  using assms by (auto simp: SaveRun_def split: sum.splits)

text \<open>A saved run is read back. If decoding undoes encoding, then after \<^verbatim>\<open>SaveRun\<close> has succeeded, \<^verbatim>\<open>GetRun\<close>
  returns exactly the saved record for its identifier, and for every other identifier (of one path element) what it
  returned before.\<close>

theorem run_store_roundtrip:
  assumes codec: "\<And>r b. rc_encode co r = Inr b \<Longrightarrow> rc_decode co b = Inr r" and save: "SaveRun co st r m = Inr m'" and "run_id r \<noteq> []"
  shows "GetRun_file co st (run_id r) m' = Inr r \<and>
    (\<forall>j. plain_run_id (run_id r) \<and> plain_run_id j \<and> j \<noteq> run_id r \<longrightarrow> GetRun_file co st j m' = GetRun_file co st j m)"
proof -
  obtain b where b: "rc_encode co r = Inr b" "os_WriteFile m (run_path st (run_id r)) b = Inr m'" using SaveRun_writes [OF save] by blast
  have "GetRun_file co st (run_id r) m' = Inr r"
    using read_after_write [OF b(2)] codec [OF b(1)] assms(3) by (simp add: GetRun_file_def)
  moreover have "GetRun_file co st j m' = GetRun_file co st j m" if "plain_run_id (run_id r)" "plain_run_id j" "j \<noteq> run_id r" for j
    using read_other_after_write [OF b(2), of "run_path st j"] that by (simp add: GetRun_file_def run_path_below)
  ultimately show ?thesis by blast
qed

text \<open>Replacing the runs: the files that are written, and what a listing finds.\<close>

lemma fold_mput_fresh:
  assumes "distinct (map k rs)" "set (map k rs) \<inter> set (mkeys m) = {}"
  shows "fold (\<lambda>r. mput (k r) (v r)) rs m = m @ map (\<lambda>r. (k r, v r)) rs"
  using assms
proof (induction rs arbitrary: m)
  case (Cons r rs)
  have "mput (k r) (v r) m = m @ [(k r, v r)]" using Cons.prems(2) by (intro mput_fresh) auto
  then show ?case using Cons.IH [of "m @ [(k r, v r)]"] Cons.prems by auto
qed simp

definition encoded :: "run_codec \<Rightarrow> run_record \<Rightarrow> string" where
  "encoded co r = (case rc_encode co r of Inl _ \<Rightarrow> [] | Inr b \<Rightarrow> b)"

lemma save_all:
  assumes "try_fold (\<lambda>m r. SaveRun co st r m) m rs = Inr m'"
  shows "m_refuse m' = m_refuse m \<and> m_files m' = fold (\<lambda>r. mput (run_path st (run_id r)) (encoded co r)) rs (m_files m) \<and>
    (\<forall>r \<in> set rs. rc_encode co r = Inr (encoded co r))"
  using assms
proof (induction rs arbitrary: m)
  case (Cons r rs)
  obtain m1 where m1: "SaveRun co st r m = Inr m1" "try_fold (\<lambda>m r. SaveRun co st r m) m1 rs = Inr m'"
    using Cons.prems by (auto split: sum.splits)
  obtain b where b: "rc_encode co r = Inr b" "os_WriteFile m (run_path st (run_id r)) b = Inr m1" using SaveRun_writes [OF m1(1)] by blast
  have enc: "encoded co r = b" using b(1) by (simp add: encoded_def)
  have "m_files m1 = mput (run_path st (run_id r)) (encoded co r) (m_files m)" "m_refuse m1 = m_refuse m"
    using b(2) unfolding enc os_WriteFile_def by (simp_all split: if_splits) auto
  then show ?case using Cons.IH [OF m1(2)] b(1) enc by simp
qed simp

lemma sort_key_map: "sort_key k (map f xs) = map f (sort_key (\<lambda>x. k (f x)) xs)"
proof (induction xs)
  case (Cons x xs)
  have "insort_key k (f x) (map f ys) = map f (insort_key (\<lambda>x. k (f x)) x ys)" for ys by (induction ys) simp_all
  then show ?case using Cons by simp
qed simp

lemma read_entries:
  assumes "\<And>r. r \<in> set rs \<Longrightarrow> plain_run_id (run_id r) \<and> os_ReadFile m (run_path st (run_id r)) = Inr (encoded co r) \<and> rc_decode co (encoded co r) = Inr r"
  shows "try_fold (read_entry co (runs_dir st) m) acc (map (\<lambda>r. (run_file (run_id r), False)) rs) = Inr (acc @ rs)"
  using assms
proof (induction rs arbitrary: acc)
  case (Cons r rs)
  have "read_entry co (runs_dir st) m acc (run_file (run_id r), False) = Inr (acc @ [r])"
    using Cons.prems [of r] entry_path [of "run_id r" st] by (simp add: read_entry_def)
  then show ?case using Cons.IH Cons.prems by simp
qed simp

lemma listing_after_save:
  assumes "List.map_filter (below (runs_dir st)) (mkeys fs) = []" "\<And>r. r \<in> set rs \<Longrightarrow> plain_run_id (run_id r)"
    and "distinct (map run_id rs)" "runs_dir st \<notin> set (m_refuse m)"
    and "m_files m = fs @ map (\<lambda>r. (run_path st (run_id r), encoded co r)) rs" "rs \<noteq> []"
  shows "os_ReadDir m (runs_dir st) = Inr (Some (map (\<lambda>r. (run_file (run_id r), False)) (sort_key (run_file \<circ> run_id) rs)))"
proof -
  let ?e = "\<lambda>r. (run_file (run_id r), False)"
  have "List.map_filter (below (runs_dir st)) (map (\<lambda>r. run_path st (run_id r)) rs) = map (\<lambda>r. run_file (run_id r)) rs"
    using assms(2) by (induction rs) (simp_all add: below_run_path)
  then have rests: "List.map_filter (below (runs_dir st)) (mkeys (m_files m)) = map (\<lambda>r. run_file (run_id r)) rs"
    using assms(1,5) by (simp add: comp_def List.map_filter_def)
  have "takeWhile (\<lambda>c. c \<noteq> CHR ''/'') (run_file (run_id r)) = run_file (run_id r) \<and> CHR ''/'' \<notin> set (run_file (run_id r))" if "r \<in> set rs" for r
    using assms(2) [OF that] by (auto simp: plain_run_id_def run_file_def)
  then have entries: "map (\<lambda>r. (takeWhile (\<lambda>c. c \<noteq> CHR ''/'') r, CHR ''/'' \<in> set r)) (map (\<lambda>r. run_file (run_id r)) rs) = map ?e rs" by simp
  have "distinct (map ?e rs)" using assms(3) by (auto simp: distinct_map inj_on_def)
  then show ?thesis unfolding os_ReadDir_def Let_def rests entries using assms(4,6)
    by (simp add: distinct_remdups_id sort_key_map comp_def)
qed

lemma mget_filter: "P k \<Longrightarrow> mget (filter (\<lambda>(k, v). P k) m) k = mget m k"
  by (induction m) auto

definition kept_files :: "string \<Rightarrow> machine \<Rightarrow> string gomap" where
  "kept_files st m = filter (\<lambda>(f, c). f \<noteq> runs_dir st \<and> below (runs_dir st) f = None) (m_files m)"

lemma kept_below: "f \<in> set (mkeys (kept_files st m)) \<Longrightarrow> below (runs_dir st) f = None"
  by (auto simp: kept_files_def)

text \<open>After the runs have been replaced: the other files, then one file for each run.\<close>

lemma ReplaceRuns_files:
  assumes ids: "distinct (map run_id runs)" "\<And>r. r \<in> set runs \<Longrightarrow> plain_run_id (run_id r)"
    and rep: "ReplaceRuns co st runs m = Inr m'"
  shows "runs_dir st \<notin> set (m_refuse m')" "m_files m' = kept_files st m @ map (\<lambda>r. (run_path st (run_id r), encoded co r)) runs"
    "\<And>r. r \<in> set runs \<Longrightarrow> rc_encode co r = Inr (encoded co r)" "\<And>r. r \<in> set runs \<Longrightarrow> os_ReadFile m' (run_path st (run_id r)) = Inr (encoded co r)"
proof -
  let ?path = "\<lambda>r. run_path st (run_id r)"
  have ok: "runs_dir st \<notin> set (m_refuse m)" and saved: "try_fold (\<lambda>m r. SaveRun co st r m) (m\<lparr>m_files := kept_files st m\<rparr>) runs = Inr m'"
    using rep by (auto simp: ReplaceRuns_def os_RemoveAll_def kept_files_def split: sum.splits if_splits)
  have "?path r = ?path r' \<longleftrightarrow> run_id r = run_id r'" if "r \<in> set runs" "r' \<in> set runs" for r r'
    using ids(2) that by (simp add: run_path_below)
  then have d: "distinct (map ?path runs)" using ids(1) by (auto simp: distinct_map inj_on_def)
  have out: "?path r \<notin> set (mkeys (kept_files st m))" if "r \<in> set runs" for r
    using below_run_path [OF ids(2) [OF that], of st] kept_below [of "?path r" st m] by force
  then have fresh: "set (map ?path runs) \<inter> set (mkeys (kept_files st m)) = {}" by force
  show files: "m_files m' = kept_files st m @ map (\<lambda>r. (?path r, encoded co r)) runs"
    and "r \<in> set runs \<Longrightarrow> rc_encode co r = Inr (encoded co r)" and "runs_dir st \<notin> set (m_refuse m')" for r
    using save_all [OF saved] fold_mput_fresh [OF d fresh, of "encoded co"] ok by auto
  fix r assume r: "r \<in> set runs"
  have "mget (map (\<lambda>r. (?path r, encoded co r)) runs) (?path r) = Some (encoded co r)"
    using d r by (intro map_of_is_SomeI) (auto simp: comp_def)
  moreover have "mget (kept_files st m) (?path r) = None" using out [OF r] by (simp add: map_of_eq_None_iff)
  ultimately show "os_ReadFile m' (?path r) = Inr (encoded co r)" by (simp add: os_ReadFile_def files map_add_def)
qed

text \<open>C15: replacing the runs and listing them returns the same runs. If decoding undoes encoding, for records
  with different identifiers of one path element: after \<^verbatim>\<open>ReplaceRuns\<close> has succeeded, \<^verbatim>\<open>ListRuns\<close> without a limit
  returns exactly these records, the latest start first, whatever was in the directory before, and the files outside of it
  are as they were.\<close>

theorem ReplaceRuns_ListRuns:
  assumes codec: "\<And>r b. rc_encode co r = Inr b \<Longrightarrow> rc_decode co b = Inr r"
    and ids: "distinct (map run_id runs)" "\<And>r. r \<in> set runs \<Longrightarrow> plain_run_id (run_id r)"
    and rep: "ReplaceRuns co st runs m = Inr m'"
  shows "\<exists>rs. ListRuns co st 0 m' = Inr rs \<and> mset rs = mset runs \<and> sorted (map (\<lambda>r. - run_started r) rs) \<and>
    (\<forall>f. below (runs_dir st) f = None \<and> f \<noteq> runs_dir st \<longrightarrow> os_ReadFile m' f = os_ReadFile m f)"
proof -
  note f = ReplaceRuns_files [OF ids rep]
  have other: "os_ReadFile m' p = os_ReadFile m p" if "below (runs_dir st) p = None" "p \<noteq> runs_dir st" for p
  proof -
    have "mget (map (\<lambda>r. (run_path st (run_id r), encoded co r)) runs) p = None"
      using below_run_path [OF ids(2), of _ st] that(1) by (force simp: map_of_eq_None_iff)
    moreover have "mget (kept_files st m) p = mget (m_files m) p" unfolding kept_files_def
      by (rule mget_filter [where P = "\<lambda>f. f \<noteq> runs_dir st \<and> below (runs_dir st) f = None"]) (use that in simp)
    ultimately show ?thesis by (simp add: os_ReadFile_def f(2) map_add_def split: option.split)
  qed
  have none: "List.map_filter (below (runs_dir st)) (mkeys (kept_files st m)) = []"
    using kept_below by (auto simp: List.map_filter_def filter_empty_conv)
  have "\<exists>rs. ListRuns co st 0 m' = Inr (sort_key (\<lambda>r. - run_started r) rs) \<and> mset rs = mset runs"
  proof (cases "runs = []")
    case True
    then show ?thesis using none f(1,2) by (simp add: ListRuns_def os_ReadDir_def)
  next
    case False
    let ?rs = "sort_key (run_file \<circ> run_id) runs"
    have "try_fold (read_entry co (runs_dir st) m') [] (map (\<lambda>r. (run_file (run_id r), False)) ?rs) = Inr ?rs"
      using read_entries [of ?rs m' st co "[]"] ids(2) f(4) codec [OF f(3)] by simp
    then have "ListRuns co st 0 m' = Inr (sort_key (\<lambda>r. - run_started r) ?rs)"
      using listing_after_save [OF none ids(2,1) f(1,2) False] by (simp add: ListRuns_def)
    then show ?thesis by (intro exI [of _ ?rs]) simp
  qed
  then show ?thesis using other by (metis mset_sort sorted_sort_key)
qed

section \<open>From a file to a saved record\<close>

lemma New_builtin: "New sh env base = Some (new_env env base (builtin_registry sh))"
  by (simp add: New_def NewBuiltinRegistry_ok)


lemma Apply_success:
  assumes "run_status_of (fst (Apply env p m)) = RunSucceeded"
  shows "as_failed (main_run env p m) = 0 \<and> length (apply_steps p) \<le> length (run_results (fst (Apply env p m)))"
proof -
  let ?a = "main_run env p m" and ?n = "length (apply_steps p)"
  have ok: "as_status ?a = RunSucceeded" using assms by (cases "as_status ?a") (simp_all add: Apply_def Let_def)
  note c = state_after_counts [of ?n p env m, folded main_run_succeeds [OF ok]]
  have "\<exists>rs. as_results (handler_loop env (pl_handlers p) hs ?a) = as_results ?a @ rs"
    if "as_status (handler_loop env (pl_handlers p) hs ?a) = RunSucceeded" for hs using handler_loop_succeeds [OF that] by blast
  then have "\<exists>rs. run_results (fst (Apply env p m)) = as_results ?a @ rs" using assms ok by (auto simp: Apply_def Let_def)
  then show ?thesis using c(1,5) ok by auto
qed

lemma Load_valid: "Load ld m path = Inr c \<Longrightarrow> valid_config c"
  using Validate_Inr_valid by (auto simp: Load_def split: sum.splits)

lemma nano_stamp_nonempty [simp]: "nano_stamp t \<noteq> []"
  by (simp add: nano_stamp_def)

text \<open>C5: the whole path from a file to a saved record. If decoding undoes encoding and applying a file reports no error,
  then the file loaded to a valid configuration whose relations are acyclic (for identifiers without an arrow) and got a
  plan, no step of the plan failed and each has a result, and the store returns the record of this run, which is reported
  as succeeded. If loading or planning fails, nothing on the machine has changed.\<close>

theorem ApplyPath_end_to_end:
  assumes codec: "\<And>r b. rc_encode co r = Inr b \<Longrightarrow> rc_decode co b = Inr r"
    and run: "ApplyPath ld co sh env base path m = (m', e)" and ex: "ex = new_env env base (builtin_registry sh)"
  shows "(e = None \<longrightarrow> (\<exists>c p r. Load ld m path = Inr c \<and> valid_config c \<and> (arrow_free c \<longrightarrow> acyclic (cfg_edges c)) \<and>
      Build c = Inr p \<and> as_failed (main_run ex p m) = 0 \<and> length (apply_steps p) \<le> length (run_results r) \<and>
      run_status_of r = RunSucceeded \<and> GetRun_file co (New_store base) (run_id r) m' = Inr r)) \<and>
    ((\<exists>x. e = Some (ApplyLoad x)) \<or> (\<exists>x. e = Some (ApplyPlan x)) \<longrightarrow> m' = m)"
proof (intro conjI impI)
  assume "e = None"
  then obtain c p r m1 where c: "Load ld m path = Inr c" and p: "Build c = Inr p" and r: "Apply ex p m = (r, m1)" "run_status_of r = RunSucceeded"
    and s: "SaveRun co (New_store base) r m1 = Inr m'"
    using run by (auto simp: ApplyPath_def ex split: sum.splits prod.splits if_splits)
  have v: "valid_config c" by (rule Load_valid [OF c])
  have a: "acyclic (cfg_edges c)" if "arrow_free c"
    using plan_length_iff_acyclic [OF valid_plan_ready [OF v that]] p by (simp add: Build_Inr_iff)
  obtain b where b: "rc_encode co r = Inr b" "os_WriteFile m1 (run_path (New_store base) (run_id r)) b = Inr m'" using SaveRun_writes [OF s] by blast
  have "run_id r = nano_stamp (ev_now ex m)" using arg_cong [OF r(1), of fst] by (auto simp: Apply_def Let_def)
  then have "GetRun_file co (New_store base) (run_id r) m' = Inr r"
    using read_after_write [OF b(2)] codec [OF b(1)] by (simp add: GetRun_file_def)
  then show "\<exists>c p r. Load ld m path = Inr c \<and> valid_config c \<and> (arrow_free c \<longrightarrow> acyclic (cfg_edges c)) \<and>
      Build c = Inr p \<and> as_failed (main_run ex p m) = 0 \<and> length (apply_steps p) \<le> length (run_results r) \<and>
      run_status_of r = RunSucceeded \<and> GetRun_file co (New_store base) (run_id r) m' = Inr r"
    using c p v a r Apply_success [of ex p m] by (intro exI [of _ c] exI [of _ p] exI [of _ r]) simp
next
  assume "(\<exists>x. e = Some (ApplyLoad x)) \<or> (\<exists>x. e = Some (ApplyPlan x))"
  then show "m' = m" using run by (auto simp: ApplyPath_def split: sum.splits prod.splits if_splits)
qed

text \<open>The demonstration file applied on the local host, with a codec for its one record.\<close>

definition twice_record :: run_record where
  "twice_record = (case Load demo_loader demo_files ''twice.yaml'' of
     Inl _ \<Rightarrow> undefined
   | Inr c \<Rightarrow> (case Build c of Inl _ \<Rightarrow> undefined
     | Inr p \<Rightarrow> fst (Apply (new_env demo_env ''/srv'' (builtin_registry echo_shell)) p demo_files)))"

definition twice_codec :: run_codec where
  "twice_codec = \<lparr>rc_encode = (\<lambda>r. if r = twice_record then Inr ''record'' else Inl ''unsupported''), rc_decode = (\<lambda>b. Inr twice_record)\<rparr>"

definition twice_applied :: "machine \<times> apply_error option" where
  "twice_applied = ApplyPath demo_loader twice_codec echo_shell demo_env ''/srv'' ''twice.yaml'' demo_files"

lemma twice_ok: "snd twice_applied = None"
  by code_simp

lemma twice_codec_law: "rc_encode twice_codec r = Inr b \<Longrightarrow> rc_decode twice_codec b = Inr r"
  by (simp add: twice_codec_def split: if_splits)

theorem ApplyPath_end_to_end_witness:
  "\<exists>c p r. Load demo_loader demo_files ''twice.yaml'' = Inr c \<and> Build c = Inr p \<and> run_status_of r = RunSucceeded \<and>
     GetRun_file twice_codec (New_store ''/srv'') (run_id r) (fst twice_applied) = Inr r"
proof -
  have "ApplyPath demo_loader twice_codec echo_shell demo_env ''/srv'' ''twice.yaml'' demo_files = (fst twice_applied, None)"
    using twice_ok by (metis twice_applied_def prod.collapse)
  from ApplyPath_end_to_end [OF twice_codec_law this refl] show ?thesis by blast
qed

theorem run_store_roundtrip_witness:
  "\<exists>m'. SaveRun twice_codec ''/srv'' twice_record empty_machine = Inr m' \<and>
     GetRun_file twice_codec ''/srv'' (run_id twice_record) m' = Inr twice_record"
proof -
  have "is_ok (SaveRun twice_codec ''/srv'' twice_record empty_machine)" "run_id twice_record \<noteq> []" by code_simp+
  then obtain m' where "SaveRun twice_codec ''/srv'' twice_record empty_machine = Inr m'" "run_id twice_record \<noteq> []" by (auto simp: is_ok_iff)
  with run_store_roundtrip [OF twice_codec_law this] show ?thesis by blast
qed

theorem ReplaceRuns_ListRuns_witness:
  "\<exists>m'. ReplaceRuns twice_codec ''/srv'' [twice_record] empty_machine = Inr m' \<and>
     ListRuns twice_codec ''/srv'' 0 m' = Inr [twice_record]"
proof -
  have ids: "distinct (map run_id [twice_record])" by simp
  have plain: "plain_run_id (run_id twice_record)" by code_simp
  have "is_ok (ReplaceRuns twice_codec ''/srv'' [twice_record] empty_machine)" by code_simp
  then obtain m' where m': "ReplaceRuns twice_codec ''/srv'' [twice_record] empty_machine = Inr m'" by (auto simp: is_ok_iff)
  obtain rs where "ListRuns twice_codec ''/srv'' 0 m' = Inr rs" "mset rs = mset [twice_record]"
    using ReplaceRuns_ListRuns [OF twice_codec_law ids _ m'] plain by auto
  moreover from this(2) have "rs = [twice_record]" by (simp add: mset_single_iff)
  ultimately show ?thesis using m' by simp
qed

end
