(* ===== verification/ConfigTools.thy ===== *)
theory ConfigTools
  imports ConfigModel Provider
begin

text \<open>
  The canonical form of a configuration (internal/config/canonicalize.go) and its diagnostics
  (internal/config/doctor.go). The encoders of encoding/json and gopkg.in/yaml.v3 are parameters.
  \<^verbatim>\<open>sort.Slice\<close> leaves the order of equal keys open; the model keeps it, and the property below is about
  names and identifiers that are unique.
\<close>

section \<open>Canonical form\<close>

definition canonical_host :: "host \<Rightarrow> host" where
  "canonical_host h = h\<lparr>h_roles := sort (h_roles h)\<rparr>"

definition canonical_resource :: "resource \<Rightarrow> resource" where
  "canonical_resource r = r\<lparr>r_depends_on := sort (r_depends_on r), r_tags := sort (r_tags r)\<rparr>"

definition Canonicalize :: "config option \<Rightarrow> config" where
  "Canonicalize cfg =
     (case cfg of None \<Rightarrow> zero_config
      | Some c \<Rightarrow> c\<lparr>cfg_hosts := map canonical_host (sort_key h_name (cfg_hosts c)),
          cfg_resources := sort_key r_id (map canonical_resource (cfg_resources c))\<rparr>)"

record encoders =
  en_json :: "config \<Rightarrow> string result"
  en_yaml :: "config \<Rightarrow> string result"

definition MarshalCanonical :: "encoders \<Rightarrow> config option \<Rightarrow> string \<Rightarrow> string result" where
  "MarshalCanonical en cfg format =
     (let canon = Canonicalize cfg;
          format = ToLower (TrimSpace format);
          format = (if format = [] then ''yaml'' else format)
      in if format = ''json'' then en_json en canon
         else if format = ''yaml'' \<or> format = ''yml'' then en_yaml en canon
         else Inl (''unsupported format '' @ go_quote format))"

lemma sort_key_unique:
  assumes "mset xs = mset ys" "distinct (map f xs)"
  shows "sort_key f xs = sort_key f ys"
  by (rule sort_key_inj_key_eq) (use assms in \<open>simp_all add: distinct_map\<close>)

lemma canonical_names [simp]:
  "h_name (canonical_host h) = h_name h" "r_id (canonical_resource r) = r_id r"
  "canonical_host (canonical_host h) = canonical_host h" "canonical_resource (canonical_resource r) = canonical_resource r"
  by (simp_all add: canonical_host_def canonical_resource_def sort_key_id_if_sorted)

lemma map_sort_key: "(\<And>x. k (f x) = k x) \<Longrightarrow> map f (sort_key k xs) = sort_key k (map f xs)"
proof (induction xs)
  case (Cons x xs)
  have "map f (insort_key k x ys) = insort_key k (f x) (map f ys)" for ys
    by (induction ys) (simp_all add: Cons.prems)
  then show ?case using Cons by simp
qed simp

lemma Canonicalize_sorts:
  "Canonicalize (Some c) = c\<lparr>cfg_hosts := sort_key h_name (map canonical_host (cfg_hosts c)),
     cfg_resources := sort_key r_id (map canonical_resource (cfg_resources c))\<rparr>"
  by (simp add: Canonicalize_def map_sort_key)

text \<open>the canonical form is a normal form. It is its own canonical form, and two configurations with unique host
  names and resource identifiers that differ only in the order of hosts, resources, roles, dependencies and tags
  have the same one.\<close>

theorem Canonicalize_normal_form:
  assumes "distinct (map h_name (cfg_hosts c))" "distinct (map r_id (cfg_resources c))"
  shows "Canonicalize (Some (Canonicalize (Some c))) = Canonicalize (Some c) \<and>
    (\<forall>hs rs. mset (map canonical_host hs) = mset (map canonical_host (cfg_hosts c)) \<and>
       mset (map canonical_resource rs) = mset (map canonical_resource (cfg_resources c)) \<longrightarrow>
       Canonicalize (Some (c\<lparr>cfg_hosts := hs, cfg_resources := rs\<rparr>)) = Canonicalize (Some c))"
proof (intro conjI allI impI)
  have "map canonical_host (sort_key h_name (map canonical_host hs)) = sort_key h_name (map canonical_host hs)"
    "map canonical_resource (sort_key r_id (map canonical_resource rs)) = sort_key r_id (map canonical_resource rs)" for hs rs
    by (simp_all add: map_sort_key comp_def)
  then show "Canonicalize (Some (Canonicalize (Some c))) = Canonicalize (Some c)"
    by (simp add: Canonicalize_sorts sort_key_id_if_sorted)
next
  fix hs rs
  assume "mset (map canonical_host hs) = mset (map canonical_host (cfg_hosts c)) \<and>
    mset (map canonical_resource rs) = mset (map canonical_resource (cfg_resources c))"
  then have "sort_key h_name (map canonical_host (cfg_hosts c)) = sort_key h_name (map canonical_host hs)"
    "sort_key r_id (map canonical_resource (cfg_resources c)) = sort_key r_id (map canonical_resource rs)"
    using assms by (intro sort_key_unique; simp add: comp_def)+
  then show "Canonicalize (Some (c\<lparr>cfg_hosts := hs, cfg_resources := rs\<rparr>)) = Canonicalize (Some c)"
    by (simp add: Canonicalize_sorts)
qed

theorem Canonicalize_normal_form_witness:
  "Canonicalize (Some (demo_config\<lparr>cfg_hosts := rev (cfg_hosts demo_config), cfg_resources := rev (cfg_resources demo_config)\<rparr>)) =
   Canonicalize (Some demo_config)"
proof -
  have "distinct (map h_name (cfg_hosts demo_config))" "distinct (map r_id (cfg_resources demo_config))" by code_simp+
  from Canonicalize_normal_form [OF this] show ?thesis by (simp flip: rev_map)
qed

section \<open>Diagnostics\<close>

datatype severity = SeverityInfo | SeverityWarn | SeverityError

record diagnostic =
  dg_severity :: severity
  dg_code :: string
  dg_message :: string

definition host_diags :: "nat \<times> host \<Rightarrow> diagnostic list" where
  "host_diags = (\<lambda>(i, h).
     if h_transport h \<noteq> ''ssh'' then []
     else (if h_address h = [] then [\<lparr>dg_severity = SeverityWarn, dg_code = ''HOST_SSH_ADDRESS'',
             dg_message = ''inventory.hosts['' @ strconv_Itoa (int i) @ ''] ssh host should set address''\<rparr>] else []) @
          (if h_user h = [] then [\<lparr>dg_severity = SeverityInfo, dg_code = ''HOST_SSH_USER'',
             dg_message = ''inventory.hosts['' @ strconv_Itoa (int i) @ ''] ssh host should set user explicitly''\<rparr>] else []))"

definition resource_diags :: "nat \<times> resource \<Rightarrow> diagnostic list" where
  "resource_diags = (\<lambda>(i, r).
     if r_type r = ''command'' \<and> r_creates r = [] \<and> r_only_if r = [] \<and> r_unless r = []
     then [\<lparr>dg_severity = SeverityWarn, dg_code = ''CMD_NON_IDEMPOTENT'',
            dg_message = ''resources['' @ strconv_Itoa (int i) @ ''] command should set creates, only_if, or unless for idempotency''\<rparr>]
     else if r_type r = ''file'' \<and> r_mode r = []
     then [\<lparr>dg_severity = SeverityInfo, dg_code = ''FILE_MODE_UNSET'',
            dg_message = ''resources['' @ strconv_Itoa (int i) @ ''] file does not set mode explicitly''\<rparr>]
     else [])"

definition Analyze :: "config option \<Rightarrow> diagnostic list" where
  "Analyze cfg =
     (case cfg of
        None \<Rightarrow> [\<lparr>dg_severity = SeverityError, dg_code = ''CFG_NIL'', dg_message = ''config is nil''\<rparr>]
      | Some c \<Rightarrow>
          (if cfg_version c \<noteq> ''v0'' then [\<lparr>dg_severity = SeverityWarn, dg_code = ''CFG_VERSION'',
             dg_message = ''config version '' @ go_quote (cfg_version c) @ '' is not current stable version v0''\<rparr>] else []) @
          concat (map host_diags (zip [0..<length (cfg_hosts c)] (cfg_hosts c))) @
          concat (map resource_diags (zip [0..<length (cfg_resources c)] (cfg_resources c))))"

text \<open>Only a missing configuration is an error; a configuration without findings is of version v0, and every
  command in it has a guard.\<close>

lemma Analyze_errors: "dg_severity d = SeverityError \<Longrightarrow> d \<in> set (Analyze (Some c)) \<Longrightarrow> False"
  by (auto simp: Analyze_def host_diags_def resource_diags_def split: if_splits)

lemma Analyze_clean_guarded:
  assumes "Analyze (Some c) = []" "r \<in> set (cfg_resources c)" "r_type r = ''command''"
  shows "r_creates r \<noteq> [] \<or> r_only_if r \<noteq> [] \<or> r_unless r \<noteq> []"
proof -
  obtain i where "i < length (cfg_resources c)" "r = cfg_resources c ! i" using assms(2) by (auto simp: in_set_conv_nth)
  then have "(i, r) \<in> set (zip [0..<length (cfg_resources c)] (cfg_resources c))" by (force simp: set_zip)
  then have "resource_diags (i, r) = []" using assms(1) by (auto simp: Analyze_def)
  then show ?thesis using assms(3) by (auto simp: resource_diags_def split: if_splits)
qed

end
