(* ===== verification/PlanViews.thy ===== *)
theory PlanViews
  imports Planner GoOS
begin

text \<open>
  Views of a finished plan: the DOT export (internal/planner/graph.go), dependency queries
  (graph_query.go), the blast radius (analysis.go) and snapshots with their comparison (snapshot.go).
  The JSON codec and the hash of a snapshot are parameters. A nil plan is \<open>None\<close>.
\<close>

section \<open>DOT\<close>

definition step_by_id :: "plan \<Rightarrow> step gomap" where
  "step_by_id p = fold (\<lambda>s. mput (r_id (st_resource s)) s) (pl_steps p) []"

definition zero_step :: step where
  "zero_step = \<lparr>st_order = 0, st_host = zero_host, st_resource = zero_resource\<rparr>"

definition dq :: string where
  "dq = [CHR 0x22]"

definition newline :: string where
  "newline = [CHR 0x0A]"

definition dot_node :: "string \<Rightarrow> step \<Rightarrow> string" where
  "dot_node i s =
     (let label = i @ [CHR 0x5C] @ ''n(type='' @ r_type (st_resource s) @ '' host='' @ r_host (st_resource s) @ '' order='' @ strconv_Itoa (st_order s) @ '')''
      in ''  '' @ dq @ i @ dq @ '' [label='' @ dq @ label @ dq @ ''];'' @ newline)"

definition dot_edge :: "string \<Rightarrow> string \<Rightarrow> string" where
  "dot_edge dep i = ''  '' @ dq @ dep @ dq @ '' -> '' @ dq @ i @ dq @ '';'' @ newline"

definition ToDOT :: "plan \<Rightarrow> string" where
  "ToDOT p =
     (let ids = sort (map (r_id \<circ> st_resource) (pl_steps p));
          step_of = mget_or zero_step (step_by_id p)
      in ''digraph masterchef_plan {'' @ newline @ ''  rankdir=LR;'' @ newline @
         concat (map (\<lambda>i. dot_node i (step_of i)) ids) @
         concat (map (\<lambda>i. concat (map (\<lambda>d. dot_edge d (r_id (st_resource (step_of i)))) (sort (r_depends_on (st_resource (step_of i)))))) ids) @
         ''}'' @ newline)"

section \<open>Dependency queries\<close>

record query_request =
  rq_resource :: string
  rq_direction :: string
  rq_depth :: int

record query_result =
  rs_resource :: string
  rs_upstream :: "string list"
  rs_downstream :: "string list"
  rs_impacted :: "string list"

definition normalizeGraphDirection :: "string \<Rightarrow> string" where
  "normalizeGraphDirection d = (if d \<in> set [''upstream'', ''downstream'', ''both''] then d else ''both'')"

definition ensure_key :: "string \<Rightarrow> string list gomap \<Rightarrow> string list gomap" where
  "ensure_key i m = (if mget m i = None then mput i [] m else m)"

definition add_dep :: "string \<Rightarrow> string \<Rightarrow> string list gomap \<times> string list gomap \<Rightarrow> string list gomap \<times> string list gomap" where
  "add_dep i dep maps = (mput i (mget_or [] (fst maps) i @ [dep]) (fst maps), mput dep (mget_or [] (snd maps) dep @ [i]) (snd maps))"

definition add_step_deps :: "step \<Rightarrow> string list gomap \<times> string list gomap \<Rightarrow> string list gomap \<times> string list gomap" where
  "add_step_deps s maps =
     (let i = r_id (st_resource s)
      in fold (add_dep i) (r_depends_on (st_resource s)) (ensure_key i (fst maps), ensure_key i (snd maps)))"

definition sort_values :: "string list gomap \<Rightarrow> string list gomap" where
  "sort_values m = map (\<lambda>(k, v). (k, sort v)) m"

definition buildDependencyMaps :: "plan \<Rightarrow> string list gomap \<times> string list gomap" where
  "buildDependencyMaps p =
     (let (up, down) = fold add_step_deps (pl_steps p) ([], []) in (sort_values up, sort_values down))"

text \<open>One neighbour of a node at depth \<open>d\<close>: the nodes seen, the result and the queue.\<close>

definition visit_next :: "int \<Rightarrow> string \<Rightarrow> string list \<times> string list \<times> (string \<times> int) list \<Rightarrow> string list \<times> string list \<times> (string \<times> int) list" where
  "visit_next d i st =
     (case st of (seen, out, q) \<Rightarrow> if i \<in> set seen then st else (i # seen, out @ [i], q @ [(i, d + 1)]))"

text \<open>What a visit of all neighbours adds: the first occurrences of the nodes that are new.\<close>

fun fresh :: "string list \<Rightarrow> string list \<Rightarrow> string list" where
  "fresh seen [] = []"
| "fresh seen (i # is) = (if i \<in> set seen then fresh seen is else i # fresh (i # seen) is)"

lemma visit_all: "fold (visit_next d) ns (seen, out, q) = (rev (fresh seen ns) @ seen, out @ fresh seen ns, q @ map (\<lambda>i. (i, d + 1)) (fresh seen ns))"
  by (induction ns arbitrary: seen out q) (simp_all add: visit_next_def)

lemma set_fresh: "set (fresh seen ns) = set ns - set seen"
  by (induction ns arbitrary: seen) auto

lemma distinct_fresh: "distinct (fresh seen ns)"
  by (induction ns arbitrary: seen) (auto simp: set_fresh)

definition unseen :: "string list gomap \<Rightarrow> string list \<Rightarrow> nat" where
  "unseen g seen = card ((\<Union>(k, v) \<in> set g. set v) - set seen)"

lemma neighbours_in: "set (mget_or [] g i) \<subseteq> (\<Union>(k, v) \<in> set g. set v)"
  by (cases "mget g i") (auto simp: mget_or_def dest!: map_of_SomeD intro!: bexI)

lemma unseen_less:
  assumes "nw \<noteq> []" "set nw \<subseteq> (\<Union>(k, v) \<in> set g. set v) - set seen"
  shows "unseen g (rev nw @ seen) < unseen g seen"
  unfolding unseen_def
proof (intro psubset_card_mono)
  show "finite ((\<Union>(k, v) \<in> set g. set v) - set seen)" by auto
  have "last nw \<in> set nw" using assms(1) by simp
  then show "(\<Union>(k, v) \<in> set g. set v) - set (rev nw @ seen) \<subset> (\<Union>(k, v) \<in> set g. set v) - set seen"
    using assms(2) by auto
qed

lemma fresh_new: "set (fresh seen (mget_or [] g i)) \<subseteq> (\<Union>(k, v) \<in> set g. set v) - set seen"
  using neighbours_in [of g i] by (auto simp: set_fresh)

function traverse_loop :: "string list gomap \<Rightarrow> int \<Rightarrow> (string \<times> int) list \<Rightarrow> string list \<Rightarrow> string list \<Rightarrow> string list" where
  "traverse_loop g depth [] seen out = out"
| "traverse_loop g depth ((i, d) # q) seen out =
     (if 0 < depth \<and> depth \<le> d then traverse_loop g depth q seen out
      else (case fold (visit_next d) (mget_or [] g i) (seen, out, q) of
              (seen', out', q') \<Rightarrow> traverse_loop g depth q' seen' out'))"
  by pat_completeness auto
termination
proof (relation "inv_image (less_than <*lex*> less_than) (\<lambda>(g, depth, q, seen, out). (unseen g seen, length q))", goal_cases)
  case (3 g depth i d q seen out seen' y out' q')
  then have "seen' = rev (fresh seen (mget_or [] g i)) @ seen" "q' = q @ map (\<lambda>i. (i, d + 1)) (fresh seen (mget_or [] g i))"
    by (simp_all add: visit_all)
  then show ?case using unseen_less [OF _ fresh_new [of seen g i]] by (cases "fresh seen (mget_or [] g i) = []") simp_all
qed (auto intro: wf_inv_image wf_lex_prod)

definition traverseDependencies :: "string list gomap \<Rightarrow> string \<Rightarrow> int \<Rightarrow> string list" where
  "traverseDependencies g root depth = (if root = [] then [] else sort (traverse_loop g depth [(root, 0)] [root] []))"

definition QueryGraph :: "plan option \<Rightarrow> query_request \<Rightarrow> query_result" where
  "QueryGraph p req =
     (case p of
        None \<Rightarrow> \<lparr>rs_resource = rq_resource req, rs_upstream = [], rs_downstream = [], rs_impacted = []\<rparr>
      | Some p \<Rightarrow>
          let direction = normalizeGraphDirection (rq_direction req);
              (up, down) = buildDependencyMaps p;
              upstream = (if direction = ''upstream'' \<or> direction = ''both'' then traverseDependencies up (rq_resource req) (rq_depth req) else []);
              downstream = (if direction = ''downstream'' \<or> direction = ''both'' then traverseDependencies down (rq_resource req) (rq_depth req) else [])
          in \<lparr>rs_resource = rq_resource req, rs_upstream = upstream, rs_downstream = downstream,
              rs_impacted = sort (remdups (upstream @ downstream))\<rparr>)"

section \<open>Blast radius\<close>

record blast_radius =
  br_total_steps :: int
  br_hosts :: "string list"
  br_types :: "string list"
  br_max_order :: int
  br_scope :: string

definition AnalyzeBlastRadius :: "plan \<Rightarrow> blast_radius" where
  "AnalyzeBlastRadius p =
     (let hosts = sort (remdups (map (r_host \<circ> st_resource) (pl_steps p)));
          types = sort (remdups (map (r_type \<circ> st_resource) (pl_steps p)));
          max_order = fold (\<lambda>s m. if st_order s > m then st_order s else m) (pl_steps p) 0;
          n = length (pl_steps p)
      in \<lparr>br_total_steps = int n, br_hosts = hosts, br_types = types, br_max_order = max_order,
          br_scope = (if n \<ge> 25 \<or> length hosts \<ge> 10 then ''high'' else if n \<ge> 8 \<or> length hosts \<ge> 3 then ''medium'' else ''low'')\<rparr>)"

section \<open>Snapshots\<close>

record snapshot =
  sn_version :: string
  sn_plan :: "plan option"

record codec =
  co_snapshot :: "snapshot \<Rightarrow> string result"
  co_decode :: "string \<Rightarrow> snapshot result"
  co_step :: "step \<Rightarrow> string"
  co_plan :: "plan \<Rightarrow> string"
  co_sha256_hex :: "string \<Rightarrow> string"

record snapshot_diff =
  df_match :: bool
  df_added :: "string list"
  df_removed :: "string list"
  df_changed :: "string list"
  df_baseline_hash :: string
  df_current_hash :: string

definition zero_plan :: plan where
  "zero_plan = \<lparr>pl_execution = zero_execution, pl_steps = [], pl_handlers = []\<rparr>"

definition SaveSnapshot :: "codec \<Rightarrow> machine \<Rightarrow> string \<Rightarrow> plan option \<Rightarrow> machine result" where
  "SaveSnapshot co m path p =
     (case co_snapshot co \<lparr>sn_version = ''v1'', sn_plan = p\<rparr> of
        Inl e \<Rightarrow> Inl e
      | Inr b \<Rightarrow> (case os_MkdirAll m (filepath_Dir path) of Inl e \<Rightarrow> Inl e | Inr _ \<Rightarrow> os_WriteFile m path b))"

definition LoadSnapshot :: "codec \<Rightarrow> machine \<Rightarrow> string \<Rightarrow> snapshot result" where
  "LoadSnapshot co m path =
     (case os_ReadFile m path of
        Inl e \<Rightarrow> Inl e
      | Inr raw \<Rightarrow>
          (case co_decode co raw of
             Inl e \<Rightarrow> Inl e
           | Inr snap \<Rightarrow> Inr (if sn_plan snap = None then snap\<lparr>sn_plan := Some zero_plan\<rparr> else snap)))"

definition stepFingerprints :: "codec \<Rightarrow> plan \<Rightarrow> string gomap" where
  "stepFingerprints co p =
     fold (\<lambda>s m. let i = TrimSpace (r_id (st_resource s))
                 in if i = [] then m else mput i (co_sha256_hex co (co_step co s)) m) (pl_steps p) []"

definition hashPlan :: "codec \<Rightarrow> plan \<Rightarrow> string" where
  "hashPlan co p = co_sha256_hex co (co_plan co p)"

definition or_zero :: "plan option \<Rightarrow> plan" where
  "or_zero p = (case p of None \<Rightarrow> zero_plan | Some q \<Rightarrow> q)"

definition DiffPlans :: "codec \<Rightarrow> plan option \<Rightarrow> plan option \<Rightarrow> snapshot_diff" where
  "DiffPlans co baseline current =
     (let b = stepFingerprints co (or_zero baseline); c = stepFingerprints co (or_zero current);
          added = sort (filter (\<lambda>i. mget b i = None) (mkeys c));
          changed = sort (filter (\<lambda>i. mget b i \<noteq> None \<and> mget c i \<noteq> mget b i) (mkeys c));
          removed = sort (filter (\<lambda>i. mget c i = None) (mkeys b))
      in \<lparr>df_match = (added = [] \<and> removed = [] \<and> changed = []), df_added = added, df_removed = removed, df_changed = changed,
          df_baseline_hash = hashPlan co (or_zero baseline), df_current_hash = hashPlan co (or_zero current)\<rparr>)"

definition CompareSnapshot :: "codec \<Rightarrow> machine \<Rightarrow> string \<Rightarrow> plan option \<Rightarrow> snapshot_diff result" where
  "CompareSnapshot co m path current =
     (case LoadSnapshot co m path of Inl e \<Rightarrow> Inl e | Inr snap \<Rightarrow> Inr (DiffPlans co (sn_plan snap) current))"

section \<open>What a traversal finds\<close>

definition edges_of :: "string list gomap \<Rightarrow> (string \<times> string) set" where
  "edges_of g = {(i, j). j \<in> set (mget_or [] g i)}"

text \<open>The nodes within \<open>n\<close> edges of the root.\<close>

definition ball_at :: "(string \<times> string) set \<Rightarrow> string \<Rightarrow> nat \<Rightarrow> string set" where
  "ball_at E root n = {x. \<exists>k\<le>n. (root, x) \<in> E ^^ k}"

lemma ball_at_0 [simp]: "ball_at E root 0 = {root}"
  by (simp add: ball_at_def)

lemma ball_at_Suc: "ball_at E root (Suc n) = ball_at E root n \<union> E `` ball_at E root n"
proof -
  have "x \<in> ball_at E root n \<union> E `` ball_at E root n" if k: "k \<le> Suc n" "(root, x) \<in> E ^^ k" for x k
  proof (cases k)
    case (Suc j)
    then obtain y where "(root, y) \<in> E ^^ j" "(y, x) \<in> E" using k(2) by auto
    moreover have "j \<le> n" using Suc k(1) by simp
    ultimately have "x \<in> E `` ball_at E root n" unfolding ball_at_def by blast
    then show ?thesis by blast
  next
    case 0
    then have "x \<in> ball_at E root n" using k(2) unfolding ball_at_def by blast
    then show ?thesis by blast
  qed
  moreover have "x \<in> ball_at E root (Suc n)" if "k \<le> n" "(root, y) \<in> E ^^ k" "(y, x) \<in> E" for x y k
  proof -
    have "(root, x) \<in> E ^^ Suc k" using that by auto
    then show ?thesis using that(1) unfolding ball_at_def by (metis (mono_tags, lifting) Suc_le_mono mem_Collect_eq)
  qed
  ultimately show ?thesis unfolding ball_at_def by (auto intro: le_SucI) 
qed

lemma ball_at_mono: "m \<le> n \<Longrightarrow> ball_at E root m \<subseteq> ball_at E root n"
  by (auto simp: ball_at_def intro: le_trans)

lemma ball_at_closed:
  assumes "E `` ball_at E root n \<subseteq> ball_at E root n"
  shows "ball_at E root (n + m) = ball_at E root n"
  by (induction m) (use assms in \<open>auto simp: ball_at_Suc\<close>)

text \<open>A queue that holds one level is worked off level by level.\<close>

lemma fresh_append: "fresh seen (ns @ ms) = fresh seen ns @ fresh (rev (fresh seen ns) @ seen) ms"
  by (induction ns arbitrary: seen) simp_all

lemma level_step:
  assumes "\<not> (0 < depth \<and> depth \<le> d)"
  shows "traverse_loop g depth (map (\<lambda>i. (i, d)) level @ map (\<lambda>i. (i, d + 1)) next) seen out =
    (let nw = fresh seen (concat (map (mget_or [] g) level))
     in traverse_loop g depth (map (\<lambda>i. (i, d + 1)) (next @ nw)) (rev nw @ seen) (out @ nw))"
proof (induction level arbitrary: "next" seen out)
  case (Cons i level)
  have "traverse_loop g depth (map (\<lambda>i. (i, d)) (i # level) @ map (\<lambda>i. (i, d + 1)) next) seen out =
      traverse_loop g depth (map (\<lambda>i. (i, d)) level @ map (\<lambda>i. (i, d + 1)) (next @ fresh seen (mget_or [] g i)))
        (rev (fresh seen (mget_or [] g i)) @ seen) (out @ fresh seen (mget_or [] g i))"
    using assms by (auto simp: visit_all)
  then show ?case unfolding Cons.IH by (simp add: fresh_append Let_def)
qed simp

lemma level_cut:
  assumes "0 < depth" "depth \<le> d"
  shows "traverse_loop g depth (map (\<lambda>i. (i, d)) level) seen out = out"
  using assms by (induction level) simp_all

definition within :: "(string \<times> string) set \<Rightarrow> int \<Rightarrow> string \<Rightarrow> string set" where
  "within E depth root = {x. x \<noteq> root \<and> (\<exists>n. (depth \<le> 0 \<or> int n \<le> depth) \<and> (root, x) \<in> E ^^ n)}"

lemma within_ball:
  assumes "0 < depth \<and> depth = int n \<or> (depth \<le> 0 \<or> int n \<le> depth) \<and> E `` ball_at E root n \<subseteq> ball_at E root n"
  shows "within E depth root = ball_at E root n - {root}"
proof -
  have "x \<in> ball_at E root n" if "depth \<le> 0 \<or> int k \<le> depth" "(root, x) \<in> E ^^ k" for x k
  proof (cases "k \<le> n")
    case False
    then have "E `` ball_at E root n \<subseteq> ball_at E root n" using assms that(1) by auto
    then have "ball_at E root (n + (k - n)) = ball_at E root n" by (rule ball_at_closed)
    then show ?thesis using that(2) False unfolding ball_at_def by auto
  qed (use that in \<open>auto simp: ball_at_def\<close>)
  moreover have "depth \<le> 0 \<or> int k \<le> depth" if "k \<le> n" for k using assms that by auto
  ultimately show ?thesis unfolding within_def ball_at_def by blast
qed

lemma traverse_loop_spec:
  assumes "set seen = ball_at (edges_of g) root n" "set level \<subseteq> set seen" "set seen = insert root (set out)"
    and "edges_of g `` (set seen - set level) \<subseteq> set seen" "depth \<le> 0 \<or> int n \<le> depth" "distinct out" "root \<notin> set out"
  shows "set (traverse_loop g depth (map (\<lambda>i. (i, int n)) level) seen out) = within (edges_of g) depth root \<and>
    distinct (traverse_loop g depth (map (\<lambda>i. (i, int n)) level) seen out)"
  using assms
proof (induction "unseen g seen" arbitrary: seen level out n rule: less_induct)
  case less
  let ?E = "edges_of g"
  have out: "set out = ball_at ?E root n - {root}" using less.prems(1,3,7) by auto
  show ?case
  proof (cases "0 < depth \<and> depth \<le> int n")
    case True
    then have d: "depth = int n" using less.prems(5) by auto
    then show ?thesis using level_cut [of depth "int n" g level seen out] True within_ball [of depth n ?E root] out less.prems(6) by simp
  next
    case False
    define nw where "nw = fresh seen (concat (map (mget_or [] g) level))"
    have loop: "traverse_loop g depth (map (\<lambda>i. (i, int n)) level) seen out = traverse_loop g depth (map (\<lambda>i. (i, int (Suc n))) nw) (rev nw @ seen) (out @ nw)"
      using level_step [OF False, of g level "[]" seen out] by (simp add: nw_def Let_def add.commute)
    have nw: "set nw = ?E `` set level - set seen" "distinct nw"
      by (auto simp: nw_def set_fresh distinct_fresh edges_of_def)
    have E: "?E `` set seen \<subseteq> set seen \<union> set nw" using less.prems(2,4) nw(1) by blast
    show ?thesis
    proof (cases "nw = []")
      case True
      then have "?E `` ball_at ?E root n \<subseteq> ball_at ?E root n" using E less.prems(1) by simp
      then show ?thesis using loop True within_ball [of depth n ?E root] out less.prems(5,6) by simp
    next
      case nonempty: False
      have seen': "set (rev nw @ seen) = ball_at ?E root (Suc n)"
        unfolding ball_at_Suc less.prems(1) [symmetric] using E nw(1) less.prems(2) by auto
      have "set nw \<subseteq> (\<Union>(k, v) \<in> set g. set v) - set seen"
        unfolding nw_def set_fresh using neighbours_in [of g] by fastforce
      then have "unseen g (rev nw @ seen) < unseen g seen" by (rule unseen_less [OF nonempty])
      then show ?thesis unfolding loop
      proof (rule less.hyps)
        show "set (rev nw @ seen) = ball_at ?E root (Suc n)" by (rule seen')
        show "set (rev nw @ seen) = insert root (set (out @ nw))" using less.prems(3) by auto
        show "?E `` (set (rev nw @ seen) - set nw) \<subseteq> set (rev nw @ seen)" using E by auto
        show "depth \<le> 0 \<or> int (Suc n) \<le> depth" using False less.prems(5) by auto
        show "distinct (out @ nw)" using less.prems(3,6) nw by auto
        show "root \<notin> set (out @ nw)" using less.prems(3,7) nw(1) by auto
      qed auto
    qed
  qed
qed

definition dep_edges :: "plan \<Rightarrow> (string \<times> string) set" where
  "dep_edges p = (\<Union>s \<in> set (pl_steps p). (\<lambda>d. (d, r_id (st_resource s))) ` set (r_depends_on (st_resource s)))"

lemma edges_of_simps [simp]:
  "edges_of [] = {}" "edges_of (ensure_key i g) = edges_of g" "edges_of (sort_values g) = edges_of g"
  "edges_of (mput i (mget_or [] g i @ [j]) g) = insert (i, j) (edges_of g)"
  by (auto simp: edges_of_def ensure_key_def sort_values_def mget_map_values mget_or_def split: if_splits option.splits)

lemma add_deps_edges:
  "edges_of (fst (fold (add_dep i) deps maps)) = edges_of (fst maps) \<union> (\<lambda>d. (i, d)) ` set deps"
  "edges_of (snd (fold (add_dep i) deps maps)) = edges_of (snd maps) \<union> (\<lambda>d. (d, i)) ` set deps"
  by (induction deps arbitrary: maps) (auto simp: add_dep_def)

lemma step_deps_edges:
  "edges_of (snd (fold add_step_deps ss maps)) = edges_of (snd maps) \<union> (\<Union>s \<in> set ss. (\<lambda>d. (d, r_id (st_resource s))) ` set (r_depends_on (st_resource s)))"
  "edges_of (fst (fold add_step_deps ss maps)) = edges_of (fst maps) \<union> (\<Union>s \<in> set ss. (\<lambda>d. (r_id (st_resource s), d)) ` set (r_depends_on (st_resource s)))"
  by (induction ss arbitrary: maps) (auto simp: add_step_deps_def add_deps_edges Let_def)

lemma dependency_maps: "edges_of (snd (buildDependencyMaps p)) = dep_edges p" "edges_of (fst (buildDependencyMaps p)) = (dep_edges p)\<inverse>"
  by (auto simp: buildDependencyMaps_def dep_edges_def step_deps_edges split_beta)

lemma sort_distinct_set: "distinct xs \<Longrightarrow> sort xs = sorted_list_of_set (set xs)"
  by (simp add: sorted_list_of_set_sort_remdups distinct_remdups_id)

lemma traverse_found:
  "set (traverse_loop g depth [(root, 0)] [root] []) = within (edges_of g) depth root"
  "distinct (traverse_loop g depth [(root, 0)] [root] [])"
  using traverse_loop_spec [of "[root]" g root 0 "[root]" "[]" depth] linear [of depth 0]
  by (simp_all del: traverse_loop.simps)

lemma traverseDependencies_spec:
  assumes "root \<noteq> []"
  shows "traverseDependencies g root depth = sorted_list_of_set (within (edges_of g) depth root)"
  using assms sort_distinct_set [OF traverse_found(2)] by (simp add: traverseDependencies_def traverse_found(1) del: traverse_loop.simps)

lemma finite_within: "finite (within (edges_of g) depth root)"
  unfolding traverse_found(1) [symmetric] by simp

text \<open>C16: a dependency query is exact. Downstream are the resources that depend on the given one through at
  most the given number of \<^verbatim>\<open>depends_on\<close> edges (any number when the depth is not positive), upstream
  those that it depends on in this way, each once and in order and never the resource itself; impacted is their union.
  The breadth-first search terminates on every plan, cyclic ones included.\<close>

theorem QueryGraph_exact:
  assumes i: "rq_resource req \<noteq> []"
  shows "QueryGraph (Some p) req = (let i = rq_resource req; dir = normalizeGraphDirection (rq_direction req);
      up = (if dir = ''downstream'' then {} else within ((dep_edges p)\<inverse>) (rq_depth req) i);
      down = (if dir = ''upstream'' then {} else within (dep_edges p) (rq_depth req) i)
    in \<lparr>rs_resource = i, rs_upstream = sorted_list_of_set up, rs_downstream = sorted_list_of_set down,
        rs_impacted = sorted_list_of_set (up \<union> down)\<rparr>)"
proof -
  obtain u d where m: "buildDependencyMaps p = (u, d)" by fastforce
  then have e: "edges_of u = (dep_edges p)\<inverse>" "edges_of d = dep_edges p" using dependency_maps [of p] by simp_all
  have fin: "finite (within ((dep_edges p)\<inverse>) n i)" "finite (within (dep_edges p) n i)" for n i
    using finite_within [of u] finite_within [of d] e by simp_all
  have dir: "normalizeGraphDirection x = ''upstream'' \<or> normalizeGraphDirection x = ''downstream'' \<or> normalizeGraphDirection x = ''both''" for x
    by (auto simp: normalizeGraphDirection_def)
  show ?thesis using dir [of "rq_direction req"] fin
    by (auto simp: QueryGraph_def m Let_def traverseDependencies_spec [OF i] e sorted_list_of_set_sort_remdups [symmetric] sort_distinct_set)
qed

theorem QueryGraph_exact_witness:
  "rs_downstream (QueryGraph (Some (zero_plan\<lparr>pl_steps := [mk_step demo_config 1 pkg_res, mk_step demo_config 2 conf_res]\<rparr>))
     \<lparr>rq_resource = ''pkg'', rq_direction = [], rq_depth = 0\<rparr>) = [''conf''] \<and>
   within {(''pkg'', ''conf'')} 0 ''pkg'' = {''conf''}"
proof -
  let ?p = "zero_plan\<lparr>pl_steps := [mk_step demo_config 1 pkg_res, mk_step demo_config 2 conf_res]\<rparr>"
  let ?q = "\<lparr>rq_resource = ''pkg'', rq_direction = [], rq_depth = 0\<rparr>"
  have down: "rs_downstream (QueryGraph (Some ?p) ?q) = [''conf'']" by code_simp
  have e: "dep_edges ?p = {(''pkg'', ''conf'')}"
    by (simp add: dep_edges_def mk_step_def conf_res_def pkg_res_def zero_resource_def)
  have "sorted_list_of_set (within (dep_edges ?p) 0 ''pkg'') = [''conf'']"
    using QueryGraph_exact [of ?q ?p] down by (simp add: normalizeGraphDirection_def Let_def)
  moreover have "finite (within (dep_edges ?p) 0 ''pkg'')"
    using finite_within [of "snd (buildDependencyMaps ?p)" 0 "''pkg''"] by (simp add: dependency_maps)
  ultimately have "within (dep_edges ?p) 0 ''pkg'' = {''conf''}" using sorted_list_of_set.set_sorted_key_list_of_set by (metis list.set(1) list.set(2))
  then show ?thesis using down e by simp
qed

definition require_config :: config where
  "require_config = demo_config\<lparr>cfg_resources := [pkg_res, pkg_res\<lparr>r_id := ''app'', r_require := [''pkg'']\<rparr>]\<rparr>"

text \<open>a dependency query misses relations. A plan orders a resource after the ones it requires, but the query
  follows \<^verbatim>\<open>depends_on\<close> alone: here the second resource requires the first and the query for the first reports no
  impact at all.\<close>

theorem QueryGraph_misses_require:
  "Validate (Some require_config) = Inr require_config \<and> (''pkg'', ''app'') \<in> cfg_edges require_config \<and>
   (\<exists>p. Build require_config = Inr p \<and> map (r_id \<circ> st_resource) (pl_steps p) = [''pkg'', ''app''] \<and>
      rs_impacted (QueryGraph (Some p) \<lparr>rq_resource = ''pkg'', rq_direction = ''both'', rq_depth = 0\<rparr>) = [])"
proof -
  have v: "Validate (Some require_config) = Inr require_config" by code_simp
  have e: "(''pkg'', ''app'') \<in> cfg_edges require_config" by code_simp
  have "is_ok (Build require_config)" by code_simp
  then obtain p where p: "Build require_config = Inr p" by (auto simp: is_ok_iff)
  have "case Build require_config of Inl _ \<Rightarrow> False | Inr p \<Rightarrow> map (r_id \<circ> st_resource) (pl_steps p) = [''pkg'', ''app''] \<and>
      rs_impacted (QueryGraph (Some p) \<lparr>rq_resource = ''pkg'', rq_direction = ''both'', rq_depth = 0\<rparr>) = []" by code_simp
  then show ?thesis using v e p by simp
qed

section \<open>Comparing snapshots\<close>

lemma fingerprints_wf: "wf_map (stepFingerprints co p)"
proof -
  have "wf_map m \<Longrightarrow> wf_map (fold (\<lambda>s m. let i = TrimSpace (r_id (st_resource s))
      in if i = [] then m else mput i (co_sha256_hex co (co_step co s)) m) ss m)" for ss m
    by (induction ss arbitrary: m) (simp_all add: Let_def)
  then show ?thesis by (simp add: stepFingerprints_def)
qed

lemma sort_filter_keys:
  assumes "wf_map m"
  shows "sort (filter P (mkeys m)) = sorted_list_of_set {i \<in> dom (mget m). P i}"
proof -
  have "set (filter P (mkeys m)) = {i \<in> dom (mget m). P i}" using set_mkeys [of m] by auto
  moreover have "distinct (filter P (mkeys m))" using assms by (simp add: wf_map_def)
  ultimately show ?thesis using sort_distinct_set by metis
qed

text \<open>The comparison of two plans is exact. With \<open>b\<close> and \<open>c\<close> the fingerprints of the two plans by resource, the
  added, removed and changed steps are the sorted lists of the identifiers that only \<open>c\<close> has, only \<open>b\<close> has,
  and both have with different fingerprints; the plans match exactly when the fingerprints agree.\<close>

theorem DiffPlans_exact:
  "let b = mget (stepFingerprints co (or_zero baseline)); c = mget (stepFingerprints co (or_zero current));
       d = DiffPlans co baseline current
   in df_added d = sorted_list_of_set (dom c - dom b) \<and> df_removed d = sorted_list_of_set (dom b - dom c) \<and>
      df_changed d = sorted_list_of_set {i \<in> dom b \<inter> dom c. b i \<noteq> c i} \<and> (df_match d \<longleftrightarrow> b = c)"
proof -
  define b c where "b = stepFingerprints co (or_zero baseline)" and "c = stepFingerprints co (or_zero current)"
  have sets: "{i \<in> dom (mget c). mget b i = None} = dom (mget c) - dom (mget b)"
    "{i \<in> dom (mget b). mget c i = None} = dom (mget b) - dom (mget c)"
    "{i \<in> dom (mget c). mget b i \<noteq> None \<and> mget c i \<noteq> mget b i} = {i \<in> dom (mget b) \<inter> dom (mget c). mget b i \<noteq> mget c i}"
    by auto
  note keys = sort_filter_keys [OF fingerprints_wf [of co "or_zero baseline", folded b_def]]
    sort_filter_keys [OF fingerprints_wf [of co "or_zero current", folded c_def]]
  have fin: "finite (dom (mget b))" "finite (dom (mget c))" by (rule finite_dom_map_of)+
  have same: "mget b = mget c \<longleftrightarrow> dom (mget c) - dom (mget b) = {} \<and> dom (mget b) - dom (mget c) = {} \<and>
      {i \<in> dom (mget b) \<inter> dom (mget c). mget b i \<noteq> mget c i} = {}"
    by (auto simp: fun_eq_iff) (metis domD domIff)
  have empty: "sorted_list_of_set X = [] \<longleftrightarrow> X = {}" if "finite X" for X :: "string set"
    using that by (metis sorted_list_of_set.set_sorted_key_list_of_set sorted_list_of_set.sorted_key_list_of_set_empty list.set(1))
  show ?thesis
    unfolding DiffPlans_def Let_def b_def [symmetric] c_def [symmetric] keys sets same using fin by (simp add: empty)
qed

text \<open>A saved snapshot is read back. If decoding undoes encoding, then after a plan has been saved every comparison
  with the file is the comparison with that plan, and the plan itself matches.\<close>

theorem snapshot_roundtrip:
  assumes codec: "\<And>s b. co_snapshot co s = Inr b \<Longrightarrow> co_decode co b = Inr s" and save: "SaveSnapshot co m path (Some p) = Inr m'"
  shows "CompareSnapshot co m' path current = Inr (DiffPlans co (Some p) current) \<and> df_match (DiffPlans co (Some p) (Some p))"
proof -
  obtain b where b: "co_snapshot co \<lparr>sn_version = ''v1'', sn_plan = Some p\<rparr> = Inr b" and w: "os_WriteFile m path b = Inr m'"
    using save by (auto simp: SaveSnapshot_def split: sum.splits)
  have "LoadSnapshot co m' path = Inr \<lparr>sn_version = ''v1'', sn_plan = Some p\<rparr>"
    using codec [OF b] read_after_write [OF w] by (simp add: LoadSnapshot_def)
  moreover have "filter (\<lambda>i. mget f i = None) (mkeys f) = []" for f :: "string gomap"
    using set_mkeys [of f] by (auto simp: filter_empty_conv simp del: set_map)
  ultimately show ?thesis by (simp add: CompareSnapshot_def DiffPlans_def Let_def)
qed

definition demo_codec :: codec where
  "demo_codec = \<lparr>co_snapshot = (\<lambda>s. if s = \<lparr>sn_version = ''v1'', sn_plan = Some zero_plan\<rparr> then Inr ''{}'' else Inl ''unsupported value''),
     co_decode = (\<lambda>b. Inr \<lparr>sn_version = ''v1'', sn_plan = Some zero_plan\<rparr>), co_step = (\<lambda>s. r_id (st_resource s)), co_plan = (\<lambda>p. []),
     co_sha256_hex = (\<lambda>b. b)\<rparr>"

theorem snapshot_roundtrip_witness:
  "\<exists>m'. SaveSnapshot demo_codec \<lparr>m_files = [], m_refuse = [], m_slept = []\<rparr> ''plans/base.json'' (Some zero_plan) = Inr m' \<and>
     CompareSnapshot demo_codec m' ''plans/base.json'' (Some zero_plan) = Inr (DiffPlans demo_codec (Some zero_plan) (Some zero_plan))"
proof -
  have law: "co_decode demo_codec b = Inr s" if "co_snapshot demo_codec s = Inr b" for s b
    using that by (simp add: demo_codec_def split: if_splits)
  have "SaveSnapshot demo_codec \<lparr>m_files = [], m_refuse = [], m_slept = []\<rparr> ''plans/base.json'' (Some zero_plan) =
      Inr \<lparr>m_files = [(''plans/base.json'', ''{}'')], m_refuse = [], m_slept = []\<rparr>"
    by (simp add: SaveSnapshot_def demo_codec_def os_MkdirAll_def os_WriteFile_def)
  with snapshot_roundtrip [where co = demo_codec, OF law this] show ?thesis by blast
qed

end
