(* ===== verification/Stores.thy ===== *)
theory Stores
  imports GoTime
begin

text \<open>
  The scheme that the stores of internal/control share: a map of items whose keys are made from a
  fixed prefix and a counter, changed by operations under one lock. \<open>counter_store\<close> is the
  contract of such a store; each store of the control plane interprets it, and gets that its
  identifiers are unique, and never reused while it lives, after every sequence of operations.
\<close>

definition store_inv :: "('s \<Rightarrow> 'v gomap) \<Rightarrow> ('s \<Rightarrow> int) \<Rightarrow> string \<Rightarrow> 's \<Rightarrow> bool" where
  "store_inv items counter pre s \<longleftrightarrow>
     wf_map (items s) \<and> ids_below pre (counter s) (set (mkeys (items s)))"

text \<open>What one operation may do to the keys: nothing new, or one entry under the next identifier.\<close>

definition keys_step :: "string \<Rightarrow> int \<Rightarrow> 'v gomap \<Rightarrow> int \<Rightarrow> 'v gomap \<Rightarrow> bool" where
  "keys_step pre n m n' m' \<longleftrightarrow> (wf_map m \<longrightarrow> wf_map m') \<and>
     ((n' = n \<and> set (mkeys m') \<subseteq> set (mkeys m)) \<or>
      (n' = n + 1 \<and> set (mkeys m') \<subseteq> insert (seq_id pre (n + 1)) (set (mkeys m))))"

lemma keys_step_refl [simp]: "keys_step pre n m n m"
  by (simp add: keys_step_def)

lemma keys_step_add [simp]: "keys_step pre n m (n + 1) (mput (seq_id pre (n + 1)) v m)"
  by (simp add: keys_step_def set_mkeys_mput del: set_map)

lemma keys_step_update: "mget m k \<noteq> None \<Longrightarrow> keys_step pre n m n (mput k v m)"
  by (auto simp: keys_step_def set_mkeys_mput set_mkeys simp del: set_map)

lemma keys_step_del [simp]: "keys_step pre n m n (mdel k m)"
  by (auto simp: keys_step_def set_mkeys simp del: set_map)

lemma mkeys_map_values [simp]: "mkeys (map (\<lambda>(k, v). (k, f k v)) m) = mkeys m"
  by (induction m) auto

lemma keys_step_map [simp]: "keys_step pre n m n (map (\<lambda>(k, v). (k, f k v)) m)"
  by (simp add: keys_step_def wf_map_def del: map_map)

lemma store_inv_step:
  assumes "store_inv items counter pre s"
    and "keys_step pre (counter s) (items s) (counter s') (items s')"
  shows "store_inv items counter pre s'"
  using assms ids_below_insert [of pre "counter s" "set (mkeys (items s))"]
  by (auto simp: store_inv_def keys_step_def intro: ids_below_mono simp del: set_map)

lemma store_inv_fresh:
  assumes "store_inv items counter pre s"
  shows "mget (items s) (seq_id pre (counter s + 1)) = None"
proof -
  have "ids_below pre (counter s) (set (mkeys (items s)))" using assms by (simp add: store_inv_def del: set_map)
  then have "seq_id pre (counter s + 1) \<notin> set (mkeys (items s))" by (rule ids_below_fresh)
  then show ?thesis by (simp add: set_mkeys domIff del: set_map)
qed

locale counter_store = stepper step inv
  for step :: "'s \<Rightarrow> 'op \<Rightarrow> 's" and inv :: "'s \<Rightarrow> bool" +
  fixes items :: "'s \<Rightarrow> 'v gomap" and counter :: "'s \<Rightarrow> int" and pre :: string
  assumes inv_store: "inv s \<Longrightarrow> store_inv items counter pre s"
    and step_keys: "inv s \<Longrightarrow> keys_step pre (counter s) (items s) (counter (step s op)) (items (step s op))"
begin

lemma step_counter: "inv s \<Longrightarrow> counter s \<le> counter (step s op)"
  using step_keys [of s op] by (auto simp: keys_step_def)

lemma counter_mono: "inv s \<Longrightarrow> counter s \<le> counter (foldl step s ops)"
proof (induction ops arbitrary: s)
  case (Cons op ops)
  have "counter s \<le> counter (step s op)" by (rule step_counter [OF Cons.prems])
  also have "\<dots> \<le> counter (foldl step (step s op) ops)" by (rule Cons.IH [OF step_inv [OF Cons.prems]])
  finally show ?case by simp
qed simp

text \<open>An identifier that a later state has and an earlier one had not was made in between.\<close>

lemma keys_new:
  assumes "inv s" "k \<in> set (mkeys (items (foldl step s ops)))" "k \<notin> set (mkeys (items s))"
  shows "\<exists>n. counter s < n \<and> n \<le> counter (foldl step s ops) \<and> k = seq_id pre n"
  using assms
proof (induction ops arbitrary: s)
  case (Cons op ops)
  have inv: "inv (step s op)" by (rule step_inv [OF Cons.prems(1)])
  show ?case
  proof (cases "k \<in> set (mkeys (items (step s op)))")
    case True
    then have "counter (step s op) = counter s + 1 \<and> k = seq_id pre (counter s + 1)"
      using step_keys [OF Cons.prems(1), of op] Cons.prems(3) by (auto simp: keys_step_def simp del: set_map)
    then show ?thesis using counter_mono [OF inv, of ops] by (intro exI [of _ "counter s + 1"]) simp
  next
    case False
    then obtain n where "counter (step s op) < n" "n \<le> counter (foldl step (step s op) ops)" "k = seq_id pre n"
      using Cons.IH [OF inv] Cons.prems(2) by auto
    with step_counter [OF Cons.prems(1), of op] show ?thesis by (intro exI [of _ n]) simp
  qed
qed simp

text \<open>An identifier that was dropped does not come back.\<close>

lemma keys_never_reused:
  assumes inv: "inv s" and "k \<in> set (mkeys (items s))"
    and gone: "k \<notin> set (mkeys (items (foldl step s ops)))"
  shows "k \<notin> set (mkeys (items (foldl step s (ops @ ops'))))"
proof
  assume "k \<in> set (mkeys (items (foldl step s (ops @ ops'))))"
  then obtain n where n: "counter (foldl step s ops) < n" "k = seq_id pre n"
    using keys_new [OF run_inv [OF inv, of ops], of k ops'] gone by (auto simp del: set_map)
  obtain i where i: "1 \<le> i" "i \<le> counter s" "k = seq_id pre i"
    using inv_store [OF inv] assms(2) by (auto simp: store_inv_def ids_below_def simp del: set_map)
  have le: "counter s \<le> counter (foldl step s ops)" by (rule counter_mono [OF inv])
  then have "n = i" using n i seq_id_inj [of n i pre] by auto
  then show False using n(1) i(2) le by simp
qed

lemma run_store_inv: "inv s \<Longrightarrow> store_inv items counter pre (foldl step s ops)"
  by (intro inv_store run_inv)

end

end
