(* ===== verification/RunLease.thy ===== *)
theory RunLease
  imports Stores
begin

text \<open>
  The run leases of internal/control/run_lease.go: a holder that works on a job keeps its lease
  alive with heartbeats, and an expired lease is recovered. \<open>lease_spec\<close> is the specification, a
  map from jobs to leases; \<open>lease_abs\<close> relates the two maps of the store to it.
\<close>

datatype lease_status = LeaseActive | LeaseReleased | LeaseRecovered

record run_lease =
  le_id :: string
  le_job :: string
  le_holder :: string
  le_ttl :: int
  le_created :: gotime
  le_heartbeat :: gotime
  le_expires :: gotime
  le_recovered :: gotime
  le_status :: lease_status

record lease_store =
  ls_next :: int
  ls_by_lease :: "run_lease gomap"
  ls_by_job :: "string gomap"

definition NewRunLeaseStore :: lease_store where
  "NewRunLeaseStore = \<lparr>ls_next = 0, ls_by_lease = [], ls_by_job = []\<rparr>"

definition put_lease :: "run_lease \<Rightarrow> lease_store \<Rightarrow> lease_store" where
  "put_lease l s = s\<lparr>ls_by_lease := mput (le_id l) l (ls_by_lease s)\<rparr>"

definition current_lease :: "string \<Rightarrow> lease_store \<Rightarrow> run_lease option" where
  "current_lease jobID s =
     (case mget (ls_by_job s) jobID of None \<Rightarrow> None | Some i \<Rightarrow> mget (ls_by_lease s) i)"

definition renewed :: "gotime \<Rightarrow> string \<Rightarrow> int \<Rightarrow> run_lease \<Rightarrow> run_lease" where
  "renewed now holder ttl l = l\<lparr>le_holder := holder, le_ttl := ttl, le_heartbeat := now,
     le_expires := now + seconds ttl, le_status := LeaseActive, le_recovered := 0\<rparr>"

definition new_lease :: "gotime \<Rightarrow> string \<Rightarrow> string \<Rightarrow> int \<Rightarrow> int \<Rightarrow> run_lease" where
  "new_lease now jobID holder ttl n = \<lparr>le_id = seq_id ''lease-'' n, le_job = jobID, le_holder = holder, le_ttl = ttl,
     le_created = now, le_heartbeat = now, le_expires = now + seconds ttl, le_recovered = 0, le_status = LeaseActive\<rparr>"

definition lease_ttl :: "int \<Rightarrow> int" where
  "lease_ttl ttl = (if ttl \<le> 0 then 30 else ttl)"

definition Acquire :: "gotime \<Rightarrow> string \<Rightarrow> string \<Rightarrow> int \<Rightarrow> lease_store \<Rightarrow> lease_store \<times> run_lease result" where
  "Acquire now job_id holder ttl s =
     (let jobID = TrimSpace job_id; holder = TrimSpace holder; ttl = lease_ttl ttl
      in if jobID = [] \<or> holder = [] then (s, Inl ''job_id and holder are required'')
         else case current_lease jobID s of
           Some existing \<Rightarrow> let l = renewed now holder ttl existing in (put_lease l s, Inr l)
         | None \<Rightarrow>
             let l = new_lease now jobID holder ttl (ls_next s + 1)
             in ((put_lease l s)\<lparr>ls_next := ls_next s + 1, ls_by_job := mput jobID (le_id l) (ls_by_job s)\<rparr>, Inr l))"

definition resolveLeaseLocked :: "string \<Rightarrow> string \<Rightarrow> lease_store \<Rightarrow> run_lease result" where
  "resolveLeaseLocked leaseID jobID s =
     (if leaseID \<noteq> []
      then (case mget (ls_by_lease s) leaseID of None \<Rightarrow> Inl ''lease not found'' | Some l \<Rightarrow> Inr l)
      else
        let mapped = mget_or [] (ls_by_job s) jobID
        in if mapped = [] then Inl ''lease not found''
           else (case mget (ls_by_lease s) mapped of None \<Rightarrow> Inl ''lease not found'' | Some l \<Rightarrow> Inr l))"

definition Heartbeat :: "gotime \<Rightarrow> string \<Rightarrow> string \<Rightarrow> lease_store \<Rightarrow> lease_store \<times> run_lease result" where
  "Heartbeat now lease_id job_id s =
     (let leaseID = TrimSpace lease_id; jobID = TrimSpace job_id
      in if leaseID = [] \<and> jobID = [] then (s, Inl ''lease_id or job_id is required'')
         else case resolveLeaseLocked leaseID jobID s of
           Inl e \<Rightarrow> (s, Inl e)
         | Inr l \<Rightarrow>
             if le_status l \<noteq> LeaseActive then (s, Inl ''lease is not active'')
             else let l = l\<lparr>le_heartbeat := now, le_expires := now + seconds (le_ttl l)\<rparr> in (put_lease l s, Inr l))"

definition Release :: "gotime \<Rightarrow> string \<Rightarrow> string \<Rightarrow> lease_store \<Rightarrow> lease_store \<times> run_lease result" where
  "Release now lease_id job_id s =
     (let leaseID = TrimSpace lease_id; jobID = TrimSpace job_id
      in if leaseID = [] \<and> jobID = [] then (s, Inl ''lease_id or job_id is required'')
         else case resolveLeaseLocked leaseID jobID s of
           Inl e \<Rightarrow> (s, Inl e)
         | Inr l \<Rightarrow> let l = l\<lparr>le_status := LeaseReleased, le_expires := now\<rparr> in (put_lease l s, Inr l))"

definition List_leases :: "bool \<Rightarrow> lease_store \<Rightarrow> run_lease list" where
  "List_leases includeRecovered s =
     sort_key (\<lambda>l. - le_created l)
       (filter (\<lambda>l. includeRecovered \<or> le_status l \<noteq> LeaseRecovered) (map snd (ls_by_lease s)))"

definition lease_expired :: "gotime \<Rightarrow> run_lease \<Rightarrow> bool" where
  "lease_expired now l \<longleftrightarrow> le_status l = LeaseActive \<and> \<not> now < le_expires l"

definition recover_lease :: "gotime \<Rightarrow> run_lease \<Rightarrow> run_lease" where
  "recover_lease now l = (if lease_expired now l then l\<lparr>le_status := LeaseRecovered, le_recovered := now\<rparr> else l)"

text \<open>\<open>arg\<close> is the argument, \<open>wall\<close> what \<^verbatim>\<open>time.Now().UTC()\<close> returns.\<close>

definition RecoverExpired :: "gotime \<Rightarrow> gotime \<Rightarrow> lease_store \<Rightarrow> lease_store \<times> run_lease list" where
  "RecoverExpired wall arg s =
     (let now = (if arg = 0 then wall else arg)
      in (s\<lparr>ls_by_lease := map (\<lambda>(i, l). (i, recover_lease now l)) (ls_by_lease s)\<rparr>,
          sort_key le_id (map (recover_lease now) (filter (lease_expired now) (map snd (ls_by_lease s))))))"

datatype lease_op =
    LAcquire gotime string string int
  | LHeartbeat gotime string string
  | LRelease gotime string string
  | LRecover gotime gotime

fun lease_step :: "lease_store \<Rightarrow> lease_op \<Rightarrow> lease_store" where
  "lease_step s (LAcquire now job holder ttl) = fst (Acquire now job holder ttl s)"
| "lease_step s (LHeartbeat now lid job) = fst (Heartbeat now lid job s)"
| "lease_step s (LRelease now lid job) = fst (Release now lid job s)"
| "lease_step s (LRecover wall arg) = fst (RecoverExpired wall arg s)"

section \<open>Specification\<close>

text \<open>
  A lease table is a counter and a partial map from jobs to leases. An operation that names a lease
  acts on the job that has it, one that names a job on that job.
\<close>

type_synonym lease_table = "int \<times> (string \<Rightarrow> run_lease option)"

definition addressed :: "string \<Rightarrow> string \<Rightarrow> string \<Rightarrow> run_lease \<Rightarrow> bool" where
  "addressed lid job j l \<longleftrightarrow> (if TrimSpace lid \<noteq> [] then le_id l = TrimSpace lid else TrimSpace job \<noteq> [] \<and> j = TrimSpace job)"

fun lease_spec :: "lease_table \<Rightarrow> lease_op \<Rightarrow> lease_table" where
  "lease_spec (n, a) (LAcquire now job holder ttl) =
     (if TrimSpace job = [] \<or> TrimSpace holder = [] then (n, a)
      else case a (TrimSpace job) of
        Some l \<Rightarrow> (n, a(TrimSpace job \<mapsto> renewed now (TrimSpace holder) (lease_ttl ttl) l))
      | None \<Rightarrow> (n + 1, a(TrimSpace job \<mapsto> new_lease now (TrimSpace job) (TrimSpace holder) (lease_ttl ttl) (n + 1))))"
| "lease_spec (n, a) (LHeartbeat now lid job) =
     (n, \<lambda>j. map_option (\<lambda>l. if addressed lid job j l \<and> le_status l = LeaseActive
                             then l\<lparr>le_heartbeat := now, le_expires := now + seconds (le_ttl l)\<rparr> else l) (a j))"
| "lease_spec (n, a) (LRelease now lid job) =
     (n, \<lambda>j. map_option (\<lambda>l. if addressed lid job j l then l\<lparr>le_status := LeaseReleased, le_expires := now\<rparr> else l) (a j))"
| "lease_spec (n, a) (LRecover wall arg) =
     (n, \<lambda>j. map_option (recover_lease (if arg = 0 then wall else arg)) (a j))"

definition lease_abs :: "lease_store \<Rightarrow> lease_table" where
  "lease_abs s = (ls_next s, \<lambda>j. current_lease j s)"

section \<open>Invariant and refinement\<close>

definition leases_linked :: "lease_store \<Rightarrow> bool" where
  "leases_linked s \<longleftrightarrow>
     (\<forall>i l. mget (ls_by_lease s) i = Some l \<longrightarrow> le_id l = i \<and> mget (ls_by_job s) (le_job l) = Some i) \<and>
     (\<forall>j i. mget (ls_by_job s) j = Some i \<longrightarrow> i \<noteq> [] \<and> (\<exists>l. mget (ls_by_lease s) i = Some l \<and> le_job l = j))"

lemma leases_linkedD:
  assumes "leases_linked s"
  shows "mget (ls_by_lease s) i = Some l \<Longrightarrow> le_id l = i \<and> mget (ls_by_job s) (le_job l) = Some i"
    and "mget (ls_by_job s) j = Some i \<Longrightarrow> i \<noteq> [] \<and> (\<exists>l. mget (ls_by_lease s) i = Some l \<and> le_job l = j)"
  using assms unfolding leases_linked_def by blast+

lemma leases_linkedI:
  assumes "\<And>i l. mget (ls_by_lease s) i = Some l \<Longrightarrow> le_id l = i \<and> mget (ls_by_job s) (le_job l) = Some i"
    and "\<And>j i. mget (ls_by_job s) j = Some i \<Longrightarrow> i \<noteq> [] \<and> (\<exists>l. mget (ls_by_lease s) i = Some l \<and> le_job l = j)"
  shows "leases_linked s"
  using assms unfolding leases_linked_def by blast

lemma current_lease_iff:
  assumes "leases_linked s"
  shows "current_lease j s = Some l \<longleftrightarrow> mget (ls_by_lease s) (le_id l) = Some l \<and> le_job l = j"
proof
  assume "current_lease j s = Some l"
  then obtain i where i: "mget (ls_by_job s) j = Some i" "mget (ls_by_lease s) i = Some l"
    by (auto simp: current_lease_def split: option.splits)
  then show "mget (ls_by_lease s) (le_id l) = Some l \<and> le_job l = j"
    using leases_linkedD(2) [OF assms i(1)] leases_linkedD(1) [OF assms i(2)] by auto
next
  assume l: "mget (ls_by_lease s) (le_id l) = Some l \<and> le_job l = j"
  with leases_linkedD(1) [OF assms, of "le_id l" l] show "current_lease j s = Some l" by (simp add: current_lease_def)
qed

lemma put_lease_linked:
  assumes "leases_linked s" "mget (ls_by_lease s) (le_id l) = Some l0" "le_job l = le_job l0"
  shows "leases_linked (put_lease l s)"
proof (rule leases_linkedI)
  fix i l' assume "mget (ls_by_lease (put_lease l s)) i = Some l'"
  then show "le_id l' = i \<and> mget (ls_by_job (put_lease l s)) (le_job l') = Some i"
    using leases_linkedD(1) [OF assms(1), of i] leases_linkedD(1) [OF assms(1,2)] assms(3)
    by (auto simp: put_lease_def split: if_splits)
next
  fix j i assume "mget (ls_by_job (put_lease l s)) j = Some i"
  then have "i \<noteq> []" and "\<exists>l'. mget (ls_by_lease s) i = Some l' \<and> le_job l' = j"
    using leases_linkedD(2) [OF assms(1), of j i] by (simp_all add: put_lease_def)
  then show "i \<noteq> [] \<and> (\<exists>l'. mget (ls_by_lease (put_lease l s)) i = Some l' \<and> le_job l' = j)"
    using assms(2,3) by (cases "i = le_id l") (auto simp: put_lease_def)
qed

lemma current_put_lease:
  assumes "leases_linked s" "mget (ls_by_lease s) (le_id l) = Some l0" "le_job l = le_job l0"
  shows "current_lease j (put_lease l s) = (if j = le_job l0 then Some l else current_lease j s)"
proof -
  note d = leases_linkedD [OF assms(1)]
  have m: "mget (ls_by_job s) (le_job l0) = Some (le_id l)" using d(1) [OF assms(2)] by simp
  have "i \<noteq> le_id l" if "mget (ls_by_job s) j = Some i" "j \<noteq> le_job l0" for i
    using d(2) [OF that(1)] that(2) assms(2) by auto
  then show ?thesis using m by (auto simp: current_lease_def put_lease_def split: option.splits)
qed

lemma resolve_iff:
  assumes "leases_linked s" "TrimSpace lid \<noteq> [] \<or> TrimSpace job \<noteq> []"
  shows "resolveLeaseLocked (TrimSpace lid) (TrimSpace job) s = Inr l \<longleftrightarrow>
    mget (ls_by_lease s) (le_id l) = Some l \<and> addressed lid job (le_job l) l"
proof (cases "TrimSpace lid = []")
  case False
  have "mget (ls_by_lease s) (TrimSpace lid) = Some l \<longleftrightarrow> mget (ls_by_lease s) (le_id l) = Some l \<and> le_id l = TrimSpace lid"
    using leases_linkedD(1) [OF assms(1), of "TrimSpace lid" l] by auto
  then show ?thesis using False by (auto simp: resolveLeaseLocked_def addressed_def split: option.splits)
next
  case True
  have "resolveLeaseLocked [] (TrimSpace job) s = Inr l \<longleftrightarrow> current_lease (TrimSpace job) s = Some l"
    using leases_linkedD(2) [OF assms(1), of "TrimSpace job"]
    by (auto simp: resolveLeaseLocked_def current_lease_def mget_or_def Let_def split: option.splits)
  then show ?thesis using True assms current_lease_iff [OF assms(1)] by (auto simp: addressed_def)
qed

text \<open>An operation that finds a lease and rewrites it acts on exactly the addressed lease.\<close>

definition rewrite_lease :: "string \<Rightarrow> string \<Rightarrow> (run_lease \<Rightarrow> bool) \<Rightarrow> (run_lease \<Rightarrow> run_lease) \<Rightarrow> lease_store \<Rightarrow> lease_store" where
  "rewrite_lease lid job P f s =
     (if TrimSpace lid = [] \<and> TrimSpace job = [] then s
      else case resolveLeaseLocked (TrimSpace lid) (TrimSpace job) s of
        Inl e \<Rightarrow> s | Inr l \<Rightarrow> if P l then put_lease (f l) s else s)"

lemma rewrite_lease_spec:
  assumes inv: "leases_linked s" and f: "\<And>l. le_id (f l) = le_id l \<and> le_job (f l) = le_job l"
  shows "leases_linked (rewrite_lease lid job P f s) \<and> ls_next (rewrite_lease lid job P f s) = ls_next s \<and>
    current_lease j (rewrite_lease lid job P f s) =
      map_option (\<lambda>l. if addressed lid job j l \<and> P l then f l else l) (current_lease j s)"
proof (cases "TrimSpace lid = [] \<and> TrimSpace job = []")
  case True
  then show ?thesis using inv by (simp add: rewrite_lease_def addressed_def option.map_ident)
next
  case named: False
  then have res: "resolveLeaseLocked (TrimSpace lid) (TrimSpace job) s = Inr l \<longleftrightarrow>
    mget (ls_by_lease s) (le_id l) = Some l \<and> addressed lid job (le_job l) l" for l by (intro resolve_iff [OF inv]) auto
  show ?thesis
  proof (cases "resolveLeaseLocked (TrimSpace lid) (TrimSpace job) s")
    case (Inl e)
    then have "\<not> addressed lid job j l" if "current_lease j s = Some l" for l
      using that res [of l] current_lease_iff [OF inv, of j l] by auto
    then show ?thesis using inv named Inl by (cases "current_lease j s") (simp_all add: rewrite_lease_def)
  next
    case (Inr l)
    then have l: "mget (ls_by_lease s) (le_id l) = Some l" "addressed lid job (le_job l) l" using res [of l] by auto
    have one: "l' = l" if "current_lease j s = Some l'" "addressed lid job j l'" for l'
      using that res [of l'] current_lease_iff [OF inv, of j l'] Inr by auto
    have cur: "current_lease (le_job l) s = Some l" using l(1) current_lease_iff [OF inv] by simp
    have put: "leases_linked (put_lease (f l) s)" "current_lease j (put_lease (f l) s) = (if j = le_job l then Some (f l) else current_lease j s)"
      using put_lease_linked [OF inv, of "f l" l] current_put_lease [OF inv, of "f l" l j] f l(1) by auto
    have r: "rewrite_lease lid job P f s = (if P l then put_lease (f l) s else s)"
      using named Inr by (simp only: rewrite_lease_def if_False sum.case)
    have rest: "map_option (\<lambda>l. if addressed lid job j l \<and> P l then f l else l) (current_lease j s) =
        (if P l \<and> j = le_job l then Some (f l) else current_lease j s)"
    proof (cases "j = le_job l")
      case True
      then show ?thesis using cur l(2) by simp
    next
      case False
      have "\<not> addressed lid job j l'" if "current_lease j s = Some l'" for l'
        using one [OF that] that False current_lease_iff [OF inv, of j l'] by auto
      then show ?thesis using False by (cases "current_lease j s") simp_all
    qed
    have "ls_next (put_lease (f l) s) = ls_next s" by (simp add: put_lease_def)
    then show ?thesis using r put inv rest by (cases "P l") simp_all
  qed
qed

lemma Heartbeat_rewrite:
  "fst (Heartbeat now lid job s) = rewrite_lease lid job (\<lambda>l. le_status l = LeaseActive)
     (\<lambda>l. l\<lparr>le_heartbeat := now, le_expires := now + seconds (le_ttl l)\<rparr>) s"
  by (simp add: Heartbeat_def rewrite_lease_def Let_def split: sum.split)

lemma Release_rewrite:
  "fst (Release now lid job s) = rewrite_lease lid job (\<lambda>l. True) (\<lambda>l. l\<lparr>le_status := LeaseReleased, le_expires := now\<rparr>) s"
  by (simp add: Release_def rewrite_lease_def Let_def split: sum.split)

lemma recover_lease_simps [simp]: "le_id (recover_lease now l) = le_id l" "le_job (recover_lease now l) = le_job l"
  by (simp_all add: recover_lease_def)

lemma RecoverExpired_linked:
  assumes "leases_linked s"
  shows "leases_linked (fst (RecoverExpired wall arg s))"
proof (rule leases_linkedI)
  fix i l assume "mget (ls_by_lease (fst (RecoverExpired wall arg s))) i = Some l"
  then show "le_id l = i \<and> mget (ls_by_job (fst (RecoverExpired wall arg s))) (le_job l) = Some i"
    using leases_linkedD(1) [OF assms, of i] by (auto simp: RecoverExpired_def Let_def mget_map_values)
next
  fix j i assume "mget (ls_by_job (fst (RecoverExpired wall arg s))) j = Some i"
  then show "i \<noteq> [] \<and> (\<exists>l. mget (ls_by_lease (fst (RecoverExpired wall arg s))) i = Some l \<and> le_job l = j)"
    using leases_linkedD(2) [OF assms, of j i] by (auto simp: RecoverExpired_def Let_def mget_map_values)
qed

definition lease_inv :: "lease_store \<Rightarrow> bool" where
  "lease_inv s \<longleftrightarrow> leases_linked s \<and> store_inv ls_by_lease ls_next ''lease-'' s"

lemma lease_keys_step:
  "keys_step ''lease-'' (ls_next s) (ls_by_lease s) (ls_next (rewrite_lease lid job P f s)) (ls_by_lease (rewrite_lease lid job P f s))"
  if "leases_linked s" "\<And>l. le_id (f l) = le_id l"
proof -
  have "keys_step ''lease-'' (ls_next s) (ls_by_lease s) (ls_next (put_lease (f l) s)) (ls_by_lease (put_lease (f l) s))"
    if "mget (ls_by_lease s) (le_id l) = Some l" for l
    using that \<open>\<And>l. le_id (f l) = le_id l\<close> by (simp add: put_lease_def keys_step_update)
  then show ?thesis using resolve_iff [OF that(1), of lid job] by (auto simp: rewrite_lease_def split: sum.splits)
qed

lemma new_lease_simps [simp]:
  "le_id (new_lease now j h t n) = seq_id ''lease-'' n" "le_job (new_lease now j h t n) = j"
  "le_id (renewed now h t l) = le_id l" "le_job (renewed now h t l) = le_job l"
  by (simp_all add: new_lease_def renewed_def)

text \<open>The two outcomes of a valid \<^verbatim>\<open>Acquire\<close>.\<close>

lemma Acquire_cases:
  assumes "TrimSpace job \<noteq> []" "TrimSpace holder \<noteq> []"
  shows "fst (Acquire now job holder ttl s) =
    (case current_lease (TrimSpace job) s of
       Some l \<Rightarrow> put_lease (renewed now (TrimSpace holder) (lease_ttl ttl) l) s
     | None \<Rightarrow> (put_lease (new_lease now (TrimSpace job) (TrimSpace holder) (lease_ttl ttl) (ls_next s + 1)) s)
         \<lparr>ls_next := ls_next s + 1, ls_by_job := mput (TrimSpace job) (seq_id ''lease-'' (ls_next s + 1)) (ls_by_job s)\<rparr>)"
  using assms by (simp add: Acquire_def Let_def split: option.split)

lemma Acquire_fresh:
  assumes "lease_inv s" "current_lease j s = None" "le_id l = seq_id ''lease-'' (ls_next s + 1)" "le_job l = j"
  defines "s' \<equiv> (put_lease l s)\<lparr>ls_next := ls_next s + 1, ls_by_job := mput j (le_id l) (ls_by_job s)\<rparr>"
  shows "leases_linked s'" "current_lease x s' = (if x = j then Some l else current_lease x s)"
proof -
  have lk: "leases_linked s" using assms(1) by (simp add: lease_inv_def)
  have "seq_id ''lease-'' (ls_next s + 1) \<notin> set (mkeys (ls_by_lease s))"
    using assms(1) by (auto simp: lease_inv_def store_inv_def dest: ids_below_fresh simp del: set_map)
  then have fr: "mget (ls_by_lease s) (le_id l) = None" by (simp add: assms(3) map_of_eq_None_iff)
  have j: "mget (ls_by_job s) j = None"
    using assms(2) leases_linkedD(2) [OF lk] by (fastforce simp: current_lease_def split: option.splits)
  have ne: "i \<noteq> le_id l" if "mget (ls_by_job s) x = Some i" for x i using leases_linkedD(2) [OF lk that] fr by auto
  have idne: "le_id l \<noteq> []" by (simp add: assms(3) seq_id_def)
  show "leases_linked s'"
  proof (rule leases_linkedI)
    fix i l' assume "mget (ls_by_lease s') i = Some l'"
    then show "le_id l' = i \<and> mget (ls_by_job s') (le_job l') = Some i"
      using leases_linkedD(1) [OF lk, of i l'] j assms(4) by (auto simp: s'_def put_lease_def split: if_splits)
  next
    fix x i assume "mget (ls_by_job s') x = Some i"
    then show "i \<noteq> [] \<and> (\<exists>l'. mget (ls_by_lease s') i = Some l' \<and> le_job l' = x)"
      using leases_linkedD(2) [OF lk, of x i] ne [of x i] idne assms(4) by (auto simp: s'_def put_lease_def split: if_splits)
  qed
  show "current_lease x s' = (if x = j then Some l else current_lease x s)"
    using ne by (auto simp: s'_def current_lease_def put_lease_def split: option.splits)
qed

lemma current_lease_mem:
  "leases_linked s \<Longrightarrow> current_lease j s = Some l \<Longrightarrow> mget (ls_by_lease s) (le_id l) = Some l \<and> le_job l = j"
  by (simp add: current_lease_iff)

lemma lease_step_ok:
  assumes inv: "lease_inv s"
  shows "leases_linked (lease_step s op) \<and> lease_abs (lease_step s op) = lease_spec (lease_abs s) op \<and>
    keys_step ''lease-'' (ls_next s) (ls_by_lease s) (ls_next (lease_step s op)) (ls_by_lease (lease_step s op))"
proof -
  have lk: "leases_linked s" using inv by (simp add: lease_inv_def)
  show ?thesis
  proof (cases op)
    case (LAcquire now job holder ttl)
    show ?thesis
    proof (cases "TrimSpace job = [] \<or> TrimSpace holder = []")
      case True
      then show ?thesis using lk LAcquire by (auto simp: Acquire_def Let_def lease_abs_def)
    next
      case ne: False
      let ?j = "TrimSpace job" and ?h = "TrimSpace holder" and ?t = "lease_ttl ttl"
      have S: "lease_step s op = (case current_lease ?j s of
         Some l \<Rightarrow> put_lease (renewed now ?h ?t l) s
       | None \<Rightarrow> (put_lease (new_lease now ?j ?h ?t (ls_next s + 1)) s)
           \<lparr>ls_next := ls_next s + 1, ls_by_job := mput ?j (seq_id ''lease-'' (ls_next s + 1)) (ls_by_job s)\<rparr>)"
        using ne LAcquire Acquire_cases by simp
      show ?thesis
      proof (cases "current_lease ?j s")
        case None
        note f = Acquire_fresh [OF inv None, of "new_lease now ?j ?h ?t (ls_next s + 1)"]
        have "lease_spec (lease_abs s) op =
          (ls_next s + 1, (\<lambda>j. current_lease j s)(?j \<mapsto> new_lease now ?j ?h ?t (ls_next s + 1)))"
          using ne LAcquire None by (simp add: lease_abs_def)
        then show ?thesis using f S None by (simp add: lease_abs_def put_lease_def fun_eq_iff)
      next
        case (Some l)
        have l: "mget (ls_by_lease s) (le_id l) = Some l" "le_job l = ?j" using current_lease_mem [OF lk Some] by auto
        note p = put_lease_linked [OF lk, of "renewed now ?h ?t l" l] current_put_lease [OF lk, of "renewed now ?h ?t l" l]
        have "lease_spec (lease_abs s) op = (ls_next s, (\<lambda>j. current_lease j s)(?j \<mapsto> renewed now ?h ?t l))"
          using ne LAcquire Some by (simp add: lease_abs_def)
        then show ?thesis using p S Some l keys_step_update [of "ls_by_lease s" "le_id l"]
          by (simp add: lease_abs_def put_lease_def fun_eq_iff)
      qed
    qed
  next
    case (LHeartbeat now lid job)
    let ?P = "\<lambda>l. le_status l = LeaseActive" and ?f = "\<lambda>l. l\<lparr>le_heartbeat := now, le_expires := now + seconds (le_ttl l)\<rparr>"
    show ?thesis using rewrite_lease_spec [OF lk, of ?f lid job ?P] lease_keys_step [OF lk, of ?f lid job ?P] LHeartbeat
      by (simp add: Heartbeat_rewrite lease_abs_def)
  next
    case (LRelease now lid job)
    let ?P = "\<lambda>l. True" and ?f = "\<lambda>l. l\<lparr>le_status := LeaseReleased, le_expires := now\<rparr>"
    show ?thesis using rewrite_lease_spec [OF lk, of ?f lid job ?P] lease_keys_step [OF lk, of ?f lid job ?P] LRelease
      by (simp add: Release_rewrite lease_abs_def)
  next
    case (LRecover wall arg)
    have "current_lease j (fst (RecoverExpired wall arg s)) = map_option (recover_lease (if arg = 0 then wall else arg)) (current_lease j s)" for j
      by (simp add: current_lease_def RecoverExpired_def Let_def mget_map_values split: option.split)
    moreover have "ls_next (fst (RecoverExpired wall arg s)) = ls_next s" by (simp add: RecoverExpired_def Let_def)
    ultimately show ?thesis using RecoverExpired_linked [OF lk] LRecover
      by (simp add: lease_abs_def RecoverExpired_def Let_def)
  qed
qed

lemma lease_inv_step: "lease_inv s \<Longrightarrow> lease_inv (lease_step s op)"
  using lease_step_ok [of s op] store_inv_step [of ls_by_lease ls_next "''lease-''" s "lease_step s op"]
  by (simp add: lease_inv_def)

interpretation leases: counter_store lease_step lease_inv ls_by_lease ls_next "''lease-''"
  by unfold_locales (use lease_inv_step lease_step_ok in \<open>auto simp: lease_inv_def\<close>)

lemma NewRunLeaseStore_inv: "lease_inv NewRunLeaseStore"
  by (simp add: lease_inv_def NewRunLeaseStore_def store_inv_def leases_linked_def)

end
