(* ===== verification/ExecLocks.thy ===== *)
theory ExecLocks
  imports Stores
begin

text \<open>
  The execution locks of internal/control/execution_locks.go: at most one holder per key until the
  lock is released or its time is over. A stored lock is updated in place; the map from jobs to keys
  serves the release by job.
\<close>

datatype lock_status = LockActive | LockReleased | LockExpired

record exec_lock =
  lk_id :: string
  lk_key :: string
  lk_holder :: string
  lk_job :: string
  lk_acquired :: gotime
  lk_expires :: gotime
  lk_released :: gotime
  lk_status :: lock_status

record lock_store =
  xs_next :: int
  xs_by_key :: "exec_lock gomap"
  xs_by_job :: "string gomap"
  xs_history :: "exec_lock list"

definition NewExecutionLockStore :: lock_store where
  "NewExecutionLockStore = \<lparr>xs_next = 0, xs_by_key = [], xs_by_job = [], xs_history = []\<rparr>"

definition normalizeLockKey :: "string \<Rightarrow> string" where
  "normalizeLockKey k = ToLower (TrimSpace k)"

definition expire_lock :: "gotime \<Rightarrow> exec_lock \<Rightarrow> exec_lock" where
  "expire_lock now l = l\<lparr>lk_status := LockExpired, lk_released := now\<rparr>"

definition lock_over :: "gotime \<Rightarrow> exec_lock \<Rightarrow> bool" where
  "lock_over now l \<longleftrightarrow> lk_status l = LockActive \<and> \<not> now < lk_expires l"

definition Acquire :: "gotime \<Rightarrow> string \<Rightarrow> string \<Rightarrow> int \<Rightarrow> lock_store \<Rightarrow> lock_store \<times> exec_lock result" where
  "Acquire now key holder ttl s =
     (let key = normalizeLockKey key; holder = TrimSpace holder
      in if key = [] then (s, Inl ''key is required'')
         else
           let holder = (if holder = [] then ''control-plane'' else holder);
               ttl = (if ttl \<le> 0 then 600 else ttl);
               current = mget (xs_by_key s) key
           in if (case current of Some l \<Rightarrow> lk_status l = LockActive \<and> now < lk_expires l | None \<Rightarrow> False)
              then (s, Inl ''execution lock already held for key'')
              else
                let hist = (case current of
                      Some l \<Rightarrow> if lock_over now l then xs_history s @ [expire_lock now l] else xs_history s
                    | None \<Rightarrow> xs_history s);
                    l = \<lparr>lk_id = seq_id ''exec-lock-'' (xs_next s + 1), lk_key = key, lk_holder = holder, lk_job = [],
                         lk_acquired = now, lk_expires = now + seconds ttl, lk_released = 0, lk_status = LockActive\<rparr>
                in (s\<lparr>xs_next := xs_next s + 1, xs_by_key := mput key l (xs_by_key s), xs_history := hist\<rparr>, Inr l))"

definition BindJob :: "gotime \<Rightarrow> string \<Rightarrow> string \<Rightarrow> lock_store \<Rightarrow> lock_store \<times> exec_lock result" where
  "BindJob now key job s =
     (let key = normalizeLockKey key; job = TrimSpace job
      in if key = [] \<or> job = [] then (s, Inl ''key and job_id are required'')
         else case mget (xs_by_key s) key of
           None \<Rightarrow> (s, Inl ''execution lock not active'')
         | Some l \<Rightarrow>
             if lk_status l \<noteq> LockActive then (s, Inl ''execution lock not active'')
             else if \<not> now < lk_expires l
               then (s\<lparr>xs_by_key := mput key (expire_lock now l) (xs_by_key s), xs_history := xs_history s @ [expire_lock now l]\<rparr>,
                     Inl ''execution lock expired'')
             else let l = l\<lparr>lk_job := job\<rparr>
                  in (s\<lparr>xs_by_key := mput key l (xs_by_key s), xs_by_job := mput job key (xs_by_job s)\<rparr>, Inr l))"

text \<open>The key that a release addresses.\<close>

definition release_key :: "string \<Rightarrow> string \<Rightarrow> lock_store \<Rightarrow> string" where
  "release_key key job s =
     (let key = normalizeLockKey key; job = TrimSpace job
      in if key = [] \<and> job \<noteq> [] then mget_or [] (xs_by_job s) job else key)"

definition Release :: "gotime \<Rightarrow> string \<Rightarrow> string \<Rightarrow> lock_store \<Rightarrow> lock_store \<times> exec_lock option" where
  "Release now key job s =
     (let key = release_key key job s
      in if key = [] then (s, None)
         else case mget (xs_by_key s) key of
           None \<Rightarrow> (s, None)
         | Some l \<Rightarrow>
             let l = (if lk_status l = LockActive then l\<lparr>lk_status := LockReleased, lk_released := now\<rparr> else l)
             in (s\<lparr>xs_by_job := (if lk_job l \<noteq> [] then mdel (lk_job l) (xs_by_job s) else xs_by_job s),
                   xs_history := xs_history s @ [l], xs_by_key := mdel key (xs_by_key s)\<rparr>, Some l))"

definition cleanup_one :: "gotime \<Rightarrow> string \<times> exec_lock \<Rightarrow> lock_store \<times> exec_lock list \<Rightarrow> lock_store \<times> exec_lock list" where
  "cleanup_one now = (\<lambda>(key, l) (s, expired).
     if \<not> lock_over now l then (s, expired)
     else let l = expire_lock now l
          in (s\<lparr>xs_history := xs_history s @ [l],
                xs_by_job := (if lk_job l \<noteq> [] then mdel (lk_job l) (xs_by_job s) else xs_by_job s),
                xs_by_key := mdel key (xs_by_key s)\<rparr>, expired @ [l]))"

definition CleanupExpired :: "gotime \<Rightarrow> lock_store \<Rightarrow> lock_store \<times> exec_lock list" where
  "CleanupExpired now s =
     (let (s', expired) = fold (cleanup_one now) (xs_by_key s) (s, []) in (s', sort_key lk_key expired))"

definition List_locks :: "bool \<Rightarrow> lock_store \<Rightarrow> exec_lock list" where
  "List_locks includeHistory s =
     (let active = sort_key lk_key (map snd (xs_by_key s))
      in if includeHistory then active @ sort_key (\<lambda>l. - lk_released l) (xs_history s) else active)"

datatype lock_op =
    XAcquire gotime string string int
  | XBind gotime string string
  | XRelease gotime string string
  | XCleanup gotime

fun lock_step :: "lock_store \<Rightarrow> lock_op \<Rightarrow> lock_store" where
  "lock_step s (XAcquire now key holder ttl) = fst (Acquire now key holder ttl s)"
| "lock_step s (XBind now key job) = fst (BindJob now key job s)"
| "lock_step s (XRelease now key job) = fst (Release now key job s)"
| "lock_step s (XCleanup now) = fst (CleanupExpired now s)"

section \<open>Invariant\<close>

definition lock_inv :: "lock_store \<Rightarrow> bool" where
  "lock_inv s \<longleftrightarrow> wf_map (xs_by_key s) \<and>
     (\<forall>k l. mget (xs_by_key s) k = Some l \<longrightarrow> lk_key l = k \<and> k \<noteq> [] \<and> normalizeLockKey k = k \<and> lk_status l \<noteq> LockReleased) \<and>
     (\<forall>l \<in> set (xs_history s). lk_status l \<noteq> LockActive)"

lemma normalizeLockKey_idem [simp]: "normalizeLockKey (normalizeLockKey k) = normalizeLockKey k"
  by (simp add: normalizeLockKey_def TrimSpace_ToLower)

lemma lock_inv_put:
  assumes "lock_inv s" "xs_by_key s' = mput k l (xs_by_key s)" "set (xs_history s') \<subseteq> set (xs_history s) \<union> H"
    "\<forall>l \<in> H. lk_status l \<noteq> LockActive" "lk_key l = k" "k \<noteq> []" "normalizeLockKey k = k" "lk_status l \<noteq> LockReleased"
  shows "lock_inv s'"
  using assms unfolding lock_inv_def by (auto split: if_splits)

lemma lock_inv_del:
  assumes "lock_inv s" "xs_by_key s' = mdel k (xs_by_key s)" "set (xs_history s') \<subseteq> insert l (set (xs_history s))"
    "lk_status l \<noteq> LockActive"
  shows "lock_inv s'"
  using assms unfolding lock_inv_def by (auto split: if_splits)

lemma Acquire_inv: "lock_inv s \<Longrightarrow> lock_inv (fst (Acquire now key holder ttl s))"
proof (cases "fst (Acquire now key holder ttl s) = s")
  case False
  assume inv: "lock_inv s"
  let ?k = "normalizeLockKey key" and ?s' = "fst (Acquire now key holder ttl s)"
  have k: "?k \<noteq> []" using False by (auto simp: Acquire_def Let_def)
  obtain l where "xs_by_key ?s' = mput ?k l (xs_by_key s)" "lk_key l = ?k" "lk_status l = LockActive"
    using False by (auto simp: Acquire_def Let_def split: if_splits)
  moreover have "set (xs_history ?s') \<subseteq> set (xs_history s) \<union> {l. lk_status l = LockExpired}"
    using False by (auto simp: Acquire_def Let_def expire_lock_def split: if_splits option.splits)
  ultimately show ?thesis using inv k by (intro lock_inv_put [OF inv]) auto
qed simp

lemma BindJob_inv: "lock_inv s \<Longrightarrow> lock_inv (fst (BindJob now key job s))"
  unfolding lock_inv_def BindJob_def Let_def expire_lock_def by (auto split: option.splits)

lemma Release_inv: "lock_inv s \<Longrightarrow> lock_inv (fst (Release now key job s))"
  unfolding lock_inv_def Release_def Let_def by (auto split: option.splits if_splits)

lemma cleanup_fold_inv:
  "lock_inv s \<Longrightarrow> lock_inv (fst (fold (cleanup_one now) xs (s, es)))"
proof (induction xs arbitrary: s es)
  case (Cons x xs)
  have "lock_inv (fst (cleanup_one now x (s, es)))"
    using Cons.prems unfolding lock_inv_def cleanup_one_def by (auto simp: Let_def expire_lock_def split: prod.splits)
  then show ?case using Cons.IH by (cases "cleanup_one now x (s, es)") simp
qed simp

lemma lock_step_inv: "lock_inv s \<Longrightarrow> lock_inv (lock_step s op)"
  by (cases op) (simp_all add: Acquire_inv BindJob_inv Release_inv CleanupExpired_def Let_def split_def cleanup_fold_inv)

interpretation locks: stepper lock_step lock_inv
  by unfold_locales (rule lock_step_inv)

lemma NewExecutionLockStore_inv: "lock_inv NewExecutionLockStore"
  by (simp add: lock_inv_def NewExecutionLockStore_def)

section \<open>Mutual exclusion\<close>

definition held :: "string \<Rightarrow> string \<Rightarrow> gotime \<Rightarrow> lock_store \<Rightarrow> bool" where
  "held k i e s \<longleftrightarrow> (case mget (xs_by_key s) k of
     None \<Rightarrow> False | Some l \<Rightarrow> lk_id l = i \<and> lk_status l = LockActive \<and> lk_expires l = e)"

lemma held_iff:
  "held k i e s \<longleftrightarrow> (\<exists>l. mget (xs_by_key s) k = Some l \<and> lk_id l = i \<and> lk_status l = LockActive \<and> lk_expires l = e)"
  by (simp add: held_def split: option.split)

fun op_time :: "lock_op \<Rightarrow> gotime" where
  "op_time (XAcquire now key holder ttl) = now"
| "op_time (XBind now key job) = now"
| "op_time (XRelease now key job) = now"
| "op_time (XCleanup now) = now"

fun releases :: "string \<Rightarrow> lock_store \<Rightarrow> lock_op \<Rightarrow> bool" where
  "releases k s (XRelease now key job) \<longleftrightarrow> release_key key job s = k"
| "releases k s _ \<longleftrightarrow> False"

text \<open>No operation of the sequence releases the lock on \<open>k\<close>, and all of them come before \<open>e\<close>.\<close>

fun quiet :: "string \<Rightarrow> gotime \<Rightarrow> lock_store \<Rightarrow> lock_op list \<Rightarrow> bool" where
  "quiet k e s [] \<longleftrightarrow> True"
| "quiet k e s (op # ops) \<longleftrightarrow> op_time op < e \<and> \<not> releases k s op \<and> quiet k e (lock_step s op) ops"

lemma held_Acquire:
  "held k i e s \<Longrightarrow> now < e \<Longrightarrow> held k i e (fst (Acquire now key holder ttl s))"
  by (cases "normalizeLockKey key = k") (auto simp: held_iff Acquire_def Let_def)

lemma held_BindJob: "held k i e s \<Longrightarrow> now < e \<Longrightarrow> held k i e (fst (BindJob now key job s))"
  by (auto simp: held_iff BindJob_def Let_def split: option.splits)

lemma held_Release: "held k i e s \<Longrightarrow> release_key key job s \<noteq> k \<Longrightarrow> held k i e (fst (Release now key job s))"
  by (auto simp: held_iff Release_def Let_def split: option.splits)

lemma held_cleanup_fold:
  "held k i e s \<Longrightarrow> \<forall>x \<in> set xs. fst x = k \<longrightarrow> \<not> lock_over now (snd x) \<Longrightarrow>
   held k i e (fst (fold (cleanup_one now) xs (s, es)))"
proof (induction xs arbitrary: s es)
  case (Cons x xs)
  obtain key l where x: "x = (key, l)" by (cases x)
  obtain s' es' where c: "cleanup_one now x (s, es) = (s', es')" by fastforce
  have "held k i e s'"
  proof (cases "key = k")
    case True
    then have "\<not> lock_over now l" using Cons.prems(2) by (simp add: x)
    then show ?thesis using Cons.prems(1) c by (simp add: x cleanup_one_def)
  next
    case False
    then show ?thesis using Cons.prems(1) c
      by (auto simp: x cleanup_one_def Let_def held_iff simp del: split_paired_Ex split: if_splits)
  qed
  then show ?case using Cons.IH [of s' es'] Cons.prems(2) c by simp
qed simp

lemma held_CleanupExpired:
  assumes "lock_inv s" "held k i e s" "now < e"
  shows "held k i e (fst (CleanupExpired now s))"
proof -
  have "\<not> lock_over now (snd x)" if "x \<in> set (xs_by_key s)" "fst x = k" for x
  proof -
    have "mget (xs_by_key s) k = Some (snd x)" using that assms(1) wf_map_mem [of "xs_by_key s" k "snd x"] by (auto simp: lock_inv_def)
    then show ?thesis using assms(2,3) by (simp add: held_def lock_over_def)
  qed
  then show ?thesis using held_cleanup_fold [OF assms(2), of "xs_by_key s" now] by (simp add: CleanupExpired_def Let_def split_def)
qed

lemma held_step:
  "lock_inv s \<Longrightarrow> held k i e s \<Longrightarrow> op_time op < e \<Longrightarrow> \<not> releases k s op \<Longrightarrow> held k i e (lock_step s op)"
  by (cases op) (simp_all add: held_Acquire held_BindJob held_Release held_CleanupExpired)

lemma held_run: "lock_inv s \<Longrightarrow> held k i e s \<Longrightarrow> quiet k e s ops \<Longrightarrow> held k i e (foldl lock_step s ops)"
  by (induction ops arbitrary: s) (simp_all add: held_step lock_step_inv)

text \<open>C20: once a lock has been granted, every other attempt to take the same key (in any spelling
  that normalises to it) before the lock's expiry is refused, whatever acquire, bind, release and
  clean-up calls came in between, as long as none of them released this key.\<close>

theorem lock_held_until_expiry:
  assumes "Acquire now key holder ttl (foldl lock_step NewExecutionLockStore before) = (s, Inr l)"
    and "quiet (lk_key l) (lk_expires l) s ops" and "now' < lk_expires l" and "normalizeLockKey key' = lk_key l"
  shows "snd (Acquire now' key' holder' ttl' (foldl lock_step s ops)) = Inl ''execution lock already held for key''"
proof -
  let ?s0 = "foldl lock_step NewExecutionLockStore before"
  have inv: "lock_inv s" using Acquire_inv [OF locks.run_inv [OF NewExecutionLockStore_inv], of now key holder ttl before] assms(1) by simp
  have s: "held (lk_key l) (lk_id l) (lk_expires l) s" and k: "lk_key l \<noteq> []"
    using assms(1) by (auto simp: Acquire_def Let_def held_iff split: if_splits)
  from held_run [OF inv s assms(2)] show ?thesis using assms(3,4) k by (auto simp: Acquire_def Let_def held_iff)
qed

theorem lock_held_until_expiry_witness:
  "snd (Acquire 5 '' DB '' ''b'' 60 (foldl lock_step (fst (Acquire 0 ''db'' ''a'' 60 NewExecutionLockStore)) [XBind 1 ''db'' ''job-1'', XCleanup 3])) =
     Inl ''execution lock already held for key''"
proof -
  let ?A = "Acquire 0 ''db'' ''a'' 60 NewExecutionLockStore"
  define s where "s = fst ?A"
  obtain l where A: "?A = (s, Inr l)" and l: "lk_key l = ''db''" "lk_expires l = 60000000000"
  proof -
    have "?A = (s, Inr \<lparr>lk_id = ''exec-lock-1'', lk_key = ''db'', lk_holder = ''a'', lk_job = [], lk_acquired = 0,
        lk_expires = 60000000000, lk_released = 0, lk_status = LockActive\<rparr>)" unfolding s_def by code_simp
    then show ?thesis by (rule that) simp_all
  qed
  have "quiet ''db'' 60000000000 s [XBind 1 ''db'' ''job-1'', XCleanup 3]" "normalizeLockKey '' DB '' = ''db''"
    unfolding s_def by code_simp+
  then show ?thesis using lock_held_until_expiry [of 0 "''db''" "''a''" 60 "[]" s l "[XBind 1 ''db'' ''job-1'', XCleanup 3]" 5 "'' DB ''"] A l
    unfolding s_def [symmetric] by simp
qed

text \<open>the mutual exclusion is lost when a lock runs out while its job goes on. The job's entry in
  the map from jobs to keys survives when the next holder takes the key, so the release at the end of
  the first job removes the second holder's lock, and a third holder gets the key while the second
  one still has nearly all of its time.\<close>

theorem expired_job_releases_new_lock:
  "let s1 = foldl lock_step NewExecutionLockStore [XAcquire 0 ''db'' ''a'' 1, XBind 0 ''db'' ''job-1'', XAcquire (seconds 2) ''db'' ''b'' 600];
       s2 = lock_step s1 (XRelease (seconds 3) [] ''job-1'')
   in held ''db'' ''exec-lock-2'' (seconds 602) s1 \<and> \<not> held ''db'' ''exec-lock-2'' (seconds 602) s2 \<and>
      is_ok (snd (Acquire (seconds 4) ''db'' ''c'' 600 s2))"
  by code_simp

end
