(* ===== verification/Guards.thy ===== *)
theory Guards
  imports Stores
begin

text \<open>
  Three small stores of the control plane: disruption budgets (internal/control/disruption_budget.go),
  execution checkpoints (execution_checkpoints.go) and the policy that paces the automatic recovery of
  stuck jobs (stuck_recovery.go).
\<close>

section \<open>Disruption budgets\<close>

record budget =
  bu_id :: string
  bu_name :: string
  bu_scope :: string
  bu_max_unavailable :: int
  bu_min_healthy :: int
  bu_created :: gotime
  bu_updated :: gotime

record budget_input =
  bi_name :: string
  bi_scope :: string
  bi_max_unavailable :: int
  bi_min_healthy :: int

record evaluation =
  ev_budget :: string
  ev_allowed :: bool
  ev_reason :: string
  ev_total :: int
  ev_requested :: int
  ev_remaining :: int
  ev_healthy_pct :: int

record budget_store =
  bs_next :: int
  bs_budgets :: "budget gomap"

definition NewDisruptionBudgetStore :: budget_store where
  "NewDisruptionBudgetStore = \<lparr>bs_next = 0, bs_budgets = []\<rparr>"

definition new_budget :: "gotime \<Rightarrow> budget_input \<Rightarrow> int \<Rightarrow> budget" where
  "new_budget now inp n =
     (let maxu = (if bi_max_unavailable inp \<le> 0 then 1 else bi_max_unavailable inp);
          minh = (if bi_min_healthy inp \<le> 0 then 90 else bi_min_healthy inp);
          minh = (if minh > 100 then 100 else minh)
      in \<lparr>bu_id = seq_id ''budget-'' n, bu_name = TrimSpace (bi_name inp), bu_scope = TrimSpace (bi_scope inp),
          bu_max_unavailable = maxu, bu_min_healthy = minh, bu_created = now, bu_updated = now\<rparr>)"

definition Create_budget :: "gotime \<Rightarrow> budget_input \<Rightarrow> budget_store \<Rightarrow> budget_store \<times> budget result" where
  "Create_budget now inp s =
     (if TrimSpace (bi_name inp) = [] then (s, Inl ''name is required'')
      else let b = new_budget now inp (bs_next s + 1)
           in (s\<lparr>bs_next := bs_next s + 1, bs_budgets := mput (bu_id b) b (bs_budgets s)\<rparr>, Inr b))"

definition List_budgets :: "budget_store \<Rightarrow> budget list" where
  "List_budgets s = sort_key (\<lambda>b. - bu_created b) (map snd (bs_budgets s))"

definition Get_budget :: "string \<Rightarrow> budget_store \<Rightarrow> budget option" where
  "Get_budget i s = mget (bs_budgets s) (TrimSpace i)"

definition remaining_after :: "int \<Rightarrow> int \<Rightarrow> int" where
  "remaining_after total_n requested = (if total_n - requested < 0 then 0 else total_n - requested)"

definition healthy_pct_after :: "int \<Rightarrow> int \<Rightarrow> int" where
  "healthy_pct_after total_n requested =
     (if total_n > 0 then go_div (wrap64 (remaining_after total_n requested * 100)) total_n else 100)"

definition EvaluateDisruptionBudget :: "budget \<Rightarrow> int \<Rightarrow> int \<Rightarrow> evaluation" where
  "EvaluateDisruptionBudget b totalTargets requestedDisruptions =
     (let total_n = (if totalTargets < 0 then 0 else totalTargets);
          requested = (if requestedDisruptions < 0 then 0 else requestedDisruptions);
          pct = healthy_pct_after total_n requested;
          over = requested > bu_max_unavailable b;
          low = pct < bu_min_healthy b;
          reason1 = (if over then ''requested disruptions exceed max_unavailable'' else []);
          reason = (if low
                    then (if reason1 = [] then ''healthy percentage after disruption below min_healthy_pct''
                          else reason1 @ ''; healthy percentage after disruption below min_healthy_pct'')
                    else reason1)
      in \<lparr>ev_budget = bu_id b, ev_allowed = (\<not> over \<and> \<not> low), ev_reason = reason, ev_total = total_n,
          ev_requested = requested, ev_remaining = remaining_after total_n requested, ev_healthy_pct = pct\<rparr>)"

definition budget_step :: "budget_store \<Rightarrow> gotime \<times> budget_input \<Rightarrow> budget_store" where
  "budget_step s op = fst (Create_budget (fst op) (snd op) s)"

lemma budget_keys: "keys_step ''budget-'' (bs_next s) (bs_budgets s) (bs_next (budget_step s op)) (bs_budgets (budget_step s op))"
  by (simp add: budget_step_def Create_budget_def Let_def new_budget_def)

definition budget_ok :: "budget \<Rightarrow> bool" where
  "budget_ok b \<longleftrightarrow> bu_name b \<noteq> [] \<and> 1 \<le> bu_max_unavailable b \<and> 1 \<le> bu_min_healthy b \<and> bu_min_healthy b \<le> 100"

definition budget_inv :: "budget_store \<Rightarrow> bool" where
  "budget_inv s \<longleftrightarrow> store_inv bs_budgets bs_next ''budget-'' s \<and> (\<forall>i b. mget (bs_budgets s) i = Some b \<longrightarrow> bu_id b = i \<and> budget_ok b)"

text \<open>The budget that a successful \<^verbatim>\<open>Create\<close> stores.\<close>

lemma new_budget_ok: "TrimSpace (bi_name inp) \<noteq> [] \<Longrightarrow> budget_ok (new_budget now inp n)"
  by (simp add: new_budget_def budget_ok_def Let_def)

lemma budget_step_items:
  "bs_budgets (budget_step s op) = bs_budgets s \<or>
   (\<exists>b. bs_budgets (budget_step s op) = mput (bu_id b) b (bs_budgets s) \<and> budget_ok b)"
proof (cases "TrimSpace (bi_name (snd op)) = []")
  case False
  then have "bs_budgets (budget_step s op) =
      mput (bu_id (new_budget (fst op) (snd op) (bs_next s + 1))) (new_budget (fst op) (snd op) (bs_next s + 1)) (bs_budgets s)"
    by (simp add: budget_step_def Create_budget_def Let_def)
  then show ?thesis using new_budget_ok [OF False] by blast
qed (simp add: budget_step_def Create_budget_def)

lemma budget_step_inv:
  assumes inv: "budget_inv s"
  shows "budget_inv (budget_step s op)"
proof -
  have d: "mget (bs_budgets s) i = Some b \<Longrightarrow> bu_id b = i \<and> budget_ok b" for i b
    using inv unfolding budget_inv_def by blast
  have "bu_id b = i \<and> budget_ok b" if "mget (bs_budgets (budget_step s op)) i = Some b" for i b
    using budget_step_items [of s op] that d [of i b] by (auto split: if_splits)
  then show ?thesis using store_inv_step [of bs_budgets bs_next "''budget-''" s "budget_step s op"] budget_keys inv unfolding budget_inv_def by blast
qed

interpretation budgets: counter_store budget_step budget_inv bs_budgets bs_next "''budget-''"
  by unfold_locales (simp_all add: budget_step_inv budget_keys, simp add: budget_inv_def)

lemma floor_ge_iff: "0 < (n::int) \<Longrightarrow> p \<le> a div n \<longleftrightarrow> p * n \<le> a"
proof
  assume "0 < n" "p \<le> a div n"
  then have "p * n \<le> a div n * n" by (intro mult_right_mono) simp_all
  also have "\<dots> \<le> a" using pos_mod_sign [OF \<open>0 < n\<close>, of a] div_mult_mod_eq [of a n] by linarith
  finally show "p * n \<le> a" .
next
  assume n: "0 < n" "p * n \<le> a"
  then have "p * n div n \<le> a div n" by (intro zdiv_mono1)
  then show "p \<le> a div n" using n by simp
qed

text \<open>a disruption is allowed exactly when it stays within \<^verbatim>\<open>max_unavailable\<close> and, for a
  non-empty set of targets, the targets that remain are at least the required share of all of them;
  rounding never lets a smaller share pass. The reason is empty exactly for an allowed request, and the
  reported percentage lies between 0 and 100.\<close>

theorem EvaluateDisruptionBudget_exact:
  assumes "budget_ok b" and "0 \<le> n" "n \<le> 2 ^ 56" and "0 \<le> requested"
  shows "let e = EvaluateDisruptionBudget b n requested
    in (ev_allowed e \<longleftrightarrow> requested \<le> bu_max_unavailable b \<and>
          (0 < n \<longrightarrow> bu_min_healthy b * n \<le> 100 * max 0 (n - requested))) \<and>
       (ev_reason e = [] \<longleftrightarrow> ev_allowed e) \<and> 0 \<le> ev_healthy_pct e \<and> ev_healthy_pct e \<le> 100 \<and>
       ev_remaining e = max 0 (n - requested)"
proof -
  define e where "e = EvaluateDisruptionBudget b n requested"
  define rem where "rem = max 0 (n - requested)"
  define pct where "pct = (if 0 < n then rem * 100 div n else 100)"
  have r: "0 \<le> rem" "rem \<le> n" "remaining_after n requested = rem" using assms by (auto simp: rem_def remaining_after_def)
  have "rem * 100 < 2 ^ 63" using r assms(3) by simp
  then have pct: "healthy_pct_after n requested = pct" using r by (simp add: healthy_pct_after_def pct_def wrap64_id go_div_nonneg)
  have e: "ev_allowed e \<longleftrightarrow> requested \<le> bu_max_unavailable b \<and> bu_min_healthy b \<le> pct"
    "ev_healthy_pct e = pct" "ev_remaining e = rem" "ev_reason e = [] \<longleftrightarrow> ev_allowed e"
    using assms(2,4) r(3) pct by (simp_all add: e_def EvaluateDisruptionBudget_def Let_def not_less)
  have p: "bu_min_healthy b \<le> pct \<longleftrightarrow> (0 < n \<longrightarrow> bu_min_healthy b * n \<le> 100 * rem)"
    using assms(1) floor_ge_iff [of n "bu_min_healthy b" "rem * 100"] by (simp add: pct_def budget_ok_def mult.commute)
  have "0 \<le> pct" "pct \<le> 100"
    using r zdiv_mono1 [of "rem * 100" "n * 100" n] by (auto simp: pct_def pos_imp_zdiv_nonneg_iff)
  then show ?thesis using p e unfolding Let_def rem_def [symmetric] e_def [symmetric] by simp
qed

theorem EvaluateDisruptionBudget_exact_witness:
  "ev_allowed (EvaluateDisruptionBudget (new_budget 0 \<lparr>bi_name = ''web'', bi_scope = [], bi_max_unavailable = 3, bi_min_healthy = 70\<rparr> 1) 10 3) \<and>
   \<not> ev_allowed (EvaluateDisruptionBudget (new_budget 0 \<lparr>bi_name = ''web'', bi_scope = [], bi_max_unavailable = 3, bi_min_healthy = 71\<rparr> 1) 10 3)"
proof -
  define b where "b p = new_budget 0 \<lparr>bi_name = ''web'', bi_scope = [], bi_max_unavailable = 3, bi_min_healthy = p\<rparr> 1" for p
  have ok: "budget_ok (b p)" "bu_max_unavailable (b p) = 3" "bu_min_healthy (b p) = p" if "p = 70 \<or> p = 71" for p
    using that by (auto simp: b_def new_budget_def budget_ok_def Let_def) code_simp+
  show ?thesis unfolding b_def [symmetric]
    using EvaluateDisruptionBudget_exact [of "b 70" 10 3] EvaluateDisruptionBudget_exact [of "b 71" 10 3] ok
    by (simp add: Let_def)
qed

section \<open>Checkpoints\<close>

record checkpoint_input =
  ci_run :: string
  ci_job :: string
  ci_path :: string
  ci_step :: string
  ci_order :: int
  ci_status :: string
  ci_metadata :: "string gomap"

record checkpoint =
  cp_id :: string
  cp_run :: string
  cp_job :: string
  cp_path :: string
  cp_step :: string
  cp_order :: int
  cp_status :: string
  cp_metadata :: "string gomap"
  cp_recorded :: gotime

record checkpoint_store =
  ck_next :: int
  ck_items :: "checkpoint gomap"

definition NewExecutionCheckpointStore :: checkpoint_store where
  "NewExecutionCheckpointStore = \<lparr>ck_next = 0, ck_items = []\<rparr>"

definition new_checkpoint :: "gotime \<Rightarrow> checkpoint_input \<Rightarrow> int \<Rightarrow> checkpoint" where
  "new_checkpoint now inp n = \<lparr>cp_id = seq_id ''checkpoint-'' n, cp_run = TrimSpace (ci_run inp), cp_job = TrimSpace (ci_job inp),
     cp_path = TrimSpace (ci_path inp), cp_step = TrimSpace (ci_step inp), cp_order = ci_order inp,
     cp_status = TrimSpace (ci_status inp), cp_metadata = ci_metadata inp, cp_recorded = now\<rparr>"

definition Record :: "gotime \<Rightarrow> checkpoint_input \<Rightarrow> checkpoint_store \<Rightarrow> checkpoint_store \<times> checkpoint result" where
  "Record now inp s =
     (if TrimSpace (ci_path inp) = [] then (s, Inl ''config_path is required'')
      else let c = new_checkpoint now inp (ck_next s + 1)
           in (s\<lparr>ck_next := ck_next s + 1, ck_items := mput (cp_id c) c (ck_items s)\<rparr>, Inr c))"

definition Get_checkpoint :: "string \<Rightarrow> checkpoint_store \<Rightarrow> checkpoint option" where
  "Get_checkpoint i s = mget (ck_items s) (TrimSpace i)"

definition checkpoint_matches :: "string \<Rightarrow> string \<Rightarrow> checkpoint \<Rightarrow> bool" where
  "checkpoint_matches run job c \<longleftrightarrow> (run \<noteq> [] \<longrightarrow> cp_run c = run) \<and> (job \<noteq> [] \<longrightarrow> cp_job c = job)"

definition List_checkpoints :: "string \<Rightarrow> string \<Rightarrow> int \<Rightarrow> checkpoint_store \<Rightarrow> checkpoint list" where
  "List_checkpoints run_id job_id limit s =
     (let limit = (if limit \<le> 0 then 100 else limit)
      in take (nat limit) (sort_key (\<lambda>c. - cp_recorded c)
           (filter (checkpoint_matches (TrimSpace run_id) (TrimSpace job_id)) (map snd (ck_items s)))))"

definition checkpoint_step :: "checkpoint_store \<Rightarrow> gotime \<times> checkpoint_input \<Rightarrow> checkpoint_store" where
  "checkpoint_step s op = fst (Record (fst op) (snd op) s)"

lemma checkpoint_keys:
  "keys_step ''checkpoint-'' (ck_next s) (ck_items s) (ck_next (checkpoint_step s op)) (ck_items (checkpoint_step s op))"
  by (simp add: checkpoint_step_def Record_def Let_def new_checkpoint_def)

interpretation checkpoints: counter_store checkpoint_step "store_inv ck_items ck_next ''checkpoint-''" ck_items ck_next "''checkpoint-''"
  by unfold_locales (auto intro: store_inv_step [where items = ck_items and counter = ck_next] checkpoint_keys)

text \<open>Checkpoints are append-only: later records never change or drop an earlier one.\<close>

lemma checkpoint_kept:
  assumes "store_inv ck_items ck_next ''checkpoint-'' s" "mget (ck_items s) i = Some c"
  shows "mget (ck_items (foldl checkpoint_step s ops)) i = Some c"
  using assms
proof (induction ops arbitrary: s)
  case (Cons op ops)
  have "seq_id ''checkpoint-'' (ck_next s + 1) \<notin> set (mkeys (ck_items s))"
    using Cons.prems(1) by (auto simp: store_inv_def dest: ids_below_fresh simp del: set_map)
  moreover have "i \<in> set (mkeys (ck_items s))" using Cons.prems(2) by (simp add: set_mkeys domI del: set_map)
  ultimately have "i \<noteq> seq_id ''checkpoint-'' (ck_next s + 1)" by metis
  then have "mget (ck_items (checkpoint_step s op)) i = Some c"
    using Cons.prems(2) by (simp add: checkpoint_step_def Record_def Let_def new_checkpoint_def)
  then show ?case using Cons.IH checkpoints.step_inv [OF Cons.prems(1)] by simp
qed simp

section \<open>Pacing of the automatic recovery\<close>

record recovery_policy =
  rp_enabled :: bool
  rp_max_age :: int
  rp_cooldown :: int
  rp_updated :: gotime

record recovery_store =
  rs_policy :: recovery_policy
  rs_last_check :: gotime
  rs_last_recovered_at :: gotime
  rs_last_recovered :: int
  rs_total_recovered :: int
  rs_total_checks :: int
  rs_last_mode :: string
  rs_last_max_age :: int

definition NewStuckRecoveryStore :: "gotime \<Rightarrow> recovery_store" where
  "NewStuckRecoveryStore now = \<lparr>rs_policy = \<lparr>rp_enabled = True, rp_max_age = 300, rp_cooldown = 60, rp_updated = now\<rparr>,
     rs_last_check = 0, rs_last_recovered_at = 0, rs_last_recovered = 0, rs_total_recovered = 0, rs_total_checks = 0,
     rs_last_mode = [], rs_last_max_age = 0\<rparr>"

definition SetPolicy :: "gotime \<Rightarrow> recovery_policy \<Rightarrow> recovery_store \<Rightarrow> recovery_store \<times> recovery_policy result" where
  "SetPolicy now inp s =
     (if rp_max_age inp \<le> 0 then (s, Inl ''max_age_seconds must be > 0'')
      else if rp_cooldown inp < 0 then (s, Inl ''cooldown_seconds must be >= 0'')
      else let p = \<lparr>rp_enabled = rp_enabled inp, rp_max_age = rp_max_age inp, rp_cooldown = rp_cooldown inp, rp_updated = now\<rparr>
           in (s\<lparr>rs_policy := p\<rparr>, Inr p))"

definition PrepareAutoRun :: "gotime \<Rightarrow> recovery_store \<Rightarrow> recovery_store \<times> recovery_policy \<times> bool" where
  "PrepareAutoRun now s =
     (let p = rs_policy s
      in if \<not> rp_enabled p then (s, p, False)
         else if rp_cooldown p > 0 \<and> rs_last_check s \<noteq> 0 \<and> now - rs_last_check s < seconds (rp_cooldown p) then (s, p, False)
         else (s\<lparr>rs_last_check := now, rs_total_checks := rs_total_checks s + 1, rs_last_mode := ''auto'',
                 rs_last_max_age := rp_max_age p\<rparr>, p, True))"

definition recordRunResultLocked :: "gotime \<Rightarrow> int \<Rightarrow> recovery_store \<Rightarrow> recovery_store" where
  "recordRunResultLocked now recovered s =
     (let recovered = (if recovered < 0 then 0 else recovered);
          s = s\<lparr>rs_last_recovered := recovered\<rparr>
      in if recovered > 0
         then s\<lparr>rs_last_recovered_at := now, rs_total_recovered := rs_total_recovered s + recovered\<rparr> else s)"

definition RecordAutoRunResult :: "gotime \<Rightarrow> int \<Rightarrow> recovery_store \<Rightarrow> recovery_store" where
  "RecordAutoRunResult = recordRunResultLocked"

definition RecordManualRun :: "gotime \<Rightarrow> int \<Rightarrow> int \<Rightarrow> recovery_store \<Rightarrow> recovery_store" where
  "RecordManualRun now maxAge recovered s =
     recordRunResultLocked now recovered (s\<lparr>rs_last_check := now, rs_total_checks := rs_total_checks s + 1,
       rs_last_mode := ''manual'', rs_last_max_age := (if maxAge \<le> 0 then rp_max_age (rs_policy s) else maxAge)\<rparr>)"

datatype recovery_op = RSetPolicy gotime recovery_policy | RPrepare gotime | RResult gotime int | RManual gotime int int

fun recovery_step :: "recovery_store \<Rightarrow> recovery_op \<Rightarrow> recovery_store" where
  "recovery_step s (RSetPolicy now p) = fst (SetPolicy now p s)"
| "recovery_step s (RPrepare now) = fst (PrepareAutoRun now s)"
| "recovery_step s (RResult now n) = RecordAutoRunResult now n s"
| "recovery_step s (RManual now age n) = RecordManualRun now age n s"

definition recovery_inv :: "recovery_store \<Rightarrow> bool" where
  "recovery_inv s \<longleftrightarrow> 1 \<le> rp_max_age (rs_policy s) \<and> 0 \<le> rp_cooldown (rs_policy s) \<and> 0 \<le> rs_last_recovered s \<and>
     rs_last_recovered s \<le> rs_total_recovered s \<and> 0 \<le> rs_total_checks s"

lemma recovery_step_inv: "recovery_inv s \<Longrightarrow> recovery_inv (recovery_step s op)"
  by (cases op)
    (auto simp: recovery_inv_def SetPolicy_def PrepareAutoRun_def RecordAutoRunResult_def RecordManualRun_def
      recordRunResultLocked_def Let_def)

interpretation recovery: stepper recovery_step recovery_inv
  by unfold_locales (rule recovery_step_inv)

text \<open>The times of the checks in a sequence of operations grow, and no operation sets the policy.\<close>

fun op_check_time :: "recovery_op \<Rightarrow> gotime option" where
  "op_check_time (RPrepare now) = Some now"
| "op_check_time (RManual now age n) = Some now"
| "op_check_time _ = None"

fun steady :: "gotime \<Rightarrow> recovery_op list \<Rightarrow> bool" where
  "steady t [] \<longleftrightarrow> True"
| "steady t (op # ops) \<longleftrightarrow> (case op of RSetPolicy _ _ \<Rightarrow> False | _ \<Rightarrow> True) \<and>
     (case op_check_time op of Some t' \<Rightarrow> t \<le> t' \<and> steady t' ops | None \<Rightarrow> steady t ops)"

lemma steady_earlier: "t' \<le> t \<Longrightarrow> steady t ops \<Longrightarrow> steady t' ops"
  by (induction ops arbitrary: t t') (auto split: option.splits intro: order_trans)

lemma steady_run:
  assumes "t \<le> rs_last_check s" "0 < t" "steady (rs_last_check s) ops"
  shows "t \<le> rs_last_check (foldl recovery_step s ops) \<and> rs_policy (foldl recovery_step s ops) = rs_policy s"
  using assms
proof (induction ops arbitrary: s)
  case (Cons op ops)
  have "t \<le> rs_last_check (recovery_step s op) \<and> rs_policy (recovery_step s op) = rs_policy s \<and>
      steady (rs_last_check (recovery_step s op)) ops"
  proof (cases op)
    case (RPrepare now)
    then show ?thesis using Cons.prems steady_earlier [of "rs_last_check s" now ops] by (auto simp: PrepareAutoRun_def Let_def)
  qed (use Cons.prems in \<open>auto simp: RecordAutoRunResult_def RecordManualRun_def recordRunResultLocked_def Let_def\<close>)
  then show ?case using Cons.IH [of "recovery_step s op"] Cons.prems(2) by simp
qed simp

text \<open>Two automatic recoveries that are both let through, with any checks, manual runs and
  results in between but no change of the policy, are at least the cooldown apart.\<close>

theorem auto_recovery_cooldown:
  assumes "PrepareAutoRun t s = (s', p, True)" and "0 < t" and "0 < rp_cooldown p"
    and "steady t ops" and "snd (snd (PrepareAutoRun t' (foldl recovery_step s' ops)))"
  shows "t + seconds (rp_cooldown p) \<le> t'"
proof -
  have s': "rs_last_check s' = t" "rs_policy s' = p"
    using assms(1) by (auto simp: PrepareAutoRun_def Let_def split: if_splits)
  have run: "t \<le> rs_last_check (foldl recovery_step s' ops)" "rs_policy (foldl recovery_step s' ops) = p"
    using steady_run [of t s' ops] assms(2,4) s' by auto
  then have "rs_last_check (foldl recovery_step s' ops) \<noteq> 0" using assms(2) by simp
  then have "\<not> t' - rs_last_check (foldl recovery_step s' ops) < seconds (rp_cooldown p)"
    using assms(3,5) run(2) by (auto simp: PrepareAutoRun_def Let_def split: if_splits)
  then show ?thesis using run(1) by simp
qed

theorem auto_recovery_cooldown_witness:
  "let s' = fst (PrepareAutoRun 1 (NewStuckRecoveryStore 1)); s'' = foldl recovery_step s' [RManual (seconds 20) 0 2, RResult (seconds 21) 0]
   in snd (snd (PrepareAutoRun (seconds 90) s'')) \<and> 1 + seconds 60 \<le> seconds 90"
proof -
  let ?s' = "fst (PrepareAutoRun 1 (NewStuckRecoveryStore 1))" and ?p = "rs_policy (NewStuckRecoveryStore 1)"
  have a: "PrepareAutoRun 1 (NewStuckRecoveryStore 1) = (?s', ?p, True)"
    by (simp add: PrepareAutoRun_def NewStuckRecoveryStore_def Let_def)
  have "rp_cooldown ?p = 60" "steady 1 [RManual (seconds 20) 0 2, RResult (seconds 21) 0]"
    "snd (snd (PrepareAutoRun (seconds 90) (foldl recovery_step ?s' [RManual (seconds 20) 0 2, RResult (seconds 21) 0])))"
    by code_simp+
  with auto_recovery_cooldown [OF a, of "[RManual (seconds 20) 0 2, RResult (seconds 21) 0]" "seconds 90"]
  show ?thesis by (simp add: Let_def)
qed

end
