(* ===== verification/Queue.thy ===== *)
theory Queue
  imports ConfigValidate GoTime
begin

text \<open>
  The job queue of internal/control/queue.go.

  \<^item> \<open>queue\<close> is the struct \<^verbatim>\<open>Queue\<close>; a buffered channel of pending identifiers is the list of
    its contents with the shared capacity \<open>q_buffer\<close>. The calls of \<^verbatim>\<open>publish\<close> are recorded, in
    order, in \<open>q_published\<close>: every subscriber is called with exactly these jobs.
  \<^item> Each method is a function on that state; \<open>now\<close> is the value of \<^verbatim>\<open>time.Now().UTC()\<close> in it
    (one reading per call).
  \<^item> The worker goroutine is a state machine: \<open>phase\<close> is its program counter between two
    accesses to shared state, \<open>worker_step\<close> one such access, interleaved with the calls of
    clients. \<^verbatim>\<open>runOne\<close> is two steps, because it releases the lock while the executor runs.
  \<^item> \<open>sys_inv\<close> is the invariant of the interleaved system; the properties follow from it.
\<close>

datatype job_status = JobPending | JobRunning | JobSucceeded | JobFailed | JobCanceled

record job =
  j_id :: string
  j_key :: string
  j_path :: string
  j_priority :: string
  j_status :: job_status
  j_error :: string
  j_created :: gotime
  j_started :: gotime
  j_ended :: gotime

record worker_policy =
  wp_mode :: string
  wp_max_jobs :: int
  wp_restart_ms :: int
  wp_updated :: gotime

record worker_input =
  wi_mode :: string
  wi_max_jobs :: int
  wi_restart_ms :: int

record queue =
  q_next :: int
  q_jobs :: "job gomap"
  q_by_key :: "string gomap"
  q_buffer :: int
  q_high :: "string list"
  q_normal :: "string list"
  q_low :: "string list"
  q_published :: "job list"
  q_emergency :: bool
  q_emergency_since :: gotime
  q_emergency_reason :: string
  q_freeze_until :: gotime
  q_freeze_reason :: string
  q_paused :: bool
  q_running :: int
  q_rr :: nat
  q_policy :: worker_policy
  q_generation :: int
  q_recycles :: int

definition NewQueue :: "gotime \<Rightarrow> int \<Rightarrow> queue" where
  "NewQueue now buffer =
     \<lparr>q_next = 0, q_jobs = [], q_by_key = [], q_buffer = (if buffer \<le> 0 then 128 else buffer),
      q_high = [], q_normal = [], q_low = [], q_published = [],
      q_emergency = False, q_emergency_since = 0, q_emergency_reason = [],
      q_freeze_until = 0, q_freeze_reason = [], q_paused = False, q_running = 0, q_rr = 0,
      q_policy = \<lparr>wp_mode = ''persistent'', wp_max_jobs = 0, wp_restart_ms = 0, wp_updated = now\<rparr>,
      q_generation = 0, q_recycles = 0\<rparr>"

section \<open>Pending channels\<close>

definition normalizePriority :: "string \<Rightarrow> string" where
  "normalizePriority p =
     (let t = lower_trim p
      in if t = ''high'' then ''high'' else if t = ''low'' then ''low'' else ''normal'')"

definition chan :: "queue \<Rightarrow> string \<Rightarrow> string list" where
  "chan q cls = (if cls = ''high'' then q_high q else if cls = ''low'' then q_low q else q_normal q)"

definition set_chan :: "string \<Rightarrow> string list \<Rightarrow> queue \<Rightarrow> queue" where
  "set_chan cls ids q =
     (if cls = ''high'' then q\<lparr>q_high := ids\<rparr>
      else if cls = ''low'' then q\<lparr>q_low := ids\<rparr>
      else q\<lparr>q_normal := ids\<rparr>)"

definition pushPending :: "string \<Rightarrow> string \<Rightarrow> queue \<Rightarrow> queue result" where
  "pushPending i priority q =
     (let cls = normalizePriority priority
      in if int (length (chan q cls)) < q_buffer q
         then Inr (set_chan cls (chan q cls @ [i]) q)
         else Inl (''pending queue full for priority class: '' @ cls))"

definition classes :: "string list" where
  "classes = [''high'', ''normal'', ''low'']"

text \<open>One turn of the polling loop of \<^verbatim>\<open>nextPending\<close>, and the whole loop when nobody interferes.\<close>

definition probe :: "nat \<Rightarrow> queue \<Rightarrow> (string \<times> queue) option" where
  "probe i q =
     (let idx = (q_rr q + i) mod length classes; cls = classes ! idx
      in case chan q cls of
           [] \<Rightarrow> None
         | x # xs \<Rightarrow> Some (x, (set_chan cls xs q)\<lparr>q_rr := (idx + 1) mod length classes\<rparr>))"

definition poll :: "queue \<Rightarrow> (string \<times> queue) option" where
  "poll q = (case probe 0 q of Some r \<Rightarrow> Some r | None \<Rightarrow>
     (case probe 1 q of Some r \<Rightarrow> Some r | None \<Rightarrow> probe 2 q))"

text \<open>The blocking \<^verbatim>\<open>select\<close>: a receive from one class, the round-robin index unchanged.\<close>

definition receive :: "string \<Rightarrow> queue \<Rightarrow> (string \<times> queue) option" where
  "receive cls q = (case chan q cls of [] \<Rightarrow> None | x # xs \<Rightarrow> Some (x, set_chan cls xs q))"

section \<open>Client operations\<close>

definition publish :: "job \<Rightarrow> queue \<Rightarrow> queue" where
  "publish j q = q\<lparr>q_published := q_published q @ [j]\<rparr>"

definition set_job :: "job \<Rightarrow> queue \<Rightarrow> queue" where
  "set_job j q = q\<lparr>q_jobs := mput (j_id j) j (q_jobs q)\<rparr>"

definition freeze_message :: "queue \<Rightarrow> string" where
  "freeze_message q =
     (let until = format_rfc3339 (q_freeze_until q); reason = TrimSpace (q_freeze_reason q)
      in if reason \<noteq> [] then ''change freeze active until '' @ until @ '': '' @ reason
         else ''change freeze active until '' @ until)"

definition new_job :: "gotime \<Rightarrow> string \<Rightarrow> string \<Rightarrow> string \<Rightarrow> queue \<Rightarrow> job" where
  "new_job now path key priority q =
     \<lparr>j_id = stamped (''job-'' @ format_compact now) (q_next q + 1), j_key = key, j_path = path,
      j_priority = normalizePriority priority, j_status = JobPending, j_error = [],
      j_created = now, j_started = 0, j_ended = 0\<rparr>"

definition add_job :: "job \<Rightarrow> queue \<Rightarrow> queue" where
  "add_job j q = q\<lparr>q_next := q_next q + 1, q_jobs := mput (j_id j) j (q_jobs q),
     q_by_key := (if j_key j \<noteq> [] then mput (j_key j) (j_id j) (q_by_key q) else q_by_key q)\<rparr>"

definition Enqueue :: "gotime \<Rightarrow> string \<Rightarrow> string \<Rightarrow> bool \<Rightarrow> string \<Rightarrow> queue \<Rightarrow> queue \<times> job option result" where
  "Enqueue now path key force priority q =
     (case (if key \<noteq> [] then mget (q_by_key q) key else None) of
        Some existing \<Rightarrow> (q, Inr (mget (q_jobs q) existing))
      | None \<Rightarrow>
          if q_emergency q \<and> \<not> force then (q, Inl ''emergency stop active; new applies are halted'')
          else if \<not> force \<and> q_freeze_until q \<noteq> 0 \<and> now < q_freeze_until q then (q, Inl (freeze_message q))
          else
            (let j = new_job now path key priority q; q1 = add_job j q
             in case pushPending (j_id j) (j_priority j) q1 of
                  Inl e \<Rightarrow> (q1\<lparr>q_jobs := mdel (j_id j) (q_jobs q1), q_by_key := mdel key (q_by_key q1)\<rparr>, Inl e)
                | Inr q2 \<Rightarrow> (publish j q2, Inr (Some j))))"

definition Get :: "string \<Rightarrow> queue \<Rightarrow> job option" where
  "Get i q = mget (q_jobs q) i"

definition List_jobs :: "queue \<Rightarrow> job list" where
  "List_jobs q = map snd (q_jobs q)"

definition finished :: "job \<Rightarrow> bool" where
  "finished j \<longleftrightarrow> j_status j = JobSucceeded \<or> j_status j = JobFailed"

definition Cancel :: "gotime \<Rightarrow> string \<Rightarrow> queue \<Rightarrow> queue \<times> unit result" where
  "Cancel now i q =
     (case mget (q_jobs q) i of
        None \<Rightarrow> (q, Inl ''job not found'')
      | Some j \<Rightarrow>
          if finished j then (q, Inl ''job already finished'')
          else let j' = j\<lparr>j_status := JobCanceled, j_ended := now\<rparr>
               in (publish j' (set_job j' q), Inr ()))"

definition dec_running :: "queue \<Rightarrow> queue" where
  "dec_running q = (if q_running q > 0 then q\<lparr>q_running := q_running q - 1\<rparr> else q)"

definition FailJob :: "gotime \<Rightarrow> string \<Rightarrow> string \<Rightarrow> queue \<Rightarrow> queue \<times> job result" where
  "FailJob now i reason q =
     (case mget (q_jobs q) (TrimSpace i) of
        None \<Rightarrow> (q, Inl ''job not found'')
      | Some j \<Rightarrow>
          if finished j then (q, Inr j)
          else let j' = j\<lparr>j_status := JobFailed,
                   j_error := (if TrimSpace reason = [] then ''job failed by operator action'' else TrimSpace reason),
                   j_ended := now\<rparr>
               in (publish j' (dec_running (set_job j' q)), Inr j'))"

record emergency_status =
  es_active :: bool
  es_since :: gotime
  es_reason :: string

definition EmergencyStatus :: "queue \<Rightarrow> emergency_status" where
  "EmergencyStatus q = \<lparr>es_active = q_emergency q, es_since = q_emergency_since q, es_reason = q_emergency_reason q\<rparr>"

definition SetEmergencyStop :: "gotime \<Rightarrow> bool \<Rightarrow> string \<Rightarrow> queue \<Rightarrow> queue \<times> emergency_status" where
  "SetEmergencyStop now active reason q =
     (let q' = (if active
        then q\<lparr>q_emergency := True,
               q_emergency_since := (if q_emergency_since q = 0 then now else q_emergency_since q),
               q_emergency_reason := reason\<rparr>
        else q\<lparr>q_emergency := False, q_emergency_since := 0, q_emergency_reason := []\<rparr>)
      in (q', EmergencyStatus q'))"

record freeze_status =
  fs_active :: bool
  fs_until :: gotime
  fs_reason :: string

definition no_freeze :: freeze_status where
  "no_freeze = \<lparr>fs_active = False, fs_until = 0, fs_reason = []\<rparr>"

definition SetFreezeUntil :: "gotime \<Rightarrow> gotime \<Rightarrow> string \<Rightarrow> queue \<Rightarrow> queue \<times> freeze_status" where
  "SetFreezeUntil now until reason q =
     (if until = 0 \<or> \<not> until > now then (q\<lparr>q_freeze_until := 0, q_freeze_reason := []\<rparr>, no_freeze)
      else (q\<lparr>q_freeze_until := until, q_freeze_reason := TrimSpace reason\<rparr>,
            \<lparr>fs_active = True, fs_until = until, fs_reason = TrimSpace reason\<rparr>))"

definition ClearFreeze :: "gotime \<Rightarrow> queue \<Rightarrow> queue \<times> freeze_status" where
  "ClearFreeze now q = SetFreezeUntil now 0 [] q"

definition FreezeStatus :: "gotime \<Rightarrow> queue \<Rightarrow> queue \<times> freeze_status" where
  "FreezeStatus now q =
     (if q_freeze_until q = 0 then (q, no_freeze)
      else if \<not> now < q_freeze_until q then (q\<lparr>q_freeze_until := 0, q_freeze_reason := []\<rparr>, no_freeze)
      else (q, \<lparr>fs_active = True, fs_until = q_freeze_until q, fs_reason = q_freeze_reason q\<rparr>))"

definition SetWorkerLifecyclePolicy :: "gotime \<Rightarrow> worker_input \<Rightarrow> queue \<Rightarrow> queue \<times> worker_policy" where
  "SetWorkerLifecyclePolicy now inp q =
     (let mode = lower_trim (wi_mode inp);
          mode = (if mode = [] then ''persistent'' else mode);
          mode = (if mode = ''persistent'' \<or> mode = ''stateless'' then mode else ''persistent'');
          maxJobs = wi_max_jobs inp;
          maxJobs = (if mode = ''stateless'' \<and> maxJobs \<le> 0 then 1 else maxJobs);
          maxJobs = (if maxJobs < 0 then 0 else maxJobs);
          restart = (if wi_restart_ms inp < 0 then 0 else wi_restart_ms inp);
          policy = \<lparr>wp_mode = mode, wp_max_jobs = maxJobs, wp_restart_ms = restart, wp_updated = now\<rparr>
      in (q\<lparr>q_policy := policy\<rparr>, policy))"

record control_status =
  cs_paused :: bool
  cs_running :: int
  cs_pending :: int
  cs_pending_high :: int
  cs_pending_normal :: int
  cs_pending_low :: int

definition ControlStatus :: "queue \<Rightarrow> control_status" where
  "ControlStatus q = \<lparr>cs_paused = q_paused q, cs_running = q_running q,
     cs_pending = int (length (q_high q)) + int (length (q_normal q)) + int (length (q_low q)),
     cs_pending_high = int (length (q_high q)), cs_pending_normal = int (length (q_normal q)),
     cs_pending_low = int (length (q_low q))\<rparr>"

definition Pause :: "queue \<Rightarrow> queue \<times> control_status" where
  "Pause q = (let q' = q\<lparr>q_paused := True\<rparr> in (q', ControlStatus q'))"

definition Resume :: "queue \<Rightarrow> queue \<times> control_status" where
  "Resume q = (let q' = q\<lparr>q_paused := False\<rparr> in (q', ControlStatus q'))"

text \<open>One test of the loop of \<^verbatim>\<open>SafeDrain\<close>: it returns, with or without an error, or sleeps.\<close>

definition drain_check :: "gotime \<Rightarrow> duration \<Rightarrow> gotime \<Rightarrow> queue \<Rightarrow> control_status result option" where
  "drain_check now timeout deadline q =
     (if cs_running (ControlStatus q) = 0 then Some (Inr (ControlStatus q))
      else if timeout > 0 \<and> now > deadline
        then Some (Inl ''safe-drain timeout waiting for running jobs to complete'')
      else None)"

definition is_stuck :: "gotime \<Rightarrow> duration \<Rightarrow> job \<Rightarrow> bool" where
  "is_stuck now maxAge j \<longleftrightarrow> j_status j = JobRunning \<and> j_started j \<noteq> 0 \<and> \<not> now - j_started j < maxAge"

definition recover_one :: "gotime \<Rightarrow> duration \<Rightarrow> string \<times> job \<Rightarrow> queue \<times> job list \<Rightarrow> queue \<times> job list" where
  "recover_one now maxAge = (\<lambda>(i, j) (q, recovered).
     if \<not> is_stuck now maxAge j then (q, recovered)
     else let j' = j\<lparr>j_status := JobFailed, j_error := ''stale run lease recovered by control plane'',
                     j_ended := now\<rparr>
          in (dec_running (q\<lparr>q_jobs := mput i j' (q_jobs q)\<rparr>), recovered @ [j']))"

definition RecoverStuckJobs :: "gotime \<Rightarrow> duration \<Rightarrow> queue \<Rightarrow> queue \<times> job list" where
  "RecoverStuckJobs now maxAge q =
     (let maxAge = (if maxAge \<le> 0 then 300000000000 else maxAge);
          (q', recovered) = fold (recover_one now maxAge) (q_jobs q) (q, [])
      in (fold publish recovered q', recovered))"

section \<open>The worker\<close>

definition normalizedMaxJobs :: "worker_policy \<Rightarrow> int" where
  "normalizedMaxJobs p =
     (if wp_mode p = ''stateless'' then (if wp_max_jobs p \<le> 0 then 1 else wp_max_jobs p)
      else if wp_max_jobs p \<le> 0 then 0 else wp_max_jobs p)"

text \<open>
  \<^verbatim>\<open>runOne\<close> up to the call of the executor (\<open>None\<close>: it returns at once), and after it. A job that
  is being applied is never deleted (\<open>sys_inv\<close>), so the lookup of \<open>runOne_finish\<close> succeeds.
\<close>

definition runOne_start :: "gotime \<Rightarrow> string \<Rightarrow> queue \<Rightarrow> queue option" where
  "runOne_start now i q =
     (case mget (q_jobs q) i of
        None \<Rightarrow> None
      | Some j \<Rightarrow>
          if j_status j = JobCanceled then None
          else let j' = j\<lparr>j_status := JobRunning, j_started := now\<rparr>
               in Some (publish j' ((set_job j' q)\<lparr>q_running := q_running q + 1\<rparr>)))"

definition runOne_finish :: "gotime \<Rightarrow> string \<Rightarrow> string option \<Rightarrow> queue \<Rightarrow> queue" where
  "runOne_finish now i err q =
     (case mget (q_jobs q) i of
        None \<Rightarrow> q
      | Some j \<Rightarrow>
          if j_status j = JobCanceled then dec_running q
          else let j1 = (case err of
                   Some e \<Rightarrow> j\<lparr>j_status := JobFailed, j_error := e\<rparr>
                 | None \<Rightarrow> j\<lparr>j_status := JobSucceeded\<rparr>);
                   j' = j1\<lparr>j_ended := now\<rparr>
               in publish j' (dec_running (set_job j' q)))"

datatype phase =
    WBegin | WCheck | WProbe nat | WBlocked | WTaken string | WApplying string | WRecycle | WStopped

record wsys =
  w_queue :: queue
  w_phase :: phase
  w_policy :: worker_policy
  w_processed :: int

datatype client_op =
    CEnqueue gotime string string bool string
  | CCancel gotime string
  | CFail gotime string string
  | CEmergency gotime bool string
  | CFreeze gotime gotime string
  | CFreezeStatus gotime
  | CPolicy gotime worker_input
  | CPause
  | CResume
  | CRecover gotime duration

fun client_step :: "queue \<Rightarrow> client_op \<Rightarrow> queue" where
  "client_step q (CEnqueue now path key force prio) = fst (Enqueue now path key force prio q)"
| "client_step q (CCancel now i) = fst (Cancel now i q)"
| "client_step q (CFail now i reason) = fst (FailJob now i reason q)"
| "client_step q (CEmergency now active reason) = fst (SetEmergencyStop now active reason q)"
| "client_step q (CFreeze now until reason) = fst (SetFreezeUntil now until reason q)"
| "client_step q (CFreezeStatus now) = fst (FreezeStatus now q)"
| "client_step q (CPolicy now inp) = fst (SetWorkerLifecyclePolicy now inp q)"
| "client_step q CPause = fst (Pause q)"
| "client_step q CResume = fst (Resume q)"
| "client_step q (CRecover now maxAge) = fst (RecoverStuckJobs now maxAge q)"

datatype label =
    LClient client_op
  | LWorker
  | LReceive string
  | LStart gotime
  | LFinish gotime "string option"
  | LStop

text \<open>The end of one turn of the loop of \<^verbatim>\<open>runWorkerGeneration\<close>.\<close>

definition after_job :: "wsys \<Rightarrow> queue \<Rightarrow> wsys" where
  "after_job w q =
     (let n = w_processed w + 1; m = normalizedMaxJobs (w_policy w)
      in w\<lparr>w_queue := q, w_processed := n, w_phase := (if m > 0 \<and> n \<ge> m then WRecycle else WCheck)\<rparr>)"

text \<open>The steps of the worker that need no input, by its phase.\<close>

definition worker_internal :: "wsys \<Rightarrow> wsys option" where
  "worker_internal w =
     (case w_phase w of
        WBegin \<Rightarrow> Some (w\<lparr>w_policy := q_policy (w_queue w), w_processed := 0, w_phase := WCheck\<rparr>)
      | WCheck \<Rightarrow> Some (if q_paused (w_queue w) then w else w\<lparr>w_phase := WProbe 0\<rparr>)
      | WProbe i \<Rightarrow>
          (if i < length classes
           then (case probe i (w_queue w) of
                   Some (x, q) \<Rightarrow> Some (w\<lparr>w_queue := q, w_phase := WTaken x\<rparr>)
                 | None \<Rightarrow> Some (w\<lparr>w_phase := WProbe (i + 1)\<rparr>))
           else Some (w\<lparr>w_phase := WBlocked\<rparr>))
      | WRecycle \<Rightarrow>
          Some (w\<lparr>w_queue := (w_queue w)\<lparr>q_recycles := q_recycles (w_queue w) + 1,
                    q_generation := q_generation (w_queue w) + 1\<rparr>, w_phase := WBegin\<rparr>)
      | _ \<Rightarrow> None)"

text \<open>
  Where a cancelled context ends the worker: in the blocking \<^verbatim>\<open>select\<close>, while paused, and in the
  restart delay between two generations, which the policy of the generation just ended sets.
\<close>

definition can_stop :: "wsys \<Rightarrow> bool" where
  "can_stop w \<longleftrightarrow> w_phase w = WBlocked \<or> (w_phase w = WCheck \<and> q_paused (w_queue w)) \<or>
     (w_phase w = WBegin \<and> wrap64 (wp_restart_ms (w_policy w) * 1000000) > 0)"

fun worker_step :: "wsys \<Rightarrow> label \<Rightarrow> wsys option" where
  "worker_step w (LClient op) = Some (w\<lparr>w_queue := client_step (w_queue w) op\<rparr>)"
| "worker_step w LWorker = worker_internal w"
| "worker_step w (LReceive cls) =
     (if w_phase w = WBlocked
      then (case receive cls (w_queue w) of
              Some (x, q) \<Rightarrow> Some (w\<lparr>w_queue := q, w_phase := WTaken x\<rparr>)
            | None \<Rightarrow> None)
      else None)"
| "worker_step w (LStart now) =
     (case w_phase w of
        WTaken i \<Rightarrow> (case runOne_start now i (w_queue w) of
            Some q \<Rightarrow> Some (w\<lparr>w_queue := q, w_phase := WApplying i\<rparr>)
          | None \<Rightarrow> Some (after_job w (w_queue w)))
      | _ \<Rightarrow> None)"
| "worker_step w (LFinish now err) =
     (case w_phase w of
        WApplying i \<Rightarrow> Some (after_job w (runOne_finish now i err (w_queue w)))
      | _ \<Rightarrow> None)"
| "worker_step w LStop = (if can_stop w then Some (w\<lparr>w_phase := WStopped\<rparr>) else None)"

definition StartWorker :: "queue \<Rightarrow> wsys" where
  "StartWorker q = \<lparr>w_queue = q\<lparr>q_generation := 1\<rparr>, w_phase = WBegin,
     w_policy = \<lparr>wp_mode = [], wp_max_jobs = 0, wp_restart_ms = 0, wp_updated = 0\<rparr>, w_processed = 0\<rparr>"

inductive reachable :: "wsys \<Rightarrow> bool" where
  start: "reachable (StartWorker (foldl client_step (NewQueue now buffer) ops))"
| step: "reachable w \<Longrightarrow> worker_step w l = Some w' \<Longrightarrow> reachable w'"

section \<open>The invariant of the stored jobs\<close>

definition queued :: "queue \<Rightarrow> string list" where
  "queued q = q_high q @ q_normal q @ q_low q"

definition same_identity :: "job \<Rightarrow> job \<Rightarrow> bool" where
  "same_identity j j' \<longleftrightarrow> j_id j' = j_id j \<and> j_key j' = j_key j \<and> j_priority j' = j_priority j \<and>
     j_path j' = j_path j"

definition jobs_ok :: "queue \<Rightarrow> bool" where
  "jobs_ok q \<longleftrightarrow> wf_map (q_jobs q) \<and> (\<forall>i j. mget (q_jobs q) i = Some j \<longrightarrow> j_id j = i) \<and>
     stamps_below (q_next q) (dom (map_of (q_jobs q)))"

definition keys_ok :: "queue \<Rightarrow> bool" where
  "keys_ok q \<longleftrightarrow>
     (\<forall>k i. mget (q_by_key q) k = Some i \<longrightarrow> k \<noteq> [] \<and> (\<exists>j. mget (q_jobs q) i = Some j \<and> j_key j = k)) \<and>
     (\<forall>i j. mget (q_jobs q) i = Some j \<longrightarrow> j_key j \<noteq> [] \<longrightarrow> mget (q_by_key q) (j_key j) = Some i)"

definition chans_ok :: "queue \<Rightarrow> bool" where
  "chans_ok q \<longleftrightarrow> distinct (queued q) \<and> 0 < q_buffer q \<and> q_rr q < 3 \<and>
     (\<forall>cls \<in> set classes. int (length (chan q cls)) \<le> q_buffer q \<and>
        (\<forall>i \<in> set (chan q cls). \<exists>j. mget (q_jobs q) i = Some j \<and> j_priority j = cls))"

definition queue_inv :: "queue \<Rightarrow> bool" where
  "queue_inv q \<longleftrightarrow> jobs_ok q \<and> keys_ok q \<and> chans_ok q \<and> 0 \<le> q_running q"

lemmas queue_inv_defs = queue_inv_def jobs_ok_def keys_ok_def chans_ok_def

text \<open>The fields that the invariant reads; two states that agree on them satisfy it together.\<close>

definition core :: "queue \<Rightarrow> int \<times> job gomap \<times> string gomap \<times> int \<times> string list \<times> string list \<times> string list \<times> nat" where
  "core q = (q_next q, q_jobs q, q_by_key q, q_buffer q, q_high q, q_normal q, q_low q, q_rr q)"

lemma chan_core: "core q = core q' \<Longrightarrow> chan q cls = chan q' cls"
  by (simp add: core_def chan_def)

lemma core_parts:
  "core q = core q' \<Longrightarrow> jobs_ok q = jobs_ok q' \<and> keys_ok q = keys_ok q' \<and> chans_ok q = chans_ok q'"
  by (simp add: jobs_ok_def keys_ok_def chans_ok_def queued_def core_def chan_def)

lemma queue_inv_core: "core q = core q' \<Longrightarrow> q_running q = q_running q' \<Longrightarrow> queue_inv q = queue_inv q'"
  using core_parts [of q q'] by (simp add: queue_inv_def)

lemma core_publish [simp]: "core (publish j q) = core q" "q_running (publish j q) = q_running q"
    "q_jobs (publish j q) = q_jobs q" "queued (publish j q) = queued q"
  by (simp_all add: core_def publish_def queued_def)

lemma core_dec [simp]: "core (dec_running q) = core q" "q_jobs (dec_running q) = q_jobs q"
    "queued (dec_running q) = queued q"
  by (simp_all add: core_def dec_running_def queued_def)

lemma publish_inv [simp]: "queue_inv (publish j q) = queue_inv q"
  by (rule queue_inv_core) simp_all

lemma queue_inv_running:
  "core q = core q' \<Longrightarrow> 0 \<le> q_running q' \<Longrightarrow> queue_inv q \<Longrightarrow> queue_inv q'"
  using core_parts [of q q'] by (simp add: queue_inv_def)

lemma dec_running_inv: "queue_inv q \<Longrightarrow> queue_inv (dec_running q)"
proof -
  assume "queue_inv q"
  moreover have "q_running q \<ge> 0 \<Longrightarrow> q_running (dec_running q) \<ge> 0" by (simp add: dec_running_def)
  ultimately show ?thesis using queue_inv_running [of q "dec_running q"] by (simp add: queue_inv_def)
qed

lemma set_job_fields [simp]:
  "q_jobs (set_job j q) = mput (j_id j) j (q_jobs q)" "q_running (set_job j q) = q_running q"
  "queued (set_job j q) = queued q" "chan (set_job j q) cls = chan q cls"
  "q_buffer (set_job j q) = q_buffer q" "q_rr (set_job j q) = q_rr q" "q_next (set_job j q) = q_next q"
  "q_by_key (set_job j q) = q_by_key q" "q_paused (set_job j q) = q_paused q"
  by (simp_all add: set_job_def queued_def chan_def)

lemma chans_okI:
  assumes "distinct (queued q)" "0 < q_buffer q" "q_rr q < 3"
    and "\<And>cls. cls \<in> set classes \<Longrightarrow> int (length (chan q cls)) \<le> q_buffer q"
    and "\<And>cls i. cls \<in> set classes \<Longrightarrow> i \<in> set (chan q cls) \<Longrightarrow> \<exists>j. mget (q_jobs q) i = Some j \<and> j_priority j = cls"
  shows "chans_ok q"
  unfolding chans_ok_def using assms by (intro conjI ballI)

lemma chans_okD:
  assumes "chans_ok q"
  shows "distinct (queued q)" "0 < q_buffer q" "q_rr q < 3"
    "cls \<in> set classes \<Longrightarrow> int (length (chan q cls)) \<le> q_buffer q"
    "cls \<in> set classes \<Longrightarrow> i \<in> set (chan q cls) \<Longrightarrow> \<exists>j. mget (q_jobs q) i = Some j \<and> j_priority j = cls"
  using assms unfolding chans_ok_def by blast+

lemma set_job_inv:
  assumes q: "queue_inv q" and j: "mget (q_jobs q) i = Some j" and same: "same_identity j j'"
  shows "queue_inv (set_job j' q)"
proof -
  have i: "j_id j' = i" "j_key j' = j_key j" "j_priority j' = j_priority j"
    using q j same by (auto simp: queue_inv_defs same_identity_def)
  have "jobs_ok (set_job j' q)"
    using q j i by (auto simp: queue_inv_defs set_job_def insert_absorb domI)
  moreover have "keys_ok (set_job j' q)"
  proof -
    have by_key: "mget (q_by_key q) k = Some x \<Longrightarrow> k \<noteq> [] \<and> (\<exists>j. mget (q_jobs q) x = Some j \<and> j_key j = k)"
      and keyed: "mget (q_jobs q) x = Some y \<Longrightarrow> j_key y \<noteq> [] \<Longrightarrow> mget (q_by_key q) (j_key y) = Some x" for k x y
      using q unfolding queue_inv_def keys_ok_def by blast+
    have jobs: "mget (q_jobs (set_job j' q)) = (map_of (q_jobs q))(i \<mapsto> j')" using i by (simp add: fun_eq_iff)
    have bk: "q_by_key (set_job j' q) = q_by_key q" by (simp add: set_job_def)
    have "k \<noteq> [] \<and> (\<exists>y. ((map_of (q_jobs q))(i \<mapsto> j')) x = Some y \<and> j_key y = k)"
      if "mget (q_by_key q) k = Some x" for k x
      using by_key [OF that] i(2) j by (cases "x = i") simp_all
    moreover have "mget (q_by_key q) (j_key y) = Some x"
      if "((map_of (q_jobs q))(i \<mapsto> j')) x = Some y" "j_key y \<noteq> []" for x y
      using that keyed [of x] keyed [OF j] i(2) by (cases "x = i") simp_all
    ultimately show ?thesis unfolding keys_ok_def jobs bk by blast
  qed
  moreover have "chans_ok (set_job j' q)"
  proof (rule chans_okI)
    have c: "chans_ok q" using q by (simp add: queue_inv_def)
    note D = chans_okD [OF c]
    show "distinct (queued (set_job j' q))" "0 < q_buffer (set_job j' q)" "q_rr (set_job j' q) < 3"
      using D(1-3) by simp_all
    show "int (length (chan (set_job j' q) cls)) \<le> q_buffer (set_job j' q)" if "cls \<in> set classes" for cls
      using D(4) [OF that] by simp
    show "\<exists>k. mget (q_jobs (set_job j' q)) x = Some k \<and> j_priority k = cls"
      if "cls \<in> set classes" "x \<in> set (chan (set_job j' q) cls)" for cls x
      using D(5) [of cls x] that i j by auto
  qed
  ultimately show ?thesis using q by (simp add: queue_inv_def)
qed

text \<open>Class names and channels.\<close>

lemma normalizePriority_class: "normalizePriority p \<in> set classes"
  by (simp add: normalizePriority_def classes_def Let_def)

lemma normalizePriority_idem [simp]: "normalizePriority (normalizePriority p) = normalizePriority p"
proof -
  have "lower_trim ''high'' = ''high''" "lower_trim ''low'' = ''low''" "lower_trim ''normal'' = ''normal''"
    by code_simp+
  then show ?thesis by (simp add: normalizePriority_def Let_def)
qed

lemma chan_set_chan:
  "cls \<in> set classes \<Longrightarrow> cls' \<in> set classes \<Longrightarrow>
     chan (set_chan cls ids q) cls' = (if cls' = cls then ids else chan q cls')"
  by (auto simp: classes_def chan_def set_chan_def)

lemma set_chan_fields [simp]:
  "q_jobs (set_chan cls ids q) = q_jobs q" "q_next (set_chan cls ids q) = q_next q"
  "q_by_key (set_chan cls ids q) = q_by_key q" "q_buffer (set_chan cls ids q) = q_buffer q"
  "q_running (set_chan cls ids q) = q_running q" "q_rr (set_chan cls ids q) = q_rr q"
  "q_paused (set_chan cls ids q) = q_paused q"
  by (simp_all add: set_chan_def)

lemma mset_queued: "mset (queued q) = mset (chan q ''high'') + mset (chan q ''normal'') + mset (chan q ''low'')"
  by (simp add: queued_def chan_def)

lemma set_queued: "set (queued q) = (\<Union>cls \<in> set classes. set (chan q cls))"
  by (auto simp: queued_def chan_def classes_def)

lemma mset_queued_set_chan:
  "cls \<in> set classes \<Longrightarrow> mset (queued (set_chan cls ids q)) + mset (chan q cls) = mset (queued q) + mset ids"
  by (auto simp: queued_def chan_def set_chan_def classes_def)

lemma mset_queued_push:
  "cls \<in> set classes \<Longrightarrow> mset (queued (set_chan cls (chan q cls @ [i]) q)) = add_mset i (mset (queued q))"
  using mset_queued_set_chan [of cls "chan q cls @ [i]" q] by simp

lemma mset_queued_pop:
  "cls \<in> set classes \<Longrightarrow> chan q cls = x # xs \<Longrightarrow> mset (queued q) = add_mset x (mset (queued (set_chan cls xs q)))"
  using mset_queued_set_chan [of cls xs q] by simp

lemma distinct_mset_add: "mset ys = add_mset x (mset xs) \<Longrightarrow> distinct ys \<longleftrightarrow> x \<notin> set xs \<and> distinct xs"
  by (metis distinct.simps(2) mset.simps(2) mset_eq_imp_distinct_iff)

lemma pop_inv:
  assumes q: "queue_inv q" and cls: "cls \<in> set classes" and c: "chan q cls = x # xs"
  shows "queue_inv (set_chan cls xs q)" and "x \<notin> set (queued (set_chan cls xs q))"
    and "set (queued q) = insert x (set (queued (set_chan cls xs q)))"
proof -
  let ?q = "set_chan cls xs q"
  note m = mset_queued_pop [OF cls c]
  have "distinct (queued q)" using q by (simp add: queue_inv_def chans_ok_def)
  then have d: "x \<notin> set (queued ?q)" "distinct (queued ?q)" using distinct_mset_add [OF m] by simp_all
  show "x \<notin> set (queued ?q)" by (rule d(1))
  show "set (queued q) = insert x (set (queued ?q))" using arg_cong [OF m, of set_mset] by simp
  have "chans_ok ?q"
  proof (rule chans_okI)
    have ok: "chans_ok q" using q by (simp add: queue_inv_def)
    note D = chans_okD [OF ok]
    show "distinct (queued ?q)" "0 < q_buffer ?q" "q_rr ?q < 3" using d(2) D(2,3) by simp_all
    show "int (length (chan ?q k)) \<le> q_buffer ?q" if "k \<in> set classes" for k
      using D(4) [OF that] c by (auto simp: chan_set_chan [OF cls that])
    show "\<exists>j. mget (q_jobs ?q) i = Some j \<and> j_priority j = k"
      if "k \<in> set classes" "i \<in> set (chan ?q k)" for k i
      using D(5) [OF that(1), of i] that(2) c by (simp add: chan_set_chan [OF cls that(1)] split: if_splits)
  qed
  moreover have "jobs_ok ?q = jobs_ok q" "keys_ok ?q = keys_ok q" by (simp_all add: jobs_ok_def keys_ok_def)
  ultimately show "queue_inv ?q" using q by (simp add: queue_inv_def)
qed

lemma add_job_fields [simp]:
  "q_jobs (add_job j q) = mput (j_id j) j (q_jobs q)" "q_next (add_job j q) = q_next q + 1"
  "queued (add_job j q) = queued q" "chan (add_job j q) cls = chan q cls"
  "q_buffer (add_job j q) = q_buffer q" "q_rr (add_job j q) = q_rr q" "q_running (add_job j q) = q_running q"
  by (simp_all add: add_job_def queued_def chan_def)

lemma fresh_job:
  "queue_inv q \<Longrightarrow> mget (q_jobs q) (j_id (new_job now path key priority q)) = None"
  using stamps_below_fresh [of "q_next q" "dom (map_of (q_jobs q))"]
  by (auto simp: queue_inv_def jobs_ok_def new_job_def)

lemma chan_mem_job:
  "queue_inv q \<Longrightarrow> x \<in> set (queued q) \<Longrightarrow> \<exists>j. mget (q_jobs q) x = Some j"
  unfolding queue_inv_def set_queued using chans_okD(5) [of q] by blast

text \<open>Storing a new job and its key, before it is pushed to a channel.\<close>

lemma add_job_inv:
  assumes q: "queue_inv q" and j: "j = new_job now path key priority q"
    and key: "key \<noteq> [] \<Longrightarrow> mget (q_by_key q) key = None"
  shows "queue_inv (add_job j q)"
proof -
  have fresh: "mget (q_jobs q) (j_id j) = None" using fresh_job [OF q] j by simp
  have ok: "jobs_ok q" "keys_ok q" "chans_ok q" "0 \<le> q_running q" using q by (simp_all add: queue_inv_def)
  have jf: "j_id j = stamped (''job-'' @ format_compact now) (q_next q + 1)" "j_key j = key"
    using j by (simp_all add: new_job_def)
  have "jobs_ok (add_job j q)"
    using ok(1) stamps_below_insert [of "q_next q" "dom (map_of (q_jobs q))"]
    by (auto simp: jobs_ok_def jf(1) dom_update set_mkeys [symmetric] set_mkeys_mput simp del: set_map)
  moreover have "keys_ok (add_job j q)"
  proof -
    have by_key: "mget (q_by_key q) k = Some x \<Longrightarrow> k \<noteq> [] \<and> (\<exists>y. mget (q_jobs q) x = Some y \<and> j_key y = k)"
      and keyed: "mget (q_jobs q) x = Some y \<Longrightarrow> j_key y \<noteq> [] \<Longrightarrow> mget (q_by_key q) (j_key y) = Some x" for k x y
      using ok(2) unfolding keys_ok_def by blast+
    have bk: "mget (q_by_key (add_job j q)) k = (if key \<noteq> [] \<and> k = key then Some (j_id j) else mget (q_by_key q) k)" for k
      by (simp add: add_job_def jf(2))
    have "k \<noteq> [] \<and> (\<exists>y. mget (q_jobs (add_job j q)) x = Some y \<and> j_key y = k)"
      if a: "mget (q_by_key (add_job j q)) k = Some x" for k x
    proof (cases "key \<noteq> [] \<and> k = key")
      case True
      with a jf(2) show ?thesis by (simp add: bk)
    next
      case False
      with a have "mget (q_by_key q) k = Some x" by (simp add: bk split: if_splits)
      from by_key [OF this] fresh show ?thesis by auto
    qed
    moreover have "mget (q_by_key (add_job j q)) (j_key y) = Some x"
      if a: "mget (q_jobs (add_job j q)) x = Some y" "j_key y \<noteq> []" for x y
    proof (cases "x = j_id j")
      case True
      with a(1) have "y = j" by simp
      with bk [of key] jf(2) a(2) True show ?thesis by simp
    next
      case False
      with a have y: "mget (q_by_key q) (j_key y) = Some x" by (simp add: keyed)
      with key have "key \<noteq> [] \<Longrightarrow> j_key y \<noteq> key" by auto
      with y show ?thesis by (auto simp: bk)
    qed
    ultimately show ?thesis unfolding keys_ok_def by blast
  qed
  moreover have "chans_ok (add_job j q)"
  proof (rule chans_okI)
    note D = chans_okD [OF ok(3)]
    show "distinct (queued (add_job j q))" "0 < q_buffer (add_job j q)" "q_rr (add_job j q) < 3"
      using D(1-3) by simp_all
    show "int (length (chan (add_job j q) k)) \<le> q_buffer (add_job j q)" if "k \<in> set classes" for k
      using D(4) [OF that] by simp
    show "\<exists>y. mget (q_jobs (add_job j q)) x = Some y \<and> j_priority y = k"
      if "k \<in> set classes" "x \<in> set (chan (add_job j q) k)" for k x
      using D(5) [of k x] that fresh by auto
  qed
  ultimately show ?thesis using ok(4) by (simp add: queue_inv_def)
qed

lemma push_inv:
  assumes q: "queue_inv q" and p: "pushPending i cls q = Inr q'" and cls: "cls = normalizePriority p"
    and i: "i \<notin> set (queued q)" and j: "mget (q_jobs q) i = Some j" "j_priority j = cls"
  shows "queue_inv q'" and "mset (queued q') = add_mset i (mset (queued q))" and "q_jobs q' = q_jobs q"
    and "q_running q' = q_running q" and "q_by_key q' = q_by_key q"
proof -
  have c: "cls \<in> set classes" "normalizePriority cls = cls" using cls normalizePriority_class by simp_all
  with p have q': "q' = set_chan cls (chan q cls @ [i]) q" and room: "int (length (chan q cls)) < q_buffer q"
    by (simp_all add: pushPending_def Let_def split: if_splits)
  show m: "mset (queued q') = add_mset i (mset (queued q))" unfolding q' by (rule mset_queued_push [OF c(1)])
  show "q_jobs q' = q_jobs q" "q_running q' = q_running q" "q_by_key q' = q_by_key q" by (simp_all add: q')
  have "chans_ok q'"
  proof (rule chans_okI)
    have ok: "chans_ok q" using q by (simp add: queue_inv_def)
    note D = chans_okD [OF ok]
    show "distinct (queued q')" using distinct_mset_add [OF m] i D(1) by simp
    show "0 < q_buffer q'" "q_rr q' < 3" using D(2,3) by (simp_all add: q')
    show "int (length (chan q' k)) \<le> q_buffer q'" if "k \<in> set classes" for k
      using D(4) [OF that] room by (auto simp: q' chan_set_chan [OF c(1) that])
    show "\<exists>y. mget (q_jobs q') x = Some y \<and> j_priority y = k"
      if "k \<in> set classes" "x \<in> set (chan q' k)" for k x
      using D(5) [OF that(1), of x] that(2) j by (auto simp: q' chan_set_chan [OF c(1) that(1)] split: if_splits)
  qed
  moreover have "jobs_ok q' = jobs_ok q" "keys_ok q' = keys_ok q" by (simp_all add: jobs_ok_def keys_ok_def q')
  ultimately show "queue_inv q'" using q by (simp add: queue_inv_def q')
qed

lemma mdel_mput_fresh: "mget m k = None \<Longrightarrow> mdel k (mput k v m) = m"
  by (simp add: mput_fresh map_of_eq_None_iff AList.delete_eq filter_id_conv) force

lemma mdel_absent: "mget m k = None \<Longrightarrow> mdel k m = m"
  by (simp add: map_of_eq_None_iff AList.delete_eq filter_id_conv) force

text \<open>The ways in which \<^verbatim>\<open>Enqueue\<close> ends.\<close>

lemma Enqueue_cases:
  assumes q: "queue_inv q"
  obtains
    (existing) i j where "key \<noteq> []" "mget (q_by_key q) key = Some i" "mget (q_jobs q) i = Some j" "j_key j = key"
      "Enqueue now path key force prio q = (q, Inr (Some j))"
  | (halted) e where "\<not> force" "q_emergency q \<or> (q_freeze_until q \<noteq> 0 \<and> now < q_freeze_until q)"
      "Enqueue now path key force prio q = (q, Inl e)"
  | (full) e where "int (length (chan q (normalizePriority prio))) = q_buffer q"
      "Enqueue now path key force prio q = (q\<lparr>q_next := q_next q + 1\<rparr>, Inl e)"
  | (added) j q2 where "j = new_job now path key prio q" "key \<noteq> [] \<longrightarrow> mget (q_by_key q) key = None"
      "pushPending (j_id j) (j_priority j) (add_job j q) = Inr q2"
      "Enqueue now path key force prio q = (publish j q2, Inr (Some j))"
proof (cases "if key \<noteq> [] then mget (q_by_key q) key else None")
  case (Some i)
  then have k: "key \<noteq> []" "mget (q_by_key q) key = Some i" by (simp_all split: if_splits)
  moreover obtain j where "mget (q_jobs q) i = Some j" "j_key j = key"
    using q k(2) unfolding queue_inv_def keys_ok_def by blast
  ultimately show ?thesis using existing Some by (simp add: Enqueue_def)
next
  case None
  show ?thesis
  proof (cases "\<not> force \<and> (q_emergency q \<or> (q_freeze_until q \<noteq> 0 \<and> now < q_freeze_until q))")
    case True
    then show ?thesis using halted None unfolding Enqueue_def by (cases "q_emergency q") simp_all
  next
    case False
    define j where "j = new_job now path key prio q"
    have bk: "mget (q_by_key q) key = None"
    proof (cases "key = []")
      case True
      have "k \<noteq> []" if "mget (q_by_key q) k = Some i" for k i
        using q that unfolding queue_inv_def keys_ok_def by blast
      with True show ?thesis by (cases "mget (q_by_key q) key") auto
    qed (use None in simp)
    have E: "Enqueue now path key force prio q =
        (case pushPending (j_id j) (j_priority j) (add_job j q) of
           Inl e \<Rightarrow> ((add_job j q)\<lparr>q_jobs := mdel (j_id j) (q_jobs (add_job j q)),
                      q_by_key := mdel key (q_by_key (add_job j q))\<rparr>, Inl e)
         | Inr q2 \<Rightarrow> (publish j q2, Inr (Some j)))"
    proof -
      have "(q_emergency q \<and> \<not> force) = False"
        "(\<not> force \<and> q_freeze_until q \<noteq> 0 \<and> now < q_freeze_until q) = False"
        using False by auto
      then show ?thesis by (simp only: Enqueue_def None j_def Let_def option.case if_False)
    qed
    show ?thesis
    proof (cases "pushPending (j_id j) (j_priority j) (add_job j q)")
      case (Inl e)
      have "mdel key (q_by_key (add_job j q)) = q_by_key q"
        using bk mdel_absent [OF bk] by (auto simp: add_job_def j_def new_job_def mdel_mput_fresh)
      moreover have "mdel (j_id j) (q_jobs (add_job j q)) = q_jobs q"
        using fresh_job [OF q] by (simp add: j_def mdel_mput_fresh)
      ultimately have eq: "Enqueue now path key force prio q = (q\<lparr>q_next := q_next q + 1\<rparr>, Inl e)"
        unfolding E Inl by (simp add: add_job_def)
      have "int (length (chan q (normalizePriority prio))) \<le> q_buffer q"
        using q chans_okD(4) normalizePriority_class unfolding queue_inv_def by blast
      with Inl have "int (length (chan q (normalizePriority prio))) = q_buffer q"
        by (simp add: pushPending_def Let_def j_def new_job_def split: if_splits)
      with eq show ?thesis by (rule full [rotated])
    next
      case (Inr q2)
      with E bk show ?thesis using added [OF j_def] by simp
    qed
  qed
qed

end
