(* ===== verification/Scheduler.thy ===== *)
theory Scheduler
  imports Queue Stores
begin

text \<open>
  Maintenance targets (internal/control/maintenance.go) and the scheduler
  (internal/control/scheduler.go).

  The goroutine that \<^verbatim>\<open>startLocked\<close> starts is a \<open>timer_loop\<close>: the schedule it serves, whether its
  context has been cancelled, and where it is. Waiting in its \<^verbatim>\<open>select\<close> it may take the timer branch
  as long as it lives (Go picks any ready branch, so a cancelled loop may still take it), decides
  with \<open>allowDispatch\<close>, enqueues, and updates the schedule; a cancelled one may end instead. Calls of
  clients, and other users of the queue, interleave between these steps. The steps that \<open>allowDispatch\<close>
  reads under separate locks are taken at one instant. \<open>randomJitter\<close> only delays the timer.
\<close>

section \<open>Maintenance\<close>

record maint_target =
  mt_kind :: string
  mt_name :: string
  mt_enabled :: bool
  mt_reason :: string
  mt_since :: gotime

type_synonym maint_store = "maint_target gomap"

definition validMaintenanceKinds :: "string list" where
  "validMaintenanceKinds = [''host'', ''cluster'', ''environment'']"

definition maint_key :: "string \<Rightarrow> string \<Rightarrow> string" where
  "maint_key kind name = kind @ '':'' @ ToLower name"

definition Set_maint :: "gotime \<Rightarrow> string \<Rightarrow> string \<Rightarrow> bool \<Rightarrow> string \<Rightarrow> maint_store \<Rightarrow> maint_store \<times> maint_target result" where
  "Set_maint now kind name enabled reason m =
     (let kind = lower_trim kind; name = TrimSpace name
      in if kind \<notin> set validMaintenanceKinds then (m, Inl ''invalid maintenance kind; must be host, cluster, or environment'')
         else if name = [] then (m, Inl ''maintenance target name is required'')
         else
           let key = maint_key kind name;
               cur = (case mget m key of Some c \<Rightarrow> c
                 | None \<Rightarrow> \<lparr>mt_kind = kind, mt_name = name, mt_enabled = False, mt_reason = [], mt_since = 0\<rparr>);
               cur = (if enabled
                      then cur\<lparr>mt_enabled := True, mt_since := (if mt_since cur = 0 then now else mt_since cur), mt_reason := TrimSpace reason\<rparr>
                      else cur\<lparr>mt_enabled := False, mt_since := 0, mt_reason := []\<rparr>)
           in (mput key cur m, Inr cur))"

definition IsActive :: "string \<Rightarrow> string \<Rightarrow> maint_store \<Rightarrow> bool" where
  "IsActive kind name m =
     (let kind = lower_trim kind; name = lower_trim name
      in if kind = [] \<or> name = [] then False
         else case mget m (maint_key kind name) of None \<Rightarrow> False | Some t \<Rightarrow> mt_enabled t)"

definition List_maint :: "maint_store \<Rightarrow> maint_target list" where
  "List_maint m = sort_key mt_kind (sort_key mt_name (map snd m))"

section \<open>Schedules\<close>

record schedule =
  sd_id :: string
  sd_path :: string
  sd_priority :: string
  sd_cost :: int
  sd_host :: string
  sd_cluster :: string
  sd_environment :: string
  sd_interval :: duration
  sd_jitter :: duration
  sd_enabled :: bool
  sd_created :: gotime
  sd_last_run :: gotime
  sd_next_run :: gotime

record schedule_options =
  so_path :: string
  so_priority :: string
  so_cost :: int
  so_host :: string
  so_cluster :: string
  so_environment :: string
  so_interval :: duration
  so_jitter :: duration

datatype loop_phase = Waiting | Dispatching | Updating

record timer_loop =
  tl_schedule :: string
  tl_cancelled :: bool
  tl_phase :: loop_phase

text \<open>\<open>sc_cancel\<close> is the map of cancel functions: the number of the loop that each one cancels.\<close>

record scheduler =
  sc_queue :: queue
  sc_maint :: maint_store
  sc_schedules :: "schedule gomap"
  sc_cancel :: "nat gomap"
  sc_next :: int
  sc_max_backlog :: int
  sc_max_cost :: int
  sc_health :: "bool gomap"
  sc_loops :: "timer_loop option list"

definition NewScheduler :: "queue \<Rightarrow> scheduler" where
  "NewScheduler q = \<lparr>sc_queue = q, sc_maint = [], sc_schedules = [], sc_cancel = [], sc_next = 0, sc_max_backlog = 100,
     sc_max_cost = 10, sc_health = [], sc_loops = []\<rparr>"

definition normalizeExecutionCost :: "int \<Rightarrow> int" where
  "normalizeExecutionCost cost = (if cost \<le> 0 then 1 else if cost > 1000 then 1000 else cost)"

definition startLocked :: "schedule \<Rightarrow> scheduler \<Rightarrow> scheduler" where
  "startLocked d s =
     (if \<not> sd_enabled d then s
      else s\<lparr>sc_cancel := mput (sd_id d) (length (sc_loops s)) (sc_cancel s),
             sc_loops := sc_loops s @ [Some \<lparr>tl_schedule = sd_id d, tl_cancelled = False, tl_phase = Waiting\<rparr>]\<rparr>)"

definition new_schedule :: "gotime \<Rightarrow> schedule_options \<Rightarrow> int \<Rightarrow> schedule" where
  "new_schedule now opts n =
     (let interval = (if so_interval opts \<le> 0 then 60000000000 else so_interval opts);
          jitter = (if so_jitter opts < 0 then 0 else so_jitter opts)
      in \<lparr>sd_id = seq_id ''sched-'' n, sd_path = so_path opts, sd_priority = normalizePriority (so_priority opts),
          sd_cost = normalizeExecutionCost (so_cost opts), sd_host = so_host opts, sd_cluster = so_cluster opts,
          sd_environment = so_environment opts, sd_interval = interval, sd_jitter = jitter, sd_enabled = True,
          sd_created = now, sd_last_run = 0, sd_next_run = now + interval\<rparr>)"

definition put_schedule :: "schedule \<Rightarrow> scheduler \<Rightarrow> scheduler" where
  "put_schedule d s = s\<lparr>sc_schedules := mput (sd_id d) d (sc_schedules s)\<rparr>"

definition CreateWithOptions :: "gotime \<Rightarrow> schedule_options \<Rightarrow> scheduler \<Rightarrow> scheduler \<times> schedule" where
  "CreateWithOptions now opts s =
     (let d = new_schedule now opts (sc_next s + 1)
      in (startLocked d (put_schedule d (s\<lparr>sc_next := sc_next s + 1\<rparr>)), d))"

definition CreateWithPriority :: "gotime \<Rightarrow> string \<Rightarrow> duration \<Rightarrow> duration \<Rightarrow> string \<Rightarrow> scheduler \<Rightarrow> scheduler \<times> schedule" where
  "CreateWithPriority now path interval jitter priority s =
     CreateWithOptions now \<lparr>so_path = path, so_priority = priority, so_cost = 0, so_host = [], so_cluster = [],
       so_environment = [], so_interval = interval, so_jitter = jitter\<rparr> s"

definition Create :: "gotime \<Rightarrow> string \<Rightarrow> duration \<Rightarrow> duration \<Rightarrow> scheduler \<Rightarrow> scheduler \<times> schedule" where
  "Create now path interval jitter s = CreateWithPriority now path interval jitter ''normal'' s"

definition List_schedules :: "scheduler \<Rightarrow> schedule list" where
  "List_schedules s = map snd (sc_schedules s)"

definition Get_schedule :: "string \<Rightarrow> scheduler \<Rightarrow> schedule option" where
  "Get_schedule i s = mget (sc_schedules s) (TrimSpace i)"

fun cancel_loop :: "timer_loop option \<Rightarrow> timer_loop option" where
  "cancel_loop None = None"
| "cancel_loop (Some l) = Some (l\<lparr>tl_cancelled := True\<rparr>)"

definition cancel_nth :: "nat \<Rightarrow> scheduler \<Rightarrow> scheduler" where
  "cancel_nth n s = s\<lparr>sc_loops := (sc_loops s)[n := cancel_loop (sc_loops s ! n)]\<rparr>"

definition Disable :: "string \<Rightarrow> scheduler \<Rightarrow> scheduler \<times> bool" where
  "Disable i s =
     (case mget (sc_schedules s) i of
        None \<Rightarrow> (s, False)
      | Some d \<Rightarrow>
          let s = s\<lparr>sc_schedules := mput i (d\<lparr>sd_enabled := False\<rparr>) (sc_schedules s)\<rparr>
          in (case mget (sc_cancel s) i of
                None \<Rightarrow> (s, True)
              | Some n \<Rightarrow> ((cancel_nth n s)\<lparr>sc_cancel := mdel i (sc_cancel s)\<rparr>, True)))"

definition Enable :: "string \<Rightarrow> scheduler \<Rightarrow> scheduler \<times> bool" where
  "Enable i s =
     (case mget (sc_schedules s) i of
        None \<Rightarrow> (s, False)
      | Some d \<Rightarrow>
          if sd_enabled d then (s, True)
          else let d = d\<lparr>sd_enabled := True\<rparr>
               in (startLocked d (s\<lparr>sc_schedules := mput i d (sc_schedules s)\<rparr>), True))"

definition Shutdown :: "scheduler \<Rightarrow> scheduler" where
  "Shutdown s = fold cancel_nth (map snd (sc_cancel s)) (s\<lparr>sc_cancel := []\<rparr>)"

definition SetMaintenance :: "gotime \<Rightarrow> string \<Rightarrow> string \<Rightarrow> bool \<Rightarrow> string \<Rightarrow> scheduler \<Rightarrow> scheduler" where
  "SetMaintenance now kind name enabled reason s = s\<lparr>sc_maint := fst (Set_maint now kind name enabled reason (sc_maint s))\<rparr>"

definition skipForMaintenance :: "schedule \<Rightarrow> scheduler \<Rightarrow> bool" where
  "skipForMaintenance d s \<longleftrightarrow> IsActive ''host'' (sd_host d) (sc_maint s) \<or> IsActive ''cluster'' (sd_cluster d) (sc_maint s) \<or>
     IsActive ''environment'' (sd_environment d) (sc_maint s)"

definition SetCapacity :: "int \<Rightarrow> int \<Rightarrow> scheduler \<Rightarrow> scheduler" where
  "SetCapacity maxBacklog maxCost s =
     s\<lparr>sc_max_backlog := (if maxBacklog > 0 then maxBacklog else sc_max_backlog s),
       sc_max_cost := (if maxCost > 0 then maxCost else sc_max_cost s)\<rparr>"

definition SetHostHealth :: "string \<Rightarrow> bool \<Rightarrow> scheduler \<Rightarrow> scheduler" where
  "SetHostHealth h healthy s =
     (let h = lower_trim h in if h = [] then s else s\<lparr>sc_health := mput h healthy (sc_health s)\<rparr>)"

definition allowDispatch :: "schedule \<Rightarrow> scheduler \<Rightarrow> bool" where
  "allowDispatch d s =
     (if skipForMaintenance d s then False
      else if mget (sc_health s) (lower_trim (sd_host d)) = Some False then False
      else if sd_cost d > sc_max_cost s then False
      else
        let pending = cs_pending (ControlStatus (sc_queue s))
        in if pending \<ge> sc_max_backlog s then False
           else \<not> (sd_priority d = ''low'' \<and> sc_max_backlog s > 1 \<and> pending \<ge> go_div (sc_max_backlog s) 2))"

section \<open>The interleaved system\<close>

datatype sched_op =
    SCreate gotime schedule_options
  | SDisable string
  | SEnable string
  | SShutdown
  | SMaintenance gotime string string bool string
  | SCapacity int int
  | SHealth string bool
  | STimer nat
  | SDispatch nat gotime
  | SUpdate nat gotime
  | SEnd nat
  | SQueue client_op

definition loop_at :: "nat \<Rightarrow> scheduler \<Rightarrow> timer_loop option" where
  "loop_at n s = (if n < length (sc_loops s) then sc_loops s ! n else None)"

definition set_loop :: "nat \<Rightarrow> timer_loop option \<Rightarrow> scheduler \<Rightarrow> scheduler" where
  "set_loop n l s = s\<lparr>sc_loops := (sc_loops s)[n := l]\<rparr>"

text \<open>The timer branch up to the decision, the enqueue, the update of the schedule, and the exit.\<close>

definition timer_fires :: "nat \<Rightarrow> scheduler \<Rightarrow> scheduler" where
  "timer_fires n s =
     (case loop_at n s of
        Some l \<Rightarrow>
          if tl_phase l \<noteq> Waiting then s
          else (case mget (sc_schedules s) (tl_schedule l) of
                  None \<Rightarrow> s
                | Some d \<Rightarrow> set_loop n (Some (l\<lparr>tl_phase := (if allowDispatch d s then Dispatching else Updating)\<rparr>)) s)
      | None \<Rightarrow> s)"

definition dispatch :: "nat \<Rightarrow> gotime \<Rightarrow> scheduler \<Rightarrow> scheduler" where
  "dispatch n now s =
     (case loop_at n s of
        Some l \<Rightarrow>
          if tl_phase l \<noteq> Dispatching then s
          else (case mget (sc_schedules s) (tl_schedule l) of
                  None \<Rightarrow> s
                | Some d \<Rightarrow> (set_loop n (Some (l\<lparr>tl_phase := Updating\<rparr>)) s)
                    \<lparr>sc_queue := fst (Enqueue now (sd_path d) [] False (sd_priority d) (sc_queue s))\<rparr>)
      | None \<Rightarrow> s)"

definition update_schedule :: "nat \<Rightarrow> gotime \<Rightarrow> scheduler \<Rightarrow> scheduler" where
  "update_schedule n now s =
     (case loop_at n s of
        Some l \<Rightarrow>
          if tl_phase l \<noteq> Updating then s
          else
            let s = set_loop n (Some (l\<lparr>tl_phase := Waiting\<rparr>)) s
            in (case mget (sc_schedules s) (tl_schedule l) of
                  None \<Rightarrow> s
                | Some d \<Rightarrow> s\<lparr>sc_schedules := mput (tl_schedule l) (d\<lparr>sd_last_run := now, sd_next_run := now + sd_interval d\<rparr>) (sc_schedules s)\<rparr>)
      | None \<Rightarrow> s)"

definition end_loop :: "nat \<Rightarrow> scheduler \<Rightarrow> scheduler" where
  "end_loop n s =
     (case loop_at n s of
        Some l \<Rightarrow> if tl_cancelled l \<and> tl_phase l = Waiting then set_loop n None s else s
      | None \<Rightarrow> s)"

fun sched_step :: "scheduler \<Rightarrow> sched_op \<Rightarrow> scheduler" where
  "sched_step s (SCreate now opts) = fst (CreateWithOptions now opts s)"
| "sched_step s (SDisable i) = fst (Disable i s)"
| "sched_step s (SEnable i) = fst (Enable i s)"
| "sched_step s SShutdown = Shutdown s"
| "sched_step s (SMaintenance now kind name en reason) = SetMaintenance now kind name en reason s"
| "sched_step s (SCapacity b c) = SetCapacity b c s"
| "sched_step s (SHealth h healthy) = SetHostHealth h healthy s"
| "sched_step s (STimer n) = timer_fires n s"
| "sched_step s (SDispatch n now) = dispatch n now s"
| "sched_step s (SUpdate n now) = update_schedule n now s"
| "sched_step s (SEnd n) = end_loop n s"
| "sched_step s (SQueue op) = s\<lparr>sc_queue := client_step (sc_queue s) op\<rparr>"

section \<open>Invariant\<close>

definition schedule_ok :: "schedule \<Rightarrow> bool" where
  "schedule_ok d \<longleftrightarrow> 0 < sd_interval d \<and> 0 \<le> sd_jitter d \<and> 1 \<le> sd_cost d \<and> sd_cost d \<le> 1000 \<and> sd_priority d \<in> set classes"

text \<open>What the invariant sees of a loop and of a schedule.\<close>

definition loop_view :: "nat \<Rightarrow> scheduler \<Rightarrow> (string \<times> bool) option" where
  "loop_view n s = map_option (\<lambda>l. (tl_schedule l, tl_cancelled l)) (loop_at n s)"

definition enabled_view :: "string \<Rightarrow> scheduler \<Rightarrow> bool option" where
  "enabled_view i s = map_option sd_enabled (mget (sc_schedules s) i)"

definition loops_ok :: "scheduler \<Rightarrow> bool" where
  "loops_ok s \<longleftrightarrow>
     (\<forall>n i c. loop_view n s = Some (i, c) \<longrightarrow> enabled_view i s \<noteq> None \<and> (\<not> c \<longrightarrow> mget (sc_cancel s) i = Some n)) \<and>
     (\<forall>i n. mget (sc_cancel s) i = Some n \<longrightarrow> loop_view n s = Some (i, False) \<and> enabled_view i s = Some True)"

definition schedules_ok :: "scheduler \<Rightarrow> bool" where
  "schedules_ok s \<longleftrightarrow> (\<forall>i d. mget (sc_schedules s) i = Some d \<longrightarrow> sd_id d = i \<and> schedule_ok d)"

definition sched_inv :: "scheduler \<Rightarrow> bool" where
  "sched_inv s \<longleftrightarrow> store_inv sc_schedules sc_next ''sched-'' s \<and> schedules_ok s \<and> loops_ok s"

lemma loops_okD:
  assumes "loops_ok s"
  shows "loop_view n s = Some (i, c) \<Longrightarrow> enabled_view i s \<noteq> None"
    and "loop_view n s = Some (i, False) \<Longrightarrow> mget (sc_cancel s) i = Some n"
    and "mget (sc_cancel s) i = Some n \<Longrightarrow> loop_view n s = Some (i, False)"
    and "mget (sc_cancel s) i = Some n \<Longrightarrow> enabled_view i s = Some True"
  using assms unfolding loops_ok_def by blast+

lemma loops_okI:
  assumes "\<And>n i c. loop_view n s = Some (i, c) \<Longrightarrow> enabled_view i s \<noteq> None"
    and "\<And>n i. loop_view n s = Some (i, False) \<Longrightarrow> mget (sc_cancel s) i = Some n"
    and "\<And>i n. mget (sc_cancel s) i = Some n \<Longrightarrow> loop_view n s = Some (i, False) \<and> enabled_view i s = Some True"
  shows "loops_ok s"
  unfolding loops_ok_def
proof (intro conjI allI impI)
  fix n i c assume n: "loop_view n s = Some (i, c)"
  then show "enabled_view i s \<noteq> None" by (rule assms(1))
  assume "\<not> c"
  then show "mget (sc_cancel s) i = Some n" using n assms(2) by simp
qed (use assms(3) in blast)+

lemma loops_ok_same:
  assumes "loops_ok s" "\<And>n. loop_view n s' = loop_view n s" "\<And>i. enabled_view i s' = enabled_view i s" "sc_cancel s' = sc_cancel s"
  shows "loops_ok s'"
  using assms(1) unfolding loops_ok_def assms(2,3,4) .

lemma loop_at_set_loop: "loop_at n s = Some l \<Longrightarrow> loop_at k (set_loop n x s) = (if k = n then x else loop_at k s)"
  by (simp add: loop_at_def set_loop_def split: if_splits)

lemma loop_view_set_loop:
  "loop_at n s = Some l \<Longrightarrow> loop_view k (set_loop n x s) = (if k = n then map_option (\<lambda>l. (tl_schedule l, tl_cancelled l)) x else loop_view k s)"
  by (simp add: loop_view_def loop_at_set_loop)

lemma view_set_loop [simp]: "enabled_view i (set_loop n x s) = enabled_view i s" "sc_cancel (set_loop n x s) = sc_cancel s"
    "sc_schedules (set_loop n x s) = sc_schedules s" "sc_next (set_loop n x s) = sc_next s" "sc_maint (set_loop n x s) = sc_maint s"
  by (simp_all add: enabled_view_def set_loop_def)

lemma view_queue [simp]: "loop_view k (s\<lparr>sc_queue := q\<rparr>) = loop_view k s" "enabled_view i (s\<lparr>sc_queue := q\<rparr>) = enabled_view i s"
  by (simp_all add: loop_view_def loop_at_def enabled_view_def)

lemma loop_view_schedules [simp]: "loop_view k (s\<lparr>sc_schedules := x\<rparr>) = loop_view k s" "loop_view k (s\<lparr>sc_next := y\<rparr>) = loop_view k s"
    "loop_view k (s\<lparr>sc_cancel := z\<rparr>) = loop_view k s"
  by (simp_all add: loop_view_def loop_at_def)

lemma loop_view_phase: "loop_at n s = Some l \<Longrightarrow> loop_view k (set_loop n (Some (l\<lparr>tl_phase := p\<rparr>)) s) = loop_view k s"
  by (simp add: loop_view_set_loop) (simp add: loop_view_def)

lemma timer_fires_views: "loop_view k (timer_fires n s) = loop_view k s" "enabled_view i (timer_fires n s) = enabled_view i s"
    "sc_cancel (timer_fires n s) = sc_cancel s" "sc_schedules (timer_fires n s) = sc_schedules s" "sc_next (timer_fires n s) = sc_next s"
  by (auto simp: timer_fires_def loop_view_phase split: option.split)

lemma dispatch_views: "loop_view k (dispatch n now s) = loop_view k s" "enabled_view i (dispatch n now s) = enabled_view i s"
    "sc_cancel (dispatch n now s) = sc_cancel s" "sc_schedules (dispatch n now s) = sc_schedules s" "sc_next (dispatch n now s) = sc_next s"
  by (auto simp: dispatch_def loop_view_phase split: option.split)

lemma update_views: "loop_view k (update_schedule n now s) = loop_view k s" "enabled_view i (update_schedule n now s) = enabled_view i s"
    "sc_cancel (update_schedule n now s) = sc_cancel s" "sc_next (update_schedule n now s) = sc_next s"
  by (auto simp: update_schedule_def Let_def loop_view_phase enabled_view_def split: option.split)

lemma end_loop_views:
  "enabled_view i (end_loop n s) = enabled_view i s" "sc_cancel (end_loop n s) = sc_cancel s" "sc_schedules (end_loop n s) = sc_schedules s"
  "sc_next (end_loop n s) = sc_next s"
  "loop_view k (end_loop n s) = loop_view k s \<or> (loop_view k (end_loop n s) = None \<and> (\<exists>i. loop_view k s = Some (i, True)))"
  by (auto simp: end_loop_def loop_view_set_loop split: option.split) (auto simp: loop_view_def)

lemma end_loop_ok:
  assumes "loops_ok s"
  shows "loops_ok (end_loop n s)"
proof (rule loops_okI)
  fix k i c assume "loop_view k (end_loop n s) = Some (i, c)"
  then have "loop_view k s = Some (i, c)" using end_loop_views(5) [of k n s] by auto
  then show "enabled_view i (end_loop n s) \<noteq> None" using loops_okD(1) [OF assms] by (simp add: end_loop_views)
next
  fix k i assume "loop_view k (end_loop n s) = Some (i, False)"
  then have "loop_view k s = Some (i, False)" using end_loop_views(5) [of k n s] by auto
  then show "mget (sc_cancel (end_loop n s)) i = Some k" using loops_okD(2) [OF assms] by (simp add: end_loop_views)
next
  fix i k assume "mget (sc_cancel (end_loop n s)) i = Some k"
  then have "loop_view k s = Some (i, False)" "enabled_view i s = Some True"
    using loops_okD(3,4) [OF assms] by (simp_all add: end_loop_views)
  then show "loop_view k (end_loop n s) = Some (i, False) \<and> enabled_view i (end_loop n s) = Some True"
    using end_loop_views(5) [of k n s] by (auto simp: end_loop_views)
qed

text \<open>A loop started for a schedule that has no cancel function.\<close>

lemma start_ok:
  assumes ok: "loops_ok s" and none: "mget (sc_cancel s) i = None"
    and views: "\<And>k. loop_view k s' = (if k = length (sc_loops s) then Some (i, False) else loop_view k s)"
    "\<And>j. enabled_view j s' = (if j = i then Some True else enabled_view j s)" "sc_cancel s' = mput i (length (sc_loops s)) (sc_cancel s)"
  shows "loops_ok s'"
proof (rule loops_okI)
  fix k j c assume "loop_view k s' = Some (j, c)"
  then show "enabled_view j s' \<noteq> None" using views loops_okD(1) [OF ok, of k j c] by (auto split: if_splits)
next
  fix k j assume k: "loop_view k s' = Some (j, False)"
  show "mget (sc_cancel s') j = Some k"
    using k none loops_okD(2) [OF ok, of k j] by (auto simp: views split: if_splits)
next
  fix j k assume "mget (sc_cancel s') j = Some k"
  moreover have "loop_view (length (sc_loops s)) s = None" by (simp add: loop_view_def loop_at_def)
  ultimately show "loop_view k s' = Some (j, False) \<and> enabled_view j s' = Some True"
    using loops_okD(3,4) [OF ok, of j k] by (auto simp: views split: if_splits)
qed

lemma startLocked_views:
  assumes "sd_enabled d"
  shows "loop_view k (startLocked d s) = (if k = length (sc_loops s) then Some (sd_id d, False) else loop_view k s)"
    "sc_cancel (startLocked d s) = mput (sd_id d) (length (sc_loops s)) (sc_cancel s)"
    "sc_schedules (startLocked d s) = sc_schedules s" "sc_next (startLocked d s) = sc_next s"
    "enabled_view j (startLocked d s) = enabled_view j s"
  using assms by (auto simp: startLocked_def loop_view_def loop_at_def enabled_view_def nth_append less_Suc_eq)


lemma new_schedule_simps [simp]:
  "sd_id (new_schedule now opts n) = seq_id ''sched-'' n" "sd_enabled (new_schedule now opts n)"
  by (simp_all add: new_schedule_def Let_def)

lemma new_schedule_ok: "schedule_ok (new_schedule now opts n)"
  by (simp add: new_schedule_def schedule_ok_def normalizeExecutionCost_def normalizePriority_def classes_def Let_def)

lemma Create_views:
  fixes now opts s
  defines "s' \<equiv> fst (CreateWithOptions now opts s)" and "d \<equiv> new_schedule now opts (sc_next s + 1)"
  shows "loop_view k s' = (if k = length (sc_loops s) then Some (sd_id d, False) else loop_view k s)"
    "enabled_view j s' = (if j = sd_id d then Some True else enabled_view j s)"
    "sc_cancel s' = mput (sd_id d) (length (sc_loops s)) (sc_cancel s)"
    "sc_schedules s' = mput (sd_id d) d (sc_schedules s)" "sc_next s' = sc_next s + 1"
  by (simp_all add: s'_def d_def CreateWithOptions_def Let_def startLocked_views put_schedule_def enabled_view_def)

lemma Create_loops_ok:
  assumes "loops_ok s" "store_inv sc_schedules sc_next ''sched-'' s"
  shows "loops_ok (fst (CreateWithOptions now opts s))"
proof (rule start_ok [OF assms(1)])
  let ?i = "seq_id ''sched-'' (sc_next s + 1)"
  have "?i \<notin> set (mkeys (sc_schedules s))"
    using assms(2) by (auto simp: store_inv_def dest: ids_below_fresh simp del: set_map)
  then have "enabled_view ?i s = None" by (simp add: enabled_view_def map_of_eq_None_iff)
  then show "mget (sc_cancel s) ?i = None" using loops_okD(4) [OF assms(1), of ?i] by (cases "mget (sc_cancel s) ?i") auto
qed (simp_all add: Create_views)

lemma Enable_loops_ok:
  assumes ok: "loops_ok s" and sch: "schedules_ok s"
  shows "loops_ok (fst (Enable i s))"
proof (cases "mget (sc_schedules s) i")
  case (Some d)
  show ?thesis
  proof (cases "sd_enabled d")
    case False
    have id: "sd_id d = i" using sch Some unfolding schedules_ok_def by blast
    have none: "mget (sc_cancel s) i = None"
      using loops_okD(4) [OF ok, of i] Some False by (cases "mget (sc_cancel s) i") (auto simp: enabled_view_def)
    show ?thesis
      by (rule start_ok [OF ok none])
        (simp_all add: Enable_def Some False Let_def startLocked_views id, simp add: enabled_view_def)
  qed (simp add: Enable_def Some ok)
qed (simp add: Enable_def ok)

lemma loop_view_cancel_nth:
  "loop_view k (cancel_nth n s) = (if k = n then map_option (\<lambda>v. (fst v, True)) (loop_view k s) else loop_view k s)"
proof (cases "n < length (sc_loops s)")
  case True
  then show ?thesis
    by (cases "sc_loops s ! n") (simp_all add: loop_view_def loop_at_def cancel_nth_def)
next
  case False
  then show ?thesis by (simp add: loop_view_def loop_at_def cancel_nth_def)
qed

lemma cancel_nth_simps [simp]:
  "enabled_view i (cancel_nth n s) = enabled_view i s" "sc_cancel (cancel_nth n s) = sc_cancel s"
  "sc_schedules (cancel_nth n s) = sc_schedules s" "sc_next (cancel_nth n s) = sc_next s" "sc_maint (cancel_nth n s) = sc_maint s"
  by (simp_all add: cancel_nth_def enabled_view_def)

lemma Disable_views:
  assumes "mget (sc_schedules s) i = Some d"
  shows "enabled_view j (fst (Disable i s)) = (if j = i then Some False else enabled_view j s)"
    "loop_view k (fst (Disable i s)) =
       (if mget (sc_cancel s) i = Some k then map_option (\<lambda>v. (fst v, True)) (loop_view k s) else loop_view k s)"
    "mget (sc_cancel (fst (Disable i s))) j = (if j = i then None else mget (sc_cancel s) j)"
proof -
  let ?s = "s\<lparr>sc_schedules := mput i (d\<lparr>sd_enabled := False\<rparr>) (sc_schedules s)\<rparr>"
  have e: "enabled_view j ?s = (if j = i then Some False else enabled_view j s)" by (simp add: enabled_view_def)
  have D: "fst (Disable i s) = (case mget (sc_cancel s) i of None \<Rightarrow> ?s
      | Some n \<Rightarrow> (cancel_nth n ?s)\<lparr>sc_cancel := mdel i (sc_cancel s)\<rparr>)"
    using assms by (simp add: Disable_def Let_def split: option.split)
  have c: "enabled_view j ((cancel_nth n x)\<lparr>sc_cancel := y\<rparr>) = enabled_view j x" for n x y
    by (simp add: enabled_view_def cancel_nth_def)
  show "enabled_view j (fst (Disable i s)) = (if j = i then Some False else enabled_view j s)"
    unfolding D using e c by (auto split: option.split)
  show "loop_view k (fst (Disable i s)) =
       (if mget (sc_cancel s) i = Some k then map_option (\<lambda>v. (fst v, True)) (loop_view k s) else loop_view k s)"
    unfolding D by (auto simp: loop_view_cancel_nth split: option.split)
  show "mget (sc_cancel (fst (Disable i s))) j = (if j = i then None else mget (sc_cancel s) j)"
    unfolding D by (auto split: option.split)
qed

lemma Disable_loops_ok:
  assumes ok: "loops_ok s"
  shows "loops_ok (fst (Disable i s))"
proof (cases "mget (sc_schedules s) i")
  case None
  then show ?thesis using ok by (simp add: Disable_def)
next
  case (Some d)
  note V = Disable_views [OF Some]
  show ?thesis
  proof (rule loops_okI)
    fix k j c assume "loop_view k (fst (Disable i s)) = Some (j, c)"
    then obtain c' where "loop_view k s = Some (j, c')" unfolding V by (auto split: if_splits)
    then show "enabled_view j (fst (Disable i s)) \<noteq> None" using loops_okD(1) [OF ok, of k j c'] unfolding V by auto
  next
    fix k j assume "loop_view k (fst (Disable i s)) = Some (j, False)"
    then have k: "loop_view k s = Some (j, False)" "mget (sc_cancel s) i \<noteq> Some k" unfolding V by (auto split: if_splits)
    then show "mget (sc_cancel (fst (Disable i s))) j = Some k" using loops_okD(2) [OF ok k(1)] unfolding V by auto
  next
    fix j k assume "mget (sc_cancel (fst (Disable i s))) j = Some k"
    then have j: "j \<noteq> i" "mget (sc_cancel s) j = Some k" unfolding V by (auto split: if_splits)
    have "mget (sc_cancel s) i \<noteq> Some k" using loops_okD(3) [OF ok, of i k] loops_okD(3) [OF ok j(2)] j(1) by auto
    then show "loop_view k (fst (Disable i s)) = Some (j, False) \<and> enabled_view j (fst (Disable i s)) = Some True"
      using j loops_okD(3,4) [OF ok j(2)] unfolding V by simp
  qed
qed

lemma cancel_fold_simps [simp]:
  "enabled_view i (fold cancel_nth ns s) = enabled_view i s" "sc_cancel (fold cancel_nth ns s) = sc_cancel s"
  "sc_schedules (fold cancel_nth ns s) = sc_schedules s" "sc_next (fold cancel_nth ns s) = sc_next s" "sc_maint (fold cancel_nth ns s) = sc_maint s"
  by (induction ns arbitrary: s) simp_all

lemma loop_view_cancel_fold:
  "loop_view k (fold cancel_nth ns s) = (if k \<in> set ns then map_option (\<lambda>v. (fst v, True)) (loop_view k s) else loop_view k s)"
  by (induction ns arbitrary: s) (auto simp: loop_view_cancel_nth option.map_comp comp_def)

lemma Shutdown_loops_ok:
  assumes ok: "loops_ok s"
  shows "loops_ok (Shutdown s)"
proof (rule loops_okI)
  have e: "enabled_view j (Shutdown s) = enabled_view j s" for j by (simp add: Shutdown_def enabled_view_def)
  fix k i
  { fix c assume "loop_view k (Shutdown s) = Some (i, c)"
    then obtain c' where "loop_view k s = Some (i, c')" unfolding Shutdown_def loop_view_cancel_fold by (auto split: if_splits)
    then show "enabled_view i (Shutdown s) \<noteq> None" using loops_okD(1) [OF ok] e by simp }
  { assume k: "loop_view k (Shutdown s) = Some (i, False)"
    then have "loop_view k s = Some (i, False)" "k \<notin> set (map snd (sc_cancel s))"
      unfolding Shutdown_def loop_view_cancel_fold by (auto split: if_splits)
    with loops_okD(2) [OF ok, of k i] show "mget (sc_cancel (Shutdown s)) i = Some k" by (force dest: map_of_SomeD) }
  { assume "mget (sc_cancel (Shutdown s)) i = Some k"
    then show "loop_view k (Shutdown s) = Some (i, False) \<and> enabled_view i (Shutdown s) = Some True" by (simp add: Shutdown_def) }
qed


lemma sched_keys: "keys_step ''sched-'' (sc_next s) (sc_schedules s) (sc_next (sched_step s op)) (sc_schedules (sched_step s op))"
proof (cases op)
  case (SDisable i)
  then show ?thesis by (simp add: Disable_def Let_def keys_step_update split: option.split)
next
  case (SEnable i)
  then show ?thesis by (simp add: Enable_def Let_def keys_step_update startLocked_views split: option.split)
next
  case (SUpdate n now)
  have "keys_step ''sched-'' (sc_next s) (sc_schedules s) (sc_next s) (sc_schedules (update_schedule n now s))"
    by (simp add: update_schedule_def Let_def keys_step_update split: option.split)
  then show ?thesis using SUpdate by (simp add: update_views)
next
  case SShutdown
  then show ?thesis by (simp add: Shutdown_def)
qed (simp_all add: Create_views SetMaintenance_def SetCapacity_def SetHostHealth_def Let_def timer_fires_views dispatch_views end_loop_views)

text \<open>What an operation stores: the schedules of before, one more, or one with other times or switched.\<close>

definition reschedules :: "schedule \<Rightarrow> schedule \<Rightarrow> bool" where
  "reschedules d d' \<longleftrightarrow> sd_id d' = sd_id d \<and> (schedule_ok d \<longrightarrow> schedule_ok d') \<and> sd_host d' = sd_host d \<and> sd_cluster d' = sd_cluster d \<and>
     sd_environment d' = sd_environment d"

lemma reschedules_refl [simp]: "reschedules d d"
  by (simp add: reschedules_def)

lemma reschedules_updates [simp]:
  "reschedules d (d\<lparr>sd_enabled := e\<rparr>)" "reschedules d (d\<lparr>sd_last_run := t, sd_next_run := t'\<rparr>)"
  by (simp_all add: reschedules_def schedule_ok_def)

lemma sched_step_items:
  assumes "mget (sc_schedules (sched_step s op)) i = Some d'"
  shows "(\<exists>d. mget (sc_schedules s) i = Some d \<and> reschedules d d') \<or>
    (\<exists>now opts. op = SCreate now opts \<and> d' = new_schedule now opts (sc_next s + 1) \<and> i = sd_id d')"
proof (cases op)
  case (SCreate now opts)
  then show ?thesis using assms by (auto simp: Create_views split: if_splits)
next
  case (SDisable j)
  then show ?thesis using assms by (auto simp: Disable_def Let_def split: option.splits if_splits)
next
  case (SEnable j)
  then show ?thesis using assms by (auto simp: Enable_def Let_def startLocked_views split: option.splits if_splits)
next
  case (SUpdate n now)
  then show ?thesis using assms by (auto simp: update_schedule_def Let_def split: option.splits if_splits)
next
  case SShutdown
  then show ?thesis using assms by (simp add: Shutdown_def)
qed (use assms in \<open>auto simp: SetMaintenance_def SetCapacity_def SetHostHealth_def Let_def timer_fires_views dispatch_views
      end_loop_views split: if_splits\<close>)

lemma sched_step_schedules_ok:
  assumes "schedules_ok s"
  shows "schedules_ok (sched_step s op)"
  unfolding schedules_ok_def
proof (intro allI impI)
  fix i d' assume "mget (sc_schedules (sched_step s op)) i = Some d'"
  then consider d where "mget (sc_schedules s) i = Some d" "reschedules d d'" | now opts where "d' = new_schedule now opts (sc_next s + 1)" "i = sd_id d'"
    using sched_step_items by blast
  then show "sd_id d' = i \<and> schedule_ok d'"
  proof cases
    case 1
    then have "sd_id d = i \<and> schedule_ok d" using assms unfolding schedules_ok_def by blast
    with 1(2) show ?thesis by (simp add: reschedules_def)
  qed (simp add: new_schedule_ok)
qed

lemma sched_step_loops_ok:
  assumes "sched_inv s"
  shows "loops_ok (sched_step s op)"
proof -
  have ok: "loops_ok s" "schedules_ok s" "store_inv sc_schedules sc_next ''sched-'' s" using assms by (simp_all add: sched_inv_def)
  have same: "loops_ok s'" if "\<And>n. loop_view n s' = loop_view n s" "\<And>i. enabled_view i s' = enabled_view i s" "sc_cancel s' = sc_cancel s" for s'
    using ok(1) that by (rule loops_ok_same)
  show ?thesis
  proof (cases op)
    case (SMaintenance now kind name en reason)
    then show ?thesis by (intro same) (simp_all add: SetMaintenance_def loop_view_def loop_at_def enabled_view_def)
  next
    case (SCapacity b c)
    then show ?thesis by (intro same) (simp_all add: SetCapacity_def loop_view_def loop_at_def enabled_view_def)
  next
    case (SHealth h healthy)
    then show ?thesis by (intro same) (simp_all add: SetHostHealth_def Let_def loop_view_def loop_at_def enabled_view_def)
  next
    case (STimer n)
    then show ?thesis by (intro same) (simp_all add: timer_fires_views)
  next
    case (SDispatch n now)
    then show ?thesis by (intro same) (simp_all add: dispatch_views)
  next
    case (SUpdate n now)
    then show ?thesis by (intro same) (simp_all add: update_views)
  next
    case (SQueue q)
    then show ?thesis by (intro same) simp_all
  qed (simp_all add: ok Create_loops_ok Enable_loops_ok Disable_loops_ok Shutdown_loops_ok end_loop_ok)
qed

lemma sched_step_inv: "sched_inv s \<Longrightarrow> sched_inv (sched_step s op)"
  using sched_step_loops_ok [of s op] sched_step_schedules_ok [of s op]
    store_inv_step [of sc_schedules sc_next "''sched-''" s "sched_step s op"] sched_keys [of s op]
  by (simp add: sched_inv_def)

interpretation schedules: counter_store sched_step sched_inv sc_schedules sc_next "''sched-''"
  by unfold_locales (simp_all add: sched_step_inv sched_keys, simp add: sched_inv_def)

lemma NewScheduler_inv: "sched_inv (NewScheduler q)"
  by (simp add: NewScheduler_def sched_inv_def store_inv_def schedules_ok_def loops_ok_def loop_view_def loop_at_def)


definition demo_options :: schedule_options where
  "demo_options = \<lparr>so_path = ''site.yaml'', so_priority = ''low'', so_cost = 2, so_host = ''Web'', so_cluster = [], so_environment = [],
     so_interval = 0, so_jitter = 5\<rparr>"

definition live_loop :: "string \<Rightarrow> scheduler \<Rightarrow> nat \<Rightarrow> bool" where
  "live_loop i s n = (case loop_at n s of None \<Rightarrow> False | Some l \<Rightarrow> \<not> tl_cancelled l \<and> tl_schedule l = i)"


section \<open>Maintenance stops dispatching\<close>

definition phase_view :: "nat \<Rightarrow> scheduler \<Rightarrow> (string \<times> loop_phase) option" where
  "phase_view n s = map_option (\<lambda>l. (tl_schedule l, tl_phase l)) (loop_at n s)"

definition skip_view :: "string \<Rightarrow> scheduler \<Rightarrow> bool option" where
  "skip_view i s = map_option (\<lambda>d. skipForMaintenance d s) (mget (sc_schedules s) i)"

text \<open>No timer loop of a schedule under maintenance is past its decision to dispatch.\<close>

definition none_in_flight :: "scheduler \<Rightarrow> bool" where
  "none_in_flight s \<longleftrightarrow> (\<forall>n i. phase_view n s = Some (i, Dispatching) \<longrightarrow> skip_view i s \<noteq> Some True)"

definition sets_maintenance :: "sched_op \<Rightarrow> bool" where
  "sets_maintenance op \<longleftrightarrow> (case op of SMaintenance _ _ _ _ _ \<Rightarrow> True | _ \<Rightarrow> False)"

lemma maint_kept: "\<not> sets_maintenance op \<Longrightarrow> sc_maint (sched_step s op) = sc_maint s"
  by (cases op)
    (auto simp: sets_maintenance_def CreateWithOptions_def startLocked_def put_schedule_def Disable_def Enable_def Shutdown_def
      SetCapacity_def SetHostHealth_def timer_fires_def dispatch_def update_schedule_def end_loop_def Let_def split: option.split)

lemma skip_kept:
  assumes "\<not> sets_maintenance op" "mget (sc_schedules s) i = Some d" "sched_inv s"
    and "mget (sc_schedules (sched_step s op)) i = Some d'"
  shows "skipForMaintenance d' (sched_step s op) = skipForMaintenance d s"
proof -
  have "i \<noteq> seq_id ''sched-'' (sc_next s + 1)"
  proof
    assume "i = seq_id ''sched-'' (sc_next s + 1)"
    then have "i \<notin> set (mkeys (sc_schedules s))"
      using assms(3) by (auto simp: sched_inv_def store_inv_def dest: ids_below_fresh simp del: set_map)
    then show False using assms(2) by (simp add: map_of_eq_None_iff [symmetric] del: map_of_eq_None_iff)
  qed
  then obtain d0 where "mget (sc_schedules s) i = Some d0" "reschedules d0 d'"
    using sched_step_items [OF assms(4)] by auto
  then show ?thesis using assms(2) maint_kept [OF assms(1), of s] by (simp add: skipForMaintenance_def reschedules_def)
qed

lemma phase_set_loop:
  "loop_at n s = Some l \<Longrightarrow> phase_view k (set_loop n x s) = (if k = n then map_option (\<lambda>l. (tl_schedule l, tl_phase l)) x else phase_view k s)"
  by (simp add: phase_view_def loop_at_set_loop)

lemma phase_fields [simp]:
  "phase_view k (s\<lparr>sc_queue := a\<rparr>) = phase_view k s" "phase_view k (s\<lparr>sc_schedules := b\<rparr>) = phase_view k s"
  "phase_view k (s\<lparr>sc_cancel := c\<rparr>) = phase_view k s" "phase_view k (s\<lparr>sc_next := d\<rparr>) = phase_view k s"
  "phase_view k (s\<lparr>sc_max_backlog := e, sc_max_cost := f\<rparr>) = phase_view k s" "phase_view k (s\<lparr>sc_health := g\<rparr>) = phase_view k s"
  by (simp_all add: phase_view_def loop_at_def)

lemma phase_cancel_nth [simp]: "phase_view k (cancel_nth n s) = phase_view k s"
proof (cases "k = n \<and> n < length (sc_loops s)")
  case True
  then show ?thesis by (cases "sc_loops s ! n") (simp_all add: phase_view_def loop_at_def cancel_nth_def)
qed (auto simp: phase_view_def loop_at_def cancel_nth_def)

lemma phase_cancel_fold [simp]: "phase_view k (fold cancel_nth ns s) = phase_view k s"
  by (induction ns arbitrary: s) simp_all

lemma phase_startLocked: "phase_view k (startLocked d s) = Some (i, Dispatching) \<Longrightarrow> phase_view k s = Some (i, Dispatching)"
  by (auto simp: startLocked_def phase_view_def loop_at_def nth_append less_Suc_eq split: if_splits)

lemma enters_dispatching:
  assumes "phase_view k (sched_step s op) = Some (i, Dispatching)" "\<not> sets_maintenance op"
  shows "phase_view k s = Some (i, Dispatching) \<or> skip_view i s = Some False"
proof (cases op)
  case (STimer n)
  then show ?thesis using assms
    by (auto simp: timer_fires_def phase_set_loop skip_view_def allowDispatch_def split: option.splits if_splits)
next
  case (SCreate now opts)
  let ?d = "new_schedule now opts (sc_next s + 1)"
  have "phase_view k (startLocked ?d (put_schedule ?d (s\<lparr>sc_next := sc_next s + 1\<rparr>))) = Some (i, Dispatching)"
    using assms(1) SCreate by (simp add: CreateWithOptions_def Let_def)
  from phase_startLocked [OF this] show ?thesis by (simp add: put_schedule_def)
next
  case (SEnable j)
  show ?thesis
  proof (cases "mget (sc_schedules s) j")
    case None
    then show ?thesis using assms SEnable by (simp add: Enable_def)
  next
    case (Some d)
    show ?thesis
    proof (cases "sd_enabled d")
      case False
      then have "phase_view k (startLocked (d\<lparr>sd_enabled := True\<rparr>)
          (s\<lparr>sc_schedules := mput j (d\<lparr>sd_enabled := True\<rparr>) (sc_schedules s)\<rparr>)) = Some (i, Dispatching)"
        using assms(1) SEnable Some by (simp add: Enable_def Let_def)
      from phase_startLocked [OF this] show ?thesis by simp
    qed (use assms SEnable Some in \<open>simp add: Enable_def\<close>)
  qed
next
  case (SUpdate n now)
  then show ?thesis using assms by (auto simp: update_schedule_def Let_def phase_set_loop split: option.splits if_splits)
qed (use assms in \<open>auto simp: Disable_def Shutdown_def SetCapacity_def SetHostHealth_def dispatch_def end_loop_def Let_def
       phase_set_loop sets_maintenance_def split: option.splits if_splits\<close>)

lemma none_in_flight_step:
  assumes inv: "sched_inv s" and q: "none_in_flight s" and op: "\<not> sets_maintenance op"
  shows "none_in_flight (sched_step s op)"
  unfolding none_in_flight_def
proof (intro allI impI notI)
  fix n i assume p: "phase_view n (sched_step s op) = Some (i, Dispatching)" and sk: "skip_view i (sched_step s op) = Some True"
  obtain d' where d': "mget (sc_schedules (sched_step s op)) i = Some d'" "skipForMaintenance d' (sched_step s op)"
    using sk by (auto simp: skip_view_def)
  have "skip_view i s = Some True" if "mget (sc_schedules s) i = Some d" for d
    using skip_kept [OF op that inv d'(1)] d'(2) that by (simp add: skip_view_def)
  moreover have "mget (sc_schedules s) i \<noteq> None"
  proof (cases "phase_view n s = Some (i, Dispatching)")
    case True
    then obtain c where "loop_view n s = Some (i, c)" by (auto simp: phase_view_def loop_view_def)
    then show ?thesis using inv loops_okD(1) [of s n i c] by (auto simp: sched_inv_def enabled_view_def)
  next
    case False
    then show ?thesis using enters_dispatching [OF p op] by (auto simp: skip_view_def)
  qed
  ultimately have "skip_view i s = Some True" by auto
  then show False using enters_dispatching [OF p op] q by (auto simp: none_in_flight_def)
qed

text \<open>while a host, cluster or environment is under maintenance its schedules put nothing on the
  queue. From any reachable state in which no loop of such a schedule is past its decision, and for every
  sequence of operations that does not touch the maintenance targets, the enqueue step of a loop whose
  schedule is under maintenance does nothing.\<close>

theorem maintenance_stops_dispatch:
  assumes "s = foldl sched_step (NewScheduler q) before" and "none_in_flight s"
    and "\<forall>op \<in> set ops. \<not> sets_maintenance op" and "s' = foldl sched_step s ops"
    and "loop_at n s' = Some l" "mget (sc_schedules s') (tl_schedule l) = Some d" "skipForMaintenance d s'"
  shows "dispatch n now s' = s'"
proof -
  have "sched_inv s \<Longrightarrow> none_in_flight s \<Longrightarrow> \<forall>op \<in> set ops. \<not> sets_maintenance op \<Longrightarrow> none_in_flight (foldl sched_step s ops)" for s
    by (induction ops arbitrary: s) (simp_all add: none_in_flight_step sched_step_inv)
  moreover have "sched_inv s" unfolding assms(1) by (rule schedules.run_inv [OF NewScheduler_inv])
  ultimately have q: "none_in_flight s'" using assms(2-4) by simp
  have "skip_view (tl_schedule l) s' = Some True" using assms(6,7) by (simp add: skip_view_def)
  then have "phase_view n s' \<noteq> Some (tl_schedule l, Dispatching)" using q unfolding none_in_flight_def by blast
  then have "tl_phase l \<noteq> Dispatching" using assms(5) by (simp add: phase_view_def)
  then show ?thesis using assms(5) by (simp add: dispatch_def)
qed

theorem maintenance_stops_dispatch_witness:
  "let s' = foldl sched_step (NewScheduler (NewQueue 0 8)) [SCreate 0 demo_options, SMaintenance 1 ''host'' '' web '' True [], STimer 0]
   in dispatch 0 2 s' = s'"
proof -
  let ?b = "[SCreate 0 demo_options, SMaintenance 1 ''host'' '' web '' True []]"
  define s where "s = foldl sched_step (NewScheduler (NewQueue 0 8)) ?b"
  define s' where "s' = foldl sched_step s [STimer 0]"
  have "sc_loops s = [Some \<lparr>tl_schedule = ''sched-1'', tl_cancelled = False, tl_phase = Waiting\<rparr>]" unfolding s_def by code_simp
  then have q: "none_in_flight s" by (auto simp: none_in_flight_def phase_view_def loop_at_def split: if_splits)
  have l: "loop_at 0 s' = Some \<lparr>tl_schedule = ''sched-1'', tl_cancelled = False, tl_phase = Updating\<rparr>"
    and d: "map_option (\<lambda>d. skipForMaintenance d s') (mget (sc_schedules s') ''sched-1'') = Some True"
    unfolding s'_def s_def by code_simp+
  from d obtain d where "mget (sc_schedules s') ''sched-1'' = Some d" "skipForMaintenance d s'" by auto
  then have "dispatch 0 2 s' = s'"
    using maintenance_stops_dispatch [OF s_def q _ s'_def l, of d 2] by (simp add: sets_maintenance_def)
  then show ?thesis by (simp add: s'_def s_def Let_def)
qed

end
