(* ===== verification/Canary.thy ===== *)
theory Canary
  imports Queue Stores
begin

text \<open>
  Canary checks (internal/control/canary.go): a configuration applied at an interval, whose health
  turns bad after a number of failures in a row. The goroutine of \<^verbatim>\<open>start\<close> is a \<open>canary_loop\<close> with
  the values it captured; it enqueues, and then either counts a failure or records the job, in a step of
  its own, because it holds no lock in between. \<open>onJob\<close> is called for the jobs that the queue
  publishes.
\<close>

datatype canary_health = CanaryUnknown | CanaryHealthy | CanaryUnhealthy

record canary =
  ca_id :: string
  ca_name :: string
  ca_path :: string
  ca_priority :: string
  ca_interval :: duration
  ca_jitter :: duration
  ca_enabled :: bool
  ca_threshold :: int
  ca_failures :: int
  ca_last_run :: gotime
  ca_last_status :: "job_status option"
  ca_health :: canary_health
  ca_created :: gotime

record canary_input =
  cn_name :: string
  cn_path :: string
  cn_priority :: string
  cn_interval :: duration
  cn_jitter :: duration
  cn_threshold :: int

datatype canary_phase = CWaiting | CFailed | CRecording string

record canary_loop =
  cl_canary :: string
  cl_path :: string
  cl_priority :: string
  cl_cancelled :: bool
  cl_phase :: canary_phase

record canary_store =
  cs_queue :: queue
  cs_next :: int
  cs_canaries :: "canary gomap"
  cs_cancels :: "nat gomap"
  cs_refs :: "string gomap"
  cs_loops :: "canary_loop option list"

definition NewCanaryStore :: "queue \<Rightarrow> canary_store" where
  "NewCanaryStore q = \<lparr>cs_queue = q, cs_next = 0, cs_canaries = [], cs_cancels = [], cs_refs = [], cs_loops = []\<rparr>"

definition new_canary :: "gotime \<Rightarrow> canary_input \<Rightarrow> int \<Rightarrow> canary" where
  "new_canary now inp n = \<lparr>ca_id = seq_id ''canary-'' n, ca_name = cn_name inp, ca_path = cn_path inp,
     ca_priority = normalizePriority (cn_priority inp),
     ca_interval = (if cn_interval inp \<le> 0 then 60000000000 else cn_interval inp),
     ca_jitter = (if cn_jitter inp < 0 then 0 else cn_jitter inp), ca_enabled = True,
     ca_threshold = (if cn_threshold inp \<le> 0 then 3 else cn_threshold inp), ca_failures = 0, ca_last_run = 0,
     ca_last_status = None, ca_health = CanaryUnknown, ca_created = now\<rparr>"

fun cancel_canary_loop :: "canary_loop option \<Rightarrow> canary_loop option" where
  "cancel_canary_loop None = None"
| "cancel_canary_loop (Some l) = Some (l\<lparr>cl_cancelled := True\<rparr>)"

definition cancel_canary :: "nat \<Rightarrow> canary_store \<Rightarrow> canary_store" where
  "cancel_canary n s = s\<lparr>cs_loops := (cs_loops s)[n := cancel_canary_loop (cs_loops s ! n)]\<rparr>"

definition start :: "string \<Rightarrow> canary_store \<Rightarrow> canary_store" where
  "start i s =
     (case mget (cs_canaries s) i of
        None \<Rightarrow> s
      | Some c \<Rightarrow>
          if \<not> ca_enabled c then s
          else
            let s = (case mget (cs_cancels s) i of None \<Rightarrow> s | Some n \<Rightarrow> cancel_canary n s)
            in s\<lparr>cs_cancels := mput i (length (cs_loops s)) (cs_cancels s),
                 cs_loops := cs_loops s @ [Some \<lparr>cl_canary = i, cl_path = ca_path c, cl_priority = ca_priority c,
                   cl_cancelled = False, cl_phase = CWaiting\<rparr>]\<rparr>)"

definition Get_canary :: "string \<Rightarrow> canary_store \<Rightarrow> canary result" where
  "Get_canary i s = (case mget (cs_canaries s) i of None \<Rightarrow> Inl ''canary not found'' | Some c \<Rightarrow> Inr c)"

definition List_canaries :: "canary_store \<Rightarrow> canary list" where
  "List_canaries s = map snd (cs_canaries s)"

definition Create_canary :: "gotime \<Rightarrow> canary_input \<Rightarrow> canary_store \<Rightarrow> canary_store \<times> canary result" where
  "Create_canary now inp s =
     (if cn_name inp = [] then (s, Inl ''canary name is required'')
      else if cn_path inp = [] then (s, Inl ''config_path is required'')
      else let c = new_canary now inp (cs_next s + 1);
               s = start (ca_id c) (s\<lparr>cs_next := cs_next s + 1, cs_canaries := mput (ca_id c) c (cs_canaries s)\<rparr>)
           in (s, Get_canary (ca_id c) s))"

text \<open>A failure counted against a canary, and a job of the canary that has ended.\<close>

definition count_failure :: "canary \<Rightarrow> canary" where
  "count_failure c =
     (let c = c\<lparr>ca_failures := ca_failures c + 1, ca_last_status := Some JobFailed\<rparr>
      in if ca_failures c \<ge> ca_threshold c then c\<lparr>ca_health := CanaryUnhealthy\<rparr> else c)"

definition markFailure :: "string \<Rightarrow> canary_store \<Rightarrow> canary_store" where
  "markFailure i s =
     (case mget (cs_canaries s) i of
        None \<Rightarrow> s
      | Some c \<Rightarrow> s\<lparr>cs_canaries := mput i (count_failure c) (cs_canaries s)\<rparr>)"

definition onJob :: "job \<Rightarrow> canary_store \<Rightarrow> canary_store" where
  "onJob j s =
     (if j_status j \<noteq> JobSucceeded \<and> j_status j \<noteq> JobFailed then s
      else case mget (cs_refs s) (j_id j) of
        None \<Rightarrow> s
      | Some i \<Rightarrow>
          let s = s\<lparr>cs_refs := mdel (j_id j) (cs_refs s)\<rparr>
          in (case mget (cs_canaries s) i of
                None \<Rightarrow> s
              | Some c \<Rightarrow>
                  let c' = (if j_status j = JobSucceeded
                            then c\<lparr>ca_last_status := Some JobSucceeded, ca_failures := 0, ca_health := CanaryHealthy\<rparr>
                            else count_failure c)
                  in s\<lparr>cs_canaries := mput i c' (cs_canaries s)\<rparr>))"

definition SetEnabled :: "string \<Rightarrow> bool \<Rightarrow> canary_store \<Rightarrow> canary_store \<times> canary result" where
  "SetEnabled i enabled s =
     (case mget (cs_canaries s) i of
        None \<Rightarrow> (s, Inl ''canary not found'')
      | Some c \<Rightarrow>
          let s = s\<lparr>cs_canaries := mput i (c\<lparr>ca_enabled := enabled\<rparr>) (cs_canaries s)\<rparr>;
              s = (if enabled then start i s
                   else (case mget (cs_cancels s) i of
                           None \<Rightarrow> s
                         | Some n \<Rightarrow> (cancel_canary n s)\<lparr>cs_cancels := mdel i (cs_cancels s)\<rparr>))
          in (s, Get_canary i s))"

record health_summary =
  hs_status :: string
  hs_total :: int
  hs_healthy :: int
  hs_unhealthy :: int
  hs_unknown :: int

definition count_health :: "(canary_health \<Rightarrow> bool) \<Rightarrow> canary_store \<Rightarrow> int" where
  "count_health P s = int (length (filter (\<lambda>c. P (ca_health c)) (map snd (cs_canaries s))))"

definition HealthSummary :: "canary_store \<Rightarrow> health_summary" where
  "HealthSummary s =
     (let unhealthy = count_health (\<lambda>h. h = CanaryUnhealthy) s
      in \<lparr>hs_status = (if unhealthy > 0 then ''degraded'' else ''ok''), hs_total = int (length (cs_canaries s)),
          hs_healthy = count_health (\<lambda>h. h = CanaryHealthy) s, hs_unhealthy = unhealthy,
          hs_unknown = count_health (\<lambda>h. h \<noteq> CanaryHealthy \<and> h \<noteq> CanaryUnhealthy) s\<rparr>)"

definition Shutdown :: "canary_store \<Rightarrow> canary_store" where
  "Shutdown s = fold cancel_canary (map snd (cs_cancels s)) (s\<lparr>cs_cancels := []\<rparr>)"

section \<open>The interleaved system\<close>

definition canary_loop_at :: "nat \<Rightarrow> canary_store \<Rightarrow> canary_loop option" where
  "canary_loop_at n s = (if n < length (cs_loops s) then cs_loops s ! n else None)"

definition put_loop :: "nat \<Rightarrow> canary_loop option \<Rightarrow> canary_store \<Rightarrow> canary_store" where
  "put_loop n l s = s\<lparr>cs_loops := (cs_loops s)[n := l]\<rparr>"

text \<open>The enqueue has an empty idempotency key, so a job that it returns is a new one.\<close>

definition canary_fires :: "nat \<Rightarrow> gotime \<Rightarrow> canary_store \<Rightarrow> canary_store" where
  "canary_fires n now s =
     (case canary_loop_at n s of
        None \<Rightarrow> s
      | Some l \<Rightarrow>
          if cl_phase l \<noteq> CWaiting then s
          else (case Enqueue now (cl_path l) [] False (cl_priority l) (cs_queue s) of
                  (q, Inr (Some j)) \<Rightarrow> (put_loop n (Some (l\<lparr>cl_phase := CRecording (j_id j)\<rparr>)) s)\<lparr>cs_queue := q\<rparr>
                | (q, _) \<Rightarrow> (put_loop n (Some (l\<lparr>cl_phase := CFailed\<rparr>)) s)\<lparr>cs_queue := q\<rparr>))"

definition canary_continues :: "nat \<Rightarrow> gotime \<Rightarrow> canary_store \<Rightarrow> canary_store" where
  "canary_continues n now s =
     (case canary_loop_at n s of
        None \<Rightarrow> s
      | Some l \<Rightarrow>
          (case cl_phase l of
             CWaiting \<Rightarrow> s
           | CFailed \<Rightarrow> markFailure (cl_canary l) (put_loop n (Some (l\<lparr>cl_phase := CWaiting\<rparr>)) s)
           | CRecording jid \<Rightarrow>
               let s = put_loop n (Some (l\<lparr>cl_phase := CWaiting\<rparr>)) s
               in (case mget (cs_canaries s) (cl_canary l) of
                     None \<Rightarrow> s
                   | Some c \<Rightarrow> s\<lparr>cs_canaries := mput (cl_canary l) (c\<lparr>ca_last_run := now\<rparr>) (cs_canaries s),
                                 cs_refs := mput jid (cl_canary l) (cs_refs s)\<rparr>)))"

definition canary_ends :: "nat \<Rightarrow> canary_store \<Rightarrow> canary_store" where
  "canary_ends n s =
     (case canary_loop_at n s of
        Some l \<Rightarrow> if cl_cancelled l \<and> cl_phase l = CWaiting then put_loop n None s else s
      | None \<Rightarrow> s)"

datatype canary_op =
    NCreate gotime canary_input
  | NSetEnabled string bool
  | NShutdown
  | NOnJob job
  | NFire nat gotime
  | NContinue nat gotime
  | NEnd nat
  | NQueue client_op

fun canary_step :: "canary_store \<Rightarrow> canary_op \<Rightarrow> canary_store" where
  "canary_step s (NCreate now inp) = fst (Create_canary now inp s)"
| "canary_step s (NSetEnabled i e) = fst (SetEnabled i e s)"
| "canary_step s NShutdown = Shutdown s"
| "canary_step s (NOnJob j) = onJob j s"
| "canary_step s (NFire n now) = canary_fires n now s"
| "canary_step s (NContinue n now) = canary_continues n now s"
| "canary_step s (NEnd n) = canary_ends n s"
| "canary_step s (NQueue op) = s\<lparr>cs_queue := client_step (cs_queue s) op\<rparr>"

section \<open>Invariant\<close>

definition canary_ok :: "canary \<Rightarrow> bool" where
  "canary_ok c \<longleftrightarrow> 1 \<le> ca_threshold c \<and> 0 \<le> ca_failures c \<and>
     (ca_health c = CanaryUnhealthy \<longleftrightarrow> ca_threshold c \<le> ca_failures c) \<and> 0 < ca_interval c \<and> 0 \<le> ca_jitter c"

definition canaries_ok :: "canary_store \<Rightarrow> bool" where
  "canaries_ok s \<longleftrightarrow> (\<forall>i c. mget (cs_canaries s) i = Some c \<longrightarrow> ca_id c = i \<and> canary_ok c)"

definition canary_inv :: "canary_store \<Rightarrow> bool" where
  "canary_inv s \<longleftrightarrow> store_inv cs_canaries cs_next ''canary-'' s \<and> canaries_ok s"

lemma count_failure_ok [simp]: "canary_ok c \<Longrightarrow> canary_ok (count_failure c)" "ca_id (count_failure c) = ca_id c"
  by (auto simp: count_failure_def canary_ok_def Let_def)

lemma canary_updates_ok [simp]:
  "canary_ok c \<Longrightarrow> canary_ok (c\<lparr>ca_last_status := Some JobSucceeded, ca_failures := 0, ca_health := CanaryHealthy\<rparr>)"
  "canary_ok c \<Longrightarrow> canary_ok (c\<lparr>ca_enabled := e\<rparr>)" "canary_ok c \<Longrightarrow> canary_ok (c\<lparr>ca_last_run := t\<rparr>)"
  by (simp_all add: canary_ok_def)

lemma new_canary_ok: "canary_ok (new_canary now inp n)" "ca_id (new_canary now inp n) = seq_id ''canary-'' n"
  by (simp_all add: new_canary_def canary_ok_def)

text \<open>How a step changes the map of canaries and the counter.\<close>

definition canary_change :: "canary_store \<Rightarrow> canary_store \<Rightarrow> bool" where
  "canary_change s s' \<longleftrightarrow>
     (cs_canaries s' = cs_canaries s \<and> cs_next s' = cs_next s) \<or>
     (\<exists>i c c'. mget (cs_canaries s) i = Some c \<and> ca_id c' = ca_id c \<and> (canary_ok c \<longrightarrow> canary_ok c') \<and>
        cs_canaries s' = mput i c' (cs_canaries s) \<and> cs_next s' = cs_next s) \<or>
     (\<exists>c. canary_ok c \<and> ca_id c = seq_id ''canary-'' (cs_next s + 1) \<and> cs_canaries s' = mput (ca_id c) c (cs_canaries s) \<and>
        cs_next s' = cs_next s + 1)"

lemma canary_change_same: "cs_canaries s' = cs_canaries s \<Longrightarrow> cs_next s' = cs_next s \<Longrightarrow> canary_change s s'"
  by (simp add: canary_change_def)

lemma canary_change_update:
  "mget (cs_canaries s) i = Some c \<Longrightarrow> ca_id c' = ca_id c \<Longrightarrow> (canary_ok c \<Longrightarrow> canary_ok c') \<Longrightarrow>
   cs_canaries s' = mput i c' (cs_canaries s) \<Longrightarrow> cs_next s' = cs_next s \<Longrightarrow> canary_change s s'"
  unfolding canary_change_def by blast

lemma cancel_canary_simps [simp]: "cs_canaries (cancel_canary n s) = cs_canaries s" "cs_next (cancel_canary n s) = cs_next s"
    "cs_canaries (put_loop n l s) = cs_canaries s" "cs_next (put_loop n l s) = cs_next s" "cs_refs (put_loop n l s) = cs_refs s"
  by (simp_all add: cancel_canary_def put_loop_def)

lemma cancel_canary_fold [simp]: "cs_canaries (fold cancel_canary ns s) = cs_canaries s" "cs_next (fold cancel_canary ns s) = cs_next s"
  by (induction ns arbitrary: s) simp_all

lemma start_simps [simp]: "cs_canaries (start i s) = cs_canaries s" "cs_next (start i s) = cs_next s"
  by (simp_all add: start_def Let_def split: option.split)

lemma markFailure_change: "cs_canaries s0 = cs_canaries s \<Longrightarrow> cs_next s0 = cs_next s \<Longrightarrow> canary_change s (markFailure i s0)"
proof (cases "mget (cs_canaries s) i")
  case (Some c)
  assume "cs_canaries s0 = cs_canaries s" "cs_next s0 = cs_next s"
  then show ?thesis using Some by (intro canary_change_update [OF Some, of "count_failure c"]) (simp_all add: markFailure_def)
qed (simp add: markFailure_def canary_change_same)

lemma onJob_change: "canary_change s (onJob j s)"
proof (cases "mget (cs_refs s) (j_id j)")
  case (Some i)
  show ?thesis
  proof (cases "mget (cs_canaries s) i")
    case c: (Some c)
    consider "j_status j = JobSucceeded" | "j_status j = JobFailed" | "j_status j \<noteq> JobSucceeded" "j_status j \<noteq> JobFailed" by blast
    then show ?thesis
    proof cases
      case 1
      then show ?thesis using Some c
        by (intro canary_change_update [OF c, of "c\<lparr>ca_last_status := Some JobSucceeded, ca_failures := 0, ca_health := CanaryHealthy\<rparr>"])
          (simp_all add: onJob_def Let_def)
    next
      case 2
      then show ?thesis using Some c
        by (intro canary_change_update [OF c, of "count_failure c"]) (simp_all add: onJob_def Let_def)
    qed (simp add: onJob_def canary_change_same)
  qed (use Some in \<open>simp add: onJob_def Let_def canary_change_same\<close>)
qed (simp add: onJob_def canary_change_same)

lemma Create_canary_change: "canary_change s (fst (Create_canary now inp s))"
proof (cases "cn_name inp = [] \<or> cn_path inp = []")
  case False
  then have "cs_canaries (fst (Create_canary now inp s)) =
      mput (ca_id (new_canary now inp (cs_next s + 1))) (new_canary now inp (cs_next s + 1)) (cs_canaries s)"
    "cs_next (fst (Create_canary now inp s)) = cs_next s + 1"
    by (simp_all add: Create_canary_def Let_def)
  then show ?thesis unfolding canary_change_def using new_canary_ok by blast
qed (auto simp: Create_canary_def canary_change_same)

lemma SetEnabled_change: "canary_change s (fst (SetEnabled i e s))"
proof (cases "mget (cs_canaries s) i")
  case (Some c)
  then show ?thesis
    by (intro canary_change_update [OF Some, of "c\<lparr>ca_enabled := e\<rparr>"]) (simp_all add: SetEnabled_def Let_def split: option.split)
qed (simp add: SetEnabled_def canary_change_same)

lemma canary_continues_change: "canary_change s (canary_continues n now s)"
proof (cases "canary_loop_at n s")
  case (Some l)
  show ?thesis
  proof (cases "cl_phase l")
    case CFailed
    then show ?thesis using Some by (simp add: canary_continues_def markFailure_change)
  next
    case (CRecording jid)
    show ?thesis
    proof (cases "mget (cs_canaries s) (cl_canary l)")
      case c: (Some c)
      then show ?thesis using Some CRecording
        by (intro canary_change_update [OF c, of "c\<lparr>ca_last_run := now\<rparr>"]) (simp_all add: canary_continues_def Let_def)
    qed (use Some CRecording in \<open>simp add: canary_continues_def Let_def canary_change_same\<close>)
  qed (use Some in \<open>simp add: canary_continues_def canary_change_same\<close>)
qed (simp add: canary_continues_def canary_change_same)

lemma canary_step_change: "canary_change s (canary_step s op)"
proof (cases op)
  case (NFire n now)
  then show ?thesis
    by (intro canary_change_same) (simp_all add: canary_fires_def split: option.split prod.split sum.split)
next
  case (NEnd n)
  then show ?thesis by (intro canary_change_same) (simp_all add: canary_ends_def split: option.split)
qed (simp_all add: Create_canary_change SetEnabled_change Shutdown_def onJob_change canary_continues_change canary_change_same)

lemma canary_change_keys:
  "canary_change s s' \<Longrightarrow> keys_step ''canary-'' (cs_next s) (cs_canaries s) (cs_next s') (cs_canaries s')"
  unfolding canary_change_def by (auto simp: keys_step_update)

lemma canary_change_ok:
  assumes "canary_change s s'" "canaries_ok s"
  shows "canaries_ok s'"
  unfolding canaries_ok_def
proof (intro allI impI)
  have d: "mget (cs_canaries s) i = Some c \<Longrightarrow> ca_id c = i \<and> canary_ok c" for i c
    using assms(2) unfolding canaries_ok_def by blast
  fix i c assume "mget (cs_canaries s') i = Some c"
  then show "ca_id c = i \<and> canary_ok c" using assms(1) d unfolding canary_change_def by (auto split: if_splits)
qed

lemma canary_step_inv: "canary_inv s \<Longrightarrow> canary_inv (canary_step s op)"
  using canary_change_ok [OF canary_step_change] canary_change_keys [OF canary_step_change, of s op]
    store_inv_step [of cs_canaries cs_next "''canary-''" s "canary_step s op"]
  by (simp add: canary_inv_def)

interpretation canaries: counter_store canary_step canary_inv cs_canaries cs_next "''canary-''"
  by unfold_locales (simp_all add: canary_step_inv canary_change_keys canary_step_change, simp add: canary_inv_def)

lemma NewCanaryStore_inv: "canary_inv (NewCanaryStore q)"
  by (simp add: canary_inv_def NewCanaryStore_def store_inv_def canaries_ok_def)

lemma count_health_partition:
  "count_health P s + count_health Q s + count_health (\<lambda>h. \<not> P h \<and> \<not> Q h) s = int (length (cs_canaries s))"
  if "\<And>h. \<not> (P h \<and> Q h)"
proof -
  have split: "length (filter (\<lambda>c. P (ca_health c)) cs) + length (filter (\<lambda>c. Q (ca_health c)) cs) +
      length (filter (\<lambda>c. \<not> P (ca_health c) \<and> \<not> Q (ca_health c)) cs) = length cs" for cs
    using that by (induction cs) auto
  show ?thesis unfolding count_health_def of_nat_add [symmetric] by (simp only: split length_map)
qed

text \<open>after every interleaving of timers, job results and administrator calls a canary is
  unhealthy exactly when its failures in a row have reached its threshold, which is at least one; the
  summary's three counts add up to all canaries and it is degraded exactly when some canary is
  unhealthy.\<close>

theorem canary_health_exact:
  assumes "s = foldl canary_step (NewCanaryStore q) ops"
  shows "(\<forall>i c. mget (cs_canaries s) i = Some c \<longrightarrow> ca_id c = i \<and> 1 \<le> ca_threshold c \<and>
      (ca_health c = CanaryUnhealthy \<longleftrightarrow> ca_threshold c \<le> ca_failures c)) \<and>
    hs_healthy (HealthSummary s) + hs_unhealthy (HealthSummary s) + hs_unknown (HealthSummary s) = hs_total (HealthSummary s) \<and>
    (hs_status (HealthSummary s) = ''degraded'' \<longleftrightarrow> (\<exists>i c. mget (cs_canaries s) i = Some c \<and> ca_threshold c \<le> ca_failures c))"
proof -
  have inv: "canary_inv s" unfolding assms by (rule canaries.run_inv [OF NewCanaryStore_inv])
  then have wf: "wf_map (cs_canaries s)" and ok: "canaries_ok s" by (simp_all add: canary_inv_def store_inv_def)
  have d: "ca_id c = i \<and> 1 \<le> ca_threshold c \<and> (ca_health c = CanaryUnhealthy \<longleftrightarrow> ca_threshold c \<le> ca_failures c)"
    if "mget (cs_canaries s) i = Some c" for i c
    using ok that unfolding canaries_ok_def canary_ok_def by blast
  have sum: "hs_healthy (HealthSummary s) + hs_unhealthy (HealthSummary s) + hs_unknown (HealthSummary s) = hs_total (HealthSummary s)"
    using count_health_partition [of "\<lambda>h. h = CanaryHealthy" "\<lambda>h. h = CanaryUnhealthy" s] by (simp add: HealthSummary_def Let_def)
  have "hs_status (HealthSummary s) = ''degraded'' \<longleftrightarrow> (\<exists>c \<in> snd ` set (cs_canaries s). ca_health c = CanaryUnhealthy)"
    by (auto simp: HealthSummary_def Let_def count_health_def filter_empty_conv)
  also have "\<dots> \<longleftrightarrow> (\<exists>i c. mget (cs_canaries s) i = Some c \<and> ca_health c = CanaryUnhealthy)"
    using wf_map_mem [OF wf] by force
  finally show ?thesis using d sum by blast
qed

theorem canary_health_exact_witness:
  "let s = foldl canary_step (NewCanaryStore (NewQueue 0 8))
     [NCreate 0 \<lparr>cn_name = ''smoke'', cn_path = ''c.yaml'', cn_priority = [], cn_interval = 0, cn_jitter = 0, cn_threshold = 1\<rparr>,
      NQueue (CEmergency 1 True []), NFire 0 2, NContinue 0 3]
   in map_option ca_health (mget (cs_canaries s) ''canary-1'') = Some CanaryUnhealthy \<and> hs_status (HealthSummary s) = ''degraded''"
proof -
  let ?ops = "[NCreate 0 \<lparr>cn_name = ''smoke'', cn_path = ''c.yaml'', cn_priority = [], cn_interval = 0, cn_jitter = 0, cn_threshold = 1\<rparr>,
      NQueue (CEmergency 1 True []), NFire 0 2, NContinue 0 3]"
  define s where "s = foldl canary_step (NewCanaryStore (NewQueue 0 8)) ?ops"
  have "map_option (\<lambda>c. (ca_threshold c, ca_failures c)) (mget (cs_canaries s) ''canary-1'') = Some (1, 1)" unfolding s_def by code_simp
  then obtain c where c: "mget (cs_canaries s) ''canary-1'' = Some c" "ca_threshold c = 1" "ca_failures c = 1" by auto
  have "ca_threshold c \<le> ca_failures c" using c by simp
  then have "ca_health c = CanaryUnhealthy" "hs_status (HealthSummary s) = ''degraded''"
    using canary_health_exact [OF s_def] c(1) by blast+
  then show ?thesis using c(1) by (simp add: s_def Let_def)
qed

end
