(* ===== verification/QueueSystem.thy ===== *)
theory QueueSystem
  imports Queue
begin

text \<open>
  The queue as an interleaved system: clients call its operations while the worker takes, starts
  and finishes jobs. \<open>sys_inv\<close> relates the stored jobs, the channels and the phase of the worker;
  every step keeps it (\<open>worker_step_inv\<close>), so every reachable state satisfies it. The
  properties of the queue follow: no job is lost, success is final, idempotency keys hold for
  ever, the classes are served fairly and the worker drains what is waiting.
\<close>

section \<open>The invariant of the interleaved system\<close>

fun holds :: "phase \<Rightarrow> string option" where
  "holds (WTaken i) = Some i"
| "holds (WApplying i) = Some i"
| "holds _ = None"

definition status_ok :: "queue \<Rightarrow> phase \<Rightarrow> string \<Rightarrow> job_status \<Rightarrow> bool" where
  "status_ok q ph i st \<longleftrightarrow>
     (st = JobPending \<longrightarrow> i \<in> set (queued q) \<or> ph = WTaken i) \<and>
     (st = JobRunning \<longrightarrow> ph = WApplying i) \<and>
     (i \<in> set (queued q) \<or> ph = WTaken i \<longrightarrow> st \<noteq> JobRunning \<and> st \<noteq> JobSucceeded) \<and>
     (ph = WApplying i \<longrightarrow> st \<noteq> JobPending \<and> st \<noteq> JobSucceeded)"

definition applying :: "phase \<Rightarrow> bool" where
  "applying ph \<longleftrightarrow> (\<exists>i. ph = WApplying i)"

definition sys_inv :: "queue \<Rightarrow> phase \<Rightarrow> bool" where
  "sys_inv q ph \<longleftrightarrow> queue_inv q \<and>
     (\<forall>i. holds ph = Some i \<longrightarrow> i \<notin> set (queued q) \<and> (\<exists>j. mget (q_jobs q) i = Some j)) \<and>
     (\<forall>i j. mget (q_jobs q) i = Some j \<longrightarrow> status_ok q ph i (j_status j)) \<and>
     q_running q \<le> (if applying ph then 1 else 0)"

lemma sys_invD:
  assumes "sys_inv q ph"
  shows "queue_inv q" "holds ph = Some i \<Longrightarrow> i \<notin> set (queued q) \<and> (\<exists>j. mget (q_jobs q) i = Some j)"
    "mget (q_jobs q) i = Some j \<Longrightarrow> status_ok q ph i (j_status j)"
    "q_running q \<le> (if applying ph then 1 else 0)" "0 \<le> q_running q"
  using assms unfolding sys_inv_def queue_inv_def by blast+

lemma sys_invI:
  assumes "queue_inv q" "\<And>i. holds ph = Some i \<Longrightarrow> i \<notin> set (queued q) \<and> (\<exists>j. mget (q_jobs q) i = Some j)"
    "\<And>i j. mget (q_jobs q) i = Some j \<Longrightarrow> status_ok q ph i (j_status j)"
    "q_running q \<le> (if applying ph then 1 else 0)"
  shows "sys_inv q ph"
  using assms unfolding sys_inv_def by blast

lemma applying_simps [simp]: "applying (WApplying i)" "\<not> applying WBegin" "\<not> applying WCheck"
    "\<not> applying (WProbe n)" "\<not> applying WBlocked" "\<not> applying (WTaken i)" "\<not> applying WRecycle" "\<not> applying WStopped"
  by (simp_all add: applying_def)

lemma queued_core: "core q = core q' \<Longrightarrow> queued q = queued q' \<and> q_jobs q = q_jobs q'"
  by (simp add: core_def queued_def)

lemma sys_inv_core:
  "sys_inv q ph \<Longrightarrow> core q = core q' \<Longrightarrow> q_running q' = q_running q \<Longrightarrow> sys_inv q' ph"
proof -
  assume inv: "sys_inv q ph" and eq: "core q = core q'" and r: "q_running q' = q_running q"
  have *: "queued q' = queued q" "q_jobs q' = q_jobs q" using queued_core [OF eq] by simp_all
  have st: "status_ok q' ph i st = status_ok q ph i st" for i st by (simp add: status_ok_def *(1))
  show ?thesis
    using inv queue_inv_core [OF eq r [symmetric]] unfolding sys_inv_def * st r by simp
qed

lemma sys_inv_dec: "sys_inv q ph \<Longrightarrow> sys_inv (dec_running q) ph"
proof -
  assume inv: "sys_inv q ph"
  have st: "status_ok (dec_running q) ph i st = status_ok q ph i st" for i st by (simp add: status_ok_def)
  have r: "q_running (dec_running q) \<le> q_running q" by (simp add: dec_running_def)
  note D = sys_invD [OF inv]
  show ?thesis
    by (rule sys_invI [OF dec_running_inv [OF D(1)]]) (use D(2,3) st order_trans [OF r D(4)] in simp_all)
qed

lemma sys_inv_publish: "sys_inv q ph \<Longrightarrow> sys_inv (publish j q) ph"
  by (rule sys_inv_core) simp_all

text \<open>Phases in which the worker holds no job are interchangeable.\<close>

lemma sys_inv_idle:
  assumes "sys_inv q ph" and "holds ph = None" and "holds ph' = None"
  shows "sys_inv q ph'"
proof -
  have "ph \<noteq> WTaken i" "ph \<noteq> WApplying i" "ph' \<noteq> WTaken i" "ph' \<noteq> WApplying i" for i
    using assms(2,3) by auto
  then have "status_ok q ph i st = status_ok q ph' i st" "applying ph = applying ph'" for i st
    by (simp_all add: status_ok_def applying_def)
  then show ?thesis using assms unfolding sys_inv_def by simp
qed

lemma job_id: "queue_inv q \<Longrightarrow> mget (q_jobs q) i = Some j \<Longrightarrow> j_id j = i"
  unfolding queue_inv_def jobs_ok_def by blast

lemma status_ok_set_job: "status_ok (set_job j q) ph i st = status_ok q ph i st"
  by (simp add: status_ok_def)

lemma sys_inv_set_job:
  assumes inv: "sys_inv q ph" and j: "mget (q_jobs q) i = Some j" and same: "same_identity j j'"
    and st: "status_ok q ph i (j_status j')"
  shows "sys_inv (set_job j' q) ph"
proof (rule sys_invI)
  note D = sys_invD [OF inv]
  have id: "j_id j' = i" using job_id [OF D(1) j] same by (simp add: same_identity_def)
  show "queue_inv (set_job j' q)" by (rule set_job_inv [OF D(1) j same])
  show "x \<notin> set (queued (set_job j' q)) \<and> (\<exists>y. mget (q_jobs (set_job j' q)) x = Some y)"
    if "holds ph = Some x" for x using D(2) [OF that] by auto
  show "status_ok (set_job j' q) ph x (j_status y)" if "mget (q_jobs (set_job j' q)) x = Some y" for x y
  proof (cases "x = i")
    case True
    with that id have "y = j'" by simp
    with st True show ?thesis by (simp add: status_ok_set_job)
  next
    case False
    with that id have "mget (q_jobs q) x = Some y" by simp
    from D(3) [OF this] show ?thesis by (simp add: status_ok_set_job)
  qed
  show "q_running (set_job j' q) \<le> (if applying ph then 1 else 0)" using D(4) by simp
qed

lemma status_ok_ended [simp]: "status_ok q ph i JobFailed" "status_ok q ph i JobCanceled"
  by (simp_all add: status_ok_def)

lemma Cancel_inv: "sys_inv q ph \<Longrightarrow> sys_inv (fst (Cancel now i q)) ph"
proof (cases "mget (q_jobs q) i")
  case (Some j)
  assume "sys_inv q ph"
  then have "sys_inv (set_job (j\<lparr>j_status := JobCanceled, j_ended := now\<rparr>) q) ph"
    using Some by (rule sys_inv_set_job) (simp_all add: same_identity_def)
  with \<open>sys_inv q ph\<close> Some show ?thesis by (simp add: Cancel_def Let_def sys_inv_publish)
qed (simp add: Cancel_def)

lemma FailJob_inv: "sys_inv q ph \<Longrightarrow> sys_inv (fst (FailJob now i reason q)) ph"
proof (cases "mget (q_jobs q) (TrimSpace i)")
  case (Some j)
  assume inv: "sys_inv q ph"
  have "sys_inv (set_job (j\<lparr>j_status := JobFailed, j_error := e, j_ended := now\<rparr>) q) ph" for e
    using inv Some by (rule sys_inv_set_job) (simp_all add: same_identity_def)
  with inv Some show ?thesis by (simp add: FailJob_def Let_def sys_inv_publish sys_inv_dec)
qed (simp add: FailJob_def)

lemma Enqueue_inv:
  assumes inv: "sys_inv q ph"
  shows "sys_inv (fst (Enqueue now path key force prio q)) ph"
proof -
  note D = sys_invD [OF inv]
  from D(1) show ?thesis
  proof (cases rule: Enqueue_cases [where key = key and now = now and path = path and force = force and prio = prio])
    case (existing i j)
    then show ?thesis using inv by simp
  next
    case (halted e)
    then show ?thesis using inv by simp
  next
    case (full e)
    have j: "jobs_ok (q\<lparr>q_next := q_next q + 1\<rparr>)"
      using D(1) stamps_below_up by (simp add: queue_inv_def jobs_ok_def)
    have k: "keys_ok (q\<lparr>q_next := q_next q + 1\<rparr>) = keys_ok q" "chans_ok (q\<lparr>q_next := q_next q + 1\<rparr>) = chans_ok q"
      by (simp_all add: keys_ok_def chans_ok_def queued_def chan_def)
    have "queue_inv (q\<lparr>q_next := q_next q + 1\<rparr>)" using D(1) j k by (simp add: queue_inv_def)
    then have "sys_inv (q\<lparr>q_next := q_next q + 1\<rparr>) ph"
    proof (rule sys_invI)
      have [simp]: "queued (q\<lparr>q_next := q_next q + 1\<rparr>) = queued q" by (simp add: queued_def)
      then have "status_ok (q\<lparr>q_next := q_next q + 1\<rparr>) ph i st = status_ok q ph i st" for i st
        by (simp add: status_ok_def)
      then show "status_ok (q\<lparr>q_next := q_next q + 1\<rparr>) ph i (j_status j)"
        if "mget (q_jobs (q\<lparr>q_next := q_next q + 1\<rparr>)) i = Some j" for i j
        using that D(3) by simp
    qed (use D(2,4) in \<open>simp_all add: queued_def\<close>)
    then show ?thesis using full by simp
  next
    case (added j q2)
    have fresh: "mget (q_jobs q) (j_id j) = None" using fresh_job [OF D(1)] added(1) by simp
    have nq: "j_id j \<notin> set (queued q)" using chan_mem_job [OF D(1)] fresh by fastforce
    have ne: "holds ph \<noteq> Some (j_id j)" using D(2) fresh by fastforce
    have pr: "j_priority j = normalizePriority prio" "j_status j = JobPending" using added(1) by (simp_all add: new_job_def)
    have a: "queue_inv (add_job j q)" using added(2) by (intro add_job_inv [OF D(1) added(1)]) simp
    note P = push_inv [OF a added(3) pr(1), of j]
    have m: "mset (queued q2) = add_mset (j_id j) (mset (queued q))" using P(2) nq by simp
    have sq: "set (queued q2) = insert (j_id j) (set (queued q))" using arg_cong [OF m, of set_mset] by simp
    have P1: "queue_inv q2" "set (queued q2) = insert (j_id j) (set (queued q))"
        "q_jobs q2 = mput (j_id j) j (q_jobs q)" "q_running q2 = q_running q"
      using P nq sq by simp_all
    have "sys_inv q2 ph"
    proof (rule sys_invI [OF P1(1)])
      show "x \<notin> set (queued q2) \<and> (\<exists>y. mget (q_jobs q2) x = Some y)" if "holds ph = Some x" for x
        using D(2) [OF that] that ne P1(2,3) by auto
      show "status_ok q2 ph x (j_status y)" if y: "mget (q_jobs q2) x = Some y" for x y
      proof (cases "x = j_id j")
        case True
        then show ?thesis using y P1(2,3) pr(2) ne by (auto simp: status_ok_def)
      next
        case False
        with y P1(3) have "status_ok q ph x (j_status y)" by (intro D(3)) simp
        with False P1(2) show ?thesis by (simp add: status_ok_def)
      qed
      show "q_running q2 \<le> (if applying ph then 1 else 0)" using D(4) P1(4) by simp
    qed
    then show ?thesis using added(4) by (simp add: sys_inv_publish)
  qed
qed

lemma stored_is_key: "queue_inv q \<Longrightarrow> (i, j) \<in> set (q_jobs q) \<Longrightarrow> mget (q_jobs q) i = Some j"
  using wf_map_mem [of "q_jobs q" i j] by (simp add: queue_inv_def jobs_ok_def)

lemma recover_one_inv:
  assumes "sys_inv q ph" and "mget (q_jobs q) i = Some j"
  shows "sys_inv (fst (recover_one now maxAge (i, j) (q, r))) ph"
proof (cases "is_stuck now maxAge j")
  case True
  define j' where "j' = j\<lparr>j_status := JobFailed, j_error := ''stale run lease recovered by control plane'', j_ended := now\<rparr>"
  have "j_id j' = i" using job_id [OF sys_invD(1) [OF assms(1)] assms(2)] by (simp add: j'_def)
  moreover have "sys_inv (set_job j' q) ph"
    using assms by (rule sys_inv_set_job) (simp_all add: same_identity_def j'_def)
  ultimately show ?thesis
    using True by (simp add: recover_one_def Let_def set_job_def sys_inv_dec flip: j'_def)
qed (use assms in \<open>simp add: recover_one_def\<close>)

lemma recover_one_other:
  "x \<noteq> i \<Longrightarrow> mget (q_jobs (fst (recover_one now maxAge (i, j) (q, r)))) x = mget (q_jobs q) x"
  by (simp add: recover_one_def Let_def)

lemma recover_fold_inv:
  "sys_inv q ph \<Longrightarrow> distinct (mkeys todo) \<Longrightarrow> \<forall>(i, j) \<in> set todo. mget (q_jobs q) i = Some j \<Longrightarrow>
     sys_inv (fst (fold (recover_one now maxAge) todo (q, r))) ph"
proof (induction todo arbitrary: q r)
  case (Cons ij todo)
  obtain i j where ij: "ij = (i, j)" by (cases ij)
  obtain q1 r1 where s: "recover_one now maxAge (i, j) (q, r) = (q1, r1)" by (cases "recover_one now maxAge (i, j) (q, r)")
  have "sys_inv q1 ph" using recover_one_inv [of q ph i j now maxAge r] Cons.prems s by (simp add: ij)
  moreover have "\<forall>(x, y) \<in> set todo. mget (q_jobs q1) x = Some y"
  proof clarify
    fix x y assume xy: "(x, y) \<in> set todo"
    then have "x \<noteq> i" using Cons.prems(2) by (auto simp: ij rev_image_eqI)
    with recover_one_other [OF this, of now maxAge j q r] s xy Cons.prems(3) show "mget (q_jobs q1) x = Some y"
      by auto
  qed
  ultimately show ?case using Cons.IH [of q1 r1] Cons.prems(2) s by (simp add: ij)
qed simp

lemma fold_publish_inv: "sys_inv q ph \<Longrightarrow> sys_inv (fold publish js q) ph"
  by (induction js arbitrary: q) (simp_all add: sys_inv_publish)

lemma RecoverStuckJobs_inv:
  assumes inv: "sys_inv q ph"
  shows "sys_inv (fst (RecoverStuckJobs now maxAge q)) ph"
proof -
  have q: "queue_inv q" by (rule sys_invD(1) [OF inv])
  then have d: "distinct (mkeys (q_jobs q))" by (simp add: queue_inv_def jobs_ok_def wf_map_def)
  have "sys_inv (fst (fold (recover_one now m) (q_jobs q) (q, []))) ph" for m
    using recover_fold_inv [OF inv d] stored_is_key [OF q] by blast
  then show ?thesis by (simp add: RecoverStuckJobs_def Let_def split_beta fold_publish_inv)
qed

lemma client_step_inv: "sys_inv q ph \<Longrightarrow> sys_inv (client_step q op) ph"
proof (cases op)
  case (CFreezeStatus now)
  then show "sys_inv q ph \<Longrightarrow> ?thesis" by (auto simp: FreezeStatus_def core_def elim!: sys_inv_core)
qed (auto simp: Enqueue_inv Cancel_inv FailJob_inv RecoverStuckJobs_inv SetEmergencyStop_def
      SetFreezeUntil_def SetWorkerLifecyclePolicy_def Pause_def Resume_def Let_def core_def elim!: sys_inv_core)

lemma NewQueue_inv: "holds ph = None \<Longrightarrow> sys_inv (NewQueue now buffer) ph"
proof -
  assume h: "holds ph = None"
  have "queue_inv (NewQueue now buffer)"
    by (simp add: queue_inv_defs NewQueue_def queued_def chan_def stamps_below_def)
  then show ?thesis by (rule sys_invI) (use h in \<open>simp_all add: NewQueue_def queued_def\<close>)
qed

text \<open>The clients of the queue as runs of its operations, for a worker in any phase.\<close>

interpretation clients: stepper client_step "\<lambda>q. sys_inv q ph" for ph
  by unfold_locales (rule client_step_inv)

lemma idle_not_applying: "holds ph = None \<Longrightarrow> \<not> applying ph"
  by (auto simp: applying_def)

lemma take_inv:
  assumes inv: "sys_inv q ph" and ph: "holds ph = None" and cls: "cls \<in> set classes" and c: "chan q cls = x # xs"
  shows "sys_inv (set_chan cls xs q) (WTaken x)"
proof (rule sys_invI)
  note D = sys_invD [OF inv]
  let ?q = "set_chan cls xs q"
  note P = pop_inv [OF D(1) cls c]
  show "queue_inv ?q" by (rule P(1))
  have "x \<in> set (queued q)" using P(3) by simp
  then show "i \<notin> set (queued ?q) \<and> (\<exists>j. mget (q_jobs ?q) i = Some j)" if "holds (WTaken x) = Some i" for i
    using that P(2) chan_mem_job [OF D(1)] by simp
  show "status_ok ?q (WTaken x) i (j_status j)" if "mget (q_jobs ?q) i = Some j" for i j
  proof -
    have "status_ok q ph i (j_status j)" using D(3) that by simp
    moreover have "ph \<noteq> WTaken i" "ph \<noteq> WApplying i" using ph by auto
    ultimately show ?thesis using P(3) by (auto simp: status_ok_def)
  qed
  show "q_running ?q \<le> (if applying (WTaken x) then 1 else 0)"
    using D(4) idle_not_applying [OF ph] by simp
qed

lemma classes_nth: "i < 3 \<Longrightarrow> classes ! i \<in> set classes"
  by (rule nth_mem) (simp add: classes_def)

lemma sys_inv_rr: "sys_inv q ph \<Longrightarrow> n < 3 \<Longrightarrow> sys_inv (q\<lparr>q_rr := n\<rparr>) ph"
proof -
  assume inv: "sys_inv q ph" and n: "n < 3"
  note D = sys_invD [OF inv]
  have "jobs_ok (q\<lparr>q_rr := n\<rparr>) = jobs_ok q" "keys_ok (q\<lparr>q_rr := n\<rparr>) = keys_ok q"
    by (simp_all add: jobs_ok_def keys_ok_def)
  moreover have "chans_ok (q\<lparr>q_rr := n\<rparr>)"
  proof (rule chans_okI)
    have [simp]: "queued (q\<lparr>q_rr := n\<rparr>) = queued q" "chan (q\<lparr>q_rr := n\<rparr>) cls = chan q cls" for cls
      by (simp_all add: queued_def chan_def)
    have ok: "chans_ok q" using D(1) by (simp add: queue_inv_def)
    note C = chans_okD [OF ok]
    show "distinct (queued (q\<lparr>q_rr := n\<rparr>))" "0 < q_buffer (q\<lparr>q_rr := n\<rparr>)" "q_rr (q\<lparr>q_rr := n\<rparr>) < 3"
      using C(1,2) n by simp_all
    show "int (length (chan (q\<lparr>q_rr := n\<rparr>) k)) \<le> q_buffer (q\<lparr>q_rr := n\<rparr>)" if "k \<in> set classes" for k
      using C(4) [OF that] by simp
    show "\<exists>j. mget (q_jobs (q\<lparr>q_rr := n\<rparr>)) i = Some j \<and> j_priority j = k"
      if "k \<in> set classes" "i \<in> set (chan (q\<lparr>q_rr := n\<rparr>) k)" for k i
      using C(5) [OF that(1), of i] that(2) by simp
  qed
  ultimately have "queue_inv (q\<lparr>q_rr := n\<rparr>)" using D(1) by (simp add: queue_inv_def)
  moreover have "status_ok (q\<lparr>q_rr := n\<rparr>) ph i st = status_ok q ph i st" for i st
    by (simp add: status_ok_def queued_def)
  ultimately show ?thesis by (intro sys_invI) (use D in \<open>simp_all add: queued_def\<close>)
qed

lemma probe_inv:
  assumes inv: "sys_inv q ph" and ph: "holds ph = None" and p: "probe i q = Some (x, q')"
  shows "sys_inv q' (WTaken x)"
proof -
  define idx where "idx = (q_rr q + i) mod 3"
  have len: "length classes = 3" by (simp add: classes_def)
  from p obtain xs where c: "chan q (classes ! idx) = x # xs"
      and q': "q' = (set_chan (classes ! idx) xs q)\<lparr>q_rr := (idx + 1) mod 3\<rparr>"
    by (auto simp: probe_def Let_def len idx_def split: list.splits)
  have "classes ! idx \<in> set classes" by (rule classes_nth) (simp add: idx_def)
  from sys_inv_rr [OF take_inv [OF inv ph this c]] show ?thesis by (simp add: q')
qed

lemma receive_inv:
  assumes inv: "sys_inv q ph" and ph: "holds ph = None" and r: "receive cls q = Some (x, q')"
  shows "sys_inv q' (WTaken x)"
proof -
  define k where "k = (if cls = ''high'' then ''high'' else if cls = ''low'' then ''low'' else ''normal'')"
  have k: "chan q cls = chan q k" "set_chan cls ids q = set_chan k ids q" "k \<in> set classes" for ids
    by (simp_all add: k_def chan_def set_chan_def classes_def)
  from r obtain xs where "chan q k = x # xs" "q' = set_chan k xs q"
    by (auto simp: receive_def k split: list.splits)
  with take_inv [OF inv ph k(3)] show ?thesis by simp
qed

text \<open>The job that the worker holds is released: it is then neither waiting nor running.\<close>

lemma release_inv:
  assumes inv: "sys_inv q ph" and h: "holds ph = Some i" and ph': "holds ph' = None"
    and st: "\<And>j. mget (q_jobs q) i = Some j \<Longrightarrow> j_status j \<noteq> JobPending \<and> j_status j \<noteq> JobRunning"
    and r: "q_running q = 0"
  shows "sys_inv q ph'"
proof (rule sys_invI)
  note D = sys_invD [OF inv]
  show "queue_inv q" by (rule D(1))
  show "status_ok q ph' x (j_status j)" if j: "mget (q_jobs q) x = Some j" for x j
  proof (cases "x = i")
    case True
    then show ?thesis using st j D(2) [OF h] ph' by (auto simp: status_ok_def)
  next
    case False
    then have "ph \<noteq> WTaken x" "ph \<noteq> WApplying x" "ph' \<noteq> WTaken x" "ph' \<noteq> WApplying x"
      using h ph' by auto
    then show ?thesis using D(3) [OF j] by (simp add: status_ok_def)
  qed
qed (use ph' r in simp_all)

lemma runOne_start_None:
  assumes inv: "sys_inv q (WTaken i)" and n: "runOne_start now i q = None" and ph: "holds ph = None"
  shows "sys_inv q ph"
proof (rule release_inv [OF inv _ ph])
  show "j_status j \<noteq> JobPending \<and> j_status j \<noteq> JobRunning" if "mget (q_jobs q) i = Some j" for j
    using n that by (simp add: runOne_start_def Let_def split: if_splits)
  show "q_running q = 0" using sys_invD(4,5) [OF inv] by simp
qed simp

lemma runOne_start_inv:
  assumes inv: "sys_inv q (WTaken i)" and s: "runOne_start now i q = Some q'"
  shows "sys_inv q' (WApplying i)"
proof -
  note D = sys_invD [OF inv]
  from s obtain j where j: "mget (q_jobs q) i = Some j" and
      q': "q' = publish (j\<lparr>j_status := JobRunning, j_started := now\<rparr>)
        ((set_job (j\<lparr>j_status := JobRunning, j_started := now\<rparr>) q)\<lparr>q_running := q_running q + 1\<rparr>)"
    by (auto simp: runOne_start_def Let_def split: option.splits if_splits)
  define j' where "j' = j\<lparr>j_status := JobRunning, j_started := now\<rparr>"
  have id: "j_id j' = i" using job_id [OF D(1) j] by (simp add: j'_def)
  have q1: "queue_inv (set_job j' q)" by (rule set_job_inv [OF D(1) j]) (simp add: same_identity_def j'_def)
  have core: "core ((set_job j' q)\<lparr>q_running := q_running q + 1\<rparr>) = core (set_job j' q)" by (simp add: core_def)
  note Q = queued_core [OF core]
  have "sys_inv ((set_job j' q)\<lparr>q_running := q_running q + 1\<rparr>) (WApplying i)"
  proof (rule sys_invI)
    show "queue_inv ((set_job j' q)\<lparr>q_running := q_running q + 1\<rparr>)"
      by (rule queue_inv_running [OF core [symmetric] _ q1]) (use D(5) in simp)
    show "x \<notin> set (queued ((set_job j' q)\<lparr>q_running := q_running q + 1\<rparr>)) \<and>
        (\<exists>y. mget (q_jobs ((set_job j' q)\<lparr>q_running := q_running q + 1\<rparr>)) x = Some y)"
      if "holds (WApplying i) = Some x" for x
      using that D(2) [of i] Q id by simp
    show "status_ok ((set_job j' q)\<lparr>q_running := q_running q + 1\<rparr>) (WApplying i) x (j_status y)"
      if y: "mget (q_jobs ((set_job j' q)\<lparr>q_running := q_running q + 1\<rparr>)) x = Some y" for x y
    proof (cases "x = i")
      case True
      with y id Q have "y = j'" by simp
      then show ?thesis using True D(2) [of i] Q by (simp add: status_ok_def j'_def)
    next
      case False
      with y id Q have "mget (q_jobs q) x = Some y" by simp
      from D(3) [OF this] False Q show ?thesis by (simp add: status_ok_def)
    qed
  qed (use D(4) in simp)
  then show ?thesis unfolding q' j'_def [symmetric] by (rule sys_inv_publish)
qed

lemma runOne_finish_inv:
  assumes inv: "sys_inv q (WApplying i)" and ph: "holds ph = None"
  shows "sys_inv (runOne_finish now i err q) ph"
proof -
  note D = sys_invD [OF inv]
  obtain j where j: "mget (q_jobs q) i = Some j" using D(2) [of i] by auto
  have run: "q_running (dec_running q') = 0" if "q_running q' = q_running q" for q'
    using that D(4,5) by (auto simp: dec_running_def)
  show ?thesis
  proof (cases "j_status j = JobCanceled")
    case True
    have "sys_inv (dec_running q) ph"
      by (rule release_inv [OF sys_inv_dec [OF inv] _ ph, of i]) (use True j run in auto)
    then show ?thesis using True j by (simp add: runOne_finish_def)
  next
    case False
    define j' where "j' = (case err of Some e \<Rightarrow> j\<lparr>j_status := JobFailed, j_error := e\<rparr>
        | None \<Rightarrow> j\<lparr>j_status := JobSucceeded\<rparr>)\<lparr>j_ended := now\<rparr>"
    have same: "same_identity j j'" by (simp add: j'_def same_identity_def split: option.splits)
    have st: "j_status j' = JobFailed \<or> j_status j' = JobSucceeded" by (simp add: j'_def split: option.splits)
    have id: "j_id j' = i" using job_id [OF D(1) j] same by (simp add: same_identity_def)
    have q1: "queue_inv (dec_running (set_job j' q))" by (rule dec_running_inv [OF set_job_inv [OF D(1) j same]])
    have "sys_inv (dec_running (set_job j' q)) ph"
    proof (rule sys_invI [OF q1])
      show "status_ok (dec_running (set_job j' q)) ph x (j_status y)"
        if y: "mget (q_jobs (dec_running (set_job j' q))) x = Some y" for x y
      proof (cases "x = i")
        case True
        with y id st D(2) [of i] ph show ?thesis by (auto simp: status_ok_def)
      next
        case False
        with y id have "mget (q_jobs q) x = Some y" by simp
        from D(3) [OF this] False ph show ?thesis by (auto simp: status_ok_def)
      qed
    qed (use ph run in simp_all)
    then show ?thesis using False j by (simp add: runOne_finish_def Let_def sys_inv_publish flip: j'_def)
  qed
qed

lemma after_job_fields [simp]: "w_queue (after_job w q) = q" "holds (w_phase (after_job w q)) = None"
  by (simp_all add: after_job_def Let_def)

lemma worker_internal_inv:
  assumes inv: "sys_inv (w_queue w) (w_phase w)" and s: "worker_internal w = Some w'"
  shows "sys_inv (w_queue w') (w_phase w')"
proof (cases "w_phase w")
  case (WProbe i)
  have idle: "sys_inv (w_queue w) ph" if "holds ph = None" for ph
    using inv WProbe that by (simp add: sys_inv_idle)
  have p: "sys_inv q' (WTaken x)" if "probe i (w_queue w) = Some (x, q')" for x q'
    using probe_inv [OF inv _ that] WProbe by simp
  from s WProbe show ?thesis
    by (auto simp: worker_internal_def idle p split: if_splits option.splits)
next
  case WRecycle
  then have "sys_inv (w_queue w) WBegin" using inv by (simp add: sys_inv_idle)
  then show ?thesis using s WRecycle by (auto simp: worker_internal_def core_def elim!: sys_inv_core)
next
  case WBegin
  then have "sys_inv (w_queue w) WCheck" using inv by (simp add: sys_inv_idle)
  then show ?thesis using s WBegin by (auto simp: worker_internal_def)
next
  case WCheck
  then have "sys_inv (w_queue w) (WProbe 0)" using inv by (simp add: sys_inv_idle)
  then show ?thesis using s inv WCheck by (auto simp: worker_internal_def split: if_splits)
qed (use s in \<open>simp_all add: worker_internal_def\<close>)

lemma worker_step_inv:
  assumes inv: "sys_inv (w_queue w) (w_phase w)" and s: "worker_step w l = Some w'"
  shows "sys_inv (w_queue w') (w_phase w')"
proof (cases l)
  case (LClient op)
  then show ?thesis using s clients.step_inv [OF inv] by auto
next
  case LWorker
  then show ?thesis using s worker_internal_inv [OF inv] by simp
next
  case (LReceive cls)
  then show ?thesis using s inv receive_inv [OF inv] by (auto split: if_splits option.splits)
next
  case (LStart now)
  then obtain i where i: "w_phase w = WTaken i" using s by (auto split: phase.splits)
  then show ?thesis
    using s LStart inv runOne_start_inv [of "w_queue w" i now] runOne_start_None [of "w_queue w" i now]
    by (auto split: option.splits)
next
  case (LFinish now err)
  then obtain i where i: "w_phase w = WApplying i" using s by (auto split: phase.splits)
  then show ?thesis using s LFinish inv runOne_finish_inv by auto
next
  case LStop
  then have "holds (w_phase w) = None" "w' = w\<lparr>w_phase := WStopped\<rparr>"
    using s by (auto simp: can_stop_def split: if_splits)
  then show ?thesis using inv by (simp add: sys_inv_idle [of _ "w_phase w"])
qed

lemma reachable_inv: "reachable w \<Longrightarrow> sys_inv (w_queue w) (w_phase w)"
proof (induction rule: reachable.induct)
  case (start now buffer ops)
  have "sys_inv (foldl client_step (NewQueue now buffer) ops) WBegin"
    by (rule clients.run_inv) (simp add: NewQueue_inv)
  then show ?case unfolding StartWorker_def by (simp add: core_def sys_inv_core)
qed (rule worker_step_inv)

section \<open>Properties of the queue\<close>

fun run_labels :: "wsys \<Rightarrow> label list \<Rightarrow> wsys option" where
  "run_labels w [] = Some w"
| "run_labels w (l # ls) = (case worker_step w l of None \<Rightarrow> None | Some w' \<Rightarrow> run_labels w' ls)"

lemma run_labels_reachable: "reachable w \<Longrightarrow> run_labels w ls = Some w' \<Longrightarrow> reachable w'"
  by (induction ls arbitrary: w) (auto split: option.splits intro: reachable.step)

text \<open>What every step keeps, every run keeps.\<close>

lemma run_labels_invariant:
  assumes "run_labels w ls = Some w'" and "P w" and "reachable w"
    and "\<And>w l w'. reachable w \<Longrightarrow> l \<in> set ls \<Longrightarrow> P w \<Longrightarrow> worker_step w l = Some w' \<Longrightarrow> P w'"
  shows "P w'"
  using assms
proof (induction ls arbitrary: w)
  case (Cons l ls)
  from Cons.prems(1) obtain w1 where w1: "worker_step w l = Some w1" "run_labels w1 ls = Some w'"
    by (auto split: option.splits)
  have "P w1" using Cons.prems(2-4) w1(1) by (meson list.set_intros(1))
  moreover have "reachable w1" using Cons.prems(3) w1(1) by (rule reachable.step)
  ultimately show ?case using Cons.IH [OF w1(2)] Cons.prems(4) by (meson list.set_intros(2))
qed simp

text \<open>C12: in every state that the queue, its clients and its worker can reach, the stored jobs have
  distinct identifiers; a pending job sits in the channel of its own priority class or is the one
  the worker has just taken, so none is lost; channels hold no identifier twice and never exceed
  their capacity; at most one job is running, the one the worker is applying; and the counter of
  running jobs is 0 or 1.\<close>

theorem queue_system_safe:
  assumes "reachable w"
  shows "distinct (map j_id (List_jobs (w_queue w))) \<and> distinct (queued (w_queue w)) \<and>
    (\<forall>cls \<in> set classes. int (length (chan (w_queue w) cls)) \<le> q_buffer (w_queue w)) \<and>
    (\<forall>i j. Get i (w_queue w) = Some j \<longrightarrow>
       (j_status j = JobPending \<longrightarrow> i \<in> set (chan (w_queue w) (j_priority j)) \<or> w_phase w = WTaken i) \<and>
       (j_status j = JobRunning \<longrightarrow> w_phase w = WApplying i)) \<and>
    0 \<le> q_running (w_queue w) \<and> q_running (w_queue w) \<le> 1"
proof -
  let ?q = "w_queue w"
  note D = sys_invD [OF reachable_inv [OF assms]]
  have ok: "chans_ok ?q" "wf_map (q_jobs ?q)" using D(1) by (simp_all add: queue_inv_def jobs_ok_def)
  note C = chans_okD [OF ok(1)]
  have "map j_id (List_jobs ?q) = mkeys (q_jobs ?q)"
    using job_id [OF D(1)] stored_is_key [OF D(1)] by (auto simp: List_jobs_def)
  then have "distinct (map j_id (List_jobs ?q))" using ok(2) by (simp add: wf_map_def)
  moreover have "i \<in> set (chan ?q (j_priority j)) \<or> w_phase w = WTaken i"
    if "Get i ?q = Some j" "j_status j = JobPending" for i j
  proof -
    have j: "mget (q_jobs ?q) i = Some j" using that(1) by (simp add: Get_def)
    from D(3) [OF j] that(2) consider "i \<in> set (queued ?q)" | "w_phase w = WTaken i" by (auto simp: status_ok_def)
    then show ?thesis
    proof cases
      case 1
      then obtain cls where cls: "cls \<in> set classes" "i \<in> set (chan ?q cls)" unfolding set_queued by blast
      from C(5) [OF this] j have "j_priority j = cls" by simp
      with cls(2) show ?thesis by simp
    qed simp
  qed
  moreover have "w_phase w = WApplying i" if "Get i ?q = Some j" "j_status j = JobRunning" for i j
    using D(3) [of i j] that by (simp add: status_ok_def Get_def)
  moreover have "q_running ?q \<le> 1" using D(4) by (simp split: if_splits)
  ultimately show ?thesis using C(1,4) D(5) by blast
qed

lemma Enqueue_keeps:
  assumes inv: "queue_inv q" and j: "mget (q_jobs q) i = Some j"
  shows "mget (q_jobs (fst (Enqueue now path key force prio q))) i = Some j"
  using inv
proof (cases rule: Enqueue_cases [where key = key and now = now and path = path and force = force and prio = prio])
  case (added n q2)
  have "j_id n \<noteq> i" using fresh_job [OF inv] j added(1) by force
  moreover have "q_jobs q2 = q_jobs (add_job n q)"
    using added(3) by (auto simp: pushPending_def Let_def split: if_splits)
  ultimately show ?thesis using j added(4) by simp
qed (use j in simp_all)

lemma recover_fold_keeps:
  "mget (q_jobs q) i = Some j \<Longrightarrow> \<forall>k y. (k, y) \<in> set todo \<longrightarrow> k = i \<longrightarrow> j_status y \<noteq> JobRunning \<Longrightarrow>
     mget (q_jobs (fst (fold (recover_one now m) todo (q, r)))) i = Some j"
proof (induction todo arbitrary: q r)
  case (Cons ky todo)
  obtain k y where ky: "ky = (k, y)" by (cases ky)
  obtain q1 r1 where s: "recover_one now m (k, y) (q, r) = (q1, r1)" by (cases "recover_one now m (k, y) (q, r)")
  have "mget (q_jobs q1) i = Some j"
  proof (cases "k = i")
    case True
    with Cons.prems(2) have "\<not> is_stuck now m y" by (simp add: ky is_stuck_def)
    with s Cons.prems(1) show ?thesis by (simp add: recover_one_def)
  next
    case False
    with recover_one_other [of i k now m y q r] s Cons.prems(1) show ?thesis by simp
  qed
  with Cons.IH [of q1 r1] Cons.prems(2) s show ?case by (simp add: ky)
qed simp

lemma fold_publish_jobs [simp]: "q_jobs (fold publish js q) = q_jobs q"
  by (induction js arbitrary: q) simp_all

lemma Recover_keeps:
  assumes "queue_inv q" and j: "mget (q_jobs q) i = Some j" "j_status j \<noteq> JobRunning"
  shows "mget (q_jobs (fst (RecoverStuckJobs now m q))) i = Some j"
proof -
  have "\<forall>k y. (k, y) \<in> set (q_jobs q) \<longrightarrow> k = i \<longrightarrow> j_status y \<noteq> JobRunning"
    using stored_is_key [OF assms(1)] j by fastforce
  from recover_fold_keeps [OF j(1) this] show ?thesis
    by (simp add: RecoverStuckJobs_def Let_def split_beta)
qed

text \<open>How one step can change one stored job.\<close>

definition job_change :: "wsys \<Rightarrow> label \<Rightarrow> string \<Rightarrow> job \<Rightarrow> job \<Rightarrow> bool" where
  "job_change w l i j j' \<longleftrightarrow>
     (case l of
        LClient (CCancel now x) \<Rightarrow> x = i \<and> \<not> finished j \<and> j_status j' = JobCanceled
      | LClient (CFail now x reason) \<Rightarrow> TrimSpace x = i \<and> \<not> finished j \<and> j_status j' = JobFailed
      | LClient (CRecover now m) \<Rightarrow> j_status j = JobRunning \<and> j_status j' = JobFailed
      | LStart now \<Rightarrow> w_phase w = WTaken i \<and> j_status j \<noteq> JobCanceled \<and> j_status j' = JobRunning
      | LFinish now err \<Rightarrow> w_phase w = WApplying i \<and> j_status j \<noteq> JobCanceled \<and>
          j_status j' = (if err = None then JobSucceeded else JobFailed)
      | _ \<Rightarrow> False)"

lemma same_identity_refl [simp]: "same_identity j j"
  by (simp add: same_identity_def)

lemma recover_fold_status:
  assumes "distinct (mkeys todo)" and "\<forall>(k, y) \<in> set todo. mget (q_jobs q) k = Some y" and "mget (q_jobs q) i = Some j"
  shows "\<exists>j'. mget (q_jobs (fst (fold (recover_one now m) todo (q, r)))) i = Some j' \<and> same_identity j j' \<and>
    (j' = j \<or> j_status j = JobRunning \<and> j_status j' = JobFailed)"
  using assms
proof (induction todo arbitrary: q r)
  case (Cons ky todo)
  obtain k y where ky: "ky = (k, y)" by (cases ky)
  obtain q1 r1 where s: "recover_one now m (k, y) (q, r) = (q1, r1)" by (cases "recover_one now m (k, y) (q, r)")
  have other: "mget (q_jobs q1) x = mget (q_jobs q) x" if "x \<noteq> k" for x
    using recover_one_other [OF that, of now m y q r] s by simp
  show ?case
  proof (cases "k = i")
    case False
    have "\<forall>(x, z) \<in> set todo. mget (q_jobs q1) x = Some z"
    proof clarify
      fix x z assume xz: "(x, z) \<in> set todo"
      then have "x \<noteq> k" using Cons.prems(1) by (auto simp: ky rev_image_eqI)
      with other xz Cons.prems(2) show "mget (q_jobs q1) x = Some z" by auto
    qed
    then show ?thesis using Cons.IH [of q1 r1] Cons.prems(1,3) other [of i] False s by (auto simp: ky)
  next
    case True
    with Cons.prems(2,3) have y: "y = j" by (auto simp: ky)
    obtain j1 where j1: "mget (q_jobs q1) i = Some j1" "same_identity j j1"
        "j1 = j \<or> j_status j = JobRunning \<and> j_status j1 = JobFailed"
      using s Cons.prems(3) True y
      by (auto simp: recover_one_def Let_def is_stuck_def same_identity_def split: if_splits)
    have "\<forall>z x. (z, x) \<in> set todo \<longrightarrow> z = i \<longrightarrow> j_status x \<noteq> JobRunning"
      using Cons.prems(1) True by (auto simp: ky rev_image_eqI)
    from recover_fold_keeps [OF j1(1) this] j1 s show ?thesis by (simp add: ky True)
  qed
qed simp

lemma step_job:
  assumes inv: "sys_inv (w_queue w) (w_phase w)" and s: "worker_step w l = Some w'"
    and j: "mget (q_jobs (w_queue w)) i = Some j"
  shows "\<exists>j'. mget (q_jobs (w_queue w')) i = Some j' \<and> same_identity j j' \<and> (j' = j \<or> job_change w l i j j')"
proof -
  let ?q = "w_queue w"
  have q: "queue_inv ?q" by (rule sys_invD(1) [OF inv])
  have id: "mget (q_jobs ?q) x = Some y \<Longrightarrow> j_id y = x" for x y by (rule job_id [OF q])
  show ?thesis
  proof (cases l)
    case (LClient op)
    then have w': "w_queue w' = client_step ?q op" using s by auto
    show ?thesis
    proof (cases op)
      case (CEnqueue now path key force prio)
      then show ?thesis using Enqueue_keeps [OF q j] w' by auto
    next
      case (CCancel now x)
      then show ?thesis using j id w' LClient
        by (cases "x = i") (auto simp: Cancel_def Let_def job_change_def same_identity_def split: option.splits)
    next
      case (CFail now x reason)
      then show ?thesis using j id w' LClient
        by (cases "TrimSpace x = i") (auto simp: FailJob_def Let_def job_change_def same_identity_def split: option.splits)
    next
      case (CRecover now m)
      have "distinct (mkeys (q_jobs ?q))" using q by (simp add: queue_inv_def jobs_ok_def wf_map_def)
      from recover_fold_status [OF this _ j] stored_is_key [OF q] w' CRecover LClient show ?thesis
        by (auto simp: RecoverStuckJobs_def Let_def split_beta job_change_def)
    qed (use j w' in \<open>auto simp: SetEmergencyStop_def SetFreezeUntil_def FreezeStatus_def
        SetWorkerLifecyclePolicy_def Pause_def Resume_def Let_def\<close>)
  next
    case LWorker
    then show ?thesis using s j
      by (auto simp: worker_internal_def probe_def Let_def split: phase.splits if_splits option.splits list.splits)
  next
    case (LReceive cls)
    then show ?thesis using s j by (auto simp: receive_def split: if_splits option.splits list.splits)
  next
    case (LStart now)
    then show ?thesis using s j id
      by (auto simp: runOne_start_def Let_def job_change_def same_identity_def split: phase.splits option.splits if_splits)
  next
    case (LFinish now err)
    then obtain x where x: "w_phase w = WApplying x" using s by (auto split: phase.splits)
    show ?thesis
    proof (cases "x = i")
      case True
      then show ?thesis using s LFinish x j id [OF j]
        by (cases err) (auto simp: runOne_finish_def Let_def job_change_def same_identity_def)
    next
      case False
      then show ?thesis using s LFinish x j id [of x]
        by (cases err) (auto simp: runOne_finish_def Let_def split: option.splits)
    qed
  next
    case LStop
    then show ?thesis using s j by (auto split: if_splits)
  qed
qed

lemma run_job:
  assumes "run_labels w ls = Some w'" and "reachable w" and "mget (q_jobs (w_queue w)) i = Some j" and "P (j_status j)"
    and keep: "\<And>w l y y'. reachable w \<Longrightarrow> l \<in> set ls \<Longrightarrow> mget (q_jobs (w_queue w)) i = Some y \<Longrightarrow> P (j_status y) \<Longrightarrow>
      job_change w l i y y' \<Longrightarrow> P (j_status y')"
  shows "\<exists>j'. mget (q_jobs (w_queue w')) i = Some j' \<and> same_identity j j' \<and> P (j_status j')"
  using assms(1)
proof (rule run_labels_invariant
    [where P = "\<lambda>w. \<exists>y. mget (q_jobs (w_queue w)) i = Some y \<and> same_identity j y \<and> P (j_status y)"])
  fix w l w1
  assume w: "reachable w" "l \<in> set ls" and ex: "\<exists>y. mget (q_jobs (w_queue w)) i = Some y \<and> same_identity j y \<and> P (j_status y)"
    and s: "worker_step w l = Some w1"
  then obtain y where y: "mget (q_jobs (w_queue w)) i = Some y" "same_identity j y" "P (j_status y)" by blast
  from step_job [OF reachable_inv [OF w(1)] s y(1)] obtain y' where
    y': "mget (q_jobs (w_queue w1)) i = Some y'" "same_identity y y'" "y' = y \<or> job_change w l i y y'" by blast
  moreover have "same_identity j y'" using y(2) y'(2) by (simp add: same_identity_def)
  ultimately show "\<exists>y. mget (q_jobs (w_queue w1)) i = Some y \<and> same_identity j y \<and> P (j_status y)"
    using keep [OF w y(1,3)] y(3) by blast
qed (use assms in auto)

text \<open>Success is final. A job that has succeeded keeps its identity, its path and its status in
  every later state, whatever clients call and however the worker's steps interleave.\<close>

theorem succeeded_is_final:
  assumes "reachable w" and "run_labels w ls = Some w'"
    and "Get i (w_queue w) = Some j" and "j_status j = JobSucceeded"
  shows "\<exists>j'. Get i (w_queue w') = Some j' \<and> same_identity j j' \<and> j_status j' = JobSucceeded"
  unfolding Get_def
proof (rule run_job [OF assms(2,1), where P = "\<lambda>st. st = JobSucceeded"])
  show "mget (q_jobs (w_queue w)) i = Some j" using assms(3) by (simp add: Get_def)
  fix w l y y'
  assume w: "reachable w" and y: "mget (q_jobs (w_queue w)) i = Some y" "j_status y = JobSucceeded"
    and ch: "job_change w l i y y'"
  have "w_phase w \<noteq> WTaken i" "w_phase w \<noteq> WApplying i"
    using sys_invD(3) [OF reachable_inv [OF w] y(1)] y(2) by (auto simp: status_ok_def)
  then show "j_status y' = JobSucceeded"
    using ch y(2) by (auto simp: job_change_def finished_def split: label.splits client_op.splits)
qed (use assms in simp)

definition fails_id :: "string \<Rightarrow> label \<Rightarrow> bool" where
  "fails_id i l \<longleftrightarrow> (case l of LClient (CFail now x reason) \<Rightarrow> TrimSpace x = i | _ \<Rightarrow> False)"

text \<open>A cancelled job is never started again and never reported as succeeded, as long as no
  operator fails it: in every later state its status is still cancelled.\<close>

theorem canceled_stays_canceled:
  assumes "reachable w" and "run_labels w ls = Some w'"
    and "Get i (w_queue w) = Some j" and "j_status j = JobCanceled" and "list_all (\<lambda>l. \<not> fails_id i l) ls"
  shows "\<exists>j'. Get i (w_queue w') = Some j' \<and> same_identity j j' \<and> j_status j' = JobCanceled"
  unfolding Get_def
proof (rule run_job [OF assms(2,1), where P = "\<lambda>st. st = JobCanceled"])
  show "mget (q_jobs (w_queue w)) i = Some j" using assms(3) by (simp add: Get_def)
  fix w l y y'
  assume "l \<in> set ls" "j_status y = JobCanceled" "job_change w l i y y'"
  moreover have "\<not> fails_id i l" using assms(5) calculation(1) by (simp add: list_all_iff)
  ultimately show "j_status y' = JobCanceled"
    by (auto simp: job_change_def fails_id_def split: label.splits client_op.splits)
qed (use assms in simp)

text \<open>The life cycle that a stored job can go through.\<close>

definition may_become :: "job_status \<Rightarrow> job_status \<Rightarrow> bool" where
  "may_become a b \<longleftrightarrow> a = b \<or>
     (case a of
        JobPending \<Rightarrow> b = JobRunning \<or> b = JobCanceled \<or> b = JobFailed
      | JobRunning \<Rightarrow> b = JobSucceeded \<or> b = JobFailed \<or> b = JobCanceled
      | JobFailed \<Rightarrow> b = JobRunning \<or> b = JobSucceeded
      | JobCanceled \<Rightarrow> b = JobFailed
      | JobSucceeded \<Rightarrow> False)"

text \<open>every step of the system moves every stored job along its life cycle and keeps its
  identity: identifier, idempotency key, priority class and configuration path never change, and
  no job disappears.\<close>

theorem step_follows_lifecycle:
  assumes "reachable w" and "worker_step w l = Some w'" and "Get i (w_queue w) = Some j"
  shows "\<exists>j'. Get i (w_queue w') = Some j' \<and> same_identity j j' \<and> may_become (j_status j) (j_status j')"
proof -
  note inv = reachable_inv [OF assms(1)]
  from step_job [OF inv assms(2)] assms(3) obtain j' where
    j': "mget (q_jobs (w_queue w')) i = Some j'" "same_identity j j'" "j' = j \<or> job_change w l i j j'"
    by (auto simp: Get_def)
  have "status_ok (w_queue w) (w_phase w) i (j_status j)"
    using sys_invD(3) [OF inv] assms(3) by (simp add: Get_def)
  then have "may_become (j_status j) (j_status j')"
    using j'(3) by (cases "j_status j")
      (auto simp: job_change_def finished_def may_become_def status_ok_def split: label.splits client_op.splits if_splits)
  with j' show ?thesis by (auto simp: Get_def)
qed

lemma Enqueue_by_key:
  assumes inv: "queue_inv q" and k: "mget (q_by_key q) k = Some i"
  shows "mget (q_by_key (fst (Enqueue now path key force prio q))) k = Some i"
  using inv
proof (cases rule: Enqueue_cases [where key = key and now = now and path = path and force = force and prio = prio])
  case (added n q2)
  have "q_by_key q2 = q_by_key (add_job n q)"
    using added(3) by (auto simp: pushPending_def Let_def split: if_splits)
  moreover have "key \<noteq> [] \<Longrightarrow> key \<noteq> k" using added(2) k by auto
  ultimately show ?thesis using k added(1,4) by (auto simp: publish_def add_job_def new_job_def)
qed (use k in simp_all)

lemma by_key_simps [simp]: "q_by_key (publish j q) = q_by_key q" "q_by_key (dec_running q) = q_by_key q"
  by (simp_all add: publish_def dec_running_def)

lemma fold_publish_by_key [simp]: "q_by_key (fold publish js q) = q_by_key q"
  by (induction js arbitrary: q) simp_all

lemma recover_by_key: "q_by_key (fst (fold (recover_one now m) todo (q, r))) = q_by_key q"
proof (induction todo arbitrary: q r)
  case (Cons x todo)
  obtain q1 r1 where s: "recover_one now m x (q, r) = (q1, r1)" by (cases "recover_one now m x (q, r)")
  moreover have "q_by_key q1 = q_by_key q"
    using s by (cases x) (auto simp: recover_one_def Let_def split: if_splits)
  ultimately show ?case using Cons.IH by simp
qed simp

lemma step_by_key:
  assumes inv: "sys_inv (w_queue w) (w_phase w)" and s: "worker_step w l = Some w'"
    and k: "mget (q_by_key (w_queue w)) k = Some i"
  shows "mget (q_by_key (w_queue w')) k = Some i"
proof (cases l)
  case (LClient op)
  then have "w_queue w' = client_step (w_queue w) op" using s by auto
  then show ?thesis using k Enqueue_by_key [OF sys_invD(1) [OF inv] k]
    by (cases op) (auto simp: Cancel_def FailJob_def SetEmergencyStop_def SetFreezeUntil_def FreezeStatus_def
        SetWorkerLifecyclePolicy_def Pause_def Resume_def RecoverStuckJobs_def recover_by_key Let_def split_beta
        split: option.splits)
next
  case LWorker
  then show ?thesis using s k
    by (auto simp: worker_internal_def probe_def Let_def split: phase.splits if_splits option.splits list.splits)
next
  case (LReceive cls)
  then show ?thesis using s k by (auto simp: receive_def split: if_splits option.splits list.splits)
next
  case (LStart now)
  then show ?thesis using s k
    by (auto simp: runOne_start_def Let_def split: phase.splits option.splits if_splits)
next
  case (LFinish now err)
  then show ?thesis using s k
    by (auto simp: runOne_finish_def Let_def split: phase.splits option.splits if_splits)
next
  case LStop
  then show ?thesis using s k by (auto split: if_splits)
qed

text \<open>C13: idempotency keys are honoured for ever. Once an enqueue with a non-empty key has returned a
  job, every later enqueue with that key, after any interleaving of calls and worker steps, even
  under an emergency stop or a freeze, returns that same job and changes nothing.\<close>

theorem Enqueue_idempotent:
  assumes "reachable w" and "key \<noteq> []"
    and "Enqueue now path key force prio (w_queue w) = (q1, Inr (Some j))"
    and "run_labels (w\<lparr>w_queue := q1\<rparr>) ls = Some w'"
  shows "\<exists>j'. Enqueue now' path' key force' prio' (w_queue w') = (w_queue w', Inr (Some j')) \<and> same_identity j j'"
proof -
  let ?w1 = "w\<lparr>w_queue := q1\<rparr>"
  have q: "queue_inv (w_queue w)" by (rule sys_invD(1) [OF reachable_inv [OF assms(1)]])
  have "worker_step w (LClient (CEnqueue now path key force prio)) = Some ?w1" using assms(3) by simp
  with assms(1) have r: "reachable ?w1" by (rule reachable.step)
  note inv1 = reachable_inv [OF r] and inv' = reachable_inv [OF run_labels_reachable [OF r assms(4)]]
  have first: "mget (q_jobs q1) (j_id j) = Some j \<and> j_key j = key"
    using q
  proof (cases rule: Enqueue_cases [where key = key and now = now and path = path and force = force and prio = prio])
    case (existing i j')
    then show ?thesis using assms(3) job_id [OF q] by auto
  next
    case (added n q2)
    moreover have "q_jobs q2 = q_jobs (add_job n q)" if "pushPending (j_id n) (j_priority n) (add_job n q) = Inr q2" for q
      using that by (auto simp: pushPending_def Let_def split: if_splits)
    ultimately show ?thesis using assms(3) by (auto simp: new_job_def)
  qed (use assms(3) in simp_all)
  then have "mget (q_by_key q1) key = Some (j_id j)"
    using sys_invD(1) [OF inv1] assms(2) by (auto simp: queue_inv_def keys_ok_def)
  then have k: "mget (q_by_key (w_queue w')) key = Some (j_id j)"
    by (intro run_labels_invariant [OF assms(4), where P = "\<lambda>w. mget (q_by_key (w_queue w)) key = Some (j_id j)"])
       (use r in \<open>simp_all, metis step_by_key reachable_inv\<close>)
  have "\<exists>j'. mget (q_jobs (w_queue w')) (j_id j) = Some j' \<and> same_identity j j'"
    using run_job [OF assms(4) r, of "j_id j" j "\<lambda>st. True"] first by auto
  with k assms(2) show ?thesis by (auto simp: Enqueue_def)
qed

text \<open>The identifiers that successive polls of \<^verbatim>\<open>nextPending\<close> hand out.\<close>

fun polls :: "nat \<Rightarrow> queue \<Rightarrow> string list" where
  "polls 0 q = []"
| "polls (Suc n) q = (case poll q of None \<Rightarrow> [] | Some (x, q') \<Rightarrow> x # polls n q')"

text \<open>
  The class \<open>k\<close> places after the round-robin index is served by the next poll, or the index comes
  closer to it.
\<close>

definition class_at :: "queue \<Rightarrow> nat \<Rightarrow> string" where
  "class_at q k = classes ! ((q_rr q + k) mod 3)"

lemma length_classes [simp]: "length classes = 3"
  by (simp add: classes_def)

lemma probe_at:
  "probe k q = (case chan q (class_at q k) of
      [] \<Rightarrow> None
    | x # xs \<Rightarrow> Some (x, (set_chan (class_at q k) xs q)\<lparr>q_rr := ((q_rr q + k) mod 3 + 1) mod 3\<rparr>))"
  unfolding probe_def class_at_def Let_def length_classes by (rule refl)

lemma class_at_mem: "class_at q k \<in> set classes"
  unfolding class_at_def by (rule classes_nth) simp

lemma mod3_distinct:
  assumes "m < k" and "k < 3"
  shows "(r + m) mod 3 \<noteq> (r + k) mod (3::nat)"
proof
  assume "(r + m) mod 3 = (r + k) mod 3"
  then have "3 dvd (r + k) - (r + m)" using assms(1) mod_eq_dvd_iff_nat [of "r + m" "r + k" 3] by simp
  then have "3 dvd k - m" by simp
  with assms show False by (auto dest: dvd_imp_le)
qed

lemma class_at_distinct: "m < k \<Longrightarrow> k < 3 \<Longrightarrow> class_at q k \<noteq> class_at q m"
  unfolding class_at_def using mod3_distinct [of m k "q_rr q"]
  by (subst nth_eq_iff_index_eq) (auto simp: classes_def)

lemma probe_skip:
  assumes p: "probe m q = Some (y, q')" and m: "m < k" and k: "k < 3"
  shows "chan q' (class_at q k) = chan q (class_at q k) \<and> class_at q' (k - m - 1) = class_at q k"
proof -
  from p obtain ys where ys: "chan q (class_at q m) = y # ys"
      "q' = (set_chan (class_at q m) ys q)\<lparr>q_rr := ((q_rr q + m) mod 3 + 1) mod 3\<rparr>"
    by (auto simp: probe_at split: list.splits)
  have "chan q' cls = chan (set_chan (class_at q m) ys q) cls" for cls by (simp add: ys(2) chan_def)
  moreover have "class_at q k \<noteq> class_at q m" using class_at_distinct [OF m k] .
  ultimately have "chan q' (class_at q k) = chan q (class_at q k)"
    by (simp add: chan_set_chan [OF class_at_mem class_at_mem])
  moreover have "(((q_rr q + m) mod 3 + 1) mod 3 + (k - m - 1)) mod 3 = (q_rr q + k) mod 3"
  proof -
    obtain d where d: "k = m + 1 + d" using m by (metis add.commute less_imp_Suc_add plus_1_eq_Suc add.assoc)
    have "(((q_rr q + m) mod 3 + 1) mod 3 + d) mod 3 = ((q_rr q + m) + 1 + d) mod 3" by (simp only: mod_simps)
    also have "(q_rr q + m) + 1 + d = q_rr q + k" by (simp add: d)
    finally show ?thesis by (simp add: d)
  qed
  ultimately show ?thesis by (simp add: class_at_def ys(2))
qed

lemma poll_progress:
  assumes k: "k < 3" and c: "chan q (class_at q k) = x # xs"
  shows "\<exists>y q'. poll q = Some (y, q') \<and>
    (y = x \<or> (\<exists>k' < k. chan q' (class_at q' k') = x # xs))"
proof -
  have hit: "probe k q = Some (x, (set_chan (class_at q k) xs q)\<lparr>q_rr := ((q_rr q + k) mod 3 + 1) mod 3\<rparr>)"
    using c by (simp add: probe_at)
  have skip: "\<exists>k' < k. chan q' (class_at q' k') = x # xs" if "probe m q = Some (y, q')" "m < k" for m y q'
  proof (rule exI [of _ "k - m - 1"])
    show "k - m - 1 < k \<and> chan q' (class_at q' (k - m - 1)) = x # xs"
      using probe_skip [OF that(1,2) k] that(2) c by simp
  qed
  from k consider "k = 0" | "k = 1" | "k = 2" by linarith
  then show ?thesis
    using hit skip [of 0] skip [of 1] by cases (auto simp: poll_def split: option.splits)
qed

lemma polls_reach:
  "k < 3 \<Longrightarrow> chan q (class_at q k) = x # xs \<Longrightarrow> k < n \<Longrightarrow> x \<in> set (polls n q)"
proof (induction n arbitrary: k q)
  case (Suc n)
  from poll_progress [OF Suc.prems(1,2)] obtain y q' where p: "poll q = Some (y, q')"
    and y: "y = x \<or> (\<exists>k' < k. chan q' (class_at q' k') = x # xs)" by blast
  from y show ?case
  proof
    assume "\<exists>k' < k. chan q' (class_at q' k') = x # xs"
    then obtain k' where "k' < k" "chan q' (class_at q' k') = x # xs" by blast
    then have "x \<in> set (polls n q')" using Suc.IH [of k' q'] Suc.prems by simp
    with p show ?thesis by simp
  qed (use p in simp)
qed simp

text \<open>No priority class starves: whichever class is waiting, its oldest job is handed out by one
  of the next three polls, however full the other classes are.\<close>

theorem poll_fair:
  assumes "queue_inv q" and "cls \<in> set classes" and "chan q cls = x # xs"
  shows "x \<in> set (polls 3 q)"
proof -
  from assms(2) obtain n where n: "n < 3" "cls = classes ! n" by (metis in_set_conv_nth length_classes)
  define k where "k = (n + 3 - q_rr q) mod 3"
  have rr: "q_rr q < 3" using assms(1) by (simp add: queue_inv_def chans_ok_def)
  have "(q_rr q + k) mod 3 = (q_rr q + (n + 3 - q_rr q)) mod 3" by (simp add: k_def mod_simps)
  also have "\<dots> = n" using n(1) rr by simp
  finally have "(q_rr q + k) mod 3 = n" .
  then have "class_at q k = cls" by (simp add: class_at_def n(2))
  then show ?thesis using polls_reach [of k q x xs 3] assms(3) by (simp add: k_def)
qed

text \<open>One turn of the loop of the worker, undisturbed: take a job, start it, apply it, finish it.\<close>

definition serve_one :: "(string \<Rightarrow> string option) \<Rightarrow> gotime \<Rightarrow> queue \<Rightarrow> queue" where
  "serve_one exec now q =
     (case poll q of
        None \<Rightarrow> q
      | Some (i, q1) \<Rightarrow>
          (case runOne_start now i q1 of
             None \<Rightarrow> q1
           | Some q2 \<Rightarrow> runOne_finish now i (case mget (q_jobs q2) i of None \<Rightarrow> None | Some j \<Rightarrow> exec (j_path j)) q2))"

definition outcome :: "(string \<Rightarrow> string option) \<Rightarrow> job \<Rightarrow> job_status" where
  "outcome exec j = (if j_status j = JobCanceled then JobCanceled
     else if exec (j_path j) = None then JobSucceeded else JobFailed)"

lemma probe_pop:
  assumes "probe k q = Some (x, q')"
  shows "q_jobs q' = q_jobs q \<and> mset (queued q) = add_mset x (mset (queued q'))"
proof -
  from assms obtain xs where c: "chan q (class_at q k) = x # xs"
      "q' = (set_chan (class_at q k) xs q)\<lparr>q_rr := ((q_rr q + k) mod 3 + 1) mod 3\<rparr>"
    by (auto simp: probe_at split: list.splits)
  then show ?thesis using mset_queued_pop [OF class_at_mem c(1)] by (simp add: queued_def)
qed

lemma poll_probe: "poll q = Some r \<Longrightarrow> \<exists>k. probe k q = Some r"
  by (auto simp: poll_def split: option.splits)

lemma poll_None:
  assumes "poll q = None" and "q_rr q < 3"
  shows "queued q = []"
proof -
  have "chan q (class_at q k) = []" if k: "k < 3" for k
  proof -
    have "k = 0 \<or> k = 1 \<or> k = 2" using k by linarith
    then have "probe k q = None" using assms(1) by (auto simp: poll_def split: option.splits)
    then show ?thesis by (simp add: probe_at split: list.splits)
  qed
  note none = this
  have "chan q (classes ! n) = []" if n: "n < 3" for n
  proof -
    define k where "k = (n + 3 - q_rr q) mod 3"
    have "(q_rr q + k) mod 3 = (q_rr q + (n + 3 - q_rr q)) mod 3" by (simp add: k_def mod_simps)
    also have "\<dots> = n" using n assms(2) by simp
    finally show ?thesis using none [of k] by (simp add: class_at_def k_def)
  qed
  from this [of 0] this [of 1] this [of 2] show ?thesis by (simp add: classes_def chan_def queued_def)
qed

lemma runOne_fields:
  "runOne_start now i q = Some q' \<Longrightarrow> queued q' = queued q"
  "queued (runOne_finish now i err q) = queued q"
  by (auto simp: runOne_start_def runOne_finish_def Let_def queued_def set_job_def publish_def dec_running_def
      split: option.splits if_splits)

lemma serve_one_step:
  assumes inv: "sys_inv q WCheck" and ne: "queued q \<noteq> []"
  shows "\<exists>x. sys_inv (serve_one exec now q) WCheck \<and>
    mset (queued q) = add_mset x (mset (queued (serve_one exec now q))) \<and>
    (\<forall>i. i \<noteq> x \<longrightarrow> mget (q_jobs (serve_one exec now q)) i = mget (q_jobs q) i) \<and>
    (\<exists>j j'. mget (q_jobs q) x = Some j \<and> mget (q_jobs (serve_one exec now q)) x = Some j' \<and>
       j_status j' = outcome exec j)"
proof -
  have "q_rr q < 3" using sys_invD(1) [OF inv] by (simp add: queue_inv_def chans_ok_def)
  with poll_None ne obtain x q1 where p: "poll q = Some (x, q1)" by (cases "poll q") auto
  then obtain k where k: "probe k q = Some (x, q1)" using poll_probe by blast
  have i1: "sys_inv q1 (WTaken x)" by (rule probe_inv [OF inv _ k]) simp
  have pop: "q_jobs q1 = q_jobs q" "mset (queued q) = add_mset x (mset (queued q1))" using probe_pop [OF k] by simp_all
  obtain j where j: "mget (q_jobs q1) x = Some j" using sys_invD(2) [OF i1, of x] by auto
  have id: "j_id j = x" by (rule job_id [OF sys_invD(1) [OF i1] j])
  show ?thesis
  proof (cases "runOne_start now x q1")
    case None
    then have s: "serve_one exec now q = q1" using p by (simp add: serve_one_def)
    have "j_status j = JobCanceled" using None j by (simp add: runOne_start_def Let_def split: if_splits)
    moreover have "sys_inv q1 WCheck" using runOne_start_None [OF i1 None] by simp
    ultimately show ?thesis unfolding s using pop j by (auto simp: outcome_def)
  next
    case (Some q2)
    let ?r = "j\<lparr>j_status := JobRunning, j_started := now\<rparr>"
    have nc: "j_status j \<noteq> JobCanceled" and jobs2: "q_jobs q2 = mput x ?r (q_jobs q1)"
      using Some j id by (auto simp: runOne_start_def Let_def split: if_splits)
    have s: "serve_one exec now q = runOne_finish now x (exec (j_path j)) q2"
      using p Some jobs2 by (simp add: serve_one_def)
    have "sys_inv (runOne_finish now x (exec (j_path j)) q2) WCheck"
      by (rule runOne_finish_inv [OF runOne_start_inv [OF i1 Some]]) simp
    moreover have "mset (queued q) = add_mset x (mset (queued (serve_one exec now q)))"
      using pop(2) runOne_fields Some by (simp add: s)
    moreover have "\<exists>j'. mget (q_jobs (serve_one exec now q)) x = Some j' \<and> j_status j' = outcome exec j"
      using jobs2 nc id by (cases "exec (j_path j)") (simp_all add: s runOne_finish_def Let_def outcome_def)
    moreover have "mget (q_jobs (serve_one exec now q)) i = mget (q_jobs q) i" if "i \<noteq> x" for i
      using jobs2 id that pop(1) by (cases "exec (j_path j)") (simp_all add: s runOne_finish_def Let_def)
    ultimately show ?thesis using j pop(1) by (auto simp: s)
  qed
qed


section \<open>Concrete runs\<close>

definition idle_sys :: wsys where
  "idle_sys = StartWorker (NewQueue 0 2)"

lemma idle_reachable: "reachable idle_sys"
  unfolding idle_sys_def using reachable.start [of 0 2 "[]"] by simp

definition job1 :: string where
  "job1 = ''job-00010101T000000-1''"

definition enq :: "string \<Rightarrow> label" where
  "enq key = LClient (CEnqueue 0 ''site.yml'' key False ''normal'')"

text \<open>The steps that bring the idle worker to the blocking receive, and to a started job.\<close>

definition to_blocked :: "label list" where
  "to_blocked = replicate 6 LWorker"

definition to_running :: "label list" where
  "to_running = [enq ''deploy'', LWorker, LWorker, LWorker, LWorker, LStart 5]"

definition run_from_idle :: "label list \<Rightarrow> wsys" where
  "run_from_idle ls = (case run_labels idle_sys ls of None \<Rightarrow> idle_sys | Some w \<Rightarrow> w)"

lemma run_from_idle_reachable: "reachable (run_from_idle ls)"
  using run_labels_reachable [OF idle_reachable, of ls] idle_reachable
  by (simp add: run_from_idle_def split: option.splits)

definition status_of :: "string \<Rightarrow> wsys \<Rightarrow> job_status option" where
  "status_of i w = map_option j_status (Get i (w_queue w))"

text \<open>pausing does not stop a worker that is already waiting for work. From a reachable state
  there is a run in which the queue is paused, safe-drain then reports that nothing runs, a job is
  enqueued after that, and the worker takes and starts it although the queue is still paused.\<close>

theorem pause_leaks_one_job:
  "\<exists>w w' st ls. reachable w \<and> q_paused (w_queue w) \<and> Get job1 (w_queue w) = None \<and>
     drain_check 0 0 0 (w_queue w) = Some (Inr st) \<and>
     run_labels w ls = Some w' \<and> q_paused (w_queue w') \<and> status_of job1 w' = Some JobRunning"
proof -
  let ?w = "run_from_idle (to_blocked @ [LClient CPause])"
  let ?ls = "[enq [], LReceive ''normal'', LStart 5]"
  have "q_paused (w_queue ?w)" "Get job1 (w_queue ?w) = None"
      "drain_check 0 0 0 (w_queue ?w) = Some (Inr (ControlStatus (w_queue ?w)))"
    by code_simp+
  moreover have "\<exists>w'. run_labels ?w ?ls = Some w' \<and> q_paused (w_queue w') \<and> status_of job1 w' = Some JobRunning"
  proof (rule exI [of _ "run_from_idle (to_blocked @ LClient CPause # ?ls)"], intro conjI)
    show "run_labels ?w ?ls = Some (run_from_idle (to_blocked @ LClient CPause # ?ls))" by code_simp
    show "q_paused (w_queue (run_from_idle (to_blocked @ LClient CPause # ?ls)))" by code_simp
    show "status_of job1 (run_from_idle (to_blocked @ LClient CPause # ?ls)) = Some JobRunning" by code_simp
  qed
  ultimately show ?thesis using run_from_idle_reachable by blast
qed

text \<open>Failing a job that still waits does not take it out of its channel: it is reported as
  failed, and then it is started and can succeed.\<close>

theorem FailJob_pending_runs_later:
  "\<exists>w w' ls. reachable w \<and> status_of job1 w = Some JobFailed \<and>
     run_labels w ls = Some w' \<and> status_of job1 w' = Some JobSucceeded"
proof -
  let ?w = "run_from_idle [enq [], LClient (CFail 1 job1 [])]"
  let ?ls = "[LWorker, LWorker, LWorker, LWorker, LStart 5, LFinish 6 None]"
  have "status_of job1 ?w = Some JobFailed" by code_simp
  moreover have "\<exists>w'. run_labels ?w ?ls = Some w' \<and> status_of job1 w' = Some JobSucceeded"
  proof (rule exI [of _ "run_from_idle ([enq [], LClient (CFail 1 job1 [])] @ ?ls)"], intro conjI)
    show "run_labels ?w ?ls = Some (run_from_idle ([enq [], LClient (CFail 1 job1 [])] @ ?ls))" by code_simp
    show "status_of job1 (run_from_idle ([enq [], LClient (CFail 1 job1 [])] @ ?ls)) = Some JobSucceeded" by code_simp
  qed
  ultimately show ?thesis using run_from_idle_reachable by blast
qed

text \<open>Failing a waiting job while another one runs makes the running counter zero although the
  executor is still at work, so safe-drain returns without error while a job is running.\<close>

theorem safe_drain_misses_running_job:
  "\<exists>w st. reachable w \<and> status_of job1 w = Some JobRunning \<and> w_phase w = WApplying job1 \<and>
     drain_check 0 0 0 (w_queue w) = Some (Inr st)"
proof -
  let ?w = "run_from_idle (to_running @ [enq [], LClient (CFail 6 ''job-00010101T000000-2'' []), LClient CPause])"
  have "status_of job1 ?w = Some JobRunning" "w_phase ?w = WApplying job1"
      "drain_check 0 0 0 (w_queue ?w) = Some (Inr (ControlStatus (w_queue ?w)))"
    by code_simp+
  then show ?thesis using run_from_idle_reachable by blast
qed

section \<open>The emergency stop\<close>

definition calm :: "client_op \<Rightarrow> bool" where
  "calm op \<longleftrightarrow> (case op of CEnqueue now path key force prio \<Rightarrow> \<not> force | CEmergency now active reason \<Rightarrow> active | _ \<Rightarrow> True)"

lemma set_job_keys: "mget (q_jobs q) i = Some j \<Longrightarrow> set (mkeys (mput i j' (q_jobs q))) = set (mkeys (q_jobs q))"
  unfolding set_mkeys_mput by (simp add: insert_absorb set_mkeys domI del: set_map)

lemma recover_keys:
  "set (mkeys todo) \<subseteq> set (mkeys (q_jobs q)) \<Longrightarrow>
     set (mkeys (q_jobs (fst (fold (recover_one now m) todo (q, r))))) = set (mkeys (q_jobs q)) \<and>
     q_emergency (fst (fold (recover_one now m) todo (q, r))) = q_emergency q"
proof (induction todo arbitrary: q r)
  case (Cons ij todo)
  obtain i j where ij: "ij = (i, j)" by (cases ij)
  obtain q1 r1 where s: "recover_one now m (i, j) (q, r) = (q1, r1)" by (cases "recover_one now m (i, j) (q, r)")
  have i: "i \<in> set (mkeys (q_jobs q))" using Cons.prems by (simp add: ij)
  have q1: "set (mkeys (q_jobs q1)) = set (mkeys (q_jobs q))" "q_emergency q1 = q_emergency q"
    using s i by (auto simp: recover_one_def Let_def dec_running_def set_mkeys_mput insert_absorb
        simp del: set_map split: if_splits)
  with Cons.IH [of q1 r1] Cons.prems s show ?case by (simp add: ij del: set_map)
qed simp

lemma emergency_simps [simp]: "q_emergency (publish j q) = q_emergency q" "q_emergency (dec_running q) = q_emergency q"
    "q_emergency (set_job j q) = q_emergency q" "q_emergency (fold publish js q) = q_emergency q"
proof -
  show "q_emergency (fold publish js q) = q_emergency q"
    by (induction js arbitrary: q) (simp_all add: publish_def)
qed (simp_all add: publish_def dec_running_def set_job_def)

lemma calm_step:
  assumes inv: "queue_inv q" and e: "q_emergency q" and c: "calm op"
  shows "q_emergency (client_step q op) \<and> set (mkeys (q_jobs (client_step q op))) = set (mkeys (q_jobs q))"
proof (cases op)
  case (CEnqueue now path key force prio)
  then have "\<not> force" using c by (simp add: calm_def)
  then have "fst (Enqueue now path key force prio q) = q" using e by (simp add: Enqueue_def split: option.splits)
  with CEnqueue e show ?thesis by simp
next
  case (CCancel now i)
  then show ?thesis using e job_id [OF inv]
    by (auto simp: Cancel_def Let_def set_job_keys simp del: set_map split: option.splits)
next
  case (CFail now i reason)
  then show ?thesis using e job_id [OF inv]
    by (auto simp: FailJob_def Let_def set_job_keys simp del: set_map split: option.splits)
next
  case (CRecover now m)
  then show ?thesis using e recover_keys [OF subset_refl]
    by (simp add: RecoverStuckJobs_def Let_def split_beta del: set_map)
qed (use e c in \<open>auto simp: calm_def SetEmergencyStop_def SetFreezeUntil_def FreezeStatus_def
      SetWorkerLifecyclePolicy_def Pause_def Resume_def Let_def\<close>)

text \<open>Under an emergency stop nothing new gets in. Whatever clients call, as long as they neither
  force an enqueue nor lift the stop, the set of stored jobs stays the same, and the stop stays on.\<close>

theorem emergency_admits_nothing:
  assumes "reachable w" and "q_emergency (w_queue w)" and "list_all calm ops"
  shows "q_emergency (foldl client_step (w_queue w) ops) \<and>
    (\<forall>i. (Get i (foldl client_step (w_queue w) ops) = None) = (Get i (w_queue w) = None))"
proof -
  have "q_emergency (foldl client_step q ops) \<and> set (mkeys (q_jobs (foldl client_step q ops))) = set (mkeys (q_jobs q))"
    if "sys_inv q ph" "q_emergency q" for q ph
    using assms(3) that
  proof (induction ops arbitrary: q)
    case (Cons op ops)
    have c: "q_emergency (client_step q op)" "set (mkeys (q_jobs (client_step q op))) = set (mkeys (q_jobs q))"
      using calm_step [OF sys_invD(1) [OF Cons.prems(2)] Cons.prems(3)] Cons.prems(1) by simp_all
    from Cons.IH [OF _ clients.step_inv [OF Cons.prems(2)] c(1)] Cons.prems(1) c(2) show ?case by simp
  qed simp
  from this [OF reachable_inv [OF assms(1)] assms(2)] show ?thesis
    unfolding Get_def set_mkeys by blast
qed

theorem emergency_admits_nothing_witness:
  "Get job1 (foldl client_step (w_queue (run_from_idle [LClient (CEmergency 1 True ''fire'')]))
     [CEnqueue 2 ''site.yml'' [] False ''high'', CPause]) = None"
proof -
  let ?w = "run_from_idle [LClient (CEmergency 1 True ''fire'')]"
  have "q_emergency (w_queue ?w)" "Get job1 (w_queue ?w) = None" by code_simp+
  with emergency_admits_nothing [OF run_from_idle_reachable, of "[LClient (CEmergency 1 True ''fire'')]"
      "[CEnqueue 2 ''site.yml'' [] False ''high'', CPause]"]
  show ?thesis by (simp add: calm_def)
qed

section \<open>The properties on concrete runs\<close>

definition done_sys :: wsys where
  "done_sys = run_from_idle (to_running @ [LFinish 6 None])"

theorem queue_system_safe_witness: "q_running (w_queue done_sys) \<le> 1 \<and> status_of job1 done_sys = Some JobSucceeded"
proof -
  have "status_of job1 done_sys = Some JobSucceeded" by code_simp
  moreover have "reachable done_sys" unfolding done_sys_def by (rule run_from_idle_reachable)
  ultimately show ?thesis using queue_system_safe by blast
qed

theorem succeeded_is_final_witness:
  "\<exists>w' j j'. run_labels done_sys [LClient (CCancel 7 job1), LClient (CFail 8 job1 [])] = Some w' \<and>
     Get job1 (w_queue w') = Some j' \<and> same_identity j j' \<and> j_status j' = JobSucceeded"
proof -
  have r: "reachable done_sys" unfolding done_sys_def by (rule run_from_idle_reachable)
  have "status_of job1 done_sys = Some JobSucceeded" by code_simp
  then obtain j where j: "Get job1 (w_queue done_sys) = Some j" "j_status j = JobSucceeded"
    by (auto simp: status_of_def)
  obtain w' where w: "run_labels done_sys [LClient (CCancel 7 job1), LClient (CFail 8 job1 [])] = Some w'" by simp
  show ?thesis using succeeded_is_final [OF r w j] w by blast
qed

definition canceled_sys :: wsys where
  "canceled_sys = run_from_idle [enq ''deploy'', LClient (CCancel 1 job1)]"

theorem canceled_stays_canceled_witness:
  "\<exists>w'. run_labels canceled_sys [LWorker, LWorker, LWorker, LWorker, LStart 5] = Some w' \<and>
     status_of job1 w' = Some JobCanceled"
proof -
  let ?ls = "[LWorker, LWorker, LWorker, LWorker, LStart 5]"
  have r: "reachable canceled_sys" unfolding canceled_sys_def by (rule run_from_idle_reachable)
  have "status_of job1 canceled_sys = Some JobCanceled" by code_simp
  then obtain j where j: "Get job1 (w_queue canceled_sys) = Some j" "j_status j = JobCanceled"
    by (auto simp: status_of_def)
  have "run_labels canceled_sys ?ls \<noteq> None" by code_simp
  then obtain w' where w: "run_labels canceled_sys ?ls = Some w'" by blast
  have "list_all (\<lambda>l. \<not> fails_id job1 l) ?ls" by (simp add: fails_id_def)
  from canceled_stays_canceled [OF r w j this] w show ?thesis by (auto simp: status_of_def)
qed

theorem step_follows_lifecycle_witness:
  "\<exists>w' (j :: job) j'. worker_step (run_from_idle to_running) (LFinish 6 (Some ''boom'')) = Some w' \<and>
     Get job1 (w_queue w') = Some j' \<and> may_become (j_status j) (j_status j')"
proof -
  have "worker_step (run_from_idle to_running) (LFinish 6 (Some ''boom'')) \<noteq> None" by code_simp
  then obtain w' where w: "worker_step (run_from_idle to_running) (LFinish 6 (Some ''boom'')) = Some w'" by blast
  have "Get job1 (w_queue (run_from_idle to_running)) \<noteq> None" by code_simp
  then obtain j where "Get job1 (w_queue (run_from_idle to_running)) = Some j" by blast
  from step_follows_lifecycle [OF run_from_idle_reachable w this] obtain j'
    where "Get job1 (w_queue w') = Some j'" "may_become (j_status j) (j_status j')" by (elim exE conjE)
  with w show ?thesis by (intro exI conjI)
qed

theorem Enqueue_idempotent_witness:
  "\<exists>q1 j j' w'. Enqueue 0 ''site.yml'' ''deploy'' False ''normal'' (w_queue idle_sys) = (q1, Inr (Some j)) \<and>
     run_labels (idle_sys\<lparr>w_queue := q1\<rparr>) [LClient (CEmergency 1 True [])] = Some w' \<and>
     Enqueue 9 ''other.yml'' ''deploy'' False ''high'' (w_queue w') = (w_queue w', Inr (Some j'))"
proof -
  have "\<exists>j. snd (Enqueue 0 ''site.yml'' ''deploy'' False ''normal'' (w_queue idle_sys)) = Inr (Some j)"
    by (rule exI [of _ "new_job 0 ''site.yml'' ''deploy'' ''normal'' (w_queue idle_sys)"]) code_simp
  then obtain q1 j where e: "Enqueue 0 ''site.yml'' ''deploy'' False ''normal'' (w_queue idle_sys) = (q1, Inr (Some j))"
    by (cases "Enqueue 0 ''site.yml'' ''deploy'' False ''normal'' (w_queue idle_sys)") auto
  obtain w' where w: "run_labels (idle_sys\<lparr>w_queue := q1\<rparr>) [LClient (CEmergency 1 True [])] = Some w'" by simp
  from Enqueue_idempotent [OF idle_reachable _ e w] show ?thesis using e w by fastforce
qed

definition three_queue :: queue where
  "three_queue = foldl client_step (NewQueue 0 2)
     [CEnqueue 0 ''a'' [] False ''low'', CEnqueue 0 ''b'' [] False ''high'', CEnqueue 0 ''c'' [] False []]"

lemma three_inv: "sys_inv three_queue WBegin"
  unfolding three_queue_def by (rule clients.run_inv) (simp add: NewQueue_inv)

theorem poll_fair_witness: "job1 \<in> set (polls 3 three_queue)"
proof -
  have "chan three_queue ''low'' = [job1]" by code_simp
  then show ?thesis
    by (intro poll_fair [OF sys_invD(1) [OF three_inv], of "''low''"]) (simp_all add: classes_def)
qed


end
