(* ===== verification/JobService.thy ===== *)
theory JobService
  imports QueueSystem
begin

text \<open>
  The queue as the orchestrators of the control plane see it. \<open>job_service\<close> is the contract: a job is
  submitted under a key, a key keeps its job for ever, and the set of jobs that have been published as
  succeeded only grows, whatever the worker and the other clients do. It is interpreted on the queue
  with its worker; the workflow engine relies on nothing else.
\<close>

locale job_service =
  fixes valid :: "'s \<Rightarrow> bool" and evolves :: "'s \<Rightarrow> 's \<Rightarrow> bool"
    and submit :: "'r \<Rightarrow> string \<Rightarrow> 's \<Rightarrow> 's \<times> string result"
    and key_job :: "string \<Rightarrow> 's \<Rightarrow> string option" and succeeded :: "'s \<Rightarrow> string set"
  assumes valid_step: "valid s \<Longrightarrow> evolves s s' \<Longrightarrow> valid s'"
    and key_step: "valid s \<Longrightarrow> evolves s s' \<Longrightarrow> key_job k s = Some i \<Longrightarrow> key_job k s' = Some i"
    and succeeded_step: "evolves s s' \<Longrightarrow> succeeded s \<subseteq> succeeded s'"
    and submit_evolves: "submit r k s = (s', res) \<Longrightarrow> evolves s s'"
    and submit_key: "valid s \<Longrightarrow> k \<noteq> [] \<Longrightarrow> submit r k s = (s', Inr i) \<Longrightarrow> key_job k s' = Some i \<and> i \<noteq> []"
begin

lemma runs_keep:
  assumes "evolves\<^sup>*\<^sup>* s s'" "valid s"
  shows "valid s' \<and> (key_job k s = Some i \<longrightarrow> key_job k s' = Some i) \<and> succeeded s \<subseteq> succeeded s'"
  using assms
proof (induction rule: rtranclp_induct)
  case (step y z)
  then show ?case using valid_step [of y z] key_step [of y z k i] succeeded_step [of y z] by auto
qed simp

text \<open>However often a key is submitted, and whatever happens in between, it names one job.\<close>

lemma one_job_per_key:
  assumes "valid s" "k \<noteq> []" "submit r k s = (s1, Inr i)" "evolves\<^sup>*\<^sup>* s1 s2" "submit r' k s2 = (s3, Inr j)"
  shows "i = j"
proof -
  have v1: "valid s1" using valid_step [OF assms(1) submit_evolves [OF assms(3)]] .
  have "key_job k s1 = Some i" using submit_key [OF assms(1-3)] by simp
  then have "valid s2 \<and> key_job k s2 = Some i" using runs_keep [OF assms(4) v1, of k i] by simp
  then have "key_job k s3 = Some i" "key_job k s3 = Some j"
    using key_step [of s2 s3 k i] submit_evolves [OF assms(5)] submit_key [OF _ assms(2,5)] by auto
  then show ?thesis by simp
qed

end

section \<open>The queue with its worker\<close>

definition queue_evolves :: "wsys \<Rightarrow> wsys \<Rightarrow> bool" where
  "queue_evolves w w' \<longleftrightarrow> (\<exists>l. worker_step w l = Some w')"

record submission =
  su_now :: gotime
  su_path :: string
  su_force :: bool
  su_priority :: string

text \<open>The identifier of the job that an enqueue returns; the nil job of its last branch does not occur
  (\<open>keys_ok\<close>), the caller would panic on it.\<close>

definition submit_job :: "submission \<Rightarrow> string \<Rightarrow> wsys \<Rightarrow> wsys \<times> string result" where
  "submit_job r key w =
     (case Enqueue (su_now r) (su_path r) key (su_force r) (su_priority r) (w_queue w) of
        (q, Inl e) \<Rightarrow> (w\<lparr>w_queue := q\<rparr>, Inl e)
      | (q, Inr (Some j)) \<Rightarrow> (w\<lparr>w_queue := q\<rparr>, Inr (j_id j))
      | (q, Inr None) \<Rightarrow> (w\<lparr>w_queue := q\<rparr>, Inl ''nil job''))"

definition job_of_key :: "string \<Rightarrow> wsys \<Rightarrow> string option" where
  "job_of_key k w = mget (q_by_key (w_queue w)) k"

definition succeeded_jobs :: "wsys \<Rightarrow> string set" where
  "succeeded_jobs w = set (map j_id (filter (\<lambda>j. j_status j = JobSucceeded) (q_published (w_queue w))))"

lemma submit_is_step:
  assumes "submit_job r k w = (w', res)"
  shows "worker_step w (LClient (CEnqueue (su_now r) (su_path r) k (su_force r) (su_priority r))) = Some w'"
  using assms by (auto simp: submit_job_def split: prod.splits sum.splits option.splits)

lemma fold_publish_published: "q_published (fold publish js q) = q_published q @ js"
  by (induction js arbitrary: q) (simp_all add: publish_def)

lemma recover_published: "q_published (fst (fold (recover_one now m) todo (q, r))) = q_published q"
proof (induction todo arbitrary: q r)
  case (Cons x todo)
  obtain q1 r1 where s: "recover_one now m x (q, r) = (q1, r1)" by (cases "recover_one now m x (q, r)")
  moreover have "q_published q1 = q_published q"
    using s by (cases x) (auto simp: recover_one_def dec_running_def Let_def split: if_splits)
  ultimately show ?case using Cons.IH by simp
qed simp

lemma published_fields [simp]:
  "q_published (publish j q) = q_published q @ [j]" "q_published (dec_running q) = q_published q"
  "q_published (set_job j q) = q_published q" "q_published (set_chan cls ids q) = q_published q"
  by (simp_all add: publish_def dec_running_def set_job_def set_chan_def)

lemma Enqueue_published: "set (q_published q) \<subseteq> set (q_published (fst (Enqueue now path key force prio q)))"
proof -
  define j where "j = new_job now path key prio q"
  have add: "q_published (add_job j q) = q_published q" by (simp add: add_job_def)
  have push: "q_published q2 = q_published q" if "pushPending (j_id j) (j_priority j) (add_job j q) = Inr q2" for q2
    using that by (auto simp: pushPending_def add Let_def split: if_splits)
  show ?thesis unfolding Enqueue_def Let_def j_def [symmetric] using add push by (auto split: option.split sum.split)
qed

lemma client_step_published: "set (q_published q) \<subseteq> set (q_published (client_step q op))"
  using Enqueue_published
  by (cases op) (auto simp: Cancel_def FailJob_def SetEmergencyStop_def SetFreezeUntil_def FreezeStatus_def
      SetWorkerLifecyclePolicy_def Pause_def Resume_def RecoverStuckJobs_def fold_publish_published recover_published Let_def split_beta
      split: option.splits)

lemma step_published:
  assumes "worker_step w l = Some w'"
  shows "set (q_published (w_queue w)) \<subseteq> set (q_published (w_queue w'))"
proof (cases l)
  case (LClient op)
  then show ?thesis using assms client_step_published [of "w_queue w" op] by auto
next
  case LWorker
  then show ?thesis using assms
    by (auto simp: worker_internal_def probe_def Let_def split: phase.splits if_splits option.splits list.splits)
next
  case (LReceive cls)
  then show ?thesis using assms by (auto simp: receive_def split: if_splits option.splits list.splits)
next
  case (LStart now)
  then show ?thesis using assms by (auto simp: runOne_start_def Let_def split: phase.splits option.splits if_splits)
next
  case (LFinish now err)
  then show ?thesis using assms by (auto simp: runOne_finish_def Let_def split: phase.splits option.splits if_splits)
next
  case LStop
  then show ?thesis using assms by (auto split: if_splits)
qed

lemma enqueued_key:
  assumes inv: "queue_inv q" and key: "key \<noteq> []" and e: "Enqueue now path key force prio q = (q1, Inr (Some j))" and inv1: "queue_inv q1"
  shows "mget (q_by_key q1) key = Some (j_id j) \<and> j_id j \<noteq> []"
proof -
  have "mget (q_jobs q1) (j_id j) = Some j \<and> j_key j = key"
    using inv
  proof (cases rule: Enqueue_cases [where key = key and now = now and path = path and force = force and prio = prio])
    case (existing i j')
    then show ?thesis using e job_id [OF inv] by auto
  next
    case (added n q2)
    moreover have "q_jobs q2 = q_jobs (add_job n q)" if "pushPending (j_id n) (j_priority n) (add_job n q) = Inr q2" for q
      using that by (auto simp: pushPending_def Let_def split: if_splits)
    ultimately show ?thesis using e by (auto simp: new_job_def)
  qed (use e in simp_all)
  moreover have "i \<noteq> []" if "mget (q_jobs q1) i = Some j" for i j
    using inv1 that stamped_nonempty unfolding queue_inv_def jobs_ok_def stamps_below_def by (metis domI)
  ultimately show ?thesis using inv1 key unfolding queue_inv_def keys_ok_def by blast
qed

interpretation queue: job_service reachable queue_evolves submit_job job_of_key succeeded_jobs
proof
  fix w w' :: wsys
  assume w: "reachable w" and "queue_evolves w w'"
  then obtain l where l: "worker_step w l = Some w'" by (auto simp: queue_evolves_def)
  then show "reachable w'" using w by (rule reachable.step [rotated])
  show "job_of_key k w' = Some i" if "job_of_key k w = Some i" for k i
    using step_by_key [OF reachable_inv [OF w] l] that by (simp add: job_of_key_def)
next
  fix w w' :: wsys
  assume "queue_evolves w w'"
  then show "succeeded_jobs w \<subseteq> succeeded_jobs w'"
    using step_published by (fastforce simp: queue_evolves_def succeeded_jobs_def)
next
  fix r k w w' and res :: "string result"
  assume s: "submit_job r k w = (w', res)"
  show "queue_evolves w w'" unfolding queue_evolves_def by (rule exI, rule submit_is_step [OF s])
next
  fix r k w w' i
  assume w: "reachable w" and k: "k \<noteq> []" and s: "submit_job r k w = (w', Inr i)"
  obtain q j where q: "Enqueue (su_now r) (su_path r) k (su_force r) (su_priority r) (w_queue w) = (q, Inr (Some j))" "i = j_id j" "w' = w\<lparr>w_queue := q\<rparr>"
    using s by (auto simp: submit_job_def split: prod.splits sum.splits option.splits)
  have "reachable w'" using w submit_is_step [OF s] by (rule reachable.step)
  then have "queue_inv q" using sys_invD(1) [OF reachable_inv] q(3) by fastforce
  then show "job_of_key k w' = Some i \<and> i \<noteq> []"
    using enqueued_key [OF sys_invD(1) [OF reachable_inv [OF w]] k q(1)] q(2,3) by (simp add: job_of_key_def)
qed

end
