(* ===== verification/Templates.thy ===== *)
theory Templates
  imports Stores GoOS
begin

text \<open>
  Run templates (internal/control/templates.go): the store, the check of survey answers, and the
  rendering of a text with variables. The regular expression of \<^verbatim>\<open>templateVariablePattern\<close> is
  spelled out in \<open>match_at\<close>: two braces, at least one character other than a brace, two braces; the
  blanks that it leaves out of its group are those that \<^verbatim>\<open>TrimSpace\<close> removes afterwards.
\<close>

record survey_field =
  sf_type :: string
  sf_required :: bool
  sf_enum :: "string list"

record run_template =
  tp_id :: string
  tp_name :: string
  tp_description :: string
  tp_path :: string
  tp_strict :: bool
  tp_defaults :: "string gomap"
  tp_survey :: "survey_field gomap"
  tp_created :: gotime

record template_store =
  ts_next :: int
  ts_templates :: "run_template gomap"

definition NewTemplateStore :: template_store where
  "NewTemplateStore = \<lparr>ts_next = 0, ts_templates = []\<rparr>"

definition Create_template :: "gotime \<Rightarrow> run_template \<Rightarrow> template_store \<Rightarrow> template_store \<times> run_template" where
  "Create_template now t s =
     (let t = t\<lparr>tp_id := seq_id ''tpl-'' (ts_next s + 1), tp_created := now\<rparr>
      in (s\<lparr>ts_next := ts_next s + 1, ts_templates := mput (tp_id t) t (ts_templates s)\<rparr>, t))"

definition List_templates :: "template_store \<Rightarrow> run_template list" where
  "List_templates s = map snd (ts_templates s)"

definition Get_template :: "string \<Rightarrow> template_store \<Rightarrow> run_template option" where
  "Get_template i s = mget (ts_templates s) i"

definition Delete_template :: "string \<Rightarrow> template_store \<Rightarrow> template_store \<times> unit result" where
  "Delete_template i s =
     (if mget (ts_templates s) i = None then (s, Inl ''template not found'')
      else (s\<lparr>ts_templates := mdel i (ts_templates s)\<rparr>, Inr ()))"

datatype template_op = TCreate gotime run_template | TDelete string

fun template_step :: "template_store \<Rightarrow> template_op \<Rightarrow> template_store" where
  "template_step s (TCreate now t) = fst (Create_template now t s)"
| "template_step s (TDelete i) = fst (Delete_template i s)"

lemma template_keys: "keys_step ''tpl-'' (ts_next s) (ts_templates s) (ts_next (template_step s op)) (ts_templates (template_step s op))"
  by (cases op) (simp_all add: Create_template_def Delete_template_def Let_def)

interpretation templates: counter_store template_step "store_inv ts_templates ts_next ''tpl-''" ts_templates ts_next "''tpl-''"
  by unfold_locales (auto intro: store_inv_step [where items = ts_templates and counter = ts_next] template_keys)

section \<open>Survey answers\<close>

text \<open>\<^verbatim>\<open>strconv.Atoi\<close> accepts a sign and decimal digits within the 64-bit range.\<close>

definition go_Atoi :: "string \<Rightarrow> int option" where
  "go_Atoi s =
     (let neg = HasPrefix s ''-''; body = (if neg \<or> HasPrefix s ''+'' then tl s else s); n = parse_digits 0 body;
          v = (if neg then - n else n)
      in if body \<noteq> [] \<and> list_all is_digit body \<and> - (2 ^ 63) \<le> v \<and> v < 2 ^ 63 then Some v else None)"

definition go_ParseBool :: "string \<Rightarrow> bool option" where
  "go_ParseBool s =
     (if s \<in> {''1'', ''t'', ''T'', ''TRUE'', ''true'', ''True''} then Some True
      else if s \<in> {''0'', ''f'', ''F'', ''FALSE'', ''false'', ''False''} then Some False else None)"

definition check_answer :: "string \<Rightarrow> survey_field \<Rightarrow> string option \<Rightarrow> string option" where
  "check_answer field f answer =
     (let raw = TrimSpace (case answer of None \<Rightarrow> [] | Some v \<Rightarrow> v); t = lower_trim (sf_type f)
      in if raw = [] then (if sf_required f then Some (''missing required survey field: '' @ field) else None)
         else if t \<in> {''int'', ''integer''} \<and> go_Atoi raw = None then Some (''invalid integer value for '' @ field)
         else if t \<in> {''bool'', ''boolean''} \<and> go_ParseBool raw = None then Some (''invalid boolean value for '' @ field)
         else if t \<notin> {[], ''string'', ''int'', ''integer'', ''bool'', ''boolean''}
           then Some (''unsupported survey field type for '' @ field @ '': '' @ sf_type f)
         else if sf_enum f \<noteq> [] \<and> raw \<notin> set (sf_enum f)
           then Some (''invalid value for '' @ field @ '': must be one of ['' @ Join (sf_enum f) '' '' @ '']'')
         else None)"

fun first_problem :: "('a \<Rightarrow> string option) \<Rightarrow> 'a list \<Rightarrow> string option" where
  "first_problem f [] = None"
| "first_problem f (x # xs) = (case f x of Some e \<Rightarrow> Some e | None \<Rightarrow> first_problem f xs)"

text \<open>The two loops over maps visit their entries in the order of the lists.\<close>

definition ValidateSurveyAnswers :: "survey_field gomap \<Rightarrow> string gomap \<Rightarrow> string option" where
  "ValidateSurveyAnswers schema answers =
     (if schema = [] then None
      else case first_problem (\<lambda>k. if mget schema k = None then Some (''unknown survey answer field: '' @ k) else None) (mkeys answers) of
        Some e \<Rightarrow> Some e
      | None \<Rightarrow> first_problem (\<lambda>(field, f). check_answer field f (mget answers field)) schema)"

definition merge_into :: "string gomap \<Rightarrow> string gomap \<Rightarrow> string gomap" where
  "merge_into src out = fold (\<lambda>(k, v) out. if TrimSpace k = [] then out else mput (TrimSpace k) v out) src out"

definition MergeTemplateVariables :: "string gomap \<Rightarrow> string gomap \<Rightarrow> string gomap" where
  "MergeTemplateVariables defaults answers = merge_into answers (merge_into defaults [])"

section \<open>Expressions\<close>

definition unquoteTemplateLiteral :: "string \<Rightarrow> string option" where
  "unquoteTemplateLiteral token =
     (if length token < 2 then None
      else if (hd token = CHR 0x22 \<and> last token = CHR 0x22) \<or> (hd token = CHR 0x27 \<and> last token = CHR 0x27)
        then Some (butlast (tl token))
      else None)"

text \<open>The value, the unresolved names, and whether the operand was resolved.\<close>

definition resolveTemplateOperand :: "string \<Rightarrow> string gomap \<Rightarrow> string \<times> string list \<times> bool" where
  "resolveTemplateOperand token vars =
     (let token = TrimSpace token
      in if token = [] then ([], [], False)
         else case unquoteTemplateLiteral token of
           Some v \<Rightarrow> (v, [], True)
         | None \<Rightarrow> (case mget vars token of Some v \<Rightarrow> (v, [], True) | None \<Rightarrow> ([], [token], False)))"

definition add_field :: "string \<Rightarrow> string list \<Rightarrow> string list" where
  "add_field cur words = (if cur = [] then words else words @ [cur])"

fun split_loop :: "string \<Rightarrow> char option \<Rightarrow> string \<Rightarrow> string list \<Rightarrow> string list" where
  "split_loop [] quote cur words = add_field cur words"
| "split_loop (c # cs) (Some q) cur words = split_loop cs (if c = q then None else Some q) (cur @ [c]) words"
| "split_loop (c # cs) None cur words =
     (if c = CHR 0x22 \<or> c = CHR 0x27 then split_loop cs (Some c) (cur @ [c]) words
      else if c = CHR 0x20 \<or> c = CHR 0x09 \<or> c = CHR 0x0A \<or> c = CHR 0x0D then split_loop cs None [] (add_field cur words)
      else split_loop cs None (cur @ [c]) words)"

definition splitTemplateExpression :: "string \<Rightarrow> string list" where
  "splitTemplateExpression expr = split_loop (TrimSpace expr) None [] []"

fun upper_char :: "char \<Rightarrow> char" where
  "upper_char c = (if CHR ''a'' \<le> c \<and> c \<le> CHR ''z'' then char_of (of_char c - 32 :: nat) else c)"

definition ToUpper :: "string \<Rightarrow> string" where
  "ToUpper s = map upper_char s"

definition unary :: "(string \<Rightarrow> string) \<Rightarrow> string list \<Rightarrow> string gomap \<Rightarrow> string \<times> string list \<times> bool" where
  "unary f words vars =
     (if length words \<noteq> 2 then ([], [], False)
      else case resolveTemplateOperand (words ! 1) vars of
        (v, missing, ok) \<Rightarrow> if ok then (f v, [], True) else ([], missing, True))"

text \<open>The value, the unresolved names, and whether the expression has a known form.\<close>

definition renderTemplateExpression :: "string \<Rightarrow> string gomap \<Rightarrow> string \<times> string list \<times> bool" where
  "renderTemplateExpression expr vars =
     (let words = splitTemplateExpression expr
      in if words = [] then ([], [], False)
         else
           let op = ToLower (hd words)
           in if op = ''upper'' then unary ToUpper words vars
              else if op = ''lower'' then unary ToLower words vars
              else if op = ''trim'' then unary TrimSpace words vars
              else if op = ''default''
                then if length words \<noteq> 3 then ([], [], False)
                     else (case resolveTemplateOperand (words ! 1) vars of
                             (fallback, _, fallbackOK) \<Rightarrow>
                               (case resolveTemplateOperand (words ! 2) vars of
                                  (current, missing, currentOK) \<Rightarrow>
                                    if currentOK \<and> TrimSpace current \<noteq> [] then (current, [], True)
                                    else if fallbackOK then (fallback, missing, True)
                                    else ([], missing, True)))
              else if length words \<noteq> 1 then ([], [], False)
              else (case resolveTemplateOperand (hd words) vars of
                      (v, missing, ok) \<Rightarrow> if ok then (v, [], True) else ([], missing, True)))"

section \<open>Rendering\<close>

definition not_brace :: "char \<Rightarrow> bool" where
  "not_brace c \<longleftrightarrow> c \<noteq> CHR ''{'' \<and> c \<noteq> CHR ''}''"

text \<open>The body of a match that starts at the head of the text, and the text after it.\<close>

definition match_at :: "string \<Rightarrow> (string \<times> string) option" where
  "match_at s =
     (if \<not> HasPrefix s ''{{'' then None
      else let body = takeWhile not_brace (drop 2 s); rest = dropWhile not_brace (drop 2 s)
           in if body \<noteq> [] \<and> HasPrefix rest ''}}'' then Some (body, drop 2 rest) else None)"

lemma match_at_shorter: "match_at s = Some (body, rest) \<Longrightarrow> length rest < length s"
  using length_dropWhile_le [of not_brace "drop 2 s"]
  by (cases s) (auto simp: match_at_def Let_def split: if_splits)

definition token_of :: "string \<Rightarrow> string" where
  "token_of body = ''{{'' @ body @ ''}}''"

text \<open>The replacement of one token, and the names it leaves unresolved.\<close>

definition render_token :: "string gomap \<Rightarrow> bool \<Rightarrow> string \<Rightarrow> string \<times> string list" where
  "render_token vars strict body =
     (case renderTemplateExpression (TrimSpace body) vars of
        (v, unresolved, handled) \<Rightarrow>
          (if \<not> handled then (if strict then token_of body else [])
           else if unresolved \<noteq> [] \<and> strict then token_of body else v, unresolved))"

function render_loop :: "string gomap \<Rightarrow> bool \<Rightarrow> string \<Rightarrow> string \<times> string list" where
  "render_loop vars strict s =
     (case match_at s of
        Some (body, rest) \<Rightarrow>
          (case render_token vars strict body of (v, ms) \<Rightarrow>
             (case render_loop vars strict rest of (out, ms') \<Rightarrow> (v @ out, ms @ ms')))
      | None \<Rightarrow> (case s of [] \<Rightarrow> ([], []) | c # cs \<Rightarrow> (case render_loop vars strict cs of (out, ms) \<Rightarrow> (c # out, ms))))"
  by pat_completeness auto
termination
  by (relation "measure (\<lambda>(_, _, s). length s)") (auto simp: match_at_shorter)

declare render_loop.simps [simp del]

definition RenderTemplateText :: "string \<Rightarrow> string gomap \<Rightarrow> bool \<Rightarrow> string \<times> string list" where
  "RenderTemplateText template vars strict =
     (case render_loop vars strict template of (out, ms) \<Rightarrow> (out, sort (remdups ms)))"

definition RenderTemplateFile :: "machine \<Rightarrow> string \<Rightarrow> string gomap \<Rightarrow> bool \<Rightarrow> (string \<times> string list) result" where
  "RenderTemplateFile m path vars strict =
     (let path = TrimSpace path
      in if path = [] then Inl ''config_path is required''
         else case os_ReadFile m path of
           Inl e \<Rightarrow> Inl e
         | Inr body \<Rightarrow>
             (case RenderTemplateText body vars strict of
                (rendered, missing) \<Rightarrow>
                  if strict \<and> missing \<noteq> [] then Inl (''undefined template variables: '' @ Join missing '', '')
                  else Inr (rendered, missing)))"

section \<open>What rendering does\<close>

lemma match_at_other: "c \<noteq> CHR ''{'' \<Longrightarrow> match_at (c # cs) = None"
  by (simp add: match_at_def HasPrefix_def)

lemma render_plain:
  "CHR ''{'' \<notin> set p \<Longrightarrow> render_loop vars strict (p @ s) = (p @ fst (render_loop vars strict s), snd (render_loop vars strict s))"
proof (induction p)
  case (Cons c p)
  then have "match_at (c # p @ s) = None" by (intro match_at_other) auto
  then show ?case using Cons by (subst render_loop.simps) simp
qed simp

lemma render_Nil: "render_loop vars strict [] = ([], [])"
  by (subst render_loop.simps) (simp add: match_at_def HasPrefix_def)

definition body_ok :: "string \<Rightarrow> bool" where
  "body_ok b \<longleftrightarrow> b \<noteq> [] \<and> list_all not_brace b"

lemma match_token: "body_ok b \<Longrightarrow> match_at (token_of b @ rest) = Some (b, rest)"
  by (simp add: match_at_def token_of_def HasPrefix_def body_ok_def not_brace_def takeWhile_append list_all_iff Let_def)

lemma render_token_step:
  "body_ok b \<Longrightarrow> render_loop vars strict (token_of b @ rest) =
     (fst (render_token vars strict b) @ fst (render_loop vars strict rest),
      snd (render_token vars strict b) @ snd (render_loop vars strict rest))"
  by (subst render_loop.simps) (simp add: match_token split: prod.split)

text \<open>A text as its plain pieces and the tokens that follow them.\<close>

type_synonym piece = "string \<times> string"

definition assemble :: "(string \<Rightarrow> string) \<Rightarrow> piece list \<Rightarrow> string \<Rightarrow> string" where
  "assemble f ps rest = concat (map (\<lambda>(p, b). p @ f b) ps) @ rest"

definition unresolved_names :: "string gomap \<Rightarrow> string \<Rightarrow> string list" where
  "unresolved_names vars b = fst (snd (renderTemplateExpression (TrimSpace b) vars))"

lemma render_token_snd: "snd (render_token vars strict b) = unresolved_names vars b"
  by (simp add: render_token_def unresolved_names_def split: prod.split)

lemma render_assemble:
  assumes "\<forall>(p, b) \<in> set ps. CHR ''{'' \<notin> set p \<and> body_ok b" and "CHR ''{'' \<notin> set rest"
  shows "render_loop vars strict (assemble token_of ps rest) =
    (assemble (\<lambda>b. fst (render_token vars strict b)) ps rest, concat (map (unresolved_names vars \<circ> snd) ps))"
  using assms(1)
proof (induction ps)
  case Nil
  then show ?case using render_plain [OF assms(2), of vars strict "[]"] by (simp add: assemble_def render_Nil)
next
  case (Cons x ps)
  obtain p b where x: "x = (p, b)" by (cases x)
  have ok: "CHR ''{'' \<notin> set p" "body_ok b" using Cons.prems by (simp_all add: x)
  have "assemble token_of (x # ps) rest = p @ token_of b @ assemble token_of ps rest" by (simp add: assemble_def x)
  then show ?case using Cons render_plain [OF ok(1)] render_token_step [OF ok(2)]
    by (simp add: x render_token_snd) (simp add: assemble_def)
qed

text \<open>rendering replaces exactly the tokens and nothing else. For every text made of pieces without
  an opening brace and tokens whose bodies contain no brace, the result is the same text with every token
  replaced by its value, and the list of missing names is the sorted list, without repetitions, of the
  names that the tokens left unresolved. In strict mode a token with unresolved names stays as it
  is.\<close>

theorem RenderTemplateText_tokens:
  assumes "\<forall>(p, b) \<in> set ps. CHR ''{'' \<notin> set p \<and> body_ok b" and "CHR ''{'' \<notin> set rest"
  shows "RenderTemplateText (assemble token_of ps rest) vars strict =
      (assemble (\<lambda>b. fst (render_token vars strict b)) ps rest,
       sorted_list_of_set (\<Union>b \<in> snd ` set ps. set (unresolved_names vars b))) \<and>
    (\<forall>b. strict \<and> unresolved_names vars b \<noteq> [] \<longrightarrow> fst (render_token vars strict b) = token_of b)"
proof -
  let ?ms = "concat (map (unresolved_names vars \<circ> snd) ps)"
  have "sort (remdups ?ms) = sorted_list_of_set (\<Union>b \<in> snd ` set ps. set (unresolved_names vars b))"
    by (simp flip: sorted_list_of_set_sort_remdups)
  then have "RenderTemplateText (assemble token_of ps rest) vars strict =
      (assemble (\<lambda>b. fst (render_token vars strict b)) ps rest,
       sorted_list_of_set (\<Union>b \<in> snd ` set ps. set (unresolved_names vars b)))"
    by (simp add: RenderTemplateText_def render_assemble [OF assms])
  moreover have "fst (render_token vars True b) = token_of b" if "unresolved_names vars b \<noteq> []" for b
    using that by (auto simp: render_token_def unresolved_names_def split: prod.splits)
  ultimately show ?thesis by auto
qed

theorem RenderTemplateText_tokens_witness:
  "RenderTemplateText ''env={{ upper env }} in {{ region }}'' [(''env'', ''prod'')] True = (''env=PROD in {{ region }}'', [''region''])"
proof -
  let ?ps = "[(''env='', '' upper env ''), ('' in '', '' region '')]" and ?vars = "[(''env'', ''prod'')]"
  have ps: "\<forall>(p, b) \<in> set ?ps. CHR ''{'' \<notin> set p \<and> body_ok b" "CHR ''{'' \<notin> set []" by code_simp+
  have t: "assemble token_of ?ps [] = ''env={{ upper env }} in {{ region }}''"
    "assemble (\<lambda>b. fst (render_token ?vars True b)) ?ps [] = ''env=PROD in {{ region }}''" by code_simp+
  have "unresolved_names ?vars '' upper env '' = []" "unresolved_names ?vars '' region '' = [''region'']" by code_simp+
  then have "sorted_list_of_set (\<Union>b \<in> snd ` set ?ps. set (unresolved_names ?vars b)) = [''region'']" by simp
  then show ?thesis using RenderTemplateText_tokens [OF ps, of ?vars True] unfolding t by (simp only:)
qed

text \<open>In strict mode a token of unknown form is kept and reported nowhere.\<close>

lemma strict_passes_malformed: "RenderTemplateText ''x={{ a b }}'' [] True = (''x={{ a b }}'', [])"
  by code_simp

end
