(* ===== verification/Workflow.thy ===== *)
theory Workflow
  imports JobService Templates
begin

text \<open>
  Workflows (internal/control/workflow.go): a sequence of run templates, one job each, the next one
  dispatched when the job before it has succeeded.

  \<^verbatim>\<open>dispatchStep\<close> releases the lock between the enqueue and the note of the job, so it is two steps:
  \<open>dispatch_begin\<close> up to the enqueue, which leaves a \<open>dispatch\<close> record behind, and \<open>dispatch_end\<close>.
  \<^verbatim>\<open>onJob\<close> is called with jobs that the queue has published. Worker steps, other clients of the queue
  and calls on the template store interleave freely.
\<close>

datatype wf_status = WorkflowPending | WorkflowRunning | WorkflowSucceeded | WorkflowFailed

record wf_step =
  ws_template :: string
  ws_priority :: string

record workflow =
  wk_id :: string
  wk_name :: string
  wk_description :: string
  wk_steps :: "wf_step list"
  wk_created :: gotime

record wf_run =
  wr_id :: string
  wr_workflow :: string
  wr_status :: wf_status
  wr_current :: int
  wr_total :: int
  wr_jobs :: "string list"
  wr_priority :: string
  wr_force :: bool
  wr_error :: string
  wr_created :: gotime
  wr_started :: gotime
  wr_ended :: gotime

record dispatch =
  di_run :: string
  di_step :: nat
  di_job :: string
  di_first :: bool

record wf_store =
  wf_sys :: wsys
  wf_templates :: template_store
  wf_next :: int
  wf_next_run :: int
  wf_workflows :: "workflow gomap"
  wf_runs :: "wf_run gomap"
  wf_refs :: "(string \<times> nat) gomap"
  wf_open :: "dispatch list"

definition NewWorkflowStore :: "wsys \<Rightarrow> template_store \<Rightarrow> wf_store" where
  "NewWorkflowStore w t = \<lparr>wf_sys = w, wf_templates = t, wf_next = 0, wf_next_run = 0, wf_workflows = [], wf_runs = [],
     wf_refs = [], wf_open = []\<rparr>"

section \<open>Operations\<close>

fun check_steps :: "template_store \<Rightarrow> wf_step list \<Rightarrow> wf_step list result" where
  "check_steps t [] = Inr []"
| "check_steps t (st # sts) =
     (if ws_template st = [] then Inl ''workflow step template_id is required''
      else if Get_template (ws_template st) t = None then Inl (''workflow step references unknown template: '' @ ws_template st)
      else (case check_steps t sts of
              Inl e \<Rightarrow> Inl e
            | Inr sts' \<Rightarrow> Inr (st\<lparr>ws_priority := normalizePriority (ws_priority st)\<rparr> # sts')))"

definition Create_workflow :: "gotime \<Rightarrow> workflow \<Rightarrow> wf_store \<Rightarrow> wf_store \<times> workflow result" where
  "Create_workflow now inp s =
     (if wk_name inp = [] then (s, Inl ''workflow name is required'')
      else if wk_steps inp = [] then (s, Inl ''workflow must include at least one step'')
      else case check_steps (wf_templates s) (wk_steps inp) of
        Inl e \<Rightarrow> (s, Inl e)
      | Inr sts \<Rightarrow>
          let wfl = inp\<lparr>wk_id := seq_id ''wf-'' (wf_next s + 1), wk_steps := sts, wk_created := now\<rparr>
          in (s\<lparr>wf_next := wf_next s + 1, wf_workflows := mput (wk_id wfl) wfl (wf_workflows s)\<rparr>, Inr wfl))"

definition Get_workflow :: "string \<Rightarrow> wf_store \<Rightarrow> workflow option" where
  "Get_workflow i s = mget (wf_workflows s) i"

definition List_workflows :: "wf_store \<Rightarrow> workflow list" where
  "List_workflows s = map snd (wf_workflows s)"

definition ListRuns :: "wf_store \<Rightarrow> wf_run list" where
  "ListRuns s = map snd (wf_runs s)"

definition GetRun :: "string \<Rightarrow> wf_store \<Rightarrow> wf_run result" where
  "GetRun i s = (case mget (wf_runs s) i of None \<Rightarrow> Inl ''workflow run not found'' | Some r \<Rightarrow> Inr r)"

definition ended :: "wf_run \<Rightarrow> bool" where
  "ended r \<longleftrightarrow> wr_status r = WorkflowSucceeded \<or> wr_status r = WorkflowFailed"

definition put_run :: "string \<Rightarrow> wf_run \<Rightarrow> wf_store \<Rightarrow> wf_store" where
  "put_run i r s = s\<lparr>wf_runs := mput i r (wf_runs s)\<rparr>"

definition failRun :: "gotime \<Rightarrow> string \<Rightarrow> string \<Rightarrow> wf_store \<Rightarrow> wf_store" where
  "failRun now i reason s =
     (case mget (wf_runs s) i of
        None \<Rightarrow> s
      | Some r \<Rightarrow> if ended r then s
                  else put_run i (r\<lparr>wr_status := WorkflowFailed, wr_error := reason, wr_ended := now\<rparr>) s)"

definition step_key :: "string \<Rightarrow> nat \<Rightarrow> string" where
  "step_key i k = i @ ''-step-'' @ itoa (int k)"

definition step_priority :: "wf_step \<Rightarrow> wf_run \<Rightarrow> string" where
  "step_priority st r = (if ws_priority st = [] \<or> ws_priority st = ''normal'' then wr_priority r else ws_priority st)"

definition dispatch_begin :: "gotime \<Rightarrow> string \<Rightarrow> nat \<Rightarrow> wf_store \<Rightarrow> wf_store \<times> unit result" where
  "dispatch_begin now i k s =
     (case mget (wf_runs s) i of
        None \<Rightarrow> (s, Inl ''workflow run not found'')
      | Some r \<Rightarrow>
          if ended r then (s, Inr ())
          else (case mget (wf_workflows s) (wr_workflow r) of
             None \<Rightarrow> (s, Inl ''workflow definition not found'')
           | Some wfl \<Rightarrow>
               if k \<ge> length (wk_steps wfl) then (s, Inl ''workflow step out of range'')
               else
                 let st = wk_steps wfl ! k
                 in (case Get_template (ws_template st) (wf_templates s) of
                       None \<Rightarrow> (failRun now i (''workflow step references missing template: '' @ ws_template st) s,
                                Inl ''workflow step references missing template'')
                     | Some tpl \<Rightarrow>
                         (case submit_job \<lparr>su_now = now, su_path = tp_path tpl, su_force = wr_force r, su_priority = step_priority st r\<rparr>
                                 (step_key i k) (wf_sys s) of
                            (w, Inl e) \<Rightarrow> (failRun now i e (s\<lparr>wf_sys := w\<rparr>), Inl e)
                          | (w, Inr jid) \<Rightarrow>
                              (s\<lparr>wf_sys := w, wf_open := wf_open s @ [\<lparr>di_run = i, di_step = k, di_job = jid, di_first = (wr_started r = 0)\<rparr>]\<rparr>,
                               Inr ())))))"

definition note_job :: "gotime \<Rightarrow> dispatch \<Rightarrow> wf_run \<Rightarrow> wf_run" where
  "note_job now d r = r\<lparr>wr_started := (if di_first d then now else wr_started r), wr_status := WorkflowRunning,
     wr_current := int (di_step d), wr_jobs := (wr_jobs r)[di_step d := di_job d]\<rparr>"

definition dispatch_end :: "gotime \<Rightarrow> nat \<Rightarrow> wf_store \<Rightarrow> wf_store" where
  "dispatch_end now n s =
     (if n \<ge> length (wf_open s) then s
      else
        let d = wf_open s ! n; s = s\<lparr>wf_open := take n (wf_open s) @ drop (Suc n) (wf_open s)\<rparr>
        in (case mget (wf_runs s) (di_run d) of
              None \<Rightarrow> s
            | Some r \<Rightarrow>
                if ended r then s
                else (put_run (di_run d) (note_job now d r) s)\<lparr>wf_refs := mput (di_job d) (di_run d, di_step d) (wf_refs s)\<rparr>))"

text \<open>The whole of \<^verbatim>\<open>dispatchStep\<close>, with nothing in between.\<close>

definition dispatchStep :: "gotime \<Rightarrow> string \<Rightarrow> nat \<Rightarrow> wf_store \<Rightarrow> wf_store \<times> unit result" where
  "dispatchStep now i k s =
     (case dispatch_begin now i k s of
        (s', Inl e) \<Rightarrow> (s', Inl e)
      | (s', Inr _) \<Rightarrow> (dispatch_end now (length (wf_open s)) s', Inr ()))"

text \<open>The callers of \<^verbatim>\<open>dispatchStep\<close>, with the dispatch as an argument: \<open>dispatchStep\<close> for the call
  that nothing interrupts, \<open>dispatch_begin\<close> in the interleaved system below.\<close>

type_synonym dispatcher = "gotime \<Rightarrow> string \<Rightarrow> nat \<Rightarrow> wf_store \<Rightarrow> wf_store \<times> unit result"

definition launch_with :: "dispatcher \<Rightarrow> gotime \<Rightarrow> string \<Rightarrow> string \<Rightarrow> bool \<Rightarrow> wf_store \<Rightarrow> wf_store \<times> wf_run result" where
  "launch_with disp now wid priority force s =
     (case mget (wf_workflows s) wid of
        None \<Rightarrow> (s, Inl ''workflow not found'')
      | Some wfl \<Rightarrow>
          let r = \<lparr>wr_id = seq_id ''wfrun-'' (wf_next_run s + 1), wr_workflow = wid, wr_status = WorkflowPending, wr_current = 0,
                   wr_total = int (length (wk_steps wfl)), wr_jobs = replicate (length (wk_steps wfl)) [],
                   wr_priority = normalizePriority priority, wr_force = force, wr_error = [], wr_created = now, wr_started = 0, wr_ended = 0\<rparr>
          in (case disp now (wr_id r) 0 (put_run (wr_id r) r (s\<lparr>wf_next_run := wf_next_run s + 1\<rparr>)) of
                (s, Inl e) \<Rightarrow> (s, Inl e)
              | (s, Inr _) \<Rightarrow> (s, GetRun (wr_id r) s)))"

definition Launch :: "gotime \<Rightarrow> string \<Rightarrow> string \<Rightarrow> bool \<Rightarrow> wf_store \<Rightarrow> wf_store \<times> wf_run result" where
  "Launch = launch_with dispatchStep"

definition succeed_run :: "gotime \<Rightarrow> string \<Rightarrow> wf_store \<Rightarrow> wf_store" where
  "succeed_run now i s =
     (case mget (wf_runs s) i of
        None \<Rightarrow> s
      | Some r \<Rightarrow> if ended r then s
                  else put_run i (r\<lparr>wr_status := WorkflowSucceeded, wr_current := wr_total r, wr_ended := now\<rparr>) s)"

definition on_job_with :: "dispatcher \<Rightarrow> gotime \<Rightarrow> job \<Rightarrow> wf_store \<Rightarrow> wf_store" where
  "on_job_with disp now j s =
     (if j_status j \<noteq> JobSucceeded \<and> j_status j \<noteq> JobFailed \<and> j_status j \<noteq> JobCanceled then s
      else case mget (wf_refs s) (j_id j) of
        None \<Rightarrow> s
      | Some (i, k) \<Rightarrow>
          (case mget (wf_runs s) i of
             None \<Rightarrow> s
           | Some r \<Rightarrow>
               if ended r then s
               else (case mget (wf_workflows s) (wr_workflow r) of
                  None \<Rightarrow> failRun now i ''workflow definition not found'' s
                | Some wfl \<Rightarrow>
                    if j_status j = JobSucceeded
                    then (if k + 1 \<ge> length (wk_steps wfl) then succeed_run now i s else fst (disp now i (k + 1) s))
                    else failRun now i (''workflow step job failed: '' @ j_id j) s)))"

definition onJob :: "gotime \<Rightarrow> job \<Rightarrow> wf_store \<Rightarrow> wf_store" where
  "onJob = on_job_with dispatchStep"

section \<open>The interleaved system\<close>

datatype wf_op =
    WCreate gotime workflow
  | WLaunch gotime string string bool
  | WNote gotime nat
  | WJob gotime job
  | WTemplate template_op
  | WSystem label

fun workflow_step :: "wf_store \<Rightarrow> wf_op \<Rightarrow> wf_store" where
  "workflow_step s (WCreate now wfl) = fst (Create_workflow now wfl s)"
| "workflow_step s (WLaunch now i prio force) = fst (launch_with dispatch_begin now i prio force s)"
| "workflow_step s (WNote now n) = dispatch_end now n s"
| "workflow_step s (WJob now j) = (if j \<in> set (q_published (w_queue (wf_sys s))) then on_job_with dispatch_begin now j s else s)"
| "workflow_step s (WTemplate op) = s\<lparr>wf_templates := template_step (wf_templates s) op\<rparr>"
| "workflow_step s (WSystem l) = (case worker_step (wf_sys s) l of None \<Rightarrow> s | Some w \<Rightarrow> s\<lparr>wf_sys := w\<rparr>)"

section \<open>The chain of jobs of a run\<close>

text \<open>\<open>js\<close> are the jobs noted for the steps: a step has the job of its key, and only after the jobs of
  all earlier steps have succeeded.\<close>

definition ready :: "string set \<Rightarrow> nat \<Rightarrow> string list \<Rightarrow> bool" where
  "ready done k js \<longleftrightarrow> k < length js \<and> (\<forall>m<k. js ! m \<noteq> [] \<and> js ! m \<in> done)"

definition chain :: "(nat \<Rightarrow> string option) \<Rightarrow> string set \<Rightarrow> string list \<Rightarrow> bool" where
  "chain key done js \<longleftrightarrow> (\<forall>k<length js. js ! k \<noteq> [] \<longrightarrow> key k = Some (js ! k) \<and> ready done k js)"

lemma ready_mono: "ready done k js \<Longrightarrow> done \<subseteq> done' \<Longrightarrow> ready done' k js"
  by (auto simp: ready_def)

lemma chain_mono: "chain key done js \<Longrightarrow> (\<And>k i. key k = Some i \<Longrightarrow> key' k = Some i) \<Longrightarrow> done \<subseteq> done' \<Longrightarrow> chain key' done' js"
  unfolding chain_def using ready_mono by blast

lemma chain_empty [simp]: "chain key done (replicate n [])"
  by (simp add: chain_def)

lemma chain_ready_Suc:
  assumes "chain key done js" "k < length js" "js ! k \<noteq> []" "js ! k \<in> done"
  shows "m \<le> k \<Longrightarrow> js ! m \<noteq> [] \<and> js ! m \<in> done"
  using assms unfolding chain_def ready_def by (metis le_neq_implies_less)

text \<open>Noting the job of a step that is ready keeps the chain; a step that is noted twice keeps its job.\<close>

lemma note_same:
  assumes "chain key done js" "key k = Some j" "k < length js" "js ! k \<noteq> []"
  shows "js[k := j] = js"
  using assms unfolding chain_def by (metis list_update_id option.inject)

lemma chain_later_empty:
  assumes "chain key done js" "js ! k = []" "k < m" "m < length js"
  shows "js ! m = []"
  using assms unfolding chain_def ready_def by blast

lemma chain_note:
  assumes c: "chain key done js" and r: "ready done k js" and key: "key k = Some j"
  shows "chain key done (js[k := j])"
proof (cases "js ! k = []")
  case False
  then show ?thesis using note_same [OF c key] c r by (simp add: ready_def)
next
  case True
  show ?thesis unfolding chain_def
  proof (intro allI impI)
    fix m
    assume m: "m < length (js[k := j])" "js[k := j] ! m \<noteq> []"
    then have "m \<le> k" using chain_later_empty [OF c True] by (metis leI length_list_update nth_list_update_neq less_irrefl)
    show "key m = Some (js[k := j] ! m) \<and> ready done m (js[k := j])"
    proof (cases "m = k")
      case True
      then show ?thesis using key r by (simp add: ready_def)
    next
      case False
      then show ?thesis using c m \<open>m \<le> k\<close> by (auto simp: chain_def ready_def)
    qed
  qed
qed

section \<open>The invariant\<close>

definition step_job :: "wf_store \<Rightarrow> string \<Rightarrow> nat \<Rightarrow> string option" where
  "step_job s i = (\<lambda>k. job_of_key (step_key i k) (wf_sys s))"

definition run_ok :: "wf_store \<Rightarrow> string \<Rightarrow> wf_run \<Rightarrow> bool" where
  "run_ok s i r \<longleftrightarrow> (\<exists>wfl. mget (wf_workflows s) (wr_workflow r) = Some wfl \<and> length (wk_steps wfl) = length (wr_jobs r)) \<and>
     chain (step_job s i) (succeeded_jobs (wf_sys s)) (wr_jobs r) \<and>
     (wr_status r = WorkflowSucceeded \<longrightarrow> set (wr_jobs r) \<subseteq> succeeded_jobs (wf_sys s))"

definition runs_ok :: "wf_store \<Rightarrow> bool" where
  "runs_ok s \<longleftrightarrow> (\<forall>i r. mget (wf_runs s) i = Some r \<longrightarrow> run_ok s i r)"

definition open_ok :: "wf_store \<Rightarrow> dispatch \<Rightarrow> bool" where
  "open_ok s d \<longleftrightarrow> (\<exists>r. mget (wf_runs s) (di_run d) = Some r \<and> ready (succeeded_jobs (wf_sys s)) (di_step d) (wr_jobs r)) \<and>
     step_job s (di_run d) (di_step d) = Some (di_job d) \<and> di_job d \<noteq> []"

definition ref_ok :: "wf_store \<Rightarrow> string \<Rightarrow> string \<times> nat \<Rightarrow> bool" where
  "ref_ok s j p \<longleftrightarrow> j \<noteq> [] \<and> (\<exists>r. mget (wf_runs s) (fst p) = Some r \<and> snd p < length (wr_jobs r) \<and> wr_jobs r ! snd p = j)"

definition refs_ok :: "wf_store \<Rightarrow> bool" where
  "refs_ok s \<longleftrightarrow> (\<forall>j p. mget (wf_refs s) j = Some p \<longrightarrow> ref_ok s j p)"

definition wf_inv :: "wf_store \<Rightarrow> bool" where
  "wf_inv s \<longleftrightarrow> reachable (wf_sys s) \<and> store_inv wf_workflows wf_next ''wf-'' s \<and> store_inv wf_runs wf_next_run ''wfrun-'' s \<and>
     runs_ok s \<and> list_all (open_ok s) (wf_open s) \<and> refs_ok s"

lemma wf_invD:
  assumes "wf_inv s"
  shows "reachable (wf_sys s)" "store_inv wf_workflows wf_next ''wf-'' s" "store_inv wf_runs wf_next_run ''wfrun-'' s"
    "mget (wf_runs s) i = Some r \<Longrightarrow> run_ok s i r" "d \<in> set (wf_open s) \<Longrightarrow> open_ok s d"
    "mget (wf_refs s) j = Some p \<Longrightarrow> ref_ok s j p"
  using assms unfolding wf_inv_def runs_ok_def refs_ok_def list_all_iff by blast+

lemma wf_invI:
  assumes "reachable (wf_sys s)" "store_inv wf_workflows wf_next ''wf-'' s" "store_inv wf_runs wf_next_run ''wfrun-'' s"
    and "\<And>i r. mget (wf_runs s) i = Some r \<Longrightarrow> run_ok s i r" "\<And>d. d \<in> set (wf_open s) \<Longrightarrow> open_ok s d"
    and "\<And>j p. mget (wf_refs s) j = Some p \<Longrightarrow> ref_ok s j p"
  shows "wf_inv s"
  using assms unfolding wf_inv_def runs_ok_def refs_ok_def list_all_iff by blast

text \<open>The steps of the queue, the worker and the template store.\<close>

lemma wf_inv_evolves:
  assumes inv: "wf_inv s" and e: "queue_evolves (wf_sys s) w"
  shows "wf_inv (s\<lparr>wf_sys := w\<rparr>)"
proof -
  note v = wf_invD(1) [OF inv]
  have key: "step_job (s\<lparr>wf_sys := w\<rparr>) i k = Some j" if "step_job s i k = Some j" for i k j
    using queue.key_step [OF v e] that by (simp add: step_job_def)
  have suc: "succeeded_jobs (wf_sys s) \<subseteq> succeeded_jobs w" by (rule queue.succeeded_step [OF e])
  show ?thesis
  proof (rule wf_invI)
    show "reachable (wf_sys (s\<lparr>wf_sys := w\<rparr>))" using queue.valid_step [OF v e] by simp
    show "store_inv wf_workflows wf_next ''wf-'' (s\<lparr>wf_sys := w\<rparr>)" "store_inv wf_runs wf_next_run ''wfrun-'' (s\<lparr>wf_sys := w\<rparr>)"
      using wf_invD(2,3) [OF inv] by (simp_all add: store_inv_def)
  next
    fix i r
    assume "mget (wf_runs (s\<lparr>wf_sys := w\<rparr>)) i = Some r"
    then have "run_ok s i r" using wf_invD(4) [OF inv] by simp
    then show "run_ok (s\<lparr>wf_sys := w\<rparr>) i r"
      using chain_mono [where key' = "step_job (s\<lparr>wf_sys := w\<rparr>) i", OF _ key suc] suc unfolding run_ok_def by auto
  next
    fix d
    assume "d \<in> set (wf_open (s\<lparr>wf_sys := w\<rparr>))"
    then have "open_ok s d" using wf_invD(5) [OF inv] by simp
    then show "open_ok (s\<lparr>wf_sys := w\<rparr>) d" using key ready_mono [OF _ suc] unfolding open_ok_def by auto
  next
    fix j p
    assume "mget (wf_refs (s\<lparr>wf_sys := w\<rparr>)) j = Some p"
    then show "ref_ok (s\<lparr>wf_sys := w\<rparr>) j p" using wf_invD(6) [OF inv] by (simp add: ref_ok_def)
  qed
qed

lemma wf_inv_templates [simp]: "wf_inv (s\<lparr>wf_templates := t\<rparr>) = wf_inv s"
  unfolding wf_inv_def runs_ok_def refs_ok_def run_ok_def open_ok_def ref_ok_def step_job_def list_all_iff store_inv_def by simp

text \<open>A run that is replaced, with its workflow and with jobs that extend the old ones.\<close>

lemma wf_inv_put_run:
  assumes inv: "wf_inv s" and r: "mget (wf_runs s) i = Some r" and ok: "run_ok s i r'"
    and keep: "\<And>k. k < length (wr_jobs r) \<Longrightarrow> wr_jobs r ! k \<noteq> [] \<Longrightarrow> wr_jobs r' ! k = wr_jobs r ! k"
      "length (wr_jobs r') = length (wr_jobs r)"
  shows "wf_inv (put_run i r' s)"
proof (rule wf_invI)
  show "reachable (wf_sys (put_run i r' s))" using wf_invD(1) [OF inv] by (simp add: put_run_def)
  show "store_inv wf_workflows wf_next ''wf-'' (put_run i r' s)" using wf_invD(2) [OF inv] by (simp add: put_run_def store_inv_def)
  show "store_inv wf_runs wf_next_run ''wfrun-'' (put_run i r' s)"
    by (rule store_inv_step [where items = wf_runs and counter = wf_next_run, OF wf_invD(3) [OF inv]])
      (simp add: put_run_def keys_step_update r)
next
  fix i' r1
  assume "mget (wf_runs (put_run i r' s)) i' = Some r1"
  then have "run_ok s i' r1" using ok wf_invD(4) [OF inv] by (auto simp: put_run_def split: if_splits)
  then show "run_ok (put_run i r' s) i' r1" by (simp add: run_ok_def put_run_def step_job_def)
next
  fix d
  assume "d \<in> set (wf_open (put_run i r' s))"
  then have d: "open_ok s d" using wf_invD(5) [OF inv] by (simp add: put_run_def)
  have "ready z k (wr_jobs r')" if "ready z k (wr_jobs r)" for z k
    using that keep by (auto simp: ready_def)
  then show "open_ok (put_run i r' s) d" using d r by (auto simp: open_ok_def put_run_def step_job_def)
next
  fix j p
  assume "mget (wf_refs (put_run i r' s)) j = Some p"
  then have "ref_ok s j p" using wf_invD(6) [OF inv] by (simp add: put_run_def)
  then show "ref_ok (put_run i r' s) j p" using r keep by (auto simp: ref_ok_def put_run_def)
qed

lemma wf_inv_failRun: "wf_inv s \<Longrightarrow> wf_inv (failRun now i e s)"
  using wf_inv_put_run [of s i] wf_invD(4) [of s i]
  by (auto simp: failRun_def run_ok_def split: option.split)

lemma wf_inv_succeed_run:
  assumes "wf_inv s" "\<And>r. mget (wf_runs s) i = Some r \<Longrightarrow> set (wr_jobs r) \<subseteq> succeeded_jobs (wf_sys s)"
  shows "wf_inv (succeed_run now i s)"
  using assms wf_inv_put_run [of s i] wf_invD(4) [of s i]
  by (auto simp: succeed_run_def run_ok_def split: option.split)

lemma wf_inv_open:
  assumes inv: "wf_inv s" and d: "\<And>x. x \<in> set ds \<Longrightarrow> x \<in> set (wf_open s) \<or> open_ok s x"
  shows "wf_inv (s\<lparr>wf_open := ds\<rparr>)"
proof -
  have ok: "open_ok (s\<lparr>wf_open := ds\<rparr>) x = open_ok s x" "run_ok (s\<lparr>wf_open := ds\<rparr>) i r = run_ok s i r"
    "ref_ok (s\<lparr>wf_open := ds\<rparr>) j p = ref_ok s j p" for x i r j p
    by (simp_all add: open_ok_def run_ok_def ref_ok_def step_job_def)
  have "open_ok s x" if "x \<in> set ds" for x using d [OF that] wf_invD(5) [OF inv] by blast
  then show ?thesis
    by (intro wf_invI) (use wf_invD [OF inv] in \<open>simp_all add: ok store_inv_def\<close>)
qed

lemma wf_inv_ref:
  assumes inv: "wf_inv s" and p: "ref_ok s j p"
  shows "wf_inv (s\<lparr>wf_refs := mput j p (wf_refs s)\<rparr>)"
proof -
  let ?s = "s\<lparr>wf_refs := mput j p (wf_refs s)\<rparr>"
  have ok: "open_ok ?s x = open_ok s x" "run_ok ?s i r = run_ok s i r" "ref_ok ?s j' p' = ref_ok s j' p'" for x i r j' p'
    by (simp_all add: open_ok_def run_ok_def ref_ok_def step_job_def)
  show ?thesis
    by (rule wf_invI) (use wf_invD [OF inv] p in \<open>auto simp: ok store_inv_def split: if_splits\<close>)
qed

text \<open>The note of a dispatch.\<close>

lemma wf_inv_note:
  assumes inv: "wf_inv s" and r: "mget (wf_runs s) (di_run d) = Some r" and d: "open_ok s d" and e: "\<not> ended r"
  shows "wf_inv ((put_run (di_run d) (note_job now d r) s)\<lparr>wf_refs := mput (di_job d) (di_run d, di_step d) (wf_refs s)\<rparr>)"
proof -
  let ?s = "put_run (di_run d) (note_job now d r) s"
  have o: "ready (succeeded_jobs (wf_sys s)) (di_step d) (wr_jobs r)" "step_job s (di_run d) (di_step d) = Some (di_job d)" "di_job d \<noteq> []"
    using d r by (auto simp: open_ok_def)
  have ok: "run_ok s (di_run d) r" by (rule wf_invD(4) [OF inv r])
  then have ch: "chain (step_job s (di_run d)) (succeeded_jobs (wf_sys s)) (wr_jobs r)" by (simp add: run_ok_def)
  have "wf_inv ?s"
  proof (rule wf_inv_put_run [OF inv r])
    show "run_ok s (di_run d) (note_job now d r)"
      using ok chain_note [OF ch o(1,2)] by (simp add: run_ok_def note_job_def)
    show "wr_jobs (note_job now d r) ! k = wr_jobs r ! k" if "k < length (wr_jobs r)" "wr_jobs r ! k \<noteq> []" for k
      using that note_same [OF ch o(2)] by (cases "k = di_step d") (simp_all add: note_job_def)
    show "length (wr_jobs (note_job now d r)) = length (wr_jobs r)" by (simp add: note_job_def)
  qed
  moreover have "ref_ok ?s (di_job d) (di_run d, di_step d)" using o by (simp add: ref_ok_def put_run_def note_job_def ready_def)
  ultimately show ?thesis using wf_inv_ref [of ?s] by (simp add: put_run_def)
qed

lemma wf_inv_dispatch_end: "wf_inv s \<Longrightarrow> wf_inv (dispatch_end now n s)"
proof (cases "n < length (wf_open s)")
  case True
  assume inv: "wf_inv s"
  define d s1 where "d = wf_open s ! n" and "s1 = s\<lparr>wf_open := take n (wf_open s) @ drop (Suc n) (wf_open s)\<rparr>"
  have inv1: "wf_inv s1" unfolding s1_def
    by (rule wf_inv_open [OF inv]) (auto dest: in_set_takeD in_set_dropD)
  have "open_ok s d" unfolding d_def using wf_invD(5) [OF inv] True by simp
  then have d: "open_ok s1 d" by (simp add: open_ok_def s1_def step_job_def)
  have "dispatch_end now n s = (case mget (wf_runs s1) (di_run d) of None \<Rightarrow> s1 | Some r \<Rightarrow> if ended r then s1
       else (put_run (di_run d) (note_job now d r) s1)\<lparr>wf_refs := mput (di_job d) (di_run d, di_step d) (wf_refs s1)\<rparr>)"
    using True unfolding dispatch_end_def d_def s1_def by (simp add: Let_def)
  then show ?thesis using inv1 wf_inv_note [OF inv1 _ d] by (simp split: option.split)
qed (simp add: dispatch_end_def)

text \<open>The dispatch of a step whose predecessors have succeeded.\<close>

lemma step_key_nonempty [simp]: "step_key i k \<noteq> []"
  by (simp add: step_key_def)

lemma wf_inv_dispatch_begin:
  assumes inv: "wf_inv s" and rdy: "\<And>r m. mget (wf_runs s) i = Some r \<Longrightarrow> m < k \<Longrightarrow> wr_jobs r ! m \<noteq> [] \<and> wr_jobs r ! m \<in> succeeded_jobs (wf_sys s)"
  shows "wf_inv (fst (dispatch_begin now i k s))"
proof (cases "fst (dispatch_begin now i k s) = s \<or> (\<exists>e. fst (dispatch_begin now i k s) = failRun now i e s)")
  case True
  then show ?thesis using inv wf_inv_failRun by fastforce
next
  case False
  then obtain r wfl tpl where r: "mget (wf_runs s) i = Some r" and wfl: "mget (wf_workflows s) (wr_workflow r) = Some wfl" "k < length (wk_steps wfl)"
    and g: "\<not> ended r" and tpl: "Get_template (ws_template (wk_steps wfl ! k)) (wf_templates s) = Some tpl"
    unfolding dispatch_begin_def by (force simp: Let_def split: option.splits if_splits)
  define q where "q = \<lparr>su_now = now, su_path = tp_path tpl, su_force = wr_force r, su_priority = step_priority (wk_steps wfl ! k) r\<rparr>"
  obtain w res where sub: "submit_job q (step_key i k) (wf_sys s) = (w, res)" by fastforce
  have inv1: "wf_inv (s\<lparr>wf_sys := w\<rparr>)" by (rule wf_inv_evolves [OF inv queue.submit_evolves [OF sub]])
  show ?thesis
  proof (cases res)
    case (Inl e)
    then show ?thesis using sub r wfl g tpl wf_inv_failRun [OF inv1] by (simp add: dispatch_begin_def q_def)
  next
    case (Inr jid)
    define d where "d = \<lparr>di_run = i, di_step = k, di_job = jid, di_first = (wr_started r = 0)\<rparr>"
    have key: "job_of_key (step_key i k) w = Some jid \<and> jid \<noteq> []"
      by (rule queue.submit_key [OF wf_invD(1) [OF inv] step_key_nonempty]) (use sub Inr in simp)
    have "length (wk_steps wfl) = length (wr_jobs r)" using wf_invD(4) [OF inv r] wfl(1) by (simp add: run_ok_def)
    then have "ready (succeeded_jobs (wf_sys s)) k (wr_jobs r)" using rdy [OF r] wfl(2) by (simp add: ready_def)
    then have "open_ok (s\<lparr>wf_sys := w\<rparr>) d"
      using ready_mono [OF _ queue.succeeded_step [OF queue.submit_evolves [OF sub]]] r key by (auto simp: open_ok_def d_def step_job_def)
    then have "wf_inv (s\<lparr>wf_sys := w\<rparr>\<lparr>wf_open := wf_open s @ [d]\<rparr>)" using wf_inv_open [OF inv1, of "wf_open s @ [d]"] by auto
    then show ?thesis using sub Inr r wfl g tpl by (simp add: dispatch_begin_def q_def d_def)
  qed
qed

text \<open>A new run and a new workflow have an identifier that nothing else has.\<close>

lemma wf_inv_new_run:
  assumes inv: "wf_inv s" and wfl: "mget (wf_workflows s) wid = Some wfl" and i: "i = seq_id ''wfrun-'' (wf_next_run s + 1)"
    and r: "wr_workflow r = wid" "wr_jobs r = replicate (length (wk_steps wfl)) []" "wr_status r = WorkflowPending"
  shows "wf_inv (put_run i r (s\<lparr>wf_next_run := wf_next_run s + 1\<rparr>))"
proof -
  let ?s = "put_run i r (s\<lparr>wf_next_run := wf_next_run s + 1\<rparr>)"
  have fresh: "mget (wf_runs s) i = None"
    unfolding i by (rule store_inv_fresh [where items = wf_runs and counter = wf_next_run, OF wf_invD(3) [OF inv]])
  show ?thesis
  proof (rule wf_invI)
    show "reachable (wf_sys ?s)" using wf_invD(1) [OF inv] by (simp add: put_run_def)
    show "store_inv wf_workflows wf_next ''wf-'' ?s" using wf_invD(2) [OF inv] by (simp add: put_run_def store_inv_def)
    show "store_inv wf_runs wf_next_run ''wfrun-'' ?s"
      by (rule store_inv_step [where items = wf_runs and counter = wf_next_run, OF wf_invD(3) [OF inv]]) (simp add: put_run_def i)
  next
    fix i' r1
    assume "mget (wf_runs ?s) i' = Some r1"
    then show "run_ok ?s i' r1" using r wfl wf_invD(4) [OF inv, of i' r1]
      by (cases "i' = i") (simp_all add: run_ok_def put_run_def step_job_def)
  next
    fix d
    assume "d \<in> set (wf_open ?s)"
    then show "open_ok ?s d" using wf_invD(5) [OF inv, of d] fresh by (auto simp: open_ok_def put_run_def step_job_def)
  next
    fix j p
    assume "mget (wf_refs ?s) j = Some p"
    then show "ref_ok ?s j p" using wf_invD(6) [OF inv, of j p] fresh by (auto simp: ref_ok_def put_run_def)
  qed
qed

lemma wf_inv_new_workflow:
  assumes inv: "wf_inv s"
  shows "wf_inv (s\<lparr>wf_next := wf_next s + 1, wf_workflows := mput (seq_id ''wf-'' (wf_next s + 1)) wfl (wf_workflows s)\<rparr>)"
    (is "wf_inv ?s")
proof -
  have fresh: "mget (wf_workflows s) (seq_id ''wf-'' (wf_next s + 1)) = None"
    by (rule store_inv_fresh [where items = wf_workflows and counter = wf_next, OF wf_invD(2) [OF inv]])
  show ?thesis
  proof (rule wf_invI)
    show "reachable (wf_sys ?s)" using wf_invD(1) [OF inv] by simp
    show "store_inv wf_workflows wf_next ''wf-'' ?s"
      by (rule store_inv_step [where items = wf_workflows and counter = wf_next, OF wf_invD(2) [OF inv]]) simp
    show "store_inv wf_runs wf_next_run ''wfrun-'' ?s" using wf_invD(3) [OF inv] by (simp add: store_inv_def)
  next
    fix i' r1
    assume "mget (wf_runs ?s) i' = Some r1"
    then show "run_ok ?s i' r1" using wf_invD(4) [OF inv, of i' r1] fresh
      by (auto simp: run_ok_def step_job_def)
  next
    fix d
    assume "d \<in> set (wf_open ?s)"
    then show "open_ok ?s d" using wf_invD(5) [OF inv, of d] by (auto simp: open_ok_def step_job_def)
  next
    fix j p
    assume "mget (wf_refs ?s) j = Some p"
    then show "ref_ok ?s j p" using wf_invD(6) [OF inv, of j p] by (auto simp: ref_ok_def)
  qed
qed

lemma wf_inv_launch:
  assumes inv: "wf_inv s"
  shows "wf_inv (fst (launch_with dispatch_begin now wid prio force s))"
proof (cases "mget (wf_workflows s) wid")
  case (Some wfl)
  define r where "r = \<lparr>wr_id = seq_id ''wfrun-'' (wf_next_run s + 1), wr_workflow = wid, wr_status = WorkflowPending, wr_current = 0,
    wr_total = int (length (wk_steps wfl)), wr_jobs = replicate (length (wk_steps wfl)) [],
    wr_priority = normalizePriority prio, wr_force = force, wr_error = [], wr_created = now, wr_started = 0, wr_ended = 0\<rparr>"
  let ?s = "put_run (wr_id r) r (s\<lparr>wf_next_run := wf_next_run s + 1\<rparr>)"
  have "wf_inv ?s" by (rule wf_inv_new_run [OF inv Some]) (simp_all add: r_def)
  then have "wf_inv (fst (dispatch_begin now (wr_id r) 0 ?s))" by (rule wf_inv_dispatch_begin) simp
  moreover have "fst (launch_with dispatch_begin now wid prio force s) = fst (dispatch_begin now (wr_id r) 0 ?s)"
    using Some by (simp add: launch_with_def Let_def r_def split: prod.split sum.split)
  ultimately show ?thesis by simp
qed (simp add: launch_with_def inv)

lemma wf_inv_succeeded_job:
  assumes inv: "wf_inv s" and j: "j \<in> set (q_published (w_queue (wf_sys s)))" and st: "j_status j = JobSucceeded"
    and ref: "mget (wf_refs s) (j_id j) = Some (i, k)" and r: "mget (wf_runs s) i = Some r"
    and wfl: "mget (wf_workflows s) (wr_workflow r) = Some wfl"
  shows "length (wk_steps wfl) \<le> Suc k \<Longrightarrow> wf_inv (succeed_run now i s)" "wf_inv (fst (dispatch_begin now i (Suc k) s))"
proof -
  have k: "k < length (wr_jobs r)" "wr_jobs r ! k = j_id j" "j_id j \<noteq> []"
    using wf_invD(6) [OF inv ref] r by (auto simp: ref_ok_def)
  have ok: "length (wk_steps wfl) = length (wr_jobs r)" "chain (step_job s i) (succeeded_jobs (wf_sys s)) (wr_jobs r)"
    using wf_invD(4) [OF inv r] wfl by (auto simp: run_ok_def)
  have jd: "j_id j \<in> succeeded_jobs (wf_sys s)" using j st by (auto simp: succeeded_jobs_def)
  have upto: "wr_jobs r ! m \<noteq> [] \<and> wr_jobs r ! m \<in> succeeded_jobs (wf_sys s)" if "m \<le> k" for m
    using chain_ready_Suc [OF ok(2) k(1) _ _ that] k jd by simp
  show "wf_inv (fst (dispatch_begin now i (Suc k) s))"
    by (rule wf_inv_dispatch_begin [OF inv]) (use upto r in simp)
  assume "length (wk_steps wfl) \<le> Suc k"
  then have "set (wr_jobs r) \<subseteq> succeeded_jobs (wf_sys s)" using upto ok(1) k(1) by (auto simp: in_set_conv_nth)
  then show "wf_inv (succeed_run now i s)" by (intro wf_inv_succeed_run [OF inv]) (use r in simp)
qed

lemma wf_inv_on_job:
  assumes "wf_inv s" "j \<in> set (q_published (w_queue (wf_sys s)))"
  shows "wf_inv (on_job_with dispatch_begin now j s)"
  using assms wf_inv_failRun [OF assms(1)] wf_inv_succeeded_job [OF assms]
  unfolding on_job_with_def by (simp split: option.split)

interpretation workflows: stepper workflow_step wf_inv
proof
  fix s op
  assume inv: "wf_inv s"
  show "wf_inv (workflow_step s op)"
  proof (cases op)
    case (WCreate now w)
    have "fst (Create_workflow now w s) = s \<or> (\<exists>wfl. fst (Create_workflow now w s) =
        s\<lparr>wf_next := wf_next s + 1, wf_workflows := mput (seq_id ''wf-'' (wf_next s + 1)) wfl (wf_workflows s)\<rparr>)"
      by (auto simp: Create_workflow_def Let_def split: sum.split)
    then show ?thesis using WCreate inv wf_inv_new_workflow [OF inv] by auto
  next
    case (WSystem l)
    then show ?thesis using inv wf_inv_evolves [OF inv] by (auto simp: queue_evolves_def split: option.split)
  qed (use inv in \<open>simp_all add: wf_inv_launch wf_inv_dispatch_end wf_inv_on_job\<close>)
qed

lemma wf_inv_init: "reachable w \<Longrightarrow> wf_inv (NewWorkflowStore w t)"
  by (simp add: wf_inv_def NewWorkflowStore_def store_inv_def runs_ok_def refs_ok_def)

text \<open>C18: the steps of a workflow run in order. Whatever the worker, the other clients of the queue and
  the template store do in between, and however the dispatches of several runs interleave: a step of
  a run has a job only after the jobs of all earlier steps of that run have been published as succeeded,
  this job is the one the queue keeps for the key of the step, and a run that is reported as succeeded
  has a succeeded job for every step.\<close>

theorem workflow_in_order:
  assumes w: "reachable w" and s: "s = foldl workflow_step (NewWorkflowStore w t) ops" and r: "GetRun i s = Inr r"
  shows "(\<forall>k<length (wr_jobs r). wr_jobs r ! k \<noteq> [] \<longrightarrow> job_of_key (step_key i k) (wf_sys s) = Some (wr_jobs r ! k) \<and>
             (\<forall>m<k. wr_jobs r ! m \<in> succeeded_jobs (wf_sys s))) \<and>
         (wr_status r = WorkflowSucceeded \<longrightarrow> set (wr_jobs r) \<subseteq> succeeded_jobs (wf_sys s))"
proof -
  have inv: "wf_inv s" unfolding s by (rule workflows.run_inv [OF wf_inv_init [OF w]])
  have "mget (wf_runs s) i = Some r" using r by (simp add: GetRun_def split: option.splits)
  then have "run_ok s i r" by (rule wf_invD(4) [OF inv])
  then show ?thesis by (auto simp: run_ok_def chain_def ready_def step_job_def)
qed

section \<open>Concrete runs\<close>

definition demo_template :: run_template where
  "demo_template = \<lparr>tp_id = [], tp_name = ''site'', tp_description = [], tp_path = ''site.yml'', tp_strict = False,
     tp_defaults = [], tp_survey = [], tp_created = 0\<rparr>"

definition demo_workflow :: workflow where
  "demo_workflow = \<lparr>wk_id = [], wk_name = ''deploy'', wk_description = [],
     wk_steps = [\<lparr>ws_template = ''tpl-1'', ws_priority = []\<rparr>, \<lparr>ws_template = ''tpl-1'', ws_priority = ''high''\<rparr>], wk_created = 0\<rparr>"

definition worker_runs_job :: "wf_op list" where
  "worker_runs_job = map WSystem [LWorker, LWorker, LWorker, LWorker, LStart 5, LFinish 6 None]"

text \<open>A launch whose first job is run by the worker before the launch has noted it.\<close>

definition launched :: wf_store where
  "launched = foldl workflow_step (NewWorkflowStore idle_sys NewTemplateStore)
     [WTemplate (TCreate 0 demo_template), WCreate 0 demo_workflow, WLaunch 0 ''wf-1'' ''normal'' False]"

definition finished_early :: wf_store where
  "finished_early = foldl workflow_step launched worker_runs_job"

definition done_job :: job where
  "done_job = last (q_published (w_queue (wf_sys finished_early)))"

text \<open>a workflow can hang although its job has succeeded. The launch enqueues the first job and notes
  it only later, under the lock that it takes again; a worker that finishes the job in between publishes
  it while the store has no reference for it, so the notification is dropped. The launch then
  notes the job and marks the run as running: the job has succeeded, nothing is in flight, the only
  notification is spent, the second step has no job and the run stays in the state running.\<close>

theorem workflow_lost_completion:
  "\<exists>s j s'. s = finished_early \<and> j \<in> set (q_published (w_queue (wf_sys s))) \<and> j_status j = JobSucceeded \<and>
     workflow_step s (WJob 7 j) = s \<and> s' = workflow_step s (WNote 8 0) \<and> wf_open s' = [] \<and>
     map_option wr_status (mget (wf_runs s') ''wfrun-1'') = Some WorkflowRunning \<and>
     map_option wr_jobs (mget (wf_runs s') ''wfrun-1'') = Some [j_id j, []]"
proof -
  let ?p = "q_published (w_queue (wf_sys finished_early))" and ?s' = "workflow_step finished_early (WNote 8 0)"
  have p: "?p \<noteq> []" "j_status done_job = JobSucceeded" by code_simp+
  have refs: "mget (wf_refs finished_early) (j_id done_job) = None" by code_simp
  have "wf_open ?s' = []" "map_option wr_status (mget (wf_runs ?s') ''wfrun-1'') = Some WorkflowRunning"
    "map_option wr_jobs (mget (wf_runs ?s') ''wfrun-1'') = Some [j_id done_job, []]" by code_simp+
  moreover have "done_job \<in> set ?p" unfolding done_job_def using last_in_set [OF p(1)] .
  moreover have "workflow_step finished_early (WJob 7 done_job) = finished_early" using refs by (simp add: on_job_with_def)
  ultimately show ?thesis using p(2) by blast
qed

text \<open>The same launch with the note in time: the second step is dispatched.\<close>

definition noted :: wf_store where
  "noted = foldl workflow_step launched (WNote 1 0 # worker_runs_job)"

definition second_ops :: "wf_op list" where
  "second_ops = [WTemplate (TCreate 0 demo_template), WCreate 0 demo_workflow, WLaunch 0 ''wf-1'' ''normal'' False] @
     WNote 1 0 # worker_runs_job @ [WJob 7 (last (q_published (w_queue (wf_sys noted)))), WNote 8 0]"

definition second_step :: wf_store where
  "second_step = foldl workflow_step (NewWorkflowStore idle_sys NewTemplateStore) second_ops"

theorem workflow_in_order_witness:
  "\<exists>r. GetRun ''wfrun-1'' second_step = Inr r \<and> wr_jobs r = [job1, ''job-00010101T000000-2''] \<and>
     job1 \<in> succeeded_jobs (wf_sys second_step) \<and>
     job_of_key ''wfrun-1-step-1'' (wf_sys second_step) = Some ''job-00010101T000000-2''"
proof -
  have "map_option wr_jobs (mget (wf_runs second_step) ''wfrun-1'') = Some [job1, ''job-00010101T000000-2'']" by code_simp
  then obtain r where r: "GetRun ''wfrun-1'' second_step = Inr r" "wr_jobs r = [job1, ''job-00010101T000000-2'']"
    by (auto simp: GetRun_def)
  have key: "step_key ''wfrun-1'' 1 = ''wfrun-1-step-1''" by code_simp
  show ?thesis using workflow_in_order [OF idle_reachable second_step_def r(1)] r key by auto
qed

end
