(* ===== verification/ControlUtil.thy ===== *)
theory ControlUtil
  imports Stores "HOL-Library.Product_Lexorder"
begin

text \<open>
  What the stores of internal/control share besides their identifiers: a predicate on every item
  of a map and how updates keep it, listings sorted by time, and the small helpers that the package
  defines once and calls from many files (\<open>normalizeStringSlice\<close>, \<open>sliceContains\<close>,
  \<open>cloneStringMap\<close>). A \<^verbatim>\<open>sort.Slice\<close> is not stable and its input is the range over
  a map: it is modelled as a stable sort of the storage order, so that a statement for every
  storage order covers every order of tied items.
\<close>

named_theorems items_intros \<open>how updates of a map keep a predicate on its items\<close>

section \<open>Predicates on the items of a map\<close>

definition items_ok :: "(string \<Rightarrow> 'v \<Rightarrow> bool) \<Rightarrow> 'v gomap \<Rightarrow> bool" where
  "items_ok P m \<longleftrightarrow> (\<forall>k v. mget m k = Some v \<longrightarrow> P k v)"

lemma items_okD: "items_ok P m \<Longrightarrow> mget m k = Some v \<Longrightarrow> P k v"
  by (simp add: items_ok_def)

lemma items_okI: "(\<And>k v. mget m k = Some v \<Longrightarrow> P k v) \<Longrightarrow> items_ok P m"
  by (simp add: items_ok_def)

lemma items_ok_Nil [simp]: "items_ok P []"
  by (simp add: items_ok_def)

lemma items_ok_mput [items_intros]: "items_ok P m \<Longrightarrow> P k v \<Longrightarrow> items_ok P (mput k v m)"
  by (auto simp: items_ok_def split: if_splits)

lemma items_ok_mdel [items_intros]: "items_ok P m \<Longrightarrow> items_ok P (mdel k m)"
  by (auto simp: items_ok_def split: if_splits)

lemma items_ok_map:
  "items_ok P m \<Longrightarrow> (\<And>k v. P k v \<Longrightarrow> Q k (f k v)) \<Longrightarrow> items_ok Q (map (\<lambda>(k, v). (k, f k v)) m)"
  by (auto simp: items_ok_def mget_map_values)

lemma items_ok_mono: "items_ok P m \<Longrightarrow> (\<And>k v. P k v \<Longrightarrow> Q k v) \<Longrightarrow> items_ok Q m"
  by (simp add: items_ok_def)

text \<open>An assignment to every value of a map, as in a loop that writes through the stored pointers.\<close>

definition map_vals :: "('v \<Rightarrow> 'v) \<Rightarrow> 'v gomap \<Rightarrow> 'v gomap" where
  "map_vals f m = map (\<lambda>(k, v). (k, f v)) m"

lemma mget_map_vals [simp]: "mget (map_vals f m) k = map_option f (mget m k)"
  by (simp add: map_vals_def mget_map_values)

lemma mkeys_map_vals [simp]: "mkeys (map_vals f m) = mkeys m"
  unfolding map_vals_def by (rule mkeys_map_values)

lemma keys_step_map_vals [simp]: "keys_step pre n m n (map_vals f m)"
  unfolding map_vals_def by (rule keys_step_map)

lemma keys_step_trans_map_vals:
  "keys_step pre n m n' m' \<Longrightarrow> keys_step pre n (map_vals f m) n' m' \<longleftrightarrow> keys_step pre n m n' m'"
  by (simp add: keys_step_def wf_map_def)

lemma wf_map_map_vals [simp]: "wf_map (map_vals f m) = wf_map m"
  by (simp add: wf_map_def)

lemma keys_step_from_map_vals [simp]: "keys_step pre n (map_vals f m) n' m' = keys_step pre n m n' m'"
  by (simp add: keys_step_def)

lemma items_ok_map_vals: "items_ok P m \<Longrightarrow> (\<And>k v. P k v \<Longrightarrow> Q k (f v)) \<Longrightarrow> items_ok Q (map_vals f m)"
  unfolding map_vals_def by (rule items_ok_map)

text \<open>An entry replaced by a new version of the item that is there.\<close>

lemma keys_step_update_some: "mget m k = Some w \<Longrightarrow> keys_step pre n m n (mput k v m)"
  by (rule keys_step_update) simp

lemma keys_step_add_seq: "n' = n + 1 \<Longrightarrow> k = seq_id pre (n + 1) \<Longrightarrow> keys_step pre n m n' (mput k v m)"
  by simp

section \<open>Stores in which the last writer wins\<close>

text \<open>
  The contract of a store of items under names that the callers choose: an operation writes one entry
  (or deletes it), or none. A lookup then gives what the last operation that wrote the entry left there.
\<close>

locale last_writer =
  fixes step :: "'s \<Rightarrow> 'op \<Rightarrow> 's" and look :: "'s \<Rightarrow> 'k \<Rightarrow> 'v option" and effect :: "'op \<Rightarrow> ('k \<times> 'v option) option"
  assumes look_step: "look (step s op) k = (case effect op of Some (k', w) \<Rightarrow> if k' = k then w else look s k | None \<Rightarrow> look s k)"
begin

definition writes :: "'k \<Rightarrow> 'op \<Rightarrow> bool" where
  "writes k op \<longleftrightarrow> (\<exists>w. effect op = Some (k, w))"

lemma look_step_other: "\<not> writes k op \<Longrightarrow> look (step s op) k = look s k"
  by (auto simp: look_step writes_def split: option.split)

lemma look_step_write: "effect op = Some (k, w) \<Longrightarrow> look (step s op) k = w"
  by (simp add: look_step)

lemma look_untouched: "\<forall>op \<in> set ops. \<not> writes k op \<Longrightarrow> look (foldl step s ops) k = look s k"
  by (induction ops arbitrary: s) (simp_all add: look_step_other)

lemma look_last:
  "look (foldl step s ops) k = (case filter (writes k) ops of [] \<Rightarrow> look s k | ws \<Rightarrow> snd (the (effect (last ws))))"
proof (induction ops rule: rev_induct)
  case (snoc op ops)
  show ?case
  proof (cases "writes k op")
    case True
    then obtain w where w: "effect op = Some (k, w)" by (auto simp: writes_def)
    have snoc: "filter (writes k) (ops @ [op]) = filter (writes k) ops @ [op]" using True by simp
    then obtain y ys where ws: "filter (writes k) (ops @ [op]) = y # ys" by (cases "filter (writes k) (ops @ [op])") auto
    then have "last (y # ys) = op" using snoc by (metis last_snoc)
    then show ?thesis using w unfolding ws by (simp add: look_step)
  qed (simp add: snoc look_step_other)
qed simp

lemma look_after_write:
  assumes "effect op = Some (k, w)" "\<forall>op' \<in> set later. \<not> writes k op'"
  shows "look (foldl step (step s op) later) k = w"
  using assms by (simp add: look_untouched look_step_write)

end

section \<open>Logs of bounded length\<close>

text \<open>An append to a slice that keeps its last \<open>n\<close> elements.\<close>

definition push_capped :: "nat \<Rightarrow> 'a \<Rightarrow> 'a list \<Rightarrow> 'a list" where
  "push_capped n x xs = (let ys = xs @ [x] in if length ys > n then drop (length ys - n) ys else ys)"

lemma push_capped_drop: "push_capped n x xs = drop (Suc (length xs) - n) (xs @ [x])"
  unfolding push_capped_def Let_def by simp

lemma push_capped_length: "length (push_capped n x xs) \<le> n"
  unfolding push_capped_drop by simp

lemma push_capped_suffix: "suffix xs ys \<Longrightarrow> suffix (push_capped n x xs) (ys @ [x])"
  unfolding push_capped_drop by (rule suffix_order.trans [OF suffix_drop]) simp

lemma push_capped_lasts:
  assumes "xs = drop (length ys - n) ys"
  shows "push_capped n x xs = drop (length (ys @ [x]) - n) (ys @ [x])"
proof -
  have "xs @ [x] = drop (length ys - n) (ys @ [x])" using assms by simp
  moreover have "Suc (length xs) - n + (length ys - n) = length (ys @ [x]) - n" using assms by simp
  ultimately show ?thesis unfolding push_capped_drop by (metis drop_drop)
qed

section \<open>Sorted listings\<close>

definition newest_first :: "('a \<Rightarrow> gotime) \<Rightarrow> 'a list \<Rightarrow> 'a list" where
  "newest_first created xs = sort_key (\<lambda>x. - created x) xs"

lemma set_newest_first [simp]: "set (newest_first c xs) = set xs"
  by (simp add: newest_first_def)

lemma length_newest_first [simp]: "length (newest_first c xs) = length xs"
  by (simp add: newest_first_def)

lemma mset_newest_first [simp]: "mset (newest_first c xs) = mset xs"
  by (simp add: newest_first_def)

lemma sorted_newest_first: "sorted_wrt (\<lambda>x y. c y \<le> c x) (newest_first c xs)"
proof -
  have "sorted_wrt (\<lambda>x y. - c x \<le> - c y) (sort_key (\<lambda>x. - c x) xs)"
    using sorted_sort_key [of "\<lambda>x. - c x" xs] by (simp add: sorted_map)
  then show ?thesis by (simp add: newest_first_def)
qed

lemma set_values: "wf_map m \<Longrightarrow> x \<in> set (map snd m) \<longleftrightarrow> (\<exists>k. mget m k = Some x)"
  by (force simp: wf_map_mem [symmetric])

text \<open>The first element of a sorted list that satisfies a predicate is the least that does.\<close>

lemma find_sorted_least:
  assumes "sorted_wrt R xs" and "List.find P xs = Some x"
  shows "x \<in> set xs \<and> P x \<and> (\<forall>y \<in> set xs. P y \<longrightarrow> y = x \<or> R x y)"
  using assms by (induction xs) (auto split: if_splits)

lemma find_sort_key_least:
  assumes "List.find P (sort_key k xs) = Some x"
  shows "x \<in> set xs \<and> P x \<and> (\<forall>y \<in> set xs. P y \<longrightarrow> k x \<le> k y)"
proof -
  have "sorted_wrt (\<lambda>x y. k x \<le> k y) (sort_key k xs)"
    using sorted_sort_key [of k xs] by (simp add: sorted_map)
  from find_sorted_least [OF this assms] show ?thesis by auto
qed

lemma find_None_iff_ball: "List.find P xs = None \<longleftrightarrow> (\<forall>x \<in> set xs. \<not> P x)"
  by (induction xs) auto

section \<open>Helpers of the package\<close>

text \<open>\<^verbatim>\<open>strings.EqualFold\<close>, with the case mapping of \<open>ToLower\<close>.\<close>

definition EqualFold :: "string \<Rightarrow> string \<Rightarrow> bool" where
  "EqualFold s t \<longleftrightarrow> ToLower s = ToLower t"

text \<open>The loop of \<open>normalizeStringSlice\<close>: \<open>seen\<close> holds what \<open>out\<close> holds.\<close>

fun normalize_loop :: "string list \<Rightarrow> string list \<Rightarrow> string list" where
  "normalize_loop out [] = out"
| "normalize_loop out (x # xs) =
     (let x = lower_trim x
      in if x = [] \<or> x \<in> set out then normalize_loop out xs else normalize_loop (out @ [x]) xs)"

definition normalizeStringSlice :: "string list \<Rightarrow> string list" where
  "normalizeStringSlice xs = sort (normalize_loop [] xs)"

lemma set_normalize_loop: "set (normalize_loop out xs) = set out \<union> (lower_trim ` set xs - {[]})"
  by (induction out xs rule: normalize_loop.induct) (auto simp: Let_def)

lemma distinct_normalize_loop: "distinct out \<Longrightarrow> distinct (normalize_loop out xs)"
  by (induction out xs rule: normalize_loop.induct) (auto simp: Let_def)

lemma set_normalizeStringSlice: "set (normalizeStringSlice xs) = lower_trim ` set xs - {[]}"
  by (simp add: normalizeStringSlice_def set_normalize_loop)

lemma normalizeStringSlice_lower: "x \<in> set (normalizeStringSlice xs) \<Longrightarrow> lower_trim x = x"
  by (auto simp: set_normalizeStringSlice)

lemma normalizeStringSlice_canonical:
  "normalizeStringSlice xs = sorted_list_of_set (lower_trim ` set xs - {[]})"
proof -
  have "normalizeStringSlice xs = sorted_list_of_set (set (normalize_loop [] xs))"
    by (simp add: normalizeStringSlice_def sorted_list_of_set_sort_remdups distinct_remdups_id distinct_normalize_loop)
  then show ?thesis by (simp add: set_normalize_loop)
qed

lemma normalizeStringSlice_idem: "normalizeStringSlice (normalizeStringSlice xs) = normalizeStringSlice xs"
proof -
  have "lower_trim y = y" if "y \<in> set (normalizeStringSlice xs)" for y
    using that unfolding set_normalizeStringSlice by auto
  then have "lower_trim ` set (normalizeStringSlice xs) = set (normalizeStringSlice xs)" by simp
  then show ?thesis
    by (metis Diff_idemp normalizeStringSlice_canonical set_normalizeStringSlice)
qed

definition sliceContains :: "string list \<Rightarrow> string \<Rightarrow> bool" where
  "sliceContains values needle =
     (let needle = TrimSpace needle in needle \<noteq> [] \<and> list_ex (\<lambda>v. TrimSpace v = needle) values)"

lemma sliceContains_iff:
  "sliceContains values needle \<longleftrightarrow> TrimSpace needle \<noteq> [] \<and> TrimSpace needle \<in> TrimSpace ` set values"
  unfolding sliceContains_def Let_def list_ex_iff image_iff by metis

text \<open>\<^verbatim>\<open>hex.EncodeToString\<close>.\<close>

definition hex_digit :: "nat \<Rightarrow> char" where
  "hex_digit n = ''0123456789abcdef'' ! n"

definition hex_encode :: "string \<Rightarrow> string" where
  "hex_encode s = concat (map (\<lambda>c. [hex_digit (of_char c div 16), hex_digit (of_char c mod 16)]) s)"

lemma solid_hex_digit: "n < 16 \<Longrightarrow> solid (hex_digit n)"
proof -
  assume "n < 16"
  then have "hex_digit n \<in> set ''0123456789abcdef''" unfolding hex_digit_def by (intro nth_mem) simp
  moreover have "list_all solid ''0123456789abcdef''" by code_simp
  ultimately show ?thesis unfolding list_all_iff by blast
qed

lemma solid_hex_encode: "c \<in> set (hex_encode s) \<Longrightarrow> solid c"
proof -
  assume "c \<in> set (hex_encode s)"
  then obtain b :: char where "c = hex_digit (of_char b div 16) \<or> c = hex_digit (of_char b mod 16)" by (auto simp: hex_encode_def)
  moreover have "(of_char b :: nat) div 16 < 16" using less_mult_imp_div_less [of "of_char b" 16 16] by simp
  ultimately show ?thesis using solid_hex_digit [of "of_char b div 16"] solid_hex_digit [of "of_char b mod 16"] by auto
qed

lemma hex_digit_inj: "m < 16 \<Longrightarrow> n < 16 \<Longrightarrow> hex_digit m = hex_digit n \<longleftrightarrow> m = n"
proof -
  have "distinct ''0123456789abcdef''" by code_simp
  then show "m < 16 \<Longrightarrow> n < 16 \<Longrightarrow> hex_digit m = hex_digit n \<longleftrightarrow> m = n"
    unfolding hex_digit_def by (intro nth_eq_iff_index_eq) simp_all
qed

lemma hex_encode_inj: "hex_encode s = hex_encode t \<longleftrightarrow> s = t"
proof (induction s arbitrary: t)
  case Nil
  show ?case by (cases t) (simp_all add: hex_encode_def)
next
  case (Cons c s)
  have lt: "(of_char b :: nat) div 16 < 16" for b :: char using less_mult_imp_div_less [of "of_char b" 16 16] by simp
  show ?case
  proof (cases t)
    case (Cons d t')
    have "hex_encode (c # s) = hex_encode t \<longleftrightarrow>
        (of_char c :: nat) div 16 = of_char d div 16 \<and> (of_char c :: nat) mod 16 = of_char d mod 16 \<and> hex_encode s = hex_encode t'"
      using lt by (simp add: hex_encode_def Cons hex_digit_inj)
    also have "\<dots> \<longleftrightarrow> (of_char c :: nat) = of_char d \<and> hex_encode s = hex_encode t'" by (metis div_mult_mod_eq)
    finally show ?thesis using Cons.IH by (simp add: Cons)
  qed (simp add: hex_encode_def)
qed

text \<open>\<^verbatim>\<open>strings.Split\<close> at a separator of one character, and \<^verbatim>\<open>strings.TrimSuffix\<close>.\<close>

fun split_on :: "char \<Rightarrow> string \<Rightarrow> string list" where
  "split_on c [] = [[]]"
| "split_on c (x # xs) = (if x = c then [] # split_on c xs else (case split_on c xs of [] \<Rightarrow> [[x]] | w # ws \<Rightarrow> (x # w) # ws))"

lemma split_on_ne [simp]: "split_on c s \<noteq> []"
  by (induction s) (auto split: list.split)

lemma Join_split_on: "Join (split_on c s) [c] = s"
proof (induction s)
  case (Cons x xs)
  then show ?case by (cases "split_on c xs"; cases "tl (split_on c xs)") auto
qed simp

definition TrimSuffix :: "string \<Rightarrow> string \<Rightarrow> string" where
  "TrimSuffix s t = (if HasSuffix s t then take (length s - length t) s else s)"

text \<open>A map copied key by key with trimmed keys and values; blank keys are dropped.\<close>

definition trim_entries :: "string gomap \<Rightarrow> string gomap" where
  "trim_entries m = fold (\<lambda>(k, v) acc. if TrimSpace k = [] then acc else mput (TrimSpace k) (TrimSpace v) acc) m []"

section \<open>Decoded JSON\<close>

text \<open>Decoded JSON values (\<^verbatim>\<open>any\<close>). A number is kept as its text.\<close>

datatype json =
    JNull
  | JBool bool
  | JNum string
  | JStr string
  | JArr "json list"
  | JObj "(string \<times> json) list"

text \<open>
  The encoding of a value lists the keys of an object in order, so two values have the same encoding when
  they agree up to the order of keys. Cloning through an encoding and a decoding keeps a value.
\<close>

fun canon :: "json \<Rightarrow> json" where
  "canon (JArr vs) = JArr (map canon vs)"
| "canon (JObj m) = JObj (sort_key fst (map (\<lambda>(k, v). (k, canon v)) m))"
| "canon v = v"

end
