(* ===== verification/AccessControl.thy ===== *)
theory AccessControl
  imports ControlUtil
begin

text \<open>
  Role-based (internal/control/rbac.go) and attribute-based (abac.go) access control. A role is
  a list of permissions, a binding gives a role to a subject within a scope, and \<open>CheckAccess\<close>
  looks for one permission of one bound role; a policy of the second store allows or denies, and the
  policy of the highest priority decides. \<open>time.Now\<close> is an argument. Both checks are shown to be
  what their definition by quantifiers says, whatever the storage order of the maps.
\<close>

section \<open>Roles and bindings\<close>

record rbac_permission =
  pe_resource :: string
  pe_action :: string
  pe_scope :: string

record rbac_role =
  ro_id :: string
  ro_name :: string
  ro_description :: string
  ro_permissions :: "rbac_permission list"
  ro_created :: gotime
  ro_updated :: gotime

record rbac_role_input =
  ri_name :: string
  ri_description :: string
  ri_permissions :: "rbac_permission list"

record rbac_binding =
  bd_id :: string
  bd_subject :: string
  bd_role :: string
  bd_scope :: string
  bd_created :: gotime
  bd_updated :: gotime

record rbac_binding_input =
  bn_subject :: string
  bn_role :: string
  bn_scope :: string

record rbac_check_input =
  ck_subject :: string
  ck_resource :: string
  ck_action :: string
  ck_scope :: string

record rbac_check_result =
  cr_allowed :: bool
  cr_reason :: string
  cr_role :: string
  cr_binding :: string

record rbac_store =
  rb_next_role :: int
  rb_next_bind :: int
  rb_roles :: "rbac_role gomap"
  rb_bindings :: "rbac_binding gomap"

definition NewRBACStore :: rbac_store where
  "NewRBACStore = \<lparr>rb_next_role = 0, rb_next_bind = 0, rb_roles = [], rb_bindings = []\<rparr>"

definition normalize_permission :: "rbac_permission list \<Rightarrow> rbac_permission \<Rightarrow> rbac_permission list result" where
  "normalize_permission out p =
     (if TrimSpace (pe_resource p) = [] \<or> TrimSpace (pe_action p) = []
      then Inl ''permission resource and action are required''
      else Inr (out @ [\<lparr>pe_resource = TrimSpace (pe_resource p), pe_action = TrimSpace (pe_action p),
                        pe_scope = TrimSpace (pe_scope p)\<rparr>]))"

definition normalizeRBACPermissions :: "rbac_permission list \<Rightarrow> rbac_permission list result" where
  "normalizeRBACPermissions ps =
     (if ps = [] then Inl ''at least one permission is required'' else try_fold normalize_permission [] ps)"

definition CreateRole :: "gotime \<Rightarrow> rbac_role_input \<Rightarrow> rbac_store \<Rightarrow> rbac_store \<times> rbac_role result" where
  "CreateRole now inp s =
     (if TrimSpace (ri_name inp) = [] then (s, Inl ''name is required'')
      else case normalizeRBACPermissions (ri_permissions inp) of
        Inl e \<Rightarrow> (s, Inl e)
      | Inr ps \<Rightarrow>
          let item = \<lparr>ro_id = seq_id ''rbac-role-'' (rb_next_role s + 1), ro_name = TrimSpace (ri_name inp),
                ro_description = TrimSpace (ri_description inp), ro_permissions = ps, ro_created = now, ro_updated = now\<rparr>
          in (s\<lparr>rb_next_role := rb_next_role s + 1, rb_roles := mput (ro_id item) item (rb_roles s)\<rparr>, Inr item))"

definition ListRoles :: "rbac_store \<Rightarrow> rbac_role list" where
  "ListRoles s = newest_first ro_created (map snd (rb_roles s))"

definition GetRole :: "string \<Rightarrow> rbac_store \<Rightarrow> rbac_role option" where
  "GetRole i s = mget (rb_roles s) (TrimSpace i)"

definition CreateBinding :: "gotime \<Rightarrow> rbac_binding_input \<Rightarrow> rbac_store \<Rightarrow> rbac_store \<times> rbac_binding result" where
  "CreateBinding now inp s =
     (let subject = TrimSpace (bn_subject inp); roleID = TrimSpace (bn_role inp); scope = TrimSpace (bn_scope inp)
      in if subject = [] \<or> roleID = [] then (s, Inl ''subject and role_id are required'')
         else let scope = (if scope = [] then ''*'' else scope)
              in case mget (rb_roles s) roleID of
                   None \<Rightarrow> (s, Inl ''role not found'')
                 | Some r \<Rightarrow>
                     let item = \<lparr>bd_id = seq_id ''rbac-binding-'' (rb_next_bind s + 1), bd_subject = subject,
                           bd_role = roleID, bd_scope = scope, bd_created = now, bd_updated = now\<rparr>
                     in (s\<lparr>rb_next_bind := rb_next_bind s + 1, rb_bindings := mput (bd_id item) item (rb_bindings s)\<rparr>, Inr item))"

definition ListBindings :: "rbac_store \<Rightarrow> rbac_binding list" where
  "ListBindings s = newest_first bd_created (map snd (rb_bindings s))"

definition rbacTokenMatches :: "string \<Rightarrow> string \<Rightarrow> bool" where
  "rbacTokenMatches pattern v = (TrimSpace pattern = ''*'' \<or> TrimSpace pattern = TrimSpace v)"

definition rbacScopeMatches :: "string \<Rightarrow> string \<Rightarrow> bool" where
  "rbacScopeMatches pattern scope =
     (let pattern = TrimSpace pattern; scope = TrimSpace scope
      in pattern = [] \<or> pattern = ''*'' \<or> scope = pattern \<or> HasPrefix scope (pattern @ ''/''))"

definition permission_matches :: "string \<Rightarrow> string \<Rightarrow> string \<Rightarrow> rbac_permission \<Rightarrow> bool" where
  "permission_matches resource action scope p =
     (rbacTokenMatches (pe_resource p) resource \<and> rbacTokenMatches (pe_action p) action \<and>
      (TrimSpace (pe_scope p) = [] \<or> rbacScopeMatches (TrimSpace (pe_scope p)) scope))"

fun check_bindings :: "rbac_role gomap \<Rightarrow> string \<Rightarrow> string \<Rightarrow> string \<Rightarrow> string \<Rightarrow> rbac_binding list \<Rightarrow> rbac_check_result" where
  "check_bindings roles subject resource action scope [] =
     \<lparr>cr_allowed = False, cr_reason = ''no matching role binding permission'', cr_role = [], cr_binding = []\<rparr>"
| "check_bindings roles subject resource action scope (b # bs) =
     (if bd_subject b \<noteq> subject \<or> \<not> rbacScopeMatches (bd_scope b) scope
      then check_bindings roles subject resource action scope bs
      else case mget roles (bd_role b) of
        None \<Rightarrow> check_bindings roles subject resource action scope bs
      | Some role \<Rightarrow>
          (case List.find (permission_matches resource action scope) (ro_permissions role) of
             None \<Rightarrow> check_bindings roles subject resource action scope bs
           | Some p \<Rightarrow> \<lparr>cr_allowed = True, cr_reason = [], cr_role = ro_id role, cr_binding = bd_id b\<rparr>))"

definition CheckAccess :: "rbac_check_input \<Rightarrow> rbac_store \<Rightarrow> rbac_check_result" where
  "CheckAccess inp s =
     (let subject = TrimSpace (ck_subject inp); resource = TrimSpace (ck_resource inp);
          action = TrimSpace (ck_action inp); scope = TrimSpace (ck_scope inp)
      in if subject = [] \<or> resource = [] \<or> action = []
         then \<lparr>cr_allowed = False, cr_reason = ''subject, resource, and action are required'', cr_role = [], cr_binding = []\<rparr>
         else check_bindings (rb_roles s) subject resource action scope (map snd (rb_bindings s)))"

datatype rbac_op = RCreateRole gotime rbac_role_input | RCreateBinding gotime rbac_binding_input

fun rbac_step :: "rbac_store \<Rightarrow> rbac_op \<Rightarrow> rbac_store" where
  "rbac_step s (RCreateRole now inp) = fst (CreateRole now inp s)"
| "rbac_step s (RCreateBinding now inp) = fst (CreateBinding now inp s)"

subsection \<open>The invariant\<close>

definition permission_ok :: "rbac_permission \<Rightarrow> bool" where
  "permission_ok p \<longleftrightarrow> pe_resource p \<noteq> [] \<and> pe_action p \<noteq> [] \<and> TrimSpace (pe_resource p) = pe_resource p \<and>
     TrimSpace (pe_action p) = pe_action p \<and> TrimSpace (pe_scope p) = pe_scope p"

definition role_ok :: "string \<Rightarrow> rbac_role \<Rightarrow> bool" where
  "role_ok i r \<longleftrightarrow> ro_id r = i \<and> ro_permissions r \<noteq> [] \<and> list_all permission_ok (ro_permissions r)"

definition binding_ok :: "rbac_role gomap \<Rightarrow> string \<Rightarrow> rbac_binding \<Rightarrow> bool" where
  "binding_ok roles i b \<longleftrightarrow> bd_id b = i \<and> bd_subject b \<noteq> [] \<and> bd_scope b \<noteq> [] \<and> mget roles (bd_role b) \<noteq> None"

definition rbac_inv :: "rbac_store \<Rightarrow> bool" where
  "rbac_inv s \<longleftrightarrow> store_inv rb_roles rb_next_role ''rbac-role-'' s \<and>
     store_inv rb_bindings rb_next_bind ''rbac-binding-'' s \<and>
     items_ok role_ok (rb_roles s) \<and> items_ok (binding_ok (rb_roles s)) (rb_bindings s)"

lemma normalize_permissions_ok:
  assumes "normalizeRBACPermissions ps = Inr qs"
  shows "qs \<noteq> [] \<and> list_all permission_ok qs"
proof -
  obtain p ps' where ps: "ps = p # ps'" using assms by (cases ps) (simp_all add: normalizeRBACPermissions_def)
  then obtain q where q: "normalize_permission [] p = Inr q" "try_fold normalize_permission q ps' = Inr qs"
    using assms by (auto simp: normalizeRBACPermissions_def split: sum.splits)
  have step: "xs \<noteq> [] \<and> list_all permission_ok xs \<Longrightarrow> normalize_permission xs p = Inr ys \<Longrightarrow> ys \<noteq> [] \<and> list_all permission_ok ys"
    for xs p ys by (auto simp: normalize_permission_def permission_ok_def split: if_splits)
  have "q \<noteq> [] \<and> list_all permission_ok q"
    using q(1) by (auto simp: normalize_permission_def permission_ok_def split: if_splits)
  then show ?thesis using try_fold_invariant [OF q(2), of "\<lambda>xs. xs \<noteq> [] \<and> list_all permission_ok xs"] step by blast
qed

lemma rbac_role_keys:
  "keys_step ''rbac-role-'' (rb_next_role s) (rb_roles s) (rb_next_role (rbac_step s op)) (rb_roles (rbac_step s op))"
  by (cases op) (simp_all add: CreateRole_def CreateBinding_def Let_def split: sum.split option.split)

lemma rbac_binding_keys:
  "keys_step ''rbac-binding-'' (rb_next_bind s) (rb_bindings s) (rb_next_bind (rbac_step s op)) (rb_bindings (rbac_step s op))"
  by (cases op) (simp_all add: CreateRole_def CreateBinding_def Let_def split: sum.split option.split)

lemma binding_ok_mono:
  "items_ok (binding_ok roles) m \<Longrightarrow> items_ok (binding_ok (mput k r roles)) m"
  by (erule items_ok_mono) (simp add: binding_ok_def)

lemma rbac_step_items:
  assumes "rbac_inv s"
  shows "items_ok role_ok (rb_roles (rbac_step s op)) \<and> items_ok (binding_ok (rb_roles (rbac_step s op))) (rb_bindings (rbac_step s op))"
proof (cases op)
  case (RCreateRole now inp)
  show ?thesis
    using assms normalize_permissions_ok [of "ri_permissions inp"]
    by (auto simp: RCreateRole CreateRole_def Let_def rbac_inv_def role_ok_def split: sum.split
        intro!: items_intros binding_ok_mono)
next
  case (RCreateBinding now inp)
  show ?thesis
    using assms by (auto simp: RCreateBinding CreateBinding_def Let_def rbac_inv_def binding_ok_def split: option.split
        intro!: items_intros)
qed

lemma rbac_step_inv: "rbac_inv s \<Longrightarrow> rbac_inv (rbac_step s op)"
  using rbac_step_items [of s op]
    store_inv_step [where items = rb_roles and counter = rb_next_role, OF _ rbac_role_keys]
    store_inv_step [where items = rb_bindings and counter = rb_next_bind, OF _ rbac_binding_keys]
  unfolding rbac_inv_def by blast

interpretation rbac_role_ids: counter_store rbac_step rbac_inv rb_roles rb_next_role "''rbac-role-''"
  by unfold_locales (simp_all add: rbac_step_inv rbac_role_keys, simp add: rbac_inv_def)

interpretation rbac_binding_ids: counter_store rbac_step rbac_inv rb_bindings rb_next_bind "''rbac-binding-''"
  by unfold_locales (simp_all add: rbac_step_inv rbac_binding_keys, simp add: rbac_inv_def)

text \<open>Roles and bindings are only ever added, under identifiers that are new.\<close>

lemma rbac_step_keeps:
  assumes "rbac_inv s"
  shows "mget (rb_roles s) k = Some r \<Longrightarrow> mget (rb_roles (rbac_step s op)) k = Some r"
    and "mget (rb_bindings s) k = Some b \<Longrightarrow> mget (rb_bindings (rbac_step s op)) k = Some b"
  using store_inv_fresh [where items = rb_roles and counter = rb_next_role and s = s]
    store_inv_fresh [where items = rb_bindings and counter = rb_next_bind and s = s] assms
  by (cases op; auto simp: CreateRole_def CreateBinding_def rbac_inv_def Let_def split: sum.split option.split)+

lemma NewRBACStore_inv: "rbac_inv NewRBACStore"
  by (simp add: rbac_inv_def NewRBACStore_def store_inv_def)

subsection \<open>The decision\<close>

text \<open>Scopes form a tree whose levels are separated by slashes: a scope covers itself and what is below it.\<close>

lemma rbacScopeMatches_tree:
  "rbacScopeMatches pattern scope \<longleftrightarrow> TrimSpace pattern \<in> {[], ''*''} \<or>
     (\<exists>rest. TrimSpace scope = TrimSpace pattern @ rest \<and> (rest = [] \<or> hd rest = CHR ''/''))"
  (is "?l \<longleftrightarrow> _ \<or> ?r")
proof -
  have "(\<exists>rest. s = p @ rest \<and> (rest = [] \<or> hd rest = CHR ''/'')) \<longleftrightarrow> s = p \<or> prefix (p @ ''/'') s" for s p :: string
  proof
    assume "\<exists>rest. s = p @ rest \<and> (rest = [] \<or> hd rest = CHR ''/'')"
    then obtain rest where r: "s = p @ rest" "rest = [] \<or> hd rest = CHR ''/''" by blast
    then show "s = p \<or> prefix (p @ ''/'') s" by (cases rest) auto
  qed (auto simp: prefix_def)
  then show ?thesis by (auto simp: rbacScopeMatches_def Let_def HasPrefix_prefix)
qed

definition grants :: "rbac_role gomap \<Rightarrow> string \<Rightarrow> string \<Rightarrow> string \<Rightarrow> string \<Rightarrow> rbac_binding \<Rightarrow> rbac_role \<Rightarrow> bool" where
  "grants roles subject resource action scope b r \<longleftrightarrow>
     bd_subject b = subject \<and> rbacScopeMatches (bd_scope b) scope \<and> mget roles (bd_role b) = Some r \<and>
     (\<exists>p \<in> set (ro_permissions r). permission_matches resource action scope p)"

lemma check_bindings_sound:
  "cr_allowed (check_bindings roles subject resource action scope bs) \<Longrightarrow>
   \<exists>b \<in> set bs. \<exists>r. grants roles subject resource action scope b r \<and>
     check_bindings roles subject resource action scope bs = \<lparr>cr_allowed = True, cr_reason = [], cr_role = ro_id r, cr_binding = bd_id b\<rparr>"
proof (induction bs)
  case (Cons c bs)
  show ?case
  proof (cases "\<exists>r p. bd_subject c = subject \<and> rbacScopeMatches (bd_scope c) scope \<and> mget roles (bd_role c) = Some r \<and>
      List.find (permission_matches resource action scope) (ro_permissions r) = Some p")
    case True
    then obtain r p where r: "bd_subject c = subject" "rbacScopeMatches (bd_scope c) scope" "mget roles (bd_role c) = Some r"
      "List.find (permission_matches resource action scope) (ro_permissions r) = Some p" by blast
    from r(4) have "p \<in> set (ro_permissions r) \<and> permission_matches resource action scope p"
      by (auto simp: find_Some_iff)
    then have "grants roles subject resource action scope c r" using r by (auto simp: grants_def)
    with r show ?thesis by (intro bexI [of _ c] exI [of _ r]) simp_all
  next
    case False
    then have "check_bindings roles subject resource action scope (c # bs) = check_bindings roles subject resource action scope bs"
      by (auto split: option.split)
    with Cons show ?thesis by auto
  qed
qed simp

lemma check_bindings_complete:
  "b \<in> set bs \<Longrightarrow> grants roles subject resource action scope b r \<Longrightarrow> cr_allowed (check_bindings roles subject resource action scope bs)"
proof (induction bs)
  case (Cons c bs)
  show ?case
  proof (cases "b = c")
    case True
    then show ?thesis using Cons.prems(2) by (auto simp: grants_def find_None_iff_ball split: option.split)
  qed (use Cons in \<open>auto split: option.split\<close>)
qed simp

definition access_granted :: "rbac_store \<Rightarrow> rbac_check_input \<Rightarrow> rbac_binding \<Rightarrow> rbac_role \<Rightarrow> bool" where
  "access_granted s inp b r \<longleftrightarrow> (\<exists>k. mget (rb_bindings s) k = Some b) \<and>
     grants (rb_roles s) (TrimSpace (ck_subject inp)) (TrimSpace (ck_resource inp)) (TrimSpace (ck_action inp)) (TrimSpace (ck_scope inp)) b r"

lemma CheckAccess_decides:
  assumes "wf_map (rb_bindings s)" and "TrimSpace (ck_subject inp) \<noteq> []" "TrimSpace (ck_resource inp) \<noteq> []" "TrimSpace (ck_action inp) \<noteq> []"
  shows "cr_allowed (CheckAccess inp s) \<longleftrightarrow> (\<exists>b r. access_granted s inp b r)"
    and "cr_allowed (CheckAccess inp s) \<Longrightarrow> \<exists>b r. access_granted s inp b r \<and>
      CheckAccess inp s = \<lparr>cr_allowed = True, cr_reason = [], cr_role = ro_id r, cr_binding = bd_id b\<rparr>"
proof -
  have vals: "b \<in> set (map snd (rb_bindings s)) \<longleftrightarrow> (\<exists>k. mget (rb_bindings s) k = Some b)" for b
    by (rule set_values [OF assms(1)])
  note sound = check_bindings_sound [of "rb_roles s" "TrimSpace (ck_subject inp)" "TrimSpace (ck_resource inp)" "TrimSpace (ck_action inp)"
      "TrimSpace (ck_scope inp)" "map snd (rb_bindings s)"]
  note complete = check_bindings_complete [of _ "map snd (rb_bindings s)" "rb_roles s" "TrimSpace (ck_subject inp)" "TrimSpace (ck_resource inp)"
      "TrimSpace (ck_action inp)" "TrimSpace (ck_scope inp)"]
  have eq: "CheckAccess inp s = check_bindings (rb_roles s) (TrimSpace (ck_subject inp)) (TrimSpace (ck_resource inp))
      (TrimSpace (ck_action inp)) (TrimSpace (ck_scope inp)) (map snd (rb_bindings s))"
    using assms(2-) by (simp add: CheckAccess_def Let_def)
  show "cr_allowed (CheckAccess inp s) \<Longrightarrow> \<exists>b r. access_granted s inp b r \<and>
      CheckAccess inp s = \<lparr>cr_allowed = True, cr_reason = [], cr_role = ro_id r, cr_binding = bd_id b\<rparr>"
    using sound vals unfolding eq access_granted_def by metis
  then show "cr_allowed (CheckAccess inp s) \<longleftrightarrow> (\<exists>b r. access_granted s inp b r)"
    using complete vals unfolding eq access_granted_def by blast
qed

lemma CheckAccess_blank:
  "TrimSpace (ck_subject inp) = [] \<or> TrimSpace (ck_resource inp) = [] \<or> TrimSpace (ck_action inp) = [] \<Longrightarrow>
   \<not> cr_allowed (CheckAccess inp s) \<and> cr_reason (CheckAccess inp s) = ''subject, resource, and action are required''"
  by (auto simp: CheckAccess_def Let_def)

text \<open>C21: after any sequence of role and binding creations, an access check with a subject, a
  resource and an action is allowed exactly when some binding of the subject, whose scope covers the
  requested one, names a role with a permission for the resource and the action; the role and the binding
  that the answer names are such ones, every binding has its role, and creating more never takes an
  access away.\<close>

theorem CheckAccess_exact:
  assumes "TrimSpace (ck_subject inp) \<noteq> []" "TrimSpace (ck_resource inp) \<noteq> []" "TrimSpace (ck_action inp) \<noteq> []"
    and s: "s = foldl rbac_step NewRBACStore ops"
  shows "(cr_allowed (CheckAccess inp s) \<longleftrightarrow> (\<exists>b r. access_granted s inp b r)) \<and>
    (cr_allowed (CheckAccess inp s) \<longrightarrow>
       (\<exists>b r. access_granted s inp b r \<and> cr_role (CheckAccess inp s) = ro_id r \<and> cr_binding (CheckAccess inp s) = bd_id b \<and>
          mget (rb_roles s) (ro_id r) = Some r \<and> mget (rb_bindings s) (bd_id b) = Some b)) \<and>
    (cr_allowed (CheckAccess inp s) \<longrightarrow> cr_allowed (CheckAccess inp (rbac_step s op)))"
proof -
  have inv: "rbac_inv s" unfolding s by (rule rbac_role_ids.run_inv [OF NewRBACStore_inv])
  have inv': "rbac_inv (rbac_step s op)" by (rule rbac_step_inv [OF inv])
  have wf: "wf_map (rb_bindings s)" "wf_map (rb_bindings (rbac_step s op))"
    using inv inv' by (simp_all add: rbac_inv_def store_inv_def)
  have ids: "mget (rb_roles s) (ro_id r) = Some r \<and> mget (rb_bindings s) (bd_id b) = Some b" if "access_granted s inp b r" for b r
  proof -
    from that obtain k where k: "mget (rb_bindings s) k = Some b" "mget (rb_roles s) (bd_role b) = Some r"
      by (auto simp: access_granted_def grants_def)
    then have "bd_id b = k" "ro_id r = bd_role b"
      using inv by (auto simp: rbac_inv_def binding_ok_def role_ok_def dest: items_okD)
    with k show ?thesis by simp
  qed
  have mono: "access_granted (rbac_step s op) inp b r" if "access_granted s inp b r" for b r
    using that rbac_step_keeps [OF inv] unfolding access_granted_def grants_def by blast
  have "\<exists>b r. access_granted s inp b r \<and> cr_role (CheckAccess inp s) = ro_id r \<and> cr_binding (CheckAccess inp s) = bd_id b \<and>
          mget (rb_roles s) (ro_id r) = Some r \<and> mget (rb_bindings s) (bd_id b) = Some b"
    if "cr_allowed (CheckAccess inp s)"
    using CheckAccess_decides(2) [OF wf(1) assms(1-3) that] ids by force
  then show ?thesis using CheckAccess_decides(1) [OF wf(1) assms(1-3)] CheckAccess_decides(1) [OF wf(2) assms(1-3)] mono by blast
qed

theorem CheckAccess_exact_witness:
  "let s = foldl rbac_step NewRBACStore
       [RCreateRole 1 \<lparr>ri_name = ''op'', ri_description = [], ri_permissions = [\<lparr>pe_resource = ''run'', pe_action = ''*'', pe_scope = []\<rparr>]\<rparr>,
        RCreateBinding 2 \<lparr>bn_subject = ''ann'', bn_role = ''rbac-role-1'', bn_scope = ''prod''\<rparr>];
       inp = (\<lambda>scope. \<lparr>ck_subject = '' ann'', ck_resource = ''run'', ck_action = ''start'', ck_scope = scope\<rparr>)
   in cr_allowed (CheckAccess (inp ''prod/eu'') s) \<and> (\<exists>b r. access_granted s (inp ''prod/eu'') b r) \<and>
      \<not> cr_allowed (CheckAccess (inp ''production'') s) \<and> (\<nexists>b r. access_granted s (inp ''production'') b r)"
proof -
  define ops where "ops = [RCreateRole 1 \<lparr>ri_name = ''op'', ri_description = [], ri_permissions = [\<lparr>pe_resource = ''run'', pe_action = ''*'', pe_scope = []\<rparr>]\<rparr>,
        RCreateBinding 2 \<lparr>bn_subject = ''ann'', bn_role = ''rbac-role-1'', bn_scope = ''prod''\<rparr>]"
  define inp where "inp scope = \<lparr>ck_subject = '' ann'', ck_resource = ''run'', ck_action = ''start'', ck_scope = scope\<rparr>" for scope
  have nonblank: "TrimSpace (ck_subject (inp scope)) \<noteq> []" "TrimSpace (ck_resource (inp scope)) \<noteq> []"
    "TrimSpace (ck_action (inp scope)) \<noteq> []" for scope by (simp_all add: inp_def) code_simp+
  have "cr_allowed (CheckAccess (inp ''prod/eu'') (foldl rbac_step NewRBACStore ops))"
    "\<not> cr_allowed (CheckAccess (inp ''production'') (foldl rbac_step NewRBACStore ops))"
    unfolding inp_def ops_def by code_simp+
  then show ?thesis using CheckAccess_exact [OF nonblank refl] unfolding Let_def ops_def [symmetric] inp_def [symmetric] by blast
qed

section \<open>Policies with priorities\<close>

record abac_policy =
  ap_id :: string
  ap_name :: string
  ap_effect :: string
  ap_subject :: string
  ap_resource :: string
  ap_action :: string
  ap_conditions :: "string gomap"
  ap_priority :: int
  ap_created :: gotime
  ap_updated :: gotime

record abac_policy_input =
  ai_name :: string
  ai_effect :: string
  ai_subject :: string
  ai_resource :: string
  ai_action :: string
  ai_conditions :: "string gomap"
  ai_priority :: int

record abac_check_input =
  ac_subject :: string
  ac_resource :: string
  ac_action :: string
  ac_context :: "string gomap"

record abac_check_result =
  ar_allowed :: bool
  ar_reason :: string
  ar_policy :: string

record abac_store =
  ab_next :: int
  ab_policies :: "abac_policy gomap"

definition NewABACStore :: abac_store where
  "NewABACStore = \<lparr>ab_next = 0, ab_policies = []\<rparr>"

definition CreatePolicy :: "gotime \<Rightarrow> abac_policy_input \<Rightarrow> abac_store \<Rightarrow> abac_store \<times> abac_policy result" where
  "CreatePolicy now inp s =
     (let name = TrimSpace (ai_name inp); effect = lower_trim (ai_effect inp); subject = TrimSpace (ai_subject inp);
          resource = TrimSpace (ai_resource inp); action = TrimSpace (ai_action inp)
      in if name = [] \<or> effect = [] \<or> subject = [] \<or> resource = [] \<or> action = []
         then (s, Inl ''name, effect, subject, resource, and action are required'')
         else if effect \<noteq> ''allow'' \<and> effect \<noteq> ''deny'' then (s, Inl ''effect must be allow or deny'')
         else let item = \<lparr>ap_id = seq_id ''abac-policy-'' (ab_next s + 1), ap_name = name, ap_effect = effect, ap_subject = subject,
                    ap_resource = resource, ap_action = action, ap_conditions = trim_entries (ai_conditions inp),
                    ap_priority = ai_priority inp, ap_created = now, ap_updated = now\<rparr>
              in (s\<lparr>ab_next := ab_next s + 1, ab_policies := mput (ap_id item) item (ab_policies s)\<rparr>, Inr item))"

definition ListPolicies :: "abac_store \<Rightarrow> abac_policy list" where
  "ListPolicies s = sort_key (\<lambda>p. (- ap_priority p, - ap_created p)) (map snd (ab_policies s))"

definition abacTokenMatch :: "string \<Rightarrow> string \<Rightarrow> bool" where
  "abacTokenMatch pattern v = (TrimSpace pattern = ''*'' \<or> TrimSpace pattern = TrimSpace v)"

definition abacConditionsMatch :: "string gomap \<Rightarrow> string gomap \<Rightarrow> bool" where
  "abacConditionsMatch conditions context_m =
     list_all (\<lambda>(k, expected). TrimSpace (mget_or [] context_m k) = expected) conditions"

definition policy_matches :: "string \<Rightarrow> string \<Rightarrow> string \<Rightarrow> string gomap \<Rightarrow> abac_policy \<Rightarrow> bool" where
  "policy_matches subject resource action context_m p =
     (abacTokenMatch (ap_subject p) subject \<and> abacTokenMatch (ap_resource p) resource \<and>
      abacTokenMatch (ap_action p) action \<and> abacConditionsMatch (ap_conditions p) context_m)"

definition Check_abac :: "abac_check_input \<Rightarrow> abac_store \<Rightarrow> abac_check_result" where
  "Check_abac inp s =
     (let subject = TrimSpace (ac_subject inp); resource = TrimSpace (ac_resource inp); action = TrimSpace (ac_action inp)
      in if subject = [] \<or> resource = [] \<or> action = []
         then \<lparr>ar_allowed = False, ar_reason = ''subject, resource, and action are required'', ar_policy = []\<rparr>
         else case List.find (policy_matches subject resource action (ac_context inp)) (ListPolicies s) of
                None \<Rightarrow> \<lparr>ar_allowed = False, ar_reason = ''no matching abac policy'', ar_policy = []\<rparr>
              | Some p \<Rightarrow>
                  if ap_effect p = ''deny'' then \<lparr>ar_allowed = False, ar_reason = ''denied by policy'', ar_policy = ap_id p\<rparr>
                  else \<lparr>ar_allowed = True, ar_reason = [], ar_policy = ap_id p\<rparr>)"

definition abac_step :: "abac_store \<Rightarrow> gotime \<times> abac_policy_input \<Rightarrow> abac_store" where
  "abac_step s op = fst (CreatePolicy (fst op) (snd op) s)"

definition policy_ok :: "string \<Rightarrow> abac_policy \<Rightarrow> bool" where
  "policy_ok i p \<longleftrightarrow> ap_id p = i \<and> ap_effect p \<in> {''allow'', ''deny''} \<and> ap_subject p \<noteq> [] \<and> ap_resource p \<noteq> [] \<and> ap_action p \<noteq> []"

definition abac_inv :: "abac_store \<Rightarrow> bool" where
  "abac_inv s \<longleftrightarrow> store_inv ab_policies ab_next ''abac-policy-'' s \<and> items_ok policy_ok (ab_policies s)"

lemma abac_keys:
  "keys_step ''abac-policy-'' (ab_next s) (ab_policies s) (ab_next (abac_step s op)) (ab_policies (abac_step s op))"
  by (simp add: abac_step_def CreatePolicy_def Let_def)

lemma abac_step_inv: "abac_inv s \<Longrightarrow> abac_inv (abac_step s op)"
  using store_inv_step [where items = ab_policies and counter = ab_next, OF _ abac_keys]
  by (auto simp: abac_inv_def abac_step_def CreatePolicy_def policy_ok_def Let_def intro!: items_intros)

interpretation abac_ids: counter_store abac_step abac_inv ab_policies ab_next "''abac-policy-''"
  by unfold_locales (simp_all add: abac_step_inv abac_keys, simp add: abac_inv_def)

lemma NewABACStore_inv: "abac_inv NewABACStore"
  by (simp add: abac_inv_def NewABACStore_def store_inv_def)

text \<open>The policies that apply to a request, and the one that decides it.\<close>

definition applies :: "abac_store \<Rightarrow> abac_check_input \<Rightarrow> abac_policy \<Rightarrow> bool" where
  "applies s inp p \<longleftrightarrow> mget (ab_policies s) (ap_id p) = Some p \<and>
     policy_matches (TrimSpace (ac_subject inp)) (TrimSpace (ac_resource inp)) (TrimSpace (ac_action inp)) (ac_context inp) p"

text \<open>\<open>p\<close> comes before every other policy that applies: it has the highest priority, and among those of
  that priority none is newer.\<close>

definition outranks :: "abac_policy \<Rightarrow> abac_policy \<Rightarrow> bool" where
  "outranks p q \<longleftrightarrow> ap_priority q < ap_priority p \<or> (ap_priority q = ap_priority p \<and> ap_created q \<le> ap_created p)"

lemma outranks_key: "outranks p q \<longleftrightarrow> (- ap_priority p, - ap_created p) \<le> (- ap_priority q, - ap_created q)"
  by (auto simp: outranks_def)

text \<open>after any sequence of policy creations, the policy that \<^verbatim>\<open>Check\<close> names applies to the request
  and outranks every other that applies, and access is given exactly when that policy allows; a request
  to which no policy applies is refused. So a deny policy of a higher priority than every applicable allow
  policy cannot be bypassed, while a deny policy does not override an allow policy of equal priority that
  was created later.\<close>

theorem Check_abac_decides:
  assumes "TrimSpace (ac_subject inp) \<noteq> []" "TrimSpace (ac_resource inp) \<noteq> []" "TrimSpace (ac_action inp) \<noteq> []"
    and s: "s = foldl abac_step NewABACStore ops"
  shows "if \<exists>p. applies s inp p
    then \<exists>p. applies s inp p \<and> (\<forall>q. applies s inp q \<longrightarrow> outranks p q) \<and>
           ar_policy (Check_abac inp s) = ap_id p \<and> (ar_allowed (Check_abac inp s) \<longleftrightarrow> ap_effect p = ''allow'')
    else \<not> ar_allowed (Check_abac inp s) \<and> ar_policy (Check_abac inp s) = []"
proof -
  let ?P = "policy_matches (TrimSpace (ac_subject inp)) (TrimSpace (ac_resource inp)) (TrimSpace (ac_action inp)) (ac_context inp)"
  have inv: "abac_inv s" unfolding s by (rule abac_ids.run_inv [OF NewABACStore_inv])
  then have wf: "wf_map (ab_policies s)" and ok: "mget (ab_policies s) k = Some p \<Longrightarrow> policy_ok k p" for k p
    by (auto simp: abac_inv_def store_inv_def dest: items_okD)
  have mem: "p \<in> set (map snd (ab_policies s)) \<and> ?P p \<longleftrightarrow> applies s inp p" for p
    using ok unfolding set_values [OF wf] applies_def policy_ok_def by blast
  show ?thesis
  proof (cases "List.find ?P (ListPolicies s)")
    case None
    then have "\<nexists>p. applies s inp p" using mem by (auto simp: find_None_iff_ball ListPolicies_def simp del: set_map)
    then show ?thesis using assms(1-3) None by (simp add: Check_abac_def Let_def)
  next
    case (Some p)
    from find_sort_key_least [OF this [unfolded ListPolicies_def]]
    have p: "applies s inp p" "\<And>q. applies s inp q \<Longrightarrow> outranks p q" using mem by (auto simp: outranks_key simp del: set_map)
    have "ap_effect p \<in> {''allow'', ''deny''}" using p(1) ok [of "ap_id p" p] by (simp add: applies_def policy_ok_def)
    then have "ar_policy (Check_abac inp s) = ap_id p \<and> (ar_allowed (Check_abac inp s) \<longleftrightarrow> ap_effect p = ''allow'')"
      using assms(1-3) Some by (auto simp: Check_abac_def Let_def)
    with p show ?thesis by auto
  qed
qed

theorem Check_abac_decides_witness:
  "let pol = (\<lambda>e n. \<lparr>ai_name = ''p'', ai_effect = e, ai_subject = ''*'', ai_resource = ''db'', ai_action = ''*'', ai_conditions = [(''env'', ''prod'')], ai_priority = n\<rparr>);
       s = foldl abac_step NewABACStore [(1, pol ''Deny'' 5), (2, pol ''allow'' 3)];
       inp = \<lparr>ac_subject = ''ann'', ac_resource = ''db'', ac_action = ''read'', ac_context = [(''env'', ''prod '')]\<rparr>
   in \<not> ar_allowed (Check_abac inp s) \<and>
      (\<exists>p. applies s inp p \<and> ar_policy (Check_abac inp s) = ap_id p \<and> ap_effect p \<noteq> ''allow'')"
proof -
  define pol where "pol e n = \<lparr>ai_name = ''p'', ai_effect = e, ai_subject = ''*'', ai_resource = ''db'', ai_action = ''*'',
    ai_conditions = [(''env'', ''prod'')], ai_priority = n\<rparr>" for e :: string and n :: int
  define ops where "ops = [(1, pol ''Deny'' 5), (2 :: gotime, pol ''allow'' 3)]"
  define inp where "inp = \<lparr>ac_subject = ''ann'', ac_resource = ''db'', ac_action = ''read'', ac_context = [(''env'', ''prod '')]\<rparr>"
  have nonblank: "TrimSpace (ac_subject inp) \<noteq> []" "TrimSpace (ac_resource inp) \<noteq> []" "TrimSpace (ac_action inp) \<noteq> []"
    by (simp_all add: inp_def) code_simp+
  have "\<not> ar_allowed (Check_abac inp (foldl abac_step NewABACStore ops))" "ar_policy (Check_abac inp (foldl abac_step NewABACStore ops)) \<noteq> []"
    unfolding inp_def ops_def pol_def by code_simp+
  then show ?thesis using Check_abac_decides [OF nonblank refl, of ops]
    unfolding Let_def ops_def [symmetric] inp_def [symmetric] pol_def [symmetric]
    by (auto split: if_splits)
qed

end
