(* ===== verification/BreakGlass.thy ===== *)
theory BreakGlass
  imports ControlUtil
begin

text \<open>
  Break-glass requests with staged quorum approvals (internal/control/access_approvals.go). A policy
  is a list of stages with a number of approvals each; a request copies the stages of its policy and
  becomes active when every stage in turn has its approvals. The invariant ties the stage counter and
  the status to the recorded approvals, so that no request is active without them.
\<close>

record stage_rule =
  sg_name :: string
  sg_required :: int

record approval_policy =
  qp_id :: string
  qp_name :: string
  qp_stages :: "stage_rule list"
  qp_created :: gotime
  qp_updated :: gotime

datatype bg_status = BreakGlassPending | BreakGlassActive | BreakGlassRejected | BreakGlassRevoked | BreakGlassExpired

record bg_approval =
  ba_actor :: string
  ba_decision :: string
  ba_comment :: string
  ba_stage :: int
  ba_stage_name :: string
  ba_created :: gotime

record bg_request =
  bg_id :: string
  bg_requested_by :: string
  bg_reason :: string
  bg_scope :: string
  bg_policy :: string
  bg_policy_name :: string
  bg_stages :: "stage_rule list"
  bg_current :: int
  bg_status :: bg_status
  bg_approvals :: "bg_approval list"
  bg_ttl :: int
  bg_created :: gotime
  bg_updated :: gotime
  bg_activated :: "gotime option"
  bg_expires :: "gotime option"
  bg_rejected :: "gotime option"
  bg_revoked :: "gotime option"
  bg_rejection_reason :: string

record bg_input =
  bq_requested_by :: string
  bq_reason :: string
  bq_scope :: string
  bq_policy :: string
  bq_ttl :: int

record approval_store =
  as_next_policy :: int
  as_next_request :: int
  as_policies :: "approval_policy gomap"
  as_requests :: "bg_request gomap"

definition NewAccessApprovalStore :: approval_store where
  "NewAccessApprovalStore = \<lparr>as_next_policy = 0, as_next_request = 0, as_policies = [], as_requests = []\<rparr>"

definition normalize_stage :: "nat \<Rightarrow> stage_rule \<Rightarrow> stage_rule" where
  "normalize_stage i st =
     \<lparr>sg_name = (if TrimSpace (sg_name st) = [] then ''stage-'' @ itoa (int (i + 1)) else TrimSpace (sg_name st)),
      sg_required = (if sg_required st \<le> 0 then 1 else sg_required st)\<rparr>"

definition normalizeApprovalStages :: "stage_rule list \<Rightarrow> stage_rule list result" where
  "normalizeApprovalStages sts =
     (if sts = [] then Inl ''at least one approval stage is required''
      else Inr (map (\<lambda>(i, st). normalize_stage i st) (enumerate 0 sts)))"

definition CreateApprovalPolicy :: "gotime \<Rightarrow> string \<Rightarrow> stage_rule list \<Rightarrow> approval_store \<Rightarrow> approval_store \<times> approval_policy result" where
  "CreateApprovalPolicy now name sts s =
     (if TrimSpace name = [] then (s, Inl ''name is required'')
      else case normalizeApprovalStages sts of
        Inl e \<Rightarrow> (s, Inl e)
      | Inr stages \<Rightarrow>
          let item = \<lparr>qp_id = seq_id ''approval-policy-'' (as_next_policy s + 1), qp_name = TrimSpace name, qp_stages = stages,
                qp_created = now, qp_updated = now\<rparr>
          in (s\<lparr>as_next_policy := as_next_policy s + 1, as_policies := mput (qp_id item) item (as_policies s)\<rparr>, Inr item))"

definition ListApprovalPolicies :: "approval_store \<Rightarrow> approval_policy list" where
  "ListApprovalPolicies s = newest_first qp_created (map snd (as_policies s))"

definition GetPolicy :: "string \<Rightarrow> approval_store \<Rightarrow> approval_policy option" where
  "GetPolicy i s = mget (as_policies s) (TrimSpace i)"

definition CreateBreakGlassRequest :: "gotime \<Rightarrow> bg_input \<Rightarrow> approval_store \<Rightarrow> approval_store \<times> bg_request result" where
  "CreateBreakGlassRequest now inp s =
     (let requestedBy = TrimSpace (bq_requested_by inp); reason = TrimSpace (bq_reason inp);
          scope = TrimSpace (bq_scope inp); policyID = TrimSpace (bq_policy inp)
      in if requestedBy = [] \<or> reason = [] \<or> scope = [] \<or> policyID = []
         then (s, Inl ''requested_by, reason, scope, and policy_id are required'')
         else let ttl = (if bq_ttl inp \<le> 0 then 3600 else bq_ttl inp)
              in if ttl < 300 then (s, Inl ''ttl_seconds must be >= 300'')
                 else if ttl > 86400 then (s, Inl ''ttl_seconds must be <= 86400'')
                 else case mget (as_policies s) policyID of
                        None \<Rightarrow> (s, Inl ''approval policy not found'')
                      | Some policy \<Rightarrow>
                          let req = \<lparr>bg_id = seq_id ''breakglass-'' (as_next_request s + 1), bg_requested_by = requestedBy,
                                bg_reason = reason, bg_scope = scope, bg_policy = qp_id policy, bg_policy_name = qp_name policy,
                                bg_stages = qp_stages policy, bg_current = 0, bg_status = BreakGlassPending, bg_approvals = [],
                                bg_ttl = ttl, bg_created = now, bg_updated = now, bg_activated = None, bg_expires = None,
                                bg_rejected = None, bg_revoked = None, bg_rejection_reason = []\<rparr>
                          in (s\<lparr>as_next_request := as_next_request s + 1, as_requests := mput (bg_id req) req (as_requests s)\<rparr>, Inr req))"

definition expire_request :: "gotime \<Rightarrow> bg_request \<Rightarrow> bg_request" where
  "expire_request now r =
     (case bg_expires r of
        None \<Rightarrow> r
      | Some t \<Rightarrow> if bg_status r = BreakGlassActive \<and> \<not> now < t then r\<lparr>bg_status := BreakGlassExpired, bg_updated := now\<rparr> else r)"

definition expireBreakGlassRequestsLocked :: "gotime \<Rightarrow> approval_store \<Rightarrow> approval_store" where
  "expireBreakGlassRequestsLocked now s = s\<lparr>as_requests := map_vals (expire_request now) (as_requests s)\<rparr>"

definition ListBreakGlassRequests :: "gotime \<Rightarrow> approval_store \<Rightarrow> approval_store \<times> bg_request list" where
  "ListBreakGlassRequests now s =
     (let s = expireBreakGlassRequestsLocked now s in (s, newest_first bg_created (map snd (as_requests s))))"

definition GetBreakGlassRequest :: "gotime \<Rightarrow> string \<Rightarrow> approval_store \<Rightarrow> approval_store \<times> bg_request option" where
  "GetBreakGlassRequest now i s =
     (let s = expireBreakGlassRequestsLocked now s in (s, mget (as_requests s) (TrimSpace i)))"

definition countApprovalsForStage :: "bg_request \<Rightarrow> int \<Rightarrow> int" where
  "countApprovalsForStage r stageIndex =
     int (length (filter (\<lambda>a. ba_stage a = stageIndex \<and> ba_decision a = ''approve'') (bg_approvals r)))"

definition add_decision :: "gotime \<Rightarrow> string \<Rightarrow> string \<Rightarrow> string \<Rightarrow> string \<Rightarrow> bg_request \<Rightarrow> bg_request" where
  "add_decision now actor decision comment stageName r =
     r\<lparr>bg_approvals := bg_approvals r @ [\<lparr>ba_actor = actor, ba_decision = decision, ba_comment = TrimSpace comment,
         ba_stage = bg_current r, ba_stage_name = stageName, ba_created = now\<rparr>]\<rparr>"

text \<open>What an accepted approval does to the request: the decision is recorded, a full stage moves the
  counter, and past the last stage the request becomes active for its time to live.\<close>

definition advance :: "gotime \<Rightarrow> stage_rule \<Rightarrow> bg_request \<Rightarrow> bg_request" where
  "advance now stage r =
     (if countApprovalsForStage r (bg_current r) \<ge> sg_required stage
      then let r = r\<lparr>bg_current := bg_current r + 1\<rparr>
           in if bg_current r \<ge> int (length (bg_stages r))
              then r\<lparr>bg_status := BreakGlassActive, bg_activated := Some now, bg_expires := Some (now + seconds (bg_ttl r))\<rparr>
              else r
      else r)"

definition approve_request :: "gotime \<Rightarrow> string \<Rightarrow> string \<Rightarrow> bg_request \<Rightarrow> bg_request result" where
  "approve_request now actor comment r =
     (if bg_status r \<noteq> BreakGlassPending then Inl ''break-glass request is not pending approval''
      else if bg_current r < 0 \<or> bg_current r \<ge> int (length (bg_stages r)) then Inl ''break-glass stage index out of range''
      else let stage = bg_stages r ! nat (bg_current r)
           in if list_ex (\<lambda>a. ba_stage a = bg_current r \<and> EqualFold (ba_actor a) actor) (bg_approvals r)
              then Inl ''actor has already approved current stage''
              else Inr ((advance now stage (add_decision now actor ''approve'' comment (sg_name stage) r))\<lparr>bg_updated := now\<rparr>))"

definition reject_request :: "gotime \<Rightarrow> string \<Rightarrow> string \<Rightarrow> bg_request \<Rightarrow> bg_request result" where
  "reject_request now actor comment r =
     (if bg_status r \<noteq> BreakGlassPending then Inl ''break-glass request is not pending approval''
      else let stageName = (if bg_current r \<ge> 0 \<and> bg_current r < int (length (bg_stages r)) then sg_name (bg_stages r ! nat (bg_current r)) else ''pending'')
           in Inr ((add_decision now actor ''reject'' comment stageName r)\<lparr>bg_status := BreakGlassRejected, bg_rejected := Some now,
                bg_rejection_reason := TrimSpace comment, bg_updated := now\<rparr>))"

definition revoke_request :: "gotime \<Rightarrow> string \<Rightarrow> string \<Rightarrow> bg_request \<Rightarrow> bg_request result" where
  "revoke_request now actor reason r =
     (if bg_status r \<noteq> BreakGlassPending \<and> bg_status r \<noteq> BreakGlassActive
      then Inl ''break-glass request cannot be revoked from current status''
      else let stageName = (if bg_current r \<ge> 0 \<and> bg_current r < int (length (bg_stages r)) then sg_name (bg_stages r ! nat (bg_current r)) else ''revoke'')
           in Inr ((add_decision now actor ''revoke'' reason stageName r)\<lparr>bg_status := BreakGlassRevoked, bg_revoked := Some now, bg_updated := now\<rparr>))"

text \<open>The frame that the three decisions share: the checks on the arguments, the expiry sweep, the lookup.\<close>

definition decide :: "(bg_request \<Rightarrow> bg_request result) \<Rightarrow> gotime \<Rightarrow> string \<Rightarrow> string \<Rightarrow> approval_store \<Rightarrow> approval_store \<times> bg_request result" where
  "decide f now i actor s =
     (if TrimSpace actor = [] then (s, Inl ''actor is required'')
      else let s = expireBreakGlassRequestsLocked now s
           in case mget (as_requests s) (TrimSpace i) of
                None \<Rightarrow> (s, Inl ''break-glass request not found'')
              | Some r \<Rightarrow>
                  (case f r of
                     Inl e \<Rightarrow> (s, Inl e)
                   | Inr r' \<Rightarrow> (s\<lparr>as_requests := mput (TrimSpace i) r' (as_requests s)\<rparr>, Inr r')))"

definition ApproveBreakGlassRequest :: "gotime \<Rightarrow> string \<Rightarrow> string \<Rightarrow> string \<Rightarrow> approval_store \<Rightarrow> approval_store \<times> bg_request result" where
  "ApproveBreakGlassRequest now i actor comment s = decide (approve_request now (TrimSpace actor) comment) now i actor s"

definition RejectBreakGlassRequest :: "gotime \<Rightarrow> string \<Rightarrow> string \<Rightarrow> string \<Rightarrow> approval_store \<Rightarrow> approval_store \<times> bg_request result" where
  "RejectBreakGlassRequest now i actor comment s = decide (reject_request now (TrimSpace actor) comment) now i actor s"

definition RevokeBreakGlassRequest :: "gotime \<Rightarrow> string \<Rightarrow> string \<Rightarrow> string \<Rightarrow> approval_store \<Rightarrow> approval_store \<times> bg_request result" where
  "RevokeBreakGlassRequest now i actor reason s = decide (revoke_request now (TrimSpace actor) reason) now i actor s"

datatype bg_op =
    BgPolicy gotime string "stage_rule list"
  | BgCreate gotime bg_input
  | BgList gotime
  | BgGet gotime string
  | BgApprove gotime string string string
  | BgReject gotime string string string
  | BgRevoke gotime string string string

fun bg_step :: "approval_store \<Rightarrow> bg_op \<Rightarrow> approval_store" where
  "bg_step s (BgPolicy now name sts) = fst (CreateApprovalPolicy now name sts s)"
| "bg_step s (BgCreate now inp) = fst (CreateBreakGlassRequest now inp s)"
| "bg_step s (BgList now) = fst (ListBreakGlassRequests now s)"
| "bg_step s (BgGet now i) = fst (GetBreakGlassRequest now i s)"
| "bg_step s (BgApprove now i actor comment) = fst (ApproveBreakGlassRequest now i actor comment s)"
| "bg_step s (BgReject now i actor comment) = fst (RejectBreakGlassRequest now i actor comment s)"
| "bg_step s (BgRevoke now i actor reason) = fst (RevokeBreakGlassRequest now i actor reason s)"

section \<open>The quorum\<close>

text \<open>The people who approved a stage, up to the case of their names.\<close>

definition approvers :: "bg_request \<Rightarrow> int \<Rightarrow> string set" where
  "approvers r k = set (map (\<lambda>a. ToLower (ba_actor a)) (filter (\<lambda>a. ba_stage a = k \<and> ba_decision a = ''approve'') (bg_approvals r)))"

definition stage_done :: "bg_request \<Rightarrow> nat \<Rightarrow> bool" where
  "stage_done r k \<longleftrightarrow> sg_required (bg_stages r ! k) \<le> int (card (approvers r (int k)))"

definition quorum :: "bg_request \<Rightarrow> bool" where
  "quorum r \<longleftrightarrow> (\<forall>k < length (bg_stages r). stage_done r k)"

text \<open>While a request is pending every recorded decision is an approval by a different actor, and the
  stages before the current one are full.\<close>

definition distinct_approvals :: "bg_request \<Rightarrow> bool" where
  "distinct_approvals r \<longleftrightarrow> distinct (map (\<lambda>a. (ba_stage a, ToLower (ba_actor a))) (filter (\<lambda>a. ba_decision a = ''approve'') (bg_approvals r)))"

definition activated_ok :: "bg_request \<Rightarrow> bool" where
  "activated_ok r \<longleftrightarrow> (case bg_activated r of
       None \<Rightarrow> bg_expires r = None \<and> bg_status r \<notin> {BreakGlassActive, BreakGlassExpired}
     | Some t \<Rightarrow> bg_expires r = Some (t + seconds (bg_ttl r)) \<and> quorum r \<and> bg_status r \<notin> {BreakGlassPending, BreakGlassRejected})"

definition request_ok :: "string \<Rightarrow> bg_request \<Rightarrow> bool" where
  "request_ok i r \<longleftrightarrow> bg_id r = i \<and> bg_stages r \<noteq> [] \<and> (\<forall>st \<in> set (bg_stages r). 1 \<le> sg_required st) \<and>
     300 \<le> bg_ttl r \<and> bg_ttl r \<le> 86400 \<and> 0 \<le> bg_current r \<and> bg_current r \<le> int (length (bg_stages r)) \<and>
     distinct_approvals r \<and> (\<forall>k < nat (bg_current r). stage_done r k) \<and> activated_ok r \<and>
     (bg_status r = BreakGlassPending \<longrightarrow> bg_current r < int (length (bg_stages r)) \<and> \<not> stage_done r (nat (bg_current r)) \<and>
        (\<forall>a \<in> set (bg_approvals r). ba_decision a = ''approve'' \<and> ba_stage a \<le> bg_current r))"

lemma approvers_add:
  "approvers (add_decision now actor d comment n r) k =
     (if k = bg_current r \<and> d = ''approve'' then insert (ToLower actor) (approvers r k) else approvers r k)"
  by (auto simp: approvers_def add_decision_def)

lemma finite_approvers [simp]: "finite (approvers r k)"
  by (simp add: approvers_def)

lemma count_is_card:
  assumes "distinct_approvals r"
  shows "countApprovalsForStage r k = int (card (approvers r k))"
proof -
  let ?f = "filter (\<lambda>a. ba_stage a = k \<and> ba_decision a = ''approve'') (bg_approvals r)"
  let ?g = "filter (\<lambda>a. ba_decision a = ''approve'') (bg_approvals r)"
  have f: "?f = filter (\<lambda>a. ba_stage a = k) ?g" by (simp add: conj_commute)
  have "distinct (map (\<lambda>a. (ba_stage a, ToLower (ba_actor a))) ?f)"
    unfolding f using assms distinct_map_filter unfolding distinct_approvals_def by blast
  then have "distinct (map (\<lambda>a. ToLower (ba_actor a)) ?f)" by (auto simp: distinct_map inj_on_def)
  then have "card (set (map (\<lambda>a. ToLower (ba_actor a)) ?f)) = length ?f" using distinct_card by fastforce
  moreover have "set (map (\<lambda>a. ToLower (ba_actor a)) ?f) = approvers r k" by (simp add: approvers_def)
  ultimately show ?thesis by (simp add: countApprovalsForStage_def)
qed

lemma stage_done_add: "stage_done r k \<Longrightarrow> stage_done (add_decision now actor d comment n r) k"
proof -
  assume "stage_done r k"
  moreover have "card (approvers r (int k)) \<le> card (approvers (add_decision now actor d comment n r) (int k))"
    by (rule card_mono) (auto simp: approvers_add)
  moreover have "bg_stages (add_decision now actor d comment n r) = bg_stages r" by (simp add: add_decision_def)
  ultimately show ?thesis by (simp add: stage_done_def)
qed

lemma quorum_add: "quorum r \<Longrightarrow> quorum (add_decision now actor d comment n r)"
  using stage_done_add by (simp add: quorum_def) (simp add: add_decision_def)

lemma distinct_add:
  assumes "distinct_approvals r" "d = ''approve'' \<Longrightarrow> ToLower actor \<notin> approvers r (bg_current r)"
  shows "distinct_approvals (add_decision now actor d comment n r)"
  using assms by (auto simp: distinct_approvals_def add_decision_def approvers_def)

text \<open>Fields that a step changes without effect on the approvals.\<close>

lemma approvals_congs:
  assumes "bg_approvals r' = bg_approvals r" "bg_stages r' = bg_stages r"
  shows "approvers r' k = approvers r k" "stage_done r' j = stage_done r j" "quorum r' = quorum r"
    "distinct_approvals r' = distinct_approvals r" "countApprovalsForStage r' k = countApprovalsForStage r k"
  using assms by (simp_all add: approvers_def stage_done_def quorum_def distinct_approvals_def countApprovalsForStage_def)

lemma request_okD:
  assumes "request_ok i r"
  shows "bg_id r = i" "bg_stages r \<noteq> []" "\<And>st. st \<in> set (bg_stages r) \<Longrightarrow> 1 \<le> sg_required st" "300 \<le> bg_ttl r" "bg_ttl r \<le> 86400"
    "0 \<le> bg_current r" "bg_current r \<le> int (length (bg_stages r))" "distinct_approvals r"
    "\<And>k. k < nat (bg_current r) \<Longrightarrow> stage_done r k" "activated_ok r"
    "bg_status r = BreakGlassPending \<Longrightarrow> bg_current r < int (length (bg_stages r))"
    "bg_status r = BreakGlassPending \<Longrightarrow> a \<in> set (bg_approvals r) \<Longrightarrow> ba_decision a = ''approve'' \<and> ba_stage a \<le> bg_current r"
    "bg_status r = BreakGlassPending \<Longrightarrow> \<not> stage_done r (nat (bg_current r))"
  using assms by (simp_all add: request_ok_def)

lemma expire_request_ok: "request_ok i r \<Longrightarrow> request_ok i (expire_request now r)"
proof -
  assume r: "request_ok i r"
  show ?thesis
  proof (cases "expire_request now r = r")
    case False
    then obtain t where t: "bg_expires r = Some t" "bg_status r = BreakGlassActive"
      and e: "expire_request now r = r\<lparr>bg_status := BreakGlassExpired, bg_updated := now\<rparr>"
      by (auto simp: expire_request_def split: option.splits if_splits)
    let ?r = "r\<lparr>bg_status := BreakGlassExpired, bg_updated := now\<rparr>"
    have a: "bg_approvals ?r = bg_approvals r" "bg_stages ?r = bg_stages r" by simp_all
    have "activated_ok ?r" using request_okD(10) [OF r] t by (simp add: activated_ok_def approvals_congs [OF a] split: option.splits)
    then show ?thesis using request_okD [OF r] unfolding e request_ok_def approvals_congs [OF a] by simp
  qed (use r in simp)
qed

lemma approve_request_ok:
  assumes r: "request_ok i r" and ok: "approve_request now actor comment r = Inr r'"
  shows "request_ok i r'"
proof -
  define stage where "stage = bg_stages r ! nat (bg_current r)"
  define q where "q = add_decision now actor ''approve'' comment (sg_name stage) r"
  note D = request_okD [OF r]
  from ok have pend: "bg_status r = BreakGlassPending" and cur: "0 \<le> bg_current r" "bg_current r < int (length (bg_stages r))"
    and new: "\<forall>a \<in> set (bg_approvals r). ba_stage a = bg_current r \<longrightarrow> ToLower (ba_actor a) \<noteq> ToLower actor"
    and r': "r' = (advance now stage q)\<lparr>bg_updated := now\<rparr>"
    by (auto simp: approve_request_def Let_def list_ex_iff EqualFold_def stage_def q_def split: if_splits)
  have q: "bg_stages q = bg_stages r" "bg_current q = bg_current r" "bg_status q = BreakGlassPending" "bg_id q = bg_id r" "bg_ttl q = bg_ttl r"
    "bg_activated q = bg_activated r" "bg_expires q = bg_expires r" "\<And>a. a \<in> set (bg_approvals q) \<Longrightarrow> ba_decision a = ''approve'' \<and> ba_stage a \<le> bg_current r"
    using pend D(12) by (auto simp: q_def add_decision_def)
  have dist: "distinct_approvals q" unfolding q_def by (rule distinct_add [OF D(8)]) (use new in \<open>auto simp: approvers_def\<close>)
  have below: "stage_done q k" if "k < nat (bg_current r)" for k unfolding q_def by (rule stage_done_add) (rule D(9) [OF that])
  have act: "bg_activated r = None" "bg_expires r = None" using D(10) pend by (auto simp: activated_ok_def split: option.splits)
  show ?thesis
  proof (cases "countApprovalsForStage q (bg_current r) \<ge> sg_required stage")
    case False
    then have "r' = q\<lparr>bg_updated := now\<rparr>" using q by (simp add: r' advance_def)
    moreover have "\<not> stage_done q (nat (bg_current r))"
      using False cur q(1) by (simp add: stage_done_def stage_def count_is_card [OF dist])
    ultimately show ?thesis using D q dist below act cur
      by (simp add: request_ok_def activated_ok_def approvals_congs [of "q\<lparr>bg_updated := now\<rparr>" q])
  next
    case True
    then have "stage_done q (nat (bg_current r))" using cur q(1) by (simp add: stage_done_def stage_def count_is_card [OF dist])
    then have full: "stage_done q k" if "k < nat (bg_current r + 1)" for k using that below [of k] cur(1) by (cases "k = nat (bg_current r)") auto
    let ?n = "q\<lparr>bg_current := bg_current r + 1\<rparr>"
    show ?thesis
    proof (cases "bg_current r + 1 \<ge> int (length (bg_stages r))")
      case True
      then have all: "quorum q" using cur full q(1) by (simp add: quorum_def)
      let ?f = "?n\<lparr>bg_status := BreakGlassActive, bg_activated := Some now, bg_expires := Some (now + seconds (bg_ttl r)), bg_updated := now\<rparr>"
      have f: "r' = ?f" using True \<open>countApprovalsForStage q (bg_current r) \<ge> sg_required stage\<close> q by (simp add: r' advance_def Let_def)
      have c: "bg_approvals ?f = bg_approvals q" "bg_stages ?f = bg_stages q" by simp_all
      show ?thesis using D q dist full act cur all unfolding f request_ok_def activated_ok_def approvals_congs [OF c] by simp
    next
      case False
      let ?f = "?n\<lparr>bg_updated := now\<rparr>"
      have f: "r' = ?f" using False \<open>countApprovalsForStage q (bg_current r) \<ge> sg_required stage\<close> q by (simp add: r' advance_def Let_def)
      have c: "bg_approvals ?f = bg_approvals q" "bg_stages ?f = bg_stages q" by simp_all
      have "approvers q (bg_current r + 1) = {}" using q(8) by (force simp: approvers_def)
      moreover have "1 \<le> sg_required (bg_stages r ! nat (bg_current r + 1))" using cur False D(3) by simp
      ultimately have "\<not> stage_done q (nat (bg_current r + 1))" using cur q(1) by (simp add: stage_done_def)
      moreover have "ba_decision a = ''approve'' \<and> ba_stage a \<le> bg_current r + 1" if "a \<in> set (bg_approvals q)" for a
        using q(8) [OF that] by simp
      ultimately show ?thesis using D q dist full act cur False unfolding f request_ok_def activated_ok_def approvals_congs [OF c] by simp
    qed
  qed
qed

text \<open>A rejection and a revocation record a decision and end the request.\<close>

lemma ended_request_ok:
  assumes r: "request_ok i r" and d: "d \<noteq> ''approve''" and st: "bg_status r' \<in> {BreakGlassRejected, BreakGlassRevoked}"
    and rej: "bg_status r' = BreakGlassRejected \<Longrightarrow> bg_status r = BreakGlassPending"
    and f: "bg_approvals r' = bg_approvals (add_decision now actor d comment n r)" "bg_stages r' = bg_stages r" "bg_id r' = bg_id r"
      "bg_ttl r' = bg_ttl r" "bg_current r' = bg_current r" "bg_activated r' = bg_activated r" "bg_expires r' = bg_expires r"
  shows "request_ok i r'"
proof -
  define q where "q = add_decision now actor d comment n r"
  note D = request_okD [OF r]
  have c: "bg_approvals r' = bg_approvals q" "bg_stages r' = bg_stages q" using f by (simp_all add: q_def add_decision_def)
  have "distinct_approvals q" unfolding q_def by (rule distinct_add [OF D(8)]) (use d in simp)
  moreover have "stage_done q k" if "k < nat (bg_current r)" for k unfolding q_def by (rule stage_done_add) (rule D(9) [OF that])
  moreover have "activated_ok r'"
  proof (cases "bg_activated r")
    case None
    then show ?thesis using D(10) f st by (auto simp: activated_ok_def)
  next
    case (Some t)
    then have "quorum r" "bg_status r \<noteq> BreakGlassPending" using D(10) by (auto simp: activated_ok_def)
    then have "quorum r'" using quorum_add unfolding approvals_congs(3) [OF c] q_def by blast
    then show ?thesis using D(10) f st rej \<open>bg_status r \<noteq> BreakGlassPending\<close> Some by (auto simp: activated_ok_def)
  qed
  ultimately show ?thesis using D f st unfolding request_ok_def approvals_congs [OF c] by auto
qed

lemma reject_request_ok: "request_ok i r \<Longrightarrow> reject_request now actor comment r = Inr r' \<Longrightarrow> request_ok i r'"
  by (erule ended_request_ok [where d = "''reject''" and now = now and actor = actor and comment = comment and
        n = "if bg_current r \<ge> 0 \<and> bg_current r < int (length (bg_stages r)) then sg_name (bg_stages r ! nat (bg_current r)) else ''pending''"])
    (auto simp: reject_request_def Let_def add_decision_def split: if_splits)

lemma revoke_request_ok: "request_ok i r \<Longrightarrow> revoke_request now actor comment r = Inr r' \<Longrightarrow> request_ok i r'"
  by (erule ended_request_ok [where d = "''revoke''" and now = now and actor = actor and comment = comment and
        n = "if bg_current r \<ge> 0 \<and> bg_current r < int (length (bg_stages r)) then sg_name (bg_stages r ! nat (bg_current r)) else ''revoke''"])
    (auto simp: revoke_request_def Let_def add_decision_def split: if_splits)

section \<open>The store\<close>

definition stages_ok :: "string \<Rightarrow> approval_policy \<Rightarrow> bool" where
  "stages_ok i p \<longleftrightarrow> qp_id p = i \<and> qp_stages p \<noteq> [] \<and> (\<forall>st \<in> set (qp_stages p). 1 \<le> sg_required st)"

definition approval_inv :: "approval_store \<Rightarrow> bool" where
  "approval_inv s \<longleftrightarrow> store_inv as_policies as_next_policy ''approval-policy-'' s \<and>
     store_inv as_requests as_next_request ''breakglass-'' s \<and>
     items_ok stages_ok (as_policies s) \<and> items_ok request_ok (as_requests s)"

lemma normalize_stages_ok:
  "normalizeApprovalStages sts = Inr stages \<Longrightarrow> stages \<noteq> [] \<and> (\<forall>st \<in> set stages. 1 \<le> sg_required st)"
  by (auto simp: normalizeApprovalStages_def normalize_stage_def split: if_splits) (cases sts, auto)

lemma expire_all_ok:
  "items_ok request_ok (as_requests s) \<Longrightarrow> items_ok request_ok (as_requests (expireBreakGlassRequestsLocked now s))"
  by (simp add: expireBreakGlassRequestsLocked_def items_ok_map_vals expire_request_ok)

lemma decide_ok:
  assumes "items_ok request_ok (as_requests s)" and "\<And>i r r'. request_ok i r \<Longrightarrow> f r = Inr r' \<Longrightarrow> request_ok i r'"
  shows "items_ok request_ok (as_requests (fst (decide f now i actor s)))"
proof -
  let ?s = "expireBreakGlassRequestsLocked now s"
  have ok: "items_ok request_ok (as_requests ?s)" by (rule expire_all_ok [OF assms(1)])
  show ?thesis
  proof (cases "\<exists>r r'. mget (as_requests ?s) (TrimSpace i) = Some r \<and> f r = Inr r' \<and> TrimSpace actor \<noteq> []")
    case True
    then obtain r r' where r: "mget (as_requests ?s) (TrimSpace i) = Some r" "f r = Inr r'" "TrimSpace actor \<noteq> []" by blast
    then have "items_ok request_ok (mput (TrimSpace i) r' (as_requests ?s))"
      using ok assms(2) by (blast intro: items_intros dest: items_okD)
    then show ?thesis using r by (simp add: decide_def Let_def)
  next
    case False
    then have "as_requests (fst (decide f now i actor s)) \<in> {as_requests s, as_requests ?s}"
      by (auto simp: decide_def Let_def split: option.split sum.split)
    then show ?thesis using ok assms(1) by auto
  qed
qed

lemma decide_keys:
  "keys_step ''breakglass-'' (as_next_request s) (as_requests s) (as_next_request (fst (decide f now i actor s))) (as_requests (fst (decide f now i actor s)))"
  "as_policies (fst (decide f now i actor s)) = as_policies s" "as_next_policy (fst (decide f now i actor s)) = as_next_policy s"
proof -
  have "keys_step ''breakglass-'' n (map_vals g m) n (mput k v (map_vals g m))" if "mget (map_vals g m) k = Some w" for n k v w g and m :: "bg_request gomap"
    using that by (rule keys_step_update_some)
  then show "keys_step ''breakglass-'' (as_next_request s) (as_requests s) (as_next_request (fst (decide f now i actor s))) (as_requests (fst (decide f now i actor s)))"
    by (auto simp: decide_def Let_def expireBreakGlassRequestsLocked_def split: option.split sum.split)
qed (simp_all add: decide_def Let_def expireBreakGlassRequestsLocked_def split: option.split sum.split)

lemmas bg_op_defs = CreateApprovalPolicy_def CreateBreakGlassRequest_def ListBreakGlassRequests_def GetBreakGlassRequest_def
  ApproveBreakGlassRequest_def RejectBreakGlassRequest_def RevokeBreakGlassRequest_def expireBreakGlassRequestsLocked_def

lemma bg_policy_keys:
  "keys_step ''approval-policy-'' (as_next_policy s) (as_policies s) (as_next_policy (bg_step s op)) (as_policies (bg_step s op))"
  by (cases op) (simp_all add: bg_op_defs decide_keys Let_def split: sum.split option.split)

lemma bg_request_keys:
  "keys_step ''breakglass-'' (as_next_request s) (as_requests s) (as_next_request (bg_step s op)) (as_requests (bg_step s op))"
  by (cases op) (simp_all add: bg_op_defs decide_keys Let_def split: sum.split option.split)

lemma bg_step_requests:
  assumes "approval_inv s"
  shows "items_ok request_ok (as_requests (bg_step s op))"
proof -
  have ok: "items_ok request_ok (as_requests s)" and pol: "items_ok stages_ok (as_policies s)" using assms by (simp_all add: approval_inv_def)
  show ?thesis
  proof (cases op)
    case (BgCreate now inp)
    have "request_ok k \<lparr>bg_id = k, bg_requested_by = a, bg_reason = b, bg_scope = c, bg_policy = d, bg_policy_name = e,
        bg_stages = qp_stages p, bg_current = 0, bg_status = BreakGlassPending, bg_approvals = [], bg_ttl = t, bg_created = now, bg_updated = now,
        bg_activated = None, bg_expires = None, bg_rejected = None, bg_revoked = None, bg_rejection_reason = []\<rparr>"
      if "mget (as_policies s) j = Some p" "300 \<le> t" "t \<le> 86400" for k a b c d e p t j
    proof -
      have "stages_ok j p" using that(1) pol by (rule items_okD [rotated])
      then show ?thesis using that(2,3)
        by (cases "qp_stages p") (simp_all add: request_ok_def stages_ok_def activated_ok_def distinct_approvals_def stage_done_def approvers_def)
    qed
    then show ?thesis using ok by (auto simp: BgCreate CreateBreakGlassRequest_def Let_def split: option.split intro!: items_intros)
  qed (use ok expire_all_ok in \<open>auto simp: bg_op_defs Let_def split: sum.split
        intro: decide_ok approve_request_ok reject_request_ok revoke_request_ok items_ok_map_vals expire_request_ok\<close>)
qed

lemma bg_step_policies: "items_ok stages_ok (as_policies s) \<Longrightarrow> items_ok stages_ok (as_policies (bg_step s op))"
  by (cases op) (auto simp: bg_op_defs decide_keys Let_def stages_ok_def dest!: normalize_stages_ok
      split: sum.split option.split intro!: items_intros)

lemma bg_step_inv: "approval_inv s \<Longrightarrow> approval_inv (bg_step s op)"
  using bg_step_requests [of s op] bg_step_policies [of s op]
    store_inv_step [where items = as_policies and counter = as_next_policy, OF _ bg_policy_keys]
    store_inv_step [where items = as_requests and counter = as_next_request, OF _ bg_request_keys]
  unfolding approval_inv_def by blast

interpretation approval_policy_ids: counter_store bg_step approval_inv as_policies as_next_policy "''approval-policy-''"
  by unfold_locales (simp_all add: bg_step_inv bg_policy_keys, simp add: approval_inv_def)

interpretation break_glass_ids: counter_store bg_step approval_inv as_requests as_next_request "''breakglass-''"
  by unfold_locales (simp_all add: bg_step_inv bg_request_keys, simp add: approval_inv_def)

lemma NewAccessApprovalStore_inv: "approval_inv NewAccessApprovalStore"
  by (simp add: approval_inv_def NewAccessApprovalStore_def store_inv_def)

text \<open>C22: after any sequence of operations, a break-glass request that is reported active has for every
  stage of its policy the required number of approvals, each by a different actor (names are compared
  without regard to case), and it is within its time to live, which lies between five minutes and a day;
  a request that is still pending lacks the quorum of its current stage.\<close>

theorem break_glass_quorum:
  assumes "snd (GetBreakGlassRequest now i (foldl bg_step NewAccessApprovalStore ops)) = Some r"
  shows "(bg_status r = BreakGlassActive \<longrightarrow>
      (\<forall>k < length (bg_stages r). sg_required (bg_stages r ! k) \<le> int (card (approvers r (int k))) \<and> 1 \<le> sg_required (bg_stages r ! k)) \<and>
      (\<exists>t. bg_activated r = Some t \<and> now < t + bg_ttl r * 1000000000) \<and> 300 \<le> bg_ttl r \<and> bg_ttl r \<le> 86400) \<and>
    (bg_status r = BreakGlassPending \<longrightarrow>
      (\<exists>k < length (bg_stages r). int (card (approvers r (int k))) < sg_required (bg_stages r ! k)))"
proof -
  let ?s = "foldl bg_step NewAccessApprovalStore ops"
  have "approval_inv ?s" by (rule approval_policy_ids.run_inv [OF NewAccessApprovalStore_inv])
  then have ok: "items_ok request_ok (as_requests ?s)" by (simp add: approval_inv_def)
  obtain q where q: "mget (as_requests ?s) (TrimSpace i) = Some q" "r = expire_request now q"
    using assms by (auto simp: GetBreakGlassRequest_def expireBreakGlassRequestsLocked_def Let_def)
  then have r: "request_ok (TrimSpace i) r" using ok expire_request_ok by (blast dest: items_okD)
  note D = request_okD [OF r]
  have "(\<forall>k < length (bg_stages r). sg_required (bg_stages r ! k) \<le> int (card (approvers r (int k))) \<and> 1 \<le> sg_required (bg_stages r ! k)) \<and>
      (\<exists>t. bg_activated r = Some t \<and> now < t + bg_ttl r * 1000000000)" if act: "bg_status r = BreakGlassActive"
  proof -
    from D(10) act obtain t where t: "bg_activated r = Some t" "bg_expires r = Some (t + seconds (bg_ttl r))" "quorum r"
      by (auto simp: activated_ok_def split: option.splits)
    have "now < t + seconds (bg_ttl r)"
      using act t(2) q(2) by (auto simp: expire_request_def split: option.splits if_splits)
    then show ?thesis using t D(3,4,5) by (simp add: quorum_def stage_done_def seconds_small)
  qed
  moreover have "\<exists>k < length (bg_stages r). int (card (approvers r (int k))) < sg_required (bg_stages r ! k)" if "bg_status r = BreakGlassPending"
    using D(6) D(11,13) [OF that] by (intro exI [of _ "nat (bg_current r)"]) (simp add: stage_done_def)
  ultimately show ?thesis using D(4,5) by blast
qed

theorem break_glass_quorum_witness:
  "let s = foldl bg_step NewAccessApprovalStore
       [BgPolicy 0 ''p'' [\<lparr>sg_name = ''lead'', sg_required = 2\<rparr>], BgCreate 0 \<lparr>bq_requested_by = ''eve'', bq_reason = ''fix'', bq_scope = ''db'', bq_policy = ''approval-policy-1'', bq_ttl = 600\<rparr>,
        BgApprove 1 ''breakglass-1'' ''ann'' [], BgApprove 2 ''breakglass-1'' ''ANN'' [], BgApprove 3 ''breakglass-1'' ''bob'' []];
       r = the (snd (GetBreakGlassRequest 4 ''breakglass-1'' s))
   in bg_status r = BreakGlassActive \<and> 2 \<le> card (approvers r 0) \<and> (\<exists>t. bg_activated r = Some t \<and> 4 < t + 600000000000)"
proof -
  define ops where "ops = [BgPolicy 0 ''p'' [\<lparr>sg_name = ''lead'', sg_required = 2\<rparr>], BgCreate 0 \<lparr>bq_requested_by = ''eve'', bq_reason = ''fix'', bq_scope = ''db'', bq_policy = ''approval-policy-1'', bq_ttl = 600\<rparr>,
        BgApprove 1 ''breakglass-1'' ''ann'' [], BgApprove 2 ''breakglass-1'' ''ANN'' [], BgApprove 3 ''breakglass-1'' ''bob'' []]"
  define g where "g = snd (GetBreakGlassRequest 4 ''breakglass-1'' (foldl bg_step NewAccessApprovalStore ops))"
  have "g \<noteq> None" "bg_status (the g) = BreakGlassActive" "map sg_required (bg_stages (the g)) = [2]" "bg_ttl (the g) = 600"
    unfolding g_def ops_def by code_simp+
  then have r: "g = Some (the g)" "bg_status (the g) = BreakGlassActive" "length (bg_stages (the g)) = 1" "sg_required (bg_stages (the g) ! 0) = 2" "bg_ttl (the g) = 600"
    by auto
  from break_glass_quorum [OF r(1) [unfolded g_def]] r show ?thesis
    unfolding Let_def ops_def [symmetric] g_def [symmetric] by auto
qed

end
