(* ===== verification/AccessTokens.thy ===== *)
theory AccessTokens
  imports ControlUtil
begin

text \<open>
  Bearer tokens with a time to live: just-in-time grants (internal/control/jit_grants.go) and delegation
  tokens with a limited number of uses (delegation_tokens.go). A token is found through the hash of its
  text; \<open>hash\<close> is the parameter for sha256, the random bytes of \<^verbatim>\<open>rand.Read\<close> are an
  argument (\<open>Inl\<close> is its error), and so is the time. What the theorems need of \<open>hash\<close> is that the
  tokens in play have different hashes.
\<close>

definition token_text :: "string \<Rightarrow> string \<Rightarrow> string" where
  "token_text pre entropy = pre @ hex_encode entropy"

section \<open>Just-in-time grants\<close>

record jit_grant =
  jg_id :: string
  jg_subject :: string
  jg_resource :: string
  jg_action :: string
  jg_issued_by :: string
  jg_reason :: string
  jg_break_glass :: string
  jg_ttl :: int
  jg_created :: gotime
  jg_expires :: gotime
  jg_revoked :: "gotime option"

record jit_input =
  ji_subject :: string
  ji_resource :: string
  ji_action :: string
  ji_issued_by :: string
  ji_reason :: string
  ji_break_glass :: string
  ji_ttl :: int

record jit_check =
  jc_token :: string
  jc_resource :: string
  jc_action :: string

record jit_result =
  jr_allowed :: bool
  jr_reason :: string
  jr_id :: string
  jr_subject :: string
  jr_resource :: string
  jr_action :: string
  jr_expires :: gotime

record jit_store =
  js_next :: int
  js_grants :: "(jit_grant \<times> string) gomap"
  js_index :: "string gomap"

definition NewJITAccessGrantStore :: jit_store where
  "NewJITAccessGrantStore = \<lparr>js_next = 0, js_grants = [], js_index = []\<rparr>"

definition new_grant :: "gotime \<Rightarrow> jit_input \<Rightarrow> int \<Rightarrow> int \<Rightarrow> jit_grant" where
  "new_grant now inp ttl n =
     \<lparr>jg_id = seq_id ''jit-grant-'' n, jg_subject = TrimSpace (ji_subject inp), jg_resource = TrimSpace (ji_resource inp),
      jg_action = TrimSpace (ji_action inp), jg_issued_by = TrimSpace (ji_issued_by inp), jg_reason = TrimSpace (ji_reason inp),
      jg_break_glass = TrimSpace (ji_break_glass inp), jg_ttl = ttl, jg_created = now, jg_expires = now + seconds ttl, jg_revoked = None\<rparr>"

definition Issue_jit :: "(string \<Rightarrow> string) \<Rightarrow> gotime \<Rightarrow> string result \<Rightarrow> jit_input \<Rightarrow> jit_store \<Rightarrow> jit_store \<times> (jit_grant \<times> string) result" where
  "Issue_jit hash now entropy inp s =
     (if TrimSpace (ji_subject inp) = [] \<or> TrimSpace (ji_resource inp) = [] \<or> TrimSpace (ji_action inp) = [] \<or>
         TrimSpace (ji_issued_by inp) = [] \<or> TrimSpace (ji_reason inp) = []
      then (s, Inl ''subject, resource, action, issued_by, and reason are required'')
      else let ttl = (if ji_ttl inp \<le> 0 then 900 else ji_ttl inp)
           in if ttl < 60 then (s, Inl ''ttl_seconds must be >= 60'')
              else if ttl > 3600 then (s, Inl ''ttl_seconds must be <= 3600'')
              else case entropy of
                     Inl e \<Rightarrow> (s, Inl e)
                   | Inr bytes \<Rightarrow>
                       let token = token_text ''mcjit_'' bytes; grant = new_grant now inp ttl (js_next s + 1)
                       in (s\<lparr>js_next := js_next s + 1, js_grants := mput (jg_id grant) (grant, hash token) (js_grants s),
                             js_index := mput (hash token) (jg_id grant) (js_index s)\<rparr>, Inr (grant, token)))"

definition expire_grant :: "gotime \<Rightarrow> jit_grant \<times> string \<Rightarrow> jit_grant \<times> string" where
  "expire_grant now gh =
     (let g = fst gh in if jg_revoked g = None \<and> \<not> now < jg_expires g then (g\<lparr>jg_revoked := Some (jg_expires g)\<rparr>, snd gh) else gh)"

definition expireLocked :: "gotime \<Rightarrow> jit_store \<Rightarrow> jit_store" where
  "expireLocked now s = s\<lparr>js_grants := map_vals (expire_grant now) (js_grants s)\<rparr>"

definition List_jit :: "gotime \<Rightarrow> jit_store \<Rightarrow> jit_store \<times> jit_grant list" where
  "List_jit now s = (let s = expireLocked now s in (s, newest_first jg_created (map (fst \<circ> snd) (js_grants s))))"

definition Get_jit :: "gotime \<Rightarrow> string \<Rightarrow> jit_store \<Rightarrow> jit_store \<times> jit_grant option" where
  "Get_jit now i s = (let s = expireLocked now s in (s, map_option fst (mget (js_grants s) (TrimSpace i))))"

definition Revoke_jit :: "gotime \<Rightarrow> string \<Rightarrow> jit_store \<Rightarrow> jit_store \<times> jit_grant result" where
  "Revoke_jit now i s =
     (if TrimSpace i = [] then (s, Inl ''grant id is required'')
      else case mget (js_grants s) (TrimSpace i) of
        None \<Rightarrow> (s, Inl ''jit access grant not found'')
      | Some (g, h) \<Rightarrow>
          let g = (if jg_revoked g = None then g\<lparr>jg_revoked := Some now\<rparr> else g)
          in (s\<lparr>js_grants := mput (TrimSpace i) (g, h) (js_grants s)\<rparr>, Inr g))"

definition resultFromJITGrant :: "jit_grant \<Rightarrow> bool \<Rightarrow> string \<Rightarrow> jit_result" where
  "resultFromJITGrant g allowed reason =
     \<lparr>jr_allowed = allowed, jr_reason = reason, jr_id = jg_id g, jr_subject = jg_subject g, jr_resource = jg_resource g,
      jr_action = jg_action g, jr_expires = jg_expires g\<rparr>"

definition refused_jit :: "string \<Rightarrow> jit_result" where
  "refused_jit reason = \<lparr>jr_allowed = False, jr_reason = reason, jr_id = [], jr_subject = [], jr_resource = [], jr_action = [], jr_expires = 0\<rparr>"

definition validateAt_jit :: "(string \<Rightarrow> string) \<Rightarrow> jit_check \<Rightarrow> gotime \<Rightarrow> jit_store \<Rightarrow> jit_store \<times> jit_result" where
  "validateAt_jit hash inp now s =
     (let token = TrimSpace (jc_token inp)
      in if token = [] then (s, refused_jit ''token is required'')
         else let s = expireLocked now s
              in case mget (js_index s) (hash token) of
                   None \<Rightarrow> (s, refused_jit ''jit access grant token not recognized'')
                 | Some grantID \<Rightarrow>
                     (case mget (js_grants s) grantID of
                        None \<Rightarrow> (s, refused_jit ''jit access grant token not recognized'')
                      | Some (g, h) \<Rightarrow>
                          if jg_revoked g \<noteq> None then (s, resultFromJITGrant g False ''jit access grant revoked'')
                          else if \<not> now < jg_expires g then (s, resultFromJITGrant g False ''jit access grant expired'')
                          else if TrimSpace (jc_resource inp) \<noteq> [] \<and> TrimSpace (jc_resource inp) \<noteq> jg_resource g
                          then (s, resultFromJITGrant g False ''jit access grant resource mismatch'')
                          else if TrimSpace (jc_action inp) \<noteq> [] \<and> TrimSpace (jc_action inp) \<noteq> jg_action g
                          then (s, resultFromJITGrant g False ''jit access grant action mismatch'')
                          else (s, resultFromJITGrant g True [])))"

datatype jit_op =
    JIssue gotime "string result" jit_input
  | JList gotime
  | JGet gotime string
  | JRevoke gotime string
  | JValidate gotime jit_check

fun jit_step :: "(string \<Rightarrow> string) \<Rightarrow> jit_store \<Rightarrow> jit_op \<Rightarrow> jit_store" where
  "jit_step hash s (JIssue now entropy inp) = fst (Issue_jit hash now entropy inp s)"
| "jit_step hash s (JList now) = fst (List_jit now s)"
| "jit_step hash s (JGet now i) = fst (Get_jit now i s)"
| "jit_step hash s (JRevoke now i) = fst (Revoke_jit now i s)"
| "jit_step hash s (JValidate now inp) = fst (validateAt_jit hash inp now s)"

definition jit_ok :: "string \<Rightarrow> jit_grant \<times> string \<Rightarrow> bool" where
  "jit_ok i gh \<longleftrightarrow> jg_id (fst gh) = i \<and> 60 \<le> jg_ttl (fst gh) \<and> jg_ttl (fst gh) \<le> 3600 \<and>
     jg_expires (fst gh) = jg_created (fst gh) + jg_ttl (fst gh) * 1000000000"

definition jit_inv :: "jit_store \<Rightarrow> bool" where
  "jit_inv s \<longleftrightarrow> store_inv js_grants js_next ''jit-grant-'' s \<and> items_ok jit_ok (js_grants s)"

lemma jit_step_validate: "jit_step hash s (JValidate now inp) = (if TrimSpace (jc_token inp) = [] then s else expireLocked now s)"
  by (auto simp: validateAt_jit_def Let_def split: option.split)

lemma issue_jit_cases:
  "(\<exists>e. Issue_jit hash now entropy inp s = (s, Inl e)) \<or>
   (\<exists>ttl bytes. entropy = Inr bytes \<and> 60 \<le> ttl \<and> ttl \<le> 3600 \<and>
      Issue_jit hash now entropy inp s =
        (let token = token_text ''mcjit_'' bytes; grant = new_grant now inp ttl (js_next s + 1)
         in (s\<lparr>js_next := js_next s + 1, js_grants := mput (jg_id grant) (grant, hash token) (js_grants s),
               js_index := mput (hash token) (jg_id grant) (js_index s)\<rparr>, Inr (grant, token))))"
proof (cases entropy)
  case (Inr bytes)
  define ttl where "ttl = (if ji_ttl inp \<le> 0 then 900 else ji_ttl inp)"
  show ?thesis unfolding Inr Issue_jit_def ttl_def [symmetric] Let_def by (simp add: not_less) blast
qed (simp add: Issue_jit_def Let_def)

lemma jit_keys:
  "keys_step ''jit-grant-'' (js_next s) (js_grants s) (js_next (jit_step hash s op)) (js_grants (jit_step hash s op))"
proof (cases op)
  case (JRevoke now i)
  then show ?thesis by (auto simp: Revoke_jit_def Let_def split: option.split intro: keys_step_update_some)
next
  case (JValidate now inp)
  then show ?thesis unfolding JValidate jit_step_validate by (simp add: expireLocked_def)
next
  case (JIssue now entropy inp)
  then show ?thesis using issue_jit_cases [of hash now entropy inp s] by (auto simp: new_grant_def Let_def)
qed (auto simp: List_jit_def Get_jit_def expireLocked_def Let_def)

lemma expire_grant_ok: "jit_ok i gh \<Longrightarrow> jit_ok i (expire_grant now gh)"
  by (auto simp: jit_ok_def expire_grant_def Let_def)

lemma jit_items:
  assumes "items_ok jit_ok (js_grants s)"
  shows "items_ok jit_ok (js_grants (jit_step hash s op))"
proof (cases op)
  case (JIssue now entropy inp)
  then show ?thesis using assms issue_jit_cases [of hash now entropy inp s]
    by (auto simp: Let_def new_grant_def jit_ok_def seconds_small intro!: items_intros)
next
  case (JRevoke now i)
  have "jit_ok (TrimSpace i) (g\<lparr>jg_revoked := t\<rparr>, h)" "jit_ok (TrimSpace i) (g, h)" if "mget (js_grants s) (TrimSpace i) = Some (g, h)" for g h t
    using items_okD [OF assms that] by (simp_all add: jit_ok_def)
  then show ?thesis using assms by (auto simp: JRevoke Revoke_jit_def Let_def split: option.split intro!: items_intros)
next
  case (JValidate now inp)
  then show ?thesis using assms unfolding JValidate jit_step_validate by (auto simp: expireLocked_def intro: items_ok_map_vals expire_grant_ok)
qed (use assms in \<open>auto simp: List_jit_def Get_jit_def expireLocked_def Let_def intro: items_ok_map_vals expire_grant_ok\<close>)

lemma jit_step_inv: "jit_inv s \<Longrightarrow> jit_inv (jit_step hash s op)"
  using store_inv_step [where items = js_grants and counter = js_next, OF _ jit_keys] jit_items unfolding jit_inv_def by blast

interpretation jit_ids: counter_store "jit_step hash" jit_inv js_grants js_next "''jit-grant-''" for hash
  by unfold_locales (simp_all add: jit_step_inv jit_keys del: jit_step.simps, simp add: jit_inv_def)

lemma TrimSpace_token: "pre \<noteq> [] \<Longrightarrow> list_all solid pre \<Longrightarrow> TrimSpace (token_text pre bytes) = token_text pre bytes"
proof (rule TrimSpace_solid_ends)
  assume pre: "pre \<noteq> []" "list_all solid pre"
  have "solid c" if "c \<in> set (token_text pre bytes)" for c
    using that pre(2) solid_hex_encode by (auto simp: token_text_def list_all_iff)
  then show "token_text pre bytes = [] \<or> solid (hd (token_text pre bytes)) \<and> solid (last (token_text pre bytes))"
    using pre(1) by (intro disjI2 conjI) (metis hd_in_set last_in_set append_is_Nil_conv token_text_def)+
qed

subsection \<open>The window of a grant\<close>

text \<open>The operations that end a grant: its revocation, and any that sees it past its expiry.\<close>

fun ends_grant :: "string \<Rightarrow> gotime \<Rightarrow> jit_op \<Rightarrow> bool" where
  "ends_grant i e (JIssue now entropy inp) = False"
| "ends_grant i e (JList now) = (e \<le> now)"
| "ends_grant i e (JGet now j) = (e \<le> now)"
| "ends_grant i e (JRevoke now j) = (TrimSpace j = i)"
| "ends_grant i e (JValidate now inp) = (TrimSpace (jc_token inp) \<noteq> [] \<and> e \<le> now)"

fun reissues :: "(string \<Rightarrow> string) \<Rightarrow> string \<Rightarrow> jit_op \<Rightarrow> bool" where
  "reissues hash h (JIssue now (Inr bytes) inp) = (hash (token_text ''mcjit_'' bytes) = h)"
| "reissues hash h _ = False"

definition holds_grant :: "jit_store \<Rightarrow> string \<Rightarrow> jit_grant \<Rightarrow> bool \<Rightarrow> bool" where
  "holds_grant s h g ended \<longleftrightarrow> mget (js_index s) h = Some (jg_id g) \<and>
     (\<exists>t. (t = None \<longleftrightarrow> \<not> ended) \<and> mget (js_grants s) (jg_id g) = Some (g\<lparr>jg_revoked := t\<rparr>, h))"

lemma holds_expire: "holds_grant s h g ended \<Longrightarrow> holds_grant (expireLocked now s) h g (ended \<or> jg_expires g \<le> now)"
proof -
  have e: "expire_grant now (g\<lparr>jg_revoked := t\<rparr>, h) = (g\<lparr>jg_revoked := if t = None \<and> jg_expires g \<le> now then Some (jg_expires g) else t\<rparr>, h)" for t
    by (simp add: expire_grant_def Let_def not_less)
  assume "holds_grant s h g ended"
  then obtain t where t: "mget (js_index s) h = Some (jg_id g)" "t = None \<longleftrightarrow> \<not> ended" "mget (js_grants s) (jg_id g) = Some (g\<lparr>jg_revoked := t\<rparr>, h)"
    by (auto simp: holds_grant_def)
  then show ?thesis
    by (auto simp: holds_grant_def expireLocked_def e simp del: not_None_eq intro!: exI [of _ "if t = None \<and> jg_expires g \<le> now then Some (jg_expires g) else t"])
qed

lemma holds_step:
  assumes "jit_inv s" "holds_grant s h g ended" "\<not> reissues hash h op" "jg_id g \<noteq> []"
  shows "holds_grant (jit_step hash s op) h g (ended \<or> ends_grant (jg_id g) (jg_expires g) op)"
proof (cases op)
  case (JIssue now entropy inp)
  have "mget (js_grants s) (seq_id ''jit-grant-'' (js_next s + 1)) = None"
    using assms(1) store_inv_fresh [where items = js_grants and counter = js_next] by (auto simp: jit_inv_def)
  then have "jg_id g \<noteq> seq_id ''jit-grant-'' (js_next s + 1)" using assms(2) by (auto simp: holds_grant_def)
  then show ?thesis using assms(2,3) issue_jit_cases [of hash now entropy inp s]
    by (auto simp: JIssue Let_def holds_grant_def new_grant_def)
next
  case (JRevoke now j)
  obtain t where t: "mget (js_index s) h = Some (jg_id g)" "t = None \<longleftrightarrow> \<not> ended" "mget (js_grants s) (jg_id g) = Some (g\<lparr>jg_revoked := t\<rparr>, h)"
    using assms(2) by (auto simp: holds_grant_def)
  show ?thesis
  proof (cases "TrimSpace j = jg_id g")
    case True
    then have "mget (js_grants (jit_step hash s op)) (jg_id g) = Some (g\<lparr>jg_revoked := if t = None then Some now else t\<rparr>, h)"
      "js_index (jit_step hash s op) = js_index s"
      using t assms(4) by (simp_all add: JRevoke Revoke_jit_def Let_def)
    then show ?thesis using True t unfolding holds_grant_def by (auto simp: JRevoke simp del: jit_step.simps)
  next
    case False
    then have "mget (js_grants (jit_step hash s op)) (jg_id g) = mget (js_grants s) (jg_id g)" "js_index (jit_step hash s op) = js_index s"
      by (auto simp: JRevoke Revoke_jit_def Let_def split: option.split)
    then show ?thesis using False t unfolding holds_grant_def by (auto simp: JRevoke simp del: jit_step.simps)
  qed
next
  case (JValidate now inp)
  then show ?thesis using assms(2) holds_expire [OF assms(2)] unfolding JValidate jit_step_validate by auto
qed (use holds_expire [OF assms(2)] in \<open>simp_all add: List_jit_def Get_jit_def Let_def\<close>)

lemma holds_run:
  "jit_inv s \<Longrightarrow> holds_grant s h g ended \<Longrightarrow> \<forall>op \<in> set ops. \<not> reissues hash h op \<Longrightarrow> jg_id g \<noteq> [] \<Longrightarrow>
   holds_grant (foldl (jit_step hash) s ops) h g (ended \<or> list_ex (ends_grant (jg_id g) (jg_expires g)) ops)"
proof (induction ops arbitrary: s ended)
  case (Cons op ops)
  have "holds_grant (jit_step hash s op) h g (ended \<or> ends_grant (jg_id g) (jg_expires g) op)"
    by (rule holds_step) (use Cons.prems in auto)
  from Cons.IH [OF jit_step_inv [OF Cons.prems(1)] this] Cons.prems show ?case by (simp add: disj_assoc)
qed simp

lemma Issue_jit_holds:
  assumes "snd (Issue_jit hash now (Inr bytes) inp s) = Inr (g, token)"
  shows "holds_grant (fst (Issue_jit hash now (Inr bytes) inp s)) (hash token) g False"
    and "token = token_text ''mcjit_'' bytes" "jg_id g \<noteq> []" "jit_ok (jg_id g) (g, hash token)"
    and "jg_created g = now" "jg_subject g = TrimSpace (ji_subject inp)" "jg_resource g = TrimSpace (ji_resource inp)" "jg_action g = TrimSpace (ji_action inp)"
  using issue_jit_cases [of hash now "Inr bytes" inp s] assms by (auto simp: Let_def new_grant_def holds_grant_def seq_id_def jit_ok_def seconds_small)

lemma validate_holds:
  assumes "holds_grant s (hash token) g ended" "TrimSpace (jc_token c) = token" "token \<noteq> []"
  shows "jr_allowed (snd (validateAt_jit hash c now s)) \<longleftrightarrow> \<not> ended \<and> now < jg_expires g \<and>
    TrimSpace (jc_resource c) \<in> {[], jg_resource g} \<and> TrimSpace (jc_action c) \<in> {[], jg_action g}"
    and "jr_subject (snd (validateAt_jit hash c now s)) = jg_subject g"
proof -
  from holds_expire [OF assms(1), of now] obtain t where t: "t = None \<longleftrightarrow> \<not> (ended \<or> jg_expires g \<le> now)"
    "mget (js_index (expireLocked now s)) (hash token) = Some (jg_id g)"
    "mget (js_grants (expireLocked now s)) (jg_id g) = Some (g\<lparr>jg_revoked := t\<rparr>, hash token)"
    by (auto simp: holds_grant_def)
  then show "jr_allowed (snd (validateAt_jit hash c now s)) \<longleftrightarrow> \<not> ended \<and> now < jg_expires g \<and>
      TrimSpace (jc_resource c) \<in> {[], jg_resource g} \<and> TrimSpace (jc_action c) \<in> {[], jg_action g}"
    "jr_subject (snd (validateAt_jit hash c now s)) = jg_subject g"
    using assms(2,3) by (auto simp: validateAt_jit_def Let_def resultFromJITGrant_def)
qed

text \<open>C23: a just-in-time grant, once issued, is accepted exactly in its window: after any later
  operations whose new tokens hash differently, its token passes a check iff none of them revoked the grant
  or saw it past its expiry, the time is before \<^verbatim>\<open>CreatedAt + ttl\<close>, and the resource and action asked for
  are the granted ones (or left out); the answer names the granted subject. So a revoked or expired grant is never
  accepted again, even if the clock is set back.\<close>

theorem jit_grant_window:
  assumes "snd (Issue_jit hash now (Inr bytes) inp (foldl (jit_step hash) NewJITAccessGrantStore before)) = Inr (g, token)"
    and "s = foldl (jit_step hash) (fst (Issue_jit hash now (Inr bytes) inp (foldl (jit_step hash) NewJITAccessGrantStore before))) ops"
    and "\<forall>op \<in> set ops. \<not> reissues hash (hash token) op"
    and "jc_token c = token"
  shows "(jr_allowed (snd (validateAt_jit hash c at s)) \<longleftrightarrow>
      \<not> list_ex (ends_grant (jg_id g) (jg_expires g)) ops \<and> at < now + jg_ttl g * 1000000000 \<and>
      TrimSpace (jc_resource c) \<in> {[], TrimSpace (ji_resource inp)} \<and> TrimSpace (jc_action c) \<in> {[], TrimSpace (ji_action inp)}) \<and>
    jr_subject (snd (validateAt_jit hash c at s)) = TrimSpace (ji_subject inp) \<and> 60 \<le> jg_ttl g \<and> jg_ttl g \<le> 3600"
proof -
  let ?s = "foldl (jit_step hash) NewJITAccessGrantStore before"
  have inv: "jit_inv ?s" by (rule jit_ids.run_inv) (simp add: jit_inv_def NewJITAccessGrantStore_def store_inv_def)
  note I = Issue_jit_holds [OF assms(1)]
  have "fst (Issue_jit hash now (Inr bytes) inp ?s) = jit_step hash ?s (JIssue now (Inr bytes) inp)" by simp
  then have "jit_inv (fst (Issue_jit hash now (Inr bytes) inp ?s))" using jit_step_inv [OF inv] by metis
  from holds_run [OF this I(1) assms(3) I(3)]
  have h: "holds_grant s (hash token) g (list_ex (ends_grant (jg_id g) (jg_expires g)) ops)" by (simp add: assms(2))
  have "TrimSpace (token_text ''mcjit_'' bytes) = token_text ''mcjit_'' bytes" by (rule TrimSpace_token) (simp, code_simp)
  then have tok: "TrimSpace (jc_token c) = token" "token \<noteq> []" using assms(4) I(2) by (simp_all add: token_text_def)
  show ?thesis using validate_holds [where hash = hash, OF h tok] I(4-) by (auto simp: jit_ok_def)
qed

theorem jit_grant_window_witness:
  "let inp = \<lparr>ji_subject = ''ann'', ji_resource = ''db'', ji_action = ''read'', ji_issued_by = ''bob'', ji_reason = ''fix'', ji_break_glass = [], ji_ttl = 60\<rparr>;
       s = fst (Issue_jit (\<lambda>t. t) 0 (Inr ''x'') inp NewJITAccessGrantStore);
       c = \<lparr>jc_token = token_text ''mcjit_'' ''x'', jc_resource = ''db'', jc_action = []\<rparr>
   in jr_allowed (snd (validateAt_jit (\<lambda>t. t) c 59999999999 s)) \<and>
      \<not> jr_allowed (snd (validateAt_jit (\<lambda>t. t) c 60000000000 s)) \<and>
      \<not> jr_allowed (snd (validateAt_jit (\<lambda>t. t) c 1 (foldl (jit_step (\<lambda>t. t)) s [JRevoke 0 ''jit-grant-1''])))"
proof -
  define inp where "inp = \<lparr>ji_subject = ''ann'', ji_resource = ''db'', ji_action = ''read'', ji_issued_by = ''bob'', ji_reason = ''fix'', ji_break_glass = [], ji_ttl = 60\<rparr>"
  define c where "c = \<lparr>jc_token = token_text ''mcjit_'' ''x'', jc_resource = ''db'', jc_action = []\<rparr>"
  define g where "g = new_grant 0 inp 60 1"
  have iss: "snd (Issue_jit (\<lambda>t. t) 0 (Inr ''x'') inp (foldl (jit_step (\<lambda>t. t)) NewJITAccessGrantStore [])) = Inr (g, token_text ''mcjit_'' ''x'')"
    unfolding g_def inp_def by code_simp
  have f: "jg_id g = ''jit-grant-1''" "jg_ttl g = 60" "TrimSpace (ji_resource inp) = TrimSpace (jc_resource c)" "TrimSpace (jc_action c) = []"
    "TrimSpace ''jit-grant-1'' = ''jit-grant-1''"
    unfolding g_def inp_def c_def by code_simp+
  have tok: "jc_token c = token_text ''mcjit_'' ''x''" by (simp add: c_def)
  show ?thesis
    unfolding Let_def c_def [symmetric] inp_def [symmetric]
    using jit_grant_window [OF iss refl _ tok, of "[]" 59999999999] jit_grant_window [OF iss refl _ tok, of "[]" 60000000000]
      jit_grant_window [OF iss refl _ tok, of "[JRevoke 0 ''jit-grant-1'']" 1] f by simp
qed

section \<open>Delegation tokens\<close>

record delegation =
  dg_id :: string
  dg_grantor :: string
  dg_delegatee :: string
  dg_pipeline :: string
  dg_scopes :: "string list"
  dg_ttl :: int
  dg_max_uses :: int
  dg_used :: int
  dg_created :: gotime
  dg_expires :: gotime
  dg_revoked :: "gotime option"

record delegation_input =
  di_grantor :: string
  di_delegatee :: string
  di_pipeline :: string
  di_scopes :: "string list"
  di_ttl :: int
  di_max_uses :: int

record delegation_result =
  dr_allowed :: bool
  dr_reason :: string
  dr_id :: string
  dr_grantor :: string
  dr_delegatee :: string
  dr_expires :: gotime
  dr_remaining :: int

record delegation_store =
  ds_next :: int
  ds_tokens :: "(delegation \<times> string) gomap"
  ds_index :: "string gomap"

definition NewDelegationTokenStore :: delegation_store where
  "NewDelegationTokenStore = \<lparr>ds_next = 0, ds_tokens = [], ds_index = []\<rparr>"

definition new_delegation :: "gotime \<Rightarrow> delegation_input \<Rightarrow> int \<Rightarrow> int \<Rightarrow> int \<Rightarrow> delegation" where
  "new_delegation now inp ttl maxUses n =
     \<lparr>dg_id = seq_id ''delegation-'' n, dg_grantor = TrimSpace (di_grantor inp), dg_delegatee = TrimSpace (di_delegatee inp),
      dg_pipeline = TrimSpace (di_pipeline inp), dg_scopes = normalizeStringSlice (di_scopes inp), dg_ttl = ttl, dg_max_uses = maxUses,
      dg_used = 0, dg_created = now, dg_expires = now + seconds ttl, dg_revoked = None\<rparr>"

definition Issue_delegation :: "(string \<Rightarrow> string) \<Rightarrow> gotime \<Rightarrow> string result \<Rightarrow> delegation_input \<Rightarrow> delegation_store \<Rightarrow>
    delegation_store \<times> (string \<times> delegation) result" where
  "Issue_delegation hash now entropy inp s =
     (if TrimSpace (di_grantor inp) = [] \<or> TrimSpace (di_delegatee inp) = [] then (s, Inl ''grantor and delegatee are required'')
      else let ttl = (if di_ttl inp \<le> 0 then 900 else di_ttl inp)
           in if ttl < 60 then (s, Inl ''ttl_seconds must be >= 60'')
              else if ttl > 86400 then (s, Inl ''ttl_seconds must be <= 86400'')
              else let maxUses = (if di_max_uses inp \<le> 0 then 1 else di_max_uses inp)
                   in if maxUses > 100 then (s, Inl ''max_uses must be <= 100'')
                      else if normalizeStringSlice (di_scopes inp) = [] then (s, Inl ''at least one scope is required'')
                      else case entropy of
                             Inl e \<Rightarrow> (s, Inl e)
                           | Inr bytes \<Rightarrow>
                               let token = token_text ''mcdel_'' bytes; item = new_delegation now inp ttl maxUses (ds_next s + 1)
                               in (s\<lparr>ds_next := ds_next s + 1, ds_tokens := mput (dg_id item) (item, hash token) (ds_tokens s),
                                     ds_index := mput (hash token) (dg_id item) (ds_index s)\<rparr>, Inr (token, item)))"

definition expire_delegation :: "gotime \<Rightarrow> delegation \<times> string \<Rightarrow> delegation \<times> string" where
  "expire_delegation now dh =
     (let d = fst dh in if dg_revoked d = None \<and> \<not> now < dg_expires d then (d\<lparr>dg_revoked := Some (dg_expires d)\<rparr>, snd dh) else dh)"

definition cleanupExpiredLocked :: "gotime \<Rightarrow> delegation_store \<Rightarrow> delegation_store" where
  "cleanupExpiredLocked now s = s\<lparr>ds_tokens := map_vals (expire_delegation now) (ds_tokens s)\<rparr>"

definition List_delegations :: "gotime \<Rightarrow> delegation_store \<Rightarrow> delegation_store \<times> delegation list" where
  "List_delegations now s = (let s = cleanupExpiredLocked now s in (s, newest_first dg_created (map (fst \<circ> snd) (ds_tokens s))))"

definition Get_delegation :: "gotime \<Rightarrow> string \<Rightarrow> delegation_store \<Rightarrow> delegation_store \<times> delegation option" where
  "Get_delegation now i s = (let s = cleanupExpiredLocked now s in (s, map_option fst (mget (ds_tokens s) (TrimSpace i))))"

definition Revoke_delegation :: "gotime \<Rightarrow> string \<Rightarrow> delegation_store \<Rightarrow> delegation_store \<times> delegation result" where
  "Revoke_delegation now i s =
     (if TrimSpace i = [] then (s, Inl ''delegation token id is required'')
      else case mget (ds_tokens s) (TrimSpace i) of
        None \<Rightarrow> (s, Inl ''delegation token not found'')
      | Some (d, h) \<Rightarrow>
          let d = (if dg_revoked d = None then d\<lparr>dg_revoked := Some now\<rparr> else d)
          in (s\<lparr>ds_tokens := mput (TrimSpace i) (d, h) (ds_tokens s)\<rparr>, Inr d))"

definition validationFromDelegation :: "delegation \<Rightarrow> bool \<Rightarrow> string \<Rightarrow> delegation_result" where
  "validationFromDelegation d allowed reason =
     \<lparr>dr_allowed = allowed, dr_reason = reason, dr_id = dg_id d, dr_grantor = dg_grantor d, dr_delegatee = dg_delegatee d,
      dr_expires = dg_expires d, dr_remaining = (if dg_max_uses d - dg_used d < 0 then 0 else dg_max_uses d - dg_used d)\<rparr>"

definition refused_delegation :: "string \<Rightarrow> delegation_result" where
  "refused_delegation reason = \<lparr>dr_allowed = False, dr_reason = reason, dr_id = [], dr_grantor = [], dr_delegatee = [], dr_expires = 0, dr_remaining = 0\<rparr>"

definition use_delegation :: "string \<Rightarrow> gotime \<Rightarrow> delegation \<Rightarrow> delegation \<times> delegation_result" where
  "use_delegation requiredScope now d =
     (if dg_revoked d \<noteq> None then (d, validationFromDelegation d False ''delegation token revoked'')
      else if \<not> now < dg_expires d then (d, validationFromDelegation d False ''delegation token expired'')
      else if requiredScope \<noteq> [] \<and> \<not> sliceContains (dg_scopes d) requiredScope
      then (d, validationFromDelegation d False ''required scope not granted'')
      else if dg_used d \<ge> dg_max_uses d then (d, validationFromDelegation d False ''delegation token exhausted'')
      else let d = d\<lparr>dg_used := dg_used d + 1\<rparr> in (d, validationFromDelegation d True []))"

definition validateAt_delegation :: "(string \<Rightarrow> string) \<Rightarrow> string \<Rightarrow> string \<Rightarrow> gotime \<Rightarrow> delegation_store \<Rightarrow> delegation_store \<times> delegation_result" where
  "validateAt_delegation hash token requiredScope now s =
     (if TrimSpace token = [] then (s, refused_delegation ''token is required'')
      else let s = cleanupExpiredLocked now s
           in case mget (ds_index s) (hash (TrimSpace token)) of
                None \<Rightarrow> (s, refused_delegation ''delegation token not recognized'')
              | Some tokenID \<Rightarrow>
                  (case mget (ds_tokens s) tokenID of
                     None \<Rightarrow> (s, refused_delegation ''delegation token not recognized'')
                   | Some (d, h) \<Rightarrow>
                       let (d', r) = use_delegation (TrimSpace requiredScope) now d
                       in (s\<lparr>ds_tokens := mput tokenID (d', h) (ds_tokens s)\<rparr>, r)))"

datatype delegation_op =
    DIssue gotime "string result" delegation_input
  | DList gotime
  | DGet gotime string
  | DRevoke gotime string
  | DValidate gotime string string

text \<open>A step, with the answers that validations gave so far.\<close>

fun delegation_step :: "(string \<Rightarrow> string) \<Rightarrow> delegation_store \<times> delegation_result list \<Rightarrow> delegation_op \<Rightarrow> delegation_store \<times> delegation_result list" where
  "delegation_step hash (s, log) (DIssue now entropy inp) = (fst (Issue_delegation hash now entropy inp s), log)"
| "delegation_step hash (s, log) (DList now) = (fst (List_delegations now s), log)"
| "delegation_step hash (s, log) (DGet now i) = (fst (Get_delegation now i s), log)"
| "delegation_step hash (s, log) (DRevoke now i) = (fst (Revoke_delegation now i s), log)"
| "delegation_step hash (s, log) (DValidate now token scope) =
     (let (s', r) = validateAt_delegation hash token scope now s in (s', log @ [r]))"

text \<open>The uses of a token that the answers admitted.\<close>

definition admitted :: "delegation_result list \<Rightarrow> string \<Rightarrow> int" where
  "admitted log i = int (length (filter (\<lambda>r. dr_allowed r \<and> dr_id r = i) log))"

definition delegation_ok :: "delegation_result list \<Rightarrow> string \<Rightarrow> delegation \<times> string \<Rightarrow> bool" where
  "delegation_ok log i dh \<longleftrightarrow> dg_id (fst dh) = i \<and> 1 \<le> dg_max_uses (fst dh) \<and> dg_max_uses (fst dh) \<le> 100 \<and>
     admitted log i = dg_used (fst dh) \<and> dg_used (fst dh) \<le> dg_max_uses (fst dh) \<and> dg_scopes (fst dh) \<noteq> [] \<and> list_all (\<lambda>x. lower_trim x = x) (dg_scopes (fst dh)) \<and>
     dg_expires (fst dh) = dg_created (fst dh) + dg_ttl (fst dh) * 1000000000 \<and> 60 \<le> dg_ttl (fst dh) \<and> dg_ttl (fst dh) \<le> 86400"

definition delegation_inv :: "delegation_store \<times> delegation_result list \<Rightarrow> bool" where
  "delegation_inv sl \<longleftrightarrow> store_inv ds_tokens ds_next ''delegation-'' (fst sl) \<and>
     items_ok (delegation_ok (snd sl)) (ds_tokens (fst sl)) \<and>
     (\<forall>r \<in> set (snd sl). dr_allowed r \<longrightarrow> mget (ds_tokens (fst sl)) (dr_id r) \<noteq> None)"

lemma issue_delegation_cases:
  "(\<exists>e. Issue_delegation hash now entropy inp s = (s, Inl e)) \<or>
   (\<exists>ttl maxUses bytes. entropy = Inr bytes \<and> 60 \<le> ttl \<and> ttl \<le> 86400 \<and> 1 \<le> maxUses \<and> maxUses \<le> 100 \<and> normalizeStringSlice (di_scopes inp) \<noteq> [] \<and>
      Issue_delegation hash now entropy inp s =
        (let token = token_text ''mcdel_'' bytes; item = new_delegation now inp ttl maxUses (ds_next s + 1)
         in (s\<lparr>ds_next := ds_next s + 1, ds_tokens := mput (dg_id item) (item, hash token) (ds_tokens s),
               ds_index := mput (hash token) (dg_id item) (ds_index s)\<rparr>, Inr (token, item))))"
proof (cases entropy)
  case (Inr bytes)
  define ttl where "ttl = (if di_ttl inp \<le> 0 then 900 else di_ttl inp)"
  define maxUses where "maxUses = (if di_max_uses inp \<le> 0 then 1 else di_max_uses inp)"
  have "1 \<le> maxUses" by (simp add: maxUses_def)
  then show ?thesis unfolding Inr Issue_delegation_def ttl_def [symmetric] maxUses_def [symmetric] Let_def by (simp add: not_less) blast
qed (simp add: Issue_delegation_def Let_def)

lemma use_delegation_cases:
  "(\<exists>reason. use_delegation scope now d = (d, validationFromDelegation d False reason)) \<or>
   (dg_revoked d = None \<and> now < dg_expires d \<and> dg_used d < dg_max_uses d \<and> (scope = [] \<or> sliceContains (dg_scopes d) scope) \<and>
    use_delegation scope now d = (d\<lparr>dg_used := dg_used d + 1\<rparr>, validationFromDelegation (d\<lparr>dg_used := dg_used d + 1\<rparr>) True []))"
  by (auto simp: use_delegation_def Let_def)

text \<open>What a validation does: the store is swept, one token may be counted, and the answer is recorded.\<close>

lemma validate_delegation_cases:
  obtains (refused) s' r where "s' \<in> {s, cleanupExpiredLocked now s}" "validateAt_delegation hash token scope now s = (s', r)" "\<not> dr_allowed r"
  | (found) tokenID d h where "mget (ds_tokens (cleanupExpiredLocked now s)) tokenID = Some (d, h)"
      "validateAt_delegation hash token scope now s =
         ((cleanupExpiredLocked now s)\<lparr>ds_tokens := mput tokenID (fst (use_delegation (TrimSpace scope) now d), h) (ds_tokens (cleanupExpiredLocked now s))\<rparr>,
          snd (use_delegation (TrimSpace scope) now d))"
proof -
  let ?s = "cleanupExpiredLocked now s"
  show thesis
  proof (cases "TrimSpace token = []")
    case True
    then show thesis
      by (intro refused [of s "refused_delegation ''token is required''"]) (simp_all add: validateAt_delegation_def refused_delegation_def)
  next
    case tok: False
    show thesis
    proof (cases "\<exists>tokenID d h. mget (ds_index ?s) (hash (TrimSpace token)) = Some tokenID \<and> mget (ds_tokens ?s) tokenID = Some (d, h)")
      case True
      then obtain tokenID d h where "mget (ds_index ?s) (hash (TrimSpace token)) = Some tokenID" "mget (ds_tokens ?s) tokenID = Some (d, h)" by blast
      then show thesis using tok by (intro found [of tokenID d h]) (simp_all add: validateAt_delegation_def Let_def split_beta)
    next
      case False
      then have "validateAt_delegation hash token scope now s = (?s, refused_delegation ''delegation token not recognized'')"
        using tok by (auto simp: validateAt_delegation_def Let_def split: option.split)
      then show thesis
        by (intro refused [of ?s "refused_delegation ''delegation token not recognized''"]) (simp_all add: refused_delegation_def)
    qed
  qed
qed

lemma cleanup_keys [simp]:
  "mkeys (ds_tokens (cleanupExpiredLocked now s)) = mkeys (ds_tokens s)" "ds_next (cleanupExpiredLocked now s) = ds_next s"
  "mget (ds_tokens (cleanupExpiredLocked now s)) k = map_option (expire_delegation now) (mget (ds_tokens s) k)"
  "keys_step pre n (ds_tokens (cleanupExpiredLocked now s)) n' m' = keys_step pre n (ds_tokens s) n' m'"
  "keys_step pre n (ds_tokens s) n (ds_tokens (cleanupExpiredLocked now s))"
  by (simp_all add: cleanupExpiredLocked_def)

lemma delegation_keys:
  "keys_step ''delegation-'' (ds_next (fst sl)) (ds_tokens (fst sl)) (ds_next (fst (delegation_step hash sl op))) (ds_tokens (fst (delegation_step hash sl op)))"
proof -
  obtain s log where sl: "sl = (s, log)" by (cases sl)
  show ?thesis
  proof (cases op)
    case (DIssue now entropy inp)
    then show ?thesis using issue_delegation_cases [of hash now entropy inp s] by (auto simp: sl new_delegation_def Let_def)
  next
    case (DRevoke now i)
    then show ?thesis by (auto simp: sl Revoke_delegation_def Let_def split: option.split intro: keys_step_update_some)
  next
    case (DValidate now token scope)
    show ?thesis
    proof (cases rule: validate_delegation_cases [of s now hash token scope])
      case (refused s' r)
      then show ?thesis by (auto simp: sl DValidate)
    next
      case (found tokenID d h)
      have "keys_step ''delegation-'' (ds_next s) (ds_tokens (cleanupExpiredLocked now s)) (ds_next s) (mput tokenID v (ds_tokens (cleanupExpiredLocked now s)))" for v
        by (rule keys_step_update_some [OF found(1)])
      then show ?thesis using found(2) by (simp add: sl DValidate)
    qed
  qed (simp_all add: sl List_delegations_def Get_delegation_def Let_def)
qed

lemma expire_delegation_ok: "delegation_ok log i dh \<Longrightarrow> delegation_ok log i (expire_delegation now dh)"
  by (auto simp: delegation_ok_def expire_delegation_def Let_def)

lemma cleanup_inv: "delegation_inv (s, log) \<Longrightarrow> delegation_inv (cleanupExpiredLocked now s, log)"
  using store_inv_step [where items = ds_tokens and counter = ds_next and s = s and s' = "cleanupExpiredLocked now s"]
  by (auto simp: delegation_inv_def cleanupExpiredLocked_def intro: items_ok_map_vals expire_delegation_ok)

lemma admitted_snoc: "admitted (log @ [r]) i = (if dr_allowed r \<and> dr_id r = i then admitted log i + 1 else admitted log i)"
  by (simp add: admitted_def)

lemma inv_admitted_zero:
  assumes "delegation_inv (s, log)" "mget (ds_tokens s) i = None"
  shows "admitted log i = 0"
  using assms by (force simp: delegation_inv_def admitted_def filter_empty_conv)

lemma refused_inv: "delegation_inv (s, log) \<Longrightarrow> \<not> dr_allowed r \<Longrightarrow> delegation_inv (s, log @ [r])"
  by (auto simp: delegation_inv_def delegation_ok_def admitted_snoc intro: items_ok_mono)

lemma used_inv:
  assumes inv: "delegation_inv (s, log)" and d: "mget (ds_tokens s) i = Some (d, h)"
  shows "delegation_inv (s\<lparr>ds_tokens := mput i (fst (use_delegation scope now d), h) (ds_tokens s)\<rparr>, log @ [snd (use_delegation scope now d)])"
proof -
  let ?d = "fst (use_delegation scope now d)" and ?r = "snd (use_delegation scope now d)"
  let ?s = "s\<lparr>ds_tokens := mput i (?d, h) (ds_tokens s)\<rparr>"
  have ok: "delegation_ok log k x" if "mget (ds_tokens s) k = Some x" for k x using inv that by (auto simp: delegation_inv_def dest: items_okD)
  have id: "dg_id d = i" using ok [OF d] by (simp add: delegation_ok_def)
  have st: "store_inv ds_tokens ds_next ''delegation-'' ?s"
    by (rule store_inv_step [where s = s]) (use inv keys_step_update_some [OF d] in \<open>simp_all add: delegation_inv_def\<close>)
  have r: "dr_id ?r = i" using use_delegation_cases [of scope now d] id by (auto simp: validationFromDelegation_def)
  have "delegation_ok (log @ [?r]) k x" if "mget (ds_tokens ?s) k = Some x" for k x
  proof (cases "k = i")
    case True
    then have "x = (?d, h)" using that by simp
    then show ?thesis using use_delegation_cases [of scope now d] ok [OF d] id True
      by (auto simp: delegation_ok_def admitted_snoc validationFromDelegation_def)
  next
    case False
    then show ?thesis using that ok [of k x] r by (simp add: delegation_ok_def admitted_snoc)
  qed
  then show ?thesis using inv st r d by (auto simp: delegation_inv_def intro: items_okI)
qed

lemma delegation_step_inv:
  assumes inv: "delegation_inv sl"
  shows "delegation_inv (delegation_step hash sl op)"
proof -
  obtain s log where sl: "sl = (s, log)" by (cases sl)
  note inv = inv [unfolded sl]
  show ?thesis
  proof (cases op)
    case (DIssue now entropy inp)
    show ?thesis
    proof (cases "fst (Issue_delegation hash now entropy inp s) = s")
      case False
      then obtain ttl maxUses bytes where b: "60 \<le> ttl" "ttl \<le> 86400" "1 \<le> maxUses" "maxUses \<le> 100" "normalizeStringSlice (di_scopes inp) \<noteq> []"
        and e: "ds_tokens (fst (Issue_delegation hash now entropy inp s)) =
          mput (seq_id ''delegation-'' (ds_next s + 1)) (new_delegation now inp ttl maxUses (ds_next s + 1), hash (token_text ''mcdel_'' bytes)) (ds_tokens s)"
        using issue_delegation_cases [of hash now entropy inp s] by (auto simp: Let_def new_delegation_def)
      have fresh: "mget (ds_tokens s) (seq_id ''delegation-'' (ds_next s + 1)) = None"
        using inv store_inv_fresh [where items = ds_tokens and counter = ds_next] by (auto simp: delegation_inv_def)
      have "delegation_ok log (seq_id ''delegation-'' (ds_next s + 1)) (new_delegation now inp ttl maxUses (ds_next s + 1), h)" for h
        using b inv_admitted_zero [OF inv fresh] by (simp add: delegation_ok_def new_delegation_def seconds_small list_all_iff normalizeStringSlice_lower)
      then have "items_ok (delegation_ok log) (ds_tokens (fst (Issue_delegation hash now entropy inp s)))"
        using inv unfolding e by (auto simp: delegation_inv_def intro!: items_intros)
      moreover have "store_inv ds_tokens ds_next ''delegation-'' (fst (Issue_delegation hash now entropy inp s))"
        using inv store_inv_step [where items = ds_tokens and counter = ds_next and s = s, OF _ delegation_keys [of "(s, log)" hash "DIssue now entropy inp", simplified]]
        by (simp add: delegation_inv_def)
      ultimately show ?thesis using inv e by (auto simp: sl DIssue delegation_inv_def)
    qed (use inv in \<open>simp add: sl DIssue\<close>)
  next
    case (DRevoke now i)
    show ?thesis
    proof (cases "\<exists>d h. TrimSpace i \<noteq> [] \<and> mget (ds_tokens s) (TrimSpace i) = Some (d, h)")
      case True
      then obtain d h where d: "TrimSpace i \<noteq> []" "mget (ds_tokens s) (TrimSpace i) = Some (d, h)" by blast
      let ?d = "if dg_revoked d = None then d\<lparr>dg_revoked := Some now\<rparr> else d"
      have e: "fst (Revoke_delegation now i s) = s\<lparr>ds_tokens := mput (TrimSpace i) (?d, h) (ds_tokens s)\<rparr>"
        using d by (simp add: Revoke_delegation_def Let_def)
      have "delegation_ok log (TrimSpace i) (d, h)" using inv d by (auto simp: delegation_inv_def dest: items_okD)
      then have "delegation_ok log (TrimSpace i) (?d, h)" by (simp add: delegation_ok_def)
      moreover have "store_inv ds_tokens ds_next ''delegation-'' (fst (Revoke_delegation now i s))"
        unfolding e by (rule store_inv_step [where s = s]) (use inv keys_step_update_some [OF d(2)] in \<open>simp_all add: delegation_inv_def\<close>)
      ultimately show ?thesis using inv e by (auto simp: sl DRevoke delegation_inv_def intro!: items_intros)
    next
      case False
      then have "fst (Revoke_delegation now i s) = s" by (auto simp: Revoke_delegation_def split: option.split)
      then show ?thesis using inv by (simp add: sl DRevoke)
    qed
  next
    case (DValidate now token scope)
    show ?thesis
    proof (cases rule: validate_delegation_cases [of s now hash token scope])
      case (refused s' r)
      then have "delegation_inv (s', log)" using inv cleanup_inv by auto
      then show ?thesis using refused refused_inv by (simp add: sl DValidate)
    next
      case (found tokenID d h)
      then show ?thesis using used_inv [OF cleanup_inv [OF inv] found(1)] by (simp add: sl DValidate del: cleanup_keys)
    qed
  qed (use inv cleanup_inv in \<open>simp_all add: sl List_delegations_def Get_delegation_def Let_def\<close>)
qed

interpretation delegation_ids: counter_store "delegation_step hash" delegation_inv "ds_tokens \<circ> fst" "ds_next \<circ> fst" "''delegation-''" for hash
proof
  fix sl op
  show "delegation_inv sl \<Longrightarrow> delegation_inv (delegation_step hash sl op)" by (rule delegation_step_inv)
  show "delegation_inv sl \<Longrightarrow> store_inv (ds_tokens \<circ> fst) (ds_next \<circ> fst) ''delegation-'' sl"
    by (simp add: delegation_inv_def store_inv_def)
  show "keys_step ''delegation-'' ((ds_next \<circ> fst) sl) ((ds_tokens \<circ> fst) sl) ((ds_next \<circ> fst) (delegation_step hash sl op)) ((ds_tokens \<circ> fst) (delegation_step hash sl op))"
    using delegation_keys by simp
qed

text \<open>C24: for every hash function, and whatever sequence of issues, reads, revocations and validations, at
  whatever times, the validations admit a delegation token at most \<^verbatim>\<open>MaxUses\<close> times, which is at most a hundred; the
  count that the store keeps is the number of admissions, and a validation that is admitted comes before
  the expiry.\<close>

theorem delegation_uses_bounded:
  fixes hash :: "string \<Rightarrow> string"
  assumes run: "(s, log) = foldl (delegation_step hash) (NewDelegationTokenStore, []) ops"
  shows "admitted log i \<le> 100 \<and>
    (\<forall>d h. mget (ds_tokens s) i = Some (d, h) \<longrightarrow> admitted log i = dg_used d \<and> dg_used d \<le> dg_max_uses d) \<and>
    (let (s', r) = validateAt_delegation hash token scope now s
     in dr_allowed r \<longrightarrow> (\<exists>d h. mget (ds_tokens s) (dr_id r) = Some (d, h) \<and> dg_revoked d = None \<and> now < dg_created d + dg_ttl d * 1000000000 \<and>
          dg_used d < dg_max_uses d \<and> dr_remaining r = dg_max_uses d - dg_used d - 1))"
proof -
  have "delegation_inv (foldl (delegation_step hash) (NewDelegationTokenStore, []) ops)"
    by (rule delegation_ids.run_inv) (simp add: delegation_inv_def NewDelegationTokenStore_def store_inv_def)
  then have inv: "delegation_inv (s, log)" by (simp add: run)
  then have ok: "delegation_ok log k x" if "mget (ds_tokens s) k = Some x" for k x using that by (auto simp: delegation_inv_def dest: items_okD)
  have "admitted log i \<le> 100"
  proof (cases "mget (ds_tokens s) i")
    case (Some x)
    from ok [OF this] show ?thesis by (simp add: delegation_ok_def)
  qed (use inv_admitted_zero [OF inv] in simp)
  moreover have "\<exists>d h. mget (ds_tokens s) (dr_id r) = Some (d, h) \<and> dg_revoked d = None \<and> now < dg_created d + dg_ttl d * 1000000000 \<and>
      dg_used d < dg_max_uses d \<and> dr_remaining r = dg_max_uses d - dg_used d - 1"
    if r: "r = snd (validateAt_delegation hash token scope now s)" "dr_allowed r" for r
  proof (cases rule: validate_delegation_cases [of s now hash token scope])
    case (found tokenID d h)
    then obtain d0 where d0: "mget (ds_tokens s) tokenID = Some (d0, h)" "expire_delegation now (d0, h) = (d, h)"
      by (auto simp: expire_delegation_def Let_def split: if_splits)
    have ok0: "delegation_ok log tokenID (d0, h)" by (rule ok [OF d0(1)])
    from found(2) r use_delegation_cases [of "TrimSpace scope" now d]
    have u: "dg_revoked d = None" "now < dg_expires d" "dg_used d < dg_max_uses d" "r = validationFromDelegation (d\<lparr>dg_used := dg_used d + 1\<rparr>) True []"
      by (auto simp: validationFromDelegation_def)
    have "d0 = d" using d0(2) u(1) by (auto simp: expire_delegation_def Let_def split: if_splits)
    then show ?thesis using d0(1) u ok0 by (auto simp: delegation_ok_def validationFromDelegation_def)
  qed (use r in simp)
  ultimately show ?thesis using ok by (auto simp: delegation_ok_def split_beta)
qed

theorem delegation_uses_bounded_witness:
  "let (s, log) = foldl (delegation_step (\<lambda>t. t)) (NewDelegationTokenStore, [])
       [DIssue 0 (Inr ''x'') \<lparr>di_grantor = ''ann'', di_delegatee = ''ci'', di_pipeline = [], di_scopes = [''deploy''], di_ttl = 60, di_max_uses = 0\<rparr>,
        DValidate 1 (token_text ''mcdel_'' ''x'') ''deploy'', DValidate 2 (token_text ''mcdel_'' ''x'') ''deploy'']
   in map dr_allowed log = [True, False] \<and> admitted log ''delegation-1'' = 1 \<and> admitted log ''delegation-1'' \<le> 100"
proof -
  define ops where "ops = [DIssue 0 (Inr ''x'') \<lparr>di_grantor = ''ann'', di_delegatee = ''ci'', di_pipeline = [], di_scopes = [''deploy''], di_ttl = 60, di_max_uses = 0\<rparr>,
        DValidate 1 (token_text ''mcdel_'' ''x'') ''deploy'', DValidate 2 (token_text ''mcdel_'' ''x'') ''deploy'']"
  obtain s log where run: "(s, log) = foldl (delegation_step (\<lambda>t. t)) (NewDelegationTokenStore, []) ops" by (metis surj_pair)
  have "map dr_allowed (snd (foldl (delegation_step (\<lambda>t. t)) (NewDelegationTokenStore, []) ops)) = [True, False]"
    "admitted (snd (foldl (delegation_step (\<lambda>t. t)) (NewDelegationTokenStore, []) ops)) ''delegation-1'' = 1"
    unfolding ops_def by code_simp+
  then show ?thesis using delegation_uses_bounded [OF run, of "''delegation-1''"] run [symmetric] unfolding ops_def [symmetric] by simp
qed

text \<open>\<^verbatim>\<open>Issue\<close> stores the scopes of a delegation token in lower case, \<^verbatim>\<open>validateAt\<close> compares the required
  scope as it is given: a required scope with an upper-case letter is refused for every token and after every
  history, also when the token was issued for exactly that scope.\<close>

theorem delegation_scope_case:
  fixes hash :: "string \<Rightarrow> string"
  assumes run: "(s, log) = foldl (delegation_step hash) (NewDelegationTokenStore, []) ops"
    and "ToLower (TrimSpace scope) \<noteq> TrimSpace scope"
  shows "\<not> dr_allowed (snd (validateAt_delegation hash token scope now s))"
proof (cases rule: validate_delegation_cases [of s now hash token scope])
  case (found tokenID d h)
  have "delegation_inv (foldl (delegation_step hash) (NewDelegationTokenStore, []) ops)"
    by (rule delegation_ids.run_inv) (simp add: delegation_inv_def NewDelegationTokenStore_def store_inv_def)
  then have "delegation_inv (cleanupExpiredLocked now s, log)" using cleanup_inv by (simp add: run)
  then have "delegation_ok log tokenID (d, h)" using items_okD [OF _ found(1), of "delegation_ok log"] unfolding delegation_inv_def by simp
  then have "lower_trim x = x" if "x \<in> set (dg_scopes d)" for x using that by (simp add: delegation_ok_def list_all_iff)
  then have "ToLower (TrimSpace x) = TrimSpace x" if "x \<in> set (dg_scopes d)" for x using that by (metis lower_trim_def lower_trim_trim)
  then have "\<not> sliceContains (dg_scopes d) (TrimSpace scope)" using assms(2) by (auto simp: sliceContains_iff)
  moreover have "TrimSpace scope \<noteq> []" using assms(2) by auto
  ultimately show ?thesis using found(2) use_delegation_cases [of "TrimSpace scope" now d] by (auto simp: validationFromDelegation_def)
qed simp

theorem delegation_scope_case_witness:
  "let (s, log) = foldl (delegation_step (\<lambda>t. t)) (NewDelegationTokenStore, [])
       [DIssue 0 (Inr ''x'') \<lparr>di_grantor = ''ann'', di_delegatee = ''ci'', di_pipeline = [], di_scopes = [''Deploy''], di_ttl = 60, di_max_uses = 0\<rparr>]
   in \<not> dr_allowed (snd (validateAt_delegation (\<lambda>t. t) (token_text ''mcdel_'' ''x'') ''Deploy'' 1 s)) \<and>
      dr_allowed (snd (validateAt_delegation (\<lambda>t. t) (token_text ''mcdel_'' ''x'') ''deploy'' 1 s))"
proof -
  define ops where "ops = [DIssue 0 (Inr ''x'') \<lparr>di_grantor = ''ann'', di_delegatee = ''ci'', di_pipeline = [], di_scopes = [''Deploy''], di_ttl = 60, di_max_uses = 0\<rparr>]"
  obtain s log where run: "(s, log) = foldl (delegation_step (\<lambda>t. t)) (NewDelegationTokenStore, []) ops" by (metis surj_pair)
  have "ToLower (TrimSpace ''Deploy'') \<noteq> TrimSpace ''Deploy''" by code_simp
  from delegation_scope_case [OF run this] have "\<not> dr_allowed (snd (validateAt_delegation (\<lambda>t. t) (token_text ''mcdel_'' ''x'') ''Deploy'' 1 s))" .
  moreover have "dr_allowed (snd (validateAt_delegation (\<lambda>t. t) (token_text ''mcdel_'' ''x'') ''deploy'' 1 (fst (foldl (delegation_step (\<lambda>t. t)) (NewDelegationTokenStore, []) ops))))"
    unfolding ops_def by code_simp
  ultimately show ?thesis using run [symmetric] unfolding ops_def [symmetric] by simp
qed

end
