(* ===== verification/Variables.thy ===== *)
theory Variables
  imports ControlUtil
begin

text \<open>
  Layered variables: \<open>ResolveVariables\<close> (internal/control/variables.go) merges layers of decoded
  JSON with later layers taking precedence and reports overrides, and \<open>ResolvePillar\<close> (pillar.go) merges by one
  of four strategies. The merges are shown to be the deep merge that a definition by lookups gives, and
  the report of conflicts is shown exact for layers without nested objects. The round trips through
  encoding/json that copy values are the identity on decoded values.
\<close>

section \<open>ResolveVariables\<close>

record variable_layer =
  vl_name :: string
  vl_data :: "json gomap"

record variable_conflict =
  vc_path :: string
  vc_previous_layer :: string
  vc_current_layer :: string
  vc_previous :: json
  vc_current :: json

record source_edge =
  se_path :: string
  se_from :: string
  se_to :: string
  se_action :: string

text \<open>The logs that \<open>mergeContext\<close> shares between the levels of the recursion.\<close>

record merge_log =
  ml_conflicts :: "variable_conflict list"
  ml_graph :: "source_edge list"
  ml_source :: "string gomap"
  ml_value :: "json gomap"
  ml_overrides :: "int gomap"

record resolve_result =
  vr_merged :: "json gomap"
  vr_precedence :: "string list"
  vr_conflicts :: "variable_conflict list"
  vr_warnings :: "string list"
  vr_graph :: "source_edge list"

definition variableValueEqual :: "json \<Rightarrow> json \<Rightarrow> bool" where
  "variableValueEqual a b = (canon a = canon b)"

text \<open>A key that is new, and a key that is overridden.\<close>

definition log_set :: "string \<Rightarrow> string \<Rightarrow> json \<Rightarrow> merge_log \<Rightarrow> merge_log" where
  "log_set layer path v l =
     l\<lparr>ml_source := mput path layer (ml_source l), ml_value := mput path v (ml_value l),
       ml_graph := ml_graph l @ [\<lparr>se_path = path, se_from = [], se_to = layer, se_action = ''set''\<rparr>]\<rparr>"

definition log_override :: "string \<Rightarrow> string \<Rightarrow> json \<Rightarrow> merge_log \<Rightarrow> merge_log" where
  "log_override layer path v l =
     (let prevLayer = mget_or [] (ml_source l) path; prevVal = mget_or JNull (ml_value l) path;
          l = (if variableValueEqual prevVal v then l
               else l\<lparr>ml_conflicts := ml_conflicts l @ [\<lparr>vc_path = path, vc_previous_layer = prevLayer, vc_current_layer = layer,
                        vc_previous = prevVal, vc_current = v\<rparr>],
                      ml_overrides := mput path (mget_or 0 (ml_overrides l) path + 1) (ml_overrides l)\<rparr>)
      in l\<lparr>ml_source := mput path layer (ml_source l), ml_value := mput path v (ml_value l),
           ml_graph := ml_graph l @ [\<lparr>se_path = path, se_from = prevLayer, se_to = layer, se_action = ''override''\<rparr>]\<rparr>)"

definition sub_path :: "string \<Rightarrow> string \<Rightarrow> string" where
  "sub_path pathPrefix key = (if pathPrefix \<noteq> [] then pathPrefix @ ''.'' @ key else key)"

fun mergeVariableLayer :: "string \<Rightarrow> string \<Rightarrow> json gomap \<Rightarrow> json gomap \<Rightarrow> merge_log \<Rightarrow> json gomap \<times> merge_log" where
  "mergeVariableLayer layer pathPrefix [] dest l = (dest, l)"
| "mergeVariableLayer layer pathPrefix ((key, rawValue) # source) dest l =
     (case mget dest key of
        None \<Rightarrow> mergeVariableLayer layer pathPrefix source (mput key rawValue dest) (log_set layer (sub_path pathPrefix key) rawValue l)
      | Some existing \<Rightarrow>
          (case (rawValue, existing) of
             (JObj incomingMap, JObj existingMap) \<Rightarrow>
               (let (existingMap', l') = mergeVariableLayer layer (sub_path pathPrefix key) incomingMap existingMap l
                in mergeVariableLayer layer pathPrefix source (mput key (JObj existingMap') dest) l')
           | _ \<Rightarrow> mergeVariableLayer layer pathPrefix source (mput key rawValue dest) (log_override layer (sub_path pathPrefix key) rawValue l)))"

definition layer_name :: "nat \<Rightarrow> variable_layer \<Rightarrow> string" where
  "layer_name i layer = (if TrimSpace (vl_name layer) = [] then ''layer-'' @ itoa (int (i + 1)) else TrimSpace (vl_name layer))"

fun merge_layers :: "nat \<Rightarrow> variable_layer list \<Rightarrow> json gomap \<Rightarrow> merge_log \<Rightarrow> json gomap \<times> merge_log" where
  "merge_layers i [] dest l = (dest, l)"
| "merge_layers i (layer # layers) dest l =
     (let (dest', l') = mergeVariableLayer (layer_name i layer) [] (vl_data layer) dest l in merge_layers (i + 1) layers dest' l')"

definition empty_log :: merge_log where
  "empty_log = \<lparr>ml_conflicts = [], ml_graph = [], ml_source = [], ml_value = [], ml_overrides = []\<rparr>"

definition override_warning :: "merge_log \<Rightarrow> string \<Rightarrow> string" where
  "override_warning l path = ''ambiguous override for '' @ path @ '' across multiple layers (latest: '' @ mget_or [] (ml_source l) path @
     ''); prefer narrowing scope or renaming variable''"

text \<open>The result comes with the error of a hard failure, if there is one.\<close>

definition ResolveVariables :: "variable_layer list \<Rightarrow> bool \<Rightarrow> resolve_result \<times> string option" where
  "ResolveVariables layers hardFail =
     (let (merged, l) = merge_layers 0 layers [] empty_log;
          warnings = map (\<lambda>(path, count). override_warning l path) (filter (\<lambda>(path, count). count \<ge> 2) (ml_overrides l));
          res = \<lparr>vr_merged = merged, vr_precedence = map (\<lambda>(i, layer). layer_name i layer) (enumerate 0 layers),
            vr_conflicts = ml_conflicts l, vr_warnings = warnings, vr_graph = ml_graph l\<rparr>
      in (res, if hardFail \<and> vr_conflicts res \<noteq> [] then Some ''variable precedence conflict detected'' else None))"

subsection \<open>The merged value\<close>

text \<open>The reference: one map laid over another, objects merged key by key.\<close>

fun deep_merge :: "json gomap \<Rightarrow> json gomap \<Rightarrow> json gomap" where
  "deep_merge [] dest = dest"
| "deep_merge ((key, v) # source) dest =
     deep_merge source (mput key (case (v, mget dest key) of (JObj b, Some (JObj a)) \<Rightarrow> JObj (deep_merge b a) | _ \<Rightarrow> v) dest)"

definition merge_value :: "json option \<Rightarrow> json option \<Rightarrow> json option" where
  "merge_value old new =
     (case new of None \<Rightarrow> old | Some v \<Rightarrow> Some (case (v, old) of (JObj b, Some (JObj a)) \<Rightarrow> JObj (deep_merge b a) | _ \<Rightarrow> v))"

lemma mergeVariableLayer_deep: "fst (mergeVariableLayer layer pathPrefix source dest l) = deep_merge source dest"
  by (induction layer pathPrefix source dest l rule: mergeVariableLayer.induct)
    (auto simp: Let_def split_beta split: option.split json.split, metis prod.collapse)

lemma deep_merge_lookup:
  "distinct (mkeys source) \<Longrightarrow> mget (deep_merge source dest) k = merge_value (mget dest k) (mget source k)"
proof (induction source arbitrary: dest)
  case (Cons kv source)
  obtain key v where kv: "kv = (key, v)" by (cases kv)
  have "mget source key = None" using Cons.prems by (auto simp: kv map_of_eq_None_iff)
  then show ?case using Cons by (auto simp: kv merge_value_def split: json.split option.split)
qed (simp add: merge_value_def)

lemma merge_layers_deep: "fst (merge_layers i layers dest l) = fold (\<lambda>layer. deep_merge (vl_data layer)) layers dest"
  by (induction layers arbitrary: i dest l) (simp_all add: split_beta mergeVariableLayer_deep)

lemma fold_deep_merge_lookup:
  "\<forall>layer \<in> set layers. wf_map (vl_data layer) \<Longrightarrow>
   mget (fold (\<lambda>layer. deep_merge (vl_data layer)) layers dest) k = fold (\<lambda>layer old. merge_value old (mget (vl_data layer) k)) layers (mget dest k)"
  by (induction layers arbitrary: dest) (simp_all add: deep_merge_lookup wf_map_def)

text \<open>the merged value of every key is obtained by laying the layers over each other in order, whatever the order in
  which the maps are traversed: objects are merged key by key, anything else is replaced. A key that no layer binds to an
  object has the value of the last layer that binds it.\<close>

theorem ResolveVariables_precedence:
  assumes "\<forall>layer \<in> set layers. wf_map (vl_data layer)"
  shows "mget (vr_merged (fst (ResolveVariables layers hardFail))) k = fold (\<lambda>layer old. merge_value old (mget (vl_data layer) k)) layers None \<and>
    ((\<forall>layer \<in> set layers. \<forall>m. mget (vl_data layer) k \<noteq> Some (JObj m)) \<longrightarrow>
       mget (vr_merged (fst (ResolveVariables layers hardFail))) k =
         (case filter (\<lambda>layer. mget (vl_data layer) k \<noteq> None) layers of [] \<Rightarrow> None | ls \<Rightarrow> mget (vl_data (last ls)) k))"
proof -
  have m: "mget (vr_merged (fst (ResolveVariables layers hardFail))) k = fold (\<lambda>layer old. merge_value old (mget (vl_data layer) k)) layers None"
    using merge_layers_deep [of 0 layers "[]" empty_log] fold_deep_merge_lookup [OF assms, of "[]" k]
    by (simp add: ResolveVariables_def Let_def split_beta)
  have "fold (\<lambda>layer old. merge_value old (mget (vl_data layer) k)) ls None =
      (case filter (\<lambda>layer. mget (vl_data layer) k \<noteq> None) ls of [] \<Rightarrow> None | ls \<Rightarrow> mget (vl_data (last ls)) k)"
    if "\<forall>layer \<in> set ls. \<forall>m. mget (vl_data layer) k \<noteq> Some (JObj m)" for ls
    using that
  proof (induction ls rule: rev_induct)
    case (snoc l ls)
    show ?case
    proof (cases "mget (vl_data l) k")
      case None
      then show ?thesis using snoc by (simp add: merge_value_def)
    next
      case (Some v)
      then have "merge_value old (mget (vl_data l) k) = Some v" for old using snoc.prems by (auto simp: merge_value_def split: json.split)
      moreover have "(case ys @ [l] of [] \<Rightarrow> None | ls \<Rightarrow> mget (vl_data (last ls)) k) = mget (vl_data l) k" for ys
        by (cases ys) auto
      ultimately show ?thesis using Some by simp
    qed
  qed simp
  then show ?thesis unfolding m by blast
qed

theorem ResolveVariables_precedence_witness:
  "let layers = [\<lparr>vl_name = ''base'', vl_data = [(''db'', JObj [(''host'', JStr ''a''), (''port'', JNum ''1'')]), (''x'', JBool True)]\<rparr>,
         \<lparr>vl_name = ''prod'', vl_data = [(''x'', JNull), (''db'', JObj [(''host'', JStr ''b'')])]\<rparr>]
   in mget (vr_merged (fst (ResolveVariables layers False))) ''db'' = Some (JObj [(''host'', JStr ''b''), (''port'', JNum ''1'')]) \<and>
      mget (vr_merged (fst (ResolveVariables layers False))) ''x'' = Some JNull"
proof -
  define layers where "layers = [\<lparr>vl_name = ''base'', vl_data = [(''db'', JObj [(''host'', JStr ''a''), (''port'', JNum ''1'')]), (''x'', JBool True)]\<rparr>,
         \<lparr>vl_name = ''prod'', vl_data = [(''x'', JNull), (''db'', JObj [(''host'', JStr ''b'')])]\<rparr>]"
  have wf: "\<forall>layer \<in> set layers. wf_map (vl_data layer)" unfolding layers_def by (simp add: wf_map_def)
  have "fold (\<lambda>layer old. merge_value old (mget (vl_data layer) ''db'')) layers None = Some (JObj [(''host'', JStr ''b''), (''port'', JNum ''1'')])"
    "fold (\<lambda>layer old. merge_value old (mget (vl_data layer) ''x'')) layers None = Some JNull"
    unfolding layers_def by code_simp+
  then show ?thesis using ResolveVariables_precedence [OF wf, of False "''db''"] ResolveVariables_precedence [OF wf, of False "''x''"]
    unfolding Let_def layers_def [symmetric] by simp
qed

subsection \<open>Conflicts\<close>

fun is_object :: "json \<Rightarrow> bool" where
  "is_object (JObj m) = True"
| "is_object _ = False"

text \<open>Layers without nested objects: the logs then follow the merged map.\<close>

definition flat :: "json gomap \<Rightarrow> bool" where
  "flat m \<longleftrightarrow> wf_map m \<and> list_all (\<lambda>(k, v). \<not> is_object v) m"

text \<open>The values that a sequence of layers gives to a key, and that they are all the same.\<close>

definition bindings_of :: "variable_layer list \<Rightarrow> string \<Rightarrow> json list" where
  "bindings_of layers k = List.map_filter (\<lambda>layer. mget (vl_data layer) k) layers"

definition agree :: "json list \<Rightarrow> bool" where
  "agree vs \<longleftrightarrow> (\<forall>v \<in> set vs. \<forall>w \<in> set vs. variableValueEqual v w)"

lemma agree_small [simp]: "agree []" "agree [v]"
  by (simp_all add: agree_def variableValueEqual_def)

lemma agree_snoc: "agree (vs @ [v]) \<longleftrightarrow> agree vs \<and> (vs = [] \<or> variableValueEqual (last vs) v)"
proof (cases "vs = []")
  case False
  then have l: "last vs \<in> set vs" by simp
  show ?thesis
  proof
    assume "agree (vs @ [v])"
    then show "agree vs \<and> (vs = [] \<or> variableValueEqual (last vs) v)" using l unfolding agree_def by simp
  next
    assume a: "agree vs \<and> (vs = [] \<or> variableValueEqual (last vs) v)"
    then have "canon x = canon v" if "x \<in> set (vs @ [v])" for x
      using that l False unfolding agree_def variableValueEqual_def by (metis Un_iff empty_iff insert_iff list.set set_append)
    then show "agree (vs @ [v])" unfolding agree_def variableValueEqual_def by metis
  qed
qed (simp add: agree_def variableValueEqual_def)

text \<open>The loop over one flat layer: each key is logged against its last value.\<close>

definition follows :: "json gomap \<Rightarrow> merge_log \<Rightarrow> bool" where
  "follows dest l \<longleftrightarrow> (\<forall>k. mget (ml_value l) k = mget dest k) \<and> (\<forall>k m. mget dest k \<noteq> Some (JObj m))"

lemma merge_flat_layer:
  assumes "follows dest l" "flat source"
  shows "follows (fst (mergeVariableLayer layer [] source dest l)) (snd (mergeVariableLayer layer [] source dest l)) \<and>
    (ml_conflicts (snd (mergeVariableLayer layer [] source dest l)) = [] \<longleftrightarrow>
      ml_conflicts l = [] \<and> (\<forall>k v w. mget source k = Some v \<longrightarrow> mget dest k = Some w \<longrightarrow> variableValueEqual w v))"
  using assms
proof (induction source arbitrary: dest l)
  case (Cons kv source)
  obtain key v where kv: "kv = (key, v)" by (cases kv)
  have v: "\<And>m. v \<noteq> JObj m" and fl: "flat source" and new: "mget source key = None" and key: "sub_path [] key = key"
    using Cons.prems(2) by (auto simp: kv flat_def wf_map_def sub_path_def map_of_eq_None_iff)
  define l' where "l' = (case mget dest key of None \<Rightarrow> log_set layer key v l | Some _ \<Rightarrow> log_override layer key v l)"
  have step: "mergeVariableLayer layer [] (kv # source) dest l = mergeVariableLayer layer [] source (mput key v dest) l'"
    using v by (simp add: kv l'_def key split: option.split json.split)
  have val: "ml_value l' = mput key v (ml_value l)"
    by (simp add: l'_def log_set_def log_override_def Let_def split: option.split)
  have f: "follows (mput key v dest) l'" using Cons.prems(1) v by (simp add: follows_def val)
  have c: "ml_conflicts l' = [] \<longleftrightarrow> ml_conflicts l = [] \<and> (\<forall>w. mget dest key = Some w \<longrightarrow> variableValueEqual w v)"
    using Cons.prems(1) by (auto simp: l'_def log_set_def log_override_def Let_def follows_def mget_or_def split: option.split)
  have "(\<forall>k u w. mget source k = Some u \<longrightarrow> mget (mput key v dest) k = Some w \<longrightarrow> variableValueEqual w u) \<longleftrightarrow>
      (\<forall>k u w. mget source k = Some u \<longrightarrow> mget dest k = Some w \<longrightarrow> variableValueEqual w u)"
    using new by auto (metis option.distinct(1))
  moreover have "(\<forall>k u w. mget (kv # source) k = Some u \<longrightarrow> mget dest k = Some w \<longrightarrow> variableValueEqual w u) \<longleftrightarrow>
      (\<forall>w. mget dest key = Some w \<longrightarrow> variableValueEqual w v) \<and> (\<forall>k u w. mget source k = Some u \<longrightarrow> mget dest k = Some w \<longrightarrow> variableValueEqual w u)"
    using new by (auto simp: kv) (metis option.distinct(1))
  ultimately show ?case using Cons.IH [OF f fl] c unfolding step by blast
qed simp

lemma merge_flat_layers:
  assumes "\<forall>layer \<in> set layers. flat (vl_data layer)" "follows dest l"
    and "\<forall>k. mget dest k = (if bindings_of before k = [] then None else Some (last (bindings_of before k)))"
    and "ml_conflicts l = [] \<longleftrightarrow> (\<forall>k. agree (bindings_of before k))"
  shows "ml_conflicts (snd (merge_layers i layers dest l)) = [] \<longleftrightarrow> (\<forall>k. agree (bindings_of (before @ layers) k))"
  using assms
proof (induction layers arbitrary: i dest l before)
  case (Cons layer layers)
  define d where "d = fst (mergeVariableLayer (layer_name i layer) [] (vl_data layer) dest l)"
  define l' where "l' = snd (mergeVariableLayer (layer_name i layer) [] (vl_data layer) dest l)"
  have fl: "flat (vl_data layer)" using Cons.prems(1) by simp
  have m: "follows d l'" "ml_conflicts l' = [] \<longleftrightarrow> ml_conflicts l = [] \<and>
      (\<forall>k v w. mget (vl_data layer) k = Some v \<longrightarrow> mget dest k = Some w \<longrightarrow> variableValueEqual w v)"
    using merge_flat_layer [OF Cons.prems(2) fl, of "layer_name i layer"] unfolding d_def l'_def by blast+
  have b: "bindings_of (before @ [layer]) k = bindings_of before k @ (case mget (vl_data layer) k of None \<Rightarrow> [] | Some v \<Rightarrow> [v])" for k
    by (simp add: bindings_of_def map_filter_def split: option.split)
  have nobj: "mget (vl_data layer) k \<noteq> Some (JObj x)" for k x
    using fl by (force simp: flat_def list_all_iff dest!: map_of_SomeD)
  have d: "mget d k = (if bindings_of (before @ [layer]) k = [] then None else Some (last (bindings_of (before @ [layer]) k)))" for k
    using Cons.prems(3) fl nobj [of k] unfolding d_def mergeVariableLayer_deep b
    by (auto simp: deep_merge_lookup flat_def wf_map_def merge_value_def split: option.split json.split)
  have "agree (bindings_of (before @ [layer]) k) \<longleftrightarrow> agree (bindings_of before k) \<and>
      (\<forall>v w. mget (vl_data layer) k = Some v \<longrightarrow> mget dest k = Some w \<longrightarrow> variableValueEqual w v)" for k
    using Cons.prems(3) unfolding b by (auto simp: agree_snoc split: option.split)
  then have c: "ml_conflicts l' = [] \<longleftrightarrow> (\<forall>k. agree (bindings_of (before @ [layer]) k))" using m(2) Cons.prems(4) by auto
  have "merge_layers i (layer # layers) dest l = merge_layers (i + 1) layers d l'" by (simp add: d_def l'_def split_beta)
  then show ?case using Cons.IH [of d l' "before @ [layer]"] Cons.prems(1) m(1) d c by simp
qed simp

text \<open>for layers of plain values, resolution reports a conflict, and fails when it is asked to fail hard, exactly when
  some key has different values in two layers.\<close>

theorem flat_conflicts_exact:
  assumes "\<forall>layer \<in> set layers. flat (vl_data layer)"
  shows "snd (ResolveVariables layers True) = None \<longleftrightarrow>
    (\<forall>a \<in> set layers. \<forall>b \<in> set layers. \<forall>k v w. mget (vl_data a) k = Some v \<longrightarrow> mget (vl_data b) k = Some w \<longrightarrow> variableValueEqual v w)"
proof -
  have "ml_conflicts (snd (merge_layers 0 layers [] empty_log)) = [] \<longleftrightarrow> (\<forall>k. agree (bindings_of ([] @ layers) k))"
    by (rule merge_flat_layers) (use assms in \<open>simp_all add: follows_def empty_log_def bindings_of_def map_filter_def agree_def\<close>)
  moreover have "set (bindings_of layers k) = {v. \<exists>layer \<in> set layers. mget (vl_data layer) k = Some v}" for k
    by (force simp: bindings_of_def map_filter_def)
  moreover have "snd (ResolveVariables layers True) = None \<longleftrightarrow> ml_conflicts (snd (merge_layers 0 layers [] empty_log)) = []"
    by (simp add: ResolveVariables_def Let_def split_beta)
  ultimately show ?thesis unfolding agree_def append_Nil by blast
qed

text \<open>for nested objects the report is wrong in both directions, because only the whole object is remembered when it is first
  set: laying an object over an equal one reports a conflict and fails hard, while overriding a nested value by null is
  not reported.\<close>

theorem nested_conflicts_wrong:
  assumes "canon v \<noteq> JNull" and "\<not> is_object v"
  shows "snd (ResolveVariables [\<lparr>vl_name = a, vl_data = [(''db'', JObj [(''host'', v)])]\<rparr>, \<lparr>vl_name = b, vl_data = [(''db'', JObj [(''host'', v)])]\<rparr>] True) \<noteq> None \<and>
    snd (ResolveVariables [\<lparr>vl_name = a, vl_data = [(''db'', JObj [(''host'', v)])]\<rparr>, \<lparr>vl_name = b, vl_data = [(''db'', JObj [(''host'', JNull)])]\<rparr>] True) = None"
  using assms by (cases v) (simp_all add: ResolveVariables_def sub_path_def log_set_def log_override_def variableValueEqual_def empty_log_def mget_or_def Let_def)

theorem nested_conflicts_wrong_witness:
  "snd (ResolveVariables [\<lparr>vl_name = [], vl_data = [(''db'', JObj [(''host'', JStr ''a'')])]\<rparr>, \<lparr>vl_name = [], vl_data = [(''db'', JObj [(''host'', JStr ''a'')])]\<rparr>] True) \<noteq> None"
  using nested_conflicts_wrong [of "JStr ''a''" "[]" "[]"] by simp

theorem flat_conflicts_exact_witness:
  "let layer = (\<lambda>v. \<lparr>vl_name = [], vl_data = [(''x'', v)]\<rparr>)
   in snd (ResolveVariables [layer (JNum ''1''), layer (JNum ''1'')] True) = None \<and>
      snd (ResolveVariables [layer (JNum ''1''), layer (JNum ''2''), layer (JNum ''1'')] True) \<noteq> None"
proof -
  define layer where "layer v = \<lparr>vl_name = [], vl_data = [(''x'', v)]\<rparr>" for v :: json
  have f: "\<forall>l \<in> set [layer (JNum ''1''), layer (JNum ''1'')]. flat (vl_data l)" "\<forall>l \<in> set [layer (JNum ''1''), layer (JNum ''2''), layer (JNum ''1'')]. flat (vl_data l)"
    by (simp_all add: layer_def flat_def wf_map_def)
  show ?thesis unfolding Let_def layer_def [symmetric]
    using flat_conflicts_exact [OF f(1)] flat_conflicts_exact [OF f(2)] by (auto simp: layer_def variableValueEqual_def)
qed

section \<open>ResolvePillar\<close>

datatype strategy = MergeFirst | MergeLast | Overwrite | Remove

fun strategy_name :: "strategy \<Rightarrow> string" where
  "strategy_name MergeFirst = ''merge-first''"
| "strategy_name MergeLast = ''merge-last''"
| "strategy_name Overwrite = ''overwrite''"
| "strategy_name Remove = ''remove''"

definition normalizePillarStrategy :: "string \<Rightarrow> strategy option" where
  "normalizePillarStrategy raw =
     (let t = lower_trim raw
      in if t = ''merge-first'' then Some MergeFirst else if t = ''merge-last'' then Some MergeLast
         else if t = ''overwrite'' then Some Overwrite else if t = ''remove'' then Some Remove else None)"

text \<open>The loop over the entries of the source map, as a function of the source and the destination.\<close>

fun applyPillarStrategy :: "strategy \<Rightarrow> json gomap \<Rightarrow> json gomap \<Rightarrow> json gomap" where
  "applyPillarStrategy st [] dst = dst"
| "applyPillarStrategy st ((k, v) # src) dst =
     applyPillarStrategy st src
       (case st of
          MergeFirst \<Rightarrow>
            (case mget dst k of
               None \<Rightarrow> mput k v dst
             | Some existing \<Rightarrow>
                 (case (v, existing) of (JObj srcMap, JObj existingMap) \<Rightarrow> mput k (JObj (applyPillarStrategy st srcMap existingMap)) dst | _ \<Rightarrow> dst))
        | MergeLast \<Rightarrow>
            (case (v, mget dst k) of
               (JObj srcMap, Some (JObj existingMap)) \<Rightarrow> mput k (JObj (applyPillarStrategy st srcMap existingMap)) dst
             | _ \<Rightarrow> mput k v dst)
        | Overwrite \<Rightarrow> mput k v dst
        | Remove \<Rightarrow>
            if v = JNull then mdel k dst
            else (case (v, mget dst k) of
               (JObj srcMap, Some (JObj existingMap)) \<Rightarrow> mput k (JObj (applyPillarStrategy st srcMap existingMap)) dst
             | _ \<Rightarrow> mput k v dst))"

fun pillar_path :: "json \<Rightarrow> string list \<Rightarrow> json option" where
  "pillar_path cur [] = Some cur"
| "pillar_path cur (part # parts) =
     (if TrimSpace part = [] then None
      else case cur of
        JObj m \<Rightarrow> (case mget m (TrimSpace part) of None \<Rightarrow> None | Some v \<Rightarrow> pillar_path v parts)
      | _ \<Rightarrow> None)"

definition lookupPillarPath :: "json gomap \<Rightarrow> string \<Rightarrow> json option" where
  "lookupPillarPath data path = pillar_path (JObj data) (split_on CHR ''.'' path)"

record pillar_request =
  pq_strategy :: string
  pq_layers :: "variable_layer list"
  pq_lookup :: string
  pq_default :: json

record pillar_result =
  pr_strategy :: string
  pr_layers :: "string list"
  pr_merged :: "json gomap"
  pr_found :: bool
  pr_value :: json

definition ResolvePillar :: "pillar_request \<Rightarrow> pillar_result result" where
  "ResolvePillar req =
     (case normalizePillarStrategy (pq_strategy req) of
        None \<Rightarrow> Inl ''strategy must be one of merge-first, merge-last, overwrite, remove''
      | Some st \<Rightarrow>
          let merged = fold (\<lambda>layer. applyPillarStrategy st (vl_data layer)) (pq_layers req) [];
              result = \<lparr>pr_strategy = strategy_name st, pr_layers = map (\<lambda>layer. TrimSpace (vl_name layer)) (pq_layers req),
                pr_merged = merged, pr_found = True, pr_value = JObj merged\<rparr>;
              lookup = TrimSpace (pq_lookup req)
          in if lookup \<noteq> []
             then (case lookupPillarPath merged lookup of
                     None \<Rightarrow> Inr (result\<lparr>pr_found := False, pr_value := pq_default req\<rparr>)
                   | Some v \<Rightarrow> Inr (result\<lparr>pr_value := v\<rparr>))
             else Inr result)"

text \<open>What each strategy makes of a key that had the value \<open>old\<close> and has \<open>new\<close> in the next layer.\<close>

fun pillar_value :: "strategy \<Rightarrow> json option \<Rightarrow> json option \<Rightarrow> json option" where
  "pillar_value st old None = old"
| "pillar_value MergeFirst None (Some v) = Some v"
| "pillar_value MergeFirst (Some w) (Some v) =
     Some (case (v, w) of (JObj b, JObj a) \<Rightarrow> JObj (applyPillarStrategy MergeFirst b a) | _ \<Rightarrow> w)"
| "pillar_value MergeLast old (Some v) =
     Some (case (v, old) of (JObj b, Some (JObj a)) \<Rightarrow> JObj (applyPillarStrategy MergeLast b a) | _ \<Rightarrow> v)"
| "pillar_value Overwrite old (Some v) = Some v"
| "pillar_value Remove old (Some v) =
     (if v = JNull then None
      else Some (case (v, old) of (JObj b, Some (JObj a)) \<Rightarrow> JObj (applyPillarStrategy Remove b a) | _ \<Rightarrow> v))"

lemma pillar_entry_lookup:
  "mget (applyPillarStrategy st [(key, v)] dst) k = (if k = key then pillar_value st (mget dst key) (Some v) else mget dst k)"
  by (cases st) (auto split: option.split json.split)

lemma applyPillarStrategy_lookup:
  "distinct (mkeys src) \<Longrightarrow> mget (applyPillarStrategy st src dst) k = pillar_value st (mget dst k) (mget src k)"
proof (induction src arbitrary: dst)
  case (Cons kv src)
  obtain key v where kv: "kv = (key, v)" by (cases kv)
  have new: "mget src key = None" using Cons.prems by (auto simp: kv map_of_eq_None_iff)
  have step: "applyPillarStrategy st (kv # src) dst = applyPillarStrategy st src (applyPillarStrategy st [(key, v)] dst)"
    by (simp add: kv)
  have "mget (applyPillarStrategy st (kv # src) dst) k = pillar_value st (mget (applyPillarStrategy st [(key, v)] dst) k) (mget src k)"
    unfolding step by (rule Cons.IH) (use Cons.prems in simp)
  then show ?case unfolding pillar_entry_lookup using new by (auto simp: kv)
qed simp

lemma fold_pillar_lookup:
  "\<forall>layer \<in> set layers. wf_map (vl_data layer) \<Longrightarrow>
   mget (fold (\<lambda>layer. applyPillarStrategy st (vl_data layer)) layers dst) k = fold (\<lambda>layer old. pillar_value st old (mget (vl_data layer) k)) layers (mget dst k)"
  by (induction layers arbitrary: dst) (simp_all add: applyPillarStrategy_lookup wf_map_def)

lemma merge_last_deep: "applyPillarStrategy MergeLast src dst = deep_merge src dst"
proof (induction src dst rule: deep_merge.induct)
  case (2 key v source dest)
  then show ?case by (cases v) (auto split: option.split json.split)
qed simp

lemma merge_last_value: "pillar_value MergeLast old new = merge_value old new"
  by (cases new) (auto simp: merge_value_def merge_last_deep split: json.split option.split)

text \<open>\<^verbatim>\<open>ResolvePillar\<close> with a known strategy gives every key what the strategy says of its values in the layers, in order and whatever the order of
  traversal: the first value for merge-first, the last for merge-last (both merging objects), the last without merging for
  overwrite, and for remove the last, where null deletes the key. Merge-last agrees with \<^verbatim>\<open>ResolveVariables\<close>.\<close>

theorem ResolvePillar_exact:
  assumes "\<forall>layer \<in> set (pq_layers req). wf_map (vl_data layer)" and "normalizePillarStrategy (pq_strategy req) = Some st"
  shows "\<exists>r. ResolvePillar req = Inr r \<and>
    mget (pr_merged r) k = fold (\<lambda>layer old. pillar_value st old (mget (vl_data layer) k)) (pq_layers req) None \<and>
    (st = MergeLast \<longrightarrow> pr_merged r = vr_merged (fst (ResolveVariables (pq_layers req) hardFail)))"
proof -
  let ?m = "fold (\<lambda>layer. applyPillarStrategy st (vl_data layer)) (pq_layers req) []"
  have "\<exists>r. ResolvePillar req = Inr r \<and> pr_merged r = ?m"
    using assms(2) by (simp add: ResolvePillar_def Let_def split: option.split)
  then obtain r where r: "ResolvePillar req = Inr r" "pr_merged r = ?m" by blast
  moreover have "mget ?m k = fold (\<lambda>layer old. pillar_value st old (mget (vl_data layer) k)) (pq_layers req) None"
    using fold_pillar_lookup [OF assms(1), of st "[]" k] by simp
  moreover have "?m = vr_merged (fst (ResolveVariables (pq_layers req) hardFail))" if "st = MergeLast"
  proof -
    have "applyPillarStrategy MergeLast = deep_merge" by (intro ext) (rule merge_last_deep)
    then show ?thesis using that merge_layers_deep [of 0 "pq_layers req" "[]" empty_log] by (simp add: ResolveVariables_def Let_def split_beta)
  qed
  ultimately show ?thesis by auto
qed

theorem ResolvePillar_exact_witness:
  "let req = \<lparr>pq_strategy = '' Remove'', pq_layers = [\<lparr>vl_name = ''a'', vl_data = [(''x'', JBool True), (''y'', JStr ''1'')]\<rparr>, \<lparr>vl_name = ''b'', vl_data = [(''x'', JNull)]\<rparr>],
         pq_lookup = [], pq_default = JNull\<rparr>
   in \<exists>r. ResolvePillar req = Inr r \<and> mget (pr_merged r) ''x'' = None"
proof -
  define req where "req = \<lparr>pq_strategy = '' Remove'', pq_layers = [\<lparr>vl_name = ''a'', vl_data = [(''x'', JBool True), (''y'', JStr ''1'')]\<rparr>, \<lparr>vl_name = ''b'', vl_data = [(''x'', JNull)]\<rparr>],
         pq_lookup = [], pq_default = JNull\<rparr>"
  have "\<forall>layer \<in> set (pq_layers req). wf_map (vl_data layer)" by (simp add: req_def wf_map_def)
  moreover have "normalizePillarStrategy (pq_strategy req) = Some Remove" unfolding req_def by code_simp
  ultimately have "\<exists>r. ResolvePillar req = Inr r \<and> mget (pr_merged r) ''x'' = fold (\<lambda>layer old. pillar_value Remove old (mget (vl_data layer) ''x'')) (pq_layers req) None \<and>
    (Remove = MergeLast \<longrightarrow> pr_merged r = vr_merged (fst (ResolveVariables (pq_layers req) False)))" by (rule ResolvePillar_exact)
  then show ?thesis unfolding Let_def req_def [symmetric] by (auto simp: req_def)
qed

end
