(* ===== verification/RoleEnv.thy ===== *)
theory RoleEnv
  imports Variables GoOS
begin

text \<open>
  Roles and environments (internal/control/roleenv.go): named definitions kept in memory and as JSON files,
  with inheritance between roles (\<open>Profiles\<close>) and the layering of attributes. \<open>resolveRoleHierarchyLocked\<close>, a depth-first
  search with a cache and a set of the roles being visited, is shown to compute an inductively defined relation: it succeeds
  exactly when that relation has a value, and with that value. The JSON codec is a parameter.
\<close>

record role_def =
  rd_name :: string
  rd_description :: string
  rd_profiles :: "string list"
  rd_run_list :: "string list"
  rd_policy_group :: string
  rd_defaults :: "json gomap"
  rd_overrides :: "json gomap"
  rd_updated :: gotime
  rd_source :: string

record env_def =
  ed_name :: string
  ed_description :: string
  ed_policy_group :: string
  ed_defaults :: "json gomap"
  ed_overrides :: "json gomap"
  ed_run_lists :: "string list gomap"
  ed_policy_overrides :: "json gomap"
  ed_updated :: gotime
  ed_source :: string

record resolution =
  rs_role :: string
  rs_env :: string
  rs_run_list :: "string list"
  rs_attributes :: "json gomap"
  rs_policy_group :: string
  rs_precedence :: "string list"

record hierarchy =
  hi_run_list :: "string list"
  hi_defaults :: "json gomap"
  hi_overrides :: "json gomap"
  hi_policy_group :: string
  hi_precedence :: "string list"

record roleenv_codec =
  jc_role_encode :: "role_def \<Rightarrow> string result"
  jc_role_decode :: "string \<Rightarrow> role_def option"
  jc_env_encode :: "env_def \<Rightarrow> string result"
  jc_env_decode :: "string \<Rightarrow> env_def option"

record roleenv_store =
  rv_roles :: "role_def gomap"
  rv_envs :: "env_def gomap"
  rv_roles_dir :: string
  rv_env_dir :: string

definition normalizeRoleEnvName :: "string \<Rightarrow> string" where
  "normalizeRoleEnvName raw = lower_trim raw"

definition normalizeRunList :: "string list \<Rightarrow> string list" where
  "normalizeRunList items = filter (\<lambda>x. x \<noteq> []) (map TrimSpace items)"

definition normalizeRunListOverrides :: "string list gomap \<Rightarrow> string list gomap" where
  "normalizeRunListOverrides m =
     fold (\<lambda>(role, runList) out. if normalizeRoleEnvName role = [] then out else mput (normalizeRoleEnvName role) (normalizeRunList runList) out) m []"

fun profiles_loop :: "string list \<Rightarrow> string list \<Rightarrow> string list" where
  "profiles_loop out [] = out"
| "profiles_loop out (p # ps) =
     (let name = normalizeRoleEnvName p
      in if name = [] \<or> name \<in> set out then profiles_loop out ps else profiles_loop (out @ [name]) ps)"

definition normalizeRoleProfiles :: "string list \<Rightarrow> string list" where
  "normalizeRoleProfiles ps = profiles_loop [] ps"

fun mergeRoleEnvMap :: "json gomap \<Rightarrow> json gomap \<Rightarrow> json gomap" where
  "mergeRoleEnvMap [] dst = dst"
| "mergeRoleEnvMap ((k, v) # src) dst =
     mergeRoleEnvMap src
       (case mget dst k of
          Some (JObj existingMap) \<Rightarrow> (case v of JObj srcMap \<Rightarrow> mput k (JObj (mergeRoleEnvMap srcMap existingMap)) dst | _ \<Rightarrow> mput k v dst)
        | _ \<Rightarrow> mput k v dst)"

section \<open>The role hierarchy\<close>

definition empty_hierarchy :: hierarchy where
  "empty_hierarchy = \<lparr>hi_run_list = [], hi_defaults = [], hi_overrides = [], hi_policy_group = [], hi_precedence = []\<rparr>"

definition add_parent :: "hierarchy \<Rightarrow> hierarchy \<Rightarrow> hierarchy" where
  "add_parent out p =
     \<lparr>hi_run_list = hi_run_list out @ hi_run_list p, hi_defaults = mergeRoleEnvMap (hi_defaults p) (hi_defaults out),
      hi_overrides = mergeRoleEnvMap (hi_overrides p) (hi_overrides out),
      hi_policy_group = (if hi_policy_group out = [] then TrimSpace (hi_policy_group p) else hi_policy_group out),
      hi_precedence = hi_precedence out @ hi_precedence p\<rparr>"

definition add_own :: "role_def \<Rightarrow> hierarchy \<Rightarrow> hierarchy" where
  "add_own role out =
     \<lparr>hi_run_list = hi_run_list out @ rd_run_list role, hi_defaults = mergeRoleEnvMap (rd_defaults role) (hi_defaults out),
      hi_overrides = mergeRoleEnvMap (rd_overrides role) (hi_overrides out),
      hi_policy_group = (if TrimSpace (rd_policy_group role) \<noteq> [] then TrimSpace (rd_policy_group role) else hi_policy_group out),
      hi_precedence = hi_precedence out @ [''role['' @ rd_name role @ ''].default_attributes'', ''role['' @ rd_name role @ ''].override_attributes'']\<rparr>"

definition unvisited :: "role_def gomap \<Rightarrow> string list \<Rightarrow> nat" where
  "unvisited roles visiting = card {n \<in> set (mkeys roles). n \<notin> set visiting}"

text \<open>\<open>visit_parents\<close> is the loop over the profiles of a role. The cache is threaded through; the set of visited roles is
  restored on every return, so it is an argument only.\<close>

function resolveRoleHierarchyLocked :: "role_def gomap \<Rightarrow> string \<Rightarrow> string list \<Rightarrow> hierarchy gomap \<Rightarrow> hierarchy gomap \<times> hierarchy result"
  and visit_parents :: "role_def gomap \<Rightarrow> string list \<Rightarrow> string list \<Rightarrow> hierarchy \<Rightarrow> hierarchy gomap \<Rightarrow> hierarchy gomap \<times> hierarchy result"
where
  "resolveRoleHierarchyLocked roles raw visiting cache =
     (let name = normalizeRoleEnvName raw
      in case mget cache name of
           Some h \<Rightarrow> (cache, Inr h)
         | None \<Rightarrow>
             if name \<in> set visiting then (cache, Inl ''role profile inheritance cycle detected'')
             else case mget roles name of
               None \<Rightarrow> (cache, Inl ''role not found'')
             | Some role \<Rightarrow>
                 (case visit_parents roles (rd_profiles role) (name # visiting) empty_hierarchy cache of
                    (cache', Inl e) \<Rightarrow> (cache', Inl e)
                  | (cache', Inr out) \<Rightarrow> (mput name (add_own role out) cache', Inr (add_own role out))))"
| "visit_parents roles [] visiting out cache = (cache, Inr out)"
| "visit_parents roles (p # ps) visiting out cache =
     (case resolveRoleHierarchyLocked roles p visiting cache of
        (cache', Inl e) \<Rightarrow> (cache', Inl e)
      | (cache', Inr h) \<Rightarrow> visit_parents roles ps visiting (add_parent out h) cache')"
  by pat_completeness auto
termination
proof (relation "measures [\<lambda>x. case x of Inl (roles, raw, visiting, cache) \<Rightarrow> unvisited roles visiting | Inr (roles, ps, visiting, out, cache) \<Rightarrow> unvisited roles visiting,
    \<lambda>x. case x of Inl _ \<Rightarrow> 0 | Inr (roles, ps, visiting, out, cache) \<Rightarrow> Suc (length ps)]", goal_cases)
  case (2 roles raw visiting cache name role)
  then have "name \<in> set (mkeys roles)" unfolding set_mkeys by auto
  then have "{n \<in> set (mkeys roles). n \<notin> set (name # visiting)} \<subset> {n \<in> set (mkeys roles). n \<notin> set visiting}" using 2(3) by auto
  then have "unvisited roles (name # visiting) < unvisited roles visiting" unfolding unvisited_def by (rule psubset_card_mono [rotated]) simp
  then show ?case by simp
qed simp_all

text \<open>The reference: a role has a resolution when all its profiles have one.\<close>

inductive hier_of :: "role_def gomap \<Rightarrow> string \<Rightarrow> hierarchy \<Rightarrow> bool" for roles where
  hier_of_role: "mget roles name = Some role \<Longrightarrow> list_all2 (\<lambda>p h. hier_of roles (normalizeRoleEnvName p) h) (rd_profiles role) hs \<Longrightarrow>
    hier_of roles name (add_own role (foldl add_parent empty_hierarchy hs))"

inductive_cases hier_of_elim: "hier_of roles name h"

definition cache_ok :: "role_def gomap \<Rightarrow> hierarchy gomap \<Rightarrow> bool" where
  "cache_ok roles cache \<longleftrightarrow> (\<forall>n h. mget cache n = Some h \<longrightarrow> hier_of roles n h)"

lemma resolve_sound:
  "cache_ok roles cache \<Longrightarrow> resolveRoleHierarchyLocked roles raw visiting cache = (cache', r) \<Longrightarrow>
     cache_ok roles cache' \<and> (\<forall>h. r = Inr h \<longrightarrow> hier_of roles (normalizeRoleEnvName raw) h)"
  "cache_ok roles cache \<Longrightarrow> visit_parents roles ps visiting out cache = (cache', r) \<Longrightarrow>
     cache_ok roles cache' \<and> (\<forall>h. r = Inr h \<longrightarrow> (\<exists>hs. list_all2 (\<lambda>p h. hier_of roles (normalizeRoleEnvName p) h) ps hs \<and> h = foldl add_parent out hs))"
proof (induction roles raw visiting cache and roles ps visiting out cache arbitrary: cache' r and cache' r
    rule: resolveRoleHierarchyLocked_visit_parents.induct)
  case (1 roles raw visiting cache)
  show ?case
  proof (cases "mget cache (normalizeRoleEnvName raw)")
    case (Some h)
    then show ?thesis using 1 by (auto simp: cache_ok_def)
  next
    case None
    show ?thesis
    proof (cases "normalizeRoleEnvName raw \<in> set visiting \<or> mget roles (normalizeRoleEnvName raw) = None")
      case True
      then show ?thesis using 1(2,3) None by (auto simp: Let_def split: if_splits)
    next
      case False
      then obtain role where role: "mget roles (normalizeRoleEnvName raw) = Some role" by auto
      obtain c r' where v: "visit_parents roles (rd_profiles role) (normalizeRoleEnvName raw # visiting) empty_hierarchy cache = (c, r')" by fastforce
      have IH: "cache_ok roles c \<and> (\<forall>h. r' = Inr h \<longrightarrow> (\<exists>hs. list_all2 (\<lambda>p h. hier_of roles (normalizeRoleEnvName p) h) (rd_profiles role) hs \<and> h = foldl add_parent empty_hierarchy hs))"
        by (rule 1(1) [OF refl None _ role 1(2) v]) (use False in simp)
      show ?thesis
      proof (cases r')
        case (Inl e)
        then show ?thesis using IH 1(3) None False role v by auto
      next
        case (Inr out)
        then have "hier_of roles (normalizeRoleEnvName raw) (add_own role out)" using IH role by (auto intro: hier_of_role)
        then show ?thesis using IH 1(3) None False role v Inr by (auto simp: cache_ok_def split: if_splits)
      qed
    qed
  qed
next
  case (2 roles visiting out cache)
  then show ?case by auto
next
  case (3 roles p ps visiting out cache)
  obtain c r' where v: "resolveRoleHierarchyLocked roles p visiting cache = (c, r')" by fastforce
  have IH1: "cache_ok roles c \<and> (\<forall>h. r' = Inr h \<longrightarrow> hier_of roles (normalizeRoleEnvName p) h)" by (rule 3(1) [OF 3(3) v])
  show ?case
  proof (cases r')
    case (Inl e)
    then show ?thesis using 3(4) v IH1 by auto
  next
    case (Inr h)
    then have "visit_parents roles ps visiting (add_parent out h) c = (cache', r)" using 3(4) v by simp
    from 3(2) [OF v [symmetric] Inr _ this] IH1 Inr show ?thesis by fastforce
  qed
qed

text \<open>The inheritance relation, and that a role with a resolution has no cycle below it.\<close>

definition inherits :: "role_def gomap \<Rightarrow> string \<Rightarrow> string \<Rightarrow> bool" where
  "inherits roles parent name \<longleftrightarrow> (\<exists>role p. mget roles name = Some role \<and> p \<in> set (rd_profiles role) \<and> parent = normalizeRoleEnvName p)"

lemma hier_of_accessible: "hier_of roles name h \<Longrightarrow> Wellfounded.accp (inherits roles) name"
proof (induction rule: hier_of.induct)
  case (hier_of_role name role hs)
  show ?case
  proof (rule accp.intros)
    fix y assume "inherits roles y name"
    then obtain p where "p \<in> set (rd_profiles role)" "y = normalizeRoleEnvName p" using hier_of_role(1) by (auto simp: inherits_def)
    then show "Wellfounded.accp (inherits roles) y" using hier_of_role(2) by (auto simp: list_all2_conv_all_nth in_set_conv_nth)
  qed
qed

lemma accp_no_cycle: "Wellfounded.accp r x \<Longrightarrow> \<not> r\<^sup>+\<^sup>+ x x"
proof (induction rule: accp.induct)
  case (accI x)
  show ?case
  proof
    assume x: "r\<^sup>+\<^sup>+ x x"
    then show False
    proof (cases rule: tranclp.cases)
      case r_into_trancl
      then have "r x x" by simp
      then have "\<not> r\<^sup>+\<^sup>+ x x" by (rule accI(2))
      then show False using x by contradiction
    next
      case (trancl_into_trancl y)
      have "r\<^sup>+\<^sup>+ y y" by (rule tranclp_into_tranclp2 [OF trancl_into_trancl(2,1)])
      moreover have "\<not> r\<^sup>+\<^sup>+ y y" by (rule accI(2)) (rule trancl_into_trancl(2))
      ultimately show False by contradiction
    qed
  qed
qed

lemma hier_of_unique: "hier_of roles name h \<Longrightarrow> hier_of roles name h' \<Longrightarrow> h' = h"
proof (induction arbitrary: h' rule: hier_of.induct)
  case (hier_of_role name role hs)
  from hier_of_role(3) obtain hs' where h': "list_all2 (\<lambda>p h. hier_of roles (normalizeRoleEnvName p) h) (rd_profiles role) hs'"
    "h' = add_own role (foldl add_parent empty_hierarchy hs')"
    using hier_of_role(1) by (auto elim!: hier_of_elim)
  have "hs' = hs"
    using hier_of_role(2) h'(1) by (intro nth_equalityI) (auto simp: list_all2_conv_all_nth)
  then show ?case using h'(2) by simp
qed

text \<open>No role being visited is at or below the one that is looked at.\<close>

definition clear :: "role_def gomap \<Rightarrow> string list \<Rightarrow> string \<Rightarrow> bool" where
  "clear roles visiting name \<longleftrightarrow> (\<forall>v \<in> set visiting. \<not> (inherits roles)\<^sup>*\<^sup>* v name)"

lemma visit_parents_complete:
  assumes "\<And>p h cache. p \<in> set ps \<Longrightarrow> hier_of roles (normalizeRoleEnvName p) h \<Longrightarrow> cache_ok roles cache \<Longrightarrow>
      snd (resolveRoleHierarchyLocked roles p visiting cache) = Inr h"
    and "list_all2 (\<lambda>p h. hier_of roles (normalizeRoleEnvName p) h) ps hs" "cache_ok roles cache"
  shows "snd (visit_parents roles ps visiting out cache) = Inr (foldl add_parent out hs)"
  using assms
proof (induction ps arbitrary: hs out cache)
  case (Cons p ps)
  then obtain h hs' where hs: "hs = h # hs'" "hier_of roles (normalizeRoleEnvName p) h" "list_all2 (\<lambda>p h. hier_of roles (normalizeRoleEnvName p) h) ps hs'"
    by (auto simp: list_all2_Cons1)
  obtain c r where v: "resolveRoleHierarchyLocked roles p visiting cache = (c, r)" by fastforce
  then have r: "r = Inr h" using Cons.prems(1) [of p h cache] hs(2) Cons.prems(3) by simp
  have c: "cache_ok roles c" using resolve_sound(1) [OF Cons.prems(3) v] by simp
  have "snd (visit_parents roles ps visiting (add_parent out h) c) = Inr (foldl add_parent (add_parent out h) hs')"
    by (rule Cons.IH) (use Cons.prems(1) hs(3) c in auto)
  then show ?case using v r hs(1) by simp
qed simp

lemma resolve_complete:
  "hier_of roles name h \<Longrightarrow> normalizeRoleEnvName raw = name \<Longrightarrow> cache_ok roles cache \<Longrightarrow> clear roles visiting name \<Longrightarrow>
   snd (resolveRoleHierarchyLocked roles raw visiting cache) = Inr h"
proof (induction arbitrary: raw cache visiting rule: hier_of.induct)
  case (hier_of_role name role hs)
  let ?h = "add_own role (foldl add_parent empty_hierarchy hs)"
  have h: "hier_of roles name ?h"
    by (rule hier_of.hier_of_role [OF hier_of_role(1)]) (use hier_of_role(2) in \<open>auto simp: list_all2_conv_all_nth\<close>)
  show ?case
  proof (cases "mget cache name")
    case (Some h')
    then have "hier_of roles name h'" using hier_of_role(4) by (simp add: cache_ok_def)
    then have "h' = ?h" by (rule hier_of_unique [OF h])
    then show ?thesis using Some hier_of_role(3) by simp
  next
    case None
    have nv: "name \<notin> set visiting" using hier_of_role(5) by (auto simp: clear_def)
    have "snd (visit_parents roles (rd_profiles role) (name # visiting) empty_hierarchy cache) = Inr (foldl add_parent empty_hierarchy hs)"
    proof (rule visit_parents_complete)
      fix p hp c assume p: "p \<in> set (rd_profiles role)" "hier_of roles (normalizeRoleEnvName p) hp" "cache_ok roles c"
      obtain j where j: "j < length (rd_profiles role)" "rd_profiles role ! j = p" using p(1) by (auto simp: in_set_conv_nth)
      have hj: "hier_of roles (normalizeRoleEnvName p) (hs ! j)"
        "\<And>raw cache visiting. normalizeRoleEnvName raw = normalizeRoleEnvName p \<Longrightarrow> cache_ok roles cache \<Longrightarrow> clear roles visiting (normalizeRoleEnvName p) \<Longrightarrow>
          snd (resolveRoleHierarchyLocked roles raw visiting cache) = Inr (hs ! j)"
        using hier_of_role(2) j by (auto simp: list_all2_conv_all_nth)
      have up: "inherits roles (normalizeRoleEnvName p) name" using hier_of_role(1) p(1) by (auto simp: inherits_def)
      have "\<not> (inherits roles)\<^sup>*\<^sup>* v (normalizeRoleEnvName p)" if "v \<in> set visiting" for v
        using hier_of_role(5) that up by (meson clear_def rtranclp.rtrancl_into_rtrancl)
      moreover have "\<not> (inherits roles)\<^sup>*\<^sup>* name (normalizeRoleEnvName p)"
        using accp_no_cycle [OF hier_of_accessible [OF h]] up by (meson rtranclp_into_tranclp1)
      ultimately have "clear roles (name # visiting) (normalizeRoleEnvName p)" by (simp add: clear_def)
      then have "snd (resolveRoleHierarchyLocked roles p (name # visiting) c) = Inr (hs ! j)" using hj(2) p(3) by simp
      then show "snd (resolveRoleHierarchyLocked roles p (name # visiting) c) = Inr hp" using hier_of_unique [OF hj(1) p(2)] by simp
    next
      show "list_all2 (\<lambda>p h. hier_of roles (normalizeRoleEnvName p) h) (rd_profiles role) hs"
        using hier_of_role(2) by (auto simp: list_all2_conv_all_nth)
      show "cache_ok roles cache" by (rule hier_of_role(4))
    qed
    then obtain c where "visit_parents roles (rd_profiles role) (name # visiting) empty_hierarchy cache = (c, Inr (foldl add_parent empty_hierarchy hs))"
      by (metis prod.collapse)
    then show ?thesis using None nv hier_of_role(1,3) by (simp add: Let_def)
  qed
qed

lemma hierarchy_exact: "snd (resolveRoleHierarchyLocked roles raw [] []) = Inr h \<longleftrightarrow> hier_of roles (normalizeRoleEnvName raw) h"
proof
  assume "snd (resolveRoleHierarchyLocked roles raw [] []) = Inr h"
  then obtain c where "resolveRoleHierarchyLocked roles raw [] [] = (c, Inr h)" by (metis prod.collapse)
  from resolve_sound(1) [OF _ this] show "hier_of roles (normalizeRoleEnvName raw) h" by (simp add: cache_ok_def)
next
  assume h: "hier_of roles (normalizeRoleEnvName raw) h"
  show "snd (resolveRoleHierarchyLocked roles raw [] []) = Inr h"
    by (rule resolve_complete [OF h refl]) (simp_all add: cache_ok_def clear_def)
qed

text \<open>A role has a resolution exactly when everything it inherits from is defined and there is no cycle below it.\<close>

lemma accp_hier:
  "Wellfounded.accp (inherits roles) name \<Longrightarrow> (\<And>x. (inherits roles)\<^sup>*\<^sup>* x name \<Longrightarrow> mget roles x \<noteq> None) \<Longrightarrow> \<exists>h. hier_of roles name h"
proof (induction rule: accp.induct)
  case (accI name)
  obtain role where role: "mget roles name = Some role" using accI(3) by blast
  have "\<exists>h. hier_of roles (normalizeRoleEnvName p) h" if "p \<in> set (rd_profiles role)" for p
  proof (rule accI(2))
    show up: "inherits roles (normalizeRoleEnvName p) name" using role that by (auto simp: inherits_def)
    fix x assume "(inherits roles)\<^sup>*\<^sup>* x (normalizeRoleEnvName p)"
    then show "mget roles x \<noteq> None" using up accI(3) by (meson rtranclp.rtrancl_into_rtrancl)
  qed
  then obtain f where f: "\<And>p. p \<in> set (rd_profiles role) \<Longrightarrow> hier_of roles (normalizeRoleEnvName p) (f p)" by metis
  then have "list_all2 (\<lambda>p h. hier_of roles (normalizeRoleEnvName p) h) (rd_profiles role) (map f (rd_profiles role))"
    by (auto simp: list_all2_conv_all_nth)
  then show ?case using hier_of_role [OF role] by blast
qed

lemma hier_of_defined: "hier_of roles name h \<Longrightarrow> (inherits roles)\<^sup>*\<^sup>* x name \<Longrightarrow> mget roles x \<noteq> None \<and> \<not> (inherits roles)\<^sup>+\<^sup>+ x x"
proof -
  assume h: "hier_of roles name h" and x: "(inherits roles)\<^sup>*\<^sup>* x name"
  have "\<exists>h. hier_of roles x h" using x
  proof (induction rule: converse_rtranclp_induct)
    case base
    then show ?case using h by blast
  next
    case (step y z)
    then obtain hz where hz: "hier_of roles z hz" by blast
    from hz obtain role hs where "mget roles z = Some role" "list_all2 (\<lambda>p h. hier_of roles (normalizeRoleEnvName p) h) (rd_profiles role) hs"
      by (auto elim: hier_of_elim)
    moreover obtain p where "p \<in> set (rd_profiles role)" "y = normalizeRoleEnvName p" using step(1) calculation(1) by (auto simp: inherits_def)
    ultimately show ?case by (auto simp: list_all2_conv_all_nth in_set_conv_nth)
  qed
  then obtain hx where hx: "hier_of roles x hx" by blast
  then have "mget roles x \<noteq> None" by (auto elim: hier_of_elim)
  then show ?thesis using accp_no_cycle [OF hier_of_accessible [OF hx]] by simp
qed

lemma acyclic_accessible:
  assumes "\<And>x. (inherits roles)\<^sup>*\<^sup>* x name \<Longrightarrow> \<not> (inherits roles)\<^sup>+\<^sup>+ x x"
  shows "Wellfounded.accp (inherits roles) name"
proof -
  define R where "R = {(y, x). inherits roles y x \<and> (inherits roles)\<^sup>*\<^sup>* x name}"
  have "R \<subseteq> (\<Union>(k, role) \<in> set roles. normalizeRoleEnvName ` set (rd_profiles role)) \<times> set (mkeys roles)"
    by (force simp: R_def inherits_def dest: map_of_SomeD)
  then have fin: "finite R" by (rule finite_subset) (auto split: prod.split)
  have sub: "inherits roles y x" if "(y, x) \<in> R" for y x using that by (simp add: R_def)
  have tr: "(inherits roles)\<^sup>+\<^sup>+ y x" if "(y, x) \<in> R\<^sup>+" for y x
    using that by (induction rule: trancl_induct) (blast intro: tranclp.intros sub)+
  have "(x, x) \<notin> R\<^sup>+" for x
  proof
    assume xx: "(x, x) \<in> R\<^sup>+"
    then obtain y where "(y, x) \<in> R" by (meson tranclD2)
    then have "(inherits roles)\<^sup>*\<^sup>* x name" by (simp add: R_def)
    from assms [OF this] tr [OF xx] show False by contradiction
  qed
  then have "wf R" using finite_acyclic_wf [OF fin] by (simp add: acyclic_def)
  then have "(inherits roles)\<^sup>*\<^sup>* x name \<Longrightarrow> Wellfounded.accp (inherits roles) x" for x
  proof (induction x rule: wf_induct_rule)
    case (less x)
    show ?case
    proof (rule accp.intros)
      fix y assume y: "inherits roles y x"
      then have "(y, x) \<in> R" "(inherits roles)\<^sup>*\<^sup>* y name" using less(2) by (auto simp: R_def intro: converse_rtranclp_into_rtranclp)
      then show "Wellfounded.accp (inherits roles) y" by (rule less(1))
    qed
  qed
  then show ?thesis by simp
qed

section \<open>Resolution\<close>

definition layer_attributes :: "hierarchy \<Rightarrow> env_def \<Rightarrow> json gomap" where
  "layer_attributes h env =
     mergeRoleEnvMap (ed_policy_overrides env) (mergeRoleEnvMap (ed_overrides env) (mergeRoleEnvMap (hi_overrides h)
       (mergeRoleEnvMap (ed_defaults env) (mergeRoleEnvMap (hi_defaults h) []))))"

definition Resolve :: "string \<Rightarrow> string \<Rightarrow> roleenv_store \<Rightarrow> resolution result" where
  "Resolve roleName envName s =
     (case mget (rv_roles s) (normalizeRoleEnvName roleName) of
        None \<Rightarrow> Inl ''role not found''
      | Some role \<Rightarrow>
          (case mget (rv_envs s) (normalizeRoleEnvName envName) of
             None \<Rightarrow> Inl ''environment not found''
           | Some env \<Rightarrow>
               (case snd (resolveRoleHierarchyLocked (rv_roles s) (rd_name role) [] []) of
                  Inl e \<Rightarrow> Inl e
                | Inr h \<Rightarrow>
                    let override = mget_or [] (ed_run_lists env) (rd_name role);
                        policyGroup = (if TrimSpace (ed_policy_group env) = [] then TrimSpace (hi_policy_group h) else TrimSpace (ed_policy_group env))
                    in Inr \<lparr>rs_role = rd_name role, rs_env = ed_name env, rs_run_list = (if override \<noteq> [] then override else hi_run_list h),
                            rs_attributes = layer_attributes h env, rs_policy_group = policyGroup,
                            rs_precedence = hi_precedence h @ [''environment.default_attributes'', ''environment.override_attributes'', ''environment.policy_overrides'']\<rparr>)))"

section \<open>The store and its files\<close>

definition role_path :: "roleenv_store \<Rightarrow> string \<Rightarrow> string" where
  "role_path s name = filepath_Join [rv_roles_dir s, name @ ''.json'']"

definition env_path :: "roleenv_store \<Rightarrow> string \<Rightarrow> string" where
  "env_path s name = filepath_Join [rv_env_dir s, name @ ''.json'']"

definition write_json :: "('a \<Rightarrow> string result) \<Rightarrow> string \<Rightarrow> 'a \<Rightarrow> machine \<Rightarrow> machine result" where
  "write_json encode path v m = (case encode v of Inl e \<Rightarrow> Inl e | Inr b \<Rightarrow> os_WriteFile m path (b @ [CHR 0x0A]))"

definition normalized_role :: "gotime \<Rightarrow> role_def \<Rightarrow> role_def" where
  "normalized_role now role =
     role\<lparr>rd_name := normalizeRoleEnvName (rd_name role), rd_profiles := normalizeRoleProfiles (rd_profiles role), rd_run_list := normalizeRunList (rd_run_list role),
          rd_policy_group := TrimSpace (rd_policy_group role), rd_updated := now,
          rd_source := (if TrimSpace (rd_source role) = [] then ''api'' else rd_source role)\<rparr>"

text \<open>The definition is stored in memory before the file is written: a failed write is reported, but the store has changed.\<close>

definition UpsertRole :: "roleenv_codec \<Rightarrow> gotime \<Rightarrow> role_def \<Rightarrow> roleenv_store \<Rightarrow> machine \<Rightarrow> roleenv_store \<times> machine \<times> role_def result" where
  "UpsertRole co now role s m =
     (let role = normalized_role now role
      in if rd_name role = [] then (s, m, Inl ''name is required'')
         else let s = s\<lparr>rv_roles := mput (rd_name role) role (rv_roles s)\<rparr>
              in case write_json (jc_role_encode co) (role_path s (rd_name role)) role m of
                   Inl e \<Rightarrow> (s, m, Inl e)
                 | Inr m' \<Rightarrow> (s, m', Inr role))"

definition normalized_env :: "gotime \<Rightarrow> env_def \<Rightarrow> env_def" where
  "normalized_env now env =
     env\<lparr>ed_name := normalizeRoleEnvName (ed_name env), ed_policy_group := TrimSpace (ed_policy_group env),
         ed_run_lists := normalizeRunListOverrides (ed_run_lists env), ed_updated := now,
         ed_source := (if TrimSpace (ed_source env) = [] then ''api'' else ed_source env)\<rparr>"

definition UpsertEnvironment :: "roleenv_codec \<Rightarrow> gotime \<Rightarrow> env_def \<Rightarrow> roleenv_store \<Rightarrow> machine \<Rightarrow> roleenv_store \<times> machine \<times> env_def result" where
  "UpsertEnvironment co now env s m =
     (let env = normalized_env now env
      in if ed_name env = [] then (s, m, Inl ''name is required'')
         else let s = s\<lparr>rv_envs := mput (ed_name env) env (rv_envs s)\<rparr>
              in case write_json (jc_env_encode co) (env_path s (ed_name env)) env m of
                   Inl e \<Rightarrow> (s, m, Inl e)
                 | Inr m' \<Rightarrow> (s, m', Inr env))"

definition GetRole_env :: "string \<Rightarrow> roleenv_store \<Rightarrow> role_def result" where
  "GetRole_env name s = (case mget (rv_roles s) (normalizeRoleEnvName name) of None \<Rightarrow> Inl ''role not found'' | Some r \<Rightarrow> Inr r)"

definition GetEnvironment :: "string \<Rightarrow> roleenv_store \<Rightarrow> env_def result" where
  "GetEnvironment name s = (case mget (rv_envs s) (normalizeRoleEnvName name) of None \<Rightarrow> Inl ''environment not found'' | Some e \<Rightarrow> Inr e)"

definition ListRoles_env :: "roleenv_store \<Rightarrow> role_def list" where
  "ListRoles_env s = sort_key rd_name (map snd (rv_roles s))"

definition ListEnvironments :: "roleenv_store \<Rightarrow> env_def list" where
  "ListEnvironments s = sort_key ed_name (map snd (rv_envs s))"

text \<open>\<^verbatim>\<open>os.Remove\<close>, whose error the store ignores.\<close>

definition os_Remove :: "machine \<Rightarrow> string \<Rightarrow> machine" where
  "os_Remove m p = (if p \<in> set (m_refuse m) then m else m\<lparr>m_files := mdel p (m_files m)\<rparr>)"

definition DeleteRole :: "string \<Rightarrow> roleenv_store \<Rightarrow> machine \<Rightarrow> roleenv_store \<times> machine \<times> bool" where
  "DeleteRole raw s m =
     (let name = normalizeRoleEnvName raw
      in case mget (rv_roles s) name of
           None \<Rightarrow> (s, m, False)
         | Some r \<Rightarrow> (s\<lparr>rv_roles := mdel name (rv_roles s)\<rparr>, os_Remove m (role_path s name), True))"

definition DeleteEnvironment :: "string \<Rightarrow> roleenv_store \<Rightarrow> machine \<Rightarrow> roleenv_store \<times> machine \<times> bool" where
  "DeleteEnvironment raw s m =
     (let name = normalizeRoleEnvName raw
      in case mget (rv_envs s) name of
           None \<Rightarrow> (s, m, False)
         | Some e \<Rightarrow> (s\<lparr>rv_envs := mdel name (rv_envs s)\<rparr>, os_Remove m (env_path s name), True))"

text \<open>\<^verbatim>\<open>filepath.Glob\<close> of \<^verbatim>\<open>*.json\<close> in a directory whose name has no pattern characters: its direct children, in order.\<close>

definition glob_json :: "machine \<Rightarrow> string \<Rightarrow> string list" where
  "glob_json m dir =
     sort (filter (\<lambda>f. HasPrefix f (dir @ ''/'') \<and> CHR ''/'' \<notin> set (drop (length dir + 1) f) \<and> HasSuffix f ''.json'') (mkeys (m_files m)))"

definition load_role :: "roleenv_codec \<Rightarrow> machine \<Rightarrow> string \<Rightarrow> role_def gomap \<Rightarrow> role_def gomap" where
  "load_role co m file roles =
     (case os_ReadFile m file of
        Inl e \<Rightarrow> roles
      | Inr raw \<Rightarrow>
          (case jc_role_decode co raw of
             None \<Rightarrow> roles
           | Some role \<Rightarrow>
               if normalizeRoleEnvName (rd_name role) = [] then roles
               else let role = role\<lparr>rd_name := normalizeRoleEnvName (rd_name role), rd_profiles := normalizeRoleProfiles (rd_profiles role),
                          rd_run_list := normalizeRunList (rd_run_list role), rd_source := (if TrimSpace (rd_source role) = [] then ''file'' else rd_source role)\<rparr>
                    in mput (rd_name role) role roles))"

definition load_env :: "roleenv_codec \<Rightarrow> machine \<Rightarrow> string \<Rightarrow> env_def gomap \<Rightarrow> env_def gomap" where
  "load_env co m file envs =
     (case os_ReadFile m file of
        Inl e \<Rightarrow> envs
      | Inr raw \<Rightarrow>
          (case jc_env_decode co raw of
             None \<Rightarrow> envs
           | Some env \<Rightarrow>
               if normalizeRoleEnvName (ed_name env) = [] then envs
               else let env = env\<lparr>ed_name := normalizeRoleEnvName (ed_name env), ed_run_lists := normalizeRunListOverrides (ed_run_lists env),
                          ed_source := (if TrimSpace (ed_source env) = [] then ''file'' else ed_source env)\<rparr>
                    in mput (ed_name env) env envs))"

definition loadFromDisk :: "roleenv_codec \<Rightarrow> machine \<Rightarrow> roleenv_store \<Rightarrow> roleenv_store" where
  "loadFromDisk co m s =
     s\<lparr>rv_roles := fold (load_role co m) (glob_json m (rv_roles_dir s)) (rv_roles s),
       rv_envs := fold (load_env co m) (glob_json m (rv_env_dir s)) (rv_envs s)\<rparr>"

definition NewRoleEnvironmentStore :: "roleenv_codec \<Rightarrow> machine \<Rightarrow> string \<Rightarrow> roleenv_store" where
  "NewRoleEnvironmentStore co m baseDir =
     (let root = filepath_Join [baseDir, ''.masterchef'', ''policy'']
      in loadFromDisk co m \<lparr>rv_roles = [], rv_envs = [], rv_roles_dir = filepath_Join [root, ''roles''], rv_env_dir = filepath_Join [root, ''environments'']\<rparr>)"

section \<open>Theorems\<close>

lemma mergeRoleEnvMap_deep: "mergeRoleEnvMap src dst = deep_merge src dst"
proof (induction src dst rule: deep_merge.induct)
  case (2 key v source dest)
  then show ?case by (cases v) (auto split: option.split json.split)
qed simp

text \<open>the resolution of a role in an environment succeeds exactly when every role it inherits from, directly or not, is defined
  and none of them inherits from itself; the search ends in every case. The result then is the one of the inductive definition: run
  lists of the profiles before the role's own (unless the environment overrides the list), and attributes laid over each other as
  inherited defaults, environment defaults, inherited overrides, environment overrides, policy overrides.\<close>

theorem Resolve_exact:
  assumes "mget (rv_roles s) name = Some role" "rd_name role = name" "normalizeRoleEnvName name = name" "normalizeRoleEnvName roleName = name"
    and "mget (rv_envs s) (normalizeRoleEnvName envName) = Some env"
  shows "((\<exists>r. Resolve roleName envName s = Inr r) \<longleftrightarrow>
      (\<forall>x. (inherits (rv_roles s))\<^sup>*\<^sup>* x name \<longrightarrow> mget (rv_roles s) x \<noteq> None \<and> \<not> (inherits (rv_roles s))\<^sup>+\<^sup>+ x x)) \<and>
    (\<forall>r. Resolve roleName envName s = Inr r \<longrightarrow> (\<exists>h. hier_of (rv_roles s) name h \<and>
       rs_run_list r = (case mget (ed_run_lists env) name of Some (x # xs) \<Rightarrow> x # xs | _ \<Rightarrow> hi_run_list h) \<and>
       rs_attributes r = fold deep_merge [hi_defaults h, ed_defaults env, hi_overrides h, ed_overrides env, ed_policy_overrides env] []))"
proof -
  let ?R = "snd (resolveRoleHierarchyLocked (rv_roles s) name [] [])"
  have exact: "?R = Inr h \<longleftrightarrow> hier_of (rv_roles s) name h" for h using hierarchy_exact [of "rv_roles s" name h] assms(3) by simp
  have res: "(\<exists>r. Resolve roleName envName s = Inr r) \<longleftrightarrow> (\<exists>h. hier_of (rv_roles s) name h)"
    using assms(1,2,4,5) unfolding exact [symmetric] by (simp add: Resolve_def Let_def split: sum.split)
  have "(\<exists>h. hier_of (rv_roles s) name h) \<longleftrightarrow>
      (\<forall>x. (inherits (rv_roles s))\<^sup>*\<^sup>* x name \<longrightarrow> mget (rv_roles s) x \<noteq> None \<and> \<not> (inherits (rv_roles s))\<^sup>+\<^sup>+ x x)"
    using hier_of_defined [of "rv_roles s" name] accp_hier [OF acyclic_accessible, of "rv_roles s" name] by blast
  moreover have "\<exists>h. hier_of (rv_roles s) name h \<and>
       rs_run_list r = (case mget (ed_run_lists env) name of Some (x # xs) \<Rightarrow> x # xs | _ \<Rightarrow> hi_run_list h) \<and>
       rs_attributes r = fold deep_merge [hi_defaults h, ed_defaults env, hi_overrides h, ed_overrides env, ed_policy_overrides env] []"
    if r: "Resolve roleName envName s = Inr r" for r
  proof -
    obtain h where h: "?R = Inr h" using res r exact by blast
    then have "hier_of (rv_roles s) name h" unfolding exact .
    moreover have "rs_run_list r = (case mget (ed_run_lists env) name of Some (x # xs) \<Rightarrow> x # xs | _ \<Rightarrow> hi_run_list h)" "rs_attributes r = layer_attributes h env"
      using r h assms(1,2,4,5) by (auto simp: Resolve_def Let_def mget_or_def split: option.splits list.splits)
    ultimately show ?thesis by (auto simp: layer_attributes_def mergeRoleEnvMap_deep)
  qed
  ultimately show ?thesis using res by blast
qed

definition demo_role :: "string \<Rightarrow> string list \<Rightarrow> role_def" where
  "demo_role name profiles = \<lparr>rd_name = name, rd_description = [], rd_profiles = profiles, rd_run_list = [name], rd_policy_group = [],
     rd_defaults = [(''port'', JStr name)], rd_overrides = [], rd_updated = 0, rd_source = ''api''\<rparr>"

definition demo_envs :: "env_def gomap" where
  "demo_envs = [(''prod'', \<lparr>ed_name = ''prod'', ed_description = [], ed_policy_group = [], ed_defaults = [], ed_overrides = [], ed_run_lists = [],
     ed_policy_overrides = [], ed_updated = 0, ed_source = ''api''\<rparr>)]"

definition demo_roles :: "role_def gomap \<Rightarrow> roleenv_store" where
  "demo_roles roles = \<lparr>rv_roles = roles, rv_envs = demo_envs, rv_roles_dir = ''/b/.masterchef/policy/roles'', rv_env_dir = ''/b/.masterchef/policy/environments''\<rparr>"

theorem Resolve_exact_witness:
  "let s = demo_roles [(''web'', demo_role ''web'' [''base'']), (''base'', demo_role ''base'' [])];
       t = demo_roles [(''web'', demo_role ''web'' [''base'']), (''base'', demo_role ''base'' [''web''])]
   in (\<exists>r. Resolve ''Web'' ''prod'' s = Inr r) \<and> Resolve ''Web'' ''prod'' t = Inl ''role profile inheritance cycle detected'' \<and>
      (\<exists>x. (inherits (rv_roles t))\<^sup>*\<^sup>* x ''web'' \<and> (mget (rv_roles t) x = None \<or> (inherits (rv_roles t))\<^sup>+\<^sup>+ x x))"
proof -
  define s where "s = demo_roles [(''web'', demo_role ''web'' [''base'']), (''base'', demo_role ''base'' [])]"
  define t where "t = demo_roles [(''web'', demo_role ''web'' [''base'']), (''base'', demo_role ''base'' [''web''])]"
  have f: "mget (rv_roles t) ''web'' = Some (demo_role ''web'' [''base''])" "rd_name (demo_role ''web'' [''base'']) = ''web''"
    "normalizeRoleEnvName ''web'' = ''web''" "normalizeRoleEnvName ''Web'' = ''web''" "mget (rv_envs t) (normalizeRoleEnvName ''prod'') = Some (snd (hd demo_envs))"
    unfolding t_def by code_simp+
  have r: "is_ok (Resolve ''Web'' ''prod'' s)" "Resolve ''Web'' ''prod'' t = Inl ''role profile inheritance cycle detected''"
    unfolding s_def t_def by code_simp+
  have "\<nexists>x. Resolve ''Web'' ''prod'' t = Inr x" using r(2) by simp
  then have "\<not> (\<forall>x. (inherits (rv_roles t))\<^sup>*\<^sup>* x ''web'' \<longrightarrow> mget (rv_roles t) x \<noteq> None \<and> \<not> (inherits (rv_roles t))\<^sup>+\<^sup>+ x x)"
    using Resolve_exact [OF f, THEN conjunct1] by (simp only: simp_thms)
  then have "\<exists>x. (inherits (rv_roles t))\<^sup>*\<^sup>* x ''web'' \<and> (mget (rv_roles t) x = None \<or> (inherits (rv_roles t))\<^sup>+\<^sup>+ x x)"
    by (simp only: not_all not_imp de_Morgan_conj not_not)
  then show ?thesis using r unfolding Let_def s_def [symmetric] t_def [symmetric] is_ok_iff by (intro conjI)
qed

text \<open>A name is not checked for path separators: a role with the name below is written outside the store's directory, and deleting it removes that file.\<close>

theorem role_name_escapes:
  assumes "jc_role_encode co (normalized_role now (demo_role ''../../../x'' [])) = Inr b" and "m_refuse m = []"
  shows "os_ReadFile (fst (snd (UpsertRole co now (demo_role ''../../../x'' []) (demo_roles []) m))) ''/b/x.json'' = Inr (b @ [CHR 0x0A])"
proof -
  define r where "r = normalized_role now (demo_role ''../../../x'' [])"
  have "rd_name r = normalizeRoleEnvName ''../../../x''" by (simp add: r_def normalized_role_def demo_role_def)
  also have "\<dots> = ''../../../x''" by code_simp
  finally have n: "rd_name r = ''../../../x''" .
  have "filepath_Join [''/b/.masterchef/policy/roles'', ''../../../x'' @ ''.json''] = ''/b/x.json''" by code_simp
  then have p: "role_path ((demo_roles [])\<lparr>rv_roles := rs\<rparr>) (rd_name r) = ''/b/x.json''" for rs
    unfolding n role_path_def demo_roles_def roleenv_store.select_convs roleenv_store.update_convs .
  have w: "write_json (jc_role_encode co) ''/b/x.json'' r m = Inr (m\<lparr>m_files := mput ''/b/x.json'' (b @ [CHR 0x0A]) (m_files m)\<rparr>)"
    using assms unfolding r_def write_json_def os_WriteFile_def by simp
  have "rd_name r \<noteq> []" by (simp add: n)
  then show ?thesis unfolding UpsertRole_def Let_def r_def [symmetric] p w by (simp add: os_ReadFile_def)
qed

end
