(* ===== verification/Rollouts.thy ===== *)
theory Rollouts
  imports ControlUtil ExecSerial
begin

text \<open>
  The staged roll-outs of the control plane: reboot waves (internal/control/reboot_orchestration.go),
  upgrades in waves (upgrade_orchestration.go), promotion pipelines (gitops_promotion.go with the digest check
  of gitops_preview.go) and change records (change_records.go). \<open>time.Now\<close> is an argument of the operations.
  A percentage that the code computes in \<^verbatim>\<open>float64\<close> and truncates is an integer division, which is the
  same for fewer than \<open>2 ^ 46\<close> hosts.
\<close>

section \<open>Reboot waves\<close>

record reboot_policy_input =
  rq_environment :: string
  rq_max :: int
  rq_min_healthy :: int
  rq_order :: "string list"

record reboot_policy =
  rp_id :: string
  rp_environment :: string
  rp_max :: int
  rp_min_healthy :: int
  rp_order :: "string list"
  rp_updated :: gotime

record reboot_host =
  rh_id :: string
  rh_role :: string
  rh_domain :: string
  rh_healthy :: bool

record reboot_plan_input =
  rn_environment :: string
  rn_hosts :: "reboot_host list"

record reboot_wave =
  rw_index :: int
  rw_role :: string
  rw_hosts :: "string list"
  rw_reason :: string

record reboot_plan =
  rl_allowed :: bool
  rl_environment :: string
  rl_policy :: string
  rl_healthy_percent :: int
  rl_blocked :: string
  rl_waves :: "reboot_wave list"

record reboot_store =
  rt_next :: int
  rt_policies :: "reboot_policy gomap"

definition NewRebootOrchestrationStore :: reboot_store where
  "NewRebootOrchestrationStore = \<lparr>rt_next = 0, rt_policies = []\<rparr>"

definition normalizeOrderedRoleList :: "string list \<Rightarrow> string list" where
  "normalizeOrderedRoleList values = normalize_loop [] values"

definition UpsertPolicy_reboot :: "gotime \<Rightarrow> reboot_policy_input \<Rightarrow> reboot_store \<Rightarrow> reboot_store \<times> reboot_policy result" where
  "UpsertPolicy_reboot now inp s =
     (let environment = lower_trim (rq_environment inp)
      in if environment = [] then (s, Inl ''environment is required'')
         else let maxConcurrent = (if rq_max inp \<le> 0 then 1 else rq_max inp);
                  minHealthy = (if rq_min_healthy inp \<le> 0 \<or> rq_min_healthy inp > 100 then 80 else rq_min_healthy inp);
                  item = \<lparr>rp_id = [], rp_environment = environment, rp_max = maxConcurrent, rp_min_healthy = minHealthy,
                    rp_order = normalizeOrderedRoleList (rq_order inp), rp_updated = now\<rparr>
              in case mget (rt_policies s) environment of
                   Some existing \<Rightarrow>
                     let item = item\<lparr>rp_id := rp_id existing\<rparr>
                     in (s\<lparr>rt_policies := mput environment item (rt_policies s)\<rparr>, Inr item)
                 | None \<Rightarrow>
                     let item = item\<lparr>rp_id := seq_id ''reboot-policy-'' (rt_next s + 1)\<rparr>
                     in (s\<lparr>rt_next := rt_next s + 1, rt_policies := mput environment item (rt_policies s)\<rparr>, Inr item))"

definition ListPolicies_reboot :: "reboot_store \<Rightarrow> reboot_policy list" where
  "ListPolicies_reboot s = sort_key rp_environment (map snd (rt_policies s))"

definition role_key :: "reboot_host \<Rightarrow> string" where
  "role_key h = (let role = lower_trim (rh_role h) in if role = [] then ''default'' else role)"

text \<open>\<^verbatim>\<open>seenRole\<close> holds the members of \<^verbatim>\<open>roleOrder\<close>.\<close>

definition group_host :: "reboot_host \<Rightarrow> reboot_host list gomap \<times> string list \<Rightarrow> reboot_host list gomap \<times> string list" where
  "group_host h st =
     (let role = role_key h
      in (mput role (mget_or [] (fst st) role @ [h]) (fst st), if role \<in> set (snd st) then snd st else snd st @ [role]))"

text \<open>\<^verbatim>\<open>waveIndex\<close> is one more than the number of waves.\<close>

definition role_waves :: "int \<Rightarrow> reboot_host list gomap \<Rightarrow> string \<Rightarrow> reboot_wave list \<Rightarrow> reboot_wave list" where
  "role_waves n hostsByRole role waves =
     (let roleHosts = sort_key (\<lambda>h. (lower_trim (rh_domain h), rh_id h)) (mget_or [] hostsByRole role)
      in waves @ map (\<lambda>(i, hosts). \<lparr>rw_index = int i, rw_role = role, rw_hosts = map rh_id hosts,
                   rw_reason = ''role-ordered reboot wave with max concurrency guard''\<rparr>)
             (enumerate (length waves + 1) (batches (nat n) roleHosts)))"

definition default_reboot_policy :: "string \<Rightarrow> reboot_policy" where
  "default_reboot_policy environment = \<lparr>rp_id = [], rp_environment = environment, rp_max = 1, rp_min_healthy = 80, rp_order = [], rp_updated = 0\<rparr>"

definition policy_for :: "string \<Rightarrow> reboot_store \<Rightarrow> reboot_policy" where
  "policy_for environment s = mget_or (default_reboot_policy environment) (rt_policies s) environment"

definition healthy_percent :: "reboot_host list \<Rightarrow> int" where
  "healthy_percent hosts = int (length (filter rh_healthy hosts)) * 100 div int (length hosts)"

definition Plan_reboot :: "reboot_plan_input \<Rightarrow> reboot_store \<Rightarrow> reboot_plan" where
  "Plan_reboot inp s =
     (let environment = lower_trim (rn_environment inp); hosts = rn_hosts inp;
          blocked = \<lparr>rl_allowed = False, rl_environment = environment, rl_policy = [], rl_healthy_percent = 0, rl_blocked = [], rl_waves = []\<rparr>
      in if environment = [] then blocked\<lparr>rl_blocked := ''environment is required''\<rparr>
         else if hosts = [] then blocked\<lparr>rl_blocked := ''hosts are required''\<rparr>
         else let policy = policy_for environment s; healthyPercent = healthy_percent hosts
              in if healthyPercent < rp_min_healthy policy
                 then blocked\<lparr>rl_policy := rp_id policy, rl_healthy_percent := healthyPercent,
                        rl_blocked := ''fleet healthy percentage below reboot safety threshold''\<rparr>
                 else let (hostsByRole, roleOrder) = fold group_host hosts ([], rp_order policy)
                      in \<lparr>rl_allowed = True, rl_environment = environment, rl_policy = rp_id policy, rl_healthy_percent = healthyPercent,
                           rl_blocked = [], rl_waves = fold (role_waves (rp_max policy) hostsByRole) roleOrder []\<rparr>)"

datatype reboot_op = RUpsert gotime reboot_policy_input

fun reboot_step :: "reboot_store \<Rightarrow> reboot_op \<Rightarrow> reboot_store" where
  "reboot_step s (RUpsert now inp) = fst (UpsertPolicy_reboot now inp s)"

subsection \<open>Policies\<close>

definition reboot_policy_ok :: "string \<Rightarrow> reboot_policy \<Rightarrow> bool" where
  "reboot_policy_ok env p \<longleftrightarrow> rp_environment p = env \<and> 1 \<le> rp_max p \<and> 1 \<le> rp_min_healthy p \<and> rp_min_healthy p \<le> 100 \<and>
     distinct (rp_order p)"

definition reboot_inv :: "reboot_store \<Rightarrow> bool" where
  "reboot_inv s \<longleftrightarrow> wf_map (rt_policies s) \<and> items_ok reboot_policy_ok (rt_policies s)"

lemma reboot_step_inv: "reboot_inv s \<Longrightarrow> reboot_inv (reboot_step s op)"
  by (cases op) (auto simp: reboot_inv_def UpsertPolicy_reboot_def Let_def reboot_policy_ok_def normalizeOrderedRoleList_def
      distinct_normalize_loop split: option.split intro!: items_intros)

interpretation reboot: stepper reboot_step reboot_inv
  by unfold_locales (rule reboot_step_inv)

lemma NewReboot_inv: "reboot_inv NewRebootOrchestrationStore"
  by (simp add: reboot_inv_def NewRebootOrchestrationStore_def)

lemma policy_for_ok: "reboot_inv s \<Longrightarrow> reboot_policy_ok env (policy_for env s)"
  by (auto simp: policy_for_def mget_or_def default_reboot_policy_def reboot_policy_ok_def reboot_inv_def
      split: option.split dest: items_okD)

subsection \<open>Grouping and numbering\<close>

lemma group_hosts:
  "fold group_host hosts (m, order) = (m', order') \<Longrightarrow> distinct order \<Longrightarrow>
     (\<forall>r. mget_or [] m' r = mget_or [] m r @ filter (\<lambda>h. role_key h = r) hosts) \<and>
     prefix order order' \<and> distinct order' \<and> set order' = set order \<union> role_key ` set hosts"
proof (induction hosts arbitrary: m order)
  case (Cons h hosts)
  let ?m = "mput (role_key h) (mget_or [] m (role_key h) @ [h]) m"
  let ?o = "if role_key h \<in> set order then order else order @ [role_key h]"
  have "group_host h (m, order) = (?m, ?o)" by (simp add: group_host_def Let_def)
  then have "fold group_host hosts (?m, ?o) = (m', order')" using Cons.prems(1) by simp
  from Cons.IH [OF this] Cons.prems(2) show ?case by (auto split: if_splits dest: append_prefixD)
qed simp

text \<open>The waves without their numbers.\<close>

definition waves_of :: "int \<Rightarrow> (string \<Rightarrow> reboot_host list) \<Rightarrow> string list \<Rightarrow> (string \<times> string list) list" where
  "waves_of n hosts order =
     concat (map (\<lambda>r. map (\<lambda>b. (r, map rh_id b)) (batches (nat n) (sort_key (\<lambda>h. (lower_trim (rh_domain h), rh_id h)) (hosts r)))) order)"

lemma enumerate_views: "map (\<lambda>(i, b). f b) (enumerate n xs) = map f xs" "map (\<lambda>(i, b). int i) (enumerate n xs) = map int [n..<n + length xs]"
  by (induction xs arbitrary: n) (simp_all add: upt_rec)

lemma fold_role_waves:
  "map (\<lambda>w. (rw_role w, rw_hosts w)) (fold (role_waves n m) order ws) =
     map (\<lambda>w. (rw_role w, rw_hosts w)) ws @ waves_of n (mget_or [] m) order \<and>
   (map rw_index ws = map int [1..<Suc (length ws)] \<longrightarrow>
     map rw_index (fold (role_waves n m) order ws) = map int [1..<Suc (length (fold (role_waves n m) order ws))])"
proof (induction order arbitrary: ws)
  case (Cons r order)
  let ?b = "batches (nat n) (sort_key (\<lambda>h. (lower_trim (rh_domain h), rh_id h)) (mget_or [] m r))"
  have 1: "map (\<lambda>w. (rw_role w, rw_hosts w)) (role_waves n m r ws) = map (\<lambda>w. (rw_role w, rw_hosts w)) ws @ map (\<lambda>b. (r, map rh_id b)) ?b"
    by (simp add: role_waves_def Let_def split_beta enumerate_views(1) [where f = "\<lambda>b. (r, map rh_id b)", unfolded split_beta] comp_def)
  have 2: "map rw_index (role_waves n m r ws) = map int [1..<Suc (length (role_waves n m r ws))]" if "map rw_index ws = map int [1..<Suc (length ws)]"
    using that upt_add_eq_append [of 1 "Suc (length ws)" "length ?b"]
    by (simp add: role_waves_def Let_def split_beta enumerate_views(2) [unfolded split_beta] comp_def)
  show ?case using Cons.IH [of "role_waves n m r ws"] 1 2 by (simp add: waves_of_def)
qed (simp add: waves_of_def)

text \<open>Membership, sizes and order of the unnumbered waves.\<close>

lemma waves_of_sizes:
  assumes "1 \<le> n" "(r, hs) \<in> set (waves_of n hosts order)"
  shows "r \<in> set order \<and> hs \<noteq> [] \<and> int (length hs) \<le> n"
  using assms batches_sizes [of _ "nat n"] by (fastforce simp: waves_of_def)

lemma waves_of_hosts:
  assumes "1 \<le> n" "distinct order"
  shows "mset (concat (map snd (filter (\<lambda>w. fst w = r) (waves_of n hosts order)))) = (if r \<in> set order then mset (map rh_id (hosts r)) else {#})"
  using assms(2)
proof (induction order)
  case (Cons x order)
  let ?s = "sort_key (\<lambda>h. (lower_trim (rh_domain h), rh_id h)) (hosts x)"
  have "concat (map (map rh_id) (batches (nat n) ?s)) = map rh_id ?s"
    using batches_concat [of "nat n" ?s] assms(1) by (simp add: map_concat [symmetric])
  moreover have "waves_of n hosts (x # order) = map (\<lambda>b. (x, map rh_id b)) (batches (nat n) ?s) @ waves_of n hosts order"
    by (simp add: waves_of_def)
  moreover have "mset (map rh_id ?s) = mset (map rh_id (hosts x))" by (metis mset_map mset_sort)
  ultimately show ?case using Cons by (auto simp: filter_map comp_def)
qed (simp add: waves_of_def)

lemma waves_of_order:
  assumes "distinct order" "i < j" "j < length (waves_of n hosts order)"
    and "k < length order" "l < length order"
    and "fst (waves_of n hosts order ! i) = order ! k" "fst (waves_of n hosts order ! j) = order ! l"
  shows "k \<le> l"
proof -
  define rank where "rank r = (THE k. k < length order \<and> order ! k = r)" for r
  have rank: "rank (order ! k) = k" if "k < length order" for k
    unfolding rank_def using that assms(1) by (auto simp: nth_eq_iff_index_eq)
  have "sorted_wrt (\<lambda>a b. rank a \<le> rank b) (map fst (waves_of n hosts xs))" if "sorted_wrt (\<lambda>a b. rank a \<le> rank b) xs" for xs
    using that
  proof (induction xs)
    case (Cons x xs)
    have "fst w \<in> set xs" if "w \<in> set (waves_of n hosts xs)" for w using that by (auto simp: waves_of_def)
    with Cons show ?case by (auto simp: waves_of_def sorted_wrt_append sorted_wrt_map comp_def sorted_wrt_true)
  qed (simp add: waves_of_def)
  moreover have "sorted_wrt (\<lambda>a b. rank a \<le> rank b) order"
    unfolding sorted_wrt_iff_nth_less using rank by simp
  ultimately have "rank (map fst (waves_of n hosts order) ! i) \<le> rank (map fst (waves_of n hosts order) ! j)"
    using assms(2,3) unfolding sorted_wrt_iff_nth_less by simp
  then show ?thesis using assms rank by simp
qed

text \<open>after any sequence of policy updates, a reboot plan is allowed exactly when the healthy share of the fleet reaches the
  threshold of the environment's policy. Its waves are numbered from one; the waves of a role together hold every host
  of that role exactly as often as it was given; no wave is empty or larger than the limit of the policy, which is at least
  one; and the roles come in one order, the dependency order of the policy first, so that no wave of a role comes before
  a wave of a role that precedes it there.\<close>

theorem reboot_plan_exact:
  assumes "s = foldl reboot_step NewRebootOrchestrationStore ops"
    and "env = lower_trim (rn_environment inp)" "env \<noteq> []" "rn_hosts inp \<noteq> []"
    and "policy = policy_for env s" "ws = rl_waves (Plan_reboot inp s)"
  shows "(rl_allowed (Plan_reboot inp s) \<longleftrightarrow> rp_min_healthy policy \<le> healthy_percent (rn_hosts inp)) \<and>
    (rl_allowed (Plan_reboot inp s) \<longrightarrow>
      map rw_index ws = map int [1..<Suc (length ws)] \<and>
      (\<forall>role. mset (concat (map rw_hosts (filter (\<lambda>w. rw_role w = role) ws))) = mset (map rh_id (filter (\<lambda>h. role_key h = role) (rn_hosts inp)))) \<and>
      (\<forall>w \<in> set ws. rw_hosts w \<noteq> [] \<and> int (length (rw_hosts w)) \<le> rp_max policy) \<and>
      (\<exists>order. prefix (rp_order policy) order \<and> distinct order \<and>
         (\<forall>i j k l. i < j \<longrightarrow> j < length ws \<longrightarrow> k < length order \<longrightarrow> l < length order \<longrightarrow>
            rw_role (ws ! i) = order ! k \<longrightarrow> rw_role (ws ! j) = order ! l \<longrightarrow> k \<le> l)))"
proof -
  have inv: "reboot_inv s" unfolding assms(1) by (rule reboot.run_inv [OF NewReboot_inv])
  have ok: "1 \<le> rp_max policy" "distinct (rp_order policy)" using policy_for_ok [OF inv, of env] by (simp_all add: assms(5) reboot_policy_ok_def)
  obtain m order where g: "fold group_host (rn_hosts inp) ([], rp_order policy) = (m, order)" by fastforce
  note G = group_hosts [OF g ok(2)]
  have allowed: "rl_allowed (Plan_reboot inp s) \<longleftrightarrow> rp_min_healthy policy \<le> healthy_percent (rn_hosts inp)"
    and waves: "rl_allowed (Plan_reboot inp s) \<Longrightarrow> ws = fold (role_waves (rp_max policy) m) order []"
    using assms(2-6) g by (simp_all add: Plan_reboot_def Let_def split: if_splits)
  define W where "W = waves_of (rp_max policy) (mget_or [] m) order"
  have "map rw_index ws = map int [1..<Suc (length ws)] \<and>
      (\<forall>role. mset (concat (map rw_hosts (filter (\<lambda>w. rw_role w = role) ws))) = mset (map rh_id (filter (\<lambda>h. role_key h = role) (rn_hosts inp)))) \<and>
      (\<forall>w \<in> set ws. rw_hosts w \<noteq> [] \<and> int (length (rw_hosts w)) \<le> rp_max policy) \<and>
      (\<exists>order. prefix (rp_order policy) order \<and> distinct order \<and>
         (\<forall>i j k l. i < j \<longrightarrow> j < length ws \<longrightarrow> k < length order \<longrightarrow> l < length order \<longrightarrow>
            rw_role (ws ! i) = order ! k \<longrightarrow> rw_role (ws ! j) = order ! l \<longrightarrow> k \<le> l))"
    if a: "rl_allowed (Plan_reboot inp s)"
  proof -
    have W: "map (\<lambda>w. (rw_role w, rw_hosts w)) ws = W" and idx: "map rw_index ws = map int [1..<Suc (length ws)]"
      using fold_role_waves [of "rp_max policy" m order "[]"] waves [OF a] by (simp_all add: W_def)
    have "concat (map rw_hosts (filter (\<lambda>w. rw_role w = role) ws)) = concat (map snd (filter (\<lambda>w. fst w = role) W))" for role
      unfolding W [symmetric] by (simp add: filter_map comp_def)
    moreover have "mset (concat (map snd (filter (\<lambda>w. fst w = role) W))) = mset (map rh_id (filter (\<lambda>h. role_key h = role) (rn_hosts inp)))" for role
    proof -
      have "mget_or [] m role = []" if "role \<notin> set order" using G that by (auto simp: filter_empty_conv)
      then have "mset (concat (map snd (filter (\<lambda>w. fst w = role) W))) = mset (map rh_id (mget_or [] m role))"
        using waves_of_hosts [OF ok(1), of order role "mget_or [] m"] G unfolding W_def by (metis list.simps(8) mset.simps(1))
      then show ?thesis using G by simp
    qed
    moreover have "rw_hosts w \<noteq> [] \<and> int (length (rw_hosts w)) \<le> rp_max policy" if "w \<in> set ws" for w
    proof -
      have "(rw_role w, rw_hosts w) \<in> set W" unfolding W [symmetric] using that by force
      then show ?thesis using waves_of_sizes [OF ok(1)] by (simp add: W_def)
    qed
    moreover have "k \<le> l" if "i < j" "j < length ws" "k < length order" "l < length order" "rw_role (ws ! i) = order ! k" "rw_role (ws ! j) = order ! l" for i j k l
    proof -
      have n: "length W = length ws" "fst (W ! i) = rw_role (ws ! i)" "fst (W ! j) = rw_role (ws ! j)"
        unfolding W [symmetric] using that by simp_all
      show ?thesis by (rule waves_of_order [of order i j]) (use n that G in \<open>simp_all add: W_def\<close>)
    qed
    ultimately show ?thesis using idx G by metis
  qed
  with allowed show ?thesis by blast
qed

section \<open>Upgrades in waves\<close>

datatype upgrade_status = UpPending | UpInProgress | UpBlocked | UpCompleted | UpAborted

record upgrade_input =
  ui_component :: string
  ui_from :: string
  ui_to :: string
  ui_strategy :: string
  ui_total :: int
  ui_wave_size :: int
  ui_max_unavailable :: int

record upgrade_plan =
  up_id :: string
  up_component :: string
  up_from :: string
  up_to :: string
  up_strategy :: string
  up_total :: int
  up_wave_size :: int
  up_max_unavailable :: int
  up_wave :: int
  up_upgraded :: int
  up_status :: upgrade_status
  up_message :: string
  up_updated :: gotime

record upgrade_store =
  us_next :: int
  us_plans :: "upgrade_plan gomap"

definition NewUpgradeOrchestrationStore :: upgrade_store where
  "NewUpgradeOrchestrationStore = \<lparr>us_next = 0, us_plans = []\<rparr>"

definition new_upgrade_plan :: "gotime \<Rightarrow> upgrade_input \<Rightarrow> upgrade_plan result" where
  "new_upgrade_plan now inp =
     (let component = lower_trim (ui_component inp); fromChannel = lower_trim (ui_from inp); toChannel = lower_trim (ui_to inp);
          strategy = (if lower_trim (ui_strategy inp) = [] then ''wave'' else lower_trim (ui_strategy inp));
          maxUnavailable = (if ui_max_unavailable inp \<le> 0 then 1 else ui_max_unavailable inp);
          waveSize = (if ui_wave_size inp \<le> 0 then maxUnavailable else ui_wave_size inp);
          waveSize = (if waveSize > ui_total inp then ui_total inp else waveSize)
      in if component = [] \<or> fromChannel = [] \<or> toChannel = [] then Inl ''component, from_channel, and to_channel are required''
         else if component \<noteq> ''agent'' \<and> component \<noteq> ''control-plane'' then Inl ''component must be agent or control-plane''
         else if ui_total inp \<le> 0 then Inl ''total_nodes must be greater than zero''
         else if strategy \<noteq> ''wave'' \<and> strategy \<noteq> ''canary'' then Inl ''strategy must be wave or canary''
         else Inr \<lparr>up_id = [], up_component = component, up_from = fromChannel, up_to = toChannel, up_strategy = strategy,
                up_total = ui_total inp, up_wave_size = waveSize, up_max_unavailable = maxUnavailable, up_wave = 0, up_upgraded = 0,
                up_status = UpPending, up_message = [], up_updated = now\<rparr>)"

definition CreatePlan :: "gotime \<Rightarrow> upgrade_input \<Rightarrow> upgrade_store \<Rightarrow> upgrade_store \<times> upgrade_plan result" where
  "CreatePlan now inp s =
     (case new_upgrade_plan now inp of
        Inl e \<Rightarrow> (s, Inl e)
      | Inr item \<Rightarrow>
          let item = item\<lparr>up_id := seq_id ''upgrade-plan-'' (us_next s + 1)\<rparr>
          in (s\<lparr>us_next := us_next s + 1, us_plans := mput (up_id item) item (us_plans s)\<rparr>, Inr item))"

definition ListPlans :: "upgrade_store \<Rightarrow> upgrade_plan list" where
  "ListPlans s = newest_first up_updated (map snd (us_plans s))"

definition GetPlan :: "string \<Rightarrow> upgrade_store \<Rightarrow> upgrade_plan option" where
  "GetPlan i s = mget (us_plans s) (TrimSpace i)"

definition advance_wave :: "upgrade_plan \<Rightarrow> upgrade_plan" where
  "advance_wave p =
     (let remaining = up_total p - up_upgraded p;
          step = (if up_wave_size p > remaining then remaining else up_wave_size p);
          p = p\<lparr>up_status := UpInProgress, up_wave := up_wave p + 1, up_upgraded := up_upgraded p + step\<rparr>
      in if up_upgraded p \<ge> up_total p
         then p\<lparr>up_status := UpCompleted, up_message := ''upgrade completed with zero-downtime wave progression''\<rparr>
         else p\<lparr>up_message := ''wave advanced successfully''\<rparr>)"

definition Advance_upgrade :: "gotime \<Rightarrow> string \<Rightarrow> bool \<Rightarrow> upgrade_store \<Rightarrow> upgrade_store \<times> upgrade_plan result" where
  "Advance_upgrade now i healthy s =
     (case mget (us_plans s) (TrimSpace i) of
        None \<Rightarrow> (s, Inl ''upgrade plan not found'')
      | Some p \<Rightarrow>
          if up_status p = UpCompleted \<or> up_status p = UpAborted then (s, Inl ''upgrade plan is no longer active'')
          else let p' = (if healthy then advance_wave p
                         else p\<lparr>up_status := UpBlocked, up_message := ''health check failed; rollout blocked for zero-downtime safety''\<rparr>)\<lparr>up_updated := now\<rparr>
               in (s\<lparr>us_plans := mput (TrimSpace i) p' (us_plans s)\<rparr>, Inr p'))"

definition Abort :: "gotime \<Rightarrow> string \<Rightarrow> string \<Rightarrow> upgrade_store \<Rightarrow> upgrade_store \<times> upgrade_plan result" where
  "Abort now i reason s =
     (case mget (us_plans s) (TrimSpace i) of
        None \<Rightarrow> (s, Inl ''upgrade plan not found'')
      | Some p \<Rightarrow>
          if up_status p = UpCompleted then (s, Inl ''cannot abort completed upgrade plan'')
          else let p' = p\<lparr>up_status := UpAborted, up_message := (if TrimSpace reason = [] then ''aborted by operator'' else TrimSpace reason), up_updated := now\<rparr>
               in (s\<lparr>us_plans := mput (TrimSpace i) p' (us_plans s)\<rparr>, Inr p'))"

datatype upgrade_op = UCreate gotime upgrade_input | UAdvance gotime string bool | UAbort gotime string string

fun upgrade_step :: "upgrade_store \<Rightarrow> upgrade_op \<Rightarrow> upgrade_store" where
  "upgrade_step s (UCreate now inp) = fst (CreatePlan now inp s)"
| "upgrade_step s (UAdvance now i healthy) = fst (Advance_upgrade now i healthy s)"
| "upgrade_step s (UAbort now i reason) = fst (Abort now i reason s)"

definition upgrade_ok :: "string \<Rightarrow> upgrade_plan \<Rightarrow> bool" where
  "upgrade_ok i p \<longleftrightarrow> up_id p = i \<and> 1 \<le> up_wave_size p \<and> up_wave_size p \<le> up_total p \<and> 0 \<le> up_wave p \<and>
     up_upgraded p = min (up_total p) (up_wave p * up_wave_size p) \<and>
     (up_status p = UpCompleted \<longleftrightarrow> up_upgraded p = up_total p) \<and> (up_status p = UpPending \<longrightarrow> up_wave p = 0)"

definition upgrade_inv :: "upgrade_store \<Rightarrow> bool" where
  "upgrade_inv s \<longleftrightarrow> store_inv us_plans us_next ''upgrade-plan-'' s \<and> items_ok upgrade_ok (us_plans s)"

lemma new_upgrade_plan_ok: "new_upgrade_plan now inp = Inr p \<Longrightarrow> upgrade_ok i (p\<lparr>up_id := i\<rparr>)"
  by (auto simp: new_upgrade_plan_def upgrade_ok_def Let_def split: if_splits)

lemma advance_wave_ok:
  assumes "upgrade_ok i p" "up_status p \<noteq> UpCompleted"
  shows "upgrade_ok i ((advance_wave p)\<lparr>up_updated := now\<rparr>)"
proof -
  have d: "up_upgraded p = up_wave p * up_wave_size p" "up_wave p * up_wave_size p < up_total p" "1 \<le> up_wave_size p" "0 \<le> up_wave p"
    using assms by (auto simp: upgrade_ok_def min_def split: if_splits)
  have "(up_wave p + 1) * up_wave_size p = up_wave p * up_wave_size p + up_wave_size p" by (simp add: algebra_simps)
  with d assms(1) show ?thesis by (auto simp: upgrade_ok_def advance_wave_def Let_def min_def)
qed

lemma ended_wave_ok:
  assumes "upgrade_ok i p" "up_status p \<noteq> UpCompleted" "st \<in> {UpBlocked, UpAborted}"
  shows "upgrade_ok i (p\<lparr>up_status := st, up_message := msg, up_updated := now\<rparr>)"
  using assms by (auto simp: upgrade_ok_def)

lemma upgrade_keys: "keys_step ''upgrade-plan-'' (us_next s) (us_plans s) (us_next (upgrade_step s op)) (us_plans (upgrade_step s op))"
  by (cases op) (simp_all add: CreatePlan_def Advance_upgrade_def Abort_def Let_def keys_step_update_some split: sum.split option.split)

lemma upgrade_items: "items_ok upgrade_ok (us_plans s) \<Longrightarrow> items_ok upgrade_ok (us_plans (upgrade_step s op))"
proof (cases op)
  case (UCreate now inp)
  assume "items_ok upgrade_ok (us_plans s)"
  then show ?thesis by (auto simp: UCreate CreatePlan_def Let_def new_upgrade_plan_ok split: sum.split intro!: items_intros)
next
  case (UAdvance now i healthy)
  assume ok: "items_ok upgrade_ok (us_plans s)"
  show ?thesis using ok advance_wave_ok ended_wave_ok items_okD [OF ok]
    by (auto simp: UAdvance Advance_upgrade_def Let_def split: option.split intro!: items_intros)
next
  case (UAbort now i reason)
  assume ok: "items_ok upgrade_ok (us_plans s)"
  show ?thesis using ok ended_wave_ok items_okD [OF ok]
    by (auto simp: UAbort Abort_def Let_def split: option.split intro!: items_intros)
qed

lemma upgrade_step_inv: "upgrade_inv s \<Longrightarrow> upgrade_inv (upgrade_step s op)"
  unfolding upgrade_inv_def
  by (metis upgrade_items store_inv_step [where items = us_plans and counter = us_next, OF _ upgrade_keys])

interpretation upgrade_ids: counter_store upgrade_step upgrade_inv us_plans us_next "''upgrade-plan-''"
  by unfold_locales (simp_all add: upgrade_step_inv upgrade_keys, simp add: upgrade_inv_def)

lemma advance_wave_simps [simp]:
  "up_total (advance_wave p) = up_total p" "up_wave_size (advance_wave p) = up_wave_size p" "up_wave (advance_wave p) = up_wave p + 1"
  "up_status (advance_wave p) \<noteq> UpAborted"
  by (simp_all add: advance_wave_def Let_def)

lemma healthy_advances:
  assumes "upgrade_inv s" "mget (us_plans s) (TrimSpace i) = Some p" "up_status p \<noteq> UpAborted"
  shows "\<exists>q. mget (us_plans (foldl upgrade_step s (map (\<lambda>t. UAdvance t i True) ts))) (TrimSpace i) = Some q \<and>
    up_total q = up_total p \<and> up_status q \<noteq> UpAborted \<and>
    up_upgraded q = min (up_total p) ((up_wave p + int (length ts)) * up_wave_size p)"
  using assms
proof (induction ts arbitrary: s p)
  case Nil
  then have "upgrade_ok (TrimSpace i) p" by (auto simp: upgrade_inv_def dest: items_okD)
  with Nil show ?case by (simp add: upgrade_ok_def)
next
  case (Cons t ts)
  have ok: "upgrade_ok (TrimSpace i) p" using Cons.prems by (auto simp: upgrade_inv_def dest: items_okD)
  show ?case
  proof (cases "up_status p = UpCompleted")
    case True
    then have "upgrade_step s (UAdvance t i True) = s" using Cons.prems by (simp add: Advance_upgrade_def)
    moreover have "up_total p \<le> (up_wave p + int (length ts)) * up_wave_size p \<and> up_total p \<le> (up_wave p + int (length (t # ts))) * up_wave_size p"
    proof -
      have "up_total p \<le> up_wave p * up_wave_size p" "0 \<le> up_wave_size p" using ok True by (auto simp: upgrade_ok_def min_def split: if_splits)
      then show ?thesis using mult_right_mono [of "up_wave p" "up_wave p + int (length ts)" "up_wave_size p"]
          mult_right_mono [of "up_wave p" "up_wave p + int (length (t # ts))" "up_wave_size p"] by simp
    qed
    ultimately show ?thesis using Cons.IH [OF Cons.prems] by (simp add: min_absorb1)
  next
    case False
    let ?p = "(advance_wave p)\<lparr>up_updated := t\<rparr>"
    have s: "upgrade_step s (UAdvance t i True) = s\<lparr>us_plans := mput (TrimSpace i) ?p (us_plans s)\<rparr>"
      using Cons.prems False by (simp add: Advance_upgrade_def Let_def)
    have "upgrade_inv (upgrade_step s (UAdvance t i True))" by (rule upgrade_step_inv [OF Cons.prems(1)])
    moreover have "mget (us_plans (upgrade_step s (UAdvance t i True))) (TrimSpace i) = Some ?p" by (simp only: s) simp
    ultimately show ?thesis using Cons.IH [of "upgrade_step s (UAdvance t i True)" ?p] by (simp add: ac_simps)
  qed
qed

text \<open>C30: after any sequence of operations, a plan has upgraded exactly as many nodes as its waves hold (and never more than
  there are), and it is completed exactly when all of them are. A plan that was not aborted, whether blocked or not, is completed by a
  number of healthy advances exactly when the waves then reach the number of nodes.\<close>

theorem upgrade_completes:
  assumes "s = foldl upgrade_step NewUpgradeOrchestrationStore ops" and "GetPlan i s = Some p"
  shows "up_upgraded p = min (up_total p) (up_wave p * up_wave_size p) \<and>
    (up_status p = UpCompleted \<longleftrightarrow> up_upgraded p = up_total p) \<and> 1 \<le> up_wave_size p \<and>
    (up_status p \<noteq> UpAborted \<longrightarrow>
      (\<exists>q. GetPlan i (foldl upgrade_step s (map (\<lambda>t. UAdvance t i True) ts)) = Some q \<and>
         up_upgraded q = min (up_total p) ((up_wave p + int (length ts)) * up_wave_size p) \<and>
         (up_status q = UpCompleted \<longleftrightarrow> up_total p \<le> (up_wave p + int (length ts)) * up_wave_size p)))"
proof -
  have inv: "upgrade_inv s" unfolding assms(1)
    by (rule upgrade_ids.run_inv) (simp add: upgrade_inv_def NewUpgradeOrchestrationStore_def store_inv_def)
  have ok: "upgrade_ok (TrimSpace i) p" using inv assms(2) by (auto simp: upgrade_inv_def GetPlan_def dest: items_okD)
  have "\<exists>q. GetPlan i (foldl upgrade_step s (map (\<lambda>t. UAdvance t i True) ts)) = Some q \<and>
         up_upgraded q = min (up_total p) ((up_wave p + int (length ts)) * up_wave_size p) \<and>
         (up_status q = UpCompleted \<longleftrightarrow> up_total p \<le> (up_wave p + int (length ts)) * up_wave_size p)"
    if active: "up_status p \<noteq> UpAborted"
  proof -
    obtain q where q: "mget (us_plans (foldl upgrade_step s (map (\<lambda>t. UAdvance t i True) ts))) (TrimSpace i) = Some q"
        "up_total q = up_total p" "up_upgraded q = min (up_total p) ((up_wave p + int (length ts)) * up_wave_size p)"
      using healthy_advances [OF inv _ active, of i ts] assms(2) unfolding GetPlan_def by blast
    have "upgrade_inv (foldl upgrade_step s (map (\<lambda>t. UAdvance t i True) ts))" by (rule upgrade_ids.run_inv [OF inv])
    then have "upgrade_ok (TrimSpace i) q" using q(1) by (auto simp: upgrade_inv_def dest: items_okD)
    then have "up_status q = UpCompleted \<longleftrightarrow> up_upgraded q = up_total q" by (simp add: upgrade_ok_def)
    then show ?thesis using q by (auto simp: GetPlan_def min_def)
  qed
  then show ?thesis using ok by (simp add: upgrade_ok_def)
qed

text \<open>\<^verbatim>\<open>MaxUnavailable\<close> is only a default for the wave size: a larger wave size is taken as it is, and one advance upgrades that many nodes at once.\<close>

lemma upgrade_ignores_max_unavailable:
  assumes "new_upgrade_plan now inp = Inr p" "0 < ui_wave_size inp" "ui_wave_size inp \<le> ui_total inp"
  shows "up_upgraded (advance_wave p) - up_upgraded p = ui_wave_size inp \<and> up_max_unavailable p = max 1 (ui_max_unavailable inp)"
  using assms by (auto simp: new_upgrade_plan_def advance_wave_def Let_def split: if_splits)

section \<open>Promotion pipelines\<close>

datatype promotion_status = PromotionInProgress | PromotionCompleted

record stage_record =
  sr_stage :: string
  sr_actor :: string
  sr_note :: string
  sr_time :: gotime

record promotion =
  pm_id :: string
  pm_name :: string
  pm_stages :: "string list"
  pm_digest :: string
  pm_stage :: string
  pm_index :: int
  pm_status :: promotion_status
  pm_history :: "stage_record list"
  pm_created :: gotime
  pm_updated :: gotime

record promotion_input =
  pi_name :: string
  pi_stages :: "string list"
  pi_digest :: string
  pi_actor :: string

record promotion_store =
  ps_next :: int
  ps_promotions :: "promotion gomap"

definition NewGitOpsPromotionStore :: promotion_store where
  "NewGitOpsPromotionStore = \<lparr>ps_next = 0, ps_promotions = []\<rparr>"

text \<open>The pattern \<^verbatim>\<open>^sha256:[a-f0-9]{64}$\<close>.\<close>

definition isValidArtifactDigest :: "string \<Rightarrow> bool" where
  "isValidArtifactDigest digest =
     (let d = TrimSpace (ToLower digest)
      in HasPrefix d ''sha256:'' \<and> length d = 71 \<and> list_all (\<lambda>c. c \<in> set ''0123456789abcdef'') (drop 7 d))"

definition normalizePromotionStages :: "string list \<Rightarrow> string list result" where
  "normalizePromotionStages stages =
     (let stages = (if stages = [] then [''staging'', ''canary'', ''production''] else stages); out = normalize_loop [] stages
      in if length out < 2 then Inl ''at least two unique stages are required'' else Inr out)"

definition Create_promotion :: "gotime \<Rightarrow> promotion_input \<Rightarrow> promotion_store \<Rightarrow> promotion_store \<times> promotion result" where
  "Create_promotion now inp s =
     (let digest = lower_trim (pi_digest inp)
      in if TrimSpace (pi_name inp) = [] then (s, Inl ''name is required'')
         else if \<not> isValidArtifactDigest digest then (s, Inl ''artifact_digest must be immutable sha256:<64-hex>'')
         else case normalizePromotionStages (pi_stages inp) of
           Inl e \<Rightarrow> (s, Inl e)
         | Inr stages \<Rightarrow>
             let item = \<lparr>pm_id = seq_id ''promotion-'' (ps_next s + 1), pm_name = TrimSpace (pi_name inp), pm_stages = stages, pm_digest = digest,
                   pm_stage = stages ! 0, pm_index = 0, pm_status = PromotionInProgress,
                   pm_history = [\<lparr>sr_stage = stages ! 0, sr_actor = TrimSpace (pi_actor inp),
                     sr_note = ''pipeline created with immutable artifact pin'', sr_time = now\<rparr>], pm_created = now, pm_updated = now\<rparr>
             in (s\<lparr>ps_next := ps_next s + 1, ps_promotions := mput (pm_id item) item (ps_promotions s)\<rparr>, Inr item))"

definition Get_promotion :: "string \<Rightarrow> promotion_store \<Rightarrow> promotion option" where
  "Get_promotion i s = mget (ps_promotions s) (TrimSpace i)"

definition List_promotions :: "promotion_store \<Rightarrow> promotion list" where
  "List_promotions s = newest_first pm_created (map snd (ps_promotions s))"

definition advance_promotion :: "gotime \<Rightarrow> string \<Rightarrow> string \<Rightarrow> promotion \<Rightarrow> promotion" where
  "advance_promotion now actor nt p =
     (let idx = pm_index p + 1
      in if idx \<ge> int (length (pm_stages p)) then p\<lparr>pm_status := PromotionCompleted, pm_updated := now\<rparr>
         else p\<lparr>pm_index := idx, pm_stage := pm_stages p ! nat idx,
                pm_status := (if idx = int (length (pm_stages p)) - 1 then PromotionCompleted else pm_status p), pm_updated := now,
                pm_history := pm_history p @ [\<lparr>sr_stage = pm_stages p ! nat idx, sr_actor = TrimSpace actor, sr_note = TrimSpace nt, sr_time = now\<rparr>]\<rparr>)"

definition Advance_promotion :: "gotime \<Rightarrow> string \<Rightarrow> string \<Rightarrow> string \<Rightarrow> string \<Rightarrow> promotion_store \<Rightarrow> promotion_store \<times> promotion result" where
  "Advance_promotion now i digest actor nt s =
     (case mget (ps_promotions s) (TrimSpace i) of
        None \<Rightarrow> (s, Inl ''promotion pipeline not found'')
      | Some p \<Rightarrow>
          if pm_status p = PromotionCompleted then (s, Inl ''promotion pipeline already completed'')
          else if lower_trim digest = [] then (s, Inl ''artifact_digest is required'')
          else if lower_trim digest \<noteq> pm_digest p then (s, Inl ''artifact digest mismatch with immutable pipeline pin'')
          else let p = advance_promotion now actor nt p
               in (s\<lparr>ps_promotions := mput (TrimSpace i) p (ps_promotions s)\<rparr>, Inr p))"

datatype promotion_op = PCreate gotime promotion_input | PAdvance gotime string string string string

fun promotion_step :: "promotion_store \<Rightarrow> promotion_op \<Rightarrow> promotion_store" where
  "promotion_step s (PCreate now inp) = fst (Create_promotion now inp s)"
| "promotion_step s (PAdvance now i digest actor nt) = fst (Advance_promotion now i digest actor nt s)"

definition promotion_ok :: "string \<Rightarrow> promotion \<Rightarrow> bool" where
  "promotion_ok i p \<longleftrightarrow> pm_id p = i \<and> distinct (pm_stages p) \<and> 2 \<le> length (pm_stages p) \<and> isValidArtifactDigest (pm_digest p) \<and>
     0 \<le> pm_index p \<and> pm_index p < int (length (pm_stages p)) \<and> pm_stage p = pm_stages p ! nat (pm_index p) \<and>
     map sr_stage (pm_history p) = take (Suc (nat (pm_index p))) (pm_stages p) \<and>
     (pm_status p = PromotionCompleted \<longleftrightarrow> pm_index p = int (length (pm_stages p)) - 1)"

definition promotion_inv :: "promotion_store \<Rightarrow> bool" where
  "promotion_inv s \<longleftrightarrow> store_inv ps_promotions ps_next ''promotion-'' s \<and> items_ok promotion_ok (ps_promotions s)"

lemma normalizePromotionStages_ok: "normalizePromotionStages xs = Inr ys \<Longrightarrow> distinct ys \<and> 2 \<le> length ys"
  by (auto simp: normalizePromotionStages_def Let_def distinct_normalize_loop split: if_splits)

lemma create_promotion_cases:
  "(\<exists>e. Create_promotion now inp s = (s, Inl e)) \<or> (\<exists>p. promotion_ok (seq_id ''promotion-'' (ps_next s + 1)) p \<and> pm_digest p = lower_trim (pi_digest inp) \<and>
     Create_promotion now inp s = (s\<lparr>ps_next := ps_next s + 1, ps_promotions := mput (seq_id ''promotion-'' (ps_next s + 1)) p (ps_promotions s)\<rparr>, Inr p))"
proof (cases "snd (Create_promotion now inp s)")
  case (Inl e)
  then show ?thesis by (auto simp: Create_promotion_def Let_def split: if_splits sum.splits)
next
  case (Inr q)
  then obtain stages where st: "normalizePromotionStages (pi_stages inp) = Inr stages" "isValidArtifactDigest (lower_trim (pi_digest inp))"
    by (auto simp: Create_promotion_def Let_def split: if_splits sum.splits)
  have "take (Suc 0) stages = [stages ! 0]" using normalizePromotionStages_ok [OF st(1)] by (cases stages) auto
  with Inr st normalizePromotionStages_ok [OF st(1)] show ?thesis
    by (auto simp: Create_promotion_def Let_def promotion_ok_def split: if_splits)
qed

lemma advance_promotion_ok:
  assumes "promotion_ok i p" "pm_status p \<noteq> PromotionCompleted"
  shows "promotion_ok i (advance_promotion now actor nt p) \<and> pm_index (advance_promotion now actor nt p) = pm_index p + 1 \<and>
    (\<exists>h. pm_history (advance_promotion now actor nt p) = pm_history p @ [h])"
proof -
  have lt: "pm_index p + 1 < int (length (pm_stages p))" using assms by (cases "pm_status p") (simp_all add: promotion_ok_def)
  obtain n where n: "pm_index p = int n" using assms(1) nonneg_int_cases [of "pm_index p"] by (auto simp: promotion_ok_def)
  have "nat (int n + 1) = Suc n" by simp
  moreover have "take (Suc (Suc n)) (pm_stages p) = take (Suc n) (pm_stages p) @ [pm_stages p ! Suc n]"
    using lt n by (simp add: take_Suc_conv_app_nth)
  ultimately have "take (Suc (nat (pm_index p + 1))) (pm_stages p) = take (Suc (nat (pm_index p))) (pm_stages p) @ [pm_stages p ! nat (pm_index p + 1)]"
    by (simp add: n)
  with lt assms show ?thesis by (auto simp: promotion_ok_def advance_promotion_def Let_def)
qed

lemma advance_promotion_keeps [simp]:
  "pm_digest (advance_promotion now actor nt p) = pm_digest p" "pm_stages (advance_promotion now actor nt p) = pm_stages p"
  by (simp_all add: advance_promotion_def Let_def)

lemma promotion_keys:
  "keys_step ''promotion-'' (ps_next s) (ps_promotions s) (ps_next (promotion_step s op)) (ps_promotions (promotion_step s op))"
proof (cases op)
  case (PCreate now inp)
  then show ?thesis using create_promotion_cases [of now inp s] by (elim disjE exE) simp_all
qed (simp add: Advance_promotion_def Let_def keys_step_update_some split: option.split)

lemma promotion_items: "items_ok promotion_ok (ps_promotions s) \<Longrightarrow> items_ok promotion_ok (ps_promotions (promotion_step s op))"
proof (cases op)
  case (PCreate now inp)
  assume "items_ok promotion_ok (ps_promotions s)"
  then show ?thesis using create_promotion_cases [of now inp s] by (auto simp: PCreate intro!: items_intros)
next
  case (PAdvance now i digest actor nt)
  assume ok: "items_ok promotion_ok (ps_promotions s)"
  show ?thesis using ok advance_promotion_ok items_okD [OF ok]
    by (auto simp: PAdvance Advance_promotion_def Let_def split: option.split intro!: items_intros)
qed

lemma promotion_step_inv: "promotion_inv s \<Longrightarrow> promotion_inv (promotion_step s op)"
  unfolding promotion_inv_def
  by (metis promotion_items store_inv_step [where items = ps_promotions and counter = ps_next, OF _ promotion_keys])

interpretation promotion_ids: counter_store promotion_step promotion_inv ps_promotions ps_next "''promotion-''"
  by unfold_locales (simp_all add: promotion_step_inv promotion_keys, simp add: promotion_inv_def)

text \<open>What later operations may do to a pipeline.\<close>

definition promoted :: "promotion \<Rightarrow> promotion \<Rightarrow> bool" where
  "promoted p q \<longleftrightarrow> pm_digest q = pm_digest p \<and> pm_stages q = pm_stages p \<and> pm_index p \<le> pm_index q \<and> prefix (pm_history p) (pm_history q)"

lemma promotion_step_promotes:
  assumes inv: "promotion_inv s" and p: "mget (ps_promotions s) k = Some p"
  shows "\<exists>q. mget (ps_promotions (promotion_step s op)) k = Some q \<and> promoted p q"
proof (cases op)
  case (PCreate now inp)
  have "mget (ps_promotions s) (seq_id ''promotion-'' (ps_next s + 1)) = None"
    using store_inv_fresh [of ps_promotions ps_next "''promotion-''" s] inv by (simp add: promotion_inv_def)
  then show ?thesis using create_promotion_cases [of now inp s] p by (auto simp: PCreate promoted_def)
next
  case (PAdvance now i digest actor nt)
  have ok: "promotion_ok k p" using inv p by (auto simp: promotion_inv_def dest: items_okD)
  show ?thesis
  proof (cases "k = TrimSpace i \<and> pm_status p \<noteq> PromotionCompleted")
    case True
    then show ?thesis using p advance_promotion_ok [OF ok, of now actor nt]
      by (auto simp: PAdvance Advance_promotion_def promoted_def Let_def)
  qed (use p in \<open>auto simp: PAdvance Advance_promotion_def promoted_def Let_def split: option.split\<close>)
qed

lemma promotion_run_promotes:
  "promotion_inv s \<Longrightarrow> mget (ps_promotions s) k = Some p \<Longrightarrow> \<exists>q. mget (ps_promotions (foldl promotion_step s ops)) k = Some q \<and> promoted p q"
proof (induction ops arbitrary: s p)
  case (Cons op ops)
  obtain q where q: "mget (ps_promotions (promotion_step s op)) k = Some q" "promoted p q"
    using promotion_step_promotes [OF Cons.prems] by blast
  obtain r where "mget (ps_promotions (foldl promotion_step (promotion_step s op) ops)) k = Some r" "promoted q r"
    using Cons.IH [OF promotion_step_inv [OF Cons.prems(1)] q(1)] by blast
  with q(2) show ?case by (auto simp: promoted_def intro: prefix_order.trans)
qed (simp add: promoted_def)

text \<open>after any sequence of operations, a promotion pipeline has gone through its stages in order and without a gap (its
  history names exactly the stages up to the current one), it is completed exactly when it is at the last stage, and no later operation
  changes its digest, its stages or its past. An advance moves it by one stage exactly when the pipeline is not completed and the
  artifact offered has the pinned digest; otherwise nothing changes.\<close>

theorem promotion_pinned:
  assumes s: "s = foldl promotion_step NewGitOpsPromotionStore ops" and p: "Get_promotion i s = Some p"
  shows "map sr_stage (pm_history p) = take (Suc (nat (pm_index p))) (pm_stages p) \<and> distinct (pm_stages p) \<and> isValidArtifactDigest (pm_digest p) \<and>
    (pm_status p = PromotionCompleted \<longleftrightarrow> pm_index p = int (length (pm_stages p)) - 1) \<and>
    (\<exists>q. Get_promotion i (foldl promotion_step s later) = Some q \<and> promoted p q) \<and>
    (if pm_status p = PromotionInProgress \<and> lower_trim digest = pm_digest p
     then \<exists>q. Get_promotion i (fst (Advance_promotion now i digest actor nt s)) = Some q \<and> pm_index q = pm_index p + 1
     else fst (Advance_promotion now i digest actor nt s) = s)"
proof -
  have inv: "promotion_inv s" unfolding s
    by (rule promotion_ids.run_inv) (simp add: promotion_inv_def NewGitOpsPromotionStore_def store_inv_def)
  have ok: "promotion_ok (TrimSpace i) p" using inv p by (auto simp: promotion_inv_def Get_promotion_def dest: items_okD)
  have later: "\<exists>q. Get_promotion i (foldl promotion_step s later) = Some q \<and> promoted p q"
    using promotion_run_promotes [OF inv, of "TrimSpace i" p later] p by (simp add: Get_promotion_def)
  have "pm_digest p \<noteq> []"
  proof
    assume "pm_digest p = []"
    with ok show False by (simp add: promotion_ok_def isValidArtifactDigest_def)
  qed
  moreover have "pm_index (advance_promotion now actor nt p) = pm_index p + 1" if "pm_status p \<noteq> PromotionCompleted"
    using advance_promotion_ok [OF ok that] by blast
  ultimately have "if pm_status p = PromotionInProgress \<and> lower_trim digest = pm_digest p
     then \<exists>q. Get_promotion i (fst (Advance_promotion now i digest actor nt s)) = Some q \<and> pm_index q = pm_index p + 1
     else fst (Advance_promotion now i digest actor nt s) = s"
    using p by (cases "pm_status p") (auto simp: Advance_promotion_def Get_promotion_def Let_def)
  with ok later show ?thesis by (simp add: promotion_ok_def)
qed

section \<open>Change records\<close>

datatype change_status = ChangeProposed | ChangeApproved | ChangeRejected | ChangeExecuting | ChangeCompleted | ChangeFailed

record change_approval =
  ca_actor :: string
  ca_decision :: string
  ca_comment :: string
  ca_time :: gotime

record change_record =
  ch_id :: string
  ch_summary :: string
  ch_ticket_system :: string
  ch_ticket :: string
  ch_ticket_url :: string
  ch_config :: string
  ch_requested_by :: string
  ch_status :: change_status
  ch_approvals :: "change_approval list"
  ch_job :: string
  ch_failure :: string
  ch_created :: gotime
  ch_updated :: gotime

record change_store =
  cs_next :: int
  cs_records :: "change_record gomap"

definition NewChangeRecordStore :: change_store where
  "NewChangeRecordStore = \<lparr>cs_next = 0, cs_records = []\<rparr>"

definition Create_change :: "gotime \<Rightarrow> change_record \<Rightarrow> change_store \<Rightarrow> change_store \<times> change_record result" where
  "Create_change now inp s =
     (if TrimSpace (ch_summary inp) = [] then (s, Inl ''change record summary is required'')
      else let cp = inp\<lparr>ch_id := seq_id ''cr-'' (cs_next s + 1), ch_status := ChangeProposed, ch_created := now, ch_updated := now, ch_approvals := []\<rparr>
           in (s\<lparr>cs_next := cs_next s + 1, cs_records := mput (ch_id cp) cp (cs_records s)\<rparr>, Inr cp))"

definition List_changes :: "change_store \<Rightarrow> change_record list" where
  "List_changes s = newest_first ch_created (map snd (cs_records s))"

definition Get_change :: "string \<Rightarrow> change_store \<Rightarrow> change_record result" where
  "Get_change i s = (case mget (cs_records s) (TrimSpace i) of None \<Rightarrow> Inl ''change record not found'' | Some r \<Rightarrow> Inr r)"

definition update_change :: "string \<Rightarrow> (change_record \<Rightarrow> change_record) \<Rightarrow> change_store \<Rightarrow> change_store \<times> change_record result" where
  "update_change i f s =
     (case mget (cs_records s) (TrimSpace i) of
        None \<Rightarrow> (s, Inl ''change record not found'')
      | Some r \<Rightarrow> (s\<lparr>cs_records := mput (TrimSpace i) (f r) (cs_records s)\<rparr>, Inr (f r)))"

definition recordDecision :: "gotime \<Rightarrow> string \<Rightarrow> string \<Rightarrow> string \<Rightarrow> string \<Rightarrow> change_store \<Rightarrow> change_store \<times> change_record result" where
  "recordDecision now i actor decision comment s =
     (if TrimSpace actor = [] then (s, Inl ''actor is required'')
      else update_change i (\<lambda>r. r\<lparr>ch_approvals := ch_approvals r @
             [\<lparr>ca_actor = TrimSpace actor, ca_decision = decision, ca_comment = TrimSpace comment, ca_time = now\<rparr>],
           ch_status := (if decision = ''approve'' then ChangeApproved else ChangeRejected), ch_updated := now\<rparr>) s)"

definition Approve_change :: "gotime \<Rightarrow> string \<Rightarrow> string \<Rightarrow> string \<Rightarrow> change_store \<Rightarrow> change_store \<times> change_record result" where
  "Approve_change now i actor comment s = recordDecision now i actor ''approve'' comment s"

definition Reject_change :: "gotime \<Rightarrow> string \<Rightarrow> string \<Rightarrow> string \<Rightarrow> change_store \<Rightarrow> change_store \<times> change_record result" where
  "Reject_change now i actor comment s = recordDecision now i actor ''reject'' comment s"

definition AttachJob :: "gotime \<Rightarrow> string \<Rightarrow> string \<Rightarrow> change_store \<Rightarrow> change_store \<times> change_record result" where
  "AttachJob now i jobID s =
     (if TrimSpace jobID = [] then (s, Inl ''job_id is required'')
      else update_change i (\<lambda>r. r\<lparr>ch_job := TrimSpace jobID, ch_status := ChangeExecuting, ch_updated := now\<rparr>) s)"

definition setTerminalStatus :: "gotime \<Rightarrow> string \<Rightarrow> change_status \<Rightarrow> string \<Rightarrow> change_store \<Rightarrow> change_store \<times> change_record result" where
  "setTerminalStatus now i status reason s =
     update_change i (\<lambda>r. r\<lparr>ch_status := status, ch_failure := TrimSpace reason, ch_updated := now\<rparr>) s"

definition MarkCompleted :: "gotime \<Rightarrow> string \<Rightarrow> change_store \<Rightarrow> change_store \<times> change_record result" where
  "MarkCompleted now i s = setTerminalStatus now i ChangeCompleted [] s"

definition MarkFailed :: "gotime \<Rightarrow> string \<Rightarrow> string \<Rightarrow> change_store \<Rightarrow> change_store \<times> change_record result" where
  "MarkFailed now i reason s = setTerminalStatus now i ChangeFailed reason s"

datatype change_op = HCreate gotime change_record | HApprove gotime string string string | HReject gotime string string string
  | HAttach gotime string string | HComplete gotime string | HFail gotime string string

fun change_step :: "change_store \<Rightarrow> change_op \<Rightarrow> change_store" where
  "change_step s (HCreate now inp) = fst (Create_change now inp s)"
| "change_step s (HApprove now i actor comment) = fst (Approve_change now i actor comment s)"
| "change_step s (HReject now i actor comment) = fst (Reject_change now i actor comment s)"
| "change_step s (HAttach now i jobID) = fst (AttachJob now i jobID s)"
| "change_step s (HComplete now i) = fst (MarkCompleted now i s)"
| "change_step s (HFail now i reason) = fst (MarkFailed now i reason s)"

lemmas change_defs = Create_change_def Approve_change_def Reject_change_def recordDecision_def AttachJob_def MarkCompleted_def MarkFailed_def
  setTerminalStatus_def update_change_def

text \<open>The record of decisions is complete: the last one decided the status unless a job was attached or the change ended.\<close>

definition change_ok :: "string \<Rightarrow> change_record \<Rightarrow> bool" where
  "change_ok i r \<longleftrightarrow> ch_id r = i \<and> TrimSpace (ch_summary r) \<noteq> [] \<and>
     (ch_status r = ChangeProposed \<longrightarrow> ch_approvals r = []) \<and>
     (ch_status r = ChangeApproved \<longrightarrow> ch_approvals r \<noteq> [] \<and> ca_decision (last (ch_approvals r)) = ''approve'') \<and>
     (ch_status r = ChangeRejected \<longrightarrow> ch_approvals r \<noteq> [] \<and> ca_decision (last (ch_approvals r)) = ''reject'') \<and>
     (ch_status r = ChangeExecuting \<longrightarrow> ch_job r \<noteq> [])"

definition change_inv :: "change_store \<Rightarrow> bool" where
  "change_inv s \<longleftrightarrow> store_inv cs_records cs_next ''cr-'' s \<and> items_ok change_ok (cs_records s)"

lemma change_keys: "keys_step ''cr-'' (cs_next s) (cs_records s) (cs_next (change_step s op)) (cs_records (change_step s op))"
  by (cases op) (simp_all add: change_defs Let_def keys_step_update_some split: option.split)

lemma update_change_ok:
  assumes "items_ok change_ok (cs_records s)" "\<And>k r. change_ok k r \<Longrightarrow> change_ok k (f r)"
  shows "items_ok change_ok (cs_records (fst (update_change i f s)))"
  using assms by (auto simp: update_change_def split: option.split intro!: items_intros dest: items_okD)

lemma change_items:
  assumes "items_ok change_ok (cs_records s)"
  shows "items_ok change_ok (cs_records (change_step s op))"
proof (cases op)
  case (HCreate now inp)
  show ?thesis using assms by (auto simp: HCreate Create_change_def Let_def change_ok_def intro!: items_intros)
qed (use assms in \<open>auto simp: change_defs(2-8) simp flip: update_change_def intro!: update_change_ok simp: change_ok_def\<close>)

lemma change_step_inv: "change_inv s \<Longrightarrow> change_inv (change_step s op)"
  unfolding change_inv_def
  by (metis change_items store_inv_step [where items = cs_records and counter = cs_next, OF _ change_keys])

interpretation change_ids: counter_store change_step change_inv cs_records cs_next "''cr-''"
  by unfold_locales (simp_all add: change_step_inv change_keys, simp add: change_inv_def)

text \<open>the status of a change record agrees with its decisions (approved or rejected by the last of them), but nothing asks for it: in every
  reachable store any record, also one that was rejected or never approved, goes into execution when a job is attached to
  it, and completes.\<close>

theorem change_executes_without_approval:
  assumes "s = foldl change_step NewChangeRecordStore ops" "Get_change i s = Inr r" "TrimSpace job \<noteq> []"
  shows "(ch_status r = ChangeRejected \<longrightarrow> ca_decision (last (ch_approvals r)) = ''reject'') \<and>
    (\<exists>r'. snd (AttachJob now i job s) = Inr r' \<and> ch_status r' = ChangeExecuting \<and> ch_approvals r' = ch_approvals r) \<and>
    (\<exists>r'. snd (MarkCompleted now i (fst (AttachJob now i job s))) = Inr r' \<and> ch_status r' = ChangeCompleted \<and> ch_approvals r' = ch_approvals r)"
proof -
  have "change_inv s" unfolding assms(1)
    by (rule change_ids.run_inv) (simp add: change_inv_def NewChangeRecordStore_def store_inv_def)
  moreover have r: "mget (cs_records s) (TrimSpace i) = Some r" using assms(2) by (simp add: Get_change_def split: option.splits)
  ultimately have "change_ok (TrimSpace i) r" by (auto simp: change_inv_def dest: items_okD)
  then show ?thesis using r assms(3) by (simp add: change_defs change_ok_def)
qed

section \<open>Examples\<close>

definition demo_hosts :: "reboot_host list" where
  "demo_hosts = map (\<lambda>(i, r, d). \<lparr>rh_id = i, rh_role = r, rh_domain = d, rh_healthy = True\<rparr>)
     [(''w1'', ''web'', ''b''), (''d1'', ''DB'', ''a''), (''w2'', ''web'', ''a''), (''x'', [], [])]"

theorem reboot_plan_exact_witness:
  "let s = foldl reboot_step NewRebootOrchestrationStore [RUpsert 1 \<lparr>rq_environment = ''prod'', rq_max = 2, rq_min_healthy = 0, rq_order = [''db'', ''web'']\<rparr>];
       p = Plan_reboot \<lparr>rn_environment = ''Prod'', rn_hosts = demo_hosts\<rparr> s
   in rl_allowed p \<and> map rw_hosts (rl_waves p) = [[''d1''], [''w2'', ''w1''], [''x'']] \<and> map rw_index (rl_waves p) = [1, 2, 3]"
proof -
  define ops where "ops = [RUpsert 1 \<lparr>rq_environment = ''prod'', rq_max = 2, rq_min_healthy = 0, rq_order = [''db'', ''web'']\<rparr>]"
  define inp where "inp = \<lparr>rn_environment = ''Prod'', rn_hosts = demo_hosts\<rparr>"
  define s where "s = foldl reboot_step NewRebootOrchestrationStore ops"
  have "lower_trim (rn_environment inp) = ''prod''" unfolding inp_def by code_simp
  moreover have "rn_hosts inp \<noteq> []" unfolding inp_def by code_simp
  moreover have "rp_min_healthy (policy_for ''prod'' s) \<le> healthy_percent (rn_hosts inp)" unfolding inp_def s_def ops_def by code_simp
  ultimately have allowed: "rl_allowed (Plan_reboot inp s)"
    and idx: "map rw_index (rl_waves (Plan_reboot inp s)) = map int [1..<Suc (length (rl_waves (Plan_reboot inp s)))]"
    using reboot_plan_exact [OF s_def, of "''prod''" inp "policy_for ''prod'' s" "rl_waves (Plan_reboot inp s)"] by auto
  have w: "map rw_hosts (rl_waves (Plan_reboot inp s)) = [[''d1''], [''w2'', ''w1''], [''x'']]" unfolding inp_def s_def ops_def by code_simp
  have "length (rl_waves (Plan_reboot inp s)) = 3" using arg_cong [OF w, of length] by simp
  then have "map rw_index (rl_waves (Plan_reboot inp s)) = [1, 2, 3]" unfolding idx by (simp add: upt_rec)
  with allowed w show ?thesis unfolding Let_def inp_def s_def ops_def by blast
qed

theorem upgrade_completes_witness:
  "let s = foldl upgrade_step NewUpgradeOrchestrationStore
         [UCreate 1 \<lparr>ui_component = ''agent'', ui_from = ''stable'', ui_to = ''edge'', ui_strategy = [], ui_total = 5, ui_wave_size = 2, ui_max_unavailable = 1\<rparr>,
          UAdvance 2 ''upgrade-plan-1'' True, UAdvance 3 ''upgrade-plan-1'' False]
   in map_option up_status (GetPlan ''upgrade-plan-1'' s) = Some UpBlocked \<and>
      map_option up_status (GetPlan ''upgrade-plan-1'' (foldl upgrade_step s (map (\<lambda>t. UAdvance t ''upgrade-plan-1'' True) [4, 5]))) = Some UpCompleted"
proof -
  define ops where "ops = [UCreate 1 \<lparr>ui_component = ''agent'', ui_from = ''stable'', ui_to = ''edge'', ui_strategy = [], ui_total = 5, ui_wave_size = 2, ui_max_unavailable = 1\<rparr>,
          UAdvance 2 ''upgrade-plan-1'' True, UAdvance 3 ''upgrade-plan-1'' False]"
  define s where "s = foldl upgrade_step NewUpgradeOrchestrationStore ops"
  have c: "map_option (\<lambda>p. (up_status p, up_total p, up_wave p, up_wave_size p)) (GetPlan ''upgrade-plan-1'' s) = Some (UpBlocked, 5, 1, 2)"
    unfolding s_def ops_def by code_simp
  then obtain p where p: "GetPlan ''upgrade-plan-1'' s = Some p" "up_status p = UpBlocked" "up_total p = 5" "up_wave p = 1" "up_wave_size p = 2" by auto
  from upgrade_completes [OF s_def p(1), of "[4, 5]"] p show ?thesis unfolding s_def ops_def by (auto simp: Let_def)
qed

definition demo_digest :: string where
  "demo_digest = ''sha256:'' @ replicate 64 CHR ''a''"

theorem promotion_pinned_witness:
  "let s = foldl promotion_step NewGitOpsPromotionStore [PCreate 1 \<lparr>pi_name = ''web'', pi_stages = [], pi_digest = demo_digest, pi_actor = ''ci''\<rparr>];
       d = (\<lambda>digest. fst (Advance_promotion 2 ''promotion-1'' digest ''ci'' [] s))
   in map_option pm_index (Get_promotion ''promotion-1'' (d demo_digest)) = Some 1 \<and> d ''sha256:b'' = s"
proof -
  define ops where "ops = [PCreate 1 \<lparr>pi_name = ''web'', pi_stages = [], pi_digest = demo_digest, pi_actor = ''ci''\<rparr>]"
  define s where "s = foldl promotion_step NewGitOpsPromotionStore ops"
  have "map_option (\<lambda>p. (pm_status p, pm_index p, pm_digest p)) (Get_promotion ''promotion-1'' s) = Some (PromotionInProgress, 0, demo_digest)"
    unfolding s_def ops_def by code_simp
  then obtain p where p: "Get_promotion ''promotion-1'' s = Some p" "pm_status p = PromotionInProgress" "pm_index p = 0" "pm_digest p = demo_digest" by auto
  have "lower_trim demo_digest = demo_digest" "lower_trim ''sha256:b'' \<noteq> demo_digest" by code_simp+
  then show ?thesis
    using promotion_pinned [OF s_def p(1), of _ demo_digest 2 "''ci''" "[]"] promotion_pinned [OF s_def p(1), of _ "''sha256:b''" 2 "''ci''" "[]"] p
    unfolding s_def ops_def by (auto simp: Let_def)
qed

definition demo_change :: change_record where
  "demo_change = \<lparr>ch_id = [], ch_summary = ''open port'', ch_ticket_system = [], ch_ticket = [], ch_ticket_url = [], ch_config = [], ch_requested_by = [],
     ch_status = ChangeProposed, ch_approvals = [], ch_job = [], ch_failure = [], ch_created = 0, ch_updated = 0\<rparr>"

theorem change_executes_without_approval_witness:
  "\<exists>r. snd (AttachJob 3 ''cr-1'' ''job-1'' (foldl change_step NewChangeRecordStore [HCreate 1 demo_change, HReject 2 ''cr-1'' ''ann'' ''no''])) = Inr r \<and>
     ch_status r = ChangeExecuting"
proof -
  define s where "s = foldl change_step NewChangeRecordStore [HCreate 1 demo_change, HReject 2 ''cr-1'' ''ann'' ''no'']"
  have "is_ok (Get_change ''cr-1'' s)" unfolding s_def by code_simp
  then obtain r where r: "Get_change ''cr-1'' s = Inr r" unfolding is_ok_iff by blast
  have "TrimSpace ''job-1'' \<noteq> []" by code_simp
  from change_executes_without_approval [OF s_def r this, of 3] show ?thesis unfolding s_def by blast
qed

end
