(* ===== verification/Fleet.thy ===== *)
theory Fleet
  imports ControlUtil Queue Templates "HOL-Library.Word"
begin

unbundle bit_operations_syntax

text \<open>
  The inventory of the fleet: the life cycle of nodes (internal/control/node_lifecycle.go), the check-ins of agents
  with their hash-derived splay (agent_checkin.go), how runs are dispatched to agents (agent_dispatch.go), the
  release channels with the protocol window (channels.go) and the record of canary upgrades (canary_upgrade.go).
  \<open>time.Now\<close> is an argument. The FNV-1a hash is computed on 32-bit words.
\<close>

section \<open>Nodes\<close>

record status_change =
  sg_status :: string
  sg_reason :: string
  sg_time :: gotime

record managed_node =
  mn_name :: string
  mn_address :: string
  mn_transport :: string
  mn_labels :: "string gomap"
  mn_roles :: "string list"
  mn_topology :: "string gomap"
  mn_source :: string
  mn_status :: string
  mn_enrolled :: gotime
  mn_updated :: gotime
  mn_seen :: gotime
  mn_history :: "status_change list"

record enroll_input =
  en_name :: string
  en_address :: string
  en_transport :: string
  en_labels :: "string gomap"
  en_roles :: "string list"
  en_topology :: "string gomap"
  en_source :: string

type_synonym node_store = "managed_node gomap"

definition NewNodeLifecycleStore :: node_store where
  "NewNodeLifecycleStore = []"

definition node_statuses :: "string list" where
  "node_statuses = [''bootstrap'', ''active'', ''quarantined'', ''decommissioned'']"

definition normalizeStringMap :: "string gomap \<Rightarrow> string gomap" where
  "normalizeStringMap m = fold (\<lambda>(k, v) out. if lower_trim k = [] then out else mput (lower_trim k) (TrimSpace v) out) m []"

definition update_enrolled :: "gotime \<Rightarrow> enroll_input \<Rightarrow> managed_node \<Rightarrow> managed_node" where
  "update_enrolled now inp n =
     n\<lparr>mn_address := TrimSpace (en_address inp), mn_transport := lower_trim (en_transport inp), mn_labels := normalizeStringMap (en_labels inp),
       mn_roles := normalizeStringSlice (en_roles inp), mn_topology := normalizeStringMap (en_topology inp),
       mn_source := (if TrimSpace (en_source inp) = [] then ''api'' else TrimSpace (en_source inp)), mn_updated := now\<rparr>"

definition new_node :: "gotime \<Rightarrow> enroll_input \<Rightarrow> managed_node" where
  "new_node now inp =
     \<lparr>mn_name = TrimSpace (en_name inp), mn_address = TrimSpace (en_address inp), mn_transport = lower_trim (en_transport inp),
      mn_labels = normalizeStringMap (en_labels inp), mn_roles = normalizeStringSlice (en_roles inp),
      mn_topology = normalizeStringMap (en_topology inp),
      mn_source = (if TrimSpace (en_source inp) = [] then ''api'' else TrimSpace (en_source inp)), mn_status = ''bootstrap'',
      mn_enrolled = now, mn_updated = now, mn_seen = 0,
      mn_history = [\<lparr>sg_status = ''bootstrap'', sg_reason = ''auto-enrolled'', sg_time = now\<rparr>]\<rparr>"

definition Enroll :: "gotime \<Rightarrow> enroll_input \<Rightarrow> node_store \<Rightarrow> node_store \<times> (managed_node \<times> bool) result" where
  "Enroll now inp s =
     (let name = TrimSpace (en_name inp)
      in if name = [] then (s, Inl ''node name is required'')
         else case mget s name of
           None \<Rightarrow> (mput name (new_node now inp) s, Inr (new_node now inp, True))
         | Some current \<Rightarrow> (mput name (update_enrolled now inp current) s, Inr (update_enrolled now inp current, False)))"

definition List_nodes :: "string \<Rightarrow> node_store \<Rightarrow> managed_node list" where
  "List_nodes status s = sort_key mn_name (filter (\<lambda>n. lower_trim status = [] \<or> mn_status n = lower_trim status) (map snd s))"

definition Get_node :: "string \<Rightarrow> node_store \<Rightarrow> managed_node option" where
  "Get_node name s = mget s (TrimSpace name)"

definition SetStatus :: "gotime \<Rightarrow> string \<Rightarrow> string \<Rightarrow> string \<Rightarrow> node_store \<Rightarrow> node_store \<times> managed_node result" where
  "SetStatus now name status reason s =
     (let name = TrimSpace name; status = lower_trim status
      in if name = [] then (s, Inl ''node name is required'')
         else if status \<notin> set node_statuses then (s, Inl (''unsupported node status: '' @ status))
         else case mget s name of
           None \<Rightarrow> (s, Inl ''node not found'')
         | Some n \<Rightarrow>
             let n = n\<lparr>mn_status := status, mn_updated := now,
                   mn_history := mn_history n @ [\<lparr>sg_status = status, sg_reason = TrimSpace reason, sg_time = now\<rparr>]\<rparr>
             in (mput name n s, Inr n))"

definition Heartbeat_node :: "gotime \<Rightarrow> string \<Rightarrow> node_store \<Rightarrow> node_store \<times> managed_node result" where
  "Heartbeat_node now name s =
     (let name = TrimSpace name
      in if name = [] then (s, Inl ''node name is required'')
         else case mget s name of
           None \<Rightarrow> (s, Inl ''node not found'')
         | Some n \<Rightarrow> let n = n\<lparr>mn_seen := now, mn_updated := now\<rparr> in (mput name n s, Inr n))"

datatype node_op = NEnroll gotime enroll_input | NSetStatus gotime string string string | NHeartbeat gotime string

fun node_step :: "node_store \<Rightarrow> node_op \<Rightarrow> node_store" where
  "node_step s (NEnroll now inp) = fst (Enroll now inp s)"
| "node_step s (NSetStatus now name status reason) = fst (SetStatus now name status reason s)"
| "node_step s (NHeartbeat now name) = fst (Heartbeat_node now name s)"

definition node_ok :: "string \<Rightarrow> managed_node \<Rightarrow> bool" where
  "node_ok name n \<longleftrightarrow> mn_name n = name \<and> name \<noteq> [] \<and> mn_history n \<noteq> [] \<and> sg_status (hd (mn_history n)) = ''bootstrap'' \<and>
     mn_status n = sg_status (last (mn_history n)) \<and> set (map sg_status (mn_history n)) \<subseteq> set node_statuses"

definition node_inv :: "node_store \<Rightarrow> bool" where
  "node_inv s \<longleftrightarrow> wf_map s \<and> items_ok node_ok s"

lemma node_step_inv: "node_inv s \<Longrightarrow> node_inv (node_step s op)"
proof (cases op)
  case (NEnroll now inp)
  assume "node_inv s"
  moreover have "node_ok name (update_enrolled now inp n) = node_ok name n" for name n by (simp add: node_ok_def update_enrolled_def)
  moreover have "node_ok (TrimSpace (en_name inp)) (new_node now inp)" if "TrimSpace (en_name inp) \<noteq> []"
    using that by (simp add: node_ok_def new_node_def node_statuses_def)
  ultimately show ?thesis by (auto simp: NEnroll Enroll_def Let_def node_inv_def split: option.split intro!: items_intros dest: items_okD)
next
  case (NSetStatus now name status reason)
  assume inv: "node_inv s"
  have "node_ok k (n\<lparr>mn_status := st, mn_updated := now, mn_history := mn_history n @ [\<lparr>sg_status = st, sg_reason = r, sg_time = now\<rparr>]\<rparr>)"
    if "node_ok k n" "st \<in> set node_statuses" for k n st r using that by (auto simp: node_ok_def)
  with inv show ?thesis by (auto simp: NSetStatus SetStatus_def Let_def node_inv_def split: option.split intro!: items_intros dest: items_okD)
next
  case (NHeartbeat now name)
  assume inv: "node_inv s"
  have "node_ok k (n\<lparr>mn_seen := now, mn_updated := now\<rparr>) = node_ok k n" for k n by (simp add: node_ok_def)
  with inv show ?thesis by (auto simp: NHeartbeat Heartbeat_node_def Let_def node_inv_def split: option.split intro!: items_intros dest: items_okD)
qed

interpretation nodes: stepper node_step node_inv
  by unfold_locales (rule node_step_inv)

text \<open>The status changes that a run of operations asks for a node.\<close>

fun asked_status :: "string \<Rightarrow> node_op \<Rightarrow> string list" where
  "asked_status k (NSetStatus now name status reason) = (if TrimSpace name = k \<and> lower_trim status \<in> set node_statuses then [lower_trim status] else [])"
| "asked_status k _ = []"

lemma node_step_history:
  assumes "mget s k = Some n" "k \<noteq> []"
  shows "\<exists>n'. mget (node_step s op) k = Some n' \<and> map sg_status (mn_history n') = map sg_status (mn_history n) @ asked_status k op \<and>
    mn_enrolled n' = mn_enrolled n"
  using assms by (cases op) (auto simp: Enroll_def SetStatus_def Heartbeat_node_def update_enrolled_def Let_def split: option.split)

lemma node_run_history:
  "mget s k = Some n \<Longrightarrow> k \<noteq> [] \<Longrightarrow> \<exists>n'. mget (foldl node_step s ops) k = Some n' \<and>
     map sg_status (mn_history n') = map sg_status (mn_history n) @ concat (map (asked_status k) ops) \<and> mn_enrolled n' = mn_enrolled n"
proof (induction ops arbitrary: s n)
  case (Cons op ops)
  obtain n' where n': "mget (node_step s op) k = Some n'" "map sg_status (mn_history n') = map sg_status (mn_history n) @ asked_status k op" "mn_enrolled n' = mn_enrolled n"
    using node_step_history [OF Cons.prems] by blast
  from Cons.IH [OF n'(1) Cons.prems(2)] n'(2,3) show ?case by auto
qed simp

text \<open>once enrolled, a node is never forgotten, and its history is exactly its enrolment followed by the accepted status changes, in
  order; the status is the last of them and one of the four known ones. Enrolling it again and heartbeats change neither, so a node
  that was decommissioned stays so until somebody sets another status.\<close>

theorem node_history_exact:
  assumes "s = foldl node_step NewNodeLifecycleStore ops" "Get_node name s = Some n"
  shows "\<exists>n'. Get_node name (foldl node_step s later) = Some n' \<and> mn_enrolled n' = mn_enrolled n \<and>
    map sg_status (mn_history n') = map sg_status (mn_history n) @ concat (map (asked_status (TrimSpace name)) later) \<and>
    mn_status n' = last (map sg_status (mn_history n) @ concat (map (asked_status (TrimSpace name)) later)) \<and>
    hd (map sg_status (mn_history n')) = ''bootstrap'' \<and> mn_status n' \<in> set node_statuses"
proof -
  have inv: "node_inv s" unfolding assms(1) by (rule nodes.run_inv) (simp add: node_inv_def NewNodeLifecycleStore_def)
  have n: "mget s (TrimSpace name) = Some n" using assms(2) by (simp add: Get_node_def)
  then have "TrimSpace name \<noteq> []" using inv by (auto simp: node_inv_def node_ok_def dest: items_okD)
  from node_run_history [OF n this, of later] obtain n' where n': "mget (foldl node_step s later) (TrimSpace name) = Some n'"
    "map sg_status (mn_history n') = map sg_status (mn_history n) @ concat (map (asked_status (TrimSpace name)) later)" "mn_enrolled n' = mn_enrolled n" by blast
  have "node_inv (foldl node_step s later)" by (rule nodes.run_inv [OF inv])
  then have ok: "node_ok (TrimSpace name) n'" using n'(1) by (auto simp: node_inv_def dest: items_okD)
  then have "mn_status n' = last (map sg_status (mn_history n'))" "hd (map sg_status (mn_history n')) = ''bootstrap''"
    by (simp_all add: node_ok_def last_map hd_map)
  moreover have "mn_status n' \<in> set (map sg_status (mn_history n'))" using ok by (simp add: node_ok_def)
  moreover have "set (map sg_status (mn_history n')) \<subseteq> set node_statuses" using ok by (simp add: node_ok_def)
  ultimately show ?thesis using n' by (intro exI [of _ n']) (auto simp: Get_node_def)
qed

section \<open>Check-ins\<close>

record checkin =
  ck_agent :: string
  ck_interval :: int
  ck_max_splay :: int
  ck_splay :: int
  ck_last :: gotime
  ck_next :: gotime

record checkin_input =
  ci_agent :: string
  ci_interval :: int
  ci_max_splay :: int

type_synonym checkin_store = "checkin gomap"

definition NewAgentCheckinStore :: checkin_store where
  "NewAgentCheckinStore = []"

text \<open>\<^verbatim>\<open>fnv.New32a\<close>: the offset basis, then for every byte an exclusive or and a multiplication by the prime.\<close>

definition fnv32a :: "string \<Rightarrow> 32 word" where
  "fnv32a bytes = foldl (\<lambda>h c. (h XOR of_nat (of_char c)) * 16777619) 2166136261 bytes"

definition deterministicSplay :: "string \<Rightarrow> int \<Rightarrow> int" where
  "deterministicSplay agentID maxSplay =
     (if maxSplay \<le> 0 then 0 else uint (fnv32a (lower_trim agentID) mod word_of_int (maxSplay + 1)))"

definition Checkin :: "gotime \<Rightarrow> checkin_input \<Rightarrow> checkin_store \<Rightarrow> checkin_store \<times> checkin result" where
  "Checkin now inp s =
     (let agentID = TrimSpace (ci_agent inp)
      in if agentID = [] then (s, Inl ''agent_id is required'')
         else let interval = (if ci_interval inp \<le> 0 then 300 else ci_interval inp);
                  maxSplay = (if ci_max_splay inp < 0 then 0 else ci_max_splay inp);
                  maxSplay = (if maxSplay > 3600 then 3600 else maxSplay);
                  splay = deterministicSplay agentID maxSplay;
                  item = \<lparr>ck_agent = agentID, ck_interval = interval, ck_max_splay = maxSplay, ck_splay = splay,
                    ck_last = now, ck_next = now + seconds (wrap64 (interval + splay))\<rparr>
              in (mput agentID item s, Inr item))"

definition List_checkins :: "checkin_store \<Rightarrow> checkin list" where
  "List_checkins s = sort_key ck_agent (map snd s)"

datatype checkin_op = KCheckin gotime checkin_input

fun checkin_step :: "checkin_store \<Rightarrow> checkin_op \<Rightarrow> checkin_store" where
  "checkin_step s (KCheckin now inp) = fst (Checkin now inp s)"

fun checkin_effect :: "checkin_op \<Rightarrow> (string \<times> checkin option) option" where
  "checkin_effect (KCheckin now inp) =
     (case snd (Checkin now inp []) of Inl _ \<Rightarrow> None | Inr item \<Rightarrow> Some (TrimSpace (ci_agent inp), Some item))"

interpretation checkins: last_writer checkin_step mget checkin_effect
proof
  fix s op k
  show "mget (checkin_step s op) k = (case checkin_effect op of Some (k', w) \<Rightarrow> if k' = k then w else mget s k | None \<Rightarrow> mget s k)"
    by (cases op) (auto simp: Checkin_def Let_def)
qed

lemma deterministicSplay_range:
  assumes "m \<le> 3600"
  shows "0 \<le> deterministicSplay a m \<and> deterministicSplay a m \<le> max 0 m"
proof (cases "m \<le> 0")
  case False
  then have "uint (word_of_int (m + 1) :: 32 word) = m + 1"
    using assms by (simp add: uint_word_of_int take_bit_int_eq_self del: of_int_add)
  then have "deterministicSplay a m = uint (fnv32a (lower_trim a)) mod (m + 1)" using False by (simp add: deterministicSplay_def uint_mod)
  moreover have "uint (fnv32a (lower_trim a)) mod (m + 1) < m + 1" "0 \<le> uint (fnv32a (lower_trim a)) mod (m + 1)"
    using False pos_mod_bound [of "m + 1" "uint (fnv32a (lower_trim a))"] pos_mod_sign [of "m + 1" "uint (fnv32a (lower_trim a))"] by linarith+
  ultimately show ?thesis by simp
qed (simp add: deterministicSplay_def)

lemma deterministicSplay_case: "lower_trim a = lower_trim b \<Longrightarrow> deterministicSplay a m = deterministicSplay b m"
  by (simp add: deterministicSplay_def)

text \<open>after any sequence of check-ins, the next one expected of an agent lies between the end of its interval and the end plus the splay
  it allows (at most an hour); the splay depends only on the name of the agent, whatever its case, and on that bound. The record
  is the one of the agent's last check-in.\<close>

theorem checkin_window:
  assumes "s = foldl checkin_step NewAgentCheckinStore ops" "mget s agent = Some c" "ck_interval c \<le> 9223368436"
  shows "ck_last c + ck_interval c * 1000000000 \<le> ck_next c \<and>
    ck_next c \<le> ck_last c + (ck_interval c + ck_max_splay c) * 1000000000 \<and> ck_max_splay c \<le> 3600 \<and> 0 < ck_interval c \<and>
    (lower_trim agent' = lower_trim agent \<longrightarrow> ck_splay c = deterministicSplay agent' (ck_max_splay c)) \<and>
    (\<exists>now inp. last (filter (checkins.writes agent) ops) = KCheckin now inp \<and> ck_last c = now)"
proof -
  have c: "mget s agent = (case filter (checkins.writes agent) ops of [] \<Rightarrow> None | ws \<Rightarrow> snd (the (checkin_effect (last ws))))"
    unfolding assms(1) checkins.look_last by (simp add: NewAgentCheckinStore_def split: list.split)
  obtain op ws where ws: "filter (checkins.writes agent) ops = op # ws" using c assms(2) by (cases "filter (checkins.writes agent) ops") auto
  obtain now inp where l: "last (op # ws) = KCheckin now inp" by (cases "last (op # ws)")
  have "last (op # ws) \<in> set (filter (checkins.writes agent) ops)" unfolding ws by simp
  then have "checkins.writes agent (KCheckin now inp)" unfolding l by simp
  then obtain w where w: "checkin_effect (KCheckin now inp) = Some (agent, w)" unfolding checkins.writes_def by blast
  then have e: "snd (Checkin now inp []) = Inr c" "TrimSpace (ci_agent inp) = agent"
    using c assms(2) l unfolding ws by (auto split: sum.splits)
  then have d: "ck_last c = now" "0 < ck_interval c" "0 \<le> ck_max_splay c" "ck_max_splay c \<le> 3600"
      "ck_splay c = deterministicSplay agent (ck_max_splay c)" "ck_next c = now + seconds (wrap64 (ck_interval c + ck_splay c))"
    by (auto simp: Checkin_def Let_def split: if_splits)
  have r: "0 \<le> ck_splay c" "ck_splay c \<le> ck_max_splay c" using deterministicSplay_range [OF d(4), of agent] d(3,5) by auto
  have "wrap64 (ck_interval c + ck_splay c) = ck_interval c + ck_splay c" using r d assms(3) by (intro wrap64_id) auto
  then have "ck_next c = now + (ck_interval c + ck_splay c) * 1000000000"
    using d r assms(3) seconds_small [of "ck_interval c + ck_splay c"] by simp
  then show ?thesis using d r l deterministicSplay_case [of agent' agent] unfolding ws by auto
qed

section \<open>Dispatch\<close>

record dispatch_request =
  dq_config :: string
  dq_environment :: string
  dq_priority :: string
  dq_force :: bool

record environment_mode =
  em_environment :: string
  em_strategy :: string
  em_updated :: gotime

record dispatch_record =
  dp_id :: string
  dp_mode :: string
  dp_strategy :: string
  dp_environment :: string
  dp_config :: string
  dp_priority :: string
  dp_force :: bool
  dp_status :: string
  dp_job :: string
  dp_created :: gotime

record dispatch_store =
  dt_mode :: string
  dt_next :: int
  dt_modes :: "environment_mode gomap"
  dt_records :: "dispatch_record list"

definition NewAgentDispatchStore :: dispatch_store where
  "NewAgentDispatchStore = \<lparr>dt_mode = ''local'', dt_next = 0, dt_modes = [], dt_records = []\<rparr>"

definition SetMode :: "string \<Rightarrow> dispatch_store \<Rightarrow> dispatch_store \<times> string result" where
  "SetMode mode s =
     (let mode = lower_trim mode
      in if mode \<noteq> ''local'' \<and> mode \<noteq> ''event_bus'' then (s, Inl ''mode must be local or event_bus'')
         else (s\<lparr>dt_mode := mode\<rparr>, Inr mode))"

definition normalizeDispatchStrategy :: "string \<Rightarrow> string result" where
  "normalizeDispatchStrategy strategy =
     (let strategy = lower_trim strategy
      in if strategy \<in> {''push'', ''pull'', ''hybrid''} then Inr strategy else Inl ''strategy must be push, pull, or hybrid'')"

definition SetEnvironmentStrategy :: "gotime \<Rightarrow> string \<Rightarrow> string \<Rightarrow> dispatch_store \<Rightarrow> dispatch_store \<times> environment_mode result" where
  "SetEnvironmentStrategy now environment strategy s =
     (let environment = TrimSpace environment
      in if environment = [] then (s, Inl ''environment is required'')
         else case normalizeDispatchStrategy strategy of
           Inl e \<Rightarrow> (s, Inl e)
         | Inr strategy \<Rightarrow>
             let item = \<lparr>em_environment = environment, em_strategy = strategy, em_updated = now\<rparr>
             in (s\<lparr>dt_modes := mput environment item (dt_modes s)\<rparr>, Inr item))"

definition GetEnvironmentStrategy :: "string \<Rightarrow> dispatch_store \<Rightarrow> environment_mode option" where
  "GetEnvironmentStrategy environment s = mget (dt_modes s) (TrimSpace environment)"

definition EffectiveStrategy :: "string \<Rightarrow> dispatch_store \<Rightarrow> environment_mode" where
  "EffectiveStrategy environment s =
     (let environment = (if TrimSpace environment = [] then ''default'' else TrimSpace environment)
      in mget_or \<lparr>em_environment = environment, em_strategy = ''hybrid'', em_updated = 0\<rparr> (dt_modes s) environment)"

definition ListEnvironmentStrategies :: "dispatch_store \<Rightarrow> environment_mode list" where
  "ListEnvironmentStrategies s = sort_key em_environment (map snd (dt_modes s))"

definition Record_dispatch :: "gotime \<Rightarrow> string \<Rightarrow> string \<Rightarrow> dispatch_request \<Rightarrow> string \<Rightarrow> string \<Rightarrow> dispatch_store \<Rightarrow> dispatch_store \<times> dispatch_record" where
  "Record_dispatch now mode strategy req status jobID s =
     (let strategy = (case normalizeDispatchStrategy strategy of Inl _ \<Rightarrow> ''hybrid'' | Inr x \<Rightarrow> x);
          item = \<lparr>dp_id = seq_id ''dispatch-'' (dt_next s + 1), dp_mode = lower_trim mode, dp_strategy = strategy,
            dp_environment = TrimSpace (dq_environment req), dp_config = TrimSpace (dq_config req),
            dp_priority = normalizePriority (dq_priority req), dp_force = dq_force req, dp_status = TrimSpace status,
            dp_job = TrimSpace jobID, dp_created = now\<rparr>
      in (s\<lparr>dt_next := dt_next s + 1, dt_records := push_capped 2000 item (dt_records s)\<rparr>, item))"

definition limited :: "int \<Rightarrow> 'a list \<Rightarrow> 'a list" where
  "limited limit xs = (if limit > 0 \<and> int (length xs) > limit then take (nat limit) xs else xs)"

definition List_dispatches :: "int \<Rightarrow> dispatch_store \<Rightarrow> dispatch_record list" where
  "List_dispatches limit s = limited limit (newest_first dp_created (dt_records s))"

datatype dispatch_op = DSetMode string | DSetStrategy gotime string string | DRecord gotime string string dispatch_request string string

fun dispatch_step :: "dispatch_store \<Rightarrow> dispatch_op \<Rightarrow> dispatch_store" where
  "dispatch_step s (DSetMode mode) = fst (SetMode mode s)"
| "dispatch_step s (DSetStrategy now environment strategy) = fst (SetEnvironmentStrategy now environment strategy s)"
| "dispatch_step s (DRecord now mode strategy req status jobID) = fst (Record_dispatch now mode strategy req status jobID s)"

fun strategy_effect :: "dispatch_op \<Rightarrow> (string \<times> environment_mode option) option" where
  "strategy_effect (DSetStrategy now environment strategy) =
     (case snd (SetEnvironmentStrategy now environment strategy NewAgentDispatchStore) of
        Inl _ \<Rightarrow> None | Inr item \<Rightarrow> Some (TrimSpace environment, Some item))"
| "strategy_effect _ = None"

interpretation strategies: last_writer dispatch_step "\<lambda>s. mget (dt_modes s)" strategy_effect
proof
  fix s op k
  show "mget (dt_modes (dispatch_step s op)) k = (case strategy_effect op of Some (k', w) \<Rightarrow> if k' = k then w else mget (dt_modes s) k | None \<Rightarrow> mget (dt_modes s) k)"
    by (cases op) (auto simp: SetMode_def SetEnvironmentStrategy_def Record_dispatch_def Let_def split: sum.split)
qed

text \<open>The records that a run of operations makes, in order.\<close>

fun recorded :: "dispatch_store \<Rightarrow> dispatch_op list \<Rightarrow> dispatch_record list" where
  "recorded s [] = []"
| "recorded s (op # ops) =
     (case op of DRecord now mode strategy req status jobID \<Rightarrow> [snd (Record_dispatch now mode strategy req status jobID s)] | _ \<Rightarrow> [])
     @ recorded (dispatch_step s op) ops"

lemma dispatch_records_run:
  assumes "dt_records s = drop (length log - 2000) log"
  shows "dt_records (foldl dispatch_step s ops) = drop (length (log @ recorded s ops) - 2000) (log @ recorded s ops)"
  using assms
proof (induction ops arbitrary: s log)
  case (Cons op ops)
  show ?case
  proof (cases op)
    case (DRecord now mode strategy req status jobID)
    let ?r = "snd (Record_dispatch now mode strategy req status jobID s)"
    have "dt_records (dispatch_step s op) = drop (length (log @ [?r]) - 2000) (log @ [?r])"
      using push_capped_lasts [OF Cons.prems, of ?r] by (simp add: DRecord Record_dispatch_def Let_def)
    from Cons.IH [OF this] show ?thesis by (simp add: DRecord)
  next
    case (DSetMode mode)
    have "dt_records (dispatch_step s op) = dt_records s" by (simp add: DSetMode SetMode_def Let_def)
    with Cons show ?thesis by (simp add: DSetMode)
  next
    case (DSetStrategy now environment strategy)
    have "dt_records (dispatch_step s op) = dt_records s" by (simp add: DSetStrategy SetEnvironmentStrategy_def Let_def split: sum.split)
    with Cons show ?thesis by (simp add: DSetStrategy)
  qed
qed simp

lemma recorded_ids:
  "map dp_id (recorded s ops) = map (\<lambda>i. seq_id ''dispatch-'' (dt_next s + 1 + int i)) [0..<length (recorded s ops)]"
proof (induction ops arbitrary: s)
  case (Cons op ops)
  show ?case
  proof (cases op)
    case (DRecord now mode strategy req status jobID)
    have "dt_next (dispatch_step s op) = dt_next s + 1" "dp_id (snd (Record_dispatch now mode strategy req status jobID s)) = seq_id ''dispatch-'' (dt_next s + 1)"
      by (simp_all add: DRecord Record_dispatch_def Let_def)
    then show ?thesis using Cons.IH [of "dispatch_step s op"] by (simp add: DRecord map_upt_Suc ac_simps del: upt_Suc)
  next
    case (DSetMode mode)
    have "dt_next (dispatch_step s op) = dt_next s" by (simp add: DSetMode SetMode_def Let_def)
    with Cons.IH [of "dispatch_step s op"] show ?thesis by (simp add: DSetMode)
  next
    case (DSetStrategy now environment strategy)
    have "dt_next (dispatch_step s op) = dt_next s" by (simp add: DSetStrategy SetEnvironmentStrategy_def Let_def split: sum.split)
    with Cons.IH [of "dispatch_step s op"] show ?thesis by (simp add: DSetStrategy)
  qed
qed simp

text \<open>after any sequence of operations, the log of dispatches holds exactly the last two thousand in the order in which they were recorded, numbered
  without gaps; the strategy in effect for an environment is the one last set for it (hybrid when none was), and always one of the three known.\<close>

theorem dispatch_exact:
  assumes "s = foldl dispatch_step NewAgentDispatchStore ops" "L = recorded NewAgentDispatchStore ops"
    and "e = (if TrimSpace environment = [] then ''default'' else TrimSpace environment)"
  shows "dt_records s = drop (length L - 2000) L \<and>
    (\<forall>i < length L. dp_id (L ! i) = seq_id ''dispatch-'' (int i + 1)) \<and>
    (if filter (strategies.writes e) ops = [] then em_strategy (EffectiveStrategy environment s) = ''hybrid''
     else strategy_effect (last (filter (strategies.writes e) ops)) = Some (e, Some (EffectiveStrategy environment s))) \<and>
    em_strategy (EffectiveStrategy environment s) \<in> {''push'', ''pull'', ''hybrid''}"
proof -
  have recs: "dt_records s = drop (length L - 2000) L"
    using dispatch_records_run [of NewAgentDispatchStore "[]" ops] by (simp add: assms(1,2) NewAgentDispatchStore_def)
  have ids: "dp_id (L ! i) = seq_id ''dispatch-'' (int i + 1)" if "i < length L" for i
    using arg_cong [OF recorded_ids [of NewAgentDispatchStore ops], of "\<lambda>xs. xs ! i"] that by (simp add: assms(2) NewAgentDispatchStore_def ac_simps)
  have look: "mget (dt_modes s) e = (case filter (strategies.writes e) ops of [] \<Rightarrow> None | ws \<Rightarrow> snd (the (strategy_effect (last ws))))"
    unfolding assms(1) strategies.look_last by (simp add: NewAgentDispatchStore_def split: list.split)
  have eff: "EffectiveStrategy environment s = mget_or \<lparr>em_environment = e, em_strategy = ''hybrid'', em_updated = 0\<rparr> (dt_modes s) e"
    by (simp add: EffectiveStrategy_def assms(3) Let_def)
  show ?thesis
  proof (cases "filter (strategies.writes e) ops")
    case Nil
    then show ?thesis using recs ids look eff by (simp add: mget_or_def)
  next
    case (Cons op ws)
    have "last (op # ws) \<in> set (filter (strategies.writes e) ops)" unfolding Cons by simp
    then obtain w where w: "strategy_effect (last (op # ws)) = Some (e, w)" by (auto simp: strategies.writes_def)
    then obtain item where item: "w = Some item" "em_strategy item \<in> {''push'', ''pull'', ''hybrid''}"
      by (cases "last (op # ws)") (auto simp: SetEnvironmentStrategy_def normalizeDispatchStrategy_def Let_def split: sum.splits if_splits)
    then have "mget (dt_modes s) e = Some item" using look w unfolding Cons by simp
    then show ?thesis using recs ids eff w item unfolding Cons by (simp add: mget_or_def)
  qed
qed

section \<open>Channels\<close>

record channel_assignment =
  cn_component :: string
  cn_channel :: string
  cn_updated :: gotime

record compatibility_result =
  cb_control :: int
  cb_agent :: int
  cb_compatible :: bool

record support_row =
  sp_channel :: string
  sp_control :: int
  sp_min :: int
  sp_max :: int
  sp_policy :: string

type_synonym channel_store = "channel_assignment gomap"

definition NewChannelManager :: channel_store where
  "NewChannelManager = []"

definition normalizeChannel :: "string \<Rightarrow> string" where
  "normalizeChannel ch = (let c = lower_trim ch in if c \<in> {''stable'', ''candidate'', ''edge'', ''lts''} then c else [])"

definition SetChannel :: "gotime \<Rightarrow> string \<Rightarrow> string \<Rightarrow> channel_store \<Rightarrow> channel_store \<times> channel_assignment result" where
  "SetChannel now component channel m =
     (let component = TrimSpace (ToLower component)
      in if component = [] then (m, Inl ''component is required'')
         else let channel = normalizeChannel channel
              in if channel = [] then (m, Inl ''channel must be stable, candidate, edge, or lts'')
                 else let cur = mget_or \<lparr>cn_component = component, cn_channel = [], cn_updated = 0\<rparr> m component;
                          cur = cur\<lparr>cn_channel := channel, cn_updated := now\<rparr>
                      in (mput component cur m, Inr cur))"

definition List_channels :: "channel_store \<Rightarrow> channel_assignment list" where
  "List_channels m = sort_key cn_component (map snd m)"

definition ParseControlPlaneProtocol :: "string \<Rightarrow> int" where
  "ParseControlPlaneProtocol raw =
     (let raw = TrimSpace raw
      in if raw = [] then 1 else case go_Atoi raw of None \<Rightarrow> 1 | Some v \<Rightarrow> if v \<le> 0 then 1 else v)"

definition BuildSupportMatrix :: "int \<Rightarrow> support_row list" where
  "BuildSupportMatrix p =
     (let p = (if p \<le> 0 then 1 else p); minAgent = (if p - 1 < 1 then 1 else p - 1)
      in [\<lparr>sp_channel = ''stable'', sp_control = p, sp_min = minAgent, sp_max = p, sp_policy = ''n-1''\<rparr>,
          \<lparr>sp_channel = ''candidate'', sp_control = p, sp_min = minAgent, sp_max = p, sp_policy = ''n-1''\<rparr>,
          \<lparr>sp_channel = ''edge'', sp_control = p, sp_min = p, sp_max = p, sp_policy = ''same-major protocol''\<rparr>,
          \<lparr>sp_channel = ''lts'', sp_control = p, sp_min = minAgent, sp_max = p, sp_policy = ''extended support window''\<rparr>])"

definition CheckNMinusOneCompatibility :: "int \<Rightarrow> int \<Rightarrow> compatibility_result" where
  "CheckNMinusOneCompatibility control agent =
     \<lparr>cb_control = control, cb_agent = agent,
      cb_compatible = (control > 0 \<and> agent > 0 \<and> agent \<le> control \<and> agent \<ge> control - 1)\<rparr>"

text \<open>The check of one agent and the published matrix agree for every channel but edge, which the check does not know.\<close>

lemma support_matrix_agrees:
  assumes "row \<in> set (BuildSupportMatrix (ParseControlPlaneProtocol raw))" "sp_channel row \<noteq> ''edge''"
  shows "cb_compatible (CheckNMinusOneCompatibility (ParseControlPlaneProtocol raw) agent) \<longleftrightarrow> sp_min row \<le> agent \<and> agent \<le> sp_max row"
proof -
  have "1 \<le> ParseControlPlaneProtocol raw" by (simp add: ParseControlPlaneProtocol_def Let_def split: option.split)
  then show ?thesis using assms by (auto simp: BuildSupportMatrix_def CheckNMinusOneCompatibility_def Let_def split: if_splits)
qed

section \<open>Canary upgrades\<close>

record canary_upgrade =
  cu_id :: string
  cu_component :: string
  cu_from :: string
  cu_to :: string
  cu_canaries :: "string list"
  cu_auto_rollback :: bool
  cu_status :: string
  cu_rolled_back :: bool
  cu_reason :: string
  cu_started :: gotime
  cu_completed :: gotime

record canary_upgrade_store =
  uw_next :: int
  uw_runs :: "canary_upgrade gomap"

definition NewCanaryUpgradeStore :: canary_upgrade_store where
  "NewCanaryUpgradeStore = \<lparr>uw_next = 0, uw_runs = []\<rparr>"

definition Record_upgrade :: "gotime \<Rightarrow> canary_upgrade \<Rightarrow> canary_upgrade_store \<Rightarrow> canary_upgrade_store \<times> canary_upgrade result" where
  "Record_upgrade now inp s =
     (let component = lower_trim (cu_component inp); fr = normalizeChannel (cu_from inp); target = normalizeChannel (cu_to inp)
      in if component = [] \<or> fr = [] \<or> target = [] then (s, Inl ''component, from_channel, and to_channel are required'')
         else let item = \<lparr>cu_id = seq_id ''canary-upgrade-'' (uw_next s + 1), cu_component = component, cu_from = fr, cu_to = target,
                    cu_canaries = normalizeStringSlice (cu_canaries inp), cu_auto_rollback = cu_auto_rollback inp,
                    cu_status = (if TrimSpace (cu_status inp) = [] then ''completed'' else TrimSpace (cu_status inp)),
                    cu_rolled_back = cu_rolled_back inp, cu_reason = TrimSpace (cu_reason inp), cu_started = now, cu_completed = now\<rparr>
              in (s\<lparr>uw_next := uw_next s + 1, uw_runs := mput (cu_id item) item (uw_runs s)\<rparr>, Inr item))"

definition List_upgrades :: "int \<Rightarrow> canary_upgrade_store \<Rightarrow> canary_upgrade list" where
  "List_upgrades limit s = limited limit (newest_first cu_started (map snd (uw_runs s)))"

definition Get_upgrade :: "string \<Rightarrow> canary_upgrade_store \<Rightarrow> canary_upgrade option" where
  "Get_upgrade i s = mget (uw_runs s) (TrimSpace i)"

definition upgrade_record_step :: "canary_upgrade_store \<Rightarrow> gotime \<times> canary_upgrade \<Rightarrow> canary_upgrade_store" where
  "upgrade_record_step s op = fst (Record_upgrade (fst op) (snd op) s)"

definition channels :: "string set" where
  "channels = {''stable'', ''candidate'', ''edge'', ''lts''}"

lemma normalizeChannel_known: "normalizeChannel c \<noteq> [] \<Longrightarrow> normalizeChannel c \<in> channels"
  by (simp add: normalizeChannel_def channels_def Let_def split: if_splits)

definition upgrade_run_ok :: "string \<Rightarrow> canary_upgrade \<Rightarrow> bool" where
  "upgrade_run_ok i r \<longleftrightarrow> cu_id r = i \<and> cu_status r \<noteq> [] \<and> cu_from r \<in> channels \<and> cu_to r \<in> channels"

definition upgrade_record_inv :: "canary_upgrade_store \<Rightarrow> bool" where
  "upgrade_record_inv s \<longleftrightarrow> store_inv uw_runs uw_next ''canary-upgrade-'' s \<and> items_ok upgrade_run_ok (uw_runs s)"

lemma upgrade_record_keys:
  "keys_step ''canary-upgrade-'' (uw_next s) (uw_runs s) (uw_next (upgrade_record_step s op)) (uw_runs (upgrade_record_step s op))"
  by (simp add: upgrade_record_step_def Record_upgrade_def Let_def)

lemma upgrade_record_step_inv: "upgrade_record_inv s \<Longrightarrow> upgrade_record_inv (upgrade_record_step s op)"
proof -
  assume inv: "upgrade_record_inv s"
  have "store_inv uw_runs uw_next ''canary-upgrade-'' (upgrade_record_step s op)"
    using store_inv_step [where items = uw_runs and counter = uw_next, OF _ upgrade_record_keys] inv by (simp add: upgrade_record_inv_def)
  moreover have "items_ok upgrade_run_ok (uw_runs (upgrade_record_step s op))"
    using inv normalizeChannel_known
    by (simp add: upgrade_record_inv_def upgrade_record_step_def Record_upgrade_def Let_def) (auto simp: upgrade_run_ok_def intro!: items_intros)
  ultimately show ?thesis by (simp add: upgrade_record_inv_def)
qed

interpretation upgrade_records: counter_store upgrade_record_step upgrade_record_inv uw_runs uw_next "''canary-upgrade-''"
  by unfold_locales (simp_all add: upgrade_record_step_inv upgrade_record_keys, simp add: upgrade_record_inv_def)

section \<open>Examples\<close>

definition demo_node :: enroll_input where
  "demo_node = \<lparr>en_name = ''n1'', en_address = [], en_transport = ''SSH'', en_labels = [], en_roles = [], en_topology = [], en_source = []\<rparr>"

theorem node_history_exact_witness:
  "map_option (map sg_status \<circ> mn_history) (Get_node ''n1'' (foldl node_step NewNodeLifecycleStore
     [NEnroll 1 demo_node, NSetStatus 2 ''n1'' ''Decommissioned'' [], NEnroll 3 demo_node, NSetStatus 4 ''n1'' ''lost'' [], NHeartbeat 5 ''n1'']))
   = Some [''bootstrap'', ''decommissioned'']"
proof -
  define s where "s = foldl node_step NewNodeLifecycleStore [NEnroll 1 demo_node]"
  define later where "later = [NSetStatus 2 ''n1'' ''Decommissioned'' [], NEnroll 3 demo_node, NSetStatus 4 ''n1'' ''lost'' [], NHeartbeat 5 ''n1'']"
  have "map_option (map sg_status \<circ> mn_history) (Get_node ''n1'' s) = Some [''bootstrap'']" unfolding s_def by code_simp
  then obtain n where n: "Get_node ''n1'' s = Some n" "map sg_status (mn_history n) = [''bootstrap'']" by auto
  have "concat (map (asked_status (TrimSpace ''n1'')) later) = [''decommissioned'']" unfolding later_def by code_simp
  then have "map_option (map sg_status \<circ> mn_history) (Get_node ''n1'' (foldl node_step s later)) = Some [''bootstrap'', ''decommissioned'']"
    using node_history_exact [OF s_def n(1), of later] n(2) by auto
  then show ?thesis unfolding s_def later_def by simp
qed

theorem checkin_window_witness:
  "let s = foldl checkin_step NewAgentCheckinStore [KCheckin 7 \<lparr>ci_agent = ''Web-1'', ci_interval = 60, ci_max_splay = 30\<rparr>]
   in \<exists>c. mget s ''Web-1'' = Some c \<and> ck_next c \<le> 7 + 90 * 1000000000 \<and> ck_splay c = deterministicSplay ''web-1'' 30"
proof -
  define s where "s = foldl checkin_step NewAgentCheckinStore [KCheckin 7 \<lparr>ci_agent = ''Web-1'', ci_interval = 60, ci_max_splay = 30\<rparr>]"
  have "map_option (\<lambda>c. (ck_interval c, ck_max_splay c, ck_last c)) (mget s ''Web-1'') = Some (60, 30, 7)" unfolding s_def by code_simp
  then obtain c where c: "mget s ''Web-1'' = Some c" "ck_interval c = 60" "ck_max_splay c = 30" "ck_last c = 7" by auto
  have "lower_trim ''web-1'' = lower_trim ''Web-1''" by code_simp
  then have "ck_next c \<le> 7 + 90 * 1000000000 \<and> ck_splay c = deterministicSplay ''web-1'' 30"
    using checkin_window [OF s_def c(1), of "''web-1''"] c by simp
  then show ?thesis using c(1) unfolding Let_def s_def by blast
qed

definition demo_request :: dispatch_request where
  "demo_request = \<lparr>dq_config = ''c.yaml'', dq_environment = ''prod'', dq_priority = [], dq_force = False\<rparr>"

theorem dispatch_exact_witness:
  "let s = foldl dispatch_step NewAgentDispatchStore [DSetStrategy 1 ''prod'' ''push'', DRecord 2 ''local'' ''x'' demo_request ''queued'' [], DSetStrategy 3 ''prod'' '' Pull '']
   in map dp_id (dt_records s) = [''dispatch-1''] \<and> em_strategy (EffectiveStrategy ''prod'' s) = ''pull''"
proof -
  define ops where "ops = [DSetStrategy 1 ''prod'' ''push'', DRecord 2 ''local'' ''x'' demo_request ''queued'' [], DSetStrategy 3 ''prod'' '' Pull '']"
  define s where "s = foldl dispatch_step NewAgentDispatchStore ops"
  define L where "L = recorded NewAgentDispatchStore ops"
  have e: "''prod'' = (if TrimSpace ''prod'' = [] then ''default'' else TrimSpace ''prod'')" by code_simp
  have l: "length L = 1" unfolding L_def ops_def by code_simp
  have eff: "map strategy_effect ops = [Some (''prod'', Some \<lparr>em_environment = ''prod'', em_strategy = ''push'', em_updated = 1\<rparr>), None,
      Some (''prod'', Some \<lparr>em_environment = ''prod'', em_strategy = ''pull'', em_updated = 3\<rparr>)]" unfolding ops_def by code_simp
  then have "strategies.writes ''prod'' (DSetStrategy 3 ''prod'' '' Pull '')" by (simp add: strategies.writes_def ops_def)
  then have "filter (strategies.writes ''prod'') ops \<noteq> []" "last (filter (strategies.writes ''prod'') ops) = DSetStrategy 3 ''prod'' '' Pull ''"
    by (simp_all add: ops_def)
  then have d: "strategy_effect (DSetStrategy 3 ''prod'' '' Pull '') = Some (''prod'', Some (EffectiveStrategy ''prod'' s))"
      "dt_records s = drop (length L - 2000) L" "\<forall>i < length L. dp_id (L ! i) = seq_id ''dispatch-'' (int i + 1)"
    using dispatch_exact [OF s_def L_def e] by (simp_all only: if_False) blast
  have "strategy_effect (DSetStrategy 3 ''prod'' '' Pull '') = Some (''prod'', Some \<lparr>em_environment = ''prod'', em_strategy = ''pull'', em_updated = 3\<rparr>)" by code_simp
  with d(1) have "em_strategy (EffectiveStrategy ''prod'' s) = ''pull''" by (metis option.inject prod.inject environment_mode.select_convs(2))
  moreover have "dp_id (L ! 0) = seq_id ''dispatch-'' (int 0 + 1)" using spec [OF d(3), of 0] l by simp
  moreover have "seq_id ''dispatch-'' (int 0 + 1) = ''dispatch-1''" by code_simp
  moreover obtain x where "L = [x]" using l by (auto simp: length_Suc_conv)
  ultimately have "map dp_id (dt_records s) = [''dispatch-1''] \<and> em_strategy (EffectiveStrategy ''prod'' s) = ''pull''" using d(2) by simp
  then show ?thesis unfolding Let_def s_def ops_def .
qed

end
