(* ===== verification/Capacity.thy ===== *)
theory Capacity
  imports ControlUtil Queue
begin

text \<open>
  The policies that bound the load of the queue: limits per tenant (internal/control/tenant_limits.go) and the number of
  workers (worker_autoscaling.go). \<open>time.Now\<close> is an argument; sums and products of numbers that
  callers choose wrap around at 64 bits.
\<close>

section \<open>Tenant limits\<close>

record tenant_input =
  tn_tenant :: string
  tn_per_minute :: int
  tn_max_runs :: int
  tn_share :: int
  tn_burst :: int

record tenant_policy =
  tp_id :: string
  tp_tenant :: string
  tp_per_minute :: int
  tp_max_runs :: int
  tp_share :: int
  tp_burst :: int
  tp_updated :: gotime

record admission_input =
  am_tenant :: string
  am_requested :: int
  am_current :: int
  am_depth :: int
  am_queued :: int

record admission =
  ad_allowed :: bool
  ad_tenant :: string
  ad_policy :: string
  ad_reason :: string
  ad_throttle :: int

record tenant_store =
  tl_next :: int
  tl_policies :: "tenant_policy gomap"
  tl_by_tenant :: "string gomap"

definition NewTenantLimitStore :: tenant_store where
  "NewTenantLimitStore = \<lparr>tl_next = 0, tl_policies = [], tl_by_tenant = []\<rparr>"

definition tenant_burst :: "tenant_input \<Rightarrow> int" where
  "tenant_burst inp = (if tn_burst inp \<le> 0 then let b = go_div (tn_per_minute inp) 5 in if b < 1 then 1 else b else tn_burst inp)"

definition Upsert_tenant :: "gotime \<Rightarrow> tenant_input \<Rightarrow> tenant_store \<Rightarrow> tenant_store \<times> tenant_policy result" where
  "Upsert_tenant now inp s =
     (let tenant = lower_trim (tn_tenant inp)
      in if tenant = [] then (s, Inl ''tenant is required'')
         else if tn_per_minute inp \<le> 0 \<or> tn_max_runs inp \<le> 0 \<or> tn_share inp \<le> 0 \<or> tn_share inp > 100 then (s, Inl ''invalid tenant limit values'')
         else let item = \<lparr>tp_id = [], tp_tenant = tenant, tp_per_minute = tn_per_minute inp, tp_max_runs = tn_max_runs inp,
                    tp_share = tn_share inp, tp_burst = tenant_burst inp, tp_updated = now\<rparr>
              in case mget (tl_by_tenant s) tenant of
                   Some i \<Rightarrow> let item = item\<lparr>tp_id := i\<rparr> in (s\<lparr>tl_policies := mput i item (tl_policies s)\<rparr>, Inr item)
                 | None \<Rightarrow>
                     let i = seq_id ''tenant-policy-'' (tl_next s + 1); item = item\<lparr>tp_id := i\<rparr>
                     in (s\<lparr>tl_next := tl_next s + 1, tl_policies := mput i item (tl_policies s), tl_by_tenant := mput tenant i (tl_by_tenant s)\<rparr>, Inr item))"

definition List_tenants :: "tenant_store \<Rightarrow> tenant_policy list" where
  "List_tenants s = sort_key tp_tenant (map snd (tl_policies s))"

definition byTenantPolicy :: "string \<Rightarrow> tenant_store \<Rightarrow> tenant_policy option" where
  "byTenantPolicy tenant s =
     (case mget (tl_by_tenant s) (lower_trim tenant) of None \<Rightarrow> None | Some i \<Rightarrow> mget (tl_policies s) i)"

definition Admit :: "admission_input \<Rightarrow> tenant_store \<Rightarrow> admission" where
  "Admit inp s =
     (let tenant = lower_trim (am_tenant inp)
      in case byTenantPolicy tenant s of
           None \<Rightarrow> \<lparr>ad_allowed = True, ad_tenant = tenant, ad_policy = [], ad_reason = ''no tenant policy configured'', ad_throttle = 0\<rparr>
         | Some policy \<Rightarrow>
             if wrap64 (am_current inp + am_requested inp) > tp_max_runs policy
             then \<lparr>ad_allowed = False, ad_tenant = tenant, ad_policy = tp_id policy, ad_reason = ''max concurrent runs exceeded'', ad_throttle = 60\<rparr>
             else if am_depth inp > 0 \<and> go_div (wrap64 (am_queued inp * 100)) (am_depth inp) > tp_share policy
             then \<lparr>ad_allowed = False, ad_tenant = tenant, ad_policy = tp_id policy, ad_reason = ''queue share exceeds noisy-neighbor threshold'', ad_throttle = 30\<rparr>
             else \<lparr>ad_allowed = True, ad_tenant = tenant, ad_policy = tp_id policy, ad_reason = ''within tenant limits'', ad_throttle = 0\<rparr>)"

definition tenant_step :: "tenant_store \<Rightarrow> gotime \<times> tenant_input \<Rightarrow> tenant_store" where
  "tenant_step s op = fst (Upsert_tenant (fst op) (snd op) s)"

text \<open>The policies seen by tenant, and what an upsert writes there.\<close>

definition tenant_limits :: "tenant_store \<Rightarrow> string \<Rightarrow> (int \<times> int) option" where
  "tenant_limits s k = map_option (\<lambda>p. (tp_max_runs p, tp_share p)) (case mget (tl_by_tenant s) k of None \<Rightarrow> None | Some i \<Rightarrow> mget (tl_policies s) i)"

definition tenant_ok :: "string gomap \<Rightarrow> string \<Rightarrow> tenant_policy \<Rightarrow> bool" where
  "tenant_ok index i p \<longleftrightarrow> tp_id p = i \<and> mget index (tp_tenant p) = Some i"

definition tenant_inv :: "tenant_store \<Rightarrow> bool" where
  "tenant_inv s \<longleftrightarrow> store_inv tl_policies tl_next ''tenant-policy-'' s \<and> items_ok (tenant_ok (tl_by_tenant s)) (tl_policies s) \<and>
     items_ok (\<lambda>k i. \<exists>p. mget (tl_policies s) i = Some p \<and> tp_tenant p = k) (tl_by_tenant s)"

fun tenant_effect :: "gotime \<times> tenant_input \<Rightarrow> (string \<times> (int \<times> int) option) option" where
  "tenant_effect (now, inp) =
     (if lower_trim (tn_tenant inp) = [] \<or> tn_per_minute inp \<le> 0 \<or> tn_max_runs inp \<le> 0 \<or> tn_share inp \<le> 0 \<or> tn_share inp > 100 then None
      else Some (lower_trim (tn_tenant inp), Some (tn_max_runs inp, tn_share inp)))"

lemma tenant_step_cases:
  assumes "tenant_inv s"
  obtains "tenant_effect op = None" "tenant_step s op = s"
  | i p where "tenant_effect op = Some (tp_tenant p, Some (tp_max_runs p, tp_share p))" "tp_id p = i" "mget (tl_by_tenant s) (tp_tenant p) = Some i"
      "\<exists>q. mget (tl_policies s) i = Some q \<and> tp_tenant q = tp_tenant p" "tenant_step s op = s\<lparr>tl_policies := mput i p (tl_policies s)\<rparr>"
  | i p where "tenant_effect op = Some (tp_tenant p, Some (tp_max_runs p, tp_share p))" "tp_id p = i" "i = seq_id ''tenant-policy-'' (tl_next s + 1)"
      "mget (tl_by_tenant s) (tp_tenant p) = None" "mget (tl_policies s) i = None"
      "tenant_step s op = s\<lparr>tl_next := tl_next s + 1, tl_policies := mput i p (tl_policies s), tl_by_tenant := mput (tp_tenant p) i (tl_by_tenant s)\<rparr>"
proof -
  obtain now inp where op: "op = (now, inp)" by fastforce
  let ?p = "\<lambda>i. \<lparr>tp_id = i, tp_tenant = lower_trim (tn_tenant inp), tp_per_minute = tn_per_minute inp, tp_max_runs = tn_max_runs inp,
      tp_share = tn_share inp, tp_burst = tenant_burst inp, tp_updated = now\<rparr>"
  let ?n = "seq_id ''tenant-policy-'' (tl_next s + 1)"
  show thesis
  proof (cases "tenant_effect op")
    case None
    then have "tenant_step s op = s" by (auto simp: op tenant_step_def Upsert_tenant_def Let_def split: if_splits)
    with None show thesis by (rule that(1))
  next
    case (Some w)
    have fresh: "mget (tl_policies s) ?n = None"
      using store_inv_fresh [of tl_policies tl_next "''tenant-policy-''" s] assms by (simp add: tenant_inv_def)
    show thesis
    proof (cases "mget (tl_by_tenant s) (lower_trim (tn_tenant inp))")
      case None
      then have "tenant_step s op = s\<lparr>tl_next := tl_next s + 1, tl_policies := mput ?n (?p ?n) (tl_policies s), tl_by_tenant := mput (lower_trim (tn_tenant inp)) ?n (tl_by_tenant s)\<rparr>"
        using Some by (simp add: op tenant_step_def Upsert_tenant_def Let_def split: if_splits)
      then show thesis using Some None fresh by (intro that(3) [of "?p ?n" ?n]) (simp_all add: op split: if_splits)
    next
      case old: (Some i)
      then have "tenant_step s op = s\<lparr>tl_policies := mput i (?p i) (tl_policies s)\<rparr>"
        using Some by (simp add: op tenant_step_def Upsert_tenant_def Let_def split: if_splits)
      moreover have "\<exists>q. mget (tl_policies s) i = Some q \<and> tp_tenant q = lower_trim (tn_tenant inp)"
        using assms old by (auto simp: tenant_inv_def dest: items_okD)
      ultimately show thesis using Some old by (intro that(2) [of "?p i" i]) (simp_all add: op split: if_splits)
    qed
  qed
qed

lemma NewTenantLimitStore_inv: "tenant_inv NewTenantLimitStore"
  by (simp add: tenant_inv_def NewTenantLimitStore_def store_inv_def ids_below_def)

lemma tenant_step_inv:
  assumes inv: "tenant_inv s"
  shows "tenant_inv (tenant_step s op)"
  using inv
proof (cases rule: tenant_step_cases [of s op])
  case (2 i p)
  have st: "store_inv tl_policies tl_next ''tenant-policy-'' (s\<lparr>tl_policies := mput i p (tl_policies s)\<rparr>)"
    using 2(4) by (intro store_inv_step [OF conjunct1 [OF inv [unfolded tenant_inv_def]]]) (auto intro: keys_step_update)
  have "items_ok (tenant_ok (tl_by_tenant s)) (mput i p (tl_policies s))"
    using inv 2(2,3) by (intro items_intros) (simp_all add: tenant_inv_def tenant_ok_def)
  moreover have "items_ok (\<lambda>k i'. \<exists>q. mget (mput i p (tl_policies s)) i' = Some q \<and> tp_tenant q = k) (tl_by_tenant s)"
    by (rule items_ok_mono [of "\<lambda>k i. \<exists>p. mget (tl_policies s) i = Some p \<and> tp_tenant p = k"]) (use inv 2(4) in \<open>auto simp: tenant_inv_def\<close>)
  ultimately show ?thesis using st by (simp add: tenant_inv_def 2(5))
next
  case (3 i p)
  have old: "items_ok (tenant_ok (tl_by_tenant s)) (tl_policies s)" using inv by (simp add: tenant_inv_def)
  have st: "store_inv tl_policies tl_next ''tenant-policy-'' (tenant_step s op)"
    by (rule store_inv_step [OF conjunct1 [OF inv [unfolded tenant_inv_def]]]) (simp add: 3(3,6) keys_step_add)
  have "items_ok (tenant_ok (mput (tp_tenant p) i (tl_by_tenant s))) (mput i p (tl_policies s))"
  proof (intro items_intros)
    show "items_ok (tenant_ok (mput (tp_tenant p) i (tl_by_tenant s))) (tl_policies s)"
      using old by (rule items_ok_mono) (use 3(4) in \<open>auto simp: tenant_ok_def\<close>)
  qed (simp add: tenant_ok_def 3(2))
  moreover have "items_ok (\<lambda>k i'. \<exists>q. mget (mput i p (tl_policies s)) i' = Some q \<and> tp_tenant q = k) (mput (tp_tenant p) i (tl_by_tenant s))"
  proof (intro items_intros)
    show "items_ok (\<lambda>k i'. \<exists>q. mget (mput i p (tl_policies s)) i' = Some q \<and> tp_tenant q = k) (tl_by_tenant s)"
      by (rule items_ok_mono [of "\<lambda>k i. \<exists>p. mget (tl_policies s) i = Some p \<and> tp_tenant p = k"]) (use inv 3(5) in \<open>auto simp: tenant_inv_def\<close>)
  qed simp
  ultimately show ?thesis using st by (simp add: tenant_inv_def 3(6))
qed (use inv in simp)

lemma tenant_limits_step:
  assumes inv: "tenant_inv s"
  shows "tenant_limits (tenant_step s op) k = (case tenant_effect op of Some (k', w) \<Rightarrow> if k' = k then w else tenant_limits s k | None \<Rightarrow> tenant_limits s k)"
  using inv
proof (cases rule: tenant_step_cases [of s op])
  case (2 i p)
  obtain q where q: "mget (tl_policies s) i = Some q" "tp_tenant q = tp_tenant p" using 2(4) by blast
  have "j \<noteq> i" if "mget (tl_by_tenant s) k = Some j" "k \<noteq> tp_tenant p" for j
    using that q inv by (auto simp: tenant_inv_def dest: items_okD)
  then show ?thesis using 2(3) by (auto simp: 2(1,5) tenant_limits_def split: option.split)
next
  case (3 i p)
  have "j \<noteq> i" if "mget (tl_by_tenant s) k = Some j" for j
    using that 3(5) inv by (auto simp: tenant_inv_def dest: items_okD)
  then show ?thesis by (auto simp: 3(1,6) tenant_limits_def split: option.split)
qed simp

text \<open>The limits that a history of upserts leaves for a tenant, read from the requests alone: those of the last one that is valid.\<close>

fun last_limits :: "(gotime \<times> tenant_input) list \<Rightarrow> string \<Rightarrow> (int \<times> int) option" where
  "last_limits [] k = None"
| "last_limits (op # ops) k =
     (case last_limits ops k of
        Some w \<Rightarrow> Some w
      | None \<Rightarrow> (case tenant_effect op of Some (k', w) \<Rightarrow> if k' = k then w else None | None \<Rightarrow> None))"

lemma last_limits_run:
  "tenant_inv s \<Longrightarrow> tenant_limits (foldl tenant_step s ops) k = (case last_limits ops k of Some w \<Rightarrow> Some w | None \<Rightarrow> tenant_limits s k)"
proof (induction ops arbitrary: s)
  case (Cons op ops)
  have "tenant_inv (tenant_step s op)" by (rule tenant_step_inv [OF Cons.prems])
  moreover have "snd w \<noteq> None" if "tenant_effect op = Some w" for w using that by (cases op) (auto split: if_splits)
  ultimately show ?case
    using Cons.IH [of "tenant_step s op"] tenant_limits_step [OF Cons.prems, of op k] by (auto split: option.split prod.split)
qed simp

text \<open>The admission of a request, written without the store: a tenant without a policy is admitted; another one when the
  requested runs fit below its maximum, and its share of the queue, rounded down to a whole percentage, is at most its limit.\<close>

definition within_limits :: "admission_input \<Rightarrow> (int \<times> int) option \<Rightarrow> bool" where
  "within_limits inp lim \<longleftrightarrow>
     (case lim of None \<Rightarrow> True
      | Some (runs, share) \<Rightarrow> am_current inp + am_requested inp \<le> runs \<and> (am_depth inp > 0 \<longrightarrow> am_queued inp * 100 < (share + 1) * am_depth inp))"

lemma div_greater_iff:
  fixes a b c :: int
  assumes "0 < b"
  shows "c < a div b \<longleftrightarrow> (c + 1) * b \<le> a"
proof
  assume "c < a div b"
  then have "(c + 1) * b \<le> a div b * b" using assms by (intro mult_right_mono) simp_all
  also have "\<dots> \<le> a" using assms pos_mod_sign [of b a] div_mult_mod_eq [of a b] by linarith
  finally show "(c + 1) * b \<le> a" .
next
  assume "(c + 1) * b \<le> a"
  then have "(c + 1) * b div b \<le> a div b" using assms by (intro zdiv_mono1)
  then show "c < a div b" using assms by simp
qed

text \<open>whatever policies were set, an admission answers yes exactly when the tenant has no valid policy, or the request is
  within the limits of the last valid one, for numbers of runs and jobs that do not overflow 64 bits. The rate limit and the burst of the policy
  never matter.\<close>

theorem tenant_admission_exact:
  assumes "s = foldl tenant_step NewTenantLimitStore ops"
    and "0 \<le> am_current inp + am_requested inp" "am_current inp + am_requested inp < 2 ^ 63" "0 \<le> am_queued inp" "am_queued inp * 100 < 2 ^ 63"
  shows "ad_allowed (Admit inp s) \<longleftrightarrow> within_limits inp (last_limits ops (lower_trim (am_tenant inp)))"
proof -
  let ?k = "lower_trim (am_tenant inp)"
  have "tenant_limits s ?k = last_limits ops ?k"
    using last_limits_run [OF NewTenantLimitStore_inv, of ops ?k] by (simp add: assms(1) NewTenantLimitStore_def tenant_limits_def split: option.splits)
  then have lim: "map_option (\<lambda>p. (tp_max_runs p, tp_share p)) (byTenantPolicy ?k s) = last_limits ops ?k"
    by (simp add: tenant_limits_def byTenantPolicy_def)
  have w: "wrap64 (am_current inp + am_requested inp) = am_current inp + am_requested inp" "wrap64 (am_queued inp * 100) = am_queued inp * 100"
    using assms by (auto intro!: wrap64_id)
  have dv: "go_div (am_queued inp * 100) (am_depth inp) > share \<longleftrightarrow> \<not> am_queued inp * 100 < (share + 1) * am_depth inp" if "am_depth inp > 0" for share
    using that assms(4) by (simp add: go_div_nonneg div_greater_iff not_less)
  show ?thesis
  proof (cases "byTenantPolicy ?k s")
    case None
    then show ?thesis using lim by (simp add: Admit_def within_limits_def Let_def)
  next
    case (Some p)
    then have "last_limits ops ?k = Some (tp_max_runs p, tp_share p)" using lim by simp
    then show ?thesis using Some dv by (auto simp: Admit_def within_limits_def w Let_def)
  qed
qed

theorem tenant_admission_exact_witness:
  "let s = foldl tenant_step NewTenantLimitStore
         [(1, \<lparr>tn_tenant = '' Acme '', tn_per_minute = 10, tn_max_runs = 5, tn_share = 20, tn_burst = 0\<rparr>),
          (2, \<lparr>tn_tenant = ''acme'', tn_per_minute = 10, tn_max_runs = 3, tn_share = 40, tn_burst = 0\<rparr>),
          (3, \<lparr>tn_tenant = ''acme'', tn_per_minute = 10, tn_max_runs = 9, tn_share = 400, tn_burst = 0\<rparr>)]
   in ad_allowed (Admit \<lparr>am_tenant = ''ACME'', am_requested = 1, am_current = 2, am_depth = 10, am_queued = 4\<rparr> s) \<and>
      \<not> ad_allowed (Admit \<lparr>am_tenant = ''ACME'', am_requested = 2, am_current = 2, am_depth = 10, am_queued = 4\<rparr> s)"
proof -
  define ops where "ops = [(1::gotime, \<lparr>tn_tenant = '' Acme '', tn_per_minute = 10, tn_max_runs = 5, tn_share = 20, tn_burst = 0\<rparr>),
          (2, \<lparr>tn_tenant = ''acme'', tn_per_minute = 10, tn_max_runs = 3, tn_share = 40, tn_burst = 0\<rparr>),
          (3, \<lparr>tn_tenant = ''acme'', tn_per_minute = 10, tn_max_runs = 9, tn_share = 400, tn_burst = 0\<rparr>)]"
  have l: "last_limits ops (lower_trim ''ACME'') = Some (3, 40)" unfolding ops_def by code_simp
  have "ad_allowed (Admit \<lparr>am_tenant = ''ACME'', am_requested = r, am_current = 2, am_depth = 10, am_queued = 4\<rparr> (foldl tenant_step NewTenantLimitStore ops)) \<longleftrightarrow> r \<le> 1"
    if "0 \<le> r" "r < 3" for r
    using tenant_admission_exact [OF refl, of "\<lparr>am_tenant = ''ACME'', am_requested = r, am_current = 2, am_depth = 10, am_queued = 4\<rparr>" ops] that
    by (simp add: l within_limits_def)
  from this [of 1] this [of 2] show ?thesis unfolding Let_def ops_def by simp
qed

section \<open>Worker autoscaling\<close>

record scaling_policy =
  wa_enabled :: bool
  wa_min :: int
  wa_max :: int
  wa_depth_per_worker :: int
  wa_target_latency :: int
  wa_up :: int
  wa_down :: int
  wa_updated :: gotime

record scaling_input =
  wi_depth :: int
  wi_current :: int
  wi_latency :: int

record scaling_decision =
  wd_current :: int
  wd_recommended :: int
  wd_delta :: int
  wd_reason :: string
  wd_depth :: int
  wd_latency :: int

definition NewWorkerAutoscalingStore :: "gotime \<Rightarrow> scaling_policy" where
  "NewWorkerAutoscalingStore now = \<lparr>wa_enabled = True, wa_min = 2, wa_max = 200, wa_depth_per_worker = 25, wa_target_latency = 120000,
     wa_up = 5, wa_down = 2, wa_updated = now\<rparr>"

definition SetPolicy_scaling :: "gotime \<Rightarrow> scaling_policy \<Rightarrow> scaling_policy \<Rightarrow> scaling_policy \<times> scaling_policy result" where
  "SetPolicy_scaling now inp s =
     (if wa_min inp \<le> 0 \<or> wa_max inp \<le> 0 \<or> wa_min inp > wa_max inp then (s, Inl ''invalid min/max worker bounds'')
      else if wa_depth_per_worker inp \<le> 0 then (s, Inl ''queue_depth_per_worker must be > 0'')
      else if wa_up inp \<le> 0 \<or> wa_down inp \<le> 0 then (s, Inl ''scale steps must be > 0'')
      else let p = inp\<lparr>wa_target_latency := (if wa_target_latency inp \<le> 0 then 120000 else wa_target_latency inp), wa_updated := now\<rparr>
           in (p, Inr p))"

definition clamp :: "int \<Rightarrow> int \<Rightarrow> int \<Rightarrow> int" where
  "clamp lo hi n = (let n = (if n < lo then lo else n) in if n > hi then hi else n)"

definition load_recommended :: "scaling_policy \<Rightarrow> int \<Rightarrow> int" where
  "load_recommended p depth =
     clamp (wa_min p) (wa_max p)
       (if depth > 0 then go_div (wrap64 (wrap64 (depth + wa_depth_per_worker p) - 1)) (wa_depth_per_worker p) else wa_min p)"

definition Recommend :: "scaling_input \<Rightarrow> scaling_policy \<Rightarrow> scaling_decision" where
  "Recommend inp p =
     (let current = (if wi_current inp \<le> 0 then wa_min p else wi_current inp)
      in if \<not> wa_enabled p
         then \<lparr>wd_current = current, wd_recommended = current, wd_delta = 0, wd_reason = ''autoscaling disabled'', wd_depth = wi_depth inp, wd_latency = wi_latency inp\<rparr>
         else let load = load_recommended p (wi_depth inp);
                  (n, reason) =
                    (if load > current \<or> wi_latency inp > wa_target_latency p
                     then let n = wrap64 (current + wa_up p) in (if load > n then load else n, ''scale up due to queue pressure or latency'')
                     else if load < current \<and> wi_latency inp < wa_target_latency p
                     then let n = wrap64 (current - wa_down p) in (if load > n then load else n, ''scale down due to sustained low pressure'')
                     else (current, ''within autoscaling targets''));
                  n = clamp (wa_min p) (wa_max p) n
              in \<lparr>wd_current = current, wd_recommended = n, wd_delta = wrap64 (n - current), wd_reason = TrimSpace reason, wd_depth = wi_depth inp, wd_latency = wi_latency inp\<rparr>)"

definition scaling_step :: "scaling_policy \<Rightarrow> gotime \<times> scaling_policy \<Rightarrow> scaling_policy" where
  "scaling_step s op = fst (SetPolicy_scaling (fst op) (snd op) s)"

definition scaling_ok :: "scaling_policy \<Rightarrow> bool" where
  "scaling_ok p \<longleftrightarrow> 0 < wa_min p \<and> wa_min p \<le> wa_max p \<and> 0 < wa_depth_per_worker p \<and> 0 < wa_up p \<and> 0 < wa_down p \<and> 0 < wa_target_latency p"

interpretation scaling: stepper scaling_step scaling_ok
  by unfold_locales (auto simp: scaling_step_def SetPolicy_scaling_def scaling_ok_def Let_def)

lemma scaling_run_ok: "scaling_ok (foldl scaling_step (NewWorkerAutoscalingStore now) ops)"
  by (rule scaling.run_inv) (simp add: scaling_ok_def NewWorkerAutoscalingStore_def)

text \<open>The number of workers after each recommendation is followed, for a constant load.\<close>

definition next_workers :: "scaling_policy \<Rightarrow> int \<Rightarrow> int \<Rightarrow> int \<Rightarrow> int" where
  "next_workers p depth latency n = wd_recommended (Recommend \<lparr>wi_depth = depth, wi_current = n, wi_latency = latency\<rparr> p)"

lemma clamp_bounds: "lo \<le> hi \<Longrightarrow> lo \<le> clamp lo hi n \<and> clamp lo hi n \<le> hi"
  by (simp add: clamp_def)

lemma load_recommended_bounds: "scaling_ok p \<Longrightarrow> wa_min p \<le> load_recommended p depth \<and> load_recommended p depth \<le> wa_max p"
  unfolding load_recommended_def by (rule clamp_bounds) (simp add: scaling_ok_def)

text \<open>The target of the load is what it should be: enough workers for the depth, rounded up, within the bounds.\<close>

lemma load_recommended_enough:
  assumes ok: "scaling_ok p" and "0 < depth" "depth + wa_depth_per_worker p < 2 ^ 63"
  shows "load_recommended p depth = wa_max p \<or> depth \<le> load_recommended p depth * wa_depth_per_worker p"
proof -
  let ?d = "wa_depth_per_worker p"
  have d: "0 < ?d" using ok by (simp add: scaling_ok_def)
  have w: "wrap64 (wrap64 (depth + ?d) - 1) = depth + ?d - 1" using assms d by (simp add: wrap64_id)
  have m: "(depth + ?d - 1) div ?d * ?d + (depth + ?d - 1) mod ?d = depth + ?d - 1" by simp
  have "(depth + ?d - 1) mod ?d \<le> ?d - 1" using d pos_mod_bound [of ?d "depth + ?d - 1"] by linarith
  then have enough: "depth \<le> (depth + ?d - 1) div ?d * ?d" using m by linarith
  have le: "n * ?d \<le> n' * ?d" if "n \<le> n'" for n n' using that d by (simp add: mult_right_mono)
  show ?thesis
  proof (cases "(depth + ?d - 1) div ?d \<le> wa_max p")
    case True
    then have "(depth + ?d - 1) div ?d \<le> load_recommended p depth"
      using assms(2) d by (simp add: load_recommended_def w go_div_nonneg clamp_def Let_def)
    then show ?thesis using enough le by fastforce
  qed (use assms(2) d ok in \<open>simp add: load_recommended_def w go_div_nonneg clamp_def scaling_ok_def Let_def\<close>)
qed

lemma next_workers_bounds:
  assumes "scaling_ok p" "wa_enabled p"
  shows "wa_min p \<le> next_workers p depth latency n \<and> next_workers p depth latency n \<le> wa_max p"
  using clamp_bounds [of "wa_min p" "wa_max p"] assms by (simp add: next_workers_def Recommend_def Let_def split_beta scaling_ok_def)

text \<open>One step at a latency below the target, with the clamping worked out.\<close>

lemma next_workers_calm:
  fixes depth :: int
  assumes ok: "scaling_ok p" "wa_enabled p" and lat: "latency < wa_target_latency p"
    and small: "0 < n" "n + wa_up p < 2 ^ 63" "wa_down p < 2 ^ 63"
  defines "t \<equiv> load_recommended p depth"
  shows "next_workers p depth latency n = (if n < t then min (wa_max p) (max (n + wa_up p) t) else if t < n then min (wa_max p) (max (n - wa_down p) t) else n)"
proof -
  have b: "wa_min p \<le> t" "t \<le> wa_max p" using load_recommended_bounds [OF ok(1)] by (simp_all add: t_def)
  have w: "wrap64 (n + wa_up p) = n + wa_up p" "wrap64 (n - wa_down p) = n - wa_down p" using small ok(1) by (auto intro!: wrap64_id simp: scaling_ok_def)
  have r: "next_workers p depth latency n =
      clamp (wa_min p) (wa_max p) (if n < t then max (n + wa_up p) t else if t < n then max (n - wa_down p) t else n)"
    using ok(2) lat small(1) by (simp add: next_workers_def Recommend_def t_def w max_def Let_def)
  consider "n < t" | "t < n" | "n = t" by linarith
  then show ?thesis
  proof cases
    case 1
    then show ?thesis using b by (simp add: r) (simp add: clamp_def Let_def min_def max_def)
  next
    case 2
    then show ?thesis using b by (simp add: r) (simp add: clamp_def Let_def min_def max_def)
  next
    case 3
    then show ?thesis unfolding r using b by (simp add: clamp_def)
  qed
qed

lemma next_workers_run:
  assumes ok: "scaling_ok p" "wa_enabled p" and lat: "latency < wa_target_latency p"
    and small: "wa_max p + wa_up p < 2 ^ 63" "wa_down p < 2 ^ 63"
    and n: "load_recommended p depth \<le> n" "n \<le> wa_max p"
  shows "load_recommended p depth \<le> (next_workers p depth latency ^^ k) n \<and>
    (next_workers p depth latency ^^ k) n \<le> max (load_recommended p depth) (n - int k)"
proof (induction k)
  case (Suc k)
  let ?m = "(next_workers p depth latency ^^ k) n" and ?t = "load_recommended p depth"
  have b: "wa_min p \<le> ?t" "?t \<le> wa_max p" "0 < wa_min p" "0 < wa_down p" using load_recommended_bounds [OF ok(1)] ok(1) by (simp_all add: scaling_ok_def)
  have m: "0 < ?m" "?t \<le> ?m" "?m \<le> wa_max p" "?m \<le> max ?t (n - int k)" using Suc b n by auto
  have "next_workers p depth latency ?m = (if ?t < ?m then min (wa_max p) (max (?m - wa_down p) ?t) else ?m)"
    using next_workers_calm [OF ok lat m(1) _ small(2), of depth] m(2,3) small(1) by simp
  then show ?case using m b by (auto simp: min_def max_def split: if_splits)
qed (use n in simp)

text \<open>C31: under a constant load whose latency is below the target, following the recommendations of the autoscaler brings the workers
  from any number to what the load needs, after at most one step and as many more as the bounds of the policy are apart, and keeps
  them there. No step leaves the bounds, and the arithmetic does not overflow for limits and steps that leave room for it.\<close>

theorem autoscale_converges:
  assumes p: "p = foldl scaling_step (NewWorkerAutoscalingStore now) ops" and "wa_enabled p" "latency < wa_target_latency p"
    and small: "wa_max p + wa_up p < 2 ^ 63" "wa_down p < 2 ^ 63" "0 < n" "n + wa_up p < 2 ^ 63"
    and k: "k \<ge> 1 + nat (wa_max p - wa_min p)"
  shows "(next_workers p depth latency ^^ k) n = load_recommended p depth"
proof -
  have ok: "scaling_ok p" unfolding p by (rule scaling_run_ok)
  let ?t = "load_recommended p depth" and ?n = "next_workers p depth latency n"
  have b: "wa_min p \<le> ?t" "?t \<le> wa_max p" "0 < wa_up p" "0 < wa_down p" using load_recommended_bounds [OF ok] ok by (simp_all add: scaling_ok_def)
  have first: "?t \<le> ?n" "?n \<le> wa_max p"
    using next_workers_calm [OF ok assms(2,3) small(3,4,2), of depth] next_workers_bounds [OF ok assms(2), of depth latency n] b by (auto simp: min_def max_def split: if_splits)
  obtain j where j: "k = Suc j" "j \<ge> nat (wa_max p - wa_min p)" using k by (cases k) auto
  have "(next_workers p depth latency ^^ k) n = (next_workers p depth latency ^^ j) ?n" by (simp add: j(1) funpow_swap1)
  then show ?thesis using next_workers_run [OF ok assms(2,3) small(1,2) first, of j] b j(2) first by (auto simp: max_def split: if_splits)
qed

theorem autoscale_converges_witness:
  "(next_workers (NewWorkerAutoscalingStore 0) 260 1000 ^^ 199) 3 = 11"
proof -
  have "load_recommended (NewWorkerAutoscalingStore 0) 260 = 11" by code_simp
  then show ?thesis
    using autoscale_converges [of "NewWorkerAutoscalingStore 0" 0 "[]" 1000 3 199 260] by (simp add: NewWorkerAutoscalingStore_def)
qed

end
