(* ===== verification/EventLog.thy ===== *)
theory EventLog
  imports ControlUtil
begin

text \<open>
  The event log (internal/control/events.go): a ring of sealed events, each with the hash of its
  predecessor, queries over it, its integrity check, and subscribers with bounded channels. \<open>digest\<close> is the
  parameter for sha256 over the JSON encoding of the payload; the theorems need at most that it has no
  collision among the payloads at hand. \<open>Append\<close> delivers to the subscribers after it has released the
  lock, so the deliveries are steps of their own.
\<close>

record event =
  ev_index :: int
  ev_time :: gotime
  ev_type :: string
  ev_message :: string
  ev_fields :: "json gomap"
  ev_prev :: string
  ev_hash :: string

record violation =
  vi_index :: int
  vi_reason :: string
  vi_expected :: string
  vi_actual :: string

record integrity_report =
  ir_valid :: bool
  ir_checked :: int
  ir_last :: string
  ir_violations :: "violation list"

record payload =
  pl_index :: int
  pl_time :: gotime
  pl_type :: string
  pl_message :: string
  pl_fields :: "json gomap"
  pl_prev :: string

record event_query =
  eq_since :: gotime
  eq_until :: gotime
  eq_prefix :: string
  eq_contains :: string
  eq_limit :: int
  eq_desc :: bool

record channel =
  ch_buffer :: nat
  ch_items :: "event list"
  ch_closed :: bool

text \<open>The channels are objects shared by the map of subscribers and by sends in flight: the map holds positions in \<open>es_channels\<close>.\<close>

record event_store =
  es_events :: "event list"
  es_limit :: nat
  es_next :: int
  es_last :: string
  es_next_sub :: int
  es_subs :: "(int \<times> nat) list"
  es_channels :: "channel list"

definition NewEventStore :: "int \<Rightarrow> event_store" where
  "NewEventStore limit = \<lparr>es_events = [], es_limit = nat (if limit \<le> 0 then 10000 else limit), es_next = 0, es_last = [],
     es_next_sub = 0, es_subs = [], es_channels = []\<rparr>"

definition event_payload :: "event \<Rightarrow> string \<Rightarrow> payload" where
  "event_payload e prevHash = \<lparr>pl_index = ev_index e, pl_time = ev_time e, pl_type = TrimSpace (ev_type e),
     pl_message = TrimSpace (ev_message e), pl_fields = ev_fields e, pl_prev = TrimSpace prevHash\<rparr>"

definition computeEventHash :: "(payload \<Rightarrow> string) \<Rightarrow> event \<Rightarrow> string \<Rightarrow> string" where
  "computeEventHash digest e prevHash = ''sha256:'' @ hex_encode (digest (event_payload e prevHash))"

definition sealEventLocked :: "(payload \<Rightarrow> string) \<Rightarrow> gotime \<Rightarrow> event \<Rightarrow> event_store \<Rightarrow> event_store \<times> event" where
  "sealEventLocked digest now e s =
     (let e = (if ev_time e = 0 then e\<lparr>ev_time := now\<rparr> else e);
          e = e\<lparr>ev_index := es_next s + 1, ev_prev := es_last s\<rparr>;
          e = e\<lparr>ev_hash := computeEventHash digest e (ev_prev e)\<rparr>
      in (s\<lparr>es_next := es_next s + 1, es_last := ev_hash e\<rparr>, e))"

text \<open>The part of \<open>Append\<close> under the lock, with the channels it has read from the map of subscribers.\<close>

definition Append_locked :: "(payload \<Rightarrow> string) \<Rightarrow> gotime \<Rightarrow> event \<Rightarrow> event_store \<Rightarrow> event_store \<times> event \<times> nat list" where
  "Append_locked digest now e s =
     (let (s, sealed) = sealEventLocked digest now e s;
          s = (if length (es_events s) \<ge> es_limit s
               then s\<lparr>es_events := (tl (es_events s) @ [last (es_events s)])[length (es_events s) - 1 := sealed]\<rparr>
               else s\<lparr>es_events := es_events s @ [sealed]\<rparr>)
      in (s, sealed, map snd (es_subs s)))"

text \<open>A send in a \<^verbatim>\<open>select\<close> with a default: dropped when the buffer is full, a panic (\<open>None\<close>) when the channel is closed.\<close>

definition try_send :: "event \<Rightarrow> nat \<Rightarrow> event_store \<Rightarrow> event_store option" where
  "try_send e c s =
     (let ch = es_channels s ! c
      in if ch_closed ch then None
         else if length (ch_items ch) < ch_buffer ch
         then Some (s\<lparr>es_channels := (es_channels s)[c := ch\<lparr>ch_items := ch_items ch @ [e]\<rparr>]\<rparr>)
         else Some s)"

definition List_events :: "event_store \<Rightarrow> event list" where
  "List_events s = es_events s"

fun seal_all :: "(payload \<Rightarrow> string) \<Rightarrow> gotime \<Rightarrow> event list \<Rightarrow> event_store \<Rightarrow> event_store" where
  "seal_all digest now [] s = s"
| "seal_all digest now (e # es) s =
     (let (s, sealed) = sealEventLocked digest now e s in seal_all digest now es (s\<lparr>es_events := es_events s @ [sealed]\<rparr>))"

text \<open>A nil slice and an empty one have the same effect.\<close>

definition Replace :: "(payload \<Rightarrow> string) \<Rightarrow> gotime \<Rightarrow> event list \<Rightarrow> event_store \<Rightarrow> event_store" where
  "Replace digest now items s =
     (let s = s\<lparr>es_events := [], es_last := [], es_next := 0\<rparr>;
          items = (if length items > es_limit s then drop (length items - es_limit s) items else items)
      in seal_all digest now items s)"

definition event_matches :: "event_query \<Rightarrow> event \<Rightarrow> bool" where
  "event_matches q e =
     (let typePrefix = lower_trim (eq_prefix q); contains = lower_trim (eq_contains q)
      in \<not> (eq_since q \<noteq> 0 \<and> ev_time e < eq_since q) \<and> \<not> (eq_until q \<noteq> 0 \<and> ev_time e > eq_until q) \<and>
         \<not> (typePrefix \<noteq> [] \<and> \<not> HasPrefix (lower_trim (ev_type e)) typePrefix) \<and>
         \<not> (contains \<noteq> [] \<and> \<not> Contains (ToLower (ev_message e)) contains \<and> \<not> Contains (ToLower (ev_type e)) contains))"

text \<open>The loop with its early exit when \<open>limit\<close> events are collected.\<close>

fun query_loop :: "event_query \<Rightarrow> nat \<Rightarrow> event list \<Rightarrow> event list \<Rightarrow> event list" where
  "query_loop q limit out [] = out"
| "query_loop q limit out (e # es) =
     (if event_matches q e
      then if length (out @ [e]) \<ge> limit then out @ [e] else query_loop q limit (out @ [e]) es
      else query_loop q limit out es)"

definition Query_events :: "event_query \<Rightarrow> event_store \<Rightarrow> event list" where
  "Query_events q s =
     (let limit = (if eq_limit q \<le> 0 then 200 else eq_limit q)
      in query_loop q (nat limit) [] (if eq_desc q then rev (es_events s) else es_events s))"

definition violation_of :: "event \<Rightarrow> string \<Rightarrow> violation" where
  "violation_of e reason = \<lparr>vi_index = ev_index e, vi_reason = reason, vi_expected = [], vi_actual = []\<rparr>"

fun verify_loop :: "(payload \<Rightarrow> string) \<Rightarrow> int \<Rightarrow> string \<Rightarrow> event list \<Rightarrow> integrity_report \<Rightarrow> integrity_report" where
  "verify_loop digest i prevHash [] rep = rep\<lparr>ir_last := prevHash\<rparr>"
| "verify_loop digest i prevHash (e # es) rep =
     (let rep = (if ev_index e \<noteq> i + 1
                 then rep\<lparr>ir_valid := False, ir_violations := ir_violations rep @ [violation_of e ''event index sequence mismatch'']\<rparr> else rep);
          rep = (if TrimSpace (ev_prev e) \<noteq> TrimSpace prevHash
                 then rep\<lparr>ir_valid := False, ir_violations := ir_violations rep @ [violation_of e ''prev_hash mismatch'']\<rparr> else rep);
          expectedHash = computeEventHash digest e prevHash;
          rep = (if TrimSpace (ev_hash e) \<noteq> expectedHash
                 then rep\<lparr>ir_valid := False, ir_violations := ir_violations rep @
                        [(violation_of e ''hash mismatch'')\<lparr>vi_expected := expectedHash, vi_actual := ev_hash e\<rparr>]\<rparr> else rep)
      in verify_loop digest (i + 1) expectedHash es rep)"

definition VerifyIntegrity :: "(payload \<Rightarrow> string) \<Rightarrow> event_store \<Rightarrow> integrity_report" where
  "VerifyIntegrity digest s =
     verify_loop digest 0 [] (es_events s) \<lparr>ir_valid = True, ir_checked = int (length (es_events s)), ir_last = [], ir_violations = []\<rparr>"

definition Subscribe :: "int \<Rightarrow> event_store \<Rightarrow> event_store \<times> int" where
  "Subscribe buffer s =
     (let n = es_next_sub s + 1
      in (s\<lparr>es_next_sub := n, es_subs := AList.update n (length (es_channels s)) (es_subs s),
            es_channels := es_channels s @ [\<lparr>ch_buffer = nat (if buffer \<le> 0 then 64 else buffer), ch_items = [], ch_closed = False\<rparr>]\<rparr>, n))"

definition Unsubscribe :: "int \<Rightarrow> event_store \<Rightarrow> event_store" where
  "Unsubscribe i s =
     (case map_of (es_subs s) i of
        None \<Rightarrow> s
      | Some c \<Rightarrow> s\<lparr>es_subs := AList.delete i (es_subs s),
                     es_channels := (es_channels s)[c := (es_channels s ! c)\<lparr>ch_closed := True\<rparr>]\<rparr>)"

section \<open>Queries\<close>

lemma query_loop_take:
  "length out < limit \<Longrightarrow> query_loop q limit out es = take limit (out @ filter (event_matches q) es)"
proof (induction q limit out es rule: query_loop.induct)
  case (2 q limit out e es)
  show ?case
  proof (cases "event_matches q e")
    case True
    show ?thesis
    proof (cases "length (out @ [e]) \<ge> limit")
      case full: True
      then have "limit = length (out @ [e])" using 2(3) by simp
      then show ?thesis using True by simp
    next
      case False
      then show ?thesis using True 2(1) [OF True] by simp
    qed
  qed (use 2 in simp)
qed simp

theorem Query_events_exact:
  "Query_events q s = take (nat (if eq_limit q \<le> 0 then 200 else eq_limit q))
     (filter (event_matches q) (if eq_desc q then rev (es_events s) else es_events s))"
  using query_loop_take [of "[]" "nat (if eq_limit q \<le> 0 then 200 else eq_limit q)" q] by (simp add: Query_events_def Let_def)

section \<open>The chain\<close>

fun chained :: "(payload \<Rightarrow> string) \<Rightarrow> int \<Rightarrow> string \<Rightarrow> event list \<Rightarrow> bool" where
  "chained digest i p [] = True"
| "chained digest i p (e # es) \<longleftrightarrow> ev_index e = i + 1 \<and> ev_prev e = p \<and> ev_hash e = computeEventHash digest e p \<and> chained digest (i + 1) (ev_hash e) es"

definition chain_end :: "string \<Rightarrow> event list \<Rightarrow> string" where
  "chain_end p es = (if es = [] then p else ev_hash (last es))"

lemma chained_snoc:
  "chained digest i p (es @ [e]) \<longleftrightarrow> chained digest i p es \<and> ev_index e = i + int (length es) + 1 \<and> ev_prev e = chain_end p es \<and>
     ev_hash e = computeEventHash digest e (chain_end p es)"
  by (induction es arbitrary: i p) (auto simp: chain_end_def)

lemma chain_end_snoc [simp]: "chain_end p (es @ [e]) = ev_hash e"
  by (simp add: chain_end_def)

lemma TrimSpace_event_hash [simp]: "TrimSpace (computeEventHash digest e p) = computeEventHash digest e p"
proof (rule TrimSpace_solid_ends)
  let ?h = "computeEventHash digest e p"
  have ne: "?h \<noteq> []" by (simp add: computeEventHash_def)
  have "list_all solid ''sha256:''" by code_simp
  moreover have "c \<in> set ''sha256:'' \<or> c \<in> set (hex_encode (digest (event_payload e p)))" if "c \<in> set ?h" for c
    using that unfolding computeEventHash_def set_append by blast
  ultimately have "solid c" if "c \<in> set ?h" for c using that solid_hex_encode unfolding list_all_iff by blast
  then show "?h = [] \<or> solid (hd ?h) \<and> solid (last ?h)" using ne by simp
qed

lemma computeEventHash_congs [simp]:
  "computeEventHash digest (e\<lparr>ev_hash := h\<rparr>) p = computeEventHash digest e p"
  "computeEventHash digest (e\<lparr>ev_prev := h\<rparr>) p = computeEventHash digest e p"
  by (simp_all add: computeEventHash_def event_payload_def)

lemma verify_chained:
  "chained digest i p es \<Longrightarrow> verify_loop digest i p es rep = rep\<lparr>ir_last := chain_end p es\<rparr>"
  by (induction digest i p es rep rule: verify_loop.induct) (auto simp: Let_def chain_end_def)

lemma verify_stays_invalid: "\<not> ir_valid rep \<Longrightarrow> \<not> ir_valid (verify_loop digest i p es rep)"
  by (induction digest i p es rep rule: verify_loop.induct) (auto simp: Let_def)

text \<open>The log holds the newest part of a chain that began when the store was made or replaced.\<close>

definition log_inv :: "(payload \<Rightarrow> string) \<Rightarrow> event_store \<Rightarrow> bool" where
  "log_inv digest s \<longleftrightarrow> 1 \<le> es_limit s \<and> length (es_events s) \<le> es_limit s \<and>
     (\<exists>i p. 0 \<le> i \<and> chained digest i p (es_events s) \<and> es_next s = i + int (length (es_events s)) \<and>
        es_last s = chain_end p (es_events s) \<and> (if i = 0 then p = [] else length (es_events s) = es_limit s))"

datatype event_op =
    EAppend gotime event
  | EReplace gotime "event list"
  | ESubscribe int
  | EUnsubscribe int

fun event_step :: "(payload \<Rightarrow> string) \<Rightarrow> event_store \<Rightarrow> event_op \<Rightarrow> event_store" where
  "event_step digest s (EAppend now e) = fst (Append_locked digest now e s)"
| "event_step digest s (EReplace now items) = Replace digest now items s"
| "event_step digest s (ESubscribe buffer) = fst (Subscribe buffer s)"
| "event_step digest s (EUnsubscribe i) = Unsubscribe i s"

lemma seal_event:
  obtains sealed where "sealEventLocked digest now e s = (s\<lparr>es_next := es_next s + 1, es_last := ev_hash sealed\<rparr>, sealed)"
    "ev_index sealed = es_next s + 1" "ev_prev sealed = es_last s" "ev_hash sealed = computeEventHash digest sealed (es_last s)"
proof -
  let ?e = "if ev_time e = 0 then e\<lparr>ev_time := now\<rparr> else e"
  let ?f = "?e\<lparr>ev_index := es_next s + 1, ev_prev := es_last s\<rparr>"
  show thesis by (rule that [of "?f\<lparr>ev_hash := computeEventHash digest ?f (es_last s)\<rparr>"])
      (simp_all add: sealEventLocked_def Let_def computeEventHash_def event_payload_def)
qed

lemma rotate_events: "es \<noteq> [] \<Longrightarrow> (tl es @ [last es])[length es - 1 := e] = tl es @ [e]"
  by (cases es) (simp_all add: list_update_append)

lemma Append_locked_events:
  obtains sealed where
    "ev_index sealed = es_next s + 1" "ev_prev sealed = es_last s" "ev_hash sealed = computeEventHash digest sealed (es_last s)"
    "1 \<le> es_limit s \<Longrightarrow> Append_locked digest now e s =
       (s\<lparr>es_next := es_next s + 1, es_last := ev_hash sealed,
          es_events := (if length (es_events s) \<ge> es_limit s then tl (es_events s) else es_events s) @ [sealed]\<rparr>, sealed, map snd (es_subs s))"
proof -
  obtain sealed where sealed: "sealEventLocked digest now e s = (s\<lparr>es_next := es_next s + 1, es_last := ev_hash sealed\<rparr>, sealed)"
    "ev_index sealed = es_next s + 1" "ev_prev sealed = es_last s" "ev_hash sealed = computeEventHash digest sealed (es_last s)"
    by (rule seal_event)
  have "Append_locked digest now e s =
       (s\<lparr>es_next := es_next s + 1, es_last := ev_hash sealed,
          es_events := (if length (es_events s) \<ge> es_limit s then tl (es_events s) else es_events s) @ [sealed]\<rparr>, sealed, map snd (es_subs s))"
    if "1 \<le> es_limit s"
  proof (cases "length (es_events s) \<ge> es_limit s")
    case True
    then have "es_events s \<noteq> []" using that by auto
    from rotate_events [OF this, of sealed] True sealed(1) show ?thesis by (simp add: Append_locked_def)
  qed (use sealed(1) in \<open>simp add: Append_locked_def\<close>)
  with sealed that show thesis by blast
qed

lemma append_log_inv: "log_inv digest s \<Longrightarrow> log_inv digest (fst (Append_locked digest now e s))"
proof -
  assume inv: "log_inv digest s"
  then obtain i p where s: "1 \<le> es_limit s" "length (es_events s) \<le> es_limit s" "0 \<le> i" "chained digest i p (es_events s)"
    "es_next s = i + int (length (es_events s))" "es_last s = chain_end p (es_events s)" "if i = 0 then p = [] else length (es_events s) = es_limit s"
    by (auto simp: log_inv_def)
  obtain sealed where sealed: "ev_index sealed = es_next s + 1" "ev_prev sealed = es_last s" "ev_hash sealed = computeEventHash digest sealed (es_last s)"
    and a: "Append_locked digest now e s = (s\<lparr>es_next := es_next s + 1, es_last := ev_hash sealed,
        es_events := (if length (es_events s) \<ge> es_limit s then tl (es_events s) else es_events s) @ [sealed]\<rparr>, sealed, map snd (es_subs s))"
    using Append_locked_events [of s digest now e] s(1) by metis
  show ?thesis
  proof (cases "length (es_events s) \<ge> es_limit s")
    case False
    then show ?thesis using s sealed unfolding a log_inv_def
      by (intro conjI exI [of _ i] exI [of _ p]) (auto simp: chained_snoc split: if_splits)
  next
    case True
    then have "es_events s \<noteq> []" using s(1) by auto
    then obtain e0 es where es: "es_events s = e0 # es" by (cases "es_events s") auto
    have c: "chained digest (i + 1) (ev_hash e0) es" "es_last s = chain_end (ev_hash e0) es"
      using s(4,6) by (auto simp: es chain_end_def)
    show ?thesis using s(1,2,3,5) sealed c True es unfolding a log_inv_def
      by (intro conjI exI [of _ "i + 1"] exI [of _ "ev_hash e0"]) (auto simp: chained_snoc)
  qed
qed

lemma seal_all_inv:
  assumes "1 \<le> es_limit s" "length (es_events s) + length es \<le> es_limit s" "chained digest 0 [] (es_events s)"
    "es_next s = int (length (es_events s))" "es_last s = chain_end [] (es_events s)"
  shows "log_inv digest (seal_all digest now es s) \<and> es_next (seal_all digest now es s) = int (length (es_events s) + length es)"
  using assms
proof (induction es arbitrary: s)
  case Nil
  then show ?case unfolding log_inv_def by (auto intro!: exI [of _ 0])
next
  case (Cons e es)
  obtain sealed where sealed: "sealEventLocked digest now e s = (s\<lparr>es_next := es_next s + 1, es_last := ev_hash sealed\<rparr>, sealed)"
    "ev_index sealed = es_next s + 1" "ev_prev sealed = es_last s" "ev_hash sealed = computeEventHash digest sealed (es_last s)"
    by (rule seal_event)
  let ?s = "s\<lparr>es_next := es_next s + 1, es_last := ev_hash sealed, es_events := es_events s @ [sealed]\<rparr>"
  have "log_inv digest (seal_all digest now es ?s) \<and> es_next (seal_all digest now es ?s) = int (length (es_events ?s) + length es)"
    by (rule Cons.IH) (use Cons.prems sealed in \<open>auto simp: chained_snoc\<close>)
  then show ?case using sealed(1) by simp
qed

lemma replace_log_inv: "log_inv digest s \<Longrightarrow> log_inv digest (Replace digest now items s)"
  unfolding Replace_def Let_def by (rule seal_all_inv [THEN conjunct1]) (auto simp: log_inv_def chain_end_def)

lemma log_inv_cong:
  "es_events s' = es_events s \<Longrightarrow> es_limit s' = es_limit s \<Longrightarrow> es_next s' = es_next s \<Longrightarrow> es_last s' = es_last s \<Longrightarrow>
   log_inv digest s' = log_inv digest s"
  by (simp only: log_inv_def)

lemma event_step_inv: "log_inv digest s \<Longrightarrow> log_inv digest (event_step digest s op)"
proof (cases op)
  case (ESubscribe buffer)
  then show "log_inv digest s \<Longrightarrow> ?thesis" using log_inv_cong [of "event_step digest s op" s] by (simp add: Subscribe_def Let_def)
next
  case (EUnsubscribe i)
  then show "log_inv digest s \<Longrightarrow> ?thesis" using log_inv_cong [of "event_step digest s op" s] by (simp add: Unsubscribe_def split: option.splits)
qed (simp_all add: append_log_inv replace_log_inv)

interpretation event_log: stepper "event_step digest" "log_inv digest" for digest
  by unfold_locales (rule event_step_inv)

lemma NewEventStore_inv: "log_inv digest (NewEventStore limit)"
  by (auto simp: log_inv_def NewEventStore_def chain_end_def intro!: exI [of _ 0])

lemma integrity_iff: "log_inv digest s \<Longrightarrow> ir_valid (VerifyIntegrity digest s) \<longleftrightarrow> es_next s \<le> int (es_limit s)"
proof -
  assume "log_inv digest s"
  then obtain i p where s: "1 \<le> es_limit s" "length (es_events s) \<le> es_limit s" "0 \<le> i" "chained digest i p (es_events s)"
    "es_next s = i + int (length (es_events s))" "if i = 0 then p = [] else length (es_events s) = es_limit s"
    by (auto simp: log_inv_def)
  show ?thesis
  proof (cases "i = 0")
    case True
    then show ?thesis using s verify_chained [of digest 0 "[]" "es_events s"] by (simp add: VerifyIntegrity_def)
  next
    case False
    then obtain e es where es: "es_events s = e # es" using s(1,6) by (cases "es_events s") auto
    then have "ev_index e \<noteq> 1" using s(3,4) False by auto
    then have "\<not> ir_valid (VerifyIntegrity digest s)"
      unfolding VerifyIntegrity_def es by (simp add: Let_def verify_stays_invalid)
    then show ?thesis using s False by auto
  qed
qed

text \<open>after any sequence of appends, replacements and subscriptions, the integrity check of the event
  log succeeds exactly while no more events were sealed than the log holds. A log that has dropped its
  oldest event fails the check for ever after, although nothing was tampered with: \<^verbatim>\<open>VerifyIntegrity\<close> expects the first event
  it still has to be number 1.\<close>

theorem VerifyIntegrity_valid_iff:
  assumes "s = foldl (event_step digest) (NewEventStore limit) ops"
  shows "ir_valid (VerifyIntegrity digest s) \<longleftrightarrow> es_next s \<le> int (es_limit s)"
  unfolding assms by (intro integrity_iff event_log.run_inv NewEventStore_inv)

theorem VerifyIntegrity_valid_iff_witness:
  "let e = \<lparr>ev_index = 0, ev_time = 7, ev_type = ''run'', ev_message = ''ok'', ev_fields = [], ev_prev = [], ev_hash = []\<rparr>;
       s = (\<lambda>n. foldl (event_step pl_message) (NewEventStore 2) (replicate n (EAppend 9 e)))
   in ir_valid (VerifyIntegrity pl_message (s 2)) \<and> \<not> ir_valid (VerifyIntegrity pl_message (s 3))"
proof -
  define e where "e = \<lparr>ev_index = 0, ev_time = 7, ev_type = ''run'', ev_message = ''ok'', ev_fields = [], ev_prev = [], ev_hash = []\<rparr>"
  define s where "s n = foldl (event_step pl_message) (NewEventStore 2) (replicate n (EAppend 9 e))" for n
  have "es_next (s 2) = 2" "es_limit (s 2) = 2" "es_next (s 3) = 3" "es_limit (s 3) = 2" unfolding s_def e_def by code_simp+
  then show ?thesis using VerifyIntegrity_valid_iff [OF s_def [of 2]] VerifyIntegrity_valid_iff [OF s_def [of 3]]
    unfolding Let_def e_def [symmetric] s_def [symmetric] by simp
qed

section \<open>Tamper evidence\<close>

text \<open>What the hash of an event covers, and the payloads that a check computes over a log.\<close>

definition content :: "event \<Rightarrow> int \<times> gotime \<times> string \<times> string \<times> json gomap" where
  "content e = (ev_index e, ev_time e, TrimSpace (ev_type e), TrimSpace (ev_message e), ev_fields e)"

fun hash_end :: "(payload \<Rightarrow> string) \<Rightarrow> string \<Rightarrow> event list \<Rightarrow> string" where
  "hash_end digest p [] = p"
| "hash_end digest p (e # es) = hash_end digest (computeEventHash digest e p) es"

fun payloads :: "(payload \<Rightarrow> string) \<Rightarrow> string \<Rightarrow> event list \<Rightarrow> payload list" where
  "payloads digest p [] = []"
| "payloads digest p (e # es) = event_payload e p # payloads digest (computeEventHash digest e p) es"

lemma hash_end_snoc [simp]: "hash_end digest p (es @ [e]) = computeEventHash digest e (hash_end digest p es)"
  by (induction es arbitrary: p) simp_all

lemma payloads_snoc [simp]: "payloads digest p (es @ [e]) = payloads digest p es @ [event_payload e (hash_end digest p es)]"
  by (induction es arbitrary: p) simp_all

lemma verify_last: "ir_last (verify_loop digest i p es rep) = hash_end digest p es"
  by (induction digest i p es rep rule: verify_loop.induct) (auto simp: Let_def)

lemma TrimSpace_hash_end: "TrimSpace (hash_end digest [] es) = hash_end digest [] es"
  by (cases es rule: rev_cases) simp_all

lemma hash_end_inj:
  assumes "inj_on digest (set (payloads digest [] xs) \<union> set (payloads digest [] ys))"
    and "hash_end digest [] xs = hash_end digest [] ys"
  shows "map content xs = map content ys"
  using assms
proof (induction xs arbitrary: ys rule: rev_induct)
  case Nil
  then show ?case by (cases ys rule: rev_cases) (simp_all add: computeEventHash_def)
next
  case (snoc x xs)
  then obtain y ys' where ys: "ys = ys' @ [y]" by (cases ys rule: rev_cases) (simp_all add: computeEventHash_def)
  have "digest (event_payload x (hash_end digest [] xs)) = digest (event_payload y (hash_end digest [] ys'))"
    using snoc.prems(2) by (simp add: ys computeEventHash_def hex_encode_inj)
  then have eq: "event_payload x (hash_end digest [] xs) = event_payload y (hash_end digest [] ys')"
    by (rule inj_onD [OF snoc.prems(1)]) (simp_all add: ys)
  then have "content x = content y" "hash_end digest [] xs = hash_end digest [] ys'"
    by (simp_all add: event_payload_def content_def TrimSpace_hash_end)
  moreover have "inj_on digest (set (payloads digest [] xs) \<union> set (payloads digest [] ys'))"
    using snoc.prems(1) by (rule inj_on_subset) (auto simp: ys)
  ultimately show ?case using snoc.IH [of ys'] by (simp add: ys)
qed



section \<open>Deliveries in flight\<close>

text \<open>The store with the calls of \<open>Append\<close> that have released the lock and still have channels to send to.\<close>

record event_system =
  sy_store :: event_store
  sy_inflight :: "(event \<times> nat list) list"
  sy_panic :: bool

datatype system_op =
    SAppend gotime event
  | SDeliver nat
  | SReceive nat
  | SSubscribe int
  | SUnsubscribe int

fun system_step :: "(payload \<Rightarrow> string) \<Rightarrow> event_system \<Rightarrow> system_op \<Rightarrow> event_system" where
  "system_step digest y (SAppend now e) =
     (let (s, sealed, chs) = Append_locked digest now e (sy_store y)
      in y\<lparr>sy_store := s, sy_inflight := sy_inflight y @ [(sealed, chs)]\<rparr>)"
| "system_step digest y (SDeliver k) =
     (if k < length (sy_inflight y)
      then case sy_inflight y ! k of
             (e, []) \<Rightarrow> y
           | (e, c # cs) \<Rightarrow>
               (case try_send e c (sy_store y) of
                  None \<Rightarrow> y\<lparr>sy_panic := True\<rparr>
                | Some s \<Rightarrow> y\<lparr>sy_store := s, sy_inflight := (sy_inflight y)[k := (e, cs)]\<rparr>)
      else y)"
| "system_step digest y (SReceive c) =
     (if c < length (es_channels (sy_store y))
      then y\<lparr>sy_store := (sy_store y)\<lparr>es_channels := (es_channels (sy_store y))
               [c := (es_channels (sy_store y) ! c)\<lparr>ch_items := tl (ch_items (es_channels (sy_store y) ! c))\<rparr>]\<rparr>\<rparr>
      else y)"
| "system_step digest y (SSubscribe buffer) = y\<lparr>sy_store := fst (Subscribe buffer (sy_store y))\<rparr>"
| "system_step digest y (SUnsubscribe i) = y\<lparr>sy_store := Unsubscribe i (sy_store y)\<rparr>"

definition system_init :: "int \<Rightarrow> event_system" where
  "system_init limit = \<lparr>sy_store = NewEventStore limit, sy_inflight = [], sy_panic = False\<rparr>"

definition open_channel :: "event_store \<Rightarrow> nat \<Rightarrow> bool" where
  "open_channel s c \<longleftrightarrow> c < length (es_channels s) \<and> \<not> ch_closed (es_channels s ! c)"

definition subs_ok :: "event_store \<Rightarrow> bool" where
  "subs_ok s \<longleftrightarrow> (\<forall>(k, c) \<in> set (es_subs s). k \<le> es_next_sub s \<and> open_channel s c) \<and> distinct (map fst (es_subs s)) \<and> distinct (map snd (es_subs s))"

definition system_ok :: "event_system \<Rightarrow> bool" where
  "system_ok y \<longleftrightarrow> subs_ok (sy_store y) \<and> \<not> sy_panic y \<and> (\<forall>(e, cs) \<in> set (sy_inflight y). \<forall>c \<in> set cs. open_channel (sy_store y) c)"

text \<open>No delivery is in flight.\<close>

definition quiet :: "event_system \<Rightarrow> bool" where
  "quiet y \<longleftrightarrow> (\<forall>(e, cs) \<in> set (sy_inflight y). cs = [])"

fun careful :: "(payload \<Rightarrow> string) \<Rightarrow> event_system \<Rightarrow> system_op list \<Rightarrow> bool" where
  "careful digest y [] = True"
| "careful digest y (op # ops) \<longleftrightarrow> (case op of SUnsubscribe i \<Rightarrow> quiet y | _ \<Rightarrow> True) \<and> careful digest (system_step digest y op) ops"

lemma append_subs: "es_subs (fst (Append_locked digest now e s)) = es_subs s" "es_channels (fst (Append_locked digest now e s)) = es_channels s"
  "es_next_sub (fst (Append_locked digest now e s)) = es_next_sub s" "snd (snd (Append_locked digest now e s)) = map snd (es_subs s)"
  by (simp_all add: Append_locked_def sealEventLocked_def Let_def)

lemma update_new_key: "k \<notin> set (map fst xs) \<Longrightarrow> AList.update k v xs = xs @ [(k, v)]"
  by (induction xs) auto

lemma open_channel_update:
  "ch_closed ch = ch_closed (es_channels s ! c) \<Longrightarrow> open_channel (s\<lparr>es_channels := (es_channels s)[c := ch]\<rparr>) d = open_channel s d"
  by (cases "d = c"; cases "c < length (es_channels s)") (simp_all add: open_channel_def)

lemma subs_ok_update:
  "ch_closed ch = ch_closed (es_channels s ! c) \<Longrightarrow> subs_ok (s\<lparr>es_channels := (es_channels s)[c := ch]\<rparr>) = subs_ok s"
  by (simp add: subs_ok_def open_channel_update)

lemma subscribe_ok:
  assumes "subs_ok s"
  shows "subs_ok (fst (Subscribe buffer s))" "open_channel s c \<Longrightarrow> open_channel (fst (Subscribe buffer s)) c"
proof -
  have new: "es_next_sub s + 1 \<notin> set (map fst (es_subs s))" using assms by (force simp: subs_ok_def)
  show "open_channel s c \<Longrightarrow> open_channel (fst (Subscribe buffer s)) c" for c by (simp add: Subscribe_def Let_def open_channel_def nth_append)
  moreover have "open_channel (fst (Subscribe buffer s)) (length (es_channels s))" by (simp add: Subscribe_def Let_def open_channel_def)
  moreover have "length (es_channels s) \<notin> set (map snd (es_subs s))" using assms by (force simp: subs_ok_def open_channel_def)
  ultimately show "subs_ok (fst (Subscribe buffer s))"
    using assms new by (auto simp: subs_ok_def Subscribe_def Let_def update_new_key)
qed

lemma unsubscribe_ok:
  assumes "subs_ok s"
  shows "subs_ok (Unsubscribe i s)"
proof (cases "map_of (es_subs s) i")
  case (Some c)
  have "k = i" if "(k, c) \<in> set (es_subs s)" for k
    using assms that map_of_SomeD [OF Some] inj_onD [of snd "set (es_subs s)" "(k, c)" "(i, c)"]
    unfolding subs_ok_def distinct_map by simp
  then have ne: "d \<noteq> c" if "(k, d) \<in> set (AList.delete i (es_subs s))" for k d using that by (auto simp: AList.delete_eq)
  have sub: "set (AList.delete i (es_subs s)) \<subseteq> set (es_subs s)" by (auto simp: AList.delete_eq)
  have "open_channel (Unsubscribe i s) d" if "open_channel s d" "d \<noteq> c" for d
    using that Some by (simp add: Unsubscribe_def open_channel_def)
  moreover have "k \<le> es_next_sub s \<and> open_channel s d \<and> d \<noteq> c" if "(k, d) \<in> set (AList.delete i (es_subs s))" for k d
    using assms that sub ne [OF that] unfolding subs_ok_def by blast
  moreover have "es_subs (Unsubscribe i s) = AList.delete i (es_subs s)" using Some by (simp add: Unsubscribe_def)
  ultimately have "\<forall>(k, d) \<in> set (es_subs (Unsubscribe i s)). k \<le> es_next_sub s \<and> open_channel (Unsubscribe i s) d" by auto
  moreover have "distinct (map fst (es_subs (Unsubscribe i s)))" "distinct (map snd (es_subs (Unsubscribe i s)))"
    "es_next_sub (Unsubscribe i s) = es_next_sub s"
    using assms Some by (simp_all add: subs_ok_def Unsubscribe_def AList.delete_eq distinct_map_filter)
  ultimately show ?thesis by (simp add: subs_ok_def)
qed (use assms in \<open>simp add: Unsubscribe_def\<close>)

lemma system_step_ok:
  assumes ok: "system_ok y" and quiet: "\<And>i. op = SUnsubscribe i \<Longrightarrow> quiet y"
  shows "system_ok (system_step digest y op)"
proof (cases op)
  case (SAppend now e)
  have "open_channel (fst (Append_locked digest now e s)) c = open_channel s c" "subs_ok (fst (Append_locked digest now e s)) = subs_ok s" for s c
    by (simp_all add: open_channel_def subs_ok_def append_subs)
  then show ?thesis using ok append_subs(4) [of digest now e "sy_store y"]
    by (auto simp: SAppend system_ok_def subs_ok_def split_beta)
next
  case (SDeliver k)
  show ?thesis
  proof (cases "k < length (sy_inflight y) \<and> snd (sy_inflight y ! k) \<noteq> []")
    case True
    then obtain e c cs where k: "sy_inflight y ! k = (e, c # cs)" by (cases "sy_inflight y ! k") (auto simp: neq_Nil_conv)
    then have mem: "(e, c # cs) \<in> set (sy_inflight y)" using True by (metis nth_mem)
    then have c: "open_channel (sy_store y) c" using ok by (auto simp: system_ok_def)
    let ?x = "es_channels (sy_store y) ! c"
    define ch where "ch = (if length (ch_items ?x) < ch_buffer ?x then ?x\<lparr>ch_items := ch_items ?x @ [e]\<rparr> else ?x)"
    have ch: "ch_closed ch = ch_closed ?x" "try_send e c (sy_store y) = Some ((sy_store y)\<lparr>es_channels := (es_channels (sy_store y))[c := ch]\<rparr>)"
      using c by (simp_all add: ch_def try_send_def Let_def open_channel_def)
    have "\<forall>(e', cs') \<in> set ((sy_inflight y)[k := (e, cs)]). \<forall>d \<in> set cs'. open_channel (sy_store y) d"
    proof (rule ballI)
      fix x assume "x \<in> set ((sy_inflight y)[k := (e, cs)])"
      then consider "x = (e, cs)" | "x \<in> set (sy_inflight y)" using set_update_subset_insert by fastforce
      then show "case x of (e', cs') \<Rightarrow> \<forall>d \<in> set cs'. open_channel (sy_store y) d"
        using ok mem by cases (auto simp: system_ok_def)
    qed
    then show ?thesis using ok True k ch(2) by (simp add: SDeliver system_ok_def subs_ok_update [OF ch(1)] open_channel_update [OF ch(1)])
  next
    case False
    then have "system_step digest y op = y" by (auto simp: SDeliver split: prod.split list.split)
    then show ?thesis using ok by simp
  qed
next
  case (SReceive c)
  let ?ch = "(es_channels (sy_store y) ! c)\<lparr>ch_items := tl (ch_items (es_channels (sy_store y) ! c))\<rparr>"
  have "ch_closed ?ch = ch_closed (es_channels (sy_store y) ! c)" by simp
  from subs_ok_update [OF this] open_channel_update [OF this] ok show ?thesis by (simp add: SReceive system_ok_def)
next
  case (SSubscribe buffer)
  have "subs_ok (sy_store y)" using ok by (simp add: system_ok_def)
  from subscribe_ok [OF this] ok show ?thesis by (force simp: SSubscribe system_ok_def)
next
  case (SUnsubscribe i)
  then show ?thesis using ok quiet [OF SUnsubscribe] unsubscribe_ok [of "sy_store y" i] by (fastforce simp: system_ok_def quiet_def)
qed

text \<open>\<^verbatim>\<open>Append\<close> sends to the subscribers after it has released the lock. As long as no subscriber leaves while a
  delivery is in flight, no send meets a closed channel; but a subscriber that leaves in between makes
  the send panic, and the process with it.\<close>

theorem append_unsubscribe_race:
  "(\<forall>ops. careful digest (system_init limit) ops \<longrightarrow> \<not> sy_panic (foldl (system_step digest) (system_init limit) ops)) \<and>
   sy_panic (foldl (system_step digest) (system_init limit) [SSubscribe 1, SAppend now e, SUnsubscribe 1, SDeliver 0])"
proof (intro conjI allI impI)
  have run: "system_ok y \<Longrightarrow> careful digest y ops \<Longrightarrow> system_ok (foldl (system_step digest) y ops)" for y ops
  proof (induction ops arbitrary: y)
    case (Cons op ops)
    then show ?case using system_step_ok [of y op digest] by (auto split: system_op.splits)
  qed simp
  have "system_ok (system_init limit)" by (simp add: system_ok_def system_init_def subs_ok_def NewEventStore_def)
  then show "\<not> sy_panic (foldl (system_step digest) (system_init limit) ops)" if "careful digest (system_init limit) ops" for ops
    using run [OF _ that] by (simp add: system_ok_def)
  show "sy_panic (foldl (system_step digest) (system_init limit) [SSubscribe 1, SAppend now e, SUnsubscribe 1, SDeliver 0])"
    by (simp add: system_init_def NewEventStore_def Subscribe_def Unsubscribe_def Append_locked_def sealEventLocked_def Let_def try_send_def)
qed

theorem append_unsubscribe_race_witness:
  "let e = \<lparr>ev_index = 0, ev_time = 7, ev_type = ''run'', ev_message = ''ok'', ev_fields = [], ev_prev = [], ev_hash = []\<rparr>;
       run = (\<lambda>ops. foldl (system_step pl_message) (system_init 5) ops)
   in careful pl_message (system_init 5) [SSubscribe 1, SAppend 9 e, SDeliver 0, SUnsubscribe 1] \<and>
      \<not> sy_panic (run [SSubscribe 1, SAppend 9 e, SDeliver 0, SUnsubscribe 1]) \<and>
      sy_panic (run [SSubscribe 1, SAppend 9 e, SUnsubscribe 1, SDeliver 0])"
proof -
  define e where "e = \<lparr>ev_index = 0, ev_time = 7, ev_type = ''run'', ev_message = ''ok'', ev_fields = [], ev_prev = [], ev_hash = []\<rparr>"
  have c: "careful pl_message (system_init 5) [SSubscribe 1, SAppend 9 e, SDeliver 0, SUnsubscribe 1]"
    unfolding e_def by code_simp
  then show ?thesis using append_unsubscribe_race [of pl_message 5 9 e] unfolding Let_def e_def [symmetric] by blast
qed

end
