(* ===== verification/Alerts.thy ===== *)
theory Alerts
  imports EventLog
begin

text \<open>
  The alert inbox (internal/control/alert_inbox.go): events of some severity become alerts, deduplicated by a
  fingerprint, with suppressions and routes. \<open>time.Now\<close> is an argument. The range over the map of suppressions in
  the clean-up is a filter of its entries. Severities and routes are the strings of the code.
\<close>

section \<open>The inbox\<close>

datatype alert_status = AlertUnset | AlertOpen | AlertAcknowledged | AlertResolved

fun status_text :: "alert_status \<Rightarrow> string" where
  "status_text AlertUnset = []"
| "status_text AlertOpen = ''open''"
| "status_text AlertAcknowledged = ''acknowledged''"
| "status_text AlertResolved = ''resolved''"

record suppression =
  su_fingerprint :: string
  su_until :: gotime
  su_reason :: string
  su_hits :: int

record alert =
  al_id :: string
  al_fingerprint :: string
  al_type :: string
  al_message :: string
  al_severity :: string
  al_route :: string
  al_count :: int
  al_suppressed :: int
  al_first :: gotime
  al_last :: gotime
  al_status :: alert_status
  al_fields :: "json gomap"

record alert_ingest =
  ag_fingerprint :: string
  ag_type :: string
  ag_message :: string
  ag_severity :: string
  ag_fields :: "json gomap"

record ingest_result =
  ag_item :: alert
  ag_created :: bool
  ag_dedup :: bool
  ag_suppressed :: bool

record alert_summary =
  ay_open :: int
  ay_acknowledged :: int
  ay_resolved :: int
  ay_suppressions :: int
  ay_total :: int

record routing_policy =
  rt_critical :: string
  rt_high :: string
  rt_medium :: string
  rt_low :: string
  rt_updated :: gotime

record alert_inbox =
  ai_next :: int
  ai_items :: "alert gomap"
  ai_by_fingerprint :: "string gomap"
  ai_suppressions :: "suppression gomap"
  ai_policy :: routing_policy

section \<open>Severities, routes and fingerprints\<close>

definition normalizeSeverity :: "string \<Rightarrow> string" where
  "normalizeSeverity raw =
     (let r = lower_trim raw
      in if r \<in> {''critical'', ''crit'', ''p0''} then ''critical''
         else if r \<in> {''high'', ''error'', ''p1''} then ''high''
         else if r \<in> {''medium'', ''warn'', ''warning'', ''p2''} then ''medium''
         else if r \<in> {''low'', ''info'', ''p3''} then ''low''
         else ''medium'')"

definition routeForSeverity :: "string \<Rightarrow> string" where
  "routeForSeverity severity =
     (let v = normalizeSeverity severity
      in if v = ''critical'' then ''pager'' else if v = ''high'' then ''ticket'' else if v = ''medium'' then ''chatops'' else ''digest'')"

definition normalizeAlertRoute :: "string \<Rightarrow> string" where
  "normalizeAlertRoute route = (let r = lower_trim route in if r \<in> {''pager'', ''ticket'', ''chatops'', ''digest''} then r else [])"

definition routeForSeverityPolicy :: "string \<Rightarrow> routing_policy \<Rightarrow> string" where
  "routeForSeverityPolicy severity p =
     (let v = normalizeSeverity severity
      in normalizeAlertRoute (if v = ''critical'' then rt_critical p else if v = ''high'' then rt_high p else if v = ''medium'' then rt_medium p else rt_low p))"

definition defaultAlertRoutingPolicy :: "gotime \<Rightarrow> routing_policy" where
  "defaultAlertRoutingPolicy now = \<lparr>rt_critical = ''pager'', rt_high = ''ticket'', rt_medium = ''chatops'', rt_low = ''digest'', rt_updated = now\<rparr>"

definition severityRank :: "string \<Rightarrow> int" where
  "severityRank severity =
     (let v = normalizeSeverity severity in if v = ''critical'' then 4 else if v = ''high'' then 3 else if v = ''medium'' then 2 else 1)"

definition chooseMaxSeverity :: "string \<Rightarrow> string \<Rightarrow> string" where
  "chooseMaxSeverity current candidate =
     (if severityRank candidate > severityRank current then normalizeSeverity candidate else normalizeSeverity current)"

definition defaultAlertMessage :: "alert_ingest \<Rightarrow> string" where
  "defaultAlertMessage inp =
     (if TrimSpace (ag_message inp) \<noteq> [] then ag_message inp else if TrimSpace (ag_type inp) \<noteq> [] then ag_type inp else ''alert'')"

definition readStringField :: "json gomap \<Rightarrow> string \<Rightarrow> string option" where
  "readStringField fs key = (case mget fs key of Some (JStr s) \<Rightarrow> Some (TrimSpace s) | _ \<Rightarrow> None)"

definition fingerprint_parts :: "json gomap \<Rightarrow> string list" where
  "fingerprint_parts fs =
     concat (map (\<lambda>key. case readStringField fs key of Some v \<Rightarrow> if v \<noteq> [] then [key @ ''='' @ ToLower v] else [] | None \<Rightarrow> [])
       [''service'', ''host'', ''resource'', ''component'', ''sev'', ''severity''])"

definition normalizedAlertFingerprint :: "alert_ingest \<Rightarrow> string" where
  "normalizedAlertFingerprint inp =
     (let explicit = TrimSpace (ToLower (ag_fingerprint inp))
      in if explicit \<noteq> [] then explicit
         else let base = TrimSpace (ToLower (ag_type inp)); base = (if base = [] then ''alert'' else base);
                  msg = TrimSpace (ToLower (ag_message inp))
              in Join ([base] @ fingerprint_parts (ag_fields inp) @ (if msg \<noteq> [] then [''msg='' @ msg] else [])) ''|'')"

definition inferSeverityFromEvent :: "event \<Rightarrow> string" where
  "inferSeverityFromEvent e =
     (case readStringField (ev_fields e) ''severity'' of
        Some (c # cs) \<Rightarrow> normalizeSeverity (c # cs)
      | _ \<Rightarrow>
          (case readStringField (ev_fields e) ''sev'' of
             Some (c # cs) \<Rightarrow> normalizeSeverity (c # cs)
           | _ \<Rightarrow>
               let typ = lower_trim (ev_type e)
               in if Contains typ ''critical'' then ''critical''
                  else if Contains typ ''alert'' then ''high''
                  else if Contains typ ''error'' then ''high''
                  else if Contains typ ''saturation'' then ''medium'' else []))"

section \<open>Operations\<close>

definition NewAlertInbox :: "gotime \<Rightarrow> alert_inbox" where
  "NewAlertInbox now = \<lparr>ai_next = 0, ai_items = [], ai_by_fingerprint = [], ai_suppressions = [], ai_policy = defaultAlertRoutingPolicy now\<rparr>"

definition cleanupSuppressionsLocked :: "gotime \<Rightarrow> alert_inbox \<Rightarrow> alert_inbox" where
  "cleanupSuppressionsLocked now a = a\<lparr>ai_suppressions := filter (\<lambda>(fp, x). now < su_until x) (ai_suppressions a)\<rparr>"

definition alert_fingerprint :: "alert_ingest \<Rightarrow> string" where
  "alert_fingerprint inp = (let fp = normalizedAlertFingerprint inp in if fp = [] then ''alert:unknown'' else fp)"

definition existing_alert :: "string \<Rightarrow> alert_inbox \<Rightarrow> alert option" where
  "existing_alert fp a = mget (ai_items a) (mget_or [] (ai_by_fingerprint a) fp)"

definition suppressed_preview :: "string \<Rightarrow> alert_ingest \<Rightarrow> alert" where
  "suppressed_preview fp inp =
     \<lparr>al_id = [], al_fingerprint = fp, al_type = TrimSpace (ag_type inp), al_message = defaultAlertMessage inp,
      al_severity = normalizeSeverity (ag_severity inp), al_route = routeForSeverity (normalizeSeverity (ag_severity inp)), al_count = 0,
      al_suppressed = 0, al_first = 0, al_last = 0, al_status = AlertUnset, al_fields = []\<rparr>"

definition ingest_suppressed :: "gotime \<Rightarrow> string \<Rightarrow> alert_ingest \<Rightarrow> suppression \<Rightarrow> alert_inbox \<Rightarrow> alert_inbox \<times> ingest_result" where
  "ingest_suppressed now fp inp mute a =
     (let a = a\<lparr>ai_suppressions := mput fp (mute\<lparr>su_hits := su_hits mute + 1\<rparr>) (ai_suppressions a)\<rparr>
      in case existing_alert fp a of
           Some item \<Rightarrow>
             let item = item\<lparr>al_suppressed := al_suppressed item + 1, al_last := now\<rparr>
             in (a\<lparr>ai_items := mput (al_id item) item (ai_items a)\<rparr>,
                 \<lparr>ag_item = item, ag_created = False, ag_dedup = False, ag_suppressed = True\<rparr>)
         | None \<Rightarrow> (a, \<lparr>ag_item = suppressed_preview fp inp, ag_created = False, ag_dedup = False, ag_suppressed = True\<rparr>))"

definition seen_again :: "gotime \<Rightarrow> alert_ingest \<Rightarrow> routing_policy \<Rightarrow> alert \<Rightarrow> alert" where
  "seen_again now inp policy item =
     (let severity = chooseMaxSeverity (al_severity item) (normalizeSeverity (ag_severity inp))
      in item\<lparr>al_last := now, al_count := al_count item + 1, al_type := TrimSpace (ag_type inp), al_message := defaultAlertMessage inp,
           al_fields := ag_fields inp, al_severity := severity, al_route := routeForSeverityPolicy severity policy, al_status := AlertOpen\<rparr>)"

definition new_alert :: "gotime \<Rightarrow> string \<Rightarrow> string \<Rightarrow> alert_ingest \<Rightarrow> routing_policy \<Rightarrow> alert" where
  "new_alert now i fp inp policy =
     (let severity = normalizeSeverity (ag_severity inp)
      in \<lparr>al_id = i, al_fingerprint = fp, al_type = TrimSpace (ag_type inp), al_message = defaultAlertMessage inp, al_severity = severity,
          al_route = routeForSeverityPolicy severity policy, al_count = 1, al_suppressed = 0, al_first = now, al_last = now,
          al_status = AlertOpen, al_fields = ag_fields inp\<rparr>)"

definition record_alert :: "gotime \<Rightarrow> string \<Rightarrow> alert_ingest \<Rightarrow> alert_inbox \<Rightarrow> alert_inbox \<times> ingest_result" where
  "record_alert now fp inp a =
     (case existing_alert fp a of
        Some item \<Rightarrow>
          let item = seen_again now inp (ai_policy a) item
          in (a\<lparr>ai_items := mput (al_id item) item (ai_items a)\<rparr>,
              \<lparr>ag_item = item, ag_created = False, ag_dedup = True, ag_suppressed = False\<rparr>)
      | None \<Rightarrow>
          let i = seq_id ''alert-'' (ai_next a + 1); item = new_alert now i fp inp (ai_policy a)
          in (a\<lparr>ai_next := ai_next a + 1, ai_items := mput i item (ai_items a), ai_by_fingerprint := mput fp i (ai_by_fingerprint a)\<rparr>,
              \<lparr>ag_item = item, ag_created = True, ag_dedup = False, ag_suppressed = False\<rparr>))"

definition Ingest :: "gotime \<Rightarrow> alert_ingest \<Rightarrow> alert_inbox \<Rightarrow> alert_inbox \<times> ingest_result" where
  "Ingest now inp a =
     (let a = cleanupSuppressionsLocked now a; fp = alert_fingerprint inp
      in case mget (ai_suppressions a) fp of
           Some mute \<Rightarrow> if now < su_until mute then ingest_suppressed now fp inp mute a else record_alert now fp inp a
         | None \<Rightarrow> record_alert now fp inp a)"

definition IngestEvent :: "gotime \<Rightarrow> event \<Rightarrow> alert_inbox \<Rightarrow> alert_inbox \<times> ingest_result option" where
  "IngestEvent now e a =
     (let severity = inferSeverityFromEvent e
      in if severity = [] then (a, None)
         else let (a', r) = Ingest now \<lparr>ag_fingerprint = [], ag_type = ev_type e, ag_message = ev_message e, ag_severity = severity,
                  ag_fields = ev_fields e\<rparr> a
              in (a', Some r))"

definition set_alert_status :: "alert_status \<Rightarrow> string \<Rightarrow> alert_inbox \<Rightarrow> alert_inbox \<times> alert result" where
  "set_alert_status status i a =
     (case mget (ai_items a) (TrimSpace i) of
        None \<Rightarrow> (a, Inl ''alert not found'')
      | Some item \<Rightarrow>
          let item = item\<lparr>al_status := status\<rparr> in (a\<lparr>ai_items := mput (TrimSpace i) item (ai_items a)\<rparr>, Inr item))"

definition Acknowledge :: "string \<Rightarrow> alert_inbox \<Rightarrow> alert_inbox \<times> alert result" where
  "Acknowledge i a = set_alert_status AlertAcknowledged i a"

definition Resolve_alert :: "string \<Rightarrow> alert_inbox \<Rightarrow> alert_inbox \<times> alert result" where
  "Resolve_alert i a = set_alert_status AlertResolved i a"

definition Get_alert :: "string \<Rightarrow> alert_inbox \<Rightarrow> alert result" where
  "Get_alert i a = (case mget (ai_items a) (TrimSpace i) of None \<Rightarrow> Inl ''alert not found'' | Some item \<Rightarrow> Inr item)"

definition Suppress :: "gotime \<Rightarrow> string \<Rightarrow> duration \<Rightarrow> string \<Rightarrow> alert_inbox \<Rightarrow> alert_inbox \<times> suppression result" where
  "Suppress now fingerprint d reason a =
     (let fp = TrimSpace (ToLower fingerprint)
      in if fp = [] then (a, Inl ''fingerprint is required'')
         else if d \<le> 0 then (a, Inl ''duration must be positive'')
         else let cur = mget_or \<lparr>su_fingerprint = [], su_until = 0, su_reason = [], su_hits = 0\<rparr> (ai_suppressions a) fp;
                  cur = cur\<lparr>su_fingerprint := fp, su_reason := TrimSpace reason, su_until := now + d\<rparr>
              in (a\<lparr>ai_suppressions := mput fp cur (ai_suppressions a)\<rparr>, Inr cur))"

definition ClearSuppression :: "string \<Rightarrow> alert_inbox \<Rightarrow> alert_inbox \<times> bool" where
  "ClearSuppression fingerprint a =
     (let fp = TrimSpace (ToLower fingerprint)
      in if fp = [] then (a, False)
         else case mget (ai_suppressions a) fp of
           None \<Rightarrow> (a, False)
         | Some _ \<Rightarrow> (a\<lparr>ai_suppressions := mdel fp (ai_suppressions a)\<rparr>, True))"

definition List_alerts :: "gotime \<Rightarrow> string \<Rightarrow> int \<Rightarrow> alert_inbox \<Rightarrow> alert_inbox \<times> alert list" where
  "List_alerts now status limit a =
     (let limit = (if limit \<le> 0 then 200 else limit); status = lower_trim status; a = cleanupSuppressionsLocked now a;
          out = newest_first al_last (filter (\<lambda>x. status = [] \<or> status = ''all'' \<or> status_text (al_status x) = status) (map snd (ai_items a)))
      in (a, take (nat limit) out))"

definition Suppressions :: "gotime \<Rightarrow> alert_inbox \<Rightarrow> alert_inbox \<times> suppression list" where
  "Suppressions now a =
     (let a = cleanupSuppressionsLocked now a in (a, sort_key (\<lambda>x. (su_until x, su_fingerprint x)) (map snd (ai_suppressions a))))"

definition count_status :: "alert_status \<Rightarrow> alert_inbox \<Rightarrow> int" where
  "count_status st a = int (length (filter (\<lambda>x. al_status x = st) (map snd (ai_items a))))"

definition Summary :: "gotime \<Rightarrow> alert_inbox \<Rightarrow> alert_inbox \<times> alert_summary" where
  "Summary now a =
     (let a = cleanupSuppressionsLocked now a
      in (a, \<lparr>ay_open = count_status AlertOpen a, ay_acknowledged = count_status AlertAcknowledged a,
              ay_resolved = count_status AlertResolved a, ay_suppressions = int (length (ai_suppressions a)), ay_total = int (length (ai_items a))\<rparr>))"

definition SetRoutingPolicy :: "gotime \<Rightarrow> routing_policy \<Rightarrow> alert_inbox \<Rightarrow> alert_inbox \<times> routing_policy result" where
  "SetRoutingPolicy now p a =
     (let policy = \<lparr>rt_critical = normalizeAlertRoute (TrimSpace (rt_critical p)), rt_high = normalizeAlertRoute (TrimSpace (rt_high p)),
            rt_medium = normalizeAlertRoute (TrimSpace (rt_medium p)), rt_low = normalizeAlertRoute (TrimSpace (rt_low p)), rt_updated = now\<rparr>
      in if rt_critical policy = [] \<or> rt_high policy = [] \<or> rt_medium policy = [] \<or> rt_low policy = []
         then (a, Inl ''routing policy routes must be pager, ticket, chatops, or digest'')
         else (a\<lparr>ai_policy := policy\<rparr>, Inr policy))"

section \<open>Deduplication\<close>

text \<open>
  The state of a run is the inbox and a log of the alerts taken in: fingerprint, normalised severity, and whether it was suppressed.
\<close>

type_synonym alert_log = "(string \<times> string \<times> bool) list"

datatype alert_op = AIngest gotime alert_ingest | AIngestEvent gotime event | AAcknowledge string | AResolve string
  | ASuppress gotime string duration string | AClear string | AList gotime string int | ASummary gotime | APolicy gotime routing_policy

definition event_ingest :: "event \<Rightarrow> alert_ingest" where
  "event_ingest e = \<lparr>ag_fingerprint = [], ag_type = ev_type e, ag_message = ev_message e, ag_severity = inferSeverityFromEvent e, ag_fields = ev_fields e\<rparr>"

definition take_in :: "gotime \<Rightarrow> alert_ingest \<Rightarrow> alert_inbox \<times> alert_log \<Rightarrow> alert_inbox \<times> alert_log" where
  "take_in now inp st =
     (let (a, r) = Ingest now inp (fst st) in (a, snd st @ [(alert_fingerprint inp, normalizeSeverity (ag_severity inp), ag_suppressed r)]))"

fun alert_step :: "alert_inbox \<times> alert_log \<Rightarrow> alert_op \<Rightarrow> alert_inbox \<times> alert_log" where
  "alert_step st (AIngest now inp) = take_in now inp st"
| "alert_step st (AIngestEvent now e) = (if inferSeverityFromEvent e = [] then st else take_in now (event_ingest e) st)"
| "alert_step st (AAcknowledge i) = (fst (Acknowledge i (fst st)), snd st)"
| "alert_step st (AResolve i) = (fst (Resolve_alert i (fst st)), snd st)"
| "alert_step st (ASuppress now fp d reason) = (fst (Suppress now fp d reason (fst st)), snd st)"
| "alert_step st (AClear fp) = (fst (ClearSuppression fp (fst st)), snd st)"
| "alert_step st (AList now status limit) = (fst (List_alerts now status limit (fst st)), snd st)"
| "alert_step st (ASummary now) = (fst (Summary now (fst st)), snd st)"
| "alert_step st (APolicy now p) = (fst (SetRoutingPolicy now p (fst st)), snd st)"

lemma IngestEvent_step: "alert_step (a, log) (AIngestEvent now e) = (fst (IngestEvent now e a), snd (alert_step (a, log) (AIngestEvent now e)))"
  by (simp add: IngestEvent_def event_ingest_def take_in_def Let_def split_beta)

definition counted :: "alert_log \<Rightarrow> string \<Rightarrow> string list" where
  "counted log fp = map (fst \<circ> snd) (filter (\<lambda>(f, v, mute). f = fp \<and> \<not> mute) log)"

lemma counted_snoc: "counted (log @ [(f, v, mute)]) fp = counted log fp @ (if f = fp \<and> \<not> mute then [v] else [])"
  by (simp add: counted_def)

definition worst :: "string list \<Rightarrow> int" where
  "worst vs = fold (\<lambda>v m. max m (severityRank v)) vs 0"

lemma worst_snoc [simp]: "worst (vs @ [v]) = max (worst vs) (severityRank v)"
  by (simp add: worst_def)

lemma normalizeSeverity_idem [simp]: "normalizeSeverity (normalizeSeverity v) = normalizeSeverity v"
proof -
  have fixed: "normalizeSeverity x = x" if "x \<in> {''critical'', ''high'', ''medium'', ''low''}" for x
  proof -
    have "\<forall>x \<in> set [''critical'', ''high'', ''medium'', ''low'']. normalizeSeverity x = x" by code_simp
    then show ?thesis using that by auto
  qed
  have "normalizeSeverity v \<in> {''critical'', ''high'', ''medium'', ''low''}" unfolding normalizeSeverity_def Let_def by auto
  then show ?thesis by (rule fixed)
qed

lemma severityRank_normalize [simp]: "severityRank (normalizeSeverity v) = severityRank v"
  by (simp add: severityRank_def)

lemma severityRank_choose: "severityRank (chooseMaxSeverity v w) = max (severityRank v) (severityRank w)"
  by (simp add: chooseMaxSeverity_def)

lemma alert_fingerprint_ne: "alert_fingerprint inp \<noteq> []"
  by (simp add: alert_fingerprint_def Let_def)

definition alert_ok :: "alert_log \<Rightarrow> string gomap \<Rightarrow> string \<Rightarrow> alert \<Rightarrow> bool" where
  "alert_ok log index i x \<longleftrightarrow> al_id x = i \<and> mget index (al_fingerprint x) = Some i \<and>
     al_count x = int (length (counted log (al_fingerprint x))) \<and> severityRank (al_severity x) = worst (counted log (al_fingerprint x))"

definition index_ok :: "alert_log \<Rightarrow> alert gomap \<Rightarrow> string \<Rightarrow> string \<Rightarrow> bool" where
  "index_ok log items fp i \<longleftrightarrow> (\<exists>x. mget items i = Some x \<and> al_fingerprint x = fp)"

definition alert_inv :: "alert_inbox \<times> alert_log \<Rightarrow> bool" where
  "alert_inv st \<longleftrightarrow> (case st of (a, log) \<Rightarrow>
     store_inv ai_items ai_next ''alert-'' a \<and> items_ok (alert_ok log (ai_by_fingerprint a)) (ai_items a) \<and>
     items_ok (index_ok log (ai_items a)) (ai_by_fingerprint a) \<and> wf_map (ai_by_fingerprint a) \<and>
     (\<forall>fp. mget (ai_by_fingerprint a) fp = None \<longrightarrow> counted log fp = []))"

lemma alert_invD:
  assumes "alert_inv (a, log)"
  shows "store_inv ai_items ai_next ''alert-'' a" "items_ok (alert_ok log (ai_by_fingerprint a)) (ai_items a)"
    "items_ok (index_ok log (ai_items a)) (ai_by_fingerprint a)" "wf_map (ai_by_fingerprint a)"
    "mget (ai_by_fingerprint a) fp = None \<Longrightarrow> counted log fp = []"
  using assms by (simp_all add: alert_inv_def)

lemma alert_inv_cong:
  assumes "alert_inv (a, log)" "ai_items a' = ai_items a" "ai_next a' = ai_next a" "ai_by_fingerprint a' = ai_by_fingerprint a"
  shows "alert_inv (a', log)"
  using assms by (simp add: alert_inv_def store_inv_def)

lemma alert_inv_muted: "alert_inv (a, log) \<Longrightarrow> alert_inv (a, log @ [(fp, v, True)])"
  by (simp add: alert_inv_def alert_ok_def index_ok_def counted_snoc items_ok_def)

lemma existing_alert_iff:
  assumes "alert_inv (a, log)"
  shows "existing_alert fp a = Some x \<longleftrightarrow> mget (ai_by_fingerprint a) fp = Some (al_id x) \<and> mget (ai_items a) (al_id x) = Some x \<and> al_fingerprint x = fp"
    and "existing_alert fp a = None \<longleftrightarrow> mget (ai_by_fingerprint a) fp = None"
proof -
  note D = alert_invD [OF assms]
  have blank: "mget (ai_items a) [] = None"
  proof (rule ccontr)
    assume "mget (ai_items a) [] \<noteq> None"
    then have "[] \<in> set (mkeys (ai_items a))" unfolding set_mkeys by blast
    then show False using D(1) by (auto simp: store_inv_def ids_below_def seq_id_def simp del: set_map)
  qed
  have known: "\<exists>x. mget (ai_items a) i = Some x \<and> al_fingerprint x = fp \<and> al_id x = i" if "mget (ai_by_fingerprint a) fp = Some i" for i
    using items_okD [OF D(3) that] items_okD [OF D(2)] by (auto simp: index_ok_def alert_ok_def)
  show "existing_alert fp a = Some x \<longleftrightarrow> mget (ai_by_fingerprint a) fp = Some (al_id x) \<and> mget (ai_items a) (al_id x) = Some x \<and> al_fingerprint x = fp"
    using known blank by (auto simp: existing_alert_def mget_or_def split: option.splits)
  show "existing_alert fp a = None \<longleftrightarrow> mget (ai_by_fingerprint a) fp = None"
    using known blank by (auto simp: existing_alert_def mget_or_def split: option.splits)
qed

text \<open>A new version of an alert, with the counts that the extended log asks for.\<close>

lemma alert_inv_update:
  assumes inv: "alert_inv (a, log)" and x: "mget (ai_items a) i = Some x"
    and y: "al_id y = i" "al_fingerprint y = al_fingerprint x"
    and log': "log' = log \<or> (\<exists>v. log' = log @ [(al_fingerprint x, v, True)]) \<or> (\<exists>v. log' = log @ [(al_fingerprint x, v, False)])"
    and n: "al_count y = int (length (counted log' (al_fingerprint x)))" "severityRank (al_severity y) = worst (counted log' (al_fingerprint x))"
  shows "alert_inv (a\<lparr>ai_items := mput i y (ai_items a)\<rparr>, log')"
proof -
  note D = alert_invD [OF inv]
  have ix: "mget (ai_by_fingerprint a) (al_fingerprint x) = Some i" using items_okD [OF D(2) x] by (simp add: alert_ok_def)
  have others: "counted log' fp = counted log fp" if "fp \<noteq> al_fingerprint x" for fp
    using log' that by (auto simp: counted_snoc)
  have "store_inv ai_items ai_next ''alert-'' (a\<lparr>ai_items := mput i y (ai_items a)\<rparr>)"
    using store_inv_step [OF D(1), of "a\<lparr>ai_items := mput i y (ai_items a)\<rparr>"] keys_step_update_some [OF x] by simp
  moreover have "items_ok (alert_ok log' (ai_by_fingerprint a)) (mput i y (ai_items a))"
  proof (rule items_okI)
    fix k z
    assume z: "mget (mput i y (ai_items a)) k = Some z"
    show "alert_ok log' (ai_by_fingerprint a) k z"
    proof (cases "k = i")
      case True
      then show ?thesis using z y n ix by (simp add: alert_ok_def)
    next
      case False
      then have ok: "alert_ok log (ai_by_fingerprint a) k z" using z items_okD [OF D(2)] by simp
      then have "al_fingerprint z \<noteq> al_fingerprint x" using ix False by (auto simp: alert_ok_def)
      then show ?thesis using ok others by (simp add: alert_ok_def)
    qed
  qed
  moreover have "items_ok (index_ok log' (mput i y (ai_items a))) (ai_by_fingerprint a)"
  proof (rule items_okI)
    fix f j
    assume "mget (ai_by_fingerprint a) f = Some j"
    then show "index_ok log' (mput i y (ai_items a)) f j" using items_okD [OF D(3)] x y by (fastforce simp: index_ok_def)
  qed
  moreover have "counted log' fp = []" if "mget (ai_by_fingerprint a) fp = None" for fp
    using that ix D(5) [OF that] others [of fp] by (cases "fp = al_fingerprint x") auto
  ultimately show ?thesis using D(4) by (simp add: alert_inv_def)
qed

lemma alert_inv_same:
  assumes inv: "alert_inv (a, log)" and x: "mget (ai_items a) i = Some x"
    and y: "al_id y = al_id x" "al_fingerprint y = al_fingerprint x" "al_count y = al_count x" "al_severity y = al_severity x"
  shows "alert_inv (a\<lparr>ai_items := mput i y (ai_items a)\<rparr>, log)"
proof -
  have "alert_ok log (ai_by_fingerprint a) i x" by (rule items_okD [OF alert_invD(2) [OF inv] x])
  then show ?thesis using alert_inv_update [OF inv x, of y log] y by (simp add: alert_ok_def)
qed

lemma alert_inv_new:
  assumes inv: "alert_inv (a, log)" and none: "mget (ai_by_fingerprint a) fp = None"
    and y: "al_id y = seq_id ''alert-'' (ai_next a + 1)" "al_fingerprint y = fp" "al_count y = 1" "severityRank (al_severity y) = severityRank v"
  shows "alert_inv (a\<lparr>ai_next := ai_next a + 1, ai_items := mput (al_id y) y (ai_items a), ai_by_fingerprint := mput fp (al_id y) (ai_by_fingerprint a)\<rparr>,
    log @ [(fp, v, False)])"
proof -
  note D = alert_invD [OF inv]
  let ?i = "al_id y"
  have fresh: "mget (ai_items a) ?i = None" using store_inv_fresh [OF D(1)] y by simp
  have zero: "counted log fp = []" by (rule D(5) [OF none])
  have others: "counted (log @ [(fp, v, False)]) f = counted log f" if "f \<noteq> fp" for f using that by (simp add: counted_snoc)
  have "store_inv ai_items ai_next ''alert-'' (a\<lparr>ai_next := ai_next a + 1, ai_items := mput ?i y (ai_items a), ai_by_fingerprint := mput fp ?i (ai_by_fingerprint a)\<rparr>)"
    by (rule store_inv_step [OF D(1)]) (simp add: y(1))
  moreover have "items_ok (alert_ok (log @ [(fp, v, False)]) (mput fp ?i (ai_by_fingerprint a))) (mput ?i y (ai_items a))"
  proof (rule items_okI)
    fix k z
    assume z: "mget (mput ?i y (ai_items a)) k = Some z"
    show "alert_ok (log @ [(fp, v, False)]) (mput fp ?i (ai_by_fingerprint a)) k z"
    proof (cases "k = ?i")
      case True
      have "0 \<le> severityRank v" by (simp add: severityRank_def Let_def)
      then show ?thesis using True z y zero by (auto simp: alert_ok_def counted_snoc worst_def)
    next
      case False
      then have ok: "alert_ok log (ai_by_fingerprint a) k z" using z items_okD [OF D(2)] by simp
      then have "al_fingerprint z \<noteq> fp" using none by (auto simp: alert_ok_def)
      then show ?thesis using ok others by (simp add: alert_ok_def)
    qed
  qed
  moreover have "items_ok (index_ok (log @ [(fp, v, False)]) (mput ?i y (ai_items a))) (mput fp ?i (ai_by_fingerprint a))"
  proof (rule items_okI)
    fix f j
    assume "mget (mput fp ?i (ai_by_fingerprint a)) f = Some j"
    then show "index_ok (log @ [(fp, v, False)]) (mput ?i y (ai_items a)) f j"
      using items_okD [OF D(3)] y fresh by (fastforce simp: index_ok_def split: if_splits)
  qed
  ultimately show ?thesis using D(4,5) others by (simp add: alert_inv_def)
qed

lemma cleanup_alerts_inv: "alert_inv (a, log) \<Longrightarrow> alert_inv (cleanupSuppressionsLocked now a, log)"
  by (erule alert_inv_cong) (simp_all add: cleanupSuppressionsLocked_def)

lemma ingest_suppressed_inv:
  assumes "alert_inv (a, log)"
  shows "alert_inv (fst (ingest_suppressed now fp inp q a), log @ [(fp, v, True)]) \<and> ag_suppressed (snd (ingest_suppressed now fp inp q a))"
proof -
  let ?a = "a\<lparr>ai_suppressions := mput fp (q\<lparr>su_hits := su_hits q + 1\<rparr>) (ai_suppressions a)\<rparr>"
  have inv: "alert_inv (?a, log)" by (rule alert_inv_cong [OF assms]) simp_all
  show ?thesis
  proof (cases "existing_alert fp ?a")
    case None
    then show ?thesis using alert_inv_muted [OF inv] by (simp add: ingest_suppressed_def Let_def)
  next
    case (Some x)
    then have "mget (ai_items ?a) (al_id x) = Some x" using existing_alert_iff(1) [OF inv] by blast
    from alert_inv_same [OF inv this, of "x\<lparr>al_suppressed := al_suppressed x + 1, al_last := now\<rparr>"] alert_inv_muted
    show ?thesis using Some by (simp add: ingest_suppressed_def Let_def)
  qed
qed

lemma record_alert_inv:
  assumes inv: "alert_inv (a, log)"
  shows "alert_inv (fst (record_alert now fp inp a), log @ [(fp, normalizeSeverity (ag_severity inp), False)]) \<and>
    \<not> ag_suppressed (snd (record_alert now fp inp a))"
proof (cases "existing_alert fp a")
  case None
  let ?y = "new_alert now (seq_id ''alert-'' (ai_next a + 1)) fp inp (ai_policy a)"
  have "mget (ai_by_fingerprint a) fp = None" using None existing_alert_iff(2) [OF inv] by blast
  from alert_inv_new [OF inv this, of ?y "normalizeSeverity (ag_severity inp)"] show ?thesis
    using None by (simp add: record_alert_def Let_def new_alert_def)
next
  case (Some x)
  then have x: "mget (ai_items a) (al_id x) = Some x" and fp: "al_fingerprint x = fp" using existing_alert_iff(1) [OF inv] by blast+
  have "alert_ok log (ai_by_fingerprint a) (al_id x) x" by (rule items_okD [OF alert_invD(2) [OF inv] x])
  then have "alert_inv (a\<lparr>ai_items := mput (al_id x) (seen_again now inp (ai_policy a) x) (ai_items a)\<rparr>, log @ [(fp, normalizeSeverity (ag_severity inp), False)])"
    by (intro alert_inv_update [OF inv x]) (simp_all add: seen_again_def fp counted_snoc alert_ok_def severityRank_choose Let_def)
  moreover have "al_id (seen_again now inp (ai_policy a) x) = al_id x" by (simp add: seen_again_def Let_def)
  ultimately show ?thesis using Some by (simp add: record_alert_def Let_def)
qed

lemma take_in_inv: "alert_inv (a, log) \<Longrightarrow> alert_inv (take_in now inp (a, log))"
  using ingest_suppressed_inv [OF cleanup_alerts_inv] record_alert_inv [OF cleanup_alerts_inv]
  by (auto simp: take_in_def Ingest_def Let_def split_beta split: option.split)

lemma set_alert_status_inv: "alert_inv (a, log) \<Longrightarrow> alert_inv (fst (set_alert_status st i a), log)"
  using alert_inv_same by (auto simp: set_alert_status_def Let_def split: option.split)

lemma alert_step_inv: "alert_inv st \<Longrightarrow> alert_inv (alert_step st op)"
proof -
  assume inv: "alert_inv st"
  obtain a log where st: "st = (a, log)" by fastforce
  note inv = inv [unfolded st]
  show ?thesis
  proof (cases op)
    case (ASuppress now fp d reason)
    have "alert_inv (fst (Suppress now fp d reason a), log)" by (rule alert_inv_cong [OF inv]) (simp_all add: Suppress_def Let_def)
    then show ?thesis by (simp add: st ASuppress)
  next
    case (AClear fp)
    have "alert_inv (fst (ClearSuppression fp a), log)"
      by (rule alert_inv_cong [OF inv]) (simp_all add: ClearSuppression_def Let_def split: option.split)
    then show ?thesis by (simp add: st AClear)
  next
    case (APolicy now p)
    have "alert_inv (fst (SetRoutingPolicy now p a), log)" by (rule alert_inv_cong [OF inv]) (simp_all add: SetRoutingPolicy_def Let_def)
    then show ?thesis by (simp add: st APolicy)
  qed (use inv in \<open>simp_all add: st take_in_inv set_alert_status_inv cleanup_alerts_inv Acknowledge_def Resolve_alert_def List_alerts_def Summary_def Let_def\<close>)
qed

interpretation alerts: stepper alert_step alert_inv
  by unfold_locales (rule alert_step_inv)

lemma NewAlertInbox_inv: "alert_inv (NewAlertInbox now, [])"
  by (simp add: alert_inv_def NewAlertInbox_def store_inv_def counted_def)

text \<open>C29: after any sequence of operations, there is exactly one alert for each fingerprint that was taken in unsuppressed at least once, and none for
  the others; it counts exactly these occurrences, and its severity is the worst of theirs.\<close>

theorem alert_dedup_exact:
  assumes "(a, log) = foldl alert_step (NewAlertInbox t, []) ops"
  shows "(counted log fp = [] \<longrightarrow> (\<forall>i x. mget (ai_items a) i = Some x \<longrightarrow> al_fingerprint x \<noteq> fp)) \<and>
    (counted log fp \<noteq> [] \<longrightarrow> (\<exists>!i. \<exists>x. mget (ai_items a) i = Some x \<and> al_fingerprint x = fp)) \<and>
    (\<forall>i x. mget (ai_items a) i = Some x \<and> al_fingerprint x = fp \<longrightarrow>
       al_count x = int (length (counted log fp)) \<and> severityRank (al_severity x) = worst (counted log fp))"
proof -
  have "alert_inv (foldl alert_step (NewAlertInbox t, []) ops)" by (rule alerts.run_inv [OF NewAlertInbox_inv])
  then have inv: "alert_inv (a, log)" unfolding assms .
  note D = alert_invD [OF inv]
  have ok: "mget (ai_by_fingerprint a) fp = Some i \<and> al_count x = int (length (counted log fp)) \<and> severityRank (al_severity x) = worst (counted log fp)"
    if "mget (ai_items a) i = Some x" "al_fingerprint x = fp" for i x
    using items_okD [OF D(2) that(1)] that(2) by (simp add: alert_ok_def)
  have pos: "counted log fp \<noteq> []" if "mget (ai_items a) i = Some x" "al_fingerprint x = fp" for i x
  proof
    assume "counted log fp = []"
    then have "severityRank (al_severity x) = 0" using ok [OF that] by (simp add: worst_def)
    then show False by (simp add: severityRank_def Let_def split: if_splits)
  qed
  have "\<exists>!i. \<exists>x. mget (ai_items a) i = Some x \<and> al_fingerprint x = fp" if ne: "counted log fp \<noteq> []"
  proof -
    obtain i where i: "mget (ai_by_fingerprint a) fp = Some i" using D(5) [of fp] ne by fastforce
    then have "\<exists>x. mget (ai_items a) i = Some x \<and> al_fingerprint x = fp" using items_okD [OF D(3)] by (simp add: index_ok_def)
    moreover have "j = i" if "\<exists>x. mget (ai_items a) j = Some x \<and> al_fingerprint x = fp" for j using ok that i by auto
    ultimately show ?thesis by (intro ex1I [of _ i])
  qed
  with ok pos show ?thesis by blast
qed

section \<open>Suppression\<close>

text \<open>An alert is suppressed exactly while a suppression of its fingerprint is running; nothing but its hit counters then changes.\<close>

lemma Ingest_suppressed_iff:
  "ag_suppressed (snd (Ingest now inp a)) \<longleftrightarrow>
     (\<exists>q. mget (ai_suppressions (cleanupSuppressionsLocked now a)) (alert_fingerprint inp) = Some q \<and> now < su_until q)"
  by (auto simp: Ingest_def ingest_suppressed_def record_alert_def Let_def split: option.split)

text \<open>The answer for a suppressed alert that has no item yet names the built-in route of its severity, not the one of the policy in force.\<close>

lemma suppressed_route_ignores_policy:
  assumes "existing_alert fp a = None"
  shows "al_route (ag_item (snd (ingest_suppressed now fp inp q a))) = routeForSeverity (normalizeSeverity (ag_severity inp))"
proof -
  have "existing_alert fp (a\<lparr>ai_suppressions := m\<rparr>) = None" for m using assms by (simp add: existing_alert_def)
  then show ?thesis by (simp add: ingest_suppressed_def suppressed_preview_def Let_def)
qed

section \<open>Example\<close>

definition demo_alert :: "string \<Rightarrow> alert_ingest" where
  "demo_alert v = \<lparr>ag_fingerprint = ''disk'', ag_type = ''disk.full'', ag_message = [], ag_severity = v, ag_fields = []\<rparr>"

theorem alert_dedup_exact_witness:
  "let a = fst (foldl alert_step (NewAlertInbox 0, [])
         [AIngest 1 (demo_alert ''low''), AIngest 2 (demo_alert ''P0''), ASuppress 3 ''Disk'' 10 [], AIngest 4 (demo_alert ''high''), AResolve ''alert-1''])
   in \<exists>x. mget (ai_items a) ''alert-1'' = Some x \<and> al_count x = 2 \<and> severityRank (al_severity x) = 4"
proof -
  define ops where "ops = [AIngest 1 (demo_alert ''low''), AIngest 2 (demo_alert ''P0''), ASuppress 3 ''Disk'' 10 [], AIngest 4 (demo_alert ''high''), AResolve ''alert-1'']"
  define a where "a = fst (foldl alert_step (NewAlertInbox 0, []) ops)"
  define log where "log = snd (foldl alert_step (NewAlertInbox 0, []) ops)"
  have run: "(a, log) = foldl alert_step (NewAlertInbox 0, []) ops" by (simp add: a_def log_def)
  have "map_option al_fingerprint (mget (ai_items a) ''alert-1'') = Some ''disk''" unfolding a_def ops_def by code_simp
  then obtain x where x: "mget (ai_items a) ''alert-1'' = Some x" "al_fingerprint x = ''disk''" by auto
  have c: "counted log ''disk'' = [''low'', ''critical'']" unfolding log_def ops_def by code_simp
  have "worst [''low'', ''critical''] = 4" by code_simp
  then have "al_count x = 2 \<and> severityRank (al_severity x) = 4"
    using alert_dedup_exact [OF run, of "''disk''"] x c by auto
  with x(1) show ?thesis unfolding Let_def a_def ops_def by blast
qed

end
