(* ===== verification/Delivery.thy ===== *)
theory Delivery
  imports Alerts
begin

text \<open>
  How events and alerts leave the control plane: webhooks (internal/control/webhook.go), notifications of alerts
  (notification_router.go) and the event bus (event_bus.go). The network is a parameter: for the number of a delivery and
  a request it gives the status code of the answer or an error (of building the request or of sending it), and for
  the number the time at which it is recorded; the encodings of payloads, \<^verbatim>\<open>url.Parse\<close> and the HMAC are parameters
  too. Each dispatcher copies its targets under the lock and then delivers to them one by one, taking the lock for each
  record; \<open>store_webhook_delivery\<close> and its companions are these steps.
\<close>

record http_request =
  hq_url :: string
  hq_headers :: "string gomap"
  hq_body :: string

record network =
  nt_now :: "int \<Rightarrow> gotime"
  nt_answer :: "int \<Rightarrow> http_request \<Rightarrow> int result"

definition is_2xx :: "int \<Rightarrow> bool" where
  "is_2xx code \<longleftrightarrow> 200 \<le> code \<and> code < 300"

text \<open>The outcome of a delivery as the dispatchers record it: status code and error.\<close>

definition outcome :: "network \<Rightarrow> int \<Rightarrow> http_request \<Rightarrow> int \<times> string option" where
  "outcome net n req =
     (case nt_answer net n req of
        Inl e \<Rightarrow> (0, Some e)
      | Inr code \<Rightarrow> if is_2xx code then (code, None) else (code, Some ''non-2xx status''))"

text \<open>The ring of deliveries: when it is full its entries are shifted by one.\<close>

definition ring_push :: "nat \<Rightarrow> 'a \<Rightarrow> 'a list \<Rightarrow> 'a list" where
  "ring_push n x xs = (if length xs \<ge> n then tl xs @ [x] else xs @ [x])"

lemma ring_push_lasts:
  assumes "0 < n" "xs = drop (length ys - n) ys"
  shows "ring_push n x xs = drop (length (ys @ [x]) - n) (ys @ [x])"
proof (cases "n \<le> length ys")
  case True
  then have "length xs = n" using assms by simp
  then have "ring_push n x xs = drop 1 xs @ [x]" by (simp add: ring_push_def drop_Suc)
  also have "\<dots> = drop (Suc (length ys - n)) ys @ [x]" using assms(2) by simp
  finally show ?thesis using True assms(1) by (simp add: Suc_diff_le)
qed (use assms in \<open>simp add: ring_push_def\<close>)

section \<open>Counters of deliveries\<close>

text \<open>
  What webhooks and notification targets share: storing a delivery counts it as a success or a failure of its target
  and pushes it on the ring. The contract is interpreted for both.
\<close>

locale delivery_counters =
  fixes deliver :: "'s \<Rightarrow> 'd \<Rightarrow> 's" and counts :: "'s \<Rightarrow> string \<Rightarrow> (int \<times> int) option" and ring :: "'s \<Rightarrow> 'd list" and cap :: "'s \<Rightarrow> nat"
    and target :: "'d \<Rightarrow> string" and ok :: "'d \<Rightarrow> bool"
  assumes counts_deliver: "counts (deliver s d) k =
      map_option (\<lambda>(a, b). if k = target d then (if ok d then (a + 1, b) else (a, b + 1)) else (a, b)) (counts s k)"
    and ring_deliver: "ring (deliver s d) = ring_push (cap s) d (ring s)"
    and cap_deliver: "cap (deliver s d) = cap s"
begin

definition successes :: "string \<Rightarrow> 'd list \<Rightarrow> int" where
  "successes k ds = int (length (filter (\<lambda>d. target d = k \<and> ok d) ds))"

definition failures :: "string \<Rightarrow> 'd list \<Rightarrow> int" where
  "failures k ds = int (length (filter (\<lambda>d. target d = k \<and> \<not> ok d) ds))"

lemma counts_all: "counts (foldl deliver s ds) k = map_option (\<lambda>(a, b). (a + successes k ds, b + failures k ds)) (counts s k)"
proof (induction ds arbitrary: s)
  case Nil
  show ?case by (simp add: successes_def failures_def option.map_ident_strong split_beta)
next
  case (Cons d ds)
  show ?case unfolding foldl_Cons Cons counts_deliver
    by (cases "counts s k") (auto simp: successes_def failures_def)
qed

lemma cap_all: "cap (foldl deliver s ds) = cap s"
  by (induction ds arbitrary: s) (simp_all add: cap_deliver)

lemma ring_all:
  assumes "0 < cap s" "ring s = drop (length log - cap s) log"
  shows "ring (foldl deliver s ds) = drop (length (log @ ds) - cap s) (log @ ds)"
  using assms
proof (induction ds arbitrary: s log)
  case (Cons d ds)
  have "ring (deliver s d) = drop (length (log @ [d]) - cap s) (log @ [d])" unfolding ring_deliver by (rule ring_push_lasts [OF Cons.prems])
  then show ?case using Cons.IH [of "deliver s d" "log @ [d]"] Cons.prems(1) by (simp add: cap_deliver)
qed simp

end

section \<open>Webhooks\<close>

record webhook =
  wh_id :: string
  wh_name :: string
  wh_url :: string
  wh_prefix :: string
  wh_enabled :: bool
  wh_secret :: string
  wh_success :: int
  wh_failure :: int
  wh_error :: string
  wh_delivered :: gotime
  wh_created :: gotime
  wh_updated :: gotime

record webhook_delivery =
  wd_id :: string
  wd_webhook :: string
  wd_type :: string
  wd_status :: string
  wd_code :: int
  wd_error :: string
  wd_time :: gotime

record webhook_dispatcher =
  wx_next :: int
  wx_next_delivery :: int
  wx_webhooks :: "webhook gomap"
  wx_deliveries :: "webhook_delivery list"
  wx_cap :: nat

definition NewWebhookDispatcher :: "int \<Rightarrow> webhook_dispatcher" where
  "NewWebhookDispatcher limit = \<lparr>wx_next = 0, wx_next_delivery = 0, wx_webhooks = [], wx_deliveries = [], wx_cap = nat (if limit \<le> 0 then 5000 else limit)\<rparr>"

definition http_url :: "string \<Rightarrow> bool" where
  "http_url u = (HasPrefix (ToLower (TrimSpace u)) ''http://'' \<or> HasPrefix (ToLower (TrimSpace u)) ''https://'')"

definition Register_webhook :: "gotime \<Rightarrow> webhook \<Rightarrow> webhook_dispatcher \<Rightarrow> webhook_dispatcher \<times> webhook result" where
  "Register_webhook now inp d =
     (if TrimSpace (wh_name inp) = [] then (d, Inl ''webhook name is required'')
      else if TrimSpace (wh_url inp) = [] then (d, Inl ''webhook url is required'')
      else if \<not> http_url (wh_url inp) then (d, Inl ''webhook url must be http or https'')
      else if TrimSpace (wh_prefix inp) = [] then (d, Inl ''event_prefix is required'')
      else let cp = inp\<lparr>wh_id := seq_id ''wh-'' (wx_next d + 1), wh_enabled := True, wh_created := now, wh_updated := now\<rparr>
           in (d\<lparr>wx_next := wx_next d + 1, wx_webhooks := mput (wh_id cp) cp (wx_webhooks d)\<rparr>, Inr cp))"

definition List_webhooks :: "webhook_dispatcher \<Rightarrow> webhook list" where
  "List_webhooks d = sort_key wh_id (map snd (wx_webhooks d))"

definition Get_webhook :: "string \<Rightarrow> webhook_dispatcher \<Rightarrow> webhook result" where
  "Get_webhook i d = (case mget (wx_webhooks d) i of None \<Rightarrow> Inl ''webhook not found'' | Some w \<Rightarrow> Inr w)"

definition SetEnabled_webhook :: "gotime \<Rightarrow> string \<Rightarrow> bool \<Rightarrow> webhook_dispatcher \<Rightarrow> webhook_dispatcher \<times> webhook result" where
  "SetEnabled_webhook now i enabled d =
     (case mget (wx_webhooks d) i of
        None \<Rightarrow> (d, Inl ''webhook not found'')
      | Some w \<Rightarrow> let w = w\<lparr>wh_enabled := enabled, wh_updated := now\<rparr> in (d\<lparr>wx_webhooks := mput i w (wx_webhooks d)\<rparr>, Inr w))"

definition count_webhook :: "webhook_delivery \<Rightarrow> webhook \<Rightarrow> webhook" where
  "count_webhook del w =
     (if wd_status del = ''failed''
      then w\<lparr>wh_failure := wh_failure w + 1, wh_error := wd_error del, wh_delivered := wd_time del, wh_updated := wd_time del\<rparr>
      else w\<lparr>wh_success := wh_success w + 1, wh_error := [], wh_delivered := wd_time del, wh_updated := wd_time del\<rparr>)"

definition store_webhook_delivery :: "webhook_dispatcher \<Rightarrow> webhook_delivery \<Rightarrow> webhook_dispatcher" where
  "store_webhook_delivery d del =
     d\<lparr>wx_next_delivery := wx_next_delivery d + 1,
       wx_webhooks := (case mget (wx_webhooks d) (wd_webhook del) of None \<Rightarrow> wx_webhooks d | Some w \<Rightarrow> mput (wd_webhook del) (count_webhook del w) (wx_webhooks d)),
       wx_deliveries := ring_push (wx_cap d) del (wx_deliveries d)\<rparr>"

definition recordDelivery_webhook :: "gotime \<Rightarrow> string \<Rightarrow> string \<Rightarrow> int \<Rightarrow> string option \<Rightarrow> webhook_dispatcher \<Rightarrow> webhook_dispatcher \<times> webhook_delivery" where
  "recordDelivery_webhook now webhookID eventType code err d =
     (let del = \<lparr>wd_id = seq_id ''whdel-'' (wx_next_delivery d + 1), wd_webhook = webhookID, wd_type = eventType,
            wd_status = (case err of Some _ \<Rightarrow> ''failed'' | None \<Rightarrow> ''delivered''), wd_code = code,
            wd_error = (case err of Some e \<Rightarrow> e | None \<Rightarrow> []), wd_time = now\<rparr>
      in (store_webhook_delivery d del, del))"

definition signPayload :: "(string \<Rightarrow> string \<Rightarrow> string) \<Rightarrow> string \<Rightarrow> string \<Rightarrow> string" where
  "signPayload hmac payload secret = ''sha256='' @ hex_encode (hmac secret payload)"

definition webhook_request :: "(string \<Rightarrow> string \<Rightarrow> string) \<Rightarrow> string \<Rightarrow> string \<Rightarrow> webhook \<Rightarrow> http_request" where
  "webhook_request hmac payload eventType w =
     \<lparr>hq_url = wh_url w,
      hq_headers = [(''Content-Type'', ''application/json''), (''X-Masterchef-Event-Type'', eventType)] @
        (if TrimSpace (wh_secret w) \<noteq> [] then [(''X-Masterchef-Signature'', signPayload hmac payload (wh_secret w))] else []),
      hq_body = payload\<rparr>"

definition webhook_wants :: "event \<Rightarrow> webhook \<Rightarrow> bool" where
  "webhook_wants e w \<longleftrightarrow> wh_enabled w \<and> HasPrefix (ev_type e) (wh_prefix w)"

definition dispatch_webhook :: "network \<Rightarrow> (string \<Rightarrow> string \<Rightarrow> string) \<Rightarrow> string \<Rightarrow> event \<Rightarrow> webhook \<Rightarrow>
    webhook_dispatcher \<times> webhook_delivery list \<Rightarrow> webhook_dispatcher \<times> webhook_delivery list" where
  "dispatch_webhook net hmac payload e w st =
     (if \<not> webhook_wants e w then st
      else let n = wx_next_delivery (fst st) + 1; (code, err) = outcome net n (webhook_request hmac payload (ev_type e) w);
               (d, del) = recordDelivery_webhook (nt_now net n) (wh_id w) (ev_type e) code err (fst st)
           in (d, snd st @ [del]))"

definition Dispatch :: "network \<Rightarrow> (string \<Rightarrow> string \<Rightarrow> string) \<Rightarrow> (event \<Rightarrow> string) \<Rightarrow> event \<Rightarrow> webhook_dispatcher \<Rightarrow> webhook_dispatcher \<times> webhook_delivery list" where
  "Dispatch net hmac marshal e d = fold (dispatch_webhook net hmac (marshal e) e) (map snd (wx_webhooks d)) (d, [])"

definition Deliveries_webhook :: "int \<Rightarrow> webhook_dispatcher \<Rightarrow> webhook_delivery list" where
  "Deliveries_webhook limit d = (let limit = (if limit \<le> 0 then 200 else limit) in drop (length (wx_deliveries d) - nat limit) (wx_deliveries d))"

interpretation webhook_counts: delivery_counters store_webhook_delivery
  "\<lambda>d k. map_option (\<lambda>w. (wh_success w, wh_failure w)) (mget (wx_webhooks d) k)" wx_deliveries wx_cap wd_webhook "\<lambda>del. wd_status del \<noteq> ''failed''"
proof (unfold_locales, goal_cases)
  case (1 s d k)
  show ?case by (cases "mget (wx_webhooks s) k"; cases "mget (wx_webhooks s) (wd_webhook d)") (auto simp: store_webhook_delivery_def count_webhook_def)
qed (simp_all add: store_webhook_delivery_def)

text \<open>The deliveries of a dispatch, written down without the state.\<close>

fun webhook_log :: "network \<Rightarrow> (string \<Rightarrow> string \<Rightarrow> string) \<Rightarrow> string \<Rightarrow> event \<Rightarrow> int \<Rightarrow> webhook list \<Rightarrow> webhook_delivery list" where
  "webhook_log net hmac payload e n [] = []"
| "webhook_log net hmac payload e n (w # ws) =
     (let (code, err) = outcome net (n + 1) (webhook_request hmac payload (ev_type e) w)
      in \<lparr>wd_id = seq_id ''whdel-'' (n + 1), wd_webhook = wh_id w, wd_type = ev_type e,
          wd_status = (case err of Some _ \<Rightarrow> ''failed'' | None \<Rightarrow> ''delivered''), wd_code = code,
          wd_error = (case err of Some e \<Rightarrow> e | None \<Rightarrow> []), wd_time = nt_now net (n + 1)\<rparr>
         # webhook_log net hmac payload e (n + 1) ws)"

lemma dispatch_all:
  "fold (dispatch_webhook net hmac payload e) ws (d, out) =
     (foldl store_webhook_delivery d (webhook_log net hmac payload e (wx_next_delivery d) (filter (webhook_wants e) ws)),
      out @ webhook_log net hmac payload e (wx_next_delivery d) (filter (webhook_wants e) ws))"
proof (induction ws arbitrary: d out)
  case (Cons w ws)
  show ?case
  proof (cases "webhook_wants e w")
    case True
    obtain code err where o: "outcome net (wx_next_delivery d + 1) (webhook_request hmac payload (ev_type e) w) = (code, err)" by fastforce
    define del where "del = snd (recordDelivery_webhook (nt_now net (wx_next_delivery d + 1)) (wh_id w) (ev_type e) code err d)"
    have step: "dispatch_webhook net hmac payload e w (d, out) = (store_webhook_delivery d del, out @ [del])"
      using True by (simp add: dispatch_webhook_def o recordDelivery_webhook_def del_def Let_def)
    have "wx_next_delivery (store_webhook_delivery d del) = wx_next_delivery d + 1" by (simp add: store_webhook_delivery_def)
    then show ?thesis using True o by (simp add: step Cons del_def recordDelivery_webhook_def Let_def)
  next
    case False
    then have "dispatch_webhook net hmac payload e w (d, out) = (d, out)" by (simp add: dispatch_webhook_def)
    with False show ?thesis by (simp add: Cons)
  qed
qed simp

lemma webhook_log_nth:
  assumes "i < length ws"
  shows "wd_webhook (webhook_log net hmac payload e n ws ! i) = wh_id (ws ! i) \<and> wd_id (webhook_log net hmac payload e n ws ! i) = seq_id ''whdel-'' (n + int i + 1) \<and>
    (wd_status (webhook_log net hmac payload e n ws ! i) = ''delivered'' \<longleftrightarrow>
      (\<exists>code. nt_answer net (n + int i + 1) (webhook_request hmac payload (ev_type e) (ws ! i)) = Inr code \<and> is_2xx code))"
  using assms
proof (induction ws arbitrary: i n)
  case (Cons w ws)
  show ?case
  proof (cases i)
    case 0
    then show ?thesis by (auto simp: outcome_def Let_def split: sum.split)
  next
    case (Suc j)
    have n: "n + int i + 1 = n + 1 + int j + 1" by (simp add: Suc)
    show ?thesis unfolding n using Cons.IH [of j "n + 1"] Cons.prems by (simp add: Suc Let_def split_beta)
  qed
qed simp

lemma length_webhook_log [simp]: "length (webhook_log net hmac payload e n ws) = length ws"
  by (induction ws arbitrary: n) (simp_all add: Let_def split_beta)

datatype webhook_op = WRegister gotime webhook | WSetEnabled gotime string bool | WDispatch network event

fun webhook_step :: "(string \<Rightarrow> string \<Rightarrow> string) \<Rightarrow> (event \<Rightarrow> string) \<Rightarrow> webhook_dispatcher \<Rightarrow> webhook_op \<Rightarrow> webhook_dispatcher" where
  "webhook_step hmac marshal d (WRegister now inp) = fst (Register_webhook now inp d)"
| "webhook_step hmac marshal d (WSetEnabled now i enabled) = fst (SetEnabled_webhook now i enabled d)"
| "webhook_step hmac marshal d (WDispatch net e) = fst (Dispatch net hmac marshal e d)"

definition webhook_inv :: "webhook_dispatcher \<Rightarrow> bool" where
  "webhook_inv d \<longleftrightarrow> store_inv wx_webhooks wx_next ''wh-'' d \<and> items_ok (\<lambda>i w. wh_id w = i \<and> http_url (wh_url w)) (wx_webhooks d) \<and> 0 < wx_cap d \<and>
     length (wx_deliveries d) \<le> wx_cap d"

lemma store_webhook_inv: "webhook_inv d \<Longrightarrow> webhook_inv (store_webhook_delivery d del)"
proof -
  assume inv: "webhook_inv d"
  let ?d = "store_webhook_delivery d del"
  have "keys_step ''wh-'' (wx_next d) (wx_webhooks d) (wx_next ?d) (wx_webhooks ?d)"
    by (simp add: store_webhook_delivery_def keys_step_update_some split: option.split)
  then have "store_inv wx_webhooks wx_next ''wh-'' ?d" by (rule store_inv_step [rotated]) (use inv in \<open>simp add: webhook_inv_def\<close>)
  moreover have "items_ok (\<lambda>i w. wh_id w = i \<and> http_url (wh_url w)) (wx_webhooks ?d)"
    using inv by (auto simp: webhook_inv_def store_webhook_delivery_def count_webhook_def split: option.split intro!: items_intros dest: items_okD)
  moreover have "0 < wx_cap ?d \<and> length (wx_deliveries ?d) \<le> wx_cap ?d"
    using inv by (auto simp: webhook_inv_def store_webhook_delivery_def ring_push_def)
  ultimately show ?thesis by (simp add: webhook_inv_def)
qed

lemma store_webhooks_inv: "webhook_inv d \<Longrightarrow> webhook_inv (foldl store_webhook_delivery d ds)"
  by (induction ds arbitrary: d) (simp_all add: store_webhook_inv)

lemma webhook_step_inv: "webhook_inv d \<Longrightarrow> webhook_inv (webhook_step hmac marshal d op)"
proof (cases op)
  case (WDispatch net e)
  assume "webhook_inv d"
  then show ?thesis by (simp add: WDispatch Dispatch_def dispatch_all store_webhooks_inv)
next
  case (WRegister now inp)
  assume inv: "webhook_inv d"
  let ?d = "fst (Register_webhook now inp d)"
  have "keys_step ''wh-'' (wx_next d) (wx_webhooks d) (wx_next ?d) (wx_webhooks ?d)" by (simp add: Register_webhook_def Let_def)
  then have "store_inv wx_webhooks wx_next ''wh-'' ?d" by (rule store_inv_step [rotated]) (use inv in \<open>simp add: webhook_inv_def\<close>)
  with inv show ?thesis by (auto simp: WRegister webhook_inv_def Register_webhook_def Let_def intro!: items_intros)
next
  case (WSetEnabled now i enabled)
  assume inv: "webhook_inv d"
  let ?d = "fst (SetEnabled_webhook now i enabled d)"
  have "keys_step ''wh-'' (wx_next d) (wx_webhooks d) (wx_next ?d) (wx_webhooks ?d)"
    by (simp add: SetEnabled_webhook_def Let_def keys_step_update_some split: option.split)
  then have "store_inv wx_webhooks wx_next ''wh-'' ?d" by (rule store_inv_step [rotated]) (use inv in \<open>simp add: webhook_inv_def\<close>)
  with inv show ?thesis by (auto simp: WSetEnabled webhook_inv_def SetEnabled_webhook_def Let_def split: option.split intro!: items_intros dest: items_okD)
qed

interpretation webhooks: stepper "webhook_step hmac marshal" webhook_inv for hmac marshal
  by unfold_locales (rule webhook_step_inv)

lemma NewWebhookDispatcher_inv: "webhook_inv (NewWebhookDispatcher limit)"
  by (simp add: webhook_inv_def NewWebhookDispatcher_def store_inv_def)

text \<open>after any sequence of operations, dispatching an event delivers it exactly once to each enabled webhook whose prefix the type of the event
  has, and to no other, in any order of the map; a delivery counts as delivered exactly when the network answered with a status from 200 to 299.
  The counters of every webhook grow by its successes and failures in this dispatch, the ring keeps the latest
  deliveries, and the request carries a signature of the payload exactly when the webhook has a secret.\<close>

theorem webhook_dispatch_exact:
  assumes d: "d = foldl (webhook_step hmac marshal) (NewWebhookDispatcher limit) ops" and run: "Dispatch net hmac marshal e d = (d', ds)"
    and ws: "ws = filter (webhook_wants e) (map snd (wx_webhooks d))"
  shows "map wd_webhook ds = map wh_id ws \<and> distinct (map wd_webhook ds) \<and>
    (\<forall>i < length ws. wd_status (ds ! i) = ''delivered'' \<longleftrightarrow>
      (\<exists>code. nt_answer net (wx_next_delivery d + int i + 1) (webhook_request hmac (marshal e) (ev_type e) (ws ! i)) = Inr code \<and> is_2xx code)) \<and>
    (\<forall>k w. mget (wx_webhooks d) k = Some w \<longrightarrow> (\<exists>w'. mget (wx_webhooks d') k = Some w' \<and>
       wh_success w' = wh_success w + webhook_counts.successes k ds \<and> wh_failure w' = wh_failure w + webhook_counts.failures k ds)) \<and>
    wx_deliveries d' = drop (length (wx_deliveries d @ ds) - wx_cap d) (wx_deliveries d @ ds) \<and>
    (mget (hq_headers (webhook_request hmac (marshal e) (ev_type e) w)) ''X-Masterchef-Signature'' =
       (if TrimSpace (wh_secret w) = [] then None else Some (signPayload hmac (marshal e) (wh_secret w))))"
proof -
  have inv: "webhook_inv d" unfolding d by (rule webhooks.run_inv [OF NewWebhookDispatcher_inv])
  have d': "d' = foldl store_webhook_delivery d ds" and ds: "ds = webhook_log net hmac (marshal e) e (wx_next_delivery d) ws"
    using run by (auto simp: Dispatch_def dispatch_all ws)
  have ids: "map wd_webhook ds = map wh_id ws" by (intro nth_equalityI) (simp_all add: ds webhook_log_nth)
  have "wh_id w = k" if "(k, w) \<in> set (wx_webhooks d)" for k w
    using inv that wf_map_mem [of "wx_webhooks d" k w] by (auto simp: webhook_inv_def store_inv_def dest: items_okD)
  then have keys: "map wh_id (map snd (wx_webhooks d)) = mkeys (wx_webhooks d)" by (auto simp: split_beta)
  have "distinct (map wh_id (map snd (wx_webhooks d)))" unfolding keys using inv by (simp add: webhook_inv_def store_inv_def wf_map_def)
  then have "distinct (map wd_webhook ds)" unfolding ids ws by (rule distinct_map_filter)
  moreover have "\<exists>w'. mget (wx_webhooks d') k = Some w' \<and>
       wh_success w' = wh_success w + webhook_counts.successes k ds \<and> wh_failure w' = wh_failure w + webhook_counts.failures k ds"
    if "mget (wx_webhooks d) k = Some w" for k w
    using webhook_counts.counts_all [of d ds k] that by (auto simp: d')
  moreover have "wx_deliveries d' = drop (length (wx_deliveries d @ ds) - wx_cap d) (wx_deliveries d @ ds)"
    unfolding d' using inv by (intro webhook_counts.ring_all) (simp_all add: webhook_inv_def)
  ultimately show ?thesis using ids webhook_log_nth [of _ ws net hmac "marshal e" e "wx_next_delivery d"] by (simp add: ds webhook_request_def)
qed

section \<open>Notifications\<close>

record notification_target =
  nf_id :: string
  nf_name :: string
  nf_kind :: string
  nf_url :: string
  nf_route :: string
  nf_enabled :: bool
  nf_success :: int
  nf_failure :: int
  nf_error :: string
  nf_delivered :: gotime
  nf_created :: gotime
  nf_updated :: gotime

record notification_delivery =
  nd_id :: string
  nd_target :: string
  nd_alert :: string
  nd_route :: string
  nd_status :: string
  nd_code :: int
  nd_error :: string
  nd_time :: gotime

record notification_router =
  nr_next :: int
  nr_next_delivery :: int
  nr_targets :: "notification_target gomap"
  nr_deliveries :: "notification_delivery list"
  nr_cap :: nat

definition NewNotificationRouter :: "int \<Rightarrow> notification_router" where
  "NewNotificationRouter limit = \<lparr>nr_next = 0, nr_next_delivery = 0, nr_targets = [], nr_deliveries = [], nr_cap = nat (if limit \<le> 0 then 5000 else limit)\<rparr>"

definition normalizeNotificationKind :: "string \<Rightarrow> string" where
  "normalizeNotificationKind kind = (let k = lower_trim kind in if k \<in> {''chatops'', ''incident'', ''ticket''} then k else [])"

definition normalizeNotificationRoute :: "string \<Rightarrow> string" where
  "normalizeNotificationRoute route = (let r = lower_trim route in if r \<in> {''*'', ''pager'', ''ticket'', ''chatops'', ''digest''} then r else [])"

definition Register_notification :: "gotime \<Rightarrow> notification_target \<Rightarrow> notification_router \<Rightarrow> notification_router \<times> notification_target result" where
  "Register_notification now inp r =
     (if TrimSpace (nf_name inp) = [] then (r, Inl ''notification target name is required'')
      else if TrimSpace (nf_url inp) = [] then (r, Inl ''notification target url is required'')
      else if \<not> http_url (nf_url inp) then (r, Inl ''notification target url must be http or https'')
      else let kind = normalizeNotificationKind (nf_kind inp); route = normalizeNotificationRoute (nf_route inp)
           in if kind = [] then (r, Inl ''notification kind must be chatops, incident, or ticket'')
              else if route = [] then (r, Inl ''notification route must be pager, ticket, chatops, digest, or *'')
              else let cp = inp\<lparr>nf_id := seq_id ''notify-'' (nr_next r + 1), nf_kind := kind, nf_route := route, nf_enabled := True,
                         nf_created := now, nf_updated := now\<rparr>
                   in (r\<lparr>nr_next := nr_next r + 1, nr_targets := mput (nf_id cp) cp (nr_targets r)\<rparr>, Inr cp))"

definition List_notifications :: "notification_router \<Rightarrow> notification_target list" where
  "List_notifications r = sort_key nf_id (map snd (nr_targets r))"

definition SetEnabled_notification :: "gotime \<Rightarrow> string \<Rightarrow> bool \<Rightarrow> notification_router \<Rightarrow> notification_router \<times> notification_target result" where
  "SetEnabled_notification now i enabled r =
     (case mget (nr_targets r) i of
        None \<Rightarrow> (r, Inl ''notification target not found'')
      | Some t \<Rightarrow> let t = t\<lparr>nf_enabled := enabled, nf_updated := now\<rparr> in (r\<lparr>nr_targets := mput i t (nr_targets r)\<rparr>, Inr t))"

definition count_notification :: "notification_delivery \<Rightarrow> notification_target \<Rightarrow> notification_target" where
  "count_notification del t =
     (if nd_status del = ''failed''
      then t\<lparr>nf_failure := nf_failure t + 1, nf_error := nd_error del, nf_delivered := nd_time del, nf_updated := nd_time del\<rparr>
      else t\<lparr>nf_success := nf_success t + 1, nf_error := [], nf_delivered := nd_time del, nf_updated := nd_time del\<rparr>)"

definition store_notification_delivery :: "notification_router \<Rightarrow> notification_delivery \<Rightarrow> notification_router" where
  "store_notification_delivery r del =
     r\<lparr>nr_next_delivery := nr_next_delivery r + 1,
       nr_targets := (case mget (nr_targets r) (nd_target del) of None \<Rightarrow> nr_targets r | Some t \<Rightarrow> mput (nd_target del) (count_notification del t) (nr_targets r)),
       nr_deliveries := ring_push (nr_cap r) del (nr_deliveries r)\<rparr>"

definition recordDelivery_notification :: "gotime \<Rightarrow> string \<Rightarrow> string \<Rightarrow> string \<Rightarrow> int \<Rightarrow> string option \<Rightarrow> notification_router \<Rightarrow> notification_router \<times> notification_delivery" where
  "recordDelivery_notification now targetID alertID route code err r =
     (let del = \<lparr>nd_id = seq_id ''notify-del-'' (nr_next_delivery r + 1), nd_target = targetID, nd_alert = alertID, nd_route = route,
            nd_status = (case err of Some _ \<Rightarrow> ''failed'' | None \<Rightarrow> ''delivered''), nd_code = code,
            nd_error = (case err of Some e \<Rightarrow> e | None \<Rightarrow> []), nd_time = now\<rparr>
      in (store_notification_delivery r del, del))"

definition notification_wants :: "alert \<Rightarrow> notification_target \<Rightarrow> bool" where
  "notification_wants x t \<longleftrightarrow> nf_enabled t \<and> (nf_route t = ''*'' \<or> nf_route t = al_route x)"

definition notify_target :: "network \<Rightarrow> string \<Rightarrow> alert \<Rightarrow> notification_target \<Rightarrow>
    notification_router \<times> notification_delivery list \<Rightarrow> notification_router \<times> notification_delivery list" where
  "notify_target net payload x t st =
     (if \<not> notification_wants x t then st
      else let n = nr_next_delivery (fst st) + 1;
               (code, err) = outcome net n \<lparr>hq_url = nf_url t, hq_headers = [(''Content-Type'', ''application/json''),
                 (''X-Masterchef-Notification-Kind'', nf_kind t), (''X-Masterchef-Alert-Route'', al_route x)], hq_body = payload\<rparr>;
               (r, del) = recordDelivery_notification (nt_now net n) (nf_id t) (al_id x) (al_route x) code err (fst st)
           in (r, snd st @ [del]))"

definition NotifyAlert :: "network \<Rightarrow> (alert \<Rightarrow> string) \<Rightarrow> alert \<Rightarrow> notification_router \<Rightarrow> notification_router \<times> notification_delivery list" where
  "NotifyAlert net marshal x r = fold (notify_target net (marshal x) x) (map snd (nr_targets r)) (r, [])"

definition Deliveries_notification :: "int \<Rightarrow> notification_router \<Rightarrow> notification_delivery list" where
  "Deliveries_notification limit r = (let limit = (if limit \<le> 0 then 200 else limit) in drop (length (nr_deliveries r) - nat limit) (nr_deliveries r))"

interpretation notification_counts: delivery_counters store_notification_delivery
  "\<lambda>r k. map_option (\<lambda>t. (nf_success t, nf_failure t)) (mget (nr_targets r) k)" nr_deliveries nr_cap nd_target "\<lambda>del. nd_status del \<noteq> ''failed''"
proof (unfold_locales, goal_cases)
  case (1 s d k)
  show ?case by (cases "mget (nr_targets s) k"; cases "mget (nr_targets s) (nd_target d)") (auto simp: store_notification_delivery_def count_notification_def)
qed (simp_all add: store_notification_delivery_def)

text \<open>Every enabled target of the route is told once, and nobody else.\<close>

lemma notify_fold:
  "\<exists>ds. fold (notify_target net payload x) ts (r, out) = (foldl store_notification_delivery r ds, out @ ds) \<and>
     map nd_target ds = map nf_id (filter (notification_wants x) ts) \<and> (\<forall>del \<in> set ds. nd_alert del = al_id x)"
proof (induction ts arbitrary: r out)
  case (Cons t ts)
  show ?case
  proof (cases "notification_wants x t")
    case True
    then obtain del where del: "notify_target net payload x t (r, out) = (store_notification_delivery r del, out @ [del])" "nd_target del = nf_id t" "nd_alert del = al_id x"
      by (simp add: notify_target_def recordDelivery_notification_def Let_def split_beta)
    obtain ds where "fold (notify_target net payload x) ts (store_notification_delivery r del, out @ [del]) =
        (foldl store_notification_delivery (store_notification_delivery r del) ds, (out @ [del]) @ ds)"
      "map nd_target ds = map nf_id (filter (notification_wants x) ts)" "\<forall>del \<in> set ds. nd_alert del = al_id x" using Cons by blast
    then show ?thesis using del True by (intro exI [of _ "del # ds"]) simp
  next
    case False
    then have "notify_target net payload x t (r, out) = (r, out)" by (simp add: notify_target_def)
    with False Cons show ?thesis by simp
  qed
qed simp

lemma NotifyAlert_targets:
  "map nd_target (snd (NotifyAlert net marshal x r)) = map nf_id (filter (notification_wants x) (map snd (nr_targets r)))"
  using notify_fold [of net "marshal x" x "map snd (nr_targets r)" r "[]"] by (auto simp: NotifyAlert_def)

section \<open>The event bus\<close>

record bus_target =
  bt_id :: string
  bt_name :: string
  bt_kind :: string
  bt_url :: string
  bt_topic :: string
  bt_headers :: "string gomap"
  bt_enabled :: bool
  bt_created :: gotime
  bt_updated :: gotime

record bus_delivery =
  be_id :: string
  be_time :: gotime
  be_target :: string
  be_name :: string
  be_kind :: string
  be_type :: string
  be_status :: string
  be_code :: int
  be_error :: string

record event_bus =
  eb_next_target :: int
  eb_next_delivery :: int
  eb_targets :: "bus_target gomap"
  eb_deliveries :: "bus_delivery list"

definition NewEventBus :: event_bus where
  "NewEventBus = \<lparr>eb_next_target = 0, eb_next_delivery = 0, eb_targets = [], eb_deliveries = []\<rparr>"

definition normalizeEventBusKind :: "string \<Rightarrow> string" where
  "normalizeEventBusKind kind = (let k = lower_trim kind in if k \<in> {''webhook'', ''kafka'', ''nats''} then k else [])"

definition Register_bus :: "(string \<Rightarrow> string option) \<Rightarrow> gotime \<Rightarrow> bus_target \<Rightarrow> event_bus \<Rightarrow> event_bus \<times> bus_target result" where
  "Register_bus scheme now inp b =
     (let kind = normalizeEventBusKind (bt_kind inp); u = TrimSpace (bt_url inp)
      in if TrimSpace (bt_name inp) = [] then (b, Inl ''name is required'')
         else if kind = [] then (b, Inl ''kind must be webhook, kafka, or nats'')
         else if u \<noteq> [] \<and> scheme u \<noteq> Some ''http'' \<and> scheme u \<noteq> Some ''https'' then (b, Inl ''url must be a valid http or https URL'')
         else let item = \<lparr>bt_id = seq_id ''bus-'' (eb_next_target b + 1), bt_name = TrimSpace (bt_name inp), bt_kind = kind, bt_url = u,
                    bt_topic = TrimSpace (bt_topic inp), bt_headers = bt_headers inp, bt_enabled = bt_enabled inp, bt_created = now, bt_updated = now\<rparr>
              in (b\<lparr>eb_next_target := eb_next_target b + 1, eb_targets := mput (bt_id item) item (eb_targets b)\<rparr>, Inr item))"

definition ListTargets :: "event_bus \<Rightarrow> bus_target list" where
  "ListTargets b = sort_key (\<lambda>t. (bt_kind t, bt_name t)) (map snd (eb_targets b))"

definition SetEnabled_bus :: "gotime \<Rightarrow> string \<Rightarrow> bool \<Rightarrow> event_bus \<Rightarrow> event_bus \<times> bus_target result" where
  "SetEnabled_bus now i enabled b =
     (case mget (eb_targets b) (TrimSpace i) of
        None \<Rightarrow> (b, Inl ''event bus target not found'')
      | Some t \<Rightarrow> let t = t\<lparr>bt_enabled := enabled, bt_updated := now\<rparr> in (b\<lparr>eb_targets := mput (TrimSpace i) t (eb_targets b)\<rparr>, Inr t))"

definition Deliveries_bus :: "int \<Rightarrow> event_bus \<Rightarrow> bus_delivery list" where
  "Deliveries_bus limit b = (let limit = (if limit \<le> 0 then 200 else limit) in take (nat limit) (rev (eb_deliveries b)))"

definition bus_request :: "string \<Rightarrow> string \<Rightarrow> bus_target \<Rightarrow> http_request" where
  "bus_request body eventType t =
     \<lparr>hq_url = bt_url t,
      hq_headers = fold (\<lambda>(k, v) h. mput k v h) (bt_headers t)
        [(''Content-Type'', ''application/json''), (''X-Masterchef-EventBus-Kind'', bt_kind t), (''X-Masterchef-Event-Type'', eventType)],
      hq_body = body\<rparr>"

definition dispatch_bus :: "network \<Rightarrow> (event \<Rightarrow> string \<Rightarrow> string \<Rightarrow> string) \<Rightarrow> int \<Rightarrow> bus_target \<Rightarrow> event \<Rightarrow> bus_delivery" where
  "dispatch_bus net marshal n t e =
     (let base = \<lparr>be_id = [], be_time = nt_now net n, be_target = bt_id t, be_name = bt_name t, be_kind = bt_kind t, be_type = ev_type e,
            be_status = [], be_code = 0, be_error = []\<rparr>
      in if TrimSpace (bt_url t) = []
         then if bt_kind t = ''kafka'' \<or> bt_kind t = ''nats'' then base\<lparr>be_status := ''queued''\<rparr>
              else base\<lparr>be_status := ''failed'', be_error := ''url is required for webhook targets''\<rparr>
         else case nt_answer net n (bus_request (marshal e (bt_kind t) (bt_topic t)) (ev_type e) t) of
                Inl err \<Rightarrow> base\<lparr>be_status := ''failed'', be_error := err\<rparr>
              | Inr code \<Rightarrow>
                  if \<not> is_2xx code then base\<lparr>be_code := code, be_status := ''failed'', be_error := ''non-2xx status''\<rparr>
                  else base\<lparr>be_code := code, be_status := ''delivered''\<rparr>)"

definition recordDelivery_bus :: "bus_delivery \<Rightarrow> event_bus \<Rightarrow> event_bus" where
  "recordDelivery_bus del b =
     b\<lparr>eb_next_delivery := eb_next_delivery b + 1,
       eb_deliveries := push_capped 5000 (del\<lparr>be_id := seq_id ''bus-delivery-'' (eb_next_delivery b + 1)\<rparr>) (eb_deliveries b)\<rparr>"

definition publish_target :: "network \<Rightarrow> (event \<Rightarrow> string \<Rightarrow> string \<Rightarrow> string) \<Rightarrow> event \<Rightarrow> bus_target \<Rightarrow> event_bus \<times> bus_delivery list \<Rightarrow> event_bus \<times> bus_delivery list" where
  "publish_target net marshal e t st =
     (let del = dispatch_bus net marshal (eb_next_delivery (fst st) + 1) t e in (recordDelivery_bus del (fst st), snd st @ [del]))"

definition Publish :: "network \<Rightarrow> (event \<Rightarrow> string \<Rightarrow> string \<Rightarrow> string) \<Rightarrow> event \<Rightarrow> event_bus \<Rightarrow> event_bus \<times> bus_delivery list" where
  "Publish net marshal e b = fold (publish_target net marshal e) (filter bt_enabled (map snd (eb_targets b))) (b, [])"

text \<open>Every enabled target gets the event once; the returned deliveries have no identifier yet, the stored ones have.\<close>

lemma publish_fold:
  "eb_targets (fst (fold (publish_target net marshal e) ts (b, out))) = eb_targets b \<and>
   map be_target (snd (fold (publish_target net marshal e) ts (b, out))) = map be_target out @ map bt_id ts \<and>
   eb_next_delivery (fst (fold (publish_target net marshal e) ts (b, out))) = eb_next_delivery b + int (length ts)"
proof (induction ts arbitrary: b out)
  case (Cons t ts)
  have "be_target (dispatch_bus net marshal n t e) = bt_id t" for n
    by (simp add: dispatch_bus_def Let_def split: sum.split)
  then show ?case using Cons by (simp add: publish_target_def recordDelivery_bus_def Let_def)
qed simp

lemma Publish_targets:
  "map be_target (snd (Publish net marshal e b)) = map bt_id (filter bt_enabled (map snd (eb_targets b)))" "eb_targets (fst (Publish net marshal e b)) = eb_targets b"
  using publish_fold [of net marshal e "filter bt_enabled (map snd (eb_targets b))" b "[]"] by (simp_all add: Publish_def)

section \<open>Example\<close>

definition demo_event :: "string \<Rightarrow> event" where
  "demo_event typ = \<lparr>ev_index = 0, ev_time = 1, ev_type = typ, ev_message = [], ev_fields = [], ev_prev = [], ev_hash = []\<rparr>"

definition demo_webhook :: webhook where
  "demo_webhook = \<lparr>wh_id = [], wh_name = ''ci'', wh_url = ''https://ci'', wh_prefix = ''run.'', wh_enabled = False, wh_secret = ''s'', wh_success = 0,
     wh_failure = 0, wh_error = [], wh_delivered = 0, wh_created = 0, wh_updated = 0\<rparr>"

definition demo_net :: network where
  "demo_net = \<lparr>nt_now = (\<lambda>n. 10 + n), nt_answer = (\<lambda>n req. Inr (if n = 1 then 204 else 500))\<rparr>"

theorem webhook_dispatch_exact_witness:
  "let d = foldl (webhook_step (\<lambda>k m. k @ m) ev_type) (NewWebhookDispatcher 1) [WRegister 1 demo_webhook, WDispatch demo_net (demo_event ''run.failed'')];
       (d', ds) = Dispatch demo_net (\<lambda>k m. k @ m) ev_type (demo_event ''run.done'') d
   in map wd_webhook ds = [''wh-1''] \<and> (\<exists>w. mget (wx_webhooks d') ''wh-1'' = Some w \<and> wh_success w = 1 \<and> wh_failure w = 1)"
proof -
  define hm :: "string \<Rightarrow> string \<Rightarrow> string" where "hm = (\<lambda>k m. k @ m)"
  define d where "d = foldl (webhook_step hm ev_type) (NewWebhookDispatcher 1) [WRegister 1 demo_webhook, WDispatch demo_net (demo_event ''run.failed'')]"
  obtain d' ds where run: "Dispatch demo_net hm ev_type (demo_event ''run.done'') d = (d', ds)" by fastforce
  have w: "map_option (\<lambda>w. (wh_success w, wh_failure w)) (mget (wx_webhooks d) ''wh-1'') = Some (1, 0)"
    unfolding d_def hm_def by code_simp
  then obtain w where w: "mget (wx_webhooks d) ''wh-1'' = Some w" "wh_success w = 1" "wh_failure w = 0" by auto
  have c: "webhook_counts.successes ''wh-1'' (snd (Dispatch demo_net hm ev_type (demo_event ''run.done'') d)) = 0"
    "webhook_counts.failures ''wh-1'' (snd (Dispatch demo_net hm ev_type (demo_event ''run.done'') d)) = 1"
    unfolding webhook_counts.successes_def webhook_counts.failures_def d_def hm_def by code_simp+
  have "map wh_id (filter (webhook_wants (demo_event ''run.done'')) (map snd (wx_webhooks d))) = [''wh-1'']" unfolding d_def hm_def by code_simp
  then have ids: "map wd_webhook ds = [''wh-1'']" using webhook_dispatch_exact [OF d_def run refl] by metis
  have "\<forall>k w. mget (wx_webhooks d) k = Some w \<longrightarrow> (\<exists>w'. mget (wx_webhooks d') k = Some w' \<and>
       wh_success w' = wh_success w + webhook_counts.successes k ds \<and> wh_failure w' = wh_failure w + webhook_counts.failures k ds)"
    using webhook_dispatch_exact [OF d_def run refl, of w] by (elim conjE)
  then have "\<exists>w'. mget (wx_webhooks d') ''wh-1'' = Some w' \<and> wh_success w' = 1 + webhook_counts.successes ''wh-1'' ds \<and> wh_failure w' = 0 + webhook_counts.failures ''wh-1'' ds"
    using w by fastforce
  with ids have "map wd_webhook ds = [''wh-1'']"
    "\<exists>w'. mget (wx_webhooks d') ''wh-1'' = Some w' \<and> wh_success w' = 1 + webhook_counts.successes ''wh-1'' ds \<and> wh_failure w' = 0 + webhook_counts.failures ''wh-1'' ds" .
  then show ?thesis using run c unfolding d_def hm_def Let_def by simp
qed

end
