(* ===== verification/Rulebook.thy ===== *)
theory Rulebook
  imports EventLog Queue
begin

text \<open>
  The event rules (internal/control/rulebook.go): a rule has a prefix of the event type, conditions on
  the fields of the event and a cool-down; \<open>Evaluate\<close> goes through the rules in the order of their
  identifiers and returns the actions of those that fire. Each turn of its loop holds the lock, so a turn
  is one step. Parameters: \<open>show_num\<close>, the text that \<^verbatim>\<open>%v\<close> prints for the \<^verbatim>\<open>float64\<close> of a JSON number,
  and \<open>regex\<close>, package regexp (\<open>Inl\<close> when the pattern does not compile).
\<close>

record rule_condition =
  rc_field :: string
  rc_comparator :: string
  rc_value :: string

record rule_action =
  ra_type :: string
  ra_config :: string
  ra_template :: string
  ra_workflow :: string
  ra_priority :: string
  ra_force :: bool

record rule =
  ru_id :: string
  ru_name :: string
  ru_prefix :: string
  ru_enabled :: bool
  ru_mode :: string
  ru_conditions :: "rule_condition list"
  ru_actions :: "rule_action list"
  ru_cooldown :: int
  ru_last :: gotime
  ru_count :: int
  ru_created :: gotime
  ru_updated :: gotime

record rule_match =
  rm_rule :: string
  rm_name :: string
  rm_event :: event
  rm_actions :: "rule_action list"

record rule_engine =
  re_next :: int
  re_rules :: "rule gomap"

definition NewRuleEngine :: rule_engine where
  "NewRuleEngine = \<lparr>re_next = 0, re_rules = []\<rparr>"

definition normalizeMatchMode :: "string \<Rightarrow> string" where
  "normalizeMatchMode mode = (if EqualFold (TrimSpace mode) ''any'' then ''any'' else ''all'')"

definition validateRuleAction :: "rule_action \<Rightarrow> rule_action result" where
  "validateRuleAction a =
     (let a = a\<lparr>ra_type := lower_trim (ra_type a), ra_priority := normalizePriority (ra_priority a)\<rparr>
      in if ra_type a = ''enqueue_apply'' then
           (if TrimSpace (ra_config a) = [] then Inl ''enqueue_apply action requires config_path'' else Inr a)
         else if ra_type a = ''launch_template'' then
           (if TrimSpace (ra_template a) = [] then Inl ''launch_template action requires template_id'' else Inr a)
         else if ra_type a = ''launch_workflow'' then
           (if TrimSpace (ra_workflow a) = [] then Inl ''launch_workflow action requires workflow_id'' else Inr a)
         else Inl (''unsupported rule action type: '' @ ra_type a))"

definition comparators :: "string list" where
  "comparators = [''eq'', ''ne'', ''contains'', ''prefix'', ''suffix'', ''regex'']"

definition validateRuleCondition :: "rule_condition \<Rightarrow> rule_condition result" where
  "validateRuleCondition c =
     (let c = c\<lparr>rc_field := TrimSpace (rc_field c)\<rparr>
      in if rc_field c = [] then Inl ''rule condition field is required''
         else let comp = lower_trim (rc_comparator c);
                  c = c\<lparr>rc_comparator := (if comp = [] then ''eq'' else comp)\<rparr>
              in if rc_comparator c \<in> set comparators then Inr c
                 else Inl (''unsupported rule condition comparator: '' @ rc_comparator c))"

text \<open>A loop that validates the elements of a slice in place; the first error ends it.\<close>

fun validate_each :: "('a \<Rightarrow> 'a result) \<Rightarrow> 'a list \<Rightarrow> 'a list result" where
  "validate_each f [] = Inr []"
| "validate_each f (x # xs) =
     (case f x of Inl e \<Rightarrow> Inl e | Inr y \<Rightarrow> (case validate_each f xs of Inl e \<Rightarrow> Inl e | Inr ys \<Rightarrow> Inr (y # ys)))"

definition Create_rule :: "gotime \<Rightarrow> rule \<Rightarrow> rule_engine \<Rightarrow> rule_engine \<times> rule result" where
  "Create_rule now inp s =
     (if TrimSpace (ru_name inp) = [] then (s, Inl ''rule name is required'')
      else if TrimSpace (ru_prefix inp) = [] then (s, Inl ''source_prefix is required'')
      else if ru_actions inp = [] then (s, Inl ''at least one action is required'')
      else case validate_each validateRuleAction (ru_actions inp) of
        Inl e \<Rightarrow> (s, Inl e)
      | Inr actions \<Rightarrow>
          (case validate_each validateRuleCondition (ru_conditions inp) of
             Inl e \<Rightarrow> (s, Inl e)
           | Inr conditions \<Rightarrow>
               let item = inp\<lparr>ru_id := seq_id ''rule-'' (re_next s + 1), ru_prefix := TrimSpace (ru_prefix inp), ru_enabled := True,
                     ru_mode := normalizeMatchMode (ru_mode inp), ru_conditions := conditions, ru_actions := actions,
                     ru_cooldown := (if ru_cooldown inp < 0 then 0 else ru_cooldown inp), ru_created := now, ru_updated := now\<rparr>
               in (s\<lparr>re_next := re_next s + 1, re_rules := mput (ru_id item) item (re_rules s)\<rparr>, Inr item)))"

definition List_rules :: "rule_engine \<Rightarrow> rule list" where
  "List_rules s = sort_key ru_id (map snd (re_rules s))"

definition Get_rule :: "string \<Rightarrow> rule_engine \<Rightarrow> rule result" where
  "Get_rule i s = (case mget (re_rules s) i of None \<Rightarrow> Inl ''rule not found'' | Some r \<Rightarrow> Inr r)"

definition SetEnabled_rule :: "gotime \<Rightarrow> string \<Rightarrow> bool \<Rightarrow> rule_engine \<Rightarrow> rule_engine \<times> rule result" where
  "SetEnabled_rule now i enabled s =
     (case mget (re_rules s) i of
        None \<Rightarrow> (s, Inl ''rule not found'')
      | Some r \<Rightarrow> let r = r\<lparr>ru_enabled := enabled, ru_updated := now\<rparr> in (s\<lparr>re_rules := mput i r (re_rules s)\<rparr>, Inr r))"

section \<open>The event as a map\<close>

text \<open>RFC 3339 with the fraction of the second, without trailing zeros (\<^verbatim>\<open>time.RFC3339Nano\<close>).\<close>

definition format_rfc3339nano :: "gotime \<Rightarrow> string" where
  "format_rfc3339nano t =
     (let ns = t mod 1000000000; frac = rev (dropWhile (\<lambda>c. c = CHR ''0'') (rev (pad 9 ns)))
      in butlast (format_rfc3339 t) @ (if ns = 0 then [] else CHR ''.'' # frac) @ ''Z'')"

text \<open>The JSON encoding of an event, decoded again: empty fields with \<^verbatim>\<open>omitempty\<close> are left out, and a year after 9999 is an error.\<close>

definition eventToMap :: "event \<Rightarrow> json gomap result" where
  "eventToMap e =
     (if fst (civil (ev_time e div 86400000000000)) > 9999 then Inl ''json: error calling MarshalJSON for type time.Time''
      else Inr ((if ev_index e = 0 then [] else [(''index'', JNum (strconv_Itoa (ev_index e)))]) @
                [(''time'', JStr (format_rfc3339nano (ev_time e))), (''type'', JStr (ev_type e)), (''message'', JStr (ev_message e))] @
                (if ev_fields e = [] then [] else [(''fields'', JObj (ev_fields e))]) @
                (if ev_prev e = [] then [] else [(''prev_hash'', JStr (ev_prev e))]) @
                (if ev_hash e = [] then [] else [(''hash'', JStr (ev_hash e))])))"

fun path_value :: "json \<Rightarrow> string list \<Rightarrow> json option" where
  "path_value cur [] = Some cur"
| "path_value cur (p # ps) =
     (if p = [] then None
      else case cur of
        JObj m \<Rightarrow> (case map_of m p of None \<Rightarrow> None | Some v \<Rightarrow> path_value v ps)
      | _ \<Rightarrow> None)"

definition getPathValue :: "json gomap \<Rightarrow> string \<Rightarrow> json option" where
  "getPathValue root path = path_value (JObj root) (split_on CHR ''.'' (TrimSpace path))"

text \<open>\<^verbatim>\<open>fmt.Sprintf("%v", v)\<close> of a decoded value; maps are printed in the order of their keys.\<close>

fun show_any :: "(string \<Rightarrow> string) \<Rightarrow> json \<Rightarrow> string" where
  "show_any show_num JNull = ''<nil>''"
| "show_any show_num (JBool b) = (if b then ''true'' else ''false'')"
| "show_any show_num (JNum n) = show_num n"
| "show_any show_num (JStr s) = s"
| "show_any show_num (JArr vs) = ''['' @ Join (map (show_any show_num) vs) '' '' @ '']''"
| "show_any show_num (JObj m) =
     ''map['' @ Join (map (\<lambda>(k, t). k @ '':'' @ t) (sort_key fst (map (\<lambda>(k, v). (k, show_any show_num v)) m))) '' '' @ '']''"

section \<open>Matching\<close>

record rule_env =
  en_show_num :: "string \<Rightarrow> string"
  en_regex :: "string \<Rightarrow> string \<Rightarrow> bool result"

definition evaluateCondition :: "rule_env \<Rightarrow> json gomap \<Rightarrow> rule_condition \<Rightarrow> bool result" where
  "evaluateCondition env em c =
     (case getPathValue em (rc_field c) of
        None \<Rightarrow> Inr False
      | Some actual \<Rightarrow>
          let actualStr = TrimSpace (show_any (en_show_num env) actual); expected = TrimSpace (rc_value c);
              comp = lower_trim (rc_comparator c); comp = (if comp = [] then ''eq'' else comp)
          in if comp = ''eq'' then Inr (EqualFold actualStr expected)
             else if comp = ''ne'' then Inr (\<not> EqualFold actualStr expected)
             else if comp = ''contains'' then Inr (Contains (ToLower actualStr) (ToLower expected))
             else if comp = ''prefix'' then Inr (HasPrefix (ToLower actualStr) (ToLower expected))
             else if comp = ''suffix'' then Inr (HasSuffix (ToLower actualStr) (ToLower expected))
             else if comp = ''regex'' then en_regex env expected actualStr
             else Inl (''unsupported comparator: '' @ comp))"

fun any_condition :: "rule_env \<Rightarrow> json gomap \<Rightarrow> rule_condition list \<Rightarrow> bool result" where
  "any_condition env em [] = Inr False"
| "any_condition env em (c # cs) =
     (case evaluateCondition env em c of Inl e \<Rightarrow> Inl e | Inr ok \<Rightarrow> if ok then Inr True else any_condition env em cs)"

fun all_conditions :: "rule_env \<Rightarrow> json gomap \<Rightarrow> rule_condition list \<Rightarrow> bool result" where
  "all_conditions env em [] = Inr True"
| "all_conditions env em (c # cs) =
     (case evaluateCondition env em c of Inl e \<Rightarrow> Inl e | Inr ok \<Rightarrow> if \<not> ok then Inr False else all_conditions env em cs)"

definition ruleMatchesEvent :: "rule_env \<Rightarrow> rule \<Rightarrow> json gomap \<Rightarrow> bool result" where
  "ruleMatchesEvent env r em =
     (if ru_conditions r = [] then Inr True
      else if normalizeMatchMode (ru_mode r) = ''any'' then any_condition env em (ru_conditions r)
      else all_conditions env em (ru_conditions r))"

text \<open>One turn of the loop of \<open>Evaluate\<close>, under the lock.\<close>

definition cooling :: "gotime \<Rightarrow> rule \<Rightarrow> bool" where
  "cooling now r = (ru_cooldown r > 0 \<and> ru_last r \<noteq> 0 \<and> now < ru_last r + seconds (ru_cooldown r))"

definition evaluate_rule :: "rule_env \<Rightarrow> event \<Rightarrow> json gomap \<Rightarrow> gotime \<Rightarrow> string \<Rightarrow> rule_engine \<Rightarrow> rule_engine \<times> rule_match option result" where
  "evaluate_rule env event em now i s =
     (case mget (re_rules s) i of
        None \<Rightarrow> (s, Inr None)
      | Some r \<Rightarrow>
          if \<not> ru_enabled r \<or> \<not> HasPrefix (ev_type event) (ru_prefix r) then (s, Inr None)
          else if cooling now r then (s, Inr None)
          else case ruleMatchesEvent env r em of
            Inl e \<Rightarrow> (s, Inl e)
          | Inr matched \<Rightarrow>
              if \<not> matched then (s, Inr None)
              else (s\<lparr>re_rules := mput i (r\<lparr>ru_last := now, ru_count := ru_count r + 1, ru_updated := now\<rparr>) (re_rules s)\<rparr>,
                    Inr (Some \<lparr>rm_rule = ru_id r, rm_name = ru_name r, rm_event = event, rm_actions = ru_actions r\<rparr>)))"

fun evaluate_loop :: "rule_env \<Rightarrow> event \<Rightarrow> json gomap \<Rightarrow> gotime \<Rightarrow> string list \<Rightarrow> rule_match list \<Rightarrow> rule_engine \<Rightarrow> rule_engine \<times> rule_match list result" where
  "evaluate_loop env event em now [] matches s = (s, Inr matches)"
| "evaluate_loop env event em now (i # ids) matches s =
     (case evaluate_rule env event em now i s of
        (s', Inl e) \<Rightarrow> (s', Inl e)
      | (s', Inr None) \<Rightarrow> evaluate_loop env event em now ids matches s'
      | (s', Inr (Some m)) \<Rightarrow> evaluate_loop env event em now ids (matches @ [m]) s')"

definition Evaluate :: "rule_env \<Rightarrow> event \<Rightarrow> gotime \<Rightarrow> rule_engine \<Rightarrow> rule_engine \<times> rule_match list result" where
  "Evaluate env event now s =
     (let ruleIDs = sort (mkeys (re_rules s))
      in case eventToMap event of
           Inl e \<Rightarrow> (s, Inl e)
         | Inr em \<Rightarrow> evaluate_loop env event em now ruleIDs [] s)"

section \<open>The evaluation of an event\<close>

text \<open>What a turn decides about a rule, and what firing does to it.\<close>

definition verdict :: "rule_env \<Rightarrow> event \<Rightarrow> json gomap \<Rightarrow> gotime \<Rightarrow> rule \<Rightarrow> bool result" where
  "verdict env event em now r =
     (if ru_enabled r \<and> HasPrefix (ev_type event) (ru_prefix r) \<and> \<not> cooling now r then ruleMatchesEvent env r em else Inr False)"

definition fired :: "gotime \<Rightarrow> rule \<Rightarrow> rule" where
  "fired now r = r\<lparr>ru_last := now, ru_count := ru_count r + 1, ru_updated := now\<rparr>"

definition match_of :: "event \<Rightarrow> rule \<Rightarrow> rule_match" where
  "match_of event r = \<lparr>rm_rule = ru_id r, rm_name = ru_name r, rm_event = event, rm_actions = ru_actions r\<rparr>"

lemma evaluate_rule_verdict:
  "mget (re_rules s) i = Some r \<Longrightarrow> evaluate_rule env event em now i s =
     (case verdict env event em now r of
        Inl e \<Rightarrow> (s, Inl e)
      | Inr b \<Rightarrow> if b then (s\<lparr>re_rules := mput i (fired now r) (re_rules s)\<rparr>, Inr (Some (match_of event r))) else (s, Inr None))"
  by (auto simp: evaluate_rule_def verdict_def fired_def match_of_def split: sum.split)

definition rule_of :: "rule_engine \<Rightarrow> string \<Rightarrow> rule" where
  "rule_of s i = the (mget (re_rules s) i)"

lemma evaluate_loop_exact:
  fixes env :: rule_env and event :: event and em :: "json gomap" and now :: gotime and s :: rule_engine and ids :: "string list"
  assumes "distinct ids" and "\<forall>i \<in> set ids. mget (re_rules s) i \<noteq> None"
  defines "V \<equiv> \<lambda>i. verdict env event em now (rule_of s i)"
  defines "done_ids \<equiv> takeWhile (\<lambda>i. is_ok (V i)) ids"
  shows "snd (evaluate_loop env event em now ids ms s) =
      (if done_ids = ids then Inr (ms @ map (\<lambda>i. match_of event (rule_of s i)) (filter (\<lambda>i. V i = Inr True) ids))
       else Inl (projl (V (ids ! length done_ids)))) \<and>
    re_next (fst (evaluate_loop env event em now ids ms s)) = re_next s \<and>
    (\<forall>k. mget (re_rules (fst (evaluate_loop env event em now ids ms s))) k =
      (if k \<in> set done_ids \<and> V k = Inr True then Some (fired now (rule_of s k)) else mget (re_rules s) k))"
  using assms(1,2) unfolding V_def done_ids_def
proof (induction ids arbitrary: ms s)
  case (Cons i ids)
  obtain r where r: "mget (re_rules s) i = Some r" using Cons.prems(2) by auto
  then have ri: "rule_of s i = r" by (simp add: rule_of_def)
  show ?case
  proof (cases "verdict env event em now r")
    case (Inl e)
    then show ?thesis using r by (simp add: evaluate_rule_verdict ri)
  next
    case (Inr b)
    define s' where "s' = (if b then s\<lparr>re_rules := mput i (fired now r) (re_rules s)\<rparr> else s)"
    define ms' where "ms' = (if b then ms @ [match_of event r] else ms)"
    have step: "evaluate_loop env event em now (i # ids) ms s = evaluate_loop env event em now ids ms' s'"
      using r Inr by (simp add: evaluate_rule_verdict s'_def ms'_def)
    have i: "i \<notin> set ids" using Cons.prems(1) by simp
    have same: "rule_of s' k = rule_of s k" "mget (re_rules s') k = mget (re_rules s) k" if "k \<noteq> i" for k
      using that by (simp_all add: s'_def rule_of_def)
    have si: "mget (re_rules s') i = (if b then Some (fired now r) else Some r)" "re_next s' = re_next s" using r by (simp_all add: s'_def)
    have "mget (re_rules s') k \<noteq> None" if "k \<in> set ids" for k using Cons.prems(2) that i same(2) [of k] by (metis list.set_intros(2))
    then have prems: "distinct ids" "\<forall>k \<in> set ids. mget (re_rules s') k \<noteq> None" using Cons.prems(1) by simp_all
    have V: "verdict env event em now (rule_of s' k) = verdict env event em now (rule_of s k)" if "k \<in> set ids" for k
      using that i same(1) by metis
    have tw: "takeWhile (\<lambda>k. is_ok (verdict env event em now (rule_of s' k))) ids = takeWhile (\<lambda>k. is_ok (verdict env event em now (rule_of s k))) ids"
      by (rule takeWhile_cong) (simp_all add: V)
    have fl: "map (\<lambda>k. match_of event (rule_of s' k)) (filter (\<lambda>k. verdict env event em now (rule_of s' k) = Inr True) ids) =
        map (\<lambda>k. match_of event (rule_of s k)) (filter (\<lambda>k. verdict env event em now (rule_of s k) = Inr True) ids)"
      using i same(1) by (intro map_cong filter_cong) (auto, metis+)
    let ?tw = "takeWhile (\<lambda>k. is_ok (verdict env event em now (rule_of s k))) ids"
    have ith: "verdict env event em now (rule_of s' (ids ! length ?tw)) = verdict env event em now (rule_of s (ids ! length ?tw))" if "?tw \<noteq> ids"
    proof (rule V)
      have "length ?tw < length ids" using that by (metis length_takeWhile_le nat_less_le takeWhile_eq_take take_all_iff order_refl)
      then show "ids ! length ?tw \<in> set ids" by simp
    qed
    note IH = Cons.IH [OF prems, of ms', unfolded tw fl]
    show ?thesis
    proof (intro conjI allI)
      show "snd (evaluate_loop env event em now (i # ids) ms s) =
          (if takeWhile (\<lambda>k. is_ok (verdict env event em now (rule_of s k))) (i # ids) = i # ids
           then Inr (ms @ map (\<lambda>k. match_of event (rule_of s k)) (filter (\<lambda>k. verdict env event em now (rule_of s k) = Inr True) (i # ids)))
           else Inl (projl (verdict env event em now (rule_of s ((i # ids) ! length (takeWhile (\<lambda>k. is_ok (verdict env event em now (rule_of s k))) (i # ids)))))))"
        using IH ith unfolding step by (auto simp: Inr ri ms'_def)
      show "re_next (fst (evaluate_loop env event em now (i # ids) ms s)) = re_next s" using IH si unfolding step by simp
      fix k
      have "set ?tw \<subseteq> set ids" by (meson set_takeWhileD subsetI)
      then show "mget (re_rules (fst (evaluate_loop env event em now (i # ids) ms s))) k =
          (if k \<in> set (takeWhile (\<lambda>k. is_ok (verdict env event em now (rule_of s k))) (i # ids)) \<and> verdict env event em now (rule_of s k) = Inr True
           then Some (fired now (rule_of s k)) else mget (re_rules s) k)"
        using IH si r i same V unfolding step by (cases "k = i") (auto simp: Inr ri)
    qed
  qed
qed simp

section \<open>The engine over time\<close>

text \<open>A turn of an evaluation is a step of its own: turns of concurrent evaluations interleave with each other and with the other calls. \<open>fires\<close> records the rule and the time of every firing.\<close>

datatype rule_op =
    RCreate gotime rule
  | RSetEnabled gotime string bool
  | RTurn event "json gomap" gotime string

fun op_time :: "rule_op \<Rightarrow> gotime" where
  "op_time (RCreate now inp) = now"
| "op_time (RSetEnabled now i b) = now"
| "op_time (RTurn event em now i) = now"

fun rule_step :: "rule_env \<Rightarrow> rule_engine \<times> (string \<times> gotime) list \<Rightarrow> rule_op \<Rightarrow> rule_engine \<times> (string \<times> gotime) list" where
  "rule_step env (s, fires) (RCreate now inp) = (fst (Create_rule now inp s), fires)"
| "rule_step env (s, fires) (RSetEnabled now i b) = (fst (SetEnabled_rule now i b s), fires)"
| "rule_step env (s, fires) (RTurn event em now i) =
     (case evaluate_rule env event em now i s of
        (s', Inr (Some m)) \<Rightarrow> (s', fires @ [(i, now)])
      | (s', _) \<Rightarrow> (s', fires))"

definition times_of :: "(string \<times> gotime) list \<Rightarrow> string \<Rightarrow> gotime list" where
  "times_of fires i = map snd (filter (\<lambda>f. fst f = i) fires)"

fun spaced :: "duration \<Rightarrow> gotime list \<Rightarrow> bool" where
  "spaced d [] = True"
| "spaced d [t] = True"
| "spaced d (t # u # ts) \<longleftrightarrow> t + d \<le> u \<and> spaced d (u # ts)"

lemma spaced_snoc: "spaced d (ts @ [t]) \<longleftrightarrow> spaced d ts \<and> (ts = [] \<or> last ts + d \<le> t)"
  by (induction d ts rule: spaced.induct) auto

definition rule_ok :: "(string \<times> gotime) list \<Rightarrow> string \<Rightarrow> rule \<Rightarrow> bool" where
  "rule_ok fires i r \<longleftrightarrow> ru_id r = i \<and> 0 \<le> ru_cooldown r \<and> ru_actions r \<noteq> [] \<and>
     list_all (\<lambda>t. t \<noteq> 0) (times_of fires i) \<and> (times_of fires i \<noteq> [] \<longrightarrow> ru_last r = last (times_of fires i)) \<and>
     (0 < ru_cooldown r \<longrightarrow> spaced (seconds (ru_cooldown r)) (times_of fires i))"

definition rule_inv :: "rule_engine \<times> (string \<times> gotime) list \<Rightarrow> bool" where
  "rule_inv sf \<longleftrightarrow> store_inv re_rules re_next ''rule-'' (fst sf) \<and> items_ok (rule_ok (snd sf)) (re_rules (fst sf)) \<and>
     (\<forall>f \<in> set (snd sf). mget (re_rules (fst sf)) (fst f) \<noteq> None)"

lemma times_of_snoc: "times_of (fires @ [(j, t)]) i = (if i = j then times_of fires i @ [t] else times_of fires i)"
  by (simp add: times_of_def)

lemma validate_each_length: "validate_each f xs = Inr ys \<Longrightarrow> length ys = length xs"
  by (induction xs arbitrary: ys) (auto split: sum.splits)

lemma create_rule_cases:
  "(\<exists>e. Create_rule now inp s = (s, Inl e)) \<or>
   (\<exists>item. Create_rule now inp s = (s\<lparr>re_next := re_next s + 1, re_rules := mput (seq_id ''rule-'' (re_next s + 1)) item (re_rules s)\<rparr>, Inr item) \<and>
      ru_id item = seq_id ''rule-'' (re_next s + 1) \<and> 0 \<le> ru_cooldown item \<and> ru_actions item \<noteq> [])"
proof (cases "\<exists>item. snd (Create_rule now inp s) = Inr item")
  case True
  then obtain actions conditions where ok: "TrimSpace (ru_name inp) \<noteq> []" "TrimSpace (ru_prefix inp) \<noteq> []" "ru_actions inp \<noteq> []"
    "validate_each validateRuleAction (ru_actions inp) = Inr actions" "validate_each validateRuleCondition (ru_conditions inp) = Inr conditions"
    by (auto simp: Create_rule_def Let_def split: if_splits sum.splits)
  then have "actions \<noteq> []" using validate_each_length by fastforce
  then show ?thesis using ok by (auto simp: Create_rule_def Let_def)
next
  case False
  then have "\<exists>e. Create_rule now inp s = (s, Inl e)" by (auto simp: Create_rule_def Let_def split: if_splits sum.splits)
  then show ?thesis by simp
qed

lemma turn_cases:
  obtains "rule_step env (s, fires) (RTurn event em now i) = (s, fires)"
  | r where "mget (re_rules s) i = Some r" "\<not> cooling now r"
    "rule_step env (s, fires) (RTurn event em now i) = (s\<lparr>re_rules := mput i (fired now r) (re_rules s)\<rparr>, fires @ [(i, now)])"
proof (cases "mget (re_rules s) i")
  case None
  then show thesis by (intro that(1)) (simp add: evaluate_rule_def)
next
  case (Some r)
  then show thesis using that
    by (cases "verdict env event em now r = Inr True") (auto simp: evaluate_rule_verdict verdict_def split: sum.splits if_splits)
qed

lemma rule_keys:
  "keys_step ''rule-'' (re_next (fst sf)) (re_rules (fst sf)) (re_next (fst (rule_step env sf op))) (re_rules (fst (rule_step env sf op)))"
proof -
  obtain s fires where sf: "sf = (s, fires)" by (cases sf)
  show ?thesis
  proof (cases op)
    case (RCreate now inp)
    then show ?thesis using create_rule_cases [of now inp s] by (auto simp: sf)
  next
    case (RSetEnabled now i b)
    then show ?thesis by (auto simp: sf SetEnabled_rule_def Let_def split: option.split intro: keys_step_update_some)
  next
    case (RTurn event em now i)
    show ?thesis
      by (rule turn_cases [of env s fires event em now i]) (auto simp: sf RTurn simp del: rule_step.simps intro: keys_step_update_some)
  qed
qed

text \<open>A firing keeps the spacing, because the rule was not cooling.\<close>

lemma fired_ok:
  assumes "rule_ok fires i r" "\<not> cooling now r" "now \<noteq> 0"
  shows "rule_ok (fires @ [(i, now)]) i (fired now r)"
proof -
  have "last (times_of fires i) + seconds (ru_cooldown r) \<le> now" if "times_of fires i \<noteq> []" "0 < ru_cooldown r"
  proof -
    have "ru_last r = last (times_of fires i)" "ru_last r \<noteq> 0"
      using assms(1) that(1) by (auto simp: rule_ok_def list_all_iff)
    then show ?thesis using assms(2) that(2) by (simp add: cooling_def)
  qed
  then show ?thesis using assms(1,3) by (auto simp: rule_ok_def fired_def times_of_snoc spaced_snoc)
qed

lemma rule_step_inv:
  assumes inv: "rule_inv sf" and "op_time op \<noteq> 0"
  shows "rule_inv (rule_step env sf op)"
proof -
  obtain s fires where sf: "sf = (s, fires)" by (cases sf)
  have ok: "items_ok (rule_ok fires) (re_rules s)" and known: "\<And>f. f \<in> set fires \<Longrightarrow> mget (re_rules s) (fst f) \<noteq> None"
    and fresh: "mget (re_rules s) (seq_id ''rule-'' (re_next s + 1)) = None"
    using inv store_inv_fresh [where items = re_rules and counter = re_next] by (auto simp: sf rule_inv_def)
  have st: "store_inv re_rules re_next ''rule-'' (fst (rule_step env sf op))"
    by (rule store_inv_step [where items = re_rules and counter = re_next and s = "fst sf", OF _ rule_keys]) (use inv in \<open>simp add: rule_inv_def\<close>)
  show ?thesis
  proof (cases op)
    case (RCreate now inp)
    have "times_of fires (seq_id ''rule-'' (re_next s + 1)) = []" using known fresh by (force simp: times_of_def filter_empty_conv)
    then show ?thesis using create_rule_cases [of now inp s] ok known st
      by (auto simp: RCreate sf rule_inv_def rule_ok_def intro!: items_intros)
  next
    case (RSetEnabled now i b)
    have "rule_ok fires i (r\<lparr>ru_enabled := b, ru_updated := now\<rparr>)" if "mget (re_rules s) i = Some r" for r
      using items_okD [OF ok that] by (simp add: rule_ok_def)
    then show ?thesis using ok known st
      by (auto simp: RSetEnabled sf rule_inv_def SetEnabled_rule_def Let_def split: option.splits intro!: items_intros)
  next
    case (RTurn event em now i)
    show ?thesis
    proof (cases rule: turn_cases [of env s fires event em now i])
      case 1
      then show ?thesis using inv by (simp add: sf RTurn del: rule_step.simps)
    next
      case (2 r)
      have new: "rule_ok (fires @ [(i, now)]) i (fired now r)"
        by (rule fired_ok [OF items_okD [OF ok 2(1)] 2(2)]) (use assms(2) RTurn in simp)
      have "rule_ok (fires @ [(i, now)]) k x" if "mget (mput i (fired now r) (re_rules s)) k = Some x" for k x
        using that new items_okD [OF ok, of k x] by (auto simp: rule_ok_def times_of_snoc split: if_splits)
      then show ?thesis using 2 st known by (auto simp: sf RTurn rule_inv_def simp del: rule_step.simps intro: items_okI)
    qed
  qed
qed

lemma rule_run_inv: "rule_inv sf \<Longrightarrow> \<forall>op \<in> set ops. op_time op \<noteq> 0 \<Longrightarrow> rule_inv (foldl (rule_step env) sf ops)"
  by (induction ops arbitrary: sf) (auto simp: rule_step_inv)

text \<open>C26: after any interleaving of rule creations, switches and turns of evaluations, at whatever (non-zero) times, two
  successive firings of a rule with a cool-down of \<open>c\<close> seconds are at least \<open>c\<close> seconds apart.\<close>

theorem rule_cooldown_respected:
  assumes "\<forall>op \<in> set ops. op_time op \<noteq> 0" and "(s, fires) = foldl (rule_step env) (NewRuleEngine, []) ops"
    and "mget (re_rules s) i = Some r" "0 < ru_cooldown r" "ru_cooldown r \<le> 9223372036"
  shows "spaced (ru_cooldown r * 1000000000) (times_of fires i)"
proof -
  have "rule_inv (NewRuleEngine, [])" by (simp add: rule_inv_def NewRuleEngine_def store_inv_def)
  from rule_run_inv [OF this assms(1), of env] have "rule_inv (s, fires)" by (simp add: assms(2))
  then have "rule_ok fires i r" using assms(3) by (auto simp: rule_inv_def dest: items_okD)
  then show ?thesis using assms(4,5) by (simp add: rule_ok_def seconds_small)
qed

text \<open>\<^verbatim>\<open>Evaluate\<close> goes through the rules in the order of their identifiers. If every condition can be evaluated it
  returns, in that order, exactly the enabled rules whose prefix, cool-down and conditions let them fire, and marks
  exactly these as fired. If a rule fails (a pattern that does not compile is accepted by \<^verbatim>\<open>Create\<close>), the rules before it stay marked
  as fired, and start their cool-down, but no match is returned: their actions are lost, and the rules after it are not looked at.\<close>

theorem Evaluate_exact:
  assumes "wf_map (re_rules s)" and "eventToMap event = Inr em"
  shows "let ids = sort (mkeys (re_rules s)); V = (\<lambda>i. verdict env event em now (rule_of s i)); reached = takeWhile (\<lambda>i. is_ok (V i)) ids
    in (snd (Evaluate env event now s) =
         (if reached = ids then Inr (map (\<lambda>i. match_of event (rule_of s i)) (filter (\<lambda>i. V i = Inr True) ids))
          else Inl (projl (V (ids ! length reached))))) \<and>
       (\<forall>k. mget (re_rules (fst (Evaluate env event now s))) k =
         (if k \<in> set reached \<and> V k = Inr True then Some (fired now (rule_of s k)) else mget (re_rules s) k))"
proof -
  have d: "distinct (sort (mkeys (re_rules s)))" using assms(1) by (simp add: wf_map_def)
  have "\<forall>i \<in> set (sort (mkeys (re_rules s))). mget (re_rules s) i \<noteq> None" unfolding set_sort set_mkeys by auto
  from evaluate_loop_exact [OF d this, of env event em now "[]"] show ?thesis
    by (simp add: Evaluate_def assms(2) Let_def)
qed

definition demo_rule :: "rule_condition list \<Rightarrow> int \<Rightarrow> rule" where
  "demo_rule conds cooldown = \<lparr>ru_id = [], ru_name = ''r'', ru_prefix = ''disk.'', ru_enabled = False, ru_mode = ''all'', ru_conditions = conds,
     ru_actions = [\<lparr>ra_type = ''enqueue_apply'', ra_config = ''c.yaml'', ra_template = [], ra_workflow = [], ra_priority = [], ra_force = False\<rparr>],
     ru_cooldown = cooldown, ru_last = 0, ru_count = 0, ru_created = 0, ru_updated = 0\<rparr>"

definition demo_event :: event where
  "demo_event = \<lparr>ev_index = 1, ev_time = 7, ev_type = ''disk.full'', ev_message = ''m'', ev_fields = [(''host'', JStr ''web'')], ev_prev = [], ev_hash = []\<rparr>"

definition demo_env :: rule_env where
  "demo_env = \<lparr>en_show_num = (\<lambda>n. n), en_regex = (\<lambda>p t. if p = ''('' then Inl ''error parsing regexp'' else Inr (Contains t p))\<rparr>"

theorem rule_cooldown_respected_witness:
  "let (s, fires) = foldl (rule_step demo_env) (NewRuleEngine, [])
       (RCreate 1 (demo_rule [] 5) # map (\<lambda>t. RTurn demo_event [] t ''rule-1'') [10, 4000000010, 5000000010])
   in times_of fires ''rule-1'' = [10, 5000000010] \<and> spaced 5000000000 (times_of fires ''rule-1'')"
proof -
  define ops where "ops = RCreate 1 (demo_rule [] 5) # map (\<lambda>t. RTurn demo_event [] t ''rule-1'') [10, 4000000010, 5000000010]"
  obtain s fires where run: "(s, fires) = foldl (rule_step demo_env) (NewRuleEngine, []) ops" by (metis surj_pair)
  define r where "r = the (mget (re_rules (fst (foldl (rule_step demo_env) (NewRuleEngine, []) ops))) ''rule-1'')"
  have "mget (re_rules (fst (foldl (rule_step demo_env) (NewRuleEngine, []) ops))) ''rule-1'' \<noteq> None" "ru_cooldown r = 5"
    "times_of (snd (foldl (rule_step demo_env) (NewRuleEngine, []) ops)) ''rule-1'' = [10, 5000000010]"
    "\<forall>op \<in> set ops. op_time op \<noteq> 0"
    unfolding r_def ops_def by code_simp+
  then have f: "mget (re_rules s) ''rule-1'' = Some r" "ru_cooldown r = 5" "times_of fires ''rule-1'' = [10, 5000000010]" "\<forall>op \<in> set ops. op_time op \<noteq> 0"
    using run [symmetric] by (auto simp: r_def)
  then show ?thesis using rule_cooldown_respected [OF f(4) run f(1)] run [symmetric] unfolding ops_def [symmetric] by simp
qed

theorem Evaluate_exact_witness:
  "let s = fst (Create_rule 1 (demo_rule [\<lparr>rc_field = ''fields.host'', rc_comparator = ''regex'', rc_value = ''(''\<rparr>] 0) (fst (Create_rule 1 (demo_rule [] 60) NewRuleEngine)))
   in snd (Evaluate demo_env demo_event 9 s) = Inl ''error parsing regexp'' \<and>
      mget (re_rules (fst (Evaluate demo_env demo_event 9 s))) ''rule-1'' = Some (fired 9 (rule_of s ''rule-1''))"
proof -
  define s where "s = fst (Create_rule 1 (demo_rule [\<lparr>rc_field = ''fields.host'', rc_comparator = ''regex'', rc_value = ''(''\<rparr>] 0) (fst (Create_rule 1 (demo_rule [] 60) NewRuleEngine)))"
  define em where "em = projr (eventToMap demo_event)"
  have em: "is_ok (eventToMap demo_event)" by code_simp
  then have em: "eventToMap demo_event = Inr em" by (auto simp: em_def is_ok_iff)
  have ids: "sort (mkeys (re_rules s)) = [''rule-1'', ''rule-2'']" unfolding s_def by code_simp
  have v: "verdict demo_env demo_event em 9 (rule_of s ''rule-1'') = Inr True" "verdict demo_env demo_event em 9 (rule_of s ''rule-2'') = Inl ''error parsing regexp''"
    unfolding s_def em_def by code_simp+
  have "wf_map (re_rules s)" unfolding s_def by code_simp
  from Evaluate_exact [OF this em, of demo_env 9] show ?thesis unfolding s_def [symmetric] Let_def ids by (simp add: v)
qed

end
