(* ===== verification/EventPipeline.thy ===== *)
theory EventPipeline
  imports Delivery Rulebook Workflow ConfigLoad
begin

text \<open>
  What the server does with an event (\<^verbatim>\<open>recordEvent\<close> and \<^verbatim>\<open>executeRuleAction\<close> of internal/server/server.go): it is
  appended to the log, published on the bus, turned into an alert and its notifications, sent to webhooks, and
  matched against the rules, whose actions enqueue jobs and launch workflows. This theory composes the models of
  the log, the bus, the alert inbox, the notification router, the webhooks, the rule engine, the workflows and the queue with its
  worker. All calls of \<^verbatim>\<open>time.Now\<close> within one \<^verbatim>\<open>recordEvent\<close> give the same time, and nothing interleaves with it
  here; the interleavings of the parts are treated in their theories.
\<close>

record pipeline_env =
  pe_digest :: "payload \<Rightarrow> string"
  pe_bus_net :: network
  pe_notify_net :: network
  pe_webhook_net :: network
  pe_hmac :: "string \<Rightarrow> string \<Rightarrow> string"
  pe_marshal :: "event \<Rightarrow> string"
  pe_marshal_bus :: "event \<Rightarrow> string \<Rightarrow> string \<Rightarrow> string"
  pe_marshal_alert :: "alert \<Rightarrow> string"
  pe_rules :: rule_env
  pe_base :: string
  pe_stat :: "string \<Rightarrow> string option"

record server =
  sv_events :: event_store
  sv_bus :: event_bus
  sv_alerts :: alert_inbox
  sv_notifications :: notification_router
  sv_webhooks :: webhook_dispatcher
  sv_rules :: rule_engine
  sv_workflows :: wf_store

definition plain_event :: "string \<Rightarrow> string \<Rightarrow> json gomap \<Rightarrow> event" where
  "plain_event typ msg fs = \<lparr>ev_index = 0, ev_time = 0, ev_type = typ, ev_message = msg, ev_fields = fs, ev_prev = [], ev_hash = []\<rparr>"

definition log_event :: "pipeline_env \<Rightarrow> gotime \<Rightarrow> event \<Rightarrow> server \<Rightarrow> server" where
  "log_event env now e s = s\<lparr>sv_events := fst (Append_locked (pe_digest env) now e (sv_events s))\<rparr>"

definition alert_event :: "pipeline_env \<Rightarrow> gotime \<Rightarrow> event \<Rightarrow> server \<Rightarrow> server" where
  "alert_event env now e s =
     (case IngestEvent now e (sv_alerts s) of
        (a, None) \<Rightarrow> s\<lparr>sv_alerts := a\<rparr>
      | (a, Some r) \<Rightarrow>
          s\<lparr>sv_alerts := a, sv_notifications := fst (NotifyAlert (pe_notify_net env) (pe_marshal_alert env) (ag_item r) (sv_notifications s))\<rparr>)"

definition rule_enqueue :: "gotime \<Rightarrow> string \<Rightarrow> rule_action \<Rightarrow> server \<Rightarrow> server \<times> unit result" where
  "rule_enqueue now configPath action s =
     (case submit_job \<lparr>su_now = now, su_path = configPath, su_force = ra_force action, su_priority = ra_priority action\<rparr> [] (wf_sys (sv_workflows s)) of
        (w, Inl e) \<Rightarrow> (s\<lparr>sv_workflows := (sv_workflows s)\<lparr>wf_sys := w\<rparr>\<rparr>, Inl e)
      | (w, Inr _) \<Rightarrow> (s\<lparr>sv_workflows := (sv_workflows s)\<lparr>wf_sys := w\<rparr>\<rparr>, Inr ()))"

definition executeRuleAction :: "pipeline_env \<Rightarrow> gotime \<Rightarrow> rule_action \<Rightarrow> server \<Rightarrow> server \<times> unit result" where
  "executeRuleAction env now action s =
     (if ra_type action = ''enqueue_apply''
      then let configPath = (if filepath_IsAbs (ra_config action) then ra_config action else filepath_Join [pe_base env, ra_config action])
           in (case pe_stat env configPath of Some e \<Rightarrow> (s, Inl e) | None \<Rightarrow> rule_enqueue now configPath action s)
      else if ra_type action = ''launch_template''
      then (case Get_template (ra_template action) (wf_templates (sv_workflows s)) of
              None \<Rightarrow> (s, Inl (''template not found: '' @ ra_template action))
            | Some tpl \<Rightarrow> rule_enqueue now (tp_path tpl) action s)
      else if ra_type action = ''launch_workflow''
      then (case Launch now (ra_workflow action) (ra_priority action) (ra_force action) (sv_workflows s) of
              (fl, Inl e) \<Rightarrow> (s\<lparr>sv_workflows := fl\<rparr>, Inl e)
            | (fl, Inr _) \<Rightarrow> (s\<lparr>sv_workflows := fl\<rparr>, Inr ()))
      else (s, Inl (''unsupported rule action type: '' @ ra_type action)))"

definition run_action :: "pipeline_env \<Rightarrow> gotime \<Rightarrow> rule_match \<Rightarrow> rule_action \<Rightarrow> server \<Rightarrow> server" where
  "run_action env now m action s =
     (case executeRuleAction env now action s of
        (s, Inl e) \<Rightarrow> log_event env now (plain_event ''rule.action.error'' ''rule action failed''
            [(''rule_id'', JStr (rm_rule m)), (''action_type'', JStr (ra_type action)), (''error'', JStr e)]) s
      | (s, Inr _) \<Rightarrow> log_event env now (plain_event ''rule.action.succeeded'' ''rule action executed''
            [(''rule_id'', JStr (rm_rule m)), (''action_type'', JStr (ra_type action))]) s)"

definition run_match :: "pipeline_env \<Rightarrow> gotime \<Rightarrow> event \<Rightarrow> rule_match \<Rightarrow> server \<Rightarrow> server" where
  "run_match env now e m s =
     fold (run_action env now m) (rm_actions m)
       (log_event env now (plain_event ''rule.matched'' ''event matched rule''
         [(''rule_id'', JStr (rm_rule m)), (''rule_name'', JStr (rm_name m)), (''event_type'', JStr (ev_type e))]) s)"

definition deliver_event :: "pipeline_env \<Rightarrow> gotime \<Rightarrow> event \<Rightarrow> server \<Rightarrow> server" where
  "deliver_event env now e s =
     (let s = log_event env now e s;
          s = s\<lparr>sv_bus := fst (Publish (pe_bus_net env) (pe_marshal_bus env) e (sv_bus s))\<rparr>;
          s = alert_event env now e s
      in s\<lparr>sv_webhooks := fst (Dispatch (pe_webhook_net env) (pe_hmac env) (pe_marshal env) e (sv_webhooks s))\<rparr>)"

definition recordEvent :: "pipeline_env \<Rightarrow> gotime \<Rightarrow> event \<Rightarrow> bool \<Rightarrow> server \<Rightarrow> server" where
  "recordEvent env now e evaluateRules s =
     (let s = deliver_event env now e s
      in if \<not> evaluateRules then s
         else case Evaluate (pe_rules env) e now (sv_rules s) of
           (rules, Inl err) \<Rightarrow>
             log_event env now (plain_event ''rule.evaluate.error'' ''rule evaluation failed''
               [(''event_type'', JStr (ev_type e)), (''error'', JStr err)]) (s\<lparr>sv_rules := rules\<rparr>)
         | (rules, Inr matches) \<Rightarrow> fold (run_match env now e) matches (s\<lparr>sv_rules := rules\<rparr>))"

section \<open>The parts keep their invariants\<close>

lemma Launch_steps:
  obtains "fst (Launch now wid prio force s) = fst (launch_with dispatch_begin now wid prio force s)"
  | n where "fst (Launch now wid prio force s) = dispatch_end now n (fst (launch_with dispatch_begin now wid prio force s))"
proof (cases "mget (wf_workflows s) wid")
  case None
  then show thesis by (intro that(1)) (simp add: Launch_def launch_with_def)
next
  case (Some wfl)
  define r where "r = \<lparr>wr_id = seq_id ''wfrun-'' (wf_next_run s + 1), wr_workflow = wid, wr_status = WorkflowPending, wr_current = 0,
    wr_total = int (length (wk_steps wfl)), wr_jobs = replicate (length (wk_steps wfl)) [],
    wr_priority = normalizePriority prio, wr_force = force, wr_error = [], wr_created = now, wr_started = 0, wr_ended = 0\<rparr>"
  define s0 where "s0 = put_run (wr_id r) r (s\<lparr>wf_next_run := wf_next_run s + 1\<rparr>)"
  obtain s1 res where b: "dispatch_begin now (wr_id r) 0 s0 = (s1, res)" by fastforce
  have started: "fst (launch_with dispatch_begin now wid prio force s) = s1"
    by (cases res) (simp_all add: launch_with_def Some r_def [symmetric] s0_def [symmetric] b Let_def)
  show thesis
  proof (cases res)
    case (Inl e)
    then show thesis using that(1) started by (simp add: Launch_def launch_with_def Some r_def [symmetric] s0_def [symmetric] dispatchStep_def b Let_def)
  next
    case (Inr u)
    then show thesis using that(2) started by (simp add: Launch_def launch_with_def Some r_def [symmetric] s0_def [symmetric] dispatchStep_def b Let_def)
  qed
qed

lemma wf_inv_Launch: "wf_inv s \<Longrightarrow> wf_inv (fst (Launch now wid prio force s))"
  by (rule Launch_steps [of now wid prio force s]) (simp_all add: wf_inv_launch wf_inv_dispatch_end)

text \<open>The invariants of all parts together.\<close>

definition server_inv :: "pipeline_env \<Rightarrow> server \<Rightarrow> bool" where
  "server_inv env s \<longleftrightarrow> log_inv (pe_digest env) (sv_events s) \<and> (\<exists>log. alert_inv (sv_alerts s, log)) \<and> webhook_inv (sv_webhooks s) \<and>
     wf_map (re_rules (sv_rules s)) \<and> wf_inv (sv_workflows s)"

lemma log_event_inv: "server_inv env s \<Longrightarrow> server_inv env (log_event env now e s)"
  by (simp add: server_inv_def log_event_def append_log_inv)

lemma IngestEvent_inv: "alert_inv (a, log) \<Longrightarrow> \<exists>log'. alert_inv (fst (IngestEvent now e a), log')"
proof -
  assume inv: "alert_inv (a, log)"
  have "alert_inv (alert_step (a, log) (AIngestEvent now e))" by (rule alert_step_inv [OF inv])
  then show ?thesis using IngestEvent_step [of a log now e] by metis
qed

lemma alert_event_inv: "server_inv env s \<Longrightarrow> server_inv env (alert_event env now e s)"
proof -
  assume inv: "server_inv env s"
  then obtain log where "alert_inv (sv_alerts s, log)" by (auto simp: server_inv_def)
  then have "\<exists>log. alert_inv (fst (IngestEvent now e (sv_alerts s)), log)" by (rule IngestEvent_inv)
  with inv show ?thesis by (cases "IngestEvent now e (sv_alerts s)") (auto simp: server_inv_def alert_event_def split: option.split)
qed

lemma deliver_event_inv: "server_inv env s \<Longrightarrow> server_inv env (deliver_event env now e s)"
proof -
  assume inv: "server_inv env s"
  define s1 where "s1 = (log_event env now e s)\<lparr>sv_bus := fst (Publish (pe_bus_net env) (pe_marshal_bus env) e (sv_bus (log_event env now e s)))\<rparr>"
  have "server_inv env s1" using log_event_inv [OF inv, of now e] by (simp add: server_inv_def s1_def)
  then have i2: "server_inv env (alert_event env now e s1)" by (rule alert_event_inv)
  then have "webhook_inv (webhook_step (pe_hmac env) (pe_marshal env) (sv_webhooks (alert_event env now e s1)) (WDispatch (pe_webhook_net env) e))"
    by (intro webhook_step_inv) (simp add: server_inv_def)
  then show ?thesis using i2 by (simp add: deliver_event_def s1_def [symmetric] server_inv_def Let_def)
qed

lemma wf_inv_submit: "wf_inv f \<Longrightarrow> submit_job r k (wf_sys f) = (w, res) \<Longrightarrow> wf_inv (f\<lparr>wf_sys := w\<rparr>)"
  by (erule wf_inv_evolves) (auto simp: queue_evolves_def dest: submit_is_step)

lemma rule_enqueue_inv: "server_inv env s \<Longrightarrow> server_inv env (fst (rule_enqueue now path action s))"
proof -
  assume inv: "server_inv env s"
  obtain w res where r: "submit_job \<lparr>su_now = now, su_path = path, su_force = ra_force action, su_priority = ra_priority action\<rparr> [] (wf_sys (sv_workflows s)) = (w, res)"
    by fastforce
  have "wf_inv ((sv_workflows s)\<lparr>wf_sys := w\<rparr>)" by (rule wf_inv_submit [OF _ r]) (use inv in \<open>simp add: server_inv_def\<close>)
  with inv r show ?thesis by (cases res) (simp_all add: rule_enqueue_def server_inv_def)
qed

lemma executeRuleAction_inv:
  assumes inv: "server_inv env s"
  shows "server_inv env (fst (executeRuleAction env now action s))"
proof -
  have wf: "wf_inv (fst (Launch now (ra_workflow action) (ra_priority action) (ra_force action) (sv_workflows s)))"
    using inv by (intro wf_inv_Launch) (simp add: server_inv_def)
  obtain f res where l: "Launch now (ra_workflow action) (ra_priority action) (ra_force action) (sv_workflows s) = (f, res)" by fastforce
  then have "server_inv env (s\<lparr>sv_workflows := f\<rparr>)" using wf inv by (simp add: server_inv_def)
  then show ?thesis using inv l rule_enqueue_inv [OF inv]
    by (cases res) (auto simp: executeRuleAction_def Let_def split: option.split)
qed

lemma run_action_inv: "server_inv env s \<Longrightarrow> server_inv env (run_action env now m action s)"
  using executeRuleAction_inv [of env s now action]
  by (cases "executeRuleAction env now action s"; cases "snd (executeRuleAction env now action s)") (simp_all add: run_action_def log_event_inv)

lemma run_actions_inv: "server_inv env s \<Longrightarrow> server_inv env (fold (run_action env now m) actions s)"
  by (induction actions arbitrary: s) (simp_all add: run_action_inv)

lemma run_match_inv: "server_inv env s \<Longrightarrow> server_inv env (run_match env now e m s)"
  unfolding run_match_def by (intro run_actions_inv log_event_inv)

lemma run_matches_inv: "server_inv env s \<Longrightarrow> server_inv env (fold (run_match env now e) ms s)"
  by (induction ms arbitrary: s) (simp_all add: run_match_inv)

lemma evaluate_loop_wf: "wf_map (re_rules s) \<Longrightarrow> wf_map (re_rules (fst (evaluate_loop env e em now ids ms s)))"
proof (induction ids arbitrary: ms s)
  case (Cons i ids)
  have "wf_map (re_rules (fst (evaluate_rule env e em now i s)))"
    using Cons.prems by (auto simp: evaluate_rule_def split: option.split sum.split)
  then show ?case using Cons.IH by (auto split: prod.split sum.split option.split)
qed simp

lemma Evaluate_wf: "wf_map (re_rules s) \<Longrightarrow> wf_map (re_rules (fst (Evaluate env e now s)))"
  by (simp add: Evaluate_def evaluate_loop_wf Let_def split: sum.split)

lemma recordEvent_inv:
  assumes "server_inv env s"
  shows "server_inv env (recordEvent env now e evaluateRules s)"
proof -
  let ?s = "deliver_event env now e s"
  have inv: "server_inv env ?s" by (rule deliver_event_inv [OF assms])
  obtain rules res where r: "Evaluate (pe_rules env) e now (sv_rules ?s) = (rules, res)" by fastforce
  have "wf_map (re_rules rules)" using Evaluate_wf [of "sv_rules ?s" "pe_rules env" e now] inv r by (simp add: server_inv_def)
  then have "server_inv env (?s\<lparr>sv_rules := rules\<rparr>)" using inv by (simp add: server_inv_def)
  then show ?thesis using inv r by (cases res) (simp_all add: recordEvent_def Let_def log_event_inv run_matches_inv)
qed

section \<open>What is logged\<close>

lemma log_event_next [simp]: "es_next (sv_events (log_event env now e s)) = es_next (sv_events s) + 1"
  by (simp add: log_event_def Append_locked_def sealEventLocked_def Let_def)

lemma alert_event_events [simp]: "sv_events (alert_event env now e s) = sv_events s"
  by (simp add: alert_event_def split: prod.split option.split)

lemma deliver_event_next [simp]: "es_next (sv_events (deliver_event env now e s)) = es_next (sv_events s) + 1"
  by (simp add: deliver_event_def Let_def)

lemma rule_enqueue_events [simp]: "sv_events (fst (rule_enqueue now path action s)) = sv_events s"
  by (simp add: rule_enqueue_def split: prod.split sum.split)

lemma executeRuleAction_events: "sv_events (fst (executeRuleAction env now action s)) = sv_events s"
proof -
  obtain f res where l: "Launch now (ra_workflow action) (ra_priority action) (ra_force action) (sv_workflows s) = (f, res)" by fastforce
  then show ?thesis by (cases res) (simp_all add: executeRuleAction_def Let_def split: option.split)
qed

lemma run_action_next: "es_next (sv_events (run_action env now m action s)) = es_next (sv_events s) + 1"
proof -
  obtain s1 res where r: "executeRuleAction env now action s = (s1, res)" by fastforce
  then have "sv_events s1 = sv_events s" using executeRuleAction_events [of env now action s] by simp
  then show ?thesis by (cases res) (simp_all add: run_action_def r)
qed

lemma run_match_next: "es_next (sv_events (run_match env now e m s)) = es_next (sv_events s) + 1 + int (length (rm_actions m))"
proof -
  have "es_next (sv_events (fold (run_action env now m) as s)) = es_next (sv_events s) + int (length as)" for as s
    by (induction as arbitrary: s) (simp_all add: run_action_next)
  then show ?thesis by (simp add: run_match_def)
qed

lemma run_matches_next:
  "es_next (sv_events (fold (run_match env now e) ms s)) = es_next (sv_events s) + (\<Sum>m \<leftarrow> ms. 1 + int (length (rm_actions m)))"
  by (induction ms arbitrary: s) (simp_all add: run_match_next)

lemma deliver_event_rules [simp]: "sv_rules (deliver_event env now e s) = sv_rules s"
  by (simp add: deliver_event_def alert_event_def log_event_def Let_def split: prod.split option.split)

section \<open>The running server\<close>

text \<open>Between two events any other operation of a part may happen. The digest of the log is fixed, the rest of the environment is not.\<close>

datatype server_op = SvRecord pipeline_env gotime event bool | SvWorkflow wf_op | SvRule rule_env rule_op | SvAlert alert_op | SvWebhook "string \<Rightarrow> string \<Rightarrow> string" "event \<Rightarrow> string" webhook_op

fun server_step :: "(payload \<Rightarrow> string) \<Rightarrow> server \<Rightarrow> server_op \<Rightarrow> server" where
  "server_step digest s (SvRecord env now e b) = recordEvent (env\<lparr>pe_digest := digest\<rparr>) now e b s"
| "server_step digest s (SvWorkflow op) = s\<lparr>sv_workflows := workflow_step (sv_workflows s) op\<rparr>"
| "server_step digest s (SvRule renv op) = s\<lparr>sv_rules := fst (rule_step renv (sv_rules s, []) op)\<rparr>"
| "server_step digest s (SvAlert op) = s\<lparr>sv_alerts := fst (alert_step (sv_alerts s, []) op)\<rparr>"
| "server_step digest s (SvWebhook hmac marshal op) = s\<lparr>sv_webhooks := webhook_step hmac marshal (sv_webhooks s) op\<rparr>"

lemma server_inv_env: "pe_digest env = pe_digest env' \<Longrightarrow> server_inv env s = server_inv env' s"
  by (simp add: server_inv_def)

lemma alert_step_log: "fst (alert_step (a, log) op) = fst (alert_step (a, log') op)"
  by (cases op) (simp_all add: take_in_def Let_def split_beta)

lemma server_step_inv:
  assumes inv: "server_inv env s" and d: "pe_digest env = digest"
  shows "server_inv env (server_step digest s op)"
proof (cases op)
  case (SvRecord env' now e b)
  have "server_inv (env'\<lparr>pe_digest := digest\<rparr>) s" using inv d by (subst server_inv_env [of _ env]) simp_all
  then have "server_inv (env'\<lparr>pe_digest := digest\<rparr>) (server_step digest s op)" by (simp add: SvRecord recordEvent_inv)
  then show ?thesis using d by (subst server_inv_env [of _ "env'\<lparr>pe_digest := digest\<rparr>"]) simp_all
next
  case (SvWorkflow wop)
  then show ?thesis using inv by (simp add: server_inv_def workflows.step_inv)
next
  case (SvRule renv rop)
  have "keys_step ''rule-'' (re_next (sv_rules s)) (re_rules (sv_rules s)) (re_next (fst (rule_step renv (sv_rules s, []) rop))) (re_rules (fst (rule_step renv (sv_rules s, []) rop)))"
    using rule_keys [of "(sv_rules s, [])" renv rop] by simp
  then show ?thesis using inv by (simp add: SvRule server_inv_def keys_step_def)
next
  case (SvAlert aop)
  obtain log where "alert_inv (sv_alerts s, log)" using inv by (auto simp: server_inv_def)
  then have "alert_inv (alert_step (sv_alerts s, log) aop)" by (rule alert_step_inv)
  then have "\<exists>log. alert_inv (fst (alert_step (sv_alerts s, []) aop), log)"
    using alert_step_log [of "sv_alerts s" "[]" aop log] by (metis prod.collapse)
  with inv show ?thesis by (simp add: SvAlert server_inv_def)
next
  case (SvWebhook hmac marshal wop)
  then show ?thesis using inv by (simp add: server_inv_def webhook_step_inv)
qed

definition NewServer :: "gotime \<Rightarrow> server" where
  "NewServer now = \<lparr>sv_events = NewEventStore 20000, sv_bus = NewEventBus, sv_alerts = NewAlertInbox now,
     sv_notifications = NewNotificationRouter 5000, sv_webhooks = NewWebhookDispatcher 5000, sv_rules = NewRuleEngine,
     sv_workflows = NewWorkflowStore (StartWorker (NewQueue now 512)) NewTemplateStore\<rparr>"

lemma NewServer_inv: "server_inv env (NewServer now)"
proof -
  have "reachable (StartWorker (foldl client_step (NewQueue now 512) []))" by (rule reachable.start)
  then have "wf_inv (NewWorkflowStore (StartWorker (NewQueue now 512)) NewTemplateStore)" by (intro wf_inv_init) simp
  moreover have "\<exists>log. alert_inv (NewAlertInbox now, log)" using NewAlertInbox_inv by blast
  ultimately show ?thesis
    by (simp add: server_inv_def NewServer_def NewWebhookDispatcher_inv NewEventStore_inv) (simp add: NewRuleEngine_def)
qed

lemma server_run_inv: "server_inv env s \<Longrightarrow> pe_digest env = digest \<Longrightarrow> server_inv env (foldl (server_step digest) s ops)"
  by (induction ops arbitrary: s) (simp_all add: server_step_inv)


section \<open>Suppressed alerts\<close>

lemma executeRuleAction_notifications: "sv_notifications (fst (executeRuleAction env now action s)) = sv_notifications s"
proof -
  obtain f res where l: "Launch now (ra_workflow action) (ra_priority action) (ra_force action) (sv_workflows s) = (f, res)" by fastforce
  have "sv_notifications (fst (rule_enqueue now path action s)) = sv_notifications s" for path
    by (simp add: rule_enqueue_def split: prod.split sum.split)
  then show ?thesis using l by (cases res) (simp_all add: executeRuleAction_def Let_def split: option.split)
qed

lemma log_event_notifications [simp]: "sv_notifications (log_event env now e s) = sv_notifications s"
  by (simp add: log_event_def)

lemma run_action_notifications: "sv_notifications (run_action env now m action s) = sv_notifications s"
proof -
  obtain s1 res where r: "executeRuleAction env now action s = (s1, res)" by fastforce
  then have "sv_notifications s1 = sv_notifications s" using executeRuleAction_notifications [of env now action s] by simp
  then show ?thesis by (cases res) (simp_all add: run_action_def r)
qed

lemma run_match_notifications: "sv_notifications (run_match env now e m s) = sv_notifications s"
proof -
  have "sv_notifications (fold (run_action env now m) as s) = sv_notifications s" for as s
    by (induction as arbitrary: s) (simp_all add: run_action_notifications)
  then show ?thesis by (simp add: run_match_def)
qed

lemma run_matches_notifications: "sv_notifications (fold (run_match env now e) ms s) = sv_notifications s"
  by (induction ms arbitrary: s) (simp_all add: run_match_notifications)

lemma recordEvent_notifications:
  "sv_notifications (recordEvent env now e b s) =
     (case snd (IngestEvent now e (sv_alerts s)) of
        None \<Rightarrow> sv_notifications s
      | Some r \<Rightarrow> fst (NotifyAlert (pe_notify_net env) (pe_marshal_alert env) (ag_item r) (sv_notifications s)))"
proof -
  have d: "sv_notifications (deliver_event env now e s) = (case snd (IngestEvent now e (sv_alerts s)) of None \<Rightarrow> sv_notifications s
      | Some r \<Rightarrow> fst (NotifyAlert (pe_notify_net env) (pe_marshal_alert env) (ag_item r) (sv_notifications s)))"
    by (cases "IngestEvent now e (sv_alerts s)") (simp add: deliver_event_def alert_event_def log_event_def Let_def split: option.split)
  obtain rules res where "Evaluate (pe_rules env) e now (sv_rules (deliver_event env now e s)) = (rules, res)" by fastforce
  then show ?thesis using d by (cases res) (simp_all add: recordEvent_def run_matches_notifications Let_def)
qed

lemma NotifyAlert_count:
  "nr_next_delivery (fst (NotifyAlert net marshal x r)) = nr_next_delivery r + int (length (filter (notification_wants x) (map snd (nr_targets r))))"
proof -
  obtain ds where ds: "NotifyAlert net marshal x r = (foldl store_notification_delivery r ds, ds)" "map nd_target ds = map nf_id (filter (notification_wants x) (map snd (nr_targets r)))"
    using notify_fold [of net "marshal x" x "map snd (nr_targets r)" r "[]"] by (auto simp: NotifyAlert_def)
  have "nr_next_delivery (foldl store_notification_delivery r ds) = nr_next_delivery r + int (length ds)" for r
    by (induction ds arbitrary: r) (simp_all add: store_notification_delivery_def)
  moreover have "length ds = length (filter (notification_wants x) (map snd (nr_targets r)))" using arg_cong [OF ds(2), of length] by simp
  ultimately show ?thesis by (simp add: ds(1))
qed

text \<open>suppressing an alert does not silence it: when an event raises an alert that the inbox reports as suppressed, the server sends the notification to
  every enabled target of its route all the same. Only the counters of the inbox differ.\<close>

theorem suppressed_alert_notifies:
  assumes "snd (IngestEvent now e (sv_alerts s)) = Some r" "ag_suppressed r"
  shows "nr_next_delivery (sv_notifications (recordEvent env now e evaluateRules s)) =
    nr_next_delivery (sv_notifications s) + int (length (filter (notification_wants (ag_item r)) (map snd (nr_targets (sv_notifications s)))))"
  using assms(1) by (simp add: recordEvent_notifications NotifyAlert_count)

section \<open>Examples\<close>

definition quiet_env :: pipeline_env where
  "quiet_env = \<lparr>pe_digest = pl_message, pe_bus_net = demo_net, pe_notify_net = demo_net, pe_webhook_net = demo_net, pe_hmac = (\<lambda>k m. m), pe_marshal = ev_type,
     pe_marshal_bus = (\<lambda>e k t. ev_type e), pe_marshal_alert = al_message, pe_rules = demo_env, pe_base = ''/srv'', pe_stat = (\<lambda>p. None)\<rparr>"

definition demo_target :: notification_target where
  "demo_target = \<lparr>nf_id = [], nf_name = ''oncall'', nf_kind = ''incident'', nf_url = ''https://pager'', nf_route = ''*'', nf_enabled = True, nf_success = 0,
     nf_failure = 0, nf_error = [], nf_delivered = 0, nf_created = 0, nf_updated = 0\<rparr>"

definition muted_alerts :: alert_inbox where
  "muted_alerts = fst (Suppress 3 ''disk.error'' 1000 ''known'' (NewAlertInbox 1))"

definition muted_server :: server where
  "muted_server = (let s = NewServer 1 in s\<lparr>sv_notifications := fst (Register_notification 2 demo_target (sv_notifications s)), sv_alerts := muted_alerts\<rparr>)"

lemma muted_server_targets:
  "map snd (nr_targets (sv_notifications muted_server)) = map snd (nr_targets (fst (Register_notification 2 demo_target (NewNotificationRouter 1))))"
  "nr_next_delivery (sv_notifications muted_server) = 0"
  by (simp_all add: muted_server_def NewServer_def Let_def Register_notification_def NewNotificationRouter_def)

theorem suppressed_alert_notifies_witness:
  "nr_next_delivery (sv_notifications (recordEvent quiet_env 5 (plain_event ''disk.error'' [] []) False muted_server)) = 1"
proof -
  let ?e = "plain_event ''disk.error'' [] []"
  have s: "sv_alerts muted_server = muted_alerts" by (simp add: muted_server_def Let_def)
  have c: "map_option ag_suppressed (snd (IngestEvent 5 ?e muted_alerts)) = Some True"
    "map_option (\<lambda>r. length (filter (notification_wants (ag_item r)) (map snd (nr_targets (fst (Register_notification 2 demo_target (NewNotificationRouter 1))))))) (snd (IngestEvent 5 ?e muted_alerts)) = Some 1"
    by code_simp+
  then obtain r where r: "snd (IngestEvent 5 ?e (sv_alerts muted_server)) = Some r" "ag_suppressed r"
    "length (filter (notification_wants (ag_item r)) (map snd (nr_targets (sv_notifications muted_server)))) = 1"
    by (auto simp only: s muted_server_targets map_option_case split: option.splits)
  show ?thesis unfolding suppressed_alert_notifies [OF r(1,2)] muted_server_targets(2) r(3) by simp
qed

definition apply_rule :: rule where
  "apply_rule = (demo_rule [] 0)\<lparr>ru_prefix := ''disk'', ru_actions := [\<lparr>ra_type = ''enqueue_apply'', ra_config = ''fix.yaml'', ra_template = [], ra_workflow = [],
     ra_priority = ''high'', ra_force = False\<rparr>]\<rparr>"


end
