(* ===== verification/Backlog.thy ===== *)
theory Backlog
  imports EventPipeline Guards
begin

text \<open>
  The watch over the queue: the objective for its backlog (internal/control/queue_backlog_slo.go), and
  \<^verbatim>\<open>observeQueueBacklog\<close> with \<^verbatim>\<open>maybeAutoRecoverStuck\<close> and \<^verbatim>\<open>recordStuckRecoveryEvent\<close> of internal/server/server.go, which run after
  every update of a job. They are composed here with the queue, the recovery policy and the event pipeline of the server.

  The growth of the backlog is computed in \<^verbatim>\<open>float64\<close>. The tests around it are modelled; the function from
  two samples to the growth, the projection and its comparison with the threshold is a parameter, so the theorems hold for any
  rounding. The updates that the queue publishes stay in its list of published jobs: the subscriber that would call the functions of
  this theory again is not run inside them.
\<close>

section \<open>The objective\<close>

record slo_policy =
  sp_threshold :: int
  sp_warning :: int
  sp_recovery :: int
  sp_projection :: int
  sp_updated :: gotime

record slo_status =
  ss_at :: gotime
  ss_pending :: int
  ss_running :: int
  ss_high :: int
  ss_normal :: int
  ss_low :: int
  ss_threshold :: int
  ss_warning :: int
  ss_recovery :: int
  ss_growth :: int
  ss_predicted :: int
  ss_predictive :: bool
  ss_state :: string

record slo_store =
  sl_limit :: nat
  sl_policy :: slo_policy
  sl_history :: "slo_status list"

definition NewQueueBacklogSLOStore :: "gotime \<Rightarrow> int \<Rightarrow> int \<Rightarrow> slo_store" where
  "NewQueueBacklogSLOStore now threshold limit =
     \<lparr>sl_limit = (if limit \<le> 0 then 5000 else nat limit),
      sl_policy = \<lparr>sp_threshold = (if threshold \<le> 0 then 100 else threshold), sp_warning = 70, sp_recovery = 50, sp_projection = 300, sp_updated = now\<rparr>,
      sl_history = []\<rparr>"

definition SetPolicy_slo :: "gotime \<Rightarrow> slo_policy \<Rightarrow> slo_store \<Rightarrow> slo_store \<times> slo_policy result" where
  "SetPolicy_slo now inp s =
     (if sp_threshold inp \<le> 0 then (s, Inl ''threshold must be > 0'')
      else if sp_warning inp \<le> 0 \<or> sp_warning inp \<ge> 100 then (s, Inl ''warning_percent must be > 0 and < 100'')
      else if sp_recovery inp \<le> 0 \<or> sp_recovery inp \<ge> sp_warning inp then (s, Inl ''recovery_percent must be > 0 and < warning_percent'')
      else if sp_projection inp < 30 \<or> sp_projection inp > 3600 then (s, Inl ''projection_seconds must be between 30 and 3600'')
      else let p = inp\<lparr>sp_updated := now\<rparr> in (s\<lparr>sl_policy := p\<rparr>, Inr p))"

definition Record_slo :: "gotime \<Rightarrow> slo_status \<Rightarrow> slo_store \<Rightarrow> slo_store \<times> slo_status" where
  "Record_slo now inp s =
     (let item = inp\<lparr>ss_at := (if ss_at inp = 0 then now else ss_at inp), ss_state := (if ss_state inp = [] then ''normal'' else ss_state inp)\<rparr>
      in (s\<lparr>sl_history := ring_push (sl_limit s) item (sl_history s)\<rparr>, item))"

definition Latest_slo :: "slo_store \<Rightarrow> slo_status option" where
  "Latest_slo s = (if sl_history s = [] then None else Some (last (sl_history s)))"

definition History_slo :: "int \<Rightarrow> slo_store \<Rightarrow> slo_status list" where
  "History_slo limit s =
     (let limit = (if limit \<le> 0 then 100 else nat limit) in rev (drop (length (sl_history s) - limit) (sl_history s)))"

section \<open>One observation\<close>

text \<open>The parameter: from the time between two samples, the jobs added, the latest number of jobs, the seconds to project and the threshold,
  the growth in thousandths per second, the projected number of jobs, and whether it reaches the threshold.\<close>

type_synonym projector = "duration \<Rightarrow> int \<Rightarrow> int \<Rightarrow> int \<Rightarrow> int \<Rightarrow> int \<times> int \<times> bool"

record monitor =
  mo_server :: server
  mo_recovery :: recovery_store
  mo_slo :: slo_store
  mo_samples :: "(gotime \<times> int) list"
  mo_warn :: bool
  mo_sat :: bool
  mo_metrics :: "int gomap"

definition boolToInt64 :: "bool \<Rightarrow> int" where
  "boolToInt64 v = (if v then 1 else 0)"

definition add_sample :: "gotime \<Rightarrow> int \<Rightarrow> (gotime \<times> int) list \<Rightarrow> (gotime \<times> int) list" where
  "add_sample now pending samples = dropWhile (\<lambda>x. fst x < now - seconds 120) (samples @ [(now, pending)])"

definition warn_threshold :: "slo_policy \<Rightarrow> int" where
  "warn_threshold p = (let t = go_div (wrap64 (sp_threshold p * sp_warning p)) 100 in if t \<le> 0 then 1 else t)"

definition recovery_threshold :: "slo_policy \<Rightarrow> int" where
  "recovery_threshold p = (let t = go_div (wrap64 (sp_threshold p * sp_recovery p)) 100 in if t < 0 then 0 else t)"

definition growth_of :: "projector \<Rightarrow> slo_policy \<Rightarrow> int \<Rightarrow> (gotime \<times> int) list \<Rightarrow> int \<times> int \<times> bool" where
  "growth_of proj p pending samples =
     (if length samples \<ge> 2
      then let oldest = hd samples; latest = last samples; dt = fst latest - fst oldest
           in if dt > 0 \<and> snd latest > snd oldest
              then proj dt (snd latest - snd oldest) (snd latest) (if sp_projection p \<le> 0 then 300 else sp_projection p) (sp_threshold p)
              else (0, pending, False)
      else (0, pending, False))"

definition saturation_event :: "slo_policy \<Rightarrow> control_status \<Rightarrow> event" where
  "saturation_event p st = plain_event ''queue.saturation'' ''queue backlog exceeded saturation SLO threshold''
     [(''pending'', JNum (strconv_Itoa (cs_pending st))), (''threshold'', JNum (strconv_Itoa (sp_threshold p))),
      (''pending_high'', JNum (strconv_Itoa (cs_pending_high st))), (''pending_normal'', JNum (strconv_Itoa (cs_pending_normal st))),
      (''pending_low'', JNum (strconv_Itoa (cs_pending_low st)))]"

definition predicted_event :: "slo_policy \<Rightarrow> control_status \<Rightarrow> int \<Rightarrow> int \<Rightarrow> event" where
  "predicted_event p st growth predicted = plain_event ''queue.saturation.predicted'' ''predictive queue backlog alert''
     [(''pending'', JNum (strconv_Itoa (cs_pending st))), (''threshold'', JNum (strconv_Itoa (sp_threshold p))),
      (''warning_threshold'', JNum (strconv_Itoa (warn_threshold p))), (''backlog_growth_per_sec_milli'', JNum (strconv_Itoa growth)),
      (''predicted_pending'', JNum (strconv_Itoa predicted))]"

definition recovered_event :: "slo_policy \<Rightarrow> control_status \<Rightarrow> event" where
  "recovered_event p st = plain_event ''queue.saturation.recovered'' ''queue backlog recovered below recovery threshold''
     [(''pending'', JNum (strconv_Itoa (cs_pending st))), (''recovery_target'', JNum (strconv_Itoa (recovery_threshold p)))]"

definition sample_metrics :: "control_status \<Rightarrow> int gomap \<Rightarrow> int gomap" where
  "sample_metrics st m =
     mput ''queue.running'' (cs_running st) (mput ''queue.pending.low'' (cs_pending_low st) (mput ''queue.pending.normal'' (cs_pending_normal st)
       (mput ''queue.pending.high'' (cs_pending_high st) (mput ''queue.pending.total'' (cs_pending st) m))))"

text \<open>The part of an observation under the lock of the metrics: the new state and the event to emit.\<close>

definition judge_backlog :: "projector \<Rightarrow> gotime \<Rightarrow> control_status \<Rightarrow> monitor \<Rightarrow> monitor \<times> event option" where
  "judge_backlog proj now st m =
     (let samples = add_sample now (cs_pending st) (mo_samples m); p = sl_policy (mo_slo m);
          (growth, predicted, predictive) = growth_of proj p (cs_pending st) samples;
          sat = (cs_pending st \<ge> sp_threshold p);
          warn = (\<not> sat \<and> predictive \<and> cs_pending st \<ge> warn_threshold p);
          recovered = (cs_pending st \<le> recovery_threshold p \<and> (mo_sat m \<or> mo_warn m) \<and> \<not> sat \<and> \<not> warn);
          emit = (if sat \<and> \<not> mo_sat m then Some (saturation_event p st)
                  else if warn \<and> \<not> mo_warn m then Some (predicted_event p st growth predicted)
                  else if recovered then Some (recovered_event p st) else None);
          state = (if sat then ''saturated'' else if warn then ''warning'' else ''normal'');
          slo = fst (Record_slo now \<lparr>ss_at = now, ss_pending = cs_pending st, ss_running = cs_running st, ss_high = cs_pending_high st,
            ss_normal = cs_pending_normal st, ss_low = cs_pending_low st, ss_threshold = sp_threshold p, ss_warning = warn_threshold p,
            ss_recovery = recovery_threshold p, ss_growth = growth, ss_predicted = predicted, ss_predictive = predictive, ss_state = state\<rparr> (mo_slo m));
          metrics = mput ''queue.saturation.warning'' (boolToInt64 warn) (mput ''queue.saturation.active'' (boolToInt64 sat)
            (mput ''queue.backlog_growth_per_sec_milli'' growth (sample_metrics st (mo_metrics m))))
      in (m\<lparr>mo_samples := samples, mo_sat := sat, mo_warn := warn, mo_slo := slo, mo_metrics := metrics\<rparr>, emit))"

definition stuck_event :: "string \<Rightarrow> int \<Rightarrow> string list \<Rightarrow> event" where
  "stuck_event mode maxAge jobs =
     (let auto_mode = EqualFold mode ''auto'';
          typ = ''control.recover_stuck.'' @ (if auto_mode then ''auto.'' else []);
          msg = (if auto_mode then ''automatic stuck-run recovery check completed'' else ''stuck-run recovery check completed'')
      in plain_event (typ @ (if jobs \<noteq> [] then ''recovered'' else ''noop''))
           (msg @ (if jobs \<noteq> [] then '' with recovered jobs'' else '' with no recovered jobs''))
           [(''mode'', JStr mode), (''recovered_count'', JNum (strconv_Itoa (int (length jobs)))),
            (''max_age_seconds'', JNum (strconv_Itoa maxAge)), (''job_ids'', JArr (map JStr jobs))])"

definition recordStuckRecoveryEvent :: "pipeline_env \<Rightarrow> gotime \<Rightarrow> string \<Rightarrow> int \<Rightarrow> string list \<Rightarrow> server \<Rightarrow> server" where
  "recordStuckRecoveryEvent env now mode maxAge jobs s = recordEvent env now (stuck_event mode maxAge jobs) True s"

definition server_queue :: "server \<Rightarrow> queue" where
  "server_queue s = w_queue (wf_sys (sv_workflows s))"

definition set_queue :: "queue \<Rightarrow> server \<Rightarrow> server" where
  "set_queue q s = s\<lparr>sv_workflows := (sv_workflows s)\<lparr>wf_sys := (wf_sys (sv_workflows s))\<lparr>w_queue := q\<rparr>\<rparr>\<rparr>"

definition maybeAutoRecoverStuck :: "pipeline_env \<Rightarrow> gotime \<Rightarrow> monitor \<Rightarrow> monitor" where
  "maybeAutoRecoverStuck env now m =
     (case PrepareAutoRun now (mo_recovery m) of
        (r, policy, False) \<Rightarrow> m\<lparr>mo_recovery := r\<rparr>
      | (r, policy, True) \<Rightarrow>
          let (q, recovered) = RecoverStuckJobs now (seconds (rp_max_age policy)) (server_queue (mo_server m))
          in m\<lparr>mo_recovery := RecordAutoRunResult now (int (length recovered)) r,
               mo_server := recordStuckRecoveryEvent env now ''auto'' (rp_max_age policy) (map j_id recovered) (set_queue q (mo_server m))\<rparr>)"

definition observeQueueBacklog :: "pipeline_env \<Rightarrow> projector \<Rightarrow> gotime \<Rightarrow> monitor \<Rightarrow> monitor" where
  "observeQueueBacklog env proj now m =
     (let m = maybeAutoRecoverStuck env now m
      in case judge_backlog proj now (ControlStatus (server_queue (mo_server m))) m of
           (m, None) \<Rightarrow> m
         | (m, Some e) \<Rightarrow> m\<lparr>mo_server := log_event env now e (mo_server m)\<rparr>)"

definition NewMonitor :: "gotime \<Rightarrow> int \<Rightarrow> monitor" where
  "NewMonitor now threshold = \<lparr>mo_server = NewServer now, mo_recovery = NewStuckRecoveryStore now,
     mo_slo = NewQueueBacklogSLOStore now threshold 5000, mo_samples = [], mo_warn = False, mo_sat = False, mo_metrics = []\<rparr>"

section \<open>The parts stay sound\<close>

lemma recover_is_client_step:
  "s\<lparr>sv_workflows := workflow_step (sv_workflows s) (WSystem (LClient (CRecover now age)))\<rparr> = set_queue (fst (RecoverStuckJobs now age (server_queue s))) s"
  by (simp add: set_queue_def server_queue_def)

lemma set_queue_inv:
  assumes "server_inv env s"
  shows "server_inv env (set_queue (fst (RecoverStuckJobs now age (server_queue s))) s)"
  using assms unfolding recover_is_client_step [symmetric] by (simp add: server_inv_def workflows.step_inv del: workflow_step.simps)

lemma maybeAutoRecoverStuck_inv:
  assumes "server_inv env (mo_server m)"
  shows "server_inv env (mo_server (maybeAutoRecoverStuck env now m))"
proof -
  obtain r policy go where p: "PrepareAutoRun now (mo_recovery m) = (r, policy, go)" by (metis prod_cases3)
  obtain q recovered where q: "RecoverStuckJobs now (seconds (rp_max_age policy)) (server_queue (mo_server m)) = (q, recovered)" by fastforce
  have "server_inv env (set_queue q (mo_server m))" using set_queue_inv [OF assms, of now "seconds (rp_max_age policy)"] by (simp add: q)
  then show ?thesis using assms by (cases go) (simp_all add: maybeAutoRecoverStuck_def p q recordStuckRecoveryEvent_def recordEvent_inv)
qed

lemma judge_backlog_server [simp]: "mo_server (fst (judge_backlog proj now st m)) = mo_server m"
  by (simp add: judge_backlog_def Let_def split_beta)

lemma observe_inv:
  assumes "server_inv env (mo_server m)"
  shows "server_inv env (mo_server (observeQueueBacklog env proj now m))"
proof -
  let ?m = "maybeAutoRecoverStuck env now m"
  have inv: "server_inv env (mo_server ?m)" by (rule maybeAutoRecoverStuck_inv [OF assms])
  obtain m' e where j: "judge_backlog proj now (ControlStatus (server_queue (mo_server ?m))) ?m = (m', e)" by fastforce
  then have "mo_server m' = mo_server ?m" using judge_backlog_server [of proj now "ControlStatus (server_queue (mo_server ?m))" ?m] by simp
  then show ?thesis using inv by (cases e) (simp_all add: observeQueueBacklog_def j log_event_inv)
qed

text \<open>Observations, changes of the policies and operations of the server in any order.\<close>

datatype monitor_op = MObserve pipeline_env projector gotime | MPolicy gotime slo_policy | MRecovery gotime recovery_policy | MServer server_op

fun monitor_step :: "(payload \<Rightarrow> string) \<Rightarrow> monitor \<Rightarrow> monitor_op \<Rightarrow> monitor" where
  "monitor_step digest m (MObserve env proj now) = observeQueueBacklog (env\<lparr>pe_digest := digest\<rparr>) proj now m"
| "monitor_step digest m (MPolicy now p) = m\<lparr>mo_slo := fst (SetPolicy_slo now p (mo_slo m))\<rparr>"
| "monitor_step digest m (MRecovery now p) = m\<lparr>mo_recovery := fst (SetPolicy now p (mo_recovery m))\<rparr>"
| "monitor_step digest m (MServer op) = m\<lparr>mo_server := server_step digest (mo_server m) op\<rparr>"

lemma monitor_step_inv:
  assumes "server_inv env (mo_server m)" "pe_digest env = digest"
  shows "server_inv env (mo_server (monitor_step digest m op))"
proof (cases op)
  case (MObserve env' proj now)
  have "server_inv (env'\<lparr>pe_digest := digest\<rparr>) (mo_server m)" using assms by (subst server_inv_env [of _ env]) simp_all
  then have "server_inv (env'\<lparr>pe_digest := digest\<rparr>) (mo_server (monitor_step digest m op))" by (simp add: MObserve observe_inv)
  then show ?thesis using assms(2) by (subst server_inv_env [of _ "env'\<lparr>pe_digest := digest\<rparr>"]) simp_all
qed (use assms server_step_inv in simp_all)

text \<open>After an observation that runs the recovery, whatever happened before, the queue is one that its worker and clients can reach and the workflows keep their order.\<close>

lemma monitor_run_sound:
  assumes "m = foldl (monitor_step digest) (NewMonitor now threshold) ops"
  shows "reachable (wf_sys (sv_workflows (mo_server m))) \<and> wf_inv (sv_workflows (mo_server m))"
proof -
  define env where "env = (undefined :: pipeline_env)\<lparr>pe_digest := digest\<rparr>"
  have d: "pe_digest env = digest" by (simp add: env_def)
  have "server_inv env (mo_server (foldl (monitor_step digest) m0 ops))" if "server_inv env (mo_server m0)" for m0
    using that by (induction ops arbitrary: m0) (simp_all add: monitor_step_inv d)
  then have "server_inv env (mo_server m)" using NewServer_inv by (simp add: assms NewMonitor_def)
  then show ?thesis using wf_invD(1) by (auto simp: server_inv_def)
qed

section \<open>The flags and the events\<close>

definition ordered_policy :: "slo_policy \<Rightarrow> bool" where
  "ordered_policy p \<longleftrightarrow> 0 < sp_threshold p \<and> recovery_threshold p < warn_threshold p \<and> warn_threshold p \<le> sp_threshold p"

lemma judge_backlog_keeps [simp]: "sl_policy (mo_slo (fst (judge_backlog proj now st m))) = sl_policy (mo_slo m)"
  by (simp add: judge_backlog_def Record_slo_def Let_def split_beta)

lemma judge_backlog_flags:
  "mo_sat (fst (judge_backlog proj now st m)) \<longleftrightarrow> cs_pending st \<ge> sp_threshold (sl_policy (mo_slo m))"
  "cs_pending st < warn_threshold (sl_policy (mo_slo m)) \<Longrightarrow> \<not> mo_warn (fst (judge_backlog proj now st m))"
  by (simp_all add: judge_backlog_def Let_def split_beta)

text \<open>Observations one after another, with the events that they emit.\<close>

fun judge_run :: "projector \<Rightarrow> (gotime \<times> control_status) list \<Rightarrow> monitor \<Rightarrow> monitor \<times> event list" where
  "judge_run proj [] m = (m, [])"
| "judge_run proj ((now, st) # obs) m =
     (let (m', e) = judge_backlog proj now st m; (m'', es) = judge_run proj obs m' in (m'', case_option [] (\<lambda>x. [x]) e @ es))"

lemma judge_silent:
  assumes "\<not> mo_sat m" "\<not> mo_warn m" "cs_pending st < warn_threshold (sl_policy (mo_slo m))" "warn_threshold (sl_policy (mo_slo m)) \<le> sp_threshold (sl_policy (mo_slo m))"
  shows "snd (judge_backlog proj now st m) = None \<and> \<not> mo_sat (fst (judge_backlog proj now st m)) \<and> \<not> mo_warn (fst (judge_backlog proj now st m))"
  using assms by (simp add: judge_backlog_def Let_def split_beta)

lemma judge_run_silent:
  assumes "\<not> mo_sat m" "\<not> mo_warn m" "warn_threshold (sl_policy (mo_slo m)) \<le> sp_threshold (sl_policy (mo_slo m))"
    and "list_all (\<lambda>(now, st). cs_pending st < warn_threshold (sl_policy (mo_slo m))) obs"
  shows "snd (judge_run proj obs m) = []"
  using assms
proof (induction obs arbitrary: m)
  case (Cons ob obs)
  obtain now st where ob: "ob = (now, st)" by fastforce
  let ?m = "fst (judge_backlog proj now st m)"
  have "snd (judge_backlog proj now st m) = None \<and> \<not> mo_sat ?m \<and> \<not> mo_warn ?m" using Cons.prems by (intro judge_silent) (simp_all add: ob)
  moreover have "snd (judge_run proj obs ?m) = []" using calculation Cons.prems by (intro Cons.IH) (simp_all add: ob)
  ultimately show ?case by (simp add: ob split_beta Let_def)
qed simp

text \<open>a queue that drains step by step never reports its recovery: after a saturation, one observation between the recovery threshold and
  the warning threshold clears the flags without an event, and from then on no observation below the warning threshold emits one,
  however far below the recovery threshold the backlog falls.\<close>

theorem saturation_recovery_lost:
  assumes "ordered_policy (sl_policy (mo_slo m))" "mo_sat m"
    and "recovery_threshold (sl_policy (mo_slo m)) < cs_pending st" "cs_pending st < warn_threshold (sl_policy (mo_slo m))"
    and "list_all (\<lambda>(now, st). cs_pending st < warn_threshold (sl_policy (mo_slo m))) obs"
  shows "snd (judge_run proj ((now, st) # obs) m) = []"
proof -
  let ?m = "fst (judge_backlog proj now st m)"
  have "snd (judge_backlog proj now st m) = None" using assms by (simp add: judge_backlog_def ordered_policy_def Let_def split_beta)
  moreover have "snd (judge_run proj obs ?m) = []"
    using assms by (intro judge_run_silent) (simp_all add: judge_backlog_flags ordered_policy_def)
  ultimately show ?thesis by (simp add: split_beta Let_def)
qed

text \<open>The severity that the alert inbox has for an event of saturation.\<close>

lemma saturation_severity: "inferSeverityFromEvent (saturation_event p st) = ''medium''"
proof -
  have "Contains (lower_trim ''queue.saturation'') ''critical'' = False" "Contains (lower_trim ''queue.saturation'') ''alert'' = False"
    "Contains (lower_trim ''queue.saturation'') ''error'' = False" "Contains (lower_trim ''queue.saturation'') ''saturation'' = True"
    by code_simp+
  then show ?thesis by (simp add: inferSeverityFromEvent_def saturation_event_def plain_event_def readStringField_def Let_def)
qed

text \<open>an observation that finds the queue saturated writes its event to the log only. The alert inbox has a severity for the event, and recording the
  event would raise an alert; the alerts, the notifications, the webhooks, the bus and the rules stay as they are.\<close>

theorem saturation_raises_no_alert:
  assumes "snd (snd (PrepareAutoRun now (mo_recovery m))) = False" "\<not> mo_sat m"
    and st: "st = ControlStatus (server_queue (mo_server m))" and "cs_pending st \<ge> sp_threshold (sl_policy (mo_slo m))"
    and e: "e = saturation_event (sl_policy (mo_slo m)) st"
  shows "mo_server (observeQueueBacklog env proj now m) = log_event env now e (mo_server m) \<and>
    (\<exists>r. snd (IngestEvent now e (sv_alerts (mo_server m))) = Some r) \<and>
    sv_alerts (mo_server (observeQueueBacklog env proj now m)) = sv_alerts (mo_server m)"
proof -
  obtain r policy where p: "PrepareAutoRun now (mo_recovery m) = (r, policy, False)" using assms(1) by (metis prod.collapse)
  let ?m = "m\<lparr>mo_recovery := r\<rparr>"
  have "snd (judge_backlog proj now st ?m) = Some e" using assms(2,4) by (simp add: judge_backlog_def e Let_def split_beta)
  then obtain m' where j: "judge_backlog proj now st ?m = (m', Some e)" by (metis prod.collapse)
  have "mo_server m' = mo_server m" using judge_backlog_server [of proj now st ?m] by (simp add: j)
  then have obs: "mo_server (observeQueueBacklog env proj now m) = log_event env now e (mo_server m)"
    using j by (simp add: observeQueueBacklog_def maybeAutoRecoverStuck_def p st)
  moreover have "\<exists>r. snd (IngestEvent now e (sv_alerts (mo_server m))) = Some r"
    by (simp add: IngestEvent_def e saturation_severity Let_def split_beta)
  ultimately show ?thesis by (simp add: log_event_def)
qed

section \<open>Examples\<close>

definition pending_status :: "int \<Rightarrow> control_status" where
  "pending_status n = \<lparr>cs_paused = False, cs_running = 0, cs_pending = n, cs_pending_high = 0, cs_pending_normal = n, cs_pending_low = 0\<rparr>"

lemma default_thresholds:
  "warn_threshold (sl_policy (NewQueueBacklogSLOStore 1 100 5000)) = 70" "recovery_threshold (sl_policy (NewQueueBacklogSLOStore 1 100 5000)) = 50"
  "sp_threshold (sl_policy (NewQueueBacklogSLOStore 1 100 5000)) = 100"
  by (simp_all add: NewQueueBacklogSLOStore_def warn_threshold_def recovery_threshold_def wrap64_def go_div_def)

theorem saturation_recovery_lost_witness:
  "snd (judge_run (\<lambda>dt n l s t. (0, l, False)) [(5, pending_status 60), (6, pending_status 20), (7, pending_status 0)] ((NewMonitor 1 100)\<lparr>mo_sat := True\<rparr>)) = []"
proof -
  let ?m = "(NewMonitor 1 100)\<lparr>mo_sat := True\<rparr>"
  have p: "sl_policy (mo_slo ?m) = sl_policy (NewQueueBacklogSLOStore 1 100 5000)" by (simp add: NewMonitor_def)
  show ?thesis
    by (rule saturation_recovery_lost) (simp_all only: p default_thresholds ordered_policy_def, simp_all add: pending_status_def)
qed

definition busy_monitor :: monitor where
  "busy_monitor = (let m = NewMonitor 1 1
     in m\<lparr>mo_recovery := fst (PrepareAutoRun 1 (mo_recovery m)), mo_server := set_queue ((NewQueue 1 512)\<lparr>q_normal := [''job-1'']\<rparr>) (mo_server m)\<rparr>)"

theorem saturation_raises_no_alert_witness:
  "sv_alerts (mo_server (observeQueueBacklog quiet_env (\<lambda>dt n l s t. (0, l, False)) 2 busy_monitor)) = NewAlertInbox 1"
proof -
  have f: "snd (snd (PrepareAutoRun 2 (mo_recovery busy_monitor))) = False" "\<not> mo_sat busy_monitor" "sp_threshold (sl_policy (mo_slo busy_monitor)) = 1"
    "cs_pending (ControlStatus (server_queue (mo_server busy_monitor))) = 1" "sv_alerts (mo_server busy_monitor) = NewAlertInbox 1"
    by (simp_all add: busy_monitor_def NewMonitor_def NewStuckRecoveryStore_def PrepareAutoRun_def seconds_def wrap64_def NewQueueBacklogSLOStore_def
        server_queue_def set_queue_def ControlStatus_def NewQueue_def NewServer_def Let_def)
  show ?thesis using saturation_raises_no_alert [OF f(1,2) refl _ refl, of quiet_env "\<lambda>dt n l s t. (0, l, False)"] f(3-5) by (simp add: log_event_def)
qed

end
