(* ===== verification/TaskModel.thy ===== *)
theory TaskModel
  imports ControlUtil Provider
begin

text \<open>
  The task framework of internal/control/task_framework.go, first part: values of type \<^verbatim>\<open>any\<close>, the parameters of a task with
  their types, and the masking of sensitive ones. A \<^verbatim>\<open>float64\<close> is kept as a mantissa and an exponent, so that the conversions between
  integers and floating point numbers compute: an integer is rounded to 53 bits, half to even, and the
  conversion of a number that does not fit an \<^verbatim>\<open>int64\<close> gives the smallest one, as on amd64. The range over a map is taken in storage order.
\<close>

section \<open>Values\<close>

datatype float64 = Fin int int | Infinite bool | NaN

datatype int_kind = KInt | KInt8 | KInt16 | KInt32 | KInt64 | KUint | KUint8 | KUint16 | KUint32 | KUint64

datatype val =
    VNull
  | VBool bool
  | VStr string
  | VF64 float64
  | VF32 float64
  | VInt int_kind int
  | VArr "val list"
  | VObj "(string \<times> val) list"

text \<open>The shift that brings a number of at most 64 bits below \<open>2 ^ 53\<close>.\<close>

definition float_shift :: "int \<Rightarrow> nat" where
  "float_shift n = length (takeWhile (\<lambda>k. n div 2 ^ k \<ge> 2 ^ 53) [0..<12])"

definition round_half_even :: "nat \<Rightarrow> int \<Rightarrow> int" where
  "round_half_even k n =
     (if k = 0 then n
      else let q = n div 2 ^ k; r = n mod 2 ^ k in if r > 2 ^ (k - 1) \<or> r = 2 ^ (k - 1) \<and> odd q then q + 1 else q)"

definition float_of_int :: "int \<Rightarrow> float64" where
  "float_of_int i = (let n = \<bar>i\<bar>; k = float_shift n in Fin (sgn i * round_half_even k n) (int k))"

text \<open>\<^verbatim>\<open>math.Trunc(v) == v\<close>.\<close>

fun is_integral :: "float64 \<Rightarrow> bool" where
  "is_integral (Fin m e) \<longleftrightarrow> e \<ge> 0 \<or> m mod 2 ^ nat (- e) = 0"
| "is_integral (Infinite neg) \<longleftrightarrow> True"
| "is_integral NaN \<longleftrightarrow> False"

fun int64_of_float :: "float64 \<Rightarrow> int" where
  "int64_of_float (Fin m e) =
     (let v = (if e \<ge> 0 then m * 2 ^ nat e else sgn m * (\<bar>m\<bar> div 2 ^ nat (- e))) in if - (2 ^ 63) \<le> v \<and> v < 2 ^ 63 then v else - (2 ^ 63))"
| "int64_of_float (Infinite neg) = - (2 ^ 63)"
| "int64_of_float NaN = - (2 ^ 63)"

fun deepCopyAny :: "val \<Rightarrow> val" and clone_entries :: "(string \<times> val) list \<Rightarrow> (string \<times> val) list \<Rightarrow> (string \<times> val) list" and
  cloneTaskAnySlice :: "val list \<Rightarrow> val list" where
  "deepCopyAny (VObj m) = VObj (clone_entries [] m)"
| "deepCopyAny (VArr vs) = VArr (cloneTaskAnySlice vs)"
| "deepCopyAny v = v"
| "clone_entries out [] = out"
| "clone_entries out ((k, v) # m) = clone_entries (mput (TrimSpace k) (deepCopyAny v) out) m"
| "cloneTaskAnySlice [] = []"
| "cloneTaskAnySlice (v # vs) = deepCopyAny v # cloneTaskAnySlice vs"

type_synonym params = "val gomap"

definition cloneTaskAnyMap :: "params \<Rightarrow> params" where
  "cloneTaskAnyMap m = clone_entries [] m"

section \<open>Parameters\<close>

record param_spec =
  ps_name :: string
  ps_type :: string
  ps_description :: string
  ps_required :: bool
  ps_sensitive :: bool
  ps_default :: val

record task_definition =
  td_id :: string
  td_name :: string
  td_module :: string
  td_action :: string
  td_primitive :: string
  td_description :: string
  td_parameters :: "param_spec list"
  td_created :: gotime
  td_updated :: gotime

definition validateAndNormalizeType :: "string \<Rightarrow> val \<Rightarrow> val result" where
  "validateAndNormalizeType typ0 v =
     (let typ = lower_trim typ0
      in if typ = ''string'' then (case v of VStr s \<Rightarrow> Inr v | _ \<Rightarrow> Inl ''expected string'')
         else if typ = ''number'' then
           (case v of VF64 f \<Rightarrow> Inr v | VF32 f \<Rightarrow> Inr (VF64 f) | VInt kind i \<Rightarrow> Inr (VF64 (float_of_int i)) | _ \<Rightarrow> Inl ''expected number'')
         else if typ = ''integer'' then
           (case v of
              VInt kind i \<Rightarrow> if kind = KUint64 \<and> i > 2 ^ 63 - 1 then Inl ''integer overflow'' else Inr (VInt KInt64 (wrap64 i))
            | VF64 f \<Rightarrow> if \<not> is_integral f then Inl ''expected integer'' else Inr (VInt KInt64 (int64_of_float f))
            | _ \<Rightarrow> Inl ''expected integer'')
         else if typ = ''bool'' then (case v of VBool b \<Rightarrow> Inr v | _ \<Rightarrow> Inl ''expected bool'')
         else if typ = ''object'' then (case v of VObj m \<Rightarrow> Inr (VObj (cloneTaskAnyMap m)) | _ \<Rightarrow> Inl ''expected object'')
         else if typ = ''array'' then (case v of VArr vs \<Rightarrow> Inr (VArr (cloneTaskAnySlice vs)) | _ \<Rightarrow> Inl ''expected array'')
         else if typ = ''any'' then Inr (deepCopyAny v)
         else Inl ''unsupported type'')"

definition param_types :: "string list" where
  "param_types = [''string'', ''number'', ''integer'', ''bool'', ''object'', ''array'', ''any'']"

fun normalize_specs :: "nat \<Rightarrow> string list \<Rightarrow> param_spec list \<Rightarrow> param_spec list result" where
  "normalize_specs i seen [] = Inr []"
| "normalize_specs i seen (raw # rest) =
     (let name = TrimSpace (ps_name raw); typ0 = lower_trim (ps_type raw); typ = (if typ0 = [] then ''string'' else typ0)
      in if name = [] then Inl (''parameters['' @ strconv_Itoa (int i) @ ''].name is required'')
         else if name \<in> set seen then Inl (''duplicate parameter name '' @ go_quote name)
         else if typ \<notin> set param_types then Inl (''parameter '' @ go_quote name @ '' has unsupported type '' @ go_quote typ)
         else case (if deepCopyAny (ps_default raw) = VNull then Inr VNull else validateAndNormalizeType typ (deepCopyAny (ps_default raw))) of
           Inl e \<Rightarrow> Inl (''parameter '' @ go_quote name @ '' default: '' @ e)
         | Inr d \<Rightarrow>
             (case normalize_specs (Suc i) (name # seen) rest of
                Inl e \<Rightarrow> Inl e
              | Inr specs \<Rightarrow> Inr (\<lparr>ps_name = name, ps_type = typ, ps_description = TrimSpace (ps_description raw), ps_required = ps_required raw,
                  ps_sensitive = ps_sensitive raw, ps_default = d\<rparr> # specs)))"

definition normalizeTaskParameterSpecs :: "param_spec list \<Rightarrow> param_spec list result" where
  "normalizeTaskParameterSpecs specs = (case normalize_specs 0 [] specs of Inl e \<Rightarrow> Inl e | Inr out \<Rightarrow> Inr (sort_key ps_name out))"

text \<open>The loop over the declared parameters.\<close>

fun resolve_specs :: "params \<Rightarrow> param_spec list \<Rightarrow> params \<Rightarrow> params result" where
  "resolve_specs inp [] resolved = Inr resolved"
| "resolve_specs inp (spec # specs) resolved =
     (case (case mget inp (ps_name spec) of Some v \<Rightarrow> Some v | None \<Rightarrow> if ps_default spec \<noteq> VNull then Some (deepCopyAny (ps_default spec)) else None) of
        None \<Rightarrow> if ps_required spec then Inl (''missing required parameter '' @ go_quote (ps_name spec)) else resolve_specs inp specs resolved
      | Some v \<Rightarrow>
          (case validateAndNormalizeType (ps_type spec) v of
             Inl e \<Rightarrow> Inl (''parameter '' @ go_quote (ps_name spec) @ '': '' @ e)
           | Inr v' \<Rightarrow> resolve_specs inp specs (mput (ps_name spec) v' resolved)))"

definition resolveTaskParameters :: "task_definition \<Rightarrow> params \<Rightarrow> params result" where
  "resolveTaskParameters task inp =
     (let inp = cloneTaskAnyMap inp
      in case List.find (\<lambda>k. k \<notin> ps_name ` set (td_parameters task)) (mkeys inp) of
           Some k \<Rightarrow> Inl (''unknown parameter '' @ go_quote k)
         | None \<Rightarrow> resolve_specs inp (td_parameters task) [])"

definition redacted :: val where
  "redacted = VStr ''***REDACTED***''"

definition mask_spec :: "param_spec \<Rightarrow> params \<Rightarrow> params" where
  "mask_spec spec out = (if \<not> ps_sensitive spec then out else if mget out (ps_name spec) \<noteq> None then mput (ps_name spec) redacted out else out)"

definition maskTaskParameters :: "task_definition \<Rightarrow> params \<Rightarrow> params" where
  "maskTaskParameters task ps = fold mask_spec (td_parameters task) (cloneTaskAnyMap ps)"

definition sensitiveParameterNames :: "task_definition \<Rightarrow> string list" where
  "sensitiveParameterNames task = sort (map ps_name (filter ps_sensitive (td_parameters task)))"

definition normalizeTaskTags :: "string list \<Rightarrow> string list" where
  "normalizeTaskTags tags = sort (normalize_loop [] tags)"

section \<open>Copies\<close>

text \<open>A map that a copy leaves alone: its keys are trimmed and distinct, its values are copies.\<close>

definition copied :: "params \<Rightarrow> bool" where
  "copied m \<longleftrightarrow> wf_map m \<and> list_all (\<lambda>(k, v). TrimSpace k = k \<and> deepCopyAny v = v) m"

lemma copied_mput: "copied m \<Longrightarrow> TrimSpace k = k \<Longrightarrow> deepCopyAny v = v \<Longrightarrow> copied (mput k v m)"
  by (induction m) (auto simp: copied_def wf_map_def dom_update)

lemma copied_Nil [simp]: "copied []"
  by (simp add: copied_def)

lemma copiedD: "copied m \<Longrightarrow> mget m k = Some v \<Longrightarrow> TrimSpace k = k \<and> deepCopyAny v = v"
  by (auto simp: copied_def list_all_iff dest: map_of_SomeD)

lemma clone_entries_fixed:
  "wf_map (out @ m) \<Longrightarrow> list_all (\<lambda>(k, v). TrimSpace k = k \<and> deepCopyAny v = v) m \<Longrightarrow> clone_entries out m = out @ m"
proof (induction m arbitrary: out)
  case (Cons p m)
  obtain k v where p: "p = (k, v)" by fastforce
  have "k \<notin> set (mkeys out)" using Cons.prems(1) by (auto simp: p wf_map_def)
  then have "mput k v out = out @ [(k, v)]" by (induction out) auto
  then show ?case using Cons.prems Cons.IH [of "out @ [(k, v)]"] by (simp add: p)
qed simp

lemma clone_copied [simp]: "copied m \<Longrightarrow> cloneTaskAnyMap m = m"
  using clone_entries_fixed [of "[]" m] by (simp add: copied_def cloneTaskAnyMap_def)

lemma copy_idem:
  "deepCopyAny (deepCopyAny v) = deepCopyAny v"
  "copied out \<Longrightarrow> copied (clone_entries out m)"
  "cloneTaskAnySlice (cloneTaskAnySlice vs) = cloneTaskAnySlice vs"
proof (induction v and out m and vs rule: deepCopyAny_clone_entries_cloneTaskAnySlice.induct)
  case (1 m)
  then show ?case using clone_copied [of "clone_entries [] m"] by (simp add: cloneTaskAnyMap_def)
qed (simp_all add: copied_mput)

lemmas deepCopyAny_idem [simp] = copy_idem(1)
lemmas clone_entries_copied = copy_idem(2)
lemmas cloneTaskAnySlice_idem [simp] = copy_idem(3)

lemma copied_clone [simp]: "copied (cloneTaskAnyMap m)"
  by (simp add: cloneTaskAnyMap_def clone_entries_copied)

section \<open>Types\<close>

lemma validate_idem:
  assumes "validateAndNormalizeType typ v = Inr v'"
  shows "validateAndNormalizeType typ v' = Inr v' \<and> deepCopyAny v' = v'"
proof -
  consider "lower_trim typ = ''string''" | "lower_trim typ = ''number''" | "lower_trim typ = ''integer''" | "lower_trim typ = ''bool''"
    | "lower_trim typ = ''object''" | "lower_trim typ = ''array''" | "lower_trim typ = ''any''"
    using assms by (auto simp: validateAndNormalizeType_def Let_def split: if_splits)
  then show ?thesis
  proof cases
    case 3
    have "wrap64 (wrap64 i) = wrap64 i" for i using wrap64_range [of i] by (intro wrap64_id) simp_all
    moreover have "wrap64 (int64_of_float f) = int64_of_float f" for f by (cases f) (auto simp: Let_def intro!: wrap64_id)
    ultimately show ?thesis using assms 3 by (cases v) (auto simp: validateAndNormalizeType_def Let_def split: if_splits)
  next
    case 5
    then show ?thesis using assms by (cases v) (auto simp: validateAndNormalizeType_def Let_def cloneTaskAnyMap_def [symmetric])
  qed (use assms in \<open>auto simp: validateAndNormalizeType_def Let_def split: val.splits\<close>)
qed

text \<open>Specifications as a registered task has them: named, distinct, of a known type, with a default of that type.\<close>

definition spec_ok :: "param_spec \<Rightarrow> bool" where
  "spec_ok spec \<longleftrightarrow> ps_name spec \<noteq> [] \<and> TrimSpace (ps_name spec) = ps_name spec \<and> ps_type spec \<in> set param_types \<and>
     (ps_default spec \<noteq> VNull \<longrightarrow> validateAndNormalizeType (ps_type spec) (ps_default spec) = Inr (ps_default spec))"

definition task_ok :: "task_definition \<Rightarrow> bool" where
  "task_ok task \<longleftrightarrow> list_all spec_ok (td_parameters task) \<and> distinct (map ps_name (td_parameters task))"

lemma normalize_specs_ok:
  "normalize_specs i seen raw = Inr specs \<Longrightarrow> list_all spec_ok specs \<and> distinct (map ps_name specs) \<and> set seen \<inter> set (map ps_name specs) = {}"
proof (induction i seen raw arbitrary: specs rule: normalize_specs.induct)
  case (2 i seen raw rest)
  let ?name = "TrimSpace (ps_name raw)" and ?kind = "if lower_trim (ps_type raw) = [] then ''string'' else lower_trim (ps_type raw)"
  obtain d rs where d: "(if deepCopyAny (ps_default raw) = VNull then Inr VNull else validateAndNormalizeType ?kind (deepCopyAny (ps_default raw))) = Inr d"
    and rs: "normalize_specs (Suc i) (?name # seen) rest = Inr rs" and n: "?name \<noteq> []" "?name \<notin> set seen" "?kind \<in> set param_types"
    and specs: "specs = \<lparr>ps_name = ?name, ps_type = ?kind, ps_description = TrimSpace (ps_description raw), ps_required = ps_required raw,
      ps_sensitive = ps_sensitive raw, ps_default = d\<rparr> # rs"
    using 2(2) by (simp add: Let_def split: if_splits sum.splits)
  have "list_all spec_ok rs \<and> distinct (map ps_name rs) \<and> set (?name # seen) \<inter> set (map ps_name rs) = {}" using 2(1) [OF refl refl refl n(1,2) _ d rs] n(3) by simp
  moreover have "d \<noteq> VNull \<longrightarrow> validateAndNormalizeType ?kind d = Inr d" using d validate_idem by (auto split: if_splits)
  moreover have "spec_ok \<lparr>ps_name = ?name, ps_type = ?kind, ps_description = TrimSpace (ps_description raw), ps_required = ps_required raw,
      ps_sensitive = ps_sensitive raw, ps_default = d\<rparr>"
    using n calculation(2) unfolding spec_ok_def by simp
  ultimately show ?case using n(2) unfolding specs by simp
qed simp

lemma normalizeTaskParameterSpecs_ok:
  assumes "normalizeTaskParameterSpecs raw = Inr specs"
  shows "list_all spec_ok specs \<and> distinct (map ps_name specs)"
proof -
  obtain out where o: "normalize_specs 0 [] raw = Inr out" "specs = sort_key ps_name out"
    using assms by (auto simp: normalizeTaskParameterSpecs_def split: sum.splits)
  have "distinct (map ps_name (sort_key ps_name out)) = distinct (map ps_name out)"
    by (metis mset_map mset_sort mset_eq_imp_distinct_iff)
  then show ?thesis using normalize_specs_ok [OF o(1)] by (simp add: o(2) list_all_iff)
qed

section \<open>Resolved parameters\<close>

text \<open>What one declared parameter contributes: nothing, because the call is refused (\<open>None\<close>); no entry; or its value.\<close>

definition given :: "params \<Rightarrow> param_spec \<Rightarrow> val option" where
  "given inp spec = (case mget inp (ps_name spec) of Some v \<Rightarrow> Some v | None \<Rightarrow> if ps_default spec \<noteq> VNull then Some (deepCopyAny (ps_default spec)) else None)"

definition spec_result :: "params \<Rightarrow> param_spec \<Rightarrow> val option option" where
  "spec_result inp spec =
     (case given inp spec of
        None \<Rightarrow> if ps_required spec then None else Some None
      | Some v \<Rightarrow> (case validateAndNormalizeType (ps_type spec) v of Inl e \<Rightarrow> None | Inr v' \<Rightarrow> Some (Some v')))"

definition spec_entry :: "params \<Rightarrow> param_spec \<Rightarrow> params" where
  "spec_entry inp spec = (case spec_result inp spec of Some (Some v) \<Rightarrow> [(ps_name spec, v)] | _ \<Rightarrow> [])"

definition entries :: "params \<Rightarrow> param_spec list \<Rightarrow> params" where
  "entries inp specs = concat (map (spec_entry inp) specs)"

lemma mput_new_key: "k \<notin> set (mkeys m) \<Longrightarrow> mput k v m = m @ [(k, v)]"
  by (induction m) auto

lemma resolve_specs_iff:
  assumes "distinct (map ps_name specs)" "set (map ps_name specs) \<inter> set (mkeys acc) = {}"
  shows "resolve_specs inp specs acc = Inr r \<longleftrightarrow> list_all (\<lambda>spec. spec_result inp spec \<noteq> None) specs \<and> r = acc @ entries inp specs"
  using assms
proof (induction specs arbitrary: acc)
  case (Cons spec specs)
  have fresh: "ps_name spec \<notin> set (mkeys acc)" using Cons.prems by simp
  show ?case
  proof (cases "given inp spec")
    case None
    then show ?thesis using Cons.IH [of acc] Cons.prems by (simp add: given_def [symmetric] spec_result_def spec_entry_def entries_def)
  next
    case (Some v)
    show ?thesis
    proof (cases "validateAndNormalizeType (ps_type spec) v")
      case (Inl e)
      then show ?thesis using Some by (simp add: given_def [symmetric] spec_result_def)
    next
      case (Inr v')
      have "set (map ps_name specs) \<inter> set (mkeys (acc @ [(ps_name spec, v')])) = {}" using Cons.prems by auto
      then show ?thesis
        using Some Inr Cons.IH [of "acc @ [(ps_name spec, v')]"] Cons.prems
        by (simp add: given_def [symmetric] spec_result_def spec_entry_def entries_def mput_new_key [OF fresh])
    qed
  qed
qed (auto simp: entries_def)

lemma resolve_all_iff:
  assumes "task_ok t"
  shows "resolveTaskParameters t inp = Inr r \<longleftrightarrow>
    set (mkeys (cloneTaskAnyMap inp)) \<subseteq> ps_name ` set (td_parameters t) \<and>
    list_all (\<lambda>spec. spec_result (cloneTaskAnyMap inp) spec \<noteq> None) (td_parameters t) \<and> r = entries (cloneTaskAnyMap inp) (td_parameters t)"
proof -
  have "List.find (\<lambda>k. k \<notin> ps_name ` set (td_parameters t)) (mkeys (cloneTaskAnyMap inp)) = None \<longleftrightarrow>
      set (mkeys (cloneTaskAnyMap inp)) \<subseteq> ps_name ` set (td_parameters t)" by (auto simp: find_None_iff simp del: set_map)
  then show ?thesis
    using assms resolve_specs_iff [of "td_parameters t" "[]" "cloneTaskAnyMap inp" r]
    by (auto simp: resolveTaskParameters_def task_ok_def Let_def split: option.splits simp del: set_map)
qed

lemma mkeys_entries: "set (mkeys (entries inp specs)) \<subseteq> ps_name ` set specs"
  by (induction specs) (auto simp: entries_def spec_entry_def split: option.splits)

lemma mget_entries:
  "distinct (map ps_name specs) \<Longrightarrow> spec \<in> set specs \<Longrightarrow> spec_result inp spec \<noteq> None \<Longrightarrow> mget (entries inp specs) (ps_name spec) = the (spec_result inp spec)"
proof (induction specs)
  case (Cons x specs)
  have e: "entries inp (x # specs) = spec_entry inp x @ entries inp specs" by (simp add: entries_def)
  show ?case
  proof (cases "spec = x")
    case True
    have "ps_name spec \<notin> set (mkeys (entries inp specs))" using Cons.prems(1) True mkeys_entries [of inp specs] by auto
    then have "mget (entries inp specs) (ps_name spec) = None" by (simp add: map_of_eq_None_iff)
    then show ?thesis using True Cons.prems(3) by (auto simp: e map_add_def spec_entry_def split: option.splits)
  next
    case False
    then have "ps_name x \<noteq> ps_name spec" "spec \<in> set specs" using Cons.prems(1,2) by auto
    then have "mget (spec_entry inp x) (ps_name spec) = None" by (simp add: spec_entry_def split: option.split)
    then show ?thesis using Cons \<open>spec \<in> set specs\<close> by (simp add: e map_add_def)
  qed
qed simp

lemma copied_entries:
  assumes "task_ok t"
  shows "copied (entries inp (td_parameters t))"
proof -
  have fixed: "TrimSpace k = k \<and> deepCopyAny v = v" if "spec_ok spec" "(k, v) \<in> set (spec_entry inp spec)" for spec k v
    using that validate_idem by (auto simp: spec_entry_def spec_result_def spec_ok_def split: option.splits sum.splits if_splits)
  have "distinct (map ps_name specs) \<Longrightarrow> wf_map (entries inp specs)" for specs
  proof (induction specs)
    case (Cons x specs)
    have "ps_name x \<notin> set (mkeys (entries inp specs))" using Cons.prems mkeys_entries [of inp specs] by auto
    then show ?case using Cons by (simp add: entries_def spec_entry_def wf_map_def split: option.split)
  qed (simp add: entries_def)
  then show ?thesis using assms fixed by (auto simp: copied_def task_ok_def entries_def list_all_iff)
qed

lemma spec_result_again:
  assumes "task_ok t" "spec \<in> set (td_parameters t)" "spec_result inp spec \<noteq> None"
  shows "spec_result (entries inp (td_parameters t)) spec = spec_result inp spec"
proof -
  have g: "mget (entries inp (td_parameters t)) (ps_name spec) = the (spec_result inp spec)"
    using assms by (intro mget_entries) (simp_all add: task_ok_def)
  show ?thesis
  proof (cases "given inp spec")
    case None
    then have "spec_result inp spec = Some None" "ps_default spec = VNull" using assms(3) by (auto simp: spec_result_def given_def split: option.splits if_splits)
    then show ?thesis using g None by (simp add: spec_result_def given_def split: option.splits)
  next
    case (Some v)
    then obtain v' where v': "validateAndNormalizeType (ps_type spec) v = Inr v'" "spec_result inp spec = Some (Some v')"
      using assms(3) by (auto simp: spec_result_def split: sum.splits)
    then show ?thesis using g validate_idem [OF v'(1)] by (simp add: spec_result_def given_def)
  qed
qed

text \<open>Parameters that were resolved once resolve to themselves.\<close>

lemma resolve_idem:
  assumes t: "task_ok t" and r: "resolveTaskParameters t inp = Inr r"
  shows "resolveTaskParameters t r = Inr r \<and> copied r"
proof -
  let ?inp = "cloneTaskAnyMap inp"
  have e: "r = entries ?inp (td_parameters t)" and ok: "list_all (\<lambda>spec. spec_result ?inp spec \<noteq> None) (td_parameters t)"
    using r resolve_all_iff [OF t] by auto
  have c: "copied r" unfolding e by (rule copied_entries [OF t])
  have again: "spec_result r spec = spec_result ?inp spec" if "spec \<in> set (td_parameters t)" for spec
    using spec_result_again [OF t that, of ?inp] ok that unfolding e by (simp add: list_all_iff)
  then have "entries r (td_parameters t) = r" unfolding e [symmetric] by (subst (2) e) (simp add: entries_def spec_entry_def cong: map_cong)
  then show ?thesis using c again ok mkeys_entries [of ?inp "td_parameters t"] by (simp add: resolve_all_iff [OF t] list_all_iff e [symmetric])
qed

section \<open>Masks\<close>

definition sensitive_names :: "task_definition \<Rightarrow> string set" where
  "sensitive_names t = ps_name ` {spec \<in> set (td_parameters t). ps_sensitive spec}"

lemma mget_mask:
  "mget (maskTaskParameters t ps) k = (if k \<in> sensitive_names t then map_option (\<lambda>v. redacted) (mget (cloneTaskAnyMap ps) k) else mget (cloneTaskAnyMap ps) k)"
proof -
  have "mget (fold mask_spec specs m) k = (if k \<in> ps_name ` {spec \<in> set specs. ps_sensitive spec} then map_option (\<lambda>v. redacted) (mget m k) else mget m k)" for specs m
    by (induction specs arbitrary: m) (auto simp: mask_spec_def split: option.splits)
  then show ?thesis by (simp add: maskTaskParameters_def sensitive_names_def)
qed

text \<open>C36: resolving the parameters of a registered task is exact: it succeeds exactly when every name is declared, every required parameter is given or has a default, and
  every value has its declared type; the result then holds for each declared parameter its normalised value, or nothing when it is optional and not given,
  and no other name. Resolving the result again gives the same result.\<close>

theorem resolveTaskParameters_exact:
  assumes "normalizeTaskParameterSpecs raw = Inr (td_parameters t)" "inp' = cloneTaskAnyMap inp"
  shows "(is_ok (resolveTaskParameters t inp) \<longleftrightarrow>
      set (mkeys inp') \<subseteq> ps_name ` set (td_parameters t) \<and> (\<forall>spec \<in> set (td_parameters t). spec_result inp' spec \<noteq> None)) \<and>
    (\<forall>r. resolveTaskParameters t inp = Inr r \<longrightarrow>
      (\<forall>spec \<in> set (td_parameters t). mget r (ps_name spec) = the (spec_result inp' spec)) \<and>
      set (mkeys r) \<subseteq> ps_name ` set (td_parameters t) \<and> resolveTaskParameters t r = Inr r)"
proof -
  have t: "task_ok t" using normalizeTaskParameterSpecs_ok [OF assms(1)] by (simp add: task_ok_def)
  note R = resolve_all_iff [OF t, of inp, folded assms(2)]
  have "is_ok (resolveTaskParameters t inp) \<longleftrightarrow> set (mkeys inp') \<subseteq> ps_name ` set (td_parameters t) \<and> (\<forall>spec \<in> set (td_parameters t). spec_result inp' spec \<noteq> None)"
    unfolding is_ok_iff R by (simp add: list_all_iff)
  moreover have "mget r (ps_name spec) = the (spec_result inp' spec)" if "resolveTaskParameters t inp = Inr r" "spec \<in> set (td_parameters t)" for r spec
    using that t mget_entries [of "td_parameters t" spec inp'] by (simp add: R task_ok_def list_all_iff)
  moreover have "set (mkeys r) \<subseteq> ps_name ` set (td_parameters t) \<and> resolveTaskParameters t r = Inr r" if "resolveTaskParameters t inp = Inr r" for r
    using that resolve_idem [OF t that] mkeys_entries [of inp' "td_parameters t"] by (simp add: R)
  ultimately show ?thesis by blast
qed

definition sample_task :: task_definition where
  "sample_task = \<lparr>td_id = ''task-1'', td_name = ''t'', td_module = ''m'', td_action = ''a'', td_primitive = ''operation'', td_description = [],
     td_parameters = [\<lparr>ps_name = ''n'', ps_type = ''integer'', ps_description = [], ps_required = True, ps_sensitive = False, ps_default = VNull\<rparr>], td_created = 0, td_updated = 0\<rparr>"

theorem resolveTaskParameters_exact_witness:
  "resolveTaskParameters sample_task [('' n'', VF64 (Fin 6 (- 1)))] = Inr [(''n'', VInt KInt64 3)] \<and>
   resolveTaskParameters sample_task [(''n'', VInt KInt64 3)] = Inr [(''n'', VInt KInt64 3)] \<and> \<not> is_ok (resolveTaskParameters sample_task [(''n'', VF64 (Fin 7 (- 1)))])"
proof -
  have n: "normalizeTaskParameterSpecs [\<lparr>ps_name = '' n '', ps_type = ''Integer'', ps_description = [], ps_required = True, ps_sensitive = False, ps_default = VNull\<rparr>] = Inr (td_parameters sample_task)"
    by code_simp
  have r: "resolveTaskParameters sample_task [('' n'', VF64 (Fin 6 (- 1)))] = Inr [(''n'', VInt KInt64 3)]" by code_simp
  have "\<not> (\<forall>spec \<in> set (td_parameters sample_task). spec_result (cloneTaskAnyMap [(''n'', VF64 (Fin 7 (- 1)))]) spec \<noteq> None)" by code_simp
  then show ?thesis using resolveTaskParameters_exact [OF n refl, of "[('' n'', VF64 (Fin 6 (- 1)))]"] resolveTaskParameters_exact [OF n refl, of "[(''n'', VF64 (Fin 7 (- 1)))]"] r by blast
qed

end
