(* ===== verification/TaskRuns.thy ===== *)
theory TaskRuns
  imports TaskModel
begin

text \<open>
  The task framework of internal/control/task_framework.go, second part: plans of tasks, their preview, and their executions. The
  goroutine of an execution (\<^verbatim>\<open>runExecution\<close>) is a state machine whose steps interleave with the calls of the clients and with the other
  executions: it starts, makes one turn of its loop for each step of the plan, and ends. A turn reads the set of cancelled executions
  and one task under the read lock; tasks are never changed or removed, so the turn is one step.
\<close>

section \<open>Plans\<close>

record plan_step =
  pt_name :: string
  pt_task :: string
  pt_params :: params
  pt_tags :: "string list"
  pt_continue :: bool

record task_plan =
  tk_id :: string
  tk_name :: string
  tk_description :: string
  tk_steps :: "plan_step list"
  tk_created :: gotime
  tk_updated :: gotime

record task_input =
  ti_name :: string
  ti_module :: string
  ti_action :: string
  ti_primitive :: string
  ti_description :: string
  ti_parameters :: "param_spec list"

record plan_input =
  pi_name :: string
  pi_description :: string
  pi_steps :: "plan_step list"

record preview_step =
  pv_name :: string
  pv_task :: string
  pv_module :: string
  pv_action :: string
  pv_primitive :: string
  pv_tags :: "string list"
  pv_continue :: bool
  pv_sensitive :: "string list"
  pv_params :: params

record task_preview =
  tv_plan :: string
  tv_steps :: "preview_step list"

datatype exec_status = ExPending | ExRunning | ExSucceeded | ExFailed | ExTimedOut | ExCanceled

record exec_step =
  es_name :: string
  es_task :: string
  es_module :: string
  es_action :: string
  es_primitive :: string
  es_tags :: "string list"
  es_continue :: bool
  es_status :: exec_status
  es_params :: params
  es_error :: string
  es_started :: gotime
  es_ended :: gotime

record execution =
  ex_id :: string
  ex_plan :: string
  ex_plan_name :: string
  ex_status :: exec_status
  ex_include :: "string list"
  ex_exclude :: "string list"
  ex_poll :: int
  ex_timeout :: int
  ex_created :: gotime
  ex_started :: gotime
  ex_ended :: gotime
  ex_count :: int
  ex_completed :: int
  ex_error :: string
  ex_steps :: "exec_step list"

record exec_input =
  xi_plan :: string
  xi_overrides :: "params gomap"
  xi_include :: "string list"
  xi_exclude :: "string list"
  xi_poll :: int
  xi_timeout :: int

text \<open>The goroutine of an execution with its local variables.\<close>

datatype run_phase = XReady | XLoop | XFinish | XDone

record exec_run =
  xr_plan :: task_plan
  xr_overrides :: "params gomap"
  xr_timeout :: int
  xr_phase :: run_phase
  xr_deadline :: gotime
  xr_todo :: "plan_step list"
  xr_status :: exec_status
  xr_error :: string
  xr_completed :: int
  xr_steps :: "exec_step list"

record task_store =
  tf_next_task :: int
  tf_next_plan :: int
  tf_next_exec :: int
  tf_tasks :: "task_definition gomap"
  tf_plans :: "task_plan gomap"
  tf_execs :: "execution gomap"
  tf_canceled :: "unit gomap"
  tf_runs :: "exec_run gomap"

definition NewTaskFrameworkStore :: task_store where
  "NewTaskFrameworkStore = \<lparr>tf_next_task = 0, tf_next_plan = 0, tf_next_exec = 0, tf_tasks = [], tf_plans = [], tf_execs = [], tf_canceled = [], tf_runs = []\<rparr>"

definition RegisterTask :: "gotime \<Rightarrow> task_input \<Rightarrow> task_store \<Rightarrow> task_store \<times> task_definition result" where
  "RegisterTask now inp s =
     (let name = TrimSpace (ti_name inp); module = TrimSpace (ti_module inp); action = TrimSpace (ti_action inp); primitive = lower_trim (ti_primitive inp)
      in if name = [] then (s, Inl ''name is required'')
         else if module = [] then (s, Inl ''module is required'')
         else if action = [] then (s, Inl ''action is required'')
         else case normalizeTaskParameterSpecs (ti_parameters inp) of
           Inl e \<Rightarrow> (s, Inl e)
         | Inr ps \<Rightarrow>
             let i = seq_id ''task-'' (tf_next_task s + 1);
                 task = \<lparr>td_id = i, td_name = name, td_module = module, td_action = action, td_primitive = (if primitive = [] then ''operation'' else primitive),
                   td_description = TrimSpace (ti_description inp), td_parameters = ps, td_created = now, td_updated = now\<rparr>
             in (s\<lparr>tf_next_task := tf_next_task s + 1, tf_tasks := mput i task (tf_tasks s)\<rparr>, Inr task))"

definition ListTasks :: "task_store \<Rightarrow> task_definition list" where
  "ListTasks s = newest_first td_created (map snd (tf_tasks s))"

definition GetTask :: "string \<Rightarrow> task_store \<Rightarrow> task_definition option" where
  "GetTask i s = mget (tf_tasks s) (TrimSpace i)"

definition resolveStepLocked :: "plan_step \<Rightarrow> nat \<Rightarrow> task_definition gomap \<Rightarrow> plan_step result" where
  "resolveStepLocked step idx tasks =
     (let name0 = TrimSpace (pt_name step); name = (if name0 = [] then ''step-'' @ itoa (int idx + 1) else name0); taskID = TrimSpace (pt_task step)
      in if taskID = [] then Inl ''task_id is required''
         else case mget tasks taskID of
           None \<Rightarrow> Inl (''task '' @ go_quote taskID @ '' not found'')
         | Some task \<Rightarrow>
             (case resolveTaskParameters task (pt_params step) of
                Inl e \<Rightarrow> Inl (''step '' @ go_quote name @ '': '' @ e)
              | Inr ps \<Rightarrow> Inr \<lparr>pt_name = name, pt_task = taskID, pt_params = ps, pt_tags = normalizeTaskTags (pt_tags step), pt_continue = pt_continue step\<rparr>))"

fun resolve_steps :: "task_definition gomap \<Rightarrow> nat \<Rightarrow> string list \<Rightarrow> plan_step list \<Rightarrow> plan_step list result" where
  "resolve_steps tasks i names [] = Inr []"
| "resolve_steps tasks i names (step # rest) =
     (case resolveStepLocked step i tasks of
        Inl e \<Rightarrow> Inl e
      | Inr st \<Rightarrow>
          if pt_name st \<in> set names then Inl (''duplicate step name '' @ go_quote (pt_name st))
          else case resolve_steps tasks (Suc i) (pt_name st # names) rest of Inl e \<Rightarrow> Inl e | Inr sts \<Rightarrow> Inr (st # sts))"

definition mask_step :: "task_definition gomap \<Rightarrow> plan_step \<Rightarrow> plan_step" where
  "mask_step tasks step = (case mget tasks (pt_task step) of None \<Rightarrow> step | Some task \<Rightarrow> step\<lparr>pt_params := maskTaskParameters task (pt_params step)\<rparr>)"

definition maskPlanLocked :: "task_plan \<Rightarrow> task_store \<Rightarrow> task_plan" where
  "maskPlanLocked plan s = plan\<lparr>tk_steps := map (mask_step (tf_tasks s)) (tk_steps plan)\<rparr>"

definition RegisterPlan :: "gotime \<Rightarrow> plan_input \<Rightarrow> task_store \<Rightarrow> task_store \<times> task_plan result" where
  "RegisterPlan now inp s =
     (let name = TrimSpace (pi_name inp)
      in if name = [] then (s, Inl ''name is required'')
         else if pi_steps inp = [] then (s, Inl ''at least one step is required'')
         else case resolve_steps (tf_tasks s) 0 [] (pi_steps inp) of
           Inl e \<Rightarrow> (s, Inl e)
         | Inr steps \<Rightarrow>
             let i = seq_id ''taskplan-'' (tf_next_plan s + 1);
                 plan = \<lparr>tk_id = i, tk_name = name, tk_description = TrimSpace (pi_description inp), tk_steps = steps, tk_created = now, tk_updated = now\<rparr>;
                 s = s\<lparr>tf_next_plan := tf_next_plan s + 1, tf_plans := mput i plan (tf_plans s)\<rparr>
             in (s, Inr (maskPlanLocked plan s)))"

definition ListPlans_task :: "task_store \<Rightarrow> task_plan list" where
  "ListPlans_task s = newest_first tk_created (map (\<lambda>p. maskPlanLocked (snd p) s) (tf_plans s))"

definition GetPlan_task :: "string \<Rightarrow> task_store \<Rightarrow> task_plan option" where
  "GetPlan_task i s = map_option (\<lambda>p. maskPlanLocked p s) (mget (tf_plans s) (TrimSpace i))"

section \<open>Previews\<close>

definition normalize_overrides :: "params gomap \<Rightarrow> params gomap" where
  "normalize_overrides ov = fold (\<lambda>(k, v). mput (TrimSpace k) (cloneTaskAnyMap v)) ov []"

definition preview_params :: "params gomap \<Rightarrow> plan_step \<Rightarrow> params" where
  "preview_params ov step =
     (let merged = cloneTaskAnyMap (pt_params step)
      in case mget ov (pt_name step) of None \<Rightarrow> merged | Some m \<Rightarrow> fold (\<lambda>(k, v). mput (TrimSpace k) (deepCopyAny v)) m merged)"

fun preview_steps :: "task_definition gomap \<Rightarrow> params gomap \<Rightarrow> plan_step list \<Rightarrow> preview_step list result" where
  "preview_steps tasks ov [] = Inr []"
| "preview_steps tasks ov (step # rest) =
     (case mget tasks (pt_task step) of
        None \<Rightarrow> Inl (''step '' @ go_quote (pt_name step) @ '' references unknown task '' @ go_quote (pt_task step))
      | Some task \<Rightarrow>
          (case resolveTaskParameters task (preview_params ov step) of
             Inl e \<Rightarrow> Inl (''step '' @ go_quote (pt_name step) @ '': '' @ e)
           | Inr ps \<Rightarrow>
               (case preview_steps tasks ov rest of
                  Inl e \<Rightarrow> Inl e
                | Inr out \<Rightarrow> Inr (\<lparr>pv_name = pt_name step, pv_task = td_id task, pv_module = td_module task, pv_action = td_action task,
                    pv_primitive = td_primitive task, pv_tags = pt_tags step, pv_continue = pt_continue step,
                    pv_sensitive = sensitiveParameterNames task, pv_params = maskTaskParameters task ps\<rparr> # out))))"

definition PreviewPlan :: "string \<Rightarrow> params gomap \<Rightarrow> task_store \<Rightarrow> task_preview result" where
  "PreviewPlan planID overrides s =
     (case mget (tf_plans s) (TrimSpace planID) of
        None \<Rightarrow> Inl ''task plan not found''
      | Some plan \<Rightarrow>
          (case preview_steps (tf_tasks s) (normalize_overrides overrides) (tk_steps plan) of
             Inl e \<Rightarrow> Inl e
           | Inr steps \<Rightarrow> Inr \<lparr>tv_plan = tk_id plan, tv_steps = steps\<rparr>))"

section \<open>Executions\<close>

definition step_selected :: "string list \<Rightarrow> string list \<Rightarrow> plan_step \<Rightarrow> bool" where
  "step_selected include exclude step \<longleftrightarrow>
     \<not> (exclude \<noteq> [] \<and> list_ex (\<lambda>t. t \<in> set exclude) (pt_tags step)) \<and> (include = [] \<or> list_ex (\<lambda>t. t \<in> set include) (pt_tags step))"

definition filterTaskPlanStepsByTags :: "plan_step list \<Rightarrow> string list \<Rightarrow> string list \<Rightarrow> plan_step list" where
  "filterTaskPlanStepsByTags steps include exclude = filter (step_selected include exclude) steps"

definition clamp_poll :: "int \<Rightarrow> int" where
  "clamp_poll n = (let n = (if n \<le> 0 then 1000 else n); n = (if n < 100 then 100 else n) in if n > 60000 then 60000 else n)"

definition clamp_timeout :: "int \<Rightarrow> int" where
  "clamp_timeout n = (let n = (if n \<le> 0 then 300 else n); n = (if n < 1 then 1 else n) in if n > 3600 then 3600 else n)"

definition new_run :: "task_plan \<Rightarrow> params gomap \<Rightarrow> int \<Rightarrow> exec_run" where
  "new_run plan ov timeout = \<lparr>xr_plan = plan, xr_overrides = ov, xr_timeout = timeout, xr_phase = XReady, xr_deadline = 0, xr_todo = tk_steps plan,
     xr_status = ExSucceeded, xr_error = [], xr_completed = 0, xr_steps = []\<rparr>"

definition new_execution :: "gotime \<Rightarrow> exec_input \<Rightarrow> string list \<Rightarrow> string list \<Rightarrow> task_plan \<Rightarrow> string \<Rightarrow> execution" where
  "new_execution now inp include exclude plan i =
     \<lparr>ex_id = i, ex_plan = tk_id plan, ex_plan_name = tk_name plan, ex_status = ExPending, ex_include = include, ex_exclude = exclude,
      ex_poll = clamp_poll (xi_poll inp), ex_timeout = clamp_timeout (xi_timeout inp), ex_created = now, ex_started = 0, ex_ended = 0,
      ex_count = int (length (tk_steps plan)), ex_completed = 0, ex_error = [], ex_steps = []\<rparr>"

definition selected_plan :: "exec_input \<Rightarrow> task_plan \<Rightarrow> task_plan" where
  "selected_plan inp plan = plan\<lparr>tk_steps := filterTaskPlanStepsByTags (tk_steps plan) (normalizeTaskTags (xi_include inp)) (normalizeTaskTags (xi_exclude inp))\<rparr>"

definition StartExecution :: "gotime \<Rightarrow> exec_input \<Rightarrow> task_store \<Rightarrow> task_store \<times> execution result" where
  "StartExecution now inp s =
     (let planID = TrimSpace (xi_plan inp); ov = normalize_overrides (xi_overrides inp);
          include = normalizeTaskTags (xi_include inp); exclude = normalizeTaskTags (xi_exclude inp)
      in if planID = [] then (s, Inl ''plan_id is required'')
         else case mget (tf_plans s) planID of
           None \<Rightarrow> (s, Inl ''task plan not found'')
         | Some plan \<Rightarrow>
             let plan = selected_plan inp plan; i = seq_id ''taskexec-'' (tf_next_exec s + 1); x = new_execution now inp include exclude plan i
             in (s\<lparr>tf_next_exec := tf_next_exec s + 1, tf_execs := mput i x (tf_execs s), tf_runs := mput i (new_run plan ov (ex_timeout x)) (tf_runs s)\<rparr>, Inr x))"

definition ListExecutions :: "int \<Rightarrow> task_store \<Rightarrow> execution list" where
  "ListExecutions limit s =
     (let out = newest_first ex_created (map snd (tf_execs s)) in if limit > 0 \<and> int (length out) > limit then take (nat limit) out else out)"

definition GetExecution :: "string \<Rightarrow> task_store \<Rightarrow> execution option" where
  "GetExecution i s = mget (tf_execs s) (TrimSpace i)"

definition ex_final :: "exec_status \<Rightarrow> bool" where
  "ex_final st \<longleftrightarrow> st = ExSucceeded \<or> st = ExFailed \<or> st = ExTimedOut \<or> st = ExCanceled"

definition CancelExecution :: "gotime \<Rightarrow> string \<Rightarrow> task_store \<Rightarrow> task_store \<times> execution result" where
  "CancelExecution now i0 s =
     (let i = TrimSpace i0
      in case mget (tf_execs s) i of
           None \<Rightarrow> (s, Inl ''task execution not found'')
         | Some x \<Rightarrow>
             if ex_final (ex_status x) then (s, Inr x)
             else let x = x\<lparr>ex_status := ExCanceled, ex_error := ''task execution canceled'', ex_ended := now\<rparr>
                  in (s\<lparr>tf_execs := mput i x (tf_execs s), tf_canceled := mput i () (tf_canceled s)\<rparr>, Inr x))"

section \<open>The goroutine of an execution\<close>

definition run_params :: "params gomap \<Rightarrow> plan_step \<Rightarrow> params" where
  "run_params ov step =
     (let ps = cloneTaskAnyMap (pt_params step)
      in case mget ov (pt_name step) of None \<Rightarrow> ps | Some m \<Rightarrow> fold (\<lambda>(k, v). mput k (deepCopyAny v)) m ps)"

definition step_run :: "gotime \<Rightarrow> gotime \<Rightarrow> plan_step \<Rightarrow> task_definition \<Rightarrow> exec_status \<Rightarrow> params \<Rightarrow> string \<Rightarrow> exec_step" where
  "step_run now ended step task st ps e =
     \<lparr>es_name = pt_name step, es_task = pt_task step, es_module = td_module task, es_action = td_action task, es_primitive = td_primitive task,
      es_tags = pt_tags step, es_continue = pt_continue step, es_status = st, es_params = maskTaskParameters task ps, es_error = e,
      es_started = now, es_ended = ended\<rparr>"

definition run_begin :: "gotime \<Rightarrow> string \<Rightarrow> exec_run \<Rightarrow> task_store \<Rightarrow> task_store" where
  "run_begin now i r s =
     (case mget (tf_execs s) i of
        None \<Rightarrow> s\<lparr>tf_runs := mput i (r\<lparr>xr_phase := XDone\<rparr>) (tf_runs s)\<rparr>
      | Some x \<Rightarrow> s\<lparr>tf_runs := mput i (r\<lparr>xr_phase := XLoop, xr_deadline := now + seconds (xr_timeout r)\<rparr>) (tf_runs s),
                    tf_execs := mput i (x\<lparr>ex_status := ExRunning, ex_started := now\<rparr>) (tf_execs s)\<rparr>)"

definition run_turn :: "gotime \<Rightarrow> gotime \<Rightarrow> bool \<Rightarrow> task_store \<Rightarrow> exec_run \<Rightarrow> exec_run" where
  "run_turn now ended canceled s r =
     (case xr_todo r of
        [] \<Rightarrow> r\<lparr>xr_phase := XFinish\<rparr>
      | step # rest \<Rightarrow>
          if \<not> now < xr_deadline r then r\<lparr>xr_phase := XFinish, xr_status := ExTimedOut, xr_error := ''task execution timed out''\<rparr>
          else if canceled then r\<lparr>xr_phase := XFinish, xr_status := ExCanceled, xr_error := ''task execution canceled''\<rparr>
          else case GetTask (pt_task step) s of
            None \<Rightarrow> r\<lparr>xr_phase := XFinish, xr_status := ExFailed, xr_error := ''task definition not found: '' @ pt_task step\<rparr>
          | Some task \<Rightarrow>
              let ps = run_params (xr_overrides r) step
              in (case resolveTaskParameters task ps of
                    Inl e \<Rightarrow>
                      let r = r\<lparr>xr_todo := rest, xr_steps := xr_steps r @ [step_run now ended step task ExFailed ps e], xr_completed := xr_completed r + 1\<rparr>
                      in if pt_continue step then r
                         else r\<lparr>xr_phase := XFinish, xr_status := ExFailed, xr_error := ''step '' @ pt_name step @ '' failed: '' @ e\<rparr>
                  | Inr resolved \<Rightarrow>
                      r\<lparr>xr_todo := rest, xr_steps := xr_steps r @ [step_run now ended step task ExSucceeded resolved []], xr_completed := xr_completed r + 1\<rparr>))"

definition run_finish :: "gotime \<Rightarrow> string \<Rightarrow> exec_run \<Rightarrow> task_store \<Rightarrow> task_store" where
  "run_finish now i r s =
     (let s = s\<lparr>tf_runs := mput i (r\<lparr>xr_phase := XDone\<rparr>) (tf_runs s)\<rparr>
      in case mget (tf_execs s) i of
           None \<Rightarrow> s
         | Some x \<Rightarrow>
             let x = x\<lparr>ex_status := (if xr_status r = ExRunning \<or> xr_status r = ExPending then ExSucceeded else xr_status r),
                   ex_error := TrimSpace (xr_error r), ex_completed := xr_completed r, ex_steps := xr_steps r, ex_ended := now\<rparr>
             in s\<lparr>tf_execs := mput i x (tf_execs s), tf_canceled := mdel i (tf_canceled s)\<rparr>)"

text \<open>The next step of the goroutine of execution \<open>i\<close>.\<close>

definition runExecution :: "gotime \<Rightarrow> gotime \<Rightarrow> string \<Rightarrow> task_store \<Rightarrow> task_store" where
  "runExecution now ended i s =
     (case mget (tf_runs s) i of
        None \<Rightarrow> s
      | Some r \<Rightarrow>
          (case xr_phase r of
             XReady \<Rightarrow> run_begin now i r s
           | XLoop \<Rightarrow> s\<lparr>tf_runs := mput i (run_turn now ended (mget (tf_canceled s) i \<noteq> None) s r) (tf_runs s)\<rparr>
           | XFinish \<Rightarrow> run_finish now i r s
           | XDone \<Rightarrow> s))"

datatype task_op =
    TTask gotime task_input
  | TPlan gotime plan_input
  | TStart gotime exec_input
  | TCancel gotime string
  | TRun gotime gotime string

fun task_step :: "task_store \<Rightarrow> task_op \<Rightarrow> task_store" where
  "task_step s (TTask now inp) = fst (RegisterTask now inp s)"
| "task_step s (TPlan now inp) = fst (RegisterPlan now inp s)"
| "task_step s (TStart now inp) = fst (StartExecution now inp s)"
| "task_step s (TCancel now i) = fst (CancelExecution now i s)"
| "task_step s (TRun now ended i) = runExecution now ended i s"

section \<open>What an execution should record\<close>

text \<open>The steps of a plan, run without a deadline and without interruption: the entries (without their times), the final status and the error.\<close>

definition timeless :: "exec_step \<Rightarrow> exec_step" where
  "timeless x = x\<lparr>es_started := 0, es_ended := 0\<rparr>"

lemma timeless_step_run [simp]: "timeless (step_run now ended step task st ps e) = step_run 0 0 step task st ps e"
  by (simp add: timeless_def step_run_def)

fun run_spec :: "task_definition gomap \<Rightarrow> params gomap \<Rightarrow> plan_step list \<Rightarrow> exec_step list \<times> exec_status \<times> string" where
  "run_spec tasks ov [] = ([], ExSucceeded, [])"
| "run_spec tasks ov (step # rest) =
     (case mget tasks (pt_task step) of
        None \<Rightarrow> ([], ExFailed, ''task definition not found: '' @ pt_task step)
      | Some task \<Rightarrow>
          (case resolveTaskParameters task (run_params ov step) of
             Inl e \<Rightarrow>
               if pt_continue step then (step_run 0 0 step task ExFailed (run_params ov step) e # fst (run_spec tasks ov rest), snd (run_spec tasks ov rest))
               else ([step_run 0 0 step task ExFailed (run_params ov step) e], ExFailed, ''step '' @ pt_name step @ '' failed: '' @ e)
           | Inr resolved \<Rightarrow> (step_run 0 0 step task ExSucceeded resolved [] # fst (run_spec tasks ov rest), snd (run_spec tasks ov rest))))"

definition tasks_le :: "task_definition gomap \<Rightarrow> task_definition gomap \<Rightarrow> bool" where
  "tasks_le a b \<longleftrightarrow> (\<forall>k t. mget a k = Some t \<longrightarrow> mget b k = Some t)"

definition step_ok :: "task_definition gomap \<Rightarrow> plan_step \<Rightarrow> bool" where
  "step_ok tasks step \<longleftrightarrow> TrimSpace (pt_task step) = pt_task step \<and> mget tasks (pt_task step) \<noteq> None"

abbreviation steps_ok :: "task_definition gomap \<Rightarrow> plan_step list \<Rightarrow> bool" where
  "steps_ok tasks steps \<equiv> list_all (step_ok tasks) steps"

lemma tasks_le_refl [simp]: "tasks_le a a"
  by (simp add: tasks_le_def)

lemma step_ok_mono: "step_ok a step \<Longrightarrow> tasks_le a b \<Longrightarrow> step_ok b step"
  by (auto simp: step_ok_def tasks_le_def)

lemma steps_ok_mono: "steps_ok a steps \<Longrightarrow> tasks_le a b \<Longrightarrow> steps_ok b steps"
  by (auto simp: list_all_iff step_ok_mono)

lemma run_spec_mono: "steps_ok a steps \<Longrightarrow> tasks_le a b \<Longrightarrow> run_spec b ov steps = run_spec a ov steps"
proof (induction steps)
  case (Cons step steps)
  obtain t where "mget a (pt_task step) = Some t" using Cons.prems(1) by (auto simp: step_ok_def)
  moreover have "mget b (pt_task step) = Some t" using calculation Cons.prems(2) by (simp add: tasks_le_def)
  ultimately show ?case using Cons by (simp split: sum.split)
qed simp

lemma run_spec_final: "fst (snd (run_spec tasks ov steps)) = ExSucceeded \<or> fst (snd (run_spec tasks ov steps)) = ExFailed"
  by (induction steps) (simp_all split: option.split sum.split)

section \<open>The invariant\<close>

definition outcome_ok :: "task_definition gomap \<Rightarrow> exec_run \<Rightarrow> bool" where
  "outcome_ok tasks r \<longleftrightarrow>
     (let spec = run_spec tasks (xr_overrides r) (tk_steps (xr_plan r))
      in map timeless (xr_steps r) = fst spec \<and> (xr_status r, xr_error r) = snd spec \<or>
         (xr_status r = ExTimedOut \<or> xr_status r = ExCanceled) \<and> prefix (map timeless (xr_steps r)) (fst spec))"

definition recorded :: "execution \<Rightarrow> exec_run \<Rightarrow> bool" where
  "recorded x r \<longleftrightarrow> ex_status x = xr_status r \<and> ex_error x = TrimSpace (xr_error r) \<and> ex_steps x = xr_steps r \<and> ex_completed x = int (length (xr_steps r))"

definition unfinished :: "execution \<Rightarrow> bool" where
  "unfinished x \<longleftrightarrow> ex_steps x = [] \<and> (ex_status x = ExPending \<or> ex_status x = ExRunning \<or> ex_status x = ExCanceled)"

definition looping :: "task_definition gomap \<Rightarrow> exec_run \<Rightarrow> bool" where
  "looping tasks r \<longleftrightarrow> xr_status r = ExSucceeded \<and> xr_error r = [] \<and>
     map timeless (xr_steps r) @ fst (run_spec tasks (xr_overrides r) (xr_todo r)) = fst (run_spec tasks (xr_overrides r) (tk_steps (xr_plan r))) \<and>
     snd (run_spec tasks (xr_overrides r) (xr_todo r)) = snd (run_spec tasks (xr_overrides r) (tk_steps (xr_plan r)))"

definition run_ok :: "task_definition gomap \<Rightarrow> execution \<Rightarrow> exec_run \<Rightarrow> bool" where
  "run_ok tasks x r \<longleftrightarrow> steps_ok tasks (tk_steps (xr_plan r)) \<and> steps_ok tasks (xr_todo r) \<and> xr_completed r = int (length (xr_steps r)) \<and>
     (case xr_phase r of
        XReady \<Rightarrow> xr_steps r = [] \<and> xr_todo r = tk_steps (xr_plan r) \<and> looping tasks r \<and> unfinished x
      | XLoop \<Rightarrow> looping tasks r \<and> unfinished x
      | XFinish \<Rightarrow> outcome_ok tasks r \<and> unfinished x
      | XDone \<Rightarrow> outcome_ok tasks r \<and> recorded x r)"

lemma outcome_final: "outcome_ok tasks r \<Longrightarrow> ex_final (xr_status r)"
  using run_spec_final [of tasks "xr_overrides r" "tk_steps (xr_plan r)"] by (auto simp: outcome_ok_def ex_final_def Let_def dest: arg_cong [of _ _ fst])

lemma run_ok_mono:
  assumes "run_ok a x r" "tasks_le a b"
  shows "run_ok b x r"
proof -
  have "run_spec b ov (tk_steps (xr_plan r)) = run_spec a ov (tk_steps (xr_plan r))" "run_spec b ov (xr_todo r) = run_spec a ov (xr_todo r)" for ov
    using assms by (auto simp: run_ok_def intro: run_spec_mono)
  then have "looping b r = looping a r" "outcome_ok b r = outcome_ok a r" by (simp_all add: looping_def outcome_ok_def)
  then show ?thesis using assms by (cases "xr_phase r") (simp_all add: run_ok_def steps_ok_mono [OF _ assms(2)])
qed

text \<open>A turn of the loop stays on the way, or leaves it with an outcome.\<close>

lemma run_turn_keeps [simp]:
  "xr_plan (run_turn now ended c s r) = xr_plan r" "xr_overrides (run_turn now ended c s r) = xr_overrides r"
  by (simp_all add: run_turn_def Let_def split: list.split option.split sum.split)

lemma run_turn_ok:
  assumes r: "run_ok (tf_tasks s) x r" and p: "xr_phase r = XLoop"
  shows "run_ok (tf_tasks s) x (run_turn now ended c s r)"
proof (cases "xr_todo r")
  case Nil
  then show ?thesis using r p by (simp add: run_turn_def run_ok_def looping_def outcome_ok_def Let_def prod_eq_iff)
next
  case (Cons step rest)
  have l: "looping (tf_tasks s) r" and e: "unfinished x" and ok: "step_ok (tf_tasks s) step" using r p Cons by (simp_all add: run_ok_def)
  obtain task where task: "mget (tf_tasks s) (pt_task step) = Some task" "GetTask (pt_task step) s = Some task" using ok by (auto simp: step_ok_def GetTask_def)
  have pre: "prefix (map timeless (xr_steps r)) (fst (run_spec (tf_tasks s) (xr_overrides r) (tk_steps (xr_plan r))))"
    using l unfolding looping_def by (metis prefixI)
  consider "\<not> now < xr_deadline r" | "now < xr_deadline r" c | "now < xr_deadline r" "\<not> c" by blast
  then show ?thesis
  proof cases
    case 3
    then show ?thesis using r p l e Cons task
      by (cases "resolveTaskParameters task (run_params (xr_overrides r) step)")
        (auto simp: run_turn_def run_ok_def looping_def outcome_ok_def Let_def prod_eq_iff)
  qed (use r p e pre Cons in \<open>simp_all add: run_turn_def run_ok_def outcome_ok_def Let_def\<close>)
qed

definition task_inv :: "task_store \<Rightarrow> bool" where
  "task_inv s \<longleftrightarrow> store_inv tf_tasks tf_next_task ''task-'' s \<and> store_inv tf_plans tf_next_plan ''taskplan-'' s \<and> store_inv tf_execs tf_next_exec ''taskexec-'' s \<and>
     items_ok (\<lambda>i t. td_id t = i \<and> task_ok t) (tf_tasks s) \<and> items_ok (\<lambda>i p. tk_id p = i \<and> steps_ok (tf_tasks s) (tk_steps p)) (tf_plans s) \<and>
     items_ok (\<lambda>i r. \<exists>x. mget (tf_execs s) i = Some x \<and> run_ok (tf_tasks s) x r) (tf_runs s) \<and> items_ok (\<lambda>i x. mget (tf_runs s) i \<noteq> None) (tf_execs s)"

lemma task_invD:
  assumes "task_inv s"
  shows "store_inv tf_tasks tf_next_task ''task-'' s" "store_inv tf_plans tf_next_plan ''taskplan-'' s" "store_inv tf_execs tf_next_exec ''taskexec-'' s"
    "items_ok (\<lambda>i t. td_id t = i \<and> task_ok t) (tf_tasks s)" "items_ok (\<lambda>i p. tk_id p = i \<and> steps_ok (tf_tasks s) (tk_steps p)) (tf_plans s)"
    "items_ok (\<lambda>i r. \<exists>x. mget (tf_execs s) i = Some x \<and> run_ok (tf_tasks s) x r) (tf_runs s)" "items_ok (\<lambda>i x. mget (tf_runs s) i \<noteq> None) (tf_execs s)"
  using assms by (simp_all add: task_inv_def)

text \<open>How each operation changes the store.\<close>

lemma RegisterTask_cases:
  obtains "fst (RegisterTask now inp s) = s"
  | t where "fst (RegisterTask now inp s) = s\<lparr>tf_next_task := tf_next_task s + 1, tf_tasks := mput (td_id t) t (tf_tasks s)\<rparr>"
      "td_id t = seq_id ''task-'' (tf_next_task s + 1)" "task_ok t"
proof (cases "normalizeTaskParameterSpecs (ti_parameters inp)")
  case (Inl e)
  then have "fst (RegisterTask now inp s) = s" by (simp add: RegisterTask_def Let_def)
  then show thesis by (rule that(1))
next
  case (Inr ps)
  show thesis
  proof (cases "TrimSpace (ti_name inp) = [] \<or> TrimSpace (ti_module inp) = [] \<or> TrimSpace (ti_action inp) = []")
    case True
    then show thesis by (intro that(1)) (auto simp: RegisterTask_def Let_def)
  next
    case False
    then show thesis using Inr normalizeTaskParameterSpecs_ok [OF Inr]
      by (intro that(2) [of "\<lparr>td_id = seq_id ''task-'' (tf_next_task s + 1), td_name = TrimSpace (ti_name inp), td_module = TrimSpace (ti_module inp),
          td_action = TrimSpace (ti_action inp), td_primitive = (if lower_trim (ti_primitive inp) = [] then ''operation'' else lower_trim (ti_primitive inp)),
          td_description = TrimSpace (ti_description inp), td_parameters = ps, td_created = now, td_updated = now\<rparr>"])
        (simp_all add: RegisterTask_def task_ok_def Let_def)
  qed
qed

lemma resolve_steps_ok: "resolve_steps tasks i names steps = Inr out \<Longrightarrow> steps_ok tasks out"
proof (induction tasks i names steps arbitrary: out rule: resolve_steps.induct)
  case (2 tasks i names step rest)
  obtain st where st: "resolveStepLocked step i tasks = Inr st" using 2(2) by (auto split: sum.splits)
  then have "step_ok tasks st" by (auto simp: resolveStepLocked_def step_ok_def Let_def split: if_splits option.splits sum.splits)
  then show ?case using 2 st by (auto split: if_splits sum.splits)
qed simp

lemma RegisterPlan_cases:
  obtains "fst (RegisterPlan now inp s) = s"
  | p where "fst (RegisterPlan now inp s) = s\<lparr>tf_next_plan := tf_next_plan s + 1, tf_plans := mput (tk_id p) p (tf_plans s)\<rparr>"
      "tk_id p = seq_id ''taskplan-'' (tf_next_plan s + 1)" "steps_ok (tf_tasks s) (tk_steps p)"
proof (cases "resolve_steps (tf_tasks s) 0 [] (pi_steps inp)")
  case (Inl e)
  then have "fst (RegisterPlan now inp s) = s" by (simp add: RegisterPlan_def Let_def)
  then show thesis by (rule that(1))
next
  case (Inr steps)
  show thesis
  proof (cases "TrimSpace (pi_name inp) = [] \<or> pi_steps inp = []")
    case True
    then show thesis using that(1) by (auto simp: RegisterPlan_def Let_def)
  next
    case False
    then show thesis using Inr resolve_steps_ok [OF Inr]
      by (intro that(2) [of "\<lparr>tk_id = seq_id ''taskplan-'' (tf_next_plan s + 1), tk_name = TrimSpace (pi_name inp), tk_description = TrimSpace (pi_description inp),
        tk_steps = steps, tk_created = now, tk_updated = now\<rparr>"]) (simp_all add: RegisterPlan_def Let_def)
  qed
qed

lemma StartExecution_cases:
  obtains e where "StartExecution now inp s = (s, Inl e)"
  | p x where "mget (tf_plans s) (TrimSpace (xi_plan inp)) = Some p"
      "StartExecution now inp s = (s\<lparr>tf_next_exec := tf_next_exec s + 1, tf_execs := mput (ex_id x) x (tf_execs s),
         tf_runs := mput (ex_id x) (new_run (selected_plan inp p) (normalize_overrides (xi_overrides inp)) (ex_timeout x)) (tf_runs s)\<rparr>, Inr x)"
      "ex_id x = seq_id ''taskexec-'' (tf_next_exec s + 1)" "ex_steps x = []" "ex_status x = ExPending"
proof (cases "TrimSpace (xi_plan inp) = [] \<or> mget (tf_plans s) (TrimSpace (xi_plan inp)) = None")
  case True
  then show thesis using that(1) by (cases "TrimSpace (xi_plan inp) = []") (simp_all add: StartExecution_def Let_def)
next
  case False
  then obtain p where p: "mget (tf_plans s) (TrimSpace (xi_plan inp)) = Some p" "TrimSpace (xi_plan inp) \<noteq> []" by auto
  define x where "x = new_execution now inp (normalizeTaskTags (xi_include inp)) (normalizeTaskTags (xi_exclude inp)) (selected_plan inp p) (seq_id ''taskexec-'' (tf_next_exec s + 1))"
  show thesis
    by (rule that(2) [OF p(1), of x]) (simp_all add: StartExecution_def Let_def p x_def new_execution_def)
qed

lemma CancelExecution_cases:
  obtains "fst (CancelExecution now i s) = s"
  | x where "mget (tf_execs s) (TrimSpace i) = Some x" "\<not> ex_final (ex_status x)"
      "fst (CancelExecution now i s) = s\<lparr>tf_execs := mput (TrimSpace i) (x\<lparr>ex_status := ExCanceled, ex_error := ''task execution canceled'', ex_ended := now\<rparr>) (tf_execs s),
         tf_canceled := mput (TrimSpace i) () (tf_canceled s)\<rparr>"
proof (cases "mget (tf_execs s) (TrimSpace i)")
  case None
  then show thesis using that(1) by (simp add: CancelExecution_def)
next
  case (Some x)
  then show thesis using that by (cases "ex_final (ex_status x)") (simp_all add: CancelExecution_def Let_def)
qed

section \<open>The operations keep the invariant\<close>

text \<open>One execution with its goroutine is replaced.\<close>

lemma runs_ok_put:
  assumes "items_ok (\<lambda>i r. \<exists>x. mget execs i = Some x \<and> run_ok tasks x r) runs" "run_ok tasks x r"
  shows "items_ok (\<lambda>j r. \<exists>x'. mget (mput i x execs) j = Some x' \<and> run_ok tasks x' r) (mput i r runs)"
  using assms by (intro items_okI) (auto dest: items_okD split: if_splits)

lemma task_inv_put_run:
  assumes inv: "task_inv s" and e: "mget (tf_execs s) i \<noteq> None" and r: "run_ok (tf_tasks s) x r"
  shows "task_inv (s\<lparr>tf_runs := mput i r (tf_runs s), tf_execs := mput i x (tf_execs s), tf_canceled := c\<rparr>)"
proof -
  note D = task_invD [OF inv]
  have "store_inv tf_execs tf_next_exec ''taskexec-'' (s\<lparr>tf_runs := mput i r (tf_runs s), tf_execs := mput i x (tf_execs s), tf_canceled := c\<rparr>)"
    by (rule store_inv_step [OF D(3)]) (simp add: keys_step_update [OF e])
  moreover have "items_ok (\<lambda>j x. mget (mput i r (tf_runs s)) j \<noteq> None) (mput i x (tf_execs s))"
    using D(7) by (intro items_okI) (auto dest: items_okD split: if_splits)
  ultimately show ?thesis using D runs_ok_put [OF D(6) r] by (simp add: task_inv_def store_inv_def)
qed

lemma task_inv_task:
  assumes inv: "task_inv s"
  shows "task_inv (fst (RegisterTask now inp s))"
proof (rule RegisterTask_cases [of now inp s])
  fix t assume t: "fst (RegisterTask now inp s) = s\<lparr>tf_next_task := tf_next_task s + 1, tf_tasks := mput (td_id t) t (tf_tasks s)\<rparr>"
    "td_id t = seq_id ''task-'' (tf_next_task s + 1)" "task_ok t"
  note D = task_invD [OF inv]
  have "mget (tf_tasks s) (td_id t) = None" using store_inv_fresh [OF D(1)] t(2) by simp
  then have le: "tasks_le (tf_tasks s) (mput (td_id t) t (tf_tasks s))" by (auto simp: tasks_le_def)
  have "store_inv tf_tasks tf_next_task ''task-'' (fst (RegisterTask now inp s))"
    by (rule store_inv_step [OF D(1)]) (simp add: t(1,2))
  moreover have "items_ok (\<lambda>i p. tk_id p = i \<and> steps_ok (mput (td_id t) t (tf_tasks s)) (tk_steps p)) (tf_plans s)"
    using D(5) by (rule items_ok_mono) (use le steps_ok_mono in blast)
  moreover have "items_ok (\<lambda>i r. \<exists>x. mget (tf_execs s) i = Some x \<and> run_ok (mput (td_id t) t (tf_tasks s)) x r) (tf_runs s)"
    using D(6) by (rule items_ok_mono) (use le run_ok_mono in blast)
  moreover have "items_ok (\<lambda>i t. td_id t = i \<and> task_ok t) (mput (td_id t) t (tf_tasks s))" using D(4) t(3) by (intro items_intros) simp_all
  ultimately show ?thesis using D by (simp add: task_inv_def t(1) store_inv_def)
qed (use inv in simp)

lemma task_inv_plan:
  assumes inv: "task_inv s"
  shows "task_inv (fst (RegisterPlan now inp s))"
proof (rule RegisterPlan_cases [of now inp s])
  fix p assume p: "fst (RegisterPlan now inp s) = s\<lparr>tf_next_plan := tf_next_plan s + 1, tf_plans := mput (tk_id p) p (tf_plans s)\<rparr>"
    "tk_id p = seq_id ''taskplan-'' (tf_next_plan s + 1)" "steps_ok (tf_tasks s) (tk_steps p)"
  note D = task_invD [OF inv]
  have "store_inv tf_plans tf_next_plan ''taskplan-'' (fst (RegisterPlan now inp s))"
    by (rule store_inv_step [OF D(2)]) (simp add: p(1,2))
  moreover have "items_ok (\<lambda>i p. tk_id p = i \<and> steps_ok (tf_tasks s) (tk_steps p)) (mput (tk_id p) p (tf_plans s))"
    using D(5) p(3) by (intro items_intros) simp_all
  ultimately show ?thesis using D by (simp add: task_inv_def p(1) store_inv_def)
qed (use inv in simp)

lemma new_run_ok:
  assumes "steps_ok tasks (tk_steps plan)" "ex_steps x = []" "ex_status x = ExPending"
  shows "run_ok tasks x (new_run plan ov timeout)"
  using assms by (simp add: run_ok_def new_run_def looping_def unfinished_def)

lemma task_inv_start:
  assumes inv: "task_inv s"
  shows "task_inv (fst (StartExecution now inp s))"
proof (rule StartExecution_cases [of now inp s])
  fix e assume "StartExecution now inp s = (s, Inl e)"
  then show ?thesis using inv by simp
next
  fix p :: task_plan and x :: execution
  let ?r = "new_run (selected_plan inp p) (normalize_overrides (xi_overrides inp)) (ex_timeout x)"
  assume p: "mget (tf_plans s) (TrimSpace (xi_plan inp)) = Some p"
    and st: "StartExecution now inp s = (s\<lparr>tf_next_exec := tf_next_exec s + 1, tf_execs := mput (ex_id x) x (tf_execs s), tf_runs := mput (ex_id x) ?r (tf_runs s)\<rparr>, Inr x)"
    and x: "ex_id x = seq_id ''taskexec-'' (tf_next_exec s + 1)" "ex_steps x = []" "ex_status x = ExPending"
  note D = task_invD [OF inv]
  have "steps_ok (tf_tasks s) (tk_steps p)" using items_okD [OF D(5) p] by simp
  then have "run_ok (tf_tasks s) x ?r" by (intro new_run_ok) (auto simp: selected_plan_def filterTaskPlanStepsByTags_def list_all_iff x(2,3))
  then have "items_ok (\<lambda>j r. \<exists>x'. mget (mput (ex_id x) x (tf_execs s)) j = Some x' \<and> run_ok (tf_tasks s) x' r) (mput (ex_id x) ?r (tf_runs s))"
    by (rule runs_ok_put [OF D(6)])
  moreover have "store_inv tf_execs tf_next_exec ''taskexec-'' (fst (StartExecution now inp s))"
    by (rule store_inv_step [OF D(3)]) (simp add: st x(1))
  moreover have "items_ok (\<lambda>j x. mget (mput (ex_id x') ?r (tf_runs s)) j \<noteq> None) (mput (ex_id x') x' (tf_execs s))" for x'
    using D(7) by (intro items_okI) (auto dest: items_okD split: if_splits)
  ultimately show ?thesis using D by (simp add: task_inv_def st store_inv_def)
qed

lemma task_inv_cancel:
  assumes inv: "task_inv s"
  shows "task_inv (fst (CancelExecution now i s))"
proof (rule CancelExecution_cases [of now i s])
  fix x assume x: "mget (tf_execs s) (TrimSpace i) = Some x" "\<not> ex_final (ex_status x)"
    and c: "fst (CancelExecution now i s) = s\<lparr>tf_execs := mput (TrimSpace i) (x\<lparr>ex_status := ExCanceled, ex_error := ''task execution canceled'', ex_ended := now\<rparr>) (tf_execs s),
         tf_canceled := mput (TrimSpace i) () (tf_canceled s)\<rparr>"
  note D = task_invD [OF inv]
  obtain r where r: "mget (tf_runs s) (TrimSpace i) = Some r" using items_okD [OF D(7) x(1)] by auto
  then have ok: "run_ok (tf_tasks s) x r" using items_okD [OF D(6) r] x(1) by simp
  have "xr_phase r \<noteq> XDone" using ok x(2) outcome_final by (auto simp: run_ok_def recorded_def)
  then have ok': "run_ok (tf_tasks s) (x\<lparr>ex_status := ExCanceled, ex_error := ''task execution canceled'', ex_ended := now\<rparr>) r"
    using ok by (cases "xr_phase r") (simp_all add: run_ok_def unfinished_def)
  have "mput (TrimSpace i) r (tf_runs s) = tf_runs s" using r by (rule update_triv)
  then show ?thesis using task_inv_put_run [OF inv _ ok', of "TrimSpace i" "mput (TrimSpace i) () (tf_canceled s)"] x(1) by (simp add: c)
qed (use inv in simp)

lemma task_inv_run:
  assumes inv: "task_inv s"
  shows "task_inv (runExecution now ended i s)"
proof (cases "mget (tf_runs s) i")
  case None
  then show ?thesis using inv by (simp add: runExecution_def)
next
  case (Some r)
  note D = task_invD [OF inv]
  obtain x where x: "mget (tf_execs s) i = Some x" "run_ok (tf_tasks s) x r" using items_okD [OF D(6) Some] by auto
  show ?thesis
  proof (cases "xr_phase r")
    case XReady
    have "run_ok (tf_tasks s) (x\<lparr>ex_status := ExRunning, ex_started := now\<rparr>) (r\<lparr>xr_phase := XLoop, xr_deadline := now + seconds (xr_timeout r)\<rparr>)"
      using x(2) XReady by (simp add: run_ok_def looping_def unfinished_def)
    then show ?thesis using task_inv_put_run [OF inv, of i _ _ "tf_canceled s"] x(1) by (simp add: runExecution_def Some XReady run_begin_def)
  next
    case XLoop
    let ?r = "run_turn now ended (mget (tf_canceled s) i \<noteq> None) s r"
    have "run_ok (tf_tasks s) x ?r" by (rule run_turn_ok [OF x(2) XLoop])
    moreover have "mput i x (tf_execs s) = tf_execs s" using x(1) by (rule update_triv)
    ultimately show ?thesis using task_inv_put_run [OF inv, of i x ?r "tf_canceled s"] x(1) by (simp add: runExecution_def Some XLoop)
  next
    case XFinish
    let ?x = "x\<lparr>ex_status := xr_status r, ex_error := TrimSpace (xr_error r), ex_completed := xr_completed r, ex_steps := xr_steps r, ex_ended := now\<rparr>"
    have o: "outcome_ok (tf_tasks s) r" using x(2) XFinish by (simp add: run_ok_def)
    then have "xr_status r \<noteq> ExRunning \<and> xr_status r \<noteq> ExPending" using outcome_final [OF o] by (auto simp: ex_final_def)
    moreover have "run_ok (tf_tasks s) ?x (r\<lparr>xr_phase := XDone\<rparr>)" using x(2) XFinish by (simp add: run_ok_def recorded_def outcome_ok_def)
    ultimately show ?thesis using task_inv_put_run [OF inv, of i ?x "r\<lparr>xr_phase := XDone\<rparr>" "mdel i (tf_canceled s)"] x(1)
      by (simp add: runExecution_def Some XFinish run_finish_def Let_def)
  qed (use inv Some in \<open>simp add: runExecution_def\<close>)
qed

interpretation task_runs: stepper task_step task_inv
proof
  fix s op assume "task_inv s"
  then show "task_inv (task_step s op)" by (cases op) (simp_all add: task_inv_task task_inv_plan task_inv_start task_inv_cancel task_inv_run)
qed

lemma NewTaskFrameworkStore_inv: "task_inv NewTaskFrameworkStore"
  by (simp add: task_inv_def NewTaskFrameworkStore_def store_inv_def ids_below_def)

section \<open>Executions record what they should\<close>

text \<open>C32: whatever the clients and the other executions do in between, an execution that succeeded or failed has recorded exactly the steps, the status
  and the error of its selected steps run one after another without interruption; one that timed out has recorded a prefix of them, and one that was
  cancelled nothing or a prefix. The number of completed steps is the number of recorded ones.\<close>

theorem execution_refines_spec:
  assumes "s = foldl task_step NewTaskFrameworkStore ops" and "mget (tf_execs s) i = Some x" "mget (tf_runs s) i = Some r"
    and "spec = run_spec (tf_tasks s) (xr_overrides r) (tk_steps (xr_plan r))"
  shows "((ex_status x = ExSucceeded \<or> ex_status x = ExFailed) \<longrightarrow>
      map timeless (ex_steps x) = fst spec \<and> ex_status x = fst (snd spec) \<and> ex_error x = TrimSpace (snd (snd spec))) \<and>
    prefix (map timeless (ex_steps x)) (fst spec) \<and> (ex_final (ex_status x) \<and> xr_phase r = XDone \<longrightarrow> ex_completed x = int (length (ex_steps x)))"
proof -
  have inv: "task_inv s" unfolding assms(1) by (rule task_runs.run_inv [OF NewTaskFrameworkStore_inv])
  have ok: "run_ok (tf_tasks s) x r" using items_okD [OF task_invD(6) [OF inv] assms(3)] assms(2) by simp
  show ?thesis
  proof (cases "xr_phase r = XDone")
    case True
    then have "outcome_ok (tf_tasks s) r" "recorded x r" using ok by (simp_all add: run_ok_def)
    then show ?thesis using assms(4) by (auto simp: outcome_ok_def recorded_def Let_def prod_eq_iff)
  next
    case False
    then have "unfinished x" using ok by (cases "xr_phase r") (simp_all add: run_ok_def)
    then show ?thesis using False by (auto simp: unfinished_def)
  qed
qed

text \<open>Tasks and the inputs of a goroutine do not change.\<close>

definition same_run :: "exec_run \<Rightarrow> exec_run \<Rightarrow> bool" where
  "same_run r r' \<longleftrightarrow> xr_plan r' = xr_plan r \<and> xr_overrides r' = xr_overrides r"

definition grows :: "task_store \<Rightarrow> task_store \<Rightarrow> bool" where
  "grows s s' \<longleftrightarrow> tasks_le (tf_tasks s) (tf_tasks s') \<and> (\<forall>i r. mget (tf_runs s) i = Some r \<longrightarrow> (\<exists>r'. mget (tf_runs s') i = Some r' \<and> same_run r r'))"

lemma growsI:
  assumes "tasks_le (tf_tasks s) (tf_tasks s')" "\<And>i r. mget (tf_runs s) i = Some r \<Longrightarrow> \<exists>r'. mget (tf_runs s') i = Some r' \<and> same_run r r'"
  shows "grows s s'"
  using assms by (simp add: grows_def)

lemma same_run_refl [simp]: "same_run r r"
  by (simp add: same_run_def)

lemma grows_refl [simp]: "grows s s"
  by (simp add: grows_def)

lemma grows_trans:
  assumes ab: "grows a b" and bc: "grows b c"
  shows "grows a c"
proof (rule growsI)
  show "tasks_le (tf_tasks a) (tf_tasks c)" using ab bc by (auto simp: grows_def tasks_le_def)
next
  fix i r assume "mget (tf_runs a) i = Some r"
  then obtain r' where r': "mget (tf_runs b) i = Some r'" "same_run r r'" using ab unfolding grows_def by blast
  then obtain r'' where "mget (tf_runs c) i = Some r''" "same_run r' r''" using bc unfolding grows_def by blast
  with r'(2) show "\<exists>r''. mget (tf_runs c) i = Some r'' \<and> same_run r r''" by (auto simp: same_run_def)
qed

lemma runExecution_grows: "grows s (runExecution now ended i s)"
proof (cases "mget (tf_runs s) i")
  case None
  then show ?thesis by (simp add: runExecution_def)
next
  case (Some r)
  have put: "grows s s'" if "tf_tasks s' = tf_tasks s" "tf_runs s' = mput i r' (tf_runs s)" "same_run r r'" for s' r'
    by (rule growsI) (use that Some in auto)
  show ?thesis
  proof (cases "xr_phase r")
    case XReady
    then show ?thesis using Some
      by (cases "mget (tf_execs s) i") (auto intro!: put simp: runExecution_def run_begin_def same_run_def)
  next
    case XLoop
    then show ?thesis using Some by (auto intro!: put simp: runExecution_def same_run_def)
  next
    case XFinish
    then show ?thesis using Some
      by (cases "mget (tf_execs s) i") (auto intro!: put simp: runExecution_def run_finish_def same_run_def Let_def)
  qed (use Some in \<open>simp add: runExecution_def\<close>)
qed

lemma task_step_grows:
  assumes inv: "task_inv s"
  shows "grows s (task_step s op)"
proof (cases op)
  case (TTask now inp)
  show ?thesis
  proof (rule RegisterTask_cases [of now inp s])
    fix t assume t: "fst (RegisterTask now inp s) = s\<lparr>tf_next_task := tf_next_task s + 1, tf_tasks := mput (td_id t) t (tf_tasks s)\<rparr>" "td_id t = seq_id ''task-'' (tf_next_task s + 1)"
    have "mget (tf_tasks s) (td_id t) = None" using store_inv_fresh [OF task_invD(1) [OF inv]] t(2) by simp
    then show ?thesis by (intro growsI) (auto simp: TTask t(1) tasks_le_def)
  qed (simp add: TTask)
next
  case (TPlan now inp)
  show ?thesis by (rule RegisterPlan_cases [of now inp s]) (simp_all add: TPlan grows_def)
next
  case (TStart now inp)
  have gone: "mget (tf_runs s) (seq_id ''taskexec-'' (tf_next_exec s + 1)) = None"
  proof (rule ccontr)
    assume "mget (tf_runs s) (seq_id ''taskexec-'' (tf_next_exec s + 1)) \<noteq> None"
    then have "mget (tf_execs s) (seq_id ''taskexec-'' (tf_next_exec s + 1)) \<noteq> None" using task_invD(6) [OF inv] by (auto dest: items_okD)
    then show False using store_inv_fresh [OF task_invD(3) [OF inv]] by simp
  qed
  show ?thesis by (rule StartExecution_cases [of now inp s]) (use gone in \<open>auto simp: TStart grows_def\<close>)
next
  case (TCancel now i)
  show ?thesis by (rule CancelExecution_cases [of now i s]) (simp_all add: TCancel grows_def)
qed (simp add: runExecution_grows)

lemma task_run_grows: "task_inv s \<Longrightarrow> grows s (foldl task_step s ops)"
proof (induction ops arbitrary: s)
  case (Cons op ops)
  have "grows (task_step s op) (foldl task_step (task_step s op) ops)" by (rule Cons.IH [OF task_runs.step_inv [OF Cons.prems]])
  then show ?case using grows_trans [OF task_step_grows [OF Cons.prems, of op]] by simp
qed simp

section \<open>The preview predicts the execution\<close>

lemma normalize_overrides_copied: "items_ok (\<lambda>k m. copied m) (normalize_overrides ov)"
proof -
  have "items_ok (\<lambda>k m. copied m) out \<Longrightarrow> items_ok (\<lambda>k m. copied m) (fold (\<lambda>(k, v). mput (TrimSpace k) (cloneTaskAnyMap v)) ov out)" for out
    by (induction ov arbitrary: out) (auto simp: items_ok_mput)
  then show ?thesis by (simp add: normalize_overrides_def)
qed

lemma preview_params_run: "items_ok (\<lambda>k m. copied m) ov \<Longrightarrow> preview_params ov step = run_params ov step"
proof -
  have "fold (\<lambda>(k, v). mput (TrimSpace k) (deepCopyAny v)) m ps = fold (\<lambda>(k, v). mput k (deepCopyAny v)) m ps" if "copied m" for m ps
    using that by (intro fold_cong) (auto simp: copied_def list_all_iff)
  then show "items_ok (\<lambda>k m. copied m) ov \<Longrightarrow> ?thesis" by (auto simp: preview_params_def run_params_def Let_def dest: items_okD split: option.split)
qed

definition run_view :: "exec_step \<Rightarrow> (string \<times> string \<times> string \<times> string \<times> string) \<times> string list \<times> bool \<times> params" where
  "run_view x = ((es_name x, es_task x, es_module x, es_action x, es_primitive x), es_tags x, es_continue x, es_params x)"

definition preview_view :: "preview_step \<Rightarrow> (string \<times> string \<times> string \<times> string \<times> string) \<times> string list \<times> bool \<times> params" where
  "preview_view x = ((pv_name x, pv_task x, pv_module x, pv_action x, pv_primitive x), pv_tags x, pv_continue x, pv_params x)"

lemma run_view_timeless [simp]: "run_view (timeless x) = run_view x" "es_status (timeless x) = es_status x"
  by (simp_all add: run_view_def timeless_def)

lemma preview_spec:
  assumes "preview_steps tasks ov steps = Inr out" "items_ok (\<lambda>k m. copied m) ov" "items_ok (\<lambda>i t. td_id t = i \<and> task_ok t) tasks"
  shows "snd (run_spec tasks ov steps) = (ExSucceeded, []) \<and> map run_view (fst (run_spec tasks ov steps)) = map preview_view out \<and>
    list_all (\<lambda>x. es_status x = ExSucceeded) (fst (run_spec tasks ov steps))"
  using assms(1)
proof (induction steps arbitrary: out)
  case (Cons step steps)
  obtain task ps out' where t: "mget tasks (pt_task step) = Some task" "resolveTaskParameters task (run_params ov step) = Inr ps" "preview_steps tasks ov steps = Inr out'"
    using Cons.prems by (auto simp: preview_params_run [OF assms(2)] split: option.splits sum.splits)
  have "td_id task = pt_task step" using items_okD [OF assms(3) t(1)] by simp
  then show ?case using Cons.IH [OF t(3)] Cons.prems t
    by (auto simp: preview_params_run [OF assms(2)] run_view_def preview_view_def step_run_def)
qed simp


section \<open>Sensitive values\<close>

lemma run_spec_masked:
  assumes "x \<in> set (fst (run_spec tasks ov steps))" "mget tasks (es_task x) = Some t" "k \<in> sensitive_names t"
  shows "mget (es_params x) k = None \<or> mget (es_params x) k = Some redacted"
  using assms(1,2)
proof (induction steps)
  case (Cons step steps)
  have masked: "mget (maskTaskParameters t ps) k = None \<or> mget (maskTaskParameters t ps) k = Some redacted" for ps
    using assms(3) by (cases "mget (cloneTaskAnyMap ps) k") (simp_all add: mget_mask)
  consider "x \<in> set (fst (run_spec tasks ov steps))" | ps where "es_params x = maskTaskParameters t ps"
    using Cons.prems by (auto simp: step_run_def split: option.splits sum.splits if_splits)
  then show ?case using Cons masked by cases auto
qed simp


section \<open>Every execution ends\<close>

definition work :: "exec_run \<Rightarrow> nat" where
  "work r = (case xr_phase r of XReady \<Rightarrow> length (xr_todo r) + 3 | XLoop \<Rightarrow> length (xr_todo r) + 2 | XFinish \<Rightarrow> 1 | XDone \<Rightarrow> 0)"

fun runs_step :: "string \<Rightarrow> task_op \<Rightarrow> bool" where
  "runs_step i (TRun now ended j) \<longleftrightarrow> j = i"
| "runs_step i _ \<longleftrightarrow> False"

lemma exec_id_trim: "0 \<le> n \<Longrightarrow> TrimSpace (seq_id ''taskexec-'' n) = seq_id ''taskexec-'' n"
proof -
  assume n: "0 \<le> n"
  have d: "is_digit (last (itoa n))" using itoa_digits [of _ n] itoa_nonempty [OF n] by simp
  then have "solid (last (itoa n))" by (auto simp: solid_def is_digit_def ascii_space_def)
  moreover have "solid (CHR ''t'')" by code_simp
  ultimately show ?thesis using itoa_nonempty [OF n] by (intro TrimSpace_solid_ends) (simp add: seq_id_def)
qed

lemma run_turn_work:
  assumes p: "xr_phase r = XLoop"
  shows "work (run_turn now ended c s r) < work r"
proof (cases "xr_todo r")
  case Nil
  then show ?thesis using p by (simp add: run_turn_def work_def)
next
  case (Cons step rest)
  have less: "work r' < work r" if "xr_phase r' = XFinish \<or> xr_phase r' = XLoop \<and> xr_todo r' = rest" for r'
    using that p Cons by (auto simp: work_def)
  show ?thesis
  proof (cases "\<not> now < xr_deadline r \<or> c \<or> GetTask (pt_task step) s = None")
    case True
    then show ?thesis by (intro less) (auto simp: run_turn_def Cons)
  next
    case False
    then obtain task where "GetTask (pt_task step) s = Some task" "now < xr_deadline r" "\<not> c" by auto
    then show ?thesis using p
      by (intro less) (cases "resolveTaskParameters task (run_params (xr_overrides r) step)"; simp add: run_turn_def Cons Let_def)
  qed
qed

lemma runExecution_other:
  assumes "j \<noteq> i"
  shows "mget (tf_runs (runExecution now ended j s)) i = mget (tf_runs s) i"
proof (cases "mget (tf_runs s) j")
  case (Some r)
  have "mget (tf_runs (run_begin now j r s)) i = mget (tf_runs s) i" using assms by (cases "mget (tf_execs s) j") (simp_all add: run_begin_def)
  moreover have "mget (tf_runs (run_finish now j r s)) i = mget (tf_runs s) i" using assms by (cases "mget (tf_execs s) j") (simp_all add: run_finish_def Let_def)
  ultimately show ?thesis using Some assms by (cases "xr_phase r") (simp_all add: runExecution_def)
qed (simp add: runExecution_def)

lemma runExecution_work:
  assumes r: "mget (tf_runs s) i = Some r" and x: "mget (tf_execs s) i = Some x"
  shows "\<exists>r'. mget (tf_runs (runExecution now ended i s)) i = Some r' \<and> work r' \<le> work r - 1"
proof (cases "xr_phase r")
  case XReady
  then show ?thesis by (simp add: runExecution_def r run_begin_def x work_def)
next
  case XLoop
  have "work (run_turn now ended (mget (tf_canceled s) i \<noteq> None) s r) \<le> work r - 1"
    using run_turn_work [OF XLoop, of now ended "mget (tf_canceled s) i \<noteq> None" s] by linarith
  then show ?thesis by (simp add: runExecution_def r XLoop)
next
  case XFinish
  then show ?thesis by (simp add: runExecution_def r run_finish_def x work_def Let_def)
next
  case XDone
  then show ?thesis by (simp add: runExecution_def r work_def)
qed

lemma task_step_work:
  assumes inv: "task_inv s" and r: "mget (tf_runs s) i = Some r"
  shows "\<exists>r'. mget (tf_runs (task_step s op)) i = Some r' \<and> work r' \<le> work r - (if runs_step i op then 1 else 0)"
proof (cases op)
  case (TTask now inp)
  show ?thesis by (rule RegisterTask_cases [of now inp s]) (simp_all add: TTask r)
next
  case (TPlan now inp)
  show ?thesis by (rule RegisterPlan_cases [of now inp s]) (simp_all add: TPlan r)
next
  case (TStart now inp)
  have new: "i \<noteq> seq_id ''taskexec-'' (tf_next_exec s + 1)"
    using items_okD [OF task_invD(6) [OF inv] r] store_inv_fresh [OF task_invD(3) [OF inv]] by fastforce
  show ?thesis by (rule StartExecution_cases [of now inp s]) (use new in \<open>simp_all add: TStart r\<close>)
next
  case (TCancel now j)
  show ?thesis by (rule CancelExecution_cases [of now j s]) (simp_all add: TCancel r)
next
  case (TRun now ended j)
  obtain x where "mget (tf_execs s) i = Some x" using items_okD [OF task_invD(6) [OF inv] r] by auto
  then show ?thesis using runExecution_work [OF r, of x now ended] runExecution_other [of j i now ended s] r
    by (cases "j = i") (simp_all add: TRun)
qed

lemma task_run_work:
  "task_inv s \<Longrightarrow> mget (tf_runs s) i = Some r \<Longrightarrow>
    \<exists>r'. mget (tf_runs (foldl task_step s ops)) i = Some r' \<and> work r' \<le> work r - length (filter (runs_step i) ops)"
proof (induction ops arbitrary: s r)
  case (Cons op ops)
  obtain r1 where r1: "mget (tf_runs (task_step s op)) i = Some r1" "work r1 \<le> work r - (if runs_step i op then 1 else 0)"
    using task_step_work [OF Cons.prems] by blast
  obtain r2 where "mget (tf_runs (foldl task_step (task_step s op) ops)) i = Some r2" "work r2 \<le> work r1 - length (filter (runs_step i) ops)"
    using Cons.IH [OF task_runs.step_inv [OF Cons.prems(1)] r1(1)] by blast
  with r1(2) show ?case by (intro exI [of _ r2]) (simp split: if_splits)
qed simp

text \<open>C35: an execution ends: once its goroutine has made three steps more than it has steps to run, however the calls of clients and the steps of other executions are
  interleaved with them, its status is final and its record complete.\<close>

theorem execution_ends:
  assumes s: "s = foldl task_step NewTaskFrameworkStore before" and st: "StartExecution now inp s = (s1, Inr x)"
    and n: "int (length (filter (runs_step (ex_id x)) after)) \<ge> ex_count x + 3"
  shows "\<exists>y. GetExecution (ex_id x) (foldl task_step s1 after) = Some y \<and> ex_final (ex_status y) \<and> ex_completed y = int (length (ex_steps y))"
proof -
  let ?s = "foldl task_step s1 after"
  have inv: "task_inv s" unfolding s by (rule task_runs.run_inv [OF NewTaskFrameworkStore_inv])
  have s1: "s1 = task_step s (TStart now inp)" using st by simp
  have inv1: "task_inv s1" unfolding s1 by (rule task_runs.step_inv [OF inv])
  have inv2: "task_inv ?s" by (rule task_runs.run_inv [OF inv1])
  have id0: "0 \<le> tf_next_exec s + 1" using task_invD(3) [OF inv] by (simp add: store_inv_def ids_below_def)
  obtain r where r: "mget (tf_runs s1) (ex_id x) = Some r" "work r = nat (ex_count x) + 3" "0 \<le> ex_count x" "TrimSpace (ex_id x) = ex_id x"
  proof (rule StartExecution_cases [of now inp s])
    fix p x' assume p: "mget (tf_plans s) (TrimSpace (xi_plan inp)) = Some p"
      "StartExecution now inp s = (s\<lparr>tf_next_exec := tf_next_exec s + 1, tf_execs := mput (ex_id x') x' (tf_execs s),
         tf_runs := mput (ex_id x') (new_run (selected_plan inp p) (normalize_overrides (xi_overrides inp)) (ex_timeout x')) (tf_runs s)\<rparr>, Inr x')"
      "ex_id x' = seq_id ''taskexec-'' (tf_next_exec s + 1)"
    have "x' = x" using st p(2) by simp
    moreover have "ex_count x = int (length (tk_steps (selected_plan inp p)))"
      using st p(1) by (auto simp: StartExecution_def new_execution_def Let_def split: if_splits)
    ultimately show thesis using p(2,3) st by (intro that [of "new_run (selected_plan inp p) (normalize_overrides (xi_overrides inp)) (ex_timeout x')"]) (auto simp: new_run_def work_def exec_id_trim id0)
  qed (use st in simp)
  obtain r' where r': "mget (tf_runs ?s) (ex_id x) = Some r'" "work r' \<le> work r - length (filter (runs_step (ex_id x)) after)"
    using task_run_work [OF inv1 r(1)] by blast
  have "work r' = 0" using r'(2) n r(2,3) by linarith
  then have fin: "xr_phase r' = XDone" by (cases "xr_phase r'") (simp_all add: work_def)
  obtain y where y: "mget (tf_execs ?s) (ex_id x) = Some y" "run_ok (tf_tasks ?s) y r'" using items_okD [OF task_invD(6) [OF inv2] r'(1)] by blast
  have "outcome_ok (tf_tasks ?s) r'" "recorded y r'" using y(2) fin by (simp_all add: run_ok_def)
  then show ?thesis using y(1) r(4) outcome_final by (auto simp: GetExecution_def recorded_def)
qed

section \<open>A cancellation that is lost\<close>

text \<open>a cancellation can be lost: when the goroutine of an execution has made its last turn and not yet stored the result, the client is told that the
  execution is cancelled, and the next step of the goroutine stores it as succeeded (or failed) all the same.\<close>

theorem canceled_execution_succeeds:
  assumes s: "s = foldl task_step NewTaskFrameworkStore ops" and r: "mget (tf_runs s) i = Some r" "xr_phase r = XFinish" "TrimSpace i = i"
    and x: "mget (tf_execs s) i = Some x" "ex_status x = ExRunning"
  shows "\<exists>s' y z. CancelExecution now i s = (s', Inr y) \<and> ex_status y = ExCanceled \<and>
    GetExecution i (task_step s' (TRun later ended i)) = Some z \<and> ex_status z = xr_status r"
proof -
  have inv: "task_inv s" unfolding s by (rule task_runs.run_inv [OF NewTaskFrameworkStore_inv])
  have "run_ok (tf_tasks s) x r" using items_okD [OF task_invD(6) [OF inv] r(1)] x(1) by simp
  then have "outcome_ok (tf_tasks s) r" using r(2) by (simp add: run_ok_def)
  then have "ex_final (xr_status r)" by (rule outcome_final)
  then have "xr_status r \<noteq> ExRunning" "xr_status r \<noteq> ExPending" by (auto simp: ex_final_def)
  then show ?thesis
    using r x by (simp add: CancelExecution_def ex_final_def Let_def runExecution_def run_finish_def GetExecution_def)
qed

section \<open>Examples\<close>

definition demo_task :: task_input where
  "demo_task = \<lparr>ti_name = ''backup'', ti_module = ''db'', ti_action = ''dump'', ti_primitive = [], ti_description = [],
     ti_parameters = [\<lparr>ps_name = ''token'', ps_type = [], ps_description = [], ps_required = True, ps_sensitive = True, ps_default = VNull\<rparr>,
       \<lparr>ps_name = ''count'', ps_type = ''integer'', ps_description = [], ps_required = False, ps_sensitive = False, ps_default = VF64 (Fin 3 0)\<rparr>]\<rparr>"

definition demo_plan :: plan_input where
  "demo_plan = \<lparr>pi_name = ''nightly'', pi_description = [],
     pi_steps = [\<lparr>pt_name = ''dump'', pt_task = ''task-1'', pt_params = [(''token'', VStr ''s3cret'')], pt_tags = [''DB''], pt_continue = False\<rparr>]\<rparr>"

definition demo_exec :: exec_input where
  "demo_exec = \<lparr>xi_plan = ''taskplan-1'', xi_overrides = [(''dump'', [(''count'', VInt KInt 5)])], xi_include = [], xi_exclude = [], xi_poll = 0, xi_timeout = 0\<rparr>"

definition demo_before :: "task_op list" where
  "demo_before = [TTask 1 demo_task, TPlan 2 demo_plan]"

definition demo_run :: "task_op list" where
  "demo_run = [TRun 4 4 ''taskexec-1'', TRun 5 6 ''taskexec-1'', TTask 6 demo_task, TRun 7 7 ''taskexec-1'', TRun 8 8 ''taskexec-1'']"

definition demo_store :: task_store where
  "demo_store = foldl task_step NewTaskFrameworkStore demo_before"


theorem execution_ends_witness:
  "\<exists>y. GetExecution ''taskexec-1'' (foldl task_step (task_step demo_store (TStart 3 demo_exec)) demo_run) = Some y \<and> ex_final (ex_status y)"
proof -
  have "(case snd (StartExecution 3 demo_exec demo_store) of Inl e \<Rightarrow> ([], 0) | Inr x \<Rightarrow> (ex_id x, ex_count x)) = (''taskexec-1'', 1)" by code_simp
  then obtain x where x: "StartExecution 3 demo_exec demo_store = (task_step demo_store (TStart 3 demo_exec), Inr x)" "ex_id x = ''taskexec-1''" "ex_count x = 1"
    by (cases "StartExecution 3 demo_exec demo_store") (auto split: sum.splits)
  have "length (filter (runs_step ''taskexec-1'') demo_run) = 4" by code_simp
  then show ?thesis using execution_ends [OF demo_store_def x(1), of demo_run] x(2,3) by auto
qed

theorem execution_refines_spec_witness:
  "\<exists>x r. let s = foldl task_step NewTaskFrameworkStore (demo_before @ TStart 3 demo_exec # demo_run)
     in mget (tf_execs s) ''taskexec-1'' = Some x \<and> mget (tf_runs s) ''taskexec-1'' = Some r \<and>
        map timeless (ex_steps x) = fst (run_spec (tf_tasks s) (xr_overrides r) (tk_steps (xr_plan r))) \<and> ex_steps x \<noteq> []"
proof -
  define ops where "ops = demo_before @ TStart 3 demo_exec # demo_run"
  define s where "s = foldl task_step NewTaskFrameworkStore ops"
  have "map_option (\<lambda>y. (ex_status y, length (ex_steps y))) (mget (tf_execs s) ''taskexec-1'') = Some (ExSucceeded, 1)" "mget (tf_runs s) ''taskexec-1'' \<noteq> None"
    unfolding s_def ops_def by code_simp+
  then obtain x r where x: "mget (tf_execs s) ''taskexec-1'' = Some x" "ex_status x = ExSucceeded" "ex_steps x \<noteq> []" "mget (tf_runs s) ''taskexec-1'' = Some r" by fastforce
  show ?thesis using execution_refines_spec [OF s_def x(1,4) refl] x unfolding Let_def s_def ops_def by blast
qed


theorem canceled_execution_succeeds_witness:
  "\<exists>s' y z. CancelExecution 9 ''taskexec-1'' (foldl task_step NewTaskFrameworkStore (demo_before @ TStart 3 demo_exec # take 4 demo_run)) = (s', Inr y) \<and>
     ex_status y = ExCanceled \<and> GetExecution ''taskexec-1'' (task_step s' (TRun 10 10 ''taskexec-1'')) = Some z \<and> ex_status z = ExSucceeded"
proof -
  define ops where "ops = demo_before @ TStart 3 demo_exec # take 4 demo_run"
  define s where "s = foldl task_step NewTaskFrameworkStore ops"
  have "map_option (\<lambda>r. (xr_phase r, xr_status r)) (mget (tf_runs s) ''taskexec-1'') = Some (XFinish, ExSucceeded)"
    "map_option ex_status (mget (tf_execs s) ''taskexec-1'') = Some ExRunning" "TrimSpace ''taskexec-1'' = ''taskexec-1''" unfolding s_def ops_def by code_simp+
  then obtain r x where r: "mget (tf_runs s) ''taskexec-1'' = Some r" "xr_phase r = XFinish" "TrimSpace ''taskexec-1'' = ''taskexec-1''"
    "mget (tf_execs s) ''taskexec-1'' = Some x" "ex_status x = ExRunning" "xr_status r = ExSucceeded" by auto
  show ?thesis using canceled_execution_succeeds [OF s_def r(1-5), of 9 10 10] r(6) unfolding s_def ops_def by simp
qed

end
