(* ===== verification/PackageRegistry.thy ===== *)
theory PackageRegistry
  imports TaskModel
begin

text \<open>
  The registry of packages (internal/control/package_registry.go): artifacts with their signatures and provenance, the policies for
  signing and certification, certificates, the health of maintainers, and the gate for publication. Pass rates are \<^verbatim>\<open>float64\<close> values, compared
  exactly; the three expressions that subtract, multiply or divide them to a number of points (in \<^verbatim>\<open>Certify\<close> and
  \<^verbatim>\<open>UpsertMaintainerHealth\<close>) are parameters, so the theorems hold for any rounding. Points that callers choose wrap around at 64 bits.
\<close>

section \<open>Comparison of floating point numbers\<close>

fun flt_less :: "float64 \<Rightarrow> float64 \<Rightarrow> bool" where
  "flt_less (Fin m e) (Fin n d) \<longleftrightarrow> (let k = min e d in m * 2 ^ nat (e - k) < n * 2 ^ nat (d - k))"
| "flt_less (Fin m e) (Infinite neg) \<longleftrightarrow> \<not> neg"
| "flt_less (Infinite neg) (Fin n d) \<longleftrightarrow> neg"
| "flt_less (Infinite neg) (Infinite neg') \<longleftrightarrow> neg \<and> \<not> neg'"
| "flt_less NaN y \<longleftrightarrow> False"
| "flt_less x NaN \<longleftrightarrow> False"

abbreviation flt_zero :: float64 where "flt_zero \<equiv> Fin 0 0"

abbreviation flt_one :: float64 where "flt_one \<equiv> Fin 1 0"

definition flt_is_zero :: "float64 \<Rightarrow> bool" where
  "flt_is_zero x = (case x of Fin m e \<Rightarrow> m = 0 | _ \<Rightarrow> False)"

text \<open>The literal \<^verbatim>\<open>0.98\<close>, the closest number with 53 bits.\<close>

definition flt_98 :: float64 where
  "flt_98 = Fin 8827055269646172 (- 53)"

section \<open>The registry\<close>

record provenance =
  pn_repo :: string
  pn_ref :: string
  pn_builder :: string
  pn_built :: gotime
  pn_sbom :: string
  pn_attestation :: string

record artifact =
  pk_id :: string
  pk_kind :: string
  pk_name :: string
  pk_version :: string
  pk_digest :: string
  pk_visibility :: string
  pk_signed :: bool
  pk_key :: string
  pk_signature :: string
  pk_metadata :: "string gomap"
  pk_provenance :: provenance
  pk_created :: gotime
  pk_updated :: gotime

record signing_policy =
  sg_require :: bool
  sg_trusted :: "string list"
  sg_updated :: gotime

record verification =
  vr_allowed :: bool
  vr_reason :: string
  vr_artifact :: string

record cert_policy =
  cq_conformance :: bool
  cq_pass_rate :: float64
  cq_high :: int
  cq_critical :: int
  cq_signed :: bool
  cq_maintainer :: int
  cq_updated :: gotime

record cert_input =
  cn_artifact :: string
  cn_conformance :: bool
  cn_pass_rate :: float64
  cn_high :: int
  cn_critical :: int
  cn_maintainer :: int

record certificate =
  ct_id :: string
  ct_artifact :: string
  ct_certified :: bool
  ct_tier :: string
  ct_reasons :: "string list"
  ct_score :: int
  ct_conformance :: bool
  ct_pass_rate :: float64
  ct_high :: int
  ct_critical :: int
  ct_maintainer :: int
  ct_created :: gotime

record gate_result =
  gr_allowed :: bool
  gr_artifact :: string
  gr_target :: string
  gr_reasons :: "string list"
  gr_tier :: string
  gr_checked :: gotime

record health_input =
  hi_maintainer :: string
  hi_pass_rate :: float64
  hi_latency :: float64
  hi_cadence :: float64
  hi_issues :: int

record health =
  mh_maintainer :: string
  mh_pass_rate :: float64
  mh_latency :: float64
  mh_cadence :: float64
  mh_issues :: int
  mh_score :: int
  mh_tier :: string
  mh_updated :: gotime

record quality =
  ql_artifact :: string
  ql_kind :: string
  ql_name :: string
  ql_version :: string
  ql_score :: int
  ql_tier :: string
  ql_badge :: string
  ql_certified :: bool
  ql_cert_tier :: string
  ql_maintainer :: string
  ql_maintainer_tier :: string
  ql_reasons :: "string list"
  ql_evaluated :: gotime

record provenance_item =
  pr_artifact :: string
  pr_kind :: string
  pr_name :: string
  pr_version :: string
  pr_digest :: string
  pr_provenance :: provenance
  pr_certified :: bool
  pr_tier :: string
  pr_high :: int
  pr_critical :: int
  pr_updated :: gotime

record registry_store =
  rg_next :: int
  rg_next_cert :: int
  rg_artifacts :: "artifact gomap"
  rg_policy :: signing_policy
  rg_cert_policy :: cert_policy
  rg_certs :: "certificate gomap"
  rg_maintainers :: "health gomap"

definition NewPackageRegistryStore :: "gotime \<Rightarrow> registry_store" where
  "NewPackageRegistryStore now = \<lparr>rg_next = 0, rg_next_cert = 0, rg_artifacts = [],
     rg_policy = \<lparr>sg_require = True, sg_trusted = [], sg_updated = now\<rparr>,
     rg_cert_policy = \<lparr>cq_conformance = True, cq_pass_rate = flt_98, cq_high = 0, cq_critical = 0, cq_signed = True, cq_maintainer = 80, cq_updated = now\<rparr>,
     rg_certs = [], rg_maintainers = []\<rparr>"

definition package_digest :: "string \<Rightarrow> bool" where
  "package_digest d \<longleftrightarrow> take 7 d = ''sha256:'' \<and> length d = 71 \<and> list_all (\<lambda>c. c \<in> set ''0123456789abcdef'') (drop 7 d)"

definition trim_metadata :: "string gomap \<Rightarrow> string gomap" where
  "trim_metadata m = fold (\<lambda>(k, v) out. if TrimSpace k = [] then out else mput (TrimSpace k) (TrimSpace v) out) m []"

definition artifact_visibility :: "artifact \<Rightarrow> string" where
  "artifact_visibility inp = (let v = lower_trim (pk_visibility inp) in if v = [] then ''private'' else v)"

definition new_artifact :: "gotime \<Rightarrow> string \<Rightarrow> artifact \<Rightarrow> artifact" where
  "new_artifact now i inp =
     (let prov = pk_provenance inp;
          prov = prov\<lparr>pn_repo := TrimSpace (pn_repo prov), pn_ref := TrimSpace (pn_ref prov), pn_builder := TrimSpace (pn_builder prov),
            pn_sbom := TrimSpace (pn_sbom prov), pn_attestation := TrimSpace (pn_attestation prov)\<rparr>
      in \<lparr>pk_id = i, pk_kind = lower_trim (pk_kind inp), pk_name = TrimSpace (pk_name inp), pk_version = TrimSpace (pk_version inp),
          pk_digest = lower_trim (pk_digest inp), pk_visibility = artifact_visibility inp, pk_signed = pk_signed inp, pk_key = TrimSpace (pk_key inp),
          pk_signature = TrimSpace (pk_signature inp), pk_metadata = trim_metadata (pk_metadata inp), pk_provenance = prov, pk_created = now, pk_updated = now\<rparr>)"

definition Publish_package :: "gotime \<Rightarrow> artifact \<Rightarrow> registry_store \<Rightarrow> registry_store \<times> artifact result" where
  "Publish_package now inp s =
     (let kind = lower_trim (pk_kind inp); digest = lower_trim (pk_digest inp); visibility = artifact_visibility inp
      in if kind = [] \<or> TrimSpace (pk_name inp) = [] \<or> TrimSpace (pk_version inp) = [] \<or> digest = []
         then (s, Inl ''kind, name, version, and digest are required'')
         else if kind \<noteq> ''module'' \<and> kind \<noteq> ''provider'' then (s, Inl ''kind must be module or provider'')
         else if \<not> package_digest digest then (s, Inl ''digest must be immutable sha256:<64-hex>'')
         else if visibility \<noteq> ''public'' \<and> visibility \<noteq> ''private'' then (s, Inl ''visibility must be public or private'')
         else if pk_signed inp \<and> (TrimSpace (pk_key inp) = [] \<or> TrimSpace (pk_signature inp) = [])
         then (s, Inl ''key_id and signature are required for signed artifact'')
         else let item = new_artifact now (seq_id ''pkg-artifact-'' (rg_next s + 1)) inp
              in (s\<lparr>rg_next := rg_next s + 1, rg_artifacts := mput (pk_id item) item (rg_artifacts s)\<rparr>, Inr item))"

definition ListArtifactsByVisibility :: "string \<Rightarrow> registry_store \<Rightarrow> artifact list" where
  "ListArtifactsByVisibility visibility s =
     (let v = lower_trim visibility in newest_first pk_created (filter (\<lambda>a. v = [] \<or> pk_visibility a = v) (map snd (rg_artifacts s))))"

definition GetArtifact :: "string \<Rightarrow> registry_store \<Rightarrow> artifact option" where
  "GetArtifact i s = mget (rg_artifacts s) (TrimSpace i)"

definition SetPolicy_package :: "gotime \<Rightarrow> signing_policy \<Rightarrow> registry_store \<Rightarrow> registry_store \<times> signing_policy" where
  "SetPolicy_package now p s =
     (let p = p\<lparr>sg_trusted := normalizeStringSlice (sg_trusted p), sg_updated := now\<rparr> in (s\<lparr>rg_policy := p\<rparr>, p))"

definition Verify_package :: "string \<Rightarrow> registry_store \<Rightarrow> verification" where
  "Verify_package i0 s =
     (let i = TrimSpace i0; policy = rg_policy s
      in if i = [] then \<lparr>vr_allowed = False, vr_reason = ''artifact_id is required'', vr_artifact = []\<rparr>
         else case mget (rg_artifacts s) i of
           None \<Rightarrow> \<lparr>vr_allowed = False, vr_reason = ''artifact not found'', vr_artifact = i\<rparr>
         | Some a \<Rightarrow>
             if sg_require policy \<and> \<not> pk_signed a then \<lparr>vr_allowed = False, vr_reason = ''signed artifact required by policy'', vr_artifact = pk_id a\<rparr>
             else if pk_signed a \<and> (pk_key a = [] \<or> pk_signature a = [])
             then \<lparr>vr_allowed = False, vr_reason = ''signed artifact missing key/signature'', vr_artifact = pk_id a\<rparr>
             else if pk_signed a \<and> sg_trusted policy \<noteq> [] \<and> pk_key a \<notin> set (sg_trusted policy)
             then \<lparr>vr_allowed = False, vr_reason = ''artifact signing key not trusted'', vr_artifact = pk_id a\<rparr>
             else \<lparr>vr_allowed = True, vr_reason = [], vr_artifact = pk_id a\<rparr>)"

definition SetCertificationPolicy :: "gotime \<Rightarrow> cert_policy \<Rightarrow> registry_store \<Rightarrow> registry_store \<times> cert_policy result" where
  "SetCertificationPolicy now p s =
     (let p = p\<lparr>cq_pass_rate := (if flt_is_zero (cq_pass_rate p) then flt_98 else cq_pass_rate p)\<rparr>
      in if flt_less (cq_pass_rate p) flt_zero \<or> flt_less flt_one (cq_pass_rate p) then (s, Inl ''min_test_pass_rate must be between 0 and 1'')
         else if cq_high p < 0 \<or> cq_critical p < 0 then (s, Inl ''vulnerability thresholds cannot be negative'')
         else let p = p\<lparr>cq_maintainer := (if cq_maintainer p = 0 then 80 else cq_maintainer p)\<rparr>
              in if cq_maintainer p < 0 \<or> cq_maintainer p > 100 then (s, Inl ''min_maintainer_score must be between 0 and 100'')
                 else let p = p\<lparr>cq_updated := now\<rparr> in (s\<lparr>rg_cert_policy := p\<rparr>, Inr p))"

definition maxInt :: "int \<Rightarrow> int \<Rightarrow> int" where
  "maxInt a b = (if a > b then a else b)"

definition cert_reasons :: "cert_policy \<Rightarrow> artifact \<Rightarrow> cert_input \<Rightarrow> string list" where
  "cert_reasons p a inp =
     (if cq_signed p \<and> \<not> pk_signed a then [''artifact must be signed''] else []) @
     (if cq_conformance p \<and> \<not> cn_conformance inp then [''conformance suite must pass''] else []) @
     (if flt_less (cn_pass_rate inp) (cq_pass_rate p) then [''test pass rate below policy threshold''] else []) @
     (if cn_high inp > cq_high p then [''high vulnerabilities exceed policy threshold''] else []) @
     (if cn_critical inp > cq_critical p then [''critical vulnerabilities exceed policy threshold''] else []) @
     (if cn_maintainer inp < cq_maintainer p then [''maintainer score below policy threshold''] else [])"

definition cert_score :: "int \<Rightarrow> cert_policy \<Rightarrow> cert_input \<Rightarrow> int" where
  "cert_score points p inp =
     (let score = wrap64 (100 - maxInt 0 points);
          score = wrap64 (score - wrap64 (cn_high inp * 5));
          score = wrap64 (score - wrap64 (cn_critical inp * 20));
          score = (if cn_maintainer inp < cq_maintainer p then wrap64 (score - wrap64 (cq_maintainer p - cn_maintainer inp)) else score)
      in if score < 0 then 0 else score)"

definition cert_tier :: "int \<Rightarrow> string" where
  "cert_tier score = (if score \<ge> 95 then ''gold'' else if score \<ge> 85 then ''silver'' else ''bronze'')"

definition Certify :: "(float64 \<Rightarrow> float64 \<Rightarrow> int) \<Rightarrow> gotime \<Rightarrow> cert_input \<Rightarrow> registry_store \<Rightarrow> registry_store \<times> certificate result" where
  "Certify points now inp s =
     (let i = TrimSpace (cn_artifact inp)
      in if i = [] then (s, Inl ''artifact_id is required'')
         else if flt_less (cn_pass_rate inp) flt_zero \<or> flt_less flt_one (cn_pass_rate inp) then (s, Inl ''test_pass_rate must be between 0 and 1'')
         else if cn_high inp < 0 \<or> cn_critical inp < 0 then (s, Inl ''vulnerability counts cannot be negative'')
         else if cn_maintainer inp < 0 \<or> cn_maintainer inp > 100 then (s, Inl ''maintainer_score must be between 0 and 100'')
         else case mget (rg_artifacts s) i of
           None \<Rightarrow> (s, Inl ''artifact not found'')
         | Some a \<Rightarrow>
             let p = rg_cert_policy s; reasons = cert_reasons p a inp; score = cert_score (points (cq_pass_rate p) (cn_pass_rate inp)) p inp;
                 certified = (reasons = []);
                 c = \<lparr>ct_id = seq_id ''pkg-cert-'' (rg_next_cert s + 1), ct_artifact = pk_id a, ct_certified = certified,
                   ct_tier = (if certified then cert_tier score else []), ct_reasons = reasons, ct_score = score, ct_conformance = cn_conformance inp,
                   ct_pass_rate = cn_pass_rate inp, ct_high = cn_high inp, ct_critical = cn_critical inp, ct_maintainer = cn_maintainer inp, ct_created = now\<rparr>
             in (s\<lparr>rg_next_cert := rg_next_cert s + 1, rg_certs := mput (pk_id a) c (rg_certs s)\<rparr>, Inr c))"

definition ListCertifications :: "registry_store \<Rightarrow> certificate list" where
  "ListCertifications s = newest_first ct_created (map snd (rg_certs s))"

definition public_reasons :: "artifact \<Rightarrow> certificate option \<Rightarrow> cert_policy \<Rightarrow> string list" where
  "public_reasons a cert p =
     (if pk_visibility a \<noteq> ''public'' then [''artifact visibility must be public for public publication''] else []) @
     (if cq_signed p \<and> \<not> pk_signed a then [''public publication requires signed artifact''] else []) @
     (if (case cert of None \<Rightarrow> True | Some c \<Rightarrow> \<not> ct_certified c) then [''artifact is not certified''] else []) @
     (if pn_sbom (pk_provenance a) = [] then [''sbom digest is required for public publication''] else []) @
     (if pn_attestation (pk_provenance a) = [] then [''attestation digest is required for public publication''] else [])"

definition PublicationGateCheck :: "gotime \<Rightarrow> string \<Rightarrow> string \<Rightarrow> registry_store \<Rightarrow> gate_result" where
  "PublicationGateCheck now i0 target0 s =
     (let i = TrimSpace i0; target1 = lower_trim target0; target = (if target1 = [] then ''public'' else target1);
          result = \<lparr>gr_allowed = False, gr_artifact = i, gr_target = target, gr_reasons = [], gr_tier = [], gr_checked = now\<rparr>
      in if i = [] then result\<lparr>gr_reasons := [''artifact_id is required'']\<rparr>
         else case mget (rg_artifacts s) i of
           None \<Rightarrow> result\<lparr>gr_reasons := [''artifact not found'']\<rparr>
         | Some a \<Rightarrow>
             let v = Verify_package i s; cert = mget (rg_certs s) i;
                 reasons = (if \<not> vr_allowed v then [vr_reason v] else []) @
                   (if target = ''public'' then public_reasons a cert (rg_cert_policy s) else []) @
                   (if target = ''private'' \<and> sg_require (rg_policy s) \<and> \<not> pk_signed a then [''private publication still requires signed artifact by policy''] else [])
             in result\<lparr>gr_reasons := reasons, gr_tier := (case cert of None \<Rightarrow> [] | Some c \<Rightarrow> ct_tier c), gr_allowed := reasons = []\<rparr>)"

definition health_score :: "int \<Rightarrow> int \<Rightarrow> int \<Rightarrow> int \<Rightarrow> int" where
  "health_score rate latency cadence issues =
     (let score = wrap64 (100 - maxInt 0 rate); score = wrap64 (score - maxInt 0 latency); score = wrap64 (score - maxInt 0 cadence);
          score = wrap64 (score - wrap64 (issues * 10)) in if score < 0 then 0 else score)"

definition UpsertMaintainerHealth ::
  "(float64 \<Rightarrow> int) \<Rightarrow> (float64 \<Rightarrow> int) \<Rightarrow> (float64 \<Rightarrow> int) \<Rightarrow> gotime \<Rightarrow> health_input \<Rightarrow> registry_store \<Rightarrow> registry_store \<times> health result" where
  "UpsertMaintainerHealth rate_points latency_points cadence_points now inp s =
     (let maintainer = lower_trim (hi_maintainer inp)
      in if maintainer = [] then (s, Inl ''maintainer is required'')
         else if flt_less (hi_pass_rate inp) flt_zero \<or> flt_less flt_one (hi_pass_rate inp) then (s, Inl ''test_pass_rate must be between 0 and 1'')
         else if flt_less (hi_latency inp) flt_zero \<or> flt_less (hi_cadence inp) flt_zero
         then (s, Inl ''issue_latency_hours and release_cadence_days must be non-negative'')
         else if hi_issues inp < 0 then (s, Inl ''open_security_issues cannot be negative'')
         else let score = health_score (rate_points (hi_pass_rate inp)) (latency_points (hi_latency inp)) (cadence_points (hi_cadence inp)) (hi_issues inp);
                  h = \<lparr>mh_maintainer = maintainer, mh_pass_rate = hi_pass_rate inp, mh_latency = hi_latency inp, mh_cadence = hi_cadence inp,
                    mh_issues = hi_issues inp, mh_score = score, mh_tier = cert_tier score, mh_updated = now\<rparr>
              in (s\<lparr>rg_maintainers := mput maintainer h (rg_maintainers s)\<rparr>, Inr h))"

definition ListMaintainerHealth :: "registry_store \<Rightarrow> health list" where
  "ListMaintainerHealth s = sort_key (\<lambda>h. - mh_score h) (map snd (rg_maintainers s))"

definition GetMaintainerHealth :: "string \<Rightarrow> registry_store \<Rightarrow> health option" where
  "GetMaintainerHealth m s = mget (rg_maintainers s) (lower_trim m)"

definition provenance_item_of :: "registry_store \<Rightarrow> artifact \<Rightarrow> provenance_item" where
  "provenance_item_of s a =
     (let item = \<lparr>pr_artifact = pk_id a, pr_kind = pk_kind a, pr_name = pk_name a, pr_version = pk_version a, pr_digest = pk_digest a,
        pr_provenance = pk_provenance a, pr_certified = False, pr_tier = [], pr_high = 0, pr_critical = 0, pr_updated = pk_updated a\<rparr>
      in case mget (rg_certs s) (pk_id a) of
           None \<Rightarrow> item
         | Some c \<Rightarrow> item\<lparr>pr_certified := ct_certified c, pr_tier := ct_tier c, pr_high := ct_high c, pr_critical := ct_critical c,
             pr_updated := (if ct_created c > pk_updated a then ct_created c else pk_updated a)\<rparr>)"

definition ProvenanceReport :: "registry_store \<Rightarrow> provenance_item list" where
  "ProvenanceReport s = newest_first pr_updated (map (\<lambda>p. provenance_item_of s (snd p)) (rg_artifacts s))"

definition maintainer_of :: "artifact \<Rightarrow> string" where
  "maintainer_of a = lower_trim (mget_or [] (pk_metadata a) ''maintainer'')"

definition tier_bonus :: "string \<Rightarrow> int" where
  "tier_bonus tier = (if tier = ''gold'' then 15 else if tier = ''silver'' then 10 else if tier = ''bronze'' then 5 else 0)"

definition quality_score :: "artifact \<Rightarrow> certificate option \<Rightarrow> health option \<Rightarrow> int" where
  "quality_score a cert h =
     (let score = (if pk_signed a then 20 else 0) + (if pn_sbom (pk_provenance a) \<noteq> [] then 10 else 0) + (if pn_attestation (pk_provenance a) \<noteq> [] then 10 else 0);
          score = score + (case cert of None \<Rightarrow> 0 | Some c \<Rightarrow> go_div (ct_score c) 2 + (if ct_certified c then 20 else 0) + tier_bonus (ct_tier c));
          score = score + (case h of None \<Rightarrow> 0 | Some m \<Rightarrow> go_div (mh_score m) 5);
          score = (if score > 100 then 100 else score)
      in if score < 0 then 0 else score)"

definition buildPackageQualityReport :: "gotime \<Rightarrow> artifact \<Rightarrow> certificate option \<Rightarrow> health option \<Rightarrow> quality" where
  "buildPackageQualityReport now a cert h =
     (let score = quality_score a cert h; certified = (case cert of None \<Rightarrow> False | Some c \<Rightarrow> ct_certified c);
          tier = (case cert of None \<Rightarrow> [] | Some c \<Rightarrow> ct_tier c); prov = pk_provenance a;
          reasons = (if pk_signed a then [] else [''artifact is unsigned'']) @ (if pn_sbom prov \<noteq> [] then [] else [''sbom digest missing'']) @
            (if pn_attestation prov \<noteq> [] then [] else [''attestation digest missing'']) @
            (case cert of None \<Rightarrow> [''artifact not certified''] | Some c \<Rightarrow> if ct_certified c then [] else [''artifact certification failed'']) @
            (if h = None \<and> maintainer_of a \<noteq> [] then [''maintainer health report missing''] else [])
      in \<lparr>ql_artifact = pk_id a, ql_kind = pk_kind a, ql_name = pk_name a, ql_version = pk_version a, ql_score = score,
          ql_tier = (if score \<ge> 90 then ''gold'' else if score \<ge> 75 then ''silver'' else if score \<ge> 60 then ''bronze'' else ''none''),
          ql_badge = (if certified \<and> pk_signed a \<and> tier = ''gold'' \<and> pn_sbom prov \<noteq> [] \<and> pn_attestation prov \<noteq> [] then ''trusted''
                      else if certified \<and> pk_signed a then ''verified'' else if pk_visibility a = ''public'' then ''community'' else ''internal''),
          ql_certified = certified, ql_cert_tier = tier, ql_maintainer = maintainer_of a,
          ql_maintainer_tier = (case h of None \<Rightarrow> [] | Some m \<Rightarrow> mh_tier m), ql_reasons = reasons, ql_evaluated = now\<rparr>)"

definition EvaluateQuality :: "gotime \<Rightarrow> string \<Rightarrow> registry_store \<Rightarrow> quality result" where
  "EvaluateQuality now i0 s =
     (let i = TrimSpace i0
      in if i = [] then Inl ''artifact_id is required''
         else case mget (rg_artifacts s) i of
           None \<Rightarrow> Inl ''artifact not found''
         | Some a \<Rightarrow> Inr (buildPackageQualityReport now a (mget (rg_certs s) i) (mget (rg_maintainers s) (maintainer_of a))))"

definition ListQuality :: "gotime \<Rightarrow> string \<Rightarrow> registry_store \<Rightarrow> quality list" where
  "ListQuality now kind0 s =
     (let kind = lower_trim kind0
      in sort_key (\<lambda>q. (- ql_score q, ql_artifact q))
           (map (\<lambda>a. buildPackageQualityReport now a (mget (rg_certs s) (pk_id a)) (mget (rg_maintainers s) (maintainer_of a)))
             (filter (\<lambda>a. kind = [] \<or> pk_kind a = kind) (map snd (rg_artifacts s)))))"

section \<open>Histories\<close>

datatype registry_op =
    RPublish gotime artifact
  | RPolicy gotime signing_policy
  | RCertPolicy gotime cert_policy
  | RCertify "float64 \<Rightarrow> float64 \<Rightarrow> int" gotime cert_input
  | RHealth "float64 \<Rightarrow> int" "float64 \<Rightarrow> int" "float64 \<Rightarrow> int" gotime health_input

fun registry_step :: "registry_store \<Rightarrow> registry_op \<Rightarrow> registry_store" where
  "registry_step s (RPublish now inp) = fst (Publish_package now inp s)"
| "registry_step s (RPolicy now p) = fst (SetPolicy_package now p s)"
| "registry_step s (RCertPolicy now p) = fst (SetCertificationPolicy now p s)"
| "registry_step s (RCertify points now inp) = fst (Certify points now inp s)"
| "registry_step s (RHealth f g h now inp) = fst (UpsertMaintainerHealth f g h now inp s)"

text \<open>What is known of a stored artifact, whatever its publisher sent.\<close>

definition artifact_ok :: "string \<Rightarrow> artifact \<Rightarrow> bool" where
  "artifact_ok i a \<longleftrightarrow> pk_id a = i \<and> i \<noteq> [] \<and> package_digest (pk_digest a) \<and> (pk_visibility a = ''public'' \<or> pk_visibility a = ''private'') \<and>
     (pk_signed a \<longrightarrow> pk_key a \<noteq> [] \<and> pk_signature a \<noteq> [])"

definition registry_inv :: "registry_store \<Rightarrow> bool" where
  "registry_inv s \<longleftrightarrow> store_inv rg_artifacts rg_next ''pkg-artifact-'' s \<and> items_ok artifact_ok (rg_artifacts s)"

lemma Publish_cases:
  obtains "fst (Publish_package now inp s) = s"
  | a where "fst (Publish_package now inp s) = s\<lparr>rg_next := rg_next s + 1, rg_artifacts := mput (pk_id a) a (rg_artifacts s)\<rparr>"
      "pk_id a = seq_id ''pkg-artifact-'' (rg_next s + 1)" "artifact_ok (pk_id a) a"
proof (cases "snd (Publish_package now inp s)")
  case (Inl e)
  then have "fst (Publish_package now inp s) = s" unfolding Publish_package_def Let_def by (auto split: if_splits)
  then show thesis by (rule that(1))
next
  case (Inr a)
  let ?a = "new_artifact now (seq_id ''pkg-artifact-'' (rg_next s + 1)) inp"
  have "fst (Publish_package now inp s) = s\<lparr>rg_next := rg_next s + 1, rg_artifacts := mput (pk_id ?a) ?a (rg_artifacts s)\<rparr>"
    and ok: "package_digest (lower_trim (pk_digest inp))" "artifact_visibility inp = ''public'' \<or> artifact_visibility inp = ''private''"
      "pk_signed inp \<longrightarrow> TrimSpace (pk_key inp) \<noteq> [] \<and> TrimSpace (pk_signature inp) \<noteq> []"
    using Inr unfolding Publish_package_def Let_def by (auto split: if_splits)
  moreover have "artifact_ok (pk_id ?a) ?a" using ok by (simp add: artifact_ok_def new_artifact_def seq_id_def Let_def)
  ultimately show thesis by (intro that(2) [of ?a]) (simp_all add: new_artifact_def Let_def)
qed

lemma SetCertificationPolicy_cases:
  obtains "fst (SetCertificationPolicy now p s) = s" | p' where "fst (SetCertificationPolicy now p s) = s\<lparr>rg_cert_policy := p'\<rparr>"
proof (cases "snd (SetCertificationPolicy now p s)")
  case (Inl e)
  then show thesis using that(1) by (auto simp: SetCertificationPolicy_def Let_def split: if_splits)
next
  case (Inr p')
  then show thesis using that(2) by (auto simp: SetCertificationPolicy_def Let_def split: if_splits)
qed

lemma UpsertMaintainerHealth_cases:
  obtains "fst (UpsertMaintainerHealth f g h now inp s) = s" | ms where "fst (UpsertMaintainerHealth f g h now inp s) = s\<lparr>rg_maintainers := ms\<rparr>"
proof (cases "snd (UpsertMaintainerHealth f g h now inp s)")
  case (Inl e)
  then show thesis using that(1) by (auto simp: UpsertMaintainerHealth_def Let_def split: if_splits)
next
  case (Inr h)
  then show thesis using that(2) by (auto simp: UpsertMaintainerHealth_def Let_def split: if_splits)
qed

lemma Certify_cases:
  assumes "items_ok artifact_ok (rg_artifacts s)"
  obtains e where "Certify points now inp s = (s, Inl e)"
  | a c where "mget (rg_artifacts s) (TrimSpace (cn_artifact inp)) = Some a" "ct_certified c \<longleftrightarrow> cert_reasons (rg_cert_policy s) a inp = []"
      "Certify points now inp s = (s\<lparr>rg_next_cert := rg_next_cert s + 1, rg_certs := mput (TrimSpace (cn_artifact inp)) c (rg_certs s)\<rparr>, Inr c)"
proof (cases "snd (Certify points now inp s)")
  case (Inl e)
  then have "Certify points now inp s = (s, Inl e)" by (auto simp: Certify_def Let_def split: if_splits option.splits)
  then show thesis by (rule that(1))
next
  case (Inr c)
  then obtain a where a: "mget (rg_artifacts s) (TrimSpace (cn_artifact inp)) = Some a" "ct_certified c \<longleftrightarrow> cert_reasons (rg_cert_policy s) a inp = []"
      "Certify points now inp s = (s\<lparr>rg_next_cert := rg_next_cert s + 1, rg_certs := mput (pk_id a) c (rg_certs s)\<rparr>, Inr c)"
    by (auto simp: Certify_def Let_def split: if_splits option.splits)
  moreover have "pk_id a = TrimSpace (cn_artifact inp)" using items_okD [OF assms a(1)] by (simp add: artifact_ok_def)
  ultimately show thesis using that(2) by simp
qed

lemma registry_step_cases:
  assumes "registry_inv s"
  obtains "rg_artifacts (registry_step s op) = rg_artifacts s" "rg_next (registry_step s op) = rg_next s"
  | a where "rg_artifacts (registry_step s op) = mput (pk_id a) a (rg_artifacts s)" "rg_next (registry_step s op) = rg_next s + 1"
      "pk_id a = seq_id ''pkg-artifact-'' (rg_next s + 1)" "artifact_ok (pk_id a) a"
proof (cases op)
  case (RPublish now inp)
  show thesis by (rule Publish_cases [of now inp s]) (use that RPublish in auto)
next
  case (RPolicy now p)
  then show thesis using that(1) by (simp add: SetPolicy_package_def Let_def)
next
  case (RCertPolicy now p)
  show thesis by (rule SetCertificationPolicy_cases [of now p s]) (use that(1) RCertPolicy in auto)
next
  case (RCertify f now inp)
  show thesis by (rule Certify_cases [of s f now inp]) (use assms that(1) RCertify in \<open>auto simp: registry_inv_def\<close>)
next
  case (RHealth f g h now inp)
  show thesis by (rule UpsertMaintainerHealth_cases [of f g h now inp s]) (use that(1) RHealth in auto)
qed

interpretation packages: counter_store registry_step registry_inv rg_artifacts rg_next "''pkg-artifact-''"
proof
  fix s op assume inv: "registry_inv s"
  show st: "store_inv rg_artifacts rg_next ''pkg-artifact-'' s" using inv by (simp add: registry_inv_def)
  show keys: "keys_step ''pkg-artifact-'' (rg_next s) (rg_artifacts s) (rg_next (registry_step s op)) (rg_artifacts (registry_step s op))"
    by (rule registry_step_cases [OF inv, of op]) simp_all
  have "items_ok artifact_ok (rg_artifacts (registry_step s op))"
    by (rule registry_step_cases [OF inv, of op]) (use inv in \<open>simp_all add: registry_inv_def items_ok_mput\<close>)
  then show "registry_inv (registry_step s op)" using store_inv_step [OF st keys] by (simp add: registry_inv_def)
qed

lemma NewPackageRegistryStore_inv: "registry_inv (NewPackageRegistryStore now)"
  by (simp add: registry_inv_def NewPackageRegistryStore_def store_inv_def ids_below_def)

text \<open>A stored artifact stays as it is.\<close>

lemma registry_step_artifact:
  assumes inv: "registry_inv s" and a: "mget (rg_artifacts s) i = Some a"
  shows "mget (rg_artifacts (registry_step s op)) i = Some a"
proof (rule registry_step_cases [OF inv, of op])
  fix b assume b: "rg_artifacts (registry_step s op) = mput (pk_id b) b (rg_artifacts s)" "pk_id b = seq_id ''pkg-artifact-'' (rg_next s + 1)"
  have "mget (rg_artifacts s) (pk_id b) = None" using store_inv_fresh [of rg_artifacts rg_next "''pkg-artifact-''" s] inv b(2) by (simp add: registry_inv_def)
  then show ?thesis using a b(1) by auto
qed (use a in simp)

section \<open>The gate\<close>

text \<open>The last certification of an artifact in a history, with the policy that was in force.\<close>

fun last_cert :: "registry_store \<Rightarrow> registry_op list \<Rightarrow> string \<Rightarrow> (cert_policy \<times> cert_input) option" where
  "last_cert s [] i = None"
| "last_cert s (op # ops) i =
     (case last_cert (registry_step s op) ops i of
        Some c \<Rightarrow> Some c
      | None \<Rightarrow> (case op of
          RCertify points now inp \<Rightarrow> if TrimSpace (cn_artifact inp) = i \<and> is_ok (snd (Certify points now inp s)) then Some (rg_cert_policy s, inp) else None
        | _ \<Rightarrow> None))"

definition cert_state :: "registry_store \<Rightarrow> string \<Rightarrow> bool option" where
  "cert_state s i = map_option ct_certified (mget (rg_certs s) i)"

lemma cert_step:
  assumes inv: "registry_inv s"
  shows "cert_state (registry_step s op) i =
    (case last_cert s [op] i of None \<Rightarrow> cert_state s i | Some (p, inp) \<Rightarrow> map_option (\<lambda>a. cert_reasons p a inp = []) (mget (rg_artifacts s) i))"
proof (cases op)
  case (RPublish now inp)
  show ?thesis by (rule Publish_cases [of now inp s]) (simp_all add: RPublish cert_state_def)
next
  case (RPolicy now p)
  then show ?thesis by (simp add: SetPolicy_package_def cert_state_def Let_def)
next
  case (RCertPolicy now p)
  show ?thesis by (rule SetCertificationPolicy_cases [of now p s]) (simp_all add: RCertPolicy cert_state_def)
next
  case (RCertify f now inp)
  show ?thesis
    by (rule Certify_cases [of s f now inp]) (use inv in \<open>auto simp: RCertify registry_inv_def cert_state_def is_ok_iff\<close>)
next
  case (RHealth f g h now inp)
  show ?thesis by (rule UpsertMaintainerHealth_cases [of f g h now inp s]) (simp_all add: RHealth cert_state_def)
qed

lemma last_cert_Cons: "last_cert s (op # ops) i = (case last_cert (registry_step s op) ops i of Some c \<Rightarrow> Some c | None \<Rightarrow> last_cert s [op] i)"
  by (cases "last_cert (registry_step s op) ops i") simp_all

lemma last_cert_artifact:
  assumes "registry_inv s" "last_cert s [op] i \<noteq> None"
  shows "mget (rg_artifacts s) i \<noteq> None"
proof -
  obtain f now inp where op: "op = RCertify f now inp" "TrimSpace (cn_artifact inp) = i" "is_ok (snd (Certify f now inp s))"
    using assms(2) by (cases op) (auto split: if_splits)
  show ?thesis by (rule Certify_cases [of s f now inp]) (use assms(1) op in \<open>auto simp: registry_inv_def is_ok_iff\<close>)
qed

lemma cert_run:
  "registry_inv s \<Longrightarrow> cert_state (foldl registry_step s ops) i =
    (case last_cert s ops i of None \<Rightarrow> cert_state s i | Some (p, inp) \<Rightarrow> map_option (\<lambda>a. cert_reasons p a inp = []) (mget (rg_artifacts (foldl registry_step s ops)) i))"
proof (induction ops arbitrary: s)
  case (Cons op ops)
  let ?s = "registry_step s op"
  have inv: "registry_inv ?s" by (rule packages.step_inv [OF Cons.prems])
  have IH: "cert_state (foldl registry_step ?s ops) i =
      (case last_cert ?s ops i of None \<Rightarrow> cert_state ?s i | Some (p, inp) \<Rightarrow> map_option (\<lambda>a. cert_reasons p a inp = []) (mget (rg_artifacts (foldl registry_step ?s ops)) i))"
    by (rule Cons.IH [OF inv])
  have kept: "mget (rg_artifacts (foldl registry_step ?s ops)) i = Some a" if "mget (rg_artifacts s) i = Some a" for a
  proof -
    have "registry_inv s' \<Longrightarrow> mget (rg_artifacts s') i = Some a \<Longrightarrow> mget (rg_artifacts (foldl registry_step s' ops)) i = Some a" for s'
      by (induction ops arbitrary: s') (simp_all add: registry_step_artifact packages.step_inv)
    then show ?thesis using registry_step_artifact [OF Cons.prems that] inv by blast
  qed
  show ?case
  proof (cases "last_cert ?s ops i")
    case None
    show ?thesis
    proof (cases "last_cert s [op] i")
      case (Some pi)
      then obtain a where "mget (rg_artifacts s) i = Some a" using last_cert_artifact [OF Cons.prems, of op i] by auto
      then show ?thesis using IH None Some cert_step [OF Cons.prems, of op i] kept by (simp add: last_cert_Cons del: last_cert.simps split: prod.split)
    qed (use IH None cert_step [OF Cons.prems, of op i] in \<open>simp add: last_cert_Cons del: last_cert.simps\<close>)
  qed (use IH in \<open>simp add: last_cert_Cons del: last_cert.simps\<close>)
qed simp


text \<open>a key whose name is not all lower case cannot be trusted: storing the policy lower-cases the names of the trusted keys, but artifacts keep theirs, so an artifact that is signed
  with exactly the one key that the policy lists is refused.\<close>

theorem listed_key_not_trusted:
  assumes "s = foldl registry_step (NewPackageRegistryStore t) ops" "mget (rg_artifacts s) (TrimSpace i) = Some a" "pk_signed a" "lower_trim (pk_key a) \<noteq> pk_key a" "lower_trim (pk_key a) \<noteq> []"
  shows "vr_reason (Verify_package i (fst (SetPolicy_package now \<lparr>sg_require = r, sg_trusted = [pk_key a], sg_updated = 0\<rparr> s))) = ''artifact signing key not trusted''"
proof -
  have inv: "registry_inv s" unfolding assms(1) by (rule packages.run_inv [OF NewPackageRegistryStore_inv])
  have ok: "artifact_ok (TrimSpace i) a" using inv assms(2) by (auto simp: registry_inv_def dest: items_okD)
  have "set (normalizeStringSlice [pk_key a]) = {lower_trim (pk_key a)}" using assms(5) by (simp add: set_normalizeStringSlice)
  then have "normalizeStringSlice [pk_key a] \<noteq> [] \<and> pk_key a \<notin> set (normalizeStringSlice [pk_key a])" using assms(4) by force
  then show ?thesis using ok assms(2,3) by (auto simp: Verify_package_def SetPolicy_package_def artifact_ok_def Let_def)
qed

section \<open>Examples\<close>

definition demo_artifact :: artifact where
  "demo_artifact = \<lparr>pk_id = [], pk_kind = ''Module'', pk_name = ''web'', pk_version = ''1.0'', pk_digest = ''sha256:'' @ replicate 64 (CHR ''A''), pk_visibility = ''public'',
     pk_signed = True, pk_key = ''Key-1'', pk_signature = ''sig'', pk_metadata = [],
     pk_provenance = \<lparr>pn_repo = [], pn_ref = [], pn_builder = [], pn_built = 0, pn_sbom = ''s'', pn_attestation = ''a''\<rparr>, pk_created = 0, pk_updated = 0\<rparr>"

definition demo_cert :: cert_input where
  "demo_cert = \<lparr>cn_artifact = ''pkg-artifact-1'', cn_conformance = True, cn_pass_rate = Fin 1 0, cn_high = 0, cn_critical = 0, cn_maintainer = 90\<rparr>"

definition demo_history :: "registry_op list" where
  "demo_history = [RPublish 1 demo_artifact, RCertify (\<lambda>x y. 0) 2 demo_cert]"


theorem listed_key_not_trusted_witness:
  "vr_reason (Verify_package ''pkg-artifact-1'' (fst (SetPolicy_package 4 \<lparr>sg_require = True, sg_trusted = [''Key-1''], sg_updated = 0\<rparr>
     (foldl registry_step (NewPackageRegistryStore 0) demo_history)))) = ''artifact signing key not trusted''"
proof -
  define s where "s = foldl registry_step (NewPackageRegistryStore 0) demo_history"
  have "map_option (\<lambda>a. (pk_signed a, pk_key a)) (mget (rg_artifacts s) (TrimSpace ''pkg-artifact-1'')) = Some (True, ''Key-1'')"
    "lower_trim ''Key-1'' \<noteq> ''Key-1''" "lower_trim ''Key-1'' \<noteq> []" unfolding s_def by code_simp+
  then obtain a where a: "mget (rg_artifacts s) (TrimSpace ''pkg-artifact-1'') = Some a" "pk_signed a" "pk_key a = ''Key-1''" by auto
  show ?thesis using listed_key_not_trusted [OF s_def a(1,2), of 4 True] \<open>lower_trim ''Key-1'' \<noteq> ''Key-1''\<close> \<open>lower_trim ''Key-1'' \<noteq> []\<close> unfolding a(3) s_def by blast
qed

end
