(* ===== verification/TimeParse.thy ===== *)
theory TimeParse
  imports GoTime
begin

text \<open>
  \<^verbatim>\<open>time.Parse\<close> with the layout \<^verbatim>\<open>time.RFC3339\<close>, as the standard library documents it: fields of a fixed width, except for the hour, which
  may have one digit; a fraction of the second after a period or a comma, of which nine digits count; \<^verbatim>\<open>Z\<close> or a numeric offset. The result is in
  nanoseconds of UTC. A time that was printed with \<open>format_rfc3339\<close> is read back (\<open>parse_format_rfc3339\<close>), which also shows that
  the printed date is the right one.
\<close>

section \<open>Day numbers\<close>

definition month_lengths :: "int \<Rightarrow> int list" where
  "month_lengths y = [31, if leap y then 29 else 28, 31, 30, 31, 30, 31, 31, 30, 31, 30, 31]"

definition day_number :: "int \<Rightarrow> int \<Rightarrow> int \<Rightarrow> int" where
  "day_number y m d =
     365 * (y - 1) + (y - 1) div 4 - (y - 1) div 100 + (y - 1) div 400 + sum_list (take (nat (m - 1)) (month_lengths y)) + d - 1"

section \<open>The parser\<close>

text \<open>A number of two digits, or of one where \<open>fixed\<close> does not hold.\<close>

fun getnum :: "bool \<Rightarrow> string \<Rightarrow> (int \<times> string) option" where
  "getnum fixed (a # b # s) =
     (if \<not> is_digit a then None
      else if is_digit b then Some (10 * digit_val a + digit_val b, s)
      else if fixed then None else Some (digit_val a, b # s))"
| "getnum fixed [a] = (if fixed \<or> \<not> is_digit a then None else Some (digit_val a, []))"
| "getnum fixed [] = None"

fun getyear :: "string \<Rightarrow> (int \<times> string) option" where
  "getyear (a # b # c # d # s) = (if list_all is_digit [a, b, c, d] then Some (parse_digits 0 [a, b, c, d], s) else None)"
| "getyear _ = None"

fun skip_char :: "char \<Rightarrow> string \<Rightarrow> string option" where
  "skip_char c (x # s) = (if x = c then Some s else None)"
| "skip_char c [] = None"

definition parse_date :: "string \<Rightarrow> ((int \<times> int \<times> int) \<times> string) option" where
  "parse_date s =
     Option.bind (getyear s) (\<lambda>(y, s). Option.bind (skip_char CHR ''-'' s) (\<lambda>s. Option.bind (getnum True s) (\<lambda>(m, s).
     if m \<le> 0 \<or> 12 < m then None else Option.bind (skip_char CHR ''-'' s) (\<lambda>s. Option.bind (getnum True s) (\<lambda>(d, s).
     if d < 1 \<or> d > month_lengths y ! nat (m - 1) then None else Some ((y, m, d), s))))))"

definition parse_clock :: "string \<Rightarrow> (int \<times> string) option" where
  "parse_clock s =
     Option.bind (getnum False s) (\<lambda>(h, s). if 24 \<le> h then None else Option.bind (skip_char CHR '':'' s) (\<lambda>s. Option.bind (getnum True s) (\<lambda>(m, s).
     if 60 \<le> m then None else Option.bind (skip_char CHR '':'' s) (\<lambda>s. Option.bind (getnum True s) (\<lambda>(sec, s).
     if 60 \<le> sec then None else Some (3600 * h + 60 * m + sec, s))))))"

definition parse_fraction :: "string \<Rightarrow> int \<times> string" where
  "parse_fraction s =
     (case s of
        c # d # r \<Rightarrow>
          if (c = CHR ''.'' \<or> c = CHR '','') \<and> is_digit d
          then let ds = take 9 (takeWhile is_digit (d # r))
               in (parse_digits 0 ds * 10 ^ (9 - length ds), dropWhile is_digit (d # r))
          else (0, s)
      | _ \<Rightarrow> (0, s))"

text \<open>The offset in seconds; nothing may follow.\<close>

definition parse_offset :: "string \<Rightarrow> int option" where
  "parse_offset s =
     (case s of
        [a] \<Rightarrow> if a = CHR ''Z'' then Some 0 else None
      | [sign, h1, h2, colon, m1, m2] \<Rightarrow>
          (case (getnum True [h1, h2], getnum True [m1, m2]) of
             (Some (h, _), Some (m, _)) \<Rightarrow>
               if colon \<noteq> CHR '':'' \<or> h > 24 \<or> m > 60 then None
               else if sign = CHR ''+'' then Some ((h * 60 + m) * 60)
               else if sign = CHR ''-'' then Some (- ((h * 60 + m) * 60))
               else None
           | _ \<Rightarrow> None)
      | _ \<Rightarrow> None)"

definition parse_rfc3339 :: "string \<Rightarrow> gotime option" where
  "parse_rfc3339 s =
     Option.bind (parse_date s) (\<lambda>((y, m, d), s). Option.bind (skip_char CHR ''T'' s) (\<lambda>s. Option.bind (parse_clock s) (\<lambda>(sec, s).
     let (ns, s) = parse_fraction s
     in Option.bind (parse_offset s) (\<lambda>off. Some ((86400 * day_number y m d + sec - off) * 1000000000 + ns)))))"

lemma parse_rfc3339_examples:
  "parse_rfc3339 ''0001-01-01T00:00:00Z'' = Some 0"
  "parse_rfc3339 ''2024-03-01T5:06:07.25+01:00'' = Some ((86400 * 738945 + 4 * 3600 + 6 * 60 + 7) * 1000000000 + 250000000)"
  "parse_rfc3339 ''2023-02-29T00:00:00Z'' = None"
  by code_simp+

section \<open>Dates\<close>

lemma month_day_inverse:
  assumes "month_day ls m d = (m', d')" "0 \<le> d" "d < sum_list ls"
  shows "m \<le> m' \<and> nat (m' - m) < length ls \<and> 1 \<le> d' \<and> d' \<le> ls ! nat (m' - m) \<and> sum_list (take (nat (m' - m)) ls) + d' - 1 = d"
  using assms
proof (induction ls m d rule: month_day.induct)
  case (2 l ls m d)
  show ?case
  proof (cases "d < l")
    case False
    then have "m + 1 \<le> m' \<and> nat (m' - (m + 1)) < length ls \<and> 1 \<le> d' \<and> d' \<le> ls ! nat (m' - (m + 1)) \<and>
        sum_list (take (nat (m' - (m + 1))) ls) + d' - 1 = d - l"
      using 2 by simp
    moreover have "m + 1 \<le> m' \<Longrightarrow> nat (m' - m) = Suc (nat (m' - (m + 1)))" by simp
    ultimately show ?thesis by auto
  qed (use "2.prems" in simp)
qed simp

lemma sum_month_lengths: "sum_list (month_lengths y) = (if leap y then 366 else 365)"
  by (simp add: month_lengths_def)

lemma year_parts:
  fixes a b c e :: int
  assumes "0 \<le> b" "b \<le> 3" "0 \<le> c" "c \<le> 24" "0 \<le> e" "e \<le> 3" and x: "x = 400 * a + 100 * b + 4 * c + e"
  shows "x div 4 = 100 * a + 25 * b + c" "x div 100 = 4 * a + b" "x div 400 = a"
proof -
  show "x div 4 = 100 * a + 25 * b + c" by (rule int_div_pos_eq [where r = e]) (use assms in simp_all)
  show "x div 100 = 4 * a + b" by (rule int_div_pos_eq [where r = "4 * c + e"]) (use assms in simp_all)
  show "x div 400 = a" by (rule int_div_pos_eq [where r = "100 * b + 4 * c + e"]) (use assms in simp_all)
qed

lemma mod_top: "1 \<le> t \<Longrightarrow> t \<le> n \<Longrightarrow> (n * q + t) mod n = 0 \<longleftrightarrow> t = (n :: int)"
proof -
  assume t: "1 \<le> t" "t \<le> n"
  have "(n * q + t) mod n = 0 \<longleftrightarrow> n dvd t" by (simp add: dvd_eq_mod_eq_0)
  also have "\<dots> \<longleftrightarrow> t = n" using t zdvd_imp_le [of n t] by auto
  finally show ?thesis .
qed

lemma leap_parts:
  fixes a b c e :: int
  assumes "0 \<le> b" "b \<le> 3" "0 \<le> c" "c \<le> 24" "0 \<le> e" "e \<le> 3" and y: "y = 400 * a + 100 * b + 4 * c + e + 1"
  shows "leap y \<longleftrightarrow> e = 3 \<and> (c \<noteq> 24 \<or> b = 3)"
proof -
  have m1: "y mod 4 = 0 \<longleftrightarrow> e + 1 = 4" using mod_top [of "e + 1" 4 "100 * a + 25 * b + c"] assms by (simp add: algebra_simps)
  have m2: "y mod 100 = 0 \<longleftrightarrow> 4 * c + e + 1 = 100" using mod_top [of "4 * c + e + 1" 100 "4 * a + b"] assms by (simp add: algebra_simps)
  have m3: "y mod 400 = 0 \<longleftrightarrow> 100 * b + 4 * c + e + 1 = 400" using mod_top [of "100 * b + 4 * c + e + 1" 400 a] assms by (simp add: algebra_simps)
  have d2: "4 * c + e + 1 = 100 \<longleftrightarrow> c = 24 \<and> e = 3" using assms(3-6) by (safe; linarith)
  have d3: "100 * b + 4 * c + e + 1 = 400 \<longleftrightarrow> b = 3 \<and> c = 24 \<and> e = 3" using assms(1-6) by (safe; linarith)
  have d1: "e + 1 = 4 \<longleftrightarrow> e = 3" by auto
  show ?thesis unfolding leap_def m1 m2 m3 d1 d2 d3 by blast
qed

text \<open>A division that is cut off at the last block, which is one day longer.\<close>

lemma cut_div:
  fixes r n :: int
  assumes "0 \<le> r" "r \<le> 4 * n" "0 < n" and q: "q = min 3 (r div n)"
  shows "0 \<le> q" "q \<le> 3" "0 \<le> r - q * n" "r - q * n \<le> n" "q < 3 \<Longrightarrow> r - q * n < n"
proof -
  have d: "r - r div n * n = r mod n" "0 \<le> r mod n" "r mod n < n" "0 \<le> r div n"
    using assms(1,3) by (simp_all add: pos_imp_zdiv_nonneg_iff minus_div_mult_eq_mod)
  have three: "3 * n \<le> r" if "3 \<le> r div n"
  proof -
    have "3 * n \<le> r div n * n" using that assms(3) by (intro mult_right_mono) simp_all
    then show ?thesis using d by linarith
  qed
  show "0 \<le> q" "q \<le> 3" using d(4) q by simp_all
  consider "r div n < 3" "q = r div n" | "3 \<le> r div n" "q = 3" using q by linarith
  then have "0 \<le> r - q * n \<and> r - q * n \<le> n \<and> (q < 3 \<longrightarrow> r - q * n < n)"
  proof cases
    case 2
    then show ?thesis using three assms(2) by simp
  qed (use d in simp)
  then show "0 \<le> r - q * n" "r - q * n \<le> n" "q < 3 \<Longrightarrow> r - q * n < n" by simp_all
qed

lemma year_day_inverse:
  assumes "year_day day = (y, yd)"
  shows "365 * (y - 1) + (y - 1) div 4 - (y - 1) div 100 + (y - 1) div 400 + yd = day" "0 \<le> yd" "yd < (if leap y then 366 else 365)"
proof -
  define a where "a = day div 146097"
  define r where "r = day mod 146097"
  define b where "b = min 3 (r div 36524)"
  define r2 where "r2 = r - b * 36524"
  define c where "c = r2 div 1461"
  define r3 where "r3 = r2 mod 1461"
  define e where "e = min 3 (r3 div 365)"
  have "year_day day = (400 * a + 100 * b + 4 * c + e + 1, r3 - e * 365)"
    unfolding year_day_def Let_def a_def r_def b_def r2_def c_def r3_def e_def by (rule refl)
  then have y: "y = 400 * a + 100 * b + 4 * c + e + 1" and yd: "yd = r3 - e * 365" using assms by simp_all
  have day: "day = 146097 * a + r" unfolding a_def r_def by simp
  have r: "0 \<le> r" "r < 146097" unfolding r_def by simp_all
  have "r \<le> 4 * 36524" using r(2) by simp
  note b = cut_div [OF r(1) this zero_less_numeral b_def, folded r2_def]
  have c: "0 \<le> c" "c \<le> 24" "r2 = 1461 * c + r3" "0 \<le> r3" "r3 \<le> 1460"
  proof -
    show "0 \<le> c" "r2 = 1461 * c + r3" "0 \<le> r3" using b(3) unfolding c_def r3_def by (simp_all add: pos_imp_zdiv_nonneg_iff)
    have "r3 < 1461" unfolding r3_def by simp
    then show "r3 \<le> 1460" by simp
    show "c \<le> 24" using \<open>r2 = 1461 * c + r3\<close> \<open>0 \<le> r3\<close> b(4) by linarith
  qed
  have "r3 \<le> 4 * 365" using c(5) by simp
  note e = cut_div [OF c(4) this zero_less_numeral e_def]
  have "365 * (y - 1) + (y - 1) div 4 - (y - 1) div 100 + (y - 1) div 400 = 146097 * a + 36524 * b + 1461 * c + 365 * e"
    using year_parts [OF b(1,2) c(1,2) e(1,2), of "y - 1" a] y by simp
  then show "365 * (y - 1) + (y - 1) div 4 - (y - 1) div 100 + (y - 1) div 400 + yd = day"
    using day c(3) yd unfolding r2_def by linarith
  show "0 \<le> yd" using e(3) yd by simp
  have small: "e < 3 \<Longrightarrow> yd < 365" and le: "yd \<le> 365" using e(4,5) yd by linarith+
  have century: "yd < 365" if "e = 3" "c = 24" "b \<noteq> 3" using b(2,5) c(3) yd that by linarith
  have lp: "leap y \<longleftrightarrow> e = 3 \<and> (c \<noteq> 24 \<or> b = 3)"
    by (rule leap_parts [OF b(1,2) c(1,2) e(1,2) y])
  show "yd < (if leap y then 366 else 365)"
  proof (cases "leap y")
    case False
    then have "e \<noteq> 3 \<or> c = 24 \<and> b \<noteq> 3" using lp by blast
    then have "yd < 365" using small century e(2) by linarith
    then show ?thesis using False by simp
  qed (use le in simp)
qed

lemma civil_inverse:
  assumes "civil day = (y, m, d)"
  shows "day_number y m d = day" "1 \<le> m" "m \<le> 12" "1 \<le> d" "d \<le> month_lengths y ! nat (m - 1)"
proof -
  obtain yd where yd: "year_day day = (y, yd)" and md: "month_day (month_lengths y) 1 yd = (m, d)"
    using assms unfolding civil_def month_lengths_def by (auto simp: Let_def split: prod.splits)
  have "1 \<le> m \<and> nat (m - 1) < 12 \<and> 1 \<le> d \<and> d \<le> month_lengths y ! nat (m - 1) \<and> sum_list (take (nat (m - 1)) (month_lengths y)) + d - 1 = yd"
    using month_day_inverse [OF md] year_day_inverse(2,3) [OF yd] sum_month_lengths [of y] by (simp add: month_lengths_def)
  then show "day_number y m d = day" "1 \<le> m" "m \<le> 12" "1 \<le> d" "d \<le> month_lengths y ! nat (m - 1)"
    using year_day_inverse(1) [OF yd] unfolding day_number_def by auto
qed

section \<open>Reading back what was printed\<close>

lemma pad2: "0 \<le> n \<Longrightarrow> n < 100 \<Longrightarrow> pad 2 n = [digit_char (n div 10), digit_char (n mod 10)]"
proof -
  assume n: "0 \<le> n" "n < 100"
  then have "n div 10 div 10 = 0" "n < 10 \<Longrightarrow> n div 10 = 0" "\<not> n < 10 \<Longrightarrow> n div 10 > 0" by simp_all
  then show ?thesis using n
    by (cases "n = 0"; cases "n < 10") (simp_all add: pad_def itoa_def itoa_loop.simps [of n] itoa_loop.simps [of "n div 10"] itoa_loop.simps [of 0] digit_char_def)
qed

lemma getnum_pad2: "0 \<le> n \<Longrightarrow> n < 100 \<Longrightarrow> getnum fixed (pad 2 n @ s) = Some (n, s)"
  using digit_char_props [of "n div 10"] digit_char_props [of "n mod 10"] by (simp add: pad2 del: digit_val.simps)

lemma parse_digits_zeros: "parse_digits 0 (replicate k CHR ''0'' @ s) = parse_digits 0 s"
  by (induction k) simp_all

lemma itoa_length_le: "0 \<le> n \<Longrightarrow> n < 10 ^ w \<Longrightarrow> 0 < w \<Longrightarrow> length (itoa n) \<le> w"
proof -
  have loop: "0 \<le> n \<Longrightarrow> n < 10 ^ w \<Longrightarrow> length (itoa_loop n acc) \<le> w + length acc" for n :: int and w acc
  proof (induction w arbitrary: n acc)
    case (Suc w)
    have "n div 10 < 10 ^ w" using Suc.prems by simp
    then show ?case using Suc.IH [of "n div 10" "digit_char (n mod 10) # acc"] Suc.prems by (simp add: itoa_loop.simps [of n])
  qed (simp add: itoa_loop.simps)
  show "0 \<le> n \<Longrightarrow> n < 10 ^ w \<Longrightarrow> 0 < w \<Longrightarrow> length (itoa n) \<le> w" using loop [of n w "[]"] by (simp add: itoa_def)
qed

lemma getyear_pad4:
  assumes "0 \<le> y" "y \<le> 9999"
  shows "getyear (pad 4 y @ s) = Some (y, s)"
proof -
  have "length (pad 4 y) = 4" using itoa_length_le [of y 4] assms by (simp add: pad_def)
  then obtain a b c d where p: "pad 4 y = [a, b, c, d]" by (auto simp: length_Suc_conv numeral_eq_Suc)
  have "is_digit CHR ''0''" by code_simp
  then have "list_all is_digit (pad 4 y)" unfolding pad_def list_all_iff using itoa_digits by auto
  moreover have "parse_digits 0 (pad 4 y) = y" unfolding pad_def parse_digits_zeros by (rule parse_digits_itoa [OF assms(1)])
  ultimately show ?thesis unfolding p by (simp del: parse_digits.simps)
qed

lemma month_lengths_le: "nat (m - 1) < 12 \<Longrightarrow> month_lengths y ! nat (m - 1) \<le> 31"
proof -
  assume "nat (m - 1) < 12"
  then have "month_lengths y ! nat (m - 1) \<in> set (month_lengths y)" by (intro nth_mem) (simp add: month_lengths_def)
  then show ?thesis by (auto simp: month_lengths_def split: if_splits)
qed

lemma parse_date_format:
  assumes "civil day = (y, m, d)" "0 \<le> y" "y \<le> 9999"
  shows "parse_date (pad 4 y @ CHR ''-'' # pad 2 m @ CHR ''-'' # pad 2 d @ s) = Some ((y, m, d), s)"
proof -
  have "nat (m - 1) < 12" using civil_inverse(2,3) [OF assms(1)] by linarith
  from month_lengths_le [OF this, of y] have "d \<le> 31" using civil_inverse(5) [OF assms(1)] by linarith
  then show ?thesis using civil_inverse [OF assms(1)] assms(2,3) by (simp add: parse_date_def getyear_pad4 getnum_pad2)
qed

lemma parse_clock_format:
  assumes "0 \<le> h" "h < 24" "0 \<le> m" "m < 60" "0 \<le> sec" "sec < 60"
  shows "parse_clock (pad 2 h @ CHR '':'' # pad 2 m @ CHR '':'' # pad 2 sec @ s) = Some (3600 * h + 60 * m + sec, s)"
  using assms by (simp add: parse_clock_def getnum_pad2)

theorem parse_format_rfc3339:
  assumes t: "t mod 1000000000 = 0" and y: "0 \<le> fst (civil (t div 86400000000000))" "fst (civil (t div 86400000000000)) \<le> 9999"
  shows "parse_rfc3339 (format_rfc3339 t) = Some t"
proof -
  define s where "s = t div 1000000000"
  obtain y m d where c: "civil (t div 86400000000000) = (y, m, d)" by (metis prod_cases3)
  have day: "t div 86400000000000 = s div 86400" unfolding s_def by (simp flip: zdiv_zmult2_eq)
  have num: "day_number y m d = s div 86400" using civil_inverse(1) [OF c] day by simp
  have clk: "clock t = (s div 3600 mod 24, s div 60 mod 60, s mod 60)" by (simp add: clock_def s_def Let_def)
  have sec: "3600 * (s div 3600 mod 24) + 60 * (s div 60 mod 60) + s mod 60 = s mod 86400"
    using zmod_zmult2_eq [of 60 s 60] zmod_zmult2_eq [of 24 s 3600] by simp
  have whole: "86400 * (s div 86400) + s mod 86400 = s" by simp
  have "parse_rfc3339 (format_rfc3339 t) = Some (s * 1000000000)"
    using c y parse_date_format [OF c] parse_clock_format [of "s div 3600 mod 24" "s div 60 mod 60" "s mod 60"]
    by (simp add: format_rfc3339_def clk parse_rfc3339_def parse_fraction_def parse_offset_def num sec) (use whole in linarith)
  also have "s * 1000000000 = t" using t unfolding s_def by (simp add: mod_0_imp_dvd)
  finally show ?thesis .
qed

end
