(* ===== verification/Compliance.thy ===== *)
theory Compliance
  imports ControlUtil TimeParse
begin

text \<open>
  Compliance scans (src/internal/control/compliance.go): profiles of controls, scans of a target with waivers by approved exceptions, the life of an
  exception, continuous scans and scorecards. \<open>sum256\<close> is the parameter for sha256. Where a method reads the clock more than once it has one
  argument for each reading. \<^verbatim>\<open>RunContinuousScan\<close> releases the lock twice, so it is three steps, and a history interleaves the calls that are under
  way with everything else.

  Shown: a finding is a waiver exactly when an exception for that control and target was approved while it was pending and has not run out
  (\<open>scan_waives_exactly\<close>), the outcome of a scan, the scorecards (\<open>scorecards_exact\<close>), and that a continuous configuration points to a scan of its own
  target (\<open>continuous_scan_recorded\<close>).
\<close>

section \<open>Data\<close>

record control =
  cc_id :: string
  cc_description :: string
  cc_severity :: string

record profile =
  cp_id :: string
  cp_name :: string
  cp_framework :: string
  cp_version :: string
  cp_controls :: "control list"
  cp_created :: gotime
  cp_updated :: gotime

record profile_input =
  ci_name :: string
  ci_framework :: string
  ci_version :: string
  ci_controls :: "control list"

record finding =
  fi_control :: string
  fi_status :: string
  fi_severity :: string
  fi_message :: string
  fi_evidence :: string

record scan =
  sc_id :: string
  sc_profile :: string
  sc_kind :: string
  sc_target :: string
  sc_team :: string
  sc_environment :: string
  sc_service :: string
  sc_status :: string
  sc_score :: int
  sc_started :: gotime
  sc_ended :: gotime
  sc_findings :: "finding list"

record scan_input =
  si_profile :: string
  si_kind :: string
  si_target :: string
  si_team :: string
  si_environment :: string
  si_service :: string

datatype exception_status = ExcPending | ExcApproved | ExcRejected | ExcExpired

record exception_approval =
  ea_actor :: string
  ea_decision :: string
  ea_comment :: string
  ea_created :: gotime

record compliance_exception =
  ce_id :: string
  ce_profile :: string
  ce_control :: string
  ce_kind :: string
  ce_target :: string
  ce_reason :: string
  ce_requested_by :: string
  ce_expires :: gotime
  ce_status :: exception_status
  ce_approvals :: "exception_approval list"
  ce_created :: gotime
  ce_updated :: gotime

record exception_input =
  ei_profile :: string
  ei_control :: string
  ei_kind :: string
  ei_target :: string
  ei_reason :: string
  ei_requested_by :: string
  ei_expires :: string

record scorecard =
  sd_dimension :: string
  sd_key :: string
  sd_scans :: int
  sd_pass :: int
  sd_fail :: int
  sd_average :: int
  sd_last :: gotime

record continuous =
  cs_id :: string
  cs_profile :: string
  cs_kind :: string
  cs_target :: string
  cs_interval :: int
  cs_enabled :: bool
  cs_last_scan :: string
  cs_last_run :: "gotime option"
  cs_created :: gotime
  cs_updated :: gotime

record continuous_input =
  ni_profile :: string
  ni_kind :: string
  ni_target :: string
  ni_interval :: int
  ni_enabled :: "bool option"

record compliance_store =
  co_next_profile :: int
  co_next_scan :: int
  co_next_config :: int
  co_next_exception :: int
  co_profiles :: "profile gomap"
  co_scans :: "scan gomap"
  co_configs :: "continuous gomap"
  co_exceptions :: "compliance_exception gomap"

definition NewComplianceStore :: compliance_store where
  "NewComplianceStore = \<lparr>co_next_profile = 0, co_next_scan = 0, co_next_config = 0, co_next_exception = 0,
     co_profiles = [], co_scans = [], co_configs = [], co_exceptions = []\<rparr>"

section \<open>Profiles\<close>

fun normalize_controls :: "control list \<Rightarrow> control list result" where
  "normalize_controls [] = Inr []"
| "normalize_controls (c # cs) =
     (let i = TrimSpace (cc_id c); desc = TrimSpace (cc_description c); sev0 = lower_trim (cc_severity c); sev = (if sev0 = [] then ''medium'' else sev0)
      in if i = [] \<or> desc = [] then Inl ''control id and description are required''
         else if sev \<notin> set [''low'', ''medium'', ''high'', ''critical''] then Inl ''control severity must be low, medium, high, or critical''
         else case normalize_controls cs of
           Inl e \<Rightarrow> Inl e
         | Inr out \<Rightarrow> Inr (\<lparr>cc_id = i, cc_description = desc, cc_severity = sev\<rparr> # out))"

definition normalizeComplianceControls :: "control list \<Rightarrow> control list result" where
  "normalizeComplianceControls cs = (if cs = [] then Inl ''at least one control is required'' else normalize_controls cs)"

definition CreateProfile :: "gotime \<Rightarrow> profile_input \<Rightarrow> compliance_store \<Rightarrow> compliance_store \<times> profile result" where
  "CreateProfile now inp s =
     (let name = TrimSpace (ci_name inp); framework = lower_trim (ci_framework inp)
      in if name = [] \<or> framework = [] then (s, Inl ''name and framework are required'')
         else if framework \<noteq> ''cis'' \<and> framework \<noteq> ''stig'' \<and> framework \<noteq> ''custom'' then (s, Inl ''framework must be cis, stig, or custom'')
         else case normalizeComplianceControls (ci_controls inp) of
           Inl e \<Rightarrow> (s, Inl e)
         | Inr controls \<Rightarrow>
             let n = co_next_profile s + 1;
                 item = \<lparr>cp_id = seq_id ''compliance-profile-'' n, cp_name = name, cp_framework = framework, cp_version = TrimSpace (ci_version inp),
                   cp_controls = controls, cp_created = now, cp_updated = now\<rparr>
             in (s\<lparr>co_next_profile := n, co_profiles := mput (cp_id item) item (co_profiles s)\<rparr>, Inr item))"

definition ListProfiles :: "compliance_store \<Rightarrow> profile list" where
  "ListProfiles s = newest_first cp_created (map snd (co_profiles s))"

definition GetProfile :: "string \<Rightarrow> compliance_store \<Rightarrow> profile option" where
  "GetProfile i s = mget (co_profiles s) (TrimSpace i)"

section \<open>Exceptions\<close>

definition profileHasControl :: "profile \<Rightarrow> string \<Rightarrow> bool" where
  "profileHasControl p c \<longleftrightarrow> list_ex (\<lambda>x. cc_id x = c) (cp_controls p)"

abbreviation year_ns :: duration where "year_ns \<equiv> 31536000000000000"

definition CreateException :: "gotime \<Rightarrow> exception_input \<Rightarrow> compliance_store \<Rightarrow> compliance_store \<times> compliance_exception result" where
  "CreateException now inp s =
     (let profileID = TrimSpace (ei_profile inp); controlID = TrimSpace (ei_control inp); targetKind = TrimSpace (ei_kind inp);
          targetName = TrimSpace (ei_target inp); reason = TrimSpace (ei_reason inp); requestedBy = TrimSpace (ei_requested_by inp)
      in if profileID = [] \<or> controlID = [] \<or> targetKind = [] \<or> targetName = [] \<or> reason = [] \<or> requestedBy = []
         then (s, Inl ''profile_id, control_id, target_kind, target_name, reason, and requested_by are required'')
         else case parse_rfc3339 (TrimSpace (ei_expires inp)) of
           None \<Rightarrow> (s, Inl ''expires_at must be RFC3339'')
         | Some expiresAt \<Rightarrow>
             if expiresAt \<le> now then (s, Inl ''expires_at must be in the future'')
             else if expiresAt > now + year_ns then (s, Inl ''expires_at must be within 365 days'')
             else case mget (co_profiles s) profileID of
               None \<Rightarrow> (s, Inl ''compliance profile not found'')
             | Some profile \<Rightarrow>
                 if \<not> profileHasControl profile controlID then (s, Inl ''control_id does not belong to profile'')
                 else let n = co_next_exception s + 1;
                          item = \<lparr>ce_id = seq_id ''compliance-exception-'' n, ce_profile = profileID, ce_control = controlID, ce_kind = targetKind,
                            ce_target = targetName, ce_reason = reason, ce_requested_by = requestedBy, ce_expires = expiresAt, ce_status = ExcPending,
                            ce_approvals = [], ce_created = now, ce_updated = now\<rparr>
                      in (s\<lparr>co_next_exception := n, co_exceptions := mput (ce_id item) item (co_exceptions s)\<rparr>, Inr item))"

definition expire_exception :: "gotime \<Rightarrow> compliance_exception \<Rightarrow> compliance_exception" where
  "expire_exception now x =
     (if (ce_status x = ExcApproved \<or> ce_status x = ExcPending) \<and> now \<ge> ce_expires x then x\<lparr>ce_status := ExcExpired, ce_updated := now\<rparr> else x)"

definition expireExceptionsLocked :: "gotime \<Rightarrow> compliance_store \<Rightarrow> compliance_store" where
  "expireExceptionsLocked now s = s\<lparr>co_exceptions := map_vals (expire_exception now) (co_exceptions s)\<rparr>"

definition ListExceptions :: "gotime \<Rightarrow> compliance_store \<Rightarrow> compliance_store \<times> compliance_exception list" where
  "ListExceptions now s = (let s = expireExceptionsLocked now s in (s, newest_first ce_created (map snd (co_exceptions s))))"

definition decideException :: "gotime \<Rightarrow> string \<Rightarrow> string \<Rightarrow> string \<Rightarrow> string \<Rightarrow> compliance_store \<Rightarrow> compliance_store \<times> compliance_exception result" where
  "decideException now i actor decision comment s =
     (let i = TrimSpace i; actor = TrimSpace actor
      in if i = [] \<or> actor = [] then (s, Inl ''id and actor are required'')
         else let s = expireExceptionsLocked now s in case mget (co_exceptions s) i of
           None \<Rightarrow> (s, Inl ''compliance exception not found'')
         | Some item \<Rightarrow>
             if ce_status item \<noteq> ExcPending then (s, Inl ''compliance exception is not pending'')
             else let item = item\<lparr>ce_approvals := ce_approvals item @ [\<lparr>ea_actor = actor, ea_decision = decision, ea_comment = TrimSpace comment, ea_created = now\<rparr>],
                        ce_status := (if decision = ''approve'' then ExcApproved else ExcRejected), ce_updated := now\<rparr>
                  in (s\<lparr>co_exceptions := mput i item (co_exceptions s)\<rparr>, Inr item))"

definition ApproveException :: "gotime \<Rightarrow> string \<Rightarrow> string \<Rightarrow> string \<Rightarrow> compliance_store \<Rightarrow> compliance_store \<times> compliance_exception result" where
  "ApproveException now i actor comment s = decideException now i actor ''approve'' comment s"

definition RejectException :: "gotime \<Rightarrow> string \<Rightarrow> string \<Rightarrow> string \<Rightarrow> compliance_store \<Rightarrow> compliance_store \<times> compliance_exception result" where
  "RejectException now i actor comment s = decideException now i actor ''reject'' comment s"

section \<open>Scans\<close>

definition evaluateComplianceControl :: "(string \<Rightarrow> string) \<Rightarrow> string \<Rightarrow> string \<Rightarrow> string \<Rightarrow> string" where
  "evaluateComplianceControl sum256 controlID targetKind targetName =
     (let key = controlID @ ''|'' @ targetKind @ ''|'' @ targetName in if of_char (sum256 key ! 0) mod (5 :: nat) = 0 then ''fail'' else ''pass'')"

definition exception_matches :: "string \<Rightarrow> string \<Rightarrow> string \<Rightarrow> string \<Rightarrow> gotime \<Rightarrow> compliance_exception \<Rightarrow> bool" where
  "exception_matches profileID controlID targetKind targetName now x \<longleftrightarrow>
     ce_status x = ExcApproved \<and> now < ce_expires x \<and> ce_profile x = profileID \<and> ce_control x = controlID \<and> ce_kind x = targetKind \<and> ce_target x = targetName"

definition matchApprovedExceptionLocked :: "string \<Rightarrow> string \<Rightarrow> string \<Rightarrow> string \<Rightarrow> gotime \<Rightarrow> compliance_store \<Rightarrow> compliance_exception option" where
  "matchApprovedExceptionLocked profileID controlID targetKind targetName now s =
     List.find (exception_matches profileID controlID targetKind targetName now) (map snd (co_exceptions s))"

definition control_finding :: "(string \<Rightarrow> string) \<Rightarrow> profile \<Rightarrow> string \<Rightarrow> string \<Rightarrow> string \<Rightarrow> gotime \<Rightarrow> compliance_store \<Rightarrow> control \<Rightarrow> finding" where
  "control_finding sum256 profile profileID kind name now s control =
     (let status = evaluateComplianceControl sum256 (cc_id control) kind name
      in case matchApprovedExceptionLocked profileID (cc_id control) kind name now s of
           Some ex \<Rightarrow> \<lparr>fi_control = cc_id control, fi_status = ''waived'', fi_severity = cc_severity control,
             fi_message = cc_id control @ '' control waived by approved exception '' @ ce_id ex,
             fi_evidence = ''exception='' @ ce_id ex @ '' target='' @ kind @ ''/'' @ name\<rparr>
         | None \<Rightarrow> \<lparr>fi_control = cc_id control, fi_status = status, fi_severity = cc_severity control,
             fi_message = cc_id control @ '' control evaluated as '' @ status,
             fi_evidence = ''target='' @ kind @ ''/'' @ name @ '' framework='' @ cp_framework profile\<rparr>)"

definition pass_count :: "finding list \<Rightarrow> int" where
  "pass_count fs = int (length (filter (\<lambda>f. fi_status f = ''waived'' \<or> fi_status f = ''pass'') fs))"

definition scan_score :: "finding list \<Rightarrow> int" where
  "scan_score fs = (if fs = [] then 100 else go_div (pass_count fs * 100) (int (length fs)))"

definition RunScan :: "(string \<Rightarrow> string) \<Rightarrow> gotime \<Rightarrow> gotime \<Rightarrow> gotime \<Rightarrow> scan_input \<Rightarrow> compliance_store \<Rightarrow> compliance_store \<times> scan result" where
  "RunScan sum256 now startedAt endedAt inp s =
     (let profileID = TrimSpace (si_profile inp); targetKind = TrimSpace (si_kind inp); targetName = TrimSpace (si_target inp)
      in if profileID = [] \<or> targetKind = [] \<or> targetName = [] then (s, Inl ''profile_id, target_kind, and target_name are required'')
         else let s = expireExceptionsLocked now s in case mget (co_profiles s) profileID of
           None \<Rightarrow> (s, Inl ''compliance profile not found'')
         | Some profile \<Rightarrow>
             let findings = map (control_finding sum256 profile profileID targetKind targetName startedAt s) (cp_controls profile);
                 score = scan_score findings; n = co_next_scan s + 1;
                 scan = \<lparr>sc_id = seq_id ''compliance-scan-'' n, sc_profile = cp_id profile, sc_kind = targetKind, sc_target = targetName,
                   sc_team = TrimSpace (si_team inp), sc_environment = TrimSpace (si_environment inp), sc_service = TrimSpace (si_service inp),
                   sc_status = (if score < 100 then ''fail'' else ''pass''), sc_score = score, sc_started = startedAt, sc_ended = endedAt, sc_findings = findings\<rparr>
             in (s\<lparr>co_next_scan := n, co_scans := mput (sc_id scan) scan (co_scans s)\<rparr>, Inr scan))"

definition ListScans :: "compliance_store \<Rightarrow> scan list" where
  "ListScans s = newest_first sc_started (map snd (co_scans s))"

definition GetScan :: "string \<Rightarrow> compliance_store \<Rightarrow> scan option" where
  "GetScan i s = mget (co_scans s) (TrimSpace i)"

section \<open>Continuous scans\<close>

definition same_target :: "string \<Rightarrow> string \<Rightarrow> string \<Rightarrow> continuous \<Rightarrow> bool" where
  "same_target profileID kind name c \<longleftrightarrow> cs_profile c = profileID \<and> cs_kind c = kind \<and> cs_target c = name"

definition UpsertContinuousConfig :: "gotime \<Rightarrow> continuous_input \<Rightarrow> compliance_store \<Rightarrow> compliance_store \<times> continuous result" where
  "UpsertContinuousConfig now inp s =
     (let profileID = TrimSpace (ni_profile inp); targetKind = TrimSpace (ni_kind inp); targetName = TrimSpace (ni_target inp);
          interval = (if ni_interval inp \<le> 0 then 300 else ni_interval inp);
          enabled = (case ni_enabled inp of None \<Rightarrow> True | Some b \<Rightarrow> b)
      in if profileID = [] \<or> targetKind = [] \<or> targetName = [] then (s, Inl ''profile_id, target_kind, and target_name are required'')
         else if interval < 60 then (s, Inl ''interval_seconds must be >= 60'')
         else if interval > 86400 then (s, Inl ''interval_seconds must be <= 86400'')
         else if mget (co_profiles s) profileID = None then (s, Inl ''compliance profile not found'')
         else case List.find (\<lambda>(k, c). same_target profileID targetKind targetName c) (co_configs s) of
           Some (k, c) \<Rightarrow>
             let c = c\<lparr>cs_interval := interval, cs_enabled := enabled, cs_updated := now\<rparr>
             in (s\<lparr>co_configs := mput k c (co_configs s)\<rparr>, Inr c)
         | None \<Rightarrow>
             let n = co_next_config s + 1;
                 c = \<lparr>cs_id = seq_id ''compliance-continuous-'' n, cs_profile = profileID, cs_kind = targetKind, cs_target = targetName,
                   cs_interval = interval, cs_enabled = enabled, cs_last_scan = [], cs_last_run = None, cs_created = now, cs_updated = now\<rparr>
             in (s\<lparr>co_next_config := n, co_configs := mput (cs_id c) c (co_configs s)\<rparr>, Inr c))"

definition ListContinuousConfigs :: "compliance_store \<Rightarrow> continuous list" where
  "ListContinuousConfigs s = newest_first cs_created (map snd (co_configs s))"

text \<open>The three critical sections of \<^verbatim>\<open>RunContinuousScan\<close>, of which the second is \<open>RunScan\<close>.\<close>

definition continuous_begin :: "string \<Rightarrow> compliance_store \<Rightarrow> scan_input result" where
  "continuous_begin i s =
     (let i = TrimSpace i
      in if i = [] then Inl ''continuous config id is required''
         else case mget (co_configs s) i of
           None \<Rightarrow> Inl ''continuous compliance config not found''
         | Some c \<Rightarrow>
             if \<not> cs_enabled c then Inl ''continuous compliance config is disabled''
             else Inr \<lparr>si_profile = cs_profile c, si_kind = cs_kind c, si_target = cs_target c, si_team = [], si_environment = [], si_service = []\<rparr>)"

definition continuous_end :: "gotime \<Rightarrow> string \<Rightarrow> scan \<Rightarrow> compliance_store \<Rightarrow> compliance_store \<times> continuous option" where
  "continuous_end now i scan s =
     (case mget (co_configs s) (TrimSpace i) of
        None \<Rightarrow> (s, None)
      | Some c \<Rightarrow> let c = c\<lparr>cs_last_scan := sc_id scan, cs_last_run := Some now, cs_updated := now\<rparr>
                  in (s\<lparr>co_configs := mput (TrimSpace i) c (co_configs s)\<rparr>, Some c))"

definition RunContinuousScan ::
  "(string \<Rightarrow> string) \<Rightarrow> gotime \<Rightarrow> gotime \<Rightarrow> gotime \<Rightarrow> gotime \<Rightarrow> string \<Rightarrow> compliance_store \<Rightarrow> compliance_store \<times> (scan \<times> continuous option) result" where
  "RunContinuousScan sum256 now startedAt endedAt later i s =
     (case continuous_begin i s of
        Inl e \<Rightarrow> (s, Inl e)
      | Inr inp \<Rightarrow>
          (case RunScan sum256 now startedAt endedAt inp s of
             (s, Inl e) \<Rightarrow> (s, Inl e)
           | (s, Inr scan) \<Rightarrow> (case continuous_end later i scan s of (s, c) \<Rightarrow> (s, Inr (scan, c)))))"

section \<open>Scorecards\<close>

record score_agg =
  ag_scans :: int
  ag_pass :: int
  ag_fail :: int
  ag_total :: int
  ag_last :: gotime

definition scorecardDimensionKey :: "scan \<Rightarrow> string \<Rightarrow> string" where
  "scorecardDimensionKey x dimension =
     (if dimension = ''team'' then TrimSpace (sc_team x)
      else if dimension = ''environment'' then TrimSpace (sc_environment x)
      else if dimension = ''service'' then TrimSpace (sc_service x) else [])"

definition add_scan :: "scan \<Rightarrow> score_agg \<Rightarrow> score_agg" where
  "add_scan x a = \<lparr>ag_scans = ag_scans a + 1, ag_pass = (if sc_status x = ''pass'' then ag_pass a + 1 else ag_pass a),
     ag_fail = (if sc_status x = ''pass'' then ag_fail a else ag_fail a + 1), ag_total = ag_total a + sc_score x,
     ag_last = (if sc_ended x > ag_last a then sc_ended x else ag_last a)\<rparr>"

definition aggregate_scan :: "string \<Rightarrow> scan \<Rightarrow> score_agg gomap \<Rightarrow> score_agg gomap" where
  "aggregate_scan dimension x byKey =
     (let key = scorecardDimensionKey x dimension
      in if key = [] then byKey
         else mput key (add_scan x (mget_or \<lparr>ag_scans = 0, ag_pass = 0, ag_fail = 0, ag_total = 0, ag_last = 0\<rparr> byKey key)) byKey)"

definition scorecard_of :: "string \<Rightarrow> string \<times> score_agg \<Rightarrow> scorecard" where
  "scorecard_of dimension = (\<lambda>(key, a). \<lparr>sd_dimension = dimension, sd_key = key, sd_scans = ag_scans a, sd_pass = ag_pass a, sd_fail = ag_fail a,
     sd_average = (if ag_scans a > 0 then go_div (ag_total a) (ag_scans a) else 0), sd_last = ag_last a\<rparr>)"

definition ScorecardsByDimension :: "string \<Rightarrow> compliance_store \<Rightarrow> scorecard list result" where
  "ScorecardsByDimension dimension s =
     (let d0 = lower_trim dimension; dimension = (if d0 = [] then ''team'' else d0)
      in if dimension \<noteq> ''team'' \<and> dimension \<noteq> ''environment'' \<and> dimension \<noteq> ''service'' then Inl ''dimension must be team, environment, or service''
         else Inr (sort_key (\<lambda>c. (- sd_average c, sd_key c))
                (map (scorecard_of dimension) (fold (aggregate_scan dimension) (map snd (co_scans s)) []))))"

section \<open>Histories\<close>

text \<open>A call of \<^verbatim>\<open>RunContinuousScan\<close> that is under way: before its scan, after it, or over.\<close>

datatype flight = FlScan string scan_input | FlEnd string scan | FlDone

record compliance_system =
  cr_store :: compliance_store
  cr_flights :: "flight list"

datatype compliance_op =
    KProfile gotime profile_input
  | KException gotime exception_input
  | KApprove gotime string string string
  | KReject gotime string string string
  | KListExceptions gotime
  | KScan "string \<Rightarrow> string" gotime gotime gotime scan_input
  | KConfig gotime continuous_input
  | KBegin string
  | KContinue "string \<Rightarrow> string" gotime gotime gotime nat

definition continue_flight :: "(string \<Rightarrow> string) \<Rightarrow> gotime \<Rightarrow> gotime \<Rightarrow> gotime \<Rightarrow> flight \<Rightarrow> compliance_store \<Rightarrow> flight \<times> compliance_store" where
  "continue_flight sum256 now startedAt endedAt fl s =
     (case fl of
        FlScan i inp \<Rightarrow> (case RunScan sum256 now startedAt endedAt inp s of (s, Inl e) \<Rightarrow> (FlDone, s) | (s, Inr scan) \<Rightarrow> (FlEnd i scan, s))
      | FlEnd i scan \<Rightarrow> (FlDone, fst (continuous_end now i scan s))
      | FlDone \<Rightarrow> (FlDone, s))"

fun compliance_step :: "compliance_system \<Rightarrow> compliance_op \<Rightarrow> compliance_system" where
  "compliance_step r (KProfile now inp) = r\<lparr>cr_store := fst (CreateProfile now inp (cr_store r))\<rparr>"
| "compliance_step r (KException now inp) = r\<lparr>cr_store := fst (CreateException now inp (cr_store r))\<rparr>"
| "compliance_step r (KApprove now i actor comment) = r\<lparr>cr_store := fst (ApproveException now i actor comment (cr_store r))\<rparr>"
| "compliance_step r (KReject now i actor comment) = r\<lparr>cr_store := fst (RejectException now i actor comment (cr_store r))\<rparr>"
| "compliance_step r (KListExceptions now) = r\<lparr>cr_store := fst (ListExceptions now (cr_store r))\<rparr>"
| "compliance_step r (KScan sum256 now startedAt endedAt inp) = r\<lparr>cr_store := fst (RunScan sum256 now startedAt endedAt inp (cr_store r))\<rparr>"
| "compliance_step r (KConfig now inp) = r\<lparr>cr_store := fst (UpsertContinuousConfig now inp (cr_store r))\<rparr>"
| "compliance_step r (KBegin i) =
     (case continuous_begin i (cr_store r) of Inl e \<Rightarrow> r | Inr inp \<Rightarrow> r\<lparr>cr_flights := cr_flights r @ [FlScan i inp]\<rparr>)"
| "compliance_step r (KContinue sum256 now startedAt endedAt n) =
     (if n < length (cr_flights r)
      then case continue_flight sum256 now startedAt endedAt (cr_flights r ! n) (cr_store r) of
             (fl, s) \<Rightarrow> \<lparr>cr_store = s, cr_flights = (cr_flights r)[n := fl]\<rparr>
      else r)"

definition compliance_run :: "compliance_op list \<Rightarrow> compliance_system" where
  "compliance_run ops = foldl compliance_step \<lparr>cr_store = NewComplianceStore, cr_flights = []\<rparr> ops"

section \<open>The invariant\<close>

definition profile_ok :: "string \<Rightarrow> profile \<Rightarrow> bool" where
  "profile_ok k p \<longleftrightarrow> cp_id p = k \<and> cp_controls p \<noteq> []"

definition exception_ok :: "string \<Rightarrow> compliance_exception \<Rightarrow> bool" where
  "exception_ok k x \<longleftrightarrow> ce_id x = k \<and> ce_created x < ce_expires x \<and> ce_expires x \<le> ce_created x + year_ns"

definition scan_ok :: "string \<Rightarrow> scan \<Rightarrow> bool" where
  "scan_ok k x \<longleftrightarrow> sc_id x = k \<and> k \<noteq> [] \<and> 0 \<le> sc_score x \<and> sc_score x \<le> 100"

definition scanned :: "scan gomap \<Rightarrow> continuous \<Rightarrow> bool" where
  "scanned scans c \<longleftrightarrow> (\<exists>x. mget scans (cs_last_scan c) = Some x \<and> sc_profile x = cs_profile c \<and> sc_kind x = cs_kind c \<and> sc_target x = cs_target c)"

definition config_ok :: "scan gomap \<Rightarrow> string \<Rightarrow> continuous \<Rightarrow> bool" where
  "config_ok scans k c \<longleftrightarrow> cs_id c = k \<and> TrimSpace (cs_profile c) = cs_profile c \<and> TrimSpace (cs_kind c) = cs_kind c \<and> TrimSpace (cs_target c) = cs_target c \<and>
     60 \<le> cs_interval c \<and> cs_interval c \<le> 86400 \<and> (cs_last_scan c = [] \<or> scanned scans c)"

definition targets_distinct :: "continuous gomap \<Rightarrow> bool" where
  "targets_distinct m \<longleftrightarrow> (\<forall>k k' c c'. mget m k = Some c \<longrightarrow> mget m k' = Some c' \<longrightarrow> same_target (cs_profile c) (cs_kind c) (cs_target c) c' \<longrightarrow> k' = k)"

fun flight_ok :: "compliance_store \<Rightarrow> flight \<Rightarrow> bool" where
  "flight_ok s (FlScan i inp) \<longleftrightarrow> (\<exists>c. mget (co_configs s) (TrimSpace i) = Some c \<and> same_target (si_profile inp) (si_kind inp) (si_target inp) c)"
| "flight_ok s (FlEnd i x) \<longleftrightarrow> (\<exists>c. mget (co_configs s) (TrimSpace i) = Some c \<and> same_target (sc_profile x) (sc_kind x) (sc_target x) c) \<and>
     mget (co_scans s) (sc_id x) = Some x"
| "flight_ok s FlDone \<longleftrightarrow> True"

definition store_ok :: "compliance_store \<Rightarrow> bool" where
  "store_ok s \<longleftrightarrow>
     store_inv co_profiles co_next_profile ''compliance-profile-'' s \<and> store_inv co_exceptions co_next_exception ''compliance-exception-'' s \<and>
     store_inv co_scans co_next_scan ''compliance-scan-'' s \<and> store_inv co_configs co_next_config ''compliance-continuous-'' s \<and>
     items_ok profile_ok (co_profiles s) \<and> items_ok exception_ok (co_exceptions s) \<and> items_ok scan_ok (co_scans s) \<and>
     items_ok (config_ok (co_scans s)) (co_configs s) \<and> targets_distinct (co_configs s)"

definition compliance_inv :: "compliance_system \<Rightarrow> bool" where
  "compliance_inv r \<longleftrightarrow> store_ok (cr_store r) \<and> list_all (flight_ok (cr_store r)) (cr_flights r)"

text \<open>What an operation may do to what the configurations and the calls under way refer to: scans are only added, a configuration keeps its target.\<close>

definition configs_kept :: "compliance_store \<Rightarrow> compliance_store \<Rightarrow> bool" where
  "configs_kept s s' \<longleftrightarrow> (\<forall>k x. mget (co_scans s) k = Some x \<longrightarrow> mget (co_scans s') k = Some x) \<and>
     (\<forall>k c. mget (co_configs s) k = Some c \<longrightarrow> (\<exists>c'. mget (co_configs s') k = Some c' \<and> same_target (cs_profile c) (cs_kind c) (cs_target c) c'))"

lemma configs_keptI [intro]: "co_scans s' = co_scans s \<Longrightarrow> co_configs s' = co_configs s \<Longrightarrow> configs_kept s s'"
  by (simp add: configs_kept_def same_target_def)

lemma flight_ok_kept: "configs_kept s s' \<Longrightarrow> flight_ok s fl \<Longrightarrow> flight_ok s' fl"
  by (cases fl) (fastforce simp: configs_kept_def same_target_def)+

lemma config_ok_kept: "(\<And>k x. mget m k = Some x \<Longrightarrow> mget m' k = Some x) \<Longrightarrow> config_ok m k c \<Longrightarrow> config_ok m' k c"
  by (auto simp: config_ok_def scanned_def)

subsection \<open>Profiles and exceptions\<close>

lemma normalizeComplianceControls_ne: "normalizeComplianceControls cs = Inr out \<Longrightarrow> out \<noteq> []"
  by (cases cs) (auto simp: normalizeComplianceControls_def Let_def split: if_splits sum.splits)

lemma CreateProfile_cases:
  obtains "fst (CreateProfile now inp s) = s"
  | p where "fst (CreateProfile now inp s) = s\<lparr>co_next_profile := co_next_profile s + 1, co_profiles := mput (cp_id p) p (co_profiles s)\<rparr>"
      "cp_id p = seq_id ''compliance-profile-'' (co_next_profile s + 1)" "profile_ok (cp_id p) p"
proof (cases "snd (CreateProfile now inp s)")
  case (Inl e)
  then have "fst (CreateProfile now inp s) = s" by (auto simp: CreateProfile_def Let_def split: if_splits sum.splits)
  then show thesis by (rule that(1))
next
  case (Inr p)
  then have "fst (CreateProfile now inp s) = s\<lparr>co_next_profile := co_next_profile s + 1, co_profiles := mput (cp_id p) p (co_profiles s)\<rparr>"
      "cp_id p = seq_id ''compliance-profile-'' (co_next_profile s + 1)" "profile_ok (cp_id p) p"
    by (auto simp: CreateProfile_def profile_ok_def Let_def dest: normalizeComplianceControls_ne split: if_splits sum.splits)
  then show thesis by (rule that(2))
qed

lemma store_ok_profiles:
  assumes "store_ok s" "keys_step ''compliance-profile-'' (co_next_profile s) (co_profiles s) n m" "items_ok profile_ok m"
  shows "store_ok (s\<lparr>co_next_profile := n, co_profiles := m\<rparr>)"
  using assms store_inv_step [of co_profiles co_next_profile "''compliance-profile-''" s "s\<lparr>co_next_profile := n, co_profiles := m\<rparr>"]
  by (simp add: store_ok_def store_inv_def)

lemma CreateProfile_ok:
  assumes "store_ok s"
  shows "store_ok (fst (CreateProfile now inp s)) \<and> configs_kept s (fst (CreateProfile now inp s))"
proof (rule CreateProfile_cases [of now inp s])
  fix p assume p: "fst (CreateProfile now inp s) = s\<lparr>co_next_profile := co_next_profile s + 1, co_profiles := mput (cp_id p) p (co_profiles s)\<rparr>"
      "cp_id p = seq_id ''compliance-profile-'' (co_next_profile s + 1)" "profile_ok (cp_id p) p"
  have "store_ok (fst (CreateProfile now inp s))" unfolding p(1)
    by (rule store_ok_profiles [OF assms]) (use p(2,3) assms in \<open>simp_all add: items_ok_mput store_ok_def\<close>)
  then show ?thesis unfolding p(1) by auto
qed (use assms in auto)

lemma CreateException_cases:
  obtains "fst (CreateException now inp s) = s"
  | x where "fst (CreateException now inp s) = s\<lparr>co_next_exception := co_next_exception s + 1, co_exceptions := mput (ce_id x) x (co_exceptions s)\<rparr>"
      "ce_id x = seq_id ''compliance-exception-'' (co_next_exception s + 1)" "exception_ok (ce_id x) x" "ce_status x = ExcPending"
proof (cases "snd (CreateException now inp s)")
  case (Inl e)
  then have "fst (CreateException now inp s) = s" by (auto simp: CreateException_def Let_def split: if_splits option.splits)
  then show thesis by (rule that(1))
next
  case (Inr x)
  then have "fst (CreateException now inp s) = s\<lparr>co_next_exception := co_next_exception s + 1, co_exceptions := mput (ce_id x) x (co_exceptions s)\<rparr>"
      "ce_id x = seq_id ''compliance-exception-'' (co_next_exception s + 1)" "exception_ok (ce_id x) x" "ce_status x = ExcPending"
    by (auto simp: CreateException_def exception_ok_def Let_def split: if_splits option.splits)
  then show thesis by (rule that(2))
qed

lemma expire_exception_ok: "exception_ok k (expire_exception now x) = exception_ok k x"
  by (simp add: expire_exception_def exception_ok_def)

lemma store_ok_exceptions:
  assumes "store_ok s" "keys_step ''compliance-exception-'' (co_next_exception s) (co_exceptions s) n m" "items_ok exception_ok m"
  shows "store_ok (s\<lparr>co_next_exception := n, co_exceptions := m\<rparr>)"
  using assms store_inv_step [of co_exceptions co_next_exception "''compliance-exception-''" s "s\<lparr>co_next_exception := n, co_exceptions := m\<rparr>"]
  by (simp add: store_ok_def store_inv_def)

lemma CreateException_ok:
  assumes "store_ok s"
  shows "store_ok (fst (CreateException now inp s)) \<and> configs_kept s (fst (CreateException now inp s))"
proof (rule CreateException_cases [of now inp s])
  fix x assume x: "fst (CreateException now inp s) = s\<lparr>co_next_exception := co_next_exception s + 1, co_exceptions := mput (ce_id x) x (co_exceptions s)\<rparr>"
      "ce_id x = seq_id ''compliance-exception-'' (co_next_exception s + 1)" "exception_ok (ce_id x) x"
  have "store_ok (fst (CreateException now inp s))" unfolding x(1)
    by (rule store_ok_exceptions [OF assms]) (use x(2,3) assms in \<open>simp_all add: items_ok_mput store_ok_def\<close>)
  then show ?thesis unfolding x(1) by auto
qed (use assms in auto)

lemma expireExceptionsLocked_ok:
  assumes "store_ok s"
  shows "store_ok (expireExceptionsLocked now s)"
proof -
  have "items_ok exception_ok (map_vals (expire_exception now) (co_exceptions s))"
    using assms by (intro items_ok_map_vals [where P = exception_ok]) (simp_all add: store_ok_def expire_exception_ok)
  from store_ok_exceptions [OF assms _ this, of "co_next_exception s"] show ?thesis by (simp add: expireExceptionsLocked_def)
qed

lemma expire_frame [simp]:
  "co_scans (expireExceptionsLocked now s) = co_scans s" "co_configs (expireExceptionsLocked now s) = co_configs s"
  "co_profiles (expireExceptionsLocked now s) = co_profiles s" "co_next_scan (expireExceptionsLocked now s) = co_next_scan s"
  "co_exceptions (expireExceptionsLocked now s) = map_vals (expire_exception now) (co_exceptions s)"
  by (simp_all add: expireExceptionsLocked_def)

text \<open>A decision changes the exception it names, which was pending and had not run out, and nothing else but the status of those that have.\<close>

lemma decideException_cases:
  obtains e where "decideException now i actor decision comment s = (s, Inl e)"
  | e where "decideException now i actor decision comment s = (expireExceptionsLocked now s, Inl e)"
  | x y where "mget (co_exceptions s) (TrimSpace i) = Some x" "ce_status x = ExcPending" "now < ce_expires x"
      "y = x\<lparr>ce_approvals := ce_approvals x @ [\<lparr>ea_actor = TrimSpace actor, ea_decision = decision, ea_comment = TrimSpace comment, ea_created = now\<rparr>],
        ce_status := (if decision = ''approve'' then ExcApproved else ExcRejected), ce_updated := now\<rparr>"
      "decideException now i actor decision comment s =
        ((expireExceptionsLocked now s)\<lparr>co_exceptions := mput (TrimSpace i) y (co_exceptions (expireExceptionsLocked now s))\<rparr>, Inr y)"
proof (cases "snd (decideException now i actor decision comment s)")
  case (Inl e)
  then show thesis using that(1,2) by (auto simp: decideException_def Let_def split: if_splits option.splits)
next
  case (Inr y)
  let ?upd = "\<lambda>x. x\<lparr>ce_approvals := ce_approvals x @ [\<lparr>ea_actor = TrimSpace actor, ea_decision = decision, ea_comment = TrimSpace comment, ea_created = now\<rparr>],
        ce_status := (if decision = ''approve'' then ExcApproved else ExcRejected), ce_updated := now\<rparr>"
  obtain z where z: "mget (co_exceptions (expireExceptionsLocked now s)) (TrimSpace i) = Some z" "ce_status z = ExcPending" "y = ?upd z"
      "decideException now i actor decision comment s =
        ((expireExceptionsLocked now s)\<lparr>co_exceptions := mput (TrimSpace i) y (co_exceptions (expireExceptionsLocked now s))\<rparr>, Inr y)"
    using Inr by (auto simp: decideException_def Let_def simp del: expire_frame split: if_splits option.splits)
  obtain x where x: "mget (co_exceptions s) (TrimSpace i) = Some x" "z = expire_exception now x" using z(1) by auto
  then have "z = x" "now < ce_expires x" using z(2) by (auto simp: expire_exception_def split: if_splits)
  then show thesis using that(3) [OF x(1)] z by simp
qed

lemma decideException_ok:
  assumes "store_ok s"
  shows "store_ok (fst (decideException now i actor decision comment s)) \<and> configs_kept s (fst (decideException now i actor decision comment s))"
proof (rule decideException_cases [of now i actor decision comment s])
  fix x y assume x: "mget (co_exceptions s) (TrimSpace i) = Some x" and y: "y = x\<lparr>ce_approvals := ce_approvals x @ [\<lparr>ea_actor = TrimSpace actor, ea_decision = decision, ea_comment = TrimSpace comment, ea_created = now\<rparr>],
        ce_status := (if decision = ''approve'' then ExcApproved else ExcRejected), ce_updated := now\<rparr>"
      and d: "decideException now i actor decision comment s =
        ((expireExceptionsLocked now s)\<lparr>co_exceptions := mput (TrimSpace i) y (co_exceptions (expireExceptionsLocked now s))\<rparr>, Inr y)"
  let ?e = "expireExceptionsLocked now s"
  have e: "store_ok ?e" by (rule expireExceptionsLocked_ok [OF assms])
  have "exception_ok (TrimSpace i) x" using assms x by (auto simp: store_ok_def dest: items_okD)
  then have "exception_ok (TrimSpace i) y" by (simp add: y exception_ok_def)
  then have "items_ok exception_ok (mput (TrimSpace i) y (co_exceptions ?e))" using e by (intro items_ok_mput) (simp_all add: store_ok_def del: expire_frame)
  moreover have "keys_step ''compliance-exception-'' (co_next_exception ?e) (co_exceptions ?e) (co_next_exception ?e) (mput (TrimSpace i) y (co_exceptions ?e))"
    by (rule keys_step_update) (simp add: x)
  ultimately have "store_ok (?e\<lparr>co_exceptions := mput (TrimSpace i) y (co_exceptions ?e)\<rparr>)"
    using store_ok_exceptions [OF e, of "co_next_exception ?e" "mput (TrimSpace i) y (co_exceptions ?e)"] by (simp del: expire_frame)
  then show ?thesis unfolding d by auto
qed (use assms expireExceptionsLocked_ok in auto)

subsection \<open>Scans\<close>

lemma pass_count_le: "0 \<le> pass_count fs \<and> pass_count fs \<le> int (length fs)"
  by (simp add: pass_count_def)

lemma length_filter_full: "length (filter P xs) = length xs \<longleftrightarrow> (\<forall>x \<in> set xs. P x)"
proof (induction xs)
  case (Cons x xs)
  have "length (filter P xs) \<noteq> Suc (length xs)" by (metis length_filter_le not_less_eq_eq order_refl)
  then show ?case using Cons by auto
qed simp

lemma pass_count_all: "pass_count fs = int (length fs) \<longleftrightarrow> (\<forall>f \<in> set fs. fi_status f = ''waived'' \<or> fi_status f = ''pass'')"
  unfolding pass_count_def of_nat_eq_iff length_filter_full ..

lemma scan_score_div: "fs \<noteq> [] \<Longrightarrow> scan_score fs = pass_count fs * 100 div int (length fs)"
  using pass_count_le [of fs] by (simp add: scan_score_def go_div_nonneg)

lemma scan_score_range: "0 \<le> scan_score fs \<and> scan_score fs \<le> 100"
proof (cases "fs = []")
  case False
  have "pass_count fs * 100 div int (length fs) \<le> int (length fs) * 100 div int (length fs)"
    using pass_count_le [of fs] by (intro zdiv_mono1 mult_right_mono) (simp_all add: False)
  then show ?thesis using False pass_count_le [of fs] by (simp add: scan_score_div pos_imp_zdiv_nonneg_iff)
qed (simp add: scan_score_def)

lemma scan_score_full: "scan_score fs < 100 \<longleftrightarrow> \<not> (\<forall>f \<in> set fs. fi_status f = ''waived'' \<or> fi_status f = ''pass'')"
proof (cases "fs = []")
  case False
  then have n: "0 < int (length fs)" by simp
  have "pass_count fs * 100 div int (length fs) < 100" if "pass_count fs < int (length fs)"
  proof (rule ccontr)
    assume "\<not> ?thesis"
    then have "int (length fs) * 100 \<le> int (length fs) * (pass_count fs * 100 div int (length fs))" using n by (intro mult_left_mono) simp_all
    also have "\<dots> \<le> pass_count fs * 100" using mult_div_mod_eq [of "int (length fs)" "pass_count fs * 100"] pos_mod_sign [OF n, of "pass_count fs * 100"] by linarith
    finally show False using that by simp
  qed
  then have "scan_score fs < 100 \<longleftrightarrow> pass_count fs \<noteq> int (length fs)" using pass_count_le [of fs] False by (auto simp: scan_score_div order_less_le)
  then show ?thesis unfolding pass_count_all .
qed (simp add: scan_score_def)

lemma RunScan_cases:
  obtains e where "RunScan sum256 now t1 t2 inp s = (s, Inl e)"
  | e where "RunScan sum256 now t1 t2 inp s = (expireExceptionsLocked now s, Inl e)"
  | p x where "mget (co_profiles s) (TrimSpace (si_profile inp)) = Some p"
      "sc_id x = seq_id ''compliance-scan-'' (co_next_scan s + 1)" "sc_profile x = cp_id p" "sc_kind x = TrimSpace (si_kind inp)" "sc_target x = TrimSpace (si_target inp)"
      "sc_findings x = map (control_finding sum256 p (TrimSpace (si_profile inp)) (sc_kind x) (sc_target x) t1 (expireExceptionsLocked now s)) (cp_controls p)"
      "sc_score x = scan_score (sc_findings x)" "sc_status x = (if sc_score x < 100 then ''fail'' else ''pass'')" "sc_ended x = t2"
      "RunScan sum256 now t1 t2 inp s =
         ((expireExceptionsLocked now s)\<lparr>co_next_scan := co_next_scan s + 1, co_scans := mput (sc_id x) x (co_scans s)\<rparr>, Inr x)"
proof (cases "snd (RunScan sum256 now t1 t2 inp s)")
  case (Inl e)
  then show thesis using that(1,2) by (auto simp: RunScan_def Let_def split: if_splits option.splits)
next
  case (Inr x)
  then obtain p where p: "mget (co_profiles s) (TrimSpace (si_profile inp)) = Some p" by (auto simp: RunScan_def Let_def split: if_splits option.splits)
  show thesis by (rule that(3) [OF p, of x]) (use Inr p in \<open>auto simp: RunScan_def Let_def split: if_splits\<close>)
qed

lemma store_ok_scans:
  assumes "store_ok s" and x: "sc_id x = seq_id ''compliance-scan-'' (co_next_scan s + 1)" "0 \<le> sc_score x" "sc_score x \<le> 100"
    and s': "s' = s\<lparr>co_next_scan := co_next_scan s + 1, co_scans := mput (sc_id x) x (co_scans s)\<rparr>"
  shows "store_ok s'" "configs_kept s s'"
proof -
  have st: "store_inv co_scans co_next_scan ''compliance-scan-'' s" using assms(1) by (simp add: store_ok_def)
  have kept: "mget (co_scans s) k = Some y \<Longrightarrow> mget (mput (sc_id x) x (co_scans s)) k = Some y" for k y
    using store_inv_fresh [OF st] x(1) by auto
  then show "configs_kept s s'" unfolding s' by (simp add: configs_kept_def same_target_def)
  have "store_inv co_scans co_next_scan ''compliance-scan-'' s'" by (rule store_inv_step [OF st]) (simp add: s' x(1))
  moreover have "items_ok scan_ok (mput (sc_id x) x (co_scans s))"
    using assms(1) x by (intro items_ok_mput) (simp_all add: store_ok_def scan_ok_def seq_id_def)
  moreover have "items_ok (config_ok (mput (sc_id x) x (co_scans s))) (co_configs s)"
    using assms(1) config_ok_kept [OF kept] by (auto simp: store_ok_def intro: items_ok_mono)
  ultimately show "store_ok s'" using assms(1) unfolding s' by (simp add: store_ok_def store_inv_def)
qed

lemma configs_kept_expire: "configs_kept (expireExceptionsLocked now s) s' \<Longrightarrow> configs_kept s s'"
  by (simp add: configs_kept_def)

lemma RunScan_ok:
  assumes "store_ok s"
  shows "store_ok (fst (RunScan sum256 now t1 t2 inp s)) \<and> configs_kept s (fst (RunScan sum256 now t1 t2 inp s))"
proof (rule RunScan_cases [of sum256 now t1 t2 inp s])
  fix p x assume x: "sc_id x = seq_id ''compliance-scan-'' (co_next_scan s + 1)" "sc_score x = scan_score (sc_findings x)"
    and r: "RunScan sum256 now t1 t2 inp s = ((expireExceptionsLocked now s)\<lparr>co_next_scan := co_next_scan s + 1, co_scans := mput (sc_id x) x (co_scans s)\<rparr>, Inr x)"
  have "fst (RunScan sum256 now t1 t2 inp s) = (expireExceptionsLocked now s)\<lparr>co_next_scan := co_next_scan (expireExceptionsLocked now s) + 1,
      co_scans := mput (sc_id x) x (co_scans (expireExceptionsLocked now s))\<rparr>" unfolding r by simp
  from store_ok_scans [OF expireExceptionsLocked_ok [OF assms] _ _ _ this] show ?thesis using x scan_score_range by (auto intro: configs_kept_expire)
qed (use assms expireExceptionsLocked_ok in auto)

subsection \<open>Configurations\<close>

lemma find_entry:
  assumes "wf_map m"
  shows "List.find (\<lambda>(k, c). P c) m = Some (k, c) \<Longrightarrow> mget m k = Some c \<and> P c"
    and "List.find (\<lambda>(k, c). P c) m = None \<Longrightarrow> mget m k' = Some c' \<Longrightarrow> \<not> P c'"
proof -
  show "List.find (\<lambda>(k, c). P c) m = Some (k, c) \<Longrightarrow> mget m k = Some c \<and> P c"
    using wf_map_mem [OF assms, of k c] by (auto simp: find_Some_iff dest: nth_mem)
  show "List.find (\<lambda>(k, c). P c) m = None \<Longrightarrow> mget m k' = Some c' \<Longrightarrow> \<not> P c'"
    using wf_map_mem [OF assms, of k' c'] by (auto simp: find_None_iff)
qed

lemma store_ok_configs:
  assumes "store_ok s" "keys_step ''compliance-continuous-'' (co_next_config s) (co_configs s) n (mput k c (co_configs s))" "config_ok (co_scans s) k c"
    and same: "\<And>c0. mget (co_configs s) k = Some c0 \<Longrightarrow> same_target (cs_profile c0) (cs_kind c0) (cs_target c0) c"
    and new: "\<And>k' c'. mget (co_configs s) k = None \<Longrightarrow> mget (co_configs s) k' = Some c' \<Longrightarrow> \<not> same_target (cs_profile c) (cs_kind c) (cs_target c) c'"
    and s': "s' = s\<lparr>co_next_config := n, co_configs := mput k c (co_configs s)\<rparr>"
  shows "store_ok s'" "configs_kept s s'"
proof -
  have st: "store_inv co_configs co_next_config ''compliance-continuous-'' s" using assms(1) by (simp add: store_ok_def)
  have other: "\<not> same_target (cs_profile c) (cs_kind c) (cs_target c) c'" if "mget (co_configs s) k' = Some c'" "k' \<noteq> k" for k' c'
  proof (cases "mget (co_configs s) k")
    case (Some c0)
    have "\<not> same_target (cs_profile c0) (cs_kind c0) (cs_target c0) c'" using assms(1) Some that unfolding store_ok_def targets_distinct_def by blast
    then show ?thesis using same [OF Some] by (simp add: same_target_def)
  qed (use new that(1) in blast)
  have "targets_distinct (mput k c (co_configs s))"
    unfolding targets_distinct_def
  proof (intro allI impI)
    fix k1 k2 c1 c2 assume a: "mget (mput k c (co_configs s)) k1 = Some c1" "mget (mput k c (co_configs s)) k2 = Some c2"
      "same_target (cs_profile c1) (cs_kind c1) (cs_target c1) c2"
    show "k2 = k1"
    proof (cases "k1 = k \<or> k2 = k")
      case True
      then show ?thesis using a other [of k1 c1] other [of k2 c2] by (auto simp: same_target_def split: if_splits)
    next
      case False
      then show ?thesis using a assms(1) unfolding store_ok_def targets_distinct_def by auto
    qed
  qed
  moreover have "store_inv co_configs co_next_config ''compliance-continuous-'' s'" by (rule store_inv_step [OF st]) (use assms(2) in \<open>simp add: s'\<close>)
  moreover have "items_ok (config_ok (co_scans s)) (mput k c (co_configs s))" using assms(1,3) by (intro items_ok_mput) (simp_all add: store_ok_def)
  ultimately show "store_ok s'" using assms(1) unfolding s' by (simp add: store_ok_def store_inv_def)
  show "configs_kept s s'" using same unfolding s' configs_kept_def by (auto simp: same_target_def)
qed

lemma same_target_new [simp]:
  "same_target p k t \<lparr>cs_id = i, cs_profile = p, cs_kind = k, cs_target = t, cs_interval = iv, cs_enabled = en, cs_last_scan = ls, cs_last_run = lr, cs_created = cr, cs_updated = up\<rparr>"
  by (simp add: same_target_def)

lemma UpsertContinuousConfig_cases:
  obtains e where "UpsertContinuousConfig now inp s = (s, Inl e)"
  | k c iv en where "List.find (\<lambda>(k, c). same_target (TrimSpace (ni_profile inp)) (TrimSpace (ni_kind inp)) (TrimSpace (ni_target inp)) c) (co_configs s) = Some (k, c)"
      "60 \<le> iv" "iv \<le> 86400"
      "fst (UpsertContinuousConfig now inp s) = s\<lparr>co_configs := mput k (c\<lparr>cs_interval := iv, cs_enabled := en, cs_updated := now\<rparr>) (co_configs s)\<rparr>"
  | c where "List.find (\<lambda>(k, c). same_target (TrimSpace (ni_profile inp)) (TrimSpace (ni_kind inp)) (TrimSpace (ni_target inp)) c) (co_configs s) = None"
      "cs_id c = seq_id ''compliance-continuous-'' (co_next_config s + 1)" "same_target (TrimSpace (ni_profile inp)) (TrimSpace (ni_kind inp)) (TrimSpace (ni_target inp)) c"
      "60 \<le> cs_interval c" "cs_interval c \<le> 86400" "cs_last_scan c = []"
      "fst (UpsertContinuousConfig now inp s) = s\<lparr>co_next_config := co_next_config s + 1, co_configs := mput (cs_id c) c (co_configs s)\<rparr>"
proof -
  define iv where "iv = (if ni_interval inp \<le> 0 then 300 else ni_interval inp)"
  define en where "en = (case ni_enabled inp of None \<Rightarrow> True | Some b \<Rightarrow> b)"
  define g where "g \<longleftrightarrow> TrimSpace (ni_profile inp) = [] \<or> TrimSpace (ni_kind inp) = [] \<or> TrimSpace (ni_target inp) = [] \<or> iv < 60 \<or> iv > 86400 \<or>
    mget (co_profiles s) (TrimSpace (ni_profile inp)) = None"
  let ?find = "List.find (\<lambda>(k, c). same_target (TrimSpace (ni_profile inp)) (TrimSpace (ni_kind inp)) (TrimSpace (ni_target inp)) c) (co_configs s)"
  show thesis
  proof (cases g)
    case True
    then have "\<exists>e. UpsertContinuousConfig now inp s = (s, Inl e)" unfolding g_def UpsertContinuousConfig_def Let_def iv_def [symmetric] by (elim disjE) simp_all
    then show thesis using that(1) by blast
  next
    case g: False
    then have iv: "60 \<le> iv" "iv \<le> 86400" by (simp_all add: g_def)
    obtain p where p: "mget (co_profiles s) (TrimSpace (ni_profile inp)) = Some p" using g by (auto simp: g_def)
    show thesis
    proof (cases ?find)
      case None
      show thesis
        by (rule that(3) [OF None, of "\<lparr>cs_id = seq_id ''compliance-continuous-'' (co_next_config s + 1), cs_profile = TrimSpace (ni_profile inp),
            cs_kind = TrimSpace (ni_kind inp), cs_target = TrimSpace (ni_target inp), cs_interval = iv, cs_enabled = en, cs_last_scan = [],
            cs_last_run = None, cs_created = now, cs_updated = now\<rparr>"])
          (use g iv p None in \<open>simp_all add: g_def UpsertContinuousConfig_def Let_def iv_def [symmetric] en_def [symmetric]\<close>)
    next
      case (Some kc)
      obtain k c where kc: "kc = (k, c)" by (cases kc)
      show thesis
        by (rule that(2) [of k c iv en]) (use g iv p Some kc in \<open>simp_all add: g_def UpsertContinuousConfig_def Let_def iv_def [symmetric] en_def [symmetric]\<close>)
    qed
  qed
qed

lemma UpsertContinuousConfig_ok:
  assumes "store_ok s"
  shows "store_ok (fst (UpsertContinuousConfig now inp s)) \<and> configs_kept s (fst (UpsertContinuousConfig now inp s))"
proof (rule UpsertContinuousConfig_cases [of now inp s])
  have wf: "wf_map (co_configs s)" and st: "store_inv co_configs co_next_config ''compliance-continuous-'' s"
    using assms by (simp_all add: store_ok_def store_inv_def)
  let ?P = "same_target (TrimSpace (ni_profile inp)) (TrimSpace (ni_kind inp)) (TrimSpace (ni_target inp))"
  {
    fix c assume find: "List.find (\<lambda>(k, c). ?P c) (co_configs s) = None" and k: "cs_id c = seq_id ''compliance-continuous-'' (co_next_config s + 1)"
      and c: "?P c" "60 \<le> cs_interval c" "cs_interval c \<le> 86400" "cs_last_scan c = []"
      and r: "fst (UpsertContinuousConfig now inp s) = s\<lparr>co_next_config := co_next_config s + 1, co_configs := mput (cs_id c) c (co_configs s)\<rparr>"
    have keys: "keys_step ''compliance-continuous-'' (co_next_config s) (co_configs s) (co_next_config s + 1) (mput (cs_id c) c (co_configs s))"
      by (rule keys_step_add_seq [OF refl k])
    have ok: "config_ok (co_scans s) (cs_id c) c" using c by (simp add: config_ok_def same_target_def)
    have new: "mget (co_configs s) k' = Some c' \<Longrightarrow> \<not> same_target (cs_profile c) (cs_kind c) (cs_target c) c'" for k' c'
      using find_entry(2) [OF wf find, of k' c'] c(1) by (simp add: same_target_def)
    have none: "mget (co_configs s) (cs_id c) = None" using store_inv_fresh [OF st] k by simp
    show ?thesis using store_ok_configs [OF assms keys ok _ _ r] new none by auto
  next
    fix k c iv en assume find: "List.find (\<lambda>(k, c). ?P c) (co_configs s) = Some (k, c)" and iv: "60 \<le> iv" "iv \<le> 86400"
      and r: "fst (UpsertContinuousConfig now inp s) = s\<lparr>co_configs := mput k (c\<lparr>cs_interval := iv, cs_enabled := en, cs_updated := now\<rparr>) (co_configs s)\<rparr>"
    have c: "mget (co_configs s) k = Some c" using find_entry(1) [OF wf find] by simp
    have "config_ok (co_scans s) k c" using assms c by (auto simp: store_ok_def dest: items_okD)
    then have ok: "config_ok (co_scans s) k (c\<lparr>cs_interval := iv, cs_enabled := en, cs_updated := now\<rparr>)" using iv by (simp add: config_ok_def scanned_def)
    have r': "fst (UpsertContinuousConfig now inp s) =
        s\<lparr>co_next_config := co_next_config s, co_configs := mput k (c\<lparr>cs_interval := iv, cs_enabled := en, cs_updated := now\<rparr>) (co_configs s)\<rparr>" using r by simp
    show ?thesis using store_ok_configs [OF assms keys_step_update_some [OF c] ok _ _ r'] c by (simp add: same_target_def)
  }
qed (use assms in auto)

lemma continuous_end_ok:
  assumes "store_ok s" and fl: "flight_ok s (FlEnd i x)"
  shows "store_ok (fst (continuous_end now i x s)) \<and> configs_kept s (fst (continuous_end now i x s))"
proof -
  obtain c where c: "mget (co_configs s) (TrimSpace i) = Some c" "same_target (sc_profile x) (sc_kind x) (sc_target x) c" "mget (co_scans s) (sc_id x) = Some x"
    using fl by auto
  let ?c = "c\<lparr>cs_last_scan := sc_id x, cs_last_run := Some now, cs_updated := now\<rparr>"
  have "config_ok (co_scans s) (TrimSpace i) c" using assms(1) c(1) by (auto simp: store_ok_def dest: items_okD)
  then have ok: "config_ok (co_scans s) (TrimSpace i) ?c" using c(2,3) by (simp add: config_ok_def scanned_def same_target_def)
  have r: "fst (continuous_end now i x s) = s\<lparr>co_next_config := co_next_config s, co_configs := mput (TrimSpace i) ?c (co_configs s)\<rparr>"
    by (simp add: continuous_end_def c(1) Let_def)
  show ?thesis using store_ok_configs [OF assms(1) keys_step_update_some [OF c(1)] ok _ _ r] c(1) by (simp add: same_target_def)
qed

subsection \<open>All together\<close>

lemma continue_flight_ok:
  assumes "store_ok s" "flight_ok s fl" and r: "continue_flight sum256 now t1 t2 fl s = (fl', s')"
  shows "store_ok s' \<and> configs_kept s s' \<and> flight_ok s' fl'"
proof (cases fl)
  case (FlScan i inp)
  obtain c where c: "mget (co_configs s) (TrimSpace i) = Some c" "same_target (si_profile inp) (si_kind inp) (si_target inp) c" using assms(2) FlScan by auto
  have c_ok: "config_ok (co_scans s) (TrimSpace i) c" using assms(1) c(1) by (auto simp: store_ok_def dest: items_okD)
  have s': "s' = fst (RunScan sum256 now t1 t2 inp s)" using r FlScan by (auto simp: continue_flight_def split: prod.splits sum.splits)
  have "flight_ok s' fl'"
  proof (rule RunScan_cases [of sum256 now t1 t2 inp s])
    fix p x assume p: "mget (co_profiles s) (TrimSpace (si_profile inp)) = Some p"
      and x: "sc_profile x = cp_id p" "sc_kind x = TrimSpace (si_kind inp)" "sc_target x = TrimSpace (si_target inp)"
      and run: "RunScan sum256 now t1 t2 inp s = ((expireExceptionsLocked now s)\<lparr>co_next_scan := co_next_scan s + 1, co_scans := mput (sc_id x) x (co_scans s)\<rparr>, Inr x)"
    have "cp_id p = TrimSpace (si_profile inp)" using assms(1) p by (auto simp: store_ok_def profile_ok_def dest: items_okD)
    then show ?thesis using r c c_ok x by (auto simp: FlScan continue_flight_def run same_target_def config_ok_def)
  qed (use r FlScan in \<open>auto simp: continue_flight_def\<close>)
  then show ?thesis using RunScan_ok [OF assms(1)] unfolding s' by blast
next
  case (FlEnd i x)
  then show ?thesis using r continuous_end_ok [OF assms(1), of i x now] assms(2) by (auto simp: continue_flight_def)
qed (use assms r in \<open>auto simp: continue_flight_def\<close>)

lemma compliance_step_ok:
  assumes "compliance_inv r"
  shows "compliance_inv (compliance_step r op)"
proof -
  have s: "store_ok (cr_store r)" and fl: "list_all (flight_ok (cr_store r)) (cr_flights r)" using assms by (simp_all add: compliance_inv_def)
  have kept: "compliance_inv (r\<lparr>cr_store := s'\<rparr>)" if "store_ok s' \<and> configs_kept (cr_store r) s'" for s'
    using that fl by (auto simp: compliance_inv_def list_all_iff intro: flight_ok_kept)
  show ?thesis
  proof (cases op)
    case (KProfile now inp)
    then show ?thesis using kept [OF CreateProfile_ok [OF s]] by simp
  next
    case (KException now inp)
    then show ?thesis using kept [OF CreateException_ok [OF s]] by simp
  next
    case (KApprove now i actor comment)
    then show ?thesis using kept [OF decideException_ok [OF s]] by (simp add: ApproveException_def)
  next
    case (KReject now i actor comment)
    then show ?thesis using kept [OF decideException_ok [OF s]] by (simp add: RejectException_def)
  next
    case (KListExceptions now)
    have "configs_kept (cr_store r) (expireExceptionsLocked now (cr_store r))" by auto
    then show ?thesis using kept expireExceptionsLocked_ok [OF s] KListExceptions by (simp add: ListExceptions_def Let_def)
  next
    case (KScan sum256 now t1 t2 inp)
    then show ?thesis using kept [OF RunScan_ok [OF s]] by simp
  next
    case (KConfig now inp)
    then show ?thesis using kept [OF UpsertContinuousConfig_ok [OF s]] by simp
  next
    case (KBegin i)
    show ?thesis
    proof (cases "continuous_begin i (cr_store r)")
      case (Inr inp)
      then have "flight_ok (cr_store r) (FlScan i inp)" by (auto simp: continuous_begin_def same_target_def Let_def split: if_splits option.splits)
      then show ?thesis using KBegin Inr s fl by (simp add: compliance_inv_def)
    qed (use KBegin assms in simp)
  next
    case (KContinue sum256 now t1 t2 n)
    show ?thesis
    proof (cases "n < length (cr_flights r)")
      case True
      obtain fl' s' where c: "continue_flight sum256 now t1 t2 (cr_flights r ! n) (cr_store r) = (fl', s')" by (meson surj_pair)
      have "flight_ok (cr_store r) (cr_flights r ! n)" using fl True by (simp add: list_all_length)
      from continue_flight_ok [OF s this c] have ok: "store_ok s'" "configs_kept (cr_store r) s'" "flight_ok s' fl'" by simp_all
      have "list_all (flight_ok s') (cr_flights r)" using fl flight_ok_kept [OF ok(2)] by (auto simp: list_all_iff)
      then have "list_all (flight_ok s') ((cr_flights r)[n := fl'])" using ok(3) set_update_subset_insert [of "cr_flights r" n fl'] by (auto simp: list_all_iff)
      then show ?thesis using KContinue True ok(1) by (simp add: c compliance_inv_def)
    qed (use KContinue assms in simp)
  qed
qed

interpretation compliance_runs: stepper compliance_step compliance_inv
  by unfold_locales (rule compliance_step_ok)

lemma compliance_run_inv: "compliance_inv (compliance_run ops)"
  unfolding compliance_run_def
  by (rule compliance_runs.run_inv) (simp add: compliance_inv_def store_ok_def store_inv_def NewComplianceStore_def ids_below_def targets_distinct_def)

section \<open>Waivers\<close>

text \<open>An approval in a history: the call succeeded on the exception, which was pending and had not run out.\<close>

definition approved_in :: "compliance_op list \<Rightarrow> string \<Rightarrow> bool" where
  "approved_in ops k \<longleftrightarrow> (\<exists>before now i actor comment later x. ops = before @ KApprove now i actor comment # later \<and> TrimSpace i = k \<and> TrimSpace actor \<noteq> [] \<and>
     mget (co_exceptions (cr_store (compliance_run before))) k = Some x \<and> ce_status x = ExcPending \<and> now < ce_expires x)"

lemma approved_in_snoc: "approved_in ops k \<Longrightarrow> approved_in (ops @ [op]) k"
  unfolding approved_in_def by (metis append.assoc append_Cons)

definition stays_unapproved :: "compliance_store \<Rightarrow> compliance_store \<Rightarrow> bool" where
  "stays_unapproved s s' \<longleftrightarrow> (\<forall>k y. mget (co_exceptions s') k = Some y \<longrightarrow> ce_status y = ExcApproved \<longrightarrow> (\<exists>x. mget (co_exceptions s) k = Some x \<and> ce_status x = ExcApproved))"

lemma stays_unapprovedI [intro]: "co_exceptions s' = co_exceptions s \<Longrightarrow> stays_unapproved s s'"
  by (simp add: stays_unapproved_def)

lemma expire_exception_approved: "ce_status (expire_exception now x) = ExcApproved \<longleftrightarrow> ce_status x = ExcApproved \<and> now < ce_expires x"
  by (cases "ce_status x") (simp_all add: expire_exception_def not_le)

lemma expire_unapproved:
  assumes "co_exceptions s' = map_vals (expire_exception now) (co_exceptions s)"
  shows "stays_unapproved s s'"
  unfolding stays_unapproved_def
proof (intro allI impI)
  fix k y assume "mget (co_exceptions s') k = Some y" "ce_status y = ExcApproved"
  moreover from this obtain x where "mget (co_exceptions s) k = Some x" "y = expire_exception now x" unfolding assms by auto
  ultimately show "\<exists>x. mget (co_exceptions s) k = Some x \<and> ce_status x = ExcApproved" by (simp add: expire_exception_approved)
qed

lemma RunScan_unapproved: "stays_unapproved s (fst (RunScan sum256 now t1 t2 inp s))"
  by (rule RunScan_cases [of sum256 now t1 t2 inp s]) (auto intro: expire_unapproved)

lemma decide_unapproved:
  assumes "decision \<noteq> ''approve''"
  shows "stays_unapproved s (fst (decideException now i actor decision comment s))"
proof (rule decideException_cases [of now i actor decision comment s])
  fix x y assume d: "decideException now i actor decision comment s =
        ((expireExceptionsLocked now s)\<lparr>co_exceptions := mput (TrimSpace i) y (co_exceptions (expireExceptionsLocked now s))\<rparr>, Inr y)"
    and y: "y = x\<lparr>ce_approvals := ce_approvals x @ [\<lparr>ea_actor = TrimSpace actor, ea_decision = decision, ea_comment = TrimSpace comment, ea_created = now\<rparr>],
        ce_status := (if decision = ''approve'' then ExcApproved else ExcRejected), ce_updated := now\<rparr>"
  have rejected: "ce_status y = ExcRejected" unfolding y using assms by simp
  have old: "stays_unapproved s (expireExceptionsLocked now s)" by (rule expire_unapproved) simp
  show ?thesis unfolding d stays_unapproved_def
  proof (intro allI impI)
    fix k w assume w: "ce_status w = ExcApproved"
      and m: "mget (co_exceptions (fst ((expireExceptionsLocked now s)\<lparr>co_exceptions := mput (TrimSpace i) y (co_exceptions (expireExceptionsLocked now s))\<rparr>, Inr y :: compliance_exception result))) k = Some w"
    have "k \<noteq> TrimSpace i"
    proof
      assume "k = TrimSpace i"
      then have "w = y" using m by simp
      then show False using w rejected by simp
    qed
    then have "mget (co_exceptions (expireExceptionsLocked now s)) k = Some w" using m by simp
    then show "\<exists>x. mget (co_exceptions s) k = Some x \<and> ce_status x = ExcApproved" using old w unfolding stays_unapproved_def by blast
  qed
next
  fix e assume d: "decideException now i actor decision comment s = (s, Inl e)"
  show ?thesis unfolding d fst_conv by (rule stays_unapprovedI) (rule refl)
next
  fix e assume d: "decideException now i actor decision comment s = (expireExceptionsLocked now s, Inl e)"
  show ?thesis unfolding d fst_conv by (rule expire_unapproved) (rule expire_frame(5))
qed

lemma continue_unapproved: "continue_flight sum256 now t1 t2 fl s = (fl', s') \<Longrightarrow> stays_unapproved s s'"
proof (cases fl)
  case (FlScan i inp)
  moreover assume "continue_flight sum256 now t1 t2 fl s = (fl', s')"
  ultimately have "s' = fst (RunScan sum256 now t1 t2 inp s)" by (auto simp: continue_flight_def split: prod.splits sum.splits)
  then show ?thesis using RunScan_unapproved by simp
qed (auto simp: continue_flight_def continuous_end_def Let_def split: option.splits)

lemma CreateException_unapproved: "stays_unapproved s (fst (CreateException now inp s))"
  by (rule CreateException_cases [of now inp s]) (auto simp: stays_unapproved_def split: if_splits)

text \<open>Nothing but an approval turns an exception into an approved one.\<close>

lemma step_unapproved:
  assumes "\<And>now i actor comment. op \<noteq> KApprove now i actor comment"
  shows "stays_unapproved (cr_store r) (cr_store (compliance_step r op))"
proof (cases op)
  case (KProfile now inp)
  show ?thesis by (rule CreateProfile_cases [of now inp "cr_store r"]) (auto simp: KProfile)
next
  case (KException now inp)
  then show ?thesis using CreateException_unapproved by simp
next
  case (KReject now i actor comment)
  then show ?thesis using decide_unapproved [of "''reject''"] by (simp add: RejectException_def)
next
  case (KListExceptions now)
  then show ?thesis by (auto simp: ListExceptions_def Let_def intro: expire_unapproved)
next
  case (KScan sum256 now t1 t2 inp)
  then show ?thesis using RunScan_unapproved by simp
next
  case (KConfig now inp)
  show ?thesis by (rule UpsertContinuousConfig_cases [of now inp "cr_store r"]) (auto simp: KConfig)
next
  case (KBegin i)
  then show ?thesis by (auto split: sum.split)
next
  case (KContinue sum256 now t1 t2 n)
  then show ?thesis by (auto split: prod.split intro: continue_unapproved)
qed (use assms in simp)

lemma approved_step:
  assumes "mget (co_exceptions (cr_store (compliance_step r op))) k = Some y" "ce_status y = ExcApproved"
  shows "(\<exists>x. mget (co_exceptions (cr_store r)) k = Some x \<and> ce_status x = ExcApproved) \<or>
    (\<exists>now i actor comment x. op = KApprove now i actor comment \<and> TrimSpace i = k \<and> TrimSpace actor \<noteq> [] \<and>
       mget (co_exceptions (cr_store r)) k = Some x \<and> ce_status x = ExcPending \<and> now < ce_expires x)"
proof (cases "\<exists>now i actor comment. op = KApprove now i actor comment")
  case False
  then show ?thesis using assms step_unapproved [of op r] unfolding stays_unapproved_def by blast
next
  case True
  then obtain now i actor comment where op: "op = KApprove now i actor comment" by blast
  let ?s = "cr_store r"
  have same: ?thesis if "stays_unapproved ?s (fst (decideException now i actor ''approve'' comment ?s))"
    using that assms unfolding op stays_unapproved_def by (auto simp: ApproveException_def)
  show ?thesis
  proof (rule decideException_cases [of now i actor "''approve''" comment ?s])
    fix x z assume x: "mget (co_exceptions ?s) (TrimSpace i) = Some x" "ce_status x = ExcPending" "now < ce_expires x"
      and d: "decideException now i actor ''approve'' comment ?s =
        ((expireExceptionsLocked now ?s)\<lparr>co_exceptions := mput (TrimSpace i) z (co_exceptions (expireExceptionsLocked now ?s))\<rparr>, Inr z)"
    have "TrimSpace actor \<noteq> []" using d by (auto simp: decideException_def Let_def split: if_splits)
    show ?thesis
    proof (cases "TrimSpace i = k")
      case True
      then show ?thesis using x op \<open>TrimSpace actor \<noteq> []\<close> by blast
    next
      case False
      then have "mget (co_exceptions (expireExceptionsLocked now ?s)) k = Some y" using assms(1) unfolding op by (simp add: ApproveException_def d)
      then show ?thesis using expire_unapproved [of "expireExceptionsLocked now ?s" now ?s] assms(2) unfolding stays_unapproved_def by auto
    qed
  qed (rule same, force intro: expire_unapproved)+
qed

lemma approved_history:
  "mget (co_exceptions (cr_store (compliance_run ops))) k = Some y \<Longrightarrow> ce_status y = ExcApproved \<Longrightarrow> approved_in ops k"
proof (induction ops arbitrary: y rule: rev_induct)
  case Nil
  then show ?case by (simp add: compliance_run_def NewComplianceStore_def)
next
  case (snoc op ops)
  have "compliance_run (ops @ [op]) = compliance_step (compliance_run ops) op" by (simp add: compliance_run_def)
  with approved_step [of "compliance_run ops" op k y] snoc.prems consider
    (old) x where "mget (co_exceptions (cr_store (compliance_run ops))) k = Some x" "ce_status x = ExcApproved"
  | (new) now i actor comment x where "op = KApprove now i actor comment" "TrimSpace i = k" "TrimSpace actor \<noteq> []"
      "mget (co_exceptions (cr_store (compliance_run ops))) k = Some x" "ce_status x = ExcPending" "now < ce_expires x" by auto
  then show ?case
  proof cases
    case old
    then show ?thesis using snoc.IH approved_in_snoc by blast
  next
    case new
    then show ?thesis unfolding approved_in_def by blast
  qed
qed

text \<open>The exceptions that a scan may take into account for one control.\<close>

definition waiver :: "compliance_store \<Rightarrow> scan \<Rightarrow> string \<Rightarrow> gotime \<Rightarrow> string \<Rightarrow> bool" where
  "waiver s x c now k \<longleftrightarrow> (\<exists>y. mget (co_exceptions s) k = Some y \<and> ce_status y = ExcApproved \<and> now < ce_expires y \<and> sc_started x < ce_expires y \<and>
     ce_profile y = sc_profile x \<and> ce_control y = c \<and> ce_kind y = sc_kind x \<and> ce_target y = sc_target x)"

lemma match_waiver:
  assumes "wf_map (co_exceptions s)"
  shows "matchApprovedExceptionLocked (sc_profile x) c (sc_kind x) (sc_target x) (sc_started x) (expireExceptionsLocked now s) \<noteq> None \<longleftrightarrow> (\<exists>k. waiver s x c now k)"
proof -
  let ?P = "exception_matches (sc_profile x) c (sc_kind x) (sc_target x) (sc_started x)"
  have "matchApprovedExceptionLocked (sc_profile x) c (sc_kind x) (sc_target x) (sc_started x) (expireExceptionsLocked now s) \<noteq> None \<longleftrightarrow>
      (\<exists>y \<in> set (map snd (co_exceptions (expireExceptionsLocked now s))). ?P y)"
    unfolding matchApprovedExceptionLocked_def find_None_iff_ball by blast
  also have "\<dots> \<longleftrightarrow> (\<exists>k y. mget (co_exceptions s) k = Some y \<and> ?P (expire_exception now y))"
  proof -
    have "y \<in> set (map snd (co_exceptions (expireExceptionsLocked now s))) \<longleftrightarrow> (\<exists>k z. mget (co_exceptions s) k = Some z \<and> y = expire_exception now z)" for y
      using set_values [of "co_exceptions (expireExceptionsLocked now s)" y] assms by (simp add: eq_commute [of y] del: set_map)
    then show ?thesis unfolding Bex_def by metis
  qed
  also have "\<dots> \<longleftrightarrow> (\<exists>k. waiver s x c now k)"
  proof -
    have "?P (expire_exception now y) \<longleftrightarrow> ce_status y = ExcApproved \<and> now < ce_expires y \<and> sc_started x < ce_expires y \<and>
        ce_profile y = sc_profile x \<and> ce_control y = c \<and> ce_kind y = sc_kind x \<and> ce_target y = sc_target x" for y
      unfolding exception_matches_def expire_exception_approved by (auto simp: expire_exception_def)
    then show ?thesis by (simp add: waiver_def)
  qed
  finally show ?thesis .
qed

lemma evaluate_not_waived: "evaluateComplianceControl sum256 c k t \<in> {''pass'', ''fail''}"
  by (simp add: evaluateComplianceControl_def Let_def)

lemma control_finding_status:
  "fi_control (control_finding sum256 p i k t now s c) = cc_id c"
  "fi_status (control_finding sum256 p i k t now s c) =
     (if matchApprovedExceptionLocked i (cc_id c) k t now s \<noteq> None then ''waived'' else evaluateComplianceControl sum256 (cc_id c) k t)"
  by (simp_all add: control_finding_def Let_def split: option.split)

lemma scan_waives_parts:
  assumes s: "s = cr_store (compliance_run ops)" and r: "RunScan sum256 now t1 t2 inp s = (s', Inr x)"
  shows "\<exists>p. mget (co_profiles s) (sc_profile x) = Some p \<and> map fi_control (sc_findings x) = map cc_id (cp_controls p)"
    and "\<forall>f \<in> set (sc_findings x). fi_status f =
      (if \<exists>k. waiver s x (fi_control f) now k then ''waived'' else evaluateComplianceControl sum256 (fi_control f) (sc_kind x) (sc_target x))"
    and "\<forall>c k. waiver s x c now k \<longrightarrow> approved_in ops k \<and> (\<exists>y. mget (co_exceptions s) k = Some y \<and> ce_created y < ce_expires y \<and> ce_expires y \<le> ce_created y + year_ns)"
    and "sc_status x = (if \<exists>f \<in> set (sc_findings x). fi_status f = ''fail'' then ''fail'' else ''pass'')"
proof -
  have ok: "store_ok s" using compliance_run_inv [of ops] by (simp add: compliance_inv_def s)
  have wf: "wf_map (co_exceptions s)" using ok by (simp add: store_ok_def store_inv_def)
  obtain p where p: "mget (co_profiles s) (TrimSpace (si_profile inp)) = Some p" "sc_profile x = cp_id p"
      "sc_findings x = map (control_finding sum256 p (TrimSpace (si_profile inp)) (sc_kind x) (sc_target x) t1 (expireExceptionsLocked now s)) (cp_controls p)"
      "sc_score x = scan_score (sc_findings x)" "sc_status x = (if sc_score x < 100 then ''fail'' else ''pass'')" and t1: "sc_started x = t1"
    using r by (auto simp: RunScan_def Let_def split: if_splits option.splits)
  have id: "TrimSpace (si_profile inp) = sc_profile x" using ok p(1,2) by (auto simp: store_ok_def profile_ok_def dest: items_okD)
  show "\<exists>p. mget (co_profiles s) (sc_profile x) = Some p \<and> map fi_control (sc_findings x) = map cc_id (cp_controls p)"
    using p(1,3) unfolding id by (simp add: control_finding_status comp_def)
  show st: "\<forall>f \<in> set (sc_findings x). fi_status f =
      (if \<exists>k. waiver s x (fi_control f) now k then ''waived'' else evaluateComplianceControl sum256 (fi_control f) (sc_kind x) (sc_target x))"
    unfolding p(3) id t1 [symmetric] by (auto simp: control_finding_status match_waiver [OF wf] simp del: not_None_eq)
  show "\<forall>c k. waiver s x c now k \<longrightarrow> approved_in ops k \<and> (\<exists>y. mget (co_exceptions s) k = Some y \<and> ce_created y < ce_expires y \<and> ce_expires y \<le> ce_created y + year_ns)"
    using approved_history [of ops] ok unfolding s waiver_def store_ok_def exception_ok_def by (blast dest: items_okD)
  have "(\<forall>f \<in> set (sc_findings x). fi_status f = ''waived'' \<or> fi_status f = ''pass'') \<longleftrightarrow> \<not> (\<exists>f \<in> set (sc_findings x). fi_status f = ''fail'')"
    using st evaluate_not_waived [of sum256 _ "sc_kind x" "sc_target x"] by (fastforce split: if_splits)
  then show "sc_status x = (if \<exists>f \<in> set (sc_findings x). fi_status f = ''fail'' then ''fail'' else ''pass'')"
    unfolding p(4,5) scan_score_full by simp
qed

text \<open>C38: after every history, a scan has one finding for each control of its profile, in order. The finding is a waiver exactly when an exception for that
  profile, control and target is approved and has not run out; that exception was approved by a call that found it pending before its expiry, and its term was at most a year.
  The other findings are the evaluation of the control, and the scan passes exactly when no finding is a failure.\<close>

theorem scan_waives_exactly:
  assumes "s = cr_store (compliance_run ops)" and "RunScan sum256 now t1 t2 inp s = (s', Inr x)"
  shows "(\<exists>p. mget (co_profiles s) (sc_profile x) = Some p \<and> map fi_control (sc_findings x) = map cc_id (cp_controls p)) \<and>
    (\<forall>f \<in> set (sc_findings x). fi_status f =
      (if \<exists>k. waiver s x (fi_control f) now k then ''waived'' else evaluateComplianceControl sum256 (fi_control f) (sc_kind x) (sc_target x))) \<and>
    (\<forall>c k. waiver s x c now k \<longrightarrow> approved_in ops k \<and> (\<exists>y. mget (co_exceptions s) k = Some y \<and> ce_created y < ce_expires y \<and> ce_expires y \<le> ce_created y + year_ns)) \<and>
    sc_status x = (if \<exists>f \<in> set (sc_findings x). fi_status f = ''fail'' then ''fail'' else ''pass'')"
  by (intro conjI scan_waives_parts [OF assms])

section \<open>Continuous scans\<close>

text \<open>C39: however the calls interleave, two continuous configurations never have the same profile and target, and the last scan that a configuration names is a stored scan of
  its own profile and target, although the lock is released between the scan and the record of it.\<close>

theorem continuous_scan_recorded:
  assumes s: "s = cr_store (compliance_run ops)" and c: "mget (co_configs s) k = Some c"
  shows "(cs_last_scan c \<noteq> [] \<longrightarrow> (\<exists>x. mget (co_scans s) (cs_last_scan c) = Some x \<and> sc_profile x = cs_profile c \<and> sc_kind x = cs_kind c \<and> sc_target x = cs_target c)) \<and>
    60 \<le> cs_interval c \<and> cs_interval c \<le> 86400 \<and>
    (\<forall>k' c'. mget (co_configs s) k' = Some c' \<longrightarrow> same_target (cs_profile c) (cs_kind c) (cs_target c) c' \<longrightarrow> k' = k)"
proof -
  have ok: "store_ok s" using compliance_run_inv [of ops] by (simp add: compliance_inv_def s)
  have "config_ok (co_scans s) k c" using ok c by (auto simp: store_ok_def dest: items_okD)
  moreover have "\<forall>k' c'. mget (co_configs s) k' = Some c' \<longrightarrow> same_target (cs_profile c) (cs_kind c) (cs_target c) c' \<longrightarrow> k' = k"
    using ok c unfolding store_ok_def targets_distinct_def by blast
  ultimately show ?thesis unfolding config_ok_def scanned_def by blast
qed

section \<open>Scorecards\<close>

definition agg_of :: "scan list \<Rightarrow> score_agg" where
  "agg_of xs = \<lparr>ag_scans = int (length xs), ag_pass = int (length (filter (\<lambda>x. sc_status x = ''pass'') xs)), ag_fail = int (length (filter (\<lambda>x. sc_status x \<noteq> ''pass'') xs)),
     ag_total = sum_list (map sc_score xs), ag_last = Max (insert 0 (sc_ended ` set xs))\<rparr>"

lemma agg_of_snoc: "agg_of (xs @ [x]) = add_scan x (agg_of xs)"
proof -
  let ?M = "Max (insert 0 (sc_ended ` set xs))"
  have "insert 0 (sc_ended ` set (xs @ [x])) = insert (sc_ended x) (insert 0 (sc_ended ` set xs))" by auto
  then have "Max (insert 0 (sc_ended ` set (xs @ [x]))) = max (sc_ended x) ?M" by (simp del: Max_insert add: Max_insert [of "insert 0 (sc_ended ` set xs)"])
  then have "Max (insert 0 (sc_ended ` set (xs @ [x]))) = (if ?M < sc_ended x then sc_ended x else ?M)" by (simp only: max_def not_le [symmetric] split: if_split) blast
  then show ?thesis unfolding agg_of_def add_scan_def by (simp del: Max_insert set_append)
qed

abbreviation of_key :: "string \<Rightarrow> string \<Rightarrow> scan list \<Rightarrow> scan list" where
  "of_key d k xs \<equiv> filter (\<lambda>x. scorecardDimensionKey x d = k) xs"

lemma aggregate_get:
  "mget (fold (aggregate_scan d) xs []) k = (if k = [] \<or> of_key d k xs = [] then None else Some (agg_of (of_key d k xs)))"
proof (induction xs rule: rev_induct)
  case (snoc x xs)
  have zero: "\<lparr>ag_scans = 0, ag_pass = 0, ag_fail = 0, ag_total = 0, ag_last = 0\<rparr> = agg_of []" by (simp add: agg_of_def)
  show ?case
  proof (cases "scorecardDimensionKey x d = [] \<or> scorecardDimensionKey x d \<noteq> k")
    case False
    then have k: "k \<noteq> []" "scorecardDimensionKey x d = k" by auto
    then have "mget_or (agg_of []) (fold (aggregate_scan d) xs []) k = agg_of (of_key d k xs)" using snoc by (simp add: mget_or_def)
    then show ?thesis using k by (simp add: aggregate_scan_def [of d x] zero agg_of_snoc)
  qed (use snoc in \<open>auto simp: aggregate_scan_def Let_def\<close>)
qed simp

lemma aggregate_wf: "wf_map m \<Longrightarrow> wf_map (fold (aggregate_scan d) xs m)"
  by (induction xs arbitrary: m) (simp_all add: aggregate_scan_def Let_def)

lemma sum_scores_nonneg: "\<forall>x \<in> set xs. 0 \<le> sc_score x \<Longrightarrow> 0 \<le> sum_list (map sc_score xs)"
  by (induction xs) simp_all

text \<open>the scorecards of a dimension have exactly one card for each key that a scan has, best average first and then by key; a card counts the scans of its key, those that passed
  and those that did not, and has their average score and the time of the last one.\<close>

theorem scorecards_exact:
  assumes s: "s = cr_store (compliance_run ops)" and xs: "xs = map snd (co_scans s)" and d: "d \<in> {''team'', ''environment'', ''service''}"
  shows "\<exists>cards. ScorecardsByDimension d s = Inr cards \<and> sorted_wrt (\<lambda>a b. (- sd_average a, sd_key a) \<le> (- sd_average b, sd_key b)) cards \<and>
    distinct (map sd_key cards) \<and> sd_key ` set cards = (\<lambda>x. scorecardDimensionKey x d) ` set xs - {[]} \<and>
    (\<forall>c \<in> set cards. let ys = of_key d (sd_key c) xs in sd_scans c = int (length ys) \<and> sd_pass c = int (length (filter (\<lambda>x. sc_status x = ''pass'') ys)) \<and>
       sd_fail c = sd_scans c - sd_pass c \<and> sd_average c = sum_list (map sc_score ys) div int (length ys) \<and> sd_last c = Max (insert 0 (sc_ended ` set ys)))"
proof -
  let ?m = "fold (aggregate_scan d) xs []"
  define cards where "cards = sort_key (\<lambda>c. (- sd_average c, sd_key c)) (map (scorecard_of d) ?m)"
  have "lower_trim ''team'' = ''team'' \<and> lower_trim ''environment'' = ''environment'' \<and> lower_trim ''service'' = ''service''" by code_simp
  then have "ScorecardsByDimension d s = Inr cards" using d unfolding ScorecardsByDimension_def Let_def cards_def xs by auto
  moreover have "sorted_wrt (\<lambda>a b. (- sd_average a, sd_key a) \<le> (- sd_average b, sd_key b)) cards"
    unfolding cards_def using sorted_sort_key [of "\<lambda>c. (- sd_average c, sd_key c)"] by (simp add: sorted_map)
  moreover have wf: "wf_map ?m" by (simp add: aggregate_wf)
  have keys: "map sd_key (map (scorecard_of d) ?m) = mkeys ?m" by (auto simp: scorecard_of_def)
  have "distinct (map sd_key cards)"
  proof -
    have "mset (map sd_key cards) = mset (mkeys ?m)" unfolding keys [symmetric] cards_def by (simp only: mset_map mset_sort)
    then show ?thesis using wf unfolding wf_map_def by (metis mset_eq_imp_distinct_iff)
  qed
  moreover have "sd_key ` set cards = (\<lambda>x. scorecardDimensionKey x d) ` set xs - {[]}"
  proof -
    have "sd_key ` set cards = set (map sd_key (map (scorecard_of d) ?m))" by (simp add: cards_def image_image)
    also have "\<dots> = {k. mget ?m k \<noteq> None}" unfolding keys set_mkeys dom_def ..
    also have "\<dots> = (\<lambda>x. scorecardDimensionKey x d) ` set xs - {[]}" unfolding aggregate_get by (auto simp: filter_empty_conv)
    finally show ?thesis .
  qed
  moreover have "let ys = of_key d (sd_key c) xs in sd_scans c = int (length ys) \<and> sd_pass c = int (length (filter (\<lambda>x. sc_status x = ''pass'') ys)) \<and>
       sd_fail c = sd_scans c - sd_pass c \<and> sd_average c = sum_list (map sc_score ys) div int (length ys) \<and> sd_last c = Max (insert 0 (sc_ended ` set ys))"
    if c: "c \<in> set cards" for c
  proof -
    obtain e where "e \<in> set ?m" "c = scorecard_of d e" using c unfolding cards_def by auto
    then obtain k a where ka: "(k, a) \<in> set ?m" "c = scorecard_of d (k, a)" by (metis surj_pair)
    let ?ys = "of_key d k xs"
    have "mget ?m k = Some a" using ka(1) wf_map_mem [OF wf] by blast
    then have a: "a = agg_of ?ys" "?ys \<noteq> []" unfolding aggregate_get by (auto split: if_splits)
    have "store_ok s" using compliance_run_inv [of ops] by (simp add: compliance_inv_def s)
    then have "0 \<le> sc_score x" if "x \<in> set xs" for x
      using that set_values [of "co_scans s" x] unfolding xs by (auto simp: store_ok_def store_inv_def scan_ok_def dest: items_okD simp del: set_map)
    then have "0 \<le> sum_list (map sc_score ?ys)" by (intro sum_scores_nonneg) auto
    moreover have "int (length (filter (\<lambda>x. sc_status x \<noteq> ''pass'') ?ys)) = int (length ?ys) - int (length (filter (\<lambda>x. sc_status x = ''pass'') ?ys))"
      using sum_length_filter_compl [of "\<lambda>x. sc_status x = ''pass''" ?ys] by linarith
    moreover have "0 < int (length ?ys)" using a(2) by simp
    ultimately show ?thesis using a(2) unfolding ka(2) a(1) by (simp add: scorecard_of_def agg_of_def go_div_nonneg Let_def del: filter_filter)
  qed
  ultimately show ?thesis by blast
qed

section \<open>Examples\<close>

definition demo_ops :: "compliance_op list" where
  "demo_ops =
     [KProfile 1 \<lparr>ci_name = ''base'', ci_framework = ''CIS'', ci_version = [], ci_controls = [\<lparr>cc_id = ''c1'', cc_description = ''ssh'', cc_severity = []\<rparr>]\<rparr>,
      KException 2 \<lparr>ei_profile = ''compliance-profile-1'', ei_control = ''c1'', ei_kind = ''host'', ei_target = ''h'', ei_reason = ''legacy'', ei_requested_by = ''ann'',
        ei_expires = ''0001-01-02T00:00:00Z''\<rparr>,
      KApprove 3 ''compliance-exception-1'' ''bob'' [],
      KScan (\<lambda>s. [CHR 0x00]) 4 4 5 \<lparr>si_profile = ''compliance-profile-1'', si_kind = ''host'', si_target = ''g'', si_team = ''core'', si_environment = [], si_service = []\<rparr>,
      KConfig 5 \<lparr>ni_profile = ''compliance-profile-1'', ni_kind = ''host'', ni_target = ''h'', ni_interval = 0, ni_enabled = None\<rparr>,
      KBegin ''compliance-continuous-1'', KContinue (\<lambda>s. [CHR 0x00]) 6 6 7 0, KContinue (\<lambda>s. []) 8 8 8 0]"

definition demo_scan :: scan_input where
  "demo_scan = \<lparr>si_profile = ''compliance-profile-1'', si_kind = ''host'', si_target = ''h'', si_team = [], si_environment = [], si_service = []\<rparr>"

text \<open>The control fails on both hosts; on the one with an approved exception it is waived.\<close>

theorem scan_waives_exactly_witness:
  "\<exists>s' x. RunScan (\<lambda>s. [CHR 0x00]) 9 9 10 demo_scan (cr_store (compliance_run demo_ops)) = (s', Inr x) \<and> sc_status x = ''pass'' \<and>
     (\<exists>k. waiver (cr_store (compliance_run demo_ops)) x ''c1'' 9 k \<and> approved_in demo_ops k)"
proof -
  define s where "s = cr_store (compliance_run demo_ops)"
  have "(case RunScan (\<lambda>s. [CHR 0x00]) 9 9 10 demo_scan s of (s', Inr x) \<Rightarrow> map (\<lambda>f. (fi_control f, fi_status f)) (sc_findings x) = [(''c1'', ''waived'')] \<and> sc_kind x = ''host'' \<and> sc_target x = ''h'' | _ \<Rightarrow> False)"
    unfolding s_def by code_simp
  then obtain s' x where x: "RunScan (\<lambda>s. [CHR 0x00]) 9 9 10 demo_scan s = (s', Inr x)" "map (\<lambda>f. (fi_control f, fi_status f)) (sc_findings x) = [(''c1'', ''waived'')]"
      "sc_kind x = ''host''" "sc_target x = ''h''"
    by (auto split: prod.splits sum.splits)
  then obtain f where f: "sc_findings x = [f]" "fi_control f = ''c1''" "fi_status f = ''waived''" by auto
  note claim = scan_waives_exactly [OF s_def x(1)]
  have "evaluateComplianceControl (\<lambda>s. [CHR 0x00]) ''c1'' ''host'' ''h'' = ''fail''" by code_simp
  then obtain k where "waiver s x ''c1'' 9 k" using claim f x(3,4) by (auto split: if_splits)
  moreover have "sc_status x = ''pass''" using claim f by simp
  ultimately show ?thesis using x(1) claim unfolding s_def by blast
qed

theorem continuous_scan_recorded_witness:
  "\<exists>c x. mget (co_configs (cr_store (compliance_run demo_ops))) ''compliance-continuous-1'' = Some c \<and>
     mget (co_scans (cr_store (compliance_run demo_ops))) (cs_last_scan c) = Some x \<and> sc_target x = cs_target c"
proof -
  define s where "s = cr_store (compliance_run demo_ops)"
  have "(case mget (co_configs s) ''compliance-continuous-1'' of None \<Rightarrow> False | Some c \<Rightarrow> cs_last_scan c \<noteq> [])" unfolding s_def by code_simp
  then obtain c where c: "mget (co_configs s) ''compliance-continuous-1'' = Some c" "cs_last_scan c \<noteq> []" by (auto split: option.splits)
  show ?thesis using continuous_scan_recorded [OF s_def c(1)] c unfolding s_def by auto
qed

theorem scorecards_exact_witness:
  "\<exists>c. ScorecardsByDimension ''team'' (cr_store (compliance_run demo_ops)) = Inr [c] \<and> sd_key c = ''core'' \<and> sd_fail c = 1"
proof -
  define s where "s = cr_store (compliance_run demo_ops)"
  have one: "(case ScorecardsByDimension ''team'' s of Inr [c] \<Rightarrow> sd_key c = ''core'' | _ \<Rightarrow> False)" unfolding s_def by code_simp
  obtain cards where cards: "ScorecardsByDimension ''team'' s = Inr cards" and
    "\<forall>c \<in> set cards. let ys = of_key ''team'' (sd_key c) (map snd (co_scans s)) in sd_scans c = int (length ys) \<and>
       sd_pass c = int (length (filter (\<lambda>x. sc_status x = ''pass'') ys)) \<and> sd_fail c = sd_scans c - sd_pass c"
    using scorecards_exact [OF s_def refl, of "''team''"] unfolding Let_def by auto
  moreover from one cards obtain c where "cards = [c]" "sd_key c = ''core''" by (auto split: list.splits)
  moreover have "length (of_key ''team'' ''core'' (map snd (co_scans s))) = 1 \<and>
      length (filter (\<lambda>x. sc_status x = ''pass'') (of_key ''team'' ''core'' (map snd (co_scans s)))) = 0" unfolding s_def by code_simp
  ultimately show ?thesis unfolding s_def [symmetric] by (simp add: Let_def)
qed

end
