(* ===== verification/Evidence.thy ===== *)
theory Evidence
  imports Compliance Rulebook
begin

text \<open>
  The export of the evidence of a scan (\<^verbatim>\<open>ExportEvidence\<close> and \<^verbatim>\<open>sarifResults\<close> of src/internal/control/compliance.go). \<open>marshal\<close> is the parameter for
  \<^verbatim>\<open>json.MarshalIndent\<close> on a value whose structs and maps are objects; a time whose year has more than four digits is an error of the encoding. The
  quoting rules of \<^verbatim>\<open>encoding/csv\<close> are written out.

  Shown: a reader of comma-separated values gets back exactly the header and one row for each finding, whatever characters the fields contain
  (\<open>csv_evidence_round_trip\<close>).
\<close>

section \<open>Comma-separated values\<close>

definition field_needs_quotes :: "string \<Rightarrow> bool" where
  "field_needs_quotes f \<longleftrightarrow> f \<noteq> [] \<and>
     (f = [CHR 0x5C, CHR ''.''] \<or> list_ex (\<lambda>c. c = CHR 0x0A \<or> c = CHR 0x0D \<or> c = CHR 0x22 \<or> c = CHR '','') f \<or> space_width wide_spaces f \<noteq> 0)"

definition csv_field :: "string \<Rightarrow> string" where
  "csv_field f = (if field_needs_quotes f then CHR 0x22 # concat (map (\<lambda>c. if c = CHR 0x22 then [c, c] else [c]) f) @ [CHR 0x22] else f)"

definition csv_record :: "string list \<Rightarrow> string" where
  "csv_record fs = Join (map csv_field fs) '','' @ [CHR 0x0A]"

section \<open>The export\<close>

definition json_time :: "gotime \<Rightarrow> json result" where
  "json_time t =
     (let y = fst (civil (t div 86400000000000))
      in if y < 0 \<or> y > 9999 then Inl ''json: error calling MarshalJSON for type time.Time'' else Inr (JStr (format_rfc3339nano t)))"

definition finding_json :: "finding \<Rightarrow> json" where
  "finding_json f = JObj [(''control_id'', JStr (fi_control f)), (''status'', JStr (fi_status f)), (''severity'', JStr (fi_severity f)),
     (''message'', JStr (fi_message f)), (''evidence'', JStr (fi_evidence f))]"

abbreviation omit_empty :: "string \<Rightarrow> string \<Rightarrow> (string \<times> json) list" where
  "omit_empty k v \<equiv> (if v = [] then [] else [(k, JStr v)])"

definition scan_json :: "scan \<Rightarrow> json result" where
  "scan_json x =
     (case (json_time (sc_started x), json_time (sc_ended x)) of
        (Inr started, Inr ended) \<Rightarrow>
          Inr (JObj ([(''id'', JStr (sc_id x)), (''profile_id'', JStr (sc_profile x)), (''target_kind'', JStr (sc_kind x)), (''target_name'', JStr (sc_target x))] @
            omit_empty ''team'' (sc_team x) @ omit_empty ''environment'' (sc_environment x) @ omit_empty ''service'' (sc_service x) @
            [(''status'', JStr (sc_status x)), (''score'', JNum (strconv_Itoa (sc_score x))), (''started_at'', started), (''ended_at'', ended),
             (''findings'', JArr (map finding_json (sc_findings x)))]))
      | (Inl e, _) \<Rightarrow> Inl e
      | (_, Inl e) \<Rightarrow> Inl e)"

definition sarifResults :: "scan \<Rightarrow> json list" where
  "sarifResults x =
     map (\<lambda>f. JObj [(''ruleId'', JStr (fi_control f)), (''level'', JStr (if fi_status f = ''fail'' then ''error'' else ''note'')),
       (''message'', JObj [(''text'', JStr (fi_message f))]),
       (''properties'', JObj [(''severity'', JStr (fi_severity f)), (''status'', JStr (fi_status f)), (''evidence'', JStr (fi_evidence f)),
         (''target'', JStr (sc_kind x @ ''/'' @ sc_target x))])]) (sc_findings x)"

definition csv_header :: "string list" where
  "csv_header = [''scan_id'', ''profile_id'', ''target_kind'', ''target_name'', ''control_id'', ''status'', ''severity'', ''message'', ''evidence'']"

definition csv_row :: "scan \<Rightarrow> finding \<Rightarrow> string list" where
  "csv_row x f = [sc_id x, sc_profile x, sc_kind x, sc_target x, fi_control f, fi_status f, fi_severity f, fi_message f, fi_evidence f]"

definition sarif_payload :: "scan \<Rightarrow> json" where
  "sarif_payload x =
     JObj [(''version'', JStr ''2.1.0''), (''$schema'', JStr ''https://json.schemastore.org/sarif-2.1.0.json''),
       (''runs'', JArr [JObj [(''tool'', JObj [(''driver'', JObj [(''name'', JStr ''masterchef-compliance''), (''version'', JStr ''v1'')])]),
          (''results'', JArr (sarifResults x))]])]"

definition ExportEvidence :: "(json \<Rightarrow> string result) \<Rightarrow> gotime \<Rightarrow> string \<Rightarrow> string \<Rightarrow> compliance_store \<Rightarrow> (string \<times> string) result" where
  "ExportEvidence marshal now scanID format s =
     (case GetScan scanID s of
        None \<Rightarrow> Inl ''compliance scan not found''
      | Some x \<Rightarrow>
          let format = lower_trim format
          in if format = [] \<or> format = ''json'' then
               (case (scan_json x, json_time now) of
                  (Inr scan, Inr generated) \<Rightarrow>
                    (case marshal (JObj [(''scan'', scan), (''generated'', generated), (''format'', JStr ''json'')]) of
                       Inl e \<Rightarrow> Inl e
                     | Inr out \<Rightarrow> Inr (out, ''application/json''))
                | (Inl e, _) \<Rightarrow> Inl e
                | (_, Inl e) \<Rightarrow> Inl e)
             else if format = ''csv'' then Inr (concat (map csv_record (csv_header # map (csv_row x) (sc_findings x))), ''text/csv'')
             else if format = ''sarif'' then
               (case marshal (sarif_payload x) of Inl e \<Rightarrow> Inl e | Inr out \<Rightarrow> Inr (out, ''application/sarif+json''))
             else Inl ''unsupported evidence format'')"

section \<open>Reading comma-separated values\<close>

text \<open>A reader: quotes at the start of a field open it, doubled quotes inside stand for one, and a line feed outside of quotes ends the row.\<close>

datatype csv_mode = AtStart | Plain | InQuotes | AfterQuote

fun csv_rows :: "csv_mode \<Rightarrow> string \<Rightarrow> string list \<Rightarrow> string \<Rightarrow> string list list" where
  "csv_rows m cur row [] = (if m = AtStart \<and> row = [] then [] else [row @ [cur]])"
| "csv_rows m cur row (c # cs) =
     (if m = InQuotes then (if c = CHR 0x22 then csv_rows AfterQuote cur row cs else csv_rows InQuotes (cur @ [c]) row cs)
      else if m = AfterQuote \<and> c = CHR 0x22 then csv_rows InQuotes (cur @ [c]) row cs
      else if m = AtStart \<and> c = CHR 0x22 then csv_rows InQuotes cur row cs
      else if c = CHR '','' then csv_rows AtStart [] (row @ [cur]) cs
      else if c = CHR 0x0A then (row @ [cur]) # csv_rows AtStart [] [] cs
      else csv_rows Plain (cur @ [c]) row cs)"

definition csv_read :: "string \<Rightarrow> string list list" where
  "csv_read s = csv_rows AtStart [] [] s"

text \<open>What a reader does at the separator after a field.\<close>

fun field_end :: "string list \<Rightarrow> string \<Rightarrow> string \<Rightarrow> string list list" where
  "field_end row f [] = []"
| "field_end row f (c # cs) = (if c = CHR '','' then csv_rows AtStart [] (row @ [f]) cs else (row @ [f]) # csv_rows AtStart [] [] cs)"

definition separator :: "char \<Rightarrow> bool" where
  "separator c \<longleftrightarrow> c = CHR '','' \<or> c = CHR 0x0A"

lemma rows_at_separator: "separator c \<Longrightarrow> m \<noteq> InQuotes \<Longrightarrow> csv_rows m f row (c # cs) = field_end row f (c # cs)"
  by (auto simp: separator_def)

lemma rows_quoted:
  "csv_rows InQuotes cur row (concat (map (\<lambda>c. if c = CHR 0x22 then [c, c] else [c]) f) @ CHR 0x22 # cs) = csv_rows AfterQuote (cur @ f) row cs"
  by (induction f arbitrary: cur) simp_all

lemma rows_plain:
  assumes "\<forall>x \<in> set f. x \<noteq> CHR 0x22 \<and> \<not> separator x" "m = AtStart \<or> m = Plain"
  shows "\<exists>m'. (m' = AtStart \<or> m' = Plain) \<and> csv_rows m cur row (f @ cs) = csv_rows m' (cur @ f) row cs"
  using assms
proof (induction f arbitrary: m cur)
  case (Cons x f)
  have "csv_rows m cur row ((x # f) @ cs) = csv_rows Plain (cur @ [x]) row (f @ cs)"
    using Cons.prems by (auto simp: separator_def)
  then show ?case using Cons.IH [of Plain "cur @ [x]"] Cons.prems(1) by auto
qed auto

lemma rows_field: "separator c \<Longrightarrow> csv_rows AtStart [] row (csv_field f @ c # cs) = field_end row f (c # cs)"
proof (cases "field_needs_quotes f")
  case True
  assume c: "separator c"
  have "csv_rows AtStart [] row (csv_field f @ c # cs) = csv_rows AfterQuote f row (c # cs)"
    using rows_quoted [of "[]" row f "c # cs"] True by (simp add: csv_field_def)
  then show ?thesis using rows_at_separator [OF c, of AfterQuote] by simp
next
  case False
  assume c: "separator c"
  have "\<forall>x \<in> set f. x \<noteq> CHR 0x22 \<and> \<not> separator x" using False by (auto simp: field_needs_quotes_def separator_def list_ex_iff)
  from rows_plain [OF this, of AtStart "[]" row "c # cs"] show ?thesis
    using rows_at_separator [OF c, of AtStart] rows_at_separator [OF c, of Plain] False by (auto simp: csv_field_def simp del: csv_rows.simps)
qed

lemma rows_record: "fs \<noteq> [] \<Longrightarrow> csv_rows AtStart [] row (csv_record fs @ cs) = (row @ fs) # csv_rows AtStart [] [] cs"
proof (induction fs arbitrary: row)
  case (Cons f fs)
  show ?case
  proof (cases fs)
    case Nil
    then show ?thesis using rows_field [of "CHR 0x0A" row f cs] by (simp add: csv_record_def separator_def del: csv_rows.simps)
  next
    case (Cons g gs)
    have "csv_record (f # fs) @ cs = csv_field f @ CHR '','' # csv_record fs @ cs" by (simp add: csv_record_def Cons)
    then show ?thesis using rows_field [of "CHR '',''" row f "csv_record fs @ cs"] Cons.IH [of "row @ [f]"] Cons by (simp add: separator_def del: csv_rows.simps)
  qed
qed simp

lemma csv_read_records: "[] \<notin> set rows \<Longrightarrow> csv_read (concat (map csv_record rows)) = rows"
proof -
  have "[] \<notin> set rows \<Longrightarrow> csv_rows AtStart [] [] (concat (map csv_record rows)) = rows"
  proof (induction rows)
    case (Cons r rows)
    then show ?case using rows_record [of r "[]" "concat (map csv_record rows)"] by (auto simp del: csv_rows.simps)
  qed simp
  then show "[] \<notin> set rows \<Longrightarrow> csv_read (concat (map csv_record rows)) = rows" by (simp add: csv_read_def)
qed

text \<open>C40: the evidence of a stored scan exported as comma-separated values is read back as the header and one row per finding, whatever quotes, commas, line feeds
  and spaces its fields contain.\<close>

theorem csv_evidence_round_trip:
  assumes "GetScan scanID s = Some x" "lower_trim format = ''csv''"
  shows "\<exists>text. ExportEvidence marshal now scanID format s = Inr (text, ''text/csv'') \<and> 
    csv_read text = [''scan_id'', ''profile_id'', ''target_kind'', ''target_name'', ''control_id'', ''status'', ''severity'', ''message'', ''evidence''] #
      map (\<lambda>f. [sc_id x, sc_profile x, sc_kind x, sc_target x, fi_control f, fi_status f, fi_severity f, fi_message f, fi_evidence f]) (sc_findings x)"
proof -
  have "[] \<notin> set (csv_header # map (csv_row x) (sc_findings x))" by (auto simp: csv_header_def csv_row_def)
  from csv_read_records [OF this] show ?thesis using assms by (simp add: ExportEvidence_def Let_def csv_header_def csv_row_def [abs_def])
qed

definition demo_evidence :: compliance_store where
  "demo_evidence = NewComplianceStore\<lparr>co_scans := [(''s1'', \<lparr>sc_id = ''s1'', sc_profile = ''p'', sc_kind = ''host'', sc_target = ''h'', sc_team = [], sc_environment = [],
     sc_service = [], sc_status = ''pass'', sc_score = 100, sc_started = 0, sc_ended = 0,
     sc_findings = [\<lparr>fi_control = ''a,b'', fi_status = ''pass'', fi_severity = ''low'', fi_message = [CHR 0x22, CHR 0x0A], fi_evidence = '' x''\<rparr>]\<rparr>)]\<rparr>"

theorem csv_evidence_round_trip_witness:
  "\<exists>text. ExportEvidence (\<lambda>v. Inr []) 0 ''s1'' ''CSV'' demo_evidence = Inr (text, ''text/csv'') \<and>
     tl (csv_read text) = [[''s1'', ''p'', ''host'', ''h'', ''a,b'', ''pass'', ''low'', [CHR 0x22, CHR 0x0A], '' x'']]"
proof -
  have "map_option (\<lambda>x. map (csv_row x) (sc_findings x)) (GetScan ''s1'' demo_evidence) = Some [[''s1'', ''p'', ''host'', ''h'', ''a,b'', ''pass'', ''low'', [CHR 0x22, CHR 0x0A], '' x'']]"
    and f: "lower_trim ''CSV'' = ''csv''" by code_simp+
  then obtain x where x: "GetScan ''s1'' demo_evidence = Some x" "map (csv_row x) (sc_findings x) = [[''s1'', ''p'', ''host'', ''h'', ''a,b'', ''pass'', ''low'', [CHR 0x22, CHR 0x0A], '' x'']]" by auto
  from csv_evidence_round_trip [OF x(1) f, of "\<lambda>v. Inr []" 0] show ?thesis unfolding csv_row_def [symmetric] x(2) by auto
qed

end
