(* ===== verification/Spec2Isabelle.thy ===== *)
theory Spec2Isabelle
  imports Planner Checker RunStore ConfigTools PlanViews RunLease ExecLocks Guards Scheduler Canary Workflow
    AccessControl BreakGlass AccessTokens RoleEnv Rollouts Fleet Capacity Backlog
    TaskRuns PackageRegistry Evidence
begin

text \<open>
  \<^bold>\<open>Verification of masterchef\<close>, a configuration management system in Go.

  \<^bold>\<open>The program.\<close> A configuration (hosts, resources, handlers) is read from YAML or JSON files, composed, expanded,
  validated (src/internal/config), turned into an ordered plan (src/internal/planner) and either checked
  (src/internal/checker) or carried out step by step through providers and transports (src/internal/executor,
  src/internal/provider); the result is saved as a run record (src/internal/state). A control plane
  (src/internal/control) queues such runs as jobs with priorities for one worker, and around the queue keeps
  schedules, canaries, workflows, run templates, leases, locks and budgets. An HTTP server and a command line expose it all.

  \<^bold>\<open>The theories\<close>, from the bottom up, each with the source it models:

  \<^item> \<open>Prelude\<close>: maps, results, times and integers of Go, and the locales \<open>string_map\<close> (what a map promises) and \<open>stepper\<close>
    (a state whose operations keep an invariant). \<open>GoStrings\<close>, \<open>GoTime\<close>, \<open>GoOS\<close>: what the program uses of
    strings, strconv, time, os and path/filepath.
  \<^item> \<open>ConfigModel\<close> (config/model.go), \<open>ConfigValidate\<close> (config/validate.go): \<open>Validate\<close> returns the normalised
    configuration or the first error; its results are exactly its fixed points (\<open>valid_config\<close>).
  \<^item> \<open>ConfigExpand\<close> (config/expand.go), \<open>ConfigLoad\<close> (config/load.go), \<open>ConfigTools\<close> (config/canonicalize.go,
    config/doctor.go): matrix and loop expansion; the recursive composition of files, which loads exactly when
    every file that is reached parses and none reaches itself; the canonical form.
  \<^item> \<open>DepGraph\<close>: the abstract specification of topological ordering as a locale. \<open>Planner\<close> (planner/plan.go): \<open>Build\<close>
    refines it: dependencies are respected, failure means a cycle, the order of the input does not matter.
    \<open>PlanViews\<close> (planner/graph.go, graph_query.go, analysis.go, snapshot.go): dependency queries, plan comparison, DOT.
  \<^item> \<open>Provider\<close> (provider/*.go), \<open>Checker\<close> (checker/checker.go): the file and command providers are idempotent and
    respect their guards; the dry run predicts what they do.
  \<^item> \<open>ExecShell\<close>, \<open>ExecSerial\<close>, \<open>ExecStep\<close>, \<open>Executor\<close> (executor/executor.go): quoting and escalation, retry delays, the
    serial strategy, one attempt with its hooks and backups, the retry loop and \<open>Apply\<close> with its strategies,
    refreshes and handlers.
  \<^item> \<open>RunStore\<close> (state/store.go, control/runner.go): saving, reading and listing run records, and \<open>ApplyPath\<close>, the
    path from a file to a saved record.
  \<^item> \<open>Queue\<close>, \<open>QueueSystem\<close> (control/queue.go): the operations of the queue, and the worker goroutine as a state machine
    that interleaves with the clients (\<open>worker_step\<close>, \<open>reachable\<close>); invariants, idempotence keys, life cycle of a
    job, fairness and progress. \<open>JobService\<close>: the contract that the queue offers to orchestrators, as a locale that is
    interpreted on the queue with its worker.
  \<^item> \<open>Stores\<close>: the locale \<open>counter_store\<close> of the stores that name their items by a counter. \<open>RunLease\<close>
    (control/run_lease.go), \<open>ExecLocks\<close> (execution_locks.go), \<open>Guards\<close> (disruption_budget.go, execution_checkpoints.go,
    stuck_recovery.go), \<open>Scheduler\<close> (scheduler.go, maintenance.go), \<open>Canary\<close> (canary.go), \<open>Templates\<close> (templates.go),
    \<open>Workflow\<close> (workflow.go, on top of \<open>JobService\<close> and \<open>Templates\<close>).
  \<^item> \<open>ControlUtil\<close>: what the stores below share, with the locale \<open>last_writer\<close>. \<open>AccessControl\<close> (control/rbac.go, abac.go),
    \<open>BreakGlass\<close> (access_approvals.go), \<open>AccessTokens\<close> (jit_grants.go, delegation_tokens.go): an answer is exactly what roles, policies,
    quorums and token uses allow. \<open>Variables\<close> (variables.go, pillar.go), \<open>RoleEnv\<close> (roleenv.go): precedence and
    inheritance of attributes.
  \<^item> \<open>Rollouts\<close> (reboot_orchestration.go, upgrade_orchestration.go, gitops_promotion.go, change_records.go), \<open>Fleet\<close> (node_lifecycle.go,
    agent_checkin.go, agent_dispatch.go, channels.go, canary_upgrade.go): waves, promotions, the states of nodes, the
    check-in window and the strategy of a dispatch. \<open>Capacity\<close> (tenant_limits.go, worker_autoscaling.go): admission and convergence.
  \<^item> \<open>EventLog\<close> (events.go), \<open>Rulebook\<close> (rulebook.go), \<open>Alerts\<close> (alert_inbox.go), \<open>Delivery\<close> (webhook.go, notification_router.go,
    event_bus.go): the hash chain, the rules with their cooldowns, deduplication of alerts, counted deliveries (locale
    \<open>delivery_counters\<close>). \<open>EventPipeline\<close> (\<^verbatim>\<open>recordEvent\<close> and \<^verbatim>\<open>executeRuleAction\<close> of server/server.go) composes them
    with workflows and queue; \<open>Backlog\<close> (queue_backlog_slo.go and \<^verbatim>\<open>observeQueueBacklog\<close>, \<^verbatim>\<open>maybeAutoRecoverStuck\<close> of server.go) puts the
    watch over the queue on top.
  \<^item> \<open>TaskModel\<close>, \<open>TaskRuns\<close> (task_framework.go): typed parameters and their masking; executions as state machines that refine a run without interruption, are
    predicted by previews and end. \<open>PackageRegistry\<close> (package_registry.go): the publication gate. \<open>TimeParse\<close> (\<^verbatim>\<open>time.Parse\<close>), \<open>Compliance\<close>, \<open>Evidence\<close> (compliance.go):
    waivers, continuous scans, scorecards, and the export, which is read back.

  \<^bold>\<open>How code becomes definitions.\<close> A struct is a record with the source's fields, a method a function on the state with
  the time of the call as an argument, an error return the left side of a sum. Each method that holds its mutex throughout is
  one step; where the code releases the lock (the worker, timer loops, \<^verbatim>\<open>dispatchStep\<close> of a workflow) it is
  several steps, and the theorems quantify over all interleavings of them with all other operations. A Go map is an
  association list in the order of a \<^verbatim>\<open>range\<close>; results that could depend on this order are shown not to, or sorted as
  in the code. Go's \<^verbatim>\<open>int\<close> is \<open>int\<close> with \<open>wrap64\<close> written where the program's inputs can leave 64 bits (retry delays,
  durations). Loops with a bound in the code are structural recursions; the others (\<open>kahn\<close>, \<open>attempt_loop\<close>,
  \<open>traverse_loop\<close>, \<open>loadComposedConfig\<close>, \<open>render_loop\<close>) have termination proofs, so no fuel is used.
  Parameters stand for what is outside: the shell, ssh and PowerShell, sha256, ed25519 and base64, the JSON and YAML codecs, the
  clock and the working directory. Where a property needs a law of one of them (decoding undoes encoding), it is a hypothesis.

  \<^bold>\<open>What is shown\<close> spans all of this: from the file to the saved record (\<open>ApplyPath_end_to_end\<close>), the correctness of each stage,
  the safety and progress of the queue under every interleaving, and the contracts of the stores around it. Some theorems
  record behaviour that the code does not intend: the edge keys of the planner can collide (\<open>Build_arrow_collision\<close>), a
  worker that waits ignores a pause (\<open>pause_leaks_one_job\<close>), serial batches can break dependencies
  (\<open>serial_breaks_dependencies\<close>), a workflow can miss the completion of its first job (\<open>workflow_lost_completion\<close>), the
  job of an expired lock releases its successor (\<open>expired_job_releases_new_lock\<close>), loading bypasses checks of the
  validation (\<open>Load_bypasses_checks\<close>), queries miss relations (\<open>QueryGraph_misses_require\<close>), suppressed alerts are sent
  (\<open>suppressed_alert_notifies\<close>), a saturated queue raises no alert and may never report its recovery
  (\<open>saturation_raises_no_alert\<close>, \<open>saturation_recovery_lost\<close>), a change runs without its approvals (\<open>change_executes_without_approval\<close>),
  a cancelled execution ends as succeeded (\<open>canceled_execution_succeeds\<close>), a listed key is not trusted (\<open>listed_key_not_trusted\<close>).

  \<^bold>\<open>Simplifications.\<close> Strings are byte strings and case mapping is that of ASCII. Directories exist through the files in
  them; reading fails only for missing files. \<^verbatim>\<open>sort.Slice\<close> is stable. Times do not overflow. Timer durations and
  random jitter are abstracted: a waiting timer may fire at any time. Clones are identities because values are not shared.

  \<^bold>\<open>Not modelled.\<close> The handlers of the HTTP server, the gRPC facade and the command line (decoding and printing around the
  components), the record-keeping stores of src/internal/control that take no part in the path from a configuration to an applied plan
  (secrets with crypto/aes, certificates, policy bundles, migration and other scoring by floating point), release signing, object storage
  and the repository's own tools. The subscriber that the server registers with the queue calls the event pipeline from inside the operations
  of the queue; here the pipeline is composed with the queue, and the updates that it publishes are kept as a list.
\<close>

section \<open>From a validated configuration to a plan\<close>

text \<open>C4: a configuration that \<^verbatim>\<open>Validate\<close> accepts, with no arrow in its identifiers, gets a
  plan exactly when its relations are acyclic; every step of that plan carries one of the
  configuration's resources and the inventory host that this resource (or its delegate) names,
  with a transport that an executor can dispatch on (never \<^verbatim>\<open>auto\<close>).\<close>

theorem validated_config_plans:
  assumes "Validate (Some c) = Inr c'" and "arrow_free c"
  shows "(is_ok (Build c') \<longleftrightarrow> acyclic (cfg_edges c')) \<and>
    (\<forall>p. Build c' = Inr p \<longrightarrow> (\<forall>s \<in> set (pl_steps p). st_resource s \<in> set (cfg_resources c') \<and>
       h_name (st_host s) = exec_host (st_resource s) \<and>
       h_name (st_host s) \<in> set (map h_name (cfg_hosts c')) \<and>
       concrete_transport (h_transport (st_host s))))"
proof -
  have v: "valid_config c'" and ids: "res_ids c' = res_ids c"
    using Validate_Inr_valid [OF assms(1)] by blast+
  then have a: "arrow_free c'" using assms(2) by (simp add: arrow_free_def)
  have hosts: "host_ok h" if "h \<in> set (cfg_hosts c')" for h
    using v that by (simp add: valid_config_def list_all_iff)
  have step: "st_resource s \<in> set (cfg_resources c') \<and> h_name (st_host s) = exec_host (st_resource s) \<and>
      h_name (st_host s) \<in> set (map h_name (cfg_hosts c')) \<and> concrete_transport (h_transport (st_host s))"
    if p: "Build c' = Inr p" and s: "s \<in> set (pl_steps p)" for p s
  proof -
    obtain h where "h \<in> set (cfg_hosts c')" "h_name h = exec_host (st_resource s)"
        "st_host s = resolveHostTransport h" and "st_resource s \<in> set (cfg_resources c')"
      using plan_step_host [OF v a p s] by blast
    with resolve_concrete [OF hosts] show ?thesis by (simp add: rev_image_eqI)
  qed
  have "is_ok (Build c') \<longleftrightarrow> acyclic (cfg_edges c')"
    unfolding is_ok_Build by (rule plan_length_iff_acyclic [OF valid_plan_ready [OF v a]])
  with step show ?thesis by blast
qed

theorem validated_config_plans_witness:
  "\<exists>p. Build demo_config = Inr p \<and> (\<forall>s \<in> set (pl_steps p). concrete_transport (h_transport (st_host s)))"
proof -
  have "arrow_free raw_config" by code_simp
  from validated_config_plans [OF Validate_raw this] have
    "\<forall>p. Build demo_config = Inr p \<longrightarrow> (\<forall>s \<in> set (pl_steps p). concrete_transport (h_transport (st_host s)))"
    by blast
  moreover have "is_ok (Build demo_config)" by code_simp
  ultimately show ?thesis unfolding is_ok_iff by blast
qed

end
